(* ===== verification/Prelude.thy ===== *)
theory Prelude
  imports Main "HOL-Library.Word" "HOL-Library.Code_Target_Numeral"
begin

text \<open>
  Shared ground of the development: the exceptions the C++ code throws and the result
  type that carries them, 64-bit signed integers with the order the code compares them by,
  the little-endian byte encoding of machine words, and the list lemmas several components
  use.

  Conventions of the whole library:
  \<^item> \<open>std::vector\<close> and \<open>std::string\<close> are lists; an index into an in-memory container
    (\<open>std::size_t\<close>) is a \<open>nat\<close>, since no container reaches \<open>2 ^ 64\<close> elements;
  \<^item> fields the code stores on disk or declares with a width keep it: \<open>uint8_t\<close>,
    \<open>uint32_t\<close> and \<open>uint64_t\<close> are words, \<open>int64_t\<close> is the type \<open>i64\<close> below;
  \<^item> an exception is \<open>Inl\<close> of an \<open>exn\<close>, normal return is \<open>Inr\<close>.
\<close>

unbundle bit_operations_syntax

named_theorems codec \<open>length and decoding facts of the binary formats\<close>
named_theorems res_simps \<open>evaluation of the exception monad\<close>

section \<open>Exceptions and results\<close>

text \<open>A place in the text of a query, as \<open>parser/token.hpp\<close> has it; parse errors carry one.\<close>

record source_position =
  sp_pos :: nat
  sp_line :: nat
  sp_position_in_line :: nat

text \<open>
  One constructor per exception class the code throws, with its message: those of the
  standard library, \<open>ParseError\<close> of \<open>parser/error.hpp\<close>, and the four subclasses of
  \<open>BindError\<close> of \<open>executor/error.hpp\<close>.
\<close>

datatype exn =
    RuntimeError string
  | InvalidArgument string
  | LogicError string
  | OutOfRange string
  | LengthError string
  | BadVariantAccess
  | Failure string
  | ParseError string source_position
  | TableNotFoundError string
  | ColumnNotFoundError string
  | TypeMismatchError string
  | InvalidQueryError string

type_synonym 'a res = "exn + 'a"

definition rbind :: "'a res \<Rightarrow> ('a \<Rightarrow> 'b res) \<Rightarrow> 'b res" where
  "rbind m f = (case m of Inl e \<Rightarrow> Inl e | Inr x \<Rightarrow> f x)"

lemma rbind_Inl [simp, res_simps]: "rbind (Inl e) f = Inl e"
  and rbind_Inr [simp, res_simps]: "rbind (Inr x) f = f x"
  by (simp_all add: rbind_def)

lemma rbind_eq_Inr: "rbind m f = Inr y \<longleftrightarrow> (\<exists>x. m = Inr x \<and> f x = Inr y)"
  by (cases m) auto

lemma rbind_eq_InrE:
  assumes "rbind m f = Inr y"
  obtains x where "m = Inr x" "f x = Inr y"
  using assms by (auto simp: rbind_eq_Inr)

lemma rbind_eq_Inl: "rbind m f = Inl e \<longleftrightarrow> m = Inl e \<or> (\<exists>x. m = Inr x \<and> f x = Inl e)"
  by (cases m) auto

lemma rbind_cong [fundef_cong]:
  "m = m' \<Longrightarrow> (\<And>x. m' = Inr x \<Longrightarrow> f x = f' x) \<Longrightarrow> rbind m f = rbind m' f'"
  by (cases m) auto

text \<open>A loop that threads a state through an operation that may throw.\<close>

fun rfold :: "('a \<Rightarrow> 's \<Rightarrow> 's res) \<Rightarrow> 'a list \<Rightarrow> 's \<Rightarrow> 's res" where
  "rfold f [] s = Inr s"
| "rfold f (x # xs) s = rbind (f x s) (rfold f xs)"

lemma rfold_append: "rfold f (xs @ ys) s = rbind (rfold f xs s) (rfold f ys)"
  by (induction xs arbitrary: s) (auto simp: rbind_def split: sum.splits)

lemma rfold_snoc: "rfold f (xs @ [x]) s = rbind (rfold f xs s) (f x)"
  by (simp add: rfold_append) (auto simp: rbind_def split: sum.splits)

text \<open>A loop that collects the results of an operation that may throw.\<close>

fun rmap :: "('a \<Rightarrow> 'b res) \<Rightarrow> 'a list \<Rightarrow> 'b list res" where
  "rmap f [] = Inr []"
| "rmap f (x # xs) = rbind (f x) (\<lambda>y. rbind (rmap f xs) (\<lambda>ys. Inr (y # ys)))"

lemma rmap_Inr_iff: "rmap f xs = Inr ys \<longleftrightarrow> list_all2 (\<lambda>x y. f x = Inr y) xs ys"
  by (induction xs arbitrary: ys) (auto simp: rbind_eq_Inr list_all2_Cons1)

lemma rmap_ok: "(\<And>x. x \<in> set xs \<Longrightarrow> \<exists>y. f x = Inr y) \<Longrightarrow> \<exists>ys. rmap f xs = Inr ys"
proof (induction xs)
  case (Cons x xs)
  obtain y where "f x = Inr y" using Cons.prems [of x] by auto
  moreover obtain ys where "rmap f xs = Inr ys" using Cons by auto
  ultimately show ?case by simp
qed simp

lemma rmap_pure: "(\<And>x. x \<in> set xs \<Longrightarrow> f x = Inr (g x)) \<Longrightarrow> rmap f xs = Inr (map g xs)"
  by (induction xs) auto

text \<open>Loops that may throw or not end: \<open>None\<close> is a loop that does not end.\<close>

definition obind :: "'a res option \<Rightarrow> ('a \<Rightarrow> 'b res option) \<Rightarrow> 'b res option" where
  "obind m f = (case m of None \<Rightarrow> None | Some (Inl e) \<Rightarrow> Some (Inl e) | Some (Inr x) \<Rightarrow> f x)"

lemma obind_simps [simp]:
  "obind None f = None" "obind (Some (Inl e)) f = Some (Inl e)" "obind (Some (Inr x)) f = f x"
  by (simp_all add: obind_def)

lemma obind_eq_Some:
  "obind m f = Some r \<longleftrightarrow>
     (\<exists>e. m = Some (Inl e) \<and> r = Inl e) \<or> (\<exists>x. m = Some (Inr x) \<and> f x = Some r)"
  by (auto simp: obind_def split: option.splits sum.splits)

lemma obind_cong [fundef_cong]:
  "m = m' \<Longrightarrow> (\<And>x. m' = Some (Inr x) \<Longrightarrow> f x = f' x) \<Longrightarrow> obind m f = obind m' f'"
  by (auto simp: obind_def split: option.splits sum.splits)

section \<open>Signed 64-bit integers\<close>

datatype i64 = I64 (i64_bits: "64 word")

definition i64_val :: "i64 \<Rightarrow> int" where
  "i64_val a = sint (i64_bits a)"

definition i64_of :: "int \<Rightarrow> i64" where
  "i64_of n = I64 (word_of_int n)"

lemma i64_val_inject: "i64_val a = i64_val b \<longleftrightarrow> a = b"
  by (cases a; cases b) (auto simp: i64_val_def dest: signed_word_eqI)

instantiation i64 :: linorder
begin

definition less_eq_i64 :: "i64 \<Rightarrow> i64 \<Rightarrow> bool" where
  "less_eq_i64 a b \<longleftrightarrow> i64_val a \<le> i64_val b"

definition less_i64 :: "i64 \<Rightarrow> i64 \<Rightarrow> bool" where
  "less_i64 a b \<longleftrightarrow> i64_val a < i64_val b"

instance
  by standard (auto simp: less_eq_i64_def less_i64_def i64_val_inject)

end

text \<open>\<open>std::numeric_limits<int64_t>::max()\<close> and \<open>min()\<close>.\<close>

definition i64_max :: i64 where
  "i64_max = I64 0x7FFFFFFFFFFFFFFF"

definition i64_min :: i64 where
  "i64_min = I64 0x8000000000000000"

lemma i64_val_max: "i64_val i64_max = 2 ^ 63 - 1"
  by (simp add: i64_val_def i64_max_def)

lemma i64_val_min: "i64_val i64_min = - (2 ^ 63)"
  by (simp add: i64_val_def i64_min_def)

lemma i64_val_bounds: "- (2 ^ 63) \<le> i64_val a" "i64_val a < 2 ^ 63"
  using sint_range_size [of "i64_bits a"] by (auto simp: i64_val_def word_size)

lemma i64_le_max [simp]: "a \<le> i64_max"
  using i64_val_bounds [of a] by (simp add: less_eq_i64_def i64_val_max)

lemma i64_min_le [simp]: "i64_min \<le> a"
  using i64_val_bounds [of a] by (simp add: less_eq_i64_def i64_val_min)

lemma i64_min_max_absorb [simp]:
  "min i64_max a = a" "min a i64_max = a" "max i64_min a = a" "max a i64_min = a"
  by (simp_all add: min_def max_def antisym)

text \<open>\<open>key + 1\<close>: the code only adds one to a key that is not the maximum.\<close>

definition i64_succ :: "i64 \<Rightarrow> i64" where
  "i64_succ a = I64 (i64_bits a + 1)"

lemma i64_val_succ:
  assumes "a \<noteq> i64_max"
  shows "i64_val (i64_succ a) = i64_val a + 1"
proof -
  have "i64_val a \<noteq> 2 ^ 63 - 1"
    using assms i64_val_inject [of a i64_max] by (simp add: i64_val_max)
  with i64_val_bounds [of a] have *: "- (2 ^ 63) \<le> i64_val a + 1" "i64_val a + 1 < 2 ^ 63"
    by auto
  have "sint (i64_bits a + 1) = signed_take_bit 63 (sint (i64_bits a) + 1)"
    by (simp add: sint_word_ariths)
  also have "\<dots> = sint (i64_bits a) + 1"
    using * by (intro signed_take_bit_int_eq_self) (simp_all add: i64_val_def)
  finally show ?thesis
    by (simp add: i64_succ_def i64_val_def)
qed

lemma i64_less_succ_iff: "a \<noteq> i64_max \<Longrightarrow> b < i64_succ a \<longleftrightarrow> b \<le> a"
  by (simp add: less_i64_def less_eq_i64_def i64_val_succ)

lemma i64_succ_le_iff: "a \<noteq> i64_max \<Longrightarrow> i64_succ a \<le> b \<longleftrightarrow> a < b"
  by (auto simp: less_i64_def less_eq_i64_def i64_val_succ)


section \<open>Bytes and little-endian words\<close>

type_synonym byte = "8 word"

text \<open>\<open>std::string\<close> holds chars, the files hold \<open>uint8_t\<close>: the same eight bits.\<close>

definition byte_of_char :: "char \<Rightarrow> byte" where
  "byte_of_char c = word_of_nat (of_char c)"

definition char_of_byte :: "byte \<Rightarrow> char" where
  "char_of_byte b = char_of (unat b)"

lemma char_of_byte_of_char [simp, codec]: "char_of_byte (byte_of_char c) = c"
proof -
  have "(of_char c :: nat) < 256" by simp
  then have "unat (word_of_nat (of_char c) :: byte) = of_char c"
    by (simp add: unat_of_nat)
  then show ?thesis by (simp add: char_of_byte_def byte_of_char_def)
qed

lemma char_of_byte_comp [simp, codec]: "char_of_byte \<circ> byte_of_char = id"
  by (simp add: fun_eq_iff)

primrec le_bytes :: "nat \<Rightarrow> 'a::len word \<Rightarrow> byte list" where
  "le_bytes 0 w = []"
| "le_bytes (Suc n) w = ucast w # le_bytes n (drop_bit 8 w)"

primrec le_word :: "byte list \<Rightarrow> 'a::len word" where
  "le_word [] = 0"
| "le_word (b # bs) = ucast b OR push_bit 8 (le_word bs)"

lemma length_le_bytes [simp, codec]: "length (le_bytes n w) = n"
  by (induction n arbitrary: w) auto

lemma le_word_le_bytes_take: "le_word (le_bytes n w) = take_bit (8 * n) w"
proof (induction n arbitrary: w)
  case 0
  then show ?case by simp
next
  case (Suc n)
  have "ucast (ucast w :: byte) OR push_bit 8 (take_bit (8 * n) (drop_bit 8 w)) = take_bit (8 * Suc n) w"
    by (rule bit_word_eqI) (auto simp: bit_simps not_le)
  then show ?case by (simp add: Suc.IH)
qed

lemma le_word_le_bytes [simp, codec]:
  fixes w :: "'a::len word"
  assumes "LENGTH('a) \<le> 8 * n"
  shows "le_word (le_bytes n w) = w"
  using assms by (simp add: le_word_le_bytes_take take_bit_word_eq_self)

text \<open>
  Reading a fixed number of bytes from what is left of a buffer. The code keeps a position
  into the buffer and throws when \<open>pos + size > data.size()\<close>; here the unread rest of the
  buffer is passed on instead of the position.
\<close>

definition read_bytes :: "exn \<Rightarrow> nat \<Rightarrow> byte list \<Rightarrow> (byte list \<times> byte list) res" where
  "read_bytes e n bs = (if length bs < n then Inl e else Inr (take n bs, drop n bs))"

definition read_le :: "exn \<Rightarrow> nat \<Rightarrow> byte list \<Rightarrow> ('a::len word \<times> byte list) res" where
  "read_le e n bs = rbind (read_bytes e n bs) (\<lambda>(xs, rest). Inr (le_word xs, rest))"

definition read_i64 :: "exn \<Rightarrow> byte list \<Rightarrow> (i64 \<times> byte list) res" where
  "read_i64 e bs = rbind (read_le e 8 bs) (\<lambda>(w, rest). Inr (I64 w, rest))"

lemma read_bytes_append [simp, codec]: "length xs = n \<Longrightarrow> read_bytes e n (xs @ rest) = Inr (xs, rest)"
  by (simp add: read_bytes_def)

lemma read_bytes_short: "length bs < n \<Longrightarrow> read_bytes e n bs = Inl e"
  by (simp add: read_bytes_def)

lemma read_le_append [simp, codec]:
  fixes w :: "'a::len word"
  assumes "LENGTH('a) \<le> 8 * n"
  shows "read_le e n (le_bytes n w @ rest) = Inr (w, rest)"
  using assms by (simp add: read_le_def)

lemma read_i64_append [simp, codec]:
  "read_i64 e (le_bytes 8 (i64_bits k) @ rest) = Inr (k, rest)"
  by (simp add: read_i64_def)

lemma read_le_exact [simp, codec]:
  fixes w :: "'a::len word"
  assumes "LENGTH('a) \<le> 8 * n"
  shows "read_le e n (le_bytes n w) = Inr (w, [])"
  using read_le_append [OF assms, of e w "[]"] by simp

lemma read_le_short: "length bs < n \<Longrightarrow> read_le e n bs = Inl e"
  by (simp add: read_le_def read_bytes_short)

lemma read_i64_short: "length bs < 8 \<Longrightarrow> read_i64 e bs = Inl e"
  by (simp add: read_i64_def read_le_short)

lemma read_bytes_length: "read_bytes e n bs = Inr (xs, rest) \<Longrightarrow> length rest + n = length bs"
  by (auto simp: read_bytes_def split: if_splits)

end
