(* ===== verification/Double.thy ===== *)
theory Double
  imports Prelude
begin

text \<open>
  The C++ \<open>double\<close> as the program uses it on its storage side: a 64-bit pattern that is
  copied byte for byte, compared with \<open><\<close> and \<open>==\<close>, tested with \<open>std::isnan\<close>, and made
  from an \<open>int64_t\<close> by \<open>static_cast<double>\<close>. The pattern is IEEE 754 binary64:
  bit 63 is the sign, bits 62..52 the exponent, bits 51..0 the fraction. Comparison reads the
  pattern without its sign as a magnitude, so the two zeros are equal and a NaN is unordered.
\<close>

datatype double = D64 (d64_bits: "64 word")

definition d64_mag :: "double \<Rightarrow> nat" where
  "d64_mag d = unat (d64_bits d AND 0x7FFFFFFFFFFFFFFF)"

definition d64_neg :: "double \<Rightarrow> bool" where
  "d64_neg d \<longleftrightarrow> bit (d64_bits d) 63"

definition d64_isnan :: "double \<Rightarrow> bool" where
  "d64_isnan d \<longleftrightarrow> d64_mag d > 0x7FF0000000000000"

definition d64_ord :: "double \<Rightarrow> int" where
  "d64_ord d = (if d64_neg d then - int (d64_mag d) else int (d64_mag d))"

definition d64_lt :: "double \<Rightarrow> double \<Rightarrow> bool" where
  "d64_lt a b \<longleftrightarrow> \<not> d64_isnan a \<and> \<not> d64_isnan b \<and> d64_ord a < d64_ord b"

definition d64_le :: "double \<Rightarrow> double \<Rightarrow> bool" where
  "d64_le a b \<longleftrightarrow> \<not> d64_isnan a \<and> \<not> d64_isnan b \<and> d64_ord a \<le> d64_ord b"

definition d64_eq :: "double \<Rightarrow> double \<Rightarrow> bool" where
  "d64_eq a b \<longleftrightarrow> \<not> d64_isnan a \<and> \<not> d64_isnan b \<and> d64_ord a = d64_ord b"

definition d64_zero :: double where
  "d64_zero = D64 0"

text \<open>\<open>std::min\<close> and \<open>std::max\<close> return their first argument unless the second is strictly better.\<close>

definition d64_min :: "double \<Rightarrow> double \<Rightarrow> double" where
  "d64_min a b = (if d64_lt b a then b else a)"

definition d64_max :: "double \<Rightarrow> double \<Rightarrow> double" where
  "d64_max a b = (if d64_lt a b then b else a)"

lemma d64_lt_irrefl [simp]: "\<not> d64_lt a a"
  by (simp add: d64_lt_def)

lemma d64_lt_nan [simp]: "d64_isnan a \<Longrightarrow> \<not> d64_lt a b" "d64_isnan b \<Longrightarrow> \<not> d64_lt a b"
  by (simp_all add: d64_lt_def)

lemma d64_not_lt: "\<not> d64_isnan a \<Longrightarrow> \<not> d64_isnan b \<Longrightarrow> \<not> d64_lt a b \<longleftrightarrow> d64_le b a"
  by (auto simp: d64_lt_def d64_le_def)

lemma d64_le_refl [simp]: "d64_le a a \<longleftrightarrow> \<not> d64_isnan a"
  by (simp add: d64_le_def)

lemma d64_le_trans: "d64_le a b \<Longrightarrow> d64_le b c \<Longrightarrow> d64_le a c"
  by (auto simp: d64_le_def)

lemma d64_lt_le_trans: "d64_lt a b \<Longrightarrow> d64_le b c \<Longrightarrow> d64_lt a c"
  by (auto simp: d64_lt_def d64_le_def)

lemma d64_le_lt_trans: "d64_le a b \<Longrightarrow> d64_lt b c \<Longrightarrow> d64_lt a c"
  by (auto simp: d64_lt_def d64_le_def)

lemma d64_le_not_nan: "d64_le a b \<Longrightarrow> \<not> d64_isnan a \<and> \<not> d64_isnan b"
  by (simp add: d64_le_def)

lemma d64_min_le:
  assumes "\<not> d64_isnan a" "\<not> d64_isnan b"
  shows "d64_le (d64_min a b) a" "d64_le (d64_min a b) b"
  using assms by (auto simp: d64_min_def d64_lt_def d64_le_def)

lemma d64_max_ge:
  assumes "\<not> d64_isnan a" "\<not> d64_isnan b"
  shows "d64_le a (d64_max a b)" "d64_le b (d64_max a b)"
  using assms by (auto simp: d64_max_def d64_lt_def d64_le_def)

section \<open>From \<open>int64_t\<close>, rounding to nearest, ties to even\<close>

fun flog2 :: "nat \<Rightarrow> nat" where
  "flog2 n = (if n \<le> 1 then 0 else Suc (flog2 (n div 2)))"

declare flog2.simps [simp del]

lemma flog2_bounds: "0 < n \<Longrightarrow> 2 ^ flog2 n \<le> n \<and> n < 2 ^ Suc (flog2 n)"
proof (induction n rule: flog2.induct)
  case (1 n)
  show ?case
  proof (cases "n \<le> 1")
    case True
    with "1.prems" show ?thesis by (simp add: flog2.simps [of n])
  next
    case False
    then have "2 ^ flog2 (n div 2) \<le> n div 2 \<and> n div 2 < 2 ^ Suc (flog2 (n div 2))"
      using "1.IH" by simp
    then have "2 * 2 ^ flog2 (n div 2) \<le> n \<and> n < 2 * 2 ^ Suc (flog2 (n div 2))"
      by linarith
    with False show ?thesis by (simp add: flog2.simps [of n])
  qed
qed

lemma flog2_mono:
  assumes "0 < m" "m \<le> n"
  shows "flog2 m \<le> flog2 n"
proof (rule ccontr)
  assume "\<not> flog2 m \<le> flog2 n"
  then have "2 ^ Suc (flog2 n) \<le> (2 ^ flog2 m :: nat)" by (intro power_increasing) auto
  with flog2_bounds [of m] flog2_bounds [of n] assms show False by auto
qed

definition round_even :: "nat \<Rightarrow> nat \<Rightarrow> nat" where
  "round_even m d =
     (let q = m div d; r = m mod d in
      if 2 * r < d \<or> (2 * r = d \<and> even q) then q else q + 1)"

definition d64_mag_of_nat :: "nat \<Rightarrow> nat" where
  "d64_mag_of_nat m =
     (if m = 0 then 0
      else let e = flog2 m in
        (1022 + e) * 2 ^ 52 +
        (if e \<le> 52 then m * 2 ^ (52 - e) else round_even m (2 ^ (e - 52))))"

definition d64_of_i64 :: "i64 \<Rightarrow> double" where
  "d64_of_i64 k =
     (let n = i64_val k; mag = word_of_nat (d64_mag_of_nat (nat \<bar>n\<bar>)) in
      D64 (if n < 0 then set_bit 63 mag else mag))"

lemma round_even_mono:
  assumes "0 < d" "m \<le> n"
  shows "round_even m d \<le> round_even n d"
proof (cases "m div d = n div d")
  case True
  have "m = d * (m div d) + m mod d" "n = d * (m div d) + n mod d"
    using True by (metis mult_div_mod_eq)+
  with assms(2) have "m mod d \<le> n mod d" by linarith
  with True show ?thesis by (auto simp: round_even_def Let_def)
next
  case False
  with div_le_mono [OF assms(2), of d] have "m div d + 1 \<le> n div d" by linarith
  moreover have "round_even m d \<le> m div d + 1" "n div d \<le> round_even n d"
    by (simp_all add: round_even_def Let_def)
  ultimately show ?thesis by linarith
qed

lemma round_even_mult: "0 < d \<Longrightarrow> round_even (q * d) d = q"
  by (simp add: round_even_def Let_def)

text \<open>The significand part lies between \<open>2 ^ 52\<close> and \<open>2 ^ 53\<close>, both included.\<close>

definition d64_signif :: "nat \<Rightarrow> nat" where
  "d64_signif m = (let e = flog2 m in if e \<le> 52 then m * 2 ^ (52 - e) else round_even m (2 ^ (e - 52)))"

lemma d64_mag_of_nat_signif:
  "0 < m \<Longrightarrow> d64_mag_of_nat m = (1022 + flog2 m) * 2 ^ 52 + d64_signif m"
  by (simp add: d64_mag_of_nat_def d64_signif_def Let_def)

lemma d64_signif_bounds:
  assumes "0 < m"
  shows "2 ^ 52 \<le> d64_signif m \<and> d64_signif m \<le> 2 ^ 53"
proof -
  let ?e = "flog2 m"
  have b: "2 ^ ?e \<le> m" "m < 2 ^ Suc ?e" using flog2_bounds [OF assms] by auto
  show ?thesis
  proof (cases "?e \<le> 52")
    case True
    have "2 ^ ?e * 2 ^ (52 - ?e) = (2 ^ 52 :: nat)" "2 ^ Suc ?e * 2 ^ (52 - ?e) = (2 ^ 53 :: nat)"
      using True by (simp_all flip: power_add)
    moreover have "2 ^ ?e * 2 ^ (52 - ?e) \<le> m * 2 ^ (52 - ?e)"
      using b(1) by (rule mult_le_mono1)
    moreover have "m * 2 ^ (52 - ?e) \<le> 2 ^ Suc ?e * 2 ^ (52 - ?e)"
      using b(2) by (intro mult_le_mono1) simp
    ultimately show ?thesis using True by (simp only: d64_signif_def Let_def if_True)
  next
    case False
    let ?d = "2 ^ (?e - 52) :: nat"
    obtain k where k: "?e = 52 + k" using False by (metis nat_le_iff_add nat_le_linear)
    have "2 ^ 52 * ?d = 2 ^ ?e" "2 ^ 53 * ?d = 2 ^ Suc ?e"
      by (simp_all add: k power_add)
    then have "round_even (2 ^ 52 * ?d) ?d \<le> round_even m ?d" "round_even m ?d \<le> round_even (2 ^ 53 * ?d) ?d"
      using b by (intro round_even_mono; simp)+
    then show ?thesis using False by (simp add: round_even_mult d64_signif_def)
  qed
qed

lemma d64_mag_of_nat_mono:
  assumes "m \<le> n"
  shows "d64_mag_of_nat m \<le> d64_mag_of_nat n"
proof (cases "m = 0")
  case True
  then show ?thesis by (simp add: d64_mag_of_nat_def)
next
  case False
  with assms have pos: "0 < m" "0 < n" by auto
  have le: "flog2 m \<le> flog2 n" using pos(1) assms by (rule flog2_mono)
  show ?thesis
  proof (cases "flog2 m = flog2 n")
    case True
    then have "d64_signif m \<le> d64_signif n"
      using assms by (auto simp: d64_signif_def Let_def intro: round_even_mono)
    with True pos show ?thesis by (simp add: d64_mag_of_nat_signif)
  next
    case False
    with le have "1023 + flog2 m \<le> 1022 + flog2 n" by simp
    then have "(1023 + flog2 m) * 2 ^ 52 \<le> (1022 + flog2 n) * 2 ^ 52" by (rule mult_le_mono1)
    with d64_signif_bounds [OF pos(1)] d64_signif_bounds [OF pos(2)] show ?thesis
      by (simp add: d64_mag_of_nat_signif pos algebra_simps)
  qed
qed


lemma d64_mag_of_nat_bound:
  assumes "m \<le> 2 ^ 63"
  shows "d64_mag_of_nat m \<le> 1086 * 2 ^ 52"
proof -
  have "flog2 (2 ^ 63) = 63"
    by (simp add: flog2.simps)
  then have "d64_mag_of_nat (2 ^ 63) = 1086 * 2 ^ 52"
    by (simp add: d64_mag_of_nat_def round_even_def)
  with d64_mag_of_nat_mono [OF assms] show ?thesis by simp
qed

lemma d64_parts_of_mag:
  assumes "m < 2 ^ 63"
  shows "d64_mag (D64 (word_of_nat m)) = m" "d64_mag (D64 (set_bit 63 (word_of_nat m))) = m"
    "\<not> d64_neg (D64 (word_of_nat m))" "d64_neg (D64 (set_bit 63 (word_of_nat m)))"
proof -
  let ?w = "word_of_nat m :: 64 word"
  have m: "unat ?w = m" using assms by (simp add: unat_of_nat)
  have mask: "0x7FFFFFFFFFFFFFFF = (mask 63 :: 64 word)" by (simp add: mask_eq_exp_minus_1)
  have "unat (take_bit 63 ?w) = unat ?w"
    using assms by (simp add: unsigned_take_bit_eq m take_bit_nat_eq_self)
  then have t: "?w AND mask 63 = ?w"
    by (metis take_bit_eq_mask unsigned_word_eqI)
  show 1: "d64_mag (D64 ?w) = m"
    by (simp only: d64_mag_def double.sel mask t m)
  have b: "\<not> bit ?w 63"
    using arg_cong [OF t, of "\<lambda>w. bit w 63"] by (auto simp: bit_simps)
  then show "\<not> d64_neg (D64 ?w)" by (simp add: d64_neg_def)
  have "set_bit 63 ?w AND mask 63 = ?w AND mask 63"
    by (rule bit_word_eqI) (auto simp: bit_simps)
  then show "d64_mag (D64 (set_bit 63 ?w)) = m"
    by (simp only: d64_mag_def double.sel mask t m)
  show "d64_neg (D64 (set_bit 63 ?w))"
    by (simp add: d64_neg_def bit_simps)
qed

lemma d64_of_i64_parts:
  "d64_ord (d64_of_i64 k) =
     (if i64_val k < 0 then - int (d64_mag_of_nat (nat \<bar>i64_val k\<bar>))
      else int (d64_mag_of_nat (nat \<bar>i64_val k\<bar>)))"
  "\<not> d64_isnan (d64_of_i64 k)"
proof -
  define m where "m = d64_mag_of_nat (nat \<bar>i64_val k\<bar>)"
  have "nat \<bar>i64_val k\<bar> \<le> 2 ^ 63" using i64_val_bounds [of k] by auto
  then have b: "m \<le> 1086 * 2 ^ 52" unfolding m_def by (rule d64_mag_of_nat_bound)
  then have b': "m < 2 ^ 63" by simp
  have k: "d64_of_i64 k = D64 (if i64_val k < 0 then set_bit 63 (word_of_nat m) else word_of_nat m)"
    by (simp only: d64_of_i64_def Let_def m_def)
  note parts = d64_parts_of_mag [OF b']
  show "d64_ord (d64_of_i64 k) = (if i64_val k < 0 then - int (d64_mag_of_nat (nat \<bar>i64_val k\<bar>))
      else int (d64_mag_of_nat (nat \<bar>i64_val k\<bar>)))"
    unfolding m_def [symmetric] by (cases "i64_val k < 0") (simp_all add: k d64_ord_def parts)
  have "d64_mag (d64_of_i64 k) = m"
    by (simp add: k parts)
  with b show "\<not> d64_isnan (d64_of_i64 k)" by (simp add: d64_isnan_def)
qed

text \<open>The conversion is monotone: bounds on integers stay bounds after it.\<close>

lemma d64_of_i64_mono: "a \<le> b \<Longrightarrow> d64_le (d64_of_i64 a) (d64_of_i64 b)"
  by (auto simp: d64_le_def d64_of_i64_parts less_eq_i64_def intro!: d64_mag_of_nat_mono
      nat_mono)

end
