(* ===== verification/Types.thy ===== *)
theory Types
  imports Double
begin

text \<open>
  The data model of \<open>include/storage/api/types.hpp\<close>, \<open>include/storage/model/\<close> and
  \<open>src/storage/model/\<close>: column types, values, rows, schemas, and the schema builder with
  every check it makes; and the half-open key ranges of \<open>key_range.hpp\<close>.
\<close>

section \<open>Values, rows and key ranges\<close>

datatype value_type = INT64 | DOUBLE | STRING

datatype scan_order = Unordered | KeyAscending

type_synonym key = i64

text \<open>\<open>std::variant<int64_t, double, std::string>\<close>; \<open>None\<close> is SQL NULL.\<close>

datatype val = VInt i64 | VDouble double | VString string

type_synonym nullable_value = "val option"

type_synonym row = "nullable_value list"

definition KEY_COLUMN_INDEX :: nat where
  "KEY_COLUMN_INDEX = 0"

fun holds_type :: "value_type \<Rightarrow> val \<Rightarrow> bool" where
  "holds_type INT64 (VInt _) = True"
| "holds_type DOUBLE (VDouble _) = True"
| "holds_type STRING (VString _) = True"
| "holds_type _ _ = False"

text \<open>
  \<open>std::get<Key>(*row[KEY_COLUMN_INDEX])\<close>: indexing an empty row and dereferencing an empty
  optional are undefined behaviour in C++; both, like a wrong alternative of the variant,
  are an exceptional result here.
\<close>

definition row_key :: "row \<Rightarrow> key res" where
  "row_key r = (case r of Some (VInt k) # _ \<Rightarrow> Inr k | _ \<Rightarrow> Inl BadVariantAccess)"

lemma row_key_simps [simp]:
  "row_key (Some (VInt k) # r) = Inr k"
  by (simp add: row_key_def)

lemma row_key_eq_Inr: "row_key r = Inr k \<longleftrightarrow> (\<exists>r'. r = Some (VInt k) # r')"
  by (auto simp: row_key_def split: list.splits option.splits val.splits)

record key_range =
  kr_from :: "key option"
  kr_to :: "key option"

text \<open>\<open>contains(range, key)\<close>: the range is \<open>[from, to)\<close>, a missing bound is infinite.\<close>

definition contains :: "key_range \<Rightarrow> key \<Rightarrow> bool" where
  "contains rng k =
     (if (case kr_from rng of Some f \<Rightarrow> k < f | None \<Rightarrow> False) then False
      else if (case kr_to rng of Some t \<Rightarrow> k \<ge> t | None \<Rightarrow> False) then False
      else True)"

definition full_range :: key_range where
  "full_range = \<lparr>kr_from = None, kr_to = None\<rparr>"

lemma contains_full [simp]: "contains full_range k"
  by (simp add: contains_def full_range_def)

lemma contains_iff:
  "contains rng k \<longleftrightarrow>
     (\<forall>f. kr_from rng = Some f \<longrightarrow> f \<le> k) \<and> (\<forall>t. kr_to rng = Some t \<longrightarrow> k < t)"
  by (auto simp: contains_def not_less not_le split: option.splits)

section \<open>Schemas\<close>

record column =
  col_name :: string
  col_type :: value_type
  col_is_key :: bool
  col_nullable :: bool

record schema =
  columns :: "column list"
  name_to_index :: "string \<Rightarrow> nat option"

text \<open>The constructor: later columns of the same name overwrite earlier entries of the index.\<close>

definition Schema :: "column list \<Rightarrow> schema" where
  "Schema cs = \<lparr>columns = cs,
     name_to_index = fold (\<lambda>i m. m(col_name (cs ! i) \<mapsto> i)) [0..<length cs] Map.empty\<rparr>"

definition schema_size :: "schema \<Rightarrow> nat" where
  "schema_size s = length (columns s)"

definition get_column :: "schema \<Rightarrow> nat \<Rightarrow> column res" where
  "get_column s i =
     (if i \<ge> length (columns s) then Inl (OutOfRange ''Column index out of range'')
      else Inr (columns s ! i))"

definition get_column_index :: "schema \<Rightarrow> string \<Rightarrow> nat option" where
  "get_column_index s name = name_to_index s name"

definition is_valid_value :: "schema \<Rightarrow> nat \<Rightarrow> nullable_value \<Rightarrow> bool" where
  "is_valid_value s i v =
     (if i \<ge> length (columns s) then False
      else let col = columns s ! i in
        case v of
          None \<Rightarrow> col_nullable col
        | Some x \<Rightarrow> holds_type (col_type col) x)"

definition schema_types :: "schema \<Rightarrow> value_type list" where
  "schema_types s = map col_type (columns s)"

section \<open>The schema builder\<close>

record schema_builder =
  sb_columns :: "column list"
  sb_names :: "string set"
  sb_key_seen :: bool

definition SchemaBuilder :: schema_builder where
  "SchemaBuilder = \<lparr>sb_columns = [], sb_names = {}, sb_key_seen = False\<rparr>"

definition add_column ::
    "schema_builder \<Rightarrow> string \<Rightarrow> value_type \<Rightarrow> bool \<Rightarrow> bool \<Rightarrow> schema_builder res" where
  "add_column b name ty is_key nullable =
     (if name \<in> sb_names b then Inl (InvalidArgument (''Duplicate column name: '' @ name))
      else if is_key \<and> ty \<noteq> INT64 then Inl (RuntimeError ''Primary key must be INT64'')
      else if is_key \<and> nullable then Inl (RuntimeError ''Primary key must not be nullable'')
      else if is_key \<and> sb_key_seen b then
        Inl (RuntimeError ''Schema must contain only one primary key'')
      else if is_key \<and> length (sb_columns b) \<noteq> KEY_COLUMN_INDEX then
        Inl (RuntimeError ''Primary key must be at column index 0'')
      else Inr \<lparr>sb_columns = sb_columns b @
                  [\<lparr>col_name = name, col_type = ty, col_is_key = is_key, col_nullable = nullable\<rparr>],
                sb_names = insert name (sb_names b),
                sb_key_seen = (sb_key_seen b \<or> is_key)\<rparr>)"

definition build :: "schema_builder \<Rightarrow> schema res" where
  "build b =
     (if sb_columns b = [] then Inl (RuntimeError ''Schema must contain at least one column'')
      else if \<not> sb_key_seen b then
        Inl (RuntimeError ''Schema must contain exactly one primary key'')
      else Inr (Schema (sb_columns b)))"

text \<open>The calls \<open>add_column(..)\<close> one after the other, then \<open>build()\<close>.\<close>

definition build_schema :: "(string \<times> value_type \<times> bool \<times> bool) list \<Rightarrow> schema res" where
  "build_schema defs =
     rbind (rfold (\<lambda>(n, t, k, nu) b. add_column b n t k nu) defs SchemaBuilder) build"

text \<open>What the storage engine relies on: the key column is first, INT64 and not NULL.\<close>

definition schema_wf :: "schema \<Rightarrow> bool" where
  "schema_wf s \<longleftrightarrow>
     columns s \<noteq> [] \<and>
     (let k = hd (columns s) in col_is_key k \<and> col_type k = INT64 \<and> \<not> col_nullable k) \<and>
     (\<forall>c \<in> set (tl (columns s)). \<not> col_is_key c) \<and>
     distinct (map col_name (columns s)) \<and>
     s = Schema (columns s)"

definition valid_row :: "schema \<Rightarrow> row \<Rightarrow> bool" where
  "valid_row s r \<longleftrightarrow>
     length r = schema_size s \<and> (\<forall>i < length r. is_valid_value s i (r ! i))"

subsection \<open>The builder's invariant\<close>

definition builder_inv :: "schema_builder \<Rightarrow> bool" where
  "builder_inv b \<longleftrightarrow>
     sb_names b = set (map col_name (sb_columns b)) \<and>
     distinct (map col_name (sb_columns b)) \<and>
     (sb_key_seen b \<longrightarrow> sb_columns b \<noteq> [] \<and> col_is_key (hd (sb_columns b)) \<and>
        col_type (hd (sb_columns b)) = INT64 \<and> \<not> col_nullable (hd (sb_columns b)) \<and>
        (\<forall>c \<in> set (tl (sb_columns b)). \<not> col_is_key c)) \<and>
     (\<not> sb_key_seen b \<longrightarrow> (\<forall>c \<in> set (sb_columns b). \<not> col_is_key c))"

lemma builder_inv_init: "builder_inv SchemaBuilder"
  by (simp add: builder_inv_def SchemaBuilder_def)

lemma add_column_inv:
  assumes "builder_inv b" "add_column b n t k nu = Inr b'"
  shows "builder_inv b'"
  using assms
  by (cases "sb_columns b") (auto simp: builder_inv_def add_column_def KEY_COLUMN_INDEX_def split: if_splits)

lemma rfold_add_column_inv:
  assumes "builder_inv b" "rfold (\<lambda>(n, t, k, nu) b. add_column b n t k nu) defs b = Inr b'"
  shows "builder_inv b'"
  using assms
  by (induction defs arbitrary: b) (auto simp: rbind_eq_Inr dest: add_column_inv)

lemma build_schema_wf:
  assumes "build_schema defs = Inr s"
  shows "schema_wf s"
proof -
  obtain b where b: "rfold (\<lambda>(n, t, k, nu) b. add_column b n t k nu) defs SchemaBuilder = Inr b"
      and s: "build b = Inr s"
    using assms by (auto simp: build_schema_def elim: rbind_eq_InrE)
  from rfold_add_column_inv [OF builder_inv_init b] have "builder_inv b" .
  with s show ?thesis
    by (auto simp: build_def builder_inv_def schema_wf_def Schema_def split: if_splits)
qed

subsection \<open>Looking a column up by name\<close>

lemma name_index_fold:
  assumes "distinct (map col_name cs)" "n \<le> length cs"
  shows "fold (\<lambda>i m. m(col_name (cs ! i) \<mapsto> i)) [0..<n] Map.empty name = Some j \<longleftrightarrow>
         j < n \<and> col_name (cs ! j) = name"
  using assms(2)
proof (induction n)
  case 0
  then show ?case by simp
next
  case (Suc n)
  have inj: "i < length cs \<Longrightarrow> j < length cs \<Longrightarrow> col_name (cs ! i) = col_name (cs ! j) \<Longrightarrow> i = j" for i j
    using assms(1) by (metis distinct_map inj_on_def length_map nth_eq_iff_index_eq nth_map nth_mem)
  show ?case
    using Suc inj [of n j] by (auto simp: less_Suc_eq)
qed

lemma Schema_simps [simp]: "columns (Schema cs) = cs" "schema_size (Schema cs) = length cs"
  by (simp_all add: Schema_def schema_size_def)

lemma get_column_index_iff:
  assumes "schema_wf s"
  shows "get_column_index s name = Some j \<longleftrightarrow>
         j < schema_size s \<and> col_name (columns s ! j) = name"
proof -
  have s: "s = Schema (columns s)" and d: "distinct (map col_name (columns s))"
    using assms by (auto simp: schema_wf_def)
  have "name_to_index s = fold (\<lambda>i m. m(col_name (columns s ! i) \<mapsto> i)) [0..<length (columns s)] Map.empty"
    by (subst s) (simp add: Schema_def)
  then show ?thesis
    using name_index_fold [OF d order_refl] by (simp add: get_column_index_def schema_size_def)
qed

lemma schema_wf_size: "schema_wf s \<Longrightarrow> 0 < schema_size s"
  by (auto simp: schema_wf_def schema_size_def)

lemma valid_row_key:
  assumes "schema_wf s" "valid_row s r"
  shows "\<exists>k r'. r = Some (VInt k) # r'"
proof -
  obtain c cs where c: "columns s = c # cs" "col_type c = INT64" "\<not> col_nullable c"
    using assms(1) by (cases "columns s") (auto simp: schema_wf_def)
  obtain v r' where r: "r = v # r'"
    using assms(2) c by (cases r) (auto simp: valid_row_def schema_size_def)
  have "is_valid_value s 0 v"
    using assms(2) r by (auto simp: valid_row_def)
  then show ?thesis
    using c r by (cases v; cases "the v") (auto simp: is_valid_value_def)
qed

section \<open>Properties\<close>

definition column_of :: "string \<times> value_type \<times> bool \<times> bool \<Rightarrow> column" where
  "column_of d = (case d of (n, ty, is_key, nullable) \<Rightarrow>
     \<lparr>col_name = n, col_type = ty, col_is_key = is_key, col_nullable = nullable\<rparr>)"

text \<open>The column lists a schema may have: the key comes first, names differ.\<close>

definition columns_ok :: "column list \<Rightarrow> bool" where
  "columns_ok cs \<longleftrightarrow>
     (case cs of [] \<Rightarrow> False
      | k # vs \<Rightarrow> col_is_key k \<and> col_type k = INT64 \<and> \<not> col_nullable k \<and> list_all (\<lambda>c. \<not> col_is_key c) vs \<and>
          distinct (map col_name (k # vs)))"

lemma rfold_add_column:
  "rfold (\<lambda>(n, t, k, nu) b. add_column b n t k nu) defs b = Inr b' \<Longrightarrow>
     sb_columns b' = sb_columns b @ map column_of defs \<and>
     (sb_key_seen b' \<longleftrightarrow> sb_key_seen b \<or> (\<exists>c \<in> set (map column_of defs). col_is_key c))"
proof (induction defs arbitrary: b)
  case (Cons d defs)
  obtain n t k nu where d: "d = (n, t, k, nu)" by (cases d)
  obtain b1 where b1: "add_column b n t k nu = Inr b1" "rfold (\<lambda>(n, t, k, nu) b. add_column b n t k nu) defs b1 = Inr b'"
    using Cons.prems by (auto simp: d rbind_eq_Inr)
  have "sb_columns b1 = sb_columns b @ [column_of d]" "sb_key_seen b1 \<longleftrightarrow> sb_key_seen b \<or> k"
    using b1(1) by (auto simp: add_column_def column_of_def d split: if_splits)
  with Cons.IH [OF b1(2)] show ?case by (auto simp: column_of_def d)
qed simp

lemma rfold_add_column_ok:
  assumes "builder_inv b" "sb_key_seen b" "distinct (map col_name (sb_columns b @ map column_of defs))"
    and "\<forall>c \<in> set (map column_of defs). \<not> col_is_key c"
  shows "\<exists>b'. rfold (\<lambda>(n, t, k, nu) b. add_column b n t k nu) defs b = Inr b'"
  using assms
proof (induction defs arbitrary: b)
  case (Cons d defs)
  obtain n t k nu where d: "d = (n, t, k, nu)" by (cases d)
  have "\<not> k" "n \<notin> sb_names b" using Cons.prems by (auto simp: d column_of_def builder_inv_def)
  then obtain b1 where b1: "add_column b n t k nu = Inr b1" "sb_key_seen b1" "sb_columns b1 = sb_columns b @ [column_of d]"
    using Cons.prems(2) by (auto simp: add_column_def d column_of_def)
  have "\<exists>b'. rfold (\<lambda>(n, t, k, nu) b. add_column b n t k nu) defs b1 = Inr b'"
    using Cons.prems b1 by (intro Cons.IH add_column_inv [OF Cons.prems(1) b1(1)]) simp_all
  then show ?case using b1(1) by (simp add: d)
qed simp

lemma build_schema_Inr_iff:
  "build_schema defs = Inr s \<longleftrightarrow> columns_ok (map column_of defs) \<and> s = Schema (map column_of defs)"
proof
  assume b: "build_schema defs = Inr s"
  then obtain b' where b': "rfold (\<lambda>(n, t, k, nu) b. add_column b n t k nu) defs SchemaBuilder = Inr b'" "build b' = Inr s"
    by (auto simp: build_schema_def elim: rbind_eq_InrE)
  have "sb_columns b' = map column_of defs" using rfold_add_column [OF b'(1)] by (simp add: SchemaBuilder_def)
  then have s: "s = Schema (map column_of defs)" using b'(2) by (auto simp: build_def split: if_splits)
  with build_schema_wf [OF b] show "columns_ok (map column_of defs) \<and> s = Schema (map column_of defs)"
    by (cases defs) (auto simp: columns_ok_def schema_wf_def Let_def list_all_iff)
next
  assume a: "columns_ok (map column_of defs) \<and> s = Schema (map column_of defs)"
  then obtain n t k nu ds where defs: "defs = (n, t, k, nu) # ds" by (cases defs) (auto simp: columns_ok_def)
  have k: "k" "t = INT64" "\<not> nu" using a by (auto simp: columns_ok_def defs column_of_def)
  obtain b1 where b1: "add_column SchemaBuilder n t k nu = Inr b1" "sb_key_seen b1" "sb_columns b1 = [column_of (n, t, k, nu)]"
    using k by (auto simp: add_column_def SchemaBuilder_def KEY_COLUMN_INDEX_def column_of_def)
  have "\<exists>b'. rfold (\<lambda>(n, t, k, nu) b. add_column b n t k nu) ds b1 = Inr b'"
    using a b1 by (intro rfold_add_column_ok add_column_inv [OF builder_inv_init b1(1)])
      (auto simp: columns_ok_def defs list_all_iff)
  then obtain b' where b': "rfold (\<lambda>(n, t, k, nu) b. add_column b n t k nu) defs SchemaBuilder = Inr b'"
    using b1(1) by (auto simp: defs)
  have "sb_columns b' = map column_of defs" "sb_key_seen b'"
    using rfold_add_column [OF b'] a by (auto simp: SchemaBuilder_def defs columns_ok_def)
  then show "build_schema defs = Inr s" using b' a by (simp add: build_schema_def build_def defs)
qed

text \<open>C40: The schema builder accepts exactly the column lists with a first column that is an INT64,
  NOT NULL key, no second key and no repeated name, and returns the schema over these columns.\<close>

theorem schema_builder_accepts:
  "build_schema defs = Inr s \<longleftrightarrow> columns_ok (map column_of defs) \<and> s = Schema (map column_of defs)"
  by (rule build_schema_Inr_iff)

text \<open>In the schema the builder returns, a column name is looked up to the position of the one
  column of that name, and to nothing when there is none.\<close>

theorem column_lookup:
  assumes "build_schema defs = Inr s"
  shows "get_column_index s name = Some j \<longleftrightarrow> j < length defs \<and> fst (defs ! j) = name"
proof -
  have s: "schema_wf s" "columns s = map column_of defs" "schema_size s = length defs"
    using build_schema_wf [OF assms] assms by (simp_all add: build_schema_Inr_iff)
  then show ?thesis using get_column_index_iff [OF s(1), of name j] by (auto simp: column_of_def split: prod.splits)
qed

section \<open>A sample table\<close>

definition sample_defs :: "(string \<times> value_type \<times> bool \<times> bool) list" where
  "sample_defs = [(''id'', INT64, True, False), (''price'', DOUBLE, False, True), (''name'', STRING, False, True)]"

definition sample_schema :: schema where
  "sample_schema = Schema (map column_of sample_defs)"

definition sample_row :: "key \<Rightarrow> row" where
  "sample_row k = [Some (VInt k), Some (VDouble (D64 0x3FF0000000000000)), Some (VString ''ab'')]"

abbreviation sample_rows :: "row list" where
  "sample_rows \<equiv> [sample_row (I64 1), sample_row (I64 5)]"

lemma build_sample: "build_schema sample_defs = Inr sample_schema"
  by (simp add: build_schema_Inr_iff sample_schema_def columns_ok_def sample_defs_def column_of_def)

lemma column_lookup_witness: "get_column_index sample_schema ''name'' = Some 2"
  using column_lookup [OF build_sample, of "''name''" 2] by (simp add: sample_defs_def)

lemma sample_schema_wf [simp]: "schema_wf sample_schema"
  using build_sample by (rule build_schema_wf)

lemma sample_columns: "columns sample_schema = map column_of sample_defs"
  by (simp add: sample_schema_def)

lemma sample_size [simp]: "schema_size sample_schema = 3"
  by (simp add: sample_schema_def sample_defs_def)

lemma sample_row_valid [simp]: "valid_row sample_schema (sample_row k)"
  by (auto simp: valid_row_def sample_row_def is_valid_value_def sample_columns sample_defs_def column_of_def less_Suc_eq numeral_3_eq_3)

end
