(* ===== verification/Codec.thy ===== *)
theory Codec
  imports Types
begin

text \<open>
  The byte formats every file of the store is made of: \<open>BinaryWriter\<close>
  (\<open>src/utils/binary_writer.cpp\<close>), the value encodings of the block builders, the readers the
  cursors decode them with, and the null bitmaps. An output stream is the list of bytes
  written so far; a write that the operating system refuses is not modelled.
\<close>

section \<open>\<open>BinaryWriter\<close>\<close>

definition MAX_STRING_LENGTH :: nat where
  "MAX_STRING_LENGTH = 1024"

abbreviation enc_u32 :: "32 word \<Rightarrow> byte list" where
  "enc_u32 w \<equiv> le_bytes 4 w"

abbreviation enc_u64 :: "64 word \<Rightarrow> byte list" where
  "enc_u64 w \<equiv> le_bytes 8 w"

abbreviation enc_i64 :: "i64 \<Rightarrow> byte list" where
  "enc_i64 k \<equiv> le_bytes 8 (i64_bits k)"

abbreviation enc_double :: "double \<Rightarrow> byte list" where
  "enc_double d \<equiv> le_bytes 8 (d64_bits d)"

abbreviation string_bytes :: "string \<Rightarrow> byte list" where
  "string_bytes s \<equiv> map byte_of_char s"

text \<open>Every write returns the stream and the number of bytes written.\<close>

definition write_bytes :: "byte list \<Rightarrow> byte list \<Rightarrow> byte list \<times> nat" where
  "write_bytes data out = (out @ data, length data)"

definition write_u8 :: "byte \<Rightarrow> byte list \<Rightarrow> byte list \<times> nat" where
  "write_u8 v out = write_bytes [v] out"

definition write_u16 :: "16 word \<Rightarrow> byte list \<Rightarrow> byte list \<times> nat" where
  "write_u16 v out = write_bytes (le_bytes 2 v) out"

definition write_u32 :: "32 word \<Rightarrow> byte list \<Rightarrow> byte list \<times> nat" where
  "write_u32 v out = write_bytes (enc_u32 v) out"

definition write_u64 :: "64 word \<Rightarrow> byte list \<Rightarrow> byte list \<times> nat" where
  "write_u64 v out = write_bytes (enc_u64 v) out"

definition write_i64 :: "i64 \<Rightarrow> byte list \<Rightarrow> byte list \<times> nat" where
  "write_i64 v out = write_bytes (enc_i64 v) out"

definition write_double :: "double \<Rightarrow> byte list \<Rightarrow> byte list \<times> nat" where
  "write_double v out = write_bytes (enc_double v) out"

definition write_string :: "string \<Rightarrow> byte list \<Rightarrow> (byte list \<times> nat) res" where
  "write_string str out =
     (if length str > MAX_STRING_LENGTH then Inl (LengthError ''BinaryWriter: string too large'')
      else let (out1, n1) = write_u16 (word_of_nat (length str)) out;
               (out2, n2) = write_bytes (string_bytes str) out1
           in Inr (out2, n1 + n2))"

section \<open>Values inside a data block\<close>

text \<open>
  \<open>write_value_by_type\<close> and \<open>encode_value\<close>: the bytes a value of the column's type appends to
  the block. NULL appends nothing; \<open>std::get\<close> throws on a value of another type.
\<close>

fun write_value :: "value_type \<Rightarrow> nullable_value \<Rightarrow> byte list res" where
  "write_value _ None = Inr []"
| "write_value INT64 (Some (VInt k)) = Inr (enc_i64 k)"
| "write_value DOUBLE (Some (VDouble d)) = Inr (enc_double d)"
| "write_value STRING (Some (VString s)) = Inr (enc_u32 (word_of_nat (length s)) @ string_bytes s)"
| "write_value _ (Some _) = Inl BadVariantAccess"

definition read_double :: "exn \<Rightarrow> byte list \<Rightarrow> (double \<times> byte list) res" where
  "read_double e bs = rbind (read_le e 8 bs) (\<lambda>(w, rest). Inr (D64 w, rest))"

definition read_string :: "exn \<Rightarrow> byte list \<Rightarrow> (string \<times> byte list) res" where
  "read_string e bs =
     rbind (read_le e 4 bs) (\<lambda>(size :: 32 word, rest).
       rbind (read_bytes e (unat size) rest) (\<lambda>(s, rest'). Inr (map char_of_byte s, rest')))"

definition skip_bytes :: "exn \<Rightarrow> nat \<Rightarrow> byte list \<Rightarrow> byte list res" where
  "skip_bytes e n bs = (if length bs < n then Inl e else Inr (drop n bs))"

definition skip_string :: "exn \<Rightarrow> byte list \<Rightarrow> byte list res" where
  "skip_string e bs = rbind (read_le e 4 bs) (\<lambda>(size :: 32 word, rest). skip_bytes e (unat size) rest)"

fun skip_value :: "exn \<Rightarrow> value_type \<Rightarrow> byte list \<Rightarrow> byte list res" where
  "skip_value e INT64 bs = skip_bytes e 8 bs"
| "skip_value e DOUBLE bs = skip_bytes e 8 bs"
| "skip_value e STRING bs = skip_string e bs"

fun read_value :: "exn \<Rightarrow> value_type \<Rightarrow> byte list \<Rightarrow> (val \<times> byte list) res" where
  "read_value e INT64 bs = rbind (read_i64 e bs) (\<lambda>(k, rest). Inr (VInt k, rest))"
| "read_value e DOUBLE bs = rbind (read_double e bs) (\<lambda>(d, rest). Inr (VDouble d, rest))"
| "read_value e STRING bs = rbind (read_string e bs) (\<lambda>(s, rest). Inr (VString s, rest))"

text \<open>A string's length is stored in 32 bits; longer ones are cut by \<open>static_cast<uint32_t>\<close>.\<close>

fun val_fits :: "val \<Rightarrow> bool" where
  "val_fits (VString s) = (length s < 2 ^ 32)"
| "val_fits _ = True"

definition row_fits :: "row \<Rightarrow> bool" where
  "row_fits r = list_all (\<lambda>v. case v of None \<Rightarrow> True | Some x \<Rightarrow> val_fits x) r"

lemma holds_typeE:
  assumes "holds_type ty v"
  obtains (int) k where "ty = INT64" "v = VInt k"
  | (double) d where "ty = DOUBLE" "v = VDouble d"
  | (string) s where "ty = STRING" "v = VString s"
  using assms by (cases ty; cases v) auto

lemma write_value_ok: "holds_type ty v \<Longrightarrow> \<exists>bs. write_value ty (Some v) = Inr bs"
  by (erule holds_typeE) auto

lemma write_value_Some_InrD: "write_value ty (Some v) = Inr bs \<Longrightarrow> holds_type ty v"
  by (cases ty; cases v) auto

lemma read_double_append [simp, codec]: "read_double e (enc_double d @ rest) = Inr (d, rest)"
  by (simp add: read_double_def)

lemma read_string_append [simp, codec]:
  "length s < 2 ^ 32 \<Longrightarrow>
   read_string e (enc_u32 (word_of_nat (length s)) @ string_bytes s @ rest) = Inr (s, rest)"
  by (simp add: read_string_def unat_of_nat)

lemma skip_bytes_append [simp, codec]: "length xs = n \<Longrightarrow> skip_bytes e n (xs @ rest) = Inr rest"
  by (simp add: skip_bytes_def)

lemma skip_string_append [simp, codec]:
  "length s < 2 ^ 32 \<Longrightarrow>
   skip_string e (enc_u32 (word_of_nat (length s)) @ string_bytes s @ rest) = Inr rest"
  by (simp add: skip_string_def unat_of_nat)

text \<open>A value that was written is read back, or skipped, leaving exactly what follows it.\<close>

lemma read_value_append:
  assumes "write_value ty (Some v) = Inr bs" "val_fits v"
  shows "read_value e ty (bs @ rest) = Inr (v, rest)"
  using write_value_Some_InrD [OF assms(1)] assms by (cases rule: holds_typeE) auto

lemma skip_value_append:
  assumes "write_value ty (Some v) = Inr bs" "val_fits v"
  shows "skip_value e ty (bs @ rest) = Inr rest"
  using write_value_Some_InrD [OF assms(1)] assms by (cases rule: holds_typeE) auto

section \<open>Readers only look at what they consume\<close>

text \<open>
  \<open>extends f\<close>: when \<open>f\<close> succeeds on a buffer it succeeds, with the same value, on every
  longer buffer that starts with it, and leaves the extra bytes unread. Whatever is read
  from a truncated block is therefore also read from the whole block.
\<close>

definition extends :: "(byte list \<Rightarrow> ('a \<times> byte list) res) \<Rightarrow> bool" where
  "extends f \<longleftrightarrow> (\<forall>bs a rest xs. f bs = Inr (a, rest) \<longrightarrow> f (bs @ xs) = Inr (a, rest @ xs))"

lemma extendsD: "extends f \<Longrightarrow> f bs = Inr (a, rest) \<Longrightarrow> f (bs @ xs) = Inr (a, rest @ xs)"
  by (auto simp: extends_def)

lemma extends_bind:
  assumes "extends f" "\<And>a. extends (g a)"
  shows "extends (\<lambda>bs. rbind (f bs) (\<lambda>(a, rest). g a rest))"
  using assms by (fastforce simp: extends_def rbind_eq_Inr)

lemma extends_return: "extends (\<lambda>bs. Inr (a, bs))"
  by (simp add: extends_def)

lemma extends_error: "extends (\<lambda>bs. Inl e)"
  by (simp add: extends_def)

lemma extends_read_bytes: "extends (read_bytes e n)"
  by (auto simp: extends_def read_bytes_def split: if_splits)

lemma extends_read_le: "extends (read_le e n)"
  unfolding read_le_def by (intro extends_bind extends_read_bytes extends_return)

lemma extends_read_i64: "extends (read_i64 e)"
  unfolding read_i64_def by (intro extends_bind extends_read_le extends_return)

lemma extends_read_double: "extends (read_double e)"
  unfolding read_double_def by (intro extends_bind extends_read_le extends_return)

lemma extends_read_string: "extends (read_string e)"
  unfolding read_string_def
  by (intro extends_bind extends_read_le extends_read_bytes extends_return)

lemma read_value_eq:
  "read_value e INT64 = (\<lambda>bs. rbind (read_i64 e bs) (\<lambda>(k, rest). Inr (VInt k, rest)))"
  "read_value e DOUBLE = (\<lambda>bs. rbind (read_double e bs) (\<lambda>(d, rest). Inr (VDouble d, rest)))"
  "read_value e STRING = (\<lambda>bs. rbind (read_string e bs) (\<lambda>(s, rest). Inr (VString s, rest)))"
  by (simp_all add: fun_eq_iff)

lemma extends_read_value: "extends (read_value e ty)"
  by (cases ty) (simp_all only: read_value_eq, (intro extends_bind extends_read_i64
      extends_read_double extends_read_string extends_return)+)

lemma extends_skip_value: "extends (\<lambda>bs. rbind (skip_value e ty bs) (\<lambda>rest. Inr ((), rest)))"
proof -
  have 1: "extends (\<lambda>bs. rbind (skip_bytes e n bs) (\<lambda>rest. Inr ((), rest)))" for n
    by (auto simp: extends_def skip_bytes_def split: if_splits)
  have 2: "rbind (skip_string e bs) (\<lambda>rest. Inr ((), rest)) =
      rbind (read_le e 4 bs) (\<lambda>(size :: 32 word, rest). rbind (skip_bytes e (unat size) rest) (\<lambda>rest. Inr ((), rest)))" for bs
    by (auto simp: skip_string_def rbind_def split: sum.splits)
  show ?thesis
    by (cases ty) (auto simp: 1 2 intro: extends_bind extends_read_le)
qed

text \<open>A reader that consumes a whole buffer fails on every strict prefix of it.\<close>

lemma extends_prefix_fails:
  assumes "extends f" "f bs = Inr (a, [])" "n < length bs"
  shows "\<exists>e. f (take n bs) = Inl e"
proof (cases "f (take n bs)")
  case (Inr p)
  obtain a' rest where p: "p = (a', rest)" by (cases p)
  from extendsD [OF assms(1) Inr [unfolded p], of "drop n bs"] assms(2,3)
  show ?thesis by simp
qed auto

text \<open>A reader whose only error is \<open>e\<close>.\<close>

definition fails_with :: "exn \<Rightarrow> (byte list \<Rightarrow> 'a res) \<Rightarrow> bool" where
  "fails_with e f \<longleftrightarrow> (\<forall>bs x. f bs = Inl x \<longrightarrow> x = e)"

lemma fails_with_bind:
  "fails_with e f \<Longrightarrow> (\<And>a. fails_with e (g a)) \<Longrightarrow> fails_with e (\<lambda>bs. rbind (f bs) (\<lambda>(a, rest). g a rest))"
  by (auto simp: fails_with_def rbind_eq_Inl)

lemma fails_with_return: "fails_with e (\<lambda>bs. Inr (f bs))"
  by (simp add: fails_with_def)

lemma fails_with_read_bytes: "fails_with e (read_bytes e n)"
  by (simp add: fails_with_def read_bytes_def)

lemma fails_with_read_le: "fails_with e (read_le e n)"
  using fails_with_read_bytes [of e n] by (auto simp: fails_with_def read_le_def rbind_eq_Inl)

lemma fails_with_readers:
  "fails_with e (read_bytes e n)" "fails_with e (read_i64 e)" "fails_with e (read_value e ty)"
  "fails_with e (\<lambda>bs. rbind (skip_value e ty bs) (\<lambda>rest. Inr ((), rest)))"
proof -
  note b = fails_with_read_bytes [of e, unfolded fails_with_def] and l = fails_with_read_le [of e, unfolded fails_with_def]
  show "fails_with e (read_bytes e n)" by (rule fails_with_read_bytes)
  show "fails_with e (read_i64 e)"
    unfolding read_i64_def by (intro fails_with_bind fails_with_read_le fails_with_return)
  show "fails_with e (read_value e ty)"
    using b by (cases ty) (auto simp: fails_with_def read_i64_def read_double_def read_string_def rbind_eq_Inl dest: l [rule_format])
  show "fails_with e (\<lambda>bs. rbind (skip_value e ty bs) (\<lambda>rest. Inr ((), rest)))"
    by (cases ty) (auto simp: fails_with_def skip_bytes_def skip_string_def rbind_eq_Inl split: if_splits dest: l [rule_format])
qed

section \<open>Null bitmaps\<close>

definition bitmap_size :: "nat \<Rightarrow> nat" where
  "bitmap_size n = (n + 7) div 8"

definition bitmap_set :: "byte list \<Rightarrow> nat \<Rightarrow> byte list" where
  "bitmap_set bm i = bm[i div 8 := bm ! (i div 8) OR push_bit (i mod 8) 1]"

definition bitmap_get :: "byte list \<Rightarrow> nat \<Rightarrow> bool" where
  "bitmap_get bm i \<longleftrightarrow> bm ! (i div 8) AND push_bit (i mod 8) 1 \<noteq> 0"

lemma bitmap_get_bit: "bitmap_get bm i \<longleftrightarrow> bit (bm ! (i div 8)) (i mod 8)"
  by (simp add: bitmap_get_def bit_iff_and_push_bit_not_eq_0)

lemma length_bitmap_set [simp, codec]: "length (bitmap_set bm i) = length bm"
  by (simp add: bitmap_set_def)

lemma bitmap_index: "i < n \<Longrightarrow> i div 8 < bitmap_size n"
  by (simp add: bitmap_size_def)

lemma bitmap_get_set:
  assumes "i < 8 * length bm" "j < 8 * length bm"
  shows "bitmap_get (bitmap_set bm i) j \<longleftrightarrow> i = j \<or> bitmap_get bm j"
proof (cases "i div 8 = j div 8")
  case True
  then have "i = j \<longleftrightarrow> i mod 8 = j mod 8" by (metis mod_mult_div_eq)
  with True assms show ?thesis
    by (auto simp: bitmap_get_bit bitmap_set_def bit_simps less_mult_imp_div_less mult.commute)
next
  case False
  then have "i \<noteq> j" by auto
  with False show ?thesis by (simp add: bitmap_get_bit bitmap_set_def)
qed

lemma bitmap_get_replicate_0 [simp, codec]: "i < 8 * n \<Longrightarrow> \<not> bitmap_get (replicate n 0) i"
  by (simp add: bitmap_get_bit less_mult_imp_div_less mult.commute)

lemma bitmap_get_append_0:
  "j < 8 * (length bm + n) \<Longrightarrow>
   bitmap_get (bm @ replicate n 0) j \<longleftrightarrow> j < 8 * length bm \<and> bitmap_get bm j"
  by (auto simp: bitmap_get_bit nth_append less_mult_imp_div_less mult.commute not_less
      div_less_iff_less_mult)

end
