(* ===== verification/Stats.thy ===== *)
theory Stats
  imports Codec
begin

text \<open>
  Per-block minimum and maximum of the numeric columns (\<open>numeric_stats.hpp\<close>, the
  \<open>*_numeric_stats\<close> methods of the block builders) and the pruner that drops blocks no row
  of which can satisfy a query's predicates (\<open>data_skipping_filter.hpp\<close>,
  \<open>data_skipping_block_pruner.cpp\<close>). The lemmas show that the statistics bound every value
  of the block and that pruning never drops a block with a matching row.
\<close>

section \<open>Statistics of one column of one block\<close>

text \<open>\<open>std::variant<std::int64_t, double>\<close>, for statistics and predicate values alike.\<close>

datatype nval = NInt i64 | NDouble double

record num_stats =
  ns_column :: nat
  ns_type :: value_type
  ns_has :: bool
  ns_min :: nval
  ns_max :: nval

definition is_numeric_type :: "value_type \<Rightarrow> bool" where
  "is_numeric_type ty \<longleftrightarrow> ty = INT64 \<or> ty = DOUBLE"

definition zero_stats :: "nat \<Rightarrow> value_type \<Rightarrow> num_stats" where
  "zero_stats ci ty =
     (let zero = (if ty = DOUBLE then NDouble d64_zero else NInt (i64_of 0)) in
      \<lparr>ns_column = ci, ns_type = ty, ns_has = False, ns_min = zero, ns_max = zero\<rparr>)"

definition get_int :: "val \<Rightarrow> i64 res" where
  "get_int v = (case v of VInt k \<Rightarrow> Inr k | _ \<Rightarrow> Inl BadVariantAccess)"

definition get_double :: "val \<Rightarrow> double res" where
  "get_double v = (case v of VDouble d \<Rightarrow> Inr d | _ \<Rightarrow> Inl BadVariantAccess)"

definition nval_int :: "nval \<Rightarrow> i64 res" where
  "nval_int v = (case v of NInt k \<Rightarrow> Inr k | NDouble _ \<Rightarrow> Inl BadVariantAccess)"

definition nval_double :: "nval \<Rightarrow> double res" where
  "nval_double v = (case v of NDouble d \<Rightarrow> Inr d | NInt _ \<Rightarrow> Inl BadVariantAccess)"

text \<open>The body of the update loop: NULL and NaN leave the statistics alone.\<close>

definition update_stat :: "num_stats \<Rightarrow> nullable_value \<Rightarrow> num_stats res" where
  "update_stat st value =
     (case value of
        None \<Rightarrow> Inr st
      | Some v \<Rightarrow>
          if ns_type st = INT64 then
            rbind (get_int v) (\<lambda>current.
              if \<not> ns_has st then
                Inr (st\<lparr>ns_min := NInt current, ns_max := NInt current, ns_has := True\<rparr>)
              else
                rbind (nval_int (ns_min st)) (\<lambda>mn. rbind (nval_int (ns_max st)) (\<lambda>mx.
                  Inr (st\<lparr>ns_min := NInt (min mn current), ns_max := NInt (max mx current)\<rparr>))))
          else if ns_type st = DOUBLE then
            rbind (get_double v) (\<lambda>current.
              if d64_isnan current then Inr st
              else if \<not> ns_has st then
                Inr (st\<lparr>ns_min := NDouble current, ns_max := NDouble current, ns_has := True\<rparr>)
              else
                rbind (nval_double (ns_min st)) (\<lambda>mn. rbind (nval_double (ns_max st)) (\<lambda>mx.
                  Inr (st\<lparr>ns_min := NDouble (d64_min mn current),
                           ns_max := NDouble (d64_max mx current)\<rparr>))))
          else Inr st)"

text \<open>The row block builder keeps one entry per numeric non-key column of the schema.\<close>

definition reset_numeric_stats :: "schema \<Rightarrow> num_stats list" where
  "reset_numeric_stats s =
     concat (map (\<lambda>ci. let c = columns s ! ci in
               if col_is_key c \<or> \<not> is_numeric_type (col_type c) then []
               else [zero_stats ci (col_type c)]) [0..<schema_size s])"

definition update_numeric_stats :: "row \<Rightarrow> num_stats list \<Rightarrow> num_stats list res" where
  "update_numeric_stats r sts =
     rmap (\<lambda>st. if ns_column st \<ge> length r
                then Inl (RuntimeError ''RowSSTBlockBuilder: row size mismatch schema'')
                else update_stat st (r ! ns_column st)) sts"

text \<open>The column block builder keeps at most one entry, for its own column.\<close>

definition col_reset_numeric_stats :: "nat \<Rightarrow> column \<Rightarrow> num_stats list" where
  "col_reset_numeric_stats ci c =
     (if ci = KEY_COLUMN_INDEX \<or> \<not> is_numeric_type (col_type c) then []
      else [zero_stats ci (col_type c)])"

definition col_update_numeric_stats :: "nullable_value \<Rightarrow> num_stats list \<Rightarrow> num_stats list res" where
  "col_update_numeric_stats value sts =
     (case (sts, value) of
        ([], _) \<Rightarrow> Inr sts
      | (_, None) \<Rightarrow> Inr sts
      | (st # rest, Some v) \<Rightarrow> rbind (update_stat st (Some v)) (\<lambda>st'. Inr (st' # rest)))"

subsection \<open>The statistics bound the values they were computed from\<close>

definition stat_inv :: "value_type \<Rightarrow> nullable_value list \<Rightarrow> num_stats \<Rightarrow> bool" where
  "stat_inv ty vs st \<longleftrightarrow>
     ns_type st = ty \<and>
     (ty = INT64 \<longrightarrow>
        (ns_has st \<longrightarrow> (\<exists>mn mx. ns_min st = NInt mn \<and> ns_max st = NInt mx \<and>
            Some (VInt mn) \<in> set vs \<and> Some (VInt mx) \<in> set vs)) \<and>
        (\<forall>k. Some (VInt k) \<in> set vs \<longrightarrow>
            ns_has st \<and> (\<exists>mn mx. ns_min st = NInt mn \<and> ns_max st = NInt mx \<and> mn \<le> k \<and> k \<le> mx))) \<and>
     (ty = DOUBLE \<longrightarrow>
        (ns_has st \<longrightarrow> (\<exists>mn mx. ns_min st = NDouble mn \<and> ns_max st = NDouble mx \<and>
            \<not> d64_isnan mn \<and> \<not> d64_isnan mx \<and>
            Some (VDouble mn) \<in> set vs \<and> Some (VDouble mx) \<in> set vs)) \<and>
        (\<forall>d. Some (VDouble d) \<in> set vs \<longrightarrow> \<not> d64_isnan d \<longrightarrow>
            ns_has st \<and> (\<exists>mn mx. ns_min st = NDouble mn \<and> ns_max st = NDouble mx \<and>
              d64_le mn d \<and> d64_le d mx)))"

lemma stat_inv_zero: "stat_inv ty [] (zero_stats ci ty)"
  by (simp add: stat_inv_def zero_stats_def Let_def)

lemma update_stat_int:
  assumes inv: "stat_inv INT64 vs st" and upd: "update_stat st (Some v) = Inr st'"
  shows "stat_inv INT64 (vs @ [Some v]) st'"
proof -
  have ty: "ns_type st = INT64" using inv by (simp add: stat_inv_def)
  obtain k where v: "v = VInt k" using upd ty by (cases v) (auto simp: update_stat_def get_int_def)
  show ?thesis
  proof (cases "ns_has st")
    case False
    then have "\<forall>k. Some (VInt k) \<notin> set vs" using inv by (auto simp: stat_inv_def)
    with False upd ty v show ?thesis
      by (auto simp: update_stat_def get_int_def stat_inv_def)
  next
    case True
    then obtain mn mx where m: "ns_min st = NInt mn" "ns_max st = NInt mx"
        "Some (VInt mn) \<in> set vs" "Some (VInt mx) \<in> set vs"
      using inv by (auto simp: stat_inv_def)
    then have st': "st' = st\<lparr>ns_min := NInt (min mn k), ns_max := NInt (max mx k)\<rparr>"
      using upd ty v True by (simp add: update_stat_def get_int_def nval_int_def)
    have bnd: "\<forall>j. Some (VInt j) \<in> set vs \<longrightarrow> mn \<le> j \<and> j \<le> mx"
      using inv m by (auto simp: stat_inv_def)
    show ?thesis
      using True ty m bnd by (auto simp: st' v stat_inv_def min_def max_def)
  qed
qed

lemma update_stat_double:
  assumes inv: "stat_inv DOUBLE vs st" and upd: "update_stat st (Some v) = Inr st'"
  shows "stat_inv DOUBLE (vs @ [Some v]) st'"
proof -
  have ty: "ns_type st = DOUBLE" using inv by (simp add: stat_inv_def)
  obtain d where v: "v = VDouble d" using upd ty by (cases v) (auto simp: update_stat_def get_double_def)
  consider (nan) "d64_isnan d" | (first) "\<not> d64_isnan d" "\<not> ns_has st" | (more) "\<not> d64_isnan d" "ns_has st"
    by auto
  then show ?thesis
  proof cases
    case nan
    then have "st' = st" using upd ty v by (simp add: update_stat_def get_double_def)
    with inv nan show ?thesis by (auto simp: v stat_inv_def)
  next
    case first
    then have "\<forall>x. Some (VDouble x) \<in> set vs \<longrightarrow> d64_isnan x" using inv by (auto simp: stat_inv_def)
    with first upd ty v show ?thesis
      by (auto simp: update_stat_def get_double_def stat_inv_def)
  next
    case more
    then obtain mn mx where m: "ns_min st = NDouble mn" "ns_max st = NDouble mx"
        "\<not> d64_isnan mn" "\<not> d64_isnan mx"
        "Some (VDouble mn) \<in> set vs" "Some (VDouble mx) \<in> set vs"
      using inv by (auto simp: stat_inv_def)
    then have st': "st' = st\<lparr>ns_min := NDouble (d64_min mn d), ns_max := NDouble (d64_max mx d)\<rparr>"
      using upd ty v more by (simp add: update_stat_def get_double_def nval_double_def)
    have bnd: "d64_le mn x \<and> d64_le x mx" if "Some (VDouble x) \<in> set vs" "\<not> d64_isnan x" for x
      using inv m that by (auto simp: stat_inv_def)
    have mono: "d64_le (d64_min mn d) x \<and> d64_le x (d64_max mx d)"
      if "Some (VDouble x) \<in> set vs \<or> x = d" "\<not> d64_isnan x" for x
      using that bnd [of x] d64_min_le [of mn d] d64_max_ge [of mx d] m(3,4) more(1)
      by (auto intro: d64_le_trans)
    have at: "d64_min mn d = mn \<or> d64_min mn d = d" "d64_max mx d = mx \<or> d64_max mx d = d"
      by (auto simp: d64_min_def d64_max_def)
    have n: "\<not> d64_isnan (d64_min mn d)" "\<not> d64_isnan (d64_max mx d)"
      using at m(3,4) more(1) by auto
    show ?thesis
      unfolding stat_inv_def st' v using ty more m(5,6) mono n at by auto
  qed
qed

text \<open>NULL changes nothing, so the invariant is kept by every update.\<close>

lemma update_stat_inv:
  assumes "stat_inv ty vs st" "is_numeric_type ty" "update_stat st v = Inr st'"
  shows "stat_inv ty (vs @ [v]) st'"
proof (cases v)
  case None
  with assms show ?thesis by (auto simp: update_stat_def stat_inv_def)
next
  case (Some x)
  with assms show ?thesis
    by (auto simp: is_numeric_type_def intro: update_stat_int update_stat_double)
qed

lemma update_stat_ok:
  assumes "stat_inv ty vs st" "is_numeric_type ty" "\<And>x. v = Some x \<Longrightarrow> holds_type ty x"
  shows "\<exists>st'. update_stat st v = Inr st'"
proof (cases v)
  case (Some x)
  from assms(3) [OF Some] show ?thesis
    using assms(1,2) Some
    by (cases rule: holds_typeE)
      (auto simp: stat_inv_def update_stat_def get_int_def get_double_def nval_int_def
        nval_double_def is_numeric_type_def)
qed (simp add: update_stat_def)

lemma update_stat_column: "update_stat st v = Inr st' \<Longrightarrow> ns_column st' = ns_column st \<and> ns_type st' = ns_type st"
  by (auto simp: update_stat_def rbind_eq_Inr split: option.splits if_splits)

section \<open>Data skipping\<close>

datatype ncmp = CmpEqual | CmpLess | CmpLessEqual | CmpGreater | CmpGreaterEqual

record num_predicate =
  np_column :: nat
  np_op :: ncmp
  np_value :: nval

type_synonym skip_filter = "num_predicate list"

text \<open>\<open>referenced_columns\<close>: sorted, without duplicates.\<close>

definition referenced_columns :: "skip_filter \<Rightarrow> nat list" where
  "referenced_columns f = remdups_adj (sort (map np_column f))"

record stats_range =
  sr_first :: "32 word"
  sr_count :: "32 word"
  sr_by_column :: "(nat \<times> num_stats list) list"

definition stats_range_empty :: "stats_range \<Rightarrow> bool" where
  "stats_range_empty sr \<longleftrightarrow> sr_by_column sr = []"

definition numeric_value_as_double :: "nval \<Rightarrow> double" where
  "numeric_value_as_double v = (case v of NInt k \<Rightarrow> d64_of_i64 k | NDouble d \<Rightarrow> d)"

definition int_may_satisfy :: "ncmp \<Rightarrow> i64 \<Rightarrow> i64 \<Rightarrow> i64 \<Rightarrow> bool" where
  "int_may_satisfy op block_min block_max value =
     (case op of
        CmpEqual \<Rightarrow> \<not> (value < block_min \<or> value > block_max)
      | CmpGreater \<Rightarrow> block_max > value
      | CmpGreaterEqual \<Rightarrow> block_max \<ge> value
      | CmpLess \<Rightarrow> block_min < value
      | CmpLessEqual \<Rightarrow> block_min \<le> value)"

definition double_may_satisfy :: "ncmp \<Rightarrow> double \<Rightarrow> double \<Rightarrow> double \<Rightarrow> bool" where
  "double_may_satisfy op block_min block_max value =
     (case op of
        CmpEqual \<Rightarrow> \<not> (d64_lt value block_min \<or> d64_lt block_max value)
      | CmpGreater \<Rightarrow> d64_lt value block_max
      | CmpGreaterEqual \<Rightarrow> d64_le value block_max
      | CmpLess \<Rightarrow> d64_lt block_min value
      | CmpLessEqual \<Rightarrow> d64_le block_min value)"

definition block_may_satisfy_predicate :: "num_stats \<Rightarrow> num_predicate \<Rightarrow> bool res" where
  "block_may_satisfy_predicate st p =
     (if \<not> ns_has st then Inr False
      else case np_value p of
        NInt value \<Rightarrow>
          if ns_type st = INT64 then
            rbind (nval_int (ns_min st)) (\<lambda>block_min. rbind (nval_int (ns_max st)) (\<lambda>block_max.
              Inr (int_may_satisfy (np_op p) block_min block_max value)))
          else Inr (double_may_satisfy (np_op p) (numeric_value_as_double (ns_min st))
                      (numeric_value_as_double (ns_max st)) (numeric_value_as_double (np_value p)))
      | NDouble _ \<Rightarrow>
          Inr (double_may_satisfy (np_op p) (numeric_value_as_double (ns_min st))
                 (numeric_value_as_double (ns_max st)) (numeric_value_as_double (np_value p))))"

fun may_satisfy_loop :: "nat \<Rightarrow> stats_range \<Rightarrow> skip_filter \<Rightarrow> bool res" where
  "may_satisfy_loop rel sr [] = Inr True"
| "may_satisfy_loop rel sr (p # ps) =
     (case map_of (sr_by_column sr) (np_column p) of
        None \<Rightarrow> may_satisfy_loop rel sr ps
      | Some sts \<Rightarrow>
          if rel \<ge> length sts then Inr True
          else rbind (block_may_satisfy_predicate (sts ! rel) p) (\<lambda>ok.
            if \<not> ok then Inr False else may_satisfy_loop rel sr ps))"

definition may_satisfy :: "32 word \<Rightarrow> stats_range \<Rightarrow> skip_filter \<Rightarrow> bool res" where
  "may_satisfy block_id sr f =
     (if block_id < sr_first sr then Inr True
      else let relative_block_id = block_id - sr_first sr in
        if relative_block_id \<ge> sr_count sr then Inr True
        else may_satisfy_loop (unat relative_block_id) sr f)"

text \<open>
  \<open>filter_row_blocks\<close>, \<open>filter_logical_block_ids\<close> and \<open>filter_column_blocks\<close> share one body;
  they differ in how the block id is read off the list's elements (\<open>static_cast<uint32_t>\<close>).
\<close>

fun rfilter :: "('a \<Rightarrow> bool res) \<Rightarrow> 'a list \<Rightarrow> 'a list res" where
  "rfilter p [] = Inr []"
| "rfilter p (x # xs) = rbind (p x) (\<lambda>ok. rbind (rfilter p xs) (\<lambda>ys. Inr (if ok then x # ys else ys)))"

definition filter_blocks :: "('a \<Rightarrow> 32 word) \<Rightarrow> 'a list \<Rightarrow> stats_range \<Rightarrow> skip_filter \<Rightarrow> 'a list res" where
  "filter_blocks id_of blocks sr f =
     (if blocks = [] \<or> stats_range_empty sr \<or> f = [] then Inr blocks
      else rfilter (\<lambda>b. may_satisfy (id_of b) sr f) blocks)"

lemma rfilter_Inr_set:
  "rfilter p xs = Inr ys \<Longrightarrow> x \<in> set ys \<longleftrightarrow> x \<in> set xs \<and> p x = Inr True"
proof (induction xs arbitrary: ys)
  case (Cons a xs)
  then show ?case by (auto simp: rbind_eq_Inr split: if_splits)
qed simp

lemma rfilter_Inr_filter:
  "rfilter p xs = Inr ys \<Longrightarrow> ys = filter (\<lambda>x. p x = Inr True) xs"
  by (induction xs arbitrary: ys) (auto simp: rbind_eq_Inr)

subsection \<open>When a value satisfies a predicate\<close>

text \<open>
  The comparison the executor evaluates a predicate with (\<open>CompareResultValues\<close> on two
  numbers): -1, 0 or 1, and 0 whenever a NaN is involved.
\<close>

definition compare_double :: "double \<Rightarrow> double \<Rightarrow> int" where
  "compare_double a b = (if d64_lt a b then -1 else if d64_lt b a then 1 else 0)"

definition compare_numeric :: "nval \<Rightarrow> nval \<Rightarrow> int" where
  "compare_numeric l r =
     (case (l, r) of
        (NInt a, NInt b) \<Rightarrow> (if a < b then -1 else if a > b then 1 else 0)
      | (NInt a, NDouble b) \<Rightarrow> compare_double (d64_of_i64 a) b
      | (NDouble a, NDouble b) \<Rightarrow> compare_double a b
      | (NDouble a, NInt b) \<Rightarrow> compare_double a (d64_of_i64 b))"

fun op_holds :: "ncmp \<Rightarrow> int \<Rightarrow> bool" where
  "op_holds CmpEqual c = (c = 0)"
| "op_holds CmpLess c = (c < 0)"
| "op_holds CmpLessEqual c = (c \<le> 0)"
| "op_holds CmpGreater c = (c > 0)"
| "op_holds CmpGreaterEqual c = (c \<ge> 0)"

fun val_nval :: "val \<Rightarrow> nval option" where
  "val_nval (VInt k) = Some (NInt k)"
| "val_nval (VDouble d) = Some (NDouble d)"
| "val_nval (VString _) = None"

fun nval_isnan :: "nval \<Rightarrow> bool" where
  "nval_isnan (NInt _) = False"
| "nval_isnan (NDouble d) = d64_isnan d"

definition cell_satisfies :: "nullable_value \<Rightarrow> num_predicate \<Rightarrow> bool" where
  "cell_satisfies c p \<longleftrightarrow>
     (\<exists>v n. c = Some v \<and> val_nval v = Some n \<and> op_holds (np_op p) (compare_numeric n (np_value p)))"

lemma int_may_satisfy_sound:
  assumes "mn \<le> k" "k \<le> mx" "op_holds op (compare_numeric (NInt k) (NInt v))"
  shows "int_may_satisfy op mn mx v"
  using assms by (cases op) (auto simp: compare_numeric_def int_may_satisfy_def split: if_splits)

lemma double_may_satisfy_sound:
  assumes "d64_le mn d" "d64_le d mx" "op_holds op (compare_double d v)" "\<not> d64_isnan v"
  shows "double_may_satisfy op mn mx v"
  using assms
  by (cases op)
    (auto simp: compare_double_def double_may_satisfy_def d64_le_def d64_lt_def split: if_splits)

lemma block_may_satisfy_sound:
  assumes inv: "stat_inv ty vs st" and ty: "is_numeric_type ty"
    and mem: "c \<in> set vs" and typed: "\<And>x. c = Some x \<Longrightarrow> holds_type ty x"
    and sat: "cell_satisfies c p"
    and nan: "\<And>d. c = Some (VDouble d) \<Longrightarrow> \<not> d64_isnan d" "\<not> nval_isnan (np_value p)"
  shows "block_may_satisfy_predicate st p = Inr True"
proof -
  obtain v n where v: "c = Some v" "val_nval v = Some n"
      "op_holds (np_op p) (compare_numeric n (np_value p))"
    using sat by (auto simp: cell_satisfies_def)
  from typed [OF v(1)] show ?thesis
  proof (cases rule: holds_typeE)
    case (int k)
    then obtain mn mx where m: "ns_has st" "ns_type st = INT64" "ns_min st = NInt mn"
        "ns_max st = NInt mx" "mn \<le> k" "k \<le> mx"
      using inv mem v(1) by (auto simp: stat_inv_def)
    have d: "d64_le (d64_of_i64 mn) (d64_of_i64 k)" "d64_le (d64_of_i64 k) (d64_of_i64 mx)"
      using m(5,6) by (auto intro: d64_of_i64_mono)
    show ?thesis
    proof (cases "np_value p")
      case (NInt x)
      with int v(2,3) m show ?thesis
        using int_may_satisfy_sound [OF m(5,6), of "np_op p" x]
        by (simp add: block_may_satisfy_predicate_def nval_int_def)
    next
      case (NDouble x)
      with int v(2,3) m nan(2) show ?thesis
        using double_may_satisfy_sound [OF d, of "np_op p" x]
        by (auto simp add: block_may_satisfy_predicate_def numeric_value_as_double_def compare_numeric_def)
    qed
  next
    case (double d)
    then obtain mn mx where m: "ns_has st" "ns_type st = DOUBLE" "ns_min st = NDouble mn"
        "ns_max st = NDouble mx" "d64_le mn d" "d64_le d mx"
      using inv mem v(1) nan(1) by (auto simp: stat_inv_def)
    show ?thesis
      using double v(2,3) m nan(2) double_may_satisfy_sound [OF m(5,6), of "np_op p"]
      by (cases "np_value p")
        (auto simp: block_may_satisfy_predicate_def numeric_value_as_double_def compare_numeric_def
          d64_of_i64_parts)
  next
    case (string s)
    with v(2) show ?thesis by simp
  qed
qed

text \<open>
  The whole filter: every block position \<open>rel\<close> whose column statistics were computed from
  cells among which one row satisfies all predicates is kept.
\<close>

lemma may_satisfy_loop_sound:
  assumes "\<And>p sts. p \<in> set ps \<Longrightarrow> map_of (sr_by_column sr) (np_column p) = Some sts \<Longrightarrow> rel < length sts \<Longrightarrow>
             block_may_satisfy_predicate (sts ! rel) p = Inr True"
  shows "may_satisfy_loop rel sr ps = Inr True"
  using assms by (induction ps) (auto split: option.splits)

text \<open>A NaN is not counted in the statistics, although the executor finds it equal to every number.\<close>

definition d64_nan :: double where
  "d64_nan = D64 0x7FF8000000000000"

lemma nan_satisfies_equal: "op_holds CmpEqual (compare_numeric (NDouble d64_nan) (NDouble d64_zero))"
  by (simp add: compare_numeric_def compare_double_def d64_lt_def d64_isnan_def d64_mag_def d64_nan_def)

section \<open>Properties\<close>

lemma update_stats_fold_inv:
  assumes "stat_inv ty vs0 st" "is_numeric_type ty" "rfold (\<lambda>v st. update_stat st v) vs st = Inr st'"
  shows "stat_inv ty (vs0 @ vs) st'"
  using assms
proof (induction vs arbitrary: vs0 st)
  case (Cons v vs)
  obtain st1 where st1: "update_stat st v = Inr st1" "rfold (\<lambda>v st. update_stat st v) vs st1 = Inr st'"
    using Cons.prems(3) by (auto simp: rbind_eq_Inr)
  from Cons.IH [OF update_stat_inv [OF Cons.prems(1,2) st1(1)] Cons.prems(2) st1(2)] show ?case by simp
qed simp

text \<open>The numbers of a column that count for its statistics: neither NULL nor NaN.\<close>

fun countable :: "nullable_value \<Rightarrow> nval option" where
  "countable (Some (VInt k)) = Some (NInt k)"
| "countable (Some (VDouble d)) = (if d64_isnan d then None else Some (NDouble d))"
| "countable _ = None"

fun nval_le :: "nval \<Rightarrow> nval \<Rightarrow> bool" where
  "nval_le (NInt a) (NInt b) = (a \<le> b)"
| "nval_le (NDouble a) (NDouble b) = d64_le a b"
| "nval_le _ _ = False"

text \<open>C31: After any sequence of updates the statistics of a numeric column have a value exactly when the
  column holds a number other than NULL and NaN; the minimum and the maximum are then numbers of the
  column, and every number of the column lies between them.\<close>

theorem statistics_bound_column:
  assumes "rfold (\<lambda>v st. update_stat st v) vs (zero_stats ci ty) = Inr st" "is_numeric_type ty"
    and "list_all (\<lambda>v. case v of None \<Rightarrow> True | Some x \<Rightarrow> holds_type ty x) vs"
  shows "(ns_has st \<longleftrightarrow> (\<exists>v \<in> set vs. countable v \<noteq> None)) \<and>
    (\<forall>v \<in> set vs. \<forall>n. countable v = Some n \<longrightarrow> nval_le (ns_min st) n \<and> nval_le n (ns_max st)) \<and>
    (ns_has st \<longrightarrow> Some (ns_min st) \<in> countable ` set vs \<and> Some (ns_max st) \<in> countable ` set vs)"
proof -
  have inv: "stat_inv ty vs st" using update_stats_fold_inv [OF stat_inv_zero assms(2,1)] by simp
  have typed: "\<And>v. v \<in> set vs \<Longrightarrow> case v of None \<Rightarrow> True | Some x \<Rightarrow> holds_type ty x" using assms(3) by (simp add: list_all_iff)
  show ?thesis
  proof (cases ty)
    case INT64
    have num: "countable v = Some n \<longleftrightarrow> (\<exists>k. v = Some (VInt k) \<and> n = NInt k)" if "v \<in> set vs" for v n
      using typed [OF that] by (cases v rule: countable.cases) (auto simp: INT64)
    have "Some (NInt k) \<in> countable ` set vs" if "Some (VInt k) \<in> set vs" for k
      using that by (force intro: image_eqI)
    moreover have "\<exists>v \<in> set vs. countable v \<noteq> None" if "Some (VInt k) \<in> set vs" for k
      using that by force
    ultimately show ?thesis using inv num by (fastforce simp: stat_inv_def INT64)
  next
    case DOUBLE
    have num: "countable v = Some n \<longleftrightarrow> (\<exists>d. v = Some (VDouble d) \<and> \<not> d64_isnan d \<and> n = NDouble d)" if "v \<in> set vs" for v n
      using typed [OF that] by (cases v rule: countable.cases) (auto simp: DOUBLE)
    have "Some (NDouble d) \<in> countable ` set vs" if "Some (VDouble d) \<in> set vs" "\<not> d64_isnan d" for d
      using that by (force intro: image_eqI)
    moreover have "\<exists>v \<in> set vs. countable v \<noteq> None" if "Some (VDouble d) \<in> set vs" "\<not> d64_isnan d" for d
      using that by force
    ultimately show ?thesis using inv num by (fastforce simp: stat_inv_def DOUBLE)
  next
    case STRING
    then show ?thesis using assms(2) by (simp add: is_numeric_type_def)
  qed
qed

lemma statistics_bound_column_witness:
  "\<exists>st. rfold (\<lambda>v st. update_stat st v) [Some (VInt (I64 7)), None, Some (VInt (I64 3))] (zero_stats 1 INT64) = Inr st \<and>
     ns_has st \<and> nval_le (ns_min st) (NInt (I64 3)) \<and> nval_le (NInt (I64 7)) (ns_max st)"
proof -
  let ?vs = "[Some (VInt (I64 7)), None, Some (VInt (I64 3))]"
  have "isl (rfold (\<lambda>v st. update_stat st v) ?vs (zero_stats 1 INT64)) = False" by code_simp
  then obtain st where st: "rfold (\<lambda>v st. update_stat st v) ?vs (zero_stats 1 INT64) = Inr st"
    by (cases "rfold (\<lambda>v st. update_stat st v) ?vs (zero_stats 1 INT64)") auto
  show ?thesis using statistics_bound_column [OF st] st by (simp add: is_numeric_type_def)
qed

end
