(* ===== verification/Row_Block.thy ===== *)
theory Row_Block
  imports Stats
begin

text \<open>
  Row-layout data blocks: \<open>RowSSTBlockBuilder\<close> (\<open>row_sst_block_builder.cpp\<close>) and the decoder
  \<open>decode_row_block\<close> of \<open>sstable_row_cursor.cpp\<close>. The builder takes its schema as an argument
  (the C++ object holds a reference to it). The lemmas give the builder's invariant (buffer,
  key bounds, row count, full flag and statistics describe exactly the rows added) and the
  round trip through the decoder with any projection pm.
\<close>

section \<open>The builder\<close>

record row_block_meta =
  rbm_min :: key
  rbm_max :: key
  rbm_offset :: "64 word"
  rbm_size :: "64 word"
  rbm_count :: "32 word"
  rbm_block_id :: "32 word"

record row_block_result =
  rbr_data :: "byte list"
  rbr_meta :: row_block_meta
  rbr_stats :: "num_stats list"

record row_block_builder =
  rb_buffer :: "byte list"
  rb_min :: key
  rb_max :: key
  rb_count :: "32 word"
  rb_full :: bool
  rb_stats :: "num_stats list"
  rb_target :: nat

definition rb_reset :: "schema \<Rightarrow> row_block_builder \<Rightarrow> row_block_builder" where
  "rb_reset s b = b\<lparr>rb_buffer := [], rb_min := i64_max, rb_max := i64_min, rb_count := 0,
     rb_full := False, rb_stats := reset_numeric_stats s\<rparr>"

definition RowSSTBlockBuilder :: "schema \<Rightarrow> nat \<Rightarrow> row_block_builder res" where
  "RowSSTBlockBuilder s target =
     (if target = 0 then
        Inl (RuntimeError ''RowSSTBlockBuilder: target block size must be positive'')
      else Inr (rb_reset s \<lparr>rb_buffer = [], rb_min = i64_max, rb_max = i64_min, rb_count = 0,
        rb_full = False, rb_stats = [], rb_target = target\<rparr>))"

text \<open>The bit of a non-key column is set when its cell is NULL.\<close>

definition row_null_bitmap :: "nullable_value list \<Rightarrow> nat \<Rightarrow> byte list" where
  "row_null_bitmap cells n =
     fold (\<lambda>i bm. if cells ! i = None then bitmap_set bm i else bm) [0..<n]
       (replicate (bitmap_size n) 0)"

text \<open>The loop over the value columns; a row shorter than the schema is undefined behaviour in C++.\<close>

fun encode_cells :: "value_type list \<Rightarrow> nullable_value list \<Rightarrow> byte list res" where
  "encode_cells [] _ = Inr []"
| "encode_cells (ty # tys) [] = Inl (LogicError ''undefined behaviour: row shorter than the schema'')"
| "encode_cells (ty # tys) (c # cs) =
     rbind (write_value ty c) (\<lambda>b. rbind (encode_cells tys cs) (\<lambda>bs. Inr (b @ bs)))"

definition encode_row :: "schema \<Rightarrow> row \<Rightarrow> byte list \<Rightarrow> byte list res" where
  "encode_row s r buf =
     rbind (row_key r) (\<lambda>k.
     rbind (encode_cells (tl (schema_types s)) (tl r)) (\<lambda>bs.
       Inr (buf @ enc_i64 k @ row_null_bitmap (tl r) (schema_size s - 1) @ bs)))"

definition rb_add :: "schema \<Rightarrow> row \<Rightarrow> row_block_builder \<Rightarrow> row_block_builder res" where
  "rb_add s r b =
     (if rb_full b then Inl (RuntimeError ''Block is already full'')
      else
        rbind (row_key r) (\<lambda>k.
        rbind (encode_row s r (rb_buffer b)) (\<lambda>buf.
        rbind (update_numeric_stats r (rb_stats b)) (\<lambda>sts.
          Inr (b\<lparr>rb_min := min k (rb_min b), rb_max := max k (rb_max b), rb_buffer := buf,
                 rb_stats := sts, rb_count := rb_count b + 1,
                 rb_full := (rb_full b \<or> length buf \<ge> rb_target b)\<rparr>)))))"

definition rb_finish :: "schema \<Rightarrow> row_block_builder \<Rightarrow> (row_block_result \<times> row_block_builder) res" where
  "rb_finish s b =
     (if rb_count b = 0 then Inl (RuntimeError ''Cannot finish empty SST block'')
      else Inr (\<lparr>rbr_data = rb_buffer b,
                 rbr_meta = \<lparr>rbm_min = rb_min b, rbm_max = rb_max b, rbm_offset = 0,
                   rbm_size = word_of_nat (length (rb_buffer b)), rbm_count = rb_count b,
                   rbm_block_id = 0\<rparr>,
                 rbr_stats = rb_stats b\<rparr>, rb_reset s b))"

section \<open>The decoder\<close>

definition row_block_error :: exn where
  "row_block_error = RuntimeError ''Unexpected end of SSTable row block''"

text \<open>
  The inner loop over the columns \<open>ci + 1, ci + 2, ..\<close> of one row. A NULL or unprojected cell
  stays empty; the bytes of an unprojected value are skipped.
\<close>

fun decode_cells ::
    "byte list \<Rightarrow> bool list \<Rightarrow> nat \<Rightarrow> value_type list \<Rightarrow> byte list \<Rightarrow> (nullable_value list \<times> byte list) res"
where
  "decode_cells bm pm ci [] bs = Inr ([], bs)"
| "decode_cells bm pm ci (ty # tys) bs =
     (if bitmap_get bm ci then
        rbind (decode_cells bm pm (Suc ci) tys bs) (\<lambda>(cs, rest). Inr (None # cs, rest))
      else if \<not> pm ! Suc ci then
        rbind (skip_value row_block_error ty bs) (\<lambda>bs1.
        rbind (decode_cells bm pm (Suc ci) tys bs1) (\<lambda>(cs, rest). Inr (None # cs, rest)))
      else
        rbind (read_value row_block_error ty bs) (\<lambda>(v, bs1).
        rbind (decode_cells bm pm (Suc ci) tys bs1) (\<lambda>(cs, rest). Inr (Some v # cs, rest))))"

definition decode_row :: "value_type list \<Rightarrow> bool list \<Rightarrow> byte list \<Rightarrow> (row \<times> byte list) res" where
  "decode_row types pm bs =
     rbind (read_i64 row_block_error bs) (\<lambda>(k, bs1).
     rbind (read_bytes row_block_error (bitmap_size (length types - 1)) bs1) (\<lambda>(bm, bs2).
     rbind (decode_cells bm pm 0 (tl types) bs2) (\<lambda>(cs, rest).
       Inr (Some (VInt k) # cs, rest))))"

fun decode_rows :: "value_type list \<Rightarrow> bool list \<Rightarrow> nat \<Rightarrow> byte list \<Rightarrow> (row list \<times> byte list) res" where
  "decode_rows types pm 0 bs = Inr ([], bs)"
| "decode_rows types pm (Suc n) bs =
     rbind (decode_row types pm bs) (\<lambda>(r, bs1).
     rbind (decode_rows types pm n bs1) (\<lambda>(rs, rest). Inr (r # rs, rest)))"

definition decode_row_block ::
    "byte list \<Rightarrow> 32 word \<Rightarrow> value_type list \<Rightarrow> bool list \<Rightarrow> row list res" where
  "decode_row_block block_data row_count types pm =
     rbind (decode_rows types pm (unat row_count) block_data) (\<lambda>(rs, _). Inr rs)"

text \<open>\<open>make_projection_mask\<close>: the key column is always projected.\<close>

fun projection_mask_loop :: "nat \<Rightarrow> nat list \<Rightarrow> bool list \<Rightarrow> bool list res" where
  "projection_mask_loop n [] pm = Inr pm"
| "projection_mask_loop n (c # cs) pm =
     (if c \<ge> n then Inl (OutOfRange ''Projection column index out of schema range'')
      else if pm ! c then Inl (RuntimeError ''Projection contains duplicate column index'')
      else projection_mask_loop n cs (pm[c := True]))"

definition make_projection_mask :: "nat \<Rightarrow> nat list \<Rightarrow> bool list res" where
  "make_projection_mask n projection =
     rbind (projection_mask_loop n projection (replicate n False)) (\<lambda>pm.
       Inr (pm[KEY_COLUMN_INDEX := True]))"

section \<open>What the decoder returns: the row with unprojected cells empty\<close>

fun project_cells :: "bool list \<Rightarrow> nat \<Rightarrow> nullable_value list \<Rightarrow> nullable_value list" where
  "project_cells pm ci [] = []"
| "project_cells pm ci (c # cs) = (if pm ! Suc ci then c else None) # project_cells pm (Suc ci) cs"

definition project_row :: "bool list \<Rightarrow> row \<Rightarrow> row" where
  "project_row pm r = hd r # project_cells pm 0 (tl r)"

lemma length_project_cells [simp]: "length (project_cells pm ci cs) = length cs"
  by (induction cs arbitrary: ci) auto

lemma nth_project_cells:
  "i < length cs \<Longrightarrow> project_cells pm ci cs ! i = (if pm ! Suc (ci + i) then cs ! i else None)"
  by (induction cs arbitrary: ci i) (auto simp: nth_Cons split: nat.splits)

lemma project_cells_all:
  "(\<And>i. i < length cs \<Longrightarrow> pm ! Suc (ci + i)) \<Longrightarrow> project_cells pm ci cs = cs"
  by (rule nth_equalityI) (auto simp: nth_project_cells)

lemma row_key_project_row: "row_key r = Inr k \<Longrightarrow> row_key (project_row pm r) = Inr k"
  by (auto simp: row_key_eq_Inr project_row_def)

lemma projection_mask_loop_spec:
  assumes "projection_mask_loop n cs pm = Inr m" "length pm = n"
  shows "length m = n \<and> (\<forall>i < n. m ! i \<longleftrightarrow> pm ! i \<or> i \<in> set cs)"
  using assms by (induction cs arbitrary: pm) (auto simp: nth_list_update split: if_splits)

lemma make_projection_mask_spec:
  assumes "make_projection_mask n projection = Inr m" "0 < n"
  shows "length m = n \<and> (\<forall>i < n. m ! i \<longleftrightarrow> i = KEY_COLUMN_INDEX \<or> i \<in> set projection)"
  using assms projection_mask_loop_spec [of n projection "replicate n False"]
  by (auto simp: make_projection_mask_def rbind_eq_Inr nth_list_update KEY_COLUMN_INDEX_def
      split: if_splits)

lemma projection_mask_loop_ok:
  assumes "length pm = n" "distinct cs" "\<forall>c \<in> set cs. c < n \<and> \<not> pm ! c"
  shows "\<exists>m. projection_mask_loop n cs pm = Inr m"
  using assms
proof (induction cs arbitrary: pm)
  case (Cons c cs)
  then have "\<exists>m. projection_mask_loop n cs (pm[c := True]) = Inr m"
    by (intro Cons.IH) (auto simp: nth_list_update)
  with Cons.prems show ?case by simp
qed simp

lemma make_projection_mask_ok:
  assumes "distinct projection" "\<forall>c \<in> set projection. c < n"
  shows "\<exists>m. make_projection_mask n projection = Inr m"
proof -
  obtain m where "projection_mask_loop n projection (replicate n False) = Inr m"
    using projection_mask_loop_ok [of "replicate n False" n projection] assms by auto
  then show ?thesis by (simp add: make_projection_mask_def)
qed

section \<open>Round trip of one row\<close>

lemma row_null_bitmap_spec:
  "length (row_null_bitmap cells n) = bitmap_size n \<and>
   (\<forall>i < n. bitmap_get (row_null_bitmap cells n) i \<longleftrightarrow> cells ! i = None)"
proof -
  let ?step = "\<lambda>i bm. if cells ! i = None then bitmap_set bm i else bm"
  have len: "length (fold ?step [0..<m] bm) = length bm" for m and bm :: "byte list"
    by (induction m) auto
  have get: "m \<le> n \<Longrightarrow> i < n \<Longrightarrow>
      bitmap_get (fold ?step [0..<m] (replicate (bitmap_size n) 0)) i \<longleftrightarrow> i < m \<and> cells ! i = None" for m i
  proof (induction m)
    case 0
    have "i < 8 * bitmap_size n" using 0 by (simp add: bitmap_size_def)
    then show ?case by simp
  next
    case (Suc m)
    have "i < 8 * bitmap_size n" "m < 8 * bitmap_size n"
      using Suc.prems by (simp_all add: bitmap_size_def)
    with Suc show ?case by (auto simp: bitmap_get_set len less_Suc_eq)
  qed
  show ?thesis using len get [of n] by (simp add: row_null_bitmap_def)
qed

definition cells_fit :: "nullable_value list \<Rightarrow> bool" where
  "cells_fit cs \<longleftrightarrow> (\<forall>v. Some v \<in> set cs \<longrightarrow> val_fits v)"

lemma decode_cells_encode:
  assumes "encode_cells tys cs = Inr bs" "length cs = length tys" "cells_fit cs"
    and "\<And>i. i < length cs \<Longrightarrow> bitmap_get bm (ci + i) \<longleftrightarrow> cs ! i = None"
  shows "decode_cells bm pm ci tys (bs @ rest) = Inr (project_cells pm ci cs, rest)"
  using assms
proof (induction tys cs arbitrary: ci bs rule: encode_cells.induct)
  case (3 ty tys c cs)
  from 3(2) obtain b bs' where b: "write_value ty c = Inr b" "encode_cells tys cs = Inr bs'" "bs = b @ bs'"
    by (auto simp: rbind_eq_Inr)
  have IH: "decode_cells bm pm (Suc ci) tys (bs' @ rest) = Inr (project_cells pm (Suc ci) cs, rest)"
    using 3(5) [of "Suc i" for i]
    by (intro 3(1) [OF b(1) b(2)]) (use 3 in \<open>auto simp: cells_fit_def\<close>)
  have null: "bitmap_get bm ci \<longleftrightarrow> c = None" using 3(5) [of 0] by simp
  show ?case
  proof (cases c)
    case None
    with b null IH show ?thesis by simp
  next
    case (Some v)
    with 3(4) have fit: "val_fits v" by (simp add: cells_fit_def)
    from Some b(1) have w: "write_value ty (Some v) = Inr b" by simp
    show ?thesis
      using Some null IH b(3) read_value_append [OF w fit] skip_value_append [OF w fit] by simp
  qed
qed auto

lemma decode_row_encode:
  assumes enc: "encode_row s r [] = Inr bs" and len: "length r = schema_size s" and fit: "cells_fit (tl r)"
  shows "decode_row (schema_types s) pm (bs @ rest) = Inr (project_row pm r, rest)"
proof -
  obtain k cb where k: "row_key r = Inr k" and cb: "encode_cells (tl (schema_types s)) (tl r) = Inr cb"
      and bs: "bs = enc_i64 k @ row_null_bitmap (tl r) (schema_size s - 1) @ cb"
    using enc by (auto simp: encode_row_def rbind_eq_Inr)
  have sz: "length (schema_types s) = schema_size s" by (simp add: schema_types_def schema_size_def)
  note bm = row_null_bitmap_spec [of "tl r" "schema_size s - 1"]
  have "decode_cells (row_null_bitmap (tl r) (schema_size s - 1)) pm 0 (tl (schema_types s)) (cb @ rest)
      = Inr (project_cells pm 0 (tl r), rest)"
    using bm len sz by (intro decode_cells_encode [OF cb]) (use fit in auto)
  with k bm bs sz show ?thesis
    by (auto simp: decode_row_def project_row_def row_key_eq_Inr)
qed

section \<open>The builder's invariant and the round trip of a block\<close>

definition rkey :: "row \<Rightarrow> key" where
  "rkey r = (case row_key r of Inr k \<Rightarrow> k | Inl _ \<Rightarrow> i64_of 0)"

abbreviation rkeys :: "row list \<Rightarrow> key list" where
  "rkeys rows \<equiv> map rkey rows"

lemma rkey_simp [simp]: "rkey (Some (VInt k) # r) = k"
  by (simp add: rkey_def)

lemma rkey_eq: "row_key r = Inr k \<Longrightarrow> rkey r = k"
  by (simp add: rkey_def)

definition col_cells :: "nat \<Rightarrow> row list \<Rightarrow> nullable_value list" where
  "col_cells ci rows = map (\<lambda>r. r ! ci) rows"

definition stats_inv :: "row list \<Rightarrow> num_stats list \<Rightarrow> bool" where
  "stats_inv rows sts \<longleftrightarrow>
     (\<forall>st \<in> set sts. is_numeric_type (ns_type st) \<and> stat_inv (ns_type st) (col_cells (ns_column st) rows) st)"

definition row_block_inv :: "schema \<Rightarrow> row list \<Rightarrow> row_block_builder \<Rightarrow> bool" where
  "row_block_inv s rows b \<longleftrightarrow>
     (\<exists>encs. list_all2 (\<lambda>r e. encode_row s r [] = Inr e) rows encs \<and> rb_buffer b = concat encs) \<and>
     rb_count b = word_of_nat (length rows) \<and>
     rb_min b = fold min (rkeys rows) i64_max \<and>
     rb_max b = fold max (rkeys rows) i64_min \<and>
     map (\<lambda>st. (ns_column st, ns_type st)) (rb_stats b) =
       map (\<lambda>st. (ns_column st, ns_type st)) (reset_numeric_stats s) \<and>
     stats_inv rows (rb_stats b) \<and>
     (rb_full b \<longrightarrow> rb_target b \<le> length (rb_buffer b)) \<and>
     (rows \<noteq> [] \<and> rb_target b \<le> length (rb_buffer b) \<longrightarrow> rb_full b)"

lemma reset_stats_inv: "stats_inv [] (reset_numeric_stats s)"
  by (auto simp: stats_inv_def reset_numeric_stats_def col_cells_def zero_stats_def Let_def
      stat_inv_def split: if_splits)

lemma row_block_inv_reset: "row_block_inv s [] (rb_reset s b)"
  by (simp add: row_block_inv_def rb_reset_def reset_stats_inv)

lemma encode_row_buf: "encode_row s r buf = Inr out \<longleftrightarrow> (\<exists>e. encode_row s r [] = Inr e \<and> out = buf @ e)"
  by (auto simp: encode_row_def rbind_eq_Inr)

lemma update_numeric_stats_inv:
  assumes "stats_inv rows sts" "update_numeric_stats r sts = Inr sts'"
  shows "stats_inv (rows @ [r]) sts'"
    "map (\<lambda>st. (ns_column st, ns_type st)) sts' = map (\<lambda>st. (ns_column st, ns_type st)) sts"
proof -
  have l: "list_all2 (\<lambda>st st'. ns_column st < length r \<and> update_stat st (r ! ns_column st) = Inr st') sts sts'"
    using assms(2) by (auto simp: update_numeric_stats_def rmap_Inr_iff not_le elim!: list_all2_mono split: if_splits)
  have "stats_inv (rows @ [r]) sts' \<and>
      map (\<lambda>st. (ns_column st, ns_type st)) sts' = map (\<lambda>st. (ns_column st, ns_type st)) sts"
    using l assms(1)
  proof (induction rule: list_all2_induct)
    case Nil
    then show ?case by (simp add: stats_inv_def)
  next
    case (Cons st sts st' sts')
    have "ns_column st' = ns_column st \<and> ns_type st' = ns_type st"
      using Cons by (blast dest: update_stat_column)
    moreover from this have "stat_inv (ns_type st') (col_cells (ns_column st') (rows @ [r])) st'"
      using Cons update_stat_inv [of "ns_type st" "col_cells (ns_column st) rows" st "r ! ns_column st" st']
      by (simp add: stats_inv_def col_cells_def)
    ultimately show ?case using Cons by (simp add: stats_inv_def)
  qed
  then show "stats_inv (rows @ [r]) sts'"
    "map (\<lambda>st. (ns_column st, ns_type st)) sts' = map (\<lambda>st. (ns_column st, ns_type st)) sts" by auto
qed

lemma rb_add_inv:
  assumes "row_block_inv s rows b" "rb_add s r b = Inr b'"
  shows "row_block_inv s (rows @ [r]) b'" "rb_target b' = rb_target b"
proof -
  have nf: "\<not> rb_full b" using assms(2) by (cases "rb_full b") (simp_all add: rb_add_def)
  note add = assms(2) [unfolded rb_add_def]
  from add nf obtain kk where kk: "row_key r = Inr kk" by (cases "row_key r") simp_all
  from add nf kk obtain buf where bf: "encode_row s r (rb_buffer b) = Inr buf"
    by (cases "encode_row s r (rb_buffer b)") simp_all
  from add nf kk bf obtain sts where sts: "update_numeric_stats r (rb_stats b) = Inr sts"
    by (cases "update_numeric_stats r (rb_stats b)") simp_all
  note k = kk bf sts
  from add nf k have b1: "b' = b\<lparr>rb_min := min kk (rb_min b), rb_max := max kk (rb_max b), rb_buffer := buf,
               rb_stats := sts, rb_count := rb_count b + 1,
               rb_full := (rb_target b \<le> length buf)\<rparr>"
    by simp
  from k(2) obtain e where e: "encode_row s r [] = Inr e" and buf: "buf = rb_buffer b @ e"
    by (auto simp: encode_row_buf [of s r "rb_buffer b"])
  note b' = b1 [unfolded buf]
  from b' show "rb_target b' = rb_target b" by simp
  from assms(1) obtain encs where encs: "list_all2 (\<lambda>r e. encode_row s r [] = Inr e) rows encs" "rb_buffer b = concat encs"
    by (auto simp: row_block_inv_def)
  have enc': "list_all2 (\<lambda>r e. encode_row s r [] = Inr e) (rows @ [r]) (encs @ [e])"
    using encs(1) e by (auto intro: list_all2_appendI)
  have buf': "rb_buffer b' = concat (encs @ [e])" using encs(2) by (simp add: b')
  have st: "stats_inv rows (rb_stats b)" using assms(1) by (simp add: row_block_inv_def)
  have old: "rb_count b = word_of_nat (length rows)" "rb_min b = fold min (rkeys rows) i64_max"
      "rb_max b = fold max (rkeys rows) i64_min"
      "map (\<lambda>st. (ns_column st, ns_type st)) (rb_stats b) =
       map (\<lambda>st. (ns_column st, ns_type st)) (reset_numeric_stats s)"
    using assms(1) unfolding row_block_inv_def by blast+
  note new = update_numeric_stats_inv [OF st k(3)]
  have cnt: "rb_count b' = word_of_nat (length (rows @ [r]))" by (simp add: b' old(1))
  have mn: "rb_min b' = fold min (rkeys (rows @ [r])) i64_max"
    and mx: "rb_max b' = fold max (rkeys (rows @ [r])) i64_min"
    by (simp_all add: b' old(2,3) rkey_eq [OF k(1)])
  have cols: "map (\<lambda>st. (ns_column st, ns_type st)) (rb_stats b') =
       map (\<lambda>st. (ns_column st, ns_type st)) (reset_numeric_stats s)"
    using new(2) old(4) by (simp add: b')
  have sts': "stats_inv (rows @ [r]) (rb_stats b')" using new(1) by (simp add: b')
  have full: "rb_full b' \<longleftrightarrow> rb_target b' \<le> length (rb_buffer b')" by (simp add: b')
  show "row_block_inv s (rows @ [r]) b'"
    unfolding row_block_inv_def using enc' buf' cnt mn mx cols sts' full by blast
qed

text \<open>A valid row is always accepted while the block is not full.\<close>

lemma encode_cells_ok:
  assumes "length cs = length tys" "\<And>i v. i < length cs \<Longrightarrow> cs ! i = Some v \<Longrightarrow> holds_type (tys ! i) v"
  shows "\<exists>bs. encode_cells tys cs = Inr bs"
  using assms
proof (induction tys cs rule: encode_cells.induct)
  case (3 ty tys c cs)
  obtain b where b: "write_value ty c = Inr b"
    using 3(3) [of 0] by (cases c) (auto dest: write_value_ok)
  have "\<exists>bs. encode_cells tys cs = Inr bs"
    using 3(2) 3(3) [of "Suc i" for i] by (intro "3.IH" [OF b]) auto
  with b show ?case by auto
qed auto

lemma valid_row_cell:
  assumes "valid_row s r" "i < schema_size s" "r ! i = Some v"
  shows "holds_type (col_type (columns s ! i)) v"
  using assms by (auto simp: valid_row_def is_valid_value_def Let_def schema_size_def)

lemma reset_numeric_stats_mem:
  "st \<in> set (reset_numeric_stats s) \<Longrightarrow>
   ns_column st < schema_size s \<and> ns_type st = col_type (columns s ! ns_column st)"
  by (auto simp: reset_numeric_stats_def zero_stats_def Let_def split: if_splits)

lemma encode_row_ok:
  assumes "schema_wf s" "valid_row s r"
  shows "\<exists>e. encode_row s r [] = Inr e"
proof -
  obtain k r' where r: "r = Some (VInt k) # r'" using valid_row_key [OF assms] by auto
  have len: "length r = schema_size s" using assms(2) by (simp add: valid_row_def)
  have "\<exists>bs. encode_cells (tl (schema_types s)) (tl r) = Inr bs"
  proof (rule encode_cells_ok)
    show "length (tl r) = length (tl (schema_types s))"
      using len by (simp add: schema_types_def schema_size_def)
    fix i v
    assume i: "i < length (tl r)" "tl r ! i = Some v"
    then show "holds_type (tl (schema_types s) ! i) v"
      using valid_row_cell [OF assms(2), of "Suc i" v] len
      by (simp add: nth_tl schema_types_def schema_size_def)
  qed
  then show ?thesis by (auto simp: encode_row_def r)
qed

lemma rb_add_ok:
  assumes "schema_wf s" "row_block_inv s rows b" "valid_row s r" "\<not> rb_full b"
  shows "\<exists>b'. rb_add s r b = Inr b'"
proof -
  obtain k r' where r: "r = Some (VInt k) # r'" using valid_row_key [OF assms(1,3)] by auto
  obtain e where e: "encode_row s r [] = Inr e" using encode_row_ok [OF assms(1,3)] by auto
  have stat: "\<exists>y. (if ns_column st \<ge> length r then Inl (RuntimeError ''RowSSTBlockBuilder: row size mismatch schema'')
      else update_stat st (r ! ns_column st)) = Inr y" if st: "st \<in> set (rb_stats b)" for st
  proof -
    have "(ns_column st, ns_type st) \<in> set (map (\<lambda>st. (ns_column st, ns_type st)) (reset_numeric_stats s))"
      using assms(2) st by (metis (no_types, lifting) image_eqI list.set_map row_block_inv_def)
    then have c: "ns_column st < schema_size s" "ns_type st = col_type (columns s ! ns_column st)"
      by (auto dest: reset_numeric_stats_mem)
    have "\<exists>y. update_stat st (r ! ns_column st) = Inr y"
      using assms(2) st c valid_row_cell [OF assms(3) c(1)]
      by (intro update_stat_ok [of "ns_type st" "col_cells (ns_column st) rows"])
        (auto simp: row_block_inv_def stats_inv_def)
    with c assms(3) show ?thesis by (simp add: valid_row_def)
  qed
  have "\<exists>sts. update_numeric_stats r (rb_stats b) = Inr sts"
    unfolding update_numeric_stats_def by (rule rmap_ok) (rule stat)
  with e assms(4) r show ?thesis
    by (auto simp: rb_add_def encode_row_def rbind_eq_Inr)
qed

lemma decode_rows_encode:
  assumes "list_all2 (\<lambda>r e. encode_row s r [] = Inr e) rows encs"
    and "\<forall>r \<in> set rows. length r = schema_size s \<and> cells_fit (tl r)"
  shows "decode_rows (schema_types s) pm (length rows) (concat encs @ rest) =
         Inr (map (project_row pm) rows, rest)"
  using assms
proof (induction rule: list_all2_induct)
  case (Cons r rows e encs)
  then show ?case using decode_row_encode [of s r e pm "concat encs @ rest"] by simp
qed simp

text \<open>Reading a finished block back: \<open>row_count\<close> and the data as \<open>finish\<close> returns them.\<close>

lemma row_block_inv_decode:
  assumes "row_block_inv s rows b" "length rows < 2 ^ 32"
    and "\<forall>r \<in> set rows. length r = schema_size s \<and> cells_fit (tl r)"
  shows "decode_row_block (rb_buffer b) (rb_count b) (schema_types s) pm = Inr (map (project_row pm) rows)"
proof -
  obtain encs where encs: "list_all2 (\<lambda>r e. encode_row s r [] = Inr e) rows encs" "rb_buffer b = concat encs"
    using assms(1) by (auto simp: row_block_inv_def)
  have "unat (rb_count b) = length rows"
    using assms(1,2) by (simp add: row_block_inv_def unat_of_nat)
  then show ?thesis
    using decode_rows_encode [OF encs(1) assms(3), of pm "[]"] encs(2)
    by (simp add: decode_row_block_def)
qed

lemma extends_decode_cells: "extends (decode_cells bm pm ci tys)"
proof (induction tys arbitrary: ci)
  case Nil
  then show ?case by (simp add: extends_def)
next
  case (Cons ty tys)
  have 1: "extends (\<lambda>bs. rbind (decode_cells bm pm (Suc ci) tys bs) (\<lambda>(cs, rest). Inr (f cs, rest)))" for f
    by (intro extends_bind Cons.IH extends_return)
  have 2: "extends (\<lambda>bs. rbind (rbind (skip_value row_block_error ty bs) (\<lambda>rest. Inr ((), rest)))
      (\<lambda>(_, bs1). rbind (decode_cells bm pm (Suc ci) tys bs1) (\<lambda>(cs, rest). Inr (None # cs, rest))))"
    by (intro extends_bind extends_skip_value 1)
  have 3: "extends (\<lambda>bs. rbind (read_value row_block_error ty bs)
      (\<lambda>(v, bs1). rbind (decode_cells bm pm (Suc ci) tys bs1) (\<lambda>(cs, rest). Inr (Some v # cs, rest))))"
    by (intro extends_bind extends_read_value 1)
  have eq: "rbind (rbind m (\<lambda>rest. Inr ((), rest))) (\<lambda>(_, bs1). g bs1) = rbind m g"
    for m :: "byte list res" and g :: "byte list \<Rightarrow> (nullable_value list \<times> byte list) res"
    by (cases m) auto
  show ?case using 1 [of "\<lambda>cs. None # cs"] 2 3 by (auto simp: eq extends_def)
qed

lemma extends_decode_row: "extends (decode_row types pm)"
  unfolding decode_row_def
  by (intro extends_bind extends_read_i64 extends_read_bytes extends_decode_cells extends_return)

lemma extends_decode_rows: "extends (decode_rows types pm n)"
proof (induction n)
  case 0
  then show ?case by (simp add: extends_def)
next
  case (Suc n)
  have "extends (\<lambda>bs. rbind (decode_row types pm bs) (\<lambda>(r, bs1).
      rbind (decode_rows types pm n bs1) (\<lambda>(rs, rest). Inr (r # rs, rest))))"
    by (intro extends_bind extends_decode_row Suc.IH extends_return)
  then show ?case by (simp add: extends_def)
qed

section \<open>Properties\<close>

text \<open>A block filled with rows from an empty builder on.\<close>

definition fill_row_block :: "schema \<Rightarrow> nat \<Rightarrow> row list \<Rightarrow> (row_block_result \<times> row_block_builder) res" where
  "fill_row_block s target rows =
     rbind (RowSSTBlockBuilder s target) (\<lambda>b. rbind (rfold (rb_add s) rows b) (rb_finish s))"

definition block_fits :: "schema \<Rightarrow> row list \<Rightarrow> bool" where
  "block_fits s rows \<longleftrightarrow> length rows < 2 ^ 32 \<and> (\<forall>r \<in> set rows. length r = schema_size s \<and> cells_fit (tl r))"

lemma rfold_rb_add_inv:
  "row_block_inv s rows0 b \<Longrightarrow> rfold (rb_add s) rows b = Inr b' \<Longrightarrow> row_block_inv s (rows0 @ rows) b'"
proof (induction rows arbitrary: rows0 b)
  case (Cons r rows)
  obtain b1 where b1: "rb_add s r b = Inr b1" "rfold (rb_add s) rows b1 = Inr b'"
    using Cons.prems(2) by (auto simp: rbind_eq_Inr)
  from Cons.IH [OF rb_add_inv(1) [OF Cons.prems(1) b1(1)] b1(2)] show ?case by simp
qed simp

lemma fill_row_blockD:
  assumes "fill_row_block s target rows = Inr (res, b')"
  shows "\<exists>b. row_block_inv s rows b \<and> rbr_data res = rb_buffer b \<and> rbm_count (rbr_meta res) = rb_count b"
proof -
  obtain b0 b where b: "RowSSTBlockBuilder s target = Inr b0" "rfold (rb_add s) rows b0 = Inr b" "rb_finish s b = Inr (res, b')"
    using assms by (auto simp: fill_row_block_def rbind_eq_Inr)
  have "row_block_inv s [] b0" using b(1) by (auto simp: RowSSTBlockBuilder_def row_block_inv_reset split: if_splits)
  from rfold_rb_add_inv [OF this b(2)] b(3) show ?thesis by (auto simp: rb_finish_def split: if_splits)
qed

lemma sample_block_fits: "block_fits sample_schema sample_rows"
  by (simp add: block_fits_def sample_row_def cells_fit_def)

lemma fill_sample_row_block: "\<exists>p. fill_row_block sample_schema 100 sample_rows = Inr p"
proof -
  have "isl (fill_row_block sample_schema 100 sample_rows) = False" by code_simp
  then show ?thesis by (cases "fill_row_block sample_schema 100 sample_rows") auto
qed

text \<open>C28: Decoding the bytes of a finished row block gives back the rows that were added, with the
  cells outside the projection empty.\<close>

theorem row_block_round_trip:
  assumes "fill_row_block s target rows = Inr (res, b')" "block_fits s rows"
  shows "decode_row_block (rbr_data res) (rbm_count (rbr_meta res)) (schema_types s) pm = Inr (map (project_row pm) rows)"
  using fill_row_blockD [OF assms(1)] row_block_inv_decode assms(2) by (force simp: block_fits_def)

lemma row_block_round_trip_witness:
  "\<exists>res b'. fill_row_block sample_schema 100 sample_rows = Inr (res, b') \<and>
     decode_row_block (rbr_data res) (rbm_count (rbr_meta res)) (schema_types sample_schema) [True, False, True] =
     Inr (map (project_row [True, False, True]) sample_rows)"
proof -
  obtain res b' where f: "fill_row_block sample_schema 100 sample_rows = Inr (res, b')" using fill_sample_row_block by auto
  show ?thesis using row_block_round_trip [OF f sample_block_fits, of "[True, False, True]"] f by blast
qed

lemma decode_row_block_rest:
  assumes "row_block_inv s rows b" "block_fits s rows"
  shows "decode_rows (schema_types s) pm (unat (rb_count b)) (rb_buffer b) = Inr (map (project_row pm) rows, [])"
proof -
  obtain encs where encs: "list_all2 (\<lambda>r e. encode_row s r [] = Inr e) rows encs" "rb_buffer b = concat encs"
    using assms(1) by (auto simp: row_block_inv_def)
  have "unat (rb_count b) = length rows"
    using assms by (simp add: row_block_inv_def unat_of_nat block_fits_def)
  then show ?thesis using decode_rows_encode [OF encs(1), of pm "[]"] encs(2) assms(2) by (simp add: block_fits_def)
qed

lemma decode_rows_fails: "fails_with row_block_error (decode_rows types pm n)"
proof -
  have c: "fails_with row_block_error (decode_cells bm pm ci tys)" for bm ci tys
  proof (induction tys arbitrary: ci)
    case (Cons ty tys)
    have "fails_with row_block_error (\<lambda>bs. rbind (read_value row_block_error ty bs)
        (\<lambda>(v, bs1). rbind (decode_cells bm pm (Suc ci) tys bs1) (\<lambda>(cs, rest). Inr (Some v # cs, rest))))"
      by (intro fails_with_bind fails_with_readers Cons.IH fails_with_return)
    then show ?case
      using Cons.IH [of "Suc ci"] fails_with_readers(4) [of row_block_error ty]
      by (auto simp: fails_with_def rbind_eq_Inl)
  qed (simp add: fails_with_def)
  have r: "fails_with row_block_error (decode_row types pm)"
    unfolding decode_row_def by (intro fails_with_bind fails_with_readers c fails_with_return)
  show ?thesis
  proof (induction n)
    case (Suc n)
    have "fails_with row_block_error (\<lambda>bs. rbind (decode_row types pm bs) (\<lambda>(r, bs1).
        rbind (decode_rows types pm n bs1) (\<lambda>(rs, rest). Inr (r # rs, rest))))"
      by (intro fails_with_bind r Suc.IH fails_with_return)
    then show ?case by (simp add: fails_with_def)
  qed (simp add: fails_with_def)
qed

text \<open>C36: A row block that was cut short is never decoded to wrong rows: with any byte missing at
  the end the decoder throws "Unexpected end of SSTable row block".\<close>

theorem row_block_truncated:
  assumes "fill_row_block s target rows = Inr (res, b')" "block_fits s rows" "n < length (rbr_data res)"
  shows "decode_row_block (take n (rbr_data res)) (rbm_count (rbr_meta res)) (schema_types s) pm =
    Inl (RuntimeError ''Unexpected end of SSTable row block'')"
proof -
  obtain b where b: "row_block_inv s rows b" "rbr_data res = rb_buffer b" "rbm_count (rbr_meta res) = rb_count b"
    using fill_row_blockD [OF assms(1)] by blast
  let ?f = "decode_rows (schema_types s) pm (unat (rb_count b))"
  have "n < length (rb_buffer b)" using assms(3) b(2) by simp
  from extends_prefix_fails [OF extends_decode_rows decode_row_block_rest [OF b(1) assms(2)] this]
  obtain e where e: "?f (take n (rb_buffer b)) = Inl e" by blast
  then have "e = row_block_error" using decode_rows_fails by (auto simp: fails_with_def)
  with e b show ?thesis by (simp add: decode_row_block_def row_block_error_def)
qed

lemma row_block_truncated_witness:
  "\<exists>res b'. fill_row_block sample_schema 100 sample_rows = Inr (res, b') \<and>
     decode_row_block (take 7 (rbr_data res)) (rbm_count (rbr_meta res)) (schema_types sample_schema) [True, True, True] =
     Inl (RuntimeError ''Unexpected end of SSTable row block'')"
proof -
  obtain res b' where f: "fill_row_block sample_schema 100 sample_rows = Inr (res, b')" using fill_sample_row_block by auto
  have "case fill_row_block sample_schema 100 sample_rows of Inr (res, b') \<Rightarrow> 7 < length (rbr_data res) | Inl _ \<Rightarrow> False"
    by code_simp
  then have "7 < length (rbr_data res)" by (simp add: f)
  from row_block_truncated [OF f sample_block_fits this] f show ?thesis by blast
qed

end
