(* ===== verification/Col_Block.thy ===== *)
theory Col_Block
  imports Row_Block
begin

text \<open>
  Column-layout data blocks: \<open>ColumnSSTBlockBuilder\<close> (\<open>column_sst_block_builder.cpp\<close>) and the
  decoders \<open>decode_key_block\<close> and \<open>decode_value_column_block\<close> of
  \<open>sstable_column_cursor.cpp\<close>. A value block is a null bitmap followed by the non-NULL values,
  a key block is the keys alone. The lemmas give the builder's invariant and the round trip.
\<close>

section \<open>The builder of one value column\<close>

text \<open>The block metadata as written to \<open>meta.bin\<close> and read back.\<close>

record col_block_meta =
  cm_min :: key
  cm_max :: key
  cm_offset :: "64 word"
  cm_size :: "64 word"
  cm_count :: "32 word"
  cm_block_id :: "32 word"
  cm_column_idx :: "32 word"

record col_block_result =
  cbr_data :: "byte list"
  cbr_meta :: col_block_meta
  cbr_stats :: "num_stats list"

record col_block_builder =
  cb_column :: column
  cb_id :: "16 word"
  cb_buffer :: "byte list"
  cb_bitmap :: "byte list"
  cb_min :: key
  cb_max :: key
  cb_count :: "32 word"
  cb_full :: bool
  cb_stats :: "num_stats list"
  cb_target :: nat

definition cb_reset :: "col_block_builder \<Rightarrow> col_block_builder" where
  "cb_reset b = b\<lparr>cb_buffer := [], cb_bitmap := [], cb_min := i64_max, cb_max := i64_min,
     cb_count := 0, cb_full := False,
     cb_stats := col_reset_numeric_stats (unat (cb_id b)) (cb_column b)\<rparr>"

definition ColumnSSTBlockBuilder :: "column \<Rightarrow> 16 word \<Rightarrow> nat \<Rightarrow> col_block_builder res" where
  "ColumnSSTBlockBuilder c column_id target =
     (if target = 0 then
        Inl (RuntimeError ''ColumnSSTBlockBuilder: target block size must be positive'')
      else Inr (cb_reset \<lparr>cb_column = c, cb_id = column_id, cb_buffer = [], cb_bitmap = [],
        cb_min = i64_max, cb_max = i64_min, cb_count = 0, cb_full = False, cb_stats = [],
        cb_target = target\<rparr>))"

definition cb_size_bytes :: "col_block_builder \<Rightarrow> nat" where
  "cb_size_bytes b = length (cb_buffer b) + length (cb_bitmap b)"

text \<open>The bitmap grows by zero bytes until it has a bit for the new row.\<close>

definition cb_bitmap_for :: "nullable_value \<Rightarrow> nat \<Rightarrow> byte list \<Rightarrow> byte list" where
  "cb_bitmap_for v row_index bm =
     (let byte_idx = row_index div 8;
          bm0 = (if length bm \<le> byte_idx then bm @ replicate (byte_idx + 1 - length bm) 0 else bm)
      in if v = None then bitmap_set bm0 row_index else bm0)"

definition cb_add :: "row \<Rightarrow> col_block_builder \<Rightarrow> col_block_builder res" where
  "cb_add r b =
     (if cb_full b then Inl (RuntimeError ''Column block already full'')
      else if cb_id b \<ge> word_of_nat (length r) then
        Inl (RuntimeError ''ColumnSSTBlockBuilder: column_id out of range'')
      else
        rbind (row_key r) (\<lambda>k.
        let v = r ! unat (cb_id b);
            bm = cb_bitmap_for v (unat (cb_count b)) (cb_bitmap b) in
        rbind (write_value (col_type (cb_column b)) v) (\<lambda>bs.
        rbind (col_update_numeric_stats v (cb_stats b)) (\<lambda>sts.
          Inr (b\<lparr>cb_min := min (cb_min b) k, cb_max := max (cb_max b) k,
                 cb_bitmap := bm, cb_buffer := cb_buffer b @ bs, cb_stats := sts,
                 cb_count := cb_count b + 1,
                 cb_full := (cb_full b \<or> length (cb_buffer b @ bs) + length bm \<ge> cb_target b)\<rparr>)))))"

definition cb_finish :: "col_block_builder \<Rightarrow> (col_block_result \<times> col_block_builder) res" where
  "cb_finish b =
     (if cb_count b = 0 then Inl (RuntimeError ''Cannot finish empty column block'')
      else Inr (\<lparr>cbr_data = cb_bitmap b @ cb_buffer b,
                 cbr_meta = \<lparr>cm_min = cb_min b, cm_max = cb_max b, cm_offset = 0,
                   cm_size = word_of_nat (cb_size_bytes b), cm_count = cb_count b,
                   cm_block_id = 0, cm_column_idx = ucast (cb_id b)\<rparr>,
                 cbr_stats = cb_stats b\<rparr>, cb_reset b))"

section \<open>The decoders\<close>

definition col_block_error :: exn where
  "col_block_error = RuntimeError ''Unexpected end of SSTable column block''"

fun decode_keys :: "nat \<Rightarrow> byte list \<Rightarrow> (key list \<times> byte list) res" where
  "decode_keys 0 bs = Inr ([], bs)"
| "decode_keys (Suc n) bs =
     rbind (read_i64 col_block_error bs) (\<lambda>(k, bs1).
     rbind (decode_keys n bs1) (\<lambda>(ks, rest). Inr (k # ks, rest)))"

definition decode_key_block :: "byte list \<Rightarrow> 32 word \<Rightarrow> key list res" where
  "decode_key_block block_data values_count =
     rbind (decode_keys (unat values_count) block_data) (\<lambda>(ks, _). Inr ks)"

fun decode_values ::
    "byte list \<Rightarrow> value_type \<Rightarrow> nat \<Rightarrow> nat \<Rightarrow> byte list \<Rightarrow> (nullable_value list \<times> byte list) res"
where
  "decode_values bm ty idx 0 bs = Inr ([], bs)"
| "decode_values bm ty idx (Suc n) bs =
     (if idx div 8 \<ge> length bm then Inl (LogicError ''undefined behaviour: null bitmap index out of range'')
      else if bitmap_get bm idx then
        rbind (decode_values bm ty (Suc idx) n bs) (\<lambda>(vs, rest). Inr (None # vs, rest))
      else
        rbind (read_value col_block_error ty bs) (\<lambda>(v, bs1).
        rbind (decode_values bm ty (Suc idx) n bs1) (\<lambda>(vs, rest). Inr (Some v # vs, rest))))"

text \<open>The size of the bitmap is computed in 32 bits.\<close>

definition decode_value_column_block ::
    "byte list \<Rightarrow> 32 word \<Rightarrow> value_type \<Rightarrow> nullable_value list res" where
  "decode_value_column_block block_data values_count ty =
     rbind (read_bytes col_block_error (unat ((values_count + 7) div 8)) block_data) (\<lambda>(bm, bs).
     rbind (decode_values bm ty 0 (unat values_count) bs) (\<lambda>(vs, _). Inr vs))"

section \<open>Round trip\<close>

lemma decode_keys_encode:
  "decode_keys (length ks) (concat (map (\<lambda>k. enc_i64 k) ks) @ rest) = Inr (ks, rest)"
  by (induction ks) auto

lemma decode_values_encode:
  assumes "list_all2 (\<lambda>v e. write_value ty v = Inr e) vs encs" "cells_fit vs"
    and "\<And>i. i < length vs \<Longrightarrow> (idx + i) div 8 < length bm \<and> (bitmap_get bm (idx + i) \<longleftrightarrow> vs ! i = None)"
  shows "decode_values bm ty idx (length vs) (concat encs @ rest) = Inr (vs, rest)"
  using assms
proof (induction arbitrary: idx rule: list_all2_induct)
  case (Cons v vs e encs)
  have IH: "decode_values bm ty (Suc idx) (length vs) (concat encs @ rest) = Inr (vs, rest)"
    using Cons.prems(2) [of "Suc i" for i] Cons.prems(1) by (intro Cons.IH) (auto simp: cells_fit_def)
  have null: "bitmap_get bm idx \<longleftrightarrow> v = None" "\<not> idx div 8 \<ge> length bm" using Cons.prems(2) [of 0] by simp_all
  show ?case
  proof (cases v)
    case None
    then show ?thesis using Cons.hyps IH null by simp
  next
    case (Some x)
    have "val_fits x" "write_value ty (Some x) = Inr e"
      using Cons.prems(1) Cons.hyps Some by (auto simp: cells_fit_def)
    then show ?thesis using Some IH null read_value_append [of ty x e] by simp
  qed
qed simp

section \<open>The builder's invariant\<close>

definition col_block_inv :: "row list \<Rightarrow> col_block_builder \<Rightarrow> bool" where
  "col_block_inv rows b \<longleftrightarrow>
     (let cells = col_cells (unat (cb_id b)) rows in
      (\<exists>encs. list_all2 (\<lambda>v e. write_value (col_type (cb_column b)) v = Inr e) cells encs \<and>
         cb_buffer b = concat encs) \<and>
      length (cb_bitmap b) = bitmap_size (length rows) \<and>
      (\<forall>i < 8 * bitmap_size (length rows).
         bitmap_get (cb_bitmap b) i \<longleftrightarrow> i < length rows \<and> cells ! i = None) \<and>
      cb_count b = word_of_nat (length rows) \<and>
      cb_min b = fold min (rkeys rows) i64_max \<and>
      cb_max b = fold max (rkeys rows) i64_min \<and>
      map (\<lambda>st. (ns_column st, ns_type st)) (cb_stats b) =
        map (\<lambda>st. (ns_column st, ns_type st)) (col_reset_numeric_stats (unat (cb_id b)) (cb_column b)) \<and>
      stats_inv rows (cb_stats b) \<and>
      (cb_full b \<longrightarrow> rows \<noteq> []))"

lemma col_reset_stats_inv: "stats_inv [] (col_reset_numeric_stats ci c)"
  by (auto simp: stats_inv_def col_reset_numeric_stats_def col_cells_def zero_stats_def Let_def
      stat_inv_def split: if_splits)

lemma col_block_inv_reset: "col_block_inv [] (cb_reset b)"
  by (simp add: col_block_inv_def cb_reset_def col_reset_stats_inv col_cells_def bitmap_size_def)

lemma cb_bitmap_for_spec:
  assumes len: "length bm = bitmap_size n"
    and get: "\<forall>i < 8 * bitmap_size n. bitmap_get bm i \<longleftrightarrow> i < n \<and> cells ! i = None"
    and cells: "length cells = n"
  shows "length (cb_bitmap_for v n bm) = bitmap_size (Suc n) \<and>
    (\<forall>i < 8 * bitmap_size (Suc n). bitmap_get (cb_bitmap_for v n bm) i \<longleftrightarrow>
       i < Suc n \<and> (cells @ [v]) ! i = None)"
proof -
  define bm0 where "bm0 = (if length bm \<le> n div 8 then bm @ replicate (n div 8 + 1 - length bm) 0 else bm)"
  have bs: "bitmap_size (Suc n) = n div 8 + 1"
    by (simp add: bitmap_size_def)
  have n8: "n \<le> 8 * bitmap_size n" "bitmap_size n \<le> n div 8 + 1"
    by (simp_all add: bitmap_size_def)
  have len0: "length bm0 = bitmap_size (Suc n)"
    using len n8 by (auto simp: bm0_def bs)
  have get0: "bitmap_get bm0 i \<longleftrightarrow> i < n \<and> cells ! i = None" if "i < 8 * bitmap_size (Suc n)" for i
  proof (cases "length bm \<le> n div 8")
    case True
    have "i < 8 * (length bm + (n div 8 + 1 - length bm))" using that True by (simp add: bs)
    then show ?thesis
      using True get n8 by (auto simp: bm0_def bitmap_get_append_0 len)
  next
    case False
    with len n8 have "bitmap_size n = bitmap_size (Suc n)" by (simp add: bs)
    with False that get show ?thesis by (simp add: bm0_def)
  qed
  have n: "n < 8 * bitmap_size (Suc n)" by (simp add: bs)
  have eq: "cb_bitmap_for v n bm = (if v = None then bitmap_set bm0 n else bm0)"
    by (simp add: cb_bitmap_for_def bm0_def Let_def)
  show ?thesis
    using get0 len0 n cells by (auto simp: eq bitmap_get_set nth_append less_Suc_eq)
qed

lemma col_update_numeric_stats_inv:
  assumes inv: "stats_inv rows sts"
    and shape: "map (\<lambda>st. (ns_column st, ns_type st)) sts =
        map (\<lambda>st. (ns_column st, ns_type st)) (col_reset_numeric_stats ci c)"
    and upd: "col_update_numeric_stats (r ! ci) sts = Inr sts'"
  shows "stats_inv (rows @ [r]) sts'"
    "map (\<lambda>st. (ns_column st, ns_type st)) sts' = map (\<lambda>st. (ns_column st, ns_type st)) sts"
proof -
  consider (none) "sts = []" | (one) st where "sts = [st]" "ns_column st = ci"
    using shape by (auto simp: col_reset_numeric_stats_def zero_stats_def Let_def map_eq_Cons_conv split: if_splits)
  then have "stats_inv (rows @ [r]) sts' \<and>
      map (\<lambda>st. (ns_column st, ns_type st)) sts' = map (\<lambda>st. (ns_column st, ns_type st)) sts"
  proof cases
    case none
    with upd show ?thesis by (simp add: col_update_numeric_stats_def stats_inv_def)
  next
    case (one st)
    have "\<exists>st'. sts' = [st'] \<and> update_stat st (r ! ci) = Inr st'"
    proof (cases "r ! ci")
      case None
      with upd one show ?thesis by (simp add: col_update_numeric_stats_def update_stat_def)
    next
      case (Some v)
      with upd one show ?thesis by (auto simp: col_update_numeric_stats_def rbind_eq_Inr)
    qed
    then obtain st' where st': "sts' = [st']" "update_stat st (r ! ci) = Inr st'" by auto
    with update_stat_column [OF st'(2)] show ?thesis
      using inv one update_stat_inv [of "ns_type st" "col_cells ci rows" st "r ! ci" st']
      by (auto simp: stats_inv_def col_cells_def)
  qed
  then show "stats_inv (rows @ [r]) sts'"
    "map (\<lambda>st. (ns_column st, ns_type st)) sts' = map (\<lambda>st. (ns_column st, ns_type st)) sts" by auto
qed

lemma cb_add_inv:
  assumes inv: "col_block_inv rows b" and add: "cb_add r b = Inr b'" and n: "length rows < 2 ^ 32"
  shows "col_block_inv (rows @ [r]) b'"
    "cb_id b' = cb_id b" "cb_column b' = cb_column b" "cb_target b' = cb_target b"
proof -
  let ?ci = "unat (cb_id b)" and ?ty = "col_type (cb_column b)"
  have nf: "\<not> cb_full b" "\<not> cb_id b \<ge> word_of_nat (length r)"
    using add by (auto simp: cb_add_def split: if_splits)
  note add1 = add [unfolded cb_add_def Let_def]
  from add1 nf obtain k where k: "row_key r = Inr k" by (cases "row_key r") simp_all
  from add1 nf k obtain bs where bs: "write_value ?ty (r ! ?ci) = Inr bs"
    by (cases "write_value ?ty (r ! ?ci)") simp_all
  from add1 nf k bs obtain sts where sts: "col_update_numeric_stats (r ! ?ci) (cb_stats b) = Inr sts"
    by (cases "col_update_numeric_stats (r ! ?ci) (cb_stats b)") simp_all
  define bm where "bm = cb_bitmap_for (r ! ?ci) (unat (cb_count b)) (cb_bitmap b)"
  from add1 nf k bs sts have b': "b' = b\<lparr>cb_min := min (cb_min b) k, cb_max := max (cb_max b) k,
       cb_bitmap := bm, cb_buffer := cb_buffer b @ bs, cb_stats := sts, cb_count := cb_count b + 1,
       cb_full := (length (cb_buffer b @ bs) + length bm \<ge> cb_target b)\<rparr>"
    by (simp add: bm_def)
  show "cb_id b' = cb_id b" "cb_column b' = cb_column b" "cb_target b' = cb_target b"
    by (simp_all add: b')
  have old: "length (cb_bitmap b) = bitmap_size (length rows)"
      "\<forall>i < 8 * bitmap_size (length rows). bitmap_get (cb_bitmap b) i \<longleftrightarrow>
         i < length rows \<and> col_cells ?ci rows ! i = None"
      "cb_count b = word_of_nat (length rows)"
      "cb_min b = fold min (rkeys rows) i64_max" "cb_max b = fold max (rkeys rows) i64_min"
      "map (\<lambda>st. (ns_column st, ns_type st)) (cb_stats b) =
        map (\<lambda>st. (ns_column st, ns_type st)) (col_reset_numeric_stats ?ci (cb_column b))"
      "stats_inv rows (cb_stats b)"
      "\<exists>encs. list_all2 (\<lambda>v e. write_value ?ty v = Inr e) (col_cells ?ci rows) encs \<and> cb_buffer b = concat encs"
    using inv unfolding col_block_inv_def Let_def by blast+
  have cnt: "unat (cb_count b) = length rows" using old(3) n by (simp add: unat_of_nat)
  have snoc: "col_cells ?ci (rows @ [r]) = col_cells ?ci rows @ [r ! ?ci]"
    by (simp add: col_cells_def)
  have bm: "length bm = bitmap_size (length (rows @ [r])) \<and>
      (\<forall>i < 8 * bitmap_size (length (rows @ [r])). bitmap_get bm i \<longleftrightarrow>
         i < length (rows @ [r]) \<and> col_cells ?ci (rows @ [r]) ! i = None)"
    using cb_bitmap_for_spec [OF old(1,2), of "r ! ?ci"]
    by (simp add: bm_def cnt snoc) (simp add: col_cells_def)
  obtain encs where "list_all2 (\<lambda>v e. write_value ?ty v = Inr e) (col_cells ?ci rows) encs" "cb_buffer b = concat encs"
    using old(8) by blast
  with bs have encs: "list_all2 (\<lambda>v e. write_value ?ty v = Inr e) (col_cells ?ci (rows @ [r])) (encs @ [bs])"
      "cb_buffer b' = concat (encs @ [bs])"
    by (simp_all add: snoc list_all2_appendI b')
  note st = col_update_numeric_stats_inv [OF old(7,6) sts]
  have rest: "cb_count b' = word_of_nat (length (rows @ [r]))"
      "cb_min b' = fold min (rkeys (rows @ [r])) i64_max" "cb_max b' = fold max (rkeys (rows @ [r])) i64_min"
    by (simp_all add: b' old(3,4,5) rkey_eq [OF k] min.commute max.commute)
  have fields: "cb_id b' = cb_id b" "cb_column b' = cb_column b" "cb_bitmap b' = bm" "cb_stats b' = sts"
    by (simp_all add: b')
  show "col_block_inv (rows @ [r]) b'"
    unfolding col_block_inv_def Let_def fields
    using bm encs rest st old(6) by (intro conjI) (blast | simp)+
qed

lemma cb_add_ok:
  assumes "schema_wf s" "valid_row s r" "col_block_inv rows b" "\<not> cb_full b"
    and "unat (cb_id b) < schema_size s" "schema_size s < 2 ^ 16"
    and "cb_column b = columns s ! unat (cb_id b)"
  shows "\<exists>b'. cb_add r b = Inr b'"
proof -
  let ?ci = "unat (cb_id b)"
  obtain k r' where r: "r = Some (VInt k) # r'" using valid_row_key [OF assms(1,2)] by auto
  have len: "length r = schema_size s" using assms(2) by (simp add: valid_row_def)
  have id: "\<not> cb_id b \<ge> word_of_nat (length r)"
    using assms(5,6) len by (simp add: word_le_nat_alt unat_of_nat)
  have typed: "holds_type (col_type (cb_column b)) v" if "r ! ?ci = Some v" for v
    using valid_row_cell [OF assms(2,5) that] assms(7) by simp
  have w: "\<exists>bs. write_value (col_type (cb_column b)) (r ! ?ci) = Inr bs"
    using typed by (cases "r ! ?ci") (auto dest: write_value_ok)
  have shape: "map (\<lambda>st. (ns_column st, ns_type st)) (cb_stats b) =
        map (\<lambda>st. (ns_column st, ns_type st)) (col_reset_numeric_stats ?ci (cb_column b))"
      and st: "stats_inv rows (cb_stats b)"
    using assms(3) unfolding col_block_inv_def Let_def by blast+
  have "\<exists>sts. col_update_numeric_stats (r ! ?ci) (cb_stats b) = Inr sts"
  proof (cases "cb_stats b = [] \<or> r ! ?ci = None")
    case True
    then show ?thesis by (auto simp: col_update_numeric_stats_def split: list.splits)
  next
    case False
    then obtain st v where s: "cb_stats b = [st]" "r ! ?ci = Some v" "ns_column st = ?ci"
        "ns_type st = col_type (cb_column b)"
      using shape by (auto simp: col_reset_numeric_stats_def zero_stats_def Let_def map_eq_Cons_conv split: if_splits)
    have "\<exists>st'. update_stat st (r ! ?ci) = Inr st'"
      using st s typed by (intro update_stat_ok [of "ns_type st" "col_cells ?ci rows"]) (auto simp: stats_inv_def)
    with s show ?thesis by (auto simp: col_update_numeric_stats_def)
  qed
  with w id assms(4) r show ?thesis by (auto simp: cb_add_def Let_def)
qed

lemma col_block_inv_decode:
  assumes "col_block_inv rows b" "length rows < 2 ^ 32 - 7" "cells_fit (col_cells (unat (cb_id b)) rows)"
  shows "decode_value_column_block (cb_bitmap b @ cb_buffer b) (cb_count b) (col_type (cb_column b)) =
         Inr (col_cells (unat (cb_id b)) rows)"
proof -
  let ?cells = "col_cells (unat (cb_id b)) rows"
  obtain encs where encs: "list_all2 (\<lambda>v e. write_value (col_type (cb_column b)) v = Inr e) ?cells encs"
      "cb_buffer b = concat encs"
    and bm: "length (cb_bitmap b) = bitmap_size (length rows)"
      "\<forall>i < 8 * bitmap_size (length rows). bitmap_get (cb_bitmap b) i \<longleftrightarrow> i < length rows \<and> ?cells ! i = None"
    and cnt: "cb_count b = word_of_nat (length rows)"
    using assms(1) unfolding col_block_inv_def Let_def by blast
  have n: "unat (cb_count b) = length rows" using cnt assms(2) by (simp add: unat_of_nat)
  have len: "length ?cells = length rows" by (simp add: col_cells_def)
  have small: "i < 8 * bitmap_size (length rows)" "i div 8 < length (cb_bitmap b)" if "i < length rows" for i
    using that bitmap_index [OF that] by (simp_all add: bitmap_size_def bm(1))
  have "unat (cb_count b + 7) = length rows + 7" using assms(2) n by (subst unat_add_lem [THEN iffD1]) simp_all
  then have bs: "unat ((cb_count b + 7) div 8) = bitmap_size (length rows)" by (simp add: unat_div_distrib bitmap_size_def)
  have "decode_values (cb_bitmap b) (col_type (cb_column b)) 0 (length ?cells) (concat encs @ [])
      = Inr (?cells, [])"
    using bm small len by (intro decode_values_encode [OF encs(1) assms(3)]) auto
  then show ?thesis
    by (simp add: decode_value_column_block_def n bs bm(1) encs(2) len)
qed

lemma decode_key_block_encode:
  assumes "length ks < 2 ^ 32"
  shows "decode_key_block (concat (map (\<lambda>k. enc_i64 k) ks)) (word_of_nat (length ks)) = Inr ks"
  using decode_keys_encode [of ks "[]"] assms
  by (simp add: decode_key_block_def unat_of_nat)

lemma extends_decode_values: "extends (decode_values bm ty idx n)"
proof (induction n arbitrary: idx)
  case (Suc n)
  have 1: "extends (\<lambda>bs. rbind (decode_values bm ty (Suc idx) n bs) (\<lambda>(cs, rest). Inr (f cs, rest)))" for f
    by (intro extends_bind Suc.IH extends_return)
  have 2: "extends (\<lambda>bs. rbind (read_value col_block_error ty bs)
      (\<lambda>(v, bs1). rbind (decode_values bm ty (Suc idx) n bs1) (\<lambda>(cs, rest). Inr (Some v # cs, rest))))"
    by (intro extends_bind extends_read_value 1)
  show ?case using 1 [of "\<lambda>cs. None # cs"] 2 by (auto simp: extends_def)
qed (simp add: extends_def)

section \<open>Properties\<close>

text \<open>The block of one value column filled with the cells of the rows, from an empty builder on.\<close>

definition fill_column_block ::
    "column \<Rightarrow> 16 word \<Rightarrow> nat \<Rightarrow> row list \<Rightarrow> (col_block_result \<times> col_block_builder) res" where
  "fill_column_block c ci target rows =
     rbind (ColumnSSTBlockBuilder c ci target) (\<lambda>b. rbind (rfold cb_add rows b) cb_finish)"

lemma rfold_cb_add_inv:
  "col_block_inv rows0 b \<Longrightarrow> rfold cb_add rows b = Inr b' \<Longrightarrow> length (rows0 @ rows) < 2 ^ 32 \<Longrightarrow>
   col_block_inv (rows0 @ rows) b' \<and> cb_id b' = cb_id b \<and> cb_column b' = cb_column b"
proof (induction rows arbitrary: rows0 b)
  case (Cons r rows)
  obtain b1 where b1: "cb_add r b = Inr b1" "rfold cb_add rows b1 = Inr b'"
    using Cons.prems(2) by (auto simp: rbind_eq_Inr)
  have n: "length rows0 < 2 ^ 32" "length ((rows0 @ [r]) @ rows) < 2 ^ 32" using Cons.prems(3) by simp_all
  note a = cb_add_inv [OF Cons.prems(1) b1(1) n(1)]
  from Cons.IH [OF a(1) b1(2) n(2)] a(2,3) show ?case by simp
qed simp

text \<open>C29: Decoding the bytes of a finished column block with the recorded number of values gives back the
  cells of the column, NULLs included.\<close>

theorem column_block_round_trip:
  assumes "fill_column_block c ci target rows = Inr (res, b')" "length rows < 2 ^ 32 - 7"
    and "cells_fit (col_cells (unat ci) rows)"
  shows "decode_value_column_block (cbr_data res) (cm_count (cbr_meta res)) (col_type c) = Inr (col_cells (unat ci) rows)"
proof -
  obtain b0 b where b: "ColumnSSTBlockBuilder c ci target = Inr b0" "rfold cb_add rows b0 = Inr b" "cb_finish b = Inr (res, b')"
    using assms(1) by (auto simp: fill_column_block_def rbind_eq_Inr)
  have b0: "col_block_inv [] b0" "cb_id b0 = ci" "cb_column b0 = c"
    using b(1) by (auto simp: ColumnSSTBlockBuilder_def col_block_inv_reset cb_reset_def split: if_splits)
      (auto simp: col_block_inv_def col_reset_stats_inv col_cells_def bitmap_size_def)
  have "length ([] @ rows) < 2 ^ 32" using assms(2) by simp
  from rfold_cb_add_inv [OF b0(1) b(2) this] b0 have "col_block_inv rows b" "cb_id b = ci" "cb_column b = c" by simp_all
  then show ?thesis using col_block_inv_decode [of rows b] assms(2,3) b(3) by (auto simp: cb_finish_def split: if_splits)
qed

lemma column_block_round_trip_witness:
  "\<exists>res b'. fill_column_block (columns sample_schema ! 2) 2 100 sample_rows = Inr (res, b') \<and>
     decode_value_column_block (cbr_data res) (cm_count (cbr_meta res)) STRING =
     Inr [Some (VString ''ab''), Some (VString ''ab'')]"
proof -
  have "isl (fill_column_block (columns sample_schema ! 2) 2 100 sample_rows) = False" by code_simp
  then obtain res b' where f: "fill_column_block (columns sample_schema ! 2) 2 100 sample_rows = Inr (res, b')"
    by (cases "fill_column_block (columns sample_schema ! 2) 2 100 sample_rows") auto
  have "cells_fit (col_cells 2 sample_rows)" by (simp add: cells_fit_def col_cells_def sample_row_def)
  then show ?thesis
    using column_block_round_trip [OF f] f
    by (simp add: sample_columns sample_defs_def column_of_def) (simp add: col_cells_def sample_row_def)
qed

end
