(* ===== verification/Sparse_Index.thy ===== *)
theory Sparse_Index
  imports Col_Block
begin

text \<open>
  The sparse index of an SSTable: the step chosen by the builders
  (\<open>sparse_index_options.hpp\<close>), the entries they write, \<open>SparseBlockSelector\<close>
  (\<open>sparse_block_selector.cpp\<close>) and the linear selectors. The lemmas show that the step keeps
  the index within its byte budget and that selecting through the index loses no block.
  The binary searches of the C++ library are the partition point of the list (their documented
  result on a sorted range).
\<close>

section \<open>Choosing the step\<close>

record sparse_index_entry =
  si_min_key :: key
  si_block_id :: "32 word"

record sparse_index_options =
  so_fixed_step :: "32 word"
  so_target_index_bytes :: nat
  so_min_step :: "32 word"
  so_max_step :: "32 word"

definition SPARSE_INDEX_ENTRY_ON_DISK_SIZE :: nat where
  "SPARSE_INDEX_ENTRY_ON_DISK_SIZE = 8 + 4"

definition SparseIndexOptions :: sparse_index_options where
  "SparseIndexOptions = \<lparr>so_fixed_step = 0, so_target_index_bytes = 1024 * 1024,
     so_min_step = 1, so_max_step = 4096\<rparr>"

definition clamp :: "'a::linorder \<Rightarrow> 'a \<Rightarrow> 'a \<Rightarrow> 'a" where
  "clamp v lo hi = (if v < lo then lo else if hi < v then hi else v)"

definition choose_sparse_index_step :: "32 word \<Rightarrow> sparse_index_options \<Rightarrow> 32 word" where
  "choose_sparse_index_step num_blocks options =
     (if num_blocks = 0 then 1
      else
        let min_step = max 1 (so_min_step options);
            max_step = max min_step (so_max_step options) in
        if so_fixed_step options \<noteq> 0 then clamp (so_fixed_step options) min_step max_step
        else if so_target_index_bytes options < SPARSE_INDEX_ENTRY_ON_DISK_SIZE then max_step
        else
          let max_entries = max 1 (so_target_index_bytes options div SPARSE_INDEX_ENTRY_ON_DISK_SIZE);
              raw_step = (unat num_blocks + max_entries - 1) div max_entries in
          clamp (word_of_nat (min raw_step (2 ^ 32 - 1))) min_step max_step)"

lemma clamp_bounds: "lo \<le> hi \<Longrightarrow> lo \<le> clamp v lo hi \<and> clamp v lo hi \<le> hi"
  by (auto simp: clamp_def)

lemma choose_sparse_index_step_bounds:
  assumes "n \<noteq> 0"
  shows "max 1 (so_min_step opts) \<le> choose_sparse_index_step n opts"
    "choose_sparse_index_step n opts \<le> max (max 1 (so_min_step opts)) (so_max_step opts)"
proof -
  define lo where "lo = max 1 (so_min_step opts)"
  define hi where "hi = max lo (so_max_step opts)"
  have le: "lo \<le> hi" by (simp add: hi_def)
  note b = clamp_bounds [OF le]
  have "lo \<le> choose_sparse_index_step n opts \<and> choose_sparse_index_step n opts \<le> hi"
    using assms b le unfolding choose_sparse_index_step_def Let_def lo_def [symmetric] hi_def [symmetric] by simp
  then show "max 1 (so_min_step opts) \<le> choose_sparse_index_step n opts"
      "choose_sparse_index_step n opts \<le> max (max 1 (so_min_step opts)) (so_max_step opts)"
    by (auto simp: lo_def hi_def)
qed

lemma choose_sparse_index_step_pos: "0 < unat (choose_sparse_index_step n opts)"
proof (cases "n = 0")
  case True
  then show ?thesis by (simp add: choose_sparse_index_step_def)
next
  case False
  have "(1::32 word) \<le> choose_sparse_index_step n opts"
    using choose_sparse_index_step_bounds(1) [OF False, of opts] by simp
  then show ?thesis by (simp add: word_le_nat_alt)
qed

text \<open>The number of entries an index with the step \<open>s\<close> has over \<open>n\<close> blocks.\<close>

definition sparse_entry_count :: "nat \<Rightarrow> nat \<Rightarrow> nat" where
  "sparse_entry_count n s = (n + s - 1) div s"

lemma sparse_entry_count_le:
  assumes "0 < m" "0 < s" "(n + m - 1) div m \<le> s"
  shows "sparse_entry_count n s \<le> m"
proof -
  have "n + m - 1 < Suc s * m"
    using assms by (simp only: less_Suc_eq_le flip: div_less_iff_less_mult)
  then have "n \<le> m * s" using assms by (simp add: algebra_simps)
  then have "n + s - 1 < (m + 1) * s" using assms by (simp add: algebra_simps)
  then have "(n + s - 1) div s < m + 1" by (simp add: less_mult_imp_div_less)
  then show ?thesis by (simp add: sparse_entry_count_def)
qed

text \<open>C37: With an adaptive step that is not capped by its maximum, the sparse index of a table with any
  number of blocks stays within the byte budget.\<close>

theorem choose_sparse_index_step_budget:
  assumes n: "n \<noteq> 0" and adaptive: "so_fixed_step opts = 0" "SPARSE_INDEX_ENTRY_ON_DISK_SIZE \<le> so_target_index_bytes opts"
    and room: "choose_sparse_index_step n opts < max (max 1 (so_min_step opts)) (so_max_step opts)"
  shows "sparse_entry_count (unat n) (unat (choose_sparse_index_step n opts)) * SPARSE_INDEX_ENTRY_ON_DISK_SIZE
    \<le> so_target_index_bytes opts"
proof -
  define m where "m = so_target_index_bytes opts div SPARSE_INDEX_ENTRY_ON_DISK_SIZE"
  define raw where "raw = (unat n + m - 1) div m"
  have m: "0 < m" using adaptive(2) by (simp add: m_def SPARSE_INDEX_ENTRY_ON_DISK_SIZE_def div_greater_zero_iff)
  have un: "unat n < 2 ^ 32" using unsigned_less [of n] by simp
  have "raw \<le> unat n"
  proof -
    have "unat n + m - 1 < unat n + m" using m by simp
    also have "\<dots> \<le> Suc (unat n) * m" using m by simp
    finally have "unat n + m - 1 < Suc (unat n) * m" .
    then show ?thesis unfolding raw_def by (simp add: less_mult_imp_div_less flip: less_Suc_eq_le)
  qed
  with un have raw: "min raw (2 ^ 32 - 1) = raw" "raw < 2 ^ 32" by auto
  let ?s = "choose_sparse_index_step n opts"
  have s: "?s = clamp (word_of_nat raw) (max 1 (so_min_step opts)) (max (max 1 (so_min_step opts)) (so_max_step opts))"
    using n adaptive m raw by (simp add: choose_sparse_index_step_def Let_def m_def raw_def max_def)
  then have "word_of_nat raw \<le> ?s" using room by (auto simp: clamp_def split: if_splits)
  then have "raw \<le> unat ?s" using raw by (simp add: word_le_nat_alt unat_of_nat)
  then have "sparse_entry_count (unat n) (unat ?s) \<le> m"
    using m choose_sparse_index_step_pos unfolding raw_def by (intro sparse_entry_count_le)
  then show ?thesis by (simp add: m_def SPARSE_INDEX_ENTRY_ON_DISK_SIZE_def less_eq_div_iff_mult_less_eq)
qed

lemma choose_sparse_index_step_budget_witness:
  "sparse_entry_count 1000 (unat (choose_sparse_index_step 1000 (SparseIndexOptions\<lparr>so_target_index_bytes := 120\<rparr>))) *
     SPARSE_INDEX_ENTRY_ON_DISK_SIZE \<le> 120"
proof -
  let ?o = "SparseIndexOptions\<lparr>so_target_index_bytes := 120\<rparr>"
  have s: "choose_sparse_index_step 1000 ?o = 100"
    by (simp add: choose_sparse_index_step_def SparseIndexOptions_def SPARSE_INDEX_ENTRY_ON_DISK_SIZE_def clamp_def Let_def)
  have "choose_sparse_index_step 1000 ?o < max (max 1 (so_min_step ?o)) (so_max_step ?o)"
    unfolding s by (simp add: SparseIndexOptions_def)
  then show ?thesis using choose_sparse_index_step_budget [of 1000 ?o]
    by (simp add: SparseIndexOptions_def SPARSE_INDEX_ENTRY_ON_DISK_SIZE_def)
qed

section \<open>Selecting blocks\<close>

record metadata_block_range =
  mr_first :: "32 word"
  mr_count :: "32 word"

definition intersects :: "key \<Rightarrow> key \<Rightarrow> key_range \<Rightarrow> bool" where
  "intersects min_key max_key rng =
     (if (case kr_from rng of Some f \<Rightarrow> max_key < f | None \<Rightarrow> False) then False
      else if (case kr_to rng of Some t \<Rightarrow> min_key \<ge> t | None \<Rightarrow> False) then False
      else True)"

definition upper_bound :: "sparse_index_entry list \<Rightarrow> key \<Rightarrow> nat" where
  "upper_bound index k = length (takeWhile (\<lambda>e. \<not> k < si_min_key e) index)"

definition lower_bound :: "sparse_index_entry list \<Rightarrow> key \<Rightarrow> nat" where
  "lower_bound index k = length (takeWhile (\<lambda>e. si_min_key e < k) index)"

definition sparse_range_error :: exn where
  "sparse_range_error = RuntimeError ''Sparse index block_id is out of range''"

definition sparse_first_block :: "sparse_index_entry list \<Rightarrow> key_range \<Rightarrow> 32 word" where
  "sparse_first_block index rng =
     (case kr_from rng of None \<Rightarrow> 0
      | Some f \<Rightarrow> let u = upper_bound index f in if u \<noteq> 0 then si_block_id (index ! (u - 1)) else 0)"

definition sparse_end_block :: "sparse_index_entry list \<Rightarrow> key_range \<Rightarrow> 32 word \<Rightarrow> 32 word res" where
  "sparse_end_block index rng total_blocks =
     (case kr_to rng of None \<Rightarrow> Inr total_blocks
      | Some t \<Rightarrow>
          let l = lower_bound index t in
          if l \<noteq> length index then
            if si_block_id (index ! l) \<ge> total_blocks then Inl sparse_range_error
            else Inr (si_block_id (index ! l))
          else Inr total_blocks)"

definition select_metadata_range ::
    "sparse_index_entry list \<Rightarrow> key_range \<Rightarrow> 32 word \<Rightarrow> metadata_block_range res" where
  "select_metadata_range index rng total_blocks =
     (if total_blocks = 0 then Inr \<lparr>mr_first = 0, mr_count = 0\<rparr>
      else if index = [] then Inr \<lparr>mr_first = 0, mr_count = total_blocks\<rparr>
      else
        let first_block_id = sparse_first_block index rng in
        if first_block_id \<ge> total_blocks then Inl sparse_range_error
        else
          rbind (sparse_end_block index rng total_blocks) (\<lambda>end_block_id.
            if end_block_id \<le> first_block_id then Inr \<lparr>mr_first = first_block_id, mr_count = 0\<rparr>
            else Inr \<lparr>mr_first = first_block_id, mr_count = end_block_id - first_block_id\<rparr>))"

definition filter_candidate_row_blocks :: "row_block_meta list \<Rightarrow> key_range \<Rightarrow> row_block_meta list" where
  "filter_candidate_row_blocks candidates rng =
     filter (\<lambda>b. intersects (rbm_min b) (rbm_max b) rng) candidates"

definition filter_candidate_column_blocks :: "col_block_meta list \<Rightarrow> key_range \<Rightarrow> col_block_meta list" where
  "filter_candidate_column_blocks candidates rng =
     filter (\<lambda>b. intersects (cm_min b) (cm_max b) rng) candidates"

text \<open>The linear selectors over all metadata of an SSTable.\<close>

definition row_select_blocks :: "row_block_meta list \<Rightarrow> key_range \<Rightarrow> row_block_meta list" where
  "row_select_blocks blocks rng = filter (\<lambda>b. intersects (rbm_min b) (rbm_max b) rng) blocks"

definition select_block_for_key :: "row_block_meta list \<Rightarrow> key \<Rightarrow> row_block_meta option" where
  "select_block_for_key blocks k = find (\<lambda>b. rbm_min b \<le> k \<and> k \<le> rbm_max b) blocks"

definition col_select_blocks :: "col_block_meta list \<Rightarrow> key_range \<Rightarrow> col_block_meta list" where
  "col_select_blocks blocks rng = filter (\<lambda>b. intersects (cm_min b) (cm_max b) rng) blocks"

definition select_block_group_for_key :: "col_block_meta list \<Rightarrow> key \<Rightarrow> col_block_meta list" where
  "select_block_group_for_key blocks k = filter (\<lambda>b. cm_min b \<le> k \<and> k \<le> cm_max b) blocks"

section \<open>The entries of a table and the completeness of the selection\<close>

text \<open>
  The candidates of a table hold one entry per block, in order; the builders keep every entry
  whose block id is a multiple of the step.
\<close>

definition sparse_candidates :: "key list \<Rightarrow> sparse_index_entry list" where
  "sparse_candidates mins =
     map (\<lambda>i. \<lparr>si_min_key = mins ! i, si_block_id = word_of_nat i\<rparr>) [0..<length mins]"

definition sparse_entries :: "32 word \<Rightarrow> sparse_index_entry list \<Rightarrow> sparse_index_entry list" where
  "sparse_entries step cands = filter (\<lambda>e. \<not> si_block_id e mod step \<noteq> 0) cands"

definition mr_blocks :: "metadata_block_range \<Rightarrow> nat set" where
  "mr_blocks r = {unat (mr_first r) ..< unat (mr_first r) + unat (mr_count r)}"

lemma intersects_iff:
  "intersects mn mx rng \<longleftrightarrow>
     (\<forall>f. kr_from rng = Some f \<longrightarrow> f \<le> mx) \<and> (\<forall>t. kr_to rng = Some t \<longrightarrow> mn < t)"
  by (auto simp: intersects_def not_less not_le split: option.splits)

lemma contains_intersects:
  "contains rng k \<Longrightarrow> mn \<le> k \<Longrightarrow> k \<le> mx \<Longrightarrow> intersects mn mx rng"
  by (auto simp: contains_def intersects_iff split: option.splits if_splits)

lemma nth_length_takeWhile_le:
  assumes u: "u = length (takeWhile P xs)" "u \<noteq> 0"
  shows "u - 1 < length xs" "P (xs ! (u - 1))"
proof -
  have lt: "u - 1 < length (takeWhile P xs)" using u by simp
  then show "u - 1 < length xs" using length_takeWhile_le [of P xs] by linarith
  show "P (xs ! (u - 1))" using set_takeWhileD [OF nth_mem [OF lt]] takeWhile_nth [OF lt] by simp
qed

lemma sparse_entries_eq:
  assumes "length mins < 2 ^ 32"
  shows "sparse_entries step (sparse_candidates mins) =
    map (\<lambda>i. \<lparr>si_min_key = mins ! i, si_block_id = word_of_nat i\<rparr>)
      (filter (\<lambda>i. i mod unat step = 0) [0..<length mins])"
proof -
  have "(word_of_nat i mod step = 0) \<longleftrightarrow> i mod unat step = 0" if "i < length mins" for i
  proof -
    have "unat (word_of_nat i mod step) = i mod unat step"
      using that assms by (simp add: unat_mod_distrib unat_of_nat)
    then show ?thesis by (metis unat_eq_0)
  qed
  then have "filter (\<lambda>i. \<not> word_of_nat i mod step \<noteq> 0) [0..<length mins] =
      filter (\<lambda>i. i mod unat step = 0) [0..<length mins]"
    by (intro filter_cong) (simp_all only: not_not set_upt atLeastLessThan_iff)
  then show ?thesis
    by (simp only: sparse_entries_def sparse_candidates_def filter_map o_def sparse_index_entry.simps)
qed

text \<open>
  A table whose blocks have the key bounds \<open>mins ! i\<close> and \<open>maxs ! i\<close>: the minima ascend and no
  block ends above the start of the next one. The builders write such blocks from rows in key order;
  from rows with different keys every block even ends below the start of the next one.
\<close>

definition ordered_blocks :: "key list \<Rightarrow> key list \<Rightarrow> bool" where
  "ordered_blocks mins maxs \<longleftrightarrow>
     mins \<noteq> [] \<and> length mins < 2 ^ 32 \<and> length maxs = length mins \<and>
     (\<forall>j < length mins. \<forall>i \<le> j. mins ! i \<le> mins ! j) \<and>
     (\<forall>i. Suc i < length mins \<longrightarrow> maxs ! i \<le> mins ! Suc i)"

definition separated_blocks :: "key list \<Rightarrow> key list \<Rightarrow> bool" where
  "separated_blocks mins maxs \<longleftrightarrow>
     mins \<noteq> [] \<and> length mins < 2 ^ 32 \<and> length maxs = length mins \<and>
     (\<forall>j < length mins. \<forall>i \<le> j. mins ! i \<le> mins ! j) \<and>
     (\<forall>i. Suc i < length mins \<longrightarrow> maxs ! i < mins ! Suc i)"

definition sparse_ids :: "key list \<Rightarrow> 32 word \<Rightarrow> nat list" where
  "sparse_ids mins step = filter (\<lambda>i. i mod unat step = 0) [0..<length mins]"

lemma orderedD:
  assumes "ordered_blocks mins maxs"
  shows "mins \<noteq> []" "length mins < 2 ^ 32" "length maxs = length mins"
    "i \<le> j \<Longrightarrow> j < length mins \<Longrightarrow> mins ! i \<le> mins ! j"
    "Suc i < length mins \<Longrightarrow> maxs ! i \<le> mins ! Suc i"
  using assms by (simp_all add: ordered_blocks_def)

lemma separated_ordered: "separated_blocks mins maxs \<Longrightarrow> ordered_blocks mins maxs"
  by (auto simp: separated_blocks_def ordered_blocks_def intro: less_imp_le)

text \<open>
  A key that ends one block and starts the next, as the lower bound of a range: the search in the index
  starts at the later block.
\<close>

definition shared_start :: "key list \<Rightarrow> key list \<Rightarrow> key_range \<Rightarrow> nat \<Rightarrow> bool" where
  "shared_start mins maxs rng i \<longleftrightarrow>
     Suc i < length mins \<and> maxs ! i = mins ! Suc i \<and> kr_from rng = Some (maxs ! i)"

lemma separated_not_shared: "separated_blocks mins maxs \<Longrightarrow> \<not> shared_start mins maxs rng i"
  by (auto simp: separated_blocks_def shared_start_def)

lemma sparse_index_eq:
  assumes "ordered_blocks mins maxs"
  shows "sparse_entries step (sparse_candidates mins) =
    map (\<lambda>i. \<lparr>si_min_key = mins ! i, si_block_id = word_of_nat i\<rparr>) (sparse_ids mins step)"
  using orderedD [OF assms] by (simp add: sparse_ids_def sparse_entries_eq)

lemma ids_less: "u < length (sparse_ids mins step) \<Longrightarrow> sparse_ids mins step ! u < length mins"
  using nth_mem [of u "sparse_ids mins step"] by (simp add: sparse_ids_def)

lemma ids_not_empty: "mins \<noteq> [] \<Longrightarrow> sparse_ids mins step \<noteq> []"
proof -
  assume "mins \<noteq> []"
  then have "0 \<in> set (sparse_ids mins step)" by (simp add: sparse_ids_def)
  then show ?thesis by auto
qed

lemma unat_id:
  "\<lbrakk>u < length (sparse_ids mins step); length mins < 2 ^ 32\<rbrakk> \<Longrightarrow>
   unat (word_of_nat (sparse_ids mins step ! u) :: 32 word) = sparse_ids mins step ! u"
  using ids_less [of u mins step] by (simp add: unat_of_nat)

lemma sparse_first_block_bound:
  assumes sep: "ordered_blocks mins maxs"
    and ix: "index = sparse_entries step (sparse_candidates mins)"
  shows "unat (sparse_first_block index rng) < length mins \<and>
   (\<forall>i < unat (sparse_first_block index rng). \<not> intersects (mins ! i) (maxs ! i) rng \<or> shared_start mins maxs rng i)"
proof -
  define ids where "ids = sparse_ids mins step"
  note lens = orderedD(1-3) [OF sep] and mins_sorted = orderedD(4) [OF sep] and separated = orderedD(5) [OF sep]
  note ids_less = ids_less [of _ mins step, folded ids_def] and unat_id = unat_id [of _ mins step, folded ids_def, OF _ lens(2)]
    and ids_not_empty = ids_not_empty [OF lens(1), of step, folded ids_def]
    and index_eq = ix [unfolded sparse_index_eq [OF sep], folded ids_def]
  show ?thesis
  proof (cases "kr_from rng")
  case None
  then show ?thesis using lens by (simp add: sparse_first_block_def)
next
  case (Some f)
  define u where "u = length (takeWhile (\<lambda>i. \<not> f < mins ! i) ids)"
  have ub: "upper_bound index f = u" by (simp add: upper_bound_def index_eq u_def takeWhile_map o_def)
  show ?thesis
  proof (cases "u = 0")
    case True
    then show ?thesis using Some ub lens by (simp add: sparse_first_block_def)
  next
    case False
    with u_def have u: "u - 1 < length ids" "\<not> f < mins ! (ids ! (u - 1))"
      using nth_length_takeWhile_le by blast+
    have fb: "unat (sparse_first_block index rng) = ids ! (u - 1)"
      using Some ub False u by (simp add: sparse_first_block_def index_eq unat_id Let_def)
    have "\<not> intersects (mins ! i) (maxs ! i) rng \<or> shared_start mins maxs rng i" if "i < ids ! (u - 1)" for i
    proof -
      have n: "Suc i < length mins" using that ids_less [OF u(1)] by simp
      have "mins ! Suc i \<le> mins ! (ids ! (u - 1))" using that ids_less [OF u(1)] by (intro mins_sorted) simp_all
      also have "\<dots> \<le> f" using u(2) by simp
      finally show ?thesis using Some separated [OF n] n by (auto simp: intersects_iff shared_start_def)
    qed
    with fb ids_less [OF u(1)] show ?thesis by simp
  qed
  qed
qed

lemma sparse_end_block_bound:
  assumes sep: "ordered_blocks mins maxs"
    and ix: "index = sparse_entries step (sparse_candidates mins)"
  shows "\<exists>e. sparse_end_block index rng (word_of_nat (length mins)) = Inr e \<and> unat e \<le> length mins \<and>
     (\<forall>i < length mins. unat e \<le> i \<longrightarrow> \<not> intersects (mins ! i) (maxs ! i) rng)"
proof -
  define ids where "ids = sparse_ids mins step"
  note lens = orderedD(1-3) [OF sep] and mins_sorted = orderedD(4) [OF sep] and separated = orderedD(5) [OF sep]
  note ids_less = ids_less [of _ mins step, folded ids_def] and unat_id = unat_id [of _ mins step, folded ids_def, OF _ lens(2)]
    and ids_not_empty = ids_not_empty [OF lens(1), of step, folded ids_def]
    and index_eq = ix [unfolded sparse_index_eq [OF sep], folded ids_def]
  show ?thesis
  proof (cases "kr_to rng")
  case None
  then show ?thesis using lens by (simp add: sparse_end_block_def unat_of_nat)
next
  case (Some t)
  define l where "l = length (takeWhile (\<lambda>i. mins ! i < t) ids)"
  have lb: "lower_bound index t = l" by (simp add: lower_bound_def index_eq l_def takeWhile_map o_def)
  show ?thesis
  proof (cases "l = length ids")
    case True
    then show ?thesis using Some lb lens by (simp add: sparse_end_block_def index_eq unat_of_nat)
  next
    case False
    then have l: "l < length ids" using length_takeWhile_le [of _ ids] by (simp add: l_def le_neq_implies_less)
    have nl: "\<not> mins ! (ids ! l) < t"
      using nth_length_takeWhile [of "\<lambda>i. mins ! i < t" ids] l by (simp add: l_def)
    have "\<not> (word_of_nat (ids ! l) :: 32 word) \<ge> word_of_nat (length mins)"
      using ids_less [OF l] lens unat_id [OF l] by (simp add: word_le_nat_alt unat_of_nat)
    then have e: "sparse_end_block index rng (word_of_nat (length mins)) = Inr (word_of_nat (ids ! l))"
      using Some lb False l by (simp add: sparse_end_block_def index_eq)
    have "\<not> intersects (mins ! i) (maxs ! i) rng" if "i < length mins" "ids ! l \<le> i" for i
      using mins_sorted [OF that(2,1)] nl Some by (auto simp: intersects_iff)
    with e ids_less [OF l] show ?thesis by (simp add: unat_id [OF l])
  qed
  qed
qed

lemma select_ordered:
  assumes sep: "ordered_blocks mins maxs"
    and ix: "index = sparse_entries step (sparse_candidates mins)"
  shows "\<exists>r. select_metadata_range index rng (word_of_nat (length mins)) = Inr r \<and>
     mr_blocks r \<subseteq> {..<length mins} \<and>
     (\<forall>i < length mins. intersects (mins ! i) (maxs ! i) rng \<and> \<not> shared_start mins maxs rng i \<longrightarrow> i \<in> mr_blocks r)"
proof -
  define ids where "ids = sparse_ids mins step"
  note lens = orderedD(1-3) [OF sep] and mins_sorted = orderedD(4) [OF sep] and separated = orderedD(5) [OF sep]
  note ids_less = ids_less [of _ mins step, folded ids_def] and unat_id = unat_id [of _ mins step, folded ids_def, OF _ lens(2)]
    and ids_not_empty = ids_not_empty [OF lens(1), of step, folded ids_def]
    and index_eq = ix [unfolded sparse_index_eq [OF sep], folded ids_def]
  note first_block = sparse_first_block_bound [OF sep ix]
  let ?n = "word_of_nat (length mins) :: 32 word" and ?f = "sparse_first_block index rng"
  obtain e where e: "sparse_end_block index rng ?n = Inr e" "unat e \<le> length mins"
      "\<forall>i < length mins. unat e \<le> i \<longrightarrow> \<not> intersects (mins ! i) (maxs ! i) rng"
    using sparse_end_block_bound [OF sep ix] by blast
  have un: "unat ?n = length mins" using lens by (simp add: unat_of_nat)
  have nz: "?n \<noteq> 0" "index \<noteq> []" "\<not> ?f \<ge> ?n"
    using un lens first_block [of rng] ids_not_empty by (auto simp: index_eq word_le_nat_alt)
  show ?thesis
  proof (cases "e \<le> ?f")
    case True
    then have ef: "unat e \<le> unat ?f" by (simp add: word_le_nat_alt)
    have "\<not> intersects (mins ! i) (maxs ! i) rng \<or> shared_start mins maxs rng i" if i: "i < length mins" for i
    proof (cases "i < unat ?f")
      case True
      then show ?thesis using first_block [of rng] by blast
    next
      case False
      then show ?thesis using e(3) i ef by (meson le_trans not_less)
    qed
    with True e nz show ?thesis by (auto simp: select_metadata_range_def mr_blocks_def Let_def)
  next
    case False
    let ?r = "\<lparr>mr_first = ?f, mr_count = e - ?f\<rparr>"
    have sel: "select_metadata_range index rng ?n = Inr ?r"
      using False e(1) nz by (simp add: select_metadata_range_def Let_def)
    have fe: "unat ?f < unat e" using False by (simp add: word_le_nat_alt)
    then have "unat (e - ?f) = unat e - unat ?f" using False by (intro unat_sub) simp
    then have mr: "mr_blocks ?r = {unat ?f ..< unat e}" using fe by (simp add: mr_blocks_def)
    have "i \<in> mr_blocks ?r" if i: "i < length mins" "intersects (mins ! i) (maxs ! i) rng" "\<not> shared_start mins maxs rng i" for i
    proof -
      have "\<not> i < unat ?f" using first_block [of rng] i(2,3) by blast
      moreover have "\<not> unat e \<le> i" using e(3) i by blast
      ultimately show ?thesis by (simp add: mr)
    qed
    with sel mr e(2) show ?thesis by auto
  qed
qed

lemma select_complete:
  assumes "separated_blocks mins maxs" "index = sparse_entries step (sparse_candidates mins)"
  shows "\<exists>r. select_metadata_range index rng (word_of_nat (length mins)) = Inr r \<and>
     mr_blocks r \<subseteq> {..<length mins} \<and>
     (\<forall>i < length mins. intersects (mins ! i) (maxs ! i) rng \<longrightarrow> i \<in> mr_blocks r)"
  using select_ordered [OF separated_ordered [OF assms(1)] assms(2), of rng] separated_not_shared [OF assms(1)] by auto

section \<open>Properties\<close>

text \<open>C18: On the sparse index of a table whose blocks are in key order (a key may end one block and start the next),
  selecting never fails, the selected blocks exist, and every block whose key bounds meet the query range is among them, with one
  exception: a block that ends with the lower bound of the range may be left out when the next block starts with that same key.\<close>

theorem sparse_selection_complete:
  assumes "ordered_blocks mins maxs"
  shows "\<exists>r. select_metadata_range (sparse_entries step (sparse_candidates mins)) rng (word_of_nat (length mins)) = Inr r \<and>
     mr_blocks r \<subseteq> {..<length mins} \<and>
     (\<forall>i < length mins. intersects (mins ! i) (maxs ! i) rng \<and> \<not> shared_start mins maxs rng i \<longrightarrow> i \<in> mr_blocks r)"
  by (rule select_ordered [OF assms refl])

lemma sparse_selection_complete_witness:
  "\<exists>r. select_metadata_range (sparse_entries 2 (sparse_candidates [I64 1, I64 5, I64 9]))
       \<lparr>kr_from = Some (I64 6), kr_to = Some (I64 8)\<rparr> 3 = Inr r \<and> 1 \<in> mr_blocks r"
proof -
  let ?mins = "[I64 1, I64 5, I64 9]" and ?maxs = "[I64 5, I64 8, I64 12]" and ?rng = "\<lparr>kr_from = Some (I64 6), kr_to = Some (I64 8)\<rparr>"
  have ord: "ordered_blocks ?mins ?maxs"
    by (auto simp: ordered_blocks_def less_Suc_eq nth_Cons less_eq_i64_def i64_val_def split: nat.splits)
  have i: "intersects (I64 5) (I64 8) ?rng" "\<not> shared_start ?mins ?maxs ?rng 1"
    by (simp_all add: intersects_iff shared_start_def less_eq_i64_def less_i64_def i64_val_def)
  obtain r where r: "select_metadata_range (sparse_entries 2 (sparse_candidates ?mins)) ?rng (word_of_nat (length ?mins)) = Inr r"
      "\<forall>i < length ?mins. intersects (?mins ! i) (?maxs ! i) ?rng \<and> \<not> shared_start ?mins ?maxs ?rng i \<longrightarrow> i \<in> mr_blocks r"
    using sparse_selection_complete [OF ord, of 2 ?rng] by blast
  from r(2) [rule_format, of 1] i have "1 \<in> mr_blocks r" by simp
  with r(1) show ?thesis by auto
qed

end
