(* ===== verification/Sst_Reader.thy ===== *)
theory Sst_Reader
  imports Sparse_Index
begin

text \<open>
  The files of one SSTable directory, the records the builders write into them, and
  \<open>SSTableReader\<close> (\<open>sstable_reader.cpp\<close>). A file is its bytes, a missing file is \<open>None\<close>; the
  path that the code appends to its messages is left out. The lemmas give the round trips of
  the metadata and sparse-index files.
\<close>

section \<open>Files and random access\<close>

record sst_files =
  f_data :: "byte list option"
  f_meta :: "byte list option"
  f_index :: "byte list option"
  f_info :: "byte list option"
  f_stats :: "byte list option"

text \<open>A byte that is neither \<open>ROW\<close> nor \<open>COLUMN\<close> is a value of the enum type as well.\<close>

datatype sst_layout = ROW | COLUMN | OtherLayout byte

fun layout_code :: "sst_layout \<Rightarrow> byte" where
  "layout_code ROW = 0"
| "layout_code COLUMN = 1"
| "layout_code (OtherLayout b) = b"

text \<open>What the registry keeps about an SSTable, and what a builder returns.\<close>

record sst_info =
  in_id :: "64 word"
  in_path :: string
  in_level :: "32 word"
  in_min :: key
  in_max :: key
  in_size :: "64 word"
  in_num_blocks :: "32 word"
  in_layout :: sst_layout

record sst_build_result =
  br_min_key :: key
  br_max_key :: key
  br_num_blocks :: "32 word"

text \<open>
  \<open>read_bytes_from_stream\<close>: the buffer is allocated first (a size over \<open>max_size()\<close> throws
  \<open>length_error\<close>), an offset of \<open>2 ^ 63\<close> or more is a negative \<open>streamoff\<close>.
\<close>

definition read_bytes_from_stream :: "byte list \<Rightarrow> 64 word \<Rightarrow> 64 word \<Rightarrow> byte list res" where
  "read_bytes_from_stream input offset sz =
     (if unat sz \<ge> 2 ^ 63 then Inl (LengthError ''cannot create std::vector larger than max_size()'')
      else if sz = 0 then Inr []
      else if unat offset \<ge> 2 ^ 63 then Inl (RuntimeError ''Cannot seek file: '')
      else if length input < unat offset + unat sz then Inl (RuntimeError ''Cannot read file: '')
      else Inr (take (unat sz) (drop (unat offset) input)))"

definition read_data_bytes :: "sst_files \<Rightarrow> 64 word \<Rightarrow> 64 word \<Rightarrow> byte list res" where
  "read_data_bytes fs offset sz =
     (case f_data fs of
        None \<Rightarrow> Inl (RuntimeError ''SSTable file is not open: '')
      | Some input \<Rightarrow> read_bytes_from_stream input offset sz)"

definition read_bytes_from_file :: "byte list option \<Rightarrow> 64 word \<Rightarrow> 64 word \<Rightarrow> byte list res" where
  "read_bytes_from_file f offset sz =
     (case f of
        None \<Rightarrow> Inl (RuntimeError ''Cannot open file: '')
      | Some input \<Rightarrow> read_bytes_from_stream input offset sz)"

lemma read_bytes_from_stream_ok:
  assumes "unat offset + unat sz \<le> length input" "length input < 2 ^ 63"
  shows "read_bytes_from_stream input offset sz = Inr (take (unat sz) (drop (unat offset) input))"
  using assms by (auto simp: read_bytes_from_stream_def unat_eq_0)

text \<open>A block stored in the middle of a file.\<close>

lemma read_bytes_from_stream_mid:
  assumes "input = pre @ xs @ post" "unat offset = length pre" "unat sz = length xs" "length input < 2 ^ 63"
  shows "read_bytes_from_stream input offset sz = Inr xs"
  using assms by (subst read_bytes_from_stream_ok) auto

section \<open>Fixed-size entries\<close>

text \<open>The loop that reads a given number of entries from a buffer.\<close>

fun read_many :: "(byte list \<Rightarrow> ('a \<times> byte list) res) \<Rightarrow> nat \<Rightarrow> byte list \<Rightarrow> ('a list \<times> byte list) res" where
  "read_many rd 0 bs = Inr ([], bs)"
| "read_many rd (Suc n) bs =
     rbind (rd bs) (\<lambda>(x, bs1). rbind (read_many rd n bs1) (\<lambda>(xs, rest). Inr (x # xs, rest)))"

lemma read_many_encode:
  assumes "\<And>x rest. x \<in> set xs \<Longrightarrow> rd (enc x @ rest) = Inr (f x, rest)"
  shows "read_many rd (length xs) (concat (map enc xs) @ rest) = Inr (map f xs, rest)"
  using assms by (induction xs) auto

lemma length_concat_const: "(\<And>x. x \<in> set xs \<Longrightarrow> length (enc x) = n) \<Longrightarrow> length (concat (map enc xs)) = length xs * n"
  by (induction xs) auto

text \<open>Reading a slice of the entries of a file of fixed-size entries.\<close>

lemma take_drop_concat_const:
  assumes "\<And>x. x \<in> set xs \<Longrightarrow> length (enc x) = n"
  shows "take (c * n) (drop (k * n) (concat (map enc xs))) = concat (map enc (take c (drop k xs)))"
  using assms
proof (induction xs arbitrary: k c)
  case (Cons x xs)
  then have n: "length (enc x) = n" and IH: "\<And>k c. take (c * n) (drop (k * n) (concat (map enc xs))) =
      concat (map enc (take c (drop k xs)))" by auto
  show ?case
  proof (cases k)
    case 0
    then show ?thesis using n IH [of _ 0] by (cases c) auto
  next
    case (Suc k')
    then show ?thesis using n IH by simp
  qed
qed simp

definition sst_meta_error :: exn where
  "sst_meta_error = RuntimeError ''Unexpected end of SSTable metadata''"

subsection \<open>Row block metadata\<close>

definition ROW_BLOCK_META_ON_DISK_SIZE :: nat where
  "ROW_BLOCK_META_ON_DISK_SIZE = 8 + 8 + 8 + 8 + 4 + 4"

definition enc_row_meta :: "row_block_meta \<Rightarrow> byte list" where
  "enc_row_meta m = enc_i64 (rbm_min m) @ enc_i64 (rbm_max m) @ enc_u64 (rbm_offset m) @
     enc_u64 (rbm_size m) @ enc_u32 (rbm_count m) @ enc_u32 (rbm_block_id m)"

definition read_row_meta :: "byte list \<Rightarrow> (row_block_meta \<times> byte list) res" where
  "read_row_meta bs0 =
     rbind (read_i64 sst_meta_error bs0) (\<lambda>(mn, bs1).
     rbind (read_i64 sst_meta_error bs1) (\<lambda>(mx, bs2).
     rbind (read_le sst_meta_error 8 bs2) (\<lambda>(off, bs3).
     rbind (read_le sst_meta_error 8 bs3) (\<lambda>(sz, bs4).
     rbind (read_le sst_meta_error 4 bs4) (\<lambda>(count, bs5).
     rbind (read_le sst_meta_error 4 bs5) (\<lambda>(bid, rest).
       Inr (\<lparr>rbm_min = mn, rbm_max = mx, rbm_offset = off, rbm_size = sz, rbm_count = count,
              rbm_block_id = bid\<rparr>, rest)))))))"

lemma read_row_meta_encode: "read_row_meta (enc_row_meta m @ rest) = Inr (m, rest)"
  by (simp add: read_row_meta_def enc_row_meta_def)

lemma length_enc_row_meta: "length (enc_row_meta m) = ROW_BLOCK_META_ON_DISK_SIZE"
  by (simp add: enc_row_meta_def ROW_BLOCK_META_ON_DISK_SIZE_def)

definition read_row_metadata_range :: "sst_files \<Rightarrow> 32 word \<Rightarrow> 32 word \<Rightarrow> row_block_meta list res" where
  "read_row_metadata_range fs first_block_id block_count =
     (if block_count = 0 then Inr []
      else
        rbind (read_bytes_from_file (f_meta fs)
                 (ucast first_block_id * word_of_nat ROW_BLOCK_META_ON_DISK_SIZE)
                 (ucast block_count * word_of_nat ROW_BLOCK_META_ON_DISK_SIZE)) (\<lambda>data.
        rbind (read_many read_row_meta (unat block_count) data) (\<lambda>(blocks, _). Inr blocks)))"

lemma unat_ucast_32_64: "unat (ucast (w :: 32 word) :: 64 word) = unat w"
proof -
  have "unat w < 2 ^ 64" by (rule less_le_trans [OF unsigned_less]) simp
  then show ?thesis by (simp add: unsigned_ucast_eq take_bit_nat_eq_self)
qed

lemma unat_less_32: "unat (w :: 32 word) < 2 ^ 32"
  by (rule less_le_trans [OF unsigned_less]) simp

lemma unat_of_nat_64: "n < 2 ^ 64 \<Longrightarrow> unat (word_of_nat n :: 64 word) = n"
  by (simp add: unat_of_nat)

lemma unat_of_nat_32: "n < 2 ^ 32 \<Longrightarrow> unat (word_of_nat n :: 32 word) = n"
  by (simp add: unat_of_nat)

text \<open>A product that does not reach \<open>2 ^ 64\<close> does not wrap.\<close>

lemma unat_mult_no_wrap:
  "unat w * n < 2 ^ 64 \<Longrightarrow> n < 2 ^ 64 \<Longrightarrow> unat (w * word_of_nat n :: 64 word) = unat w * n"
  by (simp add: unat_word_ariths unat_of_nat)

lemma read_entries_range:
  assumes enc: "\<And>x rest. rd (enc x @ rest) = Inr (x, rest)" "\<And>x. length (enc x) = sz"
    and f: "f = Some (concat (map enc xs))" "length (concat (map enc xs)) < 2 ^ 63" "sz < 2 ^ 32"
    and in_range: "unat first + unat count \<le> length xs"
  shows "rbind (read_bytes_from_file f (first * word_of_nat sz) (count * word_of_nat sz))
      (\<lambda>data. rbind (read_many rd (unat count) data) (\<lambda>(blocks, _). Inr blocks)) =
    Inr (take (unat count) (drop (unat first) xs))"
proof -
  have len: "length (concat (map enc xs)) = length xs * sz" using enc(2) by (intro length_concat_const)
  have le: "(unat first + unat count) * sz \<le> length xs * sz" using in_range by simp
  then have b: "unat first * sz < 2 ^ 64" "unat count * sz < 2 ^ 64" "sz < 2 ^ 64"
    using f(2,3) len by (simp_all add: algebra_simps)
  note u = unat_mult_no_wrap [OF b(1,3)] unat_mult_no_wrap [OF b(2,3)]
  let ?ys = "take (unat count) (drop (unat first) xs)"
  have "read_bytes_from_file f (first * word_of_nat sz) (count * word_of_nat sz) =
      Inr (take (unat count * sz) (drop (unat first * sz) (concat (map enc xs))))"
    using le len f(1,2) u by (simp add: read_bytes_from_file_def read_bytes_from_stream_ok algebra_simps)
  also have "\<dots> = Inr (concat (map enc ?ys))" using enc(2) by (simp add: take_drop_concat_const)
  finally have "read_bytes_from_file f (first * word_of_nat sz) (count * word_of_nat sz) =
      Inr (concat (map enc ?ys))" .
  moreover have "read_many rd (length ?ys) (concat (map enc ?ys) @ []) = Inr (map id ?ys, [])"
    using enc(1) by (intro read_many_encode) simp
  ultimately show ?thesis using in_range by simp
qed

lemma read_row_metadata_range_ok:
  assumes "f_meta fs = Some (concat (map enc_row_meta metas))"
    and "length (concat (map enc_row_meta metas)) < 2 ^ 63"
    and "unat first + unat count \<le> length metas"
  shows "read_row_metadata_range fs first count = Inr (take (unat count) (drop (unat first) metas))"
proof (cases "count = 0")
  case False
  then show ?thesis
    using read_entries_range [of read_row_meta enc_row_meta, OF read_row_meta_encode length_enc_row_meta assms(1,2),
        of "ucast first" "ucast count"] assms(3)
    by (simp add: read_row_metadata_range_def unat_ucast_32_64 ROW_BLOCK_META_ON_DISK_SIZE_def)
qed (simp add: read_row_metadata_range_def)

subsection \<open>Column block metadata\<close>

definition COLUMN_BLOCK_META_ON_DISK_SIZE :: nat where
  "COLUMN_BLOCK_META_ON_DISK_SIZE = 8 + 8 + 8 + 8 + 4 + 4 + 4"

definition write_block_meta ::
    "key \<Rightarrow> key \<Rightarrow> 64 word \<Rightarrow> 64 word \<Rightarrow> 32 word \<Rightarrow> 32 word \<Rightarrow> 32 word \<Rightarrow> byte list" where
  "write_block_meta mn mx off sz count bid column_idx =
     enc_i64 mn @ enc_i64 mx @ enc_u64 off @ enc_u64 sz @ enc_u32 count @ enc_u32 bid @ enc_u32 column_idx"

definition enc_col_meta :: "col_block_meta \<Rightarrow> byte list" where
  "enc_col_meta m = write_block_meta (cm_min m) (cm_max m) (cm_offset m) (cm_size m) (cm_count m)
     (cm_block_id m) (cm_column_idx m)"

definition read_col_meta :: "byte list \<Rightarrow> (col_block_meta \<times> byte list) res" where
  "read_col_meta bs0 =
     rbind (read_i64 sst_meta_error bs0) (\<lambda>(mn, bs1).
     rbind (read_i64 sst_meta_error bs1) (\<lambda>(mx, bs2).
     rbind (read_le sst_meta_error 8 bs2) (\<lambda>(off, bs3).
     rbind (read_le sst_meta_error 8 bs3) (\<lambda>(sz, bs4).
     rbind (read_le sst_meta_error 4 bs4) (\<lambda>(count, bs5).
     rbind (read_le sst_meta_error 4 bs5) (\<lambda>(bid, bs6).
     rbind (read_le sst_meta_error 4 bs6) (\<lambda>(ci, rest).
       Inr (\<lparr>cm_min = mn, cm_max = mx, cm_offset = off, cm_size = sz, cm_count = count,
              cm_block_id = bid, cm_column_idx = ci\<rparr>, rest))))))))"

lemma read_col_meta_encode: "read_col_meta (enc_col_meta m @ rest) = Inr (m, rest)"
  by (simp add: read_col_meta_def enc_col_meta_def write_block_meta_def)

lemma length_enc_col_meta: "length (enc_col_meta m) = COLUMN_BLOCK_META_ON_DISK_SIZE"
  by (simp add: enc_col_meta_def write_block_meta_def COLUMN_BLOCK_META_ON_DISK_SIZE_def)

definition read_column_metadata_range ::
    "sst_files \<Rightarrow> 32 word \<Rightarrow> 32 word \<Rightarrow> 32 word \<Rightarrow> col_block_meta list res" where
  "read_column_metadata_range fs first_block_id block_count columns_count =
     (if block_count = 0 \<or> columns_count = 0 then Inr []
      else
        let first_entry_id = (ucast first_block_id * ucast columns_count :: 64 word);
            entry_count = (ucast block_count * ucast columns_count :: 64 word) in
        rbind (read_bytes_from_file (f_meta fs)
                 (first_entry_id * word_of_nat COLUMN_BLOCK_META_ON_DISK_SIZE)
                 (entry_count * word_of_nat COLUMN_BLOCK_META_ON_DISK_SIZE)) (\<lambda>data.
        rbind (read_many read_col_meta (unat entry_count) data) (\<lambda>(blocks, _). Inr blocks)))"

lemma unat_ucast32_mult: "unat (ucast (a :: 32 word) * ucast (b :: 32 word) :: 64 word) = unat a * unat b"
proof -
  have "unat a * unat b < 2 ^ 32 * 2 ^ 32"
    using unsigned_less [of a] unsigned_less [of b] by (intro mult_strict_mono') simp_all
  then show ?thesis by (simp add: unat_word_ariths unat_ucast_32_64)
qed

lemma read_column_metadata_range_ok:
  assumes "f_meta fs = Some (concat (map enc_col_meta metas))"
    and "length (concat (map enc_col_meta metas)) < 2 ^ 63"
    and "(unat first + unat count) * unat ncols \<le> length metas"
  shows "read_column_metadata_range fs first count ncols =
    Inr (take (unat count * unat ncols) (drop (unat first * unat ncols) metas))"
proof (cases "count = 0 \<or> ncols = 0")
  case False
  then show ?thesis
    using read_entries_range [of read_col_meta enc_col_meta, OF read_col_meta_encode length_enc_col_meta assms(1,2),
        of "ucast first * ucast ncols" "ucast count * ucast ncols"] assms(3)
    by (simp add: read_column_metadata_range_def unat_ucast32_mult COLUMN_BLOCK_META_ON_DISK_SIZE_def
        algebra_simps Let_def)
qed (auto simp: read_column_metadata_range_def)

subsection \<open>The sparse index\<close>

definition enc_sparse_entry :: "sparse_index_entry \<Rightarrow> byte list" where
  "enc_sparse_entry e = enc_i64 (si_min_key e) @ enc_u32 (si_block_id e)"

definition read_sparse_entry :: "byte list \<Rightarrow> (sparse_index_entry \<times> byte list) res" where
  "read_sparse_entry bs =
     rbind (read_i64 sst_meta_error bs) (\<lambda>(k, bs1).
     rbind (read_le sst_meta_error 4 bs1) (\<lambda>(bid, rest).
       Inr (\<lparr>si_min_key = k, si_block_id = bid\<rparr>, rest)))"

definition read_sparse_index :: "sst_files \<Rightarrow> sparse_index_entry list res" where
  "read_sparse_index fs =
     (case f_index fs of
        None \<Rightarrow> Inr []
      | Some file \<Rightarrow>
          let index_size = length file in
          if index_size = 0 then Inr []
          else if index_size mod SPARSE_INDEX_ENTRY_ON_DISK_SIZE \<noteq> 0 then
            Inl (RuntimeError ''Invalid sparse index file size: '')
          else
            rbind (read_bytes_from_file (f_index fs) 0 (word_of_nat index_size)) (\<lambda>data.
            rbind (read_many read_sparse_entry (index_size div SPARSE_INDEX_ENTRY_ON_DISK_SIZE) data)
              (\<lambda>(index, _). Inr index)))"

lemma read_sparse_entry_encode: "read_sparse_entry (enc_sparse_entry e @ rest) = Inr (e, rest)"
  by (simp add: read_sparse_entry_def enc_sparse_entry_def)

lemma read_sparse_index_ok:
  assumes f: "f_index fs = Some (concat (map enc_sparse_entry es))" and small: "length es * 12 < 2 ^ 63"
  shows "read_sparse_index fs = Inr es"
proof -
  have len: "length (concat (map enc_sparse_entry es)) = length es * 12"
    by (intro length_concat_const) (simp add: enc_sparse_entry_def)
  have rd: "read_bytes_from_file (f_index fs) 0 (word_of_nat (length (concat (map enc_sparse_entry es)))) =
      Inr (concat (map enc_sparse_entry es))"
    unfolding f read_bytes_from_file_def option.case
    by (rule read_bytes_from_stream_mid [of _ "[]" _ "[]"]) (use small len in \<open>simp_all add: unat_of_nat_64 del: of_nat_mult\<close>)
  have "read_many read_sparse_entry (length es) (concat (map enc_sparse_entry es) @ []) = Inr (map id es, [])"
    by (intro read_many_encode) (simp add: read_sparse_entry_encode)
  with f rd show ?thesis using len
    by (cases "es = []") (simp_all add: read_sparse_index_def SPARSE_INDEX_ENTRY_ON_DISK_SIZE_def Let_def)
qed

end
