(* ===== verification/Sst_Stats.thy ===== *)
theory Sst_Stats
  imports Sst_Reader
begin

text \<open>
  The statistics file of an SSTable: \<open>write_stats_file\<close> of the two table builders and the
  part of \<open>SSTableReader\<close> that reads it (\<open>load_numeric_stats_index\<close>,
  \<open>read_numeric_stats_range\<close>). The lemmas give the round trip: what is read for a range of
  blocks and a set of columns is what the block builders collected.
\<close>

section \<open>The statistics file\<close>

definition STATS_MAGIC :: "32 word" where "STATS_MAGIC = 0x53544154"
definition STATS_VERSION :: "32 word" where "STATS_VERSION = 1"
definition STATS_HEADER_SIZE :: nat where "STATS_HEADER_SIZE = 16"
definition STATS_COLUMN_DESCRIPTOR_SIZE :: nat where "STATS_COLUMN_DESCRIPTOR_SIZE = 17"
definition NUMERIC_STATS_ENTRY_SIZE :: nat where "NUMERIC_STATS_ENTRY_SIZE = 17"

lemmas stats_consts = STATS_MAGIC_def STATS_VERSION_def STATS_HEADER_SIZE_def
  STATS_COLUMN_DESCRIPTOR_SIZE_def NUMERIC_STATS_ENTRY_SIZE_def

text \<open>The enumerators of \<open>ValueType\<close> as stored on disk.\<close>

fun type_code :: "value_type \<Rightarrow> byte" where
  "type_code INT64 = 0"
| "type_code DOUBLE = 1"
| "type_code STRING = 2"

definition stats_columns :: "schema \<Rightarrow> (nat \<times> value_type) list" where
  "stats_columns s =
     concat (map (\<lambda>ci. let c = columns s ! ci in
               if \<not> col_is_key c \<and> is_numeric_type (col_type c) then [(ci, col_type c)] else [])
             [0..<schema_size s])"

definition enc_stats_descriptor :: "nat \<Rightarrow> value_type \<Rightarrow> 64 word \<Rightarrow> byte list" where
  "enc_stats_descriptor ci ty offset =
     enc_u32 (word_of_nat ci) @ [type_code ty] @ enc_u64 offset @ enc_u32 (word_of_nat NUMERIC_STATS_ENTRY_SIZE)"

text \<open>The entry of one column and one block; \<open>find_block_stats\<close> looks the column up.\<close>

definition find_block_stats :: "num_stats list \<Rightarrow> nat \<Rightarrow> num_stats option" where
  "find_block_stats block_stats ci = find (\<lambda>st. ns_column st = ci) block_stats"

definition enc_stats_entry :: "nat \<Rightarrow> value_type \<Rightarrow> num_stats list \<Rightarrow> byte list res" where
  "enc_stats_entry ci ty block_stats =
     (let present = filter ns_has (case find_block_stats block_stats ci of None \<Rightarrow> [] | Some st \<Rightarrow> [st]);
          flag = [if present \<noteq> [] then 1 else 0 :: byte] in
      if ty = INT64 then
        rbind (if present \<noteq> [] then nval_int (ns_min (hd present)) else Inr (i64_of 0)) (\<lambda>mn.
        rbind (if present \<noteq> [] then nval_int (ns_max (hd present)) else Inr (i64_of 0)) (\<lambda>mx.
          Inr (flag @ enc_i64 mn @ enc_i64 mx)))
      else if ty = DOUBLE then
        rbind (if present \<noteq> [] then nval_double (ns_min (hd present)) else Inr d64_zero) (\<lambda>mn.
        rbind (if present \<noteq> [] then nval_double (ns_max (hd present)) else Inr d64_zero) (\<lambda>mx.
          Inr (flag @ enc_double mn @ enc_double mx)))
      else Inr flag)"

definition stats_data_start :: "nat \<Rightarrow> 64 word" where
  "stats_data_start num_stats_columns =
     word_of_nat STATS_HEADER_SIZE +
     ucast (word_of_nat num_stats_columns :: 32 word) * word_of_nat STATS_COLUMN_DESCRIPTOR_SIZE"

definition stats_file_bytes :: "schema \<Rightarrow> num_stats list list \<Rightarrow> byte list res" where
  "stats_file_bytes s block_numeric_stats =
     (let cols = stats_columns s;
          num_blocks = word_of_nat (length block_numeric_stats) :: 32 word;
          num_stats_columns = word_of_nat (length cols) :: 32 word;
          header = enc_u32 STATS_MAGIC @ enc_u32 STATS_VERSION @ enc_u32 num_blocks @ enc_u32 num_stats_columns;
          column_offset = (\<lambda>i. stats_data_start (length cols) +
            word_of_nat i * ucast num_blocks * word_of_nat NUMERIC_STATS_ENTRY_SIZE);
          descriptors = concat (map (\<lambda>i. enc_stats_descriptor (fst (cols ! i)) (snd (cols ! i)) (column_offset i))
            [0..<length cols]) in
      rbind (rmap (\<lambda>(ci, ty). rbind (rmap (enc_stats_entry ci ty) block_numeric_stats) (\<lambda>es. Inr (concat es))) cols)
        (\<lambda>data. Inr (header @ descriptors @ concat data)))"

subsection \<open>Reading it\<close>

record stats_descriptor =
  sd_column :: "32 word"
  sd_type :: value_type
  sd_offset :: "64 word"
  sd_entry_size :: "32 word"

record stats_index =
  sx_loaded :: bool
  sx_exists :: bool
  sx_num_blocks :: "32 word"
  sx_descriptors :: "stats_descriptor list"

definition fresh_stats_index :: stats_index where
  "fresh_stats_index = \<lparr>sx_loaded = False, sx_exists = False, sx_num_blocks = 0, sx_descriptors = []\<rparr>"

definition read_stats_descriptor :: "nat \<Rightarrow> 32 word \<Rightarrow> byte list \<Rightarrow> (stats_descriptor \<times> byte list) res" where
  "read_stats_descriptor file_size num_blocks bs0 =
     rbind (read_le sst_meta_error 4 bs0) (\<lambda>(ci, bs1).
     rbind (read_le sst_meta_error 1 bs1) (\<lambda>(raw_type :: byte, bs2).
     rbind (read_le sst_meta_error 8 bs2) (\<lambda>(offset :: 64 word, bs3).
     rbind (read_le sst_meta_error 4 bs3) (\<lambda>(entry_size :: 32 word, rest).
     rbind (if raw_type = 0 then Inr INT64 else if raw_type = 1 then Inr DOUBLE
            else Inl (RuntimeError ''Invalid stats value type: '')) (\<lambda>ty.
       if entry_size \<noteq> word_of_nat NUMERIC_STATS_ENTRY_SIZE then
         Inl (RuntimeError ''Invalid stats entry size: '')
       else
         let column_data_size = (ucast num_blocks * ucast entry_size :: 64 word) in
         if unat offset > file_size \<or> unat column_data_size > file_size - unat offset then
           Inl (RuntimeError ''Stats column data is out of file bounds: '')
         else
           Inr (\<lparr>sd_column = ci, sd_type = ty, sd_offset = offset, sd_entry_size = entry_size\<rparr>, rest))))))"

definition parse_stats_index :: "byte list \<Rightarrow> (32 word \<times> stats_descriptor list) res" where
  "parse_stats_index file =
     (if length file < STATS_HEADER_SIZE then Inl (RuntimeError ''Invalid stats file size: '')
      else
        rbind (read_bytes_from_stream file 0 (word_of_nat STATS_HEADER_SIZE)) (\<lambda>header.
        rbind (read_le sst_meta_error 4 header) (\<lambda>(magic, h1).
        rbind (read_le sst_meta_error 4 h1) (\<lambda>(version, h2).
        rbind (read_le sst_meta_error 4 h2) (\<lambda>(num_blocks, h3).
        rbind (read_le sst_meta_error 4 h3) (\<lambda>(num_stats_columns :: 32 word, _).
          if magic \<noteq> STATS_MAGIC then Inl (RuntimeError ''Invalid stats file magic: '')
          else if version \<noteq> STATS_VERSION then Inl (RuntimeError ''Unsupported stats file version: '')
          else
            let descriptors_size = (ucast num_stats_columns * word_of_nat STATS_COLUMN_DESCRIPTOR_SIZE :: 64 word) in
            if length file < STATS_HEADER_SIZE + unat descriptors_size then
              Inl (RuntimeError ''Invalid stats descriptors size: '')
            else
              rbind (read_bytes_from_stream file (word_of_nat STATS_HEADER_SIZE) descriptors_size) (\<lambda>data.
              rbind (read_many (read_stats_descriptor (length file) num_blocks) (unat num_stats_columns) data)
                (\<lambda>(descriptors, _). Inr (num_blocks, descriptors)))))))))"

text \<open>The index is loaded once; a failed load leaves an empty index behind and is not repeated.\<close>

definition load_numeric_stats_index :: "sst_files \<Rightarrow> stats_index \<Rightarrow> unit res \<times> stats_index" where
  "load_numeric_stats_index fs st =
     (if sx_loaded st then (Inr (), st)
      else case f_stats fs of
        None \<Rightarrow> (Inr (), \<lparr>sx_loaded = True, sx_exists = False, sx_num_blocks = 0, sx_descriptors = []\<rparr>)
      | Some file \<Rightarrow>
          let st1 = st\<lparr>sx_loaded := True, sx_exists := True\<rparr> in
          case parse_stats_index file of
            Inl e \<Rightarrow> (Inl e, st1)
          | Inr (nb, ds) \<Rightarrow> (Inr (), st1\<lparr>sx_num_blocks := nb, sx_descriptors := ds\<rparr>))"

definition read_stats_entry :: "stats_descriptor \<Rightarrow> byte list \<Rightarrow> (num_stats \<times> byte list) res" where
  "read_stats_entry d bs0 =
     rbind (read_le sst_meta_error 1 bs0) (\<lambda>(flag :: byte, bs1).
     if sd_type d = INT64 then
       rbind (read_i64 sst_meta_error bs1) (\<lambda>(mn, bs2).
       rbind (read_i64 sst_meta_error bs2) (\<lambda>(mx, rest).
         Inr (\<lparr>ns_column = unat (sd_column d), ns_type = sd_type d, ns_has = (flag \<noteq> 0),
                ns_min = NInt mn, ns_max = NInt mx\<rparr>, rest)))
     else
       rbind (read_double sst_meta_error bs1) (\<lambda>(mn, bs2).
       rbind (read_double sst_meta_error bs2) (\<lambda>(mx, rest).
         Inr (\<lparr>ns_column = unat (sd_column d), ns_type = sd_type d, ns_has = (flag \<noteq> 0),
                ns_min = NDouble mn, ns_max = NDouble mx\<rparr>, rest))))"

definition read_stats_column ::
    "sst_files \<Rightarrow> 32 word \<Rightarrow> 32 word \<Rightarrow> stats_descriptor \<Rightarrow> num_stats list res" where
  "read_stats_column fs first_block_id block_count d =
     rbind (read_bytes_from_file (f_stats fs)
              (sd_offset d + ucast first_block_id * ucast (sd_entry_size d))
              (ucast block_count * ucast (sd_entry_size d))) (\<lambda>data.
     rbind (read_many (read_stats_entry d) (unat block_count) data) (\<lambda>(sts, _). Inr sts))"

fun read_stats_columns ::
    "sst_files \<Rightarrow> stats_descriptor list \<Rightarrow> stats_range \<Rightarrow> nat list \<Rightarrow> stats_range res" where
  "read_stats_columns fs ds result [] = Inr result"
| "read_stats_columns fs ds result (requested # cs) =
     (case find (\<lambda>d. unat (sd_column d) = requested) ds of
        None \<Rightarrow> read_stats_columns fs ds result cs
      | Some d \<Rightarrow>
          rbind (read_stats_column fs (sr_first result) (sr_count result) d) (\<lambda>sts.
            read_stats_columns fs ds
              (if map_of (sr_by_column result) requested \<noteq> None then result
               else result\<lparr>sr_by_column := sr_by_column result @ [(requested, sts)]\<rparr>) cs))"

definition read_numeric_stats_range ::
    "sst_files \<Rightarrow> stats_index \<Rightarrow> 32 word \<Rightarrow> 32 word \<Rightarrow> nat list \<Rightarrow> stats_range res \<times> stats_index" where
  "read_numeric_stats_range fs st first_block_id block_count column_indices =
     (let result = \<lparr>sr_first = first_block_id, sr_count = block_count, sr_by_column = []\<rparr> in
      if block_count = 0 \<or> column_indices = [] then (Inr result, st)
      else case load_numeric_stats_index fs st of
        (Inl e, st') \<Rightarrow> (Inl e, st')
      | (Inr _, st') \<Rightarrow>
          if \<not> sx_exists st' then (Inr result, st')
          else if first_block_id > sx_num_blocks st' \<or> block_count > sx_num_blocks st' - first_block_id then
            (Inl (RuntimeError ''Stats block range is out of file bounds: ''), st')
          else (read_stats_columns fs (sx_descriptors st') result column_indices, st'))"

section \<open>Round trip\<close>

text \<open>What a stored entry means: the collected statistics, or a zero entry without a value.\<close>

definition stored_stat :: "nat \<Rightarrow> value_type \<Rightarrow> num_stats list \<Rightarrow> num_stats" where
  "stored_stat ci ty block_stats =
     (case find_block_stats block_stats ci of
        Some st \<Rightarrow>
          if ns_has st then \<lparr>ns_column = ci, ns_type = ty, ns_has = True, ns_min = ns_min st, ns_max = ns_max st\<rparr>
          else zero_stats ci ty
      | None \<Rightarrow> zero_stats ci ty)"

lemma stats_columns_mem:
  "(ci, ty) \<in> set (stats_columns s) \<Longrightarrow>
     ci < schema_size s \<and> ty = col_type (columns s ! ci) \<and> is_numeric_type ty \<and> \<not> col_is_key (columns s ! ci)"
  by (auto simp: stats_columns_def Let_def split: if_splits)

lemma stats_columns_numeric: "i < length (stats_columns s) \<Longrightarrow> is_numeric_type (snd (stats_columns s ! i))"
  using stats_columns_mem [of "fst (stats_columns s ! i)" "snd (stats_columns s ! i)" s]
    nth_mem [of i "stats_columns s"] by auto

lemma distinct_stats_columns: "distinct (map fst (stats_columns s))"
proof -
  have "map fst (concat (map (\<lambda>ci. let c = columns s ! ci in
          if \<not> col_is_key c \<and> is_numeric_type (col_type c) then [(ci, col_type c)] else []) [0..<n])) =
      filter (\<lambda>ci. \<not> col_is_key (columns s ! ci) \<and> is_numeric_type (col_type (columns s ! ci))) [0..<n]" for n
    by (induction n) (simp_all add: Let_def)
  then show ?thesis by (simp add: stats_columns_def)
qed

lemma read_u8_Cons [simp]: "read_le e (Suc 0) (b # bs) = Inr (b :: byte, bs)"
  by (simp add: read_le_def read_bytes_def)

lemma enc_stats_entry_read:
  assumes "enc_stats_entry ci ty bst = Inr es" "is_numeric_type ty" "unat (sd_column d) = ci" "sd_type d = ty"
  shows "read_stats_entry d (es @ rest) = Inr (stored_stat ci ty bst, rest)"
  using assms
  by (cases ty) (auto simp: enc_stats_entry_def read_stats_entry_def stored_stat_def zero_stats_def Let_def
      is_numeric_type_def rbind_eq_Inr nval_int_def nval_double_def NUMERIC_STATS_ENTRY_SIZE_def
      split: option.splits if_splits nval.splits)

lemma enc_stats_entry_length:
  "enc_stats_entry ci ty bst = Inr es \<Longrightarrow> is_numeric_type ty \<Longrightarrow> length es = 17"
  by (auto simp: enc_stats_entry_def Let_def is_numeric_type_def rbind_eq_Inr split: if_splits)

text \<open>Where the entries of a column start, and that the offsets do not wrap.\<close>

definition stats_offset :: "nat \<Rightarrow> nat \<Rightarrow> nat \<Rightarrow> nat" where
  "stats_offset nc nb i = 16 + 17 * nc + i * (nb * 17)"

definition stats_offset_word :: "nat \<Rightarrow> nat \<Rightarrow> nat \<Rightarrow> 64 word" where
  "stats_offset_word nc nb i = stats_data_start nc +
     word_of_nat i * ucast (word_of_nat nb :: 32 word) * word_of_nat NUMERIC_STATS_ENTRY_SIZE"

lemma ucast_of_nat_32_64:
  assumes "n < 2 ^ 32"
  shows "ucast (word_of_nat n :: 32 word) = (word_of_nat n :: 64 word)"
proof (rule word_unat_eq_iff [THEN iffD2])
  have "n < 2 ^ 64" using assms by simp
  with assms show "unat (ucast (word_of_nat n :: 32 word) :: 64 word) = unat (word_of_nat n :: 64 word)"
    by (simp only: unat_ucast_32_64 unat_of_nat_32 unat_of_nat_64)
qed

lemma stats_offset_word_eq:
  assumes "nc < 2 ^ 32" "nb < 2 ^ 32" "i \<le> nc" "stats_offset nc nb nc < 2 ^ 63"
  shows "unat (stats_offset_word nc nb i) = stats_offset nc nb i"
proof -
  have "stats_offset_word nc nb i = word_of_nat (stats_offset nc nb i)"
    using assms(1,2) by (simp add: stats_offset_word_def stats_data_start_def stats_consts stats_offset_def ucast_of_nat_32_64
        algebra_simps)
  moreover have "stats_offset nc nb i \<le> stats_offset nc nb nc" using assms(3) by (simp add: stats_offset_def)
  ultimately show ?thesis using assms(4) by (simp add: unat_of_nat_64)
qed

definition stats_descriptors :: "schema \<Rightarrow> nat \<Rightarrow> stats_descriptor list" where
  "stats_descriptors s nb =
     map (\<lambda>i. \<lparr>sd_column = word_of_nat (fst (stats_columns s ! i)), sd_type = snd (stats_columns s ! i),
               sd_offset = stats_offset_word (length (stats_columns s)) nb i,
               sd_entry_size = word_of_nat NUMERIC_STATS_ENTRY_SIZE\<rparr>) [0..<length (stats_columns s)]"

definition stats_header :: "nat \<Rightarrow> nat \<Rightarrow> byte list" where
  "stats_header nb nc = enc_u32 STATS_MAGIC @ enc_u32 STATS_VERSION @ enc_u32 (word_of_nat nb) @ enc_u32 (word_of_nat nc)"

definition enc_descriptor :: "stats_descriptor \<Rightarrow> byte list" where
  "enc_descriptor d = enc_u32 (sd_column d) @ [type_code (sd_type d)] @ enc_u64 (sd_offset d) @ enc_u32 (sd_entry_size d)"

lemma length_enc_descriptor: "length (enc_descriptor d) = 17"
  by (simp add: enc_descriptor_def)

definition stats_column_data :: "num_stats list list \<Rightarrow> nat \<times> value_type \<Rightarrow> byte list \<Rightarrow> bool" where
  "stats_column_data bss col cs \<longleftrightarrow>
     (\<exists>es. cs = concat es \<and> list_all2 (\<lambda>b e. enc_stats_entry (fst col) (snd col) b = Inr e) bss es)"

lemma stats_file_shape:
  assumes "stats_file_bytes s bss = Inr file"
  obtains css where
    "file = stats_header (length bss) (length (stats_columns s)) @
       concat (map enc_descriptor (stats_descriptors s (length bss))) @ concat css"
    "list_all2 (stats_column_data bss) (stats_columns s) css"
proof -
  obtain css where css: "rmap (\<lambda>(ci, ty). rbind (rmap (enc_stats_entry ci ty) bss) (\<lambda>es. Inr (concat es)))
        (stats_columns s) = Inr css"
      and fl: "file = stats_header (length bss) (length (stats_columns s)) @
       concat (map enc_descriptor (stats_descriptors s (length bss))) @ concat css"
    using assms by (auto simp: stats_file_bytes_def rbind_eq_Inr Let_def stats_header_def stats_descriptors_def
        enc_stats_descriptor_def enc_descriptor_def o_def stats_offset_word_def)
  have "list_all2 (stats_column_data bss) (stats_columns s) css"
    using css [unfolded rmap_Inr_iff]
    by (rule list_all2_mono) (auto simp: rbind_eq_Inr rmap_Inr_iff stats_column_data_def)
  with fl show thesis using that by blast
qed

lemma stats_column_data_length:
  assumes "stats_column_data bss col cs" "is_numeric_type (snd col)"
  shows "length cs = length bss * 17"
proof -
  obtain es where es: "cs = concat es" "list_all2 (\<lambda>b e. enc_stats_entry (fst col) (snd col) b = Inr e) bss es"
    using assms(1) by (auto simp: stats_column_data_def)
  have "length e = 17" if "e \<in> set es" for e
    using that es(2) assms(2) by (auto simp: in_set_conv_nth list_all2_conv_all_nth
        dest!: enc_stats_entry_length)
  then have "length (concat (map id es)) = length es * 17" by (intro length_concat_const) simp
  then show ?thesis using es list_all2_lengthD [OF es(2)] by simp
qed

lemma stats_file_length:
  assumes css: "list_all2 (stats_column_data bss) (stats_columns s) css"
  shows "length (concat css) = length (stats_columns s) * (length bss * 17)"
    "\<And>c. c \<in> set css \<Longrightarrow> length c = length bss * 17"
proof -
  have "length c = length bss * 17" if "c \<in> set css" for c
  proof -
    from that css obtain i where i: "i < length css" "c = css ! i"
        "stats_column_data bss (stats_columns s ! i) c" "i < length (stats_columns s)"
      by (auto simp: in_set_conv_nth list_all2_conv_all_nth)
    from i(3) stats_columns_numeric [OF i(4)] show ?thesis by (rule stats_column_data_length)
  qed
  then show "\<And>c. c \<in> set css \<Longrightarrow> length c = length bss * 17" .
  then have "length (concat (map id css)) = length css * (length bss * 17)" by (intro length_concat_const) simp
  then show "length (concat css) = length (stats_columns s) * (length bss * 17)"
    using list_all2_lengthD [OF css] by simp
qed

text \<open>The file written for a table is parsed back to its descriptors.\<close>

lemma read_stats_descriptor_encode:
  assumes "unat (sd_offset d) + unat nb * 17 \<le> file_size"
    and "is_numeric_type (sd_type d)" "sd_entry_size d = 17"
  shows "read_stats_descriptor file_size nb (enc_descriptor d @ rest) = Inr (d, rest)"
proof -
  have "unat (ucast nb * 17 :: 64 word) = unat nb * 17"
    using unat_mult_no_wrap [of "ucast nb" 17] unat_less_32 [of nb] by (simp add: unat_ucast_32_64)
  with assms show ?thesis
    by (auto simp: read_stats_descriptor_def enc_descriptor_def NUMERIC_STATS_ENTRY_SIZE_def is_numeric_type_def Let_def)
qed

lemma parse_stats_index_ok:
  assumes fl: "stats_file_bytes s bss = Inr file"
    and small: "length bss < 2 ^ 32" "schema_size s < 2 ^ 32" "length file < 2 ^ 63"
  shows "parse_stats_index file = Inr (word_of_nat (length bss), stats_descriptors s (length bss))"
proof -
  let ?nb = "length bss" and ?nc = "length (stats_columns s)"
  let ?ds = "stats_descriptors s ?nb"
  obtain css where shape: "file = stats_header ?nb ?nc @ concat (map enc_descriptor ?ds) @ concat css"
      and cs: "list_all2 (stats_column_data bss) (stats_columns s) css"
    using stats_file_shape [OF fl] by blast
  have nc: "?nc < 2 ^ 32"
  proof -
    have "?nc = card (fst ` set (stats_columns s))"
      using distinct_stats_columns [of s] by (metis distinct_card length_map set_map)
    also have "\<dots> \<le> card {..<schema_size s}" using stats_columns_mem by (intro card_mono) auto
    finally show ?thesis using small(2) by simp
  qed
  have len: "length file = stats_offset ?nc ?nb ?nc"
    using stats_file_length(1) [OF cs] length_concat_const [of ?ds enc_descriptor 17]
    by (simp add: shape stats_header_def stats_offset_def length_enc_descriptor stats_descriptors_def)
  have off: "unat (stats_offset_word ?nc ?nb i) + ?nb * 17 \<le> length file" if "i < ?nc" for i
  proof -
    have "Suc i * (?nb * 17) \<le> ?nc * (?nb * 17)" using that by (intro mult_le_mono1) simp
    then show ?thesis
      using that stats_offset_word_eq [of ?nc ?nb i] nc small(1,3) len by (simp add: stats_offset_def)
  qed
  have "read_many (read_stats_descriptor (length file) (word_of_nat ?nb)) (length ?ds)
      (concat (map enc_descriptor ?ds) @ []) = Inr (map id ?ds, [])"
  proof (rule read_many_encode)
    fix d rest assume "d \<in> set ?ds"
    then obtain i where i: "i < ?nc" and d: "d = ?ds ! i" by (auto simp: in_set_conv_nth stats_descriptors_def)
    show "read_stats_descriptor (length file) (word_of_nat ?nb) (enc_descriptor d @ rest) = Inr (id d, rest)"
      using off [OF i] i small(1) stats_columns_numeric [OF i]
      by (subst read_stats_descriptor_encode) (simp_all add: d stats_descriptors_def unat_of_nat_32 NUMERIC_STATS_ENTRY_SIZE_def)
  qed
  then have many: "read_many (read_stats_descriptor (length file) (word_of_nat ?nb)) ?nc
      (concat (map enc_descriptor ?ds)) = Inr (?ds, [])" by (simp add: stats_descriptors_def)
  have dlen: "length (concat (map enc_descriptor ?ds)) = ?nc * 17"
    using length_concat_const [of ?ds enc_descriptor 17] by (simp add: length_enc_descriptor stats_descriptors_def)
  have dsz: "unat (ucast (word_of_nat ?nc :: 32 word) * 17 :: 64 word) = ?nc * 17"
    using unat_mult_no_wrap [of "ucast (word_of_nat ?nc :: 32 word)" 17] nc
    by (simp add: unat_ucast_32_64 unat_of_nat_32)
  have h: "read_bytes_from_stream file 0 16 = Inr (stats_header ?nb ?nc)"
    by (rule read_bytes_from_stream_mid [of _ "[]" _ "concat (map enc_descriptor ?ds) @ concat css"])
      (use small(3) in \<open>simp_all add: shape stats_header_def\<close>)
  have r: "read_bytes_from_stream file 16 (ucast (word_of_nat ?nc :: 32 word) * 17) = Inr (concat (map enc_descriptor ?ds))"
    by (rule read_bytes_from_stream_mid [of _ "stats_header ?nb ?nc" _ "concat css"])
      (use small(3) in \<open>simp_all add: shape stats_header_def dlen dsz\<close>)
  have l16: "\<not> length file < 16" "\<not> length file < 16 + ?nc * 17" by (simp_all add: len stats_offset_def)
  show ?thesis
    using h r many l16 nc
    by (simp add: parse_stats_index_def stats_consts(3-5) stats_header_def dsz Let_def unat_of_nat_32 del: mult_numeral_1_right)
qed

text \<open>Reading the entries of one column for a range of blocks.\<close>

definition stored_range :: "nat \<Rightarrow> value_type \<Rightarrow> num_stats list list \<Rightarrow> nat \<Rightarrow> nat \<Rightarrow> num_stats list" where
  "stored_range ci ty bss first count = map (stored_stat ci ty) (take count (drop first bss))"

lemma stats_columns_length:
  assumes "schema_size s < 2 ^ 32"
  shows "length (stats_columns s) < 2 ^ 32" "i < length (stats_columns s) \<Longrightarrow> fst (stats_columns s ! i) < 2 ^ 32"
proof -
  have "length (stats_columns s) = card (fst ` set (stats_columns s))"
    using distinct_stats_columns [of s] by (metis distinct_card length_map set_map)
  also have "\<dots> \<le> card {..<schema_size s}" using stats_columns_mem by (intro card_mono) auto
  finally show "length (stats_columns s) < 2 ^ 32" using assms by simp
  show "fst (stats_columns s ! i) < 2 ^ 32" if "i < length (stats_columns s)"
    using stats_columns_mem [of "fst (stats_columns s ! i)" "snd (stats_columns s ! i)" s] nth_mem [OF that] assms by simp
qed

lemma concat_split_nth:
  "i < length xs \<Longrightarrow> concat xs = concat (take i xs) @ xs ! i @ concat (drop (Suc i) xs)"
  by (metis append.assoc concat.simps(2) concat_append id_take_nth_drop)

lemma read_stats_column_ok:
  assumes fl: "stats_file_bytes s bss = Inr sf" and fs: "f_stats fs = Some sf"
    and small: "length bss < 2 ^ 32" "schema_size s < 2 ^ 32" "length sf < 2 ^ 63"
    and i: "i < length (stats_columns s)" and r: "unat first + unat count \<le> length bss"
  shows "read_stats_column fs first count (stats_descriptors s (length bss) ! i) =
    Inr (stored_range (fst (stats_columns s ! i)) (snd (stats_columns s ! i)) bss (unat first) (unat count))"
proof -
  let ?nb = "length bss" and ?nc = "length (stats_columns s)" and ?ty = "snd (stats_columns s ! i)"
    and ?ci = "fst (stats_columns s ! i)"
  let ?ds = "stats_descriptors s ?nb" let ?d = "?ds ! i"
  obtain css where shape: "sf = stats_header ?nb ?nc @ concat (map enc_descriptor ?ds) @ concat css"
      and cs: "list_all2 (stats_column_data bss) (stats_columns s) css"
    using stats_file_shape [OF fl] by blast
  obtain es where es: "css ! i = concat es" "list_all2 (\<lambda>b e. enc_stats_entry ?ci ?ty b = Inr e) bss es"
    using cs i by (auto simp: list_all2_conv_all_nth stats_column_data_def)
  have les: "length es = ?nb" using list_all2_lengthD [OF es(2)] by simp
  have e17: "length e = 17" if "e \<in> set es" for e
    using that es(2) enc_stats_entry_length stats_columns_numeric [OF i]
    by (auto simp: in_set_conv_nth list_all2_conv_all_nth)
  have lc: "length css = ?nc" using list_all2_lengthD [OF cs] by simp
  have d: "sd_offset ?d = stats_offset_word ?nc ?nb i" "sd_entry_size ?d = 17" "unat (sd_column ?d) = ?ci" "sd_type ?d = ?ty"
    using i stats_columns_length [OF small(2)]
    by (simp_all add: stats_descriptors_def NUMERIC_STATS_ENTRY_SIZE_def unat_of_nat_32)
  have dlen: "length (concat (map enc_descriptor ?ds)) = ?nc * 17"
    using length_concat_const [of ?ds enc_descriptor 17] by (simp add: length_enc_descriptor stats_descriptors_def)
  have len: "length sf = stats_offset ?nc ?nb ?nc"
    using stats_file_length(1) [OF cs] by (simp add: shape stats_header_def stats_offset_def dlen)
  define pre where "pre = stats_header ?nb ?nc @ concat (map enc_descriptor ?ds) @ concat (take i css) @ concat (take (unat first) es)"
  define mid where "mid = concat (take (unat count) (drop (unat first) es))"
  define post where "post = concat (drop (unat count) (drop (unat first) es)) @ concat (drop (Suc i) css)"
  have "concat es = concat (take (unat first) es) @ mid @ concat (drop (unat count) (drop (unat first) es))"
    unfolding mid_def by (metis append_take_drop_id concat_append)
  then have sf: "sf = pre @ mid @ post"
    using shape concat_split_nth [of i css] i lc es(1) by (simp add: pre_def post_def)
  have "length (concat (map id (take i css))) = i * (?nb * 17)"
    using length_concat_const [of "take i css" id "?nb * 17"] stats_file_length(2) [OF cs] i lc
    by (auto dest: in_set_takeD)
  moreover have "length (concat (map id (take (unat first) es))) = unat first * 17"
    using length_concat_const [of "take (unat first) es" id 17] e17 r les by (auto dest: in_set_takeD)
  ultimately have lpre: "length pre = stats_offset ?nc ?nb i + unat first * 17"
    by (simp add: pre_def dlen stats_header_def stats_offset_def)
  have lmid: "length mid = unat count * 17"
    using length_concat_const [of "take (unat count) (drop (unat first) es)" id 17] e17 r les
    by (auto simp: mid_def dest: in_set_takeD in_set_dropD)
  have f17: "unat (ucast first * 17 :: 64 word) = unat first * 17" "unat (ucast count * 17 :: 64 word) = unat count * 17"
    using unat_mult_no_wrap [of "ucast first" 17] unat_mult_no_wrap [of "ucast count" 17] unat_less_32 [of first] unat_less_32 [of count]
    by (simp_all add: unat_ucast_32_64)
  have o: "unat (stats_offset_word ?nc ?nb i) = stats_offset ?nc ?nb i"
    using i small len stats_columns_length(1) [OF small(2)] by (intro stats_offset_word_eq) simp_all
  have "unat (stats_offset_word ?nc ?nb i + ucast first * 17) = stats_offset ?nc ?nb i + unat first * 17"
    using lpre sf small(3) unfolding unat_word_ariths(1) o f17 by simp
  then have "read_bytes_from_file (f_stats fs) (sd_offset ?d + ucast first * ucast (sd_entry_size ?d))
      (ucast count * ucast (sd_entry_size ?d)) = Inr mid"
    unfolding fs read_bytes_from_file_def option.case d(1,2)
    by (intro read_bytes_from_stream_mid [OF sf]) (use lpre lmid small(3) f17 in simp_all)
  moreover have "read_many (read_stats_entry ?d) (unat count) mid = Inr (stored_range ?ci ?ty bss (unat first) (unat count), [])"
  proof -
    define bs' es' where "bs' = take (unat count) (drop (unat first) bss)" and "es' = take (unat count) (drop (unat first) es)"
    have l: "length es' = unat count" using r les by (simp add: es'_def)
    have "list_all2 (\<lambda>b e. enc_stats_entry ?ci ?ty b = Inr e) bs' es'"
      unfolding bs'_def es'_def using es(2) by (intro list_all2_takeI list_all2_dropI)
    then have "read_many (read_stats_entry ?d) (length es') (concat es') = Inr (map (stored_stat ?ci ?ty) bs', [])"
    proof (induction rule: list_all2_induct)
      case (Cons b bs e es)
      then show ?case
        using enc_stats_entry_read [OF Cons(1) stats_columns_numeric [OF i] d(3,4), of "concat es"] by simp
    qed simp
    then show ?thesis by (simp add: l mid_def stored_range_def flip: bs'_def es'_def)
  qed
  ultimately show ?thesis by (simp add: read_stats_column_def)
qed

lemma find_descriptor:
  assumes small: "schema_size s < 2 ^ 32"
  shows "case map_of (stats_columns s) c of
      None \<Rightarrow> find (\<lambda>d. unat (sd_column d) = c) (stats_descriptors s nb) = None
    | Some ty \<Rightarrow> \<exists>i < length (stats_columns s). stats_columns s ! i = (c, ty) \<and>
        find (\<lambda>d. unat (sd_column d) = c) (stats_descriptors s nb) = Some (stats_descriptors s nb ! i)"
proof -
  let ?ds = "stats_descriptors s nb"
  have col: "unat (sd_column (?ds ! i)) = fst (stats_columns s ! i)" if "i < length (stats_columns s)" for i
    using that stats_columns_length [OF small] by (simp add: stats_descriptors_def unat_of_nat_32)
  have len: "length ?ds = length (stats_columns s)" by (simp add: stats_descriptors_def)
  show ?thesis
  proof (cases "map_of (stats_columns s) c")
    case None
    then have "\<forall>i < length (stats_columns s). fst (stats_columns s ! i) \<noteq> c"
      using nth_mem by (fastforce simp: map_of_eq_None_iff)
    then have "find (\<lambda>d. unat (sd_column d) = c) ?ds = None"
      by (auto simp: find_None_iff in_set_conv_nth len col)
    with None show ?thesis by simp
  next
    case (Some ty)
    then obtain i where i: "i < length (stats_columns s)" "stats_columns s ! i = (c, ty)"
      using map_of_SomeD [OF Some] by (auto simp: in_set_conv_nth)
    have "\<forall>j < i. fst (stats_columns s ! j) \<noteq> c"
    proof (intro allI impI notI)
      fix j assume j: "j < i" "fst (stats_columns s ! j) = c"
      then show False
        using distinct_stats_columns [of s] i nth_eq_iff_index_eq [of "map fst (stats_columns s)" j i] by simp
    qed
    then have "find (\<lambda>d. unat (sd_column d) = c) ?ds = Some (?ds ! i)"
      using i by (auto simp: find_Some_iff len col intro!: exI [of _ i])
    with Some i show ?thesis by auto
  qed
qed

definition stored_columns :: "schema \<Rightarrow> num_stats list list \<Rightarrow> nat \<Rightarrow> nat \<Rightarrow> nat \<Rightarrow> num_stats list option" where
  "stored_columns s bss first count c =
     map_option (\<lambda>ty. stored_range c ty bss first count) (map_of (stats_columns s) c)"

lemma read_stats_columns_ok:
  assumes fl: "stats_file_bytes s bss = Inr sf" and fs: "f_stats fs = Some sf"
    and small: "length bss < 2 ^ 32" "schema_size s < 2 ^ 32" "length sf < 2 ^ 63"
    and r: "unat (sr_first r) + unat (sr_count r) \<le> length bss"
  shows "\<exists>r'. read_stats_columns fs (stats_descriptors s (length bss)) r cols = Inr r' \<and>
     sr_first r' = sr_first r \<and> sr_count r' = sr_count r \<and>
     (\<forall>c. map_of (sr_by_column r') c =
        (case map_of (sr_by_column r) c of Some x \<Rightarrow> Some x
         | None \<Rightarrow> if c \<in> set cols then stored_columns s bss (unat (sr_first r)) (unat (sr_count r)) c else None))"
  using r
proof (induction cols arbitrary: r)
  case Nil
  then show ?case by (auto split: option.splits)
next
  case (Cons a cols)
  show ?case
  proof (cases "map_of (stats_columns s) a")
    case None
    then have "find (\<lambda>d. unat (sd_column d) = a) (stats_descriptors s (length bss)) = None"
      using find_descriptor [OF small(2), of a "length bss"] by simp
    moreover have "stored_columns s bss (unat (sr_first r)) (unat (sr_count r)) a = None"
      using None by (simp add: stored_columns_def)
    moreover obtain r' where r':
      "read_stats_columns fs (stats_descriptors s (length bss)) r cols = Inr r'"
      "sr_first r' = sr_first r" "sr_count r' = sr_count r"
      "\<And>c. map_of (sr_by_column r') c =
        (case map_of (sr_by_column r) c of Some x \<Rightarrow> Some x
         | None \<Rightarrow> if c \<in> set cols then stored_columns s bss (unat (sr_first r)) (unat (sr_count r)) c else None)"
      using Cons.IH [OF Cons.prems] by auto
    ultimately show ?thesis by (intro exI [of _ r']) (auto split: option.splits)
  next
    case (Some ty)
    then obtain i where i: "i < length (stats_columns s)" "stats_columns s ! i = (a, ty)"
        "find (\<lambda>d. unat (sd_column d) = a) (stats_descriptors s (length bss)) =
          Some (stats_descriptors s (length bss) ! i)"
      using find_descriptor [OF small(2), of a "length bss"] by auto
    let ?sts = "stored_range a ty bss (unat (sr_first r)) (unat (sr_count r))"
    define r2 where "r2 = (if map_of (sr_by_column r) a \<noteq> None then r
      else r\<lparr>sr_by_column := sr_by_column r @ [(a, ?sts)]\<rparr>)"
    have r2: "sr_first r2 = sr_first r" "sr_count r2 = sr_count r"
      "map_of (sr_by_column r2) c = (case map_of (sr_by_column r) c of Some x \<Rightarrow> Some x
         | None \<Rightarrow> if c = a then Some ?sts else None)" for c
      by (auto simp: r2_def map_add_def split: option.splits)
    have rd: "read_stats_column fs (sr_first r) (sr_count r) (stats_descriptors s (length bss) ! i) = Inr ?sts"
      using read_stats_column_ok [OF fl fs small i(1) Cons.prems] i(2) by simp
    have "unat (sr_first r2) + unat (sr_count r2) \<le> length bss" using Cons.prems r2 by simp
    from Cons.IH [OF this] obtain r' where r':
      "read_stats_columns fs (stats_descriptors s (length bss)) r2 cols = Inr r'"
      "sr_first r' = sr_first r" "sr_count r' = sr_count r"
      "\<And>c. map_of (sr_by_column r') c =
        (case map_of (sr_by_column r2) c of Some x \<Rightarrow> Some x
         | None \<Rightarrow> if c \<in> set cols then stored_columns s bss (unat (sr_first r)) (unat (sr_count r)) c else None)"
      unfolding r2(1,2) by blast
    have "stored_columns s bss (unat (sr_first r)) (unat (sr_count r)) a = Some ?sts"
      using Some by (simp add: stored_columns_def)
    then have "\<forall>c. map_of (sr_by_column r') c =
        (case map_of (sr_by_column r) c of Some x \<Rightarrow> Some x
         | None \<Rightarrow> if c \<in> set (a # cols) then stored_columns s bss (unat (sr_first r)) (unat (sr_count r)) c else None)"
      by (auto simp: r'(4) r2(3) split: option.splits)
    moreover have "read_stats_columns fs (stats_descriptors s (length bss)) r (a # cols) = Inr r'"
      using i(3) rd r'(1) by (simp add: r2_def)
    ultimately show ?thesis using r'(2,3) by blast
  qed
qed

text \<open>
  The state of the reader's statistics index is fresh or holds the descriptors of the file;
  reading a range of blocks returns exactly the stored statistics of the requested columns.
\<close>

definition stats_index_ok :: "schema \<Rightarrow> nat \<Rightarrow> stats_index \<Rightarrow> bool" where
  "stats_index_ok s nb st \<longleftrightarrow>
     (sx_loaded st \<longrightarrow> sx_exists st \<and> sx_num_blocks st = word_of_nat nb \<and> sx_descriptors st = stats_descriptors s nb)"

lemma load_numeric_stats_index_ok:
  assumes "stats_file_bytes s bss = Inr sf" "f_stats fs = Some sf" "stats_index_ok s (length bss) st"
    and "length bss < 2 ^ 32" "schema_size s < 2 ^ 32" "length sf < 2 ^ 63"
  shows "\<exists>st'. load_numeric_stats_index fs st = (Inr (), st') \<and> sx_loaded st' \<and> stats_index_ok s (length bss) st'"
  using assms parse_stats_index_ok [OF assms(1,4-6)]
  by (auto simp: load_numeric_stats_index_def stats_index_ok_def Let_def)

lemma read_numeric_stats_range_ok:
  assumes fl: "stats_file_bytes s bss = Inr sf" and fs: "f_stats fs = Some sf"
    and st: "stats_index_ok s (length bss) st"
    and small: "length bss < 2 ^ 32" "schema_size s < 2 ^ 32" "length sf < 2 ^ 63"
    and r: "unat first + unat count \<le> length bss" "count \<noteq> 0"
  shows "\<exists>r st'. read_numeric_stats_range fs st first count cols = (Inr r, st') \<and>
    sr_first r = first \<and> sr_count r = count \<and>
    (\<forall>c. map_of (sr_by_column r) c =
       (if c \<in> set cols then stored_columns s bss (unat first) (unat count) c else None)) \<and>
    stats_index_ok s (length bss) st'"
proof (cases "cols = []")
  case True
  then show ?thesis using st by (simp add: read_numeric_stats_range_def)
next
  case False
  obtain st' where st': "load_numeric_stats_index fs st = (Inr (), st')" "sx_loaded st'" "stats_index_ok s (length bss) st'"
    using load_numeric_stats_index_ok [OF fl fs st small] by blast
  let ?r = "\<lparr>sr_first = first, sr_count = count, sr_by_column = []\<rparr>"
  have "unat (sr_first ?r) + unat (sr_count ?r) \<le> length bss" using r by simp
  from read_stats_columns_ok [OF fl fs small this, of cols] obtain r' where r':
    "read_stats_columns fs (stats_descriptors s (length bss)) ?r cols = Inr r'"
    "sr_first r' = first" "sr_count r' = count"
    "\<forall>c. map_of (sr_by_column r') c = (if c \<in> set cols then stored_columns s bss (unat first) (unat count) c else None)"
    by auto
  have nb: "unat (word_of_nat (length bss) :: 32 word) = length bss" using small by (simp add: unat_of_nat_32)
  have le: "first \<le> word_of_nat (length bss)" using r nb by (simp add: word_le_nat_alt)
  then have "unat (word_of_nat (length bss) - first) = length bss - unat first" using nb by (simp add: unat_sub)
  then have "\<not> (first > word_of_nat (length bss) \<or> count > word_of_nat (length bss) - first)"
    using le r nb by (auto simp: word_less_nat_alt)
  moreover have sx: "sx_exists st'" "sx_num_blocks st' = word_of_nat (length bss)" "sx_descriptors st' = stats_descriptors s (length bss)"
    using st'(2,3) by (auto simp: stats_index_ok_def)
  ultimately have "read_numeric_stats_range fs st first count cols = (Inr r', st')"
    using False r(2) st'(1) r'(1) by (simp add: read_numeric_stats_range_def Let_def)
  then show ?thesis using r' st'(3) by blast
qed

section \<open>Properties\<close>

text \<open>C30: Reading the statistics of a range of blocks from the statistics file the builders wrote returns,
  for every requested column that has statistics, the stored statistics of exactly these blocks, and
  nothing for the other columns.\<close>

theorem statistics_file_round_trip:
  assumes "stats_file_bytes s bss = Inr sf" "f_stats fs = Some sf"
    and "length bss < 2 ^ 32" "schema_size s < 2 ^ 32" "length sf < 2 ^ 63"
    and "unat first + unat count \<le> length bss" "count \<noteq> 0"
  shows "\<exists>r st. read_numeric_stats_range fs fresh_stats_index first count cols = (Inr r, st) \<and>
    (\<forall>c. map_of (sr_by_column r) c =
       (if c \<in> set cols then
          map_option (\<lambda>ty. map (stored_stat c ty) (take (unat count) (drop (unat first) bss))) (map_of (stats_columns s) c)
        else None))"
proof -
  have "stats_index_ok s (length bss) fresh_stats_index" by (simp add: stats_index_ok_def fresh_stats_index_def)
  from read_numeric_stats_range_ok [OF assms(1,2) this assms(3-7), of cols] show ?thesis
    unfolding stored_columns_def stored_range_def by metis
qed

definition sample_stats :: "num_stats list list" where
  "sample_stats = [[zero_stats 1 DOUBLE], [(zero_stats 1 DOUBLE)\<lparr>ns_has := True\<rparr>]]"

lemma statistics_file_round_trip_witness:
  "\<exists>sf r st. stats_file_bytes sample_schema sample_stats = Inr sf \<and>
     read_numeric_stats_range \<lparr>f_data = None, f_meta = None, f_index = None, f_info = None, f_stats = Some sf\<rparr>
       fresh_stats_index 1 1 [1, 2] = (Inr r, st) \<and>
     map_of (sr_by_column r) 1 = Some [(zero_stats 1 DOUBLE)\<lparr>ns_has := True\<rparr>] \<and> map_of (sr_by_column r) 2 = None"
proof -
  have e: "case stats_file_bytes sample_schema sample_stats of Inr sf \<Rightarrow> length sf = 67 | Inl _ \<Rightarrow> False" by code_simp
  then obtain sf where sf: "stats_file_bytes sample_schema sample_stats = Inr sf" "length sf = 67"
    by (cases "stats_file_bytes sample_schema sample_stats") auto
  let ?fs = "\<lparr>f_data = None, f_meta = None, f_index = None, f_info = None, f_stats = Some sf\<rparr>"
  have "stats_columns sample_schema = [(1, DOUBLE)]" by code_simp
  moreover have "sample_stats ! 1 = [(zero_stats 1 DOUBLE)\<lparr>ns_has := True\<rparr>]" "length sample_stats = 2"
    by (simp_all add: sample_stats_def)
  ultimately show ?thesis
    using statistics_file_round_trip [OF sf(1), of ?fs 1 1 "[1, 2]"] sf
    by (auto simp: stored_stat_def find_block_stats_def sample_stats_def zero_stats_def Let_def)
qed

end
