(* ===== verification/Block_Cache.thy ===== *)
theory Block_Cache
  imports Sst_Stats
begin

text \<open>
  The least-recently-used list that both SSTable caches keep, and \<open>SSTableBlockCache\<close>
  (\<open>sstable_block_cache.cpp\<close>). The hash maps are association lists, the LRU list holds the keys
  with the most recent first. The lemmas show that the byte count is the sum of the cached
  sizes of the entries it holds, that these stay within the budget, and that a cached read returns what the
  loader returns.
\<close>

section \<open>A map with an LRU list and a byte budget\<close>

record ('k, 'v) lru_cache =
  lc_entries :: "('k \<times> 'v \<times> nat) list"
  lc_lru :: "'k list"
  lc_bytes :: nat
  lc_max :: nat

definition lru_find :: "'k \<Rightarrow> ('k, 'v) lru_cache \<Rightarrow> 'v option" where
  "lru_find k c = map_option fst (map_of (lc_entries c) k)"

definition lru_touch :: "'k \<Rightarrow> ('k, 'v) lru_cache \<Rightarrow> ('k, 'v) lru_cache" where
  "lru_touch k c = c\<lparr>lc_lru := k # remove1 k (lc_lru c)\<rparr>"

definition lru_evict_page :: "'k \<Rightarrow> ('k, 'v) lru_cache \<Rightarrow> ('k, 'v) lru_cache" where
  "lru_evict_page k c =
     (case map_of (lc_entries c) k of
        None \<Rightarrow> c
      | Some (_, sz) \<Rightarrow> c\<lparr>lc_bytes := lc_bytes c - sz, lc_entries := filter (\<lambda>e. fst e \<noteq> k) (lc_entries c)\<rparr>)"

lemma lru_evict_page_lru [simp]: "lc_lru (lru_evict_page k c) = lc_lru c" "lc_max (lru_evict_page k c) = lc_max c"
  by (simp_all add: lru_evict_page_def split: option.split)

function lru_evict_if_needed :: "('k, 'v) lru_cache \<Rightarrow> ('k, 'v) lru_cache" where
  "lru_evict_if_needed c =
     (if lc_bytes c > lc_max c \<and> length (lc_lru c) > 1 then
        lru_evict_if_needed (lru_evict_page (last (lc_lru c)) (c\<lparr>lc_lru := butlast (lc_lru c)\<rparr>))
      else c)"
  by auto

termination
  by (relation "measure (\<lambda>c. length (lc_lru c))") auto

declare lru_evict_if_needed.simps [simp del]

definition lru_insert :: "'k \<Rightarrow> 'v \<Rightarrow> nat \<Rightarrow> ('k, 'v) lru_cache \<Rightarrow> ('k, 'v) lru_cache" where
  "lru_insert k v sz c =
     lru_evict_if_needed (c\<lparr>lc_lru := k # lc_lru c, lc_entries := (k, v, sz) # lc_entries c,
       lc_bytes := lc_bytes c + sz\<rparr>)"

definition lru_empty :: "nat \<Rightarrow> ('k, 'v) lru_cache" where
  "lru_empty mx = \<lparr>lc_entries = [], lc_lru = [], lc_bytes = 0, lc_max = mx\<rparr>"

subsection \<open>Invariant\<close>

definition lru_inv :: "('k \<Rightarrow> 'v \<Rightarrow> bool) \<Rightarrow> ('k, 'v) lru_cache \<Rightarrow> bool" where
  "lru_inv P c \<longleftrightarrow>
     distinct (map fst (lc_entries c)) \<and> distinct (lc_lru c) \<and> set (lc_lru c) = fst ` set (lc_entries c) \<and>
     lc_bytes c = sum_list (map (\<lambda>e. snd (snd e)) (lc_entries c)) \<and>
     (\<forall>(k, v, sz) \<in> set (lc_entries c). P k v)"

definition lru_within_budget :: "('k, 'v) lru_cache \<Rightarrow> bool" where
  "lru_within_budget c \<longleftrightarrow> lc_bytes c \<le> lc_max c \<or> length (lc_lru c) \<le> 1"

lemma lru_inv_empty: "lru_inv P (lru_empty mx)"
  by (simp add: lru_inv_def lru_empty_def)

lemma lru_entries_empty [simp]: "lc_entries (lru_empty mx) = []"
  by (simp add: lru_empty_def)

lemma lru_within_budget_empty: "lru_within_budget (lru_empty mx)"
  by (simp add: lru_within_budget_def lru_empty_def)

lemma lru_find_inv: "lru_inv P c \<Longrightarrow> lru_find k c = Some v \<Longrightarrow> P k v"
  by (auto simp: lru_inv_def lru_find_def dest!: map_of_SomeD)

lemma lru_touch_inv:
  assumes inv: "lru_inv P c" and k: "lru_find k c = Some v"
  shows "lru_inv P (lru_touch k c)" "lru_within_budget c \<Longrightarrow> lru_within_budget (lru_touch k c)"
    "lc_max (lru_touch k c) = lc_max c" "lc_entries (lru_touch k c) = lc_entries c"
proof -
  have "k \<in> fst ` set (lc_entries c)" using k by (force simp: lru_find_def dest: map_of_SomeD)
  then have kl: "k \<in> set (lc_lru c)" using inv by (simp add: lru_inv_def)
  show "lru_inv P (lru_touch k c)"
    using inv kl by (auto simp: lru_inv_def lru_touch_def)
  show "lru_within_budget c \<Longrightarrow> lru_within_budget (lru_touch k c)"
    using kl by (auto simp: lru_within_budget_def lru_touch_def length_remove1)
qed (simp_all add: lru_touch_def)

lemma sum_filter_key:
  fixes es :: "('k \<times> 'v \<times> nat) list"
  assumes "distinct (map fst es)" "map_of es k = Some (v, sz)"
  shows "sum_list (map (\<lambda>e. snd (snd e)) es) = sz + sum_list (map (\<lambda>e. snd (snd e)) (filter (\<lambda>e. fst e \<noteq> k) es))"
  using assms
proof (induction es)
  case (Cons e es)
  show ?case
  proof (cases "fst e = k")
    case True
    then have "filter (\<lambda>e. fst e \<noteq> k) es = es" using Cons.prems(1) by (simp add: filter_id_conv) (metis imageI)
    then show ?thesis using True Cons.prems(2) by (cases e) auto
  next
    case False
    then show ?thesis using Cons by (cases e) auto
  qed
qed simp

lemma lru_evict_page_inv:
  assumes "lru_inv P c" "lc_lru c = xs @ [k]"
  shows "lru_inv P (lru_evict_page k (c\<lparr>lc_lru := xs\<rparr>))"
    "map_of (lc_entries (lru_evict_page k (c\<lparr>lc_lru := xs\<rparr>))) = (map_of (lc_entries c))(k := None)"
proof -
  have d: "distinct (map fst (lc_entries c))" "distinct xs" "k \<notin> set xs"
      "insert k (set xs) = fst ` set (lc_entries c)" and b: "lc_bytes c = sum_list (map (\<lambda>e. snd (snd e)) (lc_entries c))"
      and p: "\<forall>(k, v, sz) \<in> set (lc_entries c). P k v"
    using assms by (auto simp: lru_inv_def)
  then have "k \<in> fst ` set (lc_entries c)" by auto
  then obtain v sz where m: "map_of (lc_entries c) k = Some (v, sz)"
    by (metis map_of_eq_None_iff not_None_eq surj_pair)
  have e: "lru_evict_page k (c\<lparr>lc_lru := xs\<rparr>) = c\<lparr>lc_lru := xs, lc_bytes := lc_bytes c - sz,
      lc_entries := filter (\<lambda>e. fst e \<noteq> k) (lc_entries c)\<rparr>"
    using m by (simp add: lru_evict_page_def)
  have "set xs = fst ` set (filter (\<lambda>e. fst e \<noteq> k) (lc_entries c))"
  proof -
    have "set xs = fst ` set (lc_entries c) - {k}" using d(3,4) by auto
    then show ?thesis by auto
  qed
  then show "lru_inv P (lru_evict_page k (c\<lparr>lc_lru := xs\<rparr>))"
    using d p b sum_filter_key [OF d(1) m] by (auto simp: e lru_inv_def distinct_map_filter)
  show "map_of (lc_entries (lru_evict_page k (c\<lparr>lc_lru := xs\<rparr>))) = (map_of (lc_entries c))(k := None)"
  proof
    fix j
    have "map_of (filter (\<lambda>e. fst e \<noteq> k) es) j = ((map_of es)(k := None)) j" for es :: "('a \<times> 'b \<times> nat) list"
      by (induction es) auto
    then show "map_of (lc_entries (lru_evict_page k (c\<lparr>lc_lru := xs\<rparr>))) j = ((map_of (lc_entries c))(k := None)) j"
      by (simp add: e)
  qed
qed

text \<open>Eviction keeps the invariant, reaches the budget and never drops the most recent key.\<close>

lemma lru_evict_inv:
  assumes "lru_inv P c" "lc_lru c = k # ks"
  shows "lru_inv P (lru_evict_if_needed c) \<and> lru_within_budget (lru_evict_if_needed c) \<and>
    lru_find k (lru_evict_if_needed c) = lru_find k c \<and> lc_max (lru_evict_if_needed c) = lc_max c"
  using assms
proof (induction c arbitrary: ks rule: lru_evict_if_needed.induct)
  case (1 c)
  show ?case
  proof (cases "lc_bytes c > lc_max c \<and> length (lc_lru c) > 1")
    case True
    then obtain ys y where ks: "ks = ys @ [y]" using 1(3) by (cases ks rule: rev_cases) auto
    let ?d = "lru_evict_page (last (lc_lru c)) (c\<lparr>lc_lru := butlast (lc_lru c)\<rparr>)"
    have lru: "lc_lru c = (k # ys) @ [y]" "last (lc_lru c) = y" "butlast (lc_lru c) = k # ys"
      using 1(3) ks by auto
    have d: "lru_inv P ?d" "map_of (lc_entries ?d) = (map_of (lc_entries c))(y := None)"
      using lru_evict_page_inv [OF 1(2) lru(1)] lru(2,3) by simp_all
    have "k \<noteq> y" using 1(2) lru(1) by (auto simp: lru_inv_def)
    then have f: "lru_find k ?d = lru_find k c" by (simp add: lru_find_def d(2))
    have "lc_lru ?d = k # ys" by (simp add: lru(3))
    from 1(1) [OF True d(1) this] f show ?thesis
      using True by (subst (1 2 3 4) lru_evict_if_needed.simps) simp
  next
    case False
    then have "lru_evict_if_needed c = c" by (subst lru_evict_if_needed.simps) (simp only: if_False)
    with False 1(2) show ?thesis by (auto simp: lru_within_budget_def)
  qed
qed

lemma lru_insert_inv:
  assumes inv: "lru_inv P c" and k: "lru_find k c = None" and p: "P k v"
  shows "lru_inv P (lru_insert k v sz c)" "lru_within_budget (lru_insert k v sz c)"
    "lru_find k (lru_insert k v sz c) = Some v" "lc_max (lru_insert k v sz c) = lc_max c"
proof -
  let ?c = "c\<lparr>lc_lru := k # lc_lru c, lc_entries := (k, v, sz) # lc_entries c, lc_bytes := lc_bytes c + sz\<rparr>"
  have "k \<notin> fst ` set (lc_entries c)" using k by (simp add: lru_find_def map_of_eq_None_iff)
  then have "lru_inv P ?c" using inv p by (auto simp: lru_inv_def)
  from lru_evict_inv [OF this, of k "lc_lru c"]
  show "lru_inv P (lru_insert k v sz c)" "lru_within_budget (lru_insert k v sz c)"
    "lru_find k (lru_insert k v sz c) = Some v" "lc_max (lru_insert k v sz c) = lc_max c"
    by (simp_all add: lru_insert_def lru_find_def)
qed

section \<open>\<open>SSTableBlockCache\<close>\<close>

datatype block_kind = RowBlock | ColumnBlock

record block_key =
  bk_sstable_id :: "64 word"
  bk_kind :: block_kind
  bk_block_id :: nat
  bk_column_idx :: nat

record block_cache =
  bc_lru :: "(block_key, byte list) lru_cache"
  bc_hits :: "64 word"
  bc_misses :: "64 word"

definition SSTableBlockCache :: "nat \<Rightarrow> block_cache res" where
  "SSTableBlockCache max_cached_bytes =
     (if max_cached_bytes = 0 then Inl (RuntimeError ''SSTableBlockCache max_cached_bytes must be positive'')
      else Inr \<lparr>bc_lru = lru_empty max_cached_bytes, bc_hits = 0, bc_misses = 0\<rparr>)"

text \<open>
  \<open>read_block\<close>: a failing loader leaves the miss counted and nothing inserted. The inserted entry is
  looked up again after the eviction, as the code dereferences the iterator it kept.
\<close>

definition bc_read_block :: "block_key \<Rightarrow> byte list res \<Rightarrow> block_cache \<Rightarrow> byte list res \<times> block_cache" where
  "bc_read_block k loader c =
     (case lru_find k (bc_lru c) of
        Some bytes \<Rightarrow> (Inr bytes, c\<lparr>bc_hits := bc_hits c + 1, bc_lru := lru_touch k (bc_lru c)\<rparr>)
      | None \<Rightarrow>
          let c1 = c\<lparr>bc_misses := bc_misses c + 1\<rparr> in
          case loader of
            Inl e \<Rightarrow> (Inl e, c1)
          | Inr bytes \<Rightarrow>
              let l = lru_insert k bytes (length bytes) (bc_lru c1) in
              (case lru_find k l of
                 Some b \<Rightarrow> Inr b
               | None \<Rightarrow> Inl (LogicError ''undefined behaviour: evicted iterator''), c1\<lparr>bc_lru := l\<rparr>))"

definition bc_read_row_block ::
    "64 word \<Rightarrow> row_block_meta \<Rightarrow> byte list res \<Rightarrow> block_cache \<Rightarrow> byte list res \<times> block_cache" where
  "bc_read_row_block sst block loader c =
     bc_read_block \<lparr>bk_sstable_id = sst, bk_kind = RowBlock, bk_block_id = unat (rbm_block_id block), bk_column_idx = 0\<rparr> loader c"

definition bc_read_column_block ::
    "64 word \<Rightarrow> col_block_meta \<Rightarrow> byte list res \<Rightarrow> block_cache \<Rightarrow> byte list res \<times> block_cache" where
  "bc_read_column_block sst block loader c =
     bc_read_block \<lparr>bk_sstable_id = sst, bk_kind = ColumnBlock, bk_block_id = unat (cm_block_id block),
       bk_column_idx = unat (cm_column_idx block)\<rparr> loader c"

definition bc_stats :: "block_cache \<Rightarrow> 64 word \<times> 64 word \<times> nat \<times> nat" where
  "bc_stats c = (bc_hits c, bc_misses c, lc_bytes (bc_lru c), length (lc_entries (bc_lru c)))"

text \<open>The cache agrees with a store: the bytes of every cached block are what the store loads.\<close>

definition bc_inv :: "(block_key \<Rightarrow> byte list res) \<Rightarrow> block_cache \<Rightarrow> bool" where
  "bc_inv store c \<longleftrightarrow>
     lru_inv (\<lambda>k v. store k = Inr v) (bc_lru c) \<and> lru_within_budget (bc_lru c) \<and>
     (\<forall>(k, v, sz) \<in> set (lc_entries (bc_lru c)). sz = length v)"

lemma lru_evict_entries: "set (lc_entries (lru_evict_if_needed c)) \<subseteq> set (lc_entries c)"
proof (induction c rule: lru_evict_if_needed.induct)
  case (1 c)
  let ?d = "lru_evict_page (last (lc_lru c)) (c\<lparr>lc_lru := butlast (lc_lru c)\<rparr>)"
  have d: "set (lc_entries ?d) \<subseteq> set (lc_entries c)" by (auto simp: lru_evict_page_def split: option.split)
  show ?case
  proof (cases "lc_bytes c > lc_max c \<and> length (lc_lru c) > 1")
    case True
    then have "lru_evict_if_needed c = lru_evict_if_needed ?d" by (subst lru_evict_if_needed.simps) simp
    then show ?thesis using 1 [OF True] d by auto
  next
    case False
    then show ?thesis by (subst lru_evict_if_needed.simps) (simp only: if_False)
  qed
qed

lemma bc_read_block_ok:
  assumes inv: "bc_inv store c"
  shows "fst (bc_read_block k (store k) c) = store k" "bc_inv store (snd (bc_read_block k (store k) c))"
    "lc_max (bc_lru (snd (bc_read_block k (store k) c))) = lc_max (bc_lru c)"
    "store k = Inr v \<Longrightarrow> lru_find k (bc_lru (snd (bc_read_block k (store k) c))) = Some v"
proof -
  let ?c' = "snd (bc_read_block k (store k) c)"
  have i: "lru_inv (\<lambda>k v. store k = Inr v) (bc_lru c)" "lru_within_budget (bc_lru c)"
    using inv by (simp_all add: bc_inv_def)
  have "fst (bc_read_block k (store k) c) = store k \<and> bc_inv store ?c' \<and> lc_max (bc_lru ?c') = lc_max (bc_lru c) \<and>
    (\<forall>v. store k = Inr v \<longrightarrow> lru_find k (bc_lru ?c') = Some v)"
  proof (cases "lru_find k (bc_lru c)")
    case (Some v)
    then show ?thesis
      using lru_find_inv [OF i(1) Some] lru_touch_inv [OF i(1) Some] inv
      by (simp add: bc_read_block_def bc_inv_def) (simp add: lru_find_def)
  next
    case None
    show ?thesis
    proof (cases "store k")
      case (Inl e)
      then show ?thesis using None inv by (simp add: bc_read_block_def bc_inv_def Let_def)
    next
      case (Inr v)
      note n = lru_insert_inv [OF i(1) None, of v "length v"]
      have "\<forall>(k, v, sz) \<in> set (lc_entries (lru_insert k v (length v) (bc_lru c))). sz = length v"
        using inv lru_evict_entries by (fastforce simp: lru_insert_def bc_inv_def)
      then show ?thesis using None Inr n by (simp add: bc_read_block_def bc_inv_def Let_def)
    qed
  qed
  then show "fst (bc_read_block k (store k) c) = store k" "bc_inv store ?c'" "lc_max (bc_lru ?c') = lc_max (bc_lru c)"
    "store k = Inr v \<Longrightarrow> lru_find k (bc_lru ?c') = Some v" by auto
qed

text \<open>The bytes a cache holds: those of its entries, which is what the counter counts.\<close>

definition cached_bytes :: "block_cache \<Rightarrow> nat" where
  "cached_bytes c = (\<Sum>bytes\<leftarrow>map (\<lambda>entry. fst (snd entry)) (lc_entries (bc_lru c)). length bytes)"

lemma cached_bytes_counted:
  assumes "bc_inv store c"
  shows "lc_bytes (bc_lru c) = cached_bytes c" "cached_bytes c \<le> lc_max (bc_lru c) \<or> length (lc_entries (bc_lru c)) \<le> 1"
proof -
  have inv: "lru_inv (\<lambda>k v. store k = Inr v) (bc_lru c)" "lru_within_budget (bc_lru c)"
      "\<forall>(k, v, sz) \<in> set (lc_entries (bc_lru c)). sz = length v"
    using assms by (simp_all add: bc_inv_def)
  have "(\<Sum>e\<leftarrow>lc_entries (bc_lru c). snd (snd e)) = (\<Sum>e\<leftarrow>lc_entries (bc_lru c). length (fst (snd e)))"
    using inv(3) by (intro arg_cong [where f = sum_list] map_cong refl) auto
  then show b: "lc_bytes (bc_lru c) = cached_bytes c" using inv(1) unfolding lru_inv_def cached_bytes_def by (simp add: o_def)
  have "length (lc_lru (bc_lru c)) = length (lc_entries (bc_lru c))"
    using inv(1) unfolding lru_inv_def by (metis distinct_card length_map list.set_map)
  then show "cached_bytes c \<le> lc_max (bc_lru c) \<or> length (lc_entries (bc_lru c)) \<le> 1"
    using inv(2) b by (simp add: lru_within_budget_def)
qed

section \<open>Properties\<close>

text \<open>A sequence of reads through the cache of a store whose blocks do not change.\<close>

fun read_blocks :: "(block_key \<Rightarrow> byte list res) \<Rightarrow> block_key list \<Rightarrow> block_cache \<Rightarrow> byte list res list \<times> block_cache" where
  "read_blocks store [] c = ([], c)"
| "read_blocks store (k # ks) c =
     (let (r, c1) = bc_read_block k (store k) c; (rs, c2) = read_blocks store ks c1 in (r # rs, c2))"

lemma read_blocks_inv:
  assumes "bc_inv store c"
  shows "fst (read_blocks store ks c) = map store ks" "bc_inv store (snd (read_blocks store ks c))"
    "lc_max (bc_lru (snd (read_blocks store ks c))) = lc_max (bc_lru c)"
    "ks \<noteq> [] \<Longrightarrow> store (last ks) = Inr v \<Longrightarrow> lru_find (last ks) (bc_lru (snd (read_blocks store ks c))) = Some v"
proof -
  have "fst (read_blocks store ks c) = map store ks \<and> bc_inv store (snd (read_blocks store ks c)) \<and>
    lc_max (bc_lru (snd (read_blocks store ks c))) = lc_max (bc_lru c) \<and>
    (ks \<noteq> [] \<longrightarrow> store (last ks) = Inr v \<longrightarrow> lru_find (last ks) (bc_lru (snd (read_blocks store ks c))) = Some v)"
    using assms
  proof (induction ks arbitrary: c)
    case (Cons k ks)
    note b = bc_read_block_ok [OF Cons.prems, of k]
    from Cons.IH [OF b(2)] b(1,3) b(4) [of v] show ?case by (cases "ks = []") (simp_all add: case_prod_beta Let_def)
  qed simp
  then show "fst (read_blocks store ks c) = map store ks" "bc_inv store (snd (read_blocks store ks c))"
    "lc_max (bc_lru (snd (read_blocks store ks c))) = lc_max (bc_lru c)"
    "ks \<noteq> [] \<Longrightarrow> store (last ks) = Inr v \<Longrightarrow> lru_find (last ks) (bc_lru (snd (read_blocks store ks c))) = Some v" by auto
qed

text \<open>C32: Whatever is read through a new block cache from a store whose blocks do not change, every read returns the
  bytes (or the error) the loader returns, the bytes of all blocks it then holds are within the budget unless it holds a single
  block, and the block that was read last is among them.\<close>

theorem block_cache_transparent:
  assumes "SSTableBlockCache max_cached_bytes = Inr c"
  shows "fst (read_blocks store ks c) = map store ks \<and>
    (cached_bytes (snd (read_blocks store ks c)) \<le> max_cached_bytes \<or>
     length (lc_entries (bc_lru (snd (read_blocks store ks c)))) = 1) \<and>
    (\<forall>bytes. ks \<noteq> [] \<and> store (last ks) = Inr bytes \<longrightarrow>
       lru_find (last ks) (bc_lru (snd (read_blocks store ks c))) = Some bytes)"
proof -
  have new: "bc_lru c = lru_empty max_cached_bytes" using assms by (auto simp: SSTableBlockCache_def split: if_splits)
  then have "bc_inv store c" unfolding bc_inv_def by (simp add: lru_inv_empty lru_within_budget_empty)
  note r = read_blocks_inv [OF this, of ks]
  have "cached_bytes d = 0" if "length (lc_entries (bc_lru d)) = 0" for d using that by (simp add: cached_bytes_def)
  then show ?thesis using r cached_bytes_counted(2) [OF r(2)] by (auto simp: new lru_empty_def le_Suc_eq)
qed

definition sample_block :: "nat \<Rightarrow> block_key" where
  "sample_block i = \<lparr>bk_sstable_id = 7, bk_kind = RowBlock, bk_block_id = i, bk_column_idx = 0\<rparr>"

lemma block_cache_transparent_witness:
  "\<exists>c. SSTableBlockCache 4 = Inr c \<and>
    (let r = read_blocks (\<lambda>k. Inr (replicate (bk_block_id k) 0)) [sample_block 3, sample_block 2, sample_block 3] c in
       fst r = map (\<lambda>n. Inr (replicate n 0)) [3, 2, 3] \<and>
       (cached_bytes (snd r) \<le> 4 \<or> length (lc_entries (bc_lru (snd r))) = 1) \<and>
       lru_find (sample_block 3) (bc_lru (snd r)) = Some (replicate 3 0))"
proof -
  have c: "SSTableBlockCache 4 = Inr \<lparr>bc_lru = lru_empty 4, bc_hits = 0, bc_misses = 0\<rparr>" by (simp add: SSTableBlockCache_def)
  have b: "bk_block_id (sample_block i) = i" for i by (simp add: sample_block_def)
  show ?thesis
    using block_cache_transparent [OF c, of "\<lambda>k. Inr (replicate (bk_block_id k) 0)" "[sample_block 3, sample_block 2, sample_block 3]"]
    by (simp add: c b Let_def del: read_blocks.simps replicate.simps)
qed

end
