(* ===== verification/Meta_Cache.thy ===== *)
theory Meta_Cache
  imports Block_Cache
begin

text \<open>
  \<open>SSTableMetadataCache\<close> (\<open>sstable_metadata_cache.cpp\<close>): the metadata and statistics of one
  SSTable, read in pages of \<open>page_blocks\<close> blocks and kept in one LRU list. The three page maps are
  one map here, whose key names the kind of the page. The lemmas show that a range read through
  the pages is the range the reader would return, whatever was cached or evicted before.
\<close>

section \<open>The cache\<close>

datatype page_kind = RowMetadata | ColumnMetadata | NumericStats

record page_key =
  pk_kind :: page_kind
  pk_page_id :: "32 word"
  pk_column_idx :: nat

datatype meta_page =
  RowPage "row_block_meta list"
| ColumnPage "col_block_meta list"
| StatsPage "num_stats list option"

record meta_cache =
  mc_num_blocks :: "32 word"
  mc_columns_count :: "32 word"
  mc_page_blocks :: "32 word"
  mc_files :: sst_files
  mc_stats_index :: stats_index
  mc_sparse_index :: "sparse_index_entry list"
  mc_pages :: "(page_key, meta_page) lru_cache"

definition SSTableMetadataCache ::
    "sst_info \<Rightarrow> sst_files \<Rightarrow> 32 word \<Rightarrow> 32 word \<Rightarrow> nat \<Rightarrow> meta_cache res" where
  "SSTableMetadataCache info fs columns_count page_blocks max_cached_bytes =
     (if f_data fs = None then Inl (RuntimeError ''Cannot open SSTable data file: '')
      else
        rbind (read_sparse_index fs) (\<lambda>index.
          if page_blocks = 0 then Inl (RuntimeError ''SSTableMetadataCache page_blocks must be positive'')
          else if max_cached_bytes = 0 then
            Inl (RuntimeError ''SSTableMetadataCache max_cached_bytes must be positive'')
          else Inr \<lparr>mc_num_blocks = in_num_blocks info, mc_columns_count = columns_count,
            mc_page_blocks = page_blocks, mc_files = fs, mc_stats_index = fresh_stats_index,
            mc_sparse_index = index, mc_pages = lru_empty max_cached_bytes\<rparr>))"

definition page_first_block :: "meta_cache \<Rightarrow> 32 word \<Rightarrow> 32 word" where
  "page_first_block mc page_id = page_id * mc_page_blocks mc"

definition page_block_count :: "meta_cache \<Rightarrow> 32 word \<Rightarrow> 32 word" where
  "page_block_count mc page_id =
     (let first = page_first_block mc page_id in
      if first \<ge> mc_num_blocks mc then 0 else min (mc_page_blocks mc) (mc_num_blocks mc - first))"

definition mc_hit :: "page_key \<Rightarrow> meta_cache \<Rightarrow> meta_cache" where
  "mc_hit k mc = mc\<lparr>mc_pages := lru_touch k (mc_pages mc)\<rparr>"

definition mc_put :: "page_key \<Rightarrow> meta_page \<Rightarrow> nat \<Rightarrow> meta_cache \<Rightarrow> meta_cache" where
  "mc_put k page bytes mc = mc\<lparr>mc_pages := lru_insert k page bytes (mc_pages mc)\<rparr>"

definition row_page_bytes :: "row_block_meta list \<Rightarrow> nat" where
  "row_page_bytes blocks = length blocks * ROW_BLOCK_META_ON_DISK_SIZE"

definition column_page_bytes :: "col_block_meta list \<Rightarrow> nat" where
  "column_page_bytes blocks = length blocks * COLUMN_BLOCK_META_ON_DISK_SIZE"

definition stats_page_bytes :: "num_stats list option \<Rightarrow> nat" where
  "stats_page_bytes blocks = (case blocks of None \<Rightarrow> 1 | Some bs \<Rightarrow> length bs * 17)"

definition wrong_page :: exn where
  "wrong_page = LogicError ''undefined behaviour: page of another kind''"

definition get_row_page :: "32 word \<Rightarrow> meta_cache \<Rightarrow> row_block_meta list res \<times> meta_cache" where
  "get_row_page page_id mc =
     (let k = \<lparr>pk_kind = RowMetadata, pk_page_id = page_id, pk_column_idx = 0\<rparr> in
      case lru_find k (mc_pages mc) of
        Some page \<Rightarrow> (case page of RowPage bs \<Rightarrow> Inr bs | _ \<Rightarrow> Inl wrong_page, mc_hit k mc)
      | None \<Rightarrow>
          (case read_row_metadata_range (mc_files mc) (page_first_block mc page_id) (page_block_count mc page_id) of
             Inl e \<Rightarrow> (Inl e, mc)
           | Inr bs \<Rightarrow> (Inr bs, mc_put k (RowPage bs) (row_page_bytes bs) mc)))"

definition get_column_page :: "32 word \<Rightarrow> meta_cache \<Rightarrow> col_block_meta list res \<times> meta_cache" where
  "get_column_page page_id mc =
     (let k = \<lparr>pk_kind = ColumnMetadata, pk_page_id = page_id, pk_column_idx = 0\<rparr> in
      case lru_find k (mc_pages mc) of
        Some page \<Rightarrow> (case page of ColumnPage bs \<Rightarrow> Inr bs | _ \<Rightarrow> Inl wrong_page, mc_hit k mc)
      | None \<Rightarrow>
          (case read_column_metadata_range (mc_files mc) (page_first_block mc page_id) (page_block_count mc page_id)
                  (mc_columns_count mc) of
             Inl e \<Rightarrow> (Inl e, mc)
           | Inr bs \<Rightarrow> (Inr bs, mc_put k (ColumnPage bs) (column_page_bytes bs) mc)))"

definition get_stats_page :: "nat \<Rightarrow> 32 word \<Rightarrow> meta_cache \<Rightarrow> num_stats list option res \<times> meta_cache" where
  "get_stats_page column_idx page_id mc =
     (let k = \<lparr>pk_kind = NumericStats, pk_page_id = page_id, pk_column_idx = column_idx\<rparr> in
      case lru_find k (mc_pages mc) of
        Some page \<Rightarrow> (case page of StatsPage bs \<Rightarrow> Inr bs | _ \<Rightarrow> Inl wrong_page, mc_hit k mc)
      | None \<Rightarrow>
          (case read_numeric_stats_range (mc_files mc) (mc_stats_index mc) (page_first_block mc page_id)
                  (page_block_count mc page_id) [column_idx] of
             (Inl e, st) \<Rightarrow> (Inl e, mc\<lparr>mc_stats_index := st\<rparr>)
           | (Inr stats, st) \<Rightarrow>
               let bs = map_of (sr_by_column stats) column_idx in
               (Inr bs, mc_put k (StatsPage bs) (stats_page_bytes bs) (mc\<lparr>mc_stats_index := st\<rparr>))))"

section \<open>Ranges\<close>

text \<open>The loop over the pages of a range; an exception ends it.\<close>

fun page_loop :: "('p \<Rightarrow> 's \<Rightarrow> 'x list res \<times> 's) \<Rightarrow> 'p list \<Rightarrow> 's \<Rightarrow> 'x list res \<times> 's" where
  "page_loop f [] s = (Inr [], s)"
| "page_loop f (p # ps) s =
     (case f p s of
        (Inl e, s1) \<Rightarrow> (Inl e, s1)
      | (Inr xs, s1) \<Rightarrow>
          (case page_loop f ps s1 of
             (Inl e, s2) \<Rightarrow> (Inl e, s2)
           | (Inr ys, s2) \<Rightarrow> (Inr (xs @ ys), s2)))"

definition page_ids :: "meta_cache \<Rightarrow> 32 word \<Rightarrow> 32 word \<Rightarrow> 32 word list" where
  "page_ids mc first_block_id last_block_exclusive =
     map word_of_nat [unat (first_block_id div mc_page_blocks mc) ..<
       Suc (unat ((last_block_exclusive - 1) div mc_page_blocks mc))]"

text \<open>The elements of a page that belong to the range \<open>[copy_from, copy_to)\<close> of blocks.\<close>

definition copy_blocks :: "'x list \<Rightarrow> 32 word \<Rightarrow> 32 word \<Rightarrow> 32 word \<Rightarrow> 'x list" where
  "copy_blocks page page_first copy_from copy_to =
     map (\<lambda>b. page ! (b - unat page_first)) [unat copy_from ..< unat copy_to]"

definition mc_row_page :: "32 word \<Rightarrow> 32 word \<Rightarrow> 32 word \<Rightarrow> meta_cache \<Rightarrow> row_block_meta list res \<times> meta_cache" where
  "mc_row_page first_block_id last_block_exclusive page_id mc =
     (case get_row_page page_id mc of
        (Inl e, mc1) \<Rightarrow> (Inl e, mc1)
      | (Inr page, mc1) \<Rightarrow>
          let page_first = page_first_block mc page_id in
          (Inr (copy_blocks page page_first (max first_block_id page_first)
                 (min last_block_exclusive (page_first + word_of_nat (length page)))), mc1))"

definition mc_read_row_metadata_range ::
    "32 word \<Rightarrow> 32 word \<Rightarrow> meta_cache \<Rightarrow> row_block_meta list res \<times> meta_cache" where
  "mc_read_row_metadata_range first_block_id block_count mc =
     (if block_count = 0 then (Inr [], mc)
      else
        let last_block_exclusive = first_block_id + block_count in
        if last_block_exclusive > mc_num_blocks mc \<or> last_block_exclusive < first_block_id then
          (Inl (RuntimeError ''Requested row metadata range is out of SSTable bounds''), mc)
        else page_loop (mc_row_page first_block_id last_block_exclusive)
               (page_ids mc first_block_id last_block_exclusive) mc)"

definition mc_column_page :: "32 word \<Rightarrow> 32 word \<Rightarrow> 32 word \<Rightarrow> meta_cache \<Rightarrow> col_block_meta list res \<times> meta_cache" where
  "mc_column_page first_block_id last_block_exclusive page_id mc =
     (case get_column_page page_id mc of
        (Inl e, mc1) \<Rightarrow> (Inl e, mc1)
      | (Inr page, mc1) \<Rightarrow>
          let page_first = page_first_block mc page_id;
              copy_from = max first_block_id page_first;
              copy_to = min last_block_exclusive (page_first + page_block_count mc page_id);
              first_entry = unat (copy_from - page_first) * unat (mc_columns_count mc);
              last_entry = unat (copy_to - page_first) * unat (mc_columns_count mc) in
          (Inr (map (\<lambda>entry_id. page ! entry_id) [first_entry ..< last_entry]), mc1))"

definition mc_read_column_metadata_range ::
    "32 word \<Rightarrow> 32 word \<Rightarrow> meta_cache \<Rightarrow> col_block_meta list res \<times> meta_cache" where
  "mc_read_column_metadata_range first_block_id block_count mc =
     (if block_count = 0 \<or> mc_columns_count mc = 0 then (Inr [], mc)
      else
        let last_block_exclusive = first_block_id + block_count in
        if last_block_exclusive > mc_num_blocks mc \<or> last_block_exclusive < first_block_id then
          (Inl (RuntimeError ''Requested column metadata range is out of SSTable bounds''), mc)
        else page_loop (mc_column_page first_block_id last_block_exclusive)
               (page_ids mc first_block_id last_block_exclusive) mc)"

text \<open>The pages of one column's statistics; a page without the column ends the loop.\<close>

fun mc_stats_pages ::
    "32 word \<Rightarrow> 32 word \<Rightarrow> nat \<Rightarrow> 32 word list \<Rightarrow> meta_cache \<Rightarrow> num_stats list option res \<times> meta_cache" where
  "mc_stats_pages first last_exclusive column_idx [] mc = (Inr (Some []), mc)"
| "mc_stats_pages first last_exclusive column_idx (page_id # ps) mc =
     (case get_stats_page column_idx page_id mc of
        (Inl e, mc1) \<Rightarrow> (Inl e, mc1)
      | (Inr None, mc1) \<Rightarrow> (Inr None, mc1)
      | (Inr (Some page), mc1) \<Rightarrow>
          let page_first = page_first_block mc page_id;
              xs = copy_blocks page page_first (max first page_first)
                     (min last_exclusive (page_first + word_of_nat (length page))) in
          (case mc_stats_pages first last_exclusive column_idx ps mc1 of
             (Inr (Some ys), mc2) \<Rightarrow> (Inr (Some (xs @ ys)), mc2)
           | r \<Rightarrow> r))"

fun mc_stats_columns ::
    "32 word list \<Rightarrow> 32 word \<Rightarrow> stats_range \<Rightarrow> nat list \<Rightarrow> meta_cache \<Rightarrow> stats_range res \<times> meta_cache" where
  "mc_stats_columns pages last_exclusive result [] mc = (Inr result, mc)"
| "mc_stats_columns pages last_exclusive result (column_idx # cs) mc =
     (case mc_stats_pages (sr_first result) last_exclusive column_idx pages mc of
        (Inl e, mc1) \<Rightarrow> (Inl e, mc1)
      | (Inr None, mc1) \<Rightarrow> mc_stats_columns pages last_exclusive result cs mc1
      | (Inr (Some sts), mc1) \<Rightarrow>
          mc_stats_columns pages last_exclusive
            (if map_of (sr_by_column result) column_idx \<noteq> None then result
             else result\<lparr>sr_by_column := sr_by_column result @ [(column_idx, sts)]\<rparr>) cs mc1)"

definition mc_read_numeric_stats_range ::
    "32 word \<Rightarrow> 32 word \<Rightarrow> nat list \<Rightarrow> meta_cache \<Rightarrow> stats_range res \<times> meta_cache" where
  "mc_read_numeric_stats_range first_block_id block_count column_indices mc =
     (let result = \<lparr>sr_first = first_block_id, sr_count = block_count, sr_by_column = []\<rparr> in
      if block_count = 0 \<or> column_indices = [] then (Inr result, mc)
      else
        let last_block_exclusive = first_block_id + block_count in
        if last_block_exclusive > mc_num_blocks mc \<or> last_block_exclusive < first_block_id then
          (Inl (RuntimeError ''Requested numeric stats range is out of SSTable bounds''), mc)
        else mc_stats_columns (page_ids mc first_block_id last_block_exclusive) last_block_exclusive result
               column_indices mc)"

section \<open>The invariant and single pages\<close>

text \<open>Every cached page is what the reader would load for it now.\<close>

definition page_ok :: "schema \<Rightarrow> num_stats list list \<Rightarrow> meta_cache \<Rightarrow> page_key \<Rightarrow> meta_page \<Rightarrow> bool" where
  "page_ok s bss mc k page \<longleftrightarrow>
     (let first = page_first_block mc (pk_page_id k); count = page_block_count mc (pk_page_id k) in
      case page of
        RowPage bs \<Rightarrow> pk_kind k = RowMetadata \<and> read_row_metadata_range (mc_files mc) first count = Inr bs
      | ColumnPage bs \<Rightarrow> pk_kind k = ColumnMetadata \<and>
          read_column_metadata_range (mc_files mc) first count (mc_columns_count mc) = Inr bs
      | StatsPage x \<Rightarrow> pk_kind k = NumericStats \<and> x = stored_columns s bss (unat first) (unat count) (pk_column_idx k))"

definition mc_inv :: "schema \<Rightarrow> num_stats list list \<Rightarrow> meta_cache \<Rightarrow> bool" where
  "mc_inv s bss mc \<longleftrightarrow> lru_inv (page_ok s bss mc) (mc_pages mc) \<and> lru_within_budget (mc_pages mc) \<and>
     stats_index_ok s (length bss) (mc_stats_index mc)"

definition mc_static :: "meta_cache \<Rightarrow> 32 word \<times> 32 word \<times> 32 word \<times> sst_files \<times> sparse_index_entry list" where
  "mc_static mc = (mc_num_blocks mc, mc_columns_count mc, mc_page_blocks mc, mc_files mc, mc_sparse_index mc)"

lemma mc_static_page:
  "mc_static mc' = mc_static mc \<Longrightarrow> page_first_block mc' = page_first_block mc \<and> page_block_count mc' = page_block_count mc \<and>
     page_ok s bss mc' = page_ok s bss mc \<and> page_ids mc' = page_ids mc \<and> mc_files mc' = mc_files mc \<and>
     mc_columns_count mc' = mc_columns_count mc \<and> mc_num_blocks mc' = mc_num_blocks mc \<and> mc_page_blocks mc' = mc_page_blocks mc"
  by (auto simp: mc_static_def page_first_block_def page_block_count_def page_ok_def page_ids_def fun_eq_iff Let_def
      split: meta_page.splits)

lemma mc_hit_ok:
  assumes "mc_inv s bss mc" "lru_find k (mc_pages mc) = Some page"
  shows "mc_inv s bss (mc_hit k mc)" "mc_static (mc_hit k mc) = mc_static mc" "page_ok s bss mc k page"
proof -
  have i: "lru_inv (page_ok s bss mc) (mc_pages mc)" using assms(1) by (simp add: mc_inv_def)
  show st: "mc_static (mc_hit k mc) = mc_static mc" by (simp add: mc_static_def mc_hit_def)
  show "page_ok s bss mc k page" using lru_find_inv [OF i assms(2)] .
  show "mc_inv s bss (mc_hit k mc)"
    using lru_touch_inv [OF i assms(2)] assms(1) mc_static_page [OF st, of s bss] by (simp add: mc_inv_def) (simp add: mc_hit_def)
qed

lemma mc_put_ok:
  assumes "mc_inv s bss mc" "lru_find k (mc_pages mc) = None" "page_ok s bss mc k page"
  shows "mc_inv s bss (mc_put k page bytes mc)" "mc_static (mc_put k page bytes mc) = mc_static mc"
proof -
  have i: "lru_inv (page_ok s bss mc) (mc_pages mc)" using assms(1) by (simp add: mc_inv_def)
  show st: "mc_static (mc_put k page bytes mc) = mc_static mc" by (simp add: mc_static_def mc_put_def)
  show "mc_inv s bss (mc_put k page bytes mc)"
    using lru_insert_inv(1,2) [OF i assms(2,3)] assms(1) mc_static_page [OF st, of s bss]
    by (simp add: mc_inv_def) (simp add: mc_put_def)
qed

text \<open>A page is what the reader returns for its blocks, cached or not.\<close>

lemma get_row_page_ok:
  assumes inv: "mc_inv s bss mc"
  shows "\<exists>mc'. get_row_page p mc =
      (read_row_metadata_range (mc_files mc) (page_first_block mc p) (page_block_count mc p), mc') \<and>
    mc_inv s bss mc' \<and> mc_static mc' = mc_static mc"
proof -
  let ?k = "\<lparr>pk_kind = RowMetadata, pk_page_id = p, pk_column_idx = 0\<rparr>"
  show ?thesis
  proof (cases "lru_find ?k (mc_pages mc)")
    case (Some page)
    note h = mc_hit_ok [OF inv Some]
    from h(3) show ?thesis
      using Some h(1,2) by (auto simp: get_row_page_def page_ok_def Let_def split: meta_page.splits)
  next
    case None
    show ?thesis
    proof (cases "read_row_metadata_range (mc_files mc) (page_first_block mc p) (page_block_count mc p)")
      case (Inl e)
      then show ?thesis using None inv by (simp add: get_row_page_def)
    next
      case (Inr bs)
      then have "page_ok s bss mc ?k (RowPage bs)" by (simp add: page_ok_def Let_def)
      from mc_put_ok [OF inv None this] show ?thesis using None Inr by (simp add: get_row_page_def)
    qed
  qed
qed

lemma get_column_page_ok:
  assumes inv: "mc_inv s bss mc"
  shows "\<exists>mc'. get_column_page p mc =
      (read_column_metadata_range (mc_files mc) (page_first_block mc p) (page_block_count mc p) (mc_columns_count mc), mc') \<and>
    mc_inv s bss mc' \<and> mc_static mc' = mc_static mc"
proof -
  let ?k = "\<lparr>pk_kind = ColumnMetadata, pk_page_id = p, pk_column_idx = 0\<rparr>"
  show ?thesis
  proof (cases "lru_find ?k (mc_pages mc)")
    case (Some page)
    note h = mc_hit_ok [OF inv Some]
    from h(3) show ?thesis
      using Some h(1,2) by (auto simp: get_column_page_def page_ok_def Let_def split: meta_page.splits)
  next
    case None
    show ?thesis
    proof (cases "read_column_metadata_range (mc_files mc) (page_first_block mc p) (page_block_count mc p) (mc_columns_count mc)")
      case (Inl e)
      then show ?thesis using None inv by (simp add: get_column_page_def)
    next
      case (Inr bs)
      then have "page_ok s bss mc ?k (ColumnPage bs)" by (simp add: page_ok_def Let_def)
      from mc_put_ok [OF inv None this] show ?thesis using None Inr by (simp add: get_column_page_def)
    qed
  qed
qed

definition stats_file_of :: "schema \<Rightarrow> num_stats list list \<Rightarrow> sst_files \<Rightarrow> bool" where
  "stats_file_of s bss fs \<longleftrightarrow> (\<exists>sf. f_stats fs = Some sf \<and> stats_file_bytes s bss = Inr sf \<and> length sf < 2 ^ 63) \<and>
     length bss < 2 ^ 32 \<and> schema_size s < 2 ^ 32"

lemma get_stats_page_ok:
  assumes inv: "mc_inv s bss mc" and sf: "stats_file_of s bss (mc_files mc)"
    and r: "unat (page_first_block mc p) + unat (page_block_count mc p) \<le> length bss" "page_block_count mc p \<noteq> 0"
  shows "\<exists>mc'. get_stats_page c p mc =
      (Inr (stored_columns s bss (unat (page_first_block mc p)) (unat (page_block_count mc p)) c), mc') \<and>
    mc_inv s bss mc' \<and> mc_static mc' = mc_static mc"
proof -
  let ?k = "\<lparr>pk_kind = NumericStats, pk_page_id = p, pk_column_idx = c\<rparr>"
  let ?x = "stored_columns s bss (unat (page_first_block mc p)) (unat (page_block_count mc p)) c"
  show ?thesis
  proof (cases "lru_find ?k (mc_pages mc)")
    case (Some page)
    note h = mc_hit_ok [OF inv Some]
    from h(3) show ?thesis
      using Some h(1,2) by (auto simp: get_stats_page_def page_ok_def Let_def split: meta_page.splits)
  next
    case None
    obtain sfile where f: "f_stats (mc_files mc) = Some sfile" "stats_file_bytes s bss = Inr sfile" "length sfile < 2 ^ 63"
        and small: "length bss < 2 ^ 32" "schema_size s < 2 ^ 32"
      using sf unfolding stats_file_of_def by blast
    have st: "stats_index_ok s (length bss) (mc_stats_index mc)" using inv by (simp add: mc_inv_def)
    from read_numeric_stats_range_ok [OF f(2,1) st small f(3) r, of "[c]"] obtain sr st' where sr:
      "read_numeric_stats_range (mc_files mc) (mc_stats_index mc) (page_first_block mc p) (page_block_count mc p) [c] = (Inr sr, st')"
      "map_of (sr_by_column sr) c = ?x" "stats_index_ok s (length bss) st'" by auto
    let ?mc = "mc\<lparr>mc_stats_index := st'\<rparr>"
    have static: "mc_static ?mc = mc_static mc" by (simp add: mc_static_def)
    have inv': "mc_inv s bss ?mc" using inv sr(3) mc_static_page [OF static, of s bss] by (simp add: mc_inv_def)
    have "page_ok s bss mc ?k (StatsPage ?x)" by (simp add: page_ok_def Let_def)
    then have "page_ok s bss ?mc ?k (StatsPage ?x)" using mc_static_page [OF static, of s bss] by simp
    from mc_put_ok [OF inv' _ this] show ?thesis using None sr static by (simp add: get_stats_page_def Let_def)
  qed
qed

section \<open>Ranges of pages\<close>

definition cut :: "nat \<Rightarrow> nat \<Rightarrow> 'x list \<Rightarrow> 'x list" where
  "cut a b xs = take (b - a) (drop a xs)"

lemma le_times: "0 < P \<Longrightarrow> i \<le> i * (P :: nat)"
  by simp

lemma cut_append: "a \<le> m \<Longrightarrow> m \<le> b \<Longrightarrow> cut a m xs @ cut m b xs = cut a b xs"
  by (simp add: cut_def) (metis add_diff_assoc2 diff_add drop_drop le_add_diff_inverse take_add)

lemma cut_empty: "b \<le> a \<Longrightarrow> cut a b xs = []"
  by (simp add: cut_def)

lemma length_cut: "b \<le> length xs \<Longrightarrow> length (cut a b xs) = b - a"
  by (simp add: cut_def)

lemma nth_cut: "a + i < b \<Longrightarrow> b \<le> length xs \<Longrightarrow> cut a b xs ! i = xs ! (a + i)"
  by (simp add: cut_def)

lemma cut_cut:
  assumes "pf \<le> a" "b \<le> pe" "pe \<le> length xs"
  shows "map (\<lambda>i. cut pf pe xs ! (i - pf)) [a..<b] = cut a b xs"
  using assms by (intro nth_equalityI) (auto simp: length_cut nth_cut)

text \<open>The pieces of consecutive pages put together are the whole range; \<open>k\<close> entries per block.\<close>

lemma pages_concat:
  assumes lst: "lst \<le> n" and q: "lst \<le> q * pb" and pq: "p \<le> q"
  shows "concat (map (\<lambda>i. cut (max first (i * pb) * k) (min lst (min (Suc i * pb) n) * k) xs) [p..<q]) =
    cut (max first (p * pb) * k) (lst * k) xs"
  using pq
proof (induction "q - p" arbitrary: p)
  case 0
  then have "p = q" by simp
  then have "lst * k \<le> max first (p * pb) * k" using q by (intro mult_le_mono1) simp
  then show ?case using \<open>p = q\<close> by (simp add: cut_empty)
next
  case (Suc d)
  then have lt: "p < q" by simp
  have IH: "concat (map (\<lambda>i. cut (max first (i * pb) * k) (min lst (min (Suc i * pb) n) * k) xs) [Suc p..<q]) =
      cut (max first (Suc p * pb) * k) (lst * k) xs"
    using Suc.hyps(1) [of "Suc p"] Suc.hyps(2) lt by simp
  have m: "min lst (min (Suc p * pb) n) = min lst (Suc p * pb)" using lst by simp
  have "cut (max first (p * pb) * k) (min lst (Suc p * pb) * k) xs @ cut (max first (Suc p * pb) * k) (lst * k) xs =
      cut (max first (p * pb) * k) (lst * k) xs"
  proof (cases "lst \<le> Suc p * pb")
    case True
    then have "lst * k \<le> max first (Suc p * pb) * k" by (intro mult_le_mono1) simp
    then show ?thesis using True by (simp add: cut_empty min_absorb1 del: mult_Suc)
  next
    case False
    show ?thesis
    proof (cases "first \<le> Suc p * pb")
      case True
      then have "max first (Suc p * pb) = Suc p * pb" by simp
      moreover have "max first (p * pb) * k \<le> Suc p * pb * k" using True by (intro mult_le_mono1) simp
      moreover have "Suc p * pb * k \<le> lst * k" using False by (intro mult_le_mono1) simp
      moreover have "min lst (Suc p * pb) = Suc p * pb" using False by simp
      ultimately show ?thesis using cut_append by metis
    next
      case nf: False
      then have "max first (Suc p * pb) = first" "max first (p * pb) = first" by simp_all
      moreover have "min lst (Suc p * pb) * k \<le> first * k" using nf by (intro mult_le_mono1) simp
      ultimately show ?thesis by (simp add: cut_empty del: mult_Suc)
    qed
  qed
  moreover have "[p..<q] = p # [Suc p..<q]" using lt by (simp add: upt_conv_Cons)
  ultimately show ?case unfolding IH [symmetric] m [symmetric] by simp
qed

text \<open>Every page id of a range is a page whose arithmetic does not wrap.\<close>

lemma page_ids_ok:
  assumes pb: "mc_page_blocks mc \<noteq> 0" and lst: "unat lst \<le> unat (mc_num_blocks mc)" "unat first < unat lst"
  defines "P \<equiv> unat (mc_page_blocks mc)"
  shows "page_ids mc first lst = map word_of_nat [unat first div P ..< Suc ((unat lst - 1) div P)]"
    "i \<le> (unat lst - 1) div P \<Longrightarrow> unat (page_first_block mc (word_of_nat i)) = i * P"
    "i \<le> (unat lst - 1) div P \<Longrightarrow> i * P < unat (mc_num_blocks mc)"
    "i \<le> (unat lst - 1) div P \<Longrightarrow>
       unat (page_block_count mc (word_of_nat i)) = min P (unat (mc_num_blocks mc) - i * P)"
    "unat lst \<le> Suc ((unat lst - 1) div P) * P" "unat first div P \<le> (unat lst - 1) div P"
proof -
  have P: "0 < P" using pb by (simp add: P_def unat_gt_0)
  have l1: "unat (lst - 1) = unat lst - 1" using lst(2) by (intro unat_minus_one) auto
  show "page_ids mc first lst = map word_of_nat [unat first div P ..< Suc ((unat lst - 1) div P)]"
    by (simp add: page_ids_def unat_div_distrib l1 P_def)
  show "unat lst \<le> Suc ((unat lst - 1) div P) * P"
    using dividend_less_div_times [OF P, of "unat lst - 1"] lst(2) by simp
  show "unat first div P \<le> (unat lst - 1) div P" using lst(2) by (intro div_le_mono) simp
  assume i: "i \<le> (unat lst - 1) div P"
  then have "i * P \<le> (unat lst - 1) div P * P" by (intro mult_le_mono1)
  also have "\<dots> \<le> unat lst - 1" by simp
  finally have ip: "i * P \<le> unat lst - 1" .
  then show iN: "i * P < unat (mc_num_blocks mc)" using lst by simp
  then have ip32: "i * P < 2 ^ 32" using unat_less_32 [of "mc_num_blocks mc"] by simp
  have "i \<le> i * P" using P by (rule le_times)
  then have i32: "i < 2 ^ 32" using ip32 by linarith
  show pf: "unat (page_first_block mc (word_of_nat i)) = i * P"
    using ip32 i32 by (simp add: page_first_block_def unat_word_ariths unat_of_nat_32 P_def)
  have nge: "\<not> page_first_block mc (word_of_nat i) \<ge> mc_num_blocks mc" using pf iN by (simp add: word_le_nat_alt)
  then have "unat (mc_num_blocks mc - page_first_block mc (word_of_nat i)) = unat (mc_num_blocks mc) - i * P"
    using pf by (subst unat_sub) simp_all
  then show "unat (page_block_count mc (word_of_nat i)) = min P (unat (mc_num_blocks mc) - i * P)"
    using nge by (simp add: page_block_count_def Let_def min_def word_le_nat_alt P_def)
qed

lemma page_loop_ok:
  assumes "\<And>x s. x \<in> set ps \<Longrightarrow> I s \<Longrightarrow> \<exists>s'. f x s = (Inr (g x), s') \<and> I s'" "I s"
  shows "\<exists>s'. page_loop f ps s = (Inr (concat (map g ps)), s') \<and> I s'"
  using assms
proof (induction ps arbitrary: s)
  case (Cons p ps)
  obtain s1 where s1: "f p s = (Inr (g p), s1)" "I s1" using Cons.prems(1) [of p s] Cons.prems(2) by auto
  obtain s2 where "page_loop f ps s1 = (Inr (concat (map g ps)), s2)" "I s2" using Cons.IH [of s1] Cons.prems(1) s1(2) by auto
  with s1 show ?case by simp
qed simp

text \<open>The range a request names, when it is inside the table.\<close>

lemma range_bounds:
  assumes "unat first + unat count \<le> unat n" "(count :: 32 word) \<noteq> 0"
  shows "unat (first + count) = unat first + unat count" "\<not> (first + count > n \<or> first + count < first)"
    "unat first < unat (first + count)" "unat (first + count) \<le> unat n"
proof -
  have "unat first + unat count < 2 ^ 32" using assms(1) unat_less_32 [of n] by linarith
  then show u: "unat (first + count) = unat first + unat count" by (simp add: unat_word_ariths)
  show "\<not> (first + count > n \<or> first + count < first)" using u assms(1) by (auto simp: word_less_nat_alt)
  show "unat first < unat (first + count)" using u assms(2) by (simp add: unat_gt_0)
  show "unat (first + count) \<le> unat n" using u assms(1) by simp
qed

lemma copy_blocks_cut:
  assumes "page = cut pf pe xs" "unat page_first = pf" "pe \<le> length xs" "pf \<le> unat a" "unat b \<le> pe"
  shows "copy_blocks page page_first a b = cut (unat a) (unat b) xs"
  using cut_cut [OF assms(4,5,3)] assms(1,2) by (simp add: copy_blocks_def)

lemma unat_max32: "unat (max a b :: 32 word) = max (unat a) (unat b)"
  by (simp add: max_def word_le_nat_alt)

lemma unat_min32: "unat (min a b :: 32 word) = min (unat a) (unat b)"
  by (simp add: min_def word_le_nat_alt)

definition page_piece :: "nat \<Rightarrow> nat \<Rightarrow> nat \<Rightarrow> nat \<Rightarrow> nat \<Rightarrow> 'x list \<Rightarrow> 32 word \<Rightarrow> 'x list" where
  "page_piece first lst pb n k xs w =
     cut (max first (unat w * pb) * k) (min lst (min (Suc (unat w) * pb) n) * k) xs"

lemma page_facts:
  assumes pb: "mc_page_blocks mc \<noteq> 0" and lst: "unat lst \<le> unat (mc_num_blocks mc)" "unat first < unat lst"
    and w: "w \<in> set (page_ids mc first lst)"
  defines "P \<equiv> unat (mc_page_blocks mc)" and "n \<equiv> unat (mc_num_blocks mc)"
  shows "unat (page_first_block mc w) = unat w * P" "unat w * P < n"
    "unat (page_block_count mc w) = min (Suc (unat w) * P) n - unat w * P" "unat w * P < unat lst"
proof -
  note ids = page_ids_ok [OF pb lst, folded P_def n_def]
  obtain i where i: "w = word_of_nat i" "i \<le> (unat lst - 1) div P" using w ids(1) by auto
  have "i \<le> i * P" using pb by (intro le_times) (simp add: P_def unat_gt_0)
  then have "i < 2 ^ 32" using ids(3) [OF i(2)] unat_less_32 [of "mc_num_blocks mc"] unfolding n_def by linarith
  then have iw: "unat w = i" by (simp add: i(1) unat_of_nat_32)
  show "unat (page_first_block mc w) = unat w * P" "unat w * P < n"
    using ids(2,3) [OF i(2)] unfolding iw by (simp_all add: i(1))
  have "min P (n - i * P) = min (Suc i * P) n - i * P" using ids(3) [OF i(2)] by (simp add: min_def) linarith
  then show "unat (page_block_count mc w) = min (Suc (unat w) * P) n - unat w * P"
    using ids(4) [OF i(2)] unfolding iw by (simp add: i(1))
  have "i * P \<le> (unat lst - 1) div P * P" using i(2) by (intro mult_le_mono1)
  also have "\<dots> \<le> unat lst - 1" by simp
  finally show "unat w * P < unat lst" using lst(2) unfolding iw by simp
qed

lemma page_ids_concat:
  assumes pb: "mc_page_blocks mc \<noteq> 0" and lst: "unat lst \<le> unat (mc_num_blocks mc)" "unat first < unat lst"
  shows "concat (map (page_piece (unat first) (unat lst) (unat (mc_page_blocks mc)) (unat (mc_num_blocks mc)) k xs)
      (page_ids mc first lst)) = cut (unat first * k) (unat lst * k) xs"
proof -
  define P where "P = unat (mc_page_blocks mc)"
  define n where "n = unat (mc_num_blocks mc)"
  note ids = page_ids_ok [OF pb lst, folded P_def n_def]
  have "unat (word_of_nat i :: 32 word) = i" if "i \<le> (unat lst - 1) div P" for i
  proof -
    have "i \<le> i * P" using pb by (intro le_times) (simp add: P_def unat_gt_0)
    then have "i < 2 ^ 32" using ids(3) [OF that] unat_less_32 [of "mc_num_blocks mc"] unfolding n_def by linarith
    then show ?thesis by (simp add: unat_of_nat_32)
  qed
  then have "map (page_piece (unat first) (unat lst) P n k xs) (page_ids mc first lst) =
      map (\<lambda>i. cut (max (unat first) (i * P) * k) (min (unat lst) (min (Suc i * P) n) * k) xs)
        [unat first div P ..< Suc ((unat lst - 1) div P)]"
    unfolding ids(1) by (auto simp: page_piece_def)
  also have "concat \<dots> = cut (max (unat first) (unat first div P * P) * k) (unat lst * k) xs"
    using ids(5,6) lst by (intro pages_concat) (simp_all add: n_def)
  finally show ?thesis by (simp add: max_absorb1 P_def n_def)
qed

text \<open>One page of a range, read from a list with one element per block.\<close>

lemma copy_page_piece:
  assumes pb: "mc_page_blocks mc \<noteq> 0" and lst: "unat lst \<le> unat (mc_num_blocks mc)" "unat first < unat lst"
    and w: "w \<in> set (page_ids mc first lst)" and n: "length xs = unat (mc_num_blocks mc)"
    and page: "page = take (unat (page_block_count mc w)) (drop (unat (page_first_block mc w)) xs)"
  shows "copy_blocks page (page_first_block mc w) (max first (page_first_block mc w))
      (min lst (page_first_block mc w + word_of_nat (length page))) =
    page_piece (unat first) (unat lst) (unat (mc_page_blocks mc)) (unat (mc_num_blocks mc)) 1 xs w"
proof -
  note f = page_facts [OF pb lst w]
  let ?pf = "page_first_block mc w"
  define pe where "pe = min (Suc (unat w) * unat (mc_page_blocks mc)) (unat (mc_num_blocks mc))"
  have pe: "unat ?pf \<le> pe" "pe \<le> length xs" using f(1,2) n by (simp_all add: pe_def)
  have pg: "page = cut (unat ?pf) pe xs" using page f(1,3) by (simp add: cut_def pe_def)
  have "pe < 2 ^ 32" using pe(2) n unat_less_32 [of "mc_num_blocks mc"] by simp
  then have pew: "unat (?pf + word_of_nat (length page)) = pe"
    using pe by (simp add: pg unat_word_ariths length_cut unat_of_nat_32)
  have "unat ?pf \<le> unat (max first ?pf)" by (simp add: unat_max32)
  moreover have "unat (min lst (?pf + word_of_nat (length page))) \<le> pe" unfolding unat_min32 pew by simp
  ultimately have "copy_blocks page ?pf (max first ?pf) (min lst (?pf + word_of_nat (length page))) =
      cut (unat (max first ?pf)) (unat (min lst (?pf + word_of_nat (length page)))) xs"
    by (rule copy_blocks_cut [OF pg refl pe(2)])
  then show ?thesis unfolding unat_max32 unat_min32 pew page_piece_def mult_1_right f(1) pe_def .
qed

definition mc_step_ok :: "schema \<Rightarrow> num_stats list list \<Rightarrow> meta_cache \<Rightarrow> meta_cache \<Rightarrow> bool" where
  "mc_step_ok s bss mc mc' \<longleftrightarrow> mc_inv s bss mc' \<and> mc_static mc' = mc_static mc"

lemma mc_read_row_metadata_range_ok:
  assumes inv: "mc_inv s bss mc" and pb: "mc_page_blocks mc \<noteq> 0"
    and meta: "f_meta (mc_files mc) = Some (concat (map enc_row_meta metas))"
      "length (concat (map enc_row_meta metas)) < 2 ^ 63" "length metas = unat (mc_num_blocks mc)"
    and r: "unat first + unat count \<le> length metas"
  shows "\<exists>mc'. mc_read_row_metadata_range first count mc =
      (Inr (take (unat count) (drop (unat first) metas)), mc') \<and> mc_step_ok s bss mc mc'"
proof (cases "count = 0")
  case True
  then show ?thesis using inv by (simp add: mc_read_row_metadata_range_def mc_step_ok_def)
next
  case False
  define lst where "lst = first + count"
  have b: "unat lst = unat first + unat count" "\<not> (lst > mc_num_blocks mc \<or> lst < first)"
      "unat first < unat lst" "unat lst \<le> unat (mc_num_blocks mc)"
    using range_bounds [of first count "mc_num_blocks mc"] r meta(3) False by (simp_all add: lst_def)
  let ?g = "page_piece (unat first) (unat lst) (unat (mc_page_blocks mc)) (unat (mc_num_blocks mc)) 1 metas"
  have step: "\<exists>mc2. mc_row_page first lst w mc1 = (Inr (?g w), mc2) \<and> mc_step_ok s bss mc mc2"
    if w: "w \<in> set (page_ids mc first lst)" and I1: "mc_step_ok s bss mc mc1" for w mc1
  proof -
    have i1: "mc_inv s bss mc1" and st: "mc_static mc1 = mc_static mc" using I1 by (simp_all add: mc_step_ok_def)
    note stp = mc_static_page [OF st, of s bss] and f = page_facts [OF pb b(4,3) w]
    let ?page = "take (unat (page_block_count mc w)) (drop (unat (page_first_block mc w)) metas)"
    have "unat (page_first_block mc w) + unat (page_block_count mc w) \<le> length metas" using f meta(3) by simp
    then have "read_row_metadata_range (mc_files mc) (page_first_block mc w) (page_block_count mc w) = Inr ?page"
      using read_row_metadata_range_ok [OF meta(1,2)] by blast
    then obtain mc2 where mc2: "get_row_page w mc1 = (Inr ?page, mc2)" "mc_inv s bss mc2" "mc_static mc2 = mc_static mc1"
      using get_row_page_ok [OF i1, of w] stp by auto
    then have "mc_row_page first lst w mc1 = (Inr (?g w), mc2)"
      using copy_page_piece [OF pb b(4,3) w meta(3) refl] stp by (simp add: mc_row_page_def Let_def)
    then show ?thesis using mc2(2,3) st by (simp add: mc_step_ok_def)
  qed
  have "mc_step_ok s bss mc mc" using inv by (simp add: mc_step_ok_def)
  from page_loop_ok [of "page_ids mc first lst" "mc_step_ok s bss mc" "mc_row_page first lst" ?g, OF step this]
  obtain mc' where mc': "page_loop (mc_row_page first lst) (page_ids mc first lst) mc =
      (Inr (concat (map ?g (page_ids mc first lst))), mc')" "mc_step_ok s bss mc mc'" by blast
  have "concat (map ?g (page_ids mc first lst)) = take (unat count) (drop (unat first) metas)"
    using page_ids_concat [OF pb b(4,3), of 1 metas] b(1) by (simp add: cut_def)
  moreover have "mc_read_row_metadata_range first count mc = page_loop (mc_row_page first lst) (page_ids mc first lst) mc"
    using False b(2) by (simp add: mc_read_row_metadata_range_def Let_def lst_def)
  ultimately show ?thesis using mc' by simp
qed

lemma map_nth_cut:
  assumes "A + b \<le> B" "B \<le> length xs"
  shows "map (\<lambda>i. cut A B xs ! i) [a..<b] = cut (A + a) (A + b) xs"
  using assms by (intro nth_equalityI) (auto simp: length_cut nth_cut add.assoc)

text \<open>The same for a list with a row of \<open>nc\<close> entries per block.\<close>

lemma column_page_piece:
  assumes pb: "mc_page_blocks mc \<noteq> 0" and lst: "unat lst \<le> unat (mc_num_blocks mc)" "unat first < unat lst"
    and w: "w \<in> set (page_ids mc first lst)" and n: "length xs = unat (mc_num_blocks mc) * nc"
    and page: "page = take (unat (page_block_count mc w) * nc) (drop (unat (page_first_block mc w) * nc) xs)"
  shows "map (\<lambda>i. page ! i) [unat (max first (page_first_block mc w) - page_first_block mc w) * nc ..<
      unat (min lst (page_first_block mc w + page_block_count mc w) - page_first_block mc w) * nc] =
    page_piece (unat first) (unat lst) (unat (mc_page_blocks mc)) (unat (mc_num_blocks mc)) nc xs w"
proof -
  note f = page_facts [OF pb lst w]
  let ?pf = "page_first_block mc w" and ?pc = "page_block_count mc w"
  define pe where "pe = min (Suc (unat w) * unat (mc_page_blocks mc)) (unat (mc_num_blocks mc))"
  have pe: "unat ?pf \<le> pe" "pe \<le> unat (mc_num_blocks mc)" "unat ?pf < unat lst" using f(1,2,4) by (simp_all add: pe_def)
  then have pen: "pe * nc \<le> length xs" unfolding n by (intro mult_le_mono1)
  have pc: "unat ?pf + unat ?pc = pe" using f(1,3) pe(1) by (simp add: pe_def)
  have pg: "page = cut (unat ?pf * nc) (pe * nc) xs"
    using page pc by (simp add: cut_def flip: pc add_mult_distrib diff_mult_distrib)
  have "pe < 2 ^ 32" using pe(2) unat_less_32 [of "mc_num_blocks mc"] by simp
  then have pew: "unat (?pf + ?pc) = pe" using pc by (simp add: unat_word_ariths)
  have u1: "unat (max first ?pf - ?pf) = max (unat first) (unat ?pf) - unat ?pf"
    by (subst unat_sub) (simp_all add: unat_max32)
  have "?pf \<le> min lst (?pf + ?pc)" using pe(1,3) pew by (simp add: word_le_nat_alt unat_min32)
  then have u2: "unat (min lst (?pf + ?pc) - ?pf) = min (unat lst) pe - unat ?pf"
    by (subst unat_sub) (simp_all add: unat_min32 pew)
  have e1: "unat ?pf * nc + (max (unat first) (unat ?pf) - unat ?pf) * nc = max (unat first) (unat ?pf) * nc"
    by (simp flip: add_mult_distrib)
  have e2: "unat ?pf * nc + (min (unat lst) pe - unat ?pf) * nc = min (unat lst) pe * nc"
    using pe(1,3) by (simp flip: add_mult_distrib)
  have "min (unat lst) pe * nc \<le> pe * nc" by (intro mult_le_mono1) simp
  then show ?thesis
    unfolding u1 u2 pg
    using map_nth_cut [of "unat ?pf * nc" "(min (unat lst) pe - unat ?pf) * nc" "pe * nc" xs
        "(max (unat first) (unat ?pf) - unat ?pf) * nc", OF _ pen] e1 e2
    by (simp add: page_piece_def pe_def f(1))
qed

lemma mc_read_column_metadata_range_ok:
  assumes inv: "mc_inv s bss mc" and pb: "mc_page_blocks mc \<noteq> 0"
    and meta: "f_meta (mc_files mc) = Some (concat (map enc_col_meta metas))"
      "length (concat (map enc_col_meta metas)) < 2 ^ 63"
      "length metas = unat (mc_num_blocks mc) * unat (mc_columns_count mc)"
    and r: "unat first + unat count \<le> unat (mc_num_blocks mc)"
  shows "\<exists>mc'. mc_read_column_metadata_range first count mc =
      (Inr (take (unat count * unat (mc_columns_count mc)) (drop (unat first * unat (mc_columns_count mc)) metas)), mc') \<and>
    mc_step_ok s bss mc mc'"
proof (cases "count = 0 \<or> mc_columns_count mc = 0")
  case True
  then show ?thesis using inv by (auto simp: mc_read_column_metadata_range_def mc_step_ok_def)
next
  case False
  define lst where "lst = first + count"
  let ?nc = "unat (mc_columns_count mc)"
  have b: "unat lst = unat first + unat count" "\<not> (lst > mc_num_blocks mc \<or> lst < first)"
      "unat first < unat lst" "unat lst \<le> unat (mc_num_blocks mc)"
    using range_bounds [of first count "mc_num_blocks mc"] r False by (simp_all add: lst_def)
  let ?g = "page_piece (unat first) (unat lst) (unat (mc_page_blocks mc)) (unat (mc_num_blocks mc)) ?nc metas"
  have step: "\<exists>mc2. mc_column_page first lst w mc1 = (Inr (?g w), mc2) \<and> mc_step_ok s bss mc mc2"
    if w: "w \<in> set (page_ids mc first lst)" and I1: "mc_step_ok s bss mc mc1" for w mc1
  proof -
    have i1: "mc_inv s bss mc1" and st: "mc_static mc1 = mc_static mc" using I1 by (simp_all add: mc_step_ok_def)
    note stp = mc_static_page [OF st, of s bss] and f = page_facts [OF pb b(4,3) w]
    let ?page = "take (unat (page_block_count mc w) * ?nc) (drop (unat (page_first_block mc w) * ?nc) metas)"
    have "unat (page_first_block mc w) + unat (page_block_count mc w) \<le> unat (mc_num_blocks mc)" using f by simp
    then have "(unat (page_first_block mc w) + unat (page_block_count mc w)) * ?nc \<le> length metas"
      unfolding meta(3) by (intro mult_le_mono1)
    then have "read_column_metadata_range (mc_files mc) (page_first_block mc w) (page_block_count mc w) (mc_columns_count mc) = Inr ?page"
      using read_column_metadata_range_ok [OF meta(1,2)] by blast
    then obtain mc2 where mc2: "get_column_page w mc1 = (Inr ?page, mc2)" "mc_inv s bss mc2" "mc_static mc2 = mc_static mc1"
      using get_column_page_ok [OF i1, of w] stp by auto
    then have "mc_column_page first lst w mc1 = (Inr (?g w), mc2)"
      using column_page_piece [OF pb b(4,3) w meta(3) refl] stp by (simp add: mc_column_page_def Let_def)
    then show ?thesis using mc2(2,3) st by (simp add: mc_step_ok_def)
  qed
  have "mc_step_ok s bss mc mc" using inv by (simp add: mc_step_ok_def)
  from page_loop_ok [of "page_ids mc first lst" "mc_step_ok s bss mc" "mc_column_page first lst" ?g, OF step this]
  obtain mc' where mc': "page_loop (mc_column_page first lst) (page_ids mc first lst) mc =
      (Inr (concat (map ?g (page_ids mc first lst))), mc')" "mc_step_ok s bss mc mc'" by blast
  have "concat (map ?g (page_ids mc first lst)) = take (unat count * ?nc) (drop (unat first * ?nc) metas)"
    using page_ids_concat [OF pb b(4,3), of ?nc metas] b(1) by (simp add: cut_def flip: diff_mult_distrib)
  moreover have "mc_read_column_metadata_range first count mc = page_loop (mc_column_page first lst) (page_ids mc first lst) mc"
    using False b(2) by (simp add: mc_read_column_metadata_range_def Let_def lst_def)
  ultimately show ?thesis using mc' by simp
qed

section \<open>Statistics through the cache\<close>

lemma stored_range_cut: "stored_range c ty bss f n = take n (drop f (map (stored_stat c ty) bss))"
  by (simp add: stored_range_def take_map drop_map)

lemma mc_stats_pages_ok:
  fixes c :: nat
  assumes pb: "mc_page_blocks mc \<noteq> 0" and lst: "unat lst \<le> unat (mc_num_blocks mc)" "unat first < unat lst"
    and sf: "stats_file_of s bss (mc_files mc)" and n: "length bss = unat (mc_num_blocks mc)"
  defines "g \<equiv> \<lambda>ty. page_piece (unat first) (unat lst) (unat (mc_page_blocks mc)) (unat (mc_num_blocks mc)) 1
    (map (stored_stat c ty) bss)"
  shows "set ps \<subseteq> set (page_ids mc first lst) \<Longrightarrow> ps \<noteq> [] \<or> map_of (stats_columns s) c \<noteq> None \<Longrightarrow> mc_step_ok s bss mc mc1 \<Longrightarrow>
    \<exists>mc2. mc_stats_pages first lst c ps mc1 =
      (Inr (map_option (\<lambda>ty. concat (map (g ty) ps)) (map_of (stats_columns s) c)), mc2) \<and> mc_step_ok s bss mc mc2"
proof (induction ps arbitrary: mc1)
  case Nil
  then show ?case by auto
next
  case (Cons w ps)
  have i1: "mc_inv s bss mc1" and st: "mc_static mc1 = mc_static mc" using Cons.prems(3) by (simp_all add: mc_step_ok_def)
  have w: "w \<in> set (page_ids mc first lst)" using Cons.prems(1) by simp
  note stp = mc_static_page [OF st, of s bss] and f = page_facts [OF pb lst w]
  have r: "unat (page_first_block mc w) + unat (page_block_count mc w) \<le> length bss" using f n by simp
  have "min (Suc (unat w) * unat (mc_page_blocks mc)) (unat (mc_num_blocks mc)) > unat w * unat (mc_page_blocks mc)"
    using f(2) pb by (simp add: unat_gt_0)
  then have "page_block_count mc w \<noteq> 0" using f(3) by auto
  with get_stats_page_ok [OF i1, of w c] sf r stp obtain mc2 where mc2:
    "get_stats_page c w mc1 = (Inr (stored_columns s bss (unat (page_first_block mc w)) (unat (page_block_count mc w)) c), mc2)"
    "mc_inv s bss mc2" "mc_static mc2 = mc_static mc1" by auto
  have ok2: "mc_step_ok s bss mc mc2" using mc2(2,3) st by (simp add: mc_step_ok_def)
  show ?case
  proof (cases "map_of (stats_columns s) c")
    case None
    then show ?thesis using mc2(1) ok2 by (simp add: stored_columns_def)
  next
    case (Some ty)
    let ?page = "stored_range c ty bss (unat (page_first_block mc w)) (unat (page_block_count mc w))"
    obtain mc3 where mc3: "mc_stats_pages first lst c ps mc2 = (Inr (Some (concat (map (g ty) ps))), mc3)" "mc_step_ok s bss mc mc3"
      using Cons.IH [of mc2] Cons.prems(1) ok2 Some by auto
    have "copy_blocks ?page (page_first_block mc w) (max first (page_first_block mc w))
        (min lst (page_first_block mc w + word_of_nat (length ?page))) = g ty w"
      unfolding g_def by (rule copy_page_piece [OF pb lst w]) (simp_all add: n stored_range_cut)
    then show ?thesis using mc2(1) mc3 Some stp by (simp add: stored_columns_def Let_def)
  qed
qed

lemma mc_stats_columns_ok:
  assumes pb: "mc_page_blocks mc \<noteq> 0" and lst: "unat lst \<le> unat (mc_num_blocks mc)" "unat (sr_first r) < unat lst"
    and sf: "stats_file_of s bss (mc_files mc)" and n: "length bss = unat (mc_num_blocks mc)"
    and cnt: "unat lst = unat (sr_first r) + unat (sr_count r)"
  shows "mc_step_ok s bss mc mc1 \<Longrightarrow>
    \<exists>r' mc2. mc_stats_columns (page_ids mc (sr_first r) lst) lst r cols mc1 = (Inr r', mc2) \<and> mc_step_ok s bss mc mc2 \<and>
      sr_first r' = sr_first r \<and> sr_count r' = sr_count r \<and>
      (\<forall>c. map_of (sr_by_column r') c =
        (case map_of (sr_by_column r) c of Some x \<Rightarrow> Some x
         | None \<Rightarrow> if c \<in> set cols then stored_columns s bss (unat (sr_first r)) (unat (sr_count r)) c else None))"
  using lst(2) cnt
proof (induction cols arbitrary: r mc1)
  case Nil
  then show ?case by (auto split: option.splits)
next
  case (Cons a cols)
  let ?ids = "page_ids mc (sr_first r) lst"
  have ne: "?ids \<noteq> []" using page_ids_ok(1,6) [OF pb lst(1) Cons.prems(2)] by simp
  from mc_stats_pages_ok [OF pb lst(1) Cons.prems(2) sf n, of ?ids a mc1] ne Cons.prems(1) obtain mc2 where mc2:
    "mc_stats_pages (sr_first r) lst a ?ids mc1 = (Inr (map_option (\<lambda>ty. concat (map (page_piece (unat (sr_first r)) (unat lst)
       (unat (mc_page_blocks mc)) (unat (mc_num_blocks mc)) 1 (map (stored_stat a ty) bss)) ?ids)) (map_of (stats_columns s) a)), mc2)"
    "mc_step_ok s bss mc mc2" by blast
  have cat: "concat (map (page_piece (unat (sr_first r)) (unat lst) (unat (mc_page_blocks mc)) (unat (mc_num_blocks mc)) 1
      (map (stored_stat a ty) bss)) ?ids) = stored_range a ty bss (unat (sr_first r)) (unat (sr_count r))" for ty
    using page_ids_concat [OF pb lst(1) Cons.prems(2), of 1 "map (stored_stat a ty) bss"] Cons.prems(3)
    by (simp add: stored_range_cut cut_def)
  let ?x = "stored_columns s bss (unat (sr_first r)) (unat (sr_count r)) a"
  have pages: "mc_stats_pages (sr_first r) lst a ?ids mc1 = (Inr ?x, mc2)"
    using mc2(1) unfolding cat stored_columns_def .
  define r2 where "r2 = (case ?x of None \<Rightarrow> r | Some sts \<Rightarrow> if map_of (sr_by_column r) a \<noteq> None then r
      else r\<lparr>sr_by_column := sr_by_column r @ [(a, sts)]\<rparr>)"
  have r2: "sr_first r2 = sr_first r" "sr_count r2 = sr_count r"
    "map_of (sr_by_column r2) c = (case map_of (sr_by_column r) c of Some x \<Rightarrow> Some x
       | None \<Rightarrow> if c = a then ?x else None)" for c
    by (auto simp: r2_def map_add_def split: option.splits)
  have step: "mc_stats_columns ?ids lst r (a # cols) mc1 = mc_stats_columns ?ids lst r2 cols mc2"
    using pages by (simp add: r2_def split: option.split)
  from Cons.IH [OF mc2(2), of r2] Cons.prems(2,3) obtain r' mc3 where r':
    "mc_stats_columns ?ids lst r2 cols mc2 = (Inr r', mc3)" "mc_step_ok s bss mc mc3"
    "sr_first r' = sr_first r" "sr_count r' = sr_count r"
    "\<And>c. map_of (sr_by_column r') c = (case map_of (sr_by_column r2) c of Some x \<Rightarrow> Some x
       | None \<Rightarrow> if c \<in> set cols then stored_columns s bss (unat (sr_first r)) (unat (sr_count r)) c else None)"
    unfolding r2(1,2) by blast
  have "\<forall>c. map_of (sr_by_column r') c = (case map_of (sr_by_column r) c of Some x \<Rightarrow> Some x
       | None \<Rightarrow> if c \<in> set (a # cols) then stored_columns s bss (unat (sr_first r)) (unat (sr_count r)) c else None)"
    by (auto simp: r'(5) r2(3) split: option.splits)
  then show ?case unfolding step using r'(1-4) by blast
qed

lemma mc_read_numeric_stats_range_ok:
  assumes inv: "mc_inv s bss mc" and pb: "mc_page_blocks mc \<noteq> 0"
    and sf: "stats_file_of s bss (mc_files mc)" and n: "length bss = unat (mc_num_blocks mc)"
    and r: "unat first + unat count \<le> length bss"
  shows "\<exists>r mc'. mc_read_numeric_stats_range first count cols mc = (Inr r, mc') \<and> mc_step_ok s bss mc mc' \<and>
    sr_first r = first \<and> sr_count r = count \<and>
    (count \<noteq> 0 \<longrightarrow> (\<forall>c. map_of (sr_by_column r) c =
       (if c \<in> set cols then stored_columns s bss (unat first) (unat count) c else None)))"
proof (cases "count = 0 \<or> cols = []")
  case True
  then show ?thesis using inv by (auto simp: mc_read_numeric_stats_range_def mc_step_ok_def)
next
  case False
  define lst where "lst = first + count"
  have b: "unat lst = unat first + unat count" "\<not> (lst > mc_num_blocks mc \<or> lst < first)"
      "unat first < unat lst" "unat lst \<le> unat (mc_num_blocks mc)"
    using range_bounds [of first count "mc_num_blocks mc"] r n False by (simp_all add: lst_def)
  let ?r = "\<lparr>sr_first = first, sr_count = count, sr_by_column = []\<rparr>"
  have "mc_step_ok s bss mc mc" using inv by (simp add: mc_step_ok_def)
  from mc_stats_columns_ok [OF pb b(4) _ sf n _ this, of ?r cols] b(1,3) obtain r' mc' where
    "mc_stats_columns (page_ids mc first lst) lst ?r cols mc = (Inr r', mc')" "mc_step_ok s bss mc mc'"
    "sr_first r' = first" "sr_count r' = count"
    "\<forall>c. map_of (sr_by_column r') c = (if c \<in> set cols then stored_columns s bss (unat first) (unat count) c else None)"
    by auto
  moreover have "mc_read_numeric_stats_range first count cols mc = mc_stats_columns (page_ids mc first lst) lst ?r cols mc"
    using False b(2) by (simp add: mc_read_numeric_stats_range_def Let_def lst_def)
  ultimately show ?thesis by auto
qed

lemma SSTableMetadataCache_inv:
  assumes "SSTableMetadataCache info fs cc pb mx = Inr mc"
  shows "mc_inv s bss mc" "mc_page_blocks mc = pb" "pb \<noteq> 0" "mc_files mc = fs" "mc_num_blocks mc = in_num_blocks info"
    "mc_columns_count mc = cc" "read_sparse_index fs = Inr (mc_sparse_index mc)"
proof -
  obtain ix where ix: "read_sparse_index fs = Inr ix"
    using assms by (cases "read_sparse_index fs") (auto simp: SSTableMetadataCache_def split: if_splits)
  with assms show "mc_inv s bss mc" "mc_page_blocks mc = pb" "pb \<noteq> 0" "mc_files mc = fs" "mc_num_blocks mc = in_num_blocks info"
    "mc_columns_count mc = cc" "read_sparse_index fs = Inr (mc_sparse_index mc)"
    by (auto simp: SSTableMetadataCache_def mc_inv_def lru_inv_empty stats_index_ok_def fresh_stats_index_def
        lru_within_budget_empty split: if_splits)
qed

section \<open>Properties\<close>

text \<open>C33: Reading block metadata of a row table through the page cache, whatever it holds and evicts, gives
  what the reader gives without a cache, and leaves the cache consistent with the file.\<close>

theorem row_metadata_cache_transparent:
  assumes "mc_inv s bss mc" "mc_page_blocks mc \<noteq> 0"
    and "f_meta (mc_files mc) = Some (concat (map enc_row_meta metas))"
    and "length (concat (map enc_row_meta metas)) < 2 ^ 63" "length metas = unat (mc_num_blocks mc)"
    and "unat first + unat count \<le> length metas"
  shows "fst (mc_read_row_metadata_range first count mc) = read_row_metadata_range (mc_files mc) first count \<and>
    mc_inv s bss (snd (mc_read_row_metadata_range first count mc))"
  using mc_read_row_metadata_range_ok [OF assms] read_row_metadata_range_ok [OF assms(3,4,6)]
  by (auto simp: mc_step_ok_def)

text \<open>C34: Reading the statistics of blocks through the page cache gives, for every column, the statistics the
  reader gives without a cache.\<close>

theorem statistics_cache_transparent:
  assumes "mc_inv s bss mc" "mc_page_blocks mc \<noteq> 0" "stats_file_of s bss (mc_files mc)" "length bss = unat (mc_num_blocks mc)"
    and "unat first + unat count \<le> length bss" "count \<noteq> 0"
  shows "\<exists>r mc' r' st. mc_read_numeric_stats_range first count cols mc = (Inr r, mc') \<and> mc_inv s bss mc' \<and>
    read_numeric_stats_range (mc_files mc) fresh_stats_index first count cols = (Inr r', st) \<and>
    map_of (sr_by_column r) = map_of (sr_by_column r')"
proof -
  obtain sf where sf: "f_stats (mc_files mc) = Some sf" "stats_file_bytes s bss = Inr sf" "length sf < 2 ^ 63"
      "length bss < 2 ^ 32" "schema_size s < 2 ^ 32"
    using assms(3) by (auto simp: stats_file_of_def)
  have fresh: "stats_index_ok s (length bss) fresh_stats_index" by (simp add: stats_index_ok_def fresh_stats_index_def)
  obtain r' st where r': "read_numeric_stats_range (mc_files mc) fresh_stats_index first count cols = (Inr r', st)"
      "\<forall>c. map_of (sr_by_column r') c = (if c \<in> set cols then stored_columns s bss (unat first) (unat count) c else None)"
    using read_numeric_stats_range_ok [OF sf(2,1) fresh sf(4,5,3) assms(5,6), of cols] by blast
  obtain r mc' where r: "mc_read_numeric_stats_range first count cols mc = (Inr r, mc')" "mc_step_ok s bss mc mc'"
      "\<forall>c. map_of (sr_by_column r) c = (if c \<in> set cols then stored_columns s bss (unat first) (unat count) c else None)"
    using mc_read_numeric_stats_range_ok [OF assms(1-5), of cols] assms(6) by blast
  have "map_of (sr_by_column r) = map_of (sr_by_column r')" using r(3) r'(2) by (intro ext) simp
  then show ?thesis using r r' by (auto simp: mc_step_ok_def)
qed

definition sample_metas :: "row_block_meta list" where
  "sample_metas = [\<lparr>rbm_min = I64 1, rbm_max = I64 1, rbm_offset = 0, rbm_size = 23, rbm_count = 1, rbm_block_id = 0\<rparr>,
     \<lparr>rbm_min = I64 5, rbm_max = I64 5, rbm_offset = 23, rbm_size = 23, rbm_count = 1, rbm_block_id = 1\<rparr>]"

definition sample_files :: "byte list \<Rightarrow> sst_files" where
  "sample_files sf = \<lparr>f_data = Some [], f_meta = Some (concat (map enc_row_meta sample_metas)), f_index = Some [],
     f_info = None, f_stats = Some sf\<rparr>"

definition sample_info :: sst_info where
  "sample_info = \<lparr>in_id = 0, in_path = ''sst_0'', in_level = 0, in_min = I64 1, in_max = I64 5, in_size = 46,
     in_num_blocks = 2, in_layout = ROW\<rparr>"

text \<open>A cache over two blocks with pages of one block and room for one page.\<close>

lemma sample_cache:
  "\<exists>sf mc. stats_file_bytes sample_schema sample_stats = Inr sf \<and>
     SSTableMetadataCache sample_info (sample_files sf) 3 1 40 = Inr mc \<and> mc_inv sample_schema sample_stats mc \<and>
     mc_page_blocks mc = 1 \<and> mc_files mc = sample_files sf \<and> mc_num_blocks mc = 2 \<and>
     stats_file_of sample_schema sample_stats (sample_files sf)"
proof -
  have e: "case stats_file_bytes sample_schema sample_stats of Inr sf \<Rightarrow> length sf = 67 | Inl _ \<Rightarrow> False" by code_simp
  then obtain sf where sf: "stats_file_bytes sample_schema sample_stats = Inr sf" "length sf = 67"
    by (cases "stats_file_bytes sample_schema sample_stats") auto
  obtain mc where mc: "SSTableMetadataCache sample_info (sample_files sf) 3 1 40 = Inr mc"
    by (simp add: SSTableMetadataCache_def sample_files_def read_sparse_index_def)
  note i = SSTableMetadataCache_inv(1) [OF mc, of sample_schema sample_stats] SSTableMetadataCache_inv(2-) [OF mc]
  have "stats_file_of sample_schema sample_stats (sample_files sf)"
    using sf by (simp add: stats_file_of_def sample_files_def) (simp add: sample_stats_def)
  with sf(1) mc i show ?thesis by (auto simp: sample_info_def)
qed

lemma row_metadata_cache_transparent_witness:
  "\<exists>sf mc. SSTableMetadataCache sample_info (sample_files sf) 3 1 40 = Inr mc \<and>
     fst (mc_read_row_metadata_range 0 2 mc) = read_row_metadata_range (sample_files sf) 0 2"
proof -
  obtain sf mc where mc: "SSTableMetadataCache sample_info (sample_files sf) 3 1 40 = Inr mc"
      "mc_inv sample_schema sample_stats mc" "mc_page_blocks mc = 1" "mc_files mc = sample_files sf" "mc_num_blocks mc = 2"
    using sample_cache by blast
  have "length (concat (map enc_row_meta sample_metas)) = 80"
    using length_concat_const [of sample_metas enc_row_meta 40]
    by (simp add: length_enc_row_meta ROW_BLOCK_META_ON_DISK_SIZE_def sample_metas_def)
  then show ?thesis using row_metadata_cache_transparent [OF mc(2), of sample_metas 0 2] mc
    by (auto simp: sample_files_def) (auto simp: sample_metas_def)
qed

lemma statistics_cache_transparent_witness:
  "\<exists>sf mc r mc' r' st. SSTableMetadataCache sample_info (sample_files sf) 3 1 40 = Inr mc \<and>
     mc_read_numeric_stats_range 0 2 [1] mc = (Inr r, mc') \<and>
     read_numeric_stats_range (sample_files sf) fresh_stats_index 0 2 [1] = (Inr r', st) \<and>
     map_of (sr_by_column r) = map_of (sr_by_column r')"
proof -
  obtain sf mc where mc: "SSTableMetadataCache sample_info (sample_files sf) 3 1 40 = Inr mc"
      "mc_inv sample_schema sample_stats mc" "mc_page_blocks mc = 1" "mc_files mc = sample_files sf" "mc_num_blocks mc = 2"
      "stats_file_of sample_schema sample_stats (sample_files sf)"
    using sample_cache by blast
  have "length sample_stats = 2" by (simp add: sample_stats_def)
  then obtain r mc' r' st where "mc_read_numeric_stats_range 0 2 [1] mc = (Inr r, mc')"
      "read_numeric_stats_range (sample_files sf) fresh_stats_index 0 2 [1] = (Inr r', st)"
      "map_of (sr_by_column r) = map_of (sr_by_column r')"
    using statistics_cache_transparent [OF mc(2), of 0 2 "[1]"] mc by auto
  then show ?thesis using mc(1) by blast
qed

end
