(* ===== verification/Row_Table.thy ===== *)
theory Row_Table
  imports Sst_Stats
begin

text \<open>
  \<open>RowSSTableBuilder\<close> (\<open>row_sstable_builder.cpp\<close>): rows sorted by key are cut into blocks and
  written to the five files of an SSTable directory. The streams are kept in the builder's state.
  The lemmas give the invariant that relates the files to the rows added, the shape of the
  finished table, and that sorted valid rows are never refused.
\<close>

section \<open>The builder\<close>

record row_table_builder =
  rt_block :: row_block_builder
  rt_block_stats :: "num_stats list list"
  rt_sparse :: "sparse_index_entry list"
  rt_options :: sparse_index_options
  rt_data_offset :: "64 word"
  rt_block_id :: "32 word"
  rt_finished :: bool
  rt_min :: key
  rt_max :: key
  rt_last :: key
  rt_first_row :: bool
  rt_data :: "byte list"
  rt_meta :: "byte list"
  rt_index :: "byte list"
  rt_info :: "byte list option"
  rt_stats :: "byte list option"

definition RowSSTableBuilder :: "schema \<Rightarrow> sparse_index_options \<Rightarrow> nat \<Rightarrow> row_table_builder res" where
  "RowSSTableBuilder s options row_block_target_bytes =
     rbind (RowSSTBlockBuilder s row_block_target_bytes) (\<lambda>blk.
       if so_min_step options = 0 then
         Inl (RuntimeError ''RowSSTableBuilder: sparse index min step must be positive'')
       else if so_max_step options < so_min_step options then
         Inl (RuntimeError ''RowSSTableBuilder: sparse index max step must be >= min step'')
       else Inr \<lparr>rt_block = blk, rt_block_stats = [], rt_sparse = [], rt_options = options,
         rt_data_offset = 0, rt_block_id = 0, rt_finished = False, rt_min = i64_max, rt_max = i64_min,
         rt_last = i64_of 0, rt_first_row = True, rt_data = [], rt_meta = [], rt_index = [],
         rt_info = None, rt_stats = None\<rparr>)"

definition rt_flush_block :: "schema \<Rightarrow> row_table_builder \<Rightarrow> row_table_builder res" where
  "rt_flush_block s b =
     rbind (rb_finish s (rt_block b)) (\<lambda>(result, blk).
       let (data, written) = write_bytes (rbr_data result) (rt_data b);
           meta = (rbr_meta result)\<lparr>rbm_offset := rt_data_offset b, rbm_block_id := rt_block_id b\<rparr> in
       Inr (b\<lparr>rt_block := blk,
              rt_data := data,
              rt_data_offset := rt_data_offset b + word_of_nat written,
              rt_block_stats := rt_block_stats b @ [rbr_stats result],
              rt_meta := rt_meta b @ enc_row_meta meta,
              rt_sparse := rt_sparse b @ [\<lparr>si_min_key = rbm_min meta, si_block_id = rbm_block_id meta\<rparr>],
              rt_block_id := rt_block_id b + 1\<rparr>))"

definition rt_add :: "schema \<Rightarrow> row \<Rightarrow> row_table_builder \<Rightarrow> row_table_builder res" where
  "rt_add s r b0 =
     (if rt_finished b0 then Inl (RuntimeError ''SSTable already finished'')
      else
        rbind (if rb_full (rt_block b0) then rt_flush_block s b0 else Inr b0) (\<lambda>b.
        rbind (row_key r) (\<lambda>k.
          if \<not> rt_first_row b \<and> k < rt_last b then
            Inl (RuntimeError ''SSTableBuilder: rows must be sorted by key'')
          else
            rbind (rb_add s r (rt_block b)) (\<lambda>blk.
              Inr (b\<lparr>rt_block := blk, rt_first_row := False, rt_last := k,
                     rt_min := min (rt_min b) k, rt_max := max (rt_max b) k\<rparr>)))))"

definition sst_info_bytes :: "32 word \<Rightarrow> key \<Rightarrow> key \<Rightarrow> sst_layout \<Rightarrow> byte list" where
  "sst_info_bytes num_blocks mn mx layout =
     enc_u32 num_blocks @ enc_i64 mn @ enc_i64 mx @ [layout_code layout]"

definition rt_write_info_file :: "row_table_builder \<Rightarrow> row_table_builder" where
  "rt_write_info_file b = b\<lparr>rt_info := Some (sst_info_bytes (rt_block_id b) (rt_min b) (rt_max b) ROW)\<rparr>"

definition rt_write_sparse_index_file :: "row_table_builder \<Rightarrow> row_table_builder" where
  "rt_write_sparse_index_file b =
     (let effective_step = choose_sparse_index_step (rt_block_id b) (rt_options b) in
      b\<lparr>rt_index := rt_index b @ concat (map enc_sparse_entry (sparse_entries effective_step (rt_sparse b)))\<rparr>)"

definition rt_write_stats_file :: "schema \<Rightarrow> row_table_builder \<Rightarrow> row_table_builder res" where
  "rt_write_stats_file s b = rbind (stats_file_bytes s (rt_block_stats b)) (\<lambda>f. Inr (b\<lparr>rt_stats := Some f\<rparr>))"

definition rt_finish :: "schema \<Rightarrow> row_table_builder \<Rightarrow> (sst_build_result \<times> row_table_builder) res" where
  "rt_finish s b0 =
     (if rt_finished b0 then Inl (RuntimeError ''Already finished building SSTable'')
      else if rt_first_row b0 then Inl (RuntimeError ''Cannot create empty SSTable'')
      else
        rbind (if length (rb_buffer (rt_block b0)) > 0 then rt_flush_block s b0 else Inr b0) (\<lambda>b.
        rbind (rt_write_stats_file s (rt_write_sparse_index_file (rt_write_info_file b))) (\<lambda>b'.
          Inr (\<lparr>br_min_key = rt_min b', br_max_key = rt_max b', br_num_blocks = rt_block_id b'\<rparr>,
               b'\<lparr>rt_finished := True\<rparr>))))"

definition rt_files :: "row_table_builder \<Rightarrow> sst_files" where
  "rt_files b = \<lparr>f_data = Some (rt_data b), f_meta = Some (rt_meta b), f_index = Some (rt_index b),
     f_info = rt_info b, f_stats = rt_stats b\<rparr>"

text \<open>A whole table: construct, add every row, finish.\<close>

definition build_row_table ::
    "schema \<Rightarrow> sparse_index_options \<Rightarrow> nat \<Rightarrow> row list \<Rightarrow> (sst_build_result \<times> sst_files) res" where
  "build_row_table s options target rows =
     rbind (RowSSTableBuilder s options target) (\<lambda>b0.
     rbind (rfold (rt_add s) rows b0) (\<lambda>b.
     rbind (rt_finish s b) (\<lambda>(result, b'). Inr (result, rt_files b'))))"

section \<open>The invariant\<close>

text \<open>The result of a block that was filled with the given rows.\<close>

definition row_block_of :: "schema \<Rightarrow> row list \<Rightarrow> row_block_result \<Rightarrow> bool" where
  "row_block_of s rows res \<longleftrightarrow> rows \<noteq> [] \<and> (\<exists>bb blk. row_block_inv s rows bb \<and> rb_finish s bb = Inr (res, blk))"

text \<open>The metadata of the blocks of a file: consecutive offsets and block ids.\<close>

fun place_row_blocks :: "nat \<Rightarrow> nat \<Rightarrow> row_block_result list \<Rightarrow> row_block_meta list" where
  "place_row_blocks i off [] = []"
| "place_row_blocks i off (r # rs) =
     (rbr_meta r)\<lparr>rbm_offset := word_of_nat off, rbm_block_id := word_of_nat i\<rparr> #
     place_row_blocks (Suc i) (off + length (rbr_data r)) rs"

abbreviation row_metas :: "row_block_result list \<Rightarrow> row_block_meta list" where
  "row_metas rs \<equiv> place_row_blocks 0 0 rs"

abbreviation row_data :: "row_block_result list \<Rightarrow> byte list" where
  "row_data rs \<equiv> concat (map rbr_data rs)"

definition meta_candidates :: "row_block_meta list \<Rightarrow> sparse_index_entry list" where
  "meta_candidates ms = map (\<lambda>m. \<lparr>si_min_key = rbm_min m, si_block_id = rbm_block_id m\<rparr>) ms"

lemma place_row_blocks_snoc:
  "place_row_blocks i off (rs @ [r]) = place_row_blocks i off rs @
     [(rbr_meta r)\<lparr>rbm_offset := word_of_nat (off + length (row_data rs)), rbm_block_id := word_of_nat (i + length rs)\<rparr>]"
  by (induction rs arbitrary: i off) (simp_all add: add.assoc)

lemma length_place_row_blocks [simp]: "length (place_row_blocks i off rs) = length rs"
  by (induction rs arbitrary: i off) auto

lemma nth_place_row_blocks:
  "j < length rs \<Longrightarrow> place_row_blocks i off rs ! j =
     (rbr_meta (rs ! j))\<lparr>rbm_offset := word_of_nat (off + length (row_data (take j rs))), rbm_block_id := word_of_nat (i + j)\<rparr>"
  by (induction rs arbitrary: i off j) (auto simp: nth_Cons add.assoc split: nat.splits)

definition rt_rows_inv :: "row list \<Rightarrow> row_table_builder \<Rightarrow> bool" where
  "rt_rows_inv rows b \<longleftrightarrow>
     sorted (rkeys rows) \<and> (rt_first_row b \<longleftrightarrow> rows = []) \<and> (rows \<noteq> [] \<longrightarrow> rt_last b = rkey (last rows)) \<and>
     rt_min b = fold min (rkeys rows) i64_max \<and> rt_max b = fold max (rkeys rows) i64_min"

definition rt_blocks_inv :: "schema \<Rightarrow> row list list \<Rightarrow> row list \<Rightarrow> row_table_builder \<Rightarrow> bool" where
  "rt_blocks_inv s blocks cur b \<longleftrightarrow>
     (\<exists>rs. list_all2 (row_block_of s) blocks rs \<and> rt_data b = row_data rs \<and>
        rt_meta b = concat (map enc_row_meta (row_metas rs)) \<and>
        rt_block_stats b = map rbr_stats rs \<and> rt_sparse b = meta_candidates (row_metas rs)) \<and>
     rt_data_offset b = word_of_nat (length (rt_data b)) \<and> rt_block_id b = word_of_nat (length blocks) \<and>
     row_block_inv s cur (rt_block b) \<and> 0 < rb_target (rt_block b) \<and> rt_index b = [] \<and> \<not> rt_finished b"

definition rt_inv :: "schema \<Rightarrow> row list \<Rightarrow> row_table_builder \<Rightarrow> bool" where
  "rt_inv s rows b \<longleftrightarrow>
     rt_rows_inv rows b \<and> (\<exists>blocks cur. rows = concat blocks @ cur \<and> rt_blocks_inv s blocks cur b)"

lemma row_block_inv_empty: "row_block_inv s [] b \<Longrightarrow> 0 < rb_target b \<Longrightarrow> \<not> rb_full b"
  by (auto simp: row_block_inv_def)

lemma rb_reset_simps [simp]: "rb_target (rb_reset s b) = rb_target b" "\<not> rb_full (rb_reset s b)"
  by (simp_all add: rb_reset_def)

lemma rb_finish_target: "rb_finish s b = Inr (res, blk) \<Longrightarrow> blk = rb_reset s b"
  by (auto simp: rb_finish_def split: if_splits)

lemma rt_flush_block_inv:
  assumes inv: "rt_blocks_inv s blocks cur b" and cur: "cur \<noteq> []" and flush: "rt_flush_block s b = Inr b'"
  shows "rt_blocks_inv s (blocks @ [cur]) [] b'" "rt_rows_inv rows b \<Longrightarrow> rt_rows_inv rows b'" "rt_options b' = rt_options b"
    "\<not> rb_full (rt_block b')" "rb_target (rt_block b') = rb_target (rt_block b)"
proof -
  obtain res blk where fin: "rb_finish s (rt_block b) = Inr (res, blk)"
    using flush by (cases "rb_finish s (rt_block b)") (auto simp: rt_flush_block_def)
  define meta where "meta = (rbr_meta res)\<lparr>rbm_offset := rt_data_offset b, rbm_block_id := rt_block_id b\<rparr>"
  have b': "b' = b\<lparr>rt_block := rb_reset s (rt_block b), rt_data := rt_data b @ rbr_data res,
      rt_data_offset := rt_data_offset b + word_of_nat (length (rbr_data res)),
      rt_block_stats := rt_block_stats b @ [rbr_stats res], rt_meta := rt_meta b @ enc_row_meta meta,
      rt_sparse := rt_sparse b @ [\<lparr>si_min_key = rbm_min meta, si_block_id = rbm_block_id meta\<rparr>],
      rt_block_id := rt_block_id b + 1\<rparr>"
    using flush fin rb_finish_target [OF fin] by (simp add: rt_flush_block_def Let_def write_bytes_def meta_def)
  obtain rs where rs: "list_all2 (row_block_of s) blocks rs" "rt_data b = row_data rs"
      "rt_meta b = concat (map enc_row_meta (row_metas rs))" "rt_block_stats b = map rbr_stats rs"
      "rt_sparse b = meta_candidates (row_metas rs)"
    and o: "rt_data_offset b = word_of_nat (length (rt_data b))" "rt_block_id b = word_of_nat (length blocks)"
      "row_block_inv s cur (rt_block b)" "0 < rb_target (rt_block b)" "rt_index b = []" "\<not> rt_finished b"
    using inv unfolding rt_blocks_inv_def by blast
  have len: "length rs = length blocks" using list_all2_lengthD [OF rs(1)] by simp
  have of: "row_block_of s cur res" using cur o(3) fin unfolding row_block_of_def by blast
  have metas: "row_metas (rs @ [res]) = row_metas rs @ [meta]"
    using o(1,2) rs(2) len by (simp add: place_row_blocks_snoc meta_def)
  show "rt_blocks_inv s (blocks @ [cur]) [] b'"
    unfolding rt_blocks_inv_def
  proof (intro conjI exI [of _ "rs @ [res]"])
    show "list_all2 (row_block_of s) (blocks @ [cur]) (rs @ [res])" using rs(1) of by (simp add: list_all2_appendI)
  qed (use rs o metas in \<open>simp_all add: b' meta_candidates_def row_block_inv_reset\<close>)
  show "rt_rows_inv rows b \<Longrightarrow> rt_rows_inv rows b'" by (simp add: b' rt_rows_inv_def)
  show "rt_options b' = rt_options b" "\<not> rb_full (rt_block b')" "rb_target (rt_block b') = rb_target (rt_block b)"
    by (simp_all add: b')
qed

lemma fold_min_snoc: "fold min (ks @ [k]) (x :: key) = min (fold min ks x) k"
  by (simp add: min.commute)

lemma rt_add_inv:
  assumes inv: "rt_inv s rows b0" and add: "rt_add s r b0 = Inr b'"
  shows "rt_inv s (rows @ [r]) b'" "rt_options b' = rt_options b0"
proof -
  obtain blocks0 cur0 where rows: "rows = concat blocks0 @ cur0" and b0: "rt_blocks_inv s blocks0 cur0 b0"
      and r0: "rt_rows_inv rows b0"
    using inv unfolding rt_inv_def by blast
  have nf: "\<not> rt_finished b0" using b0 unfolding rt_blocks_inv_def by blast
  obtain b where b: "(if rb_full (rt_block b0) then rt_flush_block s b0 else Inr b0) = Inr b"
    using add nf by (cases "if rb_full (rt_block b0) then rt_flush_block s b0 else Inr b0") (simp_all add: rt_add_def)
  have "\<exists>blocks cur. rows = concat blocks @ cur \<and> rt_blocks_inv s blocks cur b \<and> rt_rows_inv rows b \<and>
      rt_options b = rt_options b0"
  proof (cases "rb_full (rt_block b0)")
    case True
    have "row_block_inv s cur0 (rt_block b0)" "0 < rb_target (rt_block b0)"
      using b0 unfolding rt_blocks_inv_def by blast+
    then have "cur0 \<noteq> []" using True row_block_inv_empty by blast
    moreover have "rt_flush_block s b0 = Inr b" using b True by simp
    ultimately show ?thesis using rt_flush_block_inv [OF b0] r0 rows
      by (intro exI [of _ "blocks0 @ [cur0]"] exI [of _ "[]"]) simp
  next
    case False
    then show ?thesis using b b0 r0 rows by auto
  qed
  then obtain blocks cur where rows1: "rows = concat blocks @ cur" and b1: "rt_blocks_inv s blocks cur b"
      and r1: "rt_rows_inv rows b" and o1: "rt_options b = rt_options b0" by blast
  obtain k where k: "row_key r = Inr k"
    using add nf b by (cases "row_key r") (simp_all add: rt_add_def)
  have ok: "\<not> (\<not> rt_first_row b \<and> k < rt_last b)" using add nf b k by (auto simp: rt_add_def)
  obtain blk where blk: "rb_add s r (rt_block b) = Inr blk"
    using add nf b k ok by (cases "rb_add s r (rt_block b)") (auto simp: rt_add_def)
  have b': "b' = b\<lparr>rt_block := blk, rt_first_row := False, rt_last := k,
      rt_min := min (rt_min b) k, rt_max := max (rt_max b) k\<rparr>"
    using add nf b k ok blk by (simp add: rt_add_def)
  have kk: "rkey r = k" using k by (rule rkey_eq)
  have blki: "row_block_inv s cur (rt_block b)" "0 < rb_target (rt_block b)"
    using b1 unfolding rt_blocks_inv_def by blast+
  note ai = rb_add_inv [OF blki(1) blk]
  have "rt_blocks_inv s blocks (cur @ [r]) b'"
    using b1 ai blki(2) unfolding rt_blocks_inv_def b' by simp
  moreover have "rt_rows_inv (rows @ [r]) b'"
  proof -
    have "\<forall>x \<in> set rows. rkey x \<le> k"
    proof (cases "rows = []")
      case False
      then have "rkey (last rows) \<le> k" using ok r1 by (auto simp: rt_rows_inv_def)
      moreover have "\<forall>x \<in> set rows. rkey x \<le> rkey (last rows)"
        using r1 False by (auto simp: rt_rows_inv_def sorted_iff_nth_mono last_conv_nth in_set_conv_nth)
      ultimately show ?thesis by force
    qed simp
    then show ?thesis using r1 by (auto simp: b' rt_rows_inv_def sorted_append kk min.commute max.commute)
  qed
  ultimately show "rt_inv s (rows @ [r]) b'"
    unfolding rt_inv_def using rows1 by (metis append.assoc)
  show "rt_options b' = rt_options b0" using o1 by (simp add: b')
qed

lemma rt_start:
  assumes "RowSSTableBuilder s options target = Inr b"
  shows "rt_inv s [] b" "rt_options b = options"
proof -
  obtain blk where blk: "RowSSTBlockBuilder s target = Inr blk"
    using assms by (cases "RowSSTBlockBuilder s target") (simp_all add: RowSSTableBuilder_def)
  then have "row_block_inv s [] blk" "0 < rb_target blk"
    by (auto simp: RowSSTBlockBuilder_def row_block_inv_reset split: if_splits)
  with assms blk show "rt_inv s [] b" "rt_options b = options"
    by (auto simp: RowSSTableBuilder_def rt_inv_def rt_rows_inv_def rt_blocks_inv_def meta_candidates_def
        split: if_splits intro!: exI [of _ "[]"])
qed

lemma rt_rows_fold:
  assumes "rt_inv s rows0 b0" "rfold (rt_add s) rows b0 = Inr b"
  shows "rt_inv s (rows0 @ rows) b \<and> rt_options b = rt_options b0"
  using assms
proof (induction rows arbitrary: rows0 b0)
  case (Cons r rows)
  obtain b1 where b1: "rt_add s r b0 = Inr b1" "rfold (rt_add s) rows b1 = Inr b"
    using Cons.prems(2) by (auto simp: rbind_eq_Inr)
  from Cons.IH [OF rt_add_inv(1) [OF Cons.prems(1) b1(1)] b1(2)] rt_add_inv(2) [OF Cons.prems(1) b1(1)]
  show ?case by simp
qed simp

section \<open>The finished table\<close>

text \<open>
  The files of a row table over the given blocks of rows: the blocks one after the other, their
  metadata, the kept sparse-index entries, and the statistics.
\<close>

definition row_table_of ::
    "schema \<Rightarrow> sparse_index_options \<Rightarrow> row list list \<Rightarrow> row_block_result list \<Rightarrow> sst_files \<Rightarrow> bool" where
  "row_table_of s options blocks rs fs \<longleftrightarrow>
     list_all2 (row_block_of s) blocks rs \<and> sorted (rkeys (concat blocks)) \<and> blocks \<noteq> [] \<and>
     f_data fs = Some (row_data rs) \<and>
     f_meta fs = Some (concat (map enc_row_meta (row_metas rs))) \<and>
     f_index fs = Some (concat (map enc_sparse_entry
       (sparse_entries (choose_sparse_index_step (word_of_nat (length blocks)) options)
         (meta_candidates (row_metas rs))))) \<and>
     (\<exists>sf. f_stats fs = Some sf \<and> stats_file_bytes s (map rbr_stats rs) = Inr sf)"

lemma encode_row_nonempty: "encode_row s r [] = Inr e \<Longrightarrow> e \<noteq> []"
  by (auto simp: encode_row_def rbind_eq_Inr dest: arg_cong [of _ _ length])

lemma row_block_inv_buffer: "row_block_inv s rows b \<Longrightarrow> rb_buffer b = [] \<longleftrightarrow> rows = []"
  by (cases rows) (auto simp: row_block_inv_def list_all2_Cons1 encode_row_nonempty)

lemma rt_finish_table:
  assumes inv: "rt_inv s rows b0" and fin: "rt_finish s b0 = Inr (result, b')"
  shows "\<exists>blocks rs. concat blocks = rows \<and> row_table_of s (rt_options b0) blocks rs (rt_files b') \<and>
    result = \<lparr>br_min_key = fold min (rkeys rows) i64_max, br_max_key = fold max (rkeys rows) i64_min,
      br_num_blocks = word_of_nat (length blocks)\<rparr>"
proof -
  obtain blocks0 cur0 where rows: "rows = concat blocks0 @ cur0" and b0: "rt_blocks_inv s blocks0 cur0 b0"
      and r0: "rt_rows_inv rows b0"
    using inv unfolding rt_inv_def by blast
  have nf: "\<not> rt_finished b0" using b0 unfolding rt_blocks_inv_def by blast
  have nr: "\<not> rt_first_row b0" "rows \<noteq> []" using fin nf r0 by (auto simp: rt_finish_def rt_rows_inv_def split: if_splits)
  have buf: "rb_buffer (rt_block b0) = [] \<longleftrightarrow> cur0 = []"
    using b0 by (intro row_block_inv_buffer [of s]) (simp add: rt_blocks_inv_def)
  obtain b where b: "(if length (rb_buffer (rt_block b0)) > 0 then rt_flush_block s b0 else Inr b0) = Inr b"
    using fin nf nr by (cases "if length (rb_buffer (rt_block b0)) > 0 then rt_flush_block s b0 else Inr b0")
      (simp_all add: rt_finish_def)
  have "\<exists>blocks. rows = concat blocks \<and> rt_blocks_inv s blocks [] b \<and> rt_rows_inv rows b \<and>
      rt_options b = rt_options b0"
  proof (cases "cur0 = []")
    case True
    then show ?thesis using b b0 r0 rows buf by auto
  next
    case False
    then have "rt_flush_block s b0 = Inr b" using b buf by simp
    then show ?thesis using rt_flush_block_inv [OF b0 False] r0 rows by (intro exI [of _ "blocks0 @ [cur0]"]) simp
  qed
  then obtain blocks where rows1: "rows = concat blocks" and b1: "rt_blocks_inv s blocks [] b"
      and r1: "rt_rows_inv rows b" and o1: "rt_options b = rt_options b0" by blast
  obtain rs where rs: "list_all2 (row_block_of s) blocks rs" "rt_data b = row_data rs"
      "rt_meta b = concat (map enc_row_meta (row_metas rs))" "rt_block_stats b = map rbr_stats rs"
      "rt_sparse b = meta_candidates (row_metas rs)" and o: "rt_index b = []" "rt_block_id b = word_of_nat (length blocks)"
    using b1 unfolding rt_blocks_inv_def by blast
  let ?b2 = "rt_write_sparse_index_file (rt_write_info_file b)"
  have b2: "rt_block_stats ?b2 = rt_block_stats b"
    by (simp add: rt_write_sparse_index_file_def rt_write_info_file_def Let_def)
  obtain sf where sf: "stats_file_bytes s (map rbr_stats rs) = Inr sf"
    using fin nf nr b by (cases "stats_file_bytes s (map rbr_stats rs)")
      (simp_all add: rt_finish_def rt_write_stats_file_def b2 rs(4))
  have fin': "result = \<lparr>br_min_key = rt_min b, br_max_key = rt_max b, br_num_blocks = rt_block_id b\<rparr>"
      "b' = ?b2\<lparr>rt_stats := Some sf, rt_finished := True\<rparr>"
    using fin nf nr b sf
    by (simp_all add: rt_finish_def rt_write_stats_file_def rs(4) rt_write_sparse_index_file_def rt_write_info_file_def Let_def)
  have bl: "blocks \<noteq> []" using nr(2) rows1 by auto
  have "row_table_of s (rt_options b0) blocks rs (rt_files b')"
    unfolding row_table_of_def
    by (intro conjI exI [of _ sf])
      (use rs o o1 bl sf r1 rows1 in \<open>simp_all add: fin' rt_files_def rt_write_sparse_index_file_def rt_write_info_file_def
         Let_def rt_rows_inv_def\<close>)
  moreover have "result = \<lparr>br_min_key = fold min (rkeys rows) i64_max, br_max_key = fold max (rkeys rows) i64_min,
      br_num_blocks = word_of_nat (length blocks)\<rparr>"
    using r1 o(2) by (simp add: fin' rt_rows_inv_def)
  ultimately show ?thesis using rows1 by auto
qed

lemma build_row_table_shape:
  assumes "build_row_table s options target rows = Inr (result, fs)"
  shows "\<exists>blocks rs. concat blocks = rows \<and> row_table_of s options blocks rs fs \<and>
    result = \<lparr>br_min_key = fold min (rkeys rows) i64_max, br_max_key = fold max (rkeys rows) i64_min,
      br_num_blocks = word_of_nat (length blocks)\<rparr>"
proof -
  obtain b0 b b' where b: "RowSSTableBuilder s options target = Inr b0" "rfold (rt_add s) rows b0 = Inr b"
      "rt_finish s b = Inr (result, b')" "fs = rt_files b'"
    using assms by (auto simp: build_row_table_def rbind_eq_Inr)
  have "rt_inv s rows b" "rt_options b = options"
    using rt_rows_fold [OF rt_start(1) [OF b(1)] b(2)] rt_start(2) [OF b(1)] by auto
  with rt_finish_table [OF this(1) b(3)] b(4) show ?thesis by simp
qed

section \<open>Key bounds\<close>

abbreviation blk_min :: "row list \<Rightarrow> key" where
  "blk_min b \<equiv> fold min (rkeys b) i64_max"

abbreviation blk_max :: "row list \<Rightarrow> key" where
  "blk_max b \<equiv> fold max (rkeys b) i64_min"

lemma fold_bounds:
  "fold min ks (x :: key) \<le> x" "k \<in> set ks \<Longrightarrow> fold min ks (x :: key) \<le> k"
  "x \<le> fold max ks (x :: key)" "k \<in> set ks \<Longrightarrow> k \<le> fold max ks (x :: key)"
proof -
  show a: "fold min ks x \<le> x" for ks :: "key list" and x
    by (induction ks arbitrary: x) (simp_all, metis min.bounded_iff)
  show b: "x \<le> fold max ks x" for ks :: "key list" and x
    by (induction ks arbitrary: x) (simp_all, metis max.bounded_iff)
  show "k \<in> set ks \<Longrightarrow> fold min ks x \<le> k"
    by (induction ks arbitrary: x) (auto intro: order_trans [OF a])
  show "k \<in> set ks \<Longrightarrow> k \<le> fold max ks x"
    by (induction ks arbitrary: x) (auto intro: order_trans [OF _ b])
qed

lemma fold_max_le: "\<forall>k \<in> set ks. k \<le> m \<Longrightarrow> x \<le> m \<Longrightarrow> fold max ks (x :: key) \<le> m"
  by (induction ks arbitrary: x) auto

lemma fold_min_ge: "\<forall>k \<in> set ks. m \<le> k \<Longrightarrow> m \<le> x \<Longrightarrow> m \<le> fold min ks (x :: key)"
  by (induction ks arbitrary: x) auto

lemma sorted_block_bounds:
  assumes "sorted (rkeys b)" "b \<noteq> []"
  shows "blk_min b = rkey (hd b)" "blk_max b = rkey (last b)"
proof -
  have "\<forall>k \<in> set (rkeys b). rkey (hd b) \<le> k \<and> k \<le> rkey (last b)"
    using assms by (auto simp: sorted_iff_nth_mono hd_conv_nth last_conv_nth in_set_conv_nth)
  moreover have "rkey (hd b) \<in> set (rkeys b)" "rkey (last b) \<in> set (rkeys b)" using assms(2) by simp_all
  ultimately show "blk_min b = rkey (hd b)" "blk_max b = rkey (last b)"
    by (auto intro!: antisym fold_bounds(2,4) fold_min_ge fold_max_le)
qed

section \<open>What a block of the table holds\<close>

text \<open>The statistics of a block describe its rows, column by column.\<close>

definition block_stats_ok :: "schema \<Rightarrow> row list \<Rightarrow> num_stats list \<Rightarrow> bool" where
  "block_stats_ok s rows sts \<longleftrightarrow>
     stats_inv rows sts \<and> (\<forall>st \<in> set sts. ns_type st = col_type (columns s ! ns_column st)) \<and>
     (\<forall>(ci, ty) \<in> set (stats_columns s). \<exists>st \<in> set sts. ns_column st = ci)"

lemma reset_numeric_stats_columns:
  "map (\<lambda>st. (ns_column st, ns_type st)) (reset_numeric_stats s) = stats_columns s"
proof -
  have "map (\<lambda>st. (ns_column st, ns_type st)) (concat (map (\<lambda>ci. let c = columns s ! ci in
               if col_is_key c \<or> \<not> is_numeric_type (col_type c) then []
               else [zero_stats ci (col_type c)]) xs)) =
     concat (map (\<lambda>ci. let c = columns s ! ci in
               if \<not> col_is_key c \<and> is_numeric_type (col_type c) then [(ci, col_type c)] else []) xs)" for xs
    by (induction xs) (auto simp: Let_def zero_stats_def)
  then show ?thesis by (simp add: reset_numeric_stats_def stats_columns_def)
qed

lemma row_block_stats_ok:
  assumes "row_block_inv s rows b"
  shows "block_stats_ok s rows (rb_stats b)"
proof -
  have m: "map (\<lambda>st. (ns_column st, ns_type st)) (rb_stats b) = stats_columns s" and i: "stats_inv rows (rb_stats b)"
    using assms by (auto simp: row_block_inv_def reset_numeric_stats_columns)
  have "ns_type st = col_type (columns s ! ns_column st)" if "st \<in> set (rb_stats b)" for st
  proof -
    have "(ns_column st, ns_type st) \<in> set (stats_columns s)" using that by (force simp: m [symmetric])
    then show ?thesis by (blast dest: stats_columns_mem)
  qed
  moreover have "\<exists>st \<in> set (rb_stats b). ns_column st = ci" if "(ci, ty) \<in> set (stats_columns s)" for ci ty
    using that by (auto simp: m [symmetric])
  ultimately show ?thesis using i by (auto simp: block_stats_ok_def)
qed

lemma enc_stats_entry_ok:
  assumes ok: "block_stats_ok s rows sts" and col: "(ci, ty) \<in> set (stats_columns s)"
  shows "\<exists>e. enc_stats_entry ci ty sts = Inr e"
proof (cases "find_block_stats sts ci")
  case None
  then show ?thesis by (simp add: enc_stats_entry_def Let_def)
next
  case (Some st)
  then have st: "st \<in> set sts" "ns_column st = ci"
    by (auto simp: find_block_stats_def find_Some_iff in_set_conv_nth)
  then have "ns_type st = ty" "stat_inv ty (col_cells ci rows) st"
    using ok stats_columns_mem [OF col] by (auto simp: block_stats_ok_def stats_inv_def)
  then show ?thesis
    using Some by (auto simp: enc_stats_entry_def stat_inv_def nval_int_def nval_double_def Let_def)
qed

lemma stats_file_bytes_ok:
  assumes "\<And>sts. sts \<in> set bss \<Longrightarrow> \<exists>rows. block_stats_ok s rows sts"
  shows "\<exists>f. stats_file_bytes s bss = Inr f"
proof -
  have "\<exists>y. rbind (rmap (enc_stats_entry (fst c) (snd c)) bss) (\<lambda>es. Inr (concat es)) = Inr y"
    if c: "c \<in> set (stats_columns s)" for c
  proof -
    have "\<exists>ys. rmap (enc_stats_entry (fst c) (snd c)) bss = Inr ys"
      using assms c by (intro rmap_ok) (metis enc_stats_entry_ok prod.collapse)
    then show ?thesis by auto
  qed
  then have "\<exists>ys. rmap (\<lambda>(ci, ty). rbind (rmap (enc_stats_entry ci ty) bss) (\<lambda>es. Inr (concat es))) (stats_columns s) = Inr ys"
    by (intro rmap_ok) (simp add: case_prod_beta)
  then show ?thesis by (auto simp: stats_file_bytes_def Let_def)
qed

lemma row_block_ofD:
  assumes "row_block_of s rows res"
  shows "rows \<noteq> []" "rbm_min (rbr_meta res) = fold min (rkeys rows) i64_max"
    "rbm_max (rbr_meta res) = fold max (rkeys rows) i64_min"
    "rbm_size (rbr_meta res) = word_of_nat (length (rbr_data res))"
    "rbm_count (rbr_meta res) = word_of_nat (length rows)"
    "block_stats_ok s rows (rbr_stats res)"
    "\<lbrakk>length rows < 2 ^ 32; \<forall>r \<in> set rows. length r = schema_size s \<and> cells_fit (tl r)\<rbrakk> \<Longrightarrow>
     decode_row_block (rbr_data res) (rbm_count (rbr_meta res)) (schema_types s) pm = Inr (map (project_row pm) rows)"
proof -
  obtain bb blk where bb: "row_block_inv s rows bb" "rb_finish s bb = Inr (res, blk)" and ne: "rows \<noteq> []"
    using assms unfolding row_block_of_def by blast
  have res: "rbr_data res = rb_buffer bb" "rbr_stats res = rb_stats bb" "rbm_min (rbr_meta res) = rb_min bb"
      "rbm_max (rbr_meta res) = rb_max bb" "rbm_size (rbr_meta res) = word_of_nat (length (rb_buffer bb))"
      "rbm_count (rbr_meta res) = rb_count bb"
    using bb(2) by (auto simp: rb_finish_def split: if_splits)
  show "rows \<noteq> []" by (rule ne)
  show "rbm_min (rbr_meta res) = fold min (rkeys rows) i64_max" "rbm_max (rbr_meta res) = fold max (rkeys rows) i64_min"
    "rbm_count (rbr_meta res) = word_of_nat (length rows)"
    using bb(1) by (simp_all add: res row_block_inv_def)
  show "rbm_size (rbr_meta res) = word_of_nat (length (rbr_data res))" by (simp add: res)
  show "block_stats_ok s rows (rbr_stats res)" using row_block_stats_ok [OF bb(1)] by (simp add: res)
  show "\<lbrakk>length rows < 2 ^ 32; \<forall>r \<in> set rows. length r = schema_size s \<and> cells_fit (tl r)\<rbrakk> \<Longrightarrow>
     decode_row_block (rbr_data res) (rbm_count (rbr_meta res)) (schema_types s) pm = Inr (map (project_row pm) rows)"
    using row_block_inv_decode [OF bb(1)] by (simp add: res)
qed

section \<open>Sorted valid rows are never refused\<close>

lemma rt_flush_block_ok:
  assumes "rt_blocks_inv s blocks cur b" "cur \<noteq> []" "length cur < 2 ^ 32"
  shows "\<exists>b'. rt_flush_block s b = Inr b'"
proof -
  have "rb_count (rt_block b) = word_of_nat (length cur)"
    using assms(1) by (simp add: rt_blocks_inv_def row_block_inv_def)
  moreover have "unat (word_of_nat (length cur) :: 32 word) = length cur" using assms(3) by (rule unat_of_nat_32)
  ultimately have "rb_count (rt_block b) \<noteq> 0" using assms(2) by auto
  then show ?thesis by (simp add: rt_flush_block_def rb_finish_def Let_def write_bytes_def)
qed

lemma rt_add_ok:
  assumes wf: "schema_wf s" "valid_row s r" and inv: "rt_inv s rows b"
    and sorted: "sorted (rkeys (rows @ [r]))" and small: "length rows < 2 ^ 32"
  shows "\<exists>b'. rt_add s r b = Inr b'"
proof -
  obtain blocks cur where rows: "rows = concat blocks @ cur" and b0: "rt_blocks_inv s blocks cur b"
      and r0: "rt_rows_inv rows b"
    using inv unfolding rt_inv_def by blast
  have nf: "\<not> rt_finished b" using b0 unfolding rt_blocks_inv_def by blast
  obtain k r' where r: "r = Some (VInt k) # r'" using valid_row_key [OF wf] by auto
  have k: "row_key r = Inr k" "rkey r = k" by (simp_all add: r row_key_def)
  have "\<exists>b1. (if rb_full (rt_block b) then rt_flush_block s b else Inr b) = Inr b1 \<and> rt_rows_inv rows b1 \<and>
      \<not> rb_full (rt_block b1) \<and> (\<exists>cur'. row_block_inv s cur' (rt_block b1))"
  proof (cases "rb_full (rt_block b)")
    case True
    have i: "row_block_inv s cur (rt_block b)" "0 < rb_target (rt_block b)"
      using b0 unfolding rt_blocks_inv_def by blast+
    then have ne: "cur \<noteq> []" using True row_block_inv_empty by blast
    moreover have "length cur < 2 ^ 32" using rows small by simp
    ultimately obtain b1 where b1: "rt_flush_block s b = Inr b1" using rt_flush_block_ok [OF b0] by blast
    note f = rt_flush_block_inv [OF b0 ne b1]
    have "row_block_inv s [] (rt_block b1)" using f(1) unfolding rt_blocks_inv_def by blast
    then show ?thesis using True b1 f(2) [OF r0] f(4) by auto
  next
    case False
    have "row_block_inv s cur (rt_block b)" using b0 unfolding rt_blocks_inv_def by blast
    with False r0 show ?thesis by auto
  qed
  then obtain b1 cur' where b1: "(if rb_full (rt_block b) then rt_flush_block s b else Inr b) = Inr b1"
      "rt_rows_inv rows b1" "\<not> rb_full (rt_block b1)" "row_block_inv s cur' (rt_block b1)" by blast
  obtain blk where "rb_add s r (rt_block b1) = Inr blk" using rb_add_ok [OF wf(1) b1(4) wf(2) b1(3)] by blast
  moreover have "\<not> (\<not> rt_first_row b1 \<and> k < rt_last b1)"
  proof (cases "rows = []")
    case True
    then show ?thesis using b1(2) by (simp add: rt_rows_inv_def)
  next
    case False
    then have "rkey (last rows) \<le> k" using sorted k(2) by (simp add: sorted_append)
    then show ?thesis using b1(2) False by (simp add: rt_rows_inv_def)
  qed
  ultimately show ?thesis using nf b1(1) k(1) by (auto simp: rt_add_def)
qed

lemma rt_rows_ok:
  assumes "schema_wf s" "\<forall>r \<in> set rows. valid_row s r" "rt_inv s rows0 b"
    and "sorted (rkeys (rows0 @ rows))" "length (rows0 @ rows) < 2 ^ 32"
  shows "\<exists>b'. rfold (rt_add s) rows b = Inr b'"
  using assms
proof (induction rows arbitrary: rows0 b)
  case (Cons r rows)
  have "sorted (rkeys (rows0 @ [r]))" using Cons.prems(4) by (auto simp: sorted_append)
  moreover have "valid_row s r" "length rows0 < 2 ^ 32" using Cons.prems by simp_all
  ultimately obtain b1 where b1: "rt_add s r b = Inr b1" using rt_add_ok [OF Cons.prems(1) _ Cons.prems(3)] by blast
  have "\<exists>b'. rfold (rt_add s) rows b1 = Inr b'"
    using Cons.prems rt_add_inv(1) [OF Cons.prems(3) b1] by (intro Cons.IH [of "rows0 @ [r]"]) simp_all
  then show ?case using b1 by simp
qed simp

lemma rt_finish_ok:
  assumes inv: "rt_inv s rows b0" and rows: "rows \<noteq> []" "length rows < 2 ^ 32"
  shows "\<exists>y. rt_finish s b0 = Inr y"
proof -
  obtain blocks0 cur0 where c: "rows = concat blocks0 @ cur0" and b0: "rt_blocks_inv s blocks0 cur0 b0"
      and r0: "rt_rows_inv rows b0"
    using inv unfolding rt_inv_def by blast
  have nf: "\<not> rt_finished b0" "\<not> rt_first_row b0" using b0 r0 rows unfolding rt_blocks_inv_def rt_rows_inv_def by blast+
  have buf: "rb_buffer (rt_block b0) = [] \<longleftrightarrow> cur0 = []"
    using b0 by (intro row_block_inv_buffer [of s]) (simp add: rt_blocks_inv_def)
  have "\<exists>b blocks cur. (if length (rb_buffer (rt_block b0)) > 0 then rt_flush_block s b0 else Inr b0) = Inr b \<and> rt_blocks_inv s blocks cur b"
  proof (cases "cur0 = []")
    case True
    then show ?thesis using b0 buf by auto
  next
    case False
    have "length cur0 < 2 ^ 32" using c rows(2) by simp
    then obtain b where b: "rt_flush_block s b0 = Inr b" using rt_flush_block_ok [OF b0 False] by blast
    then show ?thesis using rt_flush_block_inv(1) [OF b0 False b] False buf by auto
  qed
  then obtain b blocks cur where b: "(if length (rb_buffer (rt_block b0)) > 0 then rt_flush_block s b0 else Inr b0) = Inr b"
      and bi: "rt_blocks_inv s blocks cur b" by blast
  obtain rs where rs: "list_all2 (row_block_of s) blocks rs" "rt_block_stats b = map rbr_stats rs"
    using bi unfolding rt_blocks_inv_def by blast
  have "\<exists>f. stats_file_bytes s (rt_block_stats b) = Inr f"
    using rs by (intro stats_file_bytes_ok) (fastforce simp: list_all2_conv_all_nth in_set_conv_nth dest: row_block_ofD(6))
  then obtain f where "stats_file_bytes s (rt_block_stats b) = Inr f" by blast
  then show ?thesis
    using nf b by (simp add: rt_finish_def rt_write_stats_file_def rt_write_sparse_index_file_def rt_write_info_file_def Let_def)
qed

lemma build_row_table_ok:
  assumes "schema_wf s" "\<forall>r \<in> set rows. valid_row s r" "sorted (rkeys rows)" "rows \<noteq> []" "length rows < 2 ^ 32"
    and "target \<noteq> 0" "so_min_step options \<noteq> 0" "so_min_step options \<le> so_max_step options"
  shows "\<exists>y. build_row_table s options target rows = Inr y"
proof -
  obtain b0 where b0: "RowSSTableBuilder s options target = Inr b0"
    using assms(6-8) by (simp add: RowSSTableBuilder_def RowSSTBlockBuilder_def not_less [symmetric])
  obtain b where b: "rfold (rt_add s) rows b0 = Inr b"
    using rt_rows_ok [OF assms(1,2) rt_start(1) [OF b0]] assms(3,5) by auto
  have "rt_inv s rows b" using rt_rows_fold [OF rt_start(1) [OF b0] b] by simp
  then obtain y where "rt_finish s b = Inr y" using rt_finish_ok assms(4,5) by blast
  with b0 b show ?thesis by (cases y) (simp add: build_row_table_def)
qed

section \<open>Properties\<close>

lemma sorted_rows_bounds:
  "sorted (rkeys rows) \<Longrightarrow> rows \<noteq> [] \<Longrightarrow> fold min (rkeys rows) i64_max = rkey (hd rows) \<and> fold max (rkeys rows) i64_min = rkey (last rows)"
  using sorted_block_bounds by blast

text \<open>C16: Building a row SSTable from a nonempty list of valid rows in key order always succeeds. The
  result reports the first and the last key, and the files describe consecutive blocks that together
  hold exactly the rows that were added.\<close>

theorem row_table_built:
  assumes "schema_wf s" "\<forall>r \<in> set rows. valid_row s r" "sorted (rkeys rows)" "rows \<noteq> []" "length rows < 2 ^ 32"
    and "target \<noteq> 0" "so_min_step options \<noteq> 0" "so_min_step options \<le> so_max_step options"
  shows "\<exists>blocks rs fs. build_row_table s options target rows =
      Inr (\<lparr>br_min_key = rkey (hd rows), br_max_key = rkey (last rows), br_num_blocks = word_of_nat (length blocks)\<rparr>, fs) \<and>
    concat blocks = rows \<and> row_table_of s options blocks rs fs"
proof -
  obtain result fs where y: "build_row_table s options target rows = Inr (result, fs)"
    using build_row_table_ok [OF assms] by auto
  from build_row_table_shape [OF y] sorted_rows_bounds [OF assms(3,4)] y show ?thesis by auto
qed

lemma sample_rows_sorted: "sorted_wrt (<) (rkeys sample_rows)"
  by (simp add: sample_row_def rkey_def row_key_def less_i64_def i64_val_def)

lemma row_table_built_witness:
  "\<exists>blocks rs fs. build_row_table sample_schema SparseIndexOptions 16 sample_rows =
      Inr (\<lparr>br_min_key = rkey (hd sample_rows), br_max_key = rkey (last sample_rows), br_num_blocks = word_of_nat (length blocks)\<rparr>, fs) \<and>
    concat blocks = sample_rows \<and> row_table_of sample_schema SparseIndexOptions blocks rs fs"
  using row_table_built [of sample_schema sample_rows 16 SparseIndexOptions] strict_sorted_imp_sorted [OF sample_rows_sorted]
  by (simp add: SparseIndexOptions_def)

text \<open>C35: A row whose key is smaller than the key of the row added before it is refused, after any number of
  rows were accepted.\<close>

theorem unsorted_row_refused:
  assumes "RowSSTableBuilder s options target = Inr b0" "rfold (rt_add s) rows b0 = Inr b"
    and "rows \<noteq> []" "length rows < 2 ^ 32" "row_key r = Inr k" "k < rkey (last rows)"
  shows "rt_add s r b = Inl (RuntimeError ''SSTableBuilder: rows must be sorted by key'')"
proof -
  have inv: "rt_inv s rows b" using rt_rows_fold [OF rt_start(1) [OF assms(1)] assms(2)] by simp
  then obtain blocks cur where b: "rows = concat blocks @ cur" "rt_blocks_inv s blocks cur b" and r: "rt_rows_inv rows b"
    unfolding rt_inv_def by blast
  have nf: "\<not> rt_finished b" and bi: "row_block_inv s cur (rt_block b)" "0 < rb_target (rt_block b)"
    using b(2) unfolding rt_blocks_inv_def by blast+
  have small: "length cur < 2 ^ 32" using b(1) assms(4) by simp
  have "\<exists>b1. (if rb_full (rt_block b) then rt_flush_block s b else Inr b) = Inr b1 \<and> rt_rows_inv rows b1"
  proof (cases "rb_full (rt_block b)")
    case True
    then have "cur \<noteq> []" using bi row_block_inv_empty by blast
    then obtain b1 where "rt_flush_block s b = Inr b1" using rt_flush_block_ok [OF b(2) _ small] by blast
    with rt_flush_block_inv(2) [OF b(2) \<open>cur \<noteq> []\<close> this r] True show ?thesis by auto
  qed (use r in auto)
  then show ?thesis using nf assms(3,5,6) by (auto simp: rt_add_def rt_rows_inv_def)
qed

lemma unsorted_row_refused_witness:
  "\<exists>b0 b. RowSSTableBuilder sample_schema SparseIndexOptions 16 = Inr b0 \<and> rfold (rt_add sample_schema) sample_rows b0 = Inr b \<and>
     rt_add sample_schema (sample_row (I64 3)) b = Inl (RuntimeError ''SSTableBuilder: rows must be sorted by key'')"
proof -
  obtain b0 where b0: "RowSSTableBuilder sample_schema SparseIndexOptions 16 = Inr b0"
    by (simp add: RowSSTableBuilder_def RowSSTBlockBuilder_def SparseIndexOptions_def)
  have "\<exists>b. rfold (rt_add sample_schema) sample_rows b0 = Inr b"
    using rt_rows_ok [OF sample_schema_wf _ rt_start(1) [OF b0], of sample_rows] strict_sorted_imp_sorted [OF sample_rows_sorted]
    by (simp del: rfold.simps)
  then obtain b where b: "rfold (rt_add sample_schema) sample_rows b0 = Inr b" by blast
  have "row_key (sample_row (I64 3)) = Inr (I64 3)" "I64 3 < rkey (last sample_rows)"
    by (simp_all add: sample_row_def rkey_def row_key_def less_i64_def i64_val_def)
  from unsorted_row_refused [OF b0 b _ _ this] b0 b show ?thesis by simp
qed

end
