(* ===== verification/Col_Table.thy ===== *)
theory Col_Table
  imports Row_Table
begin

text \<open>
  \<open>ColumnSSTableBuilder\<close> (\<open>column_sstable_builder.cpp\<close>): rows sorted by key are cut into logical
  blocks, and each logical block is written as a key block followed by one block per value
  column. The lemmas give the same guarantees as for row tables: the files describe exactly the
  rows added, and sorted valid rows are never refused.
\<close>

section \<open>The builder\<close>

record col_table_builder =
  ct_builders :: "col_block_builder list"
  ct_keys :: "key list"
  ct_block_stats :: "num_stats list list"
  ct_sparse :: "sparse_index_entry list"
  ct_options :: sparse_index_options
  ct_target_rows :: nat
  ct_data_offset :: "64 word"
  ct_block_id :: "32 word"
  ct_min :: key
  ct_max :: key
  ct_last :: key
  ct_finished :: bool
  ct_first_row :: bool
  ct_data :: "byte list"
  ct_meta :: "byte list"
  ct_index :: "byte list"
  ct_info :: "byte list option"
  ct_stats :: "byte list option"

definition ColumnSSTableBuilder :: "schema \<Rightarrow> sparse_index_options \<Rightarrow> nat \<Rightarrow> nat \<Rightarrow> col_table_builder res" where
  "ColumnSSTableBuilder s options target_rows target_bytes =
     (if schema_size s = 0 then Inl (RuntimeError ''ColumnSSTableBuilder: schema must not be empty'')
      else if so_min_step options = 0 then
        Inl (RuntimeError ''ColumnSSTableBuilder: sparse index min step must be positive'')
      else if so_max_step options < so_min_step options then
        Inl (RuntimeError ''ColumnSSTableBuilder: sparse index max step must be >= min step'')
      else if target_rows = 0 then Inl (RuntimeError ''ColumnSSTableBuilder: target block rows must be positive'')
      else if target_bytes = 0 then
        Inl (RuntimeError ''ColumnSSTableBuilder: column block target bytes must be positive'')
      else
        rbind (rmap (\<lambda>i. rbind (get_column s i) (\<lambda>c. ColumnSSTBlockBuilder c (word_of_nat i) target_bytes))
                 [1..<schema_size s]) (\<lambda>bs.
          Inr \<lparr>ct_builders = bs, ct_keys = [], ct_block_stats = [], ct_sparse = [], ct_options = options,
            ct_target_rows = target_rows, ct_data_offset = 0, ct_block_id = 0, ct_min = i64_max, ct_max = i64_min,
            ct_last = i64_of 0, ct_finished = False, ct_first_row = True, ct_data = [], ct_meta = [],
            ct_index = [], ct_info = None, ct_stats = None\<rparr>))"

definition any_col_builder_full :: "col_table_builder \<Rightarrow> bool" where
  "any_col_builder_full b = list_ex cb_full (ct_builders b)"

text \<open>
  The loop over the value columns of a logical block: the bytes, metadata and statistics it
  appends, the builders after \<open>finish()\<close> and the data offset after the last block.
\<close>

fun ct_flush_columns ::
    "32 word \<Rightarrow> nat \<Rightarrow> col_block_builder list \<Rightarrow> 64 word \<Rightarrow>
     (byte list \<times> byte list \<times> num_stats list \<times> col_block_builder list \<times> 64 word) res"
where
  "ct_flush_columns block_id ci [] offset = Inr ([], [], [], [], offset)"
| "ct_flush_columns block_id ci (b # bs) offset =
     rbind (cb_finish b) (\<lambda>(result, b').
       let col_block_size = word_of_nat (length (cbr_data result));
           meta = write_block_meta (cm_min (cbr_meta result)) (cm_max (cbr_meta result)) offset col_block_size
             (cm_count (cbr_meta result)) block_id (word_of_nat (ci + 1)) in
       rbind (ct_flush_columns block_id (Suc ci) bs (offset + col_block_size)) (\<lambda>(data, metas, stats, bs', offset').
         Inr (cbr_data result @ data, meta @ metas, cbr_stats result @ stats, b' # bs', offset')))"

definition ct_flush_block :: "col_table_builder \<Rightarrow> col_table_builder res" where
  "ct_flush_block b =
     (if ct_keys b = [] then Inr b
      else
        let row_count = word_of_nat (length (ct_keys b)) :: 32 word;
            block_min = hd (ct_keys b);
            block_max = last (ct_keys b);
            key_block_size = 8 * ucast row_count :: 64 word;
            key_data = concat (map (\<lambda>k. enc_i64 k) (ct_keys b));
            key_meta = write_block_meta block_min block_max (ct_data_offset b) key_block_size row_count (ct_block_id b)
              (word_of_nat KEY_COLUMN_INDEX) in
        rbind (ct_flush_columns (ct_block_id b) 0 (ct_builders b) (ct_data_offset b + key_block_size))
          (\<lambda>(data, metas, stats, bs', offset').
          Inr (b\<lparr>ct_data := ct_data b @ key_data @ data,
                 ct_meta := ct_meta b @ key_meta @ metas,
                 ct_builders := bs',
                 ct_data_offset := offset',
                 ct_block_stats := ct_block_stats b @ [stats],
                 ct_sparse := ct_sparse b @ [\<lparr>si_min_key = block_min, si_block_id = ct_block_id b\<rparr>],
                 ct_keys := [],
                 ct_block_id := ct_block_id b + 1\<rparr>)))"

definition ct_add :: "row \<Rightarrow> col_table_builder \<Rightarrow> col_table_builder res" where
  "ct_add r b0 =
     (if ct_finished b0 then Inl (RuntimeError ''ColumnSSTableBuilder: already finished'')
      else
        rbind (row_key r) (\<lambda>k.
          if \<not> ct_first_row b0 \<and> k < ct_last b0 then
            Inl (RuntimeError ''ColumnSSTableBuilder: rows must be sorted by key'')
          else
            rbind (if length (ct_keys b0) \<ge> ct_target_rows b0 \<or> any_col_builder_full b0
                   then ct_flush_block b0 else Inr b0) (\<lambda>b.
            rbind (rmap (cb_add r) (ct_builders b)) (\<lambda>bs.
              Inr (b\<lparr>ct_keys := ct_keys b @ [k], ct_builders := bs, ct_first_row := False, ct_last := k,
                     ct_min := min (ct_min b) k, ct_max := max (ct_max b) k\<rparr>)))))"

definition ct_write_info_file :: "col_table_builder \<Rightarrow> col_table_builder" where
  "ct_write_info_file b = b\<lparr>ct_info := Some (sst_info_bytes (ct_block_id b) (ct_min b) (ct_max b) COLUMN)\<rparr>"

definition ct_write_sparse_index_file :: "col_table_builder \<Rightarrow> col_table_builder" where
  "ct_write_sparse_index_file b =
     (let effective_step = choose_sparse_index_step (ct_block_id b) (ct_options b) in
      b\<lparr>ct_index := ct_index b @ concat (map enc_sparse_entry (sparse_entries effective_step (ct_sparse b)))\<rparr>)"

definition ct_write_stats_file :: "schema \<Rightarrow> col_table_builder \<Rightarrow> col_table_builder res" where
  "ct_write_stats_file s b = rbind (stats_file_bytes s (ct_block_stats b)) (\<lambda>f. Inr (b\<lparr>ct_stats := Some f\<rparr>))"

definition ct_finish :: "schema \<Rightarrow> col_table_builder \<Rightarrow> (sst_build_result \<times> col_table_builder) res" where
  "ct_finish s b0 =
     (if ct_finished b0 then Inl (RuntimeError ''ColumnSSTableBuilder: already finished'')
      else if ct_first_row b0 then Inl (RuntimeError ''ColumnSSTableBuilder: cannot create empty SSTable'')
      else
        rbind (if ct_keys b0 \<noteq> [] then ct_flush_block b0 else Inr b0) (\<lambda>b.
        rbind (ct_write_stats_file s (ct_write_sparse_index_file (ct_write_info_file b))) (\<lambda>b'.
          Inr (\<lparr>br_min_key = ct_min b', br_max_key = ct_max b', br_num_blocks = ct_block_id b'\<rparr>,
               b'\<lparr>ct_finished := True\<rparr>))))"

definition ct_files :: "col_table_builder \<Rightarrow> sst_files" where
  "ct_files b = \<lparr>f_data = Some (ct_data b), f_meta = Some (ct_meta b), f_index = Some (ct_index b),
     f_info = ct_info b, f_stats = ct_stats b\<rparr>"

definition build_col_table ::
    "schema \<Rightarrow> sparse_index_options \<Rightarrow> nat \<Rightarrow> nat \<Rightarrow> row list \<Rightarrow> (sst_build_result \<times> sst_files) res" where
  "build_col_table s options target_rows target_bytes rows =
     rbind (ColumnSSTableBuilder s options target_rows target_bytes) (\<lambda>b0.
     rbind (rfold ct_add rows b0) (\<lambda>b.
     rbind (ct_finish s b) (\<lambda>(result, b'). Inr (result, ct_files b'))))"

section \<open>Logical blocks\<close>

text \<open>A flushed logical block: its keys and the results of its value columns.\<close>

record col_flushed =
  cf_keys :: "key list"
  cf_results :: "col_block_result list"

definition col_block_of :: "schema \<Rightarrow> row list \<Rightarrow> nat \<Rightarrow> col_block_result \<Rightarrow> bool" where
  "col_block_of s rows ci res \<longleftrightarrow>
     (\<exists>bb b'. col_block_inv rows bb \<and> cb_id bb = word_of_nat ci \<and> cb_column bb = columns s ! ci \<and>
        cb_finish bb = Inr (res, b'))"

definition col_flushed_of :: "schema \<Rightarrow> row list \<Rightarrow> col_flushed \<Rightarrow> bool" where
  "col_flushed_of s rows f \<longleftrightarrow>
     rows \<noteq> [] \<and> cf_keys f = rkeys rows \<and> list_all2 (col_block_of s rows) [1..<schema_size s] (cf_results f)"

definition flushed_key_data :: "col_flushed \<Rightarrow> byte list" where
  "flushed_key_data f = concat (map (\<lambda>k. enc_i64 k) (cf_keys f))"

definition flushed_data :: "col_flushed \<Rightarrow> byte list" where
  "flushed_data f = flushed_key_data f @ concat (map cbr_data (cf_results f))"

definition flushed_stats :: "col_flushed \<Rightarrow> num_stats list" where
  "flushed_stats f = concat (map cbr_stats (cf_results f))"

fun place_columns :: "nat \<Rightarrow> nat \<Rightarrow> nat \<Rightarrow> col_block_result list \<Rightarrow> col_block_meta list" where
  "place_columns i ci off [] = []"
| "place_columns i ci off (r # rs) =
     (cbr_meta r)\<lparr>cm_offset := word_of_nat off, cm_size := word_of_nat (length (cbr_data r)),
        cm_block_id := word_of_nat i, cm_column_idx := word_of_nat ci\<rparr> #
     place_columns i (Suc ci) (off + length (cbr_data r)) rs"

definition key_block_meta :: "nat \<Rightarrow> nat \<Rightarrow> key list \<Rightarrow> col_block_meta" where
  "key_block_meta i off ks = \<lparr>cm_min = hd ks, cm_max = last ks, cm_offset = word_of_nat off,
     cm_size = word_of_nat (8 * length ks), cm_count = word_of_nat (length ks), cm_block_id = word_of_nat i,
     cm_column_idx = word_of_nat KEY_COLUMN_INDEX\<rparr>"

definition place_flushed :: "nat \<Rightarrow> nat \<Rightarrow> col_flushed \<Rightarrow> col_block_meta list" where
  "place_flushed i off f = key_block_meta i off (cf_keys f) # place_columns i 1 (off + 8 * length (cf_keys f)) (cf_results f)"

fun place_col_blocks :: "nat \<Rightarrow> nat \<Rightarrow> col_flushed list \<Rightarrow> col_block_meta list list" where
  "place_col_blocks i off [] = []"
| "place_col_blocks i off (f # fs) = place_flushed i off f # place_col_blocks (Suc i) (off + length (flushed_data f)) fs"

abbreviation col_metas :: "col_flushed list \<Rightarrow> col_block_meta list list" where
  "col_metas fs \<equiv> place_col_blocks 0 0 fs"

abbreviation col_data :: "col_flushed list \<Rightarrow> byte list" where
  "col_data fs \<equiv> concat (map flushed_data fs)"

definition flushed_candidates :: "col_flushed list \<Rightarrow> sparse_index_entry list" where
  "flushed_candidates fs = map (\<lambda>i. \<lparr>si_min_key = hd (cf_keys (fs ! i)), si_block_id = word_of_nat i\<rparr>) [0..<length fs]"

lemma place_col_blocks_snoc:
  "place_col_blocks i off (fs @ [f]) = place_col_blocks i off fs @ [place_flushed (i + length fs) (off + length (col_data fs)) f]"
  by (induction fs arbitrary: i off) (simp_all add: add.assoc)

lemma length_place_col_blocks [simp]: "length (place_col_blocks i off fs) = length fs"
  by (induction fs arbitrary: i off) auto

lemma length_place_columns [simp]: "length (place_columns i ci off rs) = length rs"
  by (induction rs arbitrary: ci off) auto

lemma nth_place_col_blocks:
  "j < length fs \<Longrightarrow> place_col_blocks i off fs ! j = place_flushed (i + j) (off + length (col_data (take j fs))) (fs ! j)"
  by (induction fs arbitrary: i off j) (auto simp: nth_Cons add.assoc split: nat.splits)

lemma nth_place_columns:
  "j < length rs \<Longrightarrow> place_columns i ci off rs ! j =
     (cbr_meta (rs ! j))\<lparr>cm_offset := word_of_nat (off + length (concat (map cbr_data (take j rs)))),
        cm_size := word_of_nat (length (cbr_data (rs ! j))), cm_block_id := word_of_nat i, cm_column_idx := word_of_nat (ci + j)\<rparr>"
  by (induction rs arbitrary: ci off j) (auto simp: nth_Cons add.assoc split: nat.splits)

lemma length_enc_keys: "length (concat (map (\<lambda>k. enc_i64 k) ks)) = 8 * length ks"
  using length_concat_const [of ks "\<lambda>k. enc_i64 k" 8] by simp

section \<open>The invariant\<close>

definition ct_rows_inv :: "row list \<Rightarrow> col_table_builder \<Rightarrow> bool" where
  "ct_rows_inv rows b \<longleftrightarrow>
     sorted (rkeys rows) \<and> (ct_first_row b \<longleftrightarrow> rows = []) \<and> (rows \<noteq> [] \<longrightarrow> ct_last b = rkey (last rows)) \<and>
     ct_min b = fold min (rkeys rows) i64_max \<and> ct_max b = fold max (rkeys rows) i64_min"

definition ct_columns_inv :: "schema \<Rightarrow> row list \<Rightarrow> nat list \<Rightarrow> col_block_builder list \<Rightarrow> bool" where
  "ct_columns_inv s cur cis bs \<longleftrightarrow>
     list_all2 (\<lambda>ci b. col_block_inv cur b \<and> cb_id b = word_of_nat ci \<and> cb_column b = columns s ! ci) cis bs"

definition ct_blocks_inv :: "schema \<Rightarrow> row list list \<Rightarrow> row list \<Rightarrow> col_table_builder \<Rightarrow> bool" where
  "ct_blocks_inv s blocks cur b \<longleftrightarrow>
     (\<exists>fs. list_all2 (col_flushed_of s) blocks fs \<and> ct_data b = col_data fs \<and>
        ct_meta b = concat (map enc_col_meta (concat (col_metas fs))) \<and>
        ct_block_stats b = map flushed_stats fs \<and> ct_sparse b = flushed_candidates fs) \<and>
     ct_data_offset b = word_of_nat (length (ct_data b)) \<and> ct_block_id b = word_of_nat (length blocks) \<and>
     ct_keys b = rkeys cur \<and> ct_columns_inv s cur [1..<schema_size s] (ct_builders b) \<and>
     0 < ct_target_rows b \<and> ct_index b = [] \<and> \<not> ct_finished b"

definition ct_inv :: "schema \<Rightarrow> row list \<Rightarrow> col_table_builder \<Rightarrow> bool" where
  "ct_inv s rows b \<longleftrightarrow>
     ct_rows_inv rows b \<and> (\<exists>blocks cur. rows = concat blocks @ cur \<and> ct_blocks_inv s blocks cur b)"

lemma cb_finish_reset: "cb_finish b = Inr (res, b') \<Longrightarrow> b' = cb_reset b"
  by (auto simp: cb_finish_def split: if_splits)

lemma cb_reset_simps [simp]: "cb_id (cb_reset b) = cb_id b" "cb_column (cb_reset b) = cb_column b"
  "cb_target (cb_reset b) = cb_target b" "\<not> cb_full (cb_reset b)"
  by (simp_all add: cb_reset_def)

text \<open>What the loop over the value columns writes.\<close>

lemma ct_flush_columns_inv:
  assumes "ct_flush_columns (word_of_nat i) ci bs (word_of_nat off) = Inr (data, metas, stats, bs', off')"
    and "ct_columns_inv s cur [Suc ci..<Suc ci + length bs] bs"
  shows "\<exists>rs. list_all2 (col_block_of s cur) [Suc ci..<Suc ci + length bs] rs \<and> data = concat (map cbr_data rs) \<and>
    metas = concat (map enc_col_meta (place_columns i (Suc ci) off rs)) \<and> stats = concat (map cbr_stats rs) \<and>
    ct_columns_inv s [] [Suc ci..<Suc ci + length bs] bs' \<and> (\<forall>b \<in> set bs'. \<not> cb_full b) \<and>
    off' = word_of_nat (off + length data)"
  using assms
proof (induction bs arbitrary: ci off data metas stats bs')
  case Nil
  then show ?case by (auto simp: ct_columns_inv_def)
next
  case (Cons b bs)
  obtain res b1 where fin: "cb_finish b = Inr (res, b1)" using Cons.prems(1) by (auto simp: rbind_eq_Inr)
  let ?off = "off + length (cbr_data res)"
  obtain data2 metas2 stats2 bs2 where rec: "ct_flush_columns (word_of_nat i) (Suc ci) bs (word_of_nat ?off) = Inr (data2, metas2, stats2, bs2, off')"
      and out: "data = cbr_data res @ data2" "stats = cbr_stats res @ stats2" "bs' = b1 # bs2"
        "metas = write_block_meta (cm_min (cbr_meta res)) (cm_max (cbr_meta res)) (word_of_nat off) (word_of_nat (length (cbr_data res)))
           (cm_count (cbr_meta res)) (word_of_nat i) (word_of_nat (ci + 1)) @ metas2"
    using Cons.prems(1) fin by (auto simp: rbind_eq_Inr Let_def)
  have range: "[Suc ci..<Suc ci + length (b # bs)] = Suc ci # [Suc (Suc ci)..<Suc (Suc ci) + length bs]"
    by (simp add: upt_conv_Cons del: upt_Suc)
  have b: "col_block_inv cur b" "cb_id b = word_of_nat (Suc ci)" "cb_column b = columns s ! Suc ci"
      and bs: "ct_columns_inv s cur [Suc (Suc ci)..<Suc (Suc ci) + length bs] bs"
    using Cons.prems(2) unfolding range ct_columns_inv_def by simp_all
  obtain rs where rs: "list_all2 (col_block_of s cur) [Suc (Suc ci)..<Suc (Suc ci) + length bs] rs" "data2 = concat (map cbr_data rs)"
      "metas2 = concat (map enc_col_meta (place_columns i (Suc (Suc ci)) ?off rs))" "stats2 = concat (map cbr_stats rs)"
      "ct_columns_inv s [] [Suc (Suc ci)..<Suc (Suc ci) + length bs] bs2" "\<forall>b \<in> set bs2. \<not> cb_full b"
      "off' = word_of_nat (?off + length data2)"
    using Cons.IH [OF rec bs] by blast
  have b1: "b1 = cb_reset b" using fin by (rule cb_finish_reset)
  have "col_block_of s cur (Suc ci) res" using b fin unfolding col_block_of_def by blast
  then have "list_all2 (col_block_of s cur) [Suc ci..<Suc ci + length (b # bs)] (res # rs)" unfolding range using rs(1) by simp
  moreover have "metas = concat (map enc_col_meta (place_columns i (Suc ci) off (res # rs)))"
    by (simp add: out(4) rs(3) enc_col_meta_def)
  moreover have "ct_columns_inv s [] [Suc ci..<Suc ci + length (b # bs)] bs'"
    unfolding range out(3) b1 using rs(5) b by (simp add: ct_columns_inv_def col_block_inv_reset)
  ultimately show ?case using out rs b1 by (intro exI [of _ "res # rs"]) (simp add: add.assoc)
qed

lemma ct_columns_range: "ct_columns_inv s cur [1..<schema_size s] bs \<Longrightarrow> [Suc 0..<Suc 0 + length bs] = [1..<schema_size s]"
  by (cases "schema_size s") (auto simp: ct_columns_inv_def simp del: upt_Suc dest!: list_all2_lengthD)

lemma ct_flush_block_inv:
  assumes inv: "ct_blocks_inv s blocks cur b" and cur: "cur \<noteq> []" "length cur < 2 ^ 32" and flush: "ct_flush_block b = Inr b'"
  shows "ct_blocks_inv s (blocks @ [cur]) [] b'" "ct_rows_inv rows b \<Longrightarrow> ct_rows_inv rows b'" "ct_options b' = ct_options b"
    "\<not> any_col_builder_full b'" "ct_target_rows b' = ct_target_rows b"
proof -
  obtain fs where fs: "list_all2 (col_flushed_of s) blocks fs" "ct_data b = col_data fs"
      "ct_meta b = concat (map enc_col_meta (concat (col_metas fs)))" "ct_block_stats b = map flushed_stats fs"
      "ct_sparse b = flushed_candidates fs"
    and o: "ct_data_offset b = word_of_nat (length (ct_data b))" "ct_block_id b = word_of_nat (length blocks)"
      "ct_keys b = rkeys cur" "ct_columns_inv s cur [1..<schema_size s] (ct_builders b)" "0 < ct_target_rows b"
      "ct_index b = []" "\<not> ct_finished b"
    using inv unfolding ct_blocks_inv_def by blast
  define off where "off = length (col_data fs)"
  have keys: "ct_keys b \<noteq> []" using cur by (simp add: o(3))
  have size: "8 * ucast (word_of_nat (length (ct_keys b)) :: 32 word) = (word_of_nat (8 * length cur) :: 64 word)"
    using cur(2) by (simp add: o(3) ucast_of_nat_32_64)
  have o1: "ct_data_offset b + 8 * ucast (word_of_nat (length (ct_keys b)) :: 32 word) = word_of_nat (off + 8 * length cur)"
    unfolding size by (simp add: o(1) fs(2) off_def)
  let ?kd = "concat (map (\<lambda>k. enc_i64 k) (rkeys cur))"
  obtain data metas stats bs' off' where cols: "ct_flush_columns (word_of_nat (length blocks)) 0 (ct_builders b)
        (word_of_nat (off + 8 * length cur)) = Inr (data, metas, stats, bs', off')"
    using flush keys o1 o(2) by (auto simp: ct_flush_block_def Let_def rbind_eq_Inr)
  have b': "b' = b\<lparr>ct_data := ct_data b @ ?kd @ data,
      ct_meta := ct_meta b @ write_block_meta (hd (rkeys cur)) (last (rkeys cur)) (word_of_nat off) (word_of_nat (8 * length cur))
        (word_of_nat (length cur)) (word_of_nat (length blocks)) (word_of_nat KEY_COLUMN_INDEX) @ metas,
      ct_builders := bs', ct_data_offset := off', ct_block_stats := ct_block_stats b @ [stats],
      ct_sparse := ct_sparse b @ [\<lparr>si_min_key = hd (rkeys cur), si_block_id = word_of_nat (length blocks)\<rparr>],
      ct_keys := [], ct_block_id := ct_block_id b + 1\<rparr>"
    using flush keys cols o1 size unfolding ct_flush_block_def Let_def
    by (simp add: o(1-3) fs(2) off_def)
  note range = ct_columns_range [OF o(4)]
  obtain rs where rs: "list_all2 (col_block_of s cur) [1..<schema_size s] rs" "data = concat (map cbr_data rs)"
      "metas = concat (map enc_col_meta (place_columns (length blocks) (Suc 0) (off + 8 * length cur) rs))"
      "stats = concat (map cbr_stats rs)" "ct_columns_inv s [] [1..<schema_size s] bs'" "\<forall>b \<in> set bs'. \<not> cb_full b"
      "off' = word_of_nat (off + 8 * length cur + length data)"
    using ct_flush_columns_inv [OF cols, of s cur] o(4) unfolding range by blast
  define f where "f = \<lparr>cf_keys = rkeys cur, cf_results = rs\<rparr>"
  have f: "col_flushed_of s cur f" using rs(1) cur by (simp add: f_def col_flushed_of_def)
  have len: "length fs = length blocks" using list_all2_lengthD [OF fs(1)] by simp
  have fdata: "flushed_data f = ?kd @ data" by (simp add: f_def flushed_data_def flushed_key_data_def rs(2))
  have metas: "concat (map enc_col_meta (concat (col_metas (fs @ [f])))) = ct_meta b' "
    by (simp add: place_col_blocks_snoc place_flushed_def f_def b' fs(3) len off_def rs(3) key_block_meta_def enc_col_meta_def)
  show "ct_blocks_inv s (blocks @ [cur]) [] b'"
    unfolding ct_blocks_inv_def
  proof (intro conjI exI [of _ "fs @ [f]"])
    show "list_all2 (col_flushed_of s) (blocks @ [cur]) (fs @ [f])" using fs(1) f by (simp add: list_all2_appendI)
    show "ct_data b' = col_data (fs @ [f])" by (simp add: b' fs(2) fdata)
    show "ct_meta b' = concat (map enc_col_meta (concat (col_metas (fs @ [f]))))" by (simp only: metas)
    show "ct_block_stats b' = map flushed_stats (fs @ [f])" by (simp add: b' fs(4) flushed_stats_def f_def rs(4))
    show "ct_sparse b' = flushed_candidates (fs @ [f])"
      by (simp add: b' fs(5) flushed_candidates_def f_def len nth_append)
    show "ct_data_offset b' = word_of_nat (length (ct_data b'))"
      using length_enc_keys [of "rkeys cur"] by (simp add: b' rs(7) fs(2) off_def)
  qed (use o rs(5) in \<open>simp_all add: b'\<close>)
  show "ct_rows_inv rows b \<Longrightarrow> ct_rows_inv rows b'" by (simp add: b' ct_rows_inv_def)
  show "ct_options b' = ct_options b" "\<not> any_col_builder_full b'" "ct_target_rows b' = ct_target_rows b"
    using rs(6) by (auto simp: b' any_col_builder_full_def list_ex_iff)
qed

lemma ct_empty_not_full: "ct_columns_inv s [] cis bs \<Longrightarrow> \<not> list_ex cb_full bs"
  by (induction bs arbitrary: cis) (auto simp: ct_columns_inv_def list_all2_Cons2 col_block_inv_def Let_def)

lemma rmap_cb_add_inv:
  assumes "ct_columns_inv s cur cis bs" "rmap (cb_add r) bs = Inr bs'" "length cur < 2 ^ 32"
  shows "ct_columns_inv s (cur @ [r]) cis bs'"
  using assms
proof (induction bs arbitrary: cis bs')
  case (Cons b bs)
  obtain b1 bs1 where b1: "cb_add r b = Inr b1" "rmap (cb_add r) bs = Inr bs1" "bs' = b1 # bs1"
    using Cons.prems(2) by (auto simp: rbind_eq_Inr)
  obtain ci cis1 where c: "cis = ci # cis1" "col_block_inv cur b" "cb_id b = word_of_nat ci" "cb_column b = columns s ! ci"
      "ct_columns_inv s cur cis1 bs"
    using Cons.prems(1) by (auto simp: ct_columns_inv_def list_all2_Cons2)
  from Cons.IH [OF c(5) b1(2) Cons.prems(3)] cb_add_inv [OF c(2) b1(1) Cons.prems(3)] show ?case
    using c(3,4) by (simp add: ct_columns_inv_def c(1) b1(3))
qed (simp add: ct_columns_inv_def)

text \<open>The step of \<open>add()\<close> before the row is stored: a full logical block is flushed.\<close>

lemma ct_add_flush:
  assumes inv: "ct_inv s rows b0" and small: "length rows < 2 ^ 32"
    and b: "(if length (ct_keys b0) \<ge> ct_target_rows b0 \<or> any_col_builder_full b0 then ct_flush_block b0 else Inr b0) = Inr b"
  shows "\<exists>blocks cur. rows = concat blocks @ cur \<and> ct_blocks_inv s blocks cur b \<and> ct_rows_inv rows b \<and>
    ct_options b = ct_options b0 \<and> \<not> any_col_builder_full b"
proof -
  obtain blocks0 cur0 where rows: "rows = concat blocks0 @ cur0" and b0: "ct_blocks_inv s blocks0 cur0 b0"
      and r0: "ct_rows_inv rows b0"
    using inv unfolding ct_inv_def by blast
  show ?thesis
  proof (cases "length (ct_keys b0) \<ge> ct_target_rows b0 \<or> any_col_builder_full b0")
    case True
    have "ct_keys b0 = rkeys cur0" "0 < ct_target_rows b0" "ct_columns_inv s cur0 [1..<schema_size s] (ct_builders b0)"
      using b0 unfolding ct_blocks_inv_def by blast+
    then have ne: "cur0 \<noteq> []" using True ct_empty_not_full by (fastforce simp: any_col_builder_full_def)
    have "ct_flush_block b0 = Inr b" using b True by simp
    moreover have "length cur0 < 2 ^ 32" using rows small by simp
    ultimately show ?thesis using ct_flush_block_inv [OF b0 ne] r0 rows
      by (intro exI [of _ "blocks0 @ [cur0]"] exI [of _ "[]"]) simp
  next
    case False
    then show ?thesis using b b0 r0 rows by auto
  qed
qed

lemma ct_add_inv:
  assumes inv: "ct_inv s rows b0" and add: "ct_add r b0 = Inr b'" and small: "length rows < 2 ^ 32"
  shows "ct_inv s (rows @ [r]) b'" "ct_options b' = ct_options b0"
proof -
  let ?flush = "if length (ct_keys b0) \<ge> ct_target_rows b0 \<or> any_col_builder_full b0 then ct_flush_block b0 else Inr b0"
  have nf: "\<not> ct_finished b0" and r0: "ct_rows_inv rows b0" using inv unfolding ct_inv_def ct_blocks_inv_def by blast+
  obtain k where k: "row_key r = Inr k" using add nf by (cases "row_key r") (simp_all add: ct_add_def)
  have ok: "\<not> (\<not> ct_first_row b0 \<and> k < ct_last b0)" using add nf k by (auto simp: ct_add_def)
  obtain b where b: "?flush = Inr b"
    using add nf k ok by (cases "?flush") (auto simp: ct_add_def split del: if_split)
  obtain blocks cur where rows1: "rows = concat blocks @ cur" and b1: "ct_blocks_inv s blocks cur b"
      and r1: "ct_rows_inv rows b" and o1: "ct_options b = ct_options b0"
    using ct_add_flush [OF inv small b] by blast
  obtain bs where bs: "rmap (cb_add r) (ct_builders b) = Inr bs"
    using add nf k ok b by (cases "rmap (cb_add r) (ct_builders b)") (auto simp: ct_add_def split del: if_split)
  have b': "b' = b\<lparr>ct_keys := ct_keys b @ [k], ct_builders := bs, ct_first_row := False, ct_last := k,
                     ct_min := min (ct_min b) k, ct_max := max (ct_max b) k\<rparr>"
    using add nf k ok b bs by (auto simp: ct_add_def split del: if_split)
  have kk: "rkey r = k" using k by (rule rkey_eq)
  have "ct_columns_inv s cur [1..<schema_size s] (ct_builders b)" using b1 unfolding ct_blocks_inv_def by blast
  then have "ct_columns_inv s (cur @ [r]) [1..<schema_size s] bs" using bs rows1 small by (simp add: rmap_cb_add_inv)
  then have "ct_blocks_inv s blocks (cur @ [r]) b'"
    using b1 unfolding ct_blocks_inv_def b' by (simp add: kk)
  moreover have "ct_rows_inv (rows @ [r]) b'"
  proof -
    have "\<forall>x \<in> set rows. rkey x \<le> k"
    proof (cases "rows = []")
      case False
      then have "rkey (last rows) \<le> k" using ok r0 by (auto simp: ct_rows_inv_def)
      moreover have "\<forall>x \<in> set rows. rkey x \<le> rkey (last rows)"
        using r0 False by (auto simp: ct_rows_inv_def sorted_iff_nth_mono last_conv_nth in_set_conv_nth)
      ultimately show ?thesis by force
    qed simp
    then show ?thesis using r1 by (auto simp: b' ct_rows_inv_def sorted_append kk min.commute max.commute)
  qed
  ultimately show "ct_inv s (rows @ [r]) b'" unfolding ct_inv_def using rows1 by (metis append.assoc)
  show "ct_options b' = ct_options b0" using o1 by (simp add: b')
qed

lemma rmap_column_builders:
  assumes "rmap (\<lambda>i. rbind (get_column s i) (\<lambda>c. ColumnSSTBlockBuilder c (word_of_nat i) target)) cis = Inr bs"
  shows "ct_columns_inv s [] cis bs"
  using assms
proof (induction cis arbitrary: bs)
  case (Cons ci cis)
  then obtain c b bs1 where "get_column s ci = Inr c" "ColumnSSTBlockBuilder c (word_of_nat ci) target = Inr b"
      "bs = b # bs1" "ct_columns_inv s [] cis bs1"
    by (auto simp: rbind_eq_Inr)
  then show ?case
    by (auto simp: ct_columns_inv_def get_column_def ColumnSSTBlockBuilder_def col_block_inv_reset split: if_splits)
qed (simp add: ct_columns_inv_def)

lemma ct_start:
  assumes "ColumnSSTableBuilder s options target_rows target_bytes = Inr b"
  shows "ct_inv s [] b" "ct_options b = options"
proof -
  obtain bs where bs: "rmap (\<lambda>i. rbind (get_column s i) (\<lambda>c. ColumnSSTBlockBuilder c (word_of_nat i) target_bytes))
                 [1..<schema_size s] = Inr bs"
    using assms by (auto simp: ColumnSSTableBuilder_def rbind_eq_Inr split: if_splits)
  from rmap_column_builders [OF this] assms bs show "ct_inv s [] b" "ct_options b = options"
    by (auto simp: ColumnSSTableBuilder_def ct_inv_def ct_rows_inv_def ct_blocks_inv_def flushed_candidates_def
        split: if_splits intro!: exI [of _ "[]"])
qed

lemma ct_rows_fold:
  assumes "ct_inv s rows0 b0" "rfold ct_add rows b0 = Inr b" "length (rows0 @ rows) < 2 ^ 32"
  shows "ct_inv s (rows0 @ rows) b \<and> ct_options b = ct_options b0"
  using assms
proof (induction rows arbitrary: rows0 b0)
  case (Cons r rows)
  have small: "length rows0 < 2 ^ 32" "length ((rows0 @ [r]) @ rows) < 2 ^ 32" using Cons.prems(3) by simp_all
  obtain b1 where b1: "ct_add r b0 = Inr b1" "rfold ct_add rows b1 = Inr b"
    using Cons.prems(2) by (auto simp: rbind_eq_Inr)
  note a = ct_add_inv [OF Cons.prems(1) b1(1) small(1)]
  from Cons.IH [OF a(1) b1(2) small(2)] a(2) show ?case by simp
qed simp

section \<open>The finished table\<close>

definition col_table_of ::
    "schema \<Rightarrow> sparse_index_options \<Rightarrow> row list list \<Rightarrow> col_flushed list \<Rightarrow> sst_files \<Rightarrow> bool" where
  "col_table_of s options blocks cfs fs \<longleftrightarrow>
     list_all2 (col_flushed_of s) blocks cfs \<and> sorted (rkeys (concat blocks)) \<and> blocks \<noteq> [] \<and>
     f_data fs = Some (col_data cfs) \<and>
     f_meta fs = Some (concat (map enc_col_meta (concat (col_metas cfs)))) \<and>
     f_index fs = Some (concat (map enc_sparse_entry
       (sparse_entries (choose_sparse_index_step (word_of_nat (length blocks)) options) (flushed_candidates cfs)))) \<and>
     (\<exists>sf. f_stats fs = Some sf \<and> stats_file_bytes s (map flushed_stats cfs) = Inr sf)"

lemma ct_finish_table:
  assumes inv: "ct_inv s rows b0" and fin: "ct_finish s b0 = Inr (result, b')" and small: "length rows < 2 ^ 32"
  shows "\<exists>blocks cfs. concat blocks = rows \<and> col_table_of s (ct_options b0) blocks cfs (ct_files b') \<and>
    result = \<lparr>br_min_key = fold min (rkeys rows) i64_max, br_max_key = fold max (rkeys rows) i64_min,
      br_num_blocks = word_of_nat (length blocks)\<rparr>"
proof -
  obtain blocks0 cur0 where rows: "rows = concat blocks0 @ cur0" and b0: "ct_blocks_inv s blocks0 cur0 b0"
      and r0: "ct_rows_inv rows b0"
    using inv unfolding ct_inv_def by blast
  have nf: "\<not> ct_finished b0" and keys: "ct_keys b0 = rkeys cur0" using b0 unfolding ct_blocks_inv_def by blast+
  have nr: "\<not> ct_first_row b0" "rows \<noteq> []" using fin nf r0 by (auto simp: ct_finish_def ct_rows_inv_def split: if_splits)
  obtain b where b: "(if ct_keys b0 \<noteq> [] then ct_flush_block b0 else Inr b0) = Inr b"
    using fin nf nr by (cases "if ct_keys b0 \<noteq> [] then ct_flush_block b0 else Inr b0") (simp_all add: ct_finish_def)
  have "\<exists>blocks. rows = concat blocks \<and> ct_blocks_inv s blocks [] b \<and> ct_rows_inv rows b \<and>
      ct_options b = ct_options b0"
  proof (cases "cur0 = []")
    case True
    then show ?thesis using b b0 r0 rows keys by auto
  next
    case False
    then have "ct_flush_block b0 = Inr b" "length cur0 < 2 ^ 32" using b keys rows small by simp_all
    then show ?thesis using ct_flush_block_inv [OF b0 False] r0 rows by (intro exI [of _ "blocks0 @ [cur0]"]) simp
  qed
  then obtain blocks where rows1: "rows = concat blocks" and b1: "ct_blocks_inv s blocks [] b"
      and r1: "ct_rows_inv rows b" and o1: "ct_options b = ct_options b0" by blast
  obtain cfs where cfs: "list_all2 (col_flushed_of s) blocks cfs" "ct_data b = col_data cfs"
      "ct_meta b = concat (map enc_col_meta (concat (col_metas cfs)))" "ct_block_stats b = map flushed_stats cfs"
      "ct_sparse b = flushed_candidates cfs" and o: "ct_index b = []" "ct_block_id b = word_of_nat (length blocks)"
    using b1 unfolding ct_blocks_inv_def by blast
  let ?b2 = "ct_write_sparse_index_file (ct_write_info_file b)"
  have b2: "ct_block_stats ?b2 = ct_block_stats b"
    by (simp add: ct_write_sparse_index_file_def ct_write_info_file_def Let_def)
  obtain sf where sf: "stats_file_bytes s (map flushed_stats cfs) = Inr sf"
    using fin nf nr b by (cases "stats_file_bytes s (map flushed_stats cfs)")
      (simp_all add: ct_finish_def ct_write_stats_file_def b2 cfs(4))
  have fin': "result = \<lparr>br_min_key = ct_min b, br_max_key = ct_max b, br_num_blocks = ct_block_id b\<rparr>"
      "b' = ?b2\<lparr>ct_stats := Some sf, ct_finished := True\<rparr>"
    using fin nf nr b sf
    by (simp_all add: ct_finish_def ct_write_stats_file_def cfs(4) ct_write_sparse_index_file_def ct_write_info_file_def Let_def)
  have bl: "blocks \<noteq> []" using nr(2) rows1 by auto
  have "col_table_of s (ct_options b0) blocks cfs (ct_files b')"
    unfolding col_table_of_def
    by (intro conjI exI [of _ sf])
      (use cfs o o1 bl sf r1 rows1 in \<open>simp_all add: fin' ct_files_def ct_write_sparse_index_file_def ct_write_info_file_def
         Let_def ct_rows_inv_def\<close>)
  moreover have "result = \<lparr>br_min_key = fold min (rkeys rows) i64_max, br_max_key = fold max (rkeys rows) i64_min,
      br_num_blocks = word_of_nat (length blocks)\<rparr>"
    using r1 o(2) by (simp add: fin' ct_rows_inv_def)
  ultimately show ?thesis using rows1 by auto
qed

lemma build_col_table_shape:
  assumes "build_col_table s options target_rows target_bytes rows = Inr (result, fs)" "length rows < 2 ^ 32"
  shows "\<exists>blocks cfs. concat blocks = rows \<and> col_table_of s options blocks cfs fs \<and>
    result = \<lparr>br_min_key = fold min (rkeys rows) i64_max, br_max_key = fold max (rkeys rows) i64_min,
      br_num_blocks = word_of_nat (length blocks)\<rparr>"
proof -
  obtain b0 b b' where b: "ColumnSSTableBuilder s options target_rows target_bytes = Inr b0" "rfold ct_add rows b0 = Inr b"
      "ct_finish s b = Inr (result, b')" "fs = ct_files b'"
    using assms by (auto simp: build_col_table_def rbind_eq_Inr)
  have "ct_inv s rows b" "ct_options b = options"
    using ct_rows_fold [OF ct_start(1) [OF b(1)] b(2)] ct_start(2) [OF b(1)] assms(2) by auto
  with ct_finish_table [OF this(1) b(3) assms(2)] b(4) show ?thesis by simp
qed

section \<open>What a logical block of the table holds\<close>

lemma col_block_ofD:
  assumes "col_block_of s rows ci res" "ci < 2 ^ 16"
  shows "cm_min (cbr_meta res) = fold min (rkeys rows) i64_max" "cm_max (cbr_meta res) = fold max (rkeys rows) i64_min"
    "cm_count (cbr_meta res) = word_of_nat (length rows)"
    "map (\<lambda>st. (ns_column st, ns_type st)) (cbr_stats res) =
       map (\<lambda>st. (ns_column st, ns_type st)) (col_reset_numeric_stats ci (columns s ! ci))"
    "stats_inv rows (cbr_stats res)"
    "\<lbrakk>length rows < 2 ^ 32 - 7; cells_fit (col_cells ci rows)\<rbrakk> \<Longrightarrow>
     decode_value_column_block (cbr_data res) (cm_count (cbr_meta res)) (col_type (columns s ! ci)) = Inr (col_cells ci rows)"
proof -
  obtain bb b' where bb: "col_block_inv rows bb" "cb_id bb = word_of_nat ci" "cb_column bb = columns s ! ci"
      "cb_finish bb = Inr (res, b')"
    using assms(1) unfolding col_block_of_def by blast
  have id: "unat (cb_id bb) = ci" using assms(2) by (simp add: bb(2) unat_of_nat)
  have res: "cbr_data res = cb_bitmap bb @ cb_buffer bb" "cbr_stats res = cb_stats bb" "cm_min (cbr_meta res) = cb_min bb"
      "cm_max (cbr_meta res) = cb_max bb" "cm_count (cbr_meta res) = cb_count bb"
    using bb(4) by (auto simp: cb_finish_def split: if_splits)
  note i = bb(1) [unfolded col_block_inv_def Let_def id bb(3)]
  show "cm_min (cbr_meta res) = fold min (rkeys rows) i64_max" "cm_max (cbr_meta res) = fold max (rkeys rows) i64_min"
    "cm_count (cbr_meta res) = word_of_nat (length rows)"
    using i by (simp_all add: res)
  show "map (\<lambda>st. (ns_column st, ns_type st)) (cbr_stats res) =
       map (\<lambda>st. (ns_column st, ns_type st)) (col_reset_numeric_stats ci (columns s ! ci))"
    "stats_inv rows (cbr_stats res)"
    unfolding res using i by blast+
  show "\<lbrakk>length rows < 2 ^ 32 - 7; cells_fit (col_cells ci rows)\<rbrakk> \<Longrightarrow>
     decode_value_column_block (cbr_data res) (cm_count (cbr_meta res)) (col_type (columns s ! ci)) = Inr (col_cells ci rows)"
    using col_block_inv_decode [OF bb(1)] by (simp add: res id bb(3))
qed

lemma col_flushed_ofD:
  assumes "col_flushed_of s rows f"
  shows "rows \<noteq> []" "cf_keys f = rkeys rows" "length (cf_results f) = schema_size s - 1"
    "\<lbrakk>1 \<le> ci; ci < schema_size s\<rbrakk> \<Longrightarrow> col_block_of s rows ci (cf_results f ! (ci - 1))"
    "length rows < 2 ^ 32 \<Longrightarrow> decode_key_block (flushed_key_data f) (word_of_nat (length (cf_keys f))) = Inr (rkeys rows)"
proof -
  show "rows \<noteq> []" "cf_keys f = rkeys rows" "length (cf_results f) = schema_size s - 1"
    using assms by (auto simp: col_flushed_of_def dest!: list_all2_lengthD)
  show "col_block_of s rows ci (cf_results f ! (ci - 1))" if "1 \<le> ci" "ci < schema_size s"
    using assms that by (cases ci) (auto simp: col_flushed_of_def list_all2_conv_all_nth)
  show "decode_key_block (flushed_key_data f) (word_of_nat (length (cf_keys f))) = Inr (rkeys rows)" if "length rows < 2 ^ 32"
    using assms that decode_key_block_encode [of "rkeys rows"] by (simp add: col_flushed_of_def flushed_key_data_def)
qed

lemma flushed_stats_ok:
  assumes wf: "schema_wf s" and size: "schema_size s \<le> 2 ^ 16" and f: "col_flushed_of s rows f"
  shows "block_stats_ok s rows (flushed_stats f)"
proof -
  note fD = col_flushed_ofD [OF f]
  have D: "stats_inv rows (cbr_stats (cf_results f ! j))"
      "map (\<lambda>st. (ns_column st, ns_type st)) (cbr_stats (cf_results f ! j)) =
       map (\<lambda>st. (ns_column st, ns_type st)) (col_reset_numeric_stats (Suc j) (columns s ! Suc j))"
    if "j < length (cf_results f)" for j
    using that fD(3) size col_block_ofD [OF fD(4) [of "Suc j"]] by simp_all
  have ty: "ns_type st = col_type (columns s ! ns_column st)" and inv: "stats_inv rows [st]" if "st \<in> set (flushed_stats f)" for st
  proof -
    obtain j where j: "j < length (cf_results f)" "st \<in> set (cbr_stats (cf_results f ! j))"
      using \<open>st \<in> set (flushed_stats f)\<close> by (auto simp: flushed_stats_def in_set_conv_nth [of _ "cf_results f"])
    have "(ns_column st, ns_type st) \<in> set (map (\<lambda>st. (ns_column st, ns_type st)) (cbr_stats (cf_results f ! j)))"
      using j by force
    then show "ns_type st = col_type (columns s ! ns_column st)"
      unfolding D(2) [OF j(1)] by (auto simp: col_reset_numeric_stats_def zero_stats_def Let_def split: if_splits)
    show "stats_inv rows [st]" using D(1) [OF j(1)] j(2) by (simp add: stats_inv_def)
  qed
  have "\<exists>st \<in> set (flushed_stats f). ns_column st = ci" if c: "(ci, ty) \<in> set (stats_columns s)" for ci ty
  proof -
    have ci: "ci < schema_size s" "is_numeric_type (col_type (columns s ! ci))" "\<not> col_is_key (columns s ! ci)"
      using stats_columns_mem [OF c] by auto
    have "col_is_key (columns s ! 0)" using wf hd_conv_nth [of "columns s"] unfolding schema_wf_def Let_def by metis
    then have "ci \<noteq> 0" using ci(3) by metis
    then obtain j where j: "ci = Suc j" "j < length (cf_results f)" using ci(1) fD(3) by (cases ci) auto
    have "(ci, col_type (columns s ! ci)) \<in> set (map (\<lambda>st. (ns_column st, ns_type st)) (cbr_stats (cf_results f ! j)))"
      unfolding D(2) [OF j(2)] using ci(2) by (simp add: j(1) col_reset_numeric_stats_def zero_stats_def KEY_COLUMN_INDEX_def Let_def)
    then show ?thesis using j(2) nth_mem [OF j(2)] by (fastforce simp: flushed_stats_def)
  qed
  with ty inv show ?thesis by (auto simp: block_stats_ok_def stats_inv_def)
qed

section \<open>Sorted valid rows are never refused\<close>

lemma ct_flush_columns_ok:
  assumes "ct_columns_inv s cur cis bs" "cur \<noteq> []" "length cur < 2 ^ 32"
  shows "\<exists>y. ct_flush_columns i ci bs off = Inr y"
  using assms
proof (induction bs arbitrary: cis ci off)
  case (Cons b bs)
  obtain c cis1 where c: "cis = c # cis1" "col_block_inv cur b" "ct_columns_inv s cur cis1 bs"
    using Cons.prems(1) by (auto simp: ct_columns_inv_def list_all2_Cons2)
  have "cb_count b = word_of_nat (length cur)" using c(2) unfolding col_block_inv_def Let_def by blast
  moreover have "unat (word_of_nat (length cur) :: 32 word) = length cur" using Cons.prems(3) by (rule unat_of_nat_32)
  ultimately have "cb_count b \<noteq> 0" using Cons.prems(2) by auto
  then obtain res b1 where fin: "cb_finish b = Inr (res, b1)" by (simp add: cb_finish_def)
  obtain d m st bs' off' where "ct_flush_columns i (Suc ci) bs (off + word_of_nat (length (cbr_data res))) = Inr (d, m, st, bs', off')"
    using Cons.IH [OF c(3) Cons.prems(2,3)] by (metis prod_cases5)
  with fin show ?case by (simp add: Let_def)
qed simp

lemma ct_flush_block_ok:
  assumes "ct_blocks_inv s blocks cur b" "cur \<noteq> []" "length cur < 2 ^ 32"
  shows "\<exists>b'. ct_flush_block b = Inr b'"
proof -
  have "ct_columns_inv s cur [1..<schema_size s] (ct_builders b)" using assms(1) unfolding ct_blocks_inv_def by blast
  then obtain d m st bs' off' where "ct_flush_columns (ct_block_id b) 0 (ct_builders b)
      (ct_data_offset b + 8 * ucast (word_of_nat (length (ct_keys b)) :: 32 word)) = Inr (d, m, st, bs', off')"
    using ct_flush_columns_ok [OF _ assms(2,3)] by (metis prod_cases5)
  then show ?thesis by (simp add: ct_flush_block_def Let_def)
qed

lemma rmap_cb_add_ok:
  assumes "schema_wf s" "valid_row s r" "schema_size s < 2 ^ 16" "ct_columns_inv s cur cis bs" "\<not> list_ex cb_full bs"
    and "\<forall>ci \<in> set cis. ci < schema_size s"
  shows "\<exists>bs'. rmap (cb_add r) bs = Inr bs'"
proof (rule rmap_ok)
  fix b assume "b \<in> set bs"
  then obtain ci where ci: "ci \<in> set cis" "col_block_inv cur b" "cb_id b = word_of_nat ci" "cb_column b = columns s ! ci"
    using assms(4) unfolding ct_columns_inv_def list_all2_conv_all_nth in_set_conv_nth [of b] by (metis nth_mem)
  have lt: "ci < schema_size s" using ci(1) assms(6) by blast
  then have "unat (cb_id b) = ci" using assms(3) by (simp add: ci(3) unat_of_nat)
  moreover have "\<not> cb_full b" using assms(5) \<open>b \<in> set bs\<close> by (simp add: list_ex_iff)
  ultimately show "\<exists>b'. cb_add r b = Inr b'" using lt ci(4) by (intro cb_add_ok [OF assms(1,2) ci(2) _ _ assms(3)]) simp_all
qed

lemma ct_add_ok:
  assumes wf: "schema_wf s" "valid_row s r" "schema_size s < 2 ^ 16" and inv: "ct_inv s rows b"
    and sorted: "sorted (rkeys (rows @ [r]))" and small: "length rows < 2 ^ 32"
  shows "\<exists>b'. ct_add r b = Inr b'"
proof -
  let ?flush = "if length (ct_keys b) \<ge> ct_target_rows b \<or> any_col_builder_full b then ct_flush_block b else Inr b"
  obtain blocks cur where rows: "rows = concat blocks @ cur" and b0: "ct_blocks_inv s blocks cur b" and r0: "ct_rows_inv rows b"
    using inv unfolding ct_inv_def by blast
  have nf: "\<not> ct_finished b" and keys: "ct_keys b = rkeys cur" "0 < ct_target_rows b"
      and cols: "ct_columns_inv s cur [1..<schema_size s] (ct_builders b)"
    using b0 unfolding ct_blocks_inv_def by blast+
  obtain k r' where r: "r = Some (VInt k) # r'" using valid_row_key [OF wf(1,2)] by auto
  have k: "row_key r = Inr k" "rkey r = k" by (simp_all add: r row_key_def)
  have "\<exists>b1. ?flush = Inr b1"
  proof (cases "length (ct_keys b) \<ge> ct_target_rows b \<or> any_col_builder_full b")
    case True
    then have "cur \<noteq> []" using keys cols ct_empty_not_full by (fastforce simp: any_col_builder_full_def)
    then show ?thesis using ct_flush_block_ok [OF b0] rows small by simp
  qed auto
  then obtain b1 where b1: "?flush = Inr b1" by blast
  obtain blocks1 cur1 where c1: "ct_blocks_inv s blocks1 cur1 b1" "\<not> any_col_builder_full b1"
    using ct_add_flush [OF inv small b1] by blast
  have "ct_columns_inv s cur1 [1..<schema_size s] (ct_builders b1)" using c1(1) unfolding ct_blocks_inv_def by blast
  then obtain bs where "rmap (cb_add r) (ct_builders b1) = Inr bs"
    using rmap_cb_add_ok [OF wf(1,2,3)] c1(2) by (fastforce simp: any_col_builder_full_def)
  moreover have "\<not> (\<not> ct_first_row b \<and> k < ct_last b)"
  proof (cases "rows = []")
    case True
    then show ?thesis using r0 by (simp add: ct_rows_inv_def)
  next
    case False
    then have "rkey (last rows) \<le> k" using sorted k(2) by (simp add: sorted_append)
    then show ?thesis using r0 False by (simp add: ct_rows_inv_def)
  qed
  ultimately show ?thesis using nf b1 k(1) by (auto simp: ct_add_def split del: if_split)
qed

lemma ct_rows_ok:
  assumes "schema_wf s" "schema_size s < 2 ^ 16" "\<forall>r \<in> set rows. valid_row s r" "ct_inv s rows0 b"
    and "sorted (rkeys (rows0 @ rows))" "length (rows0 @ rows) < 2 ^ 32"
  shows "\<exists>b'. rfold ct_add rows b = Inr b'"
  using assms
proof (induction rows arbitrary: rows0 b)
  case (Cons r rows)
  have "sorted (rkeys (rows0 @ [r]))" using Cons.prems(5) by (auto simp: sorted_append)
  moreover have "valid_row s r" and small: "length rows0 < 2 ^ 32" using Cons.prems by simp_all
  ultimately obtain b1 where b1: "ct_add r b = Inr b1" using ct_add_ok [OF Cons.prems(1) _ Cons.prems(2,4)] by blast
  have "\<exists>b'. rfold ct_add rows b1 = Inr b'"
    using Cons.prems ct_add_inv(1) [OF Cons.prems(4) b1 small] by (intro Cons.IH [of "rows0 @ [r]"]) simp_all
  then show ?case using b1 by simp
qed simp

lemma ct_finish_ok:
  assumes wf: "schema_wf s" "schema_size s < 2 ^ 16" and inv: "ct_inv s rows b0" and rows: "rows \<noteq> []" "length rows < 2 ^ 32"
  shows "\<exists>y. ct_finish s b0 = Inr y"
proof -
  obtain blocks0 cur0 where c: "rows = concat blocks0 @ cur0" and b0: "ct_blocks_inv s blocks0 cur0 b0"
      and r0: "ct_rows_inv rows b0"
    using inv unfolding ct_inv_def by blast
  have nf: "\<not> ct_finished b0" "\<not> ct_first_row b0" using b0 r0 rows unfolding ct_blocks_inv_def ct_rows_inv_def by blast+
  have keys: "ct_keys b0 = rkeys cur0" using b0 unfolding ct_blocks_inv_def by blast
  have "\<exists>b blocks cur. (if ct_keys b0 \<noteq> [] then ct_flush_block b0 else Inr b0) = Inr b \<and> ct_blocks_inv s blocks cur b"
  proof (cases "cur0 = []")
    case True
    then show ?thesis using b0 keys by auto
  next
    case False
    have len: "length cur0 < 2 ^ 32" using c rows(2) by simp
    then obtain b where b: "ct_flush_block b0 = Inr b" using ct_flush_block_ok [OF b0 False] by blast
    then show ?thesis using ct_flush_block_inv(1) [OF b0 False len b] False keys by auto
  qed
  then obtain b blocks cur where b: "(if ct_keys b0 \<noteq> [] then ct_flush_block b0 else Inr b0) = Inr b"
      and bi: "ct_blocks_inv s blocks cur b" by blast
  obtain fs where fs: "list_all2 (col_flushed_of s) blocks fs" "ct_block_stats b = map flushed_stats fs"
    using bi unfolding ct_blocks_inv_def by blast
  have "\<exists>f. stats_file_bytes s (ct_block_stats b) = Inr f"
  proof (rule stats_file_bytes_ok)
    fix sts assume "sts \<in> set (ct_block_stats b)"
    then obtain j where "j < length fs" "sts = flushed_stats (fs ! j)" by (auto simp: fs(2) in_set_conv_nth)
    then have "col_flushed_of s (blocks ! j) (fs ! j)" "sts = flushed_stats (fs ! j)"
      using fs(1) by (simp_all add: list_all2_conv_all_nth)
    then show "\<exists>rows. block_stats_ok s rows sts" using flushed_stats_ok [OF wf(1)] wf(2) by auto
  qed
  then obtain f where "stats_file_bytes s (ct_block_stats b) = Inr f" by blast
  then show ?thesis
    using nf b by (simp add: ct_finish_def ct_write_stats_file_def ct_write_sparse_index_file_def ct_write_info_file_def Let_def)
qed

lemma build_col_table_ok:
  assumes "schema_wf s" "schema_size s < 2 ^ 16" "\<forall>r \<in> set rows. valid_row s r" "sorted (rkeys rows)" "rows \<noteq> []"
    and "length rows < 2 ^ 32" "target_rows \<noteq> 0" "target_bytes \<noteq> 0" "so_min_step options \<noteq> 0" "so_min_step options \<le> so_max_step options"
  shows "\<exists>y. build_col_table s options target_rows target_bytes rows = Inr y"
proof -
  have "\<exists>bs. rmap (\<lambda>i. rbind (get_column s i) (\<lambda>c. ColumnSSTBlockBuilder c (word_of_nat i) target_bytes)) [1..<schema_size s] = Inr bs"
    using assms(8) by (intro rmap_ok) (auto simp: get_column_def ColumnSSTBlockBuilder_def schema_size_def)
  moreover have "schema_size s \<noteq> 0" using assms(1) by (auto simp: schema_wf_def schema_size_def)
  ultimately obtain b0 where b0: "ColumnSSTableBuilder s options target_rows target_bytes = Inr b0"
    using assms(7-10) by (auto simp: ColumnSSTableBuilder_def not_less [symmetric])
  obtain b where b: "rfold ct_add rows b0 = Inr b"
    using ct_rows_ok [OF assms(1-3) ct_start(1) [OF b0]] assms(4,6) by auto
  have "ct_inv s rows b" using ct_rows_fold [OF ct_start(1) [OF b0] b] assms(6) by simp
  then obtain y where "ct_finish s b = Inr y" using ct_finish_ok [OF assms(1,2)] assms(5,6) by blast
  with b0 b show ?thesis by (cases y) (simp add: build_col_table_def)
qed

section \<open>Properties\<close>

text \<open>C17: Building a column SSTable from a nonempty list of valid rows in key order always succeeds. The
  result reports the first and the last key, and the files describe consecutive logical blocks, each a
  key block followed by one block per value column, that together hold exactly the rows that were added.\<close>

theorem column_table_built:
  assumes "schema_wf s" "schema_size s < 2 ^ 16" "\<forall>r \<in> set rows. valid_row s r" "sorted (rkeys rows)" "rows \<noteq> []"
    and "length rows < 2 ^ 32" "target_rows \<noteq> 0" "target_bytes \<noteq> 0" "so_min_step options \<noteq> 0" "so_min_step options \<le> so_max_step options"
  shows "\<exists>blocks cfs fs. build_col_table s options target_rows target_bytes rows =
      Inr (\<lparr>br_min_key = rkey (hd rows), br_max_key = rkey (last rows), br_num_blocks = word_of_nat (length blocks)\<rparr>, fs) \<and>
    concat blocks = rows \<and> col_table_of s options blocks cfs fs"
proof -
  obtain result fs where y: "build_col_table s options target_rows target_bytes rows = Inr (result, fs)"
    using build_col_table_ok [OF assms] by auto
  from build_col_table_shape [OF y assms(6)] sorted_rows_bounds [OF assms(4,5)] y show ?thesis by auto
qed

lemma column_table_built_witness:
  "\<exists>blocks cfs fs. build_col_table sample_schema SparseIndexOptions 1 64 sample_rows =
      Inr (\<lparr>br_min_key = rkey (hd sample_rows), br_max_key = rkey (last sample_rows), br_num_blocks = word_of_nat (length blocks)\<rparr>, fs) \<and>
    concat blocks = sample_rows \<and> col_table_of sample_schema SparseIndexOptions blocks cfs fs"
  using column_table_built [of sample_schema sample_rows 1 64 SparseIndexOptions] strict_sorted_imp_sorted [OF sample_rows_sorted]
  by (simp add: SparseIndexOptions_def)

end
