(* ===== verification/Pruning.thy ===== *)
theory Pruning
  imports Meta_Cache Col_Table
begin

text \<open>
  What data skipping may drop: the statistics a table stores for a block were computed from the
  rows of the block, so a block with a row that satisfies every predicate is always kept.
\<close>

definition row_satisfies :: "skip_filter \<Rightarrow> row \<Rightarrow> bool" where
  "row_satisfies f r \<longleftrightarrow> (\<forall>p \<in> set f. cell_satisfies (r ! np_column p) p)"

definition row_nan_free :: "row \<Rightarrow> bool" where
  "row_nan_free r \<longleftrightarrow> (\<forall>d. Some (VDouble d) \<in> set r \<longrightarrow> \<not> d64_isnan d)"

text \<open>Neither the constants of the filter nor the cells of the row it compares with them are NaN.\<close>

definition compares_no_nan :: "skip_filter \<Rightarrow> row \<Rightarrow> bool" where
  "compares_no_nan f r \<longleftrightarrow>
     (\<forall>p \<in> set f. \<not> nval_isnan (np_value p) \<and> (\<forall>d. r ! np_column p = Some (VDouble d) \<longrightarrow> \<not> d64_isnan d))"

lemma set_referenced_columns [simp]: "set (referenced_columns f) = np_column ` set f"
  by (simp add: referenced_columns_def)

lemma stat_inv_cong:
  "stat_inv ty vs st \<Longrightarrow> ns_has st' = ns_has st \<Longrightarrow> ns_type st' = ns_type st \<Longrightarrow> ns_min st' = ns_min st \<Longrightarrow>
   ns_max st' = ns_max st \<Longrightarrow> stat_inv ty vs st'"
  by (simp add: stat_inv_def)

lemma stored_stat_inv:
  assumes ok: "block_stats_ok s rows sts" and col: "(ci, ty) \<in> set (stats_columns s)"
  shows "stat_inv ty (col_cells ci rows) (stored_stat ci ty sts)"
proof -
  obtain st0 where "st0 \<in> set sts" "ns_column st0 = ci" using ok col by (auto simp: block_stats_ok_def)
  then obtain st where st: "find_block_stats sts ci = Some st"
    by (cases "find_block_stats sts ci") (auto simp: find_block_stats_def find_None_iff)
  then have "st \<in> set sts" "ns_column st = ci"
    by (auto simp: find_block_stats_def find_Some_iff in_set_conv_nth)
  then have i: "stat_inv ty (col_cells ci rows) st" "ns_type st = ty"
    using ok stats_columns_mem [OF col] by (auto simp: block_stats_ok_def stats_inv_def)
  show ?thesis
  proof (cases "ns_has st")
    case True
    have "stat_inv ty (col_cells ci rows) \<lparr>ns_column = ci, ns_type = ty, ns_has = True, ns_min = ns_min st, ns_max = ns_max st\<rparr>"
      by (rule stat_inv_cong [OF i(1)]) (simp_all add: True i(2))
    then show ?thesis using True st by (simp add: stored_stat_def)
  next
    case False
    then show ?thesis using i st by (auto simp: stored_stat_def stat_inv_def zero_stats_def Let_def)
  qed
qed

text \<open>The statistics of a range of blocks as read for the predicates of a filter.\<close>

definition stats_for :: "schema \<Rightarrow> num_stats list list \<Rightarrow> skip_filter \<Rightarrow> stats_range \<Rightarrow> bool" where
  "stats_for s bss f sr \<longleftrightarrow>
     unat (sr_first sr) + unat (sr_count sr) \<le> length bss \<and> length bss < 2 ^ 32 \<and>
     (\<forall>c. map_of (sr_by_column sr) c =
        (if c \<in> np_column ` set f then stored_columns s bss (unat (sr_first sr)) (unat (sr_count sr)) c else None))"

lemma stats_forD:
  assumes "stats_for s bss f sr" "map_of (sr_by_column sr) c = Some sts"
  shows "\<exists>ty. (c, ty) \<in> set (stats_columns s) \<and>
    sts = stored_range c ty bss (unat (sr_first sr)) (unat (sr_count sr))"
  using assms by (auto simp: stats_for_def stored_columns_def split: if_splits option.splits dest: map_of_SomeD)

lemma may_satisfy_loop_total:
  assumes "\<And>p sts. p \<in> set ps \<Longrightarrow> map_of (sr_by_column sr) (np_column p) = Some sts \<Longrightarrow> rel < length sts \<Longrightarrow>
             \<exists>b. block_may_satisfy_predicate (sts ! rel) p = Inr b"
  shows "\<exists>b. may_satisfy_loop rel sr ps = Inr b"
  using assms
proof (induction ps)
  case (Cons p ps)
  have IH: "\<exists>b. may_satisfy_loop rel sr ps = Inr b" using Cons.prems by (intro Cons.IH) auto
  show ?case
  proof (cases "map_of (sr_by_column sr) (np_column p)")
    case (Some sts)
    show ?thesis
    proof (cases "rel < length sts")
      case True
      then obtain b where "block_may_satisfy_predicate (sts ! rel) p = Inr b" using Cons.prems [OF _ Some] by auto
      with Some True IH show ?thesis by (cases b) auto
    qed (use Some in auto)
  qed (use IH in auto)
qed (auto intro: exI [of _ True])

lemma block_predicate_total:
  assumes "stat_inv ty vs st" "is_numeric_type ty"
  shows "\<exists>b. block_may_satisfy_predicate st p = Inr b"
  using assms by (auto simp: block_may_satisfy_predicate_def stat_inv_def nval_int_def split: nval.splits)

lemma stats_for_entry:
  assumes sf: "stats_for s bss f sr" and m: "map_of (sr_by_column sr) c = Some sts" and rel: "rel < length sts"
    and ok: "\<forall>bs \<in> set bss. \<exists>rows. block_stats_ok s rows bs"
  shows "\<exists>ty rows. is_numeric_type ty \<and> stat_inv ty (col_cells c rows) (sts ! rel)"
proof -
  obtain ty where ty: "(c, ty) \<in> set (stats_columns s)" "sts = stored_range c ty bss (unat (sr_first sr)) (unat (sr_count sr))"
    using stats_forD [OF sf m] by blast
  have i: "unat (sr_first sr) + rel < length bss" using rel by (auto simp: ty(2) stored_range_def)
  then obtain rows where "block_stats_ok s rows (bss ! (unat (sr_first sr) + rel))" using ok nth_mem by blast
  from stored_stat_inv [OF this ty(1)] have "stat_inv ty (col_cells c rows) (sts ! rel)"
    using rel i by (simp add: ty(2) stored_range_def)
  then show ?thesis using stats_columns_mem [OF ty(1)] by blast
qed

lemma may_satisfy_total:
  assumes "stats_for s bss f sr" "\<forall>bs \<in> set bss. \<exists>rows. block_stats_ok s rows bs"
  shows "\<exists>b. may_satisfy bid sr f = Inr b"
  using may_satisfy_loop_total [of f sr "unat (bid - sr_first sr)"] stats_for_entry [OF assms(1) _ _ assms(2)]
    block_predicate_total by (simp add: may_satisfy_def Let_def) metis

lemma may_satisfy_sound:
  assumes sf: "stats_for s bss f sr" and i: "i < length bss" and ok: "block_stats_ok s rows (bss ! i)"
    and r: "r \<in> set rows" "valid_row s r" "row_satisfies f r" and nan: "compares_no_nan f r"
  shows "may_satisfy (word_of_nat i) sr f = Inr True"
proof (cases "word_of_nat i < sr_first sr \<or> word_of_nat i - sr_first sr \<ge> sr_count sr")
  case True
  then show ?thesis by (auto simp: may_satisfy_def Let_def)
next
  case False
  define rel where "rel = unat (word_of_nat i - sr_first sr)"
  have ui: "unat (word_of_nat i :: 32 word) = i" using i sf by (auto simp: stats_for_def intro: unat_of_nat_32)
  have le: "sr_first sr \<le> word_of_nat i" using False by auto
  have rel: "rel = i - unat (sr_first sr)" unfolding rel_def using unat_sub [OF le] ui by simp
  have fi: "unat (sr_first sr) \<le> i" using le ui by (simp add: word_le_nat_alt)
  have "may_satisfy_loop rel sr f = Inr True"
  proof (rule may_satisfy_loop_sound)
    fix p sts assume p: "p \<in> set f" and m: "map_of (sr_by_column sr) (np_column p) = Some sts" and lt: "rel < length sts"
    let ?c = "np_column p"
    obtain ty where ty: "(?c, ty) \<in> set (stats_columns s)" "sts = stored_range ?c ty bss (unat (sr_first sr)) (unat (sr_count sr))"
      using stats_forD [OF sf m] by blast
    note c = stats_columns_mem [OF ty(1)]
    have len: "length r = schema_size s" using r(2) by (simp add: valid_row_def)
    have "sts ! rel = stored_stat ?c ty (bss ! i)" using lt fi i by (simp add: ty(2) stored_range_def rel)
    then have si: "stat_inv ty (col_cells ?c rows) (sts ! rel)" using stored_stat_inv [OF ok ty(1)] by simp
    have mem: "r ! ?c \<in> set (col_cells ?c rows)" using r(1) by (simp add: col_cells_def)
    have typed: "\<And>x. r ! ?c = Some x \<Longrightarrow> holds_type ty x" using valid_row_cell [OF r(2)] c len by auto
    have sat: "cell_satisfies (r ! ?c) p" using r(3) p by (simp add: row_satisfies_def)
    have n1: "\<not> d64_isnan d" if "r ! ?c = Some (VDouble d)" for d
      using nan p that by (simp add: compares_no_nan_def)
    have n2: "\<not> nval_isnan (np_value p)" using nan p by (simp add: compares_no_nan_def)
    show "block_may_satisfy_predicate (sts ! rel) p = Inr True"
      using c by (intro block_may_satisfy_sound [OF si _ mem typed sat n1 n2]) blast+
  qed
  then show ?thesis using False by (simp add: may_satisfy_def Let_def rel_def)
qed

text \<open>The three pruning functions: nothing is refused, and a block with a matching row stays.\<close>

lemma rfilter_total: "(\<And>x. x \<in> set xs \<Longrightarrow> \<exists>b. p x = Inr b) \<Longrightarrow> rfilter p xs = Inr (filter (\<lambda>x. p x = Inr True) xs)"
  by (induction xs) fastforce+

lemma filter_blocks_total:
  assumes "stats_for s bss f sr" "\<forall>bs \<in> set bss. \<exists>rows. block_stats_ok s rows bs"
  shows "filter_blocks id_of blocks sr f =
    Inr (filter (\<lambda>b. stats_range_empty sr \<or> f = [] \<or> may_satisfy (id_of b) sr f = Inr True) blocks)"
proof (cases "blocks = [] \<or> stats_range_empty sr \<or> f = []")
  case True
  then show ?thesis by (auto simp: filter_blocks_def)
next
  case False
  have "rfilter (\<lambda>b. may_satisfy (id_of b) sr f) blocks = Inr (filter (\<lambda>b. may_satisfy (id_of b) sr f = Inr True) blocks)"
    using may_satisfy_total [OF assms] by (intro rfilter_total)
  with False show ?thesis by (simp add: filter_blocks_def)
qed

end
