(* ===== verification/Cursor.thy ===== *)
theory Cursor
  imports Row_Table "HOL-Library.Multiset"
begin

text \<open>
  The cursor interface \<open>ICursor\<close> (\<open>cursor_interface.hpp\<close>) as a table of operations and the
  locale \<open>icursor\<close> with the contract every cursor keeps: the cursor stands for the list of rows
  it has still to deliver. The memtable cursors, \<open>EmptyCursor\<close>, \<open>ChainCursor\<close> and
  \<open>MergeCursor\<close> (\<open>src/storage/cursor/\<close>) are models of it; the composites are built over any
  cursor that keeps the contract. \<open>std::priority_queue\<close> is a list kept in ascending order, whose
  head is its documented top.
\<close>

section \<open>The interface\<close>

record 'c cursor_ops =
  cur_valid :: "'c \<Rightarrow> bool"
  cur_next :: "'c \<Rightarrow> 'c res"
  cur_key :: "'c \<Rightarrow> key res"
  cur_value :: "'c \<Rightarrow> nat \<Rightarrow> nullable_value res"

text \<open>The loop \<open>while (c->valid()) { body; c->next(); }\<close> of the clients.\<close>

partial_function (option) cursor_loop ::
    "'c cursor_ops \<Rightarrow> ('c \<Rightarrow> 's \<Rightarrow> 's res) \<Rightarrow> 'c \<Rightarrow> 's \<Rightarrow> 's res option" where
  [code]: "cursor_loop ops body c s =
     (if \<not> cur_valid ops c then Some (Inr s)
      else case body c s of
        Inl e \<Rightarrow> Some (Inl e)
      | Inr s' \<Rightarrow> (case cur_next ops c of
          Inl e \<Rightarrow> Some (Inl e)
        | Inr c' \<Rightarrow> cursor_loop ops body c' s'))"

text \<open>A row read through the cursor: its key and the value columns \<open>1 .. width - 1\<close>.\<close>

definition cursor_row :: "'c cursor_ops \<Rightarrow> nat \<Rightarrow> 'c \<Rightarrow> row res" where
  "cursor_row ops width c =
     rbind (cur_key ops c) (\<lambda>k. rbind (rmap (cur_value ops c) [1..<width]) (\<lambda>vs. Inr (Some (VInt k) # vs)))"

definition cursor_rows :: "'c cursor_ops \<Rightarrow> nat \<Rightarrow> 'c \<Rightarrow> row list res option" where
  "cursor_rows ops width c =
     cursor_loop ops (\<lambda>c acc. rbind (cursor_row ops width c) (\<lambda>r. Inr (acc @ [r]))) c []"

text \<open>What the executor reads of a row: its key and the projected columns.\<close>

definition cursor_cells ::
    "'c cursor_ops \<Rightarrow> nat list \<Rightarrow> 'c \<Rightarrow> (key \<times> nullable_value list) list res option" where
  "cursor_cells ops projection c =
     cursor_loop ops (\<lambda>c acc. rbind (cur_key ops c) (\<lambda>k. rbind (rmap (cur_value ops c) projection) (\<lambda>vs. Inr (acc @ [(k, vs)])))) c []"

definition row_cells :: "nat list \<Rightarrow> row \<Rightarrow> key \<times> nullable_value list" where
  "row_cells projection r = (rkey r, map (\<lambda>i. r ! i) projection)"

definition keyed :: "row \<Rightarrow> bool" where
  "keyed r \<longleftrightarrow> (\<exists>k vs. r = Some (VInt k) # vs)"

lemma keyed_row_key: "keyed r \<Longrightarrow> row_key r = Inr (rkey r)"
  by (auto simp: keyed_def row_key_def rkey_def)

locale icursor =
  fixes ops :: "'c cursor_ops" and inv :: "'c \<Rightarrow> bool" and rows :: "'c \<Rightarrow> row list" and cols :: "'c \<Rightarrow> nat set"
  assumes valid_iff: "inv c \<Longrightarrow> cur_valid ops c \<longleftrightarrow> rows c \<noteq> []"
    and key_hd: "inv c \<Longrightarrow> rows c = r # rs \<Longrightarrow> cur_key ops c = Inr (rkey r)"
    and value_hd: "inv c \<Longrightarrow> rows c = r # rs \<Longrightarrow> i \<in> cols c \<Longrightarrow> cur_value ops c i = Inr (r ! i)"
    and next_tl: "inv c \<Longrightarrow> rows c = r # rs \<Longrightarrow>
      \<exists>c'. cur_next ops c = Inr c' \<and> inv c' \<and> rows c' = rs \<and> cols c' = cols c"
begin

lemma loop_rows:
  assumes "inv c" and body: "\<And>c r rs s. inv c \<Longrightarrow> rows c = r # rs \<Longrightarrow> cols c = C \<Longrightarrow> r \<in> R \<Longrightarrow> body c s = f r s"
    and "cols c = C" "set (rows c) \<subseteq> R"
  shows "cursor_loop ops body c s = Some (rfold f (rows c) s)"
  using assms(1,3,4)
proof (induction "rows c" arbitrary: c s)
  case Nil
  then show ?case using valid_iff [of c] by (subst cursor_loop.simps) simp
next
  case (Cons r rs)
  obtain c' where c': "cur_next ops c = Inr c'" "inv c'" "rows c' = rs" "cols c' = cols c"
    using next_tl [OF Cons.prems(1)] Cons.hyps(2) by metis
  have v: "cur_valid ops c" using valid_iff [OF Cons.prems(1)] Cons.hyps(2) by (metis list.distinct(1))
  have b: "body c s = f r s" using body [OF Cons.prems(1)] Cons by (metis list.set_intros(1) subsetD)
  show ?case
  proof (cases "f r s")
    case (Inl e)
    then show ?thesis using v b Cons.hyps(2) by (subst cursor_loop.simps) (simp flip: Cons.hyps(2))
  next
    case (Inr s')
    have "set (rows c') \<subseteq> R" using c'(3) Cons.hyps(2) Cons.prems(3) by (metis list.set_intros(2) subset_iff)
    then have "cursor_loop ops body c' s' = Some (rfold f (rows c') s')"
      using Cons.hyps(1) [of c' s'] c' Cons.prems(2) by simp
    then show ?thesis using v b Inr c' by (subst cursor_loop.simps) (simp flip: Cons.hyps(2))
  qed
qed

lemma row_read:
  assumes "inv c" "rows c = r # rs" "{1..<width} \<subseteq> cols c" "keyed r" "length r = width"
  shows "cursor_row ops width c = Inr r"
proof -
  have "rmap (cur_value ops c) [1..<width] = Inr (map (\<lambda>i. r ! i) [1..<width])"
    using assms value_hd [OF assms(1,2)] by (intro rmap_pure) auto
  also have "map (\<lambda>i. r ! i) [1..<width] = tl r"
    using assms(5) by (intro nth_equalityI) (auto simp: nth_tl)
  finally show ?thesis
    using assms(4) key_hd [OF assms(1,2)] by (auto simp: cursor_row_def keyed_def)
qed

lemma rows_read:
  assumes "inv c" "{1..<width} \<subseteq> cols c" "\<forall>r \<in> set (rows c). keyed r \<and> length r = width"
  shows "cursor_rows ops width c = Some (Inr (rows c))"
proof -
  have "cursor_rows ops width c = Some (rfold (\<lambda>r acc. Inr (acc @ [r])) (rows c) [])"
    unfolding cursor_rows_def
    by (rule loop_rows [OF assms(1), where C = "cols c" and R = "{r. keyed r \<and> length r = width}"])
      (use assms row_read in auto)
  moreover have "rfold (\<lambda>r acc. Inr (acc @ [r])) rs acc = Inr (acc @ rs)" for rs acc :: "row list"
    by (induction rs arbitrary: acc) simp_all
  ultimately show ?thesis by simp
qed

lemma cells_read:
  assumes "inv c" "set projection \<subseteq> cols c"
  shows "cursor_cells ops projection c = Some (Inr (map (row_cells projection) (rows c)))"
proof -
  have "cursor_cells ops projection c = Some (rfold (\<lambda>r acc. Inr (acc @ [row_cells projection r])) (rows c) [])"
    unfolding cursor_cells_def
  proof (rule loop_rows [OF assms(1), where C = "cols c" and R = UNIV])
    fix x r rs and acc :: "(key \<times> nullable_value list) list"
    assume x: "inv x" "rows x = r # rs" "cols x = cols c"
    have "rmap (cur_value ops x) projection = Inr (map (\<lambda>i. r ! i) projection)"
      using assms(2) x value_hd [OF x(1,2)] by (intro rmap_pure) auto
    then show "rbind (cur_key ops x) (\<lambda>k. rbind (rmap (cur_value ops x) projection) (\<lambda>vs. Inr (acc @ [(k, vs)]))) =
        Inr (acc @ [row_cells projection r])"
      using key_hd [OF x(1,2)] by (simp add: row_cells_def)
  qed simp_all
  moreover have "rfold (\<lambda>r acc. Inr (acc @ [row_cells projection r])) rs acc = Inr (acc @ map (row_cells projection) rs)"
    for rs and acc :: "(key \<times> nullable_value list) list"
    by (induction rs arbitrary: acc) simp_all
  ultimately show ?thesis by simp
qed

end

section \<open>Cursors over lists of rows\<close>

text \<open>\<open>ActiveMemTableCursor\<close>: the entries of the map between the two iterators.\<close>

type_synonym active_cursor = "(key \<times> row) list"

definition active_ops :: "active_cursor cursor_ops" where
  "active_ops = \<lparr>
     cur_valid = (\<lambda>c. c \<noteq> []),
     cur_next = (\<lambda>c. if c \<noteq> [] then Inr (tl c) else Inr c),
     cur_key = (\<lambda>c. if c = [] then Inl (LogicError ''ActiveMemTableCursor::key() called on invalid cursor'')
        else Inr (fst (hd c))),
     cur_value = (\<lambda>c i. if c = [] then Inl (LogicError ''ActiveMemTableCursor::value() called on invalid cursor'')
        else if i \<ge> length (snd (hd c)) then Inl (OutOfRange ''Column index out of range'')
        else Inr (snd (hd c) ! i))\<rparr>"

text \<open>\<open>ImmutableMemTableCursor\<close>: the rows of the vector between the two iterators.\<close>

type_synonym imm_cursor = "row list"

definition imm_ops :: "imm_cursor cursor_ops" where
  "imm_ops = \<lparr>
     cur_valid = (\<lambda>c. c \<noteq> []),
     cur_next = (\<lambda>c. if c \<noteq> [] then Inr (tl c) else Inr c),
     cur_key = (\<lambda>c. if c = [] then Inl (LogicError ''ImmutableMemTableCursor::key() called on invalid cursor'')
        else row_key (hd c)),
     cur_value = (\<lambda>c i. if c = [] then Inl (LogicError ''ImmutableMemTableCursor::value() called on invalid cursor'')
        else if i \<ge> length (hd c) then Inl (OutOfRange ''Column index out of range'')
        else Inr (hd c ! i))\<rparr>"

definition empty_ops :: "unit cursor_ops" where
  "empty_ops = \<lparr>
     cur_valid = (\<lambda>_. False),
     cur_next = (\<lambda>c. Inr c),
     cur_key = (\<lambda>_. Inl (LogicError ''EmptyCursor::key() called on invalid cursor'')),
     cur_value = (\<lambda>_ _. Inl (LogicError ''EmptyCursor::value() called on invalid cursor''))\<rparr>"

definition width_inv :: "nat \<Rightarrow> row list \<Rightarrow> bool" where
  "width_inv width rs \<longleftrightarrow> (\<forall>r \<in> set rs. keyed r \<and> length r = width)"

interpretation active: icursor active_ops
    "\<lambda>c. width_inv width (map snd c) \<and> (\<forall>(k, r) \<in> set c. rkey r = k)" "map snd" "\<lambda>c. {..<width}"
  for width
  by unfold_locales (fastforce simp: active_ops_def width_inv_def)+

interpretation imm: icursor imm_ops "width_inv width" "\<lambda>c. c" "\<lambda>c. {..<width}" for width
  by unfold_locales (auto simp: imm_ops_def width_inv_def keyed_row_key)

interpretation empty: icursor empty_ops "\<lambda>_. True" "\<lambda>_. []" "\<lambda>_. UNIV"
  by unfold_locales (auto simp: empty_ops_def)

section \<open>\<open>ChainCursor\<close>\<close>

record 'c chain_cursor =
  ch_cursors :: "'c list"
  ch_current :: nat

text \<open>\<open>skip_invalid_cursors\<close> moves over the cursors from the current one on.\<close>

fun skip_invalid :: "'c cursor_ops \<Rightarrow> 'c list \<Rightarrow> nat \<Rightarrow> nat" where
  "skip_invalid ops [] i = i"
| "skip_invalid ops (c # cs) i = (if \<not> cur_valid ops c then skip_invalid ops cs (Suc i) else i)"

definition skip_invalid_cursors :: "'c cursor_ops \<Rightarrow> 'c chain_cursor \<Rightarrow> 'c chain_cursor" where
  "skip_invalid_cursors ops c =
     c\<lparr>ch_current := skip_invalid ops (drop (ch_current c) (ch_cursors c)) (ch_current c)\<rparr>"

definition ChainCursor :: "'c cursor_ops \<Rightarrow> 'c list \<Rightarrow> 'c chain_cursor" where
  "ChainCursor ops cs = skip_invalid_cursors ops \<lparr>ch_cursors = cs, ch_current = 0\<rparr>"

definition chain_valid :: "'c cursor_ops \<Rightarrow> 'c chain_cursor \<Rightarrow> bool" where
  "chain_valid ops c \<longleftrightarrow> ch_current c < length (ch_cursors c) \<and> cur_valid ops (ch_cursors c ! ch_current c)"

definition chain_next :: "'c cursor_ops \<Rightarrow> 'c chain_cursor \<Rightarrow> 'c chain_cursor res" where
  "chain_next ops c =
     (if \<not> chain_valid ops c then Inr c
      else rbind (cur_next ops (ch_cursors c ! ch_current c)) (\<lambda>c'.
        Inr (skip_invalid_cursors ops (c\<lparr>ch_cursors := (ch_cursors c)[ch_current c := c']\<rparr>))))"

definition chain_ops :: "'c cursor_ops \<Rightarrow> 'c chain_cursor cursor_ops" where
  "chain_ops ops = \<lparr>
     cur_valid = chain_valid ops,
     cur_next = chain_next ops,
     cur_key = (\<lambda>c. if \<not> chain_valid ops c then Inl (LogicError ''ChainCursor::key() called on invalid cursor'')
        else cur_key ops (ch_cursors c ! ch_current c)),
     cur_value = (\<lambda>c i. if \<not> chain_valid ops c then Inl (LogicError ''ChainCursor::value() called on invalid cursor'')
        else cur_value ops (ch_cursors c ! ch_current c) i)\<rparr>"

section \<open>\<open>MergeCursor\<close>\<close>

type_synonym heap_item = "key \<times> nat"

text \<open>\<open>std::pair\<close>'s order, and the priority queue in ascending order.\<close>

definition item_less :: "heap_item \<Rightarrow> heap_item \<Rightarrow> bool" where
  "item_less a b \<longleftrightarrow> fst a < fst b \<or> fst a = fst b \<and> snd a < snd b"

fun heap_push :: "heap_item \<Rightarrow> heap_item list \<Rightarrow> heap_item list" where
  "heap_push x [] = [x]"
| "heap_push x (y # ys) = (if item_less y x then y # heap_push x ys else x # y # ys)"

record 'c merge_cursor =
  mg_cursors :: "'c list"
  mg_heap :: "heap_item list"

definition push_if_valid :: "'c cursor_ops \<Rightarrow> nat \<Rightarrow> 'c merge_cursor \<Rightarrow> 'c merge_cursor res" where
  "push_if_valid ops i m =
     (if cur_valid ops (mg_cursors m ! i) then
        rbind (cur_key ops (mg_cursors m ! i)) (\<lambda>k. Inr (m\<lparr>mg_heap := heap_push (k, i) (mg_heap m)\<rparr>))
      else Inr m)"

definition MergeCursor :: "'c cursor_ops \<Rightarrow> 'c list \<Rightarrow> 'c merge_cursor res" where
  "MergeCursor ops cs = rfold (push_if_valid ops) [0..<length cs] \<lparr>mg_cursors = cs, mg_heap = []\<rparr>"

definition merge_next :: "'c cursor_ops \<Rightarrow> 'c merge_cursor \<Rightarrow> 'c merge_cursor res" where
  "merge_next ops m =
     (if mg_heap m = [] then Inr m
      else let i = snd (hd (mg_heap m)); m1 = m\<lparr>mg_heap := tl (mg_heap m)\<rparr> in
        rbind (cur_next ops (mg_cursors m1 ! i)) (\<lambda>c'.
          push_if_valid ops i (m1\<lparr>mg_cursors := (mg_cursors m1)[i := c']\<rparr>)))"

definition merge_ops :: "'c cursor_ops \<Rightarrow> 'c merge_cursor cursor_ops" where
  "merge_ops ops = \<lparr>
     cur_valid = (\<lambda>m. mg_heap m \<noteq> []),
     cur_next = merge_next ops,
     cur_key = (\<lambda>m. if mg_heap m = [] then Inl (LogicError ''MergeCursor::key() called on invalid cursor'')
        else Inr (fst (hd (mg_heap m)))),
     cur_value = (\<lambda>m ci. if mg_heap m = [] then Inl (LogicError ''MergeCursor::value() called on invalid cursor'')
        else cur_value ops (mg_cursors m ! snd (hd (mg_heap m))) ci)\<rparr>"

section \<open>\<open>compose_cursors\<close>\<close>

datatype 'c composed =
  CEmpty
| COne 'c
| CChain "'c chain_cursor"
| CMerge "'c merge_cursor"

text \<open>A null pointer in the list of cursors is \<open>None\<close>.\<close>

definition compose_cursors :: "'c cursor_ops \<Rightarrow> 'c option list \<Rightarrow> scan_order \<Rightarrow> 'c composed res" where
  "compose_cursors ops cursors order =
     (let valid_cursors = filter (cur_valid ops) (List.map_filter (\<lambda>c. c) cursors) in
      if valid_cursors = [] then Inr CEmpty
      else if length valid_cursors = 1 then Inr (COne (hd valid_cursors))
      else case order of
        Unordered \<Rightarrow> Inr (CChain (ChainCursor ops valid_cursors))
      | KeyAscending \<Rightarrow> rbind (MergeCursor ops valid_cursors) (\<lambda>m. Inr (CMerge m)))"

definition composed_ops :: "'c cursor_ops \<Rightarrow> 'c composed cursor_ops" where
  "composed_ops ops = \<lparr>
     cur_valid = (\<lambda>c. case c of CEmpty \<Rightarrow> False | COne x \<Rightarrow> cur_valid ops x
        | CChain x \<Rightarrow> cur_valid (chain_ops ops) x | CMerge x \<Rightarrow> cur_valid (merge_ops ops) x),
     cur_next = (\<lambda>c. case c of CEmpty \<Rightarrow> Inr CEmpty
        | COne x \<Rightarrow> rbind (cur_next ops x) (\<lambda>y. Inr (COne y))
        | CChain x \<Rightarrow> rbind (cur_next (chain_ops ops) x) (\<lambda>y. Inr (CChain y))
        | CMerge x \<Rightarrow> rbind (cur_next (merge_ops ops) x) (\<lambda>y. Inr (CMerge y))),
     cur_key = (\<lambda>c. case c of CEmpty \<Rightarrow> cur_key empty_ops () | COne x \<Rightarrow> cur_key ops x
        | CChain x \<Rightarrow> cur_key (chain_ops ops) x | CMerge x \<Rightarrow> cur_key (merge_ops ops) x),
     cur_value = (\<lambda>c i. case c of CEmpty \<Rightarrow> cur_value empty_ops () i | COne x \<Rightarrow> cur_value ops x i
        | CChain x \<Rightarrow> cur_value (chain_ops ops) x i | CMerge x \<Rightarrow> cur_value (merge_ops ops) x i)\<rparr>"

end
