(* ===== verification/Cursor_Laws.thy ===== *)
theory Cursor_Laws
  imports Cursor
begin

text \<open>
  The composite cursors keep the contract \<open>icursor\<close> whenever the cursors they are built from do:
  a chain delivers the rows of its cursors one after the other, a merge delivers all of them,
  smallest key first and the earlier cursor first among equal keys.
\<close>

section \<open>Chains\<close>

context icursor
begin

definition chain_inv :: "'c chain_cursor \<Rightarrow> bool" where
  "chain_inv c \<longleftrightarrow> (\<forall>x \<in> set (ch_cursors c). inv x) \<and>
     (ch_current c < length (ch_cursors c) \<longrightarrow> rows (ch_cursors c ! ch_current c) \<noteq> [])"

definition chain_rows :: "'c chain_cursor \<Rightarrow> row list" where
  "chain_rows c = concat (map rows (drop (ch_current c) (ch_cursors c)))"

definition all_cols :: "'c list \<Rightarrow> nat set" where
  "all_cols cs = {i. \<forall>x \<in> set cs. i \<in> cols x}"

lemma all_cols_update:
  "i < length cs \<Longrightarrow> cols c' = cols (cs ! i) \<Longrightarrow> all_cols (cs[i := c']) = all_cols cs"
  unfolding all_cols_def all_set_conv_all_nth by (auto simp: nth_list_update split: if_splits)

lemma skip_invalid_eq: "skip_invalid ops cs i = i + length (takeWhile (\<lambda>c. \<not> cur_valid ops c) cs)"
  by (induction cs arbitrary: i) simp_all

lemma skip_rows:
  assumes "\<forall>x \<in> set (ch_cursors c). inv x"
  shows "chain_rows (skip_invalid_cursors ops c) = chain_rows c" "chain_inv (skip_invalid_cursors ops c)"
    "ch_cursors (skip_invalid_cursors ops c) = ch_cursors c"
proof -
  define xs where "xs = drop (ch_current c) (ch_cursors c)"
  define n where "n = length (takeWhile (\<lambda>c. \<not> cur_valid ops c) xs)"
  have inv: "\<forall>x \<in> set xs. inv x" using assms by (auto simp: xs_def dest: in_set_dropD)
  have cur: "ch_current (skip_invalid_cursors ops c) = ch_current c + n"
    by (simp add: skip_invalid_cursors_def skip_invalid_eq xs_def n_def)
  show cs: "ch_cursors (skip_invalid_cursors ops c) = ch_cursors c" by (simp add: skip_invalid_cursors_def)
  have "rows x = []" if "x \<in> set (take n xs)" for x
  proof -
    have "take n xs = takeWhile (\<lambda>c. \<not> cur_valid ops c) xs" unfolding n_def by (rule takeWhile_eq_take [symmetric])
    then show ?thesis using that inv valid_iff by (metis set_takeWhileD)
  qed
  then have "concat (map rows (take n xs)) = []" by simp
  moreover have "concat (map rows xs) = concat (map rows (take n xs)) @ concat (map rows (drop n xs))"
    by (simp flip: concat_append map_append)
  ultimately have "concat (map rows xs) = concat (map rows (drop n xs))" by simp
  then show "chain_rows (skip_invalid_cursors ops c) = chain_rows c"
    unfolding chain_rows_def cs cur xs_def drop_drop add.commute [of n] by simp
  have "rows (ch_cursors c ! (ch_current c + n)) \<noteq> []" if "ch_current c + n < length (ch_cursors c)"
  proof -
    have "n < length xs" using that by (simp add: xs_def)
    then have "cur_valid ops (xs ! n)" using nth_length_takeWhile [of "\<lambda>c. \<not> cur_valid ops c" xs] by (simp add: n_def)
    moreover have "inv (xs ! n)" using inv \<open>n < length xs\<close> by simp
    ultimately show ?thesis using valid_iff that by (simp add: xs_def)
  qed
  then show "chain_inv (skip_invalid_cursors ops c)" using assms by (simp add: chain_inv_def cs cur)
qed

lemma ChainCursor_rows:
  assumes "\<forall>x \<in> set cs. inv x"
  shows "chain_inv (ChainCursor ops cs)" "chain_rows (ChainCursor ops cs) = concat (map rows cs)"
    "ch_cursors (ChainCursor ops cs) = cs"
  using skip_rows [of "\<lparr>ch_cursors = cs, ch_current = 0\<rparr>"] assms by (simp_all add: ChainCursor_def chain_rows_def)

lemma chain_valid_iff: "chain_inv c \<Longrightarrow> chain_valid ops c \<longleftrightarrow> ch_current c < length (ch_cursors c)"
  using valid_iff by (auto simp: chain_valid_def chain_inv_def)

lemma chain_split:
  assumes "chain_inv c" "chain_rows c = r # rs"
  obtains "ch_current c < length (ch_cursors c)" "chain_valid ops c" "inv (ch_cursors c ! ch_current c)"
    "rows (ch_cursors c ! ch_current c) = r # tl (rows (ch_cursors c ! ch_current c))"
    "rs = tl (rows (ch_cursors c ! ch_current c)) @ concat (map rows (drop (Suc (ch_current c)) (ch_cursors c)))"
proof -
  have lt: "ch_current c < length (ch_cursors c)" using assms(2) by (simp add: chain_rows_def not_less [symmetric])
      (metis concat.simps(1) drop_eq_Nil list.distinct(1) list.simps(8) not_less)
  have i: "inv (ch_cursors c ! ch_current c)" "rows (ch_cursors c ! ch_current c) \<noteq> []"
    using assms(1) lt by (auto simp: chain_inv_def)
  have "chain_rows c = rows (ch_cursors c ! ch_current c) @ concat (map rows (drop (Suc (ch_current c)) (ch_cursors c)))"
    using lt by (simp add: chain_rows_def flip: Cons_nth_drop_Suc)
  then show thesis
    using that lt i chain_valid_iff [OF assms(1)] assms(2)
    by (cases "rows (ch_cursors c ! ch_current c)") auto
qed

lemma chain_icursor: "icursor (chain_ops ops) chain_inv chain_rows (\<lambda>c. all_cols (ch_cursors c))"
proof
  fix c assume c: "chain_inv c"
  show "cur_valid (chain_ops ops) c \<longleftrightarrow> chain_rows c \<noteq> []"
  proof (cases "chain_rows c")
    case Nil
    have "\<not> ch_current c < length (ch_cursors c)"
      using Nil c by (auto simp: chain_rows_def chain_inv_def simp flip: Cons_nth_drop_Suc)
    then show ?thesis using Nil chain_valid_iff [OF c] by (simp add: chain_ops_def)
  next
    case (Cons r rs)
    then show ?thesis using chain_split [OF c Cons] by (simp add: chain_ops_def)
  qed
next
  fix c r rs assume c: "chain_inv c" "chain_rows c = r # rs"
  let ?x = "ch_cursors c ! ch_current c"
  obtain lt: "ch_current c < length (ch_cursors c)" and v: "chain_valid ops c" and i: "inv ?x"
      and r: "rows ?x = r # tl (rows ?x)" and rs: "rs = tl (rows ?x) @ concat (map rows (drop (Suc (ch_current c)) (ch_cursors c)))"
    using chain_split [OF c] by blast
  show "cur_key (chain_ops ops) c = Inr (rkey r)" using v key_hd [OF i r] by (simp add: chain_ops_def)
  show "cur_value (chain_ops ops) c j = Inr (r ! j)" if "j \<in> all_cols (ch_cursors c)" for j
    using v value_hd [OF i r, of j] that lt by (simp add: chain_ops_def all_cols_def)
  obtain c' where c': "cur_next ops ?x = Inr c'" "inv c'" "rows c' = tl (rows ?x)" "cols c' = cols ?x"
    using next_tl [OF i r] by blast
  let ?d = "c\<lparr>ch_cursors := (ch_cursors c)[ch_current c := c']\<rparr>"
  have d: "\<forall>x \<in> set (ch_cursors ?d). inv x"
    using c(1) c'(2) by (auto simp: chain_inv_def dest: set_update_subset_insert [THEN subsetD])
  have "drop (Suc (ch_current c)) (ch_cursors ?d) = drop (Suc (ch_current c)) (ch_cursors c)" by simp
  then have "chain_rows ?d = rs"
    using lt c'(3) rs by (simp add: chain_rows_def flip: Cons_nth_drop_Suc)
  then show "\<exists>c'. cur_next (chain_ops ops) c = Inr c' \<and> chain_inv c' \<and> chain_rows c' = rs \<and>
      all_cols (ch_cursors c') = all_cols (ch_cursors c)"
    using v c'(1,4) skip_rows [OF d] lt
    by (intro exI [of _ "skip_invalid_cursors ops ?d"]) (simp add: chain_ops_def chain_next_def all_cols_update)
qed

end

section \<open>Merging lists of rows\<close>

text \<open>The specification of a merge: repeatedly take the head with the smallest pair (key, index).\<close>

definition merge_items :: "row list list \<Rightarrow> heap_item set" where
  "merge_items rss = {(rkey (hd (rss ! i)), i) | i. i < length rss \<and> rss ! i \<noteq> []}"

fun min_head :: "nat \<Rightarrow> row list list \<Rightarrow> heap_item option" where
  "min_head i [] = None"
| "min_head i ([] # rss) = min_head (Suc i) rss"
| "min_head i ((r # rs) # rss) =
     (case min_head (Suc i) rss of
        None \<Rightarrow> Some (rkey r, i)
      | Some (k, j) \<Rightarrow> if rkey r \<le> k then Some (rkey r, i) else Some (k, j))"

lemma min_head_Some:
  "min_head i rss = Some (k, j) \<Longrightarrow>
     i \<le> j \<and> j - i < length rss \<and> rss ! (j - i) \<noteq> [] \<and> k = rkey (hd (rss ! (j - i))) \<and>
     (\<forall>l < length rss. rss ! l \<noteq> [] \<longrightarrow> \<not> item_less (rkey (hd (rss ! l)), i + l) (k, j))"
proof (induction i rss arbitrary: k j rule: min_head.induct)
  case (2 i rss)
  then have IH: "Suc i \<le> j" "j - Suc i < length rss" "rss ! (j - Suc i) \<noteq> []" "k = rkey (hd (rss ! (j - Suc i)))"
      "\<forall>l < length rss. rss ! l \<noteq> [] \<longrightarrow> \<not> item_less (rkey (hd (rss ! l)), Suc i + l) (k, j)" by auto
  have s: "j - i = Suc (j - Suc i)" using IH(1) by simp
  show ?case unfolding s using IH by (auto simp: less_Suc_eq_0_disj)
next
  case (3 i r rs rss)
  show ?case
  proof (cases "min_head (Suc i) rss")
    case None
    have "\<forall>x \<in> set rss. x = []"
    proof -
      have "min_head n xs = None \<Longrightarrow> \<forall>x \<in> set xs. x = []" for n xs
        by (induction n xs rule: min_head.induct) (auto split: option.splits if_splits)
      with None show ?thesis by blast
    qed
    then show ?thesis using 3(2) None by (auto simp: less_Suc_eq_0_disj item_less_def)
  next
    case (Some p)
    obtain k' j' where p: "p = (k', j')" by (cases p)
    note IH = 3(1) [OF Some [unfolded p]]
    then have s: "j' - i = Suc (j' - Suc i)" by linarith
    show ?thesis
    proof (cases "rkey r \<le> k'")
      case True
      with 3(2) Some p have e: "k = rkey r" "j = i" by auto
      have "\<not> item_less (rkey (hd (rss ! l)), Suc i + l) (rkey r, i)" if "l < length rss" "rss ! l \<noteq> []" for l
        using IH that True by (fastforce simp: item_less_def)
      then show ?thesis using e by (auto simp: less_Suc_eq_0_disj item_less_def)
    next
      case False
      with 3(2) Some p have e: "k = k'" "j = j'" by auto
      show ?thesis unfolding e s using IH False by (auto simp: less_Suc_eq_0_disj item_less_def)
    qed
  qed
qed simp

lemma min_head_None: "min_head i rss = None \<longleftrightarrow> (\<forall>rs \<in> set rss. rs = [])"
  by (induction i rss rule: min_head.induct) (auto split: option.splits if_splits)

function kmerge :: "row list list \<Rightarrow> row list" where
  "kmerge rss = (case min_head 0 rss of None \<Rightarrow> [] | Some (k, i) \<Rightarrow> hd (rss ! i) # kmerge (rss[i := tl (rss ! i)]))"
  by auto
termination
proof (relation "measure (\<lambda>rss. sum_list (map length rss))")
  fix rss p k i assume "min_head 0 rss = Some p" "(k, i) = p"
  then have i: "i < length rss" "rss ! i \<noteq> []" using min_head_Some [of 0 rss k i] by auto
  have "sum_list (map length (rss[i := tl (rss ! i)])) < sum_list (map length rss)"
  proof -
    have "sum_list (map length rss) = sum_list (map length (take i rss)) + length (rss ! i) + sum_list (map length (drop (Suc i) rss))"
      using i(1) by (subst id_take_nth_drop [OF i(1)]) simp
    moreover have "sum_list (map length (rss[i := tl (rss ! i)])) =
        sum_list (map length (take i rss)) + length (tl (rss ! i)) + sum_list (map length (drop (Suc i) rss))"
      using i(1) by (simp add: upd_conv_take_nth_drop)
    ultimately show ?thesis using i(2) by simp
  qed
  then show "(rss[i := tl (rss ! i)], rss) \<in> measure (\<lambda>rss. sum_list (map length rss))" by simp
qed simp

declare kmerge.simps [simp del]

lemma mset_concat_update:
  assumes "i < length rss" "rss ! i \<noteq> []"
  shows "mset (concat rss) = add_mset (hd (rss ! i)) (mset (concat (rss[i := tl (rss ! i)])))"
proof -
  have "mset (concat rss) = mset (concat (take i rss)) + mset (rss ! i) + mset (concat (drop (Suc i) rss))"
    using assms(1) by (subst id_take_nth_drop [OF assms(1)]) simp
  moreover have "mset (rss ! i) = add_mset (hd (rss ! i)) (mset (tl (rss ! i)))" using assms(2) by (cases "rss ! i") auto
  ultimately show ?thesis using assms(1) by (simp add: upd_conv_take_nth_drop)
qed

lemma mset_kmerge: "mset (kmerge rss) = mset (concat rss)"
proof (induction rss rule: kmerge.induct)
  case (1 rss)
  show ?case
  proof (cases "min_head 0 rss")
    case None
    then have "concat rss = []" by (simp add: min_head_None)
    with None show ?thesis by (subst kmerge.simps) (simp del: concat_eq_Nil_conv)
  next
    case (Some p)
    obtain k i where p: "p = (k, i)" by (cases p)
    have i: "i < length rss" "rss ! i \<noteq> []" using min_head_Some [OF Some [unfolded p]] by auto
    have "mset (kmerge (rss[i := tl (rss ! i)])) = mset (concat (rss[i := tl (rss ! i)]))"
      using 1 [OF Some p [symmetric]] by simp
    then show ?thesis using Some p mset_concat_update [OF i] by (subst kmerge.simps) simp
  qed
qed

lemma set_kmerge: "set (kmerge rss) = set (concat rss)"
  using mset_kmerge [of rss] by (metis set_mset_mset)

lemma sorted_kmerge:
  assumes "\<forall>rs \<in> set rss. sorted (rkeys rs)"
  shows "sorted (rkeys (kmerge rss))"
  using assms
proof (induction rss rule: kmerge.induct)
  case (1 rss)
  show ?case
  proof (cases "min_head 0 rss")
    case None
    then show ?thesis by (subst kmerge.simps) simp
  next
    case (Some p)
    obtain k i where p: "p = (k, i)" by (cases p)
    note m = min_head_Some [OF Some [unfolded p]]
    then have i: "i < length rss" "rss ! i \<noteq> []" "k = rkey (hd (rss ! i))" by auto
    let ?rss = "rss[i := tl (rss ! i)]"
    have s': "\<forall>rs \<in> set ?rss. sorted (rkeys rs)"
    proof
      fix rs assume "rs \<in> set ?rss"
      then have "rs \<in> set rss \<or> rs = tl (rss ! i)" by (auto dest: set_update_subset_insert [THEN subsetD])
      then show "sorted (rkeys rs)"
        using 1(2) nth_mem [OF i(1)] by (cases "rss ! i") auto
    qed
    have "k \<le> rkey r" if r: "r \<in> set (concat ?rss)" for r
    proof -
      have "r \<in> set (concat rss)" using r i(1,2) mset_concat_update [OF i(1,2)]
        by (metis insert_iff set_mset_add_mset_insert set_mset_mset)
      then obtain j where j: "j < length rss" "r \<in> set (rss ! j)" unfolding set_concat by (metis UN_E in_set_conv_nth)
      then have ne: "rss ! j \<noteq> []" by auto
      have "rkey (hd (rss ! j)) \<le> rkey r"
        using 1(2) j nth_mem [OF j(1)] by (cases "rss ! j") (auto)
      moreover have "k \<le> rkey (hd (rss ! j))" using m j(1) ne by (fastforce simp: item_less_def)
      ultimately show ?thesis by simp
    qed
    moreover have "sorted (rkeys (kmerge ?rss))" using 1(1) [OF Some p [symmetric] s'] .
    ultimately show ?thesis using Some p i(3)
      by (subst kmerge.simps) (simp add: set_kmerge del: set_concat)
  qed
qed

section \<open>The merge cursor\<close>

lemma item_less_trans: "item_less a b \<Longrightarrow> item_less b c \<Longrightarrow> item_less a c"
  by (auto simp: item_less_def)

lemma item_less_total: "\<not> item_less a b \<Longrightarrow> a \<noteq> b \<Longrightarrow> item_less b a"
  by (cases a; cases b) (auto simp: item_less_def)

lemma set_heap_push: "set (heap_push x h) = insert x (set h)"
  by (induction x h rule: heap_push.induct) auto

lemma heap_push_sorted:
  assumes "sorted_wrt item_less h" "x \<notin> set h"
  shows "sorted_wrt item_less (heap_push x h)" "set (heap_push x h) = insert x (set h)"
proof -
  show "set (heap_push x h) = insert x (set h)" by (rule set_heap_push)
  show "sorted_wrt item_less (heap_push x h)"
    using assms
  proof (induction x h rule: heap_push.induct)
    case (2 x y ys)
    show ?case
    proof (cases "item_less y x")
      case True
      then have "\<forall>z \<in> set (heap_push x ys). item_less y z" using 2(2) unfolding set_heap_push by simp
      then show ?thesis using 2 True by simp
    next
      case False
      then have "item_less x y" using 2(3) item_less_total [of y x] by force
      then show ?thesis using False 2(2) by (auto intro: item_less_trans)
    qed
  qed simp
qed

definition heap_holds :: "row list list \<Rightarrow> nat set \<Rightarrow> heap_item list \<Rightarrow> bool" where
  "heap_holds rss I h \<longleftrightarrow> sorted_wrt item_less h \<and> set h = {x \<in> merge_items rss. snd x \<in> I}"

lemma heap_holds_hd:
  assumes "heap_holds rss UNIV h"
  shows "min_head 0 rss = (if h = [] then None else Some (hd h))"
proof (cases h)
  case Nil
  then have "merge_items rss = {}" using assms by (simp add: heap_holds_def)
  then have "\<forall>rs \<in> set rss. rs = []" by (auto simp: merge_items_def in_set_conv_nth)
  then show ?thesis using Nil by (simp add: min_head_None)
next
  case (Cons x xs)
  then have x: "x \<in> merge_items rss" "\<forall>y \<in> merge_items rss. y = x \<or> item_less x y"
    using assms by (auto simp: heap_holds_def)
  obtain i where i: "x = (rkey (hd (rss ! i)), i)" "i < length rss" "rss ! i \<noteq> []"
    using x(1) by (auto simp: merge_items_def)
  have "min_head 0 rss \<noteq> None" using i by (auto simp: min_head_None)
  then obtain k j where kj: "min_head 0 rss = Some (k, j)" by auto
  note m = min_head_Some [OF kj]
  then have "(k, j) \<in> merge_items rss" by (auto simp: merge_items_def)
  moreover have "\<not> item_less x (k, j)" using m i by auto
  ultimately have "x = (k, j)" using x(2) by auto
  then show ?thesis using kj Cons by simp
qed

context icursor
begin

definition merge_inv :: "'c merge_cursor \<Rightarrow> bool" where
  "merge_inv m \<longleftrightarrow> (\<forall>x \<in> set (mg_cursors m). inv x) \<and> heap_holds (map rows (mg_cursors m)) UNIV (mg_heap m)"

definition merge_rows :: "'c merge_cursor \<Rightarrow> row list" where
  "merge_rows m = kmerge (map rows (mg_cursors m))"

lemma push_if_valid_ok:
  assumes inv: "\<forall>x \<in> set (mg_cursors m). inv x" and h: "heap_holds (map rows (mg_cursors m)) I (mg_heap m)"
    and i: "i < length (mg_cursors m)" "i \<notin> I"
  shows "\<exists>m'. push_if_valid ops i m = Inr m' \<and> mg_cursors m' = mg_cursors m \<and>
    heap_holds (map rows (mg_cursors m)) (insert i I) (mg_heap m')"
proof -
  let ?x = "mg_cursors m ! i" and ?rss = "map rows (mg_cursors m)"
  have ix: "inv ?x" using inv i(1) by simp
  show ?thesis
  proof (cases "rows ?x")
    case Nil
    then have "{x \<in> merge_items ?rss. snd x \<in> insert i I} = {x \<in> merge_items ?rss. snd x \<in> I}"
      using i(1) by (auto simp: merge_items_def)
    then show ?thesis using h Nil valid_iff [OF ix] by (simp add: push_if_valid_def heap_holds_def)
  next
    case (Cons r rs)
    have k: "cur_key ops ?x = Inr (rkey r)" "cur_valid ops ?x"
      using key_hd [OF ix Cons] valid_iff [OF ix] Cons by auto
    have new: "(rkey r, i) \<notin> set (mg_heap m)" using h i(2) by (auto simp: heap_holds_def)
    have "{x \<in> merge_items ?rss. snd x \<in> insert i I} = insert (rkey r, i) {x \<in> merge_items ?rss. snd x \<in> I}"
      using i(1) Cons by (auto simp: merge_items_def)
    then have "heap_holds ?rss (insert i I) (heap_push (rkey r, i) (mg_heap m))"
      using heap_push_sorted [OF _ new] h by (simp add: heap_holds_def)
    then show ?thesis using k by (simp add: push_if_valid_def)
  qed
qed

lemma MergeCursor_ok:
  assumes "\<forall>x \<in> set cs. inv x"
  shows "\<exists>m. MergeCursor ops cs = Inr m \<and> merge_inv m \<and> mg_cursors m = cs"
proof -
  have "n \<le> length cs \<Longrightarrow> \<exists>m. rfold (push_if_valid ops) [0..<n] \<lparr>mg_cursors = cs, mg_heap = []\<rparr> = Inr m \<and>
      mg_cursors m = cs \<and> heap_holds (map rows cs) {..<n} (mg_heap m)" for n
  proof (induction n)
    case 0
    then show ?case by (simp add: heap_holds_def)
  next
    case (Suc n)
    then obtain m where m: "rfold (push_if_valid ops) [0..<n] \<lparr>mg_cursors = cs, mg_heap = []\<rparr> = Inr m"
        "mg_cursors m = cs" "heap_holds (map rows cs) {..<n} (mg_heap m)" by auto
    have "insert n {..<n} = {..<Suc n}" by auto
    then show ?case
      using push_if_valid_ok [of m "{..<n}" n] m Suc.prems assms by (auto simp: rfold_snoc)
  qed
  from this [of "length cs"] obtain m where m: "MergeCursor ops cs = Inr m" "mg_cursors m = cs"
      "heap_holds (map rows cs) {..<length cs} (mg_heap m)"
    by (auto simp: MergeCursor_def)
  have "{x \<in> merge_items (map rows cs). snd x \<in> {..<length cs}} = {x \<in> merge_items (map rows cs). snd x \<in> UNIV}"
    by (auto simp: merge_items_def)
  then show ?thesis using m assms by (auto simp: merge_inv_def heap_holds_def)
qed

lemma merge_split:
  assumes "merge_inv m" "merge_rows m = r # rs"
  obtains i where "mg_heap m \<noteq> []" "hd (mg_heap m) = (rkey r, i)" "i < length (mg_cursors m)" "inv (mg_cursors m ! i)"
    "rows (mg_cursors m ! i) = r # tl (rows (mg_cursors m ! i))"
    "rs = kmerge ((map rows (mg_cursors m))[i := tl (rows (mg_cursors m ! i))])"
proof -
  let ?rss = "map rows (mg_cursors m)"
  have h: "heap_holds ?rss UNIV (mg_heap m)" using assms(1) by (simp add: merge_inv_def)
  have k: "kmerge ?rss = (case min_head 0 ?rss of None \<Rightarrow> [] | Some (k, i) \<Rightarrow> hd (?rss ! i) # kmerge (?rss[i := tl (?rss ! i)]))"
    by (rule kmerge.simps)
  then have ne: "mg_heap m \<noteq> []" using assms(2) heap_holds_hd [OF h] by (auto simp: merge_rows_def)
  obtain k i where ki: "hd (mg_heap m) = (k, i)" by (cases "hd (mg_heap m)")
  then have mh: "min_head 0 ?rss = Some (k, i)" using heap_holds_hd [OF h] ne by simp
  note m = min_head_Some [OF mh]
  then have i: "i < length (mg_cursors m)" "rows (mg_cursors m ! i) \<noteq> []" "k = rkey (hd (rows (mg_cursors m ! i)))" by auto
  have "r # rs = hd (?rss ! i) # kmerge (?rss[i := tl (?rss ! i)])"
    using assms(2) k mh by (simp add: merge_rows_def)
  then have "r = hd (rows (mg_cursors m ! i))" "rs = kmerge (?rss[i := tl (rows (mg_cursors m ! i))])"
    using i(1) by auto
  moreover have "inv (mg_cursors m ! i)" using assms(1) i(1) by (simp add: merge_inv_def)
  ultimately show thesis using that [of i] ne ki i by simp
qed

lemma merge_icursor: "icursor (merge_ops ops) merge_inv merge_rows (\<lambda>m. all_cols (mg_cursors m))"
proof
  fix m assume m: "merge_inv m"
  then have h: "heap_holds (map rows (mg_cursors m)) UNIV (mg_heap m)" by (simp add: merge_inv_def)
  show "cur_valid (merge_ops ops) m \<longleftrightarrow> merge_rows m \<noteq> []"
    using heap_holds_hd [OF h] by (subst merge_rows_def, subst kmerge.simps) (auto simp: merge_ops_def split: prod.splits)
next
  fix m r rs assume m: "merge_inv m" "merge_rows m = r # rs"
  obtain i where i: "mg_heap m \<noteq> []" "hd (mg_heap m) = (rkey r, i)" "i < length (mg_cursors m)" "inv (mg_cursors m ! i)"
      "rows (mg_cursors m ! i) = r # tl (rows (mg_cursors m ! i))"
      "rs = kmerge ((map rows (mg_cursors m))[i := tl (rows (mg_cursors m ! i))])"
    using merge_split [OF m] by blast
  show "cur_key (merge_ops ops) m = Inr (rkey r)" using i(1,2) by (simp add: merge_ops_def)
  show "cur_value (merge_ops ops) m j = Inr (r ! j)" if "j \<in> all_cols (mg_cursors m)" for j
    using i(1-3) value_hd [OF i(4,5), of j] that by (simp add: merge_ops_def all_cols_def)
  obtain c' where c': "cur_next ops (mg_cursors m ! i) = Inr c'" "inv c'" "rows c' = tl (rows (mg_cursors m ! i))"
      "cols c' = cols (mg_cursors m ! i)"
    using next_tl [OF i(4,5)] by blast
  let ?cs = "(mg_cursors m)[i := c']"
  let ?m = "m\<lparr>mg_heap := tl (mg_heap m), mg_cursors := ?cs\<rparr>"
  have rss: "map rows ?cs = (map rows (mg_cursors m))[i := tl (rows (mg_cursors m ! i))]" using c'(3) by (simp add: map_update)
  have inv': "\<forall>x \<in> set (mg_cursors ?m). inv x"
    using m(1) c'(2) by (auto simp: merge_inv_def dest: set_update_subset_insert [THEN subsetD])
  have "heap_holds (map rows (mg_cursors ?m)) (UNIV - {i}) (mg_heap ?m)"
  proof -
    have h: "sorted_wrt item_less (mg_heap m)" "set (mg_heap m) = merge_items (map rows (mg_cursors m))"
      using m(1) by (auto simp: merge_inv_def heap_holds_def)
    have hh: "mg_heap m = (rkey r, i) # tl (mg_heap m)" using i(1,2) by (metis list.collapse)
    have "\<And>x. x \<in> set (tl (mg_heap m)) \<Longrightarrow> item_less (rkey r, i) x" using h(1) hh by (metis sorted_wrt.simps(2))
    moreover have "\<not> item_less (rkey r, i) (rkey r, i)" by (simp add: item_less_def)
    ultimately have "(rkey r, i) \<notin> set (tl (mg_heap m))" by blast
    then have "set (tl (mg_heap m)) = merge_items (map rows (mg_cursors m)) - {(rkey r, i)}"
      using h(2) hh by (metis Diff_insert_absorb list.simps(15))
    also have "\<dots> = {x \<in> merge_items (map rows (mg_cursors m)). snd x \<noteq> i}"
      using i(3,5) by (auto simp: merge_items_def) (metis list.sel(1))
    also have "\<dots> = {x \<in> merge_items (map rows ?cs). snd x \<noteq> i}"
      by (auto simp: merge_items_def rss)
    finally show ?thesis using h(1) hh by (auto simp: heap_holds_def) (metis sorted_wrt.simps(2))+
  qed
  from push_if_valid_ok [OF inv' this, of i] i(3) obtain m' where m':
    "push_if_valid ops i ?m = Inr m'" "mg_cursors m' = ?cs" "heap_holds (map rows ?cs) UNIV (mg_heap m')"
    by (auto simp: insert_Diff_if)
  have "merge_next ops m = Inr m'" using i(1,2) c'(1) m'(1) by (simp add: merge_next_def Let_def)
  moreover have "merge_inv m'" using m'(2,3) inv' by (simp add: merge_inv_def)
  moreover have "merge_rows m' = rs" using m'(2) rss i(6) by (simp add: merge_rows_def)
  moreover have "all_cols ?cs = all_cols (mg_cursors m)" using i(3) c'(4) by (rule all_cols_update)
  ultimately show "\<exists>c'. cur_next (merge_ops ops) m = Inr c' \<and> merge_inv c' \<and> merge_rows c' = rs \<and>
      all_cols (mg_cursors c') = all_cols (mg_cursors m)"
    using m'(2) by (intro exI [of _ m']) (simp add: merge_ops_def)
qed

end

section \<open>Composed cursors\<close>

context icursor
begin

definition composed_inv :: "'c composed \<Rightarrow> bool" where
  "composed_inv c = (case c of CEmpty \<Rightarrow> True | COne x \<Rightarrow> inv x | CChain x \<Rightarrow> chain_inv x | CMerge x \<Rightarrow> merge_inv x)"

definition composed_rows :: "'c composed \<Rightarrow> row list" where
  "composed_rows c = (case c of CEmpty \<Rightarrow> [] | COne x \<Rightarrow> rows x | CChain x \<Rightarrow> chain_rows x | CMerge x \<Rightarrow> merge_rows x)"

definition composed_cols :: "'c composed \<Rightarrow> nat set" where
  "composed_cols c = (case c of CEmpty \<Rightarrow> UNIV | COne x \<Rightarrow> cols x
     | CChain x \<Rightarrow> all_cols (ch_cursors x) | CMerge x \<Rightarrow> all_cols (mg_cursors x))"

lemma composed_icursor: "icursor (composed_ops ops) composed_inv composed_rows composed_cols"
proof -
  note chain = icursor.valid_iff [OF chain_icursor] icursor.key_hd [OF chain_icursor] icursor.value_hd [OF chain_icursor]
    icursor.next_tl [OF chain_icursor]
  note merge = icursor.valid_iff [OF merge_icursor] icursor.key_hd [OF merge_icursor] icursor.value_hd [OF merge_icursor]
    icursor.next_tl [OF merge_icursor]
  show ?thesis
  proof
    fix c assume "composed_inv c"
    then show "cur_valid (composed_ops ops) c \<longleftrightarrow> composed_rows c \<noteq> []"
      using valid_iff chain(1) merge(1)
      by (cases c) (simp_all add: composed_ops_def composed_inv_def composed_rows_def)
  next
    fix c r rs assume c: "composed_inv c" "composed_rows c = r # rs"
    show "cur_key (composed_ops ops) c = Inr (rkey r)"
      using c key_hd chain(2) merge(2)
      by (cases c) (simp_all add: composed_ops_def composed_inv_def composed_rows_def)
    show "cur_value (composed_ops ops) c j = Inr (r ! j)" if "j \<in> composed_cols c" for j
      using that c value_hd chain(3) merge(3)
      by (cases c) (simp_all add: composed_ops_def composed_inv_def composed_rows_def composed_cols_def)
    show "\<exists>c'. cur_next (composed_ops ops) c = Inr c' \<and> composed_inv c' \<and> composed_rows c' = rs \<and> composed_cols c' = composed_cols c"
    proof (cases c)
      case CEmpty
      then show ?thesis using c by (simp add: composed_rows_def)
    next
      case (COne x)
      then obtain y where "cur_next ops x = Inr y" "inv y" "rows y = rs" "cols y = cols x"
        using next_tl [of x r rs] c by (auto simp: composed_inv_def composed_rows_def)
      then show ?thesis using COne
        by (intro exI [of _ "COne y"]) (simp add: composed_ops_def composed_inv_def composed_rows_def composed_cols_def)
    next
      case (CChain x)
      then obtain y where "cur_next (chain_ops ops) x = Inr y" "chain_inv y" "chain_rows y = rs"
          "all_cols (ch_cursors y) = all_cols (ch_cursors x)"
        using chain(4) [of x r rs] c by (auto simp: composed_inv_def composed_rows_def)
      then show ?thesis using CChain
        by (intro exI [of _ "CChain y"]) (simp add: composed_ops_def composed_inv_def composed_rows_def composed_cols_def)
    next
      case (CMerge x)
      then obtain y where "cur_next (merge_ops ops) x = Inr y" "merge_inv y" "merge_rows y = rs"
          "all_cols (mg_cursors y) = all_cols (mg_cursors x)"
        using merge(4) [of x r rs] c by (auto simp: composed_inv_def composed_rows_def)
      then show ?thesis using CMerge
        by (intro exI [of _ "CMerge y"]) (simp add: composed_ops_def composed_inv_def composed_rows_def composed_cols_def)
    qed
  qed
qed

text \<open>What \<open>compose_cursors\<close> delivers: nothing is lost and an ascending scan is sorted.\<close>

definition opt_rows :: "'c option list \<Rightarrow> row list list" where
  "opt_rows cs = map rows (filter (cur_valid ops) (List.map_filter (\<lambda>c. c) cs))"

lemma compose_cursors_ok:
  assumes inv: "\<And>x. Some x \<in> set cs \<Longrightarrow> inv x" and cols: "\<And>x. Some x \<in> set cs \<Longrightarrow> C \<subseteq> cols x"
  shows "\<exists>c. compose_cursors ops cs order = Inr c \<and> composed_inv c \<and> C \<subseteq> composed_cols c \<and>
    composed_rows c = (case order of Unordered \<Rightarrow> concat (opt_rows cs)
       | KeyAscending \<Rightarrow> kmerge (opt_rows cs))"
proof -
  define vs where "vs = filter (cur_valid ops) (List.map_filter (\<lambda>c. c) cs)"
  have vsi: "\<forall>x \<in> set vs. inv x \<and> C \<subseteq> cols x"
  proof
    fix x assume "x \<in> set vs"
    then have "Some x \<in> set cs" by (auto simp: vs_def map_filter_def)
    then show "inv x \<and> C \<subseteq> cols x" using inv cols by blast
  qed
  then have all: "\<forall>x \<in> set vs. inv x" "C \<subseteq> all_cols vs" by (auto simp: all_cols_def)
  consider "vs = []" | x where "vs = [x]" | "vs \<noteq> []" "length vs \<noteq> 1" 
    by (metis One_nat_def length_0_conv length_Suc_conv)
  then show ?thesis
  proof cases
    case 1
    then show ?thesis
      by (auto simp: compose_cursors_def vs_def [symmetric] opt_rows_def composed_inv_def composed_rows_def composed_cols_def
          kmerge.simps split: scan_order.splits)
  next
    case (2 x)
    have "kmerge [rows x] = rows x"
    proof -
      have "kmerge [rs] = rs" for rs
      proof (induction rs)
        case Nil
        show ?case by (subst kmerge.simps) simp
      next
        case (Cons r rs)
        then show ?case by (subst kmerge.simps) simp
      qed
      then show ?thesis .
    qed
    then show ?thesis using 2 vsi
      by (auto simp: compose_cursors_def vs_def [symmetric] opt_rows_def composed_inv_def composed_rows_def composed_cols_def
          split: scan_order.splits)
  next
    case 3
    show ?thesis
    proof (cases order)
      case Unordered
      then show ?thesis using 3 ChainCursor_rows [OF all(1)] all(2)
        by (simp add: compose_cursors_def vs_def [symmetric] opt_rows_def composed_inv_def composed_rows_def composed_cols_def)
    next
      case KeyAscending
      obtain m where m: "MergeCursor ops vs = Inr m" "merge_inv m" "mg_cursors m = vs"
        using MergeCursor_ok [OF all(1)] by blast
      then show ?thesis using 3 KeyAscending all(2)
        by (simp add: compose_cursors_def vs_def [symmetric] opt_rows_def composed_inv_def composed_rows_def composed_cols_def
            merge_rows_def)
    qed
  qed
qed

end

end
