(* ===== verification/Row_Cursor.thy ===== *)
theory Row_Cursor
  imports Cursor_Laws
begin

text \<open>
  \<open>SSTableRowCursor\<close> (\<open>sstable_row_cursor.cpp\<close>): it loads one block after the other, decodes it
  with the projection and steps over the rows outside its key range. The cursor reads through
  \<open>SSTableReader::read_block\<close> without a cache. The lemmas show that it keeps the cursor contract
  and delivers, in order, the rows of its blocks that lie in the range.
\<close>

section \<open>The cursor\<close>

record row_cursor =
  rc_files :: sst_files
  rc_blocks :: "row_block_meta list"
  rc_range :: key_range
  rc_schema :: "value_type list"
  rc_mask :: "bool list"
  rc_next_block :: nat
  rc_rows :: "row list"
  rc_row_idx :: nat

definition read_row_block :: "sst_files \<Rightarrow> row_block_meta \<Rightarrow> byte list res" where
  "read_row_block fs block = read_data_bytes fs (rbm_offset block) (rbm_size block)"

definition load_row_block :: "sst_files \<Rightarrow> value_type list \<Rightarrow> bool list \<Rightarrow> row_block_meta \<Rightarrow> row list res" where
  "load_row_block fs types pm block =
     rbind (read_row_block fs block) (\<lambda>data. decode_row_block data (rbm_count block) types pm)"

definition rc_valid :: "row_cursor \<Rightarrow> bool" where
  "rc_valid c \<longleftrightarrow> rc_row_idx c < length (rc_rows c)"

definition rc_key :: "row_cursor \<Rightarrow> key res" where
  "rc_key c = (if \<not> rc_valid c then Inl (LogicError ''SSTableRowCursor::key() called on invalid cursor'')
     else row_key (rc_rows c ! rc_row_idx c))"

definition rc_value :: "row_cursor \<Rightarrow> nat \<Rightarrow> nullable_value res" where
  "rc_value c ci =
     (if \<not> rc_valid c then Inl (LogicError ''SSTableRowCursor::value() called on invalid cursor'')
      else if ci \<ge> length (rc_schema c) then Inl (OutOfRange ''Column index out of schema range'')
      else let r = rc_rows c ! rc_row_idx c in
        if ci \<ge> length r then Inl (OutOfRange ''Column index out of row range'') else Inr (r ! ci))"

text \<open>\<open>while (valid() && !contains(range_, key())) ++current_row_idx_\<close>, over the rows not yet passed.\<close>

fun skip_rows_loop :: "key_range \<Rightarrow> row list \<Rightarrow> nat \<Rightarrow> nat res" where
  "skip_rows_loop rng [] i = Inr i"
| "skip_rows_loop rng (r # rs) i =
     rbind (row_key r) (\<lambda>k. if \<not> contains rng k then skip_rows_loop rng rs (Suc i) else Inr i)"

definition rc_skip :: "row_cursor \<Rightarrow> row_cursor res" where
  "rc_skip c = rbind (skip_rows_loop (rc_range c) (drop (rc_row_idx c) (rc_rows c)) (rc_row_idx c))
     (\<lambda>i. Inr (c\<lparr>rc_row_idx := i\<rparr>))"

text \<open>The loop of \<open>load_next_non_empty_block\<close> over the blocks not yet loaded.\<close>

fun rc_load_loop :: "row_block_meta list \<Rightarrow> row_cursor \<Rightarrow> row_cursor res" where
  "rc_load_loop [] c = Inr c"
| "rc_load_loop (block # blocks) c0 =
     (let c = c0\<lparr>rc_next_block := Suc (rc_next_block c0)\<rparr> in
      rbind (load_row_block (rc_files c) (rc_schema c) (rc_mask c) block) (\<lambda>rs.
      rbind (rc_skip (c\<lparr>rc_rows := rs, rc_row_idx := 0\<rparr>)) (\<lambda>c1.
        if rc_valid c1 then Inr c1
        else rc_load_loop blocks (c1\<lparr>rc_rows := [], rc_row_idx := 0\<rparr>))))"

definition rc_load_next_non_empty_block :: "row_cursor \<Rightarrow> row_cursor res" where
  "rc_load_next_non_empty_block c =
     rc_load_loop (drop (rc_next_block c) (rc_blocks c)) (c\<lparr>rc_rows := [], rc_row_idx := 0\<rparr>)"

definition rc_next :: "row_cursor \<Rightarrow> row_cursor res" where
  "rc_next c =
     (if \<not> rc_valid c then Inr c
      else
        rbind (rc_skip (c\<lparr>rc_row_idx := Suc (rc_row_idx c)\<rparr>)) (\<lambda>c1.
          if \<not> rc_valid c1 then rc_load_next_non_empty_block c1 else Inr c1))"

definition SSTableRowCursor ::
    "sst_files \<Rightarrow> row_block_meta list \<Rightarrow> key_range \<Rightarrow> value_type list \<Rightarrow> nat list \<Rightarrow> row_cursor res" where
  "SSTableRowCursor fs blocks rng types projection =
     rbind (make_projection_mask (length types) projection) (\<lambda>pm.
       if types = [] then Inl (InvalidArgument ''SSTableRowCursor requires non-empty schema'')
       else if KEY_COLUMN_INDEX \<ge> length types then Inl (InvalidArgument ''Schema does not contain key column'')
       else if types ! KEY_COLUMN_INDEX \<noteq> INT64 then Inl (InvalidArgument ''Key column must have INT64 type'')
       else rc_load_next_non_empty_block \<lparr>rc_files = fs, rc_blocks = blocks, rc_range = rng, rc_schema = types,
         rc_mask = pm, rc_next_block = 0, rc_rows = [], rc_row_idx = 0\<rparr>)"

definition row_cursor_ops :: "row_cursor cursor_ops" where
  "row_cursor_ops = \<lparr>cur_valid = rc_valid, cur_next = rc_next, cur_key = rc_key, cur_value = rc_value\<rparr>"

section \<open>What the cursor delivers\<close>

definition in_rng :: "key_range \<Rightarrow> row list \<Rightarrow> row list" where
  "in_rng rng rs = filter (\<lambda>r. contains rng (rkey r)) rs"

lemma in_rng_simps [simp]:
  "in_rng rng [] = []"
  "in_rng rng (r # rs) = (if contains rng (rkey r) then r # in_rng rng rs else in_rng rng rs)"
  "in_rng rng (xs @ ys) = in_rng rng xs @ in_rng rng ys"
  by (simp_all add: in_rng_def)

text \<open>The rows of a block as the cursor decodes it.\<close>

definition block_rows :: "sst_files \<Rightarrow> value_type list \<Rightarrow> bool list \<Rightarrow> row_block_meta \<Rightarrow> row list" where
  "block_rows fs types pm block = (case load_row_block fs types pm block of Inr rs \<Rightarrow> rs | Inl _ \<Rightarrow> [])"

definition block_ok :: "sst_files \<Rightarrow> value_type list \<Rightarrow> bool list \<Rightarrow> row_block_meta \<Rightarrow> bool" where
  "block_ok fs types pm block \<longleftrightarrow>
     (\<exists>rs. load_row_block fs types pm block = Inr rs \<and> width_inv (length types) rs)"

definition rc_blocks_ok :: "row_cursor \<Rightarrow> bool" where
  "rc_blocks_ok c \<longleftrightarrow>
     (\<forall>b \<in> set (drop (rc_next_block c) (rc_blocks c)). block_ok (rc_files c) (rc_schema c) (rc_mask c) b)"

definition rc_later :: "row_cursor \<Rightarrow> row list" where
  "rc_later c = concat (map (\<lambda>b. in_rng (rc_range c) (block_rows (rc_files c) (rc_schema c) (rc_mask c) b))
     (drop (rc_next_block c) (rc_blocks c)))"

definition rc_remaining :: "row_cursor \<Rightarrow> row list" where
  "rc_remaining c = in_rng (rc_range c) (drop (rc_row_idx c) (rc_rows c)) @ rc_later c"

definition rc_inv :: "row_cursor \<Rightarrow> bool" where
  "rc_inv c \<longleftrightarrow>
     rc_blocks_ok c \<and> width_inv (length (rc_schema c)) (rc_rows c) \<and>
     (rc_valid c \<longrightarrow> contains (rc_range c) (rkey (rc_rows c ! rc_row_idx c))) \<and>
     (\<not> rc_valid c \<longrightarrow> rc_later c = [])"

lemma skip_rows_loop_ok:
  assumes "\<forall>r \<in> set rs. keyed r"
  shows "skip_rows_loop rng rs i = Inr (i + length (takeWhile (\<lambda>r. \<not> contains rng (rkey r)) rs))"
  using assms by (induction rs arbitrary: i) (auto simp: keyed_row_key)

lemma in_rng_dropWhile:
  "in_rng rng (drop (length (takeWhile (\<lambda>r. \<not> contains rng (rkey r)) rs)) rs) = in_rng rng rs"
  by (induction rs) auto

text \<open>Skipping moves to the first row in the range and changes nothing else.\<close>

lemma rc_skip_ok:
  assumes w: "width_inv n (rc_rows c)"
  shows "\<exists>i. rc_skip c = Inr (c\<lparr>rc_row_idx := i\<rparr>) \<and>
    in_rng (rc_range c) (drop i (rc_rows c)) = in_rng (rc_range c) (drop (rc_row_idx c) (rc_rows c)) \<and>
    (i < length (rc_rows c) \<longrightarrow> contains (rc_range c) (rkey (rc_rows c ! i)))"
proof -
  let ?xs = "drop (rc_row_idx c) (rc_rows c)" let ?P = "\<lambda>r. \<not> contains (rc_range c) (rkey r)"
  define n where "n = length (takeWhile ?P ?xs)"
  have k: "\<forall>r \<in> set ?xs. keyed r" using w by (auto simp: width_inv_def dest: in_set_dropD)
  have "rc_skip c = Inr (c\<lparr>rc_row_idx := rc_row_idx c + n\<rparr>)"
    using skip_rows_loop_ok [OF k] by (simp add: rc_skip_def n_def)
  moreover have "in_rng (rc_range c) (drop (rc_row_idx c + n) (rc_rows c)) = in_rng (rc_range c) ?xs"
    using in_rng_dropWhile [of "rc_range c" ?xs] by (simp add: n_def add.commute)
  moreover have "contains (rc_range c) (rkey (rc_rows c ! (rc_row_idx c + n)))" if "rc_row_idx c + n < length (rc_rows c)"
  proof -
    have "n < length ?xs" using that by simp
    then have "\<not> ?P (?xs ! n)" using nth_length_takeWhile [of ?P ?xs] by (simp add: n_def)
    then show ?thesis using that by simp
  qed
  ultimately show ?thesis by blast
qed

lemma rc_load_loop_ok:
  assumes "blocks = drop (rc_next_block c) (rc_blocks c)" "rc_blocks_ok c" "rc_rows c = []" "rc_row_idx c = 0"
  shows "\<exists>c'. rc_load_loop blocks c = Inr c' \<and> rc_inv c' \<and> rc_remaining c' = rc_later c \<and> rc_schema c' = rc_schema c"
  using assms
proof (induction blocks arbitrary: c)
  case Nil
  then have "rc_later c = []" by (simp add: rc_later_def)
  then show ?case using Nil by (auto simp: rc_inv_def rc_remaining_def rc_valid_def width_inv_def)
next
  case (Cons b blocks)
  let ?f = "rc_files c" and ?t = "rc_schema c" and ?m = "rc_mask c" and ?rng = "rc_range c"
  have bs: "drop (rc_next_block c) (rc_blocks c) = b # blocks" using Cons.prems(1) by simp
  then have blocks: "blocks = drop (Suc (rc_next_block c)) (rc_blocks c)" by (metis drop_Suc list.sel(3) tl_drop)
  obtain rs where rs: "load_row_block ?f ?t ?m b = Inr rs" "width_inv (length ?t) rs"
    using Cons.prems(2) bs by (auto simp: rc_blocks_ok_def block_ok_def)
  let ?c = "c\<lparr>rc_next_block := Suc (rc_next_block c), rc_rows := rs, rc_row_idx := 0\<rparr>"
  have ok: "rc_blocks_ok ?c" using Cons.prems(2) bs by (auto simp: rc_blocks_ok_def simp flip: blocks)
  obtain i where i: "rc_skip ?c = Inr (?c\<lparr>rc_row_idx := i\<rparr>)" "in_rng ?rng (drop i rs) = in_rng ?rng rs"
      "i < length rs \<longrightarrow> contains ?rng (rkey (rs ! i))"
    using rc_skip_ok [of "length ?t" ?c] rs(2) by auto
  have later: "rc_later c = in_rng ?rng rs @ rc_later ?c"
    using bs rs(1) by (simp add: rc_later_def block_rows_def flip: blocks)
  show ?case
  proof (cases "i < length rs")
    case True
    then have "rc_load_loop (b # blocks) c = Inr (?c\<lparr>rc_row_idx := i\<rparr>)"
      using rs(1) i(1) by (simp add: rc_valid_def Let_def)
    moreover have "rc_inv (?c\<lparr>rc_row_idx := i\<rparr>)"
      using ok rs(2) i(3) True by (simp add: rc_inv_def rc_valid_def rc_blocks_ok_def)
    moreover have "rc_remaining (?c\<lparr>rc_row_idx := i\<rparr>) = rc_later c"
      using i(2) later by (simp add: rc_remaining_def rc_later_def)
    ultimately show ?thesis by auto
  next
    case False
    let ?d = "?c\<lparr>rc_row_idx := i, rc_rows := [], rc_row_idx := 0\<rparr>"
    have step: "rc_load_loop (b # blocks) c = rc_load_loop blocks ?d"
      using rs(1) i(1) False by (simp add: rc_valid_def Let_def)
    have "in_rng ?rng rs = []" using False i(2) by simp
    then have "rc_later ?d = rc_later c" using later by (simp add: rc_later_def)
    moreover have "rc_blocks_ok ?d" using ok by (simp add: rc_blocks_ok_def)
    ultimately show ?thesis using Cons.IH [of ?d] blocks unfolding step by simp
  qed
qed

lemma rc_load_ok:
  assumes "rc_blocks_ok c"
  shows "\<exists>c'. rc_load_next_non_empty_block c = Inr c' \<and> rc_inv c' \<and> rc_remaining c' = rc_later c \<and> rc_schema c' = rc_schema c"
  using rc_load_loop_ok [of _ "c\<lparr>rc_rows := [], rc_row_idx := 0\<rparr>"] assms
  by (simp add: rc_load_next_non_empty_block_def rc_blocks_ok_def rc_later_def)

lemma rc_remaining_valid:
  assumes "rc_inv c"
  shows "rc_valid c \<longleftrightarrow> rc_remaining c \<noteq> []"
    "rc_valid c \<Longrightarrow> rc_remaining c = rc_rows c ! rc_row_idx c # in_rng (rc_range c) (drop (Suc (rc_row_idx c)) (rc_rows c)) @ rc_later c"
proof -
  show v: "rc_valid c \<Longrightarrow> rc_remaining c = rc_rows c ! rc_row_idx c # in_rng (rc_range c) (drop (Suc (rc_row_idx c)) (rc_rows c)) @ rc_later c"
    using assms by (simp add: rc_inv_def rc_valid_def rc_remaining_def flip: Cons_nth_drop_Suc)
  show "rc_valid c \<longleftrightarrow> rc_remaining c \<noteq> []"
  proof (cases "rc_valid c")
    case True
    then show ?thesis using v by simp
  next
    case False
    then show ?thesis using assms by (simp add: rc_inv_def rc_remaining_def rc_valid_def)
  qed
qed

interpretation row_cur: icursor row_cursor_ops rc_inv rc_remaining "\<lambda>c. {..<length (rc_schema c)}"
proof
  fix c assume c: "rc_inv c"
  show "cur_valid row_cursor_ops c \<longleftrightarrow> rc_remaining c \<noteq> []"
    using rc_remaining_valid(1) [OF c] by (simp add: row_cursor_ops_def)
next
  fix c r rs assume c: "rc_inv c" "rc_remaining c = r # rs"
  then have v: "rc_valid c" using rc_remaining_valid(1) [OF c(1)] by simp
  have r: "r = rc_rows c ! rc_row_idx c" "rs = in_rng (rc_range c) (drop (Suc (rc_row_idx c)) (rc_rows c)) @ rc_later c"
    using rc_remaining_valid(2) [OF c(1) v] c(2) by simp_all
  have w: "width_inv (length (rc_schema c)) (rc_rows c)" using c(1) by (simp add: rc_inv_def)
  then have kr: "keyed r" "length r = length (rc_schema c)" using v by (simp_all add: width_inv_def rc_valid_def r(1))
  show "cur_key row_cursor_ops c = Inr (rkey r)"
    using v keyed_row_key [OF kr(1)] by (simp add: row_cursor_ops_def rc_key_def flip: r(1))
  show "cur_value row_cursor_ops c j = Inr (r ! j)" if "j \<in> {..<length (rc_schema c)}" for j
    using v kr(2) that by (simp add: row_cursor_ops_def rc_value_def flip: r(1))
  let ?c = "c\<lparr>rc_row_idx := Suc (rc_row_idx c)\<rparr>"
  have "width_inv (length (rc_schema c)) (rc_rows ?c)" using w by simp
  from rc_skip_ok [OF this] obtain i where i: "rc_skip ?c = Inr (?c\<lparr>rc_row_idx := i\<rparr>)"
      "in_rng (rc_range c) (drop i (rc_rows c)) = in_rng (rc_range c) (drop (Suc (rc_row_idx c)) (rc_rows c))"
      "i < length (rc_rows c) \<longrightarrow> contains (rc_range c) (rkey (rc_rows c ! i))"
    by auto
  let ?d = "c\<lparr>rc_row_idx := i\<rparr>"
  have bo: "rc_blocks_ok ?d" using c(1) by (simp add: rc_inv_def rc_blocks_ok_def)
  have later: "rc_later ?d = rc_later c" by (simp add: rc_later_def)
  show "\<exists>c'. cur_next row_cursor_ops c = Inr c' \<and> rc_inv c' \<and> rc_remaining c' = rs \<and>
      {..<length (rc_schema c')} = {..<length (rc_schema c)}"
  proof (cases "i < length (rc_rows c)")
    case True
    then have "rc_next c = Inr ?d" using v i(1) by (simp add: rc_next_def rc_valid_def)
    moreover have "rc_inv ?d" using True bo w i(3) by (simp add: rc_inv_def rc_valid_def)
    moreover have "rc_remaining ?d = rs" using i(2) r(2) later by (simp add: rc_remaining_def)
    ultimately show ?thesis by (auto simp: row_cursor_ops_def)
  next
    case False
    then have "rc_next c = rc_load_next_non_empty_block ?d" using v i(1) by (simp add: rc_next_def rc_valid_def)
    moreover have "rs = rc_later ?d" using False i(2) r(2) later by simp
    ultimately show ?thesis using rc_load_ok [OF bo] by (auto simp: row_cursor_ops_def)
  qed
qed

end
