(* ===== verification/Col_Cursor.thy ===== *)
theory Col_Cursor
  imports Row_Cursor Col_Table
begin

text \<open>
  \<open>SSTableColumnCursor\<close> (\<open>sstable_column_cursor.cpp\<close>): it loads the blocks of one logical block
  after the other, decoding the key block and the projected value columns only. The lemmas show
  that it keeps the cursor contract and delivers the rows of its logical blocks in the range.
\<close>

section \<open>The cursor\<close>

record col_cursor =
  cc_files :: sst_files
  cc_blocks :: "col_block_meta list"
  cc_range :: key_range
  cc_schema :: "value_type list"
  cc_projection :: "nat list"
  cc_next_block :: nat
  cc_row_idx :: nat
  cc_keys :: "key list"
  cc_columns :: "nullable_value list list"

definition read_column_block :: "sst_files \<Rightarrow> col_block_meta \<Rightarrow> byte list res" where
  "read_column_block fs block = read_data_bytes fs (cm_offset block) (cm_size block)"

definition cc_valid :: "col_cursor \<Rightarrow> bool" where
  "cc_valid c \<longleftrightarrow> cc_row_idx c < length (cc_keys c)"

definition cc_key :: "col_cursor \<Rightarrow> key res" where
  "cc_key c = (if \<not> cc_valid c then Inl (LogicError ''SSTableColumnCursor::key() called on invalid cursor'')
     else Inr (cc_keys c ! cc_row_idx c))"

definition cc_value :: "col_cursor \<Rightarrow> nat \<Rightarrow> nullable_value res" where
  "cc_value c ci =
     (if \<not> cc_valid c then Inl (LogicError ''SSTableColumnCursor::value() called on invalid cursor'')
      else if ci \<ge> length (cc_schema c) then Inl (OutOfRange ''Column index out of schema range'')
      else if ci = KEY_COLUMN_INDEX then Inr (Some (VInt (cc_keys c ! cc_row_idx c)))
      else let column = cc_columns c ! ci in
        if column = [] then Inl (LogicError ''Column is not loaded'')
        else if cc_row_idx c \<ge> length column then Inl (OutOfRange ''Column value index out of range'')
        else Inr (column ! cc_row_idx c))"

text \<open>The inner loop: the blocks of one logical block, into the keys and the columns.\<close>

fun cc_load_group ::
    "sst_files \<Rightarrow> value_type list \<Rightarrow> nat list \<Rightarrow> col_block_meta list \<Rightarrow> key list \<times> nullable_value list list \<Rightarrow>
     (key list \<times> nullable_value list list) res"
where
  "cc_load_group fs types projection [] (ks, cols) = Inr (ks, cols)"
| "cc_load_group fs types projection (block # blocks) (ks, cols) =
     (let ci = unat (cm_column_idx block) in
      if ci \<ge> length types then Inl (RuntimeError ''Column block index is out of schema range'')
      else if ci = KEY_COLUMN_INDEX then
        rbind (read_column_block fs block) (\<lambda>data.
        rbind (decode_key_block data (cm_count block)) (\<lambda>ks'. cc_load_group fs types projection blocks (ks', cols)))
      else if ci \<notin> set projection then cc_load_group fs types projection blocks (ks, cols)
      else
        rbind (read_column_block fs block) (\<lambda>data.
        rbind (decode_value_column_block data (cm_count block) (types ! ci)) (\<lambda>vs.
          cc_load_group fs types projection blocks (ks, cols[ci := vs]))))"

fun skip_keys_loop :: "key_range \<Rightarrow> key list \<Rightarrow> nat \<Rightarrow> nat" where
  "skip_keys_loop rng [] i = i"
| "skip_keys_loop rng (k # ks) i = (if \<not> contains rng k then skip_keys_loop rng ks (Suc i) else i)"

definition cc_skip :: "col_cursor \<Rightarrow> col_cursor" where
  "cc_skip c = c\<lparr>cc_row_idx := skip_keys_loop (cc_range c) (drop (cc_row_idx c) (cc_keys c)) (cc_row_idx c)\<rparr>"

definition cc_clear :: "col_cursor \<Rightarrow> col_cursor" where
  "cc_clear c = c\<lparr>cc_keys := [], cc_columns := map (\<lambda>_. []) (cc_columns c), cc_row_idx := 0\<rparr>"

text \<open>
  The outer loop over the blocks not yet loaded. The blocks whose id is that of the first one are
  the ones the inner loop takes.
\<close>

abbreviation same_block :: "col_block_meta \<Rightarrow> col_block_meta \<Rightarrow> bool" where
  "same_block b \<equiv> (\<lambda>x. cm_block_id x = cm_block_id b)"

function cc_load_loop :: "col_block_meta list \<Rightarrow> col_cursor \<Rightarrow> col_cursor res" where
  "cc_load_loop [] c = Inr c"
| "cc_load_loop (b # bs) c0 =
     (let group = takeWhile (same_block b) (b # bs); c = c0\<lparr>cc_next_block := cc_next_block c0 + length group\<rparr> in
      rbind (cc_load_group (cc_files c) (cc_schema c) (cc_projection c) group (cc_keys c, cc_columns c)) (\<lambda>(ks, cols).
        let c1 = cc_skip (c\<lparr>cc_keys := ks, cc_columns := cols\<rparr>) in
        if cc_valid c1 then Inr c1
        else cc_load_loop (dropWhile (same_block b) (b # bs)) (cc_clear c1)))"
  by pat_completeness auto
termination
  by (relation "measure (\<lambda>(bs, c). length bs)") (auto simp: less_Suc_eq_le length_dropWhile_le)

definition cc_load_next_non_empty_block :: "col_cursor \<Rightarrow> col_cursor res" where
  "cc_load_next_non_empty_block c = cc_load_loop (drop (cc_next_block c) (cc_blocks c)) (cc_clear c)"

definition cc_next :: "col_cursor \<Rightarrow> col_cursor res" where
  "cc_next c =
     (if \<not> cc_valid c then Inr c
      else let c1 = cc_skip (c\<lparr>cc_row_idx := Suc (cc_row_idx c)\<rparr>) in
        if \<not> cc_valid c1 then cc_load_next_non_empty_block c1 else Inr c1)"

definition SSTableColumnCursor ::
    "sst_files \<Rightarrow> col_block_meta list \<Rightarrow> key_range \<Rightarrow> value_type list \<Rightarrow> nat list \<Rightarrow> col_cursor res" where
  "SSTableColumnCursor fs blocks rng types projection =
     (if types = [] then Inl (InvalidArgument ''SSTableColumnCursor requires non-empty schema'')
      else if KEY_COLUMN_INDEX \<ge> length types then Inl (InvalidArgument ''Schema does not contain key column'')
      else if types ! KEY_COLUMN_INDEX \<noteq> INT64 then Inl (InvalidArgument ''Key column must have INT64 type'')
      else cc_load_next_non_empty_block \<lparr>cc_files = fs, cc_blocks = blocks, cc_range = rng, cc_schema = types,
        cc_projection = projection, cc_next_block = 0, cc_row_idx = 0, cc_keys = [],
        cc_columns = replicate (length types) []\<rparr>)"

definition column_cursor_ops :: "col_cursor cursor_ops" where
  "column_cursor_ops = \<lparr>cur_valid = cc_valid, cur_next = cc_next, cur_key = cc_key, cur_value = cc_value\<rparr>"

section \<open>What the cursor delivers\<close>

text \<open>The blocks cut into logical blocks, and the rows of one logical block.\<close>

function column_groups :: "col_block_meta list \<Rightarrow> col_block_meta list list" where
  "column_groups [] = []"
| "column_groups (b # bs) = takeWhile (same_block b) (b # bs) # column_groups (dropWhile (same_block b) (b # bs))"
  by pat_completeness auto
termination
  by (relation "measure length") (auto simp: less_Suc_eq_le length_dropWhile_le)

definition column_row :: "nat \<Rightarrow> key list \<Rightarrow> nullable_value list list \<Rightarrow> nat \<Rightarrow> row" where
  "column_row n ks cols i =
     Some (VInt (ks ! i)) # map (\<lambda>ci. if i < length (cols ! ci) then cols ! ci ! i else None) [1..<n]"

definition column_rows :: "nat \<Rightarrow> key list \<Rightarrow> nullable_value list list \<Rightarrow> row list" where
  "column_rows n ks cols = map (column_row n ks cols) [0..<length ks]"

definition columns_loaded :: "nat list \<Rightarrow> nat \<Rightarrow> key list \<Rightarrow> nullable_value list list \<Rightarrow> bool" where
  "columns_loaded projection n ks cols \<longleftrightarrow>
     length cols = n \<and> (\<forall>ci \<in> set projection. 0 < ci \<longrightarrow> ci < n \<longrightarrow> length (cols ! ci) = length ks)"

definition load_group :: "sst_files \<Rightarrow> value_type list \<Rightarrow> nat list \<Rightarrow> col_block_meta list \<Rightarrow> (key list \<times> nullable_value list list) res" where
  "load_group fs types projection g = cc_load_group fs types projection g ([], replicate (length types) [])"

definition group_rows :: "sst_files \<Rightarrow> value_type list \<Rightarrow> nat list \<Rightarrow> col_block_meta list \<Rightarrow> row list" where
  "group_rows fs types projection g =
     (case load_group fs types projection g of Inr (ks, cols) \<Rightarrow> column_rows (length types) ks cols | Inl _ \<Rightarrow> [])"

definition group_ok :: "sst_files \<Rightarrow> value_type list \<Rightarrow> nat list \<Rightarrow> col_block_meta list \<Rightarrow> bool" where
  "group_ok fs types projection g \<longleftrightarrow>
     (\<exists>ks cols. load_group fs types projection g = Inr (ks, cols) \<and> columns_loaded projection (length types) ks cols)"

definition cc_groups_ok :: "col_cursor \<Rightarrow> bool" where
  "cc_groups_ok c \<longleftrightarrow> (\<forall>g \<in> set (column_groups (drop (cc_next_block c) (cc_blocks c))).
     group_ok (cc_files c) (cc_schema c) (cc_projection c) g)"

definition cc_later :: "col_cursor \<Rightarrow> row list" where
  "cc_later c = concat (map (\<lambda>g. in_rng (cc_range c) (group_rows (cc_files c) (cc_schema c) (cc_projection c) g))
     (column_groups (drop (cc_next_block c) (cc_blocks c))))"

abbreviation cc_rows :: "col_cursor \<Rightarrow> row list" where
  "cc_rows c \<equiv> column_rows (length (cc_schema c)) (cc_keys c) (cc_columns c)"

definition cc_remaining :: "col_cursor \<Rightarrow> row list" where
  "cc_remaining c = in_rng (cc_range c) (drop (cc_row_idx c) (cc_rows c)) @ cc_later c"

definition cc_inv :: "col_cursor \<Rightarrow> bool" where
  "cc_inv c \<longleftrightarrow>
     cc_groups_ok c \<and> cc_schema c \<noteq> [] \<and> columns_loaded (cc_projection c) (length (cc_schema c)) (cc_keys c) (cc_columns c) \<and>
     (cc_valid c \<longrightarrow> contains (cc_range c) (cc_keys c ! cc_row_idx c)) \<and>
     (\<not> cc_valid c \<longrightarrow> cc_later c = [])"

definition cc_cols :: "col_cursor \<Rightarrow> nat set" where
  "cc_cols c = {ci. ci < length (cc_schema c) \<and> (ci = KEY_COLUMN_INDEX \<or> ci \<in> set (cc_projection c))}"

lemma length_column_rows [simp]: "length (column_rows n ks cols) = length ks"
  by (simp add: column_rows_def)

lemma rkey_column_rows [simp]: "i < length ks \<Longrightarrow> rkey (column_rows n ks cols ! i) = ks ! i"
  by (simp add: column_rows_def column_row_def rkey_def row_key_def)

lemma column_rows_empty [simp]: "column_rows n [] cols = []"
  by (simp add: column_rows_def)

lemma skip_keys_loop_ok:
  "skip_keys_loop rng ks i = i + length (takeWhile (\<lambda>k. \<not> contains rng k) ks)"
  by (induction ks arbitrary: i) auto

lemma in_rng_drop_skip:
  assumes "\<And>i. i < length rs \<Longrightarrow> rkey (rs ! i) = ks ! i" "length rs = length ks"
  shows "in_rng rng (drop (length (takeWhile (\<lambda>k. \<not> contains rng k) ks)) rs) = in_rng rng rs"
  using assms
proof (induction ks arbitrary: rs)
  case (Cons k ks)
  obtain r rs' where rs: "rs = r # rs'" using Cons.prems(2) by (cases rs) auto
  have "rkey r = k" using Cons.prems(1) [of 0] by (simp add: rs)
  moreover have "rkey (rs' ! i) = ks ! i" if "i < length rs'" for i using Cons.prems(1) [of "Suc i"] that by (simp add: rs)
  then have "in_rng rng (drop (length (takeWhile (\<lambda>k. \<not> contains rng k) ks)) rs') = in_rng rng rs'"
    using Cons.prems(2) by (intro Cons.IH) (simp_all add: rs)
  ultimately show ?case by (simp add: rs)
qed simp

text \<open>Skipping moves to the first row in the range and changes nothing else.\<close>

lemma cc_skip_ok:
  "\<exists>i. cc_skip c = c\<lparr>cc_row_idx := i\<rparr> \<and>
    in_rng (cc_range c) (drop i (cc_rows c)) = in_rng (cc_range c) (drop (cc_row_idx c) (cc_rows c)) \<and>
    (i < length (cc_keys c) \<longrightarrow> contains (cc_range c) (cc_keys c ! i))"
proof -
  let ?ks = "drop (cc_row_idx c) (cc_keys c)" and ?rs = "drop (cc_row_idx c) (cc_rows c)" and ?P = "\<lambda>k. \<not> contains (cc_range c) k"
  define n where "n = length (takeWhile ?P ?ks)"
  have "cc_skip c = c\<lparr>cc_row_idx := cc_row_idx c + n\<rparr>" by (simp add: cc_skip_def skip_keys_loop_ok n_def)
  moreover have "in_rng (cc_range c) (drop n ?rs) = in_rng (cc_range c) ?rs"
    unfolding n_def by (rule in_rng_drop_skip) auto
  then have "in_rng (cc_range c) (drop (cc_row_idx c + n) (cc_rows c)) = in_rng (cc_range c) ?rs"
    by (simp add: add.commute)
  moreover have "contains (cc_range c) (cc_keys c ! (cc_row_idx c + n))" if "cc_row_idx c + n < length (cc_keys c)"
  proof -
    have "n < length ?ks" using that by simp
    then have "\<not> ?P (?ks ! n)" using nth_length_takeWhile [of ?P ?ks] by (simp add: n_def)
    then show ?thesis using that by simp
  qed
  ultimately show ?thesis by blast
qed

lemma drop_group: "dropWhile P xs = drop (length (takeWhile P xs)) xs"
  by (induction xs) auto

lemma replicate_Nil_columns: "length cols = n \<Longrightarrow> map (\<lambda>_. []) cols = replicate n []"
  by (simp add: map_replicate_const)

lemma columns_loaded_clear [simp]: "columns_loaded projection n [] (replicate n [])"
  by (simp add: columns_loaded_def)

lemma cc_load_loop_ok:
  assumes "blocks = drop (cc_next_block c) (cc_blocks c)" "cc_groups_ok c" "cc_keys c = []" "cc_schema c \<noteq> []"
    and "cc_columns c = replicate (length (cc_schema c)) []" "cc_row_idx c = 0"
  shows "\<exists>c'. cc_load_loop blocks c = Inr c' \<and> cc_inv c' \<and> cc_remaining c' = cc_later c \<and>
    cc_schema c' = cc_schema c \<and> cc_projection c' = cc_projection c"
  using assms
proof (induction blocks c rule: cc_load_loop.induct)
  case (1 c)
  from 1(1) [symmetric] 1(2-) show ?case
    by (auto simp: cc_later_def cc_inv_def cc_remaining_def cc_valid_def)
next
  case (2 b bs c)
  let ?f = "cc_files c" and ?t = "cc_schema c" and ?p = "cc_projection c" and ?rng = "cc_range c"
  let ?g = "takeWhile (same_block b) (b # bs)" and ?rest = "dropWhile (same_block b) (b # bs)"
  define m where "m = cc_next_block c + length ?g"
  have bs: "drop (cc_next_block c) (cc_blocks c) = b # bs" using 2(2) by simp
  have "?rest = drop (length ?g) (drop (cc_next_block c) (cc_blocks c))" unfolding bs by (rule drop_group)
  then have rest: "?rest = drop m (cc_blocks c)" unfolding drop_drop m_def by (simp only: add.commute)
  have groups: "column_groups (drop (cc_next_block c) (cc_blocks c)) = ?g # column_groups ?rest"
    unfolding bs by (simp only: column_groups.simps)
  obtain ks cols where l: "load_group ?f ?t ?p ?g = Inr (ks, cols)" "columns_loaded ?p (length ?t) ks cols"
    using 2(3) groups by (auto simp: cc_groups_ok_def group_ok_def)
  let ?c1 = "c\<lparr>cc_next_block := m, cc_keys := ks, cc_columns := cols\<rparr>"
  have gl: "cc_load_group ?f ?t ?p ?g (cc_keys c, cc_columns c) = Inr (ks, cols)"
    using l(1) 2(4,6) by (simp add: load_group_def)
  obtain i where i: "cc_skip ?c1 = ?c1\<lparr>cc_row_idx := i\<rparr>"
      "in_rng ?rng (drop i (column_rows (length ?t) ks cols)) = in_rng ?rng (column_rows (length ?t) ks cols)"
      "i < length ks \<longrightarrow> contains ?rng (ks ! i)"
    using cc_skip_ok [of ?c1] 2(7) by auto
  let ?c2 = "?c1\<lparr>cc_row_idx := i\<rparr>"
  have later: "cc_later c = in_rng ?rng (column_rows (length ?t) ks cols) @ cc_later ?c2"
    unfolding cc_later_def groups by (simp add: group_rows_def l(1) del: takeWhile.simps flip: rest)
  have ok: "cc_groups_ok ?c2" using 2(3) unfolding cc_groups_ok_def groups by (simp flip: rest)
  have step: "cc_load_loop (b # bs) c = (if cc_valid ?c2 then Inr ?c2 else cc_load_loop ?rest (cc_clear ?c2))"
    by (simp add: gl i(1) Let_def flip: m_def del: takeWhile.simps dropWhile.simps)
  show ?case
  proof (cases "i < length ks")
    case True
    then have v: "cc_valid ?c2" by (simp add: cc_valid_def)
    moreover have "cc_inv ?c2" using ok l(2) i(3) True v 2(5) by (simp add: cc_inv_def)
    moreover have "cc_remaining ?c2 = cc_later c" using i(2) later by (simp add: cc_remaining_def)
    ultimately show ?thesis unfolding step by simp
  next
    case False
    then have nv: "\<not> cc_valid ?c2" by (simp add: cc_valid_def)
    have "in_rng ?rng (column_rows (length ?t) ks cols) = []" using False i(2) by simp
    then have "cc_later (cc_clear ?c2) = cc_later c" using later by (simp add: cc_later_def cc_clear_def)
    moreover have "cc_groups_ok (cc_clear ?c2)" using ok by (simp add: cc_groups_ok_def cc_clear_def)
    moreover have "length cols = length ?t" using l(2) by (simp add: columns_loaded_def)
    ultimately have "\<exists>c'. cc_load_loop ?rest (cc_clear ?c2) = Inr c' \<and> cc_inv c' \<and> cc_remaining c' = cc_later c \<and>
        cc_schema c' = ?t \<and> cc_projection c' = ?p"
      using 2(1) [of ?g _ "(ks, cols)" ks cols ?c2] nv gl i(1) rest 2(5)
      by (simp add: cc_clear_def replicate_Nil_columns flip: m_def del: takeWhile.simps dropWhile.simps)
    then show ?thesis unfolding step using nv by simp
  qed
qed

lemma cc_load_ok:
  assumes "cc_groups_ok c" "cc_schema c \<noteq> []" "length (cc_columns c) = length (cc_schema c)"
  shows "\<exists>c'. cc_load_next_non_empty_block c = Inr c' \<and> cc_inv c' \<and> cc_remaining c' = cc_later c \<and>
    cc_schema c' = cc_schema c \<and> cc_projection c' = cc_projection c"
  using cc_load_loop_ok [of _ "cc_clear c"] assms
  by (simp add: cc_load_next_non_empty_block_def cc_groups_ok_def cc_later_def cc_clear_def replicate_Nil_columns)

lemma cc_remaining_valid:
  assumes "cc_inv c"
  shows "cc_valid c \<longleftrightarrow> cc_remaining c \<noteq> []"
    "cc_valid c \<Longrightarrow> cc_remaining c = cc_rows c ! cc_row_idx c # in_rng (cc_range c) (drop (Suc (cc_row_idx c)) (cc_rows c)) @ cc_later c"
proof -
  show v: "cc_valid c \<Longrightarrow> cc_remaining c = cc_rows c ! cc_row_idx c # in_rng (cc_range c) (drop (Suc (cc_row_idx c)) (cc_rows c)) @ cc_later c"
    using assms by (simp add: cc_inv_def cc_valid_def cc_remaining_def flip: Cons_nth_drop_Suc)
  show "cc_valid c \<longleftrightarrow> cc_remaining c \<noteq> []"
  proof (cases "cc_valid c")
    case True
    then show ?thesis using v by simp
  next
    case False
    then show ?thesis using assms by (simp add: cc_inv_def cc_remaining_def cc_valid_def)
  qed
qed

lemma cc_value_hd:
  assumes inv: "cc_inv c" and v: "cc_valid c" and ci: "ci \<in> cc_cols c"
  shows "cc_value c ci = Inr (cc_rows c ! cc_row_idx c ! ci)"
proof -
  have i: "cc_row_idx c < length (cc_keys c)" using v by (simp add: cc_valid_def)
  have lt: "ci < length (cc_schema c)" "ci = KEY_COLUMN_INDEX \<or> ci \<in> set (cc_projection c)"
    using ci by (auto simp: cc_cols_def)
  show ?thesis
  proof (cases "ci = KEY_COLUMN_INDEX")
    case True
    then show ?thesis using v i lt(1) by (simp add: cc_value_def column_rows_def column_row_def KEY_COLUMN_INDEX_def)
  next
    case False
    then have p: "ci \<in> set (cc_projection c)" "0 < ci" using lt(2) by (auto simp: KEY_COLUMN_INDEX_def)
    then have "length (cc_columns c ! ci) = length (cc_keys c)"
      using inv lt(1) by (simp add: cc_inv_def columns_loaded_def)
    moreover from this i have "cc_columns c ! ci \<noteq> []" by auto
    ultimately show ?thesis using v i lt(1) p False
      by (auto simp: cc_value_def column_rows_def column_row_def nth_Cons' Let_def)
  qed
qed

interpretation col_cur: icursor column_cursor_ops cc_inv cc_remaining cc_cols
proof
  fix c assume c: "cc_inv c"
  show "cur_valid column_cursor_ops c \<longleftrightarrow> cc_remaining c \<noteq> []"
    using cc_remaining_valid(1) [OF c] by (simp add: column_cursor_ops_def)
next
  fix c r rs assume c: "cc_inv c" "cc_remaining c = r # rs"
  then have v: "cc_valid c" using cc_remaining_valid(1) [OF c(1)] by simp
  then have i: "cc_row_idx c < length (cc_keys c)" by (simp add: cc_valid_def)
  have r: "r = cc_rows c ! cc_row_idx c" "rs = in_rng (cc_range c) (drop (Suc (cc_row_idx c)) (cc_rows c)) @ cc_later c"
    using cc_remaining_valid(2) [OF c(1) v] c(2) by simp_all
  show "cur_key column_cursor_ops c = Inr (rkey r)"
    using v i by (simp add: column_cursor_ops_def cc_key_def r(1))
  show "cur_value column_cursor_ops c j = Inr (r ! j)" if "j \<in> cc_cols c" for j
    using cc_value_hd [OF c(1) v that] by (simp add: column_cursor_ops_def r(1))
  let ?c = "c\<lparr>cc_row_idx := Suc (cc_row_idx c)\<rparr>"
  from cc_skip_ok [of ?c] obtain i where i: "cc_skip ?c = ?c\<lparr>cc_row_idx := i\<rparr>"
      "in_rng (cc_range c) (drop i (cc_rows c)) = in_rng (cc_range c) (drop (Suc (cc_row_idx c)) (cc_rows c))"
      "i < length (cc_keys c) \<longrightarrow> contains (cc_range c) (cc_keys c ! i)"
    by auto
  let ?d = "c\<lparr>cc_row_idx := i\<rparr>"
  have o: "cc_groups_ok ?d" "cc_schema ?d \<noteq> []" "columns_loaded (cc_projection c) (length (cc_schema c)) (cc_keys c) (cc_columns c)"
    using c(1) by (simp_all add: cc_inv_def cc_groups_ok_def)
  have later: "cc_later ?d = cc_later c" by (simp add: cc_later_def)
  show "\<exists>c'. cur_next column_cursor_ops c = Inr c' \<and> cc_inv c' \<and> cc_remaining c' = rs \<and> cc_cols c' = cc_cols c"
  proof (cases "i < length (cc_keys c)")
    case True
    then have "cc_next c = Inr ?d" using v i(1) by (simp add: cc_next_def cc_valid_def)
    moreover have "cc_inv ?d" using True o i(3) by (simp add: cc_inv_def cc_valid_def)
    moreover have "cc_remaining ?d = rs" using i(2) r(2) later by (simp add: cc_remaining_def)
    ultimately show ?thesis by (auto simp: column_cursor_ops_def cc_cols_def)
  next
    case False
    then have "cc_next c = cc_load_next_non_empty_block ?d" using v i(1) by (simp add: cc_next_def cc_valid_def Let_def)
    moreover have "rs = cc_later ?d" using False i(2) r(2) later by simp
    moreover have "length (cc_columns ?d) = length (cc_schema ?d)" using o(3) by (simp add: columns_loaded_def)
    ultimately show ?thesis using cc_load_ok [OF o(1,2)] by (auto simp: column_cursor_ops_def cc_cols_def)
  qed
qed

end
