(* ===== verification/Sst_Cursor.thy ===== *)
theory Sst_Cursor
  imports Pruning Col_Cursor "HOL-Library.Sublist"
begin

text \<open>
  \<open>make_sstable_cursor\<close> (\<open>sstable_cursor_factory.cpp\<close>): the sparse index selects a range of
  blocks, the metadata and the statistics discard blocks, and a cursor over the remaining ones is
  returned, or a null pointer. The lemmas show, for the files the builders write, that no row in
  the range that satisfies the filter is lost and no other row appears.
\<close>

section \<open>The factory\<close>

datatype sst_cursor = RowCur row_cursor | ColCur col_cursor

definition sst_cursor_ops :: "sst_cursor cursor_ops" where
  "sst_cursor_ops = \<lparr>
     cur_valid = (\<lambda>c. case c of RowCur x \<Rightarrow> cur_valid row_cursor_ops x | ColCur x \<Rightarrow> cur_valid column_cursor_ops x),
     cur_next = (\<lambda>c. case c of RowCur x \<Rightarrow> rbind (cur_next row_cursor_ops x) (\<lambda>y. Inr (RowCur y))
        | ColCur x \<Rightarrow> rbind (cur_next column_cursor_ops x) (\<lambda>y. Inr (ColCur y))),
     cur_key = (\<lambda>c. case c of RowCur x \<Rightarrow> cur_key row_cursor_ops x | ColCur x \<Rightarrow> cur_key column_cursor_ops x),
     cur_value = (\<lambda>c i. case c of RowCur x \<Rightarrow> cur_value row_cursor_ops x i | ColCur x \<Rightarrow> cur_value column_cursor_ops x i)\<rparr>"

text \<open>Sequencing of operations that may throw and that update the metadata cache.\<close>

definition sbind :: "'a res \<times> 's \<Rightarrow> ('a \<Rightarrow> 's \<Rightarrow> 'b res \<times> 's) \<Rightarrow> 'b res \<times> 's" where
  "sbind r f = (case r of (Inl e, s) \<Rightarrow> (Inl e, s) | (Inr x, s) \<Rightarrow> f x s)"

lemma sbind_simps [simp]: "sbind (Inl e, s) f = (Inl e, s)" "sbind (Inr x, s) f = f x s"
  by (simp_all add: sbind_def)

definition prune_row_blocks ::
    "metadata_block_range \<Rightarrow> skip_filter \<Rightarrow> row_block_meta list \<Rightarrow> meta_cache \<Rightarrow> row_block_meta list res \<times> meta_cache" where
  "prune_row_blocks sel f filtered mc =
     (if filtered \<noteq> [] \<and> f \<noteq> [] then
        sbind (mc_read_numeric_stats_range (mr_first sel) (mr_count sel) (referenced_columns f) mc)
          (\<lambda>stats mc1. (filter_blocks rbm_block_id filtered stats f, mc1))
      else (Inr filtered, mc))"

definition make_row_cursor ::
    "sst_files \<Rightarrow> metadata_block_range \<Rightarrow> key_range \<Rightarrow> value_type list \<Rightarrow> nat list \<Rightarrow> skip_filter \<Rightarrow> meta_cache \<Rightarrow>
     sst_cursor option res \<times> meta_cache" where
  "make_row_cursor fs sel rng types projection f mc =
     sbind (mc_read_row_metadata_range (mr_first sel) (mr_count sel) mc) (\<lambda>candidates mc1.
     sbind (prune_row_blocks sel f (filter_candidate_row_blocks candidates rng) mc1) (\<lambda>blocks mc2.
       if blocks = [] then (Inr None, mc2)
       else (rbind (SSTableRowCursor fs blocks rng types projection) (\<lambda>c. Inr (Some (RowCur c))), mc2)))"

definition prune_column_blocks ::
    "metadata_block_range \<Rightarrow> skip_filter \<Rightarrow> col_block_meta list \<Rightarrow> meta_cache \<Rightarrow> col_block_meta list res \<times> meta_cache" where
  "prune_column_blocks sel f filtered mc =
     (if filtered \<noteq> [] \<and> f \<noteq> [] then
        let logical_block_ids = remdups_adj (map cm_block_id filtered) in
        sbind (mc_read_numeric_stats_range (mr_first sel) (mr_count sel) (referenced_columns f) mc)
          (\<lambda>stats mc1. (rbind (filter_blocks (\<lambda>i. i) logical_block_ids stats f)
             (\<lambda>selected. Inr (filter (\<lambda>b. cm_block_id b \<in> set selected) filtered)), mc1))
      else (Inr filtered, mc))"

definition project_column_blocks :: "nat list \<Rightarrow> col_block_meta list \<Rightarrow> col_block_meta list" where
  "project_column_blocks projection blocks =
     filter (\<lambda>b. unat (cm_column_idx b) = KEY_COLUMN_INDEX \<or> unat (cm_column_idx b) \<in> set projection) blocks"

definition make_column_cursor ::
    "sst_files \<Rightarrow> metadata_block_range \<Rightarrow> key_range \<Rightarrow> value_type list \<Rightarrow> nat list \<Rightarrow> skip_filter \<Rightarrow> meta_cache \<Rightarrow>
     sst_cursor option res \<times> meta_cache" where
  "make_column_cursor fs sel rng types projection f mc =
     sbind (mc_read_column_metadata_range (mr_first sel) (mr_count sel) mc) (\<lambda>candidates mc1.
     sbind (prune_column_blocks sel f (filter_candidate_column_blocks candidates rng) mc1) (\<lambda>blocks mc2.
       if blocks = [] then (Inr None, mc2)
       else (rbind (SSTableColumnCursor fs (project_column_blocks projection blocks) rng types projection)
               (\<lambda>c. Inr (Some (ColCur c))), mc2)))"

definition make_sstable_cursor ::
    "sst_info \<Rightarrow> sst_files \<Rightarrow> key_range \<Rightarrow> value_type list \<Rightarrow> nat list \<Rightarrow> skip_filter \<Rightarrow> meta_cache \<Rightarrow>
     sst_cursor option res \<times> meta_cache" where
  "make_sstable_cursor info fs rng types projection f mc =
     (if f_data fs = None then (Inl (RuntimeError ''Cannot open SSTable data file: ''), mc)
      else
        sbind (select_metadata_range (mc_sparse_index mc) rng (in_num_blocks info), mc) (\<lambda>sel mc.
          if mr_count sel = 0 then (Inr None, mc)
          else case in_layout info of
            ROW \<Rightarrow> make_row_cursor fs sel rng types projection f mc
          | COLUMN \<Rightarrow> make_column_cursor fs sel rng types projection f mc
          | OtherLayout _ \<Rightarrow> (Inl (RuntimeError ''Unsupported SSTable layout type''), mc)))"

section \<open>Cursors of both layouts\<close>

fun sst_inv :: "sst_cursor \<Rightarrow> bool" where
  "sst_inv (RowCur c) = rc_inv c"
| "sst_inv (ColCur c) = cc_inv c"

fun sst_rows :: "sst_cursor \<Rightarrow> row list" where
  "sst_rows (RowCur c) = rc_remaining c"
| "sst_rows (ColCur c) = cc_remaining c"

fun sst_cols :: "sst_cursor \<Rightarrow> nat set" where
  "sst_cols (RowCur c) = {..<length (rc_schema c)}"
| "sst_cols (ColCur c) = cc_cols c"

interpretation sst_cur: icursor sst_cursor_ops sst_inv sst_rows sst_cols
proof
  fix c assume "sst_inv c"
  then show "cur_valid sst_cursor_ops c \<longleftrightarrow> sst_rows c \<noteq> []"
    by (cases c) (simp_all add: sst_cursor_ops_def row_cur.valid_iff col_cur.valid_iff)
next
  fix c r rs assume c: "sst_inv c" "sst_rows c = r # rs"
  show "cur_key sst_cursor_ops c = Inr (rkey r)"
    using c by (cases c) (simp_all add: sst_cursor_ops_def row_cur.key_hd col_cur.key_hd)
  show "cur_value sst_cursor_ops c i = Inr (r ! i)" if "i \<in> sst_cols c" for i
    using c that by (cases c) (simp_all add: sst_cursor_ops_def row_cur.value_hd col_cur.value_hd)
  show "\<exists>c'. cur_next sst_cursor_ops c = Inr c' \<and> sst_inv c' \<and> sst_rows c' = rs \<and> sst_cols c' = sst_cols c"
  proof (cases c)
    case (RowCur x)
    then show ?thesis using row_cur.next_tl [of x r rs] c by (auto simp: sst_cursor_ops_def)
  next
    case (ColCur x)
    then show ?thesis using col_cur.next_tl [of x r rs] c by (auto simp: sst_cursor_ops_def)
  qed
qed

section \<open>Row tables\<close>

text \<open>Sizes for which the file offsets and the block counts do not wrap around.\<close>

definition files_small :: "sst_files \<Rightarrow> bool" where
  "files_small fs \<longleftrightarrow>
     (\<forall>f. f_data fs = Some f \<longrightarrow> length f < 2 ^ 63) \<and> (\<forall>f. f_meta fs = Some f \<longrightarrow> length f < 2 ^ 63) \<and>
     (\<forall>f. f_index fs = Some f \<longrightarrow> length f < 2 ^ 63) \<and> (\<forall>f. f_stats fs = Some f \<longrightarrow> length f < 2 ^ 63)"

text \<open>Rows a table can hold so that reading gives them back.\<close>

definition storable :: "schema \<Rightarrow> row list \<Rightarrow> bool" where
  "storable s rows \<longleftrightarrow> (\<forall>r \<in> set rows. valid_row s r \<and> cells_fit (tl r)) \<and> length rows < 2 ^ 32 - 7"

lemma storable_block: "storable s (concat blocks) \<Longrightarrow> b \<in> set blocks \<Longrightarrow> storable s b"
proof -
  assume a: "storable s (concat blocks)" "b \<in> set blocks"
  have "length b \<le> length (concat blocks)"
    using a(2) by (auto simp: length_concat intro: member_le_sum_list)
  with a show ?thesis by (auto simp: storable_def)
qed

lemma load_row_block_ok:
  assumes t: "row_table_of s options blocks rs fs" and small: "files_small fs"
    and st: "storable s (concat blocks)" and j: "j < length blocks"
  shows "load_row_block fs (schema_types s) pm (row_metas rs ! j) = Inr (map (project_row pm) (blocks ! j))"
proof -
  have len: "length rs = length blocks" and of: "row_block_of s (blocks ! j) (rs ! j)"
    and data: "f_data fs = Some (row_data rs)"
    using t j by (auto simp: row_table_of_def list_all2_conv_all_nth)
  note D = row_block_ofD [OF of]
  have sb: "storable s (blocks ! j)" using storable_block [OF st] j by simp
  have split: "row_data rs = row_data (take j rs) @ rbr_data (rs ! j) @ row_data (drop (Suc j) rs)"
    using j len by (metis concat_append concat.simps(2) id_take_nth_drop list.simps(9) map_append)
  have lt: "length (row_data rs) < 2 ^ 63" using small data by (simp add: files_small_def)
  have l: "length (row_data (take j rs)) < 2 ^ 64" "length (rbr_data (rs ! j)) < 2 ^ 64"
    using lt unfolding split by simp_all
  have m: "row_metas rs ! j = (rbr_meta (rs ! j))\<lparr>rbm_offset := word_of_nat (length (row_data (take j rs))), rbm_block_id := word_of_nat j\<rparr>"
    using j len by (simp add: nth_place_row_blocks)
  have "read_row_block fs (row_metas rs ! j) = Inr (rbr_data (rs ! j))"
    unfolding read_row_block_def read_data_bytes_def data option.case
    by (rule read_bytes_from_stream_mid [OF split]) (use lt l D(4) in \<open>simp_all add: m unat_of_nat_64\<close>)
  moreover have "decode_row_block (rbr_data (rs ! j)) (rbm_count (rbr_meta (rs ! j))) (schema_types s) pm =
      Inr (map (project_row pm) (blocks ! j))"
    using sb by (intro D(7)) (auto simp: storable_def valid_row_def)
  ultimately show ?thesis by (simp add: load_row_block_def m)
qed

section \<open>The key bounds of the blocks of a table\<close>

lemma block_intersects: "r \<in> set b \<Longrightarrow> contains rng (rkey r) \<Longrightarrow> intersects (blk_min b) (blk_max b) rng"
  by (rule contains_intersects) (auto intro: fold_bounds)

text \<open>With distinct keys every block ends below the start of the next one.\<close>

lemma strict_separated:
  assumes strict: "sorted_wrt (<) (rkeys (concat blocks))" and ne: "\<forall>b \<in> set blocks. b \<noteq> []" "blocks \<noteq> []"
    and small: "length blocks < 2 ^ 32"
  shows "separated_blocks (map blk_min blocks) (map blk_max blocks)"
proof -
  have sb: "sorted (rkeys (blocks ! i))" if "i < length blocks" for i
  proof -
    have "b \<in> set blocks \<Longrightarrow> sorted_wrt (<) (rkeys b)" for b
      using strict by (induction blocks) (auto simp: sorted_wrt_append)
    then have "sorted_wrt (<) (rkeys (blocks ! i))" using nth_mem [OF that] by blast
    then show ?thesis by (rule strict_sorted_imp_sorted)
  qed
  have lt: "rkey x < rkey y" if "i < j" "j < length blocks" "x \<in> set (blocks ! i)" "y \<in> set (blocks ! j)" for i j x y
  proof -
    have "blocks = take j blocks @ blocks ! j # drop (Suc j) blocks" using that(2) by (rule id_take_nth_drop)
    then have "concat blocks = concat (take j blocks) @ blocks ! j @ concat (drop (Suc j) blocks)"
      by (metis concat.simps(2) concat_append)
    moreover have "x \<in> set (concat (take j blocks))" using that by (force simp: in_set_conv_nth [of _ "take j blocks"])
    ultimately show ?thesis using strict that(4) by (auto simp: sorted_wrt_append)
  qed
  have b: "blk_min (blocks ! i) = rkey (hd (blocks ! i))" "blk_max (blocks ! i) = rkey (last (blocks ! i))"
      "hd (blocks ! i) \<in> set (blocks ! i)" "last (blocks ! i) \<in> set (blocks ! i)" if "i < length blocks" for i
    using sorted_block_bounds [OF sb [OF that]] ne that by (simp_all add: nth_mem)
  show ?thesis
    unfolding separated_blocks_def
  proof (intro conjI allI impI)
    fix j i assume "j < length (map blk_min blocks)" "i \<le> j"
    then show "map blk_min blocks ! i \<le> map blk_min blocks ! j"
      using lt [of i j "hd (blocks ! i)" "hd (blocks ! j)"] b by (cases "i = j") (auto simp: less_imp_le)
  next
    fix i assume "Suc i < length (map blk_min blocks)"
    then show "map blk_max blocks ! i < map blk_min blocks ! Suc i"
      using lt [of i "Suc i" "last (blocks ! i)" "hd (blocks ! Suc i)"] b by simp
  qed (use ne small in auto)
qed

section \<open>What a cursor over a table delivers\<close>

text \<open>The state of a metadata cache that belongs to a table.\<close>

definition cache_of ::
    "schema \<Rightarrow> num_stats list list \<Rightarrow> sst_files \<Rightarrow> sparse_index_entry list \<Rightarrow> meta_cache \<Rightarrow> bool" where
  "cache_of s bss fs index mc \<longleftrightarrow>
     mc_inv s bss mc \<and> mc_page_blocks mc \<noteq> 0 \<and> mc_files mc = fs \<and> mc_num_blocks mc = word_of_nat (length bss) \<and>
     mc_columns_count mc = word_of_nat (schema_size s) \<and> mc_sparse_index mc = index"

lemma cache_of_step: "cache_of s bss fs index mc \<Longrightarrow> mc_step_ok s bss mc mc' \<Longrightarrow> cache_of s bss fs index mc'"
  by (simp add: cache_of_def mc_step_ok_def mc_static_def)

text \<open>A row the query asks for: it satisfies the filter, which compares no NaN with it.\<close>

definition row_wanted :: "skip_filter \<Rightarrow> row \<Rightarrow> bool" where
  "row_wanted f r \<longleftrightarrow> row_satisfies f r \<and> compares_no_nan f r"

lemma row_wanted_Nil [simp]: "row_wanted [] r"
  by (simp add: row_wanted_def row_satisfies_def compares_no_nan_def)

definition kept_blocks :: "row list list \<Rightarrow> key_range \<Rightarrow> skip_filter \<Rightarrow> nat list \<Rightarrow> bool" where
  "kept_blocks blocks rng f js \<longleftrightarrow>
     sorted_wrt (<) js \<and> set js \<subseteq> {..<length blocks} \<and>
     (\<forall>i < length blocks. i \<notin> set js \<longrightarrow> (\<forall>r \<in> set (blocks ! i). contains rng (rkey r) \<longrightarrow> \<not> row_wanted f r))"

definition cursor_delivers :: "sst_cursor option res \<Rightarrow> nat set \<Rightarrow> row list \<Rightarrow> bool" where
  "cursor_delivers res cols ds \<longleftrightarrow>
     (case res of Inl _ \<Rightarrow> False | Inr None \<Rightarrow> ds = []
      | Inr (Some c) \<Rightarrow> sst_inv c \<and> sst_rows c = ds \<and> cols \<subseteq> sst_cols c)"

lemma kept_blocks_filter:
  assumes "a + n \<le> length blocks"
    and "\<And>i r. i < length blocks \<Longrightarrow> r \<in> set (blocks ! i) \<Longrightarrow> contains rng (rkey r) \<Longrightarrow> row_wanted f r \<Longrightarrow>
      a \<le> i \<and> i < a + n \<and> P i"
  shows "kept_blocks blocks rng f (filter P [a..<a + n])"
  using assms by (fastforce simp: kept_blocks_def sorted_wrt_filter)

text \<open>Rows delivered are rows of the range, in order, and every wanted row of the range is there.\<close>

lemma kept_blocks_rows:
  assumes "kept_blocks blocks rng f js"
  shows "subseq (concat (map (\<lambda>j. in_rng rng (blocks ! j)) js)) (in_rng rng (concat blocks))"
    "\<forall>r \<in> set (in_rng rng (concat blocks)). row_wanted f r \<longrightarrow> r \<in> set (concat (map (\<lambda>j. in_rng rng (blocks ! j)) js))"
proof -
  let ?n = "length blocks"
  have all: "in_rng rng (concat blocks) = concat (map (\<lambda>j. in_rng rng (blocks ! j)) [0..<?n])"
  proof -
    have "in_rng rng (concat bs) = concat (map (in_rng rng) bs)" for bs by (induction bs) simp_all
    moreover have "map (in_rng rng) blocks = map (\<lambda>j. in_rng rng (blocks ! j)) [0..<?n]"
      by (intro nth_equalityI) auto
    ultimately show ?thesis by simp
  qed
  have sub: "subseq js [0..<?n]"
  proof -
    have "js = filter (\<lambda>j. j \<in> set js) [0..<?n]"
      using assms by (intro sorted_distinct_set_unique)
        (auto simp: kept_blocks_def strict_sorted_iff sorted_wrt_filter)
    then show ?thesis by (metis subseq_filter_left)
  qed
  have "subseq (concat (map g xs)) (concat (map g ys))" if "subseq xs ys" for g :: "nat \<Rightarrow> row list" and xs ys
    using that by (induction rule: list_emb.induct) (auto intro: list_emb_append_mono)
  then show "subseq (concat (map (\<lambda>j. in_rng rng (blocks ! j)) js)) (in_rng rng (concat blocks))"
    using sub all by simp
  show "\<forall>r \<in> set (in_rng rng (concat blocks)). row_wanted f r \<longrightarrow> r \<in> set (concat (map (\<lambda>j. in_rng rng (blocks ! j)) js))"
    using assms unfolding all by (fastforce simp: kept_blocks_def in_rng_def)
qed

section \<open>Selecting the blocks of a table\<close>

text \<open>Blocks a builder cut strictly sorted rows into.\<close>

definition cut_blocks :: "row list list \<Rightarrow> bool" where
  "cut_blocks blocks \<longleftrightarrow>
     sorted_wrt (<) (rkeys (concat blocks)) \<and> (\<forall>b \<in> set blocks. b \<noteq> []) \<and> blocks \<noteq> [] \<and> length blocks < 2 ^ 32"

lemma select_blocks_ok:
  assumes cut: "cut_blocks blocks"
  shows "\<exists>sel. select_metadata_range (sparse_entries step (sparse_candidates (map blk_min blocks))) rng
      (word_of_nat (length blocks)) = Inr sel \<and>
    (mr_count sel \<noteq> 0 \<longrightarrow> unat (mr_first sel) + unat (mr_count sel) \<le> length blocks) \<and>
    (\<forall>i < length blocks. \<forall>r \<in> set (blocks ! i). contains rng (rkey r) \<longrightarrow>
       unat (mr_first sel) \<le> i \<and> i < unat (mr_first sel) + unat (mr_count sel))"
proof -
  obtain sel where sel: "select_metadata_range (sparse_entries step (sparse_candidates (map blk_min blocks))) rng
      (word_of_nat (length blocks)) = Inr sel" "mr_blocks sel \<subseteq> {..<length blocks}"
      "\<forall>i < length blocks. intersects (blk_min (blocks ! i)) (blk_max (blocks ! i)) rng \<longrightarrow> i \<in> mr_blocks sel"
    using select_complete [OF strict_separated refl, of blocks step rng] cut by (auto simp: cut_blocks_def)
  have "unat (mr_first sel) + unat (mr_count sel) \<le> length blocks" if "mr_count sel \<noteq> 0"
  proof -
    have "0 < unat (mr_count sel)" using that by (simp add: unat_gt_0)
    then have "unat (mr_first sel) + unat (mr_count sel) - 1 \<in> mr_blocks sel" by (simp add: mr_blocks_def)
    then show ?thesis using sel(2) by auto
  qed
  moreover have "unat (mr_first sel) \<le> i \<and> i < unat (mr_first sel) + unat (mr_count sel)"
    if "i < length blocks" "r \<in> set (blocks ! i)" "contains rng (rkey r)" for i r
    using sel(3) that block_intersects by (force simp: mr_blocks_def)
  ultimately show ?thesis using sel(1) by blast
qed

lemma take_drop_nth: "a + n \<le> length xs \<Longrightarrow> take n (drop a xs) = map (\<lambda>j. xs ! j) [a..<a + n]"
  by (intro nth_equalityI) (auto simp: add.commute)

text \<open>The statistics of a range read for a filter.\<close>

lemma read_stats_for:
  assumes mc: "cache_of s bss fs index mc" and sf: "stats_file_of s bss fs"
    and r: "unat (mr_first sel) + unat (mr_count sel) \<le> length bss" "mr_count sel \<noteq> 0"
  shows "\<exists>stats mc1. mc_read_numeric_stats_range (mr_first sel) (mr_count sel) (referenced_columns f) mc = (Inr stats, mc1) \<and>
    stats_for s bss f stats \<and> cache_of s bss fs index mc1"
proof -
  have c: "mc_inv s bss mc" "mc_page_blocks mc \<noteq> 0" "mc_files mc = fs" "mc_num_blocks mc = word_of_nat (length bss)"
    using mc by (simp_all add: cache_of_def)
  have n: "length bss < 2 ^ 32" using sf by (simp add: stats_file_of_def)
  then have "length bss = unat (mc_num_blocks mc)" by (simp only: c(4) unat_of_nat_32)
  from mc_read_numeric_stats_range_ok [OF c(1,2) _ this r(1), of "referenced_columns f"] sf
  obtain st mc1 where "mc_read_numeric_stats_range (mr_first sel) (mr_count sel) (referenced_columns f) mc = (Inr st, mc1)"
      "mc_step_ok s bss mc mc1" "sr_first st = mr_first sel" "sr_count st = mr_count sel"
      "\<forall>c. map_of (sr_by_column st) c =
         (if c \<in> np_column ` set f then stored_columns s bss (unat (mr_first sel)) (unat (mr_count sel)) c else None)"
    using r(2) by (auto simp: c(3))
  then show ?thesis using cache_of_step [OF mc] r(1) n by (auto simp: stats_for_def)
qed

text \<open>The statistics of the blocks of a table.\<close>

definition table_stats :: "schema \<Rightarrow> row list list \<Rightarrow> num_stats list list \<Rightarrow> bool" where
  "table_stats s blocks bss \<longleftrightarrow> list_all2 (block_stats_ok s) blocks bss"

lemma may_satisfy_wanted:
  assumes ts: "table_stats s blocks bss" and sf: "stats_for s bss f st" and ne: "f \<noteq> []"
    and i: "i < length blocks" and r: "r \<in> set (blocks ! i)" "valid_row s r" "row_wanted f r"
  shows "may_satisfy (word_of_nat i) st f = Inr True"
  using may_satisfy_sound [OF sf _ _ r(1,2), of i] ts i r(3) ne by (auto simp: table_stats_def list_all2_conv_all_nth row_wanted_def)

lemma table_stats_total:
  assumes "table_stats s blocks bss"
  shows "\<forall>bs \<in> set bss. \<exists>rows. block_stats_ok s rows bs"
  using assms unfolding table_stats_def list_all2_conv_all_nth by (metis in_set_conv_nth)

section \<open>Cursors over row tables\<close>

text \<open>A row table and the state it is read in.\<close>

definition row_table_read ::
    "schema \<Rightarrow> row list list \<Rightarrow> row_block_result list \<Rightarrow> sst_files \<Rightarrow> sst_info \<Rightarrow> bool" where
  "row_table_read s blocks rs fs info \<longleftrightarrow>
     (\<exists>options. row_table_of s options blocks rs fs) \<and> files_small fs \<and> storable s (concat blocks) \<and> cut_blocks blocks \<and>
     schema_wf s \<and> schema_size s < 2 ^ 32 \<and> in_layout info = ROW \<and> in_num_blocks info = word_of_nat (length blocks)"

definition row_cache ::
    "schema \<Rightarrow> row list list \<Rightarrow> row_block_result list \<Rightarrow> sst_files \<Rightarrow> meta_cache \<Rightarrow> bool" where
  "row_cache s blocks rs fs mc \<longleftrightarrow>
     (\<exists>step. cache_of s (map rbr_stats rs) fs (sparse_entries step (sparse_candidates (map blk_min blocks))) mc)"

lemma row_metas_bounds:
  assumes "list_all2 (row_block_of s) blocks rs" "j < length blocks"
  shows "rbm_min (row_metas rs ! j) = blk_min (blocks ! j)" "rbm_max (row_metas rs ! j) = blk_max (blocks ! j)"
    "rbm_block_id (row_metas rs ! j) = word_of_nat j"
  using assms row_block_ofD(2,3) [of s "blocks ! j" "rs ! j"]
  by (simp_all add: list_all2_conv_all_nth nth_place_row_blocks)

lemma row_candidates:
  assumes "list_all2 (row_block_of s) blocks rs"
  shows "meta_candidates (row_metas rs) = sparse_candidates (map blk_min blocks)"
proof -
  have "length rs = length blocks" using list_all2_lengthD [OF assms] by simp
  then show ?thesis
    using row_metas_bounds [OF assms] by (intro nth_equalityI) (simp_all add: meta_candidates_def sparse_candidates_def)
qed

lemma row_table_stats: "list_all2 (row_block_of s) blocks rs \<Longrightarrow> table_stats s blocks (map rbr_stats rs)"
  unfolding table_stats_def list_all2_map2 by (erule list_all2_mono) (erule row_block_ofD(6))

lemma prune_row_blocks_ok:
  assumes t: "row_table_read s blocks rs fs info" and mc: "cache_of s (map rbr_stats rs) fs index mc"
    and r: "unat (mr_first sel) + unat (mr_count sel) \<le> length blocks" "mr_count sel \<noteq> 0"
    and js: "set js \<subseteq> {..<length blocks}"
  shows "\<exists>P mc1. prune_row_blocks sel f (map (\<lambda>j. row_metas rs ! j) js) mc = (Inr (map (\<lambda>j. row_metas rs ! j) (filter P js)), mc1) \<and>
    cache_of s (map rbr_stats rs) fs index mc1 \<and>
    (\<forall>i < length blocks. \<forall>x \<in> set (blocks ! i). row_wanted f x \<longrightarrow> P i)"
proof (cases "js \<noteq> [] \<and> f \<noteq> []")
  case False
  then have "prune_row_blocks sel f (map (\<lambda>j. row_metas rs ! j) js) mc = (Inr (map (\<lambda>j. row_metas rs ! j) (filter (\<lambda>_. True) js)), mc)"
    by (auto simp: prune_row_blocks_def)
  then show ?thesis using mc by blast
next
  case True
  obtain options where tb: "row_table_of s options blocks rs fs" and small: "files_small fs" and n: "schema_size s < 2 ^ 32"
      "length blocks < 2 ^ 32"
    using t by (auto simp: row_table_read_def cut_blocks_def)
  have l2: "list_all2 (row_block_of s) blocks rs" using tb by (simp add: row_table_of_def)
  then have len: "length rs = length blocks" by (auto dest: list_all2_lengthD)
  have sf: "stats_file_of s (map rbr_stats rs) fs"
    using tb small n len by (auto simp: row_table_of_def stats_file_of_def files_small_def)
  obtain stats mc1 where st: "mc_read_numeric_stats_range (mr_first sel) (mr_count sel) (referenced_columns f) mc = (Inr stats, mc1)"
      "stats_for s (map rbr_stats rs) f stats" "cache_of s (map rbr_stats rs) fs index mc1"
    using read_stats_for [OF mc sf _ r(2), of f] r(1) by (auto simp: len)
  note ts = row_table_stats [OF l2]
  let ?Q = "\<lambda>b. stats_range_empty stats \<or> f = [] \<or> may_satisfy (rbm_block_id b) stats f = Inr True"
  have fb: "filter_blocks rbm_block_id bs stats f = Inr (filter ?Q bs)" for bs
    by (rule filter_blocks_total [OF st(2) table_stats_total [OF ts]])
  have "prune_row_blocks sel f (map (\<lambda>j. row_metas rs ! j) js) mc =
      (Inr (map (\<lambda>j. row_metas rs ! j) (filter (\<lambda>j. ?Q (row_metas rs ! j)) js)), mc1)"
    using True st(1) by (simp add: prune_row_blocks_def fb filter_map o_def)
  moreover have "?Q (row_metas rs ! i)" if "i < length blocks" "x \<in> set (blocks ! i)" "row_wanted f x" for i x
  proof -
    have "valid_row s x" using t nth_mem [OF that(1)] that(2) by (auto simp: row_table_read_def storable_def)
    from may_satisfy_wanted [OF ts st(2) _ that(1,2) this that(3)] show ?thesis
      using row_metas_bounds(3) [OF l2 that(1)] by auto
  qed
  ultimately show ?thesis
    using st(3) by (intro exI [of _ "\<lambda>j. ?Q (row_metas rs ! j)"] exI [of _ mc1] conjI) blast+
qed

text \<open>The cursor over some of the blocks.\<close>

lemma rkey_project_row [simp]: "keyed r \<Longrightarrow> rkey (project_row pm r) = rkey r"
  by (auto simp: keyed_def rkey_def project_row_def row_key_def)

lemma in_rng_project: "\<forall>r \<in> set rs. keyed r \<Longrightarrow> in_rng rng (map (project_row pm) rs) = map (project_row pm) (in_rng rng rs)"
  by (induction rs) auto

lemma valid_row_keyed: "schema_wf s \<Longrightarrow> valid_row s r \<Longrightarrow> keyed r \<and> length r = schema_size s"
  using valid_row_key [of s r] by (auto simp: keyed_def valid_row_def)

lemma keyed_project_row: "keyed r \<Longrightarrow> keyed (project_row pm r) \<and> length (project_row pm r) = length r"
  by (auto simp: keyed_def project_row_def)

lemma SSTableRowCursor_ok:
  assumes t: "row_table_read s blocks rs fs info" and js: "set js \<subseteq> {..<length blocks}"
    and pm: "make_projection_mask (schema_size s) projection = Inr pm"
  shows "\<exists>c. SSTableRowCursor fs (map (\<lambda>j. row_metas rs ! j) js) rng (schema_types s) projection = Inr c \<and>
    rc_inv c \<and> rc_remaining c = map (project_row pm) (concat (map (\<lambda>j. in_rng rng (blocks ! j)) js)) \<and>
    length (rc_schema c) = schema_size s"
proof -
  obtain options where tb: "row_table_of s options blocks rs fs" and small: "files_small fs" and st: "storable s (concat blocks)"
      and wf: "schema_wf s"
    using t by (auto simp: row_table_read_def)
  have types: "schema_types s \<noteq> []" "schema_types s ! KEY_COLUMN_INDEX = INT64" "length (schema_types s) = schema_size s"
    using wf by (auto simp: schema_wf_def schema_types_def schema_size_def Let_def KEY_COLUMN_INDEX_def hd_conv_nth)
  have rows: "keyed r \<and> length r = schema_size s" if "j \<in> set js" "r \<in> set (blocks ! j)" for j r
    using valid_row_keyed [OF wf] st js that by (force simp: storable_def)
  have load: "load_row_block fs (schema_types s) pm (row_metas rs ! j) = Inr (map (project_row pm) (blocks ! j))" if "j \<in> set js" for j
    using load_row_block_ok [OF tb small st] js that by blast
  let ?c = "\<lparr>rc_files = fs, rc_blocks = map (\<lambda>j. row_metas rs ! j) js, rc_range = rng, rc_schema = schema_types s,
         rc_mask = pm, rc_next_block = 0, rc_rows = [], rc_row_idx = 0\<rparr>"
  have ctor: "SSTableRowCursor fs (map (\<lambda>j. row_metas rs ! j) js) rng (schema_types s) projection = rc_load_next_non_empty_block ?c"
    using types pm by (cases "schema_size s") (simp_all add: SSTableRowCursor_def KEY_COLUMN_INDEX_def)
  have "rc_blocks_ok ?c"
    using load rows keyed_project_row by (fastforce simp: rc_blocks_ok_def block_ok_def width_inv_def types(3))
  moreover have "rc_later ?c = map (project_row pm) (concat (map (\<lambda>j. in_rng rng (blocks ! j)) js))"
    using load rows by (simp add: rc_later_def block_rows_def map_concat o_def in_rng_project cong: map_cong)
  ultimately show ?thesis using rc_load_ok [of ?c] unfolding ctor by (auto simp: types(3))
qed

text \<open>The main result for row tables.\<close>

lemma make_row_table_cursor_ok:
  assumes t: "row_table_read s blocks rs fs info" and mc: "row_cache s blocks rs fs mc"
    and pm: "make_projection_mask (schema_size s) projection = Inr pm"
  shows "\<exists>res mc' js. make_sstable_cursor info fs rng (schema_types s) projection f mc = (res, mc') \<and>
    row_cache s blocks rs fs mc' \<and> kept_blocks blocks rng f js \<and>
    cursor_delivers res {..<schema_size s} (map (project_row pm) (concat (map (\<lambda>j. in_rng rng (blocks ! j)) js)))"
proof -
  obtain options where tb: "row_table_of s options blocks rs fs" and small: "files_small fs" and cut: "cut_blocks blocks"
      and info: "in_layout info = ROW" "in_num_blocks info = word_of_nat (length blocks)"
    using t by (auto simp: row_table_read_def)
  have l2: "list_all2 (row_block_of s) blocks rs" and data: "f_data fs = Some (row_data rs)"
      and fmeta: "f_meta fs = Some (concat (map enc_row_meta (row_metas rs)))"
    using tb by (auto simp: row_table_of_def)
  have len: "length rs = length blocks" using list_all2_lengthD [OF l2] by simp
  obtain step where mc: "cache_of s (map rbr_stats rs) fs (sparse_entries step (sparse_candidates (map blk_min blocks))) mc"
    using mc by (auto simp: row_cache_def)
  let ?index = "sparse_entries step (sparse_candidates (map blk_min blocks))"
  obtain sel where sel: "select_metadata_range ?index rng (word_of_nat (length blocks)) = Inr sel"
      "mr_count sel \<noteq> 0 \<Longrightarrow> unat (mr_first sel) + unat (mr_count sel) \<le> length blocks"
      "\<And>i r. i < length blocks \<Longrightarrow> r \<in> set (blocks ! i) \<Longrightarrow> contains rng (rkey r) \<Longrightarrow>
         unat (mr_first sel) \<le> i \<and> i < unat (mr_first sel) + unat (mr_count sel)"
    using select_blocks_ok [OF cut, of step rng] by blast
  have step1: "make_sstable_cursor info fs rng (schema_types s) projection f mc =
      (if mr_count sel = 0 then (Inr None, mc) else make_row_cursor fs sel rng (schema_types s) projection f mc)"
    using sel(1) mc by (simp add: make_sstable_cursor_def info data cache_of_def)
  show ?thesis
  proof (cases "mr_count sel = 0")
    case True
    then have "kept_blocks blocks rng f []" using sel(3) by (fastforce simp: kept_blocks_def)
    then show ?thesis using True mc unfolding step1 row_cache_def
      by (intro exI [of _ "Inr None"] exI [of _ mc] exI [of _ "[]"]) (auto simp: cursor_delivers_def)
  next
    case False
    note r = sel(2) [OF False]
    define js0 where "js0 = filter (\<lambda>j. intersects (blk_min (blocks ! j)) (blk_max (blocks ! j)) rng)
        [unat (mr_first sel)..<unat (mr_first sel) + unat (mr_count sel)]"
    have js0: "set js0 \<subseteq> {..<length blocks}" using r by (auto simp: js0_def)
    have "length blocks < 2 ^ 32" using cut by (simp add: cut_blocks_def)
    then have nb: "length (row_metas rs) = unat (mc_num_blocks mc)" using mc len by (simp add: cache_of_def unat_of_nat_32)
    obtain mc1 where rd: "mc_read_row_metadata_range (mr_first sel) (mr_count sel) mc =
          (Inr (map (\<lambda>j. row_metas rs ! j) [unat (mr_first sel)..<unat (mr_first sel) + unat (mr_count sel)]), mc1)"
        and st1: "mc_step_ok s (map rbr_stats rs) mc mc1"
      using mc_read_row_metadata_range_ok [of s "map rbr_stats rs" mc "row_metas rs" "mr_first sel" "mr_count sel"] mc fmeta small nb r len
      by (auto simp: cache_of_def files_small_def take_drop_nth)
    note mc1 = cache_of_step [OF mc st1]
    have filt: "filter_candidate_row_blocks (map (\<lambda>j. row_metas rs ! j) [unat (mr_first sel)..<unat (mr_first sel) + unat (mr_count sel)]) rng
        = map (\<lambda>j. row_metas rs ! j) js0"
      unfolding filter_candidate_row_blocks_def js0_def filter_map o_def
      using r row_metas_bounds [OF l2] by (intro arg_cong [of _ _ "map _"] filter_cong) auto
    obtain P mc2 where pr: "prune_row_blocks sel f (map (\<lambda>j. row_metas rs ! j) js0) mc1 =
          (Inr (map (\<lambda>j. row_metas rs ! j) (filter P js0)), mc2)" and mc2: "cache_of s (map rbr_stats rs) fs ?index mc2"
        and P: "\<And>i x. i < length blocks \<Longrightarrow> x \<in> set (blocks ! i) \<Longrightarrow> row_wanted f x \<Longrightarrow> P i"
      using prune_row_blocks_ok [OF t mc1 r False js0] by blast
    let ?js = "filter P js0"
    have kept: "kept_blocks blocks rng f ?js"
      unfolding js0_def filter_filter
      by (rule kept_blocks_filter [OF r]) (use sel(3) P block_intersects in blast)
    have "set ?js \<subseteq> {..<length blocks}" using js0 by auto
    from SSTableRowCursor_ok [OF t this pm, of rng] obtain c where
      c: "SSTableRowCursor fs (map (\<lambda>j. row_metas rs ! j) ?js) rng (schema_types s) projection = Inr c"
        "rc_inv c" "rc_remaining c = map (project_row pm) (concat (map (\<lambda>j. in_rng rng (blocks ! j)) ?js))"
        "length (rc_schema c) = schema_size s" by blast
    have "make_row_cursor fs sel rng (schema_types s) projection f mc =
        (if ?js = [] then Inr None else Inr (Some (RowCur c)), mc2)"
      using c(1) by (simp add: make_row_cursor_def rd filt pr)
    then show ?thesis using False mc2 kept c(2-4) unfolding step1 row_cache_def
      by (intro exI [of _ "if ?js = [] then Inr None else Inr (Some (RowCur c))"] exI [of _ mc2] exI [of _ ?js])
        (auto simp: cursor_delivers_def)
  qed
qed

section \<open>Cursors over column tables\<close>

definition col_table_read ::
    "schema \<Rightarrow> row list list \<Rightarrow> col_flushed list \<Rightarrow> sst_files \<Rightarrow> sst_info \<Rightarrow> bool" where
  "col_table_read s blocks cfs fs info \<longleftrightarrow>
     (\<exists>options. col_table_of s options blocks cfs fs) \<and> files_small fs \<and> storable s (concat blocks) \<and> cut_blocks blocks \<and>
     schema_wf s \<and> schema_size s \<le> 2 ^ 16 \<and> in_layout info = COLUMN \<and> in_num_blocks info = word_of_nat (length blocks)"

definition col_cache ::
    "schema \<Rightarrow> row list list \<Rightarrow> col_flushed list \<Rightarrow> sst_files \<Rightarrow> meta_cache \<Rightarrow> bool" where
  "col_cache s blocks cfs fs mc \<longleftrightarrow>
     (\<exists>step. cache_of s (map flushed_stats cfs) fs (sparse_entries step (sparse_candidates (map blk_min blocks))) mc)"

text \<open>The metadata of one logical block.\<close>

lemma sorted_cut_block: "cut_blocks blocks \<Longrightarrow> b \<in> set blocks \<Longrightarrow> sorted (rkeys b) \<and> b \<noteq> []"
proof -
  assume c: "cut_blocks blocks" "b \<in> set blocks"
  have "b \<in> set bs \<Longrightarrow> sorted_wrt (<) (rkeys (concat bs)) \<Longrightarrow> sorted_wrt (<) (rkeys b)" for bs
    by (induction bs) (auto simp: sorted_wrt_append)
  then show ?thesis using c by (auto simp: cut_blocks_def intro: strict_sorted_imp_sorted)
qed

lemma col_metas_block:
  assumes fl: "list_all2 (col_flushed_of s) blocks cfs" and cut: "cut_blocks blocks" and size: "0 < schema_size s" "schema_size s \<le> 2 ^ 16"
    and j: "j < length blocks"
  shows "length (col_metas cfs ! j) = schema_size s"
    "m \<in> set (col_metas cfs ! j) \<Longrightarrow> cm_block_id m = word_of_nat j \<and> cm_min m = blk_min (blocks ! j) \<and> cm_max m = blk_max (blocks ! j)"
proof -
  have len: "length cfs = length blocks" and f: "col_flushed_of s (blocks ! j) (cfs ! j)"
    using fl j by (auto simp: list_all2_conv_all_nth)
  note fD = col_flushed_ofD [OF f]
  let ?off = "length (col_data (take j cfs))"
  have pf: "col_metas cfs ! j = key_block_meta j ?off (cf_keys (cfs ! j)) #
      place_columns j 1 (?off + 8 * length (cf_keys (cfs ! j))) (cf_results (cfs ! j))"
    using j len by (simp add: nth_place_col_blocks place_flushed_def)
  show "length (col_metas cfs ! j) = schema_size s" using size fD(3) by (simp add: pf)
  have b: "blk_min (blocks ! j) = rkey (hd (blocks ! j))" "blk_max (blocks ! j) = rkey (last (blocks ! j))"
    using sorted_block_bounds sorted_cut_block [OF cut nth_mem [OF j]] by blast+
  assume "m \<in> set (col_metas cfs ! j)"
  then consider "m = key_block_meta j ?off (cf_keys (cfs ! j))"
    | k where "k < length (cf_results (cfs ! j))" "m = place_columns j 1 (?off + 8 * length (cf_keys (cfs ! j))) (cf_results (cfs ! j)) ! k"
    unfolding pf by (auto simp: in_set_conv_nth)
  then show "cm_block_id m = word_of_nat j \<and> cm_min m = blk_min (blocks ! j) \<and> cm_max m = blk_max (blocks ! j)"
  proof cases
    case 1
    then show ?thesis using b fD(1,2) by (simp add: key_block_meta_def hd_map last_map)
  next
    case 2
    have "col_block_of s (blocks ! j) (Suc k) (cf_results (cfs ! j) ! k)" using fD(3) fD(4) [of "Suc k"] 2(1) by simp
    moreover have "Suc k < 2 ^ 16" using 2(1) fD(3) size by simp
    ultimately show ?thesis using 2 col_block_ofD(1,2) by (simp add: nth_place_columns)
  qed
qed

lemma col_metas_nonempty:
  "list_all2 (col_flushed_of s) blocks cfs \<Longrightarrow> j < length blocks \<Longrightarrow> col_metas cfs ! j \<noteq> []"
  by (auto simp: nth_place_col_blocks place_flushed_def dest: list_all2_lengthD)

text \<open>The column metadata of a range of logical blocks.\<close>

lemma take_drop_groups:
  assumes "\<forall>g \<in> set gs. length g = n" "a + m \<le> length gs"
  shows "take (m * n) (drop (a * n) (concat gs)) = concat (map (\<lambda>j. gs ! j) [a..<a + m])"
proof -
  have "take (m * n) (drop (a * n) (concat (map id gs))) = concat (map id (take m (drop a gs)))"
    using assms by (intro take_drop_concat_const) auto
  then show ?thesis using assms(2) by (simp add: take_drop_nth)
qed

lemma filter_concat_groups:
  assumes "\<And>j x. j \<in> set js \<Longrightarrow> x \<in> set (g j) \<Longrightarrow> P x \<longleftrightarrow> Q j"
  shows "filter P (concat (map g js)) = concat (map g (filter Q js))"
  using assms
proof (induction js)
  case (Cons j js)
  have "filter P (g j) = (if Q j then g j else [])" using Cons.prems by (auto simp: filter_id_conv filter_empty_conv)
  moreover have "filter P (concat (map g js)) = concat (map g (filter Q js))" using Cons.prems by (intro Cons.IH) simp
  ultimately show ?case by simp
qed simp

lemma takeWhile_split:
  assumes "\<forall>x \<in> set xs. P x" "\<forall>y \<in> set ys. \<not> P y"
  shows "takeWhile P (xs @ ys) = xs \<and> dropWhile P (xs @ ys) = ys"
proof -
  have "takeWhile P ys = [] \<and> dropWhile P ys = ys" using assms(2) by (cases ys) auto
  then show ?thesis using assms(1) by simp
qed

lemma column_groups_concat:
  assumes "\<And>j. j \<in> set js \<Longrightarrow> g j \<noteq> [] \<and> (\<forall>m \<in> set (g j). cm_block_id m = word_of_nat j)"
    and "distinct js" "\<forall>j \<in> set js. j < 2 ^ 32"
  shows "column_groups (concat (map g js)) = map g js"
  using assms
proof (induction js)
  case (Cons j js)
  obtain b bs where g: "g j = b # bs" using Cons.prems(1) [of j] by (cases "g j") auto
  have id: "\<forall>m \<in> set (g j). same_block b m" using Cons.prems(1) [of j] by (auto simp: g)
  have other: "\<not> same_block b m" if "m \<in> set (concat (map g js))" for m
  proof -
    obtain i where i: "i \<in> set js" "m \<in> set (g i)" using \<open>m \<in> set (concat (map g js))\<close> by auto
    have "cm_block_id m = word_of_nat i" "cm_block_id b = word_of_nat j" using Cons.prems(1) i by (auto simp: g)
    moreover have "i \<noteq> j" "i < 2 ^ 32" "j < 2 ^ 32" using Cons.prems(2,3) i(1) by auto
    ultimately show ?thesis by (metis unat_of_nat_32)
  qed
  define rest where "rest = concat (map g js)"
  have "\<forall>m \<in> set (b # bs). same_block b m" using id unfolding g .
  moreover have "\<forall>m \<in> set rest. \<not> same_block b m" using other unfolding rest_def by blast
  ultimately have "takeWhile (same_block b) ((b # bs) @ rest) = b # bs \<and> dropWhile (same_block b) ((b # bs) @ rest) = rest"
    by (rule takeWhile_split)
  then have "takeWhile (same_block b) (b # bs @ rest) = b # bs" "dropWhile (same_block b) (b # bs @ rest) = rest"
    unfolding append_Cons by blast+
  moreover have "column_groups rest = map g js" unfolding rest_def using Cons.prems by (intro Cons.IH) auto
  moreover have "column_groups (b # bs @ rest) =
      takeWhile (same_block b) (b # bs @ rest) # column_groups (dropWhile (same_block b) (b # bs @ rest))"
    by (rule column_groups.simps)
  ultimately have "column_groups (b # bs @ rest) = (b # bs) # map g js" by (simp only:)
  then show ?case unfolding rest_def by (simp add: g)
qed simp

text \<open>Loading the value columns of one logical block.\<close>

lemma cc_load_columns:
  assumes "\<And>k. k < length ms \<Longrightarrow> cm_column_idx (ms ! k) = word_of_nat (ci + k) \<and>
      (\<exists>data. read_column_block fs (ms ! k) = Inr data \<and>
        decode_value_column_block data (cm_count (ms ! k)) (types ! (ci + k)) = Inr (cells (ci + k)))"
    and "0 < ci" "ci + length ms \<le> length types" "length types < 2 ^ 32" "length cols = length types"
  shows "\<exists>cols'. cc_load_group fs types projection (project_column_blocks projection ms) (ks, cols) = Inr (ks, cols') \<and>
    length cols' = length cols \<and>
    (\<forall>c < length cols. cols' ! c = (if ci \<le> c \<and> c < ci + length ms \<and> c \<in> set projection then cells c else cols ! c))"
  using assms
proof (induction ms arbitrary: ci cols)
  case Nil
  then show ?case by (auto simp: project_column_blocks_def)
next
  case (Cons m ms)
  have m: "cm_column_idx m = word_of_nat ci" "\<exists>data. read_column_block fs m = Inr data \<and>
      decode_value_column_block data (cm_count m) (types ! ci) = Inr (cells ci)" using Cons.prems(1) [of 0] by simp_all
  have ci: "unat (cm_column_idx m) = ci" using Cons.prems(3,4) by (simp add: m(1) unat_of_nat_32)
  have rest: "cm_column_idx (ms ! k) = word_of_nat (Suc ci + k) \<and>
      (\<exists>data. read_column_block fs (ms ! k) = Inr data \<and>
        decode_value_column_block data (cm_count (ms ! k)) (types ! (Suc ci + k)) = Inr (cells (Suc ci + k)))"
    if "k < length ms" for k
    using Cons.prems(1) [of "Suc k"] that by simp
  define cols1 where "cols1 = (if ci \<in> set projection then cols[ci := cells ci] else cols)"
  have l1: "length cols1 = length types" "\<And>c. c < length types \<Longrightarrow> cols1 ! c = (if c = ci \<and> ci \<in> set projection then cells ci else cols ! c)"
    using Cons.prems(5) by (auto simp: cols1_def nth_list_update)
  obtain cols2 where c2: "cc_load_group fs types projection (project_column_blocks projection ms) (ks, cols1) = Inr (ks, cols2)"
      "length cols2 = length cols1"
      "\<forall>c < length cols1. cols2 ! c = (if Suc ci \<le> c \<and> c < Suc ci + length ms \<and> c \<in> set projection then cells c else cols1 ! c)"
    using Cons.IH [of "Suc ci" cols1, OF rest] Cons.prems(3,4) l1(1) by auto
  have "cc_load_group fs types projection (project_column_blocks projection (m # ms)) (ks, cols) = Inr (ks, cols2)"
    using c2(1) m(2) ci Cons.prems(2,3) by (auto simp: project_column_blocks_def cols1_def KEY_COLUMN_INDEX_def)
  moreover have "cols2 ! c = (if ci \<le> c \<and> c < ci + length (m # ms) \<and> c \<in> set projection then cells c else cols ! c)"
    if "c < length cols" for c
    using that c2(3) l1 Cons.prems(5) by (cases "c = ci") auto
  ultimately show ?case using c2(2) l1(1) Cons.prems(5) by (intro exI [of _ cols2]) simp
qed

lemma col_metas_load:
  assumes t: "col_table_read s blocks cfs fs info" and j: "j < length blocks"
    and pm: "make_projection_mask (schema_size s) projection = Inr pm"
  shows "group_ok fs (schema_types s) projection (project_column_blocks projection (col_metas cfs ! j))"
    "group_rows fs (schema_types s) projection (project_column_blocks projection (col_metas cfs ! j)) = map (project_row pm) (blocks ! j)"
proof -
  obtain options where tb: "col_table_of s options blocks cfs fs" and small: "files_small fs" and st: "storable s (concat blocks)"
      and wf: "schema_wf s" and size: "schema_size s \<le> 2 ^ 16"
    using t by (auto simp: col_table_read_def)
  let ?b = "blocks ! j" and ?f = "cfs ! j" and ?n = "schema_size s" and ?types = "schema_types s"
  have len: "length cfs = length blocks" and f: "col_flushed_of s ?b ?f" and data: "f_data fs = Some (col_data cfs)"
    using tb j by (auto simp: col_table_of_def list_all2_conv_all_nth)
  note fD = col_flushed_ofD [OF f]
  have sb: "storable s ?b" using storable_block [OF st] j by simp
  then have sm7: "length ?b < 2 ^ 32 - 7" by (simp add: storable_def)
  then have sm: "length ?b < 2 ^ 32" by simp
  have types: "length ?types = ?n" "0 < ?n" "\<And>ci. ci < ?n \<Longrightarrow> ?types ! ci = col_type (columns s ! ci)"
    using wf by (auto simp: schema_wf_def schema_types_def schema_size_def)
  have rows: "keyed r \<and> length r = ?n" if "r \<in> set ?b" for r
    using valid_row_keyed [OF wf] sb that by (auto simp: storable_def)
  let ?off = "length (col_data (take j cfs))" and ?rs = "cf_results ?f"
  have lk: "length (flushed_key_data ?f) = 8 * length (cf_keys ?f)" by (simp add: flushed_key_data_def length_enc_keys)
  define km where "km = key_block_meta j ?off (cf_keys ?f)"
  define ms where "ms = place_columns j 1 (?off + 8 * length (cf_keys ?f)) ?rs"
  have pf: "col_metas cfs ! j = km # ms" using j len by (simp add: nth_place_col_blocks place_flushed_def km_def ms_def)
  have split: "col_data cfs = col_data (take j cfs) @ (flushed_key_data ?f @ concat (map cbr_data ?rs)) @ col_data (drop (Suc j) cfs)"
    using j len unfolding flushed_data_def [symmetric] by (metis concat_append concat.simps(2) id_take_nth_drop list.simps(9) map_append)
  have lt: "length (col_data cfs) < 2 ^ 63" using small data by (simp add: files_small_def)
  then have off: "?off + length (flushed_key_data ?f) + length (concat (map cbr_data ?rs)) < 2 ^ 63" unfolding split by simp
  have key: "read_column_block fs km = Inr (flushed_key_data ?f)"
    unfolding read_column_block_def read_data_bytes_def data option.case
    by (rule read_bytes_from_stream_mid [OF _ _ _ lt, of "col_data (take j cfs)" _ "concat (map cbr_data ?rs) @ col_data (drop (Suc j) cfs)"])
      (use split off lk in \<open>simp_all add: km_def key_block_meta_def unat_of_nat_64 del: of_nat_mult\<close>)
  have kd: "decode_key_block (flushed_key_data ?f) (cm_count km) = Inr (rkeys ?b)"
    using fD(5) [OF sm] by (simp add: km_def key_block_meta_def)
  have val: "cm_column_idx (ms ! k) = word_of_nat (1 + k) \<and> (\<exists>d. read_column_block fs (ms ! k) = Inr d \<and>
      decode_value_column_block d (cm_count (ms ! k)) (?types ! (1 + k)) = Inr (col_cells (1 + k) ?b))" if k: "k < length ms" for k
  proof -
    have kr: "k < length ?rs" "Suc k < ?n" using k fD(3) by (simp_all add: ms_def)
    have of: "col_block_of s ?b (Suc k) (?rs ! k)" using fD(4) [of "Suc k"] kr(2) by simp
    have s16: "Suc k < 2 ^ 16" using kr(2) size by simp
    note D = col_block_ofD [OF of s16]
    let ?pre = "concat (map cbr_data (take k ?rs))"
    have rs: "concat (map cbr_data ?rs) = ?pre @ cbr_data (?rs ! k) @ concat (map cbr_data (drop (Suc k) ?rs))"
      using kr(1) by (metis concat_append concat.simps(2) id_take_nth_drop list.simps(9) map_append)
    have m: "ms ! k = (cbr_meta (?rs ! k))\<lparr>cm_offset := word_of_nat (?off + 8 * length (cf_keys ?f) + length ?pre),
        cm_size := word_of_nat (length (cbr_data (?rs ! k))), cm_block_id := word_of_nat j, cm_column_idx := word_of_nat (1 + k)\<rparr>"
      using kr(1) by (simp add: ms_def nth_place_columns)
    have sz: "?off + 8 * length (cf_keys ?f) + length ?pre < 2 ^ 64" "length (cbr_data (?rs ! k)) < 2 ^ 64"
      using off lk unfolding rs by simp_all
    have "read_column_block fs (ms ! k) = Inr (cbr_data (?rs ! k))"
      unfolding read_column_block_def read_data_bytes_def data option.case
      by (rule read_bytes_from_stream_mid [OF _ _ _ lt, of "col_data (take j cfs) @ flushed_key_data ?f @ ?pre" _
            "concat (map cbr_data (drop (Suc k) ?rs)) @ col_data (drop (Suc j) cfs)"])
        (use split sz lk in \<open>simp_all add: m rs unat_of_nat_64 add.assoc del: of_nat_mult of_nat_add\<close>)
    moreover have "cells_fit (col_cells (Suc k) ?b)"
    proof -
      have "val_fits v" if "r \<in> set ?b" "r ! Suc k = Some v" for r v
      proof -
        have "tl r ! k = Some v" "k < length (tl r)" using that rows kr(2) by (auto simp: nth_tl)
        then have "Some v \<in> set (tl r)" by (metis nth_mem)
        then show ?thesis using sb that(1) by (auto simp: storable_def cells_fit_def)
      qed
      then show ?thesis by (auto simp: cells_fit_def col_cells_def)
    qed
    ultimately show ?thesis using D(6) [OF sm7] kr(2) by (simp add: m types(3))
  qed
  have lms: "1 + length ms = ?n" using fD(3) types(2) by (simp add: ms_def)
  obtain cols where cols: "cc_load_group fs ?types projection (project_column_blocks projection ms) (rkeys ?b, replicate ?n []) = Inr (rkeys ?b, cols)"
      "length cols = ?n" "\<forall>c < ?n. cols ! c = (if 1 \<le> c \<and> c \<in> set projection then col_cells c ?b else [])"
    using cc_load_columns [of ms 1 fs ?types "\<lambda>c. col_cells c ?b" "replicate ?n []" projection "rkeys ?b", OF val] lms size types(1)
    by fastforce
  have k0: "unat (cm_column_idx km) = 0" by (simp add: km_def key_block_meta_def KEY_COLUMN_INDEX_def)
  have load: "load_group fs ?types projection (project_column_blocks projection (col_metas cfs ! j)) = Inr (rkeys ?b, cols)"
    using cols(1) key kd k0 types by (simp add: load_group_def pf project_column_blocks_def KEY_COLUMN_INDEX_def)
  have "columns_loaded projection ?n (rkeys ?b) cols" using cols(2,3) by (simp add: columns_loaded_def col_cells_def)
  with load show "group_ok fs ?types projection (project_column_blocks projection (col_metas cfs ! j))"
    by (simp add: group_ok_def types(1))
  note mask = make_projection_mask_spec [OF pm types(2)]
  have "column_row ?n (rkeys ?b) cols i = project_row pm (?b ! i)" if i: "i < length ?b" for i
  proof (rule nth_equalityI)
    have r: "keyed (?b ! i)" "length (?b ! i) = ?n" using rows nth_mem [OF i] by blast+
    then show l: "length (column_row ?n (rkeys ?b) cols i) = length (project_row pm (?b ! i))"
      using types(2) by (simp add: column_row_def project_row_def)
    fix c assume "c < length (column_row ?n (rkeys ?b) cols i)"
    then have c: "c < ?n" using types(2) by (simp add: column_row_def)
    show "column_row ?n (rkeys ?b) cols i ! c = project_row pm (?b ! i) ! c"
    proof (cases c)
      case 0
      then show ?thesis using r(1) i by (auto simp: column_row_def project_row_def keyed_def rkey_def row_key_def)
    next
      case (Suc d)
      have "project_row pm (?b ! i) ! c = (if c \<in> set projection then ?b ! i ! c else None)"
        using c r(2) mask Suc by (simp add: project_row_def nth_project_cells nth_tl KEY_COLUMN_INDEX_def)
      moreover have "column_row ?n (rkeys ?b) cols i ! c = (if c \<in> set projection then ?b ! i ! c else None)"
        using c cols(3) Suc i by (simp add: column_row_def col_cells_def)
      ultimately show ?thesis by simp
    qed
  qed
  then show "group_rows fs ?types projection (project_column_blocks projection (col_metas cfs ! j)) = map (project_row pm) ?b"
    using load by (intro nth_equalityI) (simp_all add: group_rows_def column_rows_def types(1))
qed

lemma col_table_stats:
  assumes "schema_wf s" "schema_size s \<le> 2 ^ 16" "list_all2 (col_flushed_of s) blocks cfs"
  shows "table_stats s blocks (map flushed_stats cfs)"
  unfolding table_stats_def list_all2_map2 by (rule list_all2_mono [OF assms(3)]) (rule flushed_stats_ok [OF assms(1,2)])

lemma prune_column_blocks_ok:
  assumes t: "col_table_read s blocks cfs fs info" and mc: "cache_of s (map flushed_stats cfs) fs index mc"
    and r: "unat (mr_first sel) + unat (mr_count sel) \<le> length blocks" "mr_count sel \<noteq> 0"
    and js: "set js \<subseteq> {..<length blocks}"
  shows "\<exists>P mc1. prune_column_blocks sel f (concat (map (\<lambda>j. col_metas cfs ! j) js)) mc =
      (Inr (concat (map (\<lambda>j. col_metas cfs ! j) (filter P js))), mc1) \<and>
    cache_of s (map flushed_stats cfs) fs index mc1 \<and>
    (\<forall>i < length blocks. \<forall>x \<in> set (blocks ! i). row_wanted f x \<longrightarrow> P i)"
proof -
  let ?g = "\<lambda>j. col_metas cfs ! j"
  obtain options where tb: "col_table_of s options blocks cfs fs" and small: "files_small fs" and n: "schema_size s \<le> 2 ^ 16"
      and wf: "schema_wf s" and cut: "cut_blocks blocks"
    using t by (auto simp: col_table_read_def)
  have l2: "list_all2 (col_flushed_of s) blocks cfs" using tb by (simp add: col_table_of_def)
  then have len: "length cfs = length blocks" by (auto dest: list_all2_lengthD)
  have pos: "0 < schema_size s" using wf by (auto simp: schema_wf_def schema_size_def)
  show ?thesis
  proof (cases "concat (map ?g js) \<noteq> [] \<and> f \<noteq> []")
    case False
    then have "prune_column_blocks sel f (concat (map ?g js)) mc = (Inr (concat (map ?g (filter (\<lambda>_. True) js))), mc)"
      by (auto simp: prune_column_blocks_def)
    then show ?thesis using mc by blast
  next
    case True
    have n32: "length blocks < 2 ^ 32" using cut by (simp add: cut_blocks_def)
    have sf: "stats_file_of s (map flushed_stats cfs) fs"
      using tb small n n32 len by (auto simp: col_table_of_def stats_file_of_def files_small_def)
    obtain stats mc1 where st: "mc_read_numeric_stats_range (mr_first sel) (mr_count sel) (referenced_columns f) mc = (Inr stats, mc1)"
        "stats_for s (map flushed_stats cfs) f stats" "cache_of s (map flushed_stats cfs) fs index mc1"
      using read_stats_for [OF mc sf _ r(2), of f] r(1) by (auto simp: len)
    note ts = col_table_stats [OF wf n l2]
    define Q where "Q = (\<lambda>b :: 32 word. stats_range_empty stats \<or> f = [] \<or> may_satisfy b stats f = Inr True)"
    have fb: "filter_blocks (\<lambda>i. i) bs stats f = Inr (filter Q bs)" for bs
      using filter_blocks_total [OF st(2) table_stats_total [OF ts], of "\<lambda>i. i"] by (simp add: Q_def)
    let ?ids = "remdups_adj (map cm_block_id (concat (map ?g js)))"
    have mem: "cm_block_id m \<in> set (filter Q ?ids) \<longleftrightarrow> Q (word_of_nat j)" if j: "j \<in> set js" "m \<in> set (?g j)" for j m
    proof -
      have "cm_block_id m = word_of_nat j"
        using col_metas_block(2) [OF l2 cut pos n _ j(2)] js j(1) by blast
      moreover have "cm_block_id m \<in> set ?ids" using j by force
      ultimately show ?thesis by simp
    qed
    have sel: "filter (\<lambda>b. cm_block_id b \<in> set (filter Q ?ids)) (concat (map ?g js)) = concat (map ?g (filter (\<lambda>j. Q (word_of_nat j)) js))"
      using mem by (rule filter_concat_groups)
    have "prune_column_blocks sel f (concat (map ?g js)) mc = (Inr (concat (map ?g (filter (\<lambda>j. Q (word_of_nat j)) js))), mc1)"
      unfolding prune_column_blocks_def Let_def using True by (simp only: st(1) fb sbind_simps rbind_Inr sel if_True simp_thms not_False_eq_True)
    moreover have "Q (word_of_nat i)" if "i < length blocks" "x \<in> set (blocks ! i)" "row_wanted f x" for i x
    proof -
      have "valid_row s x" using t nth_mem [OF that(1)] that(2) by (auto simp: col_table_read_def storable_def)
      from may_satisfy_wanted [OF ts st(2) _ that(1,2) this that(3)] show ?thesis by (auto simp: Q_def)
    qed
    ultimately show ?thesis using st(3) by (intro exI [of _ "\<lambda>j. Q (word_of_nat j)"] exI [of _ mc1] conjI) blast+
  qed
qed

lemma SSTableColumnCursor_ok:
  assumes t: "col_table_read s blocks cfs fs info" and js: "set js \<subseteq> {..<length blocks}" "distinct js"
    and pm: "make_projection_mask (schema_size s) projection = Inr pm"
  shows "\<exists>c. SSTableColumnCursor fs (project_column_blocks projection (concat (map (\<lambda>j. col_metas cfs ! j) js))) rng (schema_types s) projection = Inr c \<and>
    cc_inv c \<and> cc_remaining c = map (project_row pm) (concat (map (\<lambda>j. in_rng rng (blocks ! j)) js)) \<and>
    cc_cols c = {ci. ci < schema_size s \<and> (ci = KEY_COLUMN_INDEX \<or> ci \<in> set projection)}"
proof -
  let ?g = "\<lambda>j. project_column_blocks projection (col_metas cfs ! j)"
  obtain options where tb: "col_table_of s options blocks cfs fs" and st: "storable s (concat blocks)" and cut: "cut_blocks blocks"
      and wf: "schema_wf s" and n: "schema_size s \<le> 2 ^ 16"
    using t by (auto simp: col_table_read_def)
  have l2: "list_all2 (col_flushed_of s) blocks cfs" using tb by (simp add: col_table_of_def)
  then have len: "length cfs = length blocks" by (auto dest: list_all2_lengthD)
  have types: "schema_types s \<noteq> []" "schema_types s ! KEY_COLUMN_INDEX = INT64" "length (schema_types s) = schema_size s"
    using wf by (auto simp: schema_wf_def schema_types_def schema_size_def Let_def KEY_COLUMN_INDEX_def hd_conv_nth)
  then have pos: "0 < schema_size s" by (cases "schema_types s") auto
  have proj: "project_column_blocks projection (concat (map (\<lambda>j. col_metas cfs ! j) js)) = concat (map ?g js)"
    by (simp add: project_column_blocks_def filter_concat o_def)
  have ids: "?g j \<noteq> [] \<and> (\<forall>m \<in> set (?g j). cm_block_id m = word_of_nat j)" if "j \<in> set js" for j
  proof -
    have j: "j < length blocks" using that js by blast
    then have "?g j \<noteq> []" using len
      by (simp add: nth_place_col_blocks place_flushed_def project_column_blocks_def key_block_meta_def KEY_COLUMN_INDEX_def)
    moreover have "\<forall>m \<in> set (?g j). cm_block_id m = word_of_nat j"
      using col_metas_block(2) [OF l2 cut pos n j] by (auto simp: project_column_blocks_def)
    ultimately show ?thesis by blast
  qed
  have "\<forall>j \<in> set js. j < 2 ^ 32" using js(1) cut by (auto simp: cut_blocks_def)
  then have groups: "column_groups (concat (map ?g js)) = map ?g js" by (intro column_groups_concat js(2) ids)
  let ?c = "\<lparr>cc_files = fs, cc_blocks = concat (map ?g js), cc_range = rng, cc_schema = schema_types s,
        cc_projection = projection, cc_next_block = 0, cc_row_idx = 0, cc_keys = [],
        cc_columns = replicate (length (schema_types s)) []\<rparr>"
  have ctor: "SSTableColumnCursor fs (concat (map ?g js)) rng (schema_types s) projection = cc_load_next_non_empty_block ?c"
    using types pos by (simp add: SSTableColumnCursor_def KEY_COLUMN_INDEX_def)
  have rows: "keyed r" if "j \<in> set js" "r \<in> set (blocks ! j)" for j r
    using valid_row_keyed [OF wf] st js that by (force simp: storable_def)
  have load: "group_ok fs (schema_types s) projection (?g j)" "group_rows fs (schema_types s) projection (?g j) = map (project_row pm) (blocks ! j)"
    if "j \<in> set js" for j
    using col_metas_load [OF t _ pm] js that by blast+
  have "cc_groups_ok ?c" using load(1) groups by (simp add: cc_groups_ok_def)
  moreover have "cc_later ?c = map (project_row pm) (concat (map (\<lambda>j. in_rng rng (blocks ! j)) js))"
    using load(2) rows groups by (simp add: cc_later_def map_concat o_def in_rng_project cong: map_cong)
  ultimately have "\<exists>c. cc_load_next_non_empty_block ?c = Inr c \<and> cc_inv c \<and>
      cc_remaining c = map (project_row pm) (concat (map (\<lambda>j. in_rng rng (blocks ! j)) js)) \<and>
      cc_schema c = schema_types s \<and> cc_projection c = projection"
    using cc_load_ok [of ?c] types(1) by simp
  then show ?thesis unfolding proj ctor by (auto simp: cc_cols_def types(3))
qed

text \<open>The main result for column tables.\<close>

lemma make_col_table_cursor_ok:
  assumes t: "col_table_read s blocks cfs fs info" and mc: "col_cache s blocks cfs fs mc"
    and pm: "make_projection_mask (schema_size s) projection = Inr pm"
  shows "\<exists>res mc' js. make_sstable_cursor info fs rng (schema_types s) projection f mc = (res, mc') \<and>
    col_cache s blocks cfs fs mc' \<and> kept_blocks blocks rng f js \<and>
    cursor_delivers res {ci. ci < schema_size s \<and> (ci = KEY_COLUMN_INDEX \<or> ci \<in> set projection)}
      (map (project_row pm) (concat (map (\<lambda>j. in_rng rng (blocks ! j)) js)))"
proof -
  let ?g = "\<lambda>j. col_metas cfs ! j"
  obtain options where tb: "col_table_of s options blocks cfs fs" and small: "files_small fs" and cut: "cut_blocks blocks"
      and info: "in_layout info = COLUMN" "in_num_blocks info = word_of_nat (length blocks)"
      and wf: "schema_wf s" and n: "schema_size s \<le> 2 ^ 16"
    using t by (auto simp: col_table_read_def)
  have l2: "list_all2 (col_flushed_of s) blocks cfs" and data: "f_data fs = Some (col_data cfs)"
      and fmeta: "f_meta fs = Some (concat (map enc_col_meta (concat (col_metas cfs))))"
    using tb by (auto simp: col_table_of_def)
  have pos: "0 < schema_size s" using wf by (auto simp: schema_wf_def schema_size_def)
  have len: "length cfs = length blocks" using list_all2_lengthD [OF l2] by simp
  note mb = col_metas_block [OF l2 cut pos n]
  obtain step where mc: "cache_of s (map flushed_stats cfs) fs (sparse_entries step (sparse_candidates (map blk_min blocks))) mc"
    using mc by (auto simp: col_cache_def)
  let ?index = "sparse_entries step (sparse_candidates (map blk_min blocks))"
  obtain sel where sel: "select_metadata_range ?index rng (word_of_nat (length blocks)) = Inr sel"
      "mr_count sel \<noteq> 0 \<Longrightarrow> unat (mr_first sel) + unat (mr_count sel) \<le> length blocks"
      "\<And>i r. i < length blocks \<Longrightarrow> r \<in> set (blocks ! i) \<Longrightarrow> contains rng (rkey r) \<Longrightarrow>
         unat (mr_first sel) \<le> i \<and> i < unat (mr_first sel) + unat (mr_count sel)"
    using select_blocks_ok [OF cut, of step rng] by blast
  have step1: "make_sstable_cursor info fs rng (schema_types s) projection f mc =
      (if mr_count sel = 0 then (Inr None, mc) else make_column_cursor fs sel rng (schema_types s) projection f mc)"
    using sel(1) mc by (simp add: make_sstable_cursor_def info data cache_of_def)
  show ?thesis
  proof (cases "mr_count sel = 0")
    case True
    then have "kept_blocks blocks rng f []" using sel(3) by (fastforce simp: kept_blocks_def)
    then show ?thesis using True mc unfolding step1 col_cache_def
      by (intro exI [of _ "Inr None"] exI [of _ mc] exI [of _ "[]"]) (auto simp: cursor_delivers_def)
  next
    case False
    note r = sel(2) [OF False]
    let ?range = "[unat (mr_first sel)..<unat (mr_first sel) + unat (mr_count sel)]"
    define js0 where "js0 = filter (\<lambda>j. intersects (blk_min (blocks ! j)) (blk_max (blocks ! j)) rng) ?range"
    have js0: "set js0 \<subseteq> {..<length blocks}" using r by (auto simp: js0_def)
    have n32: "length blocks < 2 ^ 32" using cut by (simp add: cut_blocks_def)
    have gl: "\<forall>g \<in> set (col_metas cfs). length g = schema_size s"
      using mb(1) len by (auto simp: in_set_conv_nth)
    have cc: "unat (mc_num_blocks mc) = length blocks" "unat (mc_columns_count mc) = schema_size s"
      using mc len n32 n by (simp_all add: cache_of_def unat_of_nat_32)
    have "length (concat (col_metas cfs)) = length blocks * schema_size s"
      using length_concat_const [of "col_metas cfs" id "schema_size s"] gl len by simp
    then have nb: "length (concat (col_metas cfs)) = unat (mc_num_blocks mc) * unat (mc_columns_count mc)" by (simp add: cc)
    obtain mc1 where rd: "mc_read_column_metadata_range (mr_first sel) (mr_count sel) mc = (Inr (concat (map ?g ?range)), mc1)"
        and st1: "mc_step_ok s (map flushed_stats cfs) mc mc1"
      using mc_read_column_metadata_range_ok [of s "map flushed_stats cfs" mc "concat (col_metas cfs)" "mr_first sel" "mr_count sel", OF _ _ _ _ nb]
        mc fmeta small r len take_drop_groups [OF gl, of "unat (mr_first sel)" "unat (mr_count sel)"]
      by (auto simp: cache_of_def files_small_def cc)
    note mc1 = cache_of_step [OF mc st1]
    have filt: "filter_candidate_column_blocks (concat (map ?g ?range)) rng = concat (map ?g js0)"
      unfolding filter_candidate_column_blocks_def js0_def
    proof (rule filter_concat_groups)
      fix j x assume "j \<in> set ?range" "x \<in> set (?g j)"
      then have "cm_min x = blk_min (blocks ! j)" "cm_max x = blk_max (blocks ! j)" using r mb(2) [of j x] by auto
      then show "intersects (cm_min x) (cm_max x) rng \<longleftrightarrow> intersects (blk_min (blocks ! j)) (blk_max (blocks ! j)) rng"
        by simp
    qed
    obtain P mc2 where pr: "prune_column_blocks sel f (concat (map ?g js0)) mc1 = (Inr (concat (map ?g (filter P js0))), mc2)"
        and mc2: "cache_of s (map flushed_stats cfs) fs ?index mc2"
        and P: "\<And>i x. i < length blocks \<Longrightarrow> x \<in> set (blocks ! i) \<Longrightarrow> row_wanted f x \<Longrightarrow> P i"
      using prune_column_blocks_ok [OF t mc1 r False js0] by blast
    let ?js = "filter P js0"
    have kept: "kept_blocks blocks rng f ?js"
      unfolding js0_def filter_filter
      by (rule kept_blocks_filter [OF r]) (use sel(3) P block_intersects in blast)
    have js: "set ?js \<subseteq> {..<length blocks}" "distinct ?js" using js0 by (auto simp: js0_def)
    from SSTableColumnCursor_ok [OF t js pm, of rng] obtain c where
      c: "SSTableColumnCursor fs (project_column_blocks projection (concat (map ?g ?js))) rng (schema_types s) projection = Inr c"
        "cc_inv c" "cc_remaining c = map (project_row pm) (concat (map (\<lambda>j. in_rng rng (blocks ! j)) ?js))"
        "cc_cols c = {ci. ci < schema_size s \<and> (ci = KEY_COLUMN_INDEX \<or> ci \<in> set projection)}" by blast
    have ne: "concat (map ?g ?js) = [] \<longleftrightarrow> ?js = []"
      using js(1) col_metas_nonempty [OF l2] by (cases ?js) auto
    have "make_column_cursor fs sel rng (schema_types s) projection f mc =
        (if ?js = [] then Inr None else Inr (Some (ColCur c)), mc2)"
      using c(1) ne by (simp add: make_column_cursor_def rd filt pr)
    then show ?thesis using False mc2 kept c(2-4) unfolding step1 col_cache_def
      by (intro exI [of _ "if ?js = [] then Inr None else Inr (Some (ColCur c))"] exI [of _ mc2] exI [of _ ?js])
        (auto simp: cursor_delivers_def)
  qed
qed

end
