(* ===== verification/Table_Size.thy ===== *)
theory Table_Size
  imports Sst_Cursor
begin

text \<open>
  How large the files of a table can get: a bound on all five files by the bytes of the rows, for
  both builders. Offsets and sizes are 64-bit in the code, so tables within the bound are read back
  without wrap-around (\<open>files_small\<close>).
\<close>

section \<open>The bytes of a row\<close>

fun cell_bytes :: "nullable_value \<Rightarrow> nat" where
  "cell_bytes None = 0"
| "cell_bytes (Some (VString s)) = 4 + length s"
| "cell_bytes (Some _) = 8"

text \<open>A cell, and what the metadata, statistics and index files can hold for it.\<close>

definition row_bytes :: "row \<Rightarrow> nat" where
  "row_bytes r = sum_list (map (\<lambda>c. cell_bytes c + 60) r)"

definition table_bytes :: "row list \<Rightarrow> nat" where
  "table_bytes rows = 16 + sum_list (map row_bytes rows)"

lemma row_bytes_alt: "row_bytes r = sum_list (map cell_bytes r) + 60 * length r"
  by (simp add: row_bytes_def sum_list_addf sum_list_triv)

lemma table_bytes_alt:
  "\<forall>r \<in> set rows. length r = n \<Longrightarrow>
   table_bytes rows = 16 + 60 * (n * length rows) + sum_list (map (\<lambda>r. sum_list (map cell_bytes r)) rows)"
  unfolding table_bytes_def by (induction rows) (simp_all add: row_bytes_alt algebra_simps)

lemma length_write_value: "write_value ty v = Inr bs \<Longrightarrow> length bs = cell_bytes v"
  by (cases "(ty, v)" rule: write_value.cases) auto

lemma length_encode_cells:
  "encode_cells tys cs = Inr bs \<Longrightarrow> length tys = length cs \<Longrightarrow> length bs = sum_list (map cell_bytes cs)"
  by (induction tys cs arbitrary: bs rule: encode_cells.induct) (auto simp: rbind_eq_Inr dest: length_write_value)

lemma bitmap_size_le: "bitmap_size n \<le> n"
  by (simp add: bitmap_size_def)

lemma keyed_bytes: "keyed r \<Longrightarrow> sum_list (map cell_bytes r) = 8 + sum_list (map cell_bytes (tl r))"
  by (auto simp: keyed_def)

lemma length_encode_row:
  assumes e: "encode_row s r [] = Inr bs" and r: "keyed r" "length r = schema_size s"
  shows "length bs \<le> sum_list (map cell_bytes r) + length r"
proof -
  obtain cs where "encode_cells (tl (schema_types s)) (tl r) = Inr cs"
      and bs: "length bs = 8 + length (row_null_bitmap (tl r) (schema_size s - 1)) + length cs"
    using e by (auto simp: encode_row_def rbind_eq_Inr)
  then have "length cs = sum_list (map cell_bytes (tl r))"
    using r length_encode_cells [of "tl (schema_types s)" "tl r" cs] by (simp add: schema_size_def schema_types_def)
  then show ?thesis using bs r keyed_bytes [OF r(1)] bitmap_size_le [of "schema_size s - 1"]
      row_null_bitmap_spec(1) [of "tl r" "schema_size s - 1"] by simp
qed

lemma length_le_concat: "\<forall>b \<in> set blocks. b \<noteq> [] \<Longrightarrow> length blocks \<le> length (concat blocks)"
proof (induction blocks)
  case (Cons b bs)
  then have "length bs \<le> length (concat bs)" by simp
  moreover have "Suc 0 \<le> length b" using Cons.prems by (simp add: Suc_le_eq)
  ultimately show ?case by simp
qed simp

lemma list_all2_nonempty: "list_all2 P bs xs \<Longrightarrow> (\<And>b x. P b x \<Longrightarrow> b \<noteq> []) \<Longrightarrow> \<forall>b \<in> set bs. b \<noteq> []"
  by (induction rule: list_all2_induct) auto

section \<open>Row tables\<close>

lemma row_block_bytes:
  assumes b: "row_block_of s rows res" and rows: "\<forall>r \<in> set rows. keyed r \<and> length r = schema_size s"
  shows "length (rbr_data res) \<le> sum_list (map (\<lambda>r. sum_list (map cell_bytes r)) rows) + schema_size s * length rows"
proof -
  obtain encs where e: "list_all2 (\<lambda>r e. encode_row s r [] = Inr e) rows encs" "rbr_data res = concat encs"
    using b by (auto simp: row_block_of_def row_block_inv_def rb_finish_def split: if_splits)
  have "length (concat encs) \<le> sum_list (map (\<lambda>r. sum_list (map cell_bytes r)) rows) + schema_size s * length rows"
    using e(1) rows
  proof (induction rule: list_all2_induct)
    case (Cons r rs e es)
    then show ?case using length_encode_row [of s r e] by simp
  qed simp
  then show ?thesis by (simp add: e(2))
qed

lemma row_table_bytes:
  assumes t: "row_table_of s options blocks rs fs" and rows: "\<forall>r \<in> set (concat blocks). keyed r \<and> length r = schema_size s"
  shows "length (row_data rs) \<le>
    sum_list (map (\<lambda>r. sum_list (map cell_bytes r)) (concat blocks)) + schema_size s * length (concat blocks)"
proof -
  have "list_all2 (row_block_of s) blocks rs" using t by (simp add: row_table_of_def)
  then show ?thesis using rows
  proof (induction rule: list_all2_induct)
    case (Cons b bs r rs)
    then show ?case using row_block_bytes [of s b r] by (simp add: algebra_simps)
  qed simp
qed

lemma length_stats_columns: "length (stats_columns s) \<le> schema_size s"
proof -
  have "length (concat (map (\<lambda>ci. let c = columns s ! ci in
      if \<not> col_is_key c \<and> is_numeric_type (col_type c) then [(ci, col_type c)] else []) xs)) \<le> length xs" for xs
    by (induction xs) (auto simp: Let_def)
  from this [of "[0..<schema_size s]"] show ?thesis by (simp add: stats_columns_def)
qed

lemma stats_file_bytes_le:
  assumes "stats_file_bytes s bss = Inr sf" "length bss \<le> n" "0 < n"
  shows "length sf \<le> 16 + 34 * (schema_size s * n)"
proof -
  let ?nc = "length (stats_columns s)" and ?nb = "length bss"
  obtain css where f: "sf = stats_header ?nb ?nc @ concat (map enc_descriptor (stats_descriptors s ?nb)) @ concat css"
      and css: "list_all2 (stats_column_data bss) (stats_columns s) css"
    using stats_file_shape [OF assms(1)] .
  have "length sf = 16 + ?nc * 17 + ?nc * (?nb * 17)"
    using length_concat_const [of "stats_descriptors s ?nb" enc_descriptor 17] stats_file_length(1) [OF css]
    by (simp add: f stats_header_def length_enc_descriptor stats_descriptors_def)
  moreover have "?nc * 1 \<le> schema_size s * n" using length_stats_columns assms(3) by (intro mult_le_mono) simp_all
  moreover have "?nc * ?nb \<le> schema_size s * n" using length_stats_columns assms(2) by (intro mult_le_mono) simp_all
  ultimately show ?thesis by simp
qed

lemma length_sparse_entries_bytes: "length (concat (map enc_sparse_entry (sparse_entries step cands))) \<le> 12 * length cands"
proof -
  have "length (concat (map enc_sparse_entry (sparse_entries step cands))) = length (sparse_entries step cands) * 12"
    by (intro length_concat_const) (simp add: enc_sparse_entry_def)
  then show ?thesis by (simp add: sparse_entries_def)
qed

text \<open>The files read in a scan are each within a bound, and all five together within twice the bound.\<close>

definition files_within :: "nat \<Rightarrow> sst_files \<Rightarrow> bool" where
  "files_within bound fs \<longleftrightarrow>
     (\<exists>d m ix sf. f_data fs = Some d \<and> f_meta fs = Some m \<and> f_index fs = Some ix \<and> f_stats fs = Some sf \<and>
        length d \<le> bound \<and> length m \<le> bound \<and> length ix \<le> bound \<and> length sf \<le> bound \<and>
        length d + length m + length ix + length sf + 21 \<le> 2 * bound)"

lemma files_within_small: "files_within bound fs \<Longrightarrow> bound < 2 ^ 63 \<Longrightarrow> files_small fs"
  by (auto simp: files_within_def files_small_def)

lemma files_sum:
  assumes "d \<le> c + n" "m \<le> 44 * n" "i \<le> 12 * n" "f \<le> 16 + 34 * n" "1 \<le> (n :: nat)"
  shows "d + m + i + f + 21 \<le> 2 * (16 + 60 * n + c)"
proof -
  have "d + m + i + f + 21 \<le> (c + n) + 44 * n + 12 * n + (16 + 34 * n) + 21"
    using assms(1-4) by (intro add_mono) simp_all
  also have "\<dots> \<le> 2 * (16 + 60 * n + c)" using assms(5) by simp
  finally show ?thesis .
qed

lemma row_table_files_within:
  assumes t: "row_table_of s options blocks rs fs" and rows: "\<forall>r \<in> set (concat blocks). keyed r \<and> length r = schema_size s"
    and n: "0 < schema_size s"
  shows "files_within (table_bytes (concat blocks)) fs"
proof -
  have l2: "list_all2 (row_block_of s) blocks rs" using t by (simp add: row_table_of_def)
  have len: "length rs = length blocks" using list_all2_lengthD [OF l2] by simp
  have ne: "\<forall>b \<in> set blocks. b \<noteq> []" "blocks \<noteq> []"
    using t list_all2_nonempty [OF l2] row_block_ofD(1) by (auto simp: row_table_of_def)
  let ?c = "sum_list (map (\<lambda>r. sum_list (map cell_bytes r)) (concat blocks))" and ?n = "schema_size s * length (concat blocks)"
  have nb: "length blocks \<le> length (concat blocks)" using length_le_concat [OF ne(1)] .
  have "1 * length blocks \<le> ?n" using n nb by (intro mult_le_mono) simp_all
  then have nb': "length blocks \<le> ?n" by simp
  have tot: "table_bytes (concat blocks) = 16 + 60 * ?n + ?c" using table_bytes_alt [of "concat blocks" "schema_size s"] rows by simp
  have d: "length (row_data rs) \<le> ?c + ?n" using row_table_bytes [OF t rows] .
  have m: "length (concat (map enc_row_meta (row_metas rs))) = length blocks * 40"
    using length_concat_const [of "row_metas rs" enc_row_meta 40] by (simp add: length_enc_row_meta ROW_BLOCK_META_ON_DISK_SIZE_def len)
  have "0 < length (concat blocks)" using ne nb by (cases blocks) auto
  then have sf: "length sf \<le> 16 + 34 * ?n" if "stats_file_bytes s (map rbr_stats rs) = Inr sf" for sf
    using stats_file_bytes_le [OF that, of "length (concat blocks)"] nb len by simp
  have ix: "length (concat (map enc_sparse_entry (sparse_entries step (meta_candidates (row_metas rs))))) \<le> 12 * length blocks" for step
    using length_sparse_entries_bytes [of step "meta_candidates (row_metas rs)"] len by (simp add: meta_candidates_def)
  have "1 \<le> length blocks" using ne(2) by (cases blocks) simp_all
  then have n1: "1 \<le> ?n" using nb' by linarith
  have "length (row_data rs) + length (concat (map enc_row_meta (row_metas rs))) +
      length (concat (map enc_sparse_entry (sparse_entries step (meta_candidates (row_metas rs))))) + length sf + 21
      \<le> 2 * table_bytes (concat blocks)"
    if "stats_file_bytes s (map rbr_stats rs) = Inr sf" for step sf
    unfolding tot
    by (rule files_sum [OF d _ _ sf [OF that] n1]) (use m ix [of step] nb' in linarith)+
  moreover have "length (row_data rs) \<le> table_bytes (concat blocks)"
      "length (concat (map enc_row_meta (row_metas rs))) \<le> table_bytes (concat blocks)"
    unfolding tot using d m nb' by linarith+
  moreover have "length (concat (map enc_sparse_entry (sparse_entries step (meta_candidates (row_metas rs))))) \<le> table_bytes (concat blocks)" for step
    unfolding tot using ix [of step] nb' by linarith
  moreover have "length sf \<le> table_bytes (concat blocks)" if "stats_file_bytes s (map rbr_stats rs) = Inr sf" for sf
    unfolding tot using sf [OF that] by linarith
  ultimately show ?thesis using t by (auto simp: files_within_def row_table_of_def simp del: length_concat)
qed


section \<open>Column tables\<close>

lemma sum_list_swap:
  fixes f :: "'a \<Rightarrow> 'b \<Rightarrow> nat"
  shows "sum_list (map (\<lambda>x. sum_list (map (f x) ys)) xs) = sum_list (map (\<lambda>y. sum_list (map (\<lambda>x. f x y) xs)) ys)"
  by (induction xs) (simp_all add: sum_list_addf)

lemma col_block_bytes:
  assumes "col_block_of s rows ci res" "ci < 2 ^ 16"
  shows "length (cbr_data res) \<le> length rows + sum_list (map (\<lambda>r. cell_bytes (r ! ci)) rows)"
proof -
  obtain bb where bb: "col_block_inv rows bb" "cb_id bb = word_of_nat ci" "cbr_data res = cb_bitmap bb @ cb_buffer bb"
    using assms(1) by (auto simp: col_block_of_def cb_finish_def split: if_splits)
  have id: "unat (cb_id bb) = ci" using assms(2) by (simp add: bb(2) unat_of_nat)
  obtain encs where e: "list_all2 (\<lambda>v e. write_value (col_type (cb_column bb)) v = Inr e) (col_cells ci rows) encs"
      "cb_buffer bb = concat encs" "length (cb_bitmap bb) = bitmap_size (length rows)"
    using bb(1) by (auto simp: col_block_inv_def id Let_def)
  have "length (concat encs) = sum_list (map cell_bytes (col_cells ci rows))"
    using e(1) by (induction rule: list_all2_induct) (auto dest: length_write_value)
  then show ?thesis using bitmap_size_le [of "length rows"] by (simp add: bb(3) e(2,3) col_cells_def o_def)
qed

lemma col_flushed_bytes:
  assumes f: "col_flushed_of s rows f" and size: "schema_size s \<le> 2 ^ 16"
    and rows: "\<forall>r \<in> set rows. keyed r \<and> length r = schema_size s"
  shows "length (flushed_data f) \<le> sum_list (map (\<lambda>r. sum_list (map cell_bytes r)) rows) + schema_size s * length rows"
proof -
  let ?col = "\<lambda>ci. length rows + sum_list (map (\<lambda>r. cell_bytes (r ! ci)) rows)"
  have l2: "list_all2 (col_block_of s rows) [1..<schema_size s] (cf_results f)" using f by (simp add: col_flushed_of_def)
  have "length (concat (map cbr_data xs)) \<le> sum_list (map ?col cis)"
    if "list_all2 (col_block_of s rows) cis xs" "\<forall>ci \<in> set cis. ci < 2 ^ 16" for cis xs
    using that
  proof (induction rule: list_all2_induct)
    case (Cons ci cis x xs)
    then show ?case using col_block_bytes [of s rows ci x] by simp
  qed simp
  from this [OF l2] size have "length (concat (map cbr_data (cf_results f))) \<le> sum_list (map ?col [1..<schema_size s])"
    by fastforce
  also have "\<dots> = (schema_size s - 1) * length rows + sum_list (map (\<lambda>r. sum_list (map (\<lambda>ci. cell_bytes (r ! ci)) [1..<schema_size s])) rows)"
    by (simp add: sum_list_addf sum_list_triv) (rule sum_list_swap)
  finally have cols: "length (concat (map cbr_data (cf_results f))) \<le> \<dots>" .
  have "sum_list (map (\<lambda>r. sum_list (map (\<lambda>ci. cell_bytes (r ! ci)) [1..<schema_size s])) rows) + 8 * length rows =
      sum_list (map (\<lambda>r. sum_list (map cell_bytes r)) rows)"
    using rows
  proof (induction rows)
    case (Cons r rs)
    have "map (\<lambda>ci. r ! ci) [1..<length r] = tl r" by (intro nth_equalityI) (simp_all add: nth_tl)
    then have "map (\<lambda>ci. cell_bytes (r ! ci)) [1..<length r] = map cell_bytes (tl r)"
      by (metis (no_types, lifting) list.map_comp comp_def map_cong)
    then show ?case using Cons keyed_bytes [of r] by simp
  qed simp
  with cols have "length (concat (map cbr_data (cf_results f))) + 8 * length rows \<le>
      (schema_size s - 1) * length rows + sum_list (map (\<lambda>r. sum_list (map cell_bytes r)) rows)" by simp
  moreover have "length (flushed_key_data f) = 8 * length rows"
    using f length_enc_keys [of "rkeys rows"] by (simp add: flushed_key_data_def col_flushed_of_def)
  moreover have "(schema_size s - 1) * length rows \<le> schema_size s * length rows" by (intro mult_le_mono) simp_all
  ultimately show ?thesis unfolding flushed_data_def length_append by linarith
qed

lemma col_table_files_within:
  assumes t: "col_table_of s options blocks cfs fs" and rows: "\<forall>r \<in> set (concat blocks). keyed r \<and> length r = schema_size s"
    and n: "0 < schema_size s" "schema_size s \<le> 2 ^ 16"
  shows "files_within (table_bytes (concat blocks)) fs"
proof -
  have l2: "list_all2 (col_flushed_of s) blocks cfs" using t by (simp add: col_table_of_def)
  have len: "length cfs = length blocks" using list_all2_lengthD [OF l2] by simp
  have ne: "\<forall>b \<in> set blocks. b \<noteq> []" "blocks \<noteq> []"
    using t list_all2_nonempty [OF l2] col_flushed_ofD(1) by (auto simp: col_table_of_def)
  let ?c = "sum_list (map (\<lambda>r. sum_list (map cell_bytes r)) (concat blocks))" and ?n = "schema_size s * length (concat blocks)"
  have nb: "length blocks \<le> length (concat blocks)" using length_le_concat [OF ne(1)] .
  then have nb': "length blocks * schema_size s \<le> ?n" by (simp add: mult.commute)
  have "1 * length blocks \<le> ?n" using n(1) nb by (intro mult_le_mono) simp_all
  then have nb1: "length blocks \<le> ?n" by simp
  have tot: "table_bytes (concat blocks) = 16 + 60 * ?n + ?c" using table_bytes_alt [of "concat blocks" "schema_size s"] rows by simp
  have d: "length (col_data cfs) \<le> ?c + ?n"
    using l2 rows
  proof (induction rule: list_all2_induct)
    case (Cons b bs f fs)
    then show ?case using col_flushed_bytes [OF Cons(1) n(2)] by (simp add: algebra_simps)
  qed simp
  have gl: "length g = schema_size s" if "g \<in> set (col_metas cfs)" for g
  proof -
    obtain j where j: "j < length blocks" "g = col_metas cfs ! j" using \<open>g \<in> set (col_metas cfs)\<close> len by (auto simp: in_set_conv_nth)
    have "col_flushed_of s (blocks ! j) (cfs ! j)" using l2 j(1) by (simp add: list_all2_conv_all_nth)
    from col_flushed_ofD(3) [OF this] show ?thesis
      using j len n(1) by (simp add: nth_place_col_blocks place_flushed_def)
  qed
  have "length (concat (map id (col_metas cfs))) = length (col_metas cfs) * schema_size s"
    by (intro length_concat_const) (use gl in simp)
  then have m: "length (concat (map enc_col_meta (concat (col_metas cfs)))) = length blocks * schema_size s * 44"
    using length_concat_const [of "concat (col_metas cfs)" enc_col_meta 44] by (simp add: length_enc_col_meta COLUMN_BLOCK_META_ON_DISK_SIZE_def len)
  have "0 < length (concat blocks)" using ne nb by (cases blocks) auto
  then have sf: "length sf \<le> 16 + 34 * ?n" if "stats_file_bytes s (map flushed_stats cfs) = Inr sf" for sf
    using stats_file_bytes_le [OF that, of "length (concat blocks)"] nb len by simp
  have ix: "length (concat (map enc_sparse_entry (sparse_entries step (flushed_candidates cfs)))) \<le> 12 * length blocks" for step
    using length_sparse_entries_bytes [of step "flushed_candidates cfs"] len by (simp add: flushed_candidates_def)
  have "1 \<le> length blocks" using ne(2) by (cases blocks) simp_all
  then have n1: "1 \<le> ?n" using nb1 by linarith
  have "length (col_data cfs) + length (concat (map enc_col_meta (concat (col_metas cfs)))) +
      length (concat (map enc_sparse_entry (sparse_entries step (flushed_candidates cfs)))) + length sf + 21
      \<le> 2 * table_bytes (concat blocks)"
    if "stats_file_bytes s (map flushed_stats cfs) = Inr sf" for step sf
    unfolding tot
    by (rule files_sum [OF d _ _ sf [OF that] n1]) (use m ix [of step] nb' nb1 in linarith)+
  moreover have "length (col_data cfs) \<le> table_bytes (concat blocks)"
      "length (concat (map enc_col_meta (concat (col_metas cfs)))) \<le> table_bytes (concat blocks)"
    unfolding tot using d m nb' by linarith+
  moreover have "length (concat (map enc_sparse_entry (sparse_entries step (flushed_candidates cfs)))) \<le> table_bytes (concat blocks)" for step
    unfolding tot using ix [of step] nb1 by linarith
  moreover have "length sf \<le> table_bytes (concat blocks)" if "stats_file_bytes s (map flushed_stats cfs) = Inr sf" for sf
    unfolding tot using sf [OF that] by linarith
  ultimately show ?thesis using t by (auto simp: files_within_def col_table_of_def simp del: length_concat)
qed

section \<open>Files that are read back\<close>

lemma row_table_files_small:
  "row_table_of s options blocks rs fs \<Longrightarrow> \<forall>r \<in> set (concat blocks). keyed r \<and> length r = schema_size s \<Longrightarrow>
   0 < schema_size s \<Longrightarrow> table_bytes (concat blocks) < 2 ^ 63 \<Longrightarrow> files_small fs"
  by (rule files_within_small [OF row_table_files_within])

lemma col_table_files_small:
  "col_table_of s options blocks cfs fs \<Longrightarrow> \<forall>r \<in> set (concat blocks). keyed r \<and> length r = schema_size s \<Longrightarrow>
   0 < schema_size s \<Longrightarrow> schema_size s \<le> 2 ^ 16 \<Longrightarrow> table_bytes (concat blocks) < 2 ^ 63 \<Longrightarrow> files_small fs"
  by (rule files_within_small [OF col_table_files_within])

end
