(* ===== verification/Sst_Scan.thy ===== *)
theory Sst_Scan
  imports Table_Size
begin

text \<open>
  Writing an SSTable and scanning it: the builders, the metadata cache and the cursor factory
  composed as \<open>LSMTree\<close> composes them. The lemmas say what a scan reads of a freshly opened
  table, for both layouts.
\<close>

section \<open>Reading a whole cursor\<close>

definition scan_cells :: "sst_cursor option res \<Rightarrow> nat list \<Rightarrow> (key \<times> nullable_value list) list res option" where
  "scan_cells c projection =
     (case c of Inl e \<Rightarrow> Some (Inl e) | Inr None \<Rightarrow> Some (Inr [])
      | Inr (Some x) \<Rightarrow> cursor_cells sst_cursor_ops projection x)"

lemma cursor_delivers_cells:
  assumes "cursor_delivers c cols rs" "set projection \<subseteq> cols"
  shows "scan_cells c projection = Some (Inr (map (row_cells projection) rs))"
  using assms sst_cur.cells_read
  by (auto simp: cursor_delivers_def scan_cells_def split: sum.splits option.splits)

lemma row_cells_project:
  assumes r: "keyed r" "length r = n" and pm: "make_projection_mask n projection = Inr pm" and p: "set projection \<subseteq> {..<n}" and n: "0 < n"
  shows "row_cells projection (project_row pm r) = row_cells projection r"
proof -
  note mask = make_projection_mask_spec [OF pm n]
  have "project_row pm r ! i = r ! i" if "i \<in> set projection" for i
  proof (cases i)
    case 0
    then show ?thesis using r by (auto simp: project_row_def keyed_def)
  next
    case (Suc j)
    have "i < n" using p that by blast
    then show ?thesis using r mask Suc that by (simp add: project_row_def nth_project_cells nth_tl)
  qed
  then show ?thesis using r by (simp add: row_cells_def)
qed

text \<open>The rows a query reads: a part of the rows of the range, in order, with every wanted row.\<close>

definition query_result :: "key_range \<Rightarrow> skip_filter \<Rightarrow> row list \<Rightarrow> row list \<Rightarrow> bool" where
  "query_result rng f rows rs \<longleftrightarrow>
     subseq rs (in_rng rng rows) \<and> (\<forall>r \<in> set (in_rng rng rows). row_wanted f r \<longrightarrow> r \<in> set rs)"

lemma kept_query_result:
  "kept_blocks blocks rng f js \<Longrightarrow> query_result rng f (concat blocks) (concat (map (\<lambda>j. in_rng rng (blocks ! j)) js))"
  unfolding query_result_def using kept_blocks_rows by blast

lemma query_result_subset:
  assumes "query_result rng f rows rs"
  shows "set rs \<subseteq> set rows"
proof
  fix r assume r: "r \<in> set rs"
  have "subseq rs (in_rng rng rows)" using assms by (simp add: query_result_def)
  then obtain y where "y \<in> set (in_rng rng rows)" "r = y" using r by (rule list_emb_set)
  then have "r \<in> set (in_rng rng rows)" by simp
  then show "r \<in> set rows" by (simp add: in_rng_def)
qed

text \<open>Without a filter the result is exactly the rows of the range.\<close>

lemma query_result_all:
  assumes "query_result rng [] rows rs" "sorted_wrt (<) (rkeys rows)"
  shows "rs = in_rng rng rows"
proof -
  have "distinct (rkeys rows)" using assms(2) unfolding strict_sorted_iff by blast
  then have "distinct rows" by (rule distinct_map [THEN iffD1, THEN conjunct1])
  then have d: "distinct (in_rng rng rows)" by (simp add: in_rng_def)
  have "set (in_rng rng rows) \<subseteq> set rs" using assms(1) by (auto simp: query_result_def)
  moreover have sub: "subseq rs (in_rng rng rows)" using assms(1) by (simp add: query_result_def)
  moreover have "card (set (in_rng rng rows)) = length (in_rng rng rows)" using d by (rule distinct_card)
  ultimately have "length (in_rng rng rows) \<le> length rs"
    by (metis List.finite_set card_length card_mono order_trans)
  then show ?thesis using sub by (metis list_emb_length order_antisym subseq_same_length)
qed

section \<open>Opening a table\<close>

lemma open_cache:
  assumes data: "f_data fs \<noteq> None" and index: "f_index fs = Some (concat (map enc_sparse_entry es))" and small: "files_small fs"
    and pb: "pb \<noteq> 0" "mx \<noteq> 0" and n: "in_num_blocks info = word_of_nat (length bss)"
  shows "\<exists>mc. SSTableMetadataCache info fs (word_of_nat (schema_size s)) pb mx = Inr mc \<and> cache_of s bss fs es mc"
proof -
  have "length (concat (map enc_sparse_entry es)) = length es * 12"
    by (intro length_concat_const) (simp add: enc_sparse_entry_def)
  then have "length es * 12 < 2 ^ 63" using small index by (simp add: files_small_def)
  from read_sparse_index_ok [OF index this] have ix: "read_sparse_index fs = Inr es" .
  then obtain mc where mc: "SSTableMetadataCache info fs (word_of_nat (schema_size s)) pb mx = Inr mc"
    using data pb by (auto simp: SSTableMetadataCache_def)
  note i = SSTableMetadataCache_inv(1) [OF mc, of s bss] SSTableMetadataCache_inv(2-) [OF mc]
  have "cache_of s bss fs es mc" using i n pb ix by (simp add: cache_of_def)
  with mc show ?thesis by blast
qed

section \<open>Scanning row and column tables\<close>

text \<open>What the writer of a table must respect.\<close>

definition table_rows :: "schema \<Rightarrow> row list \<Rightarrow> bool" where
  "table_rows s rows \<longleftrightarrow> schema_wf s \<and> storable s rows \<and> sorted_wrt (<) (rkeys rows)"

lemma row_table_cut:
  assumes "row_table_of s options blocks rs fs" "table_rows s (concat blocks)"
  shows "cut_blocks blocks"
proof -
  have ne: "\<forall>b \<in> set blocks. b \<noteq> []" "blocks \<noteq> []"
    using assms(1) list_all2_nonempty [of "row_block_of s" blocks rs] row_block_ofD(1) by (auto simp: row_table_of_def)
  then show ?thesis using assms(2) length_le_concat [OF ne(1)] by (simp add: cut_blocks_def table_rows_def storable_def)
qed

lemma col_candidates:
  assumes l2: "list_all2 (col_flushed_of s) blocks cfs" and cut: "cut_blocks blocks"
  shows "flushed_candidates cfs = sparse_candidates (map blk_min blocks)"
proof (rule nth_equalityI)
  have len: "length cfs = length blocks" using list_all2_lengthD [OF l2] by simp
  show "length (flushed_candidates cfs) = length (sparse_candidates (map blk_min blocks))"
    by (simp add: flushed_candidates_def sparse_candidates_def len)
  fix j assume "j < length (flushed_candidates cfs)"
  then have j: "j < length blocks" by (simp add: flushed_candidates_def len)
  have "sorted (rkeys (blocks ! j)) \<and> blocks ! j \<noteq> []" using sorted_cut_block [OF cut nth_mem [OF j]] .
  then have "blk_min (blocks ! j) = hd (rkeys (blocks ! j))" using sorted_block_bounds(1) by (simp add: hd_map)
  moreover have "cf_keys (cfs ! j) = rkeys (blocks ! j)" using col_flushed_ofD(2) l2 j by (auto simp: list_all2_conv_all_nth)
  ultimately show "flushed_candidates cfs ! j = sparse_candidates (map blk_min blocks) ! j"
    using j len by (simp add: flushed_candidates_def sparse_candidates_def)
qed

lemma row_scan_ok:
  assumes build: "build_row_table s options target rows = Inr (res, fs)" and rows: "table_rows s rows" "schema_size s < 2 ^ 32"
    and small: "files_small fs" and info: "in_layout info = ROW" "in_num_blocks info = br_num_blocks res"
    and pb: "pb \<noteq> 0" "mx \<noteq> 0" and p: "distinct projection" "set projection \<subseteq> {..<schema_size s}"
  shows "\<exists>mc c mc' rs. SSTableMetadataCache info fs (word_of_nat (schema_size s)) pb mx = Inr mc \<and>
    make_sstable_cursor info fs rng (schema_types s) projection f mc = (c, mc') \<and>
    scan_cells c projection = Some (Inr (map (row_cells projection) rs)) \<and> query_result rng f rows rs"
proof -
  obtain blocks brs where b: "concat blocks = rows" "row_table_of s options blocks brs fs"
      and res: "br_num_blocks res = word_of_nat (length blocks)"
    using build_row_table_shape [OF build] by auto
  have wf: "schema_wf s" and st: "storable s rows" using rows(1) by (simp_all add: table_rows_def)
  have cut: "cut_blocks blocks" using row_table_cut [OF b(2)] rows(1) b(1) by simp
  have l2: "list_all2 (row_block_of s) blocks brs" using b(2) by (simp add: row_table_of_def)
  have len: "length brs = length blocks" using list_all2_lengthD [OF l2] by simp
  let ?es = "sparse_entries (choose_sparse_index_step (word_of_nat (length blocks)) options) (sparse_candidates (map blk_min blocks))"
  have ix: "f_index fs = Some (concat (map enc_sparse_entry ?es))" and dt: "f_data fs \<noteq> None"
    using b(2) by (auto simp: row_table_of_def row_candidates [OF l2])
  obtain mc where mc: "SSTableMetadataCache info fs (word_of_nat (schema_size s)) pb mx = Inr mc" "cache_of s (map rbr_stats brs) fs ?es mc"
    using open_cache [OF dt ix small pb, of info "map rbr_stats brs" s] info res len by auto
  obtain pm where pm: "make_projection_mask (schema_size s) projection = Inr pm"
    using make_projection_mask_ok [OF p(1), of "schema_size s"] p(2) by auto
  have read: "row_table_read s blocks brs fs info"
    using b small st wf cut rows(2) info res by (auto simp: row_table_read_def)
  have "row_cache s blocks brs fs mc" using mc(2) by (auto simp: row_cache_def)
  then obtain c mc' js where c: "make_sstable_cursor info fs rng (schema_types s) projection f mc = (c, mc')"
      "kept_blocks blocks rng f js"
      "cursor_delivers c {..<schema_size s} (map (project_row pm) (concat (map (\<lambda>j. in_rng rng (blocks ! j)) js)))"
    using make_row_table_cursor_ok [OF read _ pm, of mc rng f] by blast
  define rs where "rs = concat (map (\<lambda>j. in_rng rng (blocks ! j)) js)"
  have q: "query_result rng f rows rs" using kept_query_result [OF c(2)] by (simp add: rs_def b(1))
  have "row_cells projection (project_row pm r) = row_cells projection r" if "r \<in> set rs" for r
  proof -
    have "r \<in> set rows" using query_result_subset [OF q] that by blast
    then have "keyed r \<and> length r = schema_size s" using valid_row_keyed [OF wf] st by (auto simp: storable_def)
    then show ?thesis using row_cells_project [OF _ _ pm p(2) schema_wf_size [OF wf]] by blast
  qed
  then have "scan_cells c projection = Some (Inr (map (row_cells projection) rs))"
    using cursor_delivers_cells [OF c(3) p(2)] by (simp add: rs_def cong: map_cong)
  with mc(1) c(1) q show ?thesis by blast
qed

lemma col_scan_ok:
  assumes build: "build_col_table s options target_rows target_bytes rows = Inr (res, fs)" and rows: "table_rows s rows" "schema_size s \<le> 2 ^ 16"
    and small: "files_small fs" and info: "in_layout info = COLUMN" "in_num_blocks info = br_num_blocks res"
    and pb: "pb \<noteq> 0" "mx \<noteq> 0" and p: "distinct projection" "set projection \<subseteq> {..<schema_size s}"
  shows "\<exists>mc c mc' rs. SSTableMetadataCache info fs (word_of_nat (schema_size s)) pb mx = Inr mc \<and>
    make_sstable_cursor info fs rng (schema_types s) projection f mc = (c, mc') \<and>
    scan_cells c projection = Some (Inr (map (row_cells projection) rs)) \<and> query_result rng f rows rs"
proof -
  have wf: "schema_wf s" and st: "storable s rows" using rows(1) by (simp_all add: table_rows_def)
  then have small_rows: "length rows < 2 ^ 32" by (simp add: storable_def)
  obtain blocks cfs where b: "concat blocks = rows" "col_table_of s options blocks cfs fs"
      and res: "br_num_blocks res = word_of_nat (length blocks)"
    using build_col_table_shape [OF build small_rows] by auto
  have l2: "list_all2 (col_flushed_of s) blocks cfs" using b(2) by (simp add: col_table_of_def)
  have len: "length cfs = length blocks" using list_all2_lengthD [OF l2] by simp
  have ne: "\<forall>b \<in> set blocks. b \<noteq> []" "blocks \<noteq> []"
    using b(2) list_all2_nonempty [OF l2] col_flushed_ofD(1) by (auto simp: col_table_of_def)
  have cut: "cut_blocks blocks"
    using rows(1) small_rows ne length_le_concat [OF ne(1)] b(1) by (simp add: cut_blocks_def table_rows_def)
  note cand = col_candidates [OF l2 cut]
  let ?es = "sparse_entries (choose_sparse_index_step (word_of_nat (length blocks)) options) (sparse_candidates (map blk_min blocks))"
  have ix: "f_index fs = Some (concat (map enc_sparse_entry ?es))" and dt: "f_data fs \<noteq> None"
    using b(2) by (auto simp: col_table_of_def cand)
  obtain mc where mc: "SSTableMetadataCache info fs (word_of_nat (schema_size s)) pb mx = Inr mc" "cache_of s (map flushed_stats cfs) fs ?es mc"
    using open_cache [OF dt ix small pb, of info "map flushed_stats cfs" s] info res len by auto
  obtain pm where pm: "make_projection_mask (schema_size s) projection = Inr pm"
    using make_projection_mask_ok [OF p(1), of "schema_size s"] p(2) by auto
  have read: "col_table_read s blocks cfs fs info"
    using b small st wf cut rows(2) info res by (auto simp: col_table_read_def)
  have "col_cache s blocks cfs fs mc" using mc(2) by (auto simp: col_cache_def)
  then obtain c mc' js where c: "make_sstable_cursor info fs rng (schema_types s) projection f mc = (c, mc')"
      "kept_blocks blocks rng f js"
      "cursor_delivers c {ci. ci < schema_size s \<and> (ci = KEY_COLUMN_INDEX \<or> ci \<in> set projection)}
         (map (project_row pm) (concat (map (\<lambda>j. in_rng rng (blocks ! j)) js)))"
    using make_col_table_cursor_ok [OF read _ pm, of mc rng f] by blast
  define rs where "rs = concat (map (\<lambda>j. in_rng rng (blocks ! j)) js)"
  have q: "query_result rng f rows rs" using kept_query_result [OF c(2)] by (simp add: rs_def b(1))
  have "row_cells projection (project_row pm r) = row_cells projection r" if "r \<in> set rs" for r
  proof -
    have "r \<in> set rows" using query_result_subset [OF q] that by blast
    then have "keyed r \<and> length r = schema_size s" using valid_row_keyed [OF wf] st by (auto simp: storable_def)
    then show ?thesis using row_cells_project [OF _ _ pm p(2) schema_wf_size [OF wf]] by blast
  qed
  moreover have "set projection \<subseteq> {ci. ci < schema_size s \<and> (ci = KEY_COLUMN_INDEX \<or> ci \<in> set projection)}" using p(2) by auto
  ultimately have "scan_cells c projection = Some (Inr (map (row_cells projection) rs))"
    using cursor_delivers_cells [OF c(3)] by (simp add: rs_def cong: map_cong)
  with mc(1) c(1) q show ?thesis by blast
qed

section \<open>Properties\<close>

text \<open>Opening the metadata cache of a table, making its cursor and reading the cursor to its end.\<close>

definition scan_table ::
    "sst_info \<Rightarrow> sst_files \<Rightarrow> schema \<Rightarrow> key_range \<Rightarrow> nat list \<Rightarrow> skip_filter \<Rightarrow> 32 word \<Rightarrow> nat \<Rightarrow>
     (key \<times> nullable_value list) list res option" where
  "scan_table info fs s rng projection f page_blocks max_cached_bytes =
     (case SSTableMetadataCache info fs (word_of_nat (schema_size s)) page_blocks max_cached_bytes of
        Inl e \<Rightarrow> Some (Inl e)
      | Inr mc \<Rightarrow> scan_cells (fst (make_sstable_cursor info fs rng (schema_types s) projection f mc)) projection)"


text \<open>The rows of a table respect the schema, and their bytes fit the 64-bit offsets of its files.\<close>

definition table_ok :: "schema \<Rightarrow> row list \<Rightarrow> bool" where
  "table_ok s rows \<longleftrightarrow> table_rows s rows \<and> table_bytes rows < 2 ^ 63"

lemma table_ok_rows:
  assumes "table_ok s rows"
  shows "table_rows s rows" "\<forall>r \<in> set rows. keyed r \<and> length r = schema_size s" "0 < schema_size s" "length rows < 2 ^ 32"
  using assms valid_row_keyed [of s] schema_wf_size [of s] by (auto simp: table_ok_def table_rows_def storable_def)

lemma scan_row_table:
  assumes "build_row_table s options target rows = Inr (res, fs)" "table_ok s rows" "schema_size s < 2 ^ 32"
    and "in_layout info = ROW" "in_num_blocks info = br_num_blocks res" "pb \<noteq> 0" "mx \<noteq> 0"
    and "distinct projection" "set projection \<subseteq> {..<schema_size s}"
  shows "\<exists>rs. scan_table info fs s rng projection f pb mx = Some (Inr (map (row_cells projection) rs)) \<and> query_result rng f rows rs"
proof -
  note rows = table_ok_rows [OF assms(2)]
  have "files_small fs"
    using build_row_table_shape [OF assms(1)] row_table_files_small assms(2) rows by (auto simp: table_ok_def)
  from row_scan_ok [OF assms(1) rows(1) assms(3) this assms(4-9), of rng f] show ?thesis by (auto simp: scan_table_def)
qed

lemma scan_col_table:
  assumes "build_col_table s options target_rows target_bytes rows = Inr (res, fs)" "table_ok s rows" "schema_size s \<le> 2 ^ 16"
    and "in_layout info = COLUMN" "in_num_blocks info = br_num_blocks res" "pb \<noteq> 0" "mx \<noteq> 0"
    and "distinct projection" "set projection \<subseteq> {..<schema_size s}"
  shows "\<exists>rs. scan_table info fs s rng projection f pb mx = Some (Inr (map (row_cells projection) rs)) \<and> query_result rng f rows rs"
proof -
  note rows = table_ok_rows [OF assms(2)]
  have "files_small fs"
    using build_col_table_shape [OF assms(1) rows(4)] col_table_files_small assms(2,3) rows by (auto simp: table_ok_def)
  from col_scan_ok [OF assms(1) rows(1) assms(3) this assms(4-9), of rng f] show ?thesis by (auto simp: scan_table_def)
qed

definition sample_table_info :: "sst_layout \<Rightarrow> sst_build_result \<Rightarrow> sst_info" where
  "sample_table_info l res = \<lparr>in_id = 0, in_path = ''sst_0'', in_level = 0, in_min = br_min_key res, in_max = br_max_key res,
     in_size = 0, in_num_blocks = br_num_blocks res, in_layout = l\<rparr>"

lemma sample_table_info_simps [simp]:
  "in_layout (sample_table_info l res) = l" "in_num_blocks (sample_table_info l res) = br_num_blocks res"
  by (simp_all add: sample_table_info_def)

lemma sample_table_ok: "table_ok sample_schema sample_rows"
  using sample_rows_sorted
  by (auto simp: table_ok_def table_rows_def storable_def)
    (simp_all add: cells_fit_def sample_row_def table_bytes_def row_bytes_def)

lemma sample_row_table: "\<exists>res fs. build_row_table sample_schema SparseIndexOptions 16 sample_rows = Inr (res, fs)"
  using build_row_table_ok [of sample_schema sample_rows 16 SparseIndexOptions] strict_sorted_imp_sorted [OF sample_rows_sorted]
  by (simp add: SparseIndexOptions_def)

lemma sample_col_table: "\<exists>res fs. build_col_table sample_schema SparseIndexOptions 1 64 sample_rows = Inr (res, fs)"
  using build_col_table_ok [of sample_schema sample_rows 1 64 SparseIndexOptions] strict_sorted_imp_sorted [OF sample_rows_sorted]
  by (simp add: SparseIndexOptions_def)

text \<open>C12: A row SSTable that the builder wrote from valid rows in strictly ascending key order (table_ok; two rows of one key are
  excluded), opened and scanned through the metadata cache and the cursor factory, gives the projected cells of rows that lie in the
  key range, in key order and each once; it leaves out no row of the range that satisfies the filter, provided that no constant of the
  filter and no cell of the row that the filter compares is NaN.\<close>

theorem row_table_scan:
  assumes "build_row_table s options target rows = Inr (res, fs)" "table_ok s rows" "schema_size s < 2 ^ 32"
    and "in_layout info = ROW" "in_num_blocks info = br_num_blocks res" "page_blocks \<noteq> 0" "max_cached_bytes \<noteq> 0"
    and "distinct projection" "set projection \<subseteq> {..<schema_size s}"
  shows "\<exists>rs. scan_table info fs s rng projection f page_blocks max_cached_bytes =
      Some (Inr (map (row_cells projection) rs)) \<and> subseq rs (in_rng rng rows) \<and>
    (\<forall>r \<in> set (in_rng rng rows). row_satisfies f r \<and> compares_no_nan f r \<longrightarrow> r \<in> set rs)"
  using scan_row_table [OF assms] unfolding query_result_def row_wanted_def .

lemma row_table_scan_witness:
  "\<exists>res fs rs. build_row_table sample_schema SparseIndexOptions 16 sample_rows = Inr (res, fs) \<and>
     scan_table (sample_table_info ROW res) fs sample_schema \<lparr>kr_from = Some (I64 2), kr_to = None\<rparr> [0, 2] [] 3 40 =
       Some (Inr (map (row_cells [0, 2]) rs)) \<and>
     query_result \<lparr>kr_from = Some (I64 2), kr_to = None\<rparr> [] sample_rows rs"
proof -
  obtain res fs where b: "build_row_table sample_schema SparseIndexOptions 16 sample_rows = Inr (res, fs)"
    using sample_row_table by blast
  from row_table_scan [OF b sample_table_ok, of "sample_table_info ROW res" 3 40 "[0, 2]" "\<lparr>kr_from = Some (I64 2), kr_to = None\<rparr>" "[]"] b
  show ?thesis by (fastforce simp: query_result_def row_wanted_def)
qed

text \<open>C13: The same holds of a column SSTable, whose blocks are stored per column and of which only the projected columns and the
  key column are read: written from valid rows in strictly ascending key order, scanned through cache and factory, it gives rows of
  the key range, in key order and each once, and leaves out none of them that satisfies the filter, NaN in the compared cells and
  constants excluded.\<close>

theorem column_table_scan:
  assumes "build_col_table s options target_rows target_bytes rows = Inr (res, fs)" "table_ok s rows" "schema_size s \<le> 2 ^ 16"
    and "in_layout info = COLUMN" "in_num_blocks info = br_num_blocks res" "page_blocks \<noteq> 0" "max_cached_bytes \<noteq> 0"
    and "distinct projection" "set projection \<subseteq> {..<schema_size s}"
  shows "\<exists>rs. scan_table info fs s rng projection f page_blocks max_cached_bytes =
      Some (Inr (map (row_cells projection) rs)) \<and> subseq rs (in_rng rng rows) \<and>
    (\<forall>r \<in> set (in_rng rng rows). row_satisfies f r \<and> compares_no_nan f r \<longrightarrow> r \<in> set rs)"
  using scan_col_table [OF assms] unfolding query_result_def row_wanted_def .

lemma column_table_scan_witness:
  "\<exists>res fs rs. build_col_table sample_schema SparseIndexOptions 1 64 sample_rows = Inr (res, fs) \<and>
     scan_table (sample_table_info COLUMN res) fs sample_schema \<lparr>kr_from = Some (I64 2), kr_to = None\<rparr> [0, 2] [] 3 40 =
       Some (Inr (map (row_cells [0, 2]) rs)) \<and>
     query_result \<lparr>kr_from = Some (I64 2), kr_to = None\<rparr> [] sample_rows rs"
proof -
  obtain res fs where b: "build_col_table sample_schema SparseIndexOptions 1 64 sample_rows = Inr (res, fs)"
    using sample_col_table by blast
  from column_table_scan [OF b sample_table_ok, of "sample_table_info COLUMN res" 3 40 "[0, 2]" "\<lparr>kr_from = Some (I64 2), kr_to = None\<rparr>" "[]"] b
  show ?thesis by (fastforce simp: query_result_def row_wanted_def)
qed

text \<open>C14: The two layouts are interchangeable: for the same valid rows in strictly ascending key order (two rows of one key are
  excluded), the same range and projection, an unfiltered scan of the row table and of the column table give the same result, the
  cells of the rows in the range.\<close>

theorem layouts_agree:
  assumes "build_row_table s options target rows = Inr (rres, rfs)"
    and "build_col_table s options' target_rows target_bytes rows = Inr (cres, cfs)"
    and "table_ok s rows" "schema_size s \<le> 2 ^ 16" "in_layout rinfo = ROW" "in_layout cinfo = COLUMN"
    and "in_num_blocks rinfo = br_num_blocks rres" "in_num_blocks cinfo = br_num_blocks cres"
    and "page_blocks \<noteq> 0" "max_cached_bytes \<noteq> 0" "distinct projection" "set projection \<subseteq> {..<schema_size s}"
  shows "scan_table rinfo rfs s rng projection [] page_blocks max_cached_bytes = Some (Inr (map (row_cells projection) (in_rng rng rows))) \<and>
    scan_table cinfo cfs s rng projection [] page_blocks max_cached_bytes = Some (Inr (map (row_cells projection) (in_rng rng rows)))"
proof -
  have srt: "sorted_wrt (<) (rkeys rows)" using assms(3) by (simp add: table_ok_def table_rows_def)
  have n: "schema_size s < 2 ^ 32" using assms(4) by simp
  have "scan_table rinfo rfs s rng projection [] page_blocks max_cached_bytes = Some (Inr (map (row_cells projection) (in_rng rng rows)))"
    using scan_row_table [OF assms(1,3) n assms(5,7,9-12), of rng "[]"] query_result_all [OF _ srt] by blast
  moreover have "scan_table cinfo cfs s rng projection [] page_blocks max_cached_bytes = Some (Inr (map (row_cells projection) (in_rng rng rows)))"
    using scan_col_table [OF assms(2,3,4,6,8,9-12), of rng "[]"] query_result_all [OF _ srt] by blast
  ultimately show ?thesis ..
qed

lemma layouts_agree_witness:
  "\<exists>rres rfs cres cfs. build_row_table sample_schema SparseIndexOptions 16 sample_rows = Inr (rres, rfs) \<and>
     build_col_table sample_schema SparseIndexOptions 1 64 sample_rows = Inr (cres, cfs) \<and>
     scan_table (sample_table_info ROW rres) rfs sample_schema \<lparr>kr_from = Some (I64 2), kr_to = None\<rparr> [0, 1] [] 3 40 =
     scan_table (sample_table_info COLUMN cres) cfs sample_schema \<lparr>kr_from = Some (I64 2), kr_to = None\<rparr> [0, 1] [] 3 40"
proof -
  obtain rres rfs where r: "build_row_table sample_schema SparseIndexOptions 16 sample_rows = Inr (rres, rfs)"
    using sample_row_table by blast
  obtain cres cfs where c: "build_col_table sample_schema SparseIndexOptions 1 64 sample_rows = Inr (cres, cfs)"
    using sample_col_table by blast
  note eq = layouts_agree [OF r c sample_table_ok, of "sample_table_info ROW rres" "sample_table_info COLUMN cres" 3 40 "[0, 1]"
      "\<lparr>kr_from = Some (I64 2), kr_to = None\<rparr>"]
  have "scan_table (sample_table_info ROW rres) rfs sample_schema \<lparr>kr_from = Some (I64 2), kr_to = None\<rparr> [0, 1] [] 3 40 =
     scan_table (sample_table_info COLUMN cres) cfs sample_schema \<lparr>kr_from = Some (I64 2), kr_to = None\<rparr> [0, 1] [] 3 40"
    using eq by (simp add: subset_eq)
  with r c show ?thesis by blast
qed

end
