(* ===== verification/Stored_Table.thy ===== *)
theory Stored_Table
  imports Sst_Scan Cursor_Laws
begin

text \<open>
  What it means that a table is stored: its five files are those a builder wrote for its rows, in
  either layout, and its information describes them. A stored table can be opened, and the cursor
  the factory makes for it delivers the rows of the query, whatever is in the metadata cache. The
  memory layer, flush, compaction and scan of the tree build on this and not on the files.
\<close>

section \<open>Sizes of the files\<close>

definition file_size_if_exists :: "byte list option \<Rightarrow> 64 word" where
  "file_size_if_exists f = (case f of None \<Rightarrow> 0 | Some bs \<Rightarrow> word_of_nat (length bs))"

definition sstable_size_bytes :: "sst_files \<Rightarrow> 64 word" where
  "sstable_size_bytes fs =
     file_size_if_exists (f_data fs) + file_size_if_exists (f_meta fs) + file_size_if_exists (f_index fs) +
     file_size_if_exists (f_info fs) + file_size_if_exists (f_stats fs)"

text \<open>The regular files of a table's directory are its five files.\<close>

definition directory_files :: "sst_files \<Rightarrow> byte list list" where
  "directory_files fs = List.map_filter (\<lambda>f. f) [f_data fs, f_meta fs, f_index fs, f_info fs, f_stats fs]"

definition sstable_dir_size :: "sst_files \<Rightarrow> 64 word" where
  "sstable_dir_size fs = fold (\<lambda>f total. total + word_of_nat (length f)) (directory_files fs) 0"

lemma sstable_dir_size_eq: "sstable_dir_size fs = sstable_size_bytes fs"
  by (simp add: sstable_dir_size_def sstable_size_bytes_def directory_files_def file_size_if_exists_def map_filter_def
      split: option.splits)

lemma sstable_size_within:
  assumes "files_within bound fs" "f_info fs = Some i" "length i \<le> 21"
  shows "unat (sstable_size_bytes fs) \<le> 2 * bound"
proof -
  obtain d m ix sf where f: "f_data fs = Some d" "f_meta fs = Some m" "f_index fs = Some ix" "f_stats fs = Some sf"
      "length d + length m + length ix + length sf + 21 \<le> 2 * bound"
    using assms(1) by (auto simp: files_within_def)
  have "sstable_size_bytes fs = word_of_nat (length d + length m + length ix + length i + length sf)"
    by (simp add: sstable_size_bytes_def file_size_if_exists_def f assms(2))
  then have "unat (sstable_size_bytes fs) \<le> length d + length m + length ix + length i + length sf"
    by (simp only: unat_of_nat) simp
  then show ?thesis using f(5) assms(3) by linarith
qed

section \<open>Stored tables\<close>

definition stored_as :: "schema \<Rightarrow> row list list \<Rightarrow> sst_files \<Rightarrow> sst_info \<Rightarrow> bool" where
  "stored_as s blocks fs info \<longleftrightarrow>
     (\<exists>rs. row_table_read s blocks rs fs info) \<or> (\<exists>cfs. col_table_read s blocks cfs fs info)"

definition stored_table :: "schema \<Rightarrow> row list \<Rightarrow> sst_files \<Rightarrow> sst_info \<Rightarrow> bool" where
  "stored_table s rows fs info \<longleftrightarrow>
     table_ok s rows \<and> rows \<noteq> [] \<and> schema_size s < 2 ^ 16 \<and>
     in_min info = rkey (hd rows) \<and> in_max info = rkey (last rows) \<and> unat (in_size info) \<le> 2 * table_bytes rows \<and>
     (\<exists>blocks. concat blocks = rows \<and> stored_as s blocks fs info)"

text \<open>A metadata cache of a stored table.\<close>

definition table_cache :: "schema \<Rightarrow> row list \<Rightarrow> sst_files \<Rightarrow> sst_info \<Rightarrow> meta_cache \<Rightarrow> bool" where
  "table_cache s rows fs info mc \<longleftrightarrow>
     (\<exists>blocks. concat blocks = rows \<and>
        ((\<exists>rs. row_table_read s blocks rs fs info \<and> row_cache s blocks rs fs mc) \<or>
         (\<exists>cfs. col_table_read s blocks cfs fs info \<and> col_cache s blocks cfs fs mc)))"

lemma stored_tableD:
  assumes "stored_table s rows fs info"
  shows "table_ok s rows" "rows \<noteq> []" "schema_size s < 2 ^ 16" "schema_wf s" "sorted_wrt (<) (rkeys rows)"
    "\<forall>r \<in> set rows. valid_row s r" "\<forall>r \<in> set rows. keyed r \<and> length r = schema_size s"
    "in_min info = rkey (hd rows)" "in_max info = rkey (last rows)"
  using assms table_ok_rows(2) [of s rows] by (auto simp: stored_table_def table_ok_def table_rows_def storable_def)

lemma f_info_length:
  "rt_finish s b = Inr (res, b') \<Longrightarrow> \<exists>i. f_info (rt_files b') = Some i \<and> length i \<le> 21"
  "ct_finish s c = Inr (res, c') \<Longrightarrow> \<exists>i. f_info (ct_files c') = Some i \<and> length i \<le> 21"
  by (auto simp: rt_finish_def ct_finish_def rt_files_def ct_files_def rt_write_stats_file_def ct_write_stats_file_def
      rt_write_sparse_index_file_def ct_write_sparse_index_file_def rt_write_info_file_def ct_write_info_file_def
      sst_info_bytes_def rbind_eq_Inr Let_def split: if_splits)

lemma build_row_stored:
  assumes build: "build_row_table s options target rows = Inr (res, fs)" and rows: "table_ok s rows" "rows \<noteq> []"
    and n: "schema_size s < 2 ^ 16"
    and info: "in_layout info = ROW" "in_num_blocks info = br_num_blocks res" "in_min info = br_min_key res"
      "in_max info = br_max_key res" "in_size info = sstable_size_bytes fs"
  shows "stored_table s rows fs info"
proof -
  obtain blocks brs where b: "concat blocks = rows" "row_table_of s options blocks brs fs"
      and res: "res = \<lparr>br_min_key = fold min (rkeys rows) i64_max, br_max_key = fold max (rkeys rows) i64_min,
        br_num_blocks = word_of_nat (length blocks)\<rparr>"
    using build_row_table_shape [OF build] by auto
  note ok = table_ok_rows [OF rows(1)]
  have wf: "schema_wf s" and st: "storable s rows" and srt: "sorted (rkeys rows)"
    using ok(1) by (auto simp: table_rows_def intro: strict_sorted_imp_sorted)
  have cut: "cut_blocks blocks" using row_table_cut [OF b(2)] ok(1) b(1) by simp
  have small: "files_within (table_bytes rows) fs" using row_table_files_within [OF b(2)] ok(2,3) b(1) by simp
  have "row_table_read s blocks brs fs info"
    using b files_within_small [OF small] rows(1) wf st cut n info res by (auto simp: row_table_read_def table_ok_def)
  then have "stored_as s blocks fs info" by (auto simp: stored_as_def)
  moreover obtain i where "f_info fs = Some i" "length i \<le> 21"
    using build f_info_length(1) by (fastforce simp: build_row_table_def rbind_eq_Inr)
  then have "unat (in_size info) \<le> 2 * table_bytes rows" using sstable_size_within [OF small] info(5) by simp
  moreover have "in_min info = rkey (hd rows)" "in_max info = rkey (last rows)"
    using info(3,4) res sorted_rows_bounds [OF srt rows(2)] by simp_all
  ultimately show ?thesis using rows n b(1) by (auto simp: stored_table_def)
qed

lemma build_col_stored:
  assumes build: "build_col_table s options target_rows target_bytes rows = Inr (res, fs)" and rows: "table_ok s rows" "rows \<noteq> []"
    and n: "schema_size s < 2 ^ 16"
    and info: "in_layout info = COLUMN" "in_num_blocks info = br_num_blocks res" "in_min info = br_min_key res"
      "in_max info = br_max_key res" "in_size info = sstable_size_bytes fs"
  shows "stored_table s rows fs info"
proof -
  note ok = table_ok_rows [OF rows(1)]
  obtain blocks cfs where b: "concat blocks = rows" "col_table_of s options blocks cfs fs"
      and res: "res = \<lparr>br_min_key = fold min (rkeys rows) i64_max, br_max_key = fold max (rkeys rows) i64_min,
        br_num_blocks = word_of_nat (length blocks)\<rparr>"
    using build_col_table_shape [OF build ok(4)] by auto
  have wf: "schema_wf s" and st: "storable s rows" and srt: "sorted (rkeys rows)"
    using ok(1) by (auto simp: table_rows_def intro: strict_sorted_imp_sorted)
  have l2: "list_all2 (col_flushed_of s) blocks cfs" using b(2) by (simp add: col_table_of_def)
  have ne: "\<forall>b \<in> set blocks. b \<noteq> []" "blocks \<noteq> []"
    using b(2) list_all2_nonempty [OF l2] col_flushed_ofD(1) by (auto simp: col_table_of_def)
  have cut: "cut_blocks blocks"
    using ok(1,4) ne length_le_concat [OF ne(1)] b(1) by (simp add: cut_blocks_def table_rows_def)
  have small: "files_within (table_bytes rows) fs" using col_table_files_within [OF b(2)] ok(2,3) n b(1) by simp
  have "col_table_read s blocks cfs fs info"
    using b files_within_small [OF small] rows(1) wf st cut n info res by (auto simp: col_table_read_def table_ok_def)
  then have "stored_as s blocks fs info" by (auto simp: stored_as_def)
  moreover obtain i where "f_info fs = Some i" "length i \<le> 21"
    using build f_info_length(2) by (fastforce simp: build_col_table_def rbind_eq_Inr)
  then have "unat (in_size info) \<le> 2 * table_bytes rows" using sstable_size_within [OF small] info(5) by simp
  moreover have "in_min info = rkey (hd rows)" "in_max info = rkey (last rows)"
    using info(3,4) res sorted_rows_bounds [OF srt rows(2)] by simp_all
  ultimately show ?thesis using rows n b(1) by (auto simp: stored_table_def)
qed

section \<open>Opening and reading a stored table\<close>

definition METADATA_PAGE_BLOCKS :: "32 word" where
  "METADATA_PAGE_BLOCKS = 256"

definition METADATA_CACHE_BYTES :: nat where
  "METADATA_CACHE_BYTES = 4 * 1024 * 1024"

definition open_metadata_cache :: "schema \<Rightarrow> sst_info \<Rightarrow> sst_files \<Rightarrow> meta_cache res" where
  "open_metadata_cache s info fs =
     SSTableMetadataCache info fs (word_of_nat (schema_size s)) METADATA_PAGE_BLOCKS METADATA_CACHE_BYTES"

text \<open>Opening succeeds, and every cursor the factory makes for the table delivers a query's rows.\<close>

lemma open_stored_table:
  assumes "stored_table s rows fs info"
  shows "\<exists>mc. open_metadata_cache s info fs = Inr mc \<and> table_cache s rows fs info mc"
proof -
  obtain blocks where b: "concat blocks = rows" "stored_as s blocks fs info" using assms by (auto simp: stored_table_def)
  have pb: "METADATA_PAGE_BLOCKS \<noteq> 0" "METADATA_CACHE_BYTES \<noteq> 0"
    by (simp_all add: METADATA_PAGE_BLOCKS_def METADATA_CACHE_BYTES_def)
  consider (row) rs where "row_table_read s blocks rs fs info" | (col) cfs where "col_table_read s blocks cfs fs info"
    using b(2) by (auto simp: stored_as_def)
  then show ?thesis
  proof cases
    case row
    then obtain options where r: "row_table_of s options blocks rs fs" "files_small fs" "in_num_blocks info = word_of_nat (length blocks)"
      by (auto simp: row_table_read_def)
    then have l2: "list_all2 (row_block_of s) blocks rs" by (simp add: row_table_of_def)
    then have len: "length (map rbr_stats rs) = length blocks" using list_all2_lengthD by fastforce
    let ?es = "sparse_entries (choose_sparse_index_step (word_of_nat (length blocks)) options) (sparse_candidates (map blk_min blocks))"
    have "f_data fs \<noteq> None" "f_index fs = Some (concat (map enc_sparse_entry ?es))"
      using r(1) by (auto simp: row_table_of_def row_candidates [OF l2])
    from open_cache [OF this r(2) pb, of info "map rbr_stats rs" s] len r(3) obtain mc where
      "open_metadata_cache s info fs = Inr mc" "cache_of s (map rbr_stats rs) fs ?es mc"
      by (auto simp: open_metadata_cache_def)
    then show ?thesis using row b(1) by (auto simp: table_cache_def row_cache_def)
  next
    case col
    then obtain options where r: "col_table_of s options blocks cfs fs" "files_small fs" "in_num_blocks info = word_of_nat (length blocks)"
        "cut_blocks blocks"
      by (auto simp: col_table_read_def)
    then have l2: "list_all2 (col_flushed_of s) blocks cfs" by (simp add: col_table_of_def)
    then have len: "length (map flushed_stats cfs) = length blocks" using list_all2_lengthD by fastforce
    let ?es = "sparse_entries (choose_sparse_index_step (word_of_nat (length blocks)) options) (sparse_candidates (map blk_min blocks))"
    have "f_data fs \<noteq> None" "f_index fs = Some (concat (map enc_sparse_entry ?es))"
      using r(1) by (auto simp: col_table_of_def col_candidates [OF l2 r(4)])
    from open_cache [OF this r(2) pb, of info "map flushed_stats cfs" s] len r(3) obtain mc where
      "open_metadata_cache s info fs = Inr mc" "cache_of s (map flushed_stats cfs) fs ?es mc"
      by (auto simp: open_metadata_cache_def)
    then show ?thesis using col b(1) by (auto simp: table_cache_def col_cache_def)
  qed
qed

text \<open>The projection of a row as a table cursor holds it.\<close>

definition projection_mask :: "schema \<Rightarrow> nat list \<Rightarrow> bool list" where
  "projection_mask s projection = (case make_projection_mask (schema_size s) projection of Inl _ \<Rightarrow> [] | Inr pm \<Rightarrow> pm)"

definition projection_ok :: "schema \<Rightarrow> nat list \<Rightarrow> bool" where
  "projection_ok s projection \<longleftrightarrow> distinct projection \<and> set projection \<subseteq> {..<schema_size s}"

lemma projection_mask_ok:
  "projection_ok s projection \<Longrightarrow> make_projection_mask (schema_size s) projection = Inr (projection_mask s projection)"
  using make_projection_mask_ok [of projection "schema_size s"]
  by (auto simp: projection_ok_def projection_mask_def subset_eq split: sum.splits)

lemma make_table_cursor_ok:
  assumes mc: "table_cache s rows fs info mc" and p: "projection_ok s projection"
  shows "\<exists>res mc' rs. make_sstable_cursor info fs rng (schema_types s) projection f mc = (res, mc') \<and>
    table_cache s rows fs info mc' \<and> query_result rng f rows rs \<and>
    cursor_delivers res (insert KEY_COLUMN_INDEX (set projection)) (map (project_row (projection_mask s projection)) rs)"
proof -
  obtain blocks where b: "concat blocks = rows"
      and c: "(\<exists>rs. row_table_read s blocks rs fs info \<and> row_cache s blocks rs fs mc) \<or>
        (\<exists>cfs. col_table_read s blocks cfs fs info \<and> col_cache s blocks cfs fs mc)"
    using mc by (auto simp: table_cache_def)
  note pm = projection_mask_ok [OF p]
  have sub: "set projection \<subseteq> {..<schema_size s}" using p by (simp add: projection_ok_def)
  from c show ?thesis
  proof (elim disjE exE conjE)
    fix rs assume r: "row_table_read s blocks rs fs info" "row_cache s blocks rs fs mc"
    have "0 < schema_size s" using r(1) schema_wf_size by (auto simp: row_table_read_def)
    then have cols: "insert KEY_COLUMN_INDEX (set projection) \<subseteq> {..<schema_size s}" using sub by (simp add: KEY_COLUMN_INDEX_def)
    from make_row_table_cursor_ok [OF r pm, of rng f] obtain res mc' js where
      m: "make_sstable_cursor info fs rng (schema_types s) projection f mc = (res, mc')" "row_cache s blocks rs fs mc'"
        "kept_blocks blocks rng f js"
        "cursor_delivers res {..<schema_size s}
          (map (project_row (projection_mask s projection)) (concat (map (\<lambda>j. in_rng rng (blocks ! j)) js)))" by blast
    have "table_cache s rows fs info mc'" using r(1) m(2) b by (auto simp: table_cache_def)
    then show ?thesis using m(1) kept_query_result [OF m(3)] m(4) cols b
      by (intro exI [of _ res] exI [of _ mc'] exI) (auto simp: cursor_delivers_def split: sum.splits option.splits)
  next
    fix cfs assume r: "col_table_read s blocks cfs fs info" "col_cache s blocks cfs fs mc"
    have "0 < schema_size s" using r(1) schema_wf_size by (auto simp: col_table_read_def)
    then have cols: "insert KEY_COLUMN_INDEX (set projection) \<subseteq>
        {ci. ci < schema_size s \<and> (ci = KEY_COLUMN_INDEX \<or> ci \<in> set projection)}"
      using sub by (auto simp: KEY_COLUMN_INDEX_def)
    from make_col_table_cursor_ok [OF r pm, of rng f] obtain res mc' js where
      m: "make_sstable_cursor info fs rng (schema_types s) projection f mc = (res, mc')" "col_cache s blocks cfs fs mc'"
        "kept_blocks blocks rng f js"
        "cursor_delivers res {ci. ci < schema_size s \<and> (ci = KEY_COLUMN_INDEX \<or> ci \<in> set projection)}
          (map (project_row (projection_mask s projection)) (concat (map (\<lambda>j. in_rng rng (blocks ! j)) js)))" by blast
    have "table_cache s rows fs info mc'" using r(1) m(2) b by (auto simp: table_cache_def)
    then show ?thesis using m(1) kept_query_result [OF m(3)] m(4) cols b
      by (intro exI [of _ res] exI [of _ mc'] exI) (auto simp: cursor_delivers_def split: sum.splits option.splits)
  qed
qed

section \<open>Projections and merges\<close>

lemma project_row_idem [simp]: "project_row pm (project_row pm r) = project_row pm r"
  unfolding project_row_def by (auto intro!: nth_equalityI simp: nth_project_cells)

lemma project_row_all:
  assumes "keyed r" "length r = schema_size s"
  shows "project_row (projection_mask s [0..<schema_size s]) r = r"
proof -
  have n: "0 < schema_size s" using assms by (auto simp: keyed_def)
  have "projection_ok s [0..<schema_size s]" by (auto simp: projection_ok_def)
  from make_projection_mask_spec [OF projection_mask_ok [OF this] n]
  have "project_cells (projection_mask s [0..<schema_size s]) 0 (tl r) = tl r"
    using assms(2) by (intro project_cells_all) auto
  then show ?thesis using assms by (auto simp: project_row_def keyed_def)
qed

lemma projection_row_cells:
  assumes "keyed r" "length r = schema_size s" "projection_ok s projection"
  shows "row_cells projection (project_row (projection_mask s projection) r) = row_cells projection r"
  using row_cells_project [OF assms(1,2) projection_mask_ok [OF assms(3)]] assms
  by (auto simp: projection_ok_def keyed_def)

lemma min_head_map:
  "\<forall>rs \<in> set rss. \<forall>r \<in> set rs. rkey (g r) = rkey r \<Longrightarrow> min_head i (map (map g) rss) = min_head i rss"
  by (induction i rss rule: min_head.induct) (auto split: option.splits)

lemma kmerge_map:
  "\<forall>rs \<in> set rss. \<forall>r \<in> set rs. rkey (g r) = rkey r \<Longrightarrow> kmerge (map (map g) rss) = map g (kmerge rss)"
proof (induction rss rule: kmerge.induct)
  case (1 rss)
  show ?case
  proof (cases "min_head 0 rss")
    case None
    then show ?thesis using min_head_map [OF 1(2)] by (simp add: kmerge.simps)
  next
    case (Some p)
    obtain k i where p: "p = (k, i)" by (cases p)
    have i: "i < length rss" "rss ! i \<noteq> []" using min_head_Some [OF Some [unfolded p]] by auto
    let ?rss = "rss[i := tl (rss ! i)]"
    have "\<forall>rs \<in> set ?rss. \<forall>r \<in> set rs. rkey (g r) = rkey r"
      using 1(2) nth_mem [OF i(1)] by (auto dest!: set_update_subset_insert [THEN subsetD] dest: list.set_sel(2) [OF i(2)])
    then have IH: "kmerge (map (map g) ?rss) = map g (kmerge ?rss)" using 1(1) [OF Some p [symmetric]] by blast
    have upd: "(map (map g) rss)[i := tl (map (map g) rss ! i)] = map (map g) ?rss"
      using i(1) by (simp add: map_update map_tl)
    have "kmerge (map (map g) rss) = hd (map (map g) rss ! i) # kmerge ((map (map g) rss)[i := tl (map (map g) rss ! i)])"
      using min_head_map [OF 1(2), of 0] Some p by (subst kmerge.simps) simp
    also have "\<dots> = g (hd (rss ! i)) # map g (kmerge ?rss)"
      unfolding upd IH using i by (simp add: hd_map)
    also have "\<dots> = map g (kmerge rss)" using Some p by (subst (2) kmerge.simps) simp
    finally show ?thesis .
  qed
qed

end
