(* ===== verification/Mem_Layer.thy ===== *)
theory Mem_Layer
  imports Row_Cursor
begin

text \<open>
  The memory layer (\<open>src/lsmtree/mem/\<close>): the active \<open>MemTable\<close>, a \<open>std::map\<close> from key to row, the
  queue of frozen \<open>ImmutableMemTable\<close>s and \<open>MemoryLayer\<close>, which freezes the active table when it
  reaches the threshold. A \<open>std::map\<close> is the list of its entries in ascending key order, and an
  iterator is a position in it. The lemmas show that the active table is the map of the rows that
  were inserted since the last freeze, the newest row of a key, and that frozen tables are sorted.
\<close>

section \<open>\<open>std::map\<close>\<close>

fun map_put :: "'k::linorder \<Rightarrow> 'v \<Rightarrow> ('k \<times> 'v) list \<Rightarrow> ('k \<times> 'v) list" where
  "map_put k v [] = [(k, v)]"
| "map_put k v ((k', v') # m) =
     (if k < k' then (k, v) # (k', v') # m
      else if k = k' then (k, v) # m
      else (k', v') # map_put k v m)"

definition map_lower_bound :: "'k::linorder \<Rightarrow> ('k \<times> 'v) list \<Rightarrow> nat" where
  "map_lower_bound k m = length (takeWhile (\<lambda>e. fst e < k) m)"

lemma set_map_put: "set (map fst (map_put k v m)) = insert k (fst ` set m)"
  by (induction k v m rule: map_put.induct) auto

lemma map_put_entries: "set (map_put k v m) \<subseteq> insert (k, v) (set m)"
  by (induction k v m rule: map_put.induct) auto

lemma sorted_map_put: "sorted_wrt (<) (map fst m) \<Longrightarrow> sorted_wrt (<) (map fst (map_put k v m))"
proof (induction k v m rule: map_put.induct)
  case (2 k v k' v' m)
  have "\<forall>x \<in> fst ` set (map_put k v m). k' < x" if "k' < k"
    using that 2(2) set_map_put [of k v m] by auto
  with 2 show ?case by (auto simp: not_less order.order_iff_strict)
qed simp

lemma map_of_map_put: "sorted_wrt (<) (map fst m) \<Longrightarrow> map_of (map_put k v m) = (map_of m)(k \<mapsto> v)"
proof (induction k v m rule: map_put.induct)
  case (2 k v k' v' m)
  then show ?case by (auto simp: fun_upd_twist)
qed simp

section \<open>\<open>MemTable\<close> and \<open>ImmutableMemTable\<close>\<close>

type_synonym memtable = "(key \<times> row) list"

type_synonym imm_memtable = "row list"

definition memtable_insert :: "row \<Rightarrow> memtable \<Rightarrow> memtable res" where
  "memtable_insert r mt = rbind (row_key r) (\<lambda>k. Inr (map_put k r mt))"

definition memtable_size :: "memtable \<Rightarrow> nat" where
  "memtable_size mt = length mt"

text \<open>The frozen table and the emptied active table.\<close>

definition to_sorted_immutable :: "memtable \<Rightarrow> imm_memtable \<times> memtable" where
  "to_sorted_immutable mt = (map snd mt, [])"

text \<open>\<open>std::lower_bound\<close> on the rows; every row of a frozen table has a key.\<close>

definition imm_lower_bound :: "key \<Rightarrow> imm_memtable \<Rightarrow> nat" where
  "imm_lower_bound k rows = length (takeWhile (\<lambda>r. rkey r < k) rows)"

definition memtable_inv :: "schema \<Rightarrow> memtable \<Rightarrow> bool" where
  "memtable_inv s mt \<longleftrightarrow> sorted_wrt (<) (map fst mt) \<and> (\<forall>(k, r) \<in> set mt. row_key r = Inr k \<and> valid_row s r)"

lemma memtable_inv_empty [simp]: "memtable_inv s []"
  by (simp add: memtable_inv_def)

lemma memtable_insert_ok:
  assumes inv: "memtable_inv s mt" and r: "valid_row s r" "row_key r = Inr k"
  shows "memtable_insert r mt = Inr (map_put k r mt)" "memtable_inv s (map_put k r mt)"
    "map_of (map_put k r mt) = (map_of mt)(k \<mapsto> r)"
  using inv r map_put_entries [of k r mt]
  by (auto simp: memtable_insert_def memtable_inv_def sorted_map_put map_of_map_put)

lemma memtable_inv_rkeys: "memtable_inv s mt \<Longrightarrow> rkeys (map snd mt) = map fst mt"
  by (auto simp: memtable_inv_def rkey_def)

section \<open>\<open>MemoryLayer\<close>\<close>

record memory_layer =
  ml_threshold :: nat
  ml_active :: memtable
  ml_immutables :: "imm_memtable list"

definition MemoryLayer :: "nat \<Rightarrow> memory_layer" where
  "MemoryLayer threshold = \<lparr>ml_threshold = threshold, ml_active = [], ml_immutables = []\<rparr>"

definition active_to_immutable :: "memory_layer \<Rightarrow> memory_layer" where
  "active_to_immutable ml =
     (let (imm, _) = to_sorted_immutable (ml_active ml)
      in ml\<lparr>ml_immutables := ml_immutables ml @ [imm], ml_active := []\<rparr>)"

definition ml_insert :: "row \<Rightarrow> memory_layer \<Rightarrow> memory_layer res" where
  "ml_insert r ml =
     rbind (memtable_insert r (ml_active ml)) (\<lambda>mt.
       let ml1 = ml\<lparr>ml_active := mt\<rparr> in
       if memtable_size mt < ml_threshold ml then Inr ml1 else Inr (active_to_immutable ml1))"

definition immutable_count :: "memory_layer \<Rightarrow> nat" where
  "immutable_count ml = length (ml_immutables ml)"

definition front_immutable :: "memory_layer \<Rightarrow> imm_memtable option" where
  "front_immutable ml = (if ml_immutables ml = [] then None else Some (hd (ml_immutables ml)))"

definition pop_front_immutable :: "memory_layer \<Rightarrow> imm_memtable option \<times> memory_layer" where
  "pop_front_immutable ml =
     (if ml_immutables ml = [] then (None, ml)
      else (Some (hd (ml_immutables ml)), ml\<lparr>ml_immutables := tl (ml_immutables ml)\<rparr>))"

text \<open>Frozen tables hold valid rows in strictly ascending key order.\<close>

definition frozen_ok :: "schema \<Rightarrow> row list \<Rightarrow> bool" where
  "frozen_ok s rows \<longleftrightarrow> sorted_wrt (<) (rkeys rows) \<and> (\<forall>r \<in> set rows. valid_row s r)"

definition ml_inv :: "schema \<Rightarrow> memory_layer \<Rightarrow> bool" where
  "ml_inv s ml \<longleftrightarrow> memtable_inv s (ml_active ml) \<and> (\<forall>imm \<in> set (ml_immutables ml). frozen_ok s imm)"

text \<open>The rows of the layer, newest table last.\<close>

definition ml_tables :: "memory_layer \<Rightarrow> row list list" where
  "ml_tables ml = ml_immutables ml @ [map snd (ml_active ml)]"

lemma ml_inv_start: "ml_inv s (MemoryLayer threshold)"
  by (simp add: ml_inv_def MemoryLayer_def)

lemma frozen_memtable: "memtable_inv s mt \<Longrightarrow> frozen_ok s (map snd mt)"
  unfolding frozen_ok_def memtable_inv_rkeys by (auto simp: memtable_inv_def)

lemma active_to_immutable_inv:
  "ml_inv s ml \<Longrightarrow> ml_inv s (active_to_immutable ml)"
  by (auto simp: ml_inv_def active_to_immutable_def to_sorted_immutable_def frozen_memtable)

lemma active_to_immutable_tables: "ml_tables (active_to_immutable ml) = ml_tables ml @ [[]]"
  by (simp add: ml_tables_def active_to_immutable_def to_sorted_immutable_def)

lemma ml_insert_ok:
  assumes inv: "ml_inv s ml" and wf: "schema_wf s" and r: "valid_row s r"
  shows "\<exists>ml'. ml_insert r ml = Inr ml' \<and> ml_inv s ml' \<and> ml_threshold ml' = ml_threshold ml \<and>
    concat (ml_tables ml') = concat (ml_immutables ml) @ map snd (map_put (rkey r) r (ml_active ml))"
proof -
  obtain k where k: "row_key r = Inr k" using valid_row_key [OF wf r] by auto
  then have rk: "rkey r = k" by (simp add: rkey_def)
  note ins = memtable_insert_ok [of s "ml_active ml" r k]
  let ?ml1 = "ml\<lparr>ml_active := map_put k r (ml_active ml)\<rparr>"
  have i: "ml_inv s ?ml1" using inv ins r k by (simp add: ml_inv_def)
  have e: "ml_insert r ml = Inr (if length (map_put k r (ml_active ml)) < ml_threshold ml then ?ml1 else active_to_immutable ?ml1)"
    using inv ins(1) r k by (simp add: ml_insert_def ml_inv_def memtable_size_def Let_def)
  show ?thesis
  proof (cases "length (map_put k r (ml_active ml)) < ml_threshold ml")
    case True
    then show ?thesis using e i by (auto simp: rk ml_tables_def)
  next
    case False
    then show ?thesis
      using e active_to_immutable_inv [OF i] active_to_immutable_tables [of ?ml1]
      by (auto simp: rk ml_tables_def active_to_immutable_def to_sorted_immutable_def)
  qed
qed

section \<open>Ranges of a memory table\<close>

text \<open>
  The entries between the two iterators a scan takes. Iterators that are out of order are
  undefined behaviour: the loop runs past the end.
\<close>

definition entries_between :: "nat \<Rightarrow> nat \<Rightarrow> 'a list \<Rightarrow> 'a list res" where
  "entries_between b e xs =
     (if b \<le> e then Inr (take (e - b) (drop b xs))
      else Inl (LogicError ''undefined behaviour: iterators out of order''))"

definition active_range :: "key_range \<Rightarrow> memtable \<Rightarrow> memtable res" where
  "active_range rng mt =
     entries_between (case kr_from rng of Some f \<Rightarrow> map_lower_bound f mt | None \<Rightarrow> 0)
       (case kr_to rng of Some t \<Rightarrow> map_lower_bound t mt | None \<Rightarrow> length mt) mt"

definition imm_range :: "key_range \<Rightarrow> imm_memtable \<Rightarrow> imm_memtable res" where
  "imm_range rng imm =
     entries_between (case kr_from rng of Some f \<Rightarrow> imm_lower_bound f imm | None \<Rightarrow> 0)
       (case kr_to rng of Some t \<Rightarrow> imm_lower_bound t imm | None \<Rightarrow> length imm) imm"

text \<open>A range whose bounds are in order.\<close>

definition range_ok :: "key_range \<Rightarrow> bool" where
  "range_ok rng \<longleftrightarrow> (\<forall>f t. kr_from rng = Some f \<longrightarrow> kr_to rng = Some t \<longrightarrow> f \<le> t)"

lemma lower_bound_take:
  fixes g :: "'a \<Rightarrow> key"
  assumes "sorted (map g xs)"
  shows "take (length (takeWhile (\<lambda>x. g x < k) xs)) xs = filter (\<lambda>x. g x < k) xs"
    "drop (length (takeWhile (\<lambda>x. g x < k) xs)) xs = filter (\<lambda>x. k \<le> g x) xs"
proof -
  have "takeWhile (\<lambda>x. g x < k) xs = filter (\<lambda>x. g x < k) xs \<and> dropWhile (\<lambda>x. g x < k) xs = filter (\<lambda>x. k \<le> g x) xs"
    using assms
  proof (induction xs)
    case (Cons x xs)
    show ?case
    proof (cases "g x < k")
      case True
      with Cons show ?thesis by auto
    next
      case False
      with Cons have "\<forall>y \<in> set xs. k \<le> g y" by auto
      with False show ?thesis by (auto simp: filter_empty_conv empty_filter_conv not_less)
    qed
  qed simp
  then show "take (length (takeWhile (\<lambda>x. g x < k) xs)) xs = filter (\<lambda>x. g x < k) xs"
    "drop (length (takeWhile (\<lambda>x. g x < k) xs)) xs = filter (\<lambda>x. k \<le> g x) xs"
    unfolding takeWhile_eq_take [symmetric] dropWhile_eq_drop [symmetric] by auto
qed

lemma entries_between_range:
  fixes g :: "'a \<Rightarrow> key"
  assumes srt: "sorted (map g xs)" and rng: "range_ok rng"
  shows "entries_between (case kr_from rng of Some f \<Rightarrow> length (takeWhile (\<lambda>x. g x < f) xs) | None \<Rightarrow> 0)
     (case kr_to rng of Some t \<Rightarrow> length (takeWhile (\<lambda>x. g x < t) xs) | None \<Rightarrow> length xs) xs =
   Inr (filter (\<lambda>x. contains rng (g x)) xs)"
proof -
  let ?n = "\<lambda>k. length (takeWhile (\<lambda>x. g x < k) xs)"
  have le: "?n k \<le> length xs" for k by (rule length_takeWhile_le)
  have dr: "drop (?n f) xs = filter (\<lambda>x. f \<le> g x) xs" and tk: "take (?n f) xs = filter (\<lambda>x. g x < f) xs" for f
    using lower_bound_take [OF srt] by auto
  have both: "take (?n t - ?n f) (drop (?n f) xs) = filter (\<lambda>x. f \<le> g x \<and> g x < t) xs" "?n f \<le> ?n t" if "f \<le> t" for f t
  proof -
    have n: "?n k = length (filter (\<lambda>x. g x < k) xs)" for k using arg_cong [OF tk [of k], of length] le [of k] by simp
    have "filter (\<lambda>x. g x < f) xs = filter (\<lambda>x. g x < f) (filter (\<lambda>x. g x < t) xs)"
      using that by (auto intro: filter_cong)
    then show "?n f \<le> ?n t" unfolding n by (metis length_filter_le)
    have s: "sorted (map g (filter (\<lambda>x. g x < t) xs))" using srt by (rule sorted_filter)
    have m: "?n f = length (takeWhile (\<lambda>x. g x < f) (filter (\<lambda>x. g x < t) xs))"
    proof -
      have "length (takeWhile (\<lambda>x. g x < f) (filter (\<lambda>x. g x < t) xs)) = length (filter (\<lambda>x. g x < f) (filter (\<lambda>x. g x < t) xs))"
        using arg_cong [OF lower_bound_take(1) [OF s, of f], of length] length_takeWhile_le [of "\<lambda>x. g x < f" "filter (\<lambda>x. g x < t) xs"]
        by simp
      also have "filter (\<lambda>x. g x < f) (filter (\<lambda>x. g x < t) xs) = filter (\<lambda>x. g x < f) xs" using that by (auto intro: filter_cong)
      finally show ?thesis by (simp add: n)
    qed
    have "take (?n t - ?n f) (drop (?n f) xs) = drop (?n f) (filter (\<lambda>x. g x < t) xs)" unfolding tk [symmetric] by (simp add: drop_take)
    also have "\<dots> = filter (\<lambda>x. f \<le> g x) (filter (\<lambda>x. g x < t) xs)" unfolding m by (rule lower_bound_take(2) [OF s])
    finally show "take (?n t - ?n f) (drop (?n f) xs) = filter (\<lambda>x. f \<le> g x \<and> g x < t) xs" by (simp add: conj_commute)
  qed
  show ?thesis
    using rng both dr tk le
    by (auto simp: entries_between_def range_ok_def contains_iff split: option.splits)
qed

lemma active_range_ok:
  assumes "memtable_inv s mt" "range_ok rng"
  shows "active_range rng mt = Inr (filter (\<lambda>e. contains rng (fst e)) mt)"
proof -
  have "sorted (map fst mt)" using assms(1) by (simp add: memtable_inv_def strict_sorted_imp_sorted)
  from entries_between_range [OF this assms(2)] show ?thesis unfolding active_range_def map_lower_bound_def .
qed

lemma imm_range_ok:
  assumes "frozen_ok s imm" "range_ok rng"
  shows "imm_range rng imm = Inr (in_rng rng imm)"
proof -
  have "sorted (rkeys imm)" using assms(1) by (simp add: frozen_ok_def strict_sorted_imp_sorted)
  from entries_between_range [OF this assms(2)] show ?thesis unfolding imm_range_def imm_lower_bound_def in_rng_def .
qed

section \<open>Properties\<close>

text \<open>C38: The active table holds, in ascending key order, the newest row of every key that was inserted
  into it, and freezing it loses no row.\<close>

theorem memtable_is_map:
  assumes "schema_wf s" "\<forall>r \<in> set rows. valid_row s r" "rfold memtable_insert rows [] = Inr mt"
  shows "sorted_wrt (<) (map fst mt) \<and> map_of mt = map_of (rev (map (\<lambda>r. (rkey r, r)) rows)) \<and>
    to_sorted_immutable mt = (map snd mt, []) \<and> frozen_ok s (map snd mt)"
proof -
  have "memtable_inv s mt \<and> map_of mt = map_of (rev (map (\<lambda>r. (rkey r, r)) rows))"
    using assms(2,3)
  proof (induction rows arbitrary: mt rule: rev_induct)
    case (snoc r rows)
    obtain mt0 where mt0: "rfold memtable_insert rows [] = Inr mt0" "memtable_insert r mt0 = Inr mt"
      using snoc.prems(2) by (auto simp: rfold_snoc rbind_eq_Inr)
    obtain k where k: "row_key r = Inr k" using valid_row_key [OF assms(1)] snoc.prems(1) by fastforce
    have "memtable_inv s mt0" "map_of mt0 = map_of (rev (map (\<lambda>r. (rkey r, r)) rows))"
      using snoc.IH [OF _ mt0(1)] snoc.prems(1) by auto
    then show ?case using memtable_insert_ok [of s mt0 r k] snoc.prems(1) k mt0(2) by (simp add: rkey_def)
  qed simp
  then show ?thesis using frozen_memtable [of s mt] by (auto simp: memtable_inv_def to_sorted_immutable_def)
qed

lemma memtable_is_map_witness:
  "\<exists>mt. rfold memtable_insert [sample_row (I64 5), sample_row (I64 1), sample_row (I64 5)] [] = Inr mt \<and>
     sorted_wrt (<) (map fst mt)"
proof -
  let ?rows = "[sample_row (I64 5), sample_row (I64 1), sample_row (I64 5)]"
  have "\<exists>mt. rfold memtable_insert ?rows [] = Inr mt"
    by (simp add: memtable_insert_def sample_row_def)
  then obtain mt where mt: "rfold memtable_insert ?rows [] = Inr mt" by blast
  from memtable_is_map [OF sample_schema_wf _ mt] mt show ?thesis by simp
qed

end
