(* ===== verification/Engine.thy ===== *)
theory Engine
  imports Stored_Table Mem_Layer
begin

text \<open>
  The interface \<open>IStorageEngine\<close> (\<open>storage/api/storage_engine_interface.hpp\<close>) between the query layer
  and the storage: a table of operations, and the locale \<open>engine_contract\<close> with what its comments
  promise. The relation \<open>holds\<close> says which tables an engine in a state stands for, each a schema and a
  multiset of rows. Both engines of the program are models of the locale, and the executor is a client of it.
\<close>

section \<open>The result of a scan\<close>

text \<open>A part of the rows of the range, each at most as often as it is stored, with every wanted row.\<close>

definition scan_spec :: "key_range \<Rightarrow> skip_filter \<Rightarrow> row list \<Rightarrow> row list \<Rightarrow> bool" where
  "scan_spec rng f rows res \<longleftrightarrow>
     mset res \<subseteq># mset (in_rng rng rows) \<and> (\<forall>r \<in> set (in_rng rng rows). row_wanted f r \<longrightarrow> r \<in> set res)"

lemma in_rng_append [simp]: "in_rng rng (xs @ ys) = in_rng rng xs @ in_rng rng ys"
  by (simp add: in_rng_def)

lemma in_rng_concat: "in_rng rng (concat xss) = concat (map (in_rng rng) xss)"
  by (simp add: in_rng_def [abs_def] filter_concat)

lemma scan_spec_Nil: "in_rng rng rows = [] \<Longrightarrow> scan_spec rng f rows []"
  by (simp add: scan_spec_def)

lemma scan_spec_range: "scan_spec rng f rows (in_rng rng rows)"
  by (simp add: scan_spec_def)

lemma scan_spec_append: "scan_spec rng f xs rs \<Longrightarrow> scan_spec rng f ys ss \<Longrightarrow> scan_spec rng f (xs @ ys) (rs @ ss)"
  by (auto simp: scan_spec_def intro: subset_mset.add_mono)

lemma scan_spec_concat: "list_all2 (scan_spec rng f) xss rss \<Longrightarrow> scan_spec rng f (concat xss) (concat rss)"
  by (induction rule: list_all2_induct) (simp_all add: scan_spec_append scan_spec_Nil)

lemma scan_spec_mset:
  assumes "scan_spec rng f xs rs" "mset ys = mset xs" "mset ss = mset rs"
  shows "scan_spec rng f ys ss"
proof -
  have "mset (in_rng rng ys) = mset (in_rng rng xs)" using assms(2) by (simp add: in_rng_def)
  then show ?thesis using assms(1,3) unfolding scan_spec_def by (metis set_mset_mset)
qed

lemma subseq_mset: "subseq xs ys \<Longrightarrow> mset xs \<subseteq># mset ys"
  by (induction rule: list_emb.induct) (auto intro: subset_mset.order_trans [OF _ mset_subset_eq_add_right] simp: subseteq_mset_def le_SucI)

lemma query_result_spec: "query_result rng f rows rs \<Longrightarrow> scan_spec rng f rows rs"
  by (auto simp: query_result_def scan_spec_def subseq_mset)

text \<open>Without a filter the result has exactly the rows of the range.\<close>

lemma scan_spec_all:
  assumes "scan_spec rng [] rows res" "distinct rows"
  shows "mset res = mset (in_rng rng rows)"
proof -
  have d: "distinct (in_rng rng rows)" using assms(2) by (simp add: in_rng_def)
  have sub: "mset res \<subseteq># mset (in_rng rng rows)" "set (in_rng rng rows) \<subseteq> set res"
    using assms(1) by (auto simp: scan_spec_def)
  have "mset (in_rng rng rows) = mset_set (set (in_rng rng rows))" using d by (simp add: mset_set_set)
  also have "\<dots> \<subseteq># mset_set (set res)" using sub(2) by (intro subset_imp_msubset_mset_set) simp_all
  also have "\<dots> \<subseteq># mset res" by (rule mset_set_set_mset_msubset [of "mset res", simplified])
  finally show ?thesis using sub(1) by (rule subset_mset.antisym [rotated])
qed

section \<open>The interface\<close>

record ('e, 'c) storage_engine =
  eng_create_table :: "string \<Rightarrow> schema \<Rightarrow> 'e \<Rightarrow> 'e res"
  eng_table_exists :: "string \<Rightarrow> 'e \<Rightarrow> bool"
  eng_get_table_schema :: "string \<Rightarrow> 'e \<Rightarrow> schema res"
  eng_insert :: "string \<Rightarrow> row \<Rightarrow> 'e \<Rightarrow> 'e res option"
  eng_get :: "string \<Rightarrow> key \<Rightarrow> nat list \<Rightarrow> 'e \<Rightarrow> 'c res \<times> 'e"
  eng_scan :: "string \<Rightarrow> key option \<Rightarrow> key option \<Rightarrow> nat list \<Rightarrow> scan_order \<Rightarrow> skip_filter \<Rightarrow> 'e \<Rightarrow> 'c res \<times> 'e"
  eng_cursor :: "'c cursor_ops"

text \<open>A cursor that delivers rows as a query sees them: the key and the projected columns agree.\<close>

definition delivers ::
    "(nat \<Rightarrow> 'c \<Rightarrow> bool) \<Rightarrow> ('c \<Rightarrow> row list) \<Rightarrow> (nat \<Rightarrow> 'c \<Rightarrow> nat set) \<Rightarrow> nat \<Rightarrow> nat list \<Rightarrow> 'c \<Rightarrow> row list \<Rightarrow> bool" where
  "delivers cinv crows ccols n projection c res \<longleftrightarrow>
     cinv n c \<and> insert KEY_COLUMN_INDEX (set projection) \<subseteq> ccols n c \<and>
     map (row_cells projection) (crows c) = map (row_cells projection) res"

type_synonym content = "string \<Rightarrow> (schema \<times> row multiset) option"

locale engine_contract =
  fixes eng :: "('e, 'c) storage_engine" and holds :: "'e \<Rightarrow> content \<Rightarrow> bool"
    and cinv :: "nat \<Rightarrow> 'c \<Rightarrow> bool" and crows :: "'c \<Rightarrow> row list" and ccols :: "nat \<Rightarrow> 'c \<Rightarrow> nat set"
    and creatable :: "schema \<Rightarrow> bool" and fits :: "schema \<Rightarrow> row multiset \<Rightarrow> bool" and lookup_ok :: "key \<Rightarrow> bool"
  assumes cursors: "icursor (eng_cursor eng) (cinv n) crows (ccols n)"
    and stored: "holds st T \<Longrightarrow> T name = Some (s, M) \<Longrightarrow>
      schema_wf s \<and> (\<forall>r \<in># M. valid_row s r) \<and> (\<forall>k. count (image_mset rkey M) k \<le> 1)"
    and exists_iff: "holds st T \<Longrightarrow> eng_table_exists eng name st \<longleftrightarrow> T name \<noteq> None"
    and schema_of: "holds st T \<Longrightarrow> T name = Some (s, M) \<Longrightarrow> eng_get_table_schema eng name st = Inr s"
    and create_new: "holds st T \<Longrightarrow> T name = None \<Longrightarrow> schema_wf s \<Longrightarrow> creatable s \<Longrightarrow>
      \<exists>st'. eng_create_table eng name s st = Inr st' \<and> holds st' (T(name \<mapsto> (s, {#})))"
    and create_again: "holds st T \<Longrightarrow> T name \<noteq> None \<Longrightarrow>
      eng_create_table eng name s st = Inl (RuntimeError ''Table already exists'')"
    and insert_new: "holds st T \<Longrightarrow> T name = Some (s, M) \<Longrightarrow> valid_row s r \<Longrightarrow> rkey r \<notin># image_mset rkey M \<Longrightarrow>
      fits s (add_mset r M) \<Longrightarrow>
      \<exists>st'. eng_insert eng name r st = Some (Inr st') \<and> holds st' (T(name \<mapsto> (s, add_mset r M)))"
    and get_row: "holds st T \<Longrightarrow> T name = Some (s, M) \<Longrightarrow> projection_ok s projection \<Longrightarrow> lookup_ok k \<Longrightarrow>
      \<exists>c st' res. eng_get eng name k projection st = (Inr c, st') \<and> holds st' T \<and>
        delivers cinv crows ccols (schema_size s) projection c res \<and> mset res = {#r \<in># M. rkey r = k#}"
    and scan_rows: "holds st T \<Longrightarrow> T name = Some (s, mset rows) \<Longrightarrow> projection_ok s projection \<Longrightarrow>
      range_ok \<lparr>kr_from = lo, kr_to = hi\<rparr> \<Longrightarrow>
      \<exists>c st' res. eng_scan eng name lo hi projection order f st = (Inr c, st') \<and> holds st' T \<and>
        delivers cinv crows ccols (schema_size s) projection c res \<and> scan_spec \<lparr>kr_from = lo, kr_to = hi\<rparr> f rows res \<and>
        (order = KeyAscending \<longrightarrow> sorted (rkeys res))"
begin

end

end
