(* ===== verification/Text_Num.thy ===== *)
theory Text_Num
  imports Double
begin

text \<open>
  Numbers and their texts: \<open>std::format\<close> of an unsigned number, and \<open>std::stoll\<close>,
  \<open>std::stoull\<close> and \<open>std::stod\<close> as the parser uses them. The lexer only hands them an optional
  minus sign followed by digits, for \<open>stod\<close> with a decimal point between digits, so the white
  space, plus signs, exponents, hexadecimal digits, infinities and NaNs these functions would
  also accept are left out. \<open>stod\<close> rounds to nearest, ties to even, and throws where glibc's
  \<open>strtod\<close> sets \<open>ERANGE\<close>: when the value is too large, and when it is tiny and inexact.

  The lemmas show that a number is read back from its decimal text; for a double from
  its exact decimal expansion.
\<close>

section \<open>Natural numbers\<close>

text \<open>\<open>std::format\<close> of an unsigned number, and zero padding to 20 digits.\<close>

fun dec_digits :: "nat \<Rightarrow> string" where
  "dec_digits n = (if n < 10 then [char_of (48 + n)] else dec_digits (n div 10) @ [char_of (48 + n mod 10)])"

declare dec_digits.simps [simp del]

definition zero_pad :: "nat \<Rightarrow> string \<Rightarrow> string" where
  "zero_pad width ds = replicate (width - length ds) (CHR ''0'') @ ds"

definition dec_value :: "string \<Rightarrow> nat" where
  "dec_value ds = foldl (\<lambda>acc c. 10 * acc + (of_char c - 48)) 0 ds"

lemma dec_value_snoc: "dec_value (ds @ [c]) = 10 * dec_value ds + (of_char c - 48)"
  by (simp add: dec_value_def)

lemma dec_value_digits: "dec_value (dec_digits n) = n"
proof (induction n rule: dec_digits.induct)
  case (1 n)
  have d: "of_char (char_of (48 + m) :: char) = 48 + m" if "m < 10" for m :: nat using that by simp
  show ?case
  proof (cases "n < 10")
    case True
    then show ?thesis using d [of n] by (subst dec_digits.simps) (simp add: dec_value_def)
  next
    case False
    then show ?thesis using 1 d [of "n mod 10"] by (subst dec_digits.simps) (simp add: dec_value_snoc)
  qed
qed

lemma dec_value_pad: "dec_value (zero_pad w ds) = dec_value ds"
proof -
  have "foldl (\<lambda>acc c. 10 * acc + (of_char c - 48)) 0 (replicate n (CHR ''0'')) = (0 :: nat)" for n
    by (induction n) simp_all
  then show ?thesis by (simp add: dec_value_def zero_pad_def)
qed

lemma dec_value_append: "dec_value (xs @ ys) = dec_value xs * 10 ^ length ys + dec_value ys"
proof (induction ys rule: rev_induct)
  case (snoc c ys)
  have "dec_value (xs @ ys @ [c]) = 10 * dec_value (xs @ ys) + (of_char c - 48)"
    using dec_value_snoc [of "xs @ ys" c] by simp
  then show ?case using snoc by (simp add: dec_value_snoc algebra_simps)
qed (simp add: dec_value_def)

section \<open>Characters of a number\<close>

definition char_code :: "char \<Rightarrow> nat" where
  "char_code c = of_char c"

definition is_digit :: "char \<Rightarrow> bool" where
  "is_digit c \<longleftrightarrow> 48 \<le> char_code c \<and> char_code c \<le> 57"

definition digits_text :: "string \<Rightarrow> bool" where
  "digits_text t \<longleftrightarrow> t \<noteq> [] \<and> list_all is_digit t"

fun strip_sign :: "string \<Rightarrow> string" where
  "strip_sign [] = []"
| "strip_sign (c # cs) = (if c = CHR ''-'' then cs else c # cs)"

definition has_sign :: "string \<Rightarrow> bool" where
  "has_sign t \<longleftrightarrow> t \<noteq> [] \<and> hd t = CHR ''-''"

lemma digits_dec_digits [simp]: "digits_text (dec_digits n)"
proof (induction n rule: dec_digits.induct)
  case (1 n)
  have d: "is_digit (char_of (48 + m))" if "m < 10" for m :: nat
    using that by (simp add: is_digit_def char_code_def)
  show ?case
    using 1 d [of n] d [of "n mod 10"] by (subst dec_digits.simps) (simp add: digits_text_def)
qed

section \<open>Integers\<close>

definition stoll :: "string \<Rightarrow> i64 res" where
  "stoll t =
     (let ds = takeWhile is_digit (strip_sign t);
          n = (if has_sign t then - int (dec_value ds) else int (dec_value ds))
      in if ds = [] then Inl (InvalidArgument ''stoll'')
         else if n < - (2 ^ 63) \<or> 2 ^ 63 \<le> n then Inl (OutOfRange ''stoll'')
         else Inr (i64_of n))"

text \<open>A minus sign is accepted: the magnitude is negated in 64 bits.\<close>

definition stoull :: "string \<Rightarrow> nat res" where
  "stoull t =
     (let ds = takeWhile is_digit (strip_sign t); n = dec_value ds
      in if ds = [] then Inl (InvalidArgument ''stoull'')
         else if 2 ^ 64 \<le> n then Inl (OutOfRange ''stoull'')
         else Inr (if has_sign t then unat (- word_of_nat n :: 64 word) else n))"

definition show_int :: "int \<Rightarrow> string" where
  "show_int n = (if n < 0 then CHR ''-'' # dec_digits (nat (- n)) else dec_digits (nat n))"

lemma takeWhile_digits: "digits_text ds \<Longrightarrow> takeWhile is_digit ds = ds"
  by (simp add: digits_text_def list_all_iff)

lemma digits_hd: "digits_text ds \<Longrightarrow> ds \<noteq> [] \<and> is_digit (hd ds) \<and> hd ds \<noteq> CHR ''-''"
  by (cases ds) (auto simp: digits_text_def is_digit_def char_code_def)

lemma strip_digits [simp]: "digits_text ds \<Longrightarrow> strip_sign ds = ds" "digits_text ds \<Longrightarrow> \<not> has_sign ds"
  using digits_hd [of ds] by (cases ds; simp add: has_sign_def)+

lemma strip_digits_append [simp]:
  "digits_text ds \<Longrightarrow> strip_sign (ds @ u) = ds @ u" "digits_text ds \<Longrightarrow> \<not> has_sign (ds @ u)"
  using digits_hd [of ds] by (cases ds; simp add: has_sign_def)+

lemma digits_not_Nil [simp]: "digits_text ds \<Longrightarrow> ds \<noteq> []"
  by (simp add: digits_text_def)

lemma has_sign_Cons [simp]: "has_sign (CHR ''-'' # t)"
  by (simp add: has_sign_def)

lemma i64_of_val [simp]: "i64_of (i64_val k) = k"
  by (cases k) (simp add: i64_of_def i64_val_def)

lemma stoll_show_int: "stoll (show_int (i64_val k)) = Inr k"
  using i64_val_bounds [of k]
  by (auto simp: stoll_def show_int_def Let_def takeWhile_digits dec_value_digits not_less)

lemma stoull_dec_digits: "n < 2 ^ 64 \<Longrightarrow> stoull (dec_digits n) = Inr n"
  by (simp add: stoull_def Let_def takeWhile_digits dec_value_digits)

section \<open>Doubles\<close>

text \<open>The \<open>e\<close> with \<open>2 ^ e \<le> n / d < 2 ^ (e + 1)\<close>.\<close>

definition flog2_ratio :: "nat \<Rightarrow> nat \<Rightarrow> int" where
  "flog2_ratio n d =
     (let e = int (flog2 n) - int (flog2 d)
      in if d * 2 ^ nat e \<le> n * 2 ^ nat (- e) then e else e - 1)"

text \<open>\<open>n / d\<close> in units of \<open>2 ^ q\<close>, rounded.\<close>

definition round_at :: "int \<Rightarrow> nat \<Rightarrow> nat \<Rightarrow> nat" where
  "round_at q n d = round_even (n * 2 ^ nat (- q)) (d * 2 ^ nat q)"

definition d64_infinity_mag :: nat where
  "d64_infinity_mag = 0x7FF0000000000000"

definition d64_make :: "bool \<Rightarrow> nat \<Rightarrow> double" where
  "d64_make neg m = D64 (if neg then set_bit 63 (word_of_nat m) else word_of_nat m)"

definition stod_ratio :: "bool \<Rightarrow> nat \<Rightarrow> nat \<Rightarrow> double res" where
  "stod_ratio neg n d =
     (if n = 0 then Inr (d64_make neg 0)
      else
        let e = flog2_ratio n d;
            e1 = max e (- 1022);
            q = e1 - 52;
            m = nat (e1 + 1022) * 2 ^ 52 + round_at q n d;
            inexact = (n * 2 ^ nat (- q)) mod (d * 2 ^ nat q) \<noteq> 0;
            tiny = e < - 1022 \<and> \<not> (e = - 1023 \<and> round_at (e - 52) n d = 2 ^ 53)
        in if d64_infinity_mag \<le> m \<or> (tiny \<and> inexact) then Inl (OutOfRange ''stod'')
           else Inr (d64_make neg m))"

definition stod :: "string \<Rightarrow> double res" where
  "stod t =
     (let u = strip_sign t;
          a = takeWhile is_digit u;
          b = (case dropWhile is_digit u of c # cs \<Rightarrow> if c = CHR ''.'' then takeWhile is_digit cs else [] | [] \<Rightarrow> [])
      in if a = [] \<and> b = [] then Inl (InvalidArgument ''stod'')
         else stod_ratio (has_sign t) (dec_value (a @ b)) (10 ^ length b))"

definition double_text :: "string \<Rightarrow> bool" where
  "double_text t \<longleftrightarrow>
     takeWhile is_digit (strip_sign t) \<noteq> [] \<and>
     (case dropWhile is_digit (strip_sign t) of [] \<Rightarrow> False | c # cs \<Rightarrow> c = CHR ''.'' \<and> digits_text cs)"

subsection \<open>The exact decimal expansion\<close>

text \<open>A finite double is \<open>s * 2 ^ q\<close>; \<open>1 / 2 ^ k\<close> is \<open>5 ^ k / 10 ^ k\<close>.\<close>

definition d64_parts :: "double \<Rightarrow> nat \<times> int" where
  "d64_parts d =
     (let m = d64_mag d; e = m div 2 ^ 52; f = m mod 2 ^ 52
      in if e = 0 then (f, - 1074) else (2 ^ 52 + f, int e - 1075))"

definition show_double :: "double \<Rightarrow> string" where
  "show_double d =
     (let s = fst (d64_parts d); q = snd (d64_parts d); k = nat (- q);
          body = (if 0 \<le> q then dec_digits (s * 2 ^ nat q) @ ''.0''
                  else dec_digits (s div 2 ^ k) @ ''.'' @ zero_pad k (dec_digits ((s mod 2 ^ k) * 5 ^ k)))
      in if d64_neg d then CHR ''-'' # body else body)"

definition d64_finite :: "double \<Rightarrow> bool" where
  "d64_finite d \<longleftrightarrow> d64_mag d < d64_infinity_mag"

lemma ratio_scale:
  fixes d n a b :: nat
  shows "d * 2 ^ a \<le> n * 2 ^ b \<longleftrightarrow> d * 2 ^ nat (int a - int b) \<le> n * 2 ^ nat (- (int a - int b))"
proof (cases "b \<le> a")
  case True
  then obtain c where a: "a = b + c" by (metis le_add_diff_inverse)
  have "d * 2 ^ a = 2 ^ b * (d * 2 ^ c)" by (simp only: a power_add mult.left_commute)
  then have "d * 2 ^ a \<le> n * 2 ^ b \<longleftrightarrow> 2 ^ b * (d * 2 ^ c) \<le> 2 ^ b * n" by (simp only: mult.commute)
  then show ?thesis by (simp add: a)
next
  case False
  then obtain c where b: "b = a + c" by (metis le_add_diff_inverse nat_le_linear)
  have "n * 2 ^ b = 2 ^ a * (n * 2 ^ c)" by (simp only: b power_add mult.left_commute)
  then have "d * 2 ^ a \<le> n * 2 ^ b \<longleftrightarrow> 2 ^ a * d \<le> 2 ^ a * (n * 2 ^ c)" by (simp only: mult.commute)
  then show ?thesis by (simp add: b)
qed

lemma two_power_less: "(2 :: nat) ^ a < 2 ^ b \<Longrightarrow> a < b"
  by (rule power_less_imp_less_exp [of 2]) simp_all

lemma flog2_ratio_unique:
  assumes pos: "0 < n" "0 < d" and le: "d * 2 ^ a \<le> n * 2 ^ b" and less: "n * 2 ^ b < 2 * d * 2 ^ a"
  shows "flog2_ratio n d = int a - int b"
proof -
  have bn: "2 ^ flog2 n \<le> n" "n < 2 ^ Suc (flog2 n)" and bd: "2 ^ flog2 d \<le> d" "d < 2 ^ Suc (flog2 d)"
    using flog2_bounds [OF pos(1)] flog2_bounds [OF pos(2)] by auto
  have "2 ^ flog2 d * 2 ^ a \<le> d * 2 ^ a" using bd(1) by (rule mult_le_mono1)
  moreover have "n * 2 ^ b < 2 ^ Suc (flog2 n) * 2 ^ b" using bn(2) by simp
  ultimately have "(2 :: nat) ^ (flog2 d + a) < 2 ^ (Suc (flog2 n) + b)" using le by (simp only: power_add)
  then have 1: "flog2 d + a < Suc (flog2 n) + b" by (rule two_power_less)
  have "2 ^ flog2 n * 2 ^ b \<le> n * 2 ^ b" using bn(1) by (rule mult_le_mono1)
  moreover have "2 * d * 2 ^ a < 2 * 2 ^ Suc (flog2 d) * 2 ^ a" using bd(2) by simp
  ultimately have "(2 :: nat) ^ (flog2 n + b) < 2 ^ (Suc (Suc (flog2 d)) + a)"
    using less by (simp only: power_add power_Suc)
  then have 2: "flog2 n + b < Suc (Suc (flog2 d)) + a" by (rule two_power_less)
  let ?e = "int (flog2 n) - int (flog2 d)"
  consider (eq) "?e = int a - int b" | (more) "?e = int (Suc a) - int b" using 1 2 by linarith
  then show ?thesis
  proof cases
    case eq
    then show ?thesis using le ratio_scale [of d a n b] by (simp add: flog2_ratio_def Let_def)
  next
    case more
    have "\<not> d * 2 ^ Suc a \<le> n * 2 ^ b" using less by (simp add: not_le mult.left_commute mult.commute)
    then have "\<not> d * 2 ^ nat ?e \<le> n * 2 ^ nat (- ?e)"
      unfolding more using ratio_scale [of d "Suc a" n b] by blast
    with more show ?thesis by (simp add: flog2_ratio_def Let_def)
  qed
qed

lemma flog2_unique:
  assumes "2 ^ k \<le> n" "n < 2 ^ Suc k"
  shows "flog2 n = k"
proof -
  have "0 < n" using assms(1) by (cases n) auto
  note b = flog2_bounds [OF this]
  have "(2 :: nat) ^ k < 2 ^ Suc (flog2 n)" "(2 :: nat) ^ flog2 n < 2 ^ Suc k" using assms b by linarith+
  then show ?thesis using two_power_less [of k "Suc (flog2 n)"] two_power_less [of "flog2 n" "Suc k"] by simp
qed

lemma stod_ratio_exact:
  assumes s: "0 < s" and d: "0 < d" and eq: "n * 2 ^ nat (- q) = s * (d * 2 ^ nat q)"
    and range: "2 ^ 52 \<le> s \<and> s < 2 ^ 53 \<and> - 1074 \<le> q \<and> q \<le> 971 \<or> s < 2 ^ 52 \<and> q = - 1074"
  shows "stod_ratio neg n d = Inr (d64_make neg (nat (q + 1074) * 2 ^ 52 + s))"
proof -
  let ?u = "d * 2 ^ nat q"
  have u: "0 < ?u" using d by simp
  have n: "0 < n" using eq s u by (metis gr0I mult_is_0 not_gr0)
  have fs: "2 ^ flog2 s \<le> s" "s < 2 * 2 ^ flog2 s" using flog2_bounds [OF s] by auto
  have pow: "d * 2 ^ (flog2 s + nat q) = 2 ^ flog2 s * ?u" by (simp add: power_add mult.commute mult.left_commute)
  have "2 ^ flog2 s * ?u \<le> s * ?u" "s * ?u < 2 * 2 ^ flog2 s * ?u"
    using fs u by (simp_all only: mult_le_mono1 mult_less_cancel2 simp_thms)
  then have "flog2_ratio n d = int (flog2 s + nat q) - int (nat (- q))"
    by (intro flog2_ratio_unique [OF n d]) (simp_all only: eq pow mult.assoc)
  then have e: "flog2_ratio n d = int (flog2 s) + q" by simp
  have e1: "max (int (flog2 s) + q) (- 1022) = q + 52"
  proof (cases "2 ^ 52 \<le> s")
    case True
    then have "flog2 s = 52" using range by (intro flog2_unique) auto
    then show ?thesis using True range by auto
  next
    case False
    then have "(2 :: nat) ^ flog2 s < 2 ^ 52" using fs(1) by linarith
    then have "flog2 s < 52" by (rule two_power_less)
    then show ?thesis using False range by auto
  qed
  have r: "round_at q n d = s" unfolding round_at_def eq by (rule round_even_mult [OF u])
  have x: "(n * 2 ^ nat (- q)) mod ?u = 0" unfolding eq by simp
  have "nat (q + 1074) * 2 ^ 52 + s < d64_infinity_mag"
  proof -
    have "nat (q + 1074) \<le> 2045" using range by auto
    then have "nat (q + 1074) * 2 ^ 52 \<le> 2045 * 2 ^ 52" by (rule mult_le_mono1)
    moreover have "s < 2 ^ 53" using range by auto
    ultimately show ?thesis by (simp add: d64_infinity_mag_def)
  qed
  then have m: "\<not> d64_infinity_mag \<le> nat (q + 1074) * 2 ^ 52 + s" by simp
  have q: "q + 52 - 52 = q" "q + 52 + 1022 = q + 1074" and "n \<noteq> 0" using n by simp_all
  then show ?thesis by (simp only: stod_ratio_def Let_def e e1 q r x m simp_thms if_False)
qed

lemma d64_make_eq: "d64_make (d64_neg d) (d64_mag d) = d"
proof -
  obtain w where d: "d = D64 w" by (cases d)
  have "0x7FFFFFFFFFFFFFFF = (mask 63 :: 64 word)" by (simp add: mask_eq_exp_minus_1)
  then have m: "word_of_nat (d64_mag (D64 w)) = w AND mask 63"
    by (simp only: d64_mag_def double.sel of_nat_unat ucast_id)
  have "(if bit w 63 then set_bit 63 (w AND mask 63) else w AND mask 63) = w"
  proof (rule bit_word_eqI)
    fix i assume "i < LENGTH(64)"
    then have "i = 63 \<or> i < 63" by auto
    then show "bit (if bit w 63 then set_bit 63 (w AND mask 63) else w AND mask 63) i = bit w i"
      by (auto simp: bit_simps)
  qed
  then show ?thesis by (simp add: d64_make_def m d64_neg_def d split: if_splits)
qed

lemma d64_parts_mag: "nat (snd (d64_parts d) + 1074) * 2 ^ 52 + fst (d64_parts d) = d64_mag d"
proof -
  define e f where "e = d64_mag d div 2 ^ 52" and "f = d64_mag d mod 2 ^ 52"
  have "d64_mag d = e * 2 ^ 52 + f" unfolding e_def f_def by (simp only: div_mult_mod_eq)
  moreover have "d64_parts d = (if e = 0 then (f, - 1074) else (2 ^ 52 + f, int e - 1075))"
    by (simp add: d64_parts_def e_def f_def Let_def)
  ultimately show ?thesis by (cases e) auto
qed

lemma d64_parts_range:
  assumes "d64_finite d" "(s, q) = d64_parts d"
  shows "2 ^ 52 \<le> s \<and> s < 2 ^ 53 \<and> - 1074 \<le> q \<and> q \<le> 971 \<or> s < 2 ^ 52 \<and> q = - 1074"
proof -
  have "d64_mag d < 2047 * 2 ^ 52"
    using assms(1) by (simp add: d64_finite_def d64_infinity_mag_def)
  then have "d64_mag d div 2 ^ 52 < 2047" by (rule less_mult_imp_div_less)
  then have "d64_mag d div 2 ^ 52 \<le> 2046" by simp
  moreover have "d64_mag d mod 2 ^ 52 < 2 ^ 52" by simp
  ultimately show ?thesis using assms(2) by (auto simp: d64_parts_def Let_def split: if_splits)
qed

lemma length_dec_digits: "n < 10 ^ k \<Longrightarrow> 0 < k \<Longrightarrow> length (dec_digits n) \<le> k"
proof (induction n arbitrary: k rule: dec_digits.induct)
  case (1 n)
  show ?case
  proof (cases "n < 10")
    case True
    then show ?thesis using 1 by (subst dec_digits.simps) simp
  next
    case False
    then obtain j where k: "k = Suc j" "0 < j" using "1.prems" by (cases k; cases "k - 1") auto
    have "n div 10 < 10 ^ j" using "1.prems"(1) k by (simp add: less_mult_imp_div_less mult.commute)
    then show ?thesis using "1.IH" [OF False] k False by (subst dec_digits.simps) simp
  qed
qed

lemma zero_pad_length: "length ds \<le> k \<Longrightarrow> length (zero_pad k ds) = k"
  by (simp add: zero_pad_def)

lemma zero_pad_digits: "digits_text ds \<Longrightarrow> digits_text (zero_pad k ds)"
  by (auto simp: zero_pad_def digits_text_def list_all_iff is_digit_def char_code_def)

lemma point_not_digit [simp]: "\<not> is_digit CHR ''.''"
  by (simp add: is_digit_def char_code_def)

text \<open>Digits, a point and digits are read as a ratio.\<close>

lemma split_double_text:
  assumes "digits_text a" "digits_text b"
  shows "takeWhile is_digit (a @ CHR ''.'' # b) = a" "dropWhile is_digit (a @ CHR ''.'' # b) = CHR ''.'' # b"
  using assms by (auto simp: digits_text_def list_all_iff takeWhile_append dropWhile_append)

lemma stod_text:
  assumes "digits_text a" "digits_text b"
  shows "stod ((if neg then [CHR ''-''] else []) @ a @ CHR ''.'' # b) = stod_ratio neg (dec_value (a @ b)) (10 ^ length b)"
    and "double_text ((if neg then [CHR ''-''] else []) @ a @ CHR ''.'' # b)"
  using assms by (simp_all add: stod_def double_text_def split_double_text takeWhile_digits)

lemma show_double_text:
  assumes "(s, q) = d64_parts d"
  obtains a b where "digits_text a" "digits_text b"
    "show_double d = (if d64_neg d then [CHR ''-''] else []) @ a @ CHR ''.'' # b"
    "dec_value (a @ b) * 2 ^ nat (- q) = s * (10 ^ length b * 2 ^ nat q)"
proof (cases "0 \<le> q")
  case True
  have "digits_text ''0''" by (simp add: digits_text_def is_digit_def char_code_def)
  moreover have "dec_value (dec_digits (s * 2 ^ nat q) @ ''0'') = s * 2 ^ nat q * 10"
    by (simp add: dec_value_append dec_value_digits) (simp add: dec_value_def)
  ultimately show ?thesis
    using that [of "dec_digits (s * 2 ^ nat q)" "''0''"] True
    by (simp add: show_double_def Let_def flip: assms)
next
  case False
  define k where "k = nat (- q)"
  define b where "b = zero_pad k (dec_digits ((s mod 2 ^ k) * 5 ^ k))"
  have k: "0 < k" using False by (simp add: k_def)
  have "(s mod 2 ^ k) * 5 ^ k < 2 ^ k * 5 ^ k" by simp
  also have "\<dots> = 10 ^ k" by (simp flip: power_mult_distrib)
  finally have l: "length b = k" unfolding b_def using k by (intro zero_pad_length length_dec_digits)
  have b: "digits_text b" "dec_value b = (s mod 2 ^ k) * 5 ^ k"
    unfolding b_def by (simp_all add: zero_pad_digits dec_value_pad dec_value_digits)
  have ten: "(10 :: nat) ^ k = 2 ^ k * 5 ^ k" by (simp flip: power_mult_distrib)
  have "dec_value (dec_digits (s div 2 ^ k) @ b) = (s div 2 ^ k * 2 ^ k + s mod 2 ^ k) * 5 ^ k"
    by (simp only: dec_value_append dec_value_digits l b(2) ten distrib_right mult.assoc)
  also have "\<dots> = s * 5 ^ k" by (simp only: div_mult_mod_eq)
  finally have "dec_value (dec_digits (s div 2 ^ k) @ b) * 2 ^ k = s * 10 ^ k" by (simp add: ten)
  moreover have "nat q = 0" using False by simp
  ultimately show ?thesis
    using that [of "dec_digits (s div 2 ^ k)" b] False b(1) l
    by (simp add: show_double_def Let_def k_def b_def flip: assms)
qed

lemma stod_show_double:
  assumes "d64_finite d"
  shows "stod (show_double d) = Inr d" "double_text (show_double d)"
proof -
  obtain s q where sq: "(s, q) = d64_parts d" by (cases "d64_parts d") simp
  obtain a b where ab: "digits_text a" "digits_text b"
      "show_double d = (if d64_neg d then [CHR ''-''] else []) @ a @ CHR ''.'' # b"
      "dec_value (a @ b) * 2 ^ nat (- q) = s * (10 ^ length b * 2 ^ nat q)"
    using show_double_text [OF sq] .
  show "double_text (show_double d)" using stod_text(2) [OF ab(1,2)] by (simp add: ab(3))
  have mag: "nat (q + 1074) * 2 ^ 52 + s = d64_mag d" using d64_parts_mag [of d] sq by (metis fst_conv snd_conv)
  have "stod_ratio (d64_neg d) (dec_value (a @ b)) (10 ^ length b) = Inr d"
  proof (cases "s = 0")
    case True
    then have "dec_value (a @ b) = 0" using ab(4) by simp
    moreover have "d64_mag d = 0" using True d64_parts_range [OF assms sq] mag by auto
    ultimately show ?thesis using d64_make_eq [of d] by (simp add: stod_ratio_def)
  next
    case False
    then show ?thesis
      using stod_ratio_exact [OF _ _ ab(4) d64_parts_range [OF assms sq]] d64_make_eq [of d] mag by simp
  qed
  then show "stod (show_double d) = Inr d" using stod_text(1) [OF ab(1,2), of "d64_neg d"] by (simp add: ab(3))
qed

end
