(* ===== verification/Lexer.thy ===== *)
theory Lexer
  imports Text_Num
begin

text \<open>
  The SQL lexer of \<open>src/parser/lexer.cpp\<close> with the tokens of \<open>include/parser/token.hpp\<close>:
  the state is the input and the three counters of \<open>Lexer\<close>, one definition per method, and
  \<open>next_token\<close> is \<open>Lexer::NextToken\<close>. Characters are classified as in the C locale.

  The lemmas describe a lexer that has read the first \<open>n\<close> characters of its input as the
  state \<open>lexer_at s n\<close>; every method moves from one such state to a later one. The
  properties say that the tokens and the white space between them partition the input, and
  that the spelling of a sequence of tokens is read back as this sequence.
\<close>

section \<open>Tokens\<close>

datatype token_type =
    T_EndOfFile | T_Invalid
  | T_Identifier | T_StringLiteral | T_IntLiteral | T_DoubleLiteral
  | T_Create | T_Table | T_Insert | T_Into | T_Values | T_Select | T_From | T_Where
  | T_Key | T_Primary | T_Null | T_Not | T_And | T_Or | T_Is
  | T_Group | T_By | T_Order | T_Limit
  | T_Asc | T_Desc
  | T_StringType | T_Int64Type | T_DoubleType
  | T_Count | T_Sum | T_Avg | T_Min | T_Max
  | T_LParen | T_RParen | T_Comma | T_Semicolon | T_Star
  | T_Equal | T_NotEqual | T_Less | T_LessEqual | T_Greater | T_GreaterEqual

record token =
  tk_type :: token_type
  tk_position :: source_position
  tk_text :: string

section \<open>Characters\<close>

definition is_alpha :: "char \<Rightarrow> bool" where
  "is_alpha c \<longleftrightarrow> (65 \<le> char_code c \<and> char_code c \<le> 90) \<or> (97 \<le> char_code c \<and> char_code c \<le> 122)"

definition is_identifier_start :: "char \<Rightarrow> bool" where
  "is_identifier_start c \<longleftrightarrow> is_alpha c \<or> c = CHR ''_''"

definition is_identifier_part :: "char \<Rightarrow> bool" where
  "is_identifier_part c \<longleftrightarrow> is_alpha c \<or> is_digit c \<or> c = CHR ''_''"

definition newline :: char where
  "newline = CHR 0x0A"

definition quote :: char where
  "quote = CHR 0x27"

definition is_space :: "char \<Rightarrow> bool" where
  "is_space c \<longleftrightarrow> c = CHR '' '' \<or> c = CHR 0x09 \<or> c = newline \<or> c = CHR 0x0D"

definition to_upper_char :: "char \<Rightarrow> char" where
  "to_upper_char c =
     (if 97 \<le> char_code c \<and> char_code c \<le> 122 then char_of (char_code c - 32) else c)"

definition to_upper :: "string \<Rightarrow> string" where
  "to_upper text = map to_upper_char text"

text \<open>\<open>KeywordType\<close> compares the upper-case text with one keyword after the other.\<close>

definition keyword_table :: "(string \<times> token_type) list" where
  "keyword_table =
    [(''CREATE'', T_Create), (''TABLE'', T_Table), (''INSERT'', T_Insert), (''INTO'', T_Into),
     (''VALUES'', T_Values), (''SELECT'', T_Select), (''FROM'', T_From), (''WHERE'', T_Where),
     (''KEY'', T_Key), (''PRIMARY'', T_Primary), (''NULL'', T_Null), (''NOT'', T_Not),
     (''AND'', T_And), (''OR'', T_Or), (''IS'', T_Is), (''STRING'', T_StringType),
     (''INT64'', T_Int64Type), (''DOUBLE'', T_DoubleType), (''COUNT'', T_Count), (''SUM'', T_Sum),
     (''AVG'', T_Avg), (''MIN'', T_Min), (''MAX'', T_Max), (''GROUP'', T_Group), (''BY'', T_By),
     (''ORDER'', T_Order), (''LIMIT'', T_Limit), (''ASC'', T_Asc), (''DESC'', T_Desc)]"

definition keyword_type :: "string \<Rightarrow> token_type" where
  "keyword_type text =
     (case map_of keyword_table (to_upper text) of Some ty \<Rightarrow> ty | None \<Rightarrow> T_Identifier)"

section \<open>The lexer\<close>

record lexer =
  lx_input :: string
  lx_pos :: nat
  lx_line :: nat
  lx_position_in_line :: nat

definition Lexer :: "string \<Rightarrow> lexer" where
  "Lexer input = \<lparr>lx_input = input, lx_pos = 0, lx_line = 1, lx_position_in_line = 1\<rparr>"

definition is_at_end :: "lexer \<Rightarrow> bool" where
  "is_at_end lx \<longleftrightarrow> lx_pos lx \<ge> length (lx_input lx)"

definition current_char :: "lexer \<Rightarrow> char" where
  "current_char lx = (if is_at_end lx then CHR 0x00 else lx_input lx ! lx_pos lx)"

definition peek_char :: "lexer \<Rightarrow> char" where
  "peek_char lx =
     (if lx_pos lx + 1 \<ge> length (lx_input lx) then CHR 0x00
      else lx_input lx ! (lx_pos lx + 1))"

definition lx_advance :: "lexer \<Rightarrow> lexer" where
  "lx_advance lx =
     (if is_at_end lx then lx
      else
        let lx1 = (if current_char lx = newline
                   then lx\<lparr>lx_line := lx_line lx + 1, lx_position_in_line := 1\<rparr>
                   else lx\<lparr>lx_position_in_line := lx_position_in_line lx + 1\<rparr>)
        in lx1\<lparr>lx_pos := lx_pos lx + 1\<rparr>)"

lemma lx_advance_pos: "lx_pos (lx_advance lx) = (if is_at_end lx then lx_pos lx else lx_pos lx + 1)"
  and lx_advance_input [simp]: "lx_input (lx_advance lx) = lx_input lx"
  by (simp_all add: lx_advance_def Let_def)

text \<open>The loops \<open>while (!IsAtEnd() && P(CurrentChar())) Advance();\<close>.\<close>

function advance_while :: "(char \<Rightarrow> bool) \<Rightarrow> lexer \<Rightarrow> lexer" where
  "advance_while P lx =
     (if \<not> is_at_end lx \<and> P (current_char lx) then advance_while P (lx_advance lx) else lx)"
  by pat_completeness auto
termination
  by (relation "measure (\<lambda>(P, lx). length (lx_input lx) - lx_pos lx)")
     (auto simp: is_at_end_def lx_advance_pos)

declare advance_while.simps [simp del]

definition skip_whitespace :: "lexer \<Rightarrow> lexer" where
  "skip_whitespace lx = advance_while is_space lx"

definition current_position :: "lexer \<Rightarrow> source_position" where
  "current_position lx =
     \<lparr>sp_pos = lx_pos lx, sp_line = lx_line lx, sp_position_in_line = lx_position_in_line lx\<rparr>"

definition make_token :: "token_type \<Rightarrow> source_position \<Rightarrow> string \<Rightarrow> token" where
  "make_token ty start text = \<lparr>tk_type = ty, tk_position = start, tk_text = text\<rparr>"

text \<open>\<open>input_.substr(start, pos_ - start)\<close>\<close>

definition text_since :: "nat \<Rightarrow> lexer \<Rightarrow> string" where
  "text_since start lx = take (lx_pos lx - start) (drop start (lx_input lx))"

definition read_identifier_or_keyword :: "lexer \<Rightarrow> token \<times> lexer" where
  "read_identifier_or_keyword lx =
     (let start = current_position lx;
          lx1 = advance_while is_identifier_part lx;
          text = text_since (lx_pos lx) lx1
      in (make_token (keyword_type text) start text, lx1))"

definition read_number :: "lexer \<Rightarrow> (token \<times> lexer) res" where
  "read_number lx =
     (let start = current_position lx;
          lx1 = (if current_char lx = CHR ''-'' then lx_advance lx else lx)
      in if \<not> is_digit (current_char lx1) then
           Inl (ParseError ''ReadNumber called at invalid position'' start)
         else
           let lx2 = advance_while is_digit lx1
           in if \<not> is_at_end lx2 \<and> current_char lx2 = CHR ''.'' then
                let lx3 = lx_advance lx2
                in if \<not> is_digit (current_char lx3) then
                     Inl (ParseError ''ReadNumber called at invalid position'' start)
                   else
                     let lx4 = advance_while is_digit lx3
                     in Inr (make_token T_DoubleLiteral start (text_since (sp_pos start) lx4), lx4)
              else Inr (make_token T_IntLiteral start (text_since (sp_pos start) lx2), lx2))"

text \<open>The loop of \<open>ReadString\<close>; \<open>None\<close> when the input ends before the closing quote.\<close>

function read_string_loop :: "string \<Rightarrow> lexer \<Rightarrow> (string \<times> lexer) option" where
  "read_string_loop text lx =
     (if is_at_end lx then None
      else if current_char lx = quote then
        if peek_char lx = quote then read_string_loop (text @ [quote]) (lx_advance (lx_advance lx))
        else Some (text, lx_advance lx)
      else read_string_loop (text @ [current_char lx]) (lx_advance lx))"
  by pat_completeness auto
termination
  by (relation "measure (\<lambda>(text, lx). length (lx_input lx) - lx_pos lx)")
     (auto simp: is_at_end_def lx_advance_pos)

declare read_string_loop.simps [simp del]

definition read_string_literal :: "lexer \<Rightarrow> (token \<times> lexer) res" where
  "read_string_literal lx =
     (let start = current_position lx
      in if current_char lx \<noteq> quote then
           Inl (ParseError ''ReadString called at invalid position'' start)
         else case read_string_loop [] (lx_advance lx) of
             Some (text, lx1) \<Rightarrow> Inr (make_token T_StringLiteral start text, lx1)
           | None \<Rightarrow> Inl (ParseError ''Unterminated string literal'' start))"

definition next_token :: "lexer \<Rightarrow> (token \<times> lexer) res" where
  "next_token lx0 =
     (let lx = skip_whitespace lx0;
          start = current_position lx;
          cur = current_char lx
      in if is_at_end lx then Inr (make_token T_EndOfFile start [], lx)
      else if is_identifier_start cur then Inr (read_identifier_or_keyword lx)
      else if is_digit cur \<or> (cur = CHR ''-'' \<and> is_digit (peek_char lx)) then read_number lx
      else if cur = quote then read_string_literal lx
      else
        let lx1 = lx_advance lx
        in if cur = CHR ''('' then Inr (make_token T_LParen start ''('', lx1)
        else if cur = CHR '')'' then Inr (make_token T_RParen start '')'', lx1)
        else if cur = CHR '','' then Inr (make_token T_Comma start '','', lx1)
        else if cur = CHR '';'' then Inr (make_token T_Semicolon start '';'', lx1)
        else if cur = CHR ''*'' then Inr (make_token T_Star start ''*'', lx1)
        else if cur = CHR ''='' then Inr (make_token T_Equal start ''='', lx1)
        else if cur = CHR ''!'' then
          (if current_char lx1 = CHR ''='' then
             Inr (make_token T_NotEqual start ''!='', lx_advance lx1)
           else Inl (ParseError (''Unexpected character '' @ [quote, CHR ''!'', quote]) start))
        else if cur = CHR ''<'' then
          (if current_char lx1 = CHR ''='' then
             Inr (make_token T_LessEqual start ''<='', lx_advance lx1)
           else Inr (make_token T_Less start ''<'', lx1))
        else if cur = CHR ''>'' then
          (if current_char lx1 = CHR ''='' then
             Inr (make_token T_GreaterEqual start ''>='', lx_advance lx1)
           else Inr (make_token T_Greater start ''>'', lx1))
        else Inl (ParseError (''Unexpected character: '' @ [cur]) start))"

section \<open>The state after the first characters of the input\<close>

definition position_at :: "string \<Rightarrow> nat \<Rightarrow> source_position" where
  "position_at s n =
     \<lparr>sp_pos = n,
      sp_line = 1 + length (filter (\<lambda>c. c = newline) (take n s)),
      sp_position_in_line = 1 + length (takeWhile (\<lambda>c. c \<noteq> newline) (rev (take n s)))\<rparr>"

definition lexer_at :: "string \<Rightarrow> nat \<Rightarrow> lexer" where
  "lexer_at s n =
     \<lparr>lx_input = s, lx_pos = n, lx_line = sp_line (position_at s n),
      lx_position_in_line = sp_position_in_line (position_at s n)\<rparr>"

abbreviation slice :: "string \<Rightarrow> nat \<Rightarrow> nat \<Rightarrow> string" where
  "slice s k m \<equiv> take (m - k) (drop k s)"

lemma lexer_at_sel [simp]: "lx_input (lexer_at s n) = s" "lx_pos (lexer_at s n) = n"
  by (simp_all add: lexer_at_def)

lemma Lexer_at: "Lexer s = lexer_at s 0"
  by (simp add: Lexer_def lexer_at_def position_at_def)

lemma current_position_at [simp]: "current_position (lexer_at s n) = position_at s n"
  by (simp add: current_position_def lexer_at_def position_at_def)

lemma position_at_pos [simp]: "sp_pos (position_at s n) = n"
  by (simp add: position_at_def)

lemma is_at_end_at [simp]: "is_at_end (lexer_at s n) \<longleftrightarrow> length s \<le> n"
  by (simp add: is_at_end_def)

lemma current_char_at: "n < length s \<Longrightarrow> current_char (lexer_at s n) = s ! n"
  by (simp add: current_char_def)

lemma current_char_drop: "drop n s = c # cs \<Longrightarrow> current_char (lexer_at s n) = c"
  by (metis current_char_at drop_eq_Nil2 hd_drop_conv_nth linorder_not_le list.sel(1) list.simps(3))

lemma peek_char_drop: "drop n s = c # d # cs \<Longrightarrow> peek_char (lexer_at s n) = d"
proof -
  assume d: "drop n s = c # d # cs"
  then have "length s - n = Suc (Suc (length cs))" by (metis length_Cons length_drop)
  moreover have "s ! (n + 1) = d" using d by (metis nth_Cons_0 nth_Cons_Suc nth_drop One_nat_def leI drop_eq_Nil2 list.simps(3) less_imp_le)
  ultimately have "n + 1 < length s" "s ! (n + 1) = d" by simp_all
  then show ?thesis by (simp add: peek_char_def)
qed

lemma peek_char_drop_end: "drop n s = [c] \<Longrightarrow> peek_char (lexer_at s n) = CHR 0x00"
  by (simp add: peek_char_def) (metis One_nat_def Suc_eq_plus1 diff_is_0_eq diff_diff_left length_Cons length_drop list.size(3) order_refl)

lemma lx_advance_at [simp]: "n < length s \<Longrightarrow> lx_advance (lexer_at s n) = lexer_at s (Suc n)"
  by (simp add: lx_advance_def current_char_at Let_def)
     (auto simp: lexer_at_def position_at_def take_Suc_conv_app_nth)

lemma lx_advance_at_end: "length s \<le> n \<Longrightarrow> lx_advance (lexer_at s n) = lexer_at s n"
  by (simp add: lx_advance_def)

lemma lx_advance_drop: "drop n s = c # cs \<Longrightarrow> lx_advance (lexer_at s n) = lexer_at s (Suc n)"
  by (metis drop_eq_Nil2 list.simps(3) lx_advance_at not_le)

lemma drop_Suc_Cons: "drop n s = c # cs \<Longrightarrow> drop (Suc n) s = cs"
  by (metis drop_Suc drop_tl list.sel(3))

lemma drop_append_length: "drop n s = xs @ ys \<Longrightarrow> drop (n + length xs) s = ys"
  by (metis add.commute append_eq_conv_conj drop_drop)

lemma advance_while_at:
  "n \<le> length s \<Longrightarrow> advance_while P (lexer_at s n) = lexer_at s (n + length (takeWhile P (drop n s)))"
proof (induction "length s - n" arbitrary: n)
  case 0
  then show ?case by (simp add: advance_while.simps [of P "lexer_at s n"])
next
  case (Suc m)
  then have n: "n < length s" by simp
  then have d: "drop n s = s ! n # drop (Suc n) s" by (simp add: Cons_nth_drop_Suc)
  show ?case
  proof (cases "P (s ! n)")
    case True
    have "advance_while P (lexer_at s n) = advance_while P (lexer_at s (Suc n))"
      using n True by (simp add: advance_while.simps [of P "lexer_at s n"] current_char_at)
    also have "\<dots> = lexer_at s (Suc n + length (takeWhile P (drop (Suc n) s)))"
      using Suc by (intro Suc.hyps(1)) auto
    finally show ?thesis using d True by simp
  next
    case False
    then show ?thesis using n d by (simp add: advance_while.simps [of P "lexer_at s n"] current_char_at)
  qed
qed

lemma text_since_at [simp]: "text_since k (lexer_at s m) = slice s k m"
  by (simp add: text_since_def)

lemma length_takeWhile_drop: "n \<le> length s \<Longrightarrow> n + length (takeWhile P (drop n s)) \<le> length s"
  using length_takeWhile_le [of P "drop n s"] by simp

lemma take_length_takeWhile: "take (length (takeWhile P xs)) xs = takeWhile P xs"
  by (metis takeWhile_eq_take)

lemma slice_takeWhile: "slice s n (n + length (takeWhile P (drop n s))) = takeWhile P (drop n s)"
  by (simp add: take_length_takeWhile)

section \<open>Spellings\<close>

text \<open>A quote inside a string literal is written twice.\<close>

fun double_quotes :: "string \<Rightarrow> string" where
  "double_quotes [] = []"
| "double_quotes (c # cs) = (if c = quote then [quote, quote] else [c]) @ double_quotes cs"

definition spelling :: "token_type \<times> string \<Rightarrow> string" where
  "spelling t = (case t of (ty, text) \<Rightarrow>
     if ty = T_StringLiteral then quote # double_quotes text @ [quote] else text)"

lemma read_string_loop_at:
  assumes "drop n s = double_quotes str @ quote # rest" "rest = [] \<or> hd rest \<noteq> quote"
  shows "read_string_loop acc (lexer_at s n) =
     Some (acc @ str, lexer_at s (n + length (double_quotes str) + 1))"
  using assms(1)
proof (induction str arbitrary: n acc)
  case Nil
  then have d: "drop n s = quote # rest" by simp
  then have "n < length s" by (metis drop_eq_Nil2 list.simps(3) not_le)
  moreover have "peek_char (lexer_at s n) \<noteq> quote"
  proof (cases rest)
    case Nil
    then show ?thesis using peek_char_drop_end [of n s quote] d by (simp add: quote_def)
  next
    case (Cons r rs)
    then show ?thesis using peek_char_drop [of n s quote r rs] d assms(2) by simp
  qed
  ultimately show ?case
    by (simp add: read_string_loop.simps [of acc "lexer_at s n"] current_char_drop [OF d])
next
  case (Cons c cs)
  show ?case
  proof (cases "c = quote")
    case True
    let ?r = "double_quotes cs @ quote # rest"
    have d: "drop n s = quote # quote # ?r" using Cons.prems True by simp
    then have d2: "drop (Suc (Suc n)) s = ?r" by (intro drop_Suc_Cons [of "Suc n" s quote]) (rule drop_Suc_Cons)
    have n: "Suc n < length s" using drop_Suc_Cons [OF d] by (metis drop_eq_Nil2 list.simps(3) not_le)
    have "read_string_loop acc (lexer_at s n) = read_string_loop (acc @ [quote]) (lexer_at s (Suc (Suc n)))"
      using n by (simp add: read_string_loop.simps [of acc "lexer_at s n"] current_char_drop [OF d] peek_char_drop [OF d])
    then show ?thesis using Cons.IH [OF d2, of "acc @ [quote]"] True by simp
  next
    case False
    then have d: "drop n s = c # double_quotes cs @ quote # rest" using Cons.prems by simp
    then have n: "n < length s" by (metis drop_eq_Nil2 list.simps(3) not_le)
    have "read_string_loop acc (lexer_at s n) = read_string_loop (acc @ [c]) (lexer_at s (Suc n))"
      using n False by (simp add: read_string_loop.simps [of acc "lexer_at s n"] current_char_drop [OF d])
    then show ?thesis using Cons.IH [OF drop_Suc_Cons [OF d], of "acc @ [c]"] False by simp
  qed
qed

lemma read_string_loop_Some:
  "read_string_loop acc (lexer_at s n) = Some (text, lx) \<Longrightarrow>
     \<exists>t rest. text = acc @ t \<and> drop n s = double_quotes t @ quote # rest \<and>
       lx = lexer_at s (n + length (double_quotes t) + 1)"
proof (induction "length s - n" arbitrary: n acc rule: less_induct)
  case less
  have n: "n < length s" using less.prems by (auto simp: read_string_loop.simps [of acc] split: if_splits)
  then have d: "drop n s = s ! n # drop (Suc n) s" by (simp add: Cons_nth_drop_Suc)
  consider (other) "s ! n \<noteq> quote" | (two) "s ! n = quote" "peek_char (lexer_at s n) = quote"
    | (one) "s ! n = quote" "peek_char (lexer_at s n) \<noteq> quote" by blast
  then show ?case
  proof cases
    case other
    have "read_string_loop (acc @ [s ! n]) (lexer_at s (Suc n)) = Some (text, lx)"
      using less.prems n other by (simp add: read_string_loop.simps [of acc] current_char_at)
    then obtain t rest where t: "text = acc @ s ! n # t" "drop (Suc n) s = double_quotes t @ quote # rest"
        "lx = lexer_at s (Suc n + length (double_quotes t) + 1)"
      using less.hyps [of "Suc n" "acc @ [s ! n]"] diff_less_mono2 [OF lessI n] by auto
    then show ?thesis using d other by (intro exI [of _ "s ! n # t"] exI [of _ rest]) auto
  next
    case two
    have n2: "Suc n < length s"
      using two by (auto simp: peek_char_def quote_def split: if_splits)
    then have d2: "drop n s = quote # quote # drop (Suc (Suc n)) s"
      using two d Cons_nth_drop_Suc [OF n2] by (auto simp: peek_char_def)
    have "read_string_loop (acc @ [quote]) (lexer_at s (Suc (Suc n))) = Some (text, lx)"
      using less.prems n2 two by (simp add: read_string_loop.simps [of acc] current_char_at)
    then obtain t rest where t: "text = acc @ quote # t" "drop (Suc (Suc n)) s = double_quotes t @ quote # rest"
        "lx = lexer_at s (Suc (Suc n) + length (double_quotes t) + 1)"
      using less.hyps [of "Suc (Suc n)" "acc @ [quote]"] diff_less_mono2 [of n "Suc (Suc n)" "length s"] n by auto
    then show ?thesis using d2 by (intro exI [of _ "quote # t"] exI [of _ rest]) auto
  next
    case one
    then show ?thesis
      using less.prems n d by (intro exI [of _ "[]"] exI [of _ "drop (Suc n) s"]) (auto simp: read_string_loop.simps [of acc] current_char_at)
  qed
qed

section \<open>Tokens are slices of the input\<close>

definition token_key :: "token \<Rightarrow> token_type \<times> string" where
  "token_key tok = (tk_type tok, tk_text tok)"

lemma make_token_sel [simp]:
  "tk_type (make_token ty p t) = ty" "tk_position (make_token ty p t) = p" "tk_text (make_token ty p t) = t"
  "token_key (make_token ty p t) = (ty, t)"
  by (simp_all add: make_token_def token_key_def)

text \<open>What a token that starts at \<open>k\<close> and ends before \<open>m\<close> says of the input.\<close>

definition token_slice :: "string \<Rightarrow> nat \<Rightarrow> nat \<Rightarrow> token \<Rightarrow> bool" where
  "token_slice s k m tok \<longleftrightarrow>
     k < m \<and> m \<le> length s \<and> tk_type tok \<noteq> T_EndOfFile \<and> tk_position tok = position_at s k \<and>
     slice s k m = spelling (token_key tok)"

lemma keyword_type_cases:
  "keyword_type t \<notin> {T_EndOfFile, T_Invalid, T_StringLiteral, T_IntLiteral, T_DoubleLiteral}"
proof (cases "map_of keyword_table (to_upper t)")
  case (Some ty)
  then have "(to_upper t, ty) \<in> set keyword_table" by (rule map_of_SomeD)
  then have "ty \<in> snd ` set keyword_table" by force
  then show ?thesis using Some by (auto simp: keyword_type_def keyword_table_def)
qed (simp add: keyword_type_def)

lemma read_identifier_slice:
  assumes k: "k < length s" and c: "is_identifier_start (s ! k)"
    and r: "read_identifier_or_keyword (lexer_at s k) = (tok, lx)"
  shows "\<exists>m. lx = lexer_at s m \<and> token_slice s k m tok"
proof -
  let ?w = "takeWhile is_identifier_part (drop k s)"
  have d: "drop k s = s ! k # drop (Suc k) s" using k by (simp add: Cons_nth_drop_Suc)
  have w: "?w \<noteq> []" using c d by (auto simp: is_identifier_part_def is_identifier_start_def)
  have a: "advance_while is_identifier_part (lexer_at s k) = lexer_at s (k + length ?w)"
    using k by (intro advance_while_at) simp
  have "tok = make_token (keyword_type ?w) (position_at s k) ?w" "lx = lexer_at s (k + length ?w)"
    using r by (auto simp: read_identifier_or_keyword_def Let_def a take_length_takeWhile)
  then show ?thesis
    using keyword_type_cases [of ?w] w k length_takeWhile_drop [of k s is_identifier_part]
    by (intro exI [of _ "k + length ?w"]) (auto simp: token_slice_def spelling_def take_length_takeWhile)
qed

lemma digit_not_sign [simp]: "is_digit c \<Longrightarrow> c \<noteq> CHR ''-''" "is_digit c \<Longrightarrow> c \<noteq> CHR ''.''"
  by (auto simp: is_digit_def char_code_def)

lemma not_digit_sign [simp]: "\<not> is_digit CHR ''-''" "\<not> is_digit CHR ''.''"
  by (simp_all add: is_digit_def char_code_def)

lemma not_digit_nul [simp]: "\<not> is_digit CHR 0x00"
  by (simp add: is_digit_def char_code_def)

lemma current_digit_in:
  "is_digit (current_char (lexer_at s k)) \<Longrightarrow> k < length s"
  by (rule ccontr) (simp add: current_char_def)

lemma read_number_slice:
  assumes "k < length s" and r: "read_number (lexer_at s k) = Inr (tok, lx)"
  shows "\<exists>m. lx = lexer_at s m \<and> token_slice s k m tok"
proof -
  define k1 where "k1 = (if s ! k = CHR ''-'' then Suc k else k)"
  have l1: "(if current_char (lexer_at s k) = CHR ''-'' then lx_advance (lexer_at s k) else lexer_at s k) = lexer_at s k1"
    using assms(1) by (simp add: k1_def current_char_at)
  have k1: "k \<le> k1" by (simp add: k1_def)
  have dig: "is_digit (current_char (lexer_at s k1))"
    using r by (auto simp: read_number_def Let_def l1 split: if_splits)
  then have n1: "k1 < length s" by (rule current_digit_in)
  then have "takeWhile is_digit (drop k1 s) \<noteq> []"
    using dig by (simp add: current_char_at flip: Cons_nth_drop_Suc)
  then obtain k2 where k2: "advance_while is_digit (lexer_at s k1) = lexer_at s k2" "k1 < k2" "k2 \<le> length s"
    using n1 advance_while_at [of k1 s is_digit] length_takeWhile_drop [of k1 s is_digit] by auto
  show ?thesis
  proof (cases "k2 < length s \<and> current_char (lexer_at s k2) = CHR ''.''")
    case False
    then have "tok = make_token T_IntLiteral (position_at s k) (slice s k k2)" "lx = lexer_at s k2"
      using r dig by (auto simp: read_number_def Let_def l1 k2(1))
    then show ?thesis using k1 k2 by (intro exI [of _ k2]) (auto simp: token_slice_def spelling_def)
  next
    case True
    then have dig3: "is_digit (current_char (lexer_at s (Suc k2)))"
      using r dig by (auto simp: read_number_def Let_def l1 k2(1) split: if_splits)
    then have n3: "Suc k2 < length s" by (rule current_digit_in)
    then obtain k4 where k4: "advance_while is_digit (lexer_at s (Suc k2)) = lexer_at s k4" "Suc k2 \<le> k4" "k4 \<le> length s"
      using advance_while_at [of "Suc k2" s is_digit] length_takeWhile_drop [of "Suc k2" s is_digit] by auto
    have "tok = make_token T_DoubleLiteral (position_at s k) (slice s k k4)" "lx = lexer_at s k4"
      using r dig dig3 True by (auto simp: read_number_def Let_def l1 k2(1) k4(1))
    then show ?thesis using k1 k2 k4 by (intro exI [of _ k4]) (auto simp: token_slice_def spelling_def)
  qed
qed

lemma read_string_slice:
  assumes "k < length s" "s ! k = quote" and r: "read_string_literal (lexer_at s k) = Inr (tok, lx)"
  shows "\<exists>m. lx = lexer_at s m \<and> token_slice s k m tok"
proof -
  obtain t where l: "read_string_loop [] (lexer_at s (Suc k)) = Some (t, lx)"
      and tok: "tok = make_token T_StringLiteral (position_at s k) t"
    using assms by (auto simp: read_string_literal_def Let_def current_char_at split: option.splits)
  obtain rest where d: "drop (Suc k) s = double_quotes t @ quote # rest"
      and lx: "lx = lexer_at s (Suc k + length (double_quotes t) + 1)"
    using read_string_loop_Some [OF l] by auto
  have dk: "drop k s = (quote # double_quotes t @ [quote]) @ rest"
    using Cons_nth_drop_Suc [OF assms(1)] assms(2) d by simp
  then have "length s - k = length ((quote # double_quotes t @ [quote]) @ rest)" by (metis length_drop)
  then have "Suc k + length (double_quotes t) + 1 \<le> length s" by simp
  moreover have "slice s k (Suc k + length (double_quotes t) + 1) = quote # double_quotes t @ [quote]"
    by (simp add: dk)
  ultimately show ?thesis
    using lx tok by (intro exI [of _ "Suc k + length (double_quotes t) + 1"]) (auto simp: token_slice_def spelling_def)
qed

definition next_start :: "string \<Rightarrow> nat \<Rightarrow> nat" where
  "next_start s n = n + length (takeWhile is_space (drop n s))"

lemma skip_whitespace_at: "n \<le> length s \<Longrightarrow> skip_whitespace (lexer_at s n) = lexer_at s (next_start s n)"
  by (simp add: skip_whitespace_def advance_while_at next_start_def)

lemma next_start_le: "n \<le> length s \<Longrightarrow> next_start s n \<le> length s"
  by (simp add: next_start_def length_takeWhile_drop)

lemma one_char_slice:
  assumes "k < length s" "s ! k = c" "ty \<noteq> T_EndOfFile" "ty \<noteq> T_StringLiteral"
  shows "\<exists>m. lexer_at s (Suc k) = lexer_at s m \<and> token_slice s k m (make_token ty (position_at s k) [c])"
  using assms by (intro exI [of _ "Suc k"]) (auto simp: token_slice_def spelling_def take_Suc hd_drop_conv_nth)

lemma two_char_slice:
  assumes "Suc k < length s" "s ! k = c" "s ! Suc k = d" "ty \<noteq> T_EndOfFile" "ty \<noteq> T_StringLiteral"
  shows "\<exists>m. lexer_at s (Suc (Suc k)) = lexer_at s m \<and> token_slice s k m (make_token ty (position_at s k) [c, d])"
proof -
  have "drop k s = c # d # drop (Suc (Suc k)) s"
    using assms Cons_nth_drop_Suc [of k s] Cons_nth_drop_Suc [of "Suc k" s] by simp
  then show ?thesis using assms by (intro exI [of _ "Suc (Suc k)"]) (auto simp: token_slice_def spelling_def)
qed

lemma current_char_in:
  "current_char (lexer_at s k) = c \<Longrightarrow> c \<noteq> CHR 0x00 \<Longrightarrow> k < length s \<and> s ! k = c"
  by (auto simp: current_char_def split: if_splits)

lemma current_equal_sign: "current_char (lexer_at s k) = CHR ''='' \<Longrightarrow> k < length s \<and> s ! k = CHR ''=''"
  by (rule current_char_in) (auto dest: arg_cong [of _ _ "of_char :: char \<Rightarrow> nat"])

lemma next_token_symbol:
  assumes k: "k < length s" and c: "\<not> is_identifier_start (s ! k)"
      "\<not> (is_digit (s ! k) \<or> s ! k = CHR ''-'' \<and> is_digit (peek_char (lexer_at s k)))" "s ! k \<noteq> quote"
    and n: "n \<le> length s" "next_start s n = k" and r: "next_token (lexer_at s n) = Inr (tok, lx)"
  shows "\<exists>m. lx = lexer_at s m \<and> token_slice s k m tok"
  using r k c
  by (auto simp: next_token_def skip_whitespace_at [OF n(1)] n(2) Let_def current_char_at
      split: if_splits dest!: current_equal_sign intro!: one_char_slice two_char_slice)

lemma next_token_slice:
  assumes n: "n \<le> length s" and r: "next_token (lexer_at s n) = Inr (tok, lx)"
  shows "if next_start s n = length s
         then tok = make_token T_EndOfFile (position_at s (length s)) [] \<and> lx = lexer_at s (length s)
         else \<exists>m. lx = lexer_at s m \<and> token_slice s (next_start s n) m tok"
proof (cases "next_start s n = length s")
  case True
  then show ?thesis using r by (simp add: next_token_def skip_whitespace_at [OF n] Let_def)
next
  case False
  let ?k = "next_start s n"
  have k: "?k < length s" using False next_start_le [OF n] by simp
  note unfolds = next_token_def skip_whitespace_at [OF n] Let_def current_char_at [OF k]
  consider (word) "is_identifier_start (s ! ?k)"
    | (number) "\<not> is_identifier_start (s ! ?k)" "is_digit (s ! ?k) \<or> s ! ?k = CHR ''-'' \<and> is_digit (peek_char (lexer_at s ?k))"
    | (string) "\<not> is_identifier_start (s ! ?k)" "\<not> (is_digit (s ! ?k) \<or> s ! ?k = CHR ''-'' \<and> is_digit (peek_char (lexer_at s ?k)))"
        "s ! ?k = quote"
    | (symbol) "\<not> is_identifier_start (s ! ?k)" "\<not> (is_digit (s ! ?k) \<or> s ! ?k = CHR ''-'' \<and> is_digit (peek_char (lexer_at s ?k)))"
        "s ! ?k \<noteq> quote" by blast
  then have "\<exists>m. lx = lexer_at s m \<and> token_slice s ?k m tok"
  proof cases
    case word
    then have "read_identifier_or_keyword (lexer_at s ?k) = (tok, lx)" using r k by (simp add: unfolds)
    with k word show ?thesis by (intro read_identifier_slice)
  next
    case number
    then have "read_number (lexer_at s ?k) = Inr (tok, lx)" using r k by (auto simp: unfolds)
    with k show ?thesis by (intro read_number_slice)
  next
    case string
    then have "read_string_literal (lexer_at s ?k) = Inr (tok, lx)" using r k by (auto simp: unfolds)
    with k string show ?thesis by (intro read_string_slice)
  next
    case symbol
    with k n r show ?thesis by (intro next_token_symbol) auto
  qed
  with False show ?thesis by simp
qed

lemma next_token_error:
  assumes n: "n \<le> length s" and r: "next_token (lexer_at s n) = Inl e"
  shows "\<exists>msg. e = ParseError msg (position_at s (next_start s n)) \<and> next_start s n < length s"
  using r next_start_le [OF n]
  by (auto simp: next_token_def skip_whitespace_at [OF n] Let_def read_number_def read_string_literal_def
      split: if_splits option.splits)

section \<open>Spelled tokens are read back\<close>

definition int_text :: "string \<Rightarrow> bool" where
  "int_text t \<longleftrightarrow> digits_text (strip_sign t)"

definition symbol_table :: "(token_type \<times> string) list" where
  "symbol_table =
    [(T_LParen, ''(''), (T_RParen, '')''), (T_Comma, '',''), (T_Semicolon, '';''), (T_Star, ''*''),
     (T_Equal, ''=''), (T_NotEqual, ''!=''), (T_Less, ''<''), (T_LessEqual, ''<=''),
     (T_Greater, ''>''), (T_GreaterEqual, ''>='')]"

definition word_text :: "string \<Rightarrow> bool" where
  "word_text t \<longleftrightarrow> t \<noteq> [] \<and> is_identifier_start (hd t) \<and> list_all is_identifier_part t"

definition token_ok :: "token_type \<times> string \<Rightarrow> bool" where
  "token_ok t = (case t of (ty, str) \<Rightarrow>
     if ty = T_StringLiteral then True
     else if ty = T_IntLiteral then int_text str
     else if ty = T_DoubleLiteral then double_text str
     else if ty \<in> set (map fst symbol_table) then (ty, str) \<in> set symbol_table
     else word_text str \<and> keyword_type str = ty)"

lemma space_not_part [simp]: "is_space c \<Longrightarrow> \<not> is_identifier_part c" "is_space c \<Longrightarrow> \<not> is_digit c"
    "is_space c \<Longrightarrow> c \<noteq> quote" "is_space c \<Longrightarrow> c \<noteq> CHR ''.''" "is_space c \<Longrightarrow> c \<noteq> CHR ''=''"
  by (auto simp: is_space_def is_identifier_part_def is_digit_def is_alpha_def char_code_def newline_def quote_def)

lemma identifier_start_not:
  "is_identifier_start c \<Longrightarrow> \<not> is_space c" "is_digit c \<Longrightarrow> \<not> is_identifier_start c"
  by (auto simp: is_space_def is_identifier_start_def is_digit_def is_alpha_def char_code_def newline_def)

definition spaced :: "string \<Rightarrow> bool" where
  "spaced rest \<longleftrightarrow> rest = [] \<or> is_space (hd rest)"

lemma takeWhile_spaced:
  assumes "list_all P t" "spaced rest" "\<And>c. is_space c \<Longrightarrow> \<not> P c"
  shows "takeWhile P (t @ rest) = t"
  using assms by (cases rest) (auto simp: spaced_def list_all_iff)

lemma current_char_spaced:
  assumes "drop k s = rest" "spaced rest" "\<not> is_space c" "c \<noteq> CHR 0x00"
  shows "current_char (lexer_at s k) \<noteq> c"
proof (cases rest)
  case Nil
  then show ?thesis using assms by (auto simp: current_char_def)
next
  case (Cons d ds)
  then show ?thesis using assms current_char_drop [of k s d ds] by (auto simp: spaced_def)
qed

lemma drop_length_le: "drop n s = xs @ ys \<Longrightarrow> n \<le> length s \<Longrightarrow> n + length xs \<le> length s"
  by (metis add_le_cancel_left add_diff_inverse_nat le_add1 length_append length_drop not_le)

lemma drop_not_Nil: "drop n s = c # cs \<Longrightarrow> n < length s"
  by (metis drop_eq_Nil2 list.simps(3) not_le)

lemma read_word_at:
  assumes "drop k s = t @ rest" "word_text t" "spaced rest"
  shows "read_identifier_or_keyword (lexer_at s k) =
     (make_token (keyword_type t) (position_at s k) t, lexer_at s (k + length t))"
proof -
  have k: "k \<le> length s" using assms by (cases t) (auto simp: word_text_def dest: drop_not_Nil)
  have "takeWhile is_identifier_part (drop k s) = t"
    using assms by (simp add: word_text_def takeWhile_spaced)
  then have "advance_while is_identifier_part (lexer_at s k) = lexer_at s (k + length t)"
    by (simp only: advance_while_at [OF k])
  then show ?thesis using assms(1) by (simp add: read_identifier_or_keyword_def Let_def)
qed

lemma advance_digits_at:
  assumes "drop k s = t @ rest" "k \<le> length s" "list_all is_digit t" "rest = [] \<or> \<not> is_digit (hd rest)"
  shows "advance_while is_digit (lexer_at s k) = lexer_at s (k + length t)"
proof -
  have "takeWhile is_digit (drop k s) = t"
    using assms by (cases rest) (auto simp: list_all_iff)
  then show ?thesis by (simp add: advance_while_at [OF assms(2)])
qed

lemma hd_spaced_not_digit: "spaced rest \<Longrightarrow> rest = [] \<or> \<not> is_digit (hd rest)"
  by (auto simp: spaced_def)

text \<open>After the sign, both kinds of numbers start with digits.\<close>

lemma read_number_sign:
  assumes "drop k s = t @ rest" "strip_sign t = u" "u \<noteq> []" "is_digit (hd u)"
  obtains k1 where "(if current_char (lexer_at s k) = CHR ''-'' then lx_advance (lexer_at s k) else lexer_at s k) = lexer_at s k1"
    "drop k1 s = u @ rest" "k1 < length s" "k1 + length u = k + length t"
proof -
  obtain c cs where t: "t = c # cs" using assms by (cases t) auto
  have d: "drop k s = c # cs @ rest" using assms(1) t by simp
  show ?thesis
  proof (cases "c = CHR ''-''")
    case True
    then have "drop (Suc k) s = u @ rest" using drop_Suc_Cons [OF d] assms(2) t by simp
    moreover have "Suc k < length s" using calculation assms(3) by (cases u) (auto dest: drop_not_Nil)
    ultimately show ?thesis
      using that [of "Suc k"] True assms(2) t current_char_drop [OF d] lx_advance_drop [OF d] by simp
  next
    case False
    then show ?thesis
      using that [of k] assms t d current_char_drop [OF d] drop_not_Nil [OF d] by simp
  qed
qed

lemma read_int_at:
  assumes "drop k s = t @ rest" "int_text t" "spaced rest"
  shows "read_number (lexer_at s k) = Inr (make_token T_IntLiteral (position_at s k) t, lexer_at s (k + length t))"
proof -
  let ?u = "strip_sign t"
  have u: "?u \<noteq> []" "is_digit (hd ?u)" "list_all is_digit ?u"
    using assms(2) by (cases ?u; auto simp: int_text_def digits_text_def)+
  obtain k1 where k1: "(if current_char (lexer_at s k) = CHR ''-'' then lx_advance (lexer_at s k) else lexer_at s k) = lexer_at s k1"
      "drop k1 s = ?u @ rest" "k1 < length s" "k1 + length ?u = k + length t"
    using read_number_sign [OF assms(1) refl u(1,2)] .
  have c: "is_digit (current_char (lexer_at s k1))"
    using current_char_drop [of k1 s "hd ?u" "tl ?u @ rest"] k1(2) u by (cases ?u) auto
  have a: "advance_while is_digit (lexer_at s k1) = lexer_at s (k + length t)"
    using advance_digits_at [OF k1(2) _ u(3) hd_spaced_not_digit [OF assms(3)]] k1(3,4) by simp
  have "drop (k + length t) s = rest" using assms(1) by (rule drop_append_length)
  then have "current_char (lexer_at s (k + length t)) \<noteq> CHR ''.''"
    using assms(3) by (rule current_char_spaced) (auto simp: is_space_def newline_def)
  then show ?thesis
    by (auto simp: read_number_def k1(1) c a Let_def assms(1))
qed

lemma read_double_at:
  assumes "drop k s = t @ rest" "double_text t" "spaced rest"
  shows "read_number (lexer_at s k) = Inr (make_token T_DoubleLiteral (position_at s k) t, lexer_at s (k + length t))"
proof -
  let ?u = "strip_sign t"
  define a where "a = takeWhile is_digit ?u"
  obtain b where b: "dropWhile is_digit ?u = CHR ''.'' # b" "digits_text b"
    using assms(2) by (auto simp: double_text_def Let_def split: list.splits)
  have ab: "?u = a @ CHR ''.'' # b" using b(1) takeWhile_dropWhile_id [of is_digit ?u] by (simp add: a_def)
  have a: "a \<noteq> []" "list_all is_digit a"
    using assms(2) by (auto simp: double_text_def a_def list_all_iff dest: set_takeWhileD)
  have u: "?u \<noteq> []" "is_digit (hd ?u)" using ab a by (auto simp: list_all_iff)
  obtain k1 where k1: "(if current_char (lexer_at s k) = CHR ''-'' then lx_advance (lexer_at s k) else lexer_at s k) = lexer_at s k1"
      "drop k1 s = ?u @ rest" "k1 < length s" "k1 + length ?u = k + length t"
    using read_number_sign [OF assms(1) refl u] .
  let ?k2 = "k1 + length a"
  have d1: "drop k1 s = a @ CHR ''.'' # b @ rest" using k1(2) ab by simp
  have c: "is_digit (current_char (lexer_at s k1))"
    using current_char_drop [of k1 s "hd ?u" "tl ?u @ rest"] k1(2) u by (cases ?u) auto
  have a1: "advance_while is_digit (lexer_at s k1) = lexer_at s ?k2"
    using k1(3) a(2) by (intro advance_digits_at [OF d1]) auto
  have d2: "drop ?k2 s = CHR ''.'' # b @ rest" using d1 by (rule drop_append_length)
  have d3: "drop (Suc ?k2) s = b @ rest" using d2 by (rule drop_Suc_Cons)
  have c3: "is_digit (current_char (lexer_at s (Suc ?k2)))"
    using current_char_drop [of "Suc ?k2" s "hd b" "tl b @ rest"] d3 b(2) by (cases b) (auto simp: digits_text_def)
  have "Suc ?k2 + length b = k + length t" using k1(4) ab by simp
  then have a3: "advance_while is_digit (lexer_at s (Suc ?k2)) = lexer_at s (k + length t)"
    using drop_not_Nil [OF d2] b(2) hd_spaced_not_digit [OF assms(3)]
    by (subst advance_digits_at [OF d3]) (auto simp: digits_text_def)
  show ?thesis
    using drop_not_Nil [OF d2]
    by (simp add: read_number_def k1(1) c a1 current_char_drop [OF d2] c3 a3 Let_def assms(1))
qed

lemma read_string_at:
  assumes "drop k s = (quote # double_quotes t @ [quote]) @ rest" "spaced rest"
  shows "read_string_literal (lexer_at s k) =
    Inr (make_token T_StringLiteral (position_at s k) t, lexer_at s (k + length (double_quotes t) + 2))"
proof -
  have d: "drop k s = quote # double_quotes t @ quote # rest" using assms(1) by simp
  have "rest = [] \<or> hd rest \<noteq> quote" using assms(2) by (auto simp: spaced_def)
  with drop_Suc_Cons [OF d]
  have "read_string_loop [] (lexer_at s (Suc k)) = Some ([] @ t, lexer_at s (Suc k + length (double_quotes t) + 1))"
    by (rule read_string_loop_at)
  then show ?thesis
    by (simp add: read_string_literal_def current_char_drop [OF d] lx_advance_drop [OF d] Let_def)
qed

lemma next_token_spaced:
  assumes "drop n s = ws @ c # cs" "list_all is_space ws" "\<not> is_space c"
  shows "next_start s n = n + length ws" "n + length ws < length s" "n \<le> length s" "drop (n + length ws) s = c # cs"
proof -
  show d: "drop (n + length ws) s = c # cs" using assms(1) by (rule drop_append_length)
  then show l: "n + length ws < length s" by (rule drop_not_Nil)
  then show "n \<le> length s" by simp
  have "takeWhile is_space (drop n s) = ws" using assms by (auto simp: list_all_iff takeWhile_append)
  then show "next_start s n = n + length ws" by (simp add: next_start_def)
qed

lemma next_token_start:
  assumes "drop n s = ws @ c # cs" "list_all is_space ws" "\<not> is_space c"
  shows "next_token (lexer_at s n) = next_token (lexer_at s (n + length ws))"
proof -
  note f = next_token_spaced [OF assms]
  have "next_start s (n + length ws) = n + length ws" using assms(3) f(4) by (simp add: next_start_def)
  then have "skip_whitespace (lexer_at s (n + length ws)) = skip_whitespace (lexer_at s n)"
    using f by (simp add: skip_whitespace_at)
  then show ?thesis by (simp add: next_token_def)
qed

lemma no_skip: "drop k s = c # cs \<Longrightarrow> \<not> is_space c \<Longrightarrow> skip_whitespace (lexer_at s k) = lexer_at s k"
  using drop_not_Nil [of k s c cs] by (simp add: skip_whitespace_at next_start_def)

lemma next_token_symbol_at:
  assumes "drop k s = str @ rest" "spaced rest" "(ty, str) \<in> set symbol_table"
  shows "next_token (lexer_at s k) = Inr (make_token ty (position_at s k) str, lexer_at s (k + length str))"
proof -
  obtain c cs where str: "str = c # cs" using assms(3) by (auto simp: symbol_table_def)
  have d: "drop k s = c # cs @ rest" using assms(1) str by simp
  have k: "k < length s" using d by (rule drop_not_Nil)
  have c: "\<not> is_space c" "\<not> is_identifier_start c" "\<not> is_digit c" "c \<noteq> CHR ''-''" "c \<noteq> quote"
    using assms(3) str
    by (auto simp: symbol_table_def is_space_def is_identifier_start_def is_alpha_def
        is_digit_def char_code_def newline_def quote_def)
  have sk: "skip_whitespace (lexer_at s k) = lexer_at s k" using d c(1) by (rule no_skip)
  have cd: "current_char (lexer_at s k) = c" using d by (rule current_char_drop)
  have d1: "drop (Suc k) s = cs @ rest" using d by (rule drop_Suc_Cons)
  show ?thesis
  proof (cases cs)
    case Nil
    then have "current_char (lexer_at s (Suc k)) \<noteq> CHR ''=''"
      using d1 assms(2) by (intro current_char_spaced) (auto simp: is_space_def newline_def)
    with Nil assms(3) str k c show ?thesis
      by (auto simp: next_token_def sk cd Let_def symbol_table_def)
  next
    case (Cons e es)
    have d2: "drop (Suc k) s = e # es @ rest" using d1 Cons by simp
    then have "Suc k < length s" "current_char (lexer_at s (Suc k)) = e"
      by (rule drop_not_Nil, rule current_char_drop)
    with Cons assms(3) str k c show ?thesis
      by (auto simp: next_token_def sk cd Let_def symbol_table_def)
  qed
qed

lemma next_token_word_at:
  assumes "drop k s = str @ rest" "word_text str" "spaced rest"
  shows "next_token (lexer_at s k) = Inr (make_token (keyword_type str) (position_at s k) str, lexer_at s (k + length str))"
proof -
  obtain c cs where str: "str = c # cs" "is_identifier_start c" using assms(2) by (cases str) (auto simp: word_text_def)
  have d: "drop k s = c # cs @ rest" using assms(1) str by simp
  show ?thesis
    using str identifier_start_not(1) [OF str(2)] drop_not_Nil [OF d] read_word_at [OF assms]
    by (simp add: next_token_def no_skip [OF d] current_char_drop [OF d] Let_def)
qed

lemma next_token_number_at:
  assumes "drop k s = str @ rest" "digits_text (strip_sign str) \<or> takeWhile is_digit (strip_sign str) \<noteq> []"
  shows "next_token (lexer_at s k) = read_number (lexer_at s k)"
proof -
  obtain c cs where str: "str = c # cs" using assms(2) by (cases str) (auto simp: digits_text_def)
  have d: "drop k s = c # cs @ rest" using assms(1) str by simp
  have c: "is_digit c \<or> c = CHR ''-'' \<and> (\<exists>e es. cs = e # es \<and> is_digit e)"
    using assms(2) str by (cases cs) (auto simp: digits_text_def split: if_splits)
  have "\<not> is_space c" "\<not> is_identifier_start c"
    using c identifier_start_not(2) [of c] by (auto simp: is_space_def newline_def is_identifier_start_def is_alpha_def char_code_def)
  moreover have "is_digit c \<or> c = CHR ''-'' \<and> is_digit (peek_char (lexer_at s k))"
    using c peek_char_drop [of k s c] d by auto
  ultimately show ?thesis
    using drop_not_Nil [OF d] by (simp add: next_token_def no_skip [OF d] current_char_drop [OF d] Let_def)
qed

lemma next_token_string_at:
  assumes "drop k s = (quote # double_quotes t @ [quote]) @ rest"
  shows "next_token (lexer_at s k) = read_string_literal (lexer_at s k)"
proof -
  have d: "drop k s = quote # double_quotes t @ quote # rest" using assms(1) by simp
  have q: "\<not> is_space quote" "\<not> is_identifier_start quote" "\<not> is_digit quote" "quote \<noteq> CHR ''-''"
    by (simp_all add: quote_def is_space_def newline_def is_identifier_start_def is_alpha_def is_digit_def char_code_def)
  show ?thesis
    using drop_not_Nil [OF d] q by (simp add: next_token_def no_skip [OF d] current_char_drop [OF d] Let_def)
qed

lemma next_token_at:
  assumes "drop k s = spelling (ty, str) @ rest" "token_ok (ty, str)" "spaced rest"
  shows "next_token (lexer_at s k) =
    Inr (make_token ty (position_at s k) str, lexer_at s (k + length (spelling (ty, str))))"
proof -
  consider (string) "ty = T_StringLiteral" | (int) "ty = T_IntLiteral" "int_text str"
    | (double) "ty = T_DoubleLiteral" "double_text str"
    | (symbol) "ty \<noteq> T_StringLiteral" "(ty, str) \<in> set symbol_table"
    | (word) "ty \<noteq> T_StringLiteral" "word_text str" "keyword_type str = ty"
    using assms(2) by (auto simp: token_ok_def split: if_splits)
  then show ?thesis
  proof cases
    case string
    then have "drop k s = (quote # double_quotes str @ [quote]) @ rest" using assms(1) by (simp add: spelling_def)
    from next_token_string_at [OF this] read_string_at [OF this assms(3)] string show ?thesis
      by (simp add: spelling_def)
  next
    case int
    then have d: "drop k s = str @ rest" using assms(1) by (simp add: spelling_def)
    show ?thesis
      using next_token_number_at [OF d] read_int_at [OF d int(2) assms(3)] int by (simp add: spelling_def int_text_def)
  next
    case double
    then have d: "drop k s = str @ rest" using assms(1) by (simp add: spelling_def)
    show ?thesis
      using next_token_number_at [OF d] read_double_at [OF d double(2) assms(3)] double
      by (simp add: spelling_def double_text_def)
  next
    case symbol
    then show ?thesis using next_token_symbol_at [of k s str rest ty] assms by (simp add: spelling_def)
  next
    case word
    then show ?thesis using next_token_word_at [of k s str rest] assms by (simp add: spelling_def)
  qed
qed

lemma spelling_starts:
  assumes "token_ok t"
  shows "\<exists>c cs. spelling t = c # cs \<and> \<not> is_space c"
proof -
  obtain ty str where t: "t = (ty, str)" by (cases t)
  consider (string) "ty = T_StringLiteral" | (number) "ty \<noteq> T_StringLiteral" "takeWhile is_digit (strip_sign str) \<noteq> []"
    | (symbol) "ty \<noteq> T_StringLiteral" "(ty, str) \<in> set symbol_table"
    | (word) "ty \<noteq> T_StringLiteral" "word_text str"
    using assms by (auto simp: token_ok_def t int_text_def double_text_def digits_text_def neq_Nil_conv split: if_splits)
  then show ?thesis
  proof cases
    case string
    then show ?thesis by (auto simp: t spelling_def quote_def is_space_def newline_def)
  next
    case number
    then show ?thesis
      by (cases str) (auto simp: t spelling_def is_space_def newline_def is_digit_def char_code_def split: if_splits)
  next
    case symbol
    then show ?thesis by (auto simp: t spelling_def symbol_table_def is_space_def newline_def)
  next
    case word
    then show ?thesis
      by (cases str) (auto simp: t spelling_def word_text_def dest: identifier_start_not(1))
  qed
qed

lemma next_token_spelled:
  assumes "drop n s = ws @ spelling t @ rest" "list_all is_space ws" "token_ok t" "spaced rest"
  obtains tok where "next_token (lexer_at s n) = Inr (tok, lexer_at s (n + length ws + length (spelling t)))" "token_key tok = t"
proof -
  obtain c cs where c: "spelling t = c # cs" "\<not> is_space c" using spelling_starts [OF assms(3)] by auto
  have d: "drop n s = ws @ c # (cs @ rest)" using assms(1) c by simp
  have dk: "drop (n + length ws) s = spelling t @ rest" using next_token_spaced(4) [OF d assms(2) c(2)] c(1) by simp
  obtain ty str where t: "t = (ty, str)" by (cases t)
  have "next_token (lexer_at s n) = next_token (lexer_at s (n + length ws))"
    using d assms(2) c(2) by (rule next_token_start)
  with next_token_at [of "n + length ws" s ty str rest] dk assms(3,4)
  show ?thesis by (intro that [of "make_token ty (position_at s (n + length ws)) str"]) (simp_all add: t)
qed

section \<open>Reading a whole input\<close>

text \<open>Calls of \<open>NextToken\<close> until the end of the input, at most \<open>n\<close> of them.\<close>

fun read_tokens :: "nat \<Rightarrow> lexer \<Rightarrow> token list res" where
  "read_tokens 0 lx = Inr []"
| "read_tokens (Suc n) lx = rbind (next_token lx) (\<lambda>(tok, lx1).
     if tk_type tok = T_EndOfFile then Inr [tok]
     else rbind (read_tokens n lx1) (\<lambda>toks. Inr (tok # toks)))"

text \<open>
  The tokens cover the input from position \<open>n\<close> on: white space, the spelling of the first
  token at the position it carries, and so on to the end-of-file token at the end.
\<close>

fun tokens_cover :: "string \<Rightarrow> nat \<Rightarrow> token list \<Rightarrow> bool" where
  "tokens_cover s n [] = False"
| "tokens_cover s n (tok # toks) =
     (let k = next_start s n; m = k + length (spelling (token_key tok)) in
      tk_position tok = position_at s k \<and>
      (if toks = [] then tk_type tok = T_EndOfFile \<and> tk_text tok = [] \<and> k = length s
       else k < m \<and> m \<le> length s \<and> slice s k m = spelling (token_key tok) \<and> tokens_cover s m toks))"

lemma token_slice_length:
  assumes "token_slice s k m tok"
  shows "m = k + length (spelling (token_key tok))"
proof -
  have b: "k < m" "m \<le> length s" and eq: "slice s k m = spelling (token_key tok)"
    using assms by (simp_all add: token_slice_def)
  from b have "length (slice s k m) = m - k" by simp
  then show ?thesis using b(1) unfolding eq by simp
qed

lemma read_tokens_cover:
  assumes "n \<le> length s" "length s - n < f"
  shows "case read_tokens f (lexer_at s n) of
      Inr toks \<Rightarrow> tokens_cover s n toks
    | Inl e \<Rightarrow> \<exists>msg k. e = ParseError msg (position_at s k) \<and> k < length s"
  using assms
proof (induction f arbitrary: n)
  case (Suc f)
  show ?case
  proof (cases "next_token (lexer_at s n)")
    case (Inl e)
    then show ?thesis using next_token_error [OF Suc.prems(1) Inl] by auto
  next
    case (Inr r)
    obtain tok lx where r: "r = (tok, lx)" by (cases r)
    note sl = next_token_slice [OF Suc.prems(1) Inr [unfolded r]]
    show ?thesis
    proof (cases "next_start s n = length s")
      case True
      then show ?thesis using sl Inr by (simp add: r spelling_def token_key_def)
    next
      case False
      then obtain m where lx: "lx = lexer_at s m" and ts: "token_slice s (next_start s n) m tok" using sl by auto
      have m: "n < m" "m \<le> length s" "tk_type tok \<noteq> T_EndOfFile"
        using ts by (auto simp: token_slice_def next_start_def)
      have "case read_tokens f (lexer_at s m) of
          Inr toks \<Rightarrow> tokens_cover s m toks
        | Inl e \<Rightarrow> \<exists>msg k. e = ParseError msg (position_at s k) \<and> k < length s"
        using m Suc.prems by (intro Suc.IH) auto
      moreover have "tokens_cover s n (tok # toks)" if c: "tokens_cover s m toks" for toks
      proof -
        have "toks \<noteq> []" using c by auto
        with c ts show ?thesis
          unfolding tokens_cover.simps(2) Let_def token_slice_length [OF ts, symmetric]
          by (simp add: token_slice_def)
      qed
      ultimately show ?thesis
        using m(3) Inr by (auto simp: r lx split: sum.splits)
    qed
  qed
qed simp

text \<open>Tokens written one after the other, a space after each.\<close>

definition spell :: "(token_type \<times> string) list \<Rightarrow> string" where
  "spell ts = concat (map (\<lambda>t. spelling t @ '' '') ts)"

lemma space_is_space [simp]: "is_space CHR '' ''"
  by (simp add: is_space_def)

lemma spell_Cons: "spell (t # ts) = spelling t @ CHR '' '' # spell ts"
  by (simp add: spell_def)

lemma next_token_spell:
  assumes "drop n s = ws @ spell (t # ts)" "list_all is_space ws" "token_ok t"
  obtains tok m where "next_token (lexer_at s n) = Inr (tok, lexer_at s m)" "token_key tok = t"
    "drop m s = '' '' @ spell ts"
proof -
  have d: "drop n s = ws @ spelling t @ (CHR '' '' # spell ts)" using assms(1) by (simp add: spell_Cons)
  obtain tok where tok: "next_token (lexer_at s n) = Inr (tok, lexer_at s (n + length ws + length (spelling t)))" "token_key tok = t"
    using next_token_spelled [OF d assms(2,3)] by (auto simp: spaced_def)
  have "drop (n + length ws + length (spelling t)) s = '' '' @ spell ts"
    using drop_append_length [OF drop_append_length [OF d]] by simp
  with tok show ?thesis using that by blast
qed

lemma next_token_spell_end:
  assumes "drop n s = ws" "list_all is_space ws" "n \<le> length s"
  shows "next_token (lexer_at s n) = Inr (make_token T_EndOfFile (position_at s (length s)) [], lexer_at s (length s))"
proof -
  have "takeWhile is_space (drop n s) = drop n s" using assms by (simp add: list_all_iff)
  then have "length (takeWhile is_space (drop n s)) = length s - n" by (simp only: length_drop)
  then have "next_start s n = length s" using assms(3) by (simp add: next_start_def)
  then show ?thesis by (simp add: next_token_def skip_whitespace_at [OF assms(3)] Let_def)
qed

lemma token_ok_not_end:
  assumes "token_ok t"
  shows "fst t \<noteq> T_EndOfFile"
proof
  assume "fst t = T_EndOfFile"
  then have "keyword_type (snd t) = T_EndOfFile"
    using assms by (cases t) (simp add: token_ok_def symbol_table_def)
  with keyword_type_cases [of "snd t"] show False by simp
qed

lemma read_tokens_spell:
  "drop n s = ws @ spell ts \<Longrightarrow> list_all is_space ws \<Longrightarrow> n \<le> length s \<Longrightarrow> list_all token_ok ts \<Longrightarrow> length ts < f \<Longrightarrow>
     \<exists>toks. read_tokens f (lexer_at s n) = Inr toks \<and> map token_key toks = ts @ [(T_EndOfFile, [])]"
proof (induction ts arbitrary: n f ws)
  case Nil
  then obtain g where "f = Suc g" by (cases f) auto
  then show ?case using next_token_spell_end [of n s ws] Nil by (simp add: spell_def)
next
  case (Cons t ts)
  obtain g where f: "f = Suc g" "length ts < g" using Cons.prems(5) by (cases f) auto
  have t: "token_ok t" using Cons.prems(4) by simp
  obtain tok m where tok: "next_token (lexer_at s n) = Inr (tok, lexer_at s m)" "token_key tok = t" "drop m s = '' '' @ spell ts"
    using next_token_spell [OF Cons.prems(1,2) t] .
  have "m \<le> length s" using drop_not_Nil [of m s "CHR '' ''" "spell ts"] tok(3) by simp
  then obtain toks where toks: "read_tokens g (lexer_at s m) = Inr toks" "map token_key toks = ts @ [(T_EndOfFile, [])]"
    using Cons.IH [OF tok(3)] Cons.prems(4) f(2) by auto
  have "tk_type tok \<noteq> T_EndOfFile"
    using token_ok_not_end [OF t] tok(2) by (auto simp: token_key_def)
  then show ?case using toks tok(1,2) f(1) by simp
qed

text \<open>C26: Reading tokens to the end of any input takes at most one call of NextToken per character
  and one more. It either fails with a ParseError at a position inside the input, or the tokens,
  with white space between them, cover the input: each token carries the offset, line and column
  of its first character, and is spelled by the characters from there on.\<close>

theorem tokens_partition_input:
  "case read_tokens (Suc (length s)) (Lexer s) of
      Inr toks \<Rightarrow> tokens_cover s 0 toks
    | Inl e \<Rightarrow> \<exists>msg k. e = ParseError msg (position_at s k) \<and> k < length s"
  unfolding Lexer_at by (rule read_tokens_cover) simp_all

text \<open>C27: A sequence of well-formed tokens, written with a space after each and with the quotes of
  string literals doubled, is read back as these tokens followed by the end-of-file token.\<close>

theorem spelled_tokens_read_back:
  assumes "list_all token_ok ts"
  shows "\<exists>toks. read_tokens (Suc (length ts)) (Lexer (spell ts)) = Inr toks \<and>
           map token_key toks = ts @ [(T_EndOfFile, [])]"
  unfolding Lexer_at by (rule read_tokens_spell [of 0 _ "[]"]) (simp_all add: assms)

definition sample_tokens :: "(token_type \<times> string) list" where
  "sample_tokens =
    [(T_Select, ''select''), (T_Identifier, ''a_1''), (T_NotEqual, ''!=''), (T_StringLiteral, ''it'' @ [quote] @ ''s''),
     (T_IntLiteral, ''-12''), (T_DoubleLiteral, ''0.50''), (T_Semicolon, '';'')]"

lemma sample_tokens_ok: "list_all token_ok sample_tokens"
  by code_simp

lemma spelled_tokens_read_back_witness:
  "\<exists>toks. read_tokens (Suc (length sample_tokens)) (Lexer (spell sample_tokens)) = Inr toks \<and>
     map token_key toks = sample_tokens @ [(T_EndOfFile, [])]"
  by (rule spelled_tokens_read_back [OF sample_tokens_ok])

end
