(* ===== verification/Parser.thy ===== *)
theory Parser
  imports Lexer Types
begin

text \<open>
  The SQL parser of \<open>src/parser/parser.cpp\<close> and the syntax trees of
  \<open>include/parser/ast.hpp\<close>. \<open>Parser\<close> holds a lexer and one token of look-ahead; \<open>ps_advance\<close>
  is \<open>Parser::Advance\<close>, and there is one definition per parsing method, composed as the
  methods call each other.

  The methods for expressions call each other recursively. Here every call and every round
  of a loop uses up one unit of fuel; \<open>None\<close> means the fuel did not last, and a lemma shows
  that six units for every character of the input and twelve more always last.
\<close>

section \<open>Syntax trees\<close>

datatype order_direction = Asc | Desc

datatype data_type = D_String | D_Int64 | D_Double

datatype aggregate_kind = Agg_Count | Agg_Sum | Agg_Avg | Agg_Min | Agg_Max

datatype unary_operation = Op_Not

datatype binary_operation =
    Op_Equal | Op_NotEqual | Op_Less | Op_LessEqual | Op_Greater | Op_GreaterEqual | Op_And | Op_Or

record column_definition =
  cd_name :: string
  cd_type :: data_type
  cd_nullable :: bool
  cd_is_key :: bool

datatype expression =
    NullLiteral
  | IntLiteral i64
  | DoubleLiteral double
  | StringLiteral string
  | UnaryExpression unary_operation expression
  | BinaryExpression binary_operation expression expression
  | ColumnExpression string
  | IsNullExpression expression bool

datatype select_item =
    SelectItemStar
  | SelectItemExpression expression
  | SelectAggregateExpression aggregate_kind expression

record order_by_item =
  ob_expression :: expression
  ob_direction :: order_direction

record select_statement =
  se_table_name :: string
  se_select_items :: "select_item list"
  se_where_expression :: "expression option"
  se_group_by_items :: "expression list"
  se_order_by_items :: "order_by_item list"
  se_limit :: "nat option"

datatype statement =
    CreateTableStatement string "column_definition list"
  | InsertStatement string "string list" "expression list"
  | SelectStatement select_statement

section \<open>The parser's state\<close>

record parser =
  ps_lexer :: lexer
  ps_current :: token

definition ps_advance :: "parser \<Rightarrow> parser res" where
  "ps_advance p =
     rbind (next_token (ps_lexer p)) (\<lambda>(tok, lx). Inr \<lparr>ps_lexer = lx, ps_current = tok\<rparr>)"

definition Parser :: "lexer \<Rightarrow> parser res" where
  "Parser lx = ps_advance \<lparr>ps_lexer = lx, ps_current = make_token T_Invalid \<lparr>sp_pos = 0, sp_line = 1, sp_position_in_line = 1\<rparr> []\<rparr>"

definition is_expected_token :: "token_type \<Rightarrow> parser \<Rightarrow> bool" where
  "is_expected_token ty p \<longleftrightarrow> tk_type (ps_current p) = ty"

definition is_column_name_token :: "parser \<Rightarrow> bool" where
  "is_column_name_token p \<longleftrightarrow> tk_type (ps_current p) = T_Identifier \<or> tk_type (ps_current p) = T_Key"

definition parse_error :: "string \<Rightarrow> parser \<Rightarrow> 'a res" where
  "parse_error msg p = Inl (ParseError msg (tk_position (ps_current p)))"

text \<open>\<open>if (!IsExpectedToken(ty)) throw ParseError(msg, current_.position); Advance();\<close>\<close>

definition expect :: "token_type \<Rightarrow> string \<Rightarrow> parser \<Rightarrow> parser res" where
  "expect ty msg p = (if \<not> is_expected_token ty p then parse_error msg p else ps_advance p)"

text \<open>\<open>current_.text\<close>, when the token is a column or table name, and \<open>Advance()\<close>.\<close>

definition parse_column_name :: "string \<Rightarrow> parser \<Rightarrow> (string \<times> parser) res" where
  "parse_column_name msg p =
     (if \<not> is_column_name_token p then parse_error msg p
      else rbind (ps_advance p) (\<lambda>p1. Inr (tk_text (ps_current p), p1)))"

definition parse_table_name :: "string \<Rightarrow> parser \<Rightarrow> (string \<times> parser) res" where
  "parse_table_name msg p =
     (if \<not> is_expected_token T_Identifier p then parse_error msg p
      else rbind (ps_advance p) (\<lambda>p1. Inr (tk_text (ps_current p), p1)))"

section \<open>Expressions\<close>

definition parse_literal_expression :: "parser \<Rightarrow> (expression \<times> parser) res" where
  "parse_literal_expression p =
     (if is_expected_token T_StringLiteral p then
        rbind (ps_advance p) (\<lambda>p1. Inr (StringLiteral (tk_text (ps_current p)), p1))
      else if is_expected_token T_IntLiteral p then
        rbind (stoll (tk_text (ps_current p))) (\<lambda>v. rbind (ps_advance p) (\<lambda>p1. Inr (IntLiteral v, p1)))
      else if is_expected_token T_DoubleLiteral p then
        rbind (stod (tk_text (ps_current p))) (\<lambda>v. rbind (ps_advance p) (\<lambda>p1. Inr (DoubleLiteral v, p1)))
      else if is_expected_token T_Null p then
        rbind (ps_advance p) (\<lambda>p1. Inr (NullLiteral, p1))
      else parse_error ''Expected literal value'' p)"

definition comparison_operation :: "parser \<Rightarrow> binary_operation option" where
  "comparison_operation p =
     (if is_expected_token T_Equal p then Some Op_Equal
      else if is_expected_token T_NotEqual p then Some Op_NotEqual
      else if is_expected_token T_Less p then Some Op_Less
      else if is_expected_token T_LessEqual p then Some Op_LessEqual
      else if is_expected_token T_Greater p then Some Op_Greater
      else if is_expected_token T_GreaterEqual p then Some Op_GreaterEqual
      else None)"

text \<open>What \<open>ParsePredicateExpression\<close> does after \<open>IS\<close>.\<close>

definition parse_is_null :: "expression \<Rightarrow> parser \<Rightarrow> (expression \<times> parser) res" where
  "parse_is_null left p =
     rbind (ps_advance p) (\<lambda>p1.
       rbind (if is_expected_token T_Not p1 then rbind (ps_advance p1) (\<lambda>p2. Inr (True, p2)) else Inr (False, p1))
         (\<lambda>(is_not, p2). rbind (expect T_Null ''Expected NULL after IS or IS NOT'' p2)
           (\<lambda>p3. Inr (IsNullExpression left is_not, p3))))"

fun parse_or_expression :: "nat \<Rightarrow> parser \<Rightarrow> (expression \<times> parser) res option"
  and or_loop :: "nat \<Rightarrow> expression \<Rightarrow> parser \<Rightarrow> (expression \<times> parser) res option"
  and parse_and_expression :: "nat \<Rightarrow> parser \<Rightarrow> (expression \<times> parser) res option"
  and and_loop :: "nat \<Rightarrow> expression \<Rightarrow> parser \<Rightarrow> (expression \<times> parser) res option"
  and parse_not_expression :: "nat \<Rightarrow> parser \<Rightarrow> (expression \<times> parser) res option"
  and parse_predicate_expression :: "nat \<Rightarrow> parser \<Rightarrow> (expression \<times> parser) res option"
  and parse_atomic_expression :: "nat \<Rightarrow> parser \<Rightarrow> (expression \<times> parser) res option"
where
  "parse_or_expression 0 p = None"
| "parse_or_expression (Suc f) p =
     obind (parse_and_expression f p) (\<lambda>(left, p1). or_loop f left p1)"
| "or_loop 0 left p = None"
| "or_loop (Suc f) left p =
     (if is_expected_token T_Or p then
        obind (Some (ps_advance p)) (\<lambda>p1. obind (parse_and_expression f p1) (\<lambda>(right, p2).
          or_loop f (BinaryExpression Op_Or left right) p2))
      else Some (Inr (left, p)))"
| "parse_and_expression 0 p = None"
| "parse_and_expression (Suc f) p =
     obind (parse_not_expression f p) (\<lambda>(left, p1). and_loop f left p1)"
| "and_loop 0 left p = None"
| "and_loop (Suc f) left p =
     (if is_expected_token T_And p then
        obind (Some (ps_advance p)) (\<lambda>p1. obind (parse_not_expression f p1) (\<lambda>(right, p2).
          and_loop f (BinaryExpression Op_And left right) p2))
      else Some (Inr (left, p)))"
| "parse_not_expression 0 p = None"
| "parse_not_expression (Suc f) p =
     (if is_expected_token T_Not p then
        obind (Some (ps_advance p)) (\<lambda>p1. obind (parse_not_expression f p1) (\<lambda>(e, p2).
          Some (Inr (UnaryExpression Op_Not e, p2))))
      else parse_predicate_expression f p)"
| "parse_predicate_expression 0 p = None"
| "parse_predicate_expression (Suc f) p =
     obind (parse_atomic_expression f p) (\<lambda>(left, p1).
       if is_expected_token T_Is p1 then Some (parse_is_null left p1)
       else case comparison_operation p1 of
           None \<Rightarrow> Some (Inr (left, p1))
         | Some operation \<Rightarrow>
             obind (Some (ps_advance p1)) (\<lambda>p2. obind (parse_atomic_expression f p2) (\<lambda>(right, p3).
               Some (Inr (BinaryExpression operation left right, p3)))))"
| "parse_atomic_expression 0 p = None"
| "parse_atomic_expression (Suc f) p =
     (if is_expected_token T_LParen p then
        obind (Some (ps_advance p)) (\<lambda>p1. obind (parse_or_expression f p1) (\<lambda>(e, p2).
          obind (Some (expect T_RParen ''Expected ')' after expression'' p2)) (\<lambda>p3. Some (Inr (e, p3)))))
      else if is_column_name_token p then
        Some (rbind (ps_advance p) (\<lambda>p1. Inr (ColumnExpression (tk_text (ps_current p)), p1)))
      else if is_expected_token T_StringLiteral p \<or> is_expected_token T_IntLiteral p \<or>
              is_expected_token T_DoubleLiteral p \<or> is_expected_token T_Null p then
        Some (parse_literal_expression p)
      else Some (parse_error ''Expected atomic expression'' p))"

section \<open>Lists\<close>

text \<open>\<open>x; while (IsExpectedToken(Comma)) { Advance(); x }\<close>, collecting what \<open>x\<close> returns.\<close>

fun comma_loop :: "nat \<Rightarrow> (parser \<Rightarrow> ('a \<times> parser) res option) \<Rightarrow> 'a list \<Rightarrow> parser \<Rightarrow> ('a list \<times> parser) res option" where
  "comma_loop 0 item acc p = None"
| "comma_loop (Suc f) item acc p =
     (if is_expected_token T_Comma p then
        obind (Some (ps_advance p)) (\<lambda>p1. obind (item p1) (\<lambda>(x, p2). comma_loop f item (acc @ [x]) p2))
      else Some (Inr (acc, p)))"

definition comma_list :: "nat \<Rightarrow> (parser \<Rightarrow> ('a \<times> parser) res option) \<Rightarrow> parser \<Rightarrow> ('a list \<times> parser) res option" where
  "comma_list f item p = obind (item p) (\<lambda>(x, p1). comma_loop f item [x] p1)"

section \<open>Parts of statements\<close>

definition parse_column_type :: "parser \<Rightarrow> (data_type \<times> parser) res" where
  "parse_column_type p =
     (if is_expected_token T_StringType p then rbind (ps_advance p) (\<lambda>p1. Inr (D_String, p1))
      else if is_expected_token T_Int64Type p then rbind (ps_advance p) (\<lambda>p1. Inr (D_Int64, p1))
      else if is_expected_token T_DoubleType p then rbind (ps_advance p) (\<lambda>p1. Inr (D_Double, p1))
      else parse_error ''Expected column type'' p)"

definition parse_column_definition :: "parser \<Rightarrow> (column_definition \<times> parser) res" where
  "parse_column_definition p =
     rbind (parse_column_name ''Expected column name'' p) (\<lambda>(name, p1).
     rbind (parse_column_type p1) (\<lambda>(ty, p2).
       let column = \<lparr>cd_name = name, cd_type = ty, cd_nullable = False, cd_is_key = False\<rparr>
       in if is_expected_token T_Key p2 then
            rbind (ps_advance p2) (\<lambda>p3. Inr (column\<lparr>cd_is_key := True\<rparr>, p3))
          else if is_expected_token T_Null p2 then
            rbind (ps_advance p2) (\<lambda>p3. Inr (column\<lparr>cd_nullable := True\<rparr>, p3))
          else if is_expected_token T_Not p2 then
            rbind (ps_advance p2) (\<lambda>p3.
              rbind (expect T_Null ''Expected NULL after NOT'' p3) (\<lambda>p4. Inr (column, p4)))
          else Inr (column, p2)))"

definition aggregate_of_token :: "parser \<Rightarrow> aggregate_kind option" where
  "aggregate_of_token p =
     (if is_expected_token T_Count p then Some Agg_Count
      else if is_expected_token T_Sum p then Some Agg_Sum
      else if is_expected_token T_Avg p then Some Agg_Avg
      else if is_expected_token T_Min p then Some Agg_Min
      else if is_expected_token T_Max p then Some Agg_Max
      else None)"

definition parse_select_item :: "nat \<Rightarrow> parser \<Rightarrow> (select_item \<times> parser) res option" where
  "parse_select_item f p =
     (if is_expected_token T_Star p then Some (rbind (ps_advance p) (\<lambda>p1. Inr (SelectItemStar, p1)))
      else case aggregate_of_token p of
          Some kind \<Rightarrow>
            obind (Some (ps_advance p)) (\<lambda>p1.
            obind (Some (expect T_LParen ''Expected '(' after aggregate function'' p1)) (\<lambda>p2.
            obind (parse_or_expression f p2) (\<lambda>(e, p3).
            obind (Some (expect T_RParen ''Expected ')' after aggregate argument'' p3)) (\<lambda>p4.
              Some (Inr (SelectAggregateExpression kind e, p4))))))
        | None \<Rightarrow> obind (parse_or_expression f p) (\<lambda>(e, p1). Some (Inr (SelectItemExpression e, p1))))"

definition parse_order_by_item :: "nat \<Rightarrow> parser \<Rightarrow> (order_by_item \<times> parser) res option" where
  "parse_order_by_item f p =
     obind (parse_or_expression f p) (\<lambda>(e, p1). Some (
       if is_expected_token T_Asc p1 then
         rbind (ps_advance p1) (\<lambda>p2. Inr (\<lparr>ob_expression = e, ob_direction = Asc\<rparr>, p2))
       else if is_expected_token T_Desc p1 then
         rbind (ps_advance p1) (\<lambda>p2. Inr (\<lparr>ob_expression = e, ob_direction = Desc\<rparr>, p2))
       else Inr (\<lparr>ob_expression = e, ob_direction = Asc\<rparr>, p1)))"

section \<open>Statements\<close>

definition parse_create_table_statement :: "nat \<Rightarrow> parser \<Rightarrow> (statement \<times> parser) res option" where
  "parse_create_table_statement f p =
     obind (Some (expect T_Create ''Expected CREATE'' p)) (\<lambda>p1.
     obind (Some (expect T_Table ''Expected TABLE after CREATE'' p1)) (\<lambda>p2.
     obind (Some (parse_table_name ''Expected table name'' p2)) (\<lambda>(name, p3).
     obind (Some (expect T_LParen ''Expected '(' after table name'' p3)) (\<lambda>p4.
     obind (comma_list f (\<lambda>q. Some (parse_column_definition q)) p4) (\<lambda>(columns, p5).
     obind (Some (expect T_RParen ''Expected ')' after column definitions'' p5)) (\<lambda>p6.
     obind (Some (expect T_Semicolon ''Expected ';' after CREATE TABLE statement'' p6)) (\<lambda>p7.
       Some (Inr (CreateTableStatement name columns, p7)))))))))"

definition parse_insert_statement :: "nat \<Rightarrow> parser \<Rightarrow> (statement \<times> parser) res option" where
  "parse_insert_statement f p =
     obind (Some (expect T_Insert ''Expected INSERT'' p)) (\<lambda>p1.
     obind (Some (expect T_Into ''Expected INTO after INSERT'' p1)) (\<lambda>p2.
     obind (Some (parse_table_name ''Expected table name after INTO'' p2)) (\<lambda>(name, p3).
     obind (Some (expect T_LParen ''Expected '(' before column list'' p3)) (\<lambda>p4.
     obind (Some (parse_column_name ''Expected column name'' p4)) (\<lambda>(c, p5).
     obind (comma_loop f (\<lambda>q. Some (parse_column_name (''Expected column name after '' @ [quote, CHR '','', quote]) q)) [c] p5)
       (\<lambda>(columns, p6).
     obind (Some (expect T_RParen ''Expected ')' after column list'' p6)) (\<lambda>p7.
     obind (Some (expect T_Values ''Expected VALUES after column list'' p7)) (\<lambda>p8.
     obind (Some (expect T_LParen ''Expected '(' before values list'' p8)) (\<lambda>p9.
     obind (comma_list f (\<lambda>q. Some (parse_literal_expression q)) p9) (\<lambda>(values, p10).
     obind (Some (expect T_RParen ''Expected ')' after values list'' p10)) (\<lambda>p11.
     obind (Some (expect T_Semicolon ''Expected ';' after INSERT statement'' p11)) (\<lambda>p12.
       Some (Inr (InsertStatement name columns values, p12))))))))))))))"

definition parse_where :: "nat \<Rightarrow> parser \<Rightarrow> (expression option \<times> parser) res option" where
  "parse_where f p =
     (if is_expected_token T_Where p then
        obind (Some (ps_advance p)) (\<lambda>p1. obind (parse_or_expression f p1) (\<lambda>(e, p2). Some (Inr (Some e, p2))))
      else Some (Inr (None, p)))"

definition parse_group_by :: "nat \<Rightarrow> parser \<Rightarrow> (expression list \<times> parser) res option" where
  "parse_group_by f p =
     (if is_expected_token T_Group p then
        obind (Some (ps_advance p)) (\<lambda>p1.
        obind (Some (expect T_By ''Expected BY after GROUP'' p1)) (\<lambda>p2.
          comma_list f (parse_or_expression f) p2))
      else Some (Inr ([], p)))"

definition parse_order_by :: "nat \<Rightarrow> parser \<Rightarrow> (order_by_item list \<times> parser) res option" where
  "parse_order_by f p =
     (if is_expected_token T_Order p then
        obind (Some (ps_advance p)) (\<lambda>p1.
        obind (Some (expect T_By ''Expected BY after ORDER'' p1)) (\<lambda>p2.
          comma_list f (parse_order_by_item f) p2))
      else Some (Inr ([], p)))"

definition parse_limit :: "parser \<Rightarrow> (nat option \<times> parser) res" where
  "parse_limit p =
     (if is_expected_token T_Limit p then
        rbind (ps_advance p) (\<lambda>p1.
          if \<not> is_expected_token T_IntLiteral p1 then parse_error ''Expected integer literal after LIMIT'' p1
          else rbind (stoull (tk_text (ps_current p1))) (\<lambda>n. rbind (ps_advance p1) (\<lambda>p2. Inr (Some n, p2))))
      else Inr (None, p))"

definition parse_select_statement :: "nat \<Rightarrow> parser \<Rightarrow> (statement \<times> parser) res option" where
  "parse_select_statement f p =
     obind (Some (expect T_Select ''Expected SELECT'' p)) (\<lambda>p1.
     obind (comma_list f (parse_select_item f) p1) (\<lambda>(items, p2).
     obind (Some (expect T_From ''Expected FROM after SELECT items'' p2)) (\<lambda>p3.
     obind (Some (parse_table_name ''Expected table name after FROM'' p3)) (\<lambda>(name, p4).
     obind (parse_where f p4) (\<lambda>(where_expression, p5).
     obind (parse_group_by f p5) (\<lambda>(group_by_items, p6).
     obind (parse_order_by f p6) (\<lambda>(order_by_items, p7).
     obind (Some (parse_limit p7)) (\<lambda>(limit, p8).
     obind (Some (expect T_Semicolon
         (''Expected ';' after SELECT statement, got token: '' @ tk_text (ps_current p8)) p8)) (\<lambda>p9.
       Some (Inr (SelectStatement
         \<lparr>se_table_name = name, se_select_items = items, se_where_expression = where_expression,
          se_group_by_items = group_by_items, se_order_by_items = order_by_items, se_limit = limit\<rparr>, p9)))))))))))"

definition parse_statement :: "nat \<Rightarrow> parser \<Rightarrow> (statement \<times> parser) res option" where
  "parse_statement f p =
     (if is_expected_token T_Create p then parse_create_table_statement f p
      else if is_expected_token T_Insert p then parse_insert_statement f p
      else if is_expected_token T_Select p then parse_select_statement f p
      else Some (parse_error ''Expected CREATE, INSERT or SELECT statement'' p))"

text \<open>\<open>Parser(Lexer(input)).ParseStatement()\<close>\<close>

definition parser_fuel :: "string \<Rightarrow> nat" where
  "parser_fuel s = 6 * length s + 12"

definition parse_sql :: "string \<Rightarrow> statement res option" where
  "parse_sql s =
     obind (Some (Parser (Lexer s))) (\<lambda>p. obind (parse_statement (parser_fuel s) p) (\<lambda>(st, p1). Some (Inr st)))"

section \<open>The fuel lasts\<close>

text \<open>A parser over the input \<open>s\<close>, and what is left of the input: nothing at its end.\<close>

definition parser_ok :: "string \<Rightarrow> parser \<Rightarrow> bool" where
  "parser_ok s p \<longleftrightarrow>
     (\<exists>n \<le> length s. ps_lexer p = lexer_at s n) \<and>
     (\<exists>k \<le> length s. tk_position (ps_current p) = position_at s k)"

text \<open>The errors of a query: a \<open>ParseError\<close> at a place of the input, or that of a number.\<close>

definition query_error :: "string \<Rightarrow> exn \<Rightarrow> bool" where
  "query_error s e \<longleftrightarrow>
     (\<exists>msg k. k \<le> length s \<and> e = ParseError msg (position_at s k)) \<or>
     (\<exists>f \<in> {''stoll'', ''stoull'', ''stod''}. e = OutOfRange f \<or> e = InvalidArgument f)"

definition left_over :: "string \<Rightarrow> parser \<Rightarrow> nat" where
  "left_over s p = (if is_expected_token T_EndOfFile p then 0 else Suc (length s - lx_pos (ps_lexer p)))"

text \<open>A parsing method that ends, and leaves less than \<open>k\<close> when it succeeds.\<close>

definition below :: "string \<Rightarrow> nat \<Rightarrow> ('a \<times> parser) res option \<Rightarrow> bool" where
  "below s k r \<longleftrightarrow>
     (\<exists>m. r = Some m \<and> (\<forall>e. m = Inl e \<longrightarrow> query_error s e) \<and>
          (\<forall>x p. m = Inr (x, p) \<longrightarrow> parser_ok s p \<and> left_over s p < k))"

named_theorems parses \<open>rules that show that a parsing method ends\<close>

lemma ps_advance_left:
  assumes "parser_ok s p" "ps_advance p = Inr p'" "\<not> is_expected_token T_EndOfFile p"
  shows "parser_ok s p'" "left_over s p' < left_over s p"
proof -
  obtain n where n: "n \<le> length s" "ps_lexer p = lexer_at s n" using assms(1) by (auto simp: parser_ok_def)
  obtain tok lx where t: "next_token (lexer_at s n) = Inr (tok, lx)" "p' = \<lparr>ps_lexer = lx, ps_current = tok\<rparr>"
    using assms(2) n(2) by (auto simp: ps_advance_def rbind_eq_Inr)
  note sl = next_token_slice [OF n(1) t(1)]
  have "n \<le> next_start s n" "next_start s n \<le> length s" using n(1) by (simp add: next_start_def, rule next_start_le)
  then show "parser_ok s p'" "left_over s p' < left_over s p"
    using sl t(2) n(2) assms(3)
    by (auto simp: parser_ok_def left_over_def is_expected_token_def token_slice_def split: if_splits)
qed

lemma ps_advance_error:
  assumes "parser_ok s p" "ps_advance p = Inl e"
  shows "query_error s e"
proof -
  obtain n where n: "n \<le> length s" "ps_lexer p = lexer_at s n" using assms(1) by (auto simp: parser_ok_def)
  then have "next_token (lexer_at s n) = Inl e" using assms(2) by (auto simp: ps_advance_def rbind_eq_Inl)
  from next_token_error [OF n(1) this] show ?thesis by (auto simp: query_error_def intro: less_imp_le)
qed

lemma below_Inl: "query_error s e \<Longrightarrow> below s k (Some (Inl e))"
  by (auto simp: below_def)

lemma below_error [parses]: "parser_ok s p \<Longrightarrow> below s k (Some (parse_error msg p))"
  by (auto simp: below_def parse_error_def parser_ok_def query_error_def)

lemma number_error: "stoll t = Inl e \<Longrightarrow> query_error s e" "stoull t = Inl e \<Longrightarrow> query_error s e" "stod t = Inl e \<Longrightarrow> query_error s e"
  by (auto simp: query_error_def stoll_def stoull_def stod_def stod_ratio_def Let_def split: if_splits)

lemma below_Inr [parses]: "parser_ok s p \<Longrightarrow> left_over s p < k \<Longrightarrow> below s k (Some (Inr (x, p)))"
  by (simp add: below_def)

lemma below_obind [parses]:
  assumes "below s j m" "\<And>x p. parser_ok s p \<Longrightarrow> left_over s p < j \<Longrightarrow> below s k (g (x, p))"
  shows "below s k (obind m g)"
proof -
  obtain r where r: "m = Some r" "\<And>x p. r = Inr (x, p) \<Longrightarrow> parser_ok s p \<and> left_over s p < j"
      "\<And>e. r = Inl e \<Longrightarrow> query_error s e"
    using assms(1) by (auto simp: below_def)
  show ?thesis
  proof (cases r)
    case (Inl e)
    then show ?thesis using r(1,3) by (simp add: below_Inl)
  next
    case (Inr y)
    then show ?thesis using r assms(2) by (cases y) auto
  qed
qed

lemma below_advance [parses]:
  assumes "parser_ok s p" "\<not> is_expected_token T_EndOfFile p"
    and "\<And>p'. parser_ok s p' \<Longrightarrow> left_over s p' < left_over s p \<Longrightarrow> below s k (g p')"
  shows "below s k (obind (Some (ps_advance p)) g)"
  using ps_advance_left [OF assms(1) _ assms(2)] ps_advance_error [OF assms(1)] assms(3)
  by (cases "ps_advance p") (auto simp: below_Inl)

lemma below_expect [parses]:
  assumes "parser_ok s p" "ty \<noteq> T_EndOfFile"
    and "\<And>p'. parser_ok s p' \<Longrightarrow> left_over s p' < left_over s p \<Longrightarrow> below s k (g p')"
  shows "below s k (obind (Some (expect ty msg p)) g)"
proof (cases "is_expected_token ty p")
  case True
  then have "\<not> is_expected_token T_EndOfFile p" using assms(2) by (auto simp: is_expected_token_def)
  from below_advance [OF assms(1) this assms(3)] True show ?thesis by (simp add: expect_def)
next
  case False
  then show ?thesis using below_error [OF assms(1), of k msg] by (simp add: expect_def parse_error_def below_def)
qed

lemma Some_rbind: "Some (rbind m g) = obind (Some m) (\<lambda>x. Some (g x))"
  by (cases m) auto

lemma token_not_end:
  "is_expected_token ty p \<Longrightarrow> ty \<noteq> T_EndOfFile \<Longrightarrow> \<not> is_expected_token T_EndOfFile p"
  "is_column_name_token p \<Longrightarrow> \<not> is_expected_token T_EndOfFile p"
  by (auto simp: is_expected_token_def is_column_name_token_def)

lemma below_literal [parses]:
  assumes "parser_ok s p"
  shows "below s (left_over s p) (Some (parse_literal_expression p))"
proof -
  have adv: "below s (left_over s p) (Some (rbind (ps_advance p) (\<lambda>p1. Inr (x, p1))))"
    if "is_expected_token ty p" "ty \<noteq> T_EndOfFile" for ty and x :: expression
    unfolding Some_rbind using token_not_end(1) [OF that] by (intro parses assms)
  have num: "below s (left_over s p) (Some (rbind m (\<lambda>v. rbind (ps_advance p) (\<lambda>p1. Inr (h v, p1)))))"
    if "is_expected_token ty p" "ty \<noteq> T_EndOfFile" "\<And>e. m = Inl e \<Longrightarrow> query_error s e" for ty and m :: "'b res" and h :: "'b \<Rightarrow> expression"
    using adv [OF that(1,2)] that(3) by (cases m) (auto simp: below_Inl)
  show ?thesis unfolding parse_literal_expression_def by (auto intro: adv num number_error below_error assms)
qed

lemma below_is_null [parses]:
  assumes ok: "parser_ok s p" and t: "is_expected_token T_Is p"
  shows "below s (left_over s p) (Some (parse_is_null left p))"
  unfolding parse_is_null_def Some_rbind
proof (rule below_advance [OF ok token_not_end(1) [OF t]])
  fix p1 assume p1: "parser_ok s p1" "left_over s p1 < left_over s p"
  have "below s (left_over s p) (Some (if is_expected_token T_Not p1 then rbind (ps_advance p1) (\<lambda>p2. Inr (True, p2)) else Inr (False, p1)))"
  proof (cases "is_expected_token T_Not p1")
    case True
    then have "\<not> is_expected_token T_EndOfFile p1" by (simp add: is_expected_token_def)
    with True p1 have "below s (left_over s p) (obind (Some (ps_advance p1)) (\<lambda>x. Some (Inr (True, x))))"
      by (intro parses) auto
    with True show ?thesis by (simp add: Some_rbind)
  qed (use p1 in \<open>simp add: below_Inr\<close>)
  then show "below s (left_over s p)
     (obind (Some (if is_expected_token T_Not p1 then rbind (ps_advance p1) (\<lambda>p2. Inr (True, p2)) else Inr (False, p1)))
       (\<lambda>x. Some (case x of (is_not, p2) \<Rightarrow> rbind (expect T_Null ''Expected NULL after IS or IS NOT'' p2)
           (\<lambda>p3. Inr (IsNullExpression left is_not, p3)))))"
    by (rule below_obind) (auto simp: Some_rbind intro!: parses)
qed simp

lemma below_mono: "below s j m \<Longrightarrow> j \<le> k \<Longrightarrow> below s k m"
  by (fastforce simp: below_def)

lemma comparison_token: "comparison_operation p = Some op \<Longrightarrow> \<not> is_expected_token T_EndOfFile p"
  by (auto simp: comparison_operation_def is_expected_token_def split: if_splits)

text \<open>Six units of fuel for each token that may be left, and the depth of the method.\<close>

lemma expression_fuel:
  "(\<forall>p. parser_ok s p \<longrightarrow> 6 * left_over s p + 5 \<le> f \<longrightarrow> below s (left_over s p) (parse_or_expression f p)) \<and>
   (\<forall>p e. parser_ok s p \<longrightarrow> 6 * left_over s p + 1 \<le> f \<longrightarrow> below s (Suc (left_over s p)) (or_loop f e p)) \<and>
   (\<forall>p. parser_ok s p \<longrightarrow> 6 * left_over s p + 4 \<le> f \<longrightarrow> below s (left_over s p) (parse_and_expression f p)) \<and>
   (\<forall>p e. parser_ok s p \<longrightarrow> 6 * left_over s p + 1 \<le> f \<longrightarrow> below s (Suc (left_over s p)) (and_loop f e p)) \<and>
   (\<forall>p. parser_ok s p \<longrightarrow> 6 * left_over s p + 3 \<le> f \<longrightarrow> below s (left_over s p) (parse_not_expression f p)) \<and>
   (\<forall>p. parser_ok s p \<longrightarrow> 6 * left_over s p + 2 \<le> f \<longrightarrow> below s (left_over s p) (parse_predicate_expression f p)) \<and>
   (\<forall>p. parser_ok s p \<longrightarrow> 6 * left_over s p + 1 \<le> f \<longrightarrow> below s (left_over s p) (parse_atomic_expression f p))"
  (is "?or f \<and> ?orl f \<and> ?and f \<and> ?andl f \<and> ?not f \<and> ?pred f \<and> ?atom f")
proof (induction f)
  case 0
  show ?case by simp
next
  case (Suc f)
  then have IH: "?or f" "?orl f" "?and f" "?andl f" "?not f" "?pred f" "?atom f" by simp_all
  have or_c: "?or (Suc f)"
  proof (intro allI impI)
    fix p assume p: "parser_ok s p" "6 * left_over s p + 5 \<le> Suc f"
    have a: "below s (left_over s p) (parse_and_expression f p)" using IH(3) p by simp
    have b: "below s (left_over s p) (or_loop f e p1)" if "parser_ok s p1" "left_over s p1 < left_over s p" for e p1
      by (rule below_mono [OF IH(2) [rule_format, of p1 e]]; use that p in simp)
    show "below s (left_over s p) (parse_or_expression (Suc f) p)"
      unfolding parse_or_expression.simps by (rule below_obind [OF a]) (simp add: b)
  qed
  have and_c: "?and (Suc f)"
  proof (intro allI impI)
    fix p assume p: "parser_ok s p" "6 * left_over s p + 4 \<le> Suc f"
    have a: "below s (left_over s p) (parse_not_expression f p)" using IH(5) p by simp
    have b: "below s (left_over s p) (and_loop f e p1)" if "parser_ok s p1" "left_over s p1 < left_over s p" for e p1
      by (rule below_mono [OF IH(4) [rule_format, of p1 e]]; use that p in simp)
    show "below s (left_over s p) (parse_and_expression (Suc f) p)"
      unfolding parse_and_expression.simps by (rule below_obind [OF a]) (simp add: b)
  qed
  have orl_c: "?orl (Suc f)"
  proof (intro allI impI)
    fix p e assume p: "parser_ok s p" "6 * left_over s p + 1 \<le> Suc f"
    have a: "below s (left_over s p) (parse_and_expression f p1)" if "parser_ok s p1" "left_over s p1 < left_over s p" for p1
      by (rule below_mono [OF IH(3) [rule_format, of p1]]; use that p in simp)
    have b: "below s (Suc (left_over s p)) (or_loop f x p2)" if "parser_ok s p2" "left_over s p2 < left_over s p" for x p2
      by (rule below_mono [OF IH(2) [rule_format, of p2 x]]; use that p in simp)
    show "below s (Suc (left_over s p)) (or_loop (Suc f) e p)"
    proof (cases "is_expected_token T_Or p")
      case True
      then show ?thesis unfolding or_loop.simps if_P [OF True]
        by (intro below_advance [OF p(1)] below_obind [OF a]) (simp_all add: b is_expected_token_def)
    qed (simp add: below_Inr p)
  qed
  have andl_c: "?andl (Suc f)"
  proof (intro allI impI)
    fix p e assume p: "parser_ok s p" "6 * left_over s p + 1 \<le> Suc f"
    have a: "below s (left_over s p) (parse_not_expression f p1)" if "parser_ok s p1" "left_over s p1 < left_over s p" for p1
      by (rule below_mono [OF IH(5) [rule_format, of p1]]; use that p in simp)
    have b: "below s (Suc (left_over s p)) (and_loop f x p2)" if "parser_ok s p2" "left_over s p2 < left_over s p" for x p2
      by (rule below_mono [OF IH(4) [rule_format, of p2 x]]; use that p in simp)
    show "below s (Suc (left_over s p)) (and_loop (Suc f) e p)"
    proof (cases "is_expected_token T_And p")
      case True
      then show ?thesis unfolding and_loop.simps if_P [OF True]
        by (intro below_advance [OF p(1)] below_obind [OF a]) (simp_all add: b is_expected_token_def)
    qed (simp add: below_Inr p)
  qed
  have not_c: "?not (Suc f)"
  proof (intro allI impI)
    fix p assume p: "parser_ok s p" "6 * left_over s p + 3 \<le> Suc f"
    have a: "below s (left_over s p) (parse_not_expression f p1)" if "parser_ok s p1" "left_over s p1 < left_over s p" for p1
      by (rule below_mono [OF IH(5) [rule_format, of p1]]; use that p in simp)
    show "below s (left_over s p) (parse_not_expression (Suc f) p)"
    proof (cases "is_expected_token T_Not p")
      case True
      then show ?thesis unfolding parse_not_expression.simps if_P [OF True]
        by (intro below_advance [OF p(1)] below_obind [OF a]) (simp_all add: below_Inr is_expected_token_def)
    qed (use IH(6) p in simp)
  qed
  have pred_c: "?pred (Suc f)"
  proof (intro allI impI)
    fix p assume p: "parser_ok s p" "6 * left_over s p + 2 \<le> Suc f"
    have a: "below s (left_over s p) (parse_atomic_expression f p)" using IH(7) p by simp
    have a1: "below s (left_over s p) (parse_atomic_expression f p1)" if "parser_ok s p1" "left_over s p1 < left_over s p" for p1
      by (rule below_mono [OF IH(7) [rule_format, of p1]]; use that p in simp)
    show "below s (left_over s p) (parse_predicate_expression (Suc f) p)"
      unfolding parse_predicate_expression.simps
    proof (rule below_obind [OF a], unfold prod.case)
      fix e p1 assume p1: "parser_ok s p1" "left_over s p1 < left_over s p"
      show "below s (left_over s p)
         (if is_expected_token T_Is p1 then Some (parse_is_null e p1)
          else case comparison_operation p1 of None \<Rightarrow> Some (Inr (e, p1))
            | Some operation \<Rightarrow> obind (Some (ps_advance p1)) (\<lambda>p2. obind (parse_atomic_expression f p2) (\<lambda>(right, p3).
                Some (Inr (BinaryExpression operation e right, p3)))))"
      proof (cases "is_expected_token T_Is p1")
        case True
        then show ?thesis using below_mono [OF below_is_null [OF p1(1) True], of "left_over s p" e] p1(2) by simp
      next
        case False
        show ?thesis
        proof (cases "comparison_operation p1")
          case None
          then show ?thesis using False p1 by (simp add: below_Inr)
        next
          case (Some operation)
          show ?thesis unfolding if_not_P [OF False] Some option.case
            using p1 by (intro below_advance [OF p1(1) comparison_token [OF Some]] below_obind [OF a1]) (simp_all add: below_Inr)
        qed
      qed
    qed
  qed
  have atom_c: "?atom (Suc f)"
  proof (intro allI impI)
    fix p assume p: "parser_ok s p" "6 * left_over s p + 1 \<le> Suc f"
    have a: "below s (left_over s p) (parse_or_expression f p1)" if "parser_ok s p1" "left_over s p1 < left_over s p" for p1
      by (rule below_mono [OF IH(1) [rule_format, of p1]]; use that p in simp)
    show "below s (left_over s p) (parse_atomic_expression (Suc f) p)"
    proof (cases "is_expected_token T_LParen p")
      case True
      then show ?thesis unfolding parse_atomic_expression.simps if_P [OF True]
        by (intro below_advance [OF p(1)] below_obind [OF a])
          (auto intro!: below_expect below_Inr simp: is_expected_token_def)
    next
      case False
      show ?thesis
      proof (cases "is_column_name_token p")
        case True
        then show ?thesis using False p(1)
          by (auto simp: Some_rbind intro!: below_advance below_Inr dest: token_not_end)
      qed (use False p(1) in \<open>auto intro: below_literal below_error\<close>)
    qed
  qed
  show ?case by (intro conjI or_c orl_c and_c andl_c not_c pred_c atom_c)
qed

lemma or_fuel [parses]:
  "parser_ok s p \<Longrightarrow> 6 * left_over s p + 5 \<le> f \<Longrightarrow> below s (left_over s p) (parse_or_expression f p)"
  using expression_fuel by blast

lemma comma_loop_fuel:
  assumes item: "\<And>q. parser_ok s q \<Longrightarrow> left_over s q < N \<Longrightarrow> below s (left_over s q) (item q)"
  shows "parser_ok s p \<Longrightarrow> left_over s p < N \<Longrightarrow> left_over s p < f \<Longrightarrow> below s N (comma_loop f item acc p)"
proof (induction f arbitrary: acc p)
  case (Suc f)
  show ?case
  proof (cases "is_expected_token T_Comma p")
    case True
    have i: "below s (left_over s p) (item p1)" if "parser_ok s p1" "left_over s p1 < left_over s p" for p1
      by (rule below_mono [OF item]; use that Suc.prems in simp)
    show ?thesis unfolding comma_loop.simps if_P [OF True]
      by (intro below_advance [OF Suc.prems(1)] below_obind [OF i])
        (use Suc True in \<open>simp_all add: is_expected_token_def\<close>)
  qed (use Suc.prems in \<open>simp add: below_Inr\<close>)
qed simp

lemma comma_list_fuel:
  assumes item: "\<And>q. parser_ok s q \<Longrightarrow> left_over s q < N \<Longrightarrow> below s (left_over s q) (item q)"
    and p: "parser_ok s p" "left_over s p < N" "N \<le> f"
  shows "below s N (comma_list f item p)"
  unfolding comma_list_def
  by (rule below_obind [OF item [OF p(1,2)]]) (use p in \<open>auto intro: comma_loop_fuel item\<close>)

text \<open>The short methods: at most a few tokens, no recursion.\<close>

lemma below_column_name [parses]:
  "parser_ok s p \<Longrightarrow> below s (left_over s p) (Some (parse_column_name msg p))"
  unfolding parse_column_name_def
  by (auto simp: Some_rbind intro!: below_advance below_Inr below_error dest: token_not_end)

lemma below_table_name [parses]:
  "parser_ok s p \<Longrightarrow> below s (left_over s p) (Some (parse_table_name msg p))"
  unfolding parse_table_name_def
  by (auto simp: Some_rbind is_expected_token_def intro!: below_advance below_Inr below_error)

lemma below_column_type [parses]:
  "parser_ok s p \<Longrightarrow> below s (left_over s p) (Some (parse_column_type p))"
  unfolding parse_column_type_def
  by (auto simp: Some_rbind is_expected_token_def intro!: below_advance below_Inr below_error)

lemma below_column_definition [parses]:
  assumes "parser_ok s p"
  shows "below s (left_over s p) (Some (parse_column_definition p))"
  unfolding parse_column_definition_def Some_rbind
proof (rule below_obind [OF below_column_name [OF assms]], unfold prod.case Some_rbind)
  fix name p1 assume p1: "parser_ok s p1" "left_over s p1 < left_over s p"
  show "below s (left_over s p) (obind (Some (parse_column_type p1)) (\<lambda>x. Some (case x of (ty, p2) \<Rightarrow>
       let column = \<lparr>cd_name = name, cd_type = ty, cd_nullable = False, cd_is_key = False\<rparr>
       in if is_expected_token T_Key p2 then
            rbind (ps_advance p2) (\<lambda>p3. Inr (column\<lparr>cd_is_key := True\<rparr>, p3))
          else if is_expected_token T_Null p2 then
            rbind (ps_advance p2) (\<lambda>p3. Inr (column\<lparr>cd_nullable := True\<rparr>, p3))
          else if is_expected_token T_Not p2 then
            rbind (ps_advance p2) (\<lambda>p3.
              rbind (expect T_Null ''Expected NULL after NOT'' p3) (\<lambda>p4. Inr (column, p4)))
          else Inr (column, p2))))"
    by (rule below_obind [OF below_column_type [OF p1(1)]])
      (use p1 in \<open>auto simp: Let_def Some_rbind is_expected_token_def intro!: below_advance below_expect below_Inr\<close>)
qed

lemma below_select_item [parses]:
  assumes p: "parser_ok s p" "6 * left_over s p + 5 \<le> f"
  shows "below s (left_over s p) (parse_select_item f p)"
proof (cases "aggregate_of_token p")
  case None
  then show ?thesis
    unfolding parse_select_item_def using p
    by (auto simp: Some_rbind is_expected_token_def intro!: below_advance below_Inr intro: below_obind [OF or_fuel])
next
  case (Some kind)
  have o: "below s (left_over s p) (parse_or_expression f q)" if "parser_ok s q" "left_over s q < left_over s p" for q
    by (rule below_mono [OF or_fuel]; use that p in simp)
  have "\<not> is_expected_token T_EndOfFile p" "\<not> is_expected_token T_Star p"
    using Some by (auto simp: aggregate_of_token_def is_expected_token_def split: if_splits)
  then show ?thesis
    unfolding parse_select_item_def Some if_not_P [OF \<open>\<not> is_expected_token T_Star p\<close>] option.case using p
    by (intro below_advance below_expect below_obind [OF o]) (auto intro!: below_expect below_Inr)
qed

lemma below_order_by_item [parses]:
  assumes p: "parser_ok s p" "6 * left_over s p + 5 \<le> f"
  shows "below s (left_over s p) (parse_order_by_item f p)"
  unfolding parse_order_by_item_def
  by (rule below_obind [OF or_fuel [OF p]])
    (auto simp: Some_rbind is_expected_token_def intro!: below_advance below_Inr)

lemma below_pass: "parser_ok s p \<Longrightarrow> below s (Suc (left_over s p)) (Some (Inr (x, p)))"
  by (simp add: below_Inr)

lemma below_less: "below s j m \<Longrightarrow> j < k \<Longrightarrow> below s k m"
  by (auto intro: below_mono)

lemma create_table_fuel:
  assumes p: "parser_ok s p" "6 * left_over s p + 5 \<le> f"
  shows "below s (left_over s p) (parse_create_table_statement f p)"
  unfolding parse_create_table_statement_def
proof (rule below_expect [OF p(1)], simp, rule below_expect, assumption, simp)
  fix p1 p2 assume p2: "parser_ok s p1" "left_over s p1 < left_over s p" "parser_ok s p2" "left_over s p2 < left_over s p1"
  have cols: "below s (Suc (left_over s q)) (comma_list f (\<lambda>q. Some (parse_column_definition q)) q)"
    if "parser_ok s q" "left_over s q < left_over s p2" for q
    by (rule comma_list_fuel) (use that p p2 in \<open>auto intro: below_column_definition\<close>)
  show "below s (left_over s p) (obind (Some (parse_table_name ''Expected table name'' p2)) (\<lambda>(name, p3).
     obind (Some (expect T_LParen ''Expected '(' after table name'' p3)) (\<lambda>p4.
     obind (comma_list f (\<lambda>q. Some (parse_column_definition q)) p4) (\<lambda>(columns, p5).
     obind (Some (expect T_RParen ''Expected ')' after column definitions'' p5)) (\<lambda>p6.
     obind (Some (expect T_Semicolon ''Expected ';' after CREATE TABLE statement'' p6)) (\<lambda>p7.
       Some (Inr (CreateTableStatement name columns, p7))))))))"
    by (rule below_obind [OF below_table_name [OF p2(3)]], unfold prod.case,
        rule below_expect, assumption, simp, rule below_obind [OF cols])
      (use p2 in \<open>auto intro!: below_expect below_Inr\<close>)
qed

lemma insert_fuel:
  assumes p: "parser_ok s p" "6 * left_over s p + 5 \<le> f"
  shows "below s (left_over s p) (parse_insert_statement f p)"
  unfolding parse_insert_statement_def
proof (rule below_expect [OF p(1)], simp, rule below_expect, assumption, simp)
  fix p1 p2 assume p2: "parser_ok s p1" "left_over s p1 < left_over s p" "parser_ok s p2" "left_over s p2 < left_over s p1"
  have cols: "below s (left_over s p) (comma_loop f (\<lambda>q. Some (parse_column_name msg q)) acc q)"
    if "parser_ok s q" "left_over s q < left_over s p" for q acc msg
    by (rule comma_loop_fuel) (use that p in \<open>auto intro: below_column_name\<close>)
  have vals: "below s (left_over s p) (comma_list f (\<lambda>q. Some (parse_literal_expression q)) q)"
    if "parser_ok s q" "left_over s q < left_over s p" for q
    by (rule comma_list_fuel) (use that p in \<open>auto intro: below_literal\<close>)
  let ?rest = "\<lambda>name p3. obind (Some (expect T_LParen ''Expected '(' before column list'' p3)) (\<lambda>p4.
     obind (Some (parse_column_name ''Expected column name'' p4)) (\<lambda>(c, p5).
     obind (comma_loop f (\<lambda>q. Some (parse_column_name (''Expected column name after '' @ [quote, CHR '','', quote]) q)) [c] p5)
       (\<lambda>(columns, p6).
     obind (Some (expect T_RParen ''Expected ')' after column list'' p6)) (\<lambda>p7.
     obind (Some (expect T_Values ''Expected VALUES after column list'' p7)) (\<lambda>p8.
     obind (Some (expect T_LParen ''Expected '(' before values list'' p8)) (\<lambda>p9.
     obind (comma_list f (\<lambda>q. Some (parse_literal_expression q)) p9) (\<lambda>(values, p10).
     obind (Some (expect T_RParen ''Expected ')' after values list'' p10)) (\<lambda>p11.
     obind (Some (expect T_Semicolon ''Expected ';' after INSERT statement'' p11)) (\<lambda>p12.
       Some (Inr (InsertStatement name columns values, p12)))))))))))"
  have "below s (left_over s p) (?rest name p3)" if p3: "parser_ok s p3" "left_over s p3 < left_over s p2" for name p3
    by (rule below_expect [OF p3(1)], simp, rule below_obind [OF below_column_name], assumption, unfold prod.case,
        rule below_obind [OF cols], assumption, use p2 p3 in simp, unfold prod.case,
        rule below_expect, assumption, simp, rule below_expect, assumption, simp, rule below_expect, assumption, simp,
        rule below_obind [OF vals], assumption, use p2 p3 in simp)
      (auto intro!: below_expect below_Inr)
  then show "below s (left_over s p) (obind (Some (parse_table_name ''Expected table name after INTO'' p2)) (\<lambda>(name, p3). ?rest name p3))"
    by (intro below_obind [OF below_table_name [OF p2(3)]]) (simp only: prod.case)
qed

lemma group_by_fuel:
  assumes p: "parser_ok s p" "left_over s p < N" "6 * N + 5 \<le> f"
  shows "below s N (parse_where f p)" "below s N (parse_group_by f p)" "below s N (parse_order_by f p)"
    "below s N (Some (parse_limit p))"
proof -
  have o: "below s (left_over s q) (parse_or_expression f q)" "below s (left_over s q) (parse_order_by_item f q)"
    if "parser_ok s q" "left_over s q < N" for q
    using that p by (simp_all add: or_fuel below_order_by_item)
  have l: "below s N (comma_list f (parse_or_expression f) q)" "below s N (comma_list f (parse_order_by_item f) q)"
    if "parser_ok s q" "left_over s q < N" for q
    using that p by (auto intro!: comma_list_fuel o)
  have w: "below s N (obind (parse_or_expression f q) (\<lambda>(e, p2). Some (Inr (Some e, p2))))"
    if "parser_ok s q" "left_over s q < N" for q
    by (rule below_obind [OF o(1) [OF that]]) (use that in \<open>simp add: below_Inr\<close>)
  show "below s N (parse_where f p)"
    unfolding parse_where_def using p by (auto simp: is_expected_token_def intro!: below_advance w below_Inr)
  show "below s N (parse_group_by f p)"
    unfolding parse_group_by_def using p by (auto simp: is_expected_token_def intro!: below_advance below_expect l below_Inr)
  show "below s N (parse_order_by f p)"
    unfolding parse_order_by_def using p by (auto simp: is_expected_token_def intro!: below_advance below_expect l below_Inr)
  have n: "below s N (Some (rbind (stoull t) (\<lambda>n. rbind (ps_advance q) (\<lambda>p2. Inr (Some n, p2)))))"
    if "parser_ok s q" "left_over s q < N" "is_expected_token T_IntLiteral q" for q t
    using that number_error(2) [of t]
    by (cases "stoull t") (auto simp: Some_rbind is_expected_token_def intro!: below_advance below_Inr below_Inl)
  show "below s N (Some (parse_limit p))"
    unfolding parse_limit_def using p n
    by (auto simp: Some_rbind is_expected_token_def intro!: below_advance below_error below_Inr)
qed

lemma select_fuel:
  assumes p: "parser_ok s p" "6 * left_over s p + 5 \<le> f"
  shows "below s (left_over s p) (parse_select_statement f p)"
  unfolding parse_select_statement_def
proof (rule below_expect [OF p(1)], simp)
  fix p1 assume p1: "parser_ok s p1" "left_over s p1 < left_over s p"
  let ?N = "left_over s p"
  have item: "below s (left_over s q) (parse_select_item f q)" if "parser_ok s q" "left_over s q < ?N" for q
    using that p by (intro below_select_item) simp_all
  have items: "below s ?N (comma_list f (parse_select_item f) p1)"
    by (rule comma_list_fuel) (use p p1 item in auto)
  have clause: "below s ?N (parse_where f q)" "below s ?N (parse_group_by f q)" "below s ?N (parse_order_by f q)"
      "below s ?N (Some (parse_limit q))" if "parser_ok s q" "left_over s q < ?N" for q
    using group_by_fuel [OF that p(2)] by simp_all
  have name: "below s ?N (Some (parse_table_name msg q))" if "parser_ok s q" "left_over s q < ?N" for q msg
    by (rule below_less [OF below_table_name]; use that in simp)
  show "below s ?N (obind (comma_list f (parse_select_item f) p1) (\<lambda>(items, p2).
     obind (Some (expect T_From ''Expected FROM after SELECT items'' p2)) (\<lambda>p3.
     obind (Some (parse_table_name ''Expected table name after FROM'' p3)) (\<lambda>(name, p4).
     obind (parse_where f p4) (\<lambda>(where_expression, p5).
     obind (parse_group_by f p5) (\<lambda>(group_by_items, p6).
     obind (parse_order_by f p6) (\<lambda>(order_by_items, p7).
     obind (Some (parse_limit p7)) (\<lambda>(limit, p8).
     obind (Some (expect T_Semicolon
         (''Expected ';' after SELECT statement, got token: '' @ tk_text (ps_current p8)) p8)) (\<lambda>p9.
       Some (Inr (SelectStatement
         \<lparr>se_table_name = name, se_select_items = items, se_where_expression = where_expression,
          se_group_by_items = group_by_items, se_order_by_items = order_by_items, se_limit = limit\<rparr>, p9)))))))))))"
    by (rule below_obind [OF items], unfold prod.case, rule below_expect, assumption, simp,
        rule below_obind [OF name], assumption, simp, unfold prod.case,
        rule below_obind [OF clause(1)], assumption, simp, unfold prod.case,
        rule below_obind [OF clause(2)], assumption, assumption, unfold prod.case,
        rule below_obind [OF clause(3)], assumption, assumption, unfold prod.case,
        rule below_obind [OF clause(4)], assumption, assumption, unfold prod.case)
      (auto intro!: below_expect below_Inr)
qed

lemma statement_fuel:
  assumes "parser_ok s p" "6 * left_over s p + 5 \<le> f"
  shows "below s (Suc (left_over s p)) (parse_statement f p)"
  using create_table_fuel [OF assms] insert_fuel [OF assms] select_fuel [OF assms] assms(1)
  by (auto simp: parse_statement_def intro: below_error below_less)

lemma Parser_ok:
  assumes "Parser (Lexer s) = Inr p"
  shows "parser_ok s p" "left_over s p \<le> Suc (length s)"
proof -
  define p0 where "p0 = \<lparr>ps_lexer = lexer_at s 0, ps_current = make_token T_Invalid \<lparr>sp_pos = 0, sp_line = 1, sp_position_in_line = 1\<rparr> []\<rparr>"
  have ok: "parser_ok s p0" by (auto simp: parser_ok_def p0_def position_at_def intro: exI [of _ 0])
  moreover have "ps_advance p0 = Inr p" using assms by (simp add: Parser_def Lexer_at p0_def)
  moreover have "\<not> is_expected_token T_EndOfFile p0" by (simp add: is_expected_token_def p0_def)
  ultimately have "parser_ok s p \<and> left_over s p < left_over s p0" using ps_advance_left by blast
  moreover have "left_over s p0 = Suc (length s)" by (simp add: left_over_def is_expected_token_def p0_def)
  ultimately show "parser_ok s p" "left_over s p \<le> Suc (length s)" by simp_all
qed

text \<open>C25: Parsing ends on every input: it returns a statement, or fails with a ParseError that names
  a position of the input, or with the exception of a number that has no value.\<close>

theorem parse_always_ends:
  "case parse_sql s of None \<Rightarrow> False | Some (Inl e) \<Rightarrow> query_error s e | Some (Inr _) \<Rightarrow> True"
proof (cases "Parser (Lexer s)")
  case (Inl e)
  have ok: "parser_ok s \<lparr>ps_lexer = lexer_at s 0, ps_current = make_token T_Invalid \<lparr>sp_pos = 0, sp_line = 1, sp_position_in_line = 1\<rparr> []\<rparr>"
    by (auto simp: parser_ok_def position_at_def intro: exI [of _ 0])
  have "query_error s e" using ps_advance_error [OF ok] Inl by (simp add: Parser_def Lexer_at)
  then show ?thesis using Inl by (simp add: parse_sql_def)
next
  case (Inr p)
  note p = Parser_ok [OF Inr]
  then obtain m where m: "parse_statement (parser_fuel s) p = Some m" "\<And>e. m = Inl e \<Longrightarrow> query_error s e"
    using statement_fuel [of s p "parser_fuel s"] by (auto simp: below_def parser_fuel_def)
  then show ?thesis using Inr by (cases m) (auto simp: parse_sql_def)
qed

end
