(* ===== verification/Binder.thy ===== *)
theory Binder
  imports Engine Parser
begin

text \<open>
  The binder (\<open>src/executor/binder.cpp\<close>) with the bound expressions and statements of
  \<open>executor/bound_expression.hpp\<close> and \<open>executor/bound_statement.hpp\<close>: names are resolved against the
  schemas of the storage engine, inserted rows are checked, and the clauses of a query are validated.
  The dynamic type of a node is the constructor of a datatype, its \<open>kind\<close> is read off it, and a
  \<open>std::unique_ptr\<close> that may be empty is an option. The schema a bound statement points to is the value
  it has in the engine, since no operation changes a schema. The evaluation order of function
  arguments, which C++ leaves open, is left to right here.
\<close>

section \<open>Bound expressions and statements\<close>

datatype expression_type = E_String | E_Int64 | E_Double | E_Boolean | E_Null

fun value_type_to_expression_type :: "value_type \<Rightarrow> expression_type" where
  "value_type_to_expression_type INT64 = E_Int64"
| "value_type_to_expression_type DOUBLE = E_Double"
| "value_type_to_expression_type STRING = E_String"

datatype bound_expression =
    BoundLiteralExpression nullable_value expression_type
  | BoundColumnExpression nat value_type
  | BoundUnaryExpression unary_operation bound_expression
  | BoundBinaryExpression binary_operation bound_expression bound_expression
  | BoundIsNullExpression bound_expression bool

fun be_type :: "bound_expression \<Rightarrow> expression_type" where
  "be_type (BoundLiteralExpression v ty) = ty"
| "be_type (BoundColumnExpression i ty) = value_type_to_expression_type ty"
| "be_type (BoundUnaryExpression op e) = E_Boolean"
| "be_type (BoundBinaryExpression op l r) = E_Boolean"
| "be_type (BoundIsNullExpression e is_not) = E_Boolean"

datatype bound_select_item =
    BoundSelectItemExpression bound_expression
  | BoundSelectAggregateExpression aggregate_kind bound_expression expression_type

record bound_order_by_item =
  bo_expression :: bound_expression
  bo_direction :: order_direction

record bound_insert_statement =
  bi_table_name :: string
  bi_schema :: schema
  bi_row_values :: row

record bound_select_statement =
  bs_table_name :: string
  bs_schema :: schema
  bs_select_items :: "bound_select_item list"
  bs_where_expression :: "bound_expression option"
  bs_group_by_items :: "bound_expression list"
  bs_order_by_items :: "bound_order_by_item list"
  bs_limit :: "nat option"

datatype bound_statement =
    BoundCreateTableStatement string schema
  | BoundInsertStatement bound_insert_statement
  | BoundSelectStatement bound_select_statement

section \<open>Types and literals\<close>

fun parser_data_type_to_storage_value_type :: "data_type \<Rightarrow> value_type" where
  "parser_data_type_to_storage_value_type D_Int64 = INT64"
| "parser_data_type_to_storage_value_type D_Double = DOUBLE"
| "parser_data_type_to_storage_value_type D_String = STRING"

definition get_schema :: "('e, 'c) storage_engine \<Rightarrow> 'e \<Rightarrow> string \<Rightarrow> schema res" where
  "get_schema eng st table_name =
     (if \<not> eng_table_exists eng table_name st then Inl (TableNotFoundError (''Table not found: '' @ table_name))
      else eng_get_table_schema eng table_name st)"

definition is_numeric_expression_type :: "expression_type \<Rightarrow> bool" where
  "is_numeric_expression_type ty \<longleftrightarrow> ty = E_Int64 \<or> ty = E_Double"

fun get_aggregate_result_type :: "aggregate_kind \<Rightarrow> expression_type \<Rightarrow> expression_type res" where
  "get_aggregate_result_type Agg_Count ty = Inr E_Int64"
| "get_aggregate_result_type Agg_Avg ty =
     (if is_numeric_expression_type ty then Inr E_Double
      else Inl (InvalidQueryError ''AVG supports only INT64 and DOUBLE''))"
| "get_aggregate_result_type Agg_Max ty =
     (if is_numeric_expression_type ty then Inr ty
      else Inl (InvalidQueryError ''MAX supports only INT64 and DOUBLE''))"
| "get_aggregate_result_type Agg_Min ty =
     (if is_numeric_expression_type ty then Inr ty
      else Inl (InvalidQueryError ''MIN supports only INT64 and DOUBLE''))"
| "get_aggregate_result_type Agg_Sum ty =
     (if is_numeric_expression_type ty then Inr ty
      else Inl (InvalidQueryError ''SUM supports only INT64 and DOUBLE''))"

fun convert_literal_expression :: "expression \<Rightarrow> nullable_value res" where
  "convert_literal_expression NullLiteral = Inr None"
| "convert_literal_expression (IntLiteral n) = Inr (Some (VInt n))"
| "convert_literal_expression (DoubleLiteral d) = Inr (Some (VDouble d))"
| "convert_literal_expression (StringLiteral s) = Inr (Some (VString s))"
| "convert_literal_expression _ = Inl (InvalidQueryError ''Expected literal expression'')"

section \<open>Expressions and select items\<close>

fun bind_expression :: "schema \<Rightarrow> expression \<Rightarrow> bound_expression res" where
  "bind_expression s NullLiteral = Inr (BoundLiteralExpression None E_Null)"
| "bind_expression s (IntLiteral n) = Inr (BoundLiteralExpression (Some (VInt n)) E_Int64)"
| "bind_expression s (DoubleLiteral d) = Inr (BoundLiteralExpression (Some (VDouble d)) E_Double)"
| "bind_expression s (StringLiteral x) = Inr (BoundLiteralExpression (Some (VString x)) E_String)"
| "bind_expression s (ColumnExpression column_name) =
     (case get_column_index s column_name of
        None \<Rightarrow> Inl (ColumnNotFoundError (''Column not found: '' @ column_name))
      | Some i \<Rightarrow> rbind (get_column s i) (\<lambda>column. Inr (BoundColumnExpression i (col_type column))))"
| "bind_expression s (UnaryExpression op e) =
     rbind (bind_expression s e) (\<lambda>b. Inr (BoundUnaryExpression op b))"
| "bind_expression s (BinaryExpression op l r) =
     rbind (bind_expression s l) (\<lambda>bl. rbind (bind_expression s r) (\<lambda>br. Inr (BoundBinaryExpression op bl br)))"
| "bind_expression s (IsNullExpression e is_not) =
     rbind (bind_expression s e) (\<lambda>b. Inr (BoundIsNullExpression b is_not))"

fun bind_select_item :: "schema \<Rightarrow> select_item \<Rightarrow> bound_select_item list res" where
  "bind_select_item s SelectItemStar =
     rmap (\<lambda>i. rbind (get_column s i) (\<lambda>column.
       Inr (BoundSelectItemExpression (BoundColumnExpression i (col_type column))))) [0..<schema_size s]"
| "bind_select_item s (SelectItemExpression e) =
     rbind (bind_expression s e) (\<lambda>b. Inr [BoundSelectItemExpression b])"
| "bind_select_item s (SelectAggregateExpression kind e) =
     rbind (bind_expression s e) (\<lambda>argument.
     rbind (get_aggregate_result_type kind (be_type argument)) (\<lambda>result_type.
       Inr [BoundSelectAggregateExpression kind argument result_type]))"

definition bind_order_by_item :: "schema \<Rightarrow> order_by_item \<Rightarrow> bound_order_by_item res" where
  "bind_order_by_item s item =
     rbind (bind_expression s (ob_expression item)) (\<lambda>b.
       Inr \<lparr>bo_expression = b, bo_direction = ob_direction item\<rparr>)"

section \<open>CREATE TABLE\<close>

text \<open>
  \<open>e.what()\<close>. A subclass of \<open>BindError\<close> holds its whole message; what the standard says of
  \<open>std::bad_variant_access\<close> leaves the text open, and it is not thrown where the binder asks.
\<close>

fun what :: "exn \<Rightarrow> string" where
  "what (RuntimeError m) = m"
| "what (InvalidArgument m) = m"
| "what (LogicError m) = m"
| "what (OutOfRange m) = m"
| "what (LengthError m) = m"
| "what BadVariantAccess = ''bad_variant_access''"
| "what (Failure m) = m"
| "what (ParseError m pos) = m"
| "what (TableNotFoundError m) = m"
| "what (ColumnNotFoundError m) = m"
| "what (TypeMismatchError m) = m"
| "what (InvalidQueryError m) = m"

definition add_definition :: "column_definition \<Rightarrow> schema_builder \<Rightarrow> schema_builder res" where
  "add_definition column builder =
     add_column builder (cd_name column) (parser_data_type_to_storage_value_type (cd_type column))
       (cd_is_key column) (cd_nullable column)"

definition bind_create_table :: "string \<Rightarrow> column_definition list \<Rightarrow> bound_statement res" where
  "bind_create_table table_name cols =
     (case rbind (rfold add_definition cols SchemaBuilder) build of
        Inl e \<Rightarrow> Inl (InvalidQueryError (what e))
      | Inr s \<Rightarrow> Inr (BoundCreateTableStatement table_name s))"

section \<open>INSERT\<close>

text \<open>The body of the loop over the columns of the statement; the state is \<open>row_values\<close> and \<open>assigned\<close>.\<close>

definition assign_column :: "schema \<Rightarrow> string \<times> expression \<Rightarrow> row \<times> bool list \<Rightarrow> (row \<times> bool list) res" where
  "assign_column s entry acc =
     (case entry of (column_name, value) \<Rightarrow> case acc of (row_values, assigned) \<Rightarrow>
        (case get_column_index s column_name of
           None \<Rightarrow> Inl (ColumnNotFoundError (''Column not found: '' @ column_name))
         | Some i \<Rightarrow>
             if assigned ! i then Inl (InvalidQueryError (''Duplicate insert column: '' @ column_name))
             else rbind (convert_literal_expression value) (\<lambda>v. Inr (row_values[i := v], assigned[i := True]))))"

definition check_value :: "schema \<Rightarrow> row \<Rightarrow> nat \<Rightarrow> unit res" where
  "check_value s row_values i =
     (if \<not> is_valid_value s i (row_values ! i) then
        rbind (get_column s i) (\<lambda>column. Inl (TypeMismatchError (''Invalid value for column: '' @ col_name column)))
      else Inr ())"

definition bind_insert ::
    "('e, 'c) storage_engine \<Rightarrow> 'e \<Rightarrow> string \<Rightarrow> string list \<Rightarrow> expression list \<Rightarrow> bound_insert_statement res" where
  "bind_insert eng st table_name column_names values =
     rbind (get_schema eng st table_name) (\<lambda>s.
       if length column_names \<noteq> length values then
         Inl (InvalidQueryError ''The number of insert values does not match the number of columns'')
       else
         rbind (rfold (assign_column s) (zip column_names values)
                  (replicate (schema_size s) None, replicate (schema_size s) False)) (\<lambda>(row_values, assigned).
         rbind (rmap (check_value s row_values) [0..<schema_size s]) (\<lambda>_.
           Inr \<lparr>bi_table_name = table_name, bi_schema = s, bi_row_values = row_values\<rparr>)))"

section \<open>SELECT\<close>

definition is_aggregate_item :: "bound_select_item \<Rightarrow> bool" where
  "is_aggregate_item item = (case item of BoundSelectAggregateExpression _ _ _ \<Rightarrow> True | _ \<Rightarrow> False)"

definition has_aggregates :: "bound_select_statement \<Rightarrow> bool" where
  "has_aggregates stmt \<longleftrightarrow> list_ex is_aggregate_item (bs_select_items stmt)"

definition validate_where :: "bound_select_statement \<Rightarrow> unit res" where
  "validate_where stmt =
     (case bs_where_expression stmt of
        Some e \<Rightarrow> if be_type e \<noteq> E_Boolean then Inl (InvalidQueryError ''WHERE expression must be BOOLEAN'') else Inr ()
      | None \<Rightarrow> Inr ())"

text \<open>\<open>operator==\<close> of \<open>std::optional<std::variant<..>>\<close>; doubles are compared as numbers.\<close>

fun val_equals :: "val \<Rightarrow> val \<Rightarrow> bool" where
  "val_equals (VInt a) (VInt b) = (a = b)"
| "val_equals (VDouble a) (VDouble b) = d64_eq a b"
| "val_equals (VString a) (VString b) = (a = b)"
| "val_equals _ _ = False"

fun nullable_equals :: "nullable_value \<Rightarrow> nullable_value \<Rightarrow> bool" where
  "nullable_equals None None = True"
| "nullable_equals (Some a) (Some b) = val_equals a b"
| "nullable_equals _ _ = False"

fun are_equivalent_expressions :: "bound_expression \<Rightarrow> bound_expression \<Rightarrow> bool" where
  "are_equivalent_expressions (BoundLiteralExpression v ty) (BoundLiteralExpression w ty') \<longleftrightarrow>
     ty = ty' \<and> nullable_equals v w"
| "are_equivalent_expressions (BoundColumnExpression i ty) (BoundColumnExpression j ty') \<longleftrightarrow>
     value_type_to_expression_type ty = value_type_to_expression_type ty' \<and> i = j"
| "are_equivalent_expressions (BoundUnaryExpression op e) (BoundUnaryExpression op' e') \<longleftrightarrow>
     op = op' \<and> are_equivalent_expressions e e'"
| "are_equivalent_expressions (BoundBinaryExpression op l r) (BoundBinaryExpression op' l' r') \<longleftrightarrow>
     op = op' \<and> are_equivalent_expressions l l' \<and> are_equivalent_expressions r r'"
| "are_equivalent_expressions (BoundIsNullExpression e is_not) (BoundIsNullExpression e' is_not') \<longleftrightarrow>
     is_not = is_not' \<and> are_equivalent_expressions e e'"
| "are_equivalent_expressions _ _ \<longleftrightarrow> False"

definition check_group_item :: "bound_select_statement \<Rightarrow> bound_select_item \<Rightarrow> unit res" where
  "check_group_item stmt item =
     (case item of
        BoundSelectItemExpression e \<Rightarrow>
          if list_ex (are_equivalent_expressions e) (bs_group_by_items stmt) then Inr ()
          else Inl (InvalidQueryError ''Non-aggregate SELECT item must appear in GROUP BY'')
      | BoundSelectAggregateExpression _ _ _ \<Rightarrow> Inr ())"

definition validate_grouped_select :: "bound_select_statement \<Rightarrow> unit res" where
  "validate_grouped_select stmt =
     (if \<not> has_aggregates stmt \<and> bs_group_by_items stmt = [] then Inr ()
      else if has_aggregates stmt \<and> bs_group_by_items stmt = [] then
        (if list_all is_aggregate_item (bs_select_items stmt) then Inr ()
         else Inl (InvalidQueryError
           ''Non-aggregate SELECT item is not allowed without GROUP BY when aggregates are present''))
      else rbind (rmap (check_group_item stmt) (bs_select_items stmt)) (\<lambda>_. Inr ()))"

definition bind_where :: "schema \<Rightarrow> expression option \<Rightarrow> bound_expression option res" where
  "bind_where s e = (case e of None \<Rightarrow> Inr None | Some e \<Rightarrow> rbind (bind_expression s e) (\<lambda>b. Inr (Some b)))"

definition bind_select :: "('e, 'c) storage_engine \<Rightarrow> 'e \<Rightarrow> select_statement \<Rightarrow> bound_select_statement res" where
  "bind_select eng st stmt =
     rbind (get_schema eng st (se_table_name stmt)) (\<lambda>s.
     rbind (rmap (bind_select_item s) (se_select_items stmt)) (\<lambda>items.
     rbind (bind_where s (se_where_expression stmt)) (\<lambda>cond.
     rbind (rmap (bind_expression s) (se_group_by_items stmt)) (\<lambda>groups.
     rbind (rmap (bind_order_by_item s) (se_order_by_items stmt)) (\<lambda>orders.
       let bound = \<lparr>bs_table_name = se_table_name stmt, bs_schema = s, bs_select_items = concat items,
             bs_where_expression = cond, bs_group_by_items = groups, bs_order_by_items = orders,
             bs_limit = se_limit stmt\<rparr>
       in rbind (validate_where bound) (\<lambda>_. rbind (validate_grouped_select bound) (\<lambda>_. Inr bound)))))))"

definition bind :: "('e, 'c) storage_engine \<Rightarrow> 'e \<Rightarrow> statement \<Rightarrow> bound_statement res" where
  "bind eng st stmt =
     (case stmt of
        CreateTableStatement table_name cols \<Rightarrow> bind_create_table table_name cols
      | InsertStatement table_name column_names values \<Rightarrow>
          rbind (bind_insert eng st table_name column_names values) (\<lambda>b. Inr (BoundInsertStatement b))
      | SelectStatement select \<Rightarrow> rbind (bind_select eng st select) (\<lambda>b. Inr (BoundSelectStatement b)))"

section \<open>Bound expressions of a schema\<close>

text \<open>Column references of a schema, and literals with the type of their value.\<close>

fun literal_ok :: "nullable_value \<Rightarrow> expression_type \<Rightarrow> bool" where
  "literal_ok None ty \<longleftrightarrow> ty = E_Null"
| "literal_ok (Some (VInt n)) ty \<longleftrightarrow> ty = E_Int64"
| "literal_ok (Some (VDouble d)) ty \<longleftrightarrow> ty = E_Double"
| "literal_ok (Some (VString s)) ty \<longleftrightarrow> ty = E_String"

fun expression_ok :: "schema \<Rightarrow> bound_expression \<Rightarrow> bool" where
  "expression_ok s (BoundLiteralExpression v ty) \<longleftrightarrow> literal_ok v ty"
| "expression_ok s (BoundColumnExpression i ty) \<longleftrightarrow> i < schema_size s \<and> ty = col_type (columns s ! i)"
| "expression_ok s (BoundUnaryExpression op e) \<longleftrightarrow> expression_ok s e"
| "expression_ok s (BoundBinaryExpression op l r) \<longleftrightarrow> expression_ok s l \<and> expression_ok s r"
| "expression_ok s (BoundIsNullExpression e is_not) \<longleftrightarrow> expression_ok s e"

end
