(* ===== verification/Result_Values.thy ===== *)
theory Result_Values
  imports Binder "HOL-Library.List_Lexorder" "HOL-Library.Char_ord"
begin

text \<open>
  The values a query computes with (\<open>executor/execution_result.hpp\<close>), their comparison, and the
  evaluation of bound expressions in a row (the corresponding functions of
  \<open>src/executor/executor.cpp\<close>). The lemmas give the type of what is computed: an expression whose
  operands fit their operators evaluates without an exception to a value of its bound type.
\<close>

section \<open>Values\<close>

text \<open>\<open>std::variant<std::int64_t, double, std::string, bool>\<close>; \<open>None\<close> is NULL.\<close>

datatype result_value = R_Int i64 | R_Double double | R_String string | R_Bool bool

type_synonym nullable_result = "result_value option"

type_synonym result_row = "nullable_result list"

fun result_of :: "val \<Rightarrow> result_value" where
  "result_of (VInt n) = R_Int n"
| "result_of (VDouble d) = R_Double d"
| "result_of (VString s) = R_String s"

definition incompatible :: "'a res" where
  "incompatible = Inl (RuntimeError ''Incompatible types in comparison'')"

text \<open>\<open>a < b\<close> gives -1, \<open>a > b\<close> gives 1, neither gives 0. Strings are compared by their bytes.\<close>

definition compare_by :: "('a \<Rightarrow> 'a \<Rightarrow> bool) \<Rightarrow> 'a \<Rightarrow> 'a \<Rightarrow> int" where
  "compare_by lt a b = (if lt a b then -1 else if lt b a then 1 else 0)"

fun compare_result_values :: "result_value \<Rightarrow> result_value \<Rightarrow> int res" where
  "compare_result_values (R_Int a) (R_Int b) = Inr (compare_by (<) a b)"
| "compare_result_values (R_Int a) (R_Double b) = Inr (compare_by d64_lt (d64_of_i64 a) b)"
| "compare_result_values (R_Double a) (R_Double b) = Inr (compare_by d64_lt a b)"
| "compare_result_values (R_Double a) (R_Int b) = Inr (compare_by d64_lt a (d64_of_i64 b))"
| "compare_result_values (R_String a) (R_String b) = Inr (compare_by (<) a b)"
| "compare_result_values (R_Bool a) (R_Bool b) = Inr (if a = b then 0 else if a then 1 else -1)"
| "compare_result_values _ _ = incompatible"

fun compare_nullable_result_values :: "nullable_result \<Rightarrow> nullable_result \<Rightarrow> int res" where
  "compare_nullable_result_values None None = Inr 0"
| "compare_nullable_result_values None (Some _) = Inr 1"
| "compare_nullable_result_values (Some _) None = Inr (-1)"
| "compare_nullable_result_values (Some a) (Some b) = compare_result_values a b"

section \<open>Evaluation\<close>

fun get_bool :: "string \<Rightarrow> result_value \<Rightarrow> bool res" where
  "get_bool message (R_Bool b) = Inr b"
| "get_bool message _ = Inl (RuntimeError message)"

fun apply_unary :: "unary_operation \<Rightarrow> nullable_result \<Rightarrow> nullable_result res" where
  "apply_unary Op_Not None = Inr None"
| "apply_unary Op_Not (Some v) = rbind (get_bool ''Unary NOT expects BOOLEAN'' v) (\<lambda>b. Inr (Some (R_Bool (\<not> b))))"

text \<open>
  AND and OR evaluate both operands first; a left operand that decides is returned before the right one
  is looked at. \<open>stop\<close> is the value that decides: false for AND, true for OR.
\<close>

definition apply_logic :: "string \<Rightarrow> bool \<Rightarrow> nullable_result \<Rightarrow> nullable_result \<Rightarrow> nullable_result res" where
  "apply_logic message stop left right =
     rbind (case left of None \<Rightarrow> Inr False | Some v \<Rightarrow> rbind (get_bool message v) (\<lambda>b. Inr (b = stop))) (\<lambda>decided.
       if decided then Inr (Some (R_Bool stop))
       else rbind (case right of None \<Rightarrow> Inr False | Some v \<Rightarrow> rbind (get_bool message v) (\<lambda>b. Inr (b = stop))) (\<lambda>decided.
         if decided then Inr (Some (R_Bool stop))
         else if left = None \<or> right = None then Inr None
         else Inr (Some (R_Bool (\<not> stop)))))"

fun comparison_holds :: "binary_operation \<Rightarrow> int \<Rightarrow> bool res" where
  "comparison_holds Op_Equal c = Inr (c = 0)"
| "comparison_holds Op_NotEqual c = Inr (c \<noteq> 0)"
| "comparison_holds Op_Less c = Inr (c < 0)"
| "comparison_holds Op_LessEqual c = Inr (c \<le> 0)"
| "comparison_holds Op_Greater c = Inr (c > 0)"
| "comparison_holds Op_GreaterEqual c = Inr (c \<ge> 0)"
| "comparison_holds _ c = Inl (RuntimeError ''Unsupported binary operation'')"

definition apply_binary :: "binary_operation \<Rightarrow> nullable_result \<Rightarrow> nullable_result \<Rightarrow> nullable_result res" where
  "apply_binary op left right =
     (if op = Op_And then apply_logic ''AND expects BOOLEAN operands'' False left right
      else if op = Op_Or then apply_logic ''OR expects BOOLEAN operands'' True left right
      else case (left, right) of
          (Some l, Some r) \<Rightarrow>
            rbind (compare_result_values l r) (\<lambda>c. rbind (comparison_holds op c) (\<lambda>b. Inr (Some (R_Bool b))))
        | _ \<Rightarrow> Inr None)"

text \<open>The cursor is used through its \<open>value\<close> method only.\<close>

fun evaluate_expression :: "(nat \<Rightarrow> nullable_value res) \<Rightarrow> bound_expression \<Rightarrow> nullable_result res" where
  "evaluate_expression rd (BoundLiteralExpression v ty) = Inr (map_option result_of v)"
| "evaluate_expression rd (BoundColumnExpression i ty) = rbind (rd i) (\<lambda>v. Inr (map_option result_of v))"
| "evaluate_expression rd (BoundUnaryExpression op e) = rbind (evaluate_expression rd e) (apply_unary op)"
| "evaluate_expression rd (BoundBinaryExpression op l r) =
     rbind (evaluate_expression rd l) (\<lambda>x. rbind (evaluate_expression rd r) (apply_binary op x))"
| "evaluate_expression rd (BoundIsNullExpression e is_not) =
     rbind (evaluate_expression rd e) (\<lambda>v. Inr (Some (R_Bool (if is_not then v \<noteq> None else v = None))))"

definition evaluate_predicate :: "(nat \<Rightarrow> nullable_value res) \<Rightarrow> bound_expression \<Rightarrow> bool res" where
  "evaluate_predicate rd e =
     rbind (evaluate_expression rd e) (\<lambda>v.
       case v of None \<Rightarrow> Inr False | Some x \<Rightarrow> get_bool ''WHERE expression must evaluate to BOOLEAN'' x)"

section \<open>The columns an expression reads\<close>

fun columns_of :: "bound_expression \<Rightarrow> nat set" where
  "columns_of (BoundLiteralExpression v ty) = {}"
| "columns_of (BoundColumnExpression i ty) = {i}"
| "columns_of (BoundUnaryExpression op e) = columns_of e"
| "columns_of (BoundBinaryExpression op l r) = columns_of l \<union> columns_of r"
| "columns_of (BoundIsNullExpression e is_not) = columns_of e"

lemma evaluate_cong:
  "(\<And>i. i \<in> columns_of e \<Longrightarrow> rd i = rd' i) \<Longrightarrow> evaluate_expression rd e = evaluate_expression rd' e"
  by (induction e) (auto intro!: rbind_cong)

text \<open>Evaluation in a row, the reference for evaluation at a cursor.\<close>

definition row_value :: "row \<Rightarrow> nat \<Rightarrow> nullable_value res" where
  "row_value r i = Inr (r ! i)"

section \<open>Types\<close>

definition logical :: "expression_type \<Rightarrow> bool" where
  "logical ty \<longleftrightarrow> ty = E_Boolean \<or> ty = E_Null"

definition comparable :: "expression_type \<Rightarrow> expression_type \<Rightarrow> bool" where
  "comparable a b \<longleftrightarrow> a = E_Null \<or> b = E_Null \<or> a = b \<or> is_numeric_expression_type a \<and> is_numeric_expression_type b"

text \<open>Operands that fit the operator; the binder does not check this.\<close>

fun operands_ok :: "bound_expression \<Rightarrow> bool" where
  "operands_ok (BoundUnaryExpression op e) \<longleftrightarrow> operands_ok e \<and> logical (be_type e)"
| "operands_ok (BoundBinaryExpression op l r) \<longleftrightarrow>
     operands_ok l \<and> operands_ok r \<and>
     (if op = Op_And \<or> op = Op_Or then logical (be_type l) \<and> logical (be_type r) else comparable (be_type l) (be_type r))"
| "operands_ok (BoundIsNullExpression e is_not) \<longleftrightarrow> operands_ok e"
| "operands_ok _ \<longleftrightarrow> True"

fun has_result_type :: "nullable_result \<Rightarrow> expression_type \<Rightarrow> bool" where
  "has_result_type None ty \<longleftrightarrow> True"
| "has_result_type (Some (R_Int n)) ty \<longleftrightarrow> ty = E_Int64"
| "has_result_type (Some (R_Double d)) ty \<longleftrightarrow> ty = E_Double"
| "has_result_type (Some (R_String s)) ty \<longleftrightarrow> ty = E_String"
| "has_result_type (Some (R_Bool b)) ty \<longleftrightarrow> ty = E_Boolean"

lemma comparable_values:
  assumes "comparable (be_type l) (be_type r)" "has_result_type (Some x) (be_type l)" "has_result_type (Some y) (be_type r)"
  shows "\<exists>c. compare_result_values x y = Inr c"
  using assms by (cases x; cases y) (auto simp: comparable_def is_numeric_expression_type_def)

lemma get_bool_typed: "has_result_type (Some x) ty \<Longrightarrow> logical ty \<Longrightarrow> \<exists>b. x = R_Bool b"
  by (cases x) (auto simp: logical_def)

lemma apply_unary_typed:
  assumes "has_result_type v ty" "logical ty"
  shows "\<exists>w. apply_unary op v = Inr w \<and> has_result_type w E_Boolean"
proof (cases v)
  case (Some x)
  then show ?thesis using get_bool_typed assms by (cases op) fastforce
qed (cases op; simp)

lemma apply_logic_typed:
  assumes "has_result_type v ty" "logical ty" "has_result_type w ty'" "logical ty'"
  shows "\<exists>z. apply_logic m stop v w = Inr z \<and> has_result_type z E_Boolean"
proof -
  have "v = None \<or> (\<exists>b. v = Some (R_Bool b))" "w = None \<or> (\<exists>b. w = Some (R_Bool b))"
    using assms get_bool_typed by (metis option.exhaust)+
  then show ?thesis by (elim disjE exE) (auto simp: apply_logic_def)
qed

lemma apply_binary_typed:
  assumes "has_result_type v (be_type l)" "has_result_type w (be_type r)"
    and "if op = Op_And \<or> op = Op_Or then logical (be_type l) \<and> logical (be_type r) else comparable (be_type l) (be_type r)"
  shows "\<exists>z. apply_binary op v w = Inr z \<and> has_result_type z E_Boolean"
proof (cases "op = Op_And \<or> op = Op_Or")
  case True
  then show ?thesis using assms apply_logic_typed by (auto simp: apply_binary_def)
next
  case False
  show ?thesis
  proof (cases "v = None \<or> w = None")
    case True
    then show ?thesis using False by (auto simp: apply_binary_def split: option.split)
  next
    case some: False
    then obtain x y where xy: "v = Some x" "w = Some y" by auto
    then obtain c where "compare_result_values x y = Inr c" using comparable_values assms False by metis
    then show ?thesis using False xy by (cases op) (simp_all add: apply_binary_def)
  qed
qed

lemma column_typed:
  assumes "valid_row s r" "i < schema_size s"
  shows "has_result_type (map_option result_of (r ! i)) (value_type_to_expression_type (col_type (columns s ! i)))"
proof (cases "r ! i")
  case (Some x)
  have "i < length r" "is_valid_value s i (r ! i)" using assms by (simp_all add: valid_row_def)
  then have "holds_type (col_type (columns s ! i)) x" using Some assms(2) by (simp add: is_valid_value_def schema_size_def)
  then show ?thesis using Some by (cases x; cases "col_type (columns s ! i)") simp_all
qed simp

lemma evaluate_typed:
  assumes "valid_row s r" "expression_ok s e" "operands_ok e"
  shows "\<exists>v. evaluate_expression (row_value r) e = Inr v \<and> has_result_type v (be_type e)"
  using assms(2,3)
proof (induction e)
  case (BoundLiteralExpression v ty)
  then show ?case by (cases v; cases "the v") simp_all
next
  case (BoundColumnExpression i ty)
  then show ?case using column_typed [OF assms(1)] by (simp add: row_value_def)
next
  case (BoundUnaryExpression op e)
  then show ?case using apply_unary_typed by fastforce
next
  case (BoundBinaryExpression op a b)
  then obtain v w where vw: "evaluate_expression (row_value r) a = Inr v" "has_result_type v (be_type a)"
    "evaluate_expression (row_value r) b = Inr w" "has_result_type w (be_type b)" by auto
  have "\<exists>z. apply_binary op v w = Inr z \<and> has_result_type z E_Boolean"
    using apply_binary_typed [OF vw(2,4), of op] BoundBinaryExpression.prems by (simp split: if_splits)
  then show ?case using vw(1,3) by simp
next
  case (BoundIsNullExpression e is_not)
  then show ?case by fastforce
qed

lemma evaluate_predicate_typed:
  assumes "valid_row s r" "expression_ok s e" "operands_ok e" "be_type e = E_Boolean"
  shows "\<exists>b. evaluate_predicate (row_value r) e = Inr b"
proof -
  obtain v where v: "evaluate_expression (row_value r) e = Inr v" "has_result_type v E_Boolean"
    using evaluate_typed [OF assms(1-3)] assms(4) by auto
  have "v = None \<or> (\<exists>b. v = Some (R_Bool b))" using v(2) get_bool_typed [of _ E_Boolean] by (cases v) (auto simp: logical_def)
  then show ?thesis using v(1) by (auto simp: evaluate_predicate_def)
qed

text \<open>Reading at a cursor and in the row it stands on.\<close>

lemma evaluate_predicate_cong:
  "(\<And>i. i \<in> columns_of e \<Longrightarrow> rd i = rd' i) \<Longrightarrow> evaluate_predicate rd e = evaluate_predicate rd' e"
  unfolding evaluate_predicate_def using evaluate_cong [of e rd rd'] by simp

lemma columns_of_ok: "expression_ok s e \<Longrightarrow> columns_of e \<subseteq> {..<schema_size s}"
  by (induction e) auto

end
