(* ===== verification/Select_Plan.thy ===== *)
theory Select_Plan
  imports Result_Values Text_Num
begin

text \<open>
  What the executor (\<open>src/executor/executor.cpp\<close>) decides about a query before it reads a row: the
  conjuncts of WHERE, the columns to project and their names, the key bounds or the single key to look
  up, and the predicates handed to data skipping.
\<close>

section \<open>Conjuncts\<close>

fun collect_conjuncts :: "bound_expression \<Rightarrow> bound_expression list" where
  "collect_conjuncts (BoundBinaryExpression op l r) =
     (if op = Op_And then collect_conjuncts l @ collect_conjuncts r else [BoundBinaryExpression op l r])"
| "collect_conjuncts e = [e]"

definition where_conjuncts :: "bound_select_statement \<Rightarrow> bound_expression list" where
  "where_conjuncts stmt = (case bs_where_expression stmt of None \<Rightarrow> [] | Some e \<Rightarrow> collect_conjuncts e)"

section \<open>Order, names and projection\<close>

definition is_required_key_asc :: "bound_select_statement \<Rightarrow> bool" where
  "is_required_key_asc stmt =
     (case bs_order_by_items stmt of
        [] \<Rightarrow> False
      | item # _ \<Rightarrow>
          if bo_direction item \<noteq> Asc then False
          else (case bo_expression item of BoundColumnExpression i _ \<Rightarrow> i = KEY_COLUMN_INDEX | _ \<Rightarrow> False))"

definition can_apply_early_limit :: "bound_select_statement \<Rightarrow> bool" where
  "can_apply_early_limit stmt \<longleftrightarrow>
     bs_limit stmt \<noteq> None \<and> bs_order_by_items stmt = [] \<and> bs_group_by_items stmt = [] \<and> \<not> has_aggregates stmt"

fun aggregate_name :: "aggregate_kind \<Rightarrow> string" where
  "aggregate_name Agg_Count = ''count''"
| "aggregate_name Agg_Sum = ''sum''"
| "aggregate_name Agg_Avg = ''avg''"
| "aggregate_name Agg_Min = ''min''"
| "aggregate_name Agg_Max = ''max''"

fun select_item_name :: "schema \<Rightarrow> nat \<times> bound_select_item \<Rightarrow> string res" where
  "select_item_name s (i, BoundSelectItemExpression e) =
     (case e of
        BoundColumnExpression ci _ \<Rightarrow> rbind (get_column s ci) (\<lambda>c. Inr (col_name c))
      | _ \<Rightarrow> Inr (''expression'' @ dec_digits (i + 1)))"
| "select_item_name s (i, BoundSelectAggregateExpression kind e ty) =
     (case e of
        BoundColumnExpression ci _ \<Rightarrow>
          rbind (get_column s ci) (\<lambda>c. Inr (aggregate_name kind @ ''('' @ col_name c @ '')''))
      | _ \<Rightarrow> Inr (aggregate_name kind @ ''(expression'' @ dec_digits (i + 1) @ '')''))"

definition build_select_column_names :: "bound_select_statement \<Rightarrow> string list res" where
  "build_select_column_names stmt =
     rmap (select_item_name (bs_schema stmt)) (zip [0..<length (bs_select_items stmt)] (bs_select_items stmt))"

text \<open>The state is \<open>projection\<close> and \<open>used_columns\<close>.\<close>

fun collect_projection_from_expression :: "bound_expression \<Rightarrow> nat list \<times> bool list \<Rightarrow> nat list \<times> bool list" where
  "collect_projection_from_expression (BoundLiteralExpression v ty) acc = acc"
| "collect_projection_from_expression (BoundColumnExpression i ty) (projection, used) =
     (if \<not> used ! i then (projection @ [i], used[i := True]) else (projection, used))"
| "collect_projection_from_expression (BoundUnaryExpression op e) acc = collect_projection_from_expression e acc"
| "collect_projection_from_expression (BoundBinaryExpression op l r) acc =
     collect_projection_from_expression r (collect_projection_from_expression l acc)"
| "collect_projection_from_expression (BoundIsNullExpression e is_not) acc = collect_projection_from_expression e acc"

fun item_expression :: "bound_select_item \<Rightarrow> bound_expression" where
  "item_expression (BoundSelectItemExpression e) = e"
| "item_expression (BoundSelectAggregateExpression kind e ty) = e"

definition statement_expressions :: "bound_select_statement \<Rightarrow> bound_expression list" where
  "statement_expressions stmt =
     map item_expression (bs_select_items stmt) @
     (case bs_where_expression stmt of None \<Rightarrow> [] | Some e \<Rightarrow> [e]) @
     bs_group_by_items stmt @ map bo_expression (bs_order_by_items stmt)"

definition collect_required_projection :: "bound_select_statement \<Rightarrow> nat list" where
  "collect_required_projection stmt =
     fst (fold collect_projection_from_expression (statement_expressions stmt)
            ([], replicate (schema_size (bs_schema stmt)) False))"

section \<open>Key bounds\<close>

record key_bounds =
  kb_point :: "key option"
  kb_from :: "key option"
  kb_to :: "key option"
  kb_range :: bool
  kb_empty :: bool

definition no_bounds :: key_bounds where
  "no_bounds = \<lparr>kb_point = None, kb_from = None, kb_to = None, kb_range = False, kb_empty = False\<rparr>"

definition raise_from :: "key \<Rightarrow> key_bounds \<Rightarrow> key_bounds" where
  "raise_from k kb =
     (if (case kb_from kb of None \<Rightarrow> True | Some f \<Rightarrow> k > f) then kb\<lparr>kb_from := Some k\<rparr> else kb)"

definition lower_to :: "key \<Rightarrow> key_bounds \<Rightarrow> key_bounds" where
  "lower_to k kb =
     (if (case kb_to kb of None \<Rightarrow> True | Some t \<Rightarrow> k < t) then kb\<lparr>kb_to := Some k\<rparr> else kb)"

text \<open>The switch over the operator; \<open>left\<close> says that the column is the left operand.\<close>

fun restrict_key :: "binary_operation \<Rightarrow> bool \<Rightarrow> key \<Rightarrow> key_bounds \<Rightarrow> key_bounds" where
  "restrict_key Op_Equal left k kb =
     (case kb_point kb of
        None \<Rightarrow> kb\<lparr>kb_point := Some k\<rparr>
      | Some p \<Rightarrow> if p \<noteq> k then kb\<lparr>kb_empty := True\<rparr> else kb)"
| "restrict_key Op_Greater left k kb =
     (let kb = kb\<lparr>kb_range := True\<rparr> in
      if left then (if k = i64_max then kb\<lparr>kb_empty := True\<rparr> else raise_from (i64_succ k) kb)
      else lower_to k kb)"
| "restrict_key Op_GreaterEqual left k kb =
     (let kb = kb\<lparr>kb_range := True\<rparr> in
      if left then raise_from k kb
      else if k \<noteq> i64_max then lower_to (i64_succ k) kb else kb)"
| "restrict_key Op_Less left k kb =
     (let kb = kb\<lparr>kb_range := True\<rparr> in
      if left then lower_to k kb
      else if k = i64_max then kb\<lparr>kb_empty := True\<rparr> else raise_from (i64_succ k) kb)"
| "restrict_key Op_LessEqual left k kb =
     (let kb = kb\<lparr>kb_range := True\<rparr> in
      if left then (if k \<noteq> i64_max then lower_to (i64_succ k) kb else kb)
      else raise_from k kb)"
| "restrict_key op left k kb = kb"

text \<open>A comparison of a column with a literal, as the column, the literal and the side of the column.\<close>

fun column_literal :: "bound_expression \<Rightarrow> (binary_operation \<times> nat \<times> nullable_value \<times> bool) option" where
  "column_literal (BoundBinaryExpression op (BoundColumnExpression i ty) (BoundLiteralExpression v ty')) = Some (op, i, v, True)"
| "column_literal (BoundBinaryExpression op (BoundLiteralExpression v ty') (BoundColumnExpression i ty)) = Some (op, i, v, False)"
| "column_literal _ = None"

definition key_conjunct :: "schema \<Rightarrow> bound_expression \<Rightarrow> key_bounds \<Rightarrow> key_bounds res" where
  "key_conjunct s e kb =
     (case column_literal e of
        None \<Rightarrow> Inr kb
      | Some (op, i, v, left) \<Rightarrow>
          rbind (get_column s i) (\<lambda>c.
            if \<not> col_is_key c then Inr kb
            else case v of
              None \<Rightarrow> Inr (kb\<lparr>kb_empty := True\<rparr>)
            | Some x \<Rightarrow> rbind (get_int x) (\<lambda>k. Inr (restrict_key op left k kb))))"

fun key_conjuncts :: "schema \<Rightarrow> bound_expression list \<Rightarrow> key_bounds \<Rightarrow> key_bounds res" where
  "key_conjuncts s [] kb = Inr kb"
| "key_conjuncts s (e # es) kb =
     rbind (key_conjunct s e kb) (\<lambda>kb. if kb_empty kb then Inr kb else key_conjuncts s es kb)"

datatype access_path = EmptyResult | PointLookup key | RangeScan "key option" "key option"

definition access_path_of :: "key_bounds \<Rightarrow> access_path" where
  "access_path_of kb =
     (if kb_empty kb then EmptyResult
      else case kb_point kb of
        Some k \<Rightarrow> PointLookup k
      | None \<Rightarrow>
          if kb_range kb then
            (case (kb_from kb, kb_to kb) of
               (Some f, Some t) \<Rightarrow> if f \<ge> t then EmptyResult else RangeScan (Some f) (Some t)
             | _ \<Rightarrow> RangeScan (kb_from kb) (kb_to kb))
          else RangeScan None None)"

section \<open>Data skipping\<close>

fun is_numeric_literal :: "nullable_value \<Rightarrow> bool" where
  "is_numeric_literal (Some (VInt _)) = True"
| "is_numeric_literal (Some (VDouble _)) = True"
| "is_numeric_literal _ = False"

fun convert_operation :: "binary_operation \<Rightarrow> ncmp option" where
  "convert_operation Op_Equal = Some CmpEqual"
| "convert_operation Op_Less = Some CmpLess"
| "convert_operation Op_LessEqual = Some CmpLessEqual"
| "convert_operation Op_Greater = Some CmpGreater"
| "convert_operation Op_GreaterEqual = Some CmpGreaterEqual"
| "convert_operation _ = None"

fun reverse_operation :: "ncmp \<Rightarrow> ncmp" where
  "reverse_operation CmpEqual = CmpEqual"
| "reverse_operation CmpLess = CmpGreater"
| "reverse_operation CmpLessEqual = CmpGreaterEqual"
| "reverse_operation CmpGreater = CmpLess"
| "reverse_operation CmpGreaterEqual = CmpLessEqual"

definition skip_conjunct :: "schema \<Rightarrow> bound_expression \<Rightarrow> skip_filter" where
  "skip_conjunct s e =
     (case column_literal e of
        None \<Rightarrow> []
      | Some (op, i, v, left) \<Rightarrow>
          (case convert_operation op of
             None \<Rightarrow> []
           | Some cmp \<Rightarrow>
               if \<not> is_numeric_literal v \<or> i \<ge> schema_size s then []
               else let c = columns s ! i in
                 if col_is_key c \<or> \<not> is_numeric_type (col_type c) then []
                 else (case v of
                    None \<Rightarrow> []
                  | Some x \<Rightarrow> (case val_nval x of
                       None \<Rightarrow> []
                     | Some n \<Rightarrow> [\<lparr>np_column = i, np_op = (if left then cmp else reverse_operation cmp), np_value = n\<rparr>]))))"

definition build_data_skipping_filter :: "bound_select_statement \<Rightarrow> skip_filter" where
  "build_data_skipping_filter stmt = concat (map (skip_conjunct (bs_schema stmt)) (where_conjuncts stmt))"

section \<open>The cursor of a query\<close>

text \<open>\<open>None\<close> is the empty result, for which no cursor is opened.\<close>

definition build_cursor_for_select ::
    "('e, 'c) storage_engine \<Rightarrow> bound_select_statement \<Rightarrow> nat list \<Rightarrow> bool \<Rightarrow> 'e \<Rightarrow> 'c option res \<times> 'e" where
  "build_cursor_for_select eng stmt projection requires_key_asc st =
     (case key_conjuncts (bs_schema stmt) (where_conjuncts stmt) no_bounds of
        Inl e \<Rightarrow> (Inl e, st)
      | Inr kb \<Rightarrow>
          (case access_path_of kb of
             EmptyResult \<Rightarrow> (Inr None, st)
           | PointLookup k \<Rightarrow>
               sbind (eng_get eng (bs_table_name stmt) k projection st) (\<lambda>c st. (Inr (Some c), st))
           | RangeScan lo hi \<Rightarrow>
               sbind (eng_scan eng (bs_table_name stmt) lo hi projection
                   (if requires_key_asc then KeyAscending else Unordered) (build_data_skipping_filter stmt) st)
                 (\<lambda>c st. (Inr (Some c), st))))"

end
