(* ===== verification/Float_Arith.thy ===== *)
theory Float_Arith
  imports Text_Num
begin

text \<open>
  The arithmetic the executor's aggregates use: \<open>int64_t\<close> addition, whose overflow is undefined
  behaviour, and the addition and division of \<open>double\<close> values, the exact result rounded to nearest,
  ties to even. Every NaN result is one pattern, since the program never reads the payload of a NaN.
\<close>

section \<open>Integers\<close>

definition i64_add :: "i64 \<Rightarrow> i64 \<Rightarrow> i64 res" where
  "i64_add a b =
     (let n = i64_val a + i64_val b in
      if - (2 ^ 63) \<le> n \<and> n < 2 ^ 63 then Inr (i64_of n)
      else Inl (LogicError ''undefined behaviour: signed overflow''))"

lemma i64_val_of: "- (2 ^ 63) \<le> n \<Longrightarrow> n < 2 ^ 63 \<Longrightarrow> i64_val (i64_of n) = n"
proof -
  assume n: "- (2 ^ 63) \<le> n" "n < 2 ^ 63"
  have "sint (word_of_int n :: 64 word) = signed_take_bit 63 n" by (simp add: sint_sbintrunc')
  also have "\<dots> = n" using n by (intro signed_take_bit_int_eq_self) simp_all
  finally show ?thesis by (simp add: i64_val_def i64_of_def)
qed

lemma i64_add_ok:
  "- (2 ^ 63) \<le> i64_val a + i64_val b \<Longrightarrow> i64_val a + i64_val b < 2 ^ 63 \<Longrightarrow>
   i64_add a b = Inr (i64_of (i64_val a + i64_val b))"
  by (simp add: i64_add_def)

section \<open>Doubles\<close>

definition d64_nan :: double where
  "d64_nan = D64 0x7FF8000000000000"

definition d64_infinity :: "bool \<Rightarrow> double" where
  "d64_infinity neg = d64_make neg d64_infinity_mag"

definition d64_isinf :: "double \<Rightarrow> bool" where
  "d64_isinf d \<longleftrightarrow> d64_mag d = d64_infinity_mag"

text \<open>\<open>std::numeric_limits<double>::max()\<close> and \<open>lowest()\<close>.\<close>

definition d64_largest :: double where
  "d64_largest = D64 0x7FEFFFFFFFFFFFFF"

definition d64_lowest :: double where
  "d64_lowest = D64 0xFFEFFFFFFFFFFFFF"

text \<open>The double nearest to \<open>n / d\<close>; beyond the largest finite one it is infinite.\<close>

definition d64_nearest :: "bool \<Rightarrow> nat \<Rightarrow> nat \<Rightarrow> double" where
  "d64_nearest neg n d =
     (if n = 0 then d64_make neg 0
      else
        let e1 = max (flog2_ratio n d) (- 1022);
            m = nat (e1 + 1022) * 2 ^ 52 + round_at (e1 - 52) n d
        in d64_make neg (min m d64_infinity_mag))"

text \<open>A finite double as an integer multiple of the smallest one, \<open>2 ^ -1074\<close>.\<close>

definition d64_scaled :: "double \<Rightarrow> int" where
  "d64_scaled d =
     (let s = int (fst (d64_parts d) * 2 ^ nat (snd (d64_parts d) + 1074)) in if d64_neg d then - s else s)"

definition d64_add :: "double \<Rightarrow> double \<Rightarrow> double" where
  "d64_add a b =
     (if d64_isnan a \<or> d64_isnan b then d64_nan
      else if d64_isinf a then (if d64_isinf b \<and> d64_neg a \<noteq> d64_neg b then d64_nan else a)
      else if d64_isinf b then b
      else
        let n = d64_scaled a + d64_scaled b in
        if n = 0 then d64_make (d64_neg a \<and> d64_neg b) 0
        else d64_nearest (n < 0) (nat \<bar>n\<bar>) (2 ^ 1074))"

definition d64_div :: "double \<Rightarrow> double \<Rightarrow> double" where
  "d64_div a b =
     (let neg = (d64_neg a \<noteq> d64_neg b) in
      if d64_isnan a \<or> d64_isnan b then d64_nan
      else if d64_isinf a then (if d64_isinf b then d64_nan else d64_infinity neg)
      else if d64_isinf b then d64_make neg 0
      else if d64_scaled b = 0 then (if d64_scaled a = 0 then d64_nan else d64_infinity neg)
      else d64_nearest neg (nat \<bar>d64_scaled a\<bar>) (nat \<bar>d64_scaled b\<bar>))"

end
