(* ===== verification/Executor.thy ===== *)
theory Executor
  imports Select_Plan Aggregates
begin

text \<open>
  Execution of bound statements over a storage engine (\<open>src/executor/executor.cpp\<close>): plain queries with
  ORDER BY and LIMIT, aggregates over all rows, and grouped queries. \<open>std::sort\<close>, whose result on equal
  elements is open, is a parameter; \<open>std::map\<close> is the list of its entries in ascending order.
\<close>

section \<open>Results\<close>

record select_result =
  sr_column_names :: "string list"
  sr_rows :: "result_row list"

datatype execution_result = CreateTableResult | InsertResult nat | SelectResult select_result

section \<open>Loops over a cursor that may stop\<close>

partial_function (option) cursor_loop_until ::
    "'c cursor_ops \<Rightarrow> ('c \<Rightarrow> 's \<Rightarrow> ('s \<times> bool) res) \<Rightarrow> 'c \<Rightarrow> 's \<Rightarrow> 's res option" where
  [code]: "cursor_loop_until ops body c s =
     (if \<not> cur_valid ops c then Some (Inr s)
      else case body c s of
        Inl e \<Rightarrow> Some (Inl e)
      | Inr (s', stop) \<Rightarrow>
          if stop then Some (Inr s')
          else (case cur_next ops c of
            Inl e \<Rightarrow> Some (Inl e)
          | Inr c' \<Rightarrow> cursor_loop_until ops body c' s'))"

fun rfold_until :: "('a \<Rightarrow> 's \<Rightarrow> ('s \<times> bool) res) \<Rightarrow> 'a list \<Rightarrow> 's \<Rightarrow> 's res" where
  "rfold_until f [] s = Inr s"
| "rfold_until f (x # xs) s = rbind (f x s) (\<lambda>(s', stop). if stop then Inr s' else rfold_until f xs s')"

section \<open>Sorting\<close>

type_synonym sort_row = "nullable_result list \<times> result_row"

type_synonym sorter = "(sort_row \<Rightarrow> sort_row \<Rightarrow> bool res) \<Rightarrow> sort_row list \<Rightarrow> sort_row list res"

fun sort_keys_less :: "order_direction list \<Rightarrow> nullable_result list \<Rightarrow> nullable_result list \<Rightarrow> bool res" where
  "sort_keys_less (d # ds) (x # xs) (y # ys) =
     rbind (compare_nullable_result_values x y) (\<lambda>c.
       if c = 0 then sort_keys_less ds xs ys
       else Inr (case d of Asc \<Rightarrow> c < 0 | Desc \<Rightarrow> c > 0))"
| "sort_keys_less _ _ _ = Inr False"

definition sort_row_less :: "bound_select_statement \<Rightarrow> sort_row \<Rightarrow> sort_row \<Rightarrow> bool res" where
  "sort_row_less stmt x y = sort_keys_less (map bo_direction (bs_order_by_items stmt)) (fst x) (fst y)"

section \<open>Plain queries\<close>

definition where_holds :: "bound_select_statement \<Rightarrow> (nat \<Rightarrow> nullable_value res) \<Rightarrow> bool res" where
  "where_holds stmt rd = (case bs_where_expression stmt of None \<Rightarrow> Inr True | Some e \<Rightarrow> evaluate_predicate rd e)"

fun plain_item :: "(nat \<Rightarrow> nullable_value res) \<Rightarrow> bound_select_item \<Rightarrow> nullable_result res" where
  "plain_item rd (BoundSelectItemExpression e) = evaluate_expression rd e"
| "plain_item rd (BoundSelectAggregateExpression kind e ty) =
     Inl (RuntimeError ''Plain SELECT does not support aggregate select items'')"

text \<open>The body of the loop; the state is \<open>result.rows\<close> and \<open>sorted_rows\<close>.\<close>

definition plain_step ::
    "bound_select_statement \<Rightarrow> bool \<Rightarrow> bool \<Rightarrow> (nat \<Rightarrow> nullable_value res) \<Rightarrow> result_row list \<times> sort_row list \<Rightarrow>
     ((result_row list \<times> sort_row list) \<times> bool) res" where
  "plain_step stmt requires_key_asc early rd acc =
     rbind (where_holds stmt rd) (\<lambda>keep.
       if \<not> keep then Inr (acc, False)
       else rbind (rmap (plain_item rd) (bs_select_items stmt)) (\<lambda>row.
         if bs_order_by_items stmt = [] \<or> requires_key_asc then
           (let rows = fst acc @ [row]
            in Inr ((rows, snd acc), early \<and> (case bs_limit stmt of None \<Rightarrow> False | Some n \<Rightarrow> length rows \<ge> n)))
         else rbind (rmap (\<lambda>item. evaluate_expression rd (bo_expression item)) (bs_order_by_items stmt)) (\<lambda>keys.
           Inr ((fst acc, snd acc @ [(keys, row)]), False))))"

text \<open>\<open>resize\<close> when the limit is smaller.\<close>

definition apply_limit :: "nat option \<Rightarrow> 'a list \<Rightarrow> 'a list" where
  "apply_limit limit rows = (case limit of None \<Rightarrow> rows | Some n \<Rightarrow> if length rows > n then take n rows else rows)"

text \<open>What follows the loop.\<close>

definition plain_finish ::
    "sorter \<Rightarrow> bound_select_statement \<Rightarrow> bool \<Rightarrow> bool \<Rightarrow> result_row list \<times> sort_row list \<Rightarrow> result_row list res" where
  "plain_finish sorter stmt requires_key_asc early acc =
     rbind (if bs_order_by_items stmt \<noteq> [] \<and> \<not> requires_key_asc then
              rbind (sorter (sort_row_less stmt) (snd acc)) (\<lambda>sorted. Inr (fst acc @ map snd sorted))
            else Inr (fst acc)) (\<lambda>rows.
       Inr (if \<not> early then apply_limit (bs_limit stmt) rows else rows))"

definition execute_plain_select ::
    "('e, 'c) storage_engine \<Rightarrow> sorter \<Rightarrow> bound_select_statement \<Rightarrow> string list \<Rightarrow> nat list \<Rightarrow> bool \<Rightarrow> 'e \<Rightarrow>
     select_result res option \<times> 'e" where
  "execute_plain_select eng sorter stmt column_names projection can_limit st =
     (let requires_key_asc = is_required_key_asc stmt;
          early = (if requires_key_asc then requires_key_asc else can_limit)
      in case build_cursor_for_select eng stmt projection requires_key_asc st of
        (Inl e, st) \<Rightarrow> (Some (Inl e), st)
      | (Inr None, st) \<Rightarrow> (Some (Inr \<lparr>sr_column_names = column_names, sr_rows = []\<rparr>), st)
      | (Inr (Some c), st) \<Rightarrow>
          (obind (cursor_loop_until (eng_cursor eng)
              (\<lambda>c. plain_step stmt requires_key_asc early (cur_value (eng_cursor eng) c)) c ([], [])) (\<lambda>acc.
             Some (rbind (plain_finish sorter stmt requires_key_asc early acc) (\<lambda>rows.
               Inr \<lparr>sr_column_names = column_names, sr_rows = rows\<rparr>))), st))"

section \<open>Aggregates over all rows\<close>

fun global_item :: "bound_select_item \<Rightarrow> (aggregate_kind \<times> bound_expression \<times> expression_type) res" where
  "global_item (BoundSelectAggregateExpression kind e ty) = Inr (kind, e, ty)"
| "global_item (BoundSelectItemExpression e) =
     Inl (RuntimeError ''Global aggregate SELECT expects aggregate select items only'')"

text \<open>The inner loop: every aggregate sees the row.\<close>

definition update_aggregate ::
    "(nat \<Rightarrow> nullable_value res) \<Rightarrow> (aggregate_kind \<times> bound_expression \<times> expression_type) \<times> aggregate_state \<Rightarrow> aggregate_state res" where
  "update_aggregate rd entry =
     (case entry of ((kind, e, ty), ag) \<Rightarrow>
        rbind (evaluate_expression rd e) (\<lambda>v. update_global_aggregate_state v kind ty ag))"

definition global_step ::
    "bound_select_statement \<Rightarrow> (aggregate_kind \<times> bound_expression \<times> expression_type) list \<Rightarrow>
     (nat \<Rightarrow> nullable_value res) \<Rightarrow> aggregate_state list \<Rightarrow> aggregate_state list res" where
  "global_step stmt aggregates rd states =
     rbind (where_holds stmt rd) (\<lambda>keep.
       if \<not> keep then Inr states else rmap (update_aggregate rd) (zip aggregates states))"

definition finalize_entry :: "(aggregate_kind \<times> bound_expression \<times> expression_type) \<times> aggregate_state \<Rightarrow> nullable_result res" where
  "finalize_entry entry = (case entry of ((kind, e, ty), ag) \<Rightarrow> finalize_aggregate_state kind ty ag)"

definition global_finish ::
    "bound_select_statement \<Rightarrow> string list \<Rightarrow> (aggregate_kind \<times> bound_expression \<times> expression_type) list \<Rightarrow>
     aggregate_state list \<Rightarrow> select_result res" where
  "global_finish stmt column_names aggregates states =
     rbind (rmap finalize_entry (zip aggregates states)) (\<lambda>row.
       Inr \<lparr>sr_column_names = column_names,
            sr_rows = (if (case bs_limit stmt of None \<Rightarrow> True | Some n \<Rightarrow> n > 0) then [row] else [])\<rparr>)"

definition execute_global_aggregate_select ::
    "('e, 'c) storage_engine \<Rightarrow> bound_select_statement \<Rightarrow> string list \<Rightarrow> nat list \<Rightarrow> 'e \<Rightarrow> select_result res option \<times> 'e" where
  "execute_global_aggregate_select eng stmt column_names projection st =
     (case rmap global_item (bs_select_items stmt) of
        Inl e \<Rightarrow> (Some (Inl e), st)
      | Inr aggregates \<Rightarrow>
          let states = map (\<lambda>_. GlobalAggregateState) aggregates in
          (case build_cursor_for_select eng stmt projection False st of
             (Inl e, st) \<Rightarrow> (Some (Inl e), st)
           | (Inr None, st) \<Rightarrow> (Some (global_finish stmt column_names aggregates states), st)
           | (Inr (Some c), st) \<Rightarrow>
               (obind (cursor_loop (eng_cursor eng) (\<lambda>c. global_step stmt aggregates (cur_value (eng_cursor eng) c)) c states)
                  (\<lambda>states. Some (global_finish stmt column_names aggregates states)), st)))"

section \<open>Grouped queries\<close>

record group_state =
  gs_select_expression_values :: "nullable_result list"
  gs_order_by_values :: "nullable_result list"
  gs_aggregate_states :: "aggregate_state list"

type_synonym groups = "(nullable_result list \<times> group_state) list"

text \<open>\<open>GroupKeyLess\<close>.\<close>

fun group_key_less :: "nullable_result list \<Rightarrow> nullable_result list \<Rightarrow> bool res" where
  "group_key_less (x # xs) (y # ys) =
     rbind (compare_nullable_result_values x y) (\<lambda>c.
       if c < 0 then Inr True else if c > 0 then Inr False else group_key_less xs ys)"
| "group_key_less [] ys = Inr (ys \<noteq> [])"
| "group_key_less (x # xs) [] = Inr False"

text \<open>\<open>groups.emplace\<close> and the update of the entry: \<open>f\<close> gets the group, or None for a new one.\<close>

fun group_apply ::
    "nullable_result list \<Rightarrow> (group_state option \<Rightarrow> group_state res) \<Rightarrow> groups \<Rightarrow> groups res" where
  "group_apply k f [] = rbind (f None) (\<lambda>g. Inr [(k, g)])"
| "group_apply k f ((k', g) # gs) =
     rbind (group_key_less k' k) (\<lambda>before.
       if before then rbind (group_apply k f gs) (\<lambda>gs'. Inr ((k', g) # gs'))
       else rbind (group_key_less k k') (\<lambda>after.
         if after then rbind (f None) (\<lambda>new. Inr ((k, new) # (k', g) # gs))
         else rbind (f (Some g)) (\<lambda>new. Inr ((k', new) # gs))))"

fun group_item_value :: "(nat \<Rightarrow> nullable_value res) \<Rightarrow> bound_select_item \<Rightarrow> nullable_result res" where
  "group_item_value rd (BoundSelectItemExpression e) = evaluate_expression rd e"
| "group_item_value rd (BoundSelectAggregateExpression kind e ty) = Inr None"

definition new_group :: "bound_select_statement \<Rightarrow> (nat \<Rightarrow> nullable_value res) \<Rightarrow> group_state res" where
  "new_group stmt rd =
     rbind (rmap (group_item_value rd) (bs_select_items stmt)) (\<lambda>vals.
     rbind (rmap (\<lambda>item. evaluate_expression rd (bo_expression item)) (bs_order_by_items stmt)) (\<lambda>keys.
       Inr \<lparr>gs_select_expression_values = vals, gs_order_by_values = keys,
            gs_aggregate_states = replicate (length (bs_select_items stmt)) GlobalAggregateState\<rparr>))"

fun update_group_item ::
    "(nat \<Rightarrow> nullable_value res) \<Rightarrow> bound_select_item \<times> aggregate_state \<Rightarrow> aggregate_state res" where
  "update_group_item rd (BoundSelectItemExpression e, ag) = Inr ag"
| "update_group_item rd (BoundSelectAggregateExpression kind e ty, ag) = update_aggregate rd ((kind, e, ty), ag)"

definition update_group ::
    "bound_select_statement \<Rightarrow> (nat \<Rightarrow> nullable_value res) \<Rightarrow> group_state option \<Rightarrow> group_state res" where
  "update_group stmt rd found =
     rbind (case found of None \<Rightarrow> new_group stmt rd | Some g \<Rightarrow> Inr g) (\<lambda>g.
     rbind (rmap (update_group_item rd) (zip (bs_select_items stmt) (gs_aggregate_states g))) (\<lambda>states.
       Inr (g\<lparr>gs_aggregate_states := states\<rparr>)))"

definition group_step :: "bound_select_statement \<Rightarrow> (nat \<Rightarrow> nullable_value res) \<Rightarrow> groups \<Rightarrow> groups res" where
  "group_step stmt rd groups =
     rbind (where_holds stmt rd) (\<lambda>keep.
       if \<not> keep then Inr groups
       else rbind (rmap (evaluate_expression rd) (bs_group_by_items stmt)) (\<lambda>k. group_apply k (update_group stmt rd) groups))"

fun group_cell :: "bound_select_item \<times> nullable_result \<times> aggregate_state \<Rightarrow> nullable_result res" where
  "group_cell (BoundSelectItemExpression e, v, ag) = Inr v"
| "group_cell (BoundSelectAggregateExpression kind e ty, v, ag) = finalize_aggregate_state kind ty ag"

definition group_row :: "bound_select_statement \<Rightarrow> group_state \<Rightarrow> result_row res" where
  "group_row stmt g =
     rmap group_cell (zip (bs_select_items stmt) (zip (gs_select_expression_values g) (gs_aggregate_states g)))"

definition group_finish :: "sorter \<Rightarrow> bound_select_statement \<Rightarrow> string list \<Rightarrow> groups \<Rightarrow> select_result res" where
  "group_finish sorter stmt column_names groups =
     rbind (rmap (\<lambda>(k, g). rbind (group_row stmt g) (\<lambda>row. Inr (gs_order_by_values g, row))) groups) (\<lambda>entries.
     rbind (if bs_order_by_items stmt = [] then Inr entries else sorter (sort_row_less stmt) entries) (\<lambda>sorted.
       Inr \<lparr>sr_column_names = column_names, sr_rows = apply_limit (bs_limit stmt) (map snd sorted)\<rparr>))"

definition execute_grouped_aggregate_select ::
    "('e, 'c) storage_engine \<Rightarrow> sorter \<Rightarrow> bound_select_statement \<Rightarrow> string list \<Rightarrow> nat list \<Rightarrow> 'e \<Rightarrow>
     select_result res option \<times> 'e" where
  "execute_grouped_aggregate_select eng sorter stmt column_names projection st =
     (case build_cursor_for_select eng stmt projection False st of
        (Inl e, st) \<Rightarrow> (Some (Inl e), st)
      | (Inr None, st) \<Rightarrow> (Some (group_finish sorter stmt column_names []), st)
      | (Inr (Some c), st) \<Rightarrow>
          (obind (cursor_loop (eng_cursor eng) (\<lambda>c. group_step stmt (cur_value (eng_cursor eng) c)) c [])
             (\<lambda>groups. Some (group_finish sorter stmt column_names groups)), st))"

section \<open>Statements\<close>

definition execute_select ::
    "('e, 'c) storage_engine \<Rightarrow> sorter \<Rightarrow> bound_select_statement \<Rightarrow> 'e \<Rightarrow> select_result res option \<times> 'e" where
  "execute_select eng sorter stmt st =
     (case build_select_column_names stmt of
        Inl e \<Rightarrow> (Some (Inl e), st)
      | Inr column_names \<Rightarrow>
          let projection = collect_required_projection stmt;
              aggregates = has_aggregates stmt;
              has_group_by = (bs_group_by_items stmt \<noteq> [])
          in if \<not> aggregates \<and> \<not> has_group_by then
               execute_plain_select eng sorter stmt column_names projection (can_apply_early_limit stmt) st
             else if aggregates \<and> \<not> has_group_by then
               execute_global_aggregate_select eng stmt column_names projection st
             else execute_grouped_aggregate_select eng sorter stmt column_names projection st)"

text \<open>The state after an exception of CREATE TABLE and INSERT is that of before.\<close>

definition execute ::
    "('e, 'c) storage_engine \<Rightarrow> sorter \<Rightarrow> bound_statement \<Rightarrow> 'e \<Rightarrow> execution_result res option \<times> 'e" where
  "execute eng sorter stmt st =
     (case stmt of
        BoundCreateTableStatement table_name s \<Rightarrow>
          (case eng_create_table eng table_name s st of
             Inl e \<Rightarrow> (Some (Inl e), st)
           | Inr st \<Rightarrow> (Some (Inr CreateTableResult), st))
      | BoundInsertStatement b \<Rightarrow>
          (case eng_insert eng (bi_table_name b) (bi_row_values b) st of
             None \<Rightarrow> (None, st)
           | Some (Inl e) \<Rightarrow> (Some (Inl e), st)
           | Some (Inr st) \<Rightarrow> (Some (Inr (InsertResult 1)), st))
      | BoundSelectStatement b \<Rightarrow>
          (case execute_select eng sorter b st of
             (r, st) \<Rightarrow> (map_option (map_sum id SelectResult) r, st)))"

end
