(* ===== verification/Pushdown.thy ===== *)
theory Pushdown
  imports Select_Plan
begin

text \<open>
  What the executor derives from WHERE is sound: a row that satisfies WHERE lies within the key bounds,
  has the key that is looked up, and satisfies the predicates given to data skipping.
\<close>

section \<open>Rows that satisfy an expression\<close>

abbreviation true_in :: "row \<Rightarrow> bound_expression \<Rightarrow> bool" where
  "true_in r e \<equiv> evaluate_expression (row_value r) e = Inr (Some (R_Bool True))"

lemma evaluate_predicate_true: "evaluate_predicate (row_value r) e = Inr True \<longleftrightarrow> true_in r e"
proof -
  have "get_bool m v = Inr True \<longleftrightarrow> v = R_Bool True" for m v by (cases v) auto
  then show ?thesis by (auto simp: evaluate_predicate_def rbind_eq_Inr split: option.splits)
qed

lemma get_bool_Inr: "get_bool m v = Inr b \<longleftrightarrow> v = R_Bool b"
  by (cases v) auto

lemma apply_logic_and_true:
  "apply_logic m False v w = Inr (Some (R_Bool True)) \<longleftrightarrow> v = Some (R_Bool True) \<and> w = Some (R_Bool True)"
  by (cases v; cases w) (auto simp: apply_logic_def rbind_eq_Inr get_bool_Inr split: if_splits)

lemma conjuncts_true: "true_in r e \<Longrightarrow> c \<in> set (collect_conjuncts e) \<Longrightarrow> true_in r c"
proof (induction e)
  case (BoundBinaryExpression op a b)
  then show ?case
    by (cases "op = Op_And") (auto simp: rbind_eq_Inr apply_binary_def apply_logic_and_true)
qed simp_all

section \<open>Comparing a column with a literal\<close>

lemma compare_by_swap: "(\<And>x y. lt x y \<Longrightarrow> \<not> lt y x) \<Longrightarrow> compare_by lt b a = - compare_by lt a b"
  by (auto simp: compare_by_def)

lemma d64_lt_asym: "d64_lt a b \<Longrightarrow> \<not> d64_lt b a"
  by (auto simp: d64_lt_def)

lemmas compare_swaps =
  compare_by_swap [where lt = "(<) :: i64 \<Rightarrow> i64 \<Rightarrow> bool", OF less_not_sym]
  compare_by_swap [where lt = "(<) :: string \<Rightarrow> string \<Rightarrow> bool", OF less_not_sym]
  compare_by_swap [where lt = d64_lt, OF d64_lt_asym]

lemma compare_result_values_swap:
  assumes "compare_result_values x y = Inr c"
  shows "compare_result_values y x = Inr (- c)"
proof (cases x)
  case (R_Int a)
  then show ?thesis using assms compare_swaps(1) [of _ a] compare_swaps(3) [of _ "d64_of_i64 a"]
    by (cases y) (auto simp: incompatible_def)
next
  case (R_Double a)
  then show ?thesis using assms compare_swaps(3) [of _ a] by (cases y) (auto simp: incompatible_def)
next
  case (R_String a)
  then show ?thesis using assms compare_swaps(2) [of _ a] by (cases y) (auto simp: incompatible_def)
next
  case (R_Bool a)
  then show ?thesis using assms by (cases y) (auto simp: incompatible_def)
qed

text \<open>What it means that such a comparison is true in a row.\<close>

lemma column_literal_true:
  assumes e: "column_literal e = Some (op, i, v, left)" and t: "true_in r e"
  obtains x y c where "r ! i = Some x" "v = Some y" "compare_result_values (result_of x) (result_of y) = Inr c"
    "comparison_holds op (if left then c else - c) = Inr True" "op \<noteq> Op_And" "op \<noteq> Op_Or"
proof -
  have no_bool: "\<not> (\<exists>b. result_of w = R_Bool b)" for w by (cases w) auto
  have op: "op \<noteq> Op_And \<and> op \<noteq> Op_Or" if "apply_binary op (map_option result_of p) (map_option result_of q) = Inr (Some (R_Bool True))" for p q
  proof -
    have "apply_logic m stop (map_option result_of p) (map_option result_of q) \<noteq> Inr (Some (R_Bool True))" for m stop
      using no_bool by (cases p; cases q) (auto simp: apply_logic_def rbind_eq_Inr get_bool_Inr)
    then show ?thesis using that by (auto simp: apply_binary_def split: if_splits)
  qed
  have two: "\<exists>x y c. p = Some x \<and> q = Some y \<and> compare_result_values (result_of x) (result_of y) = Inr c \<and> comparison_holds op c = Inr True"
    if "apply_binary op (map_option result_of p) (map_option result_of q) = Inr (Some (R_Bool True))" for p q
    using that op [OF that] by (auto simp: apply_binary_def rbind_eq_Inr split: option.splits)
  show thesis
  proof (cases left)
    case True
    then obtain ty ty' where "e = BoundBinaryExpression op (BoundColumnExpression i ty) (BoundLiteralExpression v ty')"
      using e by (cases e rule: column_literal.cases) auto
    then have a: "apply_binary op (map_option result_of (r ! i)) (map_option result_of v) = Inr (Some (R_Bool True))"
      using t by (simp add: row_value_def)
    from two [OF a] show thesis using op [OF a] True by (auto intro: that)
  next
    case False
    then obtain ty ty' where "e = BoundBinaryExpression op (BoundLiteralExpression v ty') (BoundColumnExpression i ty)"
      using e by (cases e rule: column_literal.cases) auto
    then have a: "apply_binary op (map_option result_of v) (map_option result_of (r ! i)) = Inr (Some (R_Bool True))"
      using t by (simp add: row_value_def)
    from two [OF a] obtain x y c where "v = Some x" "r ! i = Some y"
      "compare_result_values (result_of x) (result_of y) = Inr c" "comparison_holds op c = Inr True" by blast
    then show thesis using op [OF a] False compare_result_values_swap that [of y x "- c"] by simp
  qed
qed

section \<open>Key bounds\<close>

definition key_allowed :: "key_bounds \<Rightarrow> key \<Rightarrow> bool" where
  "key_allowed kb k \<longleftrightarrow>
     \<not> kb_empty kb \<and> (\<forall>p. kb_point kb = Some p \<longrightarrow> k = p) \<and>
     (\<forall>f. kb_from kb = Some f \<longrightarrow> f \<le> k) \<and> (\<forall>t. kb_to kb = Some t \<longrightarrow> k < t)"

lemma key_allowed_updates:
  "key_allowed (kb\<lparr>kb_range := b\<rparr>) k = key_allowed kb k"
  "key_allowed (raise_from f kb) k \<longleftrightarrow> key_allowed kb k \<and> f \<le> k"
  "key_allowed (lower_to t kb) k \<longleftrightarrow> key_allowed kb k \<and> k < t"
  by (auto simp: key_allowed_def raise_from_def lower_to_def split: option.splits)

lemma compare_by_iff:
  fixes a b :: "'a::linorder"
  shows "compare_by (<) a b = 0 \<longleftrightarrow> a = b" "compare_by (<) a b < 0 \<longleftrightarrow> a < b" "compare_by (<) a b \<le> 0 \<longleftrightarrow> a \<le> b"
    "0 < compare_by (<) a b \<longleftrightarrow> b < a" "0 \<le> compare_by (<) a b \<longleftrightarrow> b \<le> a"
  by (auto simp: compare_by_def)

text \<open>The bounds allow every key for which the comparison holds.\<close>

lemma restrict_key_allows:
  assumes "key_allowed kb k" "comparison_holds op (if left then compare_by (<) k n else - compare_by (<) k n) = Inr True"
  shows "key_allowed (restrict_key op left n kb) k"
proof -
  have mx: "\<not> i64_max < k" "k = i64_max \<or> k \<noteq> i64_max" by (simp_all add: not_less)
  show ?thesis
  proof (cases op)
    case Op_Equal
    then have "k = n" using assms(2) by (cases left) (simp_all add: compare_by_iff)
    then show ?thesis using Op_Equal assms(1) by (auto simp: key_allowed_def split: option.splits)
  next
    case Op_Less
    then have "if left then k < n else n < k" using assms(2) by (cases left) (simp_all add: compare_by_iff)
    then show ?thesis using Op_Less assms(1) mx by (auto simp: Let_def key_allowed_updates i64_succ_le_iff)
  next
    case Op_LessEqual
    then have "if left then k \<le> n else n \<le> k" using assms(2) by (cases left) (simp_all add: compare_by_iff)
    then show ?thesis using Op_LessEqual assms(1) by (auto simp: Let_def key_allowed_updates i64_less_succ_iff)
  next
    case Op_Greater
    then have "if left then n < k else k < n" using assms(2) by (cases left) (simp_all add: compare_by_iff)
    then show ?thesis using Op_Greater assms(1) mx by (auto simp: Let_def key_allowed_updates i64_succ_le_iff)
  next
    case Op_GreaterEqual
    then have "if left then n \<le> k else k \<le> n" using assms(2) by (cases left) (simp_all add: compare_by_iff)
    then show ?thesis using Op_GreaterEqual assms(1) by (auto simp: Let_def key_allowed_updates i64_less_succ_iff)
  qed (use assms in simp_all)
qed

text \<open>The key column of a schema.\<close>

lemma key_column:
  assumes "schema_wf s" "i < schema_size s"
  shows "col_is_key (columns s ! i) \<longleftrightarrow> i = 0"
proof -
  obtain c cs where c: "columns s = c # cs" "col_is_key c" "\<forall>c \<in> set cs. \<not> col_is_key c"
    using assms(1) by (cases "columns s") (auto simp: schema_wf_def Let_def)
  then show ?thesis using assms(2) by (cases i) (auto simp: schema_size_def)
qed

definition key_literal_ok :: "schema \<Rightarrow> bound_expression \<Rightarrow> bool" where
  "key_literal_ok s e \<longleftrightarrow>
     (case column_literal e of
        None \<Rightarrow> True
      | Some (op, i, v, left) \<Rightarrow> i = KEY_COLUMN_INDEX \<longrightarrow> (case v of None \<Rightarrow> True | Some x \<Rightarrow> holds_type INT64 x))"

lemma column_literal_ok:
  assumes "column_literal e = Some (op, i, v, left)" "expression_ok s e"
  shows "i < schema_size s"
  using assms by (cases e rule: column_literal.cases) auto

lemma key_conjunct_ok:
  assumes wf: "schema_wf s" and e: "expression_ok s e" "key_literal_ok s e"
  shows "\<exists>kb'. key_conjunct s e kb = Inr kb' \<and>
    (\<forall>r. valid_row s r \<longrightarrow> true_in r e \<longrightarrow> key_allowed kb (rkey r) \<longrightarrow> key_allowed kb' (rkey r))"
proof (cases "column_literal e")
  case None
  then show ?thesis by (simp add: key_conjunct_def)
next
  case (Some q)
  obtain op i v left where q: "column_literal e = Some (op, i, v, left)" using Some by (cases q) auto
  have i: "i < schema_size s" by (rule column_literal_ok [OF q e(1)])
  then have col: "get_column s i = Inr (columns s ! i)" by (simp add: get_column_def schema_size_def)
  show ?thesis
  proof (cases "i = 0")
    case False
    then show ?thesis using q col key_column [OF wf i] by (simp add: key_conjunct_def)
  next
    case True
    have null: "\<not> true_in r e" if "v = None" for r using column_literal_true [OF q, of r] that by auto
    show ?thesis
    proof (cases v)
      case None
      then show ?thesis using q col key_column [OF wf i] True null by (simp add: key_conjunct_def)
    next
      case v: (Some x)
      then obtain n where n: "x = VInt n"
        using e(2) q True by (cases x) (auto simp: key_literal_ok_def KEY_COLUMN_INDEX_def)
      have "key_allowed (restrict_key op left n kb) (rkey r)"
        if r: "valid_row s r" "true_in r e" "key_allowed kb (rkey r)" for r
      proof -
        obtain k r' where k: "r = Some (VInt k) # r'" using valid_row_key [OF wf r(1)] by blast
        obtain x' y' c where c: "r ! i = Some x'" "v = Some y'" "compare_result_values (result_of x') (result_of y') = Inr c"
            "comparison_holds op (if left then c else - c) = Inr True"
          by (rule column_literal_true [OF q r(2)])
        have "c = compare_by (<) (rkey r) n" using c(1-3) True v n k by auto
        then show ?thesis using restrict_key_allows [OF r(3), of op left n] c(4) by (simp only:)
      qed
      then show ?thesis using q col key_column [OF wf i] True v n by (simp add: key_conjunct_def get_int_def)
    qed
  qed
qed

lemma key_conjuncts_ok:
  assumes wf: "schema_wf s" and es: "\<forall>e \<in> set es. expression_ok s e \<and> key_literal_ok s e"
  shows "\<exists>kb'. key_conjuncts s es kb = Inr kb' \<and>
    (\<forall>r. valid_row s r \<longrightarrow> (\<forall>e \<in> set es. true_in r e) \<longrightarrow> key_allowed kb (rkey r) \<longrightarrow> key_allowed kb' (rkey r))"
  using es
proof (induction es arbitrary: kb)
  case (Cons e es)
  obtain kb1 where kb1: "key_conjunct s e kb = Inr kb1"
      "\<forall>r. valid_row s r \<longrightarrow> true_in r e \<longrightarrow> key_allowed kb (rkey r) \<longrightarrow> key_allowed kb1 (rkey r)"
    using key_conjunct_ok [OF wf, of e kb] Cons.prems by auto
  show ?case
  proof (cases "kb_empty kb1")
    case True
    then show ?thesis using kb1 by (auto simp: key_allowed_def)
  next
    case False
    obtain kb2 where "key_conjuncts s es kb1 = Inr kb2"
        "\<forall>r. valid_row s r \<longrightarrow> (\<forall>e \<in> set es. true_in r e) \<longrightarrow> key_allowed kb1 (rkey r) \<longrightarrow> key_allowed kb2 (rkey r)"
      using Cons.IH [of kb1] Cons.prems by auto
    then show ?thesis using kb1 False by (intro exI [of _ kb2]) auto
  qed
qed simp

lemma access_path_allows:
  assumes "key_allowed kb k"
  shows "case access_path_of kb of EmptyResult \<Rightarrow> False | PointLookup p \<Rightarrow> k = p
    | RangeScan lo hi \<Rightarrow> contains \<lparr>kr_from = lo, kr_to = hi\<rparr> k"
  using assms by (auto simp: key_allowed_def access_path_of_def contains_iff split: option.splits)

lemma access_path_range: "access_path_of kb = RangeScan lo hi \<Longrightarrow> range_ok \<lparr>kr_from = lo, kr_to = hi\<rparr>"
  by (auto simp: access_path_of_def range_ok_def split: option.splits if_splits)

section \<open>Data skipping\<close>

lemma op_holds_convert:
  "convert_operation op = Some cmp \<Longrightarrow> op_holds cmp c \<longleftrightarrow> comparison_holds op c = Inr True"
  by (cases op) auto

lemma op_holds_reverse: "op_holds (reverse_operation cmp) c \<longleftrightarrow> op_holds cmp (- c)"
  by (cases cmp) auto

lemma compare_numeric_values:
  assumes "val_nval x = Some n" "val_nval y = Some m" "compare_result_values (result_of x) (result_of y) = Inr c"
  shows "compare_numeric n m = c"
  using assms by (cases x; cases y) (auto simp: compare_numeric_def compare_double_def compare_by_def)

lemma numeric_comparable:
  assumes "compare_result_values (result_of x) (result_of y) = Inr c" "val_nval y = Some m"
  obtains n where "val_nval x = Some n"
  using assms by (cases x; cases y) (auto simp: incompatible_def)

lemma set_skip_filter:
  "set (build_data_skipping_filter stmt) = (\<Union>c \<in> set (where_conjuncts stmt). set (skip_conjunct (bs_schema stmt) c))"
  by (simp add: build_data_skipping_filter_def)

lemma skip_conjunctE:
  assumes "p \<in> set (skip_conjunct s e)"
  obtains op i v left cmp y m where "column_literal e = Some (op, i, v, left)" "convert_operation op = Some cmp"
    "v = Some y" "val_nval y = Some m" "p = \<lparr>np_column = i, np_op = (if left then cmp else reverse_operation cmp), np_value = m\<rparr>"
proof -
  obtain op i v left where e: "column_literal e = Some (op, i, v, left)"
    using assms by (cases "column_literal e") (auto simp: skip_conjunct_def)
  then obtain cmp where cmp: "convert_operation op = Some cmp"
    using assms by (cases "convert_operation op") (auto simp: skip_conjunct_def)
  obtain y where v: "v = Some y" using assms e cmp by (cases v) (auto simp: skip_conjunct_def Let_def split: if_splits)
  then obtain m where m: "val_nval y = Some m"
    using assms e cmp by (cases "val_nval y") (auto simp: skip_conjunct_def Let_def split: if_splits)
  have "p = \<lparr>np_column = i, np_op = (if left then cmp else reverse_operation cmp), np_value = m\<rparr>"
    using assms e cmp v m by (auto simp: skip_conjunct_def Let_def split: if_splits)
  with e cmp v m show thesis by (rule that)
qed

lemma skip_conjunct_sound:
  assumes "true_in r e" "p \<in> set (skip_conjunct s e)"
  shows "cell_satisfies (r ! np_column p) p"
proof -
  obtain op i v left cmp y m where e: "column_literal e = Some (op, i, v, left)" "convert_operation op = Some cmp"
      "v = Some y" "val_nval y = Some m" "p = \<lparr>np_column = i, np_op = (if left then cmp else reverse_operation cmp), np_value = m\<rparr>"
    by (rule skip_conjunctE [OF assms(2)])
  obtain x y' c where c: "r ! i = Some x" "v = Some y'" "compare_result_values (result_of x) (result_of y') = Inr c"
      "comparison_holds op (if left then c else - c) = Inr True"
    by (rule column_literal_true [OF e(1) assms(1)])
  have y: "y' = y" using c(2) e(3) by simp
  obtain n where n: "val_nval x = Some n" by (rule numeric_comparable [OF c(3)]) (simp add: y e(4))
  have "compare_numeric n m = c" using compare_numeric_values [OF n e(4)] c(3) y by simp
  then have "op_holds (np_op p) (compare_numeric n (np_value p))"
    using c(4) op_holds_convert [OF e(2)] by (cases left) (simp_all add: e(5) op_holds_reverse)
  then show ?thesis using c(1) n by (simp add: cell_satisfies_def e(5))
qed

lemma skip_filter_sound:
  fixes stmt :: bound_select_statement
  assumes "case bs_where_expression stmt of None \<Rightarrow> True | Some e \<Rightarrow> true_in r e"
  shows "row_satisfies (build_data_skipping_filter stmt) r"
proof -
  have "true_in r c" if "c \<in> set (where_conjuncts stmt)" for c
    using that assms conjuncts_true by (auto simp: where_conjuncts_def split: option.splits)
  then show ?thesis using skip_conjunct_sound unfolding row_satisfies_def set_skip_filter by blast
qed

text \<open>Expressions without a NaN literal give filters without one.\<close>

fun nan_free_expression :: "bound_expression \<Rightarrow> bool" where
  "nan_free_expression (BoundLiteralExpression v ty) \<longleftrightarrow> (case v of Some (VDouble d) \<Rightarrow> \<not> d64_isnan d | _ \<Rightarrow> True)"
| "nan_free_expression (BoundColumnExpression i ty) \<longleftrightarrow> True"
| "nan_free_expression (BoundUnaryExpression op e) \<longleftrightarrow> nan_free_expression e"
| "nan_free_expression (BoundBinaryExpression op l r) \<longleftrightarrow> nan_free_expression l \<and> nan_free_expression r"
| "nan_free_expression (BoundIsNullExpression e is_not) \<longleftrightarrow> nan_free_expression e"

lemma nan_free_conjuncts: "nan_free_expression e \<Longrightarrow> c \<in> set (collect_conjuncts e) \<Longrightarrow> nan_free_expression c"
  by (induction e) (auto split: if_splits)

lemma expression_ok_conjuncts: "expression_ok s e \<Longrightarrow> c \<in> set (collect_conjuncts e) \<Longrightarrow> expression_ok s c"
  by (induction e) (auto split: if_splits)

lemma skip_conjunct_nan_free:
  assumes "nan_free_expression e" "p \<in> set (skip_conjunct s e)"
  shows "\<not> nval_isnan (np_value p)"
proof -
  have nan: "val_nval y = Some m \<Longrightarrow> nval_isnan m \<Longrightarrow> \<exists>d. y = VDouble d \<and> d64_isnan d" for y m by (cases y) auto
  obtain op i v left y m where e: "column_literal e = Some (op, i, v, left)" "v = Some y" "val_nval y = Some m" "np_value p = m"
    by (rule skip_conjunctE [OF assms(2)]) simp
  show ?thesis
  proof
    assume "nval_isnan (np_value p)"
    then obtain d where "v = Some (VDouble d)" "d64_isnan d" using nan e(2-4) by blast
    then show False using assms(1) e(1) by (cases e rule: column_literal.cases) auto
  qed
qed

lemma skip_conjunct_column:
  assumes "expression_ok s e" "p \<in> set (skip_conjunct s' e)"
  shows "np_column p < schema_size s"
proof -
  obtain op i v left where e: "column_literal e = Some (op, i, v, left)" "np_column p = i"
    by (rule skip_conjunctE [OF assms(2)]) simp
  then show ?thesis using assms(1) by (cases e rule: column_literal.cases) auto
qed

lemma skip_filter_nan_free:
  fixes stmt :: bound_select_statement
  assumes "case bs_where_expression stmt of None \<Rightarrow> True | Some e \<Rightarrow> nan_free_expression e \<and> expression_ok (bs_schema stmt) e"
    and r: "valid_row (bs_schema stmt) r" "row_nan_free r"
  shows "compares_no_nan (build_data_skipping_filter stmt) r"
  unfolding compares_no_nan_def set_skip_filter
proof (intro ballI conjI allI impI)
  have ok: "nan_free_expression c" "expression_ok (bs_schema stmt) c" if "c \<in> set (where_conjuncts stmt)" for c
    using that assms(1) nan_free_conjuncts expression_ok_conjuncts by (auto simp: where_conjuncts_def split: option.splits)
  fix p assume "p \<in> (\<Union>c \<in> set (where_conjuncts stmt). set (skip_conjunct (bs_schema stmt) c))"
  then obtain c where c: "c \<in> set (where_conjuncts stmt)" "p \<in> set (skip_conjunct (bs_schema stmt) c)" by blast
  show "\<not> nval_isnan (np_value p)" by (rule skip_conjunct_nan_free [OF ok(1) [OF c(1)] c(2)])
  fix d assume d: "r ! np_column p = Some (VDouble d)"
  have "np_column p < length r" using skip_conjunct_column [OF ok(2) [OF c(1)] c(2)] r(1) by (simp add: valid_row_def)
  then have "Some (VDouble d) \<in> set r" unfolding d [symmetric] by (rule nth_mem)
  then show "\<not> d64_isnan d" using r(2) by (simp add: row_nan_free_def)
qed

section \<open>Statements\<close>

text \<open>Columns of the schema, types as the binder gives them, operands that fit, and an integer key literal.\<close>

definition statement_ok :: "bound_select_statement \<Rightarrow> bool" where
  "statement_ok stmt \<longleftrightarrow>
     (\<forall>e \<in> set (statement_expressions stmt). expression_ok (bs_schema stmt) e \<and> operands_ok e \<and> nan_free_expression e) \<and>
     (case bs_where_expression stmt of None \<Rightarrow> True | Some e \<Rightarrow> be_type e = E_Boolean) \<and>
     (\<forall>e \<in> set (where_conjuncts stmt). key_literal_ok (bs_schema stmt) e)"

text \<open>The rows that satisfy WHERE.\<close>

definition row_selected :: "bound_select_statement \<Rightarrow> row \<Rightarrow> bool" where
  "row_selected stmt r \<longleftrightarrow> (case bs_where_expression stmt of None \<Rightarrow> True | Some e \<Rightarrow> true_in r e)"

lemma where_expression_ok:
  assumes "statement_ok stmt" "bs_where_expression stmt = Some e"
  shows "expression_ok (bs_schema stmt) e" "operands_ok e" "nan_free_expression e" "be_type e = E_Boolean"
  using assms by (auto simp: statement_ok_def statement_expressions_def)

lemma selected_path:
  assumes wf: "schema_wf (bs_schema stmt)" and ok: "statement_ok stmt"
  obtains kb where "key_conjuncts (bs_schema stmt) (where_conjuncts stmt) no_bounds = Inr kb"
    "\<And>r. valid_row (bs_schema stmt) r \<Longrightarrow> row_selected stmt r \<Longrightarrow> key_allowed kb (rkey r)"
proof -
  have es: "\<forall>e \<in> set (where_conjuncts stmt). expression_ok (bs_schema stmt) e \<and> key_literal_ok (bs_schema stmt) e"
    using ok where_expression_ok [OF ok] expression_ok_conjuncts
    by (auto simp: statement_ok_def where_conjuncts_def split: option.splits)
  obtain kb where kb: "key_conjuncts (bs_schema stmt) (where_conjuncts stmt) no_bounds = Inr kb"
      "\<forall>r. valid_row (bs_schema stmt) r \<longrightarrow> (\<forall>e \<in> set (where_conjuncts stmt). true_in r e) \<longrightarrow>
        key_allowed no_bounds (rkey r) \<longrightarrow> key_allowed kb (rkey r)"
    using key_conjuncts_ok [OF wf es] by blast
  have "\<forall>e \<in> set (where_conjuncts stmt). true_in r e" if "row_selected stmt r" for r
    using that conjuncts_true by (auto simp: row_selected_def where_conjuncts_def split: option.splits)
  moreover have "key_allowed no_bounds k" for k by (simp add: key_allowed_def no_bounds_def)
  ultimately show thesis using that kb by blast
qed

lemma selected_wanted:
  assumes ok: "statement_ok stmt" and r: "row_selected stmt r" "valid_row (bs_schema stmt) r" "row_nan_free r"
  shows "row_wanted (build_data_skipping_filter stmt) r"
  using skip_filter_sound [where stmt = stmt and r = r] skip_filter_nan_free [of stmt r] where_expression_ok(1,3) [OF ok] r
  by (auto simp: row_wanted_def row_selected_def split: option.splits)

section \<open>The projection\<close>

definition projection_inv :: "nat \<Rightarrow> nat list \<times> bool list \<Rightarrow> bool" where
  "projection_inv n acc \<longleftrightarrow> distinct (fst acc) \<and> length (snd acc) = n \<and> set (fst acc) \<subseteq> {..<n} \<and>
     (\<forall>i < n. snd acc ! i \<longleftrightarrow> i \<in> set (fst acc))"

lemma collect_projection_inv:
  assumes "projection_inv n acc" "columns_of e \<subseteq> {..<n}"
  shows "projection_inv n (collect_projection_from_expression e acc)"
    and "set (fst (collect_projection_from_expression e acc)) = set (fst acc) \<union> columns_of e"
proof -
  have "projection_inv n (collect_projection_from_expression e acc) \<and>
      set (fst (collect_projection_from_expression e acc)) = set (fst acc) \<union> columns_of e"
    using assms
  proof (induction e arbitrary: acc)
    case (BoundColumnExpression i ty)
    then show ?case by (cases acc) (auto simp: projection_inv_def nth_list_update)
  next
    case (BoundBinaryExpression op a b)
    let ?acc = "collect_projection_from_expression a acc"
    have "projection_inv n ?acc \<and> set (fst ?acc) = set (fst acc) \<union> columns_of a"
      using BoundBinaryExpression by simp
    then show ?case using BoundBinaryExpression.IH(2) [of ?acc] BoundBinaryExpression.prems(2) by (simp add: Un_assoc)
  qed simp_all
  then show "projection_inv n (collect_projection_from_expression e acc)"
    and "set (fst (collect_projection_from_expression e acc)) = set (fst acc) \<union> columns_of e" by simp_all
qed

lemma collect_all_inv:
  assumes "projection_inv n acc" "\<forall>e \<in> set es. columns_of e \<subseteq> {..<n}"
  shows "projection_inv n (fold collect_projection_from_expression es acc) \<and>
    set (fst (fold collect_projection_from_expression es acc)) = set (fst acc) \<union> (\<Union>e \<in> set es. columns_of e)"
  using assms
proof (induction es arbitrary: acc)
  case (Cons e es)
  have "columns_of e \<subseteq> {..<n}" using Cons.prems by simp
  note step = collect_projection_inv [OF Cons.prems(1) this]
  from Cons.IH [OF step(1)] Cons.prems(2) step(2) show ?case by (simp add: Un_assoc)
qed simp

text \<open>The projection has each column the statement reads, once.\<close>

lemma required_projection:
  assumes "statement_ok stmt"
  shows "projection_ok (bs_schema stmt) (collect_required_projection stmt)"
    and "set (collect_required_projection stmt) = (\<Union>e \<in> set (statement_expressions stmt). columns_of e)"
proof -
  let ?n = "schema_size (bs_schema stmt)"
  have "\<forall>e \<in> set (statement_expressions stmt). columns_of e \<subseteq> {..<?n}"
    using assms columns_of_ok unfolding statement_ok_def by blast
  moreover have "projection_inv ?n ([], replicate ?n False)" by (simp add: projection_inv_def)
  ultimately have "projection_inv ?n (fold collect_projection_from_expression (statement_expressions stmt) ([], replicate ?n False)) \<and>
      set (collect_required_projection stmt) = (\<Union>e \<in> set (statement_expressions stmt). columns_of e)"
    using collect_all_inv [of ?n "([], replicate ?n False)"] by (simp add: collect_required_projection_def)
  then show "projection_ok (bs_schema stmt) (collect_required_projection stmt)"
    and "set (collect_required_projection stmt) = (\<Union>e \<in> set (statement_expressions stmt). columns_of e)"
    unfolding projection_inv_def projection_ok_def collect_required_projection_def by blast+
qed

end
