(* ===== verification/Mock_Engine.thy ===== *)
theory Mock_Engine
  imports Engine
begin

text \<open>
  The in-memory engine (\<open>src/storage/mock/\<close>): tables are maps from key to row and a cursor walks one of
  them. It keeps the contract of a storage engine, except that looking up the largest key is undefined
  behaviour. A cursor of the code reads the live map; here it holds the entries from its position on.
\<close>

section \<open>The cursor\<close>

record mock_cursor =
  mk_rest :: "(key \<times> row) list"
  mk_to :: "key option"

definition MockCursor :: "(key \<times> row) list \<Rightarrow> key option \<Rightarrow> key option \<Rightarrow> mock_cursor" where
  "MockCursor data lo hi =
     \<lparr>mk_rest = (case lo of Some f \<Rightarrow> drop (map_lower_bound f data) data | None \<Rightarrow> data), mk_to = hi\<rparr>"

definition mk_valid :: "mock_cursor \<Rightarrow> bool" where
  "mk_valid c =
     (case mk_rest c of
        [] \<Rightarrow> False
      | e # _ \<Rightarrow> (case mk_to c of Some t \<Rightarrow> if fst e \<ge> t then False else True | None \<Rightarrow> True))"

definition mk_next :: "mock_cursor \<Rightarrow> mock_cursor res" where
  "mk_next c = Inr (if \<not> mk_valid c then c else c\<lparr>mk_rest := tl (mk_rest c)\<rparr>)"

definition mk_key :: "mock_cursor \<Rightarrow> key res" where
  "mk_key c = (if \<not> mk_valid c then Inl (RuntimeError ''Cursor invalid'') else Inr (fst (hd (mk_rest c))))"

definition mk_row :: "mock_cursor \<Rightarrow> row res" where
  "mk_row c = (if \<not> mk_valid c then Inl (RuntimeError ''Cursor invalid'') else Inr (snd (hd (mk_rest c))))"

definition mk_value :: "mock_cursor \<Rightarrow> nat \<Rightarrow> nullable_value res" where
  "mk_value c i =
     rbind (mk_row c) (\<lambda>r. if i \<ge> length r then Inl (OutOfRange ''Column index out of range'') else Inr (r ! i))"

definition mock_cursor_ops :: "mock_cursor cursor_ops" where
  "mock_cursor_ops = \<lparr>cur_valid = mk_valid, cur_next = mk_next, cur_key = mk_key, cur_value = mk_value\<rparr>"

section \<open>The engine\<close>

record mock_table =
  mt_schema :: schema
  mt_data :: "(key \<times> row) list"

type_synonym mock_tables = "string \<Rightarrow> mock_table option"

definition mock_get_table :: "string \<Rightarrow> mock_tables \<Rightarrow> mock_table res" where
  "mock_get_table name ts =
     (case ts name of None \<Rightarrow> Inl (RuntimeError ''Table does not exist'') | Some t \<Rightarrow> Inr t)"

definition mock_create_table :: "string \<Rightarrow> schema \<Rightarrow> mock_tables \<Rightarrow> mock_tables res" where
  "mock_create_table name s ts =
     (if ts name \<noteq> None then Inl (RuntimeError ''Table already exists'')
      else Inr (ts(name \<mapsto> \<lparr>mt_schema = s, mt_data = []\<rparr>)))"

definition mock_table_exists :: "string \<Rightarrow> mock_tables \<Rightarrow> bool" where
  "mock_table_exists name ts \<longleftrightarrow> ts name \<noteq> None"

definition mock_get_table_schema :: "string \<Rightarrow> mock_tables \<Rightarrow> schema res" where
  "mock_get_table_schema name ts = rbind (mock_get_table name ts) (\<lambda>t. Inr (mt_schema t))"

text \<open>The checks of \<open>insert\<close>, up to the key.\<close>

definition mock_row_key :: "schema \<Rightarrow> row \<Rightarrow> key res" where
  "mock_row_key s r =
     (if length r \<noteq> schema_size s then Inl (RuntimeError ''Row size mismatch schema'')
      else if \<exists>i \<in> {..<length r}. \<not> is_valid_value s i (r ! i) then Inl (RuntimeError ''Invalid value for column'')
      else case r of
          [] \<Rightarrow> Inl (LogicError ''undefined behaviour: the key of an empty row'')
        | None # _ \<Rightarrow> Inl (RuntimeError ''Key cannot be NULL'')
        | Some (VInt k) # _ \<Rightarrow> Inr k
        | _ \<Rightarrow> Inl (RuntimeError ''Key must be int64''))"

definition mock_insert :: "string \<Rightarrow> row \<Rightarrow> mock_tables \<Rightarrow> mock_tables res" where
  "mock_insert name r ts =
     rbind (mock_get_table name ts) (\<lambda>t.
     rbind (mock_row_key (mt_schema t) r) (\<lambda>k.
       Inr (ts(name \<mapsto> t\<lparr>mt_data := map_put k r (mt_data t)\<rparr>))))"

definition mock_get :: "string \<Rightarrow> key \<Rightarrow> nat list \<Rightarrow> mock_tables \<Rightarrow> mock_cursor res" where
  "mock_get name k projection ts =
     rbind (mock_get_table name ts) (\<lambda>t.
       if k = i64_max then Inl (LogicError ''undefined behaviour: signed overflow'')
       else Inr (MockCursor (mt_data t) (Some k) (Some (i64_succ k))))"

definition mock_scan ::
    "string \<Rightarrow> key option \<Rightarrow> key option \<Rightarrow> nat list \<Rightarrow> scan_order \<Rightarrow> skip_filter \<Rightarrow> mock_tables \<Rightarrow> mock_cursor res" where
  "mock_scan name lo hi projection order f ts =
     rbind (mock_get_table name ts) (\<lambda>t. Inr (MockCursor (mt_data t) lo hi))"

definition MockStorageEngine :: "(mock_tables, mock_cursor) storage_engine" where
  "MockStorageEngine = \<lparr>
     eng_create_table = mock_create_table,
     eng_table_exists = mock_table_exists,
     eng_get_table_schema = mock_get_table_schema,
     eng_insert = (\<lambda>name r ts. Some (mock_insert name r ts)),
     eng_get = (\<lambda>name k projection ts. (mock_get name k projection ts, ts)),
     eng_scan = (\<lambda>name lo hi projection order f ts. (mock_scan name lo hi projection order f ts, ts)),
     eng_cursor = mock_cursor_ops\<rparr>"

section \<open>The cursor contract\<close>

definition mk_inv :: "nat \<Rightarrow> mock_cursor \<Rightarrow> bool" where
  "mk_inv n c \<longleftrightarrow> sorted (map fst (mk_rest c)) \<and> (\<forall>(k, r) \<in> set (mk_rest c). rkey r = k \<and> keyed r \<and> length r = n)"

definition below_to :: "mock_cursor \<Rightarrow> key \<times> row \<Rightarrow> bool" where
  "below_to c e \<longleftrightarrow> (case mk_to c of Some t \<Rightarrow> fst e < t | None \<Rightarrow> True)"

definition mk_rows :: "mock_cursor \<Rightarrow> row list" where
  "mk_rows c = map snd (takeWhile (below_to c) (mk_rest c))"

lemma mk_valid_iff: "mk_valid c \<longleftrightarrow> mk_rows c \<noteq> []"
  by (cases "mk_rest c") (auto simp: mk_valid_def mk_rows_def below_to_def split: option.splits)

lemma mk_rows_Cons:
  assumes "mk_rows c = r # rs"
  obtains k es where "mk_rest c = (k, r) # es" "mk_valid c" "mk_rows (c\<lparr>mk_rest := es\<rparr>) = rs"
proof -
  obtain k x es where e: "mk_rest c = (k, x) # es" using assms by (cases "mk_rest c") (auto simp: mk_rows_def)
  have "below_to c (k, x)" using assms e by (auto simp: mk_rows_def split: if_splits)
  moreover have "below_to (c\<lparr>mk_rest := es\<rparr>) = below_to c" by (simp add: below_to_def fun_eq_iff)
  ultimately have "x = r" "mk_rows (c\<lparr>mk_rest := es\<rparr>) = rs" using assms e by (simp_all add: mk_rows_def)
  moreover have "mk_valid c" using assms mk_valid_iff by simp
  ultimately show thesis using that e by blast
qed

interpretation mock_cur: icursor mock_cursor_ops "mk_inv n" mk_rows "\<lambda>c. {..<n}" for n
proof
  fix c assume "mk_inv n c"
  show "cur_valid mock_cursor_ops c \<longleftrightarrow> mk_rows c \<noteq> []" by (simp add: mock_cursor_ops_def mk_valid_iff)
next
  fix c r rs assume c: "mk_inv n c" "mk_rows c = r # rs"
  obtain k es where r: "mk_rest c = (k, r) # es" "mk_valid c" "mk_rows (c\<lparr>mk_rest := es\<rparr>) = rs"
    by (rule mk_rows_Cons [OF c(2)])
  have k: "rkey r = k" "length r = n" using c(1) r(1) by (simp_all add: mk_inv_def)
  show "cur_key mock_cursor_ops c = Inr (rkey r)" using r k by (simp add: mock_cursor_ops_def mk_key_def)
  show "cur_value mock_cursor_ops c i = Inr (r ! i)" if "i \<in> {..<n}" for i
    using r k that by (simp add: mock_cursor_ops_def mk_value_def mk_row_def)
  show "\<exists>c'. cur_next mock_cursor_ops c = Inr c' \<and> mk_inv n c' \<and> mk_rows c' = rs \<and> {..<n} = {..<n}"
    using r c(1) by (intro exI [of _ "c\<lparr>mk_rest := es\<rparr>"]) (simp add: mock_cursor_ops_def mk_next_def mk_inv_def)
qed

section \<open>The engine contract\<close>

definition mock_content :: "mock_tables \<Rightarrow> content" where
  "mock_content ts name = map_option (\<lambda>t. (mt_schema t, mset (map snd (mt_data t)))) (ts name)"

definition mock_holds :: "mock_tables \<Rightarrow> content \<Rightarrow> bool" where
  "mock_holds ts T \<longleftrightarrow>
     (\<forall>name t. ts name = Some t \<longrightarrow> schema_wf (mt_schema t) \<and> memtable_inv (mt_schema t) (mt_data t)) \<and>
     T = mock_content ts"

lemma mock_table_of:
  assumes "mock_holds ts T" "T name = Some (s, M)"
  obtains t where "ts name = Some t" "s = mt_schema t" "M = mset (map snd (mt_data t))" "schema_wf s"
    "memtable_inv s (mt_data t)"
  using assms by (auto simp: mock_content_def mock_holds_def)

lemma mock_cursor_rows:
  assumes mt: "memtable_inv s data"
  shows "mk_rows (MockCursor data lo hi) = in_rng \<lparr>kr_from = lo, kr_to = hi\<rparr> (map snd data)"
proof -
  have srt: "sorted (map fst data)" using mt by (simp add: memtable_inv_def strict_sorted_imp_sorted)
  define rest where "rest = mk_rest (MockCursor data lo hi)"
  have rest: "rest = filter (\<lambda>e. \<forall>f. lo = Some f \<longrightarrow> f \<le> fst e) data"
    using lower_bound_take(2) [OF srt] by (cases lo) (simp_all add: rest_def MockCursor_def map_lower_bound_def)
  have srt': "sorted (map fst rest)" unfolding rest by (rule sorted_filter [OF srt])
  have "takeWhile (below_to (MockCursor data lo hi)) rest = filter (\<lambda>e. \<forall>t. hi = Some t \<longrightarrow> fst e < t) rest"
  proof (cases hi)
    case None
    then show ?thesis by (simp add: below_to_def [abs_def] MockCursor_def takeWhile_eq_all_conv)
  next
    case (Some t)
    then have "below_to (MockCursor data lo hi) = (\<lambda>e. fst e < t)" by (simp add: below_to_def fun_eq_iff MockCursor_def)
    then show ?thesis using lower_bound_take(1) [OF srt', of t] Some by (simp flip: takeWhile_eq_take)
  qed
  then have "mk_rows (MockCursor data lo hi) =
      map snd (filter (\<lambda>e. (\<forall>f. lo = Some f \<longrightarrow> f \<le> fst e) \<and> (\<forall>t. hi = Some t \<longrightarrow> fst e < t)) data)"
    by (simp add: mk_rows_def rest_def [symmetric]) (simp add: rest conj_commute)
  also have "\<dots> = in_rng \<lparr>kr_from = lo, kr_to = hi\<rparr> (map snd data)"
    using mt by (auto simp: in_rng_def filter_map o_def memtable_inv_def rkey_def contains_iff
        intro!: arg_cong [of _ _ "map snd"] filter_cong)
  finally show ?thesis .
qed

lemma mock_cursor_ok:
  assumes wf: "schema_wf s" and mt: "memtable_inv s data" and p: "projection_ok s projection"
  shows "delivers mk_inv mk_rows (\<lambda>n c. {..<n}) (schema_size s) projection (MockCursor data lo hi)
      (in_rng \<lparr>kr_from = lo, kr_to = hi\<rparr> (map snd data))"
    and "sorted (rkeys (in_rng \<lparr>kr_from = lo, kr_to = hi\<rparr> (map snd data)))"
proof -
  have data: "sorted (map fst data)" "\<forall>(k, r) \<in> set data. rkey r = k \<and> keyed r \<and> length r = schema_size s"
    using mt valid_row_keyed [OF wf] by (auto simp: memtable_inv_def strict_sorted_imp_sorted rkey_def)
  have "sorted (map fst (drop n data))" for n using sorted_wrt_drop [OF data(1), of n] by (simp add: drop_map)
  moreover have "set (drop n data) \<subseteq> set data" for n by (rule set_drop_subset)
  ultimately have "mk_inv (schema_size s) (MockCursor data lo hi)"
    using data by (cases lo) (fastforce simp: mk_inv_def MockCursor_def)+
  moreover have "insert KEY_COLUMN_INDEX (set projection) \<subseteq> {..<schema_size s}"
    using p schema_wf_size [OF wf] by (auto simp: projection_ok_def KEY_COLUMN_INDEX_def)
  ultimately show "delivers mk_inv mk_rows (\<lambda>n c. {..<n}) (schema_size s) projection (MockCursor data lo hi)
      (in_rng \<lparr>kr_from = lo, kr_to = hi\<rparr> (map snd data))"
    by (simp add: delivers_def mock_cursor_rows [OF mt])
  have "sorted (rkeys (map snd data))" using data(1) by (simp only: memtable_inv_rkeys [OF mt])
  then show "sorted (rkeys (in_rng \<lparr>kr_from = lo, kr_to = hi\<rparr> (map snd data)))"
    by (simp add: in_rng_def sorted_filter)
qed

lemma map_put_new:
  assumes "k \<notin> fst ` set data"
  shows "mset (map snd (map_put k r data)) = add_mset r (mset (map snd data))"
  using assms by (induction k r data rule: map_put.induct) (auto simp: add_mset_commute)

lemma mock_row_key_ok:
  assumes "schema_wf s" "valid_row s r"
  shows "mock_row_key s r = Inr (rkey r)" "row_key r = Inr (rkey r)"
proof -
  obtain k r' where r: "r = Some (VInt k) # r'" using valid_row_key [OF assms] by blast
  then show "mock_row_key s r = Inr (rkey r)"
    using assms(2) unfolding r by (simp add: mock_row_key_def valid_row_def del: length_Cons)
  show "row_key r = Inr (rkey r)" by (simp add: r)
qed

lemma unique_keys: "distinct (rkeys rows) \<Longrightarrow> count (image_mset rkey (mset rows)) k \<le> 1"
  using distinct_count_atmost_1 [of "rkeys rows"] by (auto split: if_splits)

interpretation mock_engine: engine_contract MockStorageEngine mock_holds mk_inv mk_rows "\<lambda>n c. {..<n}"
    "\<lambda>s. True" "\<lambda>s M. True" "\<lambda>k. k \<noteq> i64_max"
proof (rule engine_contract.intro)
  fix n :: nat
  show "icursor (eng_cursor MockStorageEngine) (mk_inv n) mk_rows (\<lambda>c. {..<n})"
    using mock_cur.icursor_axioms by (simp add: MockStorageEngine_def)
next
  fix st T name s M assume st: "mock_holds st T" "T name = Some (s, M)"
  obtain t where t: "st name = Some t" "s = mt_schema t" "M = mset (map snd (mt_data t))" "schema_wf s"
      "memtable_inv s (mt_data t)" by (rule mock_table_of [OF st])
  have "\<forall>r \<in># M. valid_row s r" using t(3,5) by (auto simp: memtable_inv_def)
  moreover have "distinct (rkeys (map snd (mt_data t)))"
    using t(5) unfolding memtable_inv_rkeys [OF t(5)] by (simp add: memtable_inv_def strict_sorted_iff)
  ultimately show "schema_wf s \<and> (\<forall>r \<in># M. valid_row s r) \<and> (\<forall>k. count (image_mset rkey M) k \<le> 1)"
    using t(3,4) unique_keys by blast
next
  fix st T name assume "mock_holds st T"
  then show "eng_table_exists MockStorageEngine name st \<longleftrightarrow> T name \<noteq> None"
    by (simp add: MockStorageEngine_def mock_table_exists_def mock_content_def mock_holds_def)
next
  fix st T name s M assume "mock_holds st T" "T name = Some (s, M)"
  then show "eng_get_table_schema MockStorageEngine name st = Inr s"
    by (auto simp: MockStorageEngine_def mock_get_table_schema_def mock_get_table_def mock_content_def mock_holds_def)
next
  fix st T name s assume st: "mock_holds st T" "T name = None" "schema_wf s"
  let ?t = "st(name \<mapsto> \<lparr>mt_schema = s, mt_data = []\<rparr>)"
  have "mock_holds ?t (T(name \<mapsto> (s, {#})))" using st by (auto simp: mock_holds_def mock_content_def)
  then show "\<exists>st'. eng_create_table MockStorageEngine name s st = Inr st' \<and> mock_holds st' (T(name \<mapsto> (s, {#})))"
    using st by (intro exI [of _ ?t]) (simp add: MockStorageEngine_def mock_create_table_def mock_content_def mock_holds_def)
next
  fix st T name s assume "mock_holds st T" "T name \<noteq> None"
  then show "eng_create_table MockStorageEngine name s st = Inl (RuntimeError ''Table already exists'')"
    by (simp add: MockStorageEngine_def mock_create_table_def mock_content_def mock_holds_def)
next
  fix st T name s M r assume st: "mock_holds st T" "T name = Some (s, M)" and r: "valid_row s r" "rkey r \<notin># image_mset rkey M"
  obtain t where t: "st name = Some t" "s = mt_schema t" "M = mset (map snd (mt_data t))" "schema_wf s"
      "memtable_inv s (mt_data t)" by (rule mock_table_of [OF st])
  note k = mock_row_key_ok [OF t(4) r(1)]
  let ?t = "st(name \<mapsto> t\<lparr>mt_data := map_put (rkey r) r (mt_data t)\<rparr>)"
  have "rkey r \<notin> set (map fst (mt_data t))" using r(2) t(3) unfolding memtable_inv_rkeys [OF t(5), symmetric] by (simp add: image_image)
  then have m: "mset (map snd (map_put (rkey r) r (mt_data t))) = add_mset r M" unfolding t(3) by (intro map_put_new) simp
  have "mock_holds ?t (T(name \<mapsto> (s, add_mset r M)))"
    using st(1) t m memtable_insert_ok(2) [OF t(5) r(1) k(2)] by (auto simp: mock_holds_def mock_content_def)
  then show "\<exists>st'. eng_insert MockStorageEngine name r st = Some (Inr st') \<and> mock_holds st' (T(name \<mapsto> (s, add_mset r M)))"
    using t k by (intro exI [of _ ?t]) (simp add: MockStorageEngine_def mock_insert_def mock_get_table_def)
next
  fix st T name s M projection k
  assume st: "mock_holds st T" "T name = Some (s, M)" and p: "projection_ok s projection" and k: "k \<noteq> i64_max"
  obtain t where t: "st name = Some t" "s = mt_schema t" "M = mset (map snd (mt_data t))" "schema_wf s"
      "memtable_inv s (mt_data t)" by (rule mock_table_of [OF st])
  let ?c = "MockCursor (mt_data t) (Some k) (Some (i64_succ k))"
    and ?res = "in_rng \<lparr>kr_from = Some k, kr_to = Some (i64_succ k)\<rparr> (map snd (mt_data t))"
  have "contains \<lparr>kr_from = Some k, kr_to = Some (i64_succ k)\<rparr> x \<longleftrightarrow> x = k" for x
    using i64_less_succ_iff [OF k, of x] by (auto simp: contains_iff)
  then have "mset ?res = {#r \<in># M. rkey r = k#}" by (simp add: in_rng_def t(3))
  then show "\<exists>c st' res. eng_get MockStorageEngine name k projection st = (Inr c, st') \<and> mock_holds st' T \<and>
      delivers mk_inv mk_rows (\<lambda>n c. {..<n}) (schema_size s) projection c res \<and>
      mset res = {#r \<in># M. rkey r = k#}"
    using mock_cursor_ok(1) [OF t(4,5) p, of "Some k" "Some (i64_succ k)"] st(1) t(1) k
    by (intro exI [of _ ?c] exI [of _ st] exI [of _ ?res]) (simp add: MockStorageEngine_def mock_get_def mock_get_table_def)
next
  fix st T name s rows projection order f and lo hi :: "key option"
  assume st: "mock_holds st T" "T name = Some (s, mset rows)" and p: "projection_ok s projection"
  obtain t where t: "st name = Some t" "s = mt_schema t" "mset rows = mset (map snd (mt_data t))" "schema_wf s"
      "memtable_inv s (mt_data t)" by (rule mock_table_of [OF st])
  let ?rng = "\<lparr>kr_from = lo, kr_to = hi\<rparr>"
  have "scan_spec ?rng f rows (in_rng ?rng (map snd (mt_data t)))"
    by (rule scan_spec_mset [OF scan_spec_range t(3) refl])
  then show "\<exists>c st' res. eng_scan MockStorageEngine name lo hi projection order f st = (Inr c, st') \<and> mock_holds st' T \<and>
      delivers mk_inv mk_rows (\<lambda>n c. {..<n}) (schema_size s) projection c res \<and>
      scan_spec ?rng f rows res \<and> (order = KeyAscending \<longrightarrow> sorted (rkeys res))"
    using mock_cursor_ok [OF t(4,5) p, of lo hi] st(1) t(1)
    by (intro exI [of _ "MockCursor (mt_data t) lo hi"] exI [of _ st] exI [of _ "in_rng ?rng (map snd (mt_data t))"])
      (simp add: MockStorageEngine_def mock_scan_def mock_get_table_def)
qed

end
