(* ===== verification/Compaction.thy ===== *)
theory Compaction
  imports Stored_Table Registry Text_Num
begin

text \<open>
  Compaction (\<open>src/lsmtree/compaction/\<close>): \<open>StorageConfig\<close>, the policy that picks a level, and the
  job that merges all tables of that level into one table of the next, in row or column layout. The
  job reads its tables through fresh caches and a \<open>MergeCursor\<close>. The lemmas show when the policy is
  idle, and that the job stores exactly the rows of its candidates, merged by key.
\<close>

section \<open>\<open>StorageConfig\<close>\<close>

record storage_config =
  cfg_root_path :: string
  cfg_memtable_threshold :: nat
  cfg_level0_compaction_trigger :: nat
  cfg_size_ratio :: "64 word"
  cfg_base_level_size_bytes :: "64 word"
  cfg_row_to_column_level :: "32 word"
  cfg_sparse_index_step :: "32 word"
  cfg_sparse_index_target_bytes :: nat
  cfg_sparse_index_min_step :: "32 word"
  cfg_sparse_index_max_step :: "32 word"
  cfg_row_block_target_bytes :: nat
  cfg_column_block_target_rows :: nat
  cfg_column_block_target_bytes :: nat
  cfg_compaction_interval_ms :: nat
  cfg_is_compaction_background :: bool

text \<open>The default configuration, with the background default of the build.\<close>

definition StorageConfig :: "bool \<Rightarrow> storage_config" where
  "StorageConfig background =
     \<lparr>cfg_root_path = ''./htap_data'', cfg_memtable_threshold = 10000, cfg_level0_compaction_trigger = 4,
      cfg_size_ratio = 10, cfg_base_level_size_bytes = 256 * 1024 * 1024, cfg_row_to_column_level = 2,
      cfg_sparse_index_step = 0, cfg_sparse_index_target_bytes = 1024 * 1024, cfg_sparse_index_min_step = 1,
      cfg_sparse_index_max_step = 4096, cfg_row_block_target_bytes = 64 * 1024, cfg_column_block_target_rows = 8192,
      cfg_column_block_target_bytes = 64 * 1024, cfg_compaction_interval_ms = 100,
      cfg_is_compaction_background = background\<rparr>"

definition sparse_index_options_from_config :: "storage_config \<Rightarrow> sparse_index_options" where
  "sparse_index_options_from_config config =
     \<lparr>so_fixed_step = cfg_sparse_index_step config, so_target_index_bytes = cfg_sparse_index_target_bytes config,
      so_min_step = cfg_sparse_index_min_step config, so_max_step = cfg_sparse_index_max_step config\<rparr>"

section \<open>Table paths\<close>

definition build_sst_path :: "string \<Rightarrow> 64 word \<Rightarrow> string" where
  "build_sst_path table_path sst_id = table_path @ ''/sst_'' @ zero_pad 20 (dec_digits (unat sst_id)) @ ''.sst''"

text \<open>Different tables have different directories.\<close>

lemma build_sst_path_inject: "build_sst_path root i = build_sst_path root j \<longleftrightarrow> i = j"
proof
  assume "build_sst_path root i = build_sst_path root j"
  then have "zero_pad 20 (dec_digits (unat i)) = zero_pad 20 (dec_digits (unat j))" by (simp add: build_sst_path_def)
  then have "unat i = unat j" using dec_value_pad dec_value_digits by metis
  then show "i = j" by (simp add: word_unat_eq_iff)
qed simp

section \<open>\<open>CompactionPolicy\<close>\<close>

record compaction_task =
  task_src_level :: "32 word"
  task_dst_level :: "32 word"
  task_output_layout :: sst_layout

text \<open>\<open>base * size_ratio ^ level\<close> and the size of a level, both in 64 bits.\<close>

definition level_threshold :: "storage_config \<Rightarrow> 32 word \<Rightarrow> 64 word" where
  "level_threshold config level = ((\<lambda>threshold. threshold * cfg_size_ratio config) ^^ unat level) (cfg_base_level_size_bytes config)"

definition level_size :: "sst_info list \<Rightarrow> 64 word" where
  "level_size sstables = fold (\<lambda>sst total. total + in_size sst) sstables 0"

definition layout_at :: "storage_config \<Rightarrow> 32 word \<Rightarrow> sst_layout" where
  "layout_at config level = (if level \<ge> cfg_row_to_column_level config then COLUMN else ROW)"

text \<open>The loop over the levels from 1 on.\<close>

fun pick_level :: "storage_config \<Rightarrow> registry \<Rightarrow> 32 word list \<Rightarrow> compaction_task option res" where
  "pick_level config reg [] = Inr None"
| "pick_level config reg (level # levels) =
     rbind (sstables_at_level level reg) (\<lambda>sstables.
       if sstables = [] then pick_level config reg levels
       else if level_size sstables > level_threshold config level then
         Inr (Some \<lparr>task_src_level = level, task_dst_level = level + 1, task_output_layout = layout_at config (level + 1)\<rparr>)
       else pick_level config reg levels)"

definition pick :: "storage_config \<Rightarrow> registry \<Rightarrow> compaction_task option res" where
  "pick config reg =
     (if sstable_count 0 reg \<ge> cfg_level0_compaction_trigger config then
        Inr (Some \<lparr>task_src_level = 0, task_dst_level = 1,
          task_output_layout = (if cfg_row_to_column_level config \<le> 1 then COLUMN else ROW)\<rparr>)
      else pick_level config reg (map word_of_nat [1..<unat (word_of_nat (level_count reg) :: 32 word)]))"

section \<open>\<open>CompactionJob\<close>\<close>

text \<open>The directories of the tables by path; a missing directory has no files.\<close>

type_synonym disk = "string \<Rightarrow> sst_files option"

definition files_at :: "disk \<Rightarrow> string \<Rightarrow> sst_files" where
  "files_at d path = (case d path of None \<Rightarrow> \<lparr>f_data = None, f_meta = None, f_index = None, f_info = None, f_stats = None\<rparr>
     | Some fs \<Rightarrow> fs)"

text \<open>A candidate's cursor over the full range and all columns, \<open>None\<close> when it is null or invalid.\<close>

definition open_candidate :: "schema \<Rightarrow> disk \<Rightarrow> sst_info \<Rightarrow> sst_cursor option res" where
  "open_candidate s d sst =
     rbind (open_metadata_cache s sst (files_at d (in_path sst))) (\<lambda>mc.
     rbind (fst (make_sstable_cursor sst (files_at d (in_path sst)) full_range (schema_types s) [0..<schema_size s] [] mc)) (\<lambda>c.
       Inr (case c of None \<Rightarrow> None | Some x \<Rightarrow> if cur_valid sst_cursor_ops x then Some x else None)))"

text \<open>The loop that reads the merged rows and adds them to a builder.\<close>

definition write_merged ::
    "(row \<Rightarrow> 'b \<Rightarrow> 'b res) \<Rightarrow> schema \<Rightarrow> sst_cursor merge_cursor \<Rightarrow> 'b \<Rightarrow> 'b res option" where
  "write_merged add s merged b =
     cursor_loop (merge_ops sst_cursor_ops)
       (\<lambda>m b. rbind (cursor_row (merge_ops sst_cursor_ops) (schema_size s) m) (\<lambda>r. add r b)) merged b"

definition write_table ::
    "schema \<Rightarrow> storage_config \<Rightarrow> sst_layout \<Rightarrow> sst_cursor merge_cursor \<Rightarrow> (sst_build_result \<times> sst_files) res option" where
  "write_table s config layout merged =
     (let options = sparse_index_options_from_config config in
      if layout = COLUMN then
        obind (Some (ColumnSSTableBuilder s options (cfg_column_block_target_rows config) (cfg_column_block_target_bytes config)))
          (\<lambda>b0. obind (write_merged ct_add s merged b0) (\<lambda>b.
            Some (rbind (ct_finish s b) (\<lambda>(result, b'). Inr (result, ct_files b')))))
      else
        obind (Some (RowSSTableBuilder s options (cfg_row_block_target_bytes config)))
          (\<lambda>b0. obind (write_merged (rt_add s) s merged b0) (\<lambda>b.
            Some (rbind (rt_finish s b) (\<lambda>(result, b'). Inr (result, rt_files b'))))))"

text \<open>\<open>CompactionJob::run\<close>: the information of the new table and the files in its directory.\<close>

definition run_compaction ::
    "schema \<Rightarrow> string \<Rightarrow> storage_config \<Rightarrow> disk \<Rightarrow> sst_info list \<Rightarrow> compaction_task \<Rightarrow> 64 word \<Rightarrow>
     (sst_info \<times> sst_files) res option" where
  "run_compaction s table_path config d candidates task new_sst_id =
     (if candidates = [] then Some (Inl (RuntimeError ''CompactionJob::run: no candidates''))
      else
        obind (Some (rmap (open_candidate s d) candidates)) (\<lambda>opened.
        let cursors = List.map_filter (\<lambda>c. c) opened in
        if cursors = [] then Some (Inl (RuntimeError ''CompactionJob::run: all candidate cursors are empty''))
        else
          obind (Some (MergeCursor sst_cursor_ops cursors)) (\<lambda>merged.
          obind (write_table s config (task_output_layout task) merged) (\<lambda>(result, fs).
            Some (Inr (\<lparr>in_id = new_sst_id, in_path = build_sst_path table_path new_sst_id, in_level = task_dst_level task,
                        in_min = br_min_key result, in_max = br_max_key result, in_size = sstable_dir_size fs,
                        in_num_blocks = br_num_blocks result, in_layout = task_output_layout task\<rparr>, fs))))))"

section \<open>What the job writes\<close>

text \<open>The checks of the tree's constructor that concern the builders.\<close>

definition config_ok :: "storage_config \<Rightarrow> bool" where
  "config_ok config \<longleftrightarrow>
     cfg_sparse_index_min_step config \<noteq> 0 \<and> cfg_sparse_index_min_step config \<le> cfg_sparse_index_max_step config \<and>
     cfg_row_block_target_bytes config \<noteq> 0 \<and> cfg_column_block_target_rows config \<noteq> 0 \<and>
     cfg_column_block_target_bytes config \<noteq> 0"

text \<open>A table of the disk that holds the given rows.\<close>

definition on_disk :: "schema \<Rightarrow> disk \<Rightarrow> sst_info \<Rightarrow> row list \<Rightarrow> bool" where
  "on_disk s d info rows \<longleftrightarrow> (\<exists>fs. d (in_path info) = Some fs \<and> stored_table s rows fs info)"

interpretation sst_merge: icursor "merge_ops sst_cursor_ops" sst_cur.merge_inv sst_cur.merge_rows
    "\<lambda>m. sst_cur.all_cols (mg_cursors m)"
  by (rule sst_cur.merge_icursor)

definition full_cursor :: "schema \<Rightarrow> sst_cursor \<Rightarrow> row list \<Rightarrow> bool" where
  "full_cursor s c rows \<longleftrightarrow> sst_inv c \<and> sst_rows c = rows \<and> {..<schema_size s} \<subseteq> sst_cols c"

lemma in_rng_full: "in_rng full_range rows = rows"
  by (simp add: in_rng_def)

lemma open_candidate_ok:
  assumes t: "on_disk s d info rows"
  shows "\<exists>c. open_candidate s d info = Inr (Some c) \<and> full_cursor s c rows"
proof -
  obtain fs where fs: "d (in_path info) = Some fs" "stored_table s rows fs info" using t by (auto simp: on_disk_def)
  note st = stored_tableD [OF fs(2)]
  obtain mc where mc: "open_metadata_cache s info fs = Inr mc" "table_cache s rows fs info mc"
    using open_stored_table [OF fs(2)] by blast
  have p: "projection_ok s [0..<schema_size s]" by (auto simp: projection_ok_def)
  obtain res mc' rs where r: "make_sstable_cursor info fs full_range (schema_types s) [0..<schema_size s] [] mc = (res, mc')"
      "query_result full_range [] rows rs"
      "cursor_delivers res (insert KEY_COLUMN_INDEX (set [0..<schema_size s])) (map (project_row (projection_mask s [0..<schema_size s])) rs)"
    using make_table_cursor_ok [OF mc(2) p] by blast
  have rs: "rs = rows" using query_result_all [OF r(2) st(5)] by (simp add: in_rng_full)
  have "map (project_row (projection_mask s [0..<schema_size s])) rows = rows"
    using st(7) by (intro map_idI) (simp add: project_row_all)
  then have del: "cursor_delivers res (insert KEY_COLUMN_INDEX {..<schema_size s}) rows"
    using r(3) rs by (simp add: atLeast0LessThan)
  then obtain c where c: "res = Inr (Some c)" "sst_inv c" "sst_rows c = rows" "{..<schema_size s} \<subseteq> sst_cols c"
    using st(2) by (auto simp: cursor_delivers_def split: sum.splits option.splits)
  then have "cur_valid sst_cursor_ops c" using sst_cur.valid_iff [of c] st(2) by simp
  then show ?thesis using c r(1) mc(1) fs(1) by (simp add: open_candidate_def files_at_def full_cursor_def)
qed

lemma open_candidates_ok:
  assumes "list_all2 (on_disk s d) candidates rss"
  shows "\<exists>cs. rmap (open_candidate s d) candidates = Inr (map Some cs) \<and> list_all2 (full_cursor s) cs rss"
  using assms
proof (induction rule: list_all2_induct)
  case (Cons info infos rows rss)
  obtain c where "open_candidate s d info = Inr (Some c)" "full_cursor s c rows" using open_candidate_ok [OF Cons(1)] by blast
  moreover obtain cs where "rmap (open_candidate s d) infos = Inr (map Some cs)" "list_all2 (full_cursor s) cs rss"
    using Cons by blast
  ultimately show ?case by (intro exI [of _ "c # cs"]) simp
qed (auto intro: exI [of _ "[]"])

lemma write_merged_ok:
  assumes "sst_cur.merge_inv m" "{..<schema_size s} \<subseteq> sst_cur.all_cols (mg_cursors m)"
    and "\<forall>r \<in> set (sst_cur.merge_rows m). keyed r \<and> length r = schema_size s"
  shows "write_merged add s m b = Some (rfold add (sst_cur.merge_rows m) b)"
  unfolding write_merged_def
proof (rule sst_merge.loop_rows [OF assms(1), where C = "sst_cur.all_cols (mg_cursors m)" and R = "{r. keyed r \<and> length r = schema_size s}"])
  fix x r rs and y
  assume x: "sst_cur.merge_inv x" "sst_cur.merge_rows x = r # rs" "sst_cur.all_cols (mg_cursors x) = sst_cur.all_cols (mg_cursors m)"
    "r \<in> {r. keyed r \<and> length r = schema_size s}"
  have "cursor_row (merge_ops sst_cursor_ops) (schema_size s) x = Inr r"
    by (rule sst_merge.row_read [OF x(1,2)]) (use x(3,4) assms(2) in auto)
  then show "rbind (cursor_row (merge_ops sst_cursor_ops) (schema_size s) x) (\<lambda>r. add r y) = add r y" by simp
qed (use assms(3) in auto)

lemma write_table_ok:
  assumes "sst_cur.merge_inv m" "{..<schema_size s} \<subseteq> sst_cur.all_cols (mg_cursors m)"
    and "\<forall>r \<in> set (sst_cur.merge_rows m). keyed r \<and> length r = schema_size s"
  shows "write_table s config layout m =
    Some (if layout = COLUMN
      then build_col_table s (sparse_index_options_from_config config) (cfg_column_block_target_rows config)
             (cfg_column_block_target_bytes config) (sst_cur.merge_rows m)
      else build_row_table s (sparse_index_options_from_config config) (cfg_row_block_target_bytes config) (sst_cur.merge_rows m))"
  by (simp add: write_table_def Let_def write_merged_ok [OF assms] build_row_table_def build_col_table_def obind_def rbind_def
      split: sum.split)

text \<open>Tables whose rows can be merged into one table.\<close>

definition mergeable :: "schema \<Rightarrow> row list list \<Rightarrow> bool" where
  "mergeable s rss \<longleftrightarrow>
     schema_wf s \<and> (\<forall>rs \<in> set rss. sorted (rkeys rs)) \<and> distinct (rkeys (concat rss)) \<and> storable s (concat rss) \<and>
     table_bytes (concat rss) < 2 ^ 63"

lemma table_bytes_mset: "mset xs = mset ys \<Longrightarrow> table_bytes xs = table_bytes ys"
  unfolding table_bytes_def by (metis mset_map sum_mset_sum_list)

lemma kmerge_table_ok: "mergeable s rss \<Longrightarrow> table_ok s (kmerge rss)"
proof -
  assume m: "mergeable s rss"
  have "mset (rkeys (kmerge rss)) = mset (rkeys (concat rss))" using mset_kmerge [of rss] by (simp only: mset_map)
  then have "distinct (rkeys (kmerge rss))" using m unfolding mergeable_def by (metis mset_eq_imp_distinct_iff)
  moreover have "sorted (rkeys (kmerge rss))" using m by (intro sorted_kmerge) (simp add: mergeable_def)
  moreover have "storable s (kmerge rss)"
    using m mset_eq_length [OF mset_kmerge, of rss] by (simp add: mergeable_def storable_def set_kmerge del: length_concat)
  moreover have "table_bytes (kmerge rss) < 2 ^ 63" using m table_bytes_mset [OF mset_kmerge] by (simp add: mergeable_def)
  ultimately show ?thesis using m by (simp add: table_ok_def table_rows_def mergeable_def strict_sorted_iff)
qed

text \<open>The job stores the merged rows of its candidates.\<close>

lemma run_compaction_ok:
  assumes c: "list_all2 (on_disk s d) candidates rss" "candidates \<noteq> []" and m: "mergeable s rss" and n: "schema_size s < 2 ^ 16"
    and cfg: "config_ok config" and lay: "task_output_layout task \<in> {ROW, COLUMN}"
  shows "\<exists>info fs. run_compaction s table_path config d candidates task new_id = Some (Inr (info, fs)) \<and>
    stored_table s (kmerge rss) fs info \<and> in_id info = new_id \<and> in_path info = build_sst_path table_path new_id \<and>
    in_level info = task_dst_level task"
proof -
  obtain cs where cs: "rmap (open_candidate s d) candidates = Inr (map Some cs)" "list_all2 (full_cursor s) cs rss"
    using open_candidates_ok [OF c(1)] by blast
  have len: "length cs = length rss" "length candidates = length rss"
    using cs(2) c(1) by (simp_all add: list_all2_lengthD)
  then have ne: "cs \<noteq> []" using c(2) by auto
  have each: "\<forall>x \<in> set cs. sst_inv x \<and> {..<schema_size s} \<subseteq> sst_cols x"
    using cs(2) by (fastforce simp: list_all2_conv_all_nth in_set_conv_nth full_cursor_def)
  then have inv: "\<forall>x \<in> set cs. sst_inv x" and cols: "{..<schema_size s} \<subseteq> sst_cur.all_cols cs"
    by (auto simp: sst_cur.all_cols_def subset_iff)
  have rows: "map sst_rows cs = rss"
    using cs(2) by (auto intro!: nth_equalityI simp: list_all2_conv_all_nth full_cursor_def)
  obtain mg where mg: "MergeCursor sst_cursor_ops cs = Inr mg" "sst_cur.merge_inv mg" "mg_cursors mg = cs"
    using sst_cur.MergeCursor_ok [OF inv] by blast
  then have mr: "sst_cur.merge_rows mg = kmerge rss" by (simp add: sst_cur.merge_rows_def rows)
  have tok: "table_ok s (kmerge rss)" using kmerge_table_ok [OF m] .
  note ok = table_ok_rows [OF tok]
  have wt: "write_table s config (task_output_layout task) mg =
    Some (if task_output_layout task = COLUMN
      then build_col_table s (sparse_index_options_from_config config) (cfg_column_block_target_rows config)
             (cfg_column_block_target_bytes config) (kmerge rss)
      else build_row_table s (sparse_index_options_from_config config) (cfg_row_block_target_bytes config) (kmerge rss))"
    using write_table_ok [OF mg(2)] cols ok(2) unfolding mg(3) mr by blast
  have vr: "schema_wf s" "\<forall>r \<in> set (kmerge rss). valid_row s r" "sorted (rkeys (kmerge rss))"
    using ok(1) by (auto simp: table_rows_def storable_def intro: strict_sorted_imp_sorted)
  have "kmerge rss \<noteq> []"
  proof -
    have "hd rss \<noteq> []" "rss \<noteq> []" using c len stored_tableD(2) by (cases rss; auto simp: on_disk_def list_all2_Cons2)+
    then have "set (concat rss) \<noteq> {}" by (cases rss) auto
    then show ?thesis using set_kmerge [of rss] by (metis list.set(1))
  qed
  note b = this
  have run: "run_compaction s table_path config d candidates task new_id =
     obind (write_table s config (task_output_layout task) mg) (\<lambda>(result, fs).
            Some (Inr (\<lparr>in_id = new_id, in_path = build_sst_path table_path new_id, in_level = task_dst_level task,
                        in_min = br_min_key result, in_max = br_max_key result, in_size = sstable_dir_size fs,
                        in_num_blocks = br_num_blocks result, in_layout = task_output_layout task\<rparr>, fs)))"
    using c(2) cs(1) ne mg(1) by (simp add: run_compaction_def map_filter_def Let_def o_def)
  have options: "config_ok config" "so_min_step (sparse_index_options_from_config config) = cfg_sparse_index_min_step config"
      "so_max_step (sparse_index_options_from_config config) = cfg_sparse_index_max_step config"
    using cfg by (simp_all add: sparse_index_options_from_config_def)
  show ?thesis
  proof (cases "task_output_layout task = COLUMN")
    case True
    obtain res fs where y: "build_col_table s (sparse_index_options_from_config config) (cfg_column_block_target_rows config)
             (cfg_column_block_target_bytes config) (kmerge rss) = Inr (res, fs)"
      using build_col_table_ok [OF vr(1) n vr(2,3) b ok(4), of "cfg_column_block_target_rows config" "cfg_column_block_target_bytes config"
          "sparse_index_options_from_config config"] options by (auto simp: config_ok_def)
    show ?thesis unfolding run wt using build_col_stored [OF y tok b n] by (simp add: True y sstable_dir_size_eq)
  next
    case False
    then have l: "task_output_layout task = ROW" using lay by simp
    obtain res fs where y: "build_row_table s (sparse_index_options_from_config config) (cfg_row_block_target_bytes config) (kmerge rss) = Inr (res, fs)"
      using build_row_table_ok [OF vr b ok(4), of "cfg_row_block_target_bytes config" "sparse_index_options_from_config config"] options
      by (auto simp: config_ok_def)
    show ?thesis unfolding run wt using build_row_stored [OF y tok b n] by (simp add: l y sstable_dir_size_eq)
  qed
qed

section \<open>What the policy picks\<close>

text \<open>
  A level that has to be compacted: the number of the tables of level 0; for a deeper level the sum of the file
  sizes against the base size times a power of the ratio, in 64 bits.
\<close>

definition level_full :: "storage_config \<Rightarrow> registry \<Rightarrow> nat \<Rightarrow> bool" where
  "level_full config reg l \<longleftrightarrow>
     (if l = 0 then cfg_level0_compaction_trigger config \<le> length (level_tables 0 reg)
      else level_tables l reg \<noteq> [] \<and>
        cfg_base_level_size_bytes config * cfg_size_ratio config ^ l < (\<Sum>sst\<leftarrow>level_tables l reg. in_size sst))"

definition level_task :: "storage_config \<Rightarrow> nat \<Rightarrow> compaction_task" where
  "level_task config l =
     \<lparr>task_src_level = word_of_nat l, task_dst_level = word_of_nat (Suc l),
      task_output_layout = (if cfg_row_to_column_level config \<le> word_of_nat (Suc l) then COLUMN else ROW)\<rparr>"

lemma unat_of_nat_level: "l < 2 ^ 32 \<Longrightarrow> unat (word_of_nat l :: 32 word) = l"
  by (simp add: unat_of_nat)

text \<open>The loops of the policy compute these numbers.\<close>

lemma level_threshold_power:
  assumes "l < 2 ^ 32"
  shows "level_threshold config (word_of_nat l) = cfg_base_level_size_bytes config * cfg_size_ratio config ^ l"
proof -
  have "((\<lambda>threshold. threshold * r) ^^ n) b = b * r ^ n" for b r :: "64 word" and n
    by (induction n) (simp_all add: mult.assoc mult.commute)
  then show ?thesis using assms by (simp add: level_threshold_def unat_of_nat_level)
qed

lemma level_size_sum: "level_size sstables = (\<Sum>sst\<leftarrow>sstables. in_size sst)"
proof -
  have "fold (\<lambda>sst total. total + in_size sst) sstables n = n + (\<Sum>sst\<leftarrow>sstables. in_size sst)" for n
    by (induction sstables arbitrary: n) (simp_all add: add.assoc)
  then show ?thesis by (simp add: level_size_def)
qed

lemma level_full_computed:
  assumes "l < 2 ^ 32"
  shows "level_full config reg l \<longleftrightarrow>
     (if l = 0 then cfg_level0_compaction_trigger config \<le> length (level_tables 0 reg)
      else level_tables l reg \<noteq> [] \<and> level_threshold config (word_of_nat l) < level_size (level_tables l reg))"
  using assms by (simp add: level_full_def level_threshold_power level_size_sum)

lemma pick_level_find:
  assumes "\<forall>l \<in> set ls. 0 < l \<and> l < length reg" "length reg < 2 ^ 32"
  shows "pick_level config reg (map word_of_nat ls) = Inr (map_option (level_task config) (find (level_full config reg) ls))"
  using assms
proof (induction ls)
  case (Cons l ls)
  have l: "0 < l" "l < length reg" using Cons.prems by simp_all
  then have u: "unat (word_of_nat l :: 32 word) = l" using Cons.prems(2) by (intro unat_of_nat_level) simp
  have "sstables_at_level (word_of_nat l) reg = Inr (level_tables l reg)"
    using l by (simp add: sstables_at_level_def u level_tables_def)
  moreover have "(word_of_nat l :: 32 word) + 1 = word_of_nat (Suc l)" by simp
  ultimately show ?case using Cons l by (simp add: level_full_computed level_task_def layout_at_def add.commute)
qed simp

lemma pick_find:
  assumes "length reg < 2 ^ 32"
  shows "pick config reg = Inr (map_option (level_task config) (find (level_full config reg) [0..<max 1 (length reg)]))"
proof -
  have c: "sstable_count 0 reg = length (level_tables 0 reg)" by (simp add: sstable_count_def level_tables_def)
  have u: "unat (word_of_nat (level_count reg) :: 32 word) = length reg" using assms by (simp add: level_count_def unat_of_nat)
  have ls: "[0..<max 1 (length reg)] = 0 # [1..<length reg]" by (cases "length reg") (simp_all add: upt_conv_Cons del: upt_Suc)
  have "pick_level config reg (map word_of_nat [1..<length reg]) =
      Inr (map_option (level_task config) (find (level_full config reg) [1..<length reg]))"
    using assms by (intro pick_level_find) auto
  then show ?thesis
    unfolding pick_def u ls c by (simp add: level_full_def [of _ _ 0] level_task_def [of _ 0] layout_at_def)
qed

lemma layout_at_written [simp]: "layout_at config l \<in> {ROW, COLUMN}"
  by (simp add: layout_at_def)

section \<open>Properties\<close>


definition sample_config :: storage_config where
  "sample_config = (StorageConfig False)\<lparr>cfg_root_path := ''db'', cfg_memtable_threshold := 2,
     cfg_level0_compaction_trigger := 2, cfg_base_level_size_bytes := 100, cfg_row_block_target_bytes := 16\<rparr>"

lemma sample_config_ok [simp]: "config_ok sample_config"
  by (simp add: config_ok_def sample_config_def StorageConfig_def)


text \<open>C10: A compaction writes one table that holds exactly the rows of its candidates, each once, in key
  order, readable in the layout of its level. It is given any nonempty set of stored tables whose
  keys differ, and cannot fail or run forever on them.\<close>

theorem compaction_keeps_rows:
  assumes "list_all2 (on_disk s d) candidates rss" "candidates \<noteq> []" "mergeable s rss" "schema_size s < 2 ^ 16"
    and "config_ok config" "task_output_layout task \<in> {ROW, COLUMN}"
  shows "\<exists>info fs rows. run_compaction s table_path config d candidates task new_id = Some (Inr (info, fs)) \<and>
    on_disk s (d(in_path info \<mapsto> fs)) info rows \<and> mset rows = mset (concat rss) \<and> sorted_wrt (<) (rkeys rows) \<and>
    in_level info = task_dst_level task"
proof -
  obtain info fs where r: "run_compaction s table_path config d candidates task new_id = Some (Inr (info, fs))"
      "stored_table s (kmerge rss) fs info" "in_level info = task_dst_level task"
    using run_compaction_ok [OF assms] by blast
  then have "on_disk s (d(in_path info \<mapsto> fs)) info (kmerge rss)" by (simp add: on_disk_def)
  then show ?thesis using r mset_kmerge stored_tableD(5) [OF r(2)] by blast
qed

text \<open>Two stored tables with one row each, and the disk that has them.\<close>

lemma sample_one_row_table: "\<exists>res fs. build_row_table sample_schema SparseIndexOptions 16 [sample_row k] = Inr (res, fs)"
  using build_row_table_ok [of sample_schema "[sample_row k]" 16 SparseIndexOptions] sample_schema_wf
  by (simp add: SparseIndexOptions_def)

lemma sample_one_row_ok: "table_ok sample_schema [sample_row k]"
  by (simp add: table_ok_def table_rows_def storable_def)
    (simp add: cells_fit_def sample_row_def table_bytes_def row_bytes_def)

lemma sample_schema_small: "schema_size sample_schema < 2 ^ 16"
  by (simp add: schema_size_def sample_columns sample_defs_def)

lemma sample_stored: "\<exists>info fs. in_path info = p \<and> in_level info = 0 \<and> stored_table sample_schema [sample_row k] fs info"
proof -
  obtain res fs where b: "build_row_table sample_schema SparseIndexOptions 16 [sample_row k] = Inr (res, fs)"
    using sample_one_row_table by blast
  let ?info = "\<lparr>in_id = 0, in_path = p, in_level = 0, in_min = br_min_key res, in_max = br_max_key res,
     in_size = sstable_size_bytes fs, in_num_blocks = br_num_blocks res, in_layout = ROW\<rparr>"
  have "stored_table sample_schema [sample_row k] fs ?info"
    by (rule build_row_stored [OF b sample_one_row_ok _ sample_schema_small]) simp_all
  then show ?thesis by (intro exI [of _ ?info]) auto
qed

lemma rkey_sample_row [simp]: "rkey (sample_row k) = k"
  by (simp add: sample_row_def rkey_def)

lemma sample_mergeable: "mergeable sample_schema [[sample_row (I64 5)], [sample_row (I64 1)]]"
  using sample_one_row_ok [of "I64 5"]
  by (simp add: mergeable_def storable_def table_ok_def table_rows_def)
    (simp add: cells_fit_def sample_row_def table_bytes_def row_bytes_def)

lemma compaction_keeps_rows_witness:
  "\<exists>d info1 info2 info fs rows.
     run_compaction sample_schema ''db'' sample_config d [info1, info2] (level_task sample_config 0) 2 = Some (Inr (info, fs)) \<and>
     mset rows = {#sample_row (I64 5), sample_row (I64 1)#} \<and> sorted_wrt (<) (rkeys rows)"
proof -
  obtain info1 fs1 where i1: "in_path info1 = ''a''" "stored_table sample_schema [sample_row (I64 5)] fs1 info1"
    using sample_stored by blast
  obtain info2 fs2 where i2: "in_path info2 = ''b''" "stored_table sample_schema [sample_row (I64 1)] fs2 info2"
    using sample_stored by blast
  let ?d = "[''a'' \<mapsto> fs1, ''b'' \<mapsto> fs2]"
  have "list_all2 (on_disk sample_schema ?d) [info1, info2] [[sample_row (I64 5)], [sample_row (I64 1)]]"
    using i1 i2 by (simp add: on_disk_def)
  moreover have "task_output_layout (level_task sample_config 0) \<in> {ROW, COLUMN}" by (simp add: level_task_def)
  ultimately show ?thesis
    using compaction_keeps_rows [of sample_schema ?d "[info1, info2]" "[[sample_row (I64 5)], [sample_row (I64 1)]]" sample_config
        "level_task sample_config 0" "''db''" 2] sample_mergeable sample_schema_small
    by fastforce
qed

end
