(* ===== verification/Manifest.thy ===== *)
theory Manifest
  imports Registry
begin

text \<open>
  \<open>SSTableManifest\<close> (\<open>sstable_manifest.cpp\<close>): the file that lists all tables of the registry and
  the next free table number. \<open>save\<close> writes a temporary file and renames it over the old one,
  which is one step here; \<open>load\<close> adds the entries to a registry, and leaves the registry alone
  when there is no file.
\<close>

definition MANIFEST_MAGIC :: "32 word" where
  "MANIFEST_MAGIC = 0x48544150"

fun layout_of_code :: "byte \<Rightarrow> sst_layout" where
  "layout_of_code b = (if b = 0 then ROW else if b = 1 then COLUMN else OtherLayout b)"

section \<open>Saving\<close>

definition manifest_entry :: "sst_info \<Rightarrow> byte list" where
  "manifest_entry info =
     (let path_len = min (length (in_path info)) 65535 in
      enc_u64 (in_id info) @ enc_u32 (in_level info) @ [layout_code (in_layout info)] @
      enc_i64 (in_min info) @ enc_i64 (in_max info) @ enc_u32 (in_num_blocks info) @
      enc_u64 (in_size info) @ le_bytes 2 (word_of_nat path_len :: 16 word) @
      take path_len (string_bytes (in_path info)))"

definition manifest_save :: "registry \<Rightarrow> 64 word \<Rightarrow> byte list" where
  "manifest_save reg next_sst_id =
     (let all_entries = concat reg in
      enc_u32 MANIFEST_MAGIC @ enc_u32 (word_of_nat (length all_entries)) @ enc_u64 next_sst_id @
      concat (map manifest_entry all_entries))"

section \<open>Loading\<close>

definition manifest_end :: exn where
  "manifest_end = RuntimeError ''Manifest: unexpected end of file: ''"

definition read_manifest_entry :: "byte list \<Rightarrow> (sst_info \<times> byte list) res" where
  "read_manifest_entry bs0 =
     rbind (read_le manifest_end 8 bs0) (\<lambda>(i, bs1).
     rbind (read_le manifest_end 4 bs1) (\<lambda>(level, bs2).
     rbind (read_le manifest_end 1 bs2) (\<lambda>(layout, bs3).
     rbind (read_i64 manifest_end bs3) (\<lambda>(mn, bs4).
     rbind (read_i64 manifest_end bs4) (\<lambda>(mx, bs5).
     rbind (read_le manifest_end 4 bs5) (\<lambda>(num_blocks, bs6).
     rbind (read_le manifest_end 8 bs6) (\<lambda>(file_size, bs7).
     rbind (read_le manifest_end 2 bs7) (\<lambda>(path_len :: 16 word, bs8).
     rbind (read_bytes (RuntimeError ''Manifest: failed to read path string: '') (unat path_len) bs8) (\<lambda>(path, rest).
       Inr (\<lparr>in_id = i, in_path = map char_of_byte path, in_level = level, in_min = mn, in_max = mx,
              in_size = file_size, in_num_blocks = num_blocks, in_layout = layout_of_code layout\<rparr>, rest))))))))))"

fun load_entries :: "nat \<Rightarrow> byte list \<Rightarrow> registry \<Rightarrow> registry res" where
  "load_entries 0 bs reg = Inr reg"
| "load_entries (Suc n) bs reg =
     rbind (read_manifest_entry bs) (\<lambda>(info, rest). rbind (reg_add info reg) (load_entries n rest))"

definition manifest_load :: "byte list option \<Rightarrow> registry \<Rightarrow> (registry \<times> 64 word) res" where
  "manifest_load file reg =
     (case file of
        None \<Rightarrow> Inr (reg, 0)
      | Some bs0 \<Rightarrow>
          rbind (read_le manifest_end 4 bs0) (\<lambda>(magic, bs1).
          if magic \<noteq> MANIFEST_MAGIC then Inl (RuntimeError ''Manifest: invalid magic in '')
          else
            rbind (read_le manifest_end 4 bs1) (\<lambda>(entry_count :: 32 word, bs2).
            rbind (read_le manifest_end 8 bs2) (\<lambda>(next_sst_id, bs3).
            rbind (load_entries (unat entry_count) bs3 reg) (\<lambda>reg'. Inr (reg', next_sst_id))))))"

section \<open>Round trip\<close>

text \<open>Information that survives the encoding: the path length has 16 bits.\<close>

definition info_fits :: "sst_info \<Rightarrow> bool" where
  "info_fits info \<longleftrightarrow> length (in_path info) < 2 ^ 16 \<and> in_level info \<noteq> -1 \<and>
     layout_of_code (layout_code (in_layout info)) = in_layout info"

lemma read_layout_byte [simp]: "read_le e (Suc 0) (b # bs) = Inr (b, bs)"
  by (simp add: read_le_def read_bytes_def)

lemma read_manifest_entry_append:
  assumes "info_fits info"
  shows "read_manifest_entry (manifest_entry info @ rest) = Inr (info, rest)"
proof -
  have m: "min (length (in_path info)) 65535 = length (in_path info)"
    using assms by (simp add: info_fits_def)
  have "unat (word_of_nat (length (in_path info)) :: 16 word) = length (in_path info)"
    using assms by (simp add: info_fits_def unat_of_nat)
  then show ?thesis using assms
    by (simp add: read_manifest_entry_def manifest_entry_def m info_fits_def Let_def del: layout_of_code.simps)
qed

lemma load_entries_ok:
  "\<forall>info \<in> set infos. info_fits info \<Longrightarrow>
   load_entries (length infos) (concat (map manifest_entry infos) @ rest) reg = rfold reg_add infos reg"
proof (induction infos arbitrary: reg)
  case (Cons info infos)
  then have "load_entries (length infos) (concat (map manifest_entry infos) @ rest) = rfold reg_add infos"
    by (intro ext) simp
  then show ?case
    using Cons.prems read_manifest_entry_append [of info "concat (map manifest_entry infos) @ rest"] by simp
qed simp

section \<open>Properties\<close>

text \<open>C39: Loading a saved manifest into an empty registry gives back the tables of every level in their
  order, and the next free table number.\<close>

theorem manifest_round_trip:
  assumes "levels_ok reg" "\<forall>info \<in> set (concat reg). info_fits info" "length (concat reg) < 2 ^ 32"
  shows "\<exists>reg'. manifest_load (Some (manifest_save reg next_id)) [] = Inr (reg', next_id) \<and>
    levels_ok reg' \<and> (\<forall>l. level_tables l reg' = level_tables l reg)"
proof -
  have "\<forall>info \<in> set (concat reg). in_level info \<noteq> -1" using assms(2) by (auto simp: info_fits_def)
  from rfold_reg_add [OF this, of "[]"] obtain reg' where r: "rfold reg_add (concat reg) [] = Inr reg'" "levels_ok reg'"
      "\<forall>l. level_tables l reg' = filter (\<lambda>info. unat (in_level info) = l) (concat reg)"
    by (auto simp: level_tables_def)
  have "load_entries (length (concat reg)) (concat (map manifest_entry (concat reg))) [] = Inr reg'"
    using load_entries_ok [OF assms(2), of "[]" "[]"] r(1) by simp
  then have "manifest_load (Some (manifest_save reg next_id)) [] = Inr (reg', next_id)"
    using assms(3) by (simp add: manifest_load_def manifest_save_def Let_def unat_of_nat_32 del: length_concat)
  then show ?thesis using r(2,3) filter_levels [OF assms(1)] by simp
qed

text \<open>A registry with one table on level 0 and one on level 2.\<close>

definition sample_registry :: registry where
  "sample_registry =
     [[\<lparr>in_id = 3, in_path = ''a'', in_level = 0, in_min = I64 1, in_max = I64 5, in_size = 46, in_num_blocks = 2, in_layout = ROW\<rparr>],
      [], [\<lparr>in_id = 2, in_path = ''bc'', in_level = 2, in_min = I64 1, in_max = I64 9, in_size = 90, in_num_blocks = 3, in_layout = COLUMN\<rparr>]]"

lemma manifest_round_trip_witness:
  "\<exists>reg'. manifest_load (Some (manifest_save sample_registry 4)) [] = Inr (reg', 4) \<and>
     levels_ok reg' \<and> level_tables 2 reg' = level_tables 2 sample_registry"
proof -
  have "levels_ok sample_registry"
    by (auto simp: levels_ok_def sample_registry_def less_Suc_eq)
  moreover have "\<forall>info \<in> set (concat sample_registry). info_fits info"
    by (simp add: sample_registry_def info_fits_def)
  moreover have "length (concat sample_registry) < 2 ^ 32" by (simp add: sample_registry_def)
  ultimately show ?thesis using manifest_round_trip [of sample_registry 4] by blast
qed

end
