(* ===== verification/Lsm_Tree.thy ===== *)
theory Lsm_Tree
  imports Compaction Manifest Mem_Layer
begin

text \<open>
  \<open>LSMTree\<close> (\<open>src/lsmtree/lsmtree.cpp\<close>): the memory layer, the registry, the table directories and
  the manifest as one state, and the operations under the mutex. \<open>flush_one_locked\<close> and
  \<open>compact_one_locked\<close> release the mutex while they write; each is split at these two points, so that
  the synchronous mode runs the pieces in sequence and the background worker interleaves them with
  inserts. Cursors of a scan hold the values they were opened on.
\<close>

section \<open>The state\<close>

record lsm_tree =
  lt_schema :: schema
  lt_config :: storage_config
  lt_memory :: memory_layer
  lt_registry :: registry
  lt_next_id :: "64 word"
  lt_caches :: "64 word \<Rightarrow> meta_cache option"
  lt_stop :: bool
  lt_disk :: disk
  lt_manifest :: "byte list option"

text \<open>The constructor, on the directories and the manifest it finds.\<close>

definition LSMTree :: "schema \<Rightarrow> storage_config \<Rightarrow> disk \<Rightarrow> byte list option \<Rightarrow> lsm_tree res" where
  "LSMTree s config d manifest =
     (if cfg_sparse_index_min_step config = 0 then
        Inl (RuntimeError ''LSMTree: sparse index min step must be positive'')
      else if cfg_sparse_index_max_step config < cfg_sparse_index_min_step config then
        Inl (RuntimeError ''LSMTree: sparse index max step must be >= min step'')
      else if cfg_sparse_index_target_bytes config = 0 \<and> cfg_sparse_index_step config = 0 then
        Inl (RuntimeError ''LSMTree: adaptive sparse index target bytes must be positive'')
      else if cfg_row_block_target_bytes config = 0 then
        Inl (RuntimeError ''LSMTree: row block target bytes must be positive'')
      else if cfg_column_block_target_rows config = 0 then
        Inl (RuntimeError ''LSMTree: column block target rows must be positive'')
      else if cfg_column_block_target_bytes config = 0 then
        Inl (RuntimeError ''LSMTree: column block target bytes must be positive'')
      else
        rbind (manifest_load manifest []) (\<lambda>(reg, next_id).
          Inr \<lparr>lt_schema = s, lt_config = config, lt_memory = MemoryLayer (cfg_memtable_threshold config),
               lt_registry = reg, lt_next_id = next_id, lt_caches = (\<lambda>_. None), lt_stop = False,
               lt_disk = d, lt_manifest = manifest\<rparr>))"

definition tree_sst_path :: "lsm_tree \<Rightarrow> 64 word \<Rightarrow> string" where
  "tree_sst_path t sst_id = build_sst_path (cfg_root_path (lt_config t)) sst_id"

definition save_manifest :: "lsm_tree \<Rightarrow> lsm_tree" where
  "save_manifest t = t\<lparr>lt_manifest := Some (manifest_save (lt_registry t) (lt_next_id t))\<rparr>"

definition delete_sst_files :: "64 word \<Rightarrow> lsm_tree \<Rightarrow> lsm_tree" where
  "delete_sst_files sst_id t = t\<lparr>lt_disk := (lt_disk t)(tree_sst_path t sst_id := None)\<rparr>"

definition has_pending_work :: "lsm_tree \<Rightarrow> bool res" where
  "has_pending_work t =
     (if immutable_count (lt_memory t) > 0 then Inr True
      else rbind (pick (lt_config t) (lt_registry t)) (\<lambda>task. Inr (task \<noteq> None)))"

section \<open>Flush\<close>

text \<open>Up to \<open>lock.unlock()\<close>: nothing to flush, an empty memtable dropped, or a memtable and a number.\<close>

datatype flush_job = NothingToFlush | DroppedEmpty | FlushJob imm_memtable "64 word"

definition flush_begin :: "lsm_tree \<Rightarrow> flush_job \<times> lsm_tree" where
  "flush_begin t =
     (case front_immutable (lt_memory t) of
        None \<Rightarrow> (NothingToFlush, t)
      | Some imm \<Rightarrow>
          if length imm = 0 then (DroppedEmpty, t\<lparr>lt_memory := snd (pop_front_immutable (lt_memory t))\<rparr>)
          else (FlushJob imm (lt_next_id t), t\<lparr>lt_next_id := lt_next_id t + 1\<rparr>))"

text \<open>Without the mutex: the table is built in its directory.\<close>

definition flush_write :: "imm_memtable \<Rightarrow> 64 word \<Rightarrow> lsm_tree \<Rightarrow> (sst_info \<times> lsm_tree) res" where
  "flush_write imm sst_id t =
     rbind (build_row_table (lt_schema t) (sparse_index_options_from_config (lt_config t))
              (cfg_row_block_target_bytes (lt_config t)) imm) (\<lambda>(result, fs).
       Inr (\<lparr>in_id = sst_id, in_path = tree_sst_path t sst_id, in_level = 0, in_min = br_min_key result,
             in_max = br_max_key result, in_size = sstable_size_bytes fs, in_num_blocks = br_num_blocks result,
             in_layout = ROW\<rparr>,
            t\<lparr>lt_disk := (lt_disk t)(tree_sst_path t sst_id \<mapsto> fs)\<rparr>))"

text \<open>From \<open>lock.lock()\<close> on.\<close>

definition flush_end :: "sst_info \<Rightarrow> lsm_tree \<Rightarrow> lsm_tree res" where
  "flush_end info t =
     rbind (reg_add info (lt_registry t)) (\<lambda>reg.
       Inr (save_manifest (t\<lparr>lt_registry := reg, lt_memory := snd (pop_front_immutable (lt_memory t))\<rparr>)))"

definition flush_one :: "lsm_tree \<Rightarrow> (bool \<times> lsm_tree) res" where
  "flush_one t0 =
     (case flush_begin t0 of
        (NothingToFlush, t) \<Rightarrow> Inr (False, t)
      | (DroppedEmpty, t) \<Rightarrow> Inr (True, t)
      | (FlushJob imm sst_id, t) \<Rightarrow>
          rbind (flush_write imm sst_id t) (\<lambda>(info, t). rbind (flush_end info t) (\<lambda>t. Inr (True, t))))"

section \<open>Compaction\<close>

datatype compact_job = NothingToCompact | CompactJob "sst_info list" compaction_task "64 word"

definition compact_begin :: "lsm_tree \<Rightarrow> (compact_job \<times> lsm_tree) res" where
  "compact_begin t =
     rbind (pick (lt_config t) (lt_registry t)) (\<lambda>task.
       case task of
         None \<Rightarrow> Inr (NothingToCompact, t)
       | Some task \<Rightarrow>
           rbind (sstables_at_level (task_src_level task) (lt_registry t)) (\<lambda>candidates.
             if candidates = [] then Inr (NothingToCompact, t)
             else Inr (CompactJob candidates task (lt_next_id t), t\<lparr>lt_next_id := lt_next_id t + 1\<rparr>)))"

definition compact_write :: "sst_info list \<Rightarrow> compaction_task \<Rightarrow> 64 word \<Rightarrow> lsm_tree \<Rightarrow> (sst_info \<times> lsm_tree) res option" where
  "compact_write candidates task new_id t =
     obind (run_compaction (lt_schema t) (cfg_root_path (lt_config t)) (lt_config t) (lt_disk t) candidates task new_id)
       (\<lambda>(new_info, fs). Some (Inr (new_info, t\<lparr>lt_disk := (lt_disk t)(in_path new_info \<mapsto> fs)\<rparr>)))"

text \<open>The loop that drops the old tables from the registry and the disk.\<close>

definition drop_table :: "sst_info \<Rightarrow> lsm_tree \<Rightarrow> lsm_tree" where
  "drop_table old_sst t = delete_sst_files (in_id old_sst) (t\<lparr>lt_registry := reg_remove (in_id old_sst) (lt_registry t)\<rparr>)"

definition compact_end :: "sst_info list \<Rightarrow> sst_info \<Rightarrow> lsm_tree \<Rightarrow> lsm_tree res" where
  "compact_end candidates new_info t =
     rbind (reg_add new_info (lt_registry t)) (\<lambda>reg.
       Inr (save_manifest (fold drop_table candidates (t\<lparr>lt_registry := reg\<rparr>))))"

definition compact_one :: "lsm_tree \<Rightarrow> (bool \<times> lsm_tree) res option" where
  "compact_one t0 =
     obind (Some (compact_begin t0)) (\<lambda>(job, t).
       case job of
         NothingToCompact \<Rightarrow> Some (Inr (False, t))
       | CompactJob candidates task new_id \<Rightarrow>
           obind (compact_write candidates task new_id t) (\<lambda>(new_info, t).
             Some (rbind (compact_end candidates new_info t) (\<lambda>t. Inr (True, t)))))"

section \<open>Draining the work\<close>

lemma obind_bind: "obind m f = Option.bind m (\<lambda>r. case r of Inl e \<Rightarrow> Some (Inl e) | Inr x \<Rightarrow> f x)"
  by (auto simp: obind_def split: option.splits sum.splits)

lemma obind_mono [partial_function_mono]:
  assumes "mono_option B" "\<And>x. mono_option (\<lambda>f. C x f)"
  shows "mono_option (\<lambda>f. obind (B f) (\<lambda>x. C x f))"
  unfolding obind_bind
proof (rule bind_mono [OF assms(1)])
  fix y
  show "mono_option (\<lambda>f. case y of Inl e \<Rightarrow> Some (Inl e) | Inr x \<Rightarrow> C x f)"
    using assms(2) by (cases y) (simp_all add: option.const_mono)
qed

partial_function (option) drain_work :: "lsm_tree \<Rightarrow> lsm_tree res option" where
  [code]: "drain_work t =
     (if lt_stop t then Some (Inr t)
      else obind (Some (has_pending_work t)) (\<lambda>pending.
        if \<not> pending then Some (Inr t)
        else obind (Some (flush_one t)) (\<lambda>p.
          if fst p then drain_work (snd p)
          else obind (compact_one (snd p)) (\<lambda>q.
            if fst q then drain_work (snd q) else Some (Inr (snd q))))))"

definition lt_insert :: "row \<Rightarrow> lsm_tree \<Rightarrow> lsm_tree res option" where
  "lt_insert r t =
     obind (Some (ml_insert r (lt_memory t))) (\<lambda>ml.
       if cfg_is_compaction_background (lt_config t) then Some (Inr (t\<lparr>lt_memory := ml\<rparr>))
       else drain_work (t\<lparr>lt_memory := ml\<rparr>))"

section \<open>Scan\<close>

text \<open>The cursors a scan composes, by their dynamic type.\<close>

datatype tree_cursor = ActiveCur active_cursor | ImmCur imm_cursor | SstCur sst_cursor

definition tree_cursor_ops :: "tree_cursor cursor_ops" where
  "tree_cursor_ops = \<lparr>
     cur_valid = (\<lambda>c. case c of ActiveCur x \<Rightarrow> cur_valid active_ops x | ImmCur x \<Rightarrow> cur_valid imm_ops x
        | SstCur x \<Rightarrow> cur_valid sst_cursor_ops x),
     cur_next = (\<lambda>c. case c of ActiveCur x \<Rightarrow> rbind (cur_next active_ops x) (\<lambda>y. Inr (ActiveCur y))
        | ImmCur x \<Rightarrow> rbind (cur_next imm_ops x) (\<lambda>y. Inr (ImmCur y))
        | SstCur x \<Rightarrow> rbind (cur_next sst_cursor_ops x) (\<lambda>y. Inr (SstCur y))),
     cur_key = (\<lambda>c. case c of ActiveCur x \<Rightarrow> cur_key active_ops x | ImmCur x \<Rightarrow> cur_key imm_ops x
        | SstCur x \<Rightarrow> cur_key sst_cursor_ops x),
     cur_value = (\<lambda>c i. case c of ActiveCur x \<Rightarrow> cur_value active_ops x i | ImmCur x \<Rightarrow> cur_value imm_ops x i
        | SstCur x \<Rightarrow> cur_value sst_cursor_ops x i)\<rparr>"

text \<open>\<open>PinnedCursor\<close> delegates every call, and owns the memtables its inner cursor reads.\<close>

record pinned_cursor =
  pc_inner :: "tree_cursor composed"
  pc_pins :: "imm_memtable list"

datatype scan_cursor = Plain "tree_cursor composed" | Pinned pinned_cursor

definition scan_cursor_ops :: "scan_cursor cursor_ops" where
  "scan_cursor_ops = \<lparr>
     cur_valid = (\<lambda>c. case c of Plain x \<Rightarrow> cur_valid (composed_ops tree_cursor_ops) x
        | Pinned p \<Rightarrow> cur_valid (composed_ops tree_cursor_ops) (pc_inner p)),
     cur_next = (\<lambda>c. case c of Plain x \<Rightarrow> rbind (cur_next (composed_ops tree_cursor_ops) x) (\<lambda>y. Inr (Plain y))
        | Pinned p \<Rightarrow> rbind (cur_next (composed_ops tree_cursor_ops) (pc_inner p)) (\<lambda>y. Inr (Pinned (p\<lparr>pc_inner := y\<rparr>)))),
     cur_key = (\<lambda>c. case c of Plain x \<Rightarrow> cur_key (composed_ops tree_cursor_ops) x
        | Pinned p \<Rightarrow> cur_key (composed_ops tree_cursor_ops) (pc_inner p)),
     cur_value = (\<lambda>c i. case c of Plain x \<Rightarrow> cur_value (composed_ops tree_cursor_ops) x i
        | Pinned p \<Rightarrow> cur_value (composed_ops tree_cursor_ops) (pc_inner p) i)\<rparr>"

definition get_or_create_metadata_cache :: "sst_info \<Rightarrow> lsm_tree \<Rightarrow> meta_cache res \<times> lsm_tree" where
  "get_or_create_metadata_cache info t =
     (case lt_caches t (in_id info) of
        Some mc \<Rightarrow> (Inr mc, t)
      | None \<Rightarrow>
          (case open_metadata_cache (lt_schema t) info (files_at (lt_disk t) (in_path info)) of
             Inl e \<Rightarrow> (Inl e, t)
           | Inr mc \<Rightarrow> (Inr mc, t\<lparr>lt_caches := (lt_caches t)(in_id info \<mapsto> mc)\<rparr>)))"

text \<open>The cursor of one table; the cache the cursor factory used stays in the tree.\<close>

definition open_table_cursor ::
    "key_range \<Rightarrow> nat list \<Rightarrow> skip_filter \<Rightarrow> sst_info \<Rightarrow> lsm_tree \<Rightarrow> sst_cursor option res \<times> lsm_tree" where
  "open_table_cursor rng projection f info t0 =
     sbind (get_or_create_metadata_cache info t0) (\<lambda>mc t.
       let (c, mc') = make_sstable_cursor info (files_at (lt_disk t) (in_path info)) rng (schema_types (lt_schema t)) projection f mc
       in (c, t\<lparr>lt_caches := (lt_caches t)(in_id info \<mapsto> mc')\<rparr>))"

fun open_table_cursors ::
    "key_range \<Rightarrow> nat list \<Rightarrow> skip_filter \<Rightarrow> sst_info list \<Rightarrow> lsm_tree \<Rightarrow> sst_cursor list res \<times> lsm_tree" where
  "open_table_cursors rng projection f [] t = (Inr [], t)"
| "open_table_cursors rng projection f (info # infos) t =
     sbind (open_table_cursor rng projection f info t) (\<lambda>c t.
     sbind (open_table_cursors rng projection f infos t) (\<lambda>cs t.
       (Inr (case c of None \<Rightarrow> cs | Some x \<Rightarrow> if cur_valid sst_cursor_ops x then x # cs else cs), t)))"

definition overlapping_tables :: "key_range \<Rightarrow> registry \<Rightarrow> sst_info list" where
  "overlapping_tables rng reg =
     concat (map (\<lambda>level. overlapping (word_of_nat level) (kr_from rng) (kr_to rng) reg) [0..<level_count reg])"

definition lt_scan ::
    "key_range \<Rightarrow> nat list \<Rightarrow> scan_order \<Rightarrow> skip_filter \<Rightarrow> lsm_tree \<Rightarrow> scan_cursor res \<times> lsm_tree" where
  "lt_scan rng projection order f t0 =
     sbind (active_range rng (ml_active (lt_memory t0)), t0) (\<lambda>active t1.
     sbind (rmap (imm_range rng) (ml_immutables (lt_memory t1)), t1) (\<lambda>imms t2.
     sbind (open_table_cursors rng projection f (overlapping_tables rng (lt_registry t2)) t2) (\<lambda>tables t3.
       let pinned = filter (\<lambda>(imm, used). used \<noteq> []) (zip (ml_immutables (lt_memory t2)) imms);
           cursors = (if active \<noteq> [] then [ActiveCur active] else []) @ map (\<lambda>(imm, used). ImmCur used) pinned @ map SstCur tables
       in (rbind (compose_cursors tree_cursor_ops (map Some cursors) order) (\<lambda>composed.
             Inr (if pinned = [] then Plain composed else Pinned \<lparr>pc_inner = composed, pc_pins = map fst pinned\<rparr>)), t3))))"

end
