(* ===== verification/Tree_Inv.thy ===== *)
theory Tree_Inv
  imports Lsm_Tree
begin

text \<open>
  The invariant of the tree, and that every piece of its operations keeps it: the memory layer is
  well formed, every table of the registry is stored in the directory of its number, the metadata
  caches belong to their tables, and the keys of all rows differ. \<open>R\<close> assigns to each table the rows
  it holds, and \<open>tree_rows\<close> is the content of the tree; insert adds one row to it, flush and
  compaction only move rows. The bound \<open>L\<close> is a level that is never left: its threshold exceeds the
  size of everything the tree holds.
\<close>

section \<open>The content and the invariant\<close>

definition tree_tables :: "lsm_tree \<Rightarrow> sst_info list" where
  "tree_tables t = concat (lt_registry t)"

definition tree_rows :: "(sst_info \<Rightarrow> row list) \<Rightarrow> lsm_tree \<Rightarrow> row list" where
  "tree_rows R t = concat (ml_tables (lt_memory t)) @ concat (map R (tree_tables t))"

definition rows_fit :: "schema \<Rightarrow> row list \<Rightarrow> bool" where
  "rows_fit s rows \<longleftrightarrow> storable s rows \<and> distinct (rkeys rows) \<and> table_bytes rows < 2 ^ 63"

definition tables_rep :: "(sst_info \<Rightarrow> row list) \<Rightarrow> lsm_tree \<Rightarrow> bool" where
  "tables_rep R t \<longleftrightarrow>
     levels_ok (lt_registry t) \<and> distinct (map in_id (tree_tables t)) \<and>
     (\<forall>info \<in> set (tree_tables t). in_id info < lt_next_id t \<and> in_path info = tree_sst_path t (in_id info) \<and>
        on_disk (lt_schema t) (lt_disk t) info (R info))"

definition caches_rep :: "(sst_info \<Rightarrow> row list) \<Rightarrow> lsm_tree \<Rightarrow> bool" where
  "caches_rep R t \<longleftrightarrow>
     (\<forall>info \<in> set (tree_tables t). \<forall>mc. lt_caches t (in_id info) = Some mc \<longrightarrow>
        table_cache (lt_schema t) (R info) (files_at (lt_disk t) (in_path info)) info mc) \<and>
     (\<forall>i. lt_caches t i \<noteq> None \<longrightarrow> i < lt_next_id t)"

definition tree_ok :: "lsm_tree \<Rightarrow> bool" where
  "tree_ok t \<longleftrightarrow> schema_wf (lt_schema t) \<and> schema_size (lt_schema t) < 2 ^ 16 \<and> config_ok (lt_config t) \<and>
     ml_inv (lt_schema t) (lt_memory t)"

definition tree_inv :: "(sst_info \<Rightarrow> row list) \<Rightarrow> lsm_tree \<Rightarrow> bool" where
  "tree_inv R t \<longleftrightarrow> tree_ok t \<and> tables_rep R t \<and> caches_rep R t \<and> rows_fit (lt_schema t) (tree_rows R t)"

text \<open>A number that was taken for a table that is not in the registry yet.\<close>

definition reserved :: "lsm_tree \<Rightarrow> 64 word \<Rightarrow> bool" where
  "reserved t i \<longleftrightarrow> i < lt_next_id t \<and> i \<notin> in_id ` set (tree_tables t) \<and> lt_caches t i = None"

lemma mset_concat_map: "mset (concat (map R ts)) = (\<Sum>i\<in>#mset ts. mset (R i))"
  by (induction ts) auto

lemma rows_add_table:
  assumes "mset ts' = add_mset info (mset ts)" "info \<notin> set ts"
  shows "mset (concat (map (R(info := x)) ts')) = mset x + mset (concat (map R ts))"
proof -
  have "map (R(info := x)) ts = map R ts" using assms(2) by auto
  then have "(\<Sum>i\<in>#mset ts. mset ((R(info := x)) i)) = mset (concat (map R ts))" by (metis mset_concat_map)
  then show ?thesis using assms(1) by (simp only: mset_concat_map) simp
qed

lemma rows_fit_mset:
  assumes "mset xs = mset ys"
  shows "rows_fit s xs = rows_fit s ys"
proof -
  have "mset (rkeys xs) = mset (rkeys ys)" using assms by (simp only: mset_map)
  then have "distinct (rkeys xs) = distinct (rkeys ys)" by (rule mset_eq_imp_distinct_iff)
  moreover have "set xs = set ys" "length xs = length ys" using assms by (metis set_mset_mset, metis size_mset)
  ultimately show ?thesis using table_bytes_mset [OF assms] by (simp add: rows_fit_def storable_def)
qed

lemma rows_fit_part:
  assumes "rows_fit s (xs @ ys @ zs)"
  shows "rows_fit s ys"
  using assms by (auto simp: rows_fit_def storable_def table_bytes_def)

lemma on_disk_update: "path \<noteq> in_path info \<Longrightarrow> on_disk s (d(path := x)) info rows \<longleftrightarrow> on_disk s d info rows"
  by (auto simp: on_disk_def)

lemma files_at_update: "path \<noteq> path' \<Longrightarrow> files_at (d(path' := x)) path = files_at d path"
  by (simp add: files_at_def)

lemma tree_sst_path_inject [simp]: "tree_sst_path t i = tree_sst_path t j \<longleftrightarrow> i = j"
  by (simp add: tree_sst_path_def build_sst_path_inject)

lemma tree_tables_rows:
  assumes "tree_inv R t" "info \<in> set (tree_tables t)"
  shows "stored_table (lt_schema t) (R info) (files_at (lt_disk t) (in_path info)) info"
    "lt_disk t (in_path info) = Some (files_at (lt_disk t) (in_path info))"
  using assms by (auto simp: tree_inv_def tables_rep_def on_disk_def files_at_def)

text \<open>Changes of the memory layer, the manifest and the next number leave the tables alone.\<close>

lemma memory_update [simp]:
  "tree_tables (t\<lparr>lt_memory := ml\<rparr>) = tree_tables t" "tables_rep R (t\<lparr>lt_memory := ml\<rparr>) = tables_rep R t"
  "caches_rep R (t\<lparr>lt_memory := ml\<rparr>) = caches_rep R t"
  "reserved (t\<lparr>lt_memory := ml\<rparr>) i = reserved t i" "tree_sst_path (t\<lparr>lt_memory := ml\<rparr>) i = tree_sst_path t i"
  unfolding tables_rep_def caches_rep_def reserved_def tree_tables_def tree_sst_path_def by simp_all

lemma manifest_update [simp]:
  "tree_tables (t\<lparr>lt_manifest := m\<rparr>) = tree_tables t" "tree_rows R (t\<lparr>lt_manifest := m\<rparr>) = tree_rows R t"
  "tables_rep R (t\<lparr>lt_manifest := m\<rparr>) = tables_rep R t" "caches_rep R (t\<lparr>lt_manifest := m\<rparr>) = caches_rep R t"
  "tree_inv R (t\<lparr>lt_manifest := m\<rparr>) = tree_inv R t"
  "reserved (t\<lparr>lt_manifest := m\<rparr>) i = reserved t i"
  unfolding tree_inv_def tree_ok_def tables_rep_def caches_rep_def reserved_def tree_rows_def tree_tables_def tree_sst_path_def
  by simp_all

section \<open>Insert\<close>

lemma ml_tables_insert:
  assumes inv: "memtable_inv s mt" and new: "k \<notin> fst ` set mt"
  shows "mset (map snd (map_put k r mt)) = add_mset r (mset (map snd mt))"
  using new by (induction k r mt rule: map_put.induct) auto

lemma insert_memory_ok:
  assumes inv: "tree_inv R t" and r: "valid_row (lt_schema t) r" and fit: "rows_fit (lt_schema t) (r # tree_rows R t)"
  shows "\<exists>ml. ml_insert r (lt_memory t) = Inr ml \<and> tree_inv R (t\<lparr>lt_memory := ml\<rparr>) \<and>
    mset (tree_rows R (t\<lparr>lt_memory := ml\<rparr>)) = add_mset r (mset (tree_rows R t)) \<and>
    length (ml_immutables ml) \<le> Suc (length (ml_immutables (lt_memory t)))"
proof -
  have ok: "tree_ok t" using inv by (simp add: tree_inv_def)
  then have wf: "schema_wf (lt_schema t)" and mi: "ml_inv (lt_schema t) (lt_memory t)" by (simp_all add: tree_ok_def)
  obtain ml where ml: "ml_insert r (lt_memory t) = Inr ml" "ml_inv (lt_schema t) ml"
      "concat (ml_tables ml) = concat (ml_immutables (lt_memory t)) @ map snd (map_put (rkey r) r (ml_active (lt_memory t)))"
    using ml_insert_ok [OF mi wf r] by blast
  have mt: "memtable_inv (lt_schema t) (ml_active (lt_memory t))" using mi by (simp add: ml_inv_def)
  have "rkey r \<notin> set (rkeys (map snd (ml_active (lt_memory t))))"
    using fit by (auto simp: rows_fit_def tree_rows_def ml_tables_def)
  then have "rkey r \<notin> fst ` set (ml_active (lt_memory t))" unfolding memtable_inv_rkeys [OF mt] by simp
  then have "mset (concat (ml_tables ml)) = add_mset r (mset (concat (ml_tables (lt_memory t))))"
    using ml(3) ml_tables_insert [OF mt] by (simp add: ml_tables_def)
  then have rows: "mset (tree_rows R (t\<lparr>lt_memory := ml\<rparr>)) = add_mset r (mset (tree_rows R t))"
    by (simp add: tree_rows_def tree_tables_def)
  then have "rows_fit (lt_schema t) (tree_rows R (t\<lparr>lt_memory := ml\<rparr>))"
    using fit rows_fit_mset [of "tree_rows R (t\<lparr>lt_memory := ml\<rparr>)" "r # tree_rows R t"] by simp
  then have "tree_inv R (t\<lparr>lt_memory := ml\<rparr>)"
    using inv ml(2) by (simp add: tree_inv_def tree_ok_def)
  moreover have "length (ml_immutables ml) \<le> Suc (length (ml_immutables (lt_memory t)))"
    using ml(1) by (auto simp: ml_insert_def rbind_eq_Inr Let_def active_to_immutable_def split: if_splits prod.splits)
  ultimately show ?thesis using ml(1) rows by blast
qed

section \<open>Numbers and directories\<close>

lemma less_succ_word: "(x :: 64 word) \<noteq> -1 \<Longrightarrow> x < x + 1 \<and> (\<forall>i < x. i < x + 1)"
proof -
  assume x: "x \<noteq> -1"
  have "unat (x + 1) = Suc (unat x)" using x unatSuc [of x] by (metis add.commute add_eq_0_iff)
  then show ?thesis by (auto simp: word_less_nat_alt)
qed

lemma take_number:
  assumes inv: "tree_inv R t" and nx: "lt_next_id t \<noteq> -1"
  shows "tree_inv R (t\<lparr>lt_next_id := lt_next_id t + 1\<rparr>)" "reserved (t\<lparr>lt_next_id := lt_next_id t + 1\<rparr>) (lt_next_id t)"
    "tree_rows R (t\<lparr>lt_next_id := lt_next_id t + 1\<rparr>) = tree_rows R t"
    "tree_tables (t\<lparr>lt_next_id := lt_next_id t + 1\<rparr>) = tree_tables t"
proof -
  note lt = less_succ_word [OF nx]
  show tt: "tree_tables (t\<lparr>lt_next_id := lt_next_id t + 1\<rparr>) = tree_tables t" by (simp add: tree_tables_def)
  then show tr: "tree_rows R (t\<lparr>lt_next_id := lt_next_id t + 1\<rparr>) = tree_rows R t" by (simp add: tree_rows_def)
  have below: "\<forall>info \<in> set (tree_tables t). in_id info < lt_next_id t" "\<forall>i. lt_caches t i \<noteq> None \<longrightarrow> i < lt_next_id t"
    using inv by (simp_all add: tree_inv_def tables_rep_def caches_rep_def)
  have "tables_rep R (t\<lparr>lt_next_id := lt_next_id t + 1\<rparr>)" "caches_rep R (t\<lparr>lt_next_id := lt_next_id t + 1\<rparr>)"
    using inv lt unfolding tree_inv_def tables_rep_def caches_rep_def tt by (auto simp: tree_sst_path_def)
  then show "tree_inv R (t\<lparr>lt_next_id := lt_next_id t + 1\<rparr>)" using inv by (simp add: tree_inv_def tree_ok_def tr)
  show "reserved (t\<lparr>lt_next_id := lt_next_id t + 1\<rparr>) (lt_next_id t)"
    using below lt unfolding reserved_def tt by (auto simp: image_iff)
qed

lemma write_reserved:
  assumes inv: "tree_inv R t" and i: "reserved t i"
  shows "tree_inv R (t\<lparr>lt_disk := (lt_disk t)(tree_sst_path t i := x)\<rparr>)" (is "tree_inv R ?t")
    "reserved (t\<lparr>lt_disk := (lt_disk t)(tree_sst_path t i := x)\<rparr>) i"
    "tree_tables (t\<lparr>lt_disk := (lt_disk t)(tree_sst_path t i := x)\<rparr>) = tree_tables t"
    "tree_rows R (t\<lparr>lt_disk := (lt_disk t)(tree_sst_path t i := x)\<rparr>) = tree_rows R t"
proof -
  show tt: "tree_tables ?t = tree_tables t" by (simp add: tree_tables_def)
  then show tr: "tree_rows R ?t = tree_rows R t" by (simp add: tree_rows_def)
  have p: "in_path info = tree_sst_path t (in_id info)" "in_id info \<noteq> i" if "info \<in> set (tree_tables t)" for info
    using inv i that by (auto simp: tree_inv_def tables_rep_def reserved_def)
  then have ne: "\<forall>info \<in> set (tree_tables t). in_path info \<noteq> tree_sst_path t i" by simp
  have path: "tree_sst_path ?t = tree_sst_path t" by (simp add: tree_sst_path_def fun_eq_iff)
  have "tables_rep R ?t" "caches_rep R ?t"
    using inv ne unfolding tree_inv_def tables_rep_def caches_rep_def tt path by (auto simp: on_disk_update files_at_update)
  then show "tree_inv R ?t" using inv by (simp add: tree_inv_def tree_ok_def tr)
  show "reserved ?t i" using i by (simp add: reserved_def tree_tables_def)
qed

section \<open>Adding and dropping tables\<close>

lemma add_table_ok:
  assumes inv: "tree_ok t" "tables_rep R t" "caches_rep R t" and i: "reserved t (in_id info)"
    and path: "in_path info = tree_sst_path t (in_id info)" and disk: "on_disk (lt_schema t) (lt_disk t) info rows"
    and lv: "in_level info \<noteq> -1"
  shows "\<exists>reg. reg_add info (lt_registry t) = Inr reg \<and> tables_rep (R(info := rows)) (t\<lparr>lt_registry := reg\<rparr>) \<and>
    caches_rep (R(info := rows)) (t\<lparr>lt_registry := reg\<rparr>) \<and>
    mset (tree_tables (t\<lparr>lt_registry := reg\<rparr>)) = add_mset info (mset (tree_tables t)) \<and> info \<notin> set (tree_tables t)"
proof -
  obtain reg where reg: "reg_add info (lt_registry t) = Inr reg"
      "mset (concat reg) = add_mset info (mset (tree_tables t))" "levels_ok reg"
    using reg_add_ok [OF lv, of "lt_registry t"] inv(2) by (auto simp: tables_rep_def tree_tables_def)
  let ?t = "t\<lparr>lt_registry := reg\<rparr>"
  have m: "mset (tree_tables ?t) = add_mset info (mset (tree_tables t))" using reg(2) by (simp add: tree_tables_def)
  then have s: "set (tree_tables ?t) = insert info (set (tree_tables t))" by (metis set_mset_add_mset_insert set_mset_mset)
  have new: "in_id info \<notin> in_id ` set (tree_tables t)" "in_id info < lt_next_id t" "lt_caches t (in_id info) = None"
    using i by (simp_all add: reserved_def)
  then have ni: "info \<notin> set (tree_tables t)" by auto
  have "mset (map in_id (tree_tables ?t)) = mset (in_id info # map in_id (tree_tables t))" using m by simp
  then have "distinct (map in_id (tree_tables ?t))"
    using mset_eq_imp_distinct_iff new(1) inv(2) by (fastforce simp: tables_rep_def)
  then have "tables_rep (R(info := rows)) ?t"
    using inv(2) reg(3) path disk new(2) ni unfolding tables_rep_def s by (auto simp: tree_sst_path_def)
  moreover have "caches_rep (R(info := rows)) ?t"
    using inv(3) new(3) ni unfolding caches_rep_def s by auto
  ultimately show ?thesis using reg(1) m ni by blast
qed

lemma drop_table_ok:
  assumes rep: "tables_rep R t" "caches_rep R t" and old: "old \<in> set (tree_tables t)"
  shows "tables_rep R (drop_table old t)" "caches_rep R (drop_table old t)"
    "tree_tables (drop_table old t) = filter (\<lambda>info. in_id info \<noteq> in_id old) (tree_tables t)"
proof -
  let ?t = "drop_table old t"
  show tt: "tree_tables ?t = filter (\<lambda>info. in_id info \<noteq> in_id old) (tree_tables t)"
    by (simp add: drop_table_def delete_sst_files_def tree_tables_def reg_remove_concat)
  have path: "tree_sst_path ?t = tree_sst_path t" by (simp add: drop_table_def delete_sst_files_def tree_sst_path_def fun_eq_iff)
  have same: "lt_schema ?t = lt_schema t" "lt_next_id ?t = lt_next_id t" "lt_caches ?t = lt_caches t"
      "lt_registry ?t = reg_remove (in_id old) (lt_registry t)"
      "lt_disk ?t = (lt_disk t)(tree_sst_path t (in_id old) := None)"
    by (simp_all add: drop_table_def delete_sst_files_def tree_sst_path_def)
  have p: "tree_sst_path t (in_id old) \<noteq> in_path info"
    if "info \<in> set (tree_tables t)" "in_id info \<noteq> in_id old" for info
    using rep(1) that by (auto simp: tables_rep_def)
  show "tables_rep R ?t"
    using rep(1) reg_remove_ok(1) [of "lt_registry t" "in_id old"] p unfolding tables_rep_def tt same path
    by (auto simp: on_disk_update distinct_map_filter)
  show "caches_rep R ?t"
    using rep(2) files_at_update [OF not_sym [OF p]] unfolding caches_rep_def tt same by auto
qed

lemma drop_tables_ok:
  assumes "tables_rep R t" "caches_rep R t" "set olds \<subseteq> set (tree_tables t)" "distinct (map in_id olds)"
  shows "tables_rep R (fold drop_table olds t) \<and> caches_rep R (fold drop_table olds t) \<and>
    tree_tables (fold drop_table olds t) = filter (\<lambda>info. in_id info \<notin> in_id ` set olds) (tree_tables t)"
  using assms
proof (induction olds arbitrary: t)
  case (Cons old olds)
  have o: "old \<in> set (tree_tables t)" using Cons.prems(3) by simp
  note d = drop_table_ok [OF Cons.prems(1,2) o]
  have "in_id old \<notin> in_id ` set olds" using Cons.prems(4) by simp
  then have "\<forall>x \<in> set olds. in_id x \<noteq> in_id old" by (metis imageI)
  then have "set olds \<subseteq> set (tree_tables (drop_table old t))" using Cons.prems(3) unfolding d(3) by auto
  then show ?case using Cons.IH [OF d(1,2)] Cons.prems(4) unfolding d(3)
    by (auto simp: conj_commute intro!: filter_cong)
qed simp

lemma drop_tables_same:
  "lt_schema (fold drop_table olds t) = lt_schema t" "lt_config (fold drop_table olds t) = lt_config t"
  "lt_memory (fold drop_table olds t) = lt_memory t" "lt_next_id (fold drop_table olds t) = lt_next_id t"
  "lt_stop (fold drop_table olds t) = lt_stop t"
  by (induction olds arbitrary: t) (simp_all add: drop_table_def delete_sst_files_def)

section \<open>Flush\<close>

lemma tree_rows_fit:
  assumes inv: "tree_inv R t" and imm: "imm \<in> set (ml_immutables (lt_memory t))"
  shows "table_ok (lt_schema t) imm"
proof -
  obtain as bs where "ml_immutables (lt_memory t) = as @ imm # bs" using split_list [OF imm] by blast
  then have "tree_rows R t = concat as @ imm @ (concat bs @ map snd (ml_active (lt_memory t)) @ concat (map R (tree_tables t)))"
    by (simp add: tree_rows_def ml_tables_def)
  then have "rows_fit (lt_schema t) imm" using inv rows_fit_part by (metis tree_inv_def)
  moreover have "frozen_ok (lt_schema t) imm" "schema_wf (lt_schema t)"
    using inv imm by (simp_all add: tree_inv_def tree_ok_def ml_inv_def)
  ultimately show ?thesis by (simp add: table_ok_def table_rows_def rows_fit_def frozen_ok_def)
qed

lemma config_options:
  assumes "config_ok config"
  shows "so_min_step (sparse_index_options_from_config config) \<noteq> 0"
    "so_min_step (sparse_index_options_from_config config) \<le> so_max_step (sparse_index_options_from_config config)"
  using assms by (simp_all add: config_ok_def sparse_index_options_from_config_def)

lemma flush_write_ok:
  assumes inv: "tree_inv R t" and i: "reserved t i" and imm: "imm \<in> set (ml_immutables (lt_memory t))" "imm \<noteq> []"
  shows "\<exists>info fs. let t' = t\<lparr>lt_disk := (lt_disk t)(tree_sst_path t i \<mapsto> fs)\<rparr> in
    flush_write imm i t = Inr (info, t') \<and> tree_inv R t' \<and> reserved t' i \<and>
    in_id info = i \<and> in_path info = tree_sst_path t i \<and> in_level info = 0 \<and> on_disk (lt_schema t) (lt_disk t') info imm"
proof -
  have ok: "tree_ok t" using inv by (simp add: tree_inv_def)
  then have cfg: "config_ok (lt_config t)" and n: "schema_size (lt_schema t) < 2 ^ 16" by (simp_all add: tree_ok_def)
  have tok: "table_ok (lt_schema t) imm" using tree_rows_fit [OF inv imm(1)] .
  have vr: "schema_wf (lt_schema t)" "\<forall>r \<in> set imm. valid_row (lt_schema t) r" "sorted (rkeys imm)" "length imm < 2 ^ 32"
    using tok by (auto simp: table_ok_def table_rows_def storable_def intro: strict_sorted_imp_sorted)
  obtain res fs where b: "build_row_table (lt_schema t) (sparse_index_options_from_config (lt_config t))
      (cfg_row_block_target_bytes (lt_config t)) imm = Inr (res, fs)"
    using build_row_table_ok [OF vr(1-3) imm(2) vr(4) _ config_options [OF cfg]] cfg by (fastforce simp: config_ok_def)
  let ?info = "\<lparr>in_id = i, in_path = tree_sst_path t i, in_level = 0, in_min = br_min_key res, in_max = br_max_key res,
     in_size = sstable_size_bytes fs, in_num_blocks = br_num_blocks res, in_layout = ROW\<rparr>"
  have "stored_table (lt_schema t) imm fs ?info"
    by (rule build_row_stored [OF b tok imm(2) n]) simp_all
  then have "on_disk (lt_schema t) ((lt_disk t)(tree_sst_path t i \<mapsto> fs)) ?info imm" by (simp add: on_disk_def)
  then show ?thesis using write_reserved [OF inv i, of "Some fs"] b
    by (intro exI [of _ ?info] exI [of _ fs]) (simp add: flush_write_def Let_def)
qed

lemma flush_end_ok:
  assumes inv: "tree_inv R t" and imm: "ml_immutables (lt_memory t) = imm # imms" and i: "reserved t (in_id info)"
    and info: "in_path info = tree_sst_path t (in_id info)" "in_level info = 0" "on_disk (lt_schema t) (lt_disk t) info imm"
  shows "\<exists>t'. flush_end info t = Inr t' \<and> tree_inv (R(info := imm)) t' \<and>
    mset (tree_rows (R(info := imm)) t') = mset (tree_rows R t) \<and> mset (tree_tables t') = add_mset info (mset (tree_tables t)) \<and>
    lt_memory t' = (lt_memory t)\<lparr>ml_immutables := imms\<rparr> \<and> lt_config t' = lt_config t \<and> lt_next_id t' = lt_next_id t \<and>
    lt_schema t' = lt_schema t \<and> lt_stop t' = lt_stop t"
proof -
  have ok: "tree_ok t" "tables_rep R t" "caches_rep R t" "rows_fit (lt_schema t) (tree_rows R t)"
    using inv by (simp_all add: tree_inv_def)
  obtain reg where reg: "reg_add info (lt_registry t) = Inr reg" "tables_rep (R(info := imm)) (t\<lparr>lt_registry := reg\<rparr>)"
      "caches_rep (R(info := imm)) (t\<lparr>lt_registry := reg\<rparr>)"
      "mset (tree_tables (t\<lparr>lt_registry := reg\<rparr>)) = add_mset info (mset (tree_tables t))" "info \<notin> set (tree_tables t)"
    using add_table_ok [OF ok(1-3) i info(1,3)] info(2) by auto
  let ?ml = "(lt_memory t)\<lparr>ml_immutables := imms\<rparr>"
  let ?t = "t\<lparr>lt_registry := reg, lt_memory := ?ml\<rparr>"
  have tt: "tree_tables ?t = tree_tables (t\<lparr>lt_registry := reg\<rparr>)" by (simp add: tree_tables_def)
  have rows: "mset (tree_rows (R(info := imm)) ?t) = mset (tree_rows R t)"
    using imm unfolding tree_rows_def mset_append tt rows_add_table [OF reg(4,5)] by (simp add: ml_tables_def)
  have "tables_rep (R(info := imm)) ?t" "caches_rep (R(info := imm)) ?t"
    using reg(2,3) memory_update(2,3) [of "R(info := imm)" ?ml "t\<lparr>lt_registry := reg\<rparr>"] by simp_all
  then have "tree_inv (R(info := imm)) ?t"
    using ok(1,4) imm rows rows_fit_mset [OF rows] by (simp add: tree_inv_def tree_ok_def ml_inv_def)
  then show ?thesis using reg(1,4) rows imm
    by (intro exI [of _ "save_manifest ?t"]) (simp add: flush_end_def save_manifest_def pop_front_immutable_def tree_tables_def)
qed

section \<open>Compaction\<close>

lemma rows_fit_sub:
  assumes "rows_fit s xs" "mset ys \<subseteq># mset xs"
  shows "rows_fit s ys"
proof -
  obtain zs where "mset xs = mset ([] @ ys @ zs)"
    using assms(2) by (metis append_Nil ex_mset mset_append mset_subset_eq_exists_conv)
  then show ?thesis using assms(1) rows_fit_mset rows_fit_part by metis
qed

abbreviation other_tables :: "sst_info list \<Rightarrow> sst_info list \<Rightarrow> sst_info list" where
  "other_tables cs ts \<equiv> filter (\<lambda>info. in_id info \<notin> in_id ` set cs) ts"

lemma split_tables:
  assumes "distinct (map in_id ts)" "set cs \<subseteq> set ts" "distinct (map in_id cs)"
  shows "mset ts = mset cs + mset (other_tables cs ts)"
proof -
  have inj: "inj_on in_id (set ts)" using assms(1) by (simp add: distinct_map)
  have "in_id info \<in> in_id ` set cs \<longleftrightarrow> info \<in> set cs" if "info \<in> set ts" for info
    using inj_on_image_mem_iff [OF inj that assms(2)] .
  then have s: "set ts = set (cs @ other_tables cs ts)" using assms(2) by auto
  have "distinct (cs @ other_tables cs ts)" using assms by (auto simp: distinct_map)
  then have "mset ts = mset (cs @ other_tables cs ts)"
    using s assms(1) set_eq_iff_mset_eq_distinct by (metis distinct_map)
  then show ?thesis by simp
qed

lemma split_table_rows:
  assumes "distinct (map in_id ts)" "set cs \<subseteq> set ts" "distinct (map in_id cs)"
  shows "mset (concat (map R ts)) = mset (concat (map R cs)) + mset (concat (map R (other_tables cs ts)))"
  unfolding mset_concat_map split_tables [OF assms] by simp

lemma compact_write_ok:
  assumes inv: "tree_inv R t" and i: "reserved t i" and cs: "set cs \<subseteq> set (tree_tables t)" "distinct (map in_id cs)" "cs \<noteq> []"
    and lay: "task_output_layout task \<in> {ROW, COLUMN}"
  shows "\<exists>info fs. let t' = t\<lparr>lt_disk := (lt_disk t)(tree_sst_path t i \<mapsto> fs)\<rparr> in
    compact_write cs task i t = Some (Inr (info, t')) \<and> tree_inv R t' \<and> reserved t' i \<and>
    in_id info = i \<and> in_path info = tree_sst_path t i \<and> in_level info = task_dst_level task \<and>
    on_disk (lt_schema t) (lt_disk t') info (kmerge (map R cs))"
proof -
  have ok: "tree_ok t" "tables_rep R t" "rows_fit (lt_schema t) (tree_rows R t)" using inv by (simp_all add: tree_inv_def)
  then have cfg: "config_ok (lt_config t)" and n: "schema_size (lt_schema t) < 2 ^ 16" and wf: "schema_wf (lt_schema t)"
    by (simp_all add: tree_ok_def)
  have l2: "list_all2 (on_disk (lt_schema t) (lt_disk t)) cs (map R cs)"
    using ok(2) cs(1) by (auto simp: tables_rep_def list_all2_map2 list.rel_refl_strong subset_iff intro!: list.rel_refl_strong)
  have srt: "sorted (rkeys (R info))" if "info \<in> set cs" for info
  proof -
    have "info \<in> set (tree_tables t)" using cs(1) that by blast
    from stored_tableD(5) [OF tree_tables_rows(1) [OF inv this]] show ?thesis by (rule strict_sorted_imp_sorted)
  qed
  have d: "distinct (map in_id (tree_tables t))" using ok(2) by (simp add: tables_rep_def)
  have "rows_fit (lt_schema t) (concat (map R cs))"
    by (rule rows_fit_sub [OF ok(3)]) (simp add: tree_rows_def split_table_rows [OF d cs(1,2)])
  then have "mergeable (lt_schema t) (map R cs)" using srt wf by (auto simp: mergeable_def rows_fit_def)
  from run_compaction_ok [OF l2 cs(3) this n cfg lay, of "cfg_root_path (lt_config t)" i] obtain info fs where
    r: "run_compaction (lt_schema t) (cfg_root_path (lt_config t)) (lt_config t) (lt_disk t) cs task i = Some (Inr (info, fs))"
      "stored_table (lt_schema t) (kmerge (map R cs)) fs info" "in_id info = i" "in_path info = tree_sst_path t i"
      "in_level info = task_dst_level task" by (auto simp: tree_sst_path_def)
  then have "on_disk (lt_schema t) ((lt_disk t)(tree_sst_path t i \<mapsto> fs)) info (kmerge (map R cs))" by (simp add: on_disk_def)
  then show ?thesis using r write_reserved [OF inv i, of "Some fs"]
    by (intro exI [of _ info] exI [of _ fs]) (simp add: compact_write_def Let_def)
qed

lemma compact_end_ok:
  assumes inv: "tree_inv R t" and i: "reserved t (in_id info)"
    and cs: "set cs \<subseteq> set (tree_tables t)" "distinct (map in_id cs)"
    and info: "in_path info = tree_sst_path t (in_id info)" "in_level info \<noteq> -1" "on_disk (lt_schema t) (lt_disk t) info rows"
    and rows: "mset rows = mset (concat (map R cs))"
  shows "\<exists>t'. compact_end cs info t = Inr t' \<and> tree_inv (R(info := rows)) t' \<and>
    mset (tree_rows (R(info := rows)) t') = mset (tree_rows R t) \<and>
    mset (tree_tables t') = add_mset info (mset (other_tables cs (tree_tables t))) \<and>
    lt_memory t' = lt_memory t \<and> lt_config t' = lt_config t \<and> lt_next_id t' = lt_next_id t \<and>
    lt_schema t' = lt_schema t \<and> lt_stop t' = lt_stop t"
proof -
  have ok: "tree_ok t" "tables_rep R t" "caches_rep R t" "rows_fit (lt_schema t) (tree_rows R t)"
    using inv by (simp_all add: tree_inv_def)
  have d: "distinct (map in_id (tree_tables t))" using ok(2) by (simp add: tables_rep_def)
  obtain reg where reg: "reg_add info (lt_registry t) = Inr reg" "tables_rep (R(info := rows)) (t\<lparr>lt_registry := reg\<rparr>)"
      "caches_rep (R(info := rows)) (t\<lparr>lt_registry := reg\<rparr>)"
      "mset (tree_tables (t\<lparr>lt_registry := reg\<rparr>)) = add_mset info (mset (tree_tables t))" "info \<notin> set (tree_tables t)"
    using add_table_ok [OF ok(1-3) i info(1,3,2)] by blast
  let ?t1 = "t\<lparr>lt_registry := reg\<rparr>" and ?R = "R(info := rows)"
  let ?t2 = "fold drop_table cs ?t1"
  have s1: "set (tree_tables ?t1) = insert info (set (tree_tables t))"
    using reg(4) by (metis set_mset_add_mset_insert set_mset_mset)
  then have "set cs \<subseteq> set (tree_tables ?t1)" using cs(1) by blast
  from drop_tables_ok [OF reg(2,3) this cs(2)] have drop: "tables_rep ?R ?t2" "caches_rep ?R ?t2"
      "tree_tables ?t2 = other_tables cs (tree_tables ?t1)" by blast+
  have "in_id info \<notin> in_id ` set cs" using i cs(1) by (auto simp: reserved_def)
  then have tt: "mset (tree_tables ?t2) = add_mset info (mset (other_tables cs (tree_tables t)))"
    unfolding drop(3) by (simp add: reg(4))
  have "info \<notin> set (other_tables cs (tree_tables t))" using reg(5) by simp
  from rows_add_table [OF tt this, of R rows]
  have "mset (concat (map ?R (tree_tables ?t2))) = mset (concat (map R (tree_tables t)))"
    using rows split_table_rows [OF d cs, of R] by simp
  then have m: "mset (tree_rows ?R ?t2) = mset (tree_rows R t)" by (simp add: tree_rows_def drop_tables_same)
  then have "tree_inv ?R ?t2"
    using drop(1,2) ok(1,4) rows_fit_mset [OF m] by (simp add: tree_inv_def tree_ok_def drop_tables_same)
  then show ?thesis using reg(1) m tt
    by (intro exI [of _ "save_manifest ?t2"]) (simp add: compact_end_def save_manifest_def drop_tables_same)
qed

end
