(* ===== verification/Tree_Work.thy ===== *)
theory Tree_Work
  imports Tree_Inv
begin

text \<open>
  Flush, compaction and \<open>drain_work_locked\<close> as whole steps. Each flush and each compaction keeps the
  rows of the tree and makes the remaining work smaller: a memtable weighs \<open>L + 2\<close>, a table on level
  \<open>l\<close> weighs \<open>L + 1 - l\<close>. Level \<open>L\<close> is one whose threshold the tree cannot exceed, so no table leaves
  it and draining ends, with nothing left to do.
\<close>

lemma unat_word_max: "unat (-1 :: 64 word) = 2 ^ 64 - 1" "unat (-1 :: 32 word) = 2 ^ 32 - 1"
  by (simp_all add: unsigned_minus_1_eq_mask mask_eq_exp_minus_1)

lemma sum_mset_member: "x \<in># M \<Longrightarrow> (f x :: nat) \<le> (\<Sum>x\<in>#M. f x)"
  by (metis image_mset_add_mset insert_DiffM le_add1 sum_mset.add_mset)

section \<open>Levels that are never full\<close>

definition levels_below :: "nat \<Rightarrow> lsm_tree \<Rightarrow> bool" where
  "levels_below L t \<longleftrightarrow> (\<forall>info \<in> set (tree_tables t). unat (in_level info) \<le> L)"

definition capacity :: "nat \<Rightarrow> storage_config \<Rightarrow> row list \<Rightarrow> bool" where
  "capacity L config rows \<longleftrightarrow>
     1 \<le> L \<and> L < 2 ^ 32 - 2 \<and> cfg_level0_compaction_trigger config \<noteq> 0 \<and>
     4 * table_bytes rows \<le> unat (level_threshold config (word_of_nat L))"

definition tree_work :: "nat \<Rightarrow> lsm_tree \<Rightarrow> nat" where
  "tree_work L t = (L + 2) * length (ml_immutables (lt_memory t)) +
     (\<Sum>info\<in>#mset (tree_tables t). L + 1 - unat (in_level info))"

definition tree_good :: "nat \<Rightarrow> (sst_info \<Rightarrow> row list) \<Rightarrow> lsm_tree \<Rightarrow> bool" where
  "tree_good L R t \<longleftrightarrow> tree_inv R t \<and> levels_below L t \<and> capacity L (lt_config t) (tree_rows R t)"

text \<open>Two states of one tree with the same content.\<close>

definition same_tree :: "(sst_info \<Rightarrow> row list) \<Rightarrow> lsm_tree \<Rightarrow> (sst_info \<Rightarrow> row list) \<Rightarrow> lsm_tree \<Rightarrow> bool" where
  "same_tree R t R' t' \<longleftrightarrow>
     lt_schema t' = lt_schema t \<and> lt_config t' = lt_config t \<and> lt_stop t' = lt_stop t \<and>
     ml_active (lt_memory t') = ml_active (lt_memory t) \<and> mset (tree_rows R' t') = mset (tree_rows R t)"

lemma same_tree_refl [simp]: "same_tree R t R t"
  by (simp add: same_tree_def)

lemma same_tree_trans: "same_tree R t R' t' \<Longrightarrow> same_tree R' t' R'' t'' \<Longrightarrow> same_tree R t R'' t''"
  by (simp add: same_tree_def)

lemma capacity_mset: "mset xs = mset ys \<Longrightarrow> capacity L config xs = capacity L config ys"
  by (simp add: capacity_def table_bytes_mset [of xs ys])

lemma unat_level_size: "unat (level_size infos) \<le> (\<Sum>info\<leftarrow>infos. unat (in_size info))"
proof -
  have "unat (fold (\<lambda>sst total. total + in_size sst) xs w) \<le> unat w + (\<Sum>info\<leftarrow>xs. unat (in_size info))"
    for xs :: "sst_info list" and w
  proof (induction xs arbitrary: w)
    case (Cons x xs)
    have "unat (w + in_size x) \<le> unat w + unat (in_size x)" unfolding unat_word_ariths by (rule mod_less_eq_dividend)
    moreover have "unat (fold (\<lambda>sst total. total + in_size sst) xs (w + in_size x)) \<le>
        unat (w + in_size x) + (\<Sum>info\<leftarrow>xs. unat (in_size info))" by (rule Cons)
    ultimately show ?case by (simp only: fold_Cons comp_apply list.map sum_list.Cons)
  qed simp
  from this [of infos 0] show ?thesis by (simp add: level_size_def)
qed

lemma row_bytes_min: "keyed r \<Longrightarrow> 16 \<le> row_bytes r"
  by (auto simp: keyed_def row_bytes_def)

lemma table_bytes_sum:
  assumes "\<forall>info \<in> set infos. R info \<noteq> [] \<and> (\<forall>r \<in> set (R info). keyed r)"
  shows "(\<Sum>info\<leftarrow>infos. table_bytes (R info)) \<le> 2 * table_bytes (concat (map R infos))"
proof -
  have "table_bytes (R info) \<le> 2 * sum_list (map row_bytes (R info))" if "info \<in> set infos" for info
  proof -
    have i: "R info \<noteq> []" "\<forall>r \<in> set (R info). keyed r" using assms that by blast+
    then obtain r rs where r: "R info = r # rs" "keyed r" by (cases "R info") auto
    then show ?thesis using row_bytes_min [OF r(2)] by (simp add: table_bytes_def)
  qed
  then have "(\<Sum>info\<leftarrow>infos. table_bytes (R info)) \<le> (\<Sum>info\<leftarrow>infos. 2 * sum_list (map row_bytes (R info)))"
    by (intro sum_list_mono)
  also have "\<dots> = 2 * sum_list (map row_bytes (concat (map R infos)))"
    by (induction infos) simp_all
  finally show ?thesis by (simp add: table_bytes_def)
qed

lemma level_tables_sub:
  assumes "levels_ok reg" "l < length reg"
  shows "set (level_tables l reg) \<subseteq> set (concat reg)" "\<forall>info \<in> set (level_tables l reg). unat (in_level info) = l"
  using assms nth_mem [of l reg] by (auto simp: levels_ok_def level_tables_def simp del: nth_mem)

lemma level_tables_out [simp]: "length reg \<le> l \<Longrightarrow> level_tables l reg = []"
  by (simp add: level_tables_def)

lemma level_tables_distinct:
  assumes "levels_ok reg" "distinct (map in_id (concat reg))"
  shows "distinct (map in_id (level_tables l reg))"
  using filter_levels [OF assms(1), of l] assms(2) distinct_map_filter by metis

lemma level_size_bound:
  assumes inv: "tree_inv R t"
  shows "unat (level_size (level_tables l (lt_registry t))) \<le> 4 * table_bytes (tree_rows R t)"
proof (cases "l < length (lt_registry t)")
  case False
  then show ?thesis by (simp add: level_size_def)
next
  case True
  let ?ts = "level_tables l (lt_registry t)"
  have rep: "levels_ok (lt_registry t)" "distinct (map in_id (tree_tables t))"
    using inv by (simp_all add: tree_inv_def tables_rep_def)
  have sub: "set ?ts \<subseteq> set (tree_tables t)" using level_tables_sub [OF rep(1) True] by (simp add: tree_tables_def)
  have st: "stored_table (lt_schema t) (R info) (files_at (lt_disk t) (in_path info)) info" if "info \<in> set ?ts" for info
    using tree_tables_rows(1) [OF inv] sub that by blast
  have "(\<Sum>info\<leftarrow>?ts. unat (in_size info)) \<le> (\<Sum>info\<leftarrow>?ts. 2 * table_bytes (R info))"
    using st by (intro sum_list_mono) (simp add: stored_table_def)
  also have "\<dots> = 2 * (\<Sum>info\<leftarrow>?ts. table_bytes (R info))" by (simp add: sum_list_const_mult)
  also have "(\<Sum>info\<leftarrow>?ts. table_bytes (R info)) \<le> 2 * table_bytes (concat (map R ?ts))"
    using st stored_tableD(2,7) by (intro table_bytes_sum) blast
  also have "table_bytes (concat (map R ?ts)) \<le> table_bytes (tree_rows R t)"
  proof -
    have "distinct (map in_id ?ts)" using level_tables_distinct [OF rep(1)] rep(2) by (simp add: tree_tables_def)
    from split_table_rows [OF rep(2) sub this, of R]
    have "mset (tree_rows R t) = mset (concat (ml_tables (lt_memory t)) @ concat (map R ?ts) @ concat (map R (other_tables ?ts (tree_tables t))))"
      by (simp add: tree_rows_def)
    from table_bytes_mset [OF this] show ?thesis by (simp add: table_bytes_def)
  qed
  finally show ?thesis using unat_level_size [of ?ts] by linarith
qed

lemma full_level_below:
  assumes good: "tree_good L R t" and full: "level_full (lt_config t) (lt_registry t) l"
  shows "l < L" "level_tables l (lt_registry t) \<noteq> []" "l < length (lt_registry t)"
proof -
  have inv: "tree_inv R t" and lv: "levels_below L t" and cap: "capacity L (lt_config t) (tree_rows R t)"
    using good by (simp_all add: tree_good_def)
  show ne: "level_tables l (lt_registry t) \<noteq> []"
    using full cap by (auto simp: level_full_def capacity_def split: if_splits)
  then show len: "l < length (lt_registry t)" using level_tables_out by (metis not_less)
  have rep: "levels_ok (lt_registry t)" using inv by (simp add: tree_inv_def tables_rep_def)
  obtain info where "info \<in> set (level_tables l (lt_registry t))" using ne by (cases "level_tables l (lt_registry t)") auto
  then have "info \<in> set (tree_tables t)" "unat (in_level info) = l"
    using level_tables_sub [OF rep len] unfolding tree_tables_def by blast+
  then have "l \<le> L" using lv by (auto simp: levels_below_def)
  moreover have "l \<noteq> L"
  proof
    assume "l = L"
    then have "unat (level_threshold (lt_config t) (word_of_nat L)) < unat (level_size (level_tables l (lt_registry t)))"
      using full cap by (auto simp: level_full_computed capacity_def word_less_nat_alt split: if_splits)
    then show False using level_size_bound [OF inv, of l] cap by (simp add: capacity_def)
  qed
  ultimately show "l < L" by simp
qed

section \<open>One flush\<close>

lemma work_tables: "mset ts' = add_mset info (mset ts) \<Longrightarrow>
  (\<Sum>info\<in>#mset ts'. f info) = (f info :: nat) + (\<Sum>info\<in>#mset ts. f info)"
  by simp

lemma set_add_mset: "mset ts' = add_mset info (mset ts) \<Longrightarrow> set ts' = insert info (set ts)"
  by (metis set_mset_add_mset_insert set_mset_mset)

text \<open>The effect of one step on the measure of the work and the numbers.\<close>

definition step_down :: "nat \<Rightarrow> lsm_tree \<Rightarrow> lsm_tree \<Rightarrow> bool" where
  "step_down L t t' \<longleftrightarrow> tree_work L t' < tree_work L t \<and>
     unat (lt_next_id t') + tree_work L t' \<le> unat (lt_next_id t) + tree_work L t"

lemma unat_next: "x \<noteq> (-1 :: 64 word) \<Longrightarrow> unat (x + 1) = Suc (unat x)"
  using unatSuc [of x] by (metis add.commute add_eq_0_iff)

lemma drop_empty_ok:
  assumes good: "tree_good L R t" and imm: "ml_immutables (lt_memory t) = [] # imms"
  shows "\<exists>t'. flush_one t = Inr (True, t') \<and> tree_good L R t' \<and> same_tree R t R t' \<and> step_down L t t'"
proof -
  let ?ml = "(lt_memory t)\<lparr>ml_immutables := imms\<rparr>"
  let ?t = "t\<lparr>lt_memory := ?ml\<rparr>"
  have f: "flush_one t = Inr (True, ?t)"
    using imm by (simp add: flush_one_def flush_begin_def front_immutable_def pop_front_immutable_def)
  have rows: "tree_rows R ?t = tree_rows R t" using imm by (simp add: tree_rows_def ml_tables_def)
  have "tree_inv R ?t" using good imm rows by (simp add: tree_good_def tree_inv_def tree_ok_def ml_inv_def)
  then have "tree_good L R ?t" using good rows by (simp add: tree_good_def levels_below_def)
  moreover have "step_down L t ?t" using imm by (simp add: step_down_def tree_work_def)
  ultimately show ?thesis using f rows by (intro exI [of _ ?t]) (simp add: same_tree_def)
qed

lemma flush_table_ok:
  assumes good: "tree_good L R t" and imm: "ml_immutables (lt_memory t) = imm # imms" "imm \<noteq> []" and nx: "lt_next_id t \<noteq> -1"
  shows "\<exists>t' R'. flush_one t = Inr (True, t') \<and> tree_good L R' t' \<and> same_tree R t R' t' \<and> step_down L t t'"
proof -
  have inv: "tree_inv R t" and lv: "levels_below L t" and cap: "capacity L (lt_config t) (tree_rows R t)"
    using good by (simp_all add: tree_good_def)
  let ?t1 = "t\<lparr>lt_next_id := lt_next_id t + 1\<rparr>"
  note n = take_number [OF inv nx]
  have "imm \<in> set (ml_immutables (lt_memory ?t1))" using imm(1) by simp
  from flush_write_ok [OF n(1,2) this imm(2)] obtain info t2 where w:
    "flush_write imm (lt_next_id t) ?t1 = Inr (info, t2)" "tree_inv R t2" "reserved t2 (lt_next_id t)"
    "in_id info = lt_next_id t" "in_path info = tree_sst_path t2 (in_id info)" "in_level info = 0"
    "on_disk (lt_schema t2) (lt_disk t2) info imm" "lt_memory t2 = lt_memory t" "lt_next_id t2 = lt_next_id t + 1"
    "lt_config t2 = lt_config t" "lt_schema t2 = lt_schema t" "lt_stop t2 = lt_stop t" "tree_tables t2 = tree_tables t"
    by (fastforce simp: Let_def tree_tables_def tree_sst_path_def)
  have imm2: "ml_immutables (lt_memory t2) = imm # imms" and r2: "reserved t2 (in_id info)" using w imm by simp_all
  from flush_end_ok [OF w(2) imm2 r2 w(5,6,7)] obtain t' where e:
    "flush_end info t2 = Inr t'" "tree_inv (R(info := imm)) t'" "mset (tree_rows (R(info := imm)) t') = mset (tree_rows R t2)"
    "mset (tree_tables t') = add_mset info (mset (tree_tables t2))" "lt_memory t' = (lt_memory t2)\<lparr>ml_immutables := imms\<rparr>"
    "lt_config t' = lt_config t2" "lt_next_id t' = lt_next_id t2" "lt_schema t' = lt_schema t2" "lt_stop t' = lt_stop t2"
    by blast
  have f: "flush_one t = Inr (True, t')"
    using imm w(1) e(1) by (simp add: flush_one_def flush_begin_def front_immutable_def)
  have "tree_rows R t2 = tree_rows R t" by (simp add: tree_rows_def w)
  then have rows: "mset (tree_rows (R(info := imm)) t') = mset (tree_rows R t)" using e(3) by simp
  have s: "set (tree_tables t') = insert info (set (tree_tables t))" using set_add_mset [OF e(4)] w(13) by simp
  have "tree_good L (R(info := imm)) t'"
    using e(2,6) w(10) cap capacity_mset [OF rows] lv w(6) by (simp add: tree_good_def levels_below_def s)
  moreover have "step_down L t t'"
    using imm work_tables [OF e(4), of "\<lambda>info. L + 1 - unat (in_level info)"] unat_next [OF nx] w(6)
    by (simp add: step_down_def tree_work_def e(5,7) w(8,9,13))
  ultimately show ?thesis using f rows e w
    by (intro exI [of _ t'] exI [of _ "R(info := imm)"]) (simp add: same_tree_def)
qed

lemma flush_one_good:
  assumes "tree_good L R t" "ml_immutables (lt_memory t) \<noteq> []" "lt_next_id t \<noteq> -1"
  shows "\<exists>t' R'. flush_one t = Inr (True, t') \<and> tree_good L R' t' \<and> same_tree R t R' t' \<and> step_down L t t'"
proof -
  obtain imm imms where imm: "ml_immutables (lt_memory t) = imm # imms" using assms(2) by (meson neq_Nil_conv)
  show ?thesis
  proof (cases "imm = []")
    case True
    then show ?thesis using drop_empty_ok [OF assms(1)] imm by blast
  next
    case False
    then show ?thesis using flush_table_ok [OF assms(1) imm _ assms(3)] by blast
  qed
qed

section \<open>One compaction\<close>

lemma tree_pick:
  assumes "tree_inv R t"
  shows "pick (lt_config t) (lt_registry t) =
    Inr (map_option (level_task (lt_config t)) (find (level_full (lt_config t) (lt_registry t)) [0..<max 1 (length (lt_registry t))]))"
  using assms by (intro pick_find) (simp add: tree_inv_def tables_rep_def levels_ok_def)

text \<open>When a level is full, \<open>compact_begin\<close> takes all its tables and a number.\<close>

lemma compact_begin_ok:
  assumes good: "tree_good L R t" and p: "pick (lt_config t) (lt_registry t) = Inr (Some task)"
  shows "\<exists>l cs. l < L \<and> task = level_task (lt_config t) l \<and> cs \<noteq> [] \<and> set cs \<subseteq> set (tree_tables t) \<and>
    distinct (map in_id cs) \<and> (\<forall>info \<in> set cs. unat (in_level info) = l) \<and>
    compact_begin t = Inr (CompactJob cs task (lt_next_id t), t\<lparr>lt_next_id := lt_next_id t + 1\<rparr>)"
proof -
  have inv: "tree_inv R t" and cap: "capacity L (lt_config t) (tree_rows R t)" using good by (simp_all add: tree_good_def)
  have rep: "levels_ok (lt_registry t)" "distinct (map in_id (concat (lt_registry t)))"
    using inv by (simp_all add: tree_inv_def tables_rep_def tree_tables_def)
  obtain l where f: "find (level_full (lt_config t) (lt_registry t)) [0..<max 1 (length (lt_registry t))] = Some l"
      and task: "task = level_task (lt_config t) l"
    using p unfolding tree_pick [OF inv] sum.inject by (auto simp only: map_option_eq_Some)
  then have "level_full (lt_config t) (lt_registry t) l" unfolding find_Some_iff by blast
  note l = full_level_below [OF good this]
  let ?cs = "level_tables l (lt_registry t)"
  have "length (lt_registry t) < 2 ^ 32" using rep(1) by (simp add: levels_ok_def)
  then have "unat (word_of_nat l :: 32 word) = l" using l(3) by (intro unat_of_nat_level) simp
  then have "sstables_at_level (task_src_level task) (lt_registry t) = Inr ?cs"
    using l(3) by (simp add: task level_task_def sstables_at_level_def level_tables_def)
  then have "compact_begin t = Inr (CompactJob ?cs task (lt_next_id t), t\<lparr>lt_next_id := lt_next_id t + 1\<rparr>)"
    using p l(2) by (simp add: compact_begin_def)
  then show ?thesis
    using l level_tables_sub [OF rep(1) l(3)] level_tables_distinct [OF rep] task by (fastforce simp: tree_tables_def)
qed

lemma level_task_ok:
  assumes "l < L" "capacity L config rows"
  shows "unat (task_dst_level (level_task config l)) = Suc l" "task_dst_level (level_task config l) \<noteq> -1"
    "task_output_layout (level_task config l) \<in> {ROW, COLUMN}"
proof -
  have s: "Suc l < 2 ^ 32 - 1" using assms by (simp add: capacity_def)
  then show u: "unat (task_dst_level (level_task config l)) = Suc l"
    unfolding level_task_def compaction_task.simps by (intro unat_of_nat_level) simp
  show "task_dst_level (level_task config l) \<noteq> -1"
  proof
    assume "task_dst_level (level_task config l) = -1"
    then have "Suc l = unat (-1 :: 32 word)" using u by simp
    then show False using s by (simp add: unat_word_max)
  qed
  show "task_output_layout (level_task config l) \<in> {ROW, COLUMN}" by (simp add: level_task_def)
qed

lemma work_drop:
  assumes "set cs \<subseteq> set ts" "distinct (map in_id ts)" "distinct (map in_id cs)" "cs \<noteq> []"
    and "\<forall>info \<in> set cs. unat (in_level info) = l" "l < L" "unat (in_level new) = Suc l"
    and ts': "mset ts' = add_mset new (mset (other_tables cs ts))"
  shows "(\<Sum>info\<in>#mset ts'. L + 1 - unat (in_level info)) < (\<Sum>info\<in>#mset ts. L + 1 - unat (in_level info))"
proof -
  let ?w = "\<lambda>info. L + 1 - unat (in_level info)"
  obtain c where c: "c \<in> set cs" using assms(4) by (cases cs) auto
  have "?w c \<le> (\<Sum>info\<in>#mset cs. ?w info)" using c by (intro sum_mset_member) simp
  moreover have "?w c = L + 1 - l" "?w new = L - l" using assms(5,7) c by simp_all
  ultimately have "?w new < (\<Sum>info\<in>#mset cs. ?w info)" using assms(6) by linarith
  moreover have "(\<Sum>info\<in>#mset ts. ?w info) = (\<Sum>info\<in>#mset cs. ?w info) + (\<Sum>info\<in>#mset (other_tables cs ts). ?w info)"
    using arg_cong [OF split_tables [OF assms(2,1,3)], of "\<lambda>M. \<Sum>info\<in>#M. ?w info"]
    by (simp only: image_mset_union sum_mset.union)
  moreover have "(\<Sum>info\<in>#mset ts'. ?w info) = ?w new + (\<Sum>info\<in>#mset (other_tables cs ts). ?w info)"
    by (rule work_tables [OF ts'])
  ultimately show ?thesis by linarith
qed

lemma compact_one_good:
  assumes good: "tree_good L R t" and p: "pick (lt_config t) (lt_registry t) = Inr (Some task)" and nx: "lt_next_id t \<noteq> -1"
  shows "\<exists>t' R'. compact_one t = Some (Inr (True, t')) \<and> tree_good L R' t' \<and> same_tree R t R' t' \<and> step_down L t t'"
proof -
  have inv: "tree_inv R t" and lv: "levels_below L t" and cap: "capacity L (lt_config t) (tree_rows R t)"
    using good by (simp_all add: tree_good_def)
  obtain l cs where cs: "l < L" "task = level_task (lt_config t) l" "cs \<noteq> []" "set cs \<subseteq> set (tree_tables t)"
      "distinct (map in_id cs)" "\<forall>info \<in> set cs. unat (in_level info) = l"
      "compact_begin t = Inr (CompactJob cs task (lt_next_id t), t\<lparr>lt_next_id := lt_next_id t + 1\<rparr>)"
    using compact_begin_ok [OF good p] by blast
  note task = level_task_ok [OF cs(1) cap]
  let ?t1 = "t\<lparr>lt_next_id := lt_next_id t + 1\<rparr>"
  note n = take_number [OF inv nx]
  have cs1: "set cs \<subseteq> set (tree_tables ?t1)" using cs(4) n(4) by simp
  have lay: "task_output_layout task \<in> {ROW, COLUMN}" using task(3) cs(2) by simp
  from compact_write_ok [OF n(1,2) cs1 cs(5,3) lay] obtain info t2 where w:
    "compact_write cs task (lt_next_id t) ?t1 = Some (Inr (info, t2))" "tree_inv R t2" "reserved t2 (lt_next_id t)"
    "in_id info = lt_next_id t" "in_path info = tree_sst_path t2 (in_id info)" "in_level info = task_dst_level task"
    "on_disk (lt_schema t2) (lt_disk t2) info (kmerge (map R cs))" "lt_memory t2 = lt_memory t" "lt_next_id t2 = lt_next_id t + 1"
    "lt_config t2 = lt_config t" "lt_schema t2 = lt_schema t" "lt_stop t2 = lt_stop t" "tree_tables t2 = tree_tables t"
    by (fastforce simp: Let_def tree_tables_def tree_sst_path_def)
  have r2: "reserved t2 (in_id info)" "in_level info \<noteq> -1" "set cs \<subseteq> set (tree_tables t2)" using w task cs(2,4) by simp_all
  obtain t' R' where e:
    "compact_end cs info t2 = Inr t'" "tree_inv R' t'" "mset (tree_rows R' t') = mset (tree_rows R t2)"
    "mset (tree_tables t') = add_mset info (mset (other_tables cs (tree_tables t2)))" "lt_memory t' = lt_memory t2"
    "lt_config t' = lt_config t2" "lt_next_id t' = lt_next_id t2" "lt_schema t' = lt_schema t2" "lt_stop t' = lt_stop t2"
    using compact_end_ok [OF w(2) r2(1,3) cs(5) w(5) r2(2) w(7) mset_kmerge] by blast
  have f: "compact_one t = Some (Inr (True, t'))" using cs(7) w(1) e(1) by (simp add: compact_one_def)
  have "tree_rows R t2 = tree_rows R t" by (simp add: tree_rows_def w)
  then have rows: "mset (tree_rows R' t') = mset (tree_rows R t)" using e(3) by simp
  have s: "set (tree_tables t') = insert info (set (other_tables cs (tree_tables t)))" using set_add_mset [OF e(4)] w(13) by simp
  have lev: "unat (in_level info) = Suc l" using w(6) task(1) cs(2) by simp
  have "tree_good L R' t'"
    using e(2,6) w(10) cap capacity_mset [OF rows] lv lev cs(1) by (auto simp: tree_good_def levels_below_def s)
  moreover have "step_down L t t'"
  proof -
    have d: "distinct (map in_id (tree_tables t))" using inv by (simp add: tree_inv_def tables_rep_def)
    have "mset (tree_tables t') = add_mset info (mset (other_tables cs (tree_tables t)))" using e(4) w(13) by simp
    from work_drop [OF cs(4) d cs(5,3,6,1) lev this] show ?thesis
      using unat_next [OF nx] by (simp add: step_down_def tree_work_def e(5,7) w(8,9))
  qed
  ultimately show ?thesis using f rows e w by (intro exI [of _ t'] exI [of _ R']) (simp add: same_tree_def)
qed

section \<open>Draining\<close>

lemma pending_iff:
  assumes "tree_inv R t"
  shows "\<exists>b. has_pending_work t = Inr b \<and>
    (b \<longleftrightarrow> ml_immutables (lt_memory t) \<noteq> [] \<or> pick (lt_config t) (lt_registry t) \<noteq> Inr None)"
  using tree_pick [OF assms] by (auto simp: has_pending_work_def immutable_count_def)

lemma step_down_next:
  assumes "step_down L t t'" "unat (lt_next_id t) + tree_work L t < 2 ^ 64"
  shows "lt_next_id t \<noteq> -1" "unat (lt_next_id t') + tree_work L t' < 2 ^ 64"
  using assms by (auto simp: step_down_def unat_word_max)

lemma drain_work_good:
  assumes "tree_good L R t" "\<not> lt_stop t" "unat (lt_next_id t) + tree_work L t < 2 ^ 64"
  shows "\<exists>t' R'. drain_work t = Some (Inr t') \<and> tree_good L R' t' \<and> same_tree R t R' t' \<and>
    has_pending_work t' = Inr False \<and> ml_immutables (lt_memory t') = [] \<and>
    unat (lt_next_id t') + tree_work L t' \<le> unat (lt_next_id t) + tree_work L t"
  using assms
proof (induction "tree_work L t" arbitrary: t R rule: less_induct)
  case less
  have inv: "tree_inv R t" using less.prems(1) by (simp add: tree_good_def)
  have next_step: ?case
    if step: "drain_work t = drain_work t1" "tree_good L R1 t1" "same_tree R t R1 t1" "step_down L t t1" for t1 R1
  proof -
    have d: "tree_work L t1 < tree_work L t" "\<not> lt_stop t1" using step(3,4) less.prems(2) by (simp_all add: step_down_def same_tree_def)
    from less.hyps [OF d(1) step(2) d(2) step_down_next(2) [OF step(4) less.prems(3)]] obtain t' R' where
      "drain_work t1 = Some (Inr t')" "tree_good L R' t'" "same_tree R1 t1 R' t'" "has_pending_work t' = Inr False"
      "ml_immutables (lt_memory t') = []" "unat (lt_next_id t') + tree_work L t' \<le> unat (lt_next_id t1) + tree_work L t1"
      by blast
    then show ?thesis using step same_tree_trans by (fastforce simp: step_down_def)
  qed
  have nx: "lt_next_id t \<noteq> -1" if "0 < tree_work L t"
  proof
    assume "lt_next_id t = -1"
    then have "unat (lt_next_id t) = 2 ^ 64 - 1" by (simp add: unat_word_max)
    then show False using that less.prems(3) by simp
  qed
  show ?case
  proof (cases "ml_immutables (lt_memory t) = []")
    case False
    then have w: "0 < tree_work L t" by (simp add: tree_work_def)
    from flush_one_good [OF less.prems(1) False nx [OF w]] obtain t1 R1 where
      f: "flush_one t = Inr (True, t1)" "tree_good L R1 t1" "same_tree R t R1 t1" "step_down L t t1" by blast
    have "has_pending_work t = Inr True" using pending_iff [OF inv] False by auto
    then have "drain_work t = drain_work t1" using less.prems(2) f(1) by (subst drain_work.simps) simp
    then show ?thesis using next_step f by blast
  next
    case True
    then have noflush: "flush_one t = Inr (False, t)" by (simp add: flush_one_def flush_begin_def front_immutable_def)
    show ?thesis
    proof (cases "pick (lt_config t) (lt_registry t) = Inr None")
      case None: True
      then have "has_pending_work t = Inr False" using pending_iff [OF inv] True by auto
      moreover from this have "drain_work t = Some (Inr t)" by (subst drain_work.simps) simp
      ultimately show ?thesis using less.prems(1) True by (intro exI [of _ t] exI [of _ R]) simp
    next
      case False
      then obtain task where p: "pick (lt_config t) (lt_registry t) = Inr (Some task)" using tree_pick [OF inv] by auto
      obtain l cs where cs: "l < L" "cs \<noteq> []" "set cs \<subseteq> set (tree_tables t)" "\<forall>info \<in> set cs. unat (in_level info) = l"
        using compact_begin_ok [OF less.prems(1) p] by blast
      then obtain c where c: "c \<in> set (tree_tables t)" "unat (in_level c) = l" by (cases cs) auto
      then have "0 < L + 1 - unat (in_level c)" using cs(1) by simp
      then have "0 < (\<Sum>info\<in>#mset (tree_tables t). L + 1 - unat (in_level info))"
        using c(1) by (metis (no_types, lifting) not_gr_zero set_mset_mset sum_mset_0_iff image_eqI set_image_mset)
      then have "0 < tree_work L t" by (simp add: tree_work_def)
      from compact_one_good [OF less.prems(1) p nx [OF this]] obtain t1 R1 where
        f: "compact_one t = Some (Inr (True, t1))" "tree_good L R1 t1" "same_tree R t R1 t1" "step_down L t t1" by blast
      have "has_pending_work t = Inr True" using pending_iff [OF inv] False by auto
      then have "drain_work t = drain_work t1" using less.prems(2) f(1) noflush by (subst drain_work.simps) simp
      then show ?thesis using next_step f by blast
    qed
  qed
qed

end
