(* ===== verification/Tree_Scan.thy ===== *)
theory Tree_Scan
  imports Tree_Inv Engine
begin

text \<open>
  \<open>LSMTree::scan\<close>: the cursors of memtables and tables it composes keep the cursor contract, and what
  the composed cursor delivers is the rows of the range, in key order when that is asked for. Only
  tables are projected and filtered by statistics; the cells of the projected columns are the same.
\<close>

section \<open>The cursor contract of the tree's cursors\<close>

fun tc_inv :: "nat \<Rightarrow> tree_cursor \<Rightarrow> bool" where
  "tc_inv n (ActiveCur x) \<longleftrightarrow> width_inv n (map snd x) \<and> (\<forall>(k, r) \<in> set x. rkey r = k)"
| "tc_inv n (ImmCur x) \<longleftrightarrow> width_inv n x"
| "tc_inv n (SstCur x) \<longleftrightarrow> sst_inv x"

fun tc_rows :: "tree_cursor \<Rightarrow> row list" where
  "tc_rows (ActiveCur x) = map snd x"
| "tc_rows (ImmCur x) = x"
| "tc_rows (SstCur x) = sst_rows x"

fun tc_cols :: "nat \<Rightarrow> tree_cursor \<Rightarrow> nat set" where
  "tc_cols n (ActiveCur x) = {..<n}"
| "tc_cols n (ImmCur x) = {..<n}"
| "tc_cols n (SstCur x) = sst_cols x"

interpretation tree_cur: icursor tree_cursor_ops "tc_inv n" tc_rows "tc_cols n" for n
proof
  fix c assume "tc_inv n c"
  then show "cur_valid tree_cursor_ops c \<longleftrightarrow> tc_rows c \<noteq> []"
    using active.valid_iff [of n] imm.valid_iff [of n] sst_cur.valid_iff
    by (cases c) (simp_all add: tree_cursor_ops_def)
next
  fix c r rs assume c: "tc_inv n c" "tc_rows c = r # rs"
  show "cur_key tree_cursor_ops c = Inr (rkey r)"
    using c active.key_hd [of n] imm.key_hd [of n] sst_cur.key_hd
    by (cases c) (simp_all add: tree_cursor_ops_def)
  show "cur_value tree_cursor_ops c i = Inr (r ! i)" if "i \<in> tc_cols n c" for i
    using c that active.value_hd [of n] imm.value_hd [of n] sst_cur.value_hd
    by (cases c) (simp_all add: tree_cursor_ops_def)
  show "\<exists>c'. cur_next tree_cursor_ops c = Inr c' \<and> tc_inv n c' \<and> tc_rows c' = rs \<and> tc_cols n c' = tc_cols n c"
  proof (cases c)
    case (ActiveCur x)
    then show ?thesis using active.next_tl [of n x r rs] c by (auto simp: tree_cursor_ops_def)
  next
    case (ImmCur x)
    then show ?thesis using imm.next_tl [of n x r rs] c by (auto simp: tree_cursor_ops_def)
  next
    case (SstCur x)
    then show ?thesis using sst_cur.next_tl [of x r rs] c by (auto simp: tree_cursor_ops_def)
  qed
qed

interpretation tree_composed: icursor "composed_ops tree_cursor_ops" "tree_cur.composed_inv n" tree_cur.composed_rows
    "tree_cur.composed_cols n" for n
  by (rule tree_cur.composed_icursor)

abbreviation scan_inner :: "scan_cursor \<Rightarrow> tree_cursor composed" where
  "scan_inner c \<equiv> (case c of Plain x \<Rightarrow> x | Pinned p \<Rightarrow> pc_inner p)"

interpretation scan_cur: icursor scan_cursor_ops "\<lambda>c. tree_cur.composed_inv n (scan_inner c)"
    "\<lambda>c. tree_cur.composed_rows (scan_inner c)" "\<lambda>c. tree_cur.composed_cols n (scan_inner c)" for n
proof
  fix c assume "tree_cur.composed_inv n (scan_inner c)"
  then show "cur_valid scan_cursor_ops c \<longleftrightarrow> tree_cur.composed_rows (scan_inner c) \<noteq> []"
    using tree_composed.valid_iff [of n] by (cases c) (simp_all add: scan_cursor_ops_def)
next
  fix c r rs assume c: "tree_cur.composed_inv n (scan_inner c)" "tree_cur.composed_rows (scan_inner c) = r # rs"
  show "cur_key scan_cursor_ops c = Inr (rkey r)"
    using c tree_composed.key_hd [of n] by (cases c) (simp_all add: scan_cursor_ops_def)
  show "cur_value scan_cursor_ops c i = Inr (r ! i)" if "i \<in> tree_cur.composed_cols n (scan_inner c)" for i
    using c that tree_composed.value_hd [of n] by (cases c) (simp_all add: scan_cursor_ops_def)
  obtain y where y: "cur_next (composed_ops tree_cursor_ops) (scan_inner c) = Inr y" "tree_cur.composed_inv n y"
      "tree_cur.composed_rows y = rs" "tree_cur.composed_cols n y = tree_cur.composed_cols n (scan_inner c)"
    using tree_composed.next_tl [OF c] by blast
  show "\<exists>c'. cur_next scan_cursor_ops c = Inr c' \<and> tree_cur.composed_inv n (scan_inner c') \<and>
      tree_cur.composed_rows (scan_inner c') = rs \<and> tree_cur.composed_cols n (scan_inner c') = tree_cur.composed_cols n (scan_inner c)"
  proof (cases c)
    case (Plain x)
    then show ?thesis using y by (intro exI [of _ "Plain y"]) (simp add: scan_cursor_ops_def)
  next
    case (Pinned p)
    then show ?thesis using y by (intro exI [of _ "Pinned (p\<lparr>pc_inner := y\<rparr>)"]) (simp add: scan_cursor_ops_def)
  qed
qed

section \<open>The tables of a scan\<close>

definition overlaps :: "key_range \<Rightarrow> sst_info \<Rightarrow> bool" where
  "overlaps rng info \<longleftrightarrow> \<not> (case kr_from rng of Some f \<Rightarrow> in_max info < f | None \<Rightarrow> False) \<and>
     \<not> (case kr_to rng of Some t \<Rightarrow> in_min info \<ge> t | None \<Rightarrow> False)"

lemma overlapping_tables_filter:
  assumes "length reg < 2 ^ 32"
  shows "overlapping_tables rng reg = filter (overlaps rng) (concat reg)"
proof -
  have "map (\<lambda>level. overlapping (word_of_nat level) (kr_from rng) (kr_to rng) reg) [0..<length reg] = map (filter (overlaps rng)) reg"
  proof (rule nth_equalityI)
    fix i assume "i < length (map (\<lambda>level. overlapping (word_of_nat level) (kr_from rng) (kr_to rng) reg) [0..<length reg])"
    then have i: "i < length reg" by simp
    then have "unat (word_of_nat i :: 32 word) = i" using assms by (intro unat_of_nat_level) simp
    then show "map (\<lambda>level. overlapping (word_of_nat level) (kr_from rng) (kr_to rng) reg) [0..<length reg] ! i = map (filter (overlaps rng)) reg ! i"
      using i by (simp add: overlapping_def overlaps_def [abs_def])
  qed simp
  then show ?thesis by (simp add: overlapping_tables_def level_count_def filter_concat)
qed

text \<open>A table that is left out holds no row of the range.\<close>

lemma not_overlapping:
  assumes st: "stored_table s rows fs info" and no: "\<not> overlaps rng info"
  shows "in_rng rng rows = []"
proof -
  note d = stored_tableD [OF st]
  have srt: "sorted (rkeys rows)" using d(5) by (rule strict_sorted_imp_sorted)
  have bounds: "rkey (hd rows) \<le> rkey r" "rkey r \<le> rkey (last rows)" if r: "r \<in> set rows" for r
  proof -
    have ne: "rows \<noteq> []" using d(2) .
    obtain i where i: "i < length rows" "rows ! i = r" using r by (auto simp: in_set_conv_nth)
    have "rkeys rows ! 0 \<le> rkeys rows ! i" using i(1) by (intro sorted_nth_mono [OF srt]) simp_all
    moreover have "rkeys rows ! i \<le> rkeys rows ! (length rows - 1)" using i(1) by (intro sorted_nth_mono [OF srt]) simp_all
    ultimately show "rkey (hd rows) \<le> rkey r" "rkey r \<le> rkey (last rows)" using i ne by (simp_all add: hd_conv_nth last_conv_nth)
  qed
  have "\<not> contains rng (rkey r)" if "r \<in> set rows" for r
    using no bounds [OF that] d(8,9) by (auto simp: overlaps_def contains_iff split: option.splits)
  then show ?thesis by (simp add: in_rng_def)
qed

text \<open>Opening the cursors changes only the metadata caches.\<close>

lemma caches_update:
  "tree_tables (t\<lparr>lt_caches := cs\<rparr>) = tree_tables t" "tree_rows R (t\<lparr>lt_caches := cs\<rparr>) = tree_rows R t"
  "tables_rep R (t\<lparr>lt_caches := cs\<rparr>) = tables_rep R t" "tree_ok (t\<lparr>lt_caches := cs\<rparr>) = tree_ok t"
  unfolding tables_rep_def tree_rows_def tree_tables_def tree_sst_path_def tree_ok_def by simp_all

lemma cache_table:
  assumes inv: "tree_inv R t" and info: "info \<in> set (tree_tables t)"
    and mc: "table_cache (lt_schema t) (R info) (files_at (lt_disk t) (in_path info)) info mc"
  shows "tree_inv R (t\<lparr>lt_caches := (lt_caches t)(in_id info \<mapsto> mc)\<rparr>)"
proof -
  have d: "distinct (map in_id (tree_tables t))" "in_id info < lt_next_id t" using inv info by (auto simp: tree_inv_def tables_rep_def)
  have "other = info" if "other \<in> set (tree_tables t)" "in_id other = in_id info" for other
    using d(1) that info by (metis distinct_map inj_onD)
  then have "caches_rep R (t\<lparr>lt_caches := (lt_caches t)(in_id info \<mapsto> mc)\<rparr>)"
    using inv mc d(2) unfolding tree_inv_def caches_rep_def caches_update by auto
  then show ?thesis using inv by (simp add: tree_inv_def caches_update)
qed

definition caches_of_tables :: "lsm_tree \<Rightarrow> lsm_tree \<Rightarrow> bool" where
  "caches_of_tables t t' \<longleftrightarrow>
     (\<exists>cs. t' = t\<lparr>lt_caches := cs\<rparr> \<and> (\<forall>i. i \<notin> in_id ` set (tree_tables t) \<longrightarrow> cs i = lt_caches t i))"

lemma caches_of_tables_refl: "caches_of_tables t t"
  unfolding caches_of_tables_def by (intro exI [of _ "lt_caches t"]) simp

lemma caches_of_tables_trans:
  assumes "caches_of_tables t t'" "caches_of_tables t' t''"
  shows "caches_of_tables t t''"
proof -
  obtain cs where cs: "t' = t\<lparr>lt_caches := cs\<rparr>" "\<forall>i. i \<notin> in_id ` set (tree_tables t) \<longrightarrow> cs i = lt_caches t i"
    using assms(1) by (auto simp: caches_of_tables_def)
  obtain cs' where "t'' = t'\<lparr>lt_caches := cs'\<rparr>" "\<forall>i. i \<notin> in_id ` set (tree_tables t') \<longrightarrow> cs' i = lt_caches t' i"
    using assms(2) by (auto simp: caches_of_tables_def)
  then show ?thesis using cs unfolding caches_of_tables_def by (intro exI [of _ cs']) (simp add: caches_update)
qed

lemma open_table_cursor_ok:
  assumes inv: "tree_inv R t" and info: "info \<in> set (tree_tables t)" and p: "projection_ok (lt_schema t) projection"
  shows "\<exists>c t' rs. open_table_cursor rng projection f info t = (c, t') \<and> tree_inv R t' \<and> caches_of_tables t t' \<and>
    query_result rng f (R info) rs \<and>
    cursor_delivers c (insert KEY_COLUMN_INDEX (set projection)) (map (project_row (projection_mask (lt_schema t) projection)) rs)"
proof -
  let ?fs = "files_at (lt_disk t) (in_path info)" and ?s = "lt_schema t"
  note st = tree_tables_rows [OF inv info]
  obtain mc t1 where m: "get_or_create_metadata_cache info t = (Inr mc, t1)" "table_cache ?s (R info) ?fs info mc"
      "tree_inv R t1" "caches_of_tables t t1"
  proof (cases "lt_caches t (in_id info)")
    case (Some mc)
    then have "table_cache ?s (R info) ?fs info mc" using inv info by (simp add: tree_inv_def caches_rep_def)
    then show ?thesis using that [of mc t] Some inv caches_of_tables_refl by (simp add: get_or_create_metadata_cache_def)
  next
    case None
    obtain mc where mc: "open_metadata_cache ?s info ?fs = Inr mc" "table_cache ?s (R info) ?fs info mc"
      using open_stored_table [OF st(1)] by blast
    let ?t1 = "t\<lparr>lt_caches := (lt_caches t)(in_id info \<mapsto> mc)\<rparr>"
    have "caches_of_tables t ?t1" using info unfolding caches_of_tables_def by (intro exI conjI) auto
    then show ?thesis
      using that [of mc ?t1] None mc cache_table [OF inv info mc(2)] by (simp add: get_or_create_metadata_cache_def)
  qed
  have same: "lt_schema t1 = ?s" "lt_disk t1 = lt_disk t" "tree_tables t1 = tree_tables t"
    using m(4) by (auto simp: caches_of_tables_def caches_update)
  obtain res mc' rs where r: "make_sstable_cursor info ?fs rng (schema_types ?s) projection f mc = (res, mc')"
      "table_cache ?s (R info) ?fs info mc'" "query_result rng f (R info) rs"
      "cursor_delivers res (insert KEY_COLUMN_INDEX (set projection)) (map (project_row (projection_mask ?s projection)) rs)"
    using make_table_cursor_ok [OF m(2) p] by blast
  let ?t2 = "t1\<lparr>lt_caches := (lt_caches t1)(in_id info \<mapsto> mc')\<rparr>"
  have o: "open_table_cursor rng projection f info t = (res, ?t2)"
    using m(1) r(1) by (simp add: open_table_cursor_def same)
  have "tree_inv R ?t2" using cache_table [OF m(3)] info r(2) by (simp add: same)
  moreover have "caches_of_tables t ?t2"
  proof -
    obtain cs where cs: "t1 = t\<lparr>lt_caches := cs\<rparr>" "\<forall>i. i \<notin> in_id ` set (tree_tables t) \<longrightarrow> cs i = lt_caches t i"
      using m(4) by (auto simp: caches_of_tables_def)
    then show ?thesis using info unfolding caches_of_tables_def by (intro exI [of _ "cs(in_id info \<mapsto> mc')"]) auto
  qed
  ultimately show ?thesis using o r(3,4) by blast
qed

section \<open>All tables of a scan\<close>

text \<open>The cursors that are kept, against the rows of the query they hold.\<close>

definition sst_holds :: "(row \<Rightarrow> row) \<Rightarrow> nat set \<Rightarrow> sst_cursor \<Rightarrow> row list \<Rightarrow> bool" where
  "sst_holds g cols c rs \<longleftrightarrow> sst_inv c \<and> cols \<subseteq> sst_cols c \<and> sst_rows c = map g rs"

lemma open_table_cursors_ok:
  assumes "tree_inv R t" "set infos \<subseteq> set (tree_tables t)" "projection_ok (lt_schema t) projection"
  shows "\<exists>cs t' rss. open_table_cursors rng projection f infos t = (Inr cs, t') \<and> tree_inv R t' \<and> caches_of_tables t t' \<and>
    list_all2 (\<lambda>info rs. query_result rng f (R info) rs) infos rss \<and>
    list_all2 (sst_holds (project_row (projection_mask (lt_schema t) projection)) (insert KEY_COLUMN_INDEX (set projection)))
      cs (filter (\<lambda>rs. rs \<noteq> []) rss)"
  using assms
proof (induction infos arbitrary: t)
  case Nil
  then show ?case using caches_of_tables_refl by (intro exI [of _ "[]"] exI [of _ t]) simp
next
  case (Cons info infos)
  let ?g = "project_row (projection_mask (lt_schema t) projection)" and ?cols = "insert KEY_COLUMN_INDEX (set projection)"
  have info: "info \<in> set (tree_tables t)" using Cons.prems(2) by simp
  obtain c t1 rs where o: "open_table_cursor rng projection f info t = (c, t1)" "tree_inv R t1" "caches_of_tables t t1"
      "query_result rng f (R info) rs" "cursor_delivers c ?cols (map ?g rs)"
    using open_table_cursor_ok [OF Cons.prems(1) info Cons.prems(3)] by blast
  have same: "lt_schema t1 = lt_schema t" "tree_tables t1 = tree_tables t"
    using o(3) by (auto simp: caches_of_tables_def caches_update)
  obtain cs t2 rss where os: "open_table_cursors rng projection f infos t1 = (Inr cs, t2)" "tree_inv R t2" "caches_of_tables t1 t2"
      "list_all2 (\<lambda>info rs. query_result rng f (R info) rs) infos rss"
      "list_all2 (sst_holds ?g ?cols) cs (filter (\<lambda>rs. rs \<noteq> []) rss)"
    using Cons.IH [OF o(2)] Cons.prems(2,3) same by auto
  obtain y where y: "c = Inr y" using o(5) by (auto simp: cursor_delivers_def split: sum.splits)
  let ?cs = "case y of None \<Rightarrow> cs | Some x \<Rightarrow> if cur_valid sst_cursor_ops x then x # cs else cs"
  have "open_table_cursors rng projection f (info # infos) t = (Inr ?cs, t2)" by (simp add: o(1) y os(1))
  moreover have "list_all2 (sst_holds ?g ?cols) ?cs (filter (\<lambda>rs. rs \<noteq> []) (rs # rss))"
    using o(5) os(5) sst_cur.valid_iff by (auto simp: y cursor_delivers_def sst_holds_def split: option.splits)
  ultimately show ?case using os(2,4) o(4) caches_of_tables_trans [OF o(3) os(3)]
    by (intro exI [of _ ?cs] exI [of _ t2] exI [of _ "rs # rss"]) simp
qed

section \<open>The scan\<close>

definition tc_holds :: "nat \<Rightarrow> (row \<Rightarrow> row) \<Rightarrow> nat set \<Rightarrow> tree_cursor \<Rightarrow> row list \<Rightarrow> bool" where
  "tc_holds n g cols c rs \<longleftrightarrow>
     tc_inv n c \<and> cols \<subseteq> tc_cols n c \<and> tc_rows c \<noteq> [] \<and> map g (tc_rows c) = map g rs \<and>
     (\<forall>r \<in> set (tc_rows c). keyed r \<and> length r = n) \<and> (\<forall>r \<in> set rs. keyed r \<and> length r = n)"

lemma compose_holds:
  assumes cs: "list_all2 (tc_holds n (project_row pm) cols) cursors pieces"
  shows "\<exists>c. compose_cursors tree_cursor_ops (map Some cursors) order = Inr c \<and> tree_cur.composed_inv n c \<and>
    cols \<subseteq> tree_cur.composed_cols n c \<and> (\<forall>r \<in> set (tree_cur.composed_rows c). keyed r \<and> length r = n) \<and>
    map (project_row pm) (tree_cur.composed_rows c) =
      map (project_row pm) (case order of Unordered \<Rightarrow> concat pieces | KeyAscending \<Rightarrow> kmerge pieces)"
proof -
  let ?g = "project_row pm"
  have each: "\<forall>c \<in> set cursors. tc_inv n c \<and> cols \<subseteq> tc_cols n c \<and> tc_rows c \<noteq> [] \<and> (\<forall>r \<in> set (tc_rows c). keyed r \<and> length r = n)"
    using cs by (fastforce simp: list_all2_conv_all_nth in_set_conv_nth tc_holds_def)
  have pk: "\<forall>p \<in> set pieces. \<forall>r \<in> set p. keyed r"
    using cs by (fastforce simp: list_all2_conv_all_nth in_set_conv_nth tc_holds_def)
  have "filter (cur_valid tree_cursor_ops) cursors = cursors"
    using each tree_cur.valid_iff [of n] by (auto simp: filter_id_conv)
  then have opt: "tree_cur.opt_rows (map Some cursors) = map tc_rows cursors"
    by (simp add: tree_cur.opt_rows_def map_filter_def o_def)
  obtain c where c: "compose_cursors tree_cursor_ops (map Some cursors) order = Inr c" "tree_cur.composed_inv n c"
      "cols \<subseteq> tree_cur.composed_cols n c"
      "tree_cur.composed_rows c = (case order of Unordered \<Rightarrow> concat (map tc_rows cursors) | KeyAscending \<Rightarrow> kmerge (map tc_rows cursors))"
    using tree_cur.compose_cursors_ok [of "map Some cursors" n cols order] each unfolding opt by auto
  have m: "map (map ?g) (map tc_rows cursors) = map (map ?g) pieces"
    using cs by (auto intro!: nth_equalityI simp: list_all2_conv_all_nth tc_holds_def)
  have "map ?g (kmerge (map tc_rows cursors)) = kmerge (map (map ?g) (map tc_rows cursors))"
    by (rule kmerge_map [symmetric]) (use each in auto)
  also have "\<dots> = map ?g (kmerge pieces)" unfolding m by (rule kmerge_map) (use pk in auto)
  finally have km: "map ?g (kmerge (map tc_rows cursors)) = map ?g (kmerge pieces)" .
  have "map ?g (concat (map tc_rows cursors)) = map ?g (concat pieces)" using m by (metis map_concat)
  moreover have "set (tree_cur.composed_rows c) = (\<Union>x \<in> set cursors. set (tc_rows x))"
    by (simp add: c(4) set_kmerge split: scan_order.split)
  ultimately show ?thesis using c km each by (intro exI [of _ c]) (auto split: scan_order.split)
qed

lemma pinned_ranges:
  "map (\<lambda>(imm, used). h used) (filter (\<lambda>(imm, used). used \<noteq> []) (zip xs (map g xs))) = map h (filter (\<lambda>r. r \<noteq> []) (map g xs))"
  by (induction xs) simp_all

lemma concat_filter_nonempty: "concat (filter (\<lambda>r. r \<noteq> []) xss) = concat xss"
  by (induction xss) simp_all

lemma in_rng_sorted: "sorted_wrt (<) (rkeys rows) \<Longrightarrow> sorted (rkeys (in_rng rng rows))"
  by (simp add: in_rng_def sorted_filter strict_sorted_imp_sorted)

lemma concat_map_kept: "\<forall>x \<in> set xs. \<not> P x \<longrightarrow> h x = [] \<Longrightarrow> concat (map h (filter P xs)) = concat (map h xs)"
  by (induction xs) auto

text \<open>The tables that are left out do not matter.\<close>

lemma scan_spec_tables:
  assumes inv: "tree_inv R t" and q: "list_all2 (\<lambda>info rs. query_result rng f (R info) rs) (filter (overlaps rng) (tree_tables t)) rss"
  shows "scan_spec rng f (concat (map R (tree_tables t))) (concat rss)"
proof -
  have "list_all2 (scan_spec rng f) (map R (filter (overlaps rng) (tree_tables t))) rss"
    using q by (auto simp: list_all2_map1 elim!: list.rel_mono_strong intro: query_result_spec)
  from scan_spec_concat [OF this]
  have "scan_spec rng f (concat (map R (filter (overlaps rng) (tree_tables t)))) (concat rss)" .
  moreover have "in_rng rng (concat (map R (filter (overlaps rng) (tree_tables t)))) = in_rng rng (concat (map R (tree_tables t)))"
    unfolding in_rng_concat map_map
  proof (rule concat_map_kept, intro ballI impI)
    fix info assume "info \<in> set (tree_tables t)" "\<not> overlaps rng info"
    then show "(in_rng rng \<circ> R) info = []" using not_overlapping [OF tree_tables_rows(1) [OF inv]] by simp
  qed
  ultimately show ?thesis by (simp add: scan_spec_def)
qed

lemma sorted_subseq: "subseq xs ys \<Longrightarrow> sorted ys \<Longrightarrow> sorted xs"
  by (auto simp: subseq_conv_nths sorted_nths)

lemma list_all2_mem: "list_all2 P xs ys \<Longrightarrow> y \<in> set ys \<Longrightarrow> \<exists>x \<in> set xs. P x y"
  by (induction rule: list_all2_induct) auto

lemma query_rows_ok:
  assumes inv: "tree_inv R t" and info: "info \<in> set (tree_tables t)" and q: "query_result rng f (R info) rs"
  shows "sorted (rkeys rs) \<and> (\<forall>r \<in> set rs. keyed r \<and> length r = schema_size (lt_schema t))"
proof -
  note st = stored_tableD [OF tree_tables_rows(1) [OF inv info]]
  have "subseq (rkeys rs) (rkeys (in_rng rng (R info)))" using q by (auto simp: query_result_def intro: subseq_map)
  then have "sorted (rkeys rs)" by (rule sorted_subseq) (rule in_rng_sorted [OF st(5)])
  then show ?thesis using query_result_subset [OF q] st(7) by blast
qed

lemma lt_scan_cursors:
  assumes a: "active_range rng (ml_active (lt_memory t)) = Inr act"
    and i: "rmap (imm_range rng) (ml_immutables (lt_memory t)) = Inr (map g (ml_immutables (lt_memory t)))"
    and o: "open_table_cursors rng projection f (overlapping_tables rng (lt_registry t)) t = (Inr cs, t')"
  shows "\<exists>wrap. (\<forall>c. scan_inner (wrap c) = c) \<and> lt_scan rng projection order f t =
    (rbind (compose_cursors tree_cursor_ops (map Some ((if act \<noteq> [] then [ActiveCur act] else []) @
        map ImmCur (filter (\<lambda>r. r \<noteq> []) (map g (ml_immutables (lt_memory t)))) @ map SstCur cs)) order) (\<lambda>c. Inr (wrap c)), t')"
proof -
  let ?pinned = "filter (\<lambda>(imm, used). used \<noteq> []) (zip (ml_immutables (lt_memory t)) (map g (ml_immutables (lt_memory t))))"
  let ?wrap = "\<lambda>c. if ?pinned = [] then Plain c else Pinned \<lparr>pc_inner = c, pc_pins = map fst ?pinned\<rparr>"
  have "\<forall>c. scan_inner (?wrap c) = c" by simp
  moreover have "lt_scan rng projection order f t =
    (rbind (compose_cursors tree_cursor_ops (map Some ((if act \<noteq> [] then [ActiveCur act] else []) @
        map ImmCur (filter (\<lambda>r. r \<noteq> []) (map g (ml_immutables (lt_memory t)))) @ map SstCur cs)) order) (\<lambda>c. Inr (?wrap c)), t')"
    unfolding lt_scan_def a i o sbind_simps Let_def pinned_ranges [of ImmCur] ..
  ultimately show ?thesis by (intro exI [of _ ?wrap] conjI)
qed

text \<open>What the cursor of a scan delivers.\<close>

abbreviation scan_cinv :: "nat \<Rightarrow> scan_cursor \<Rightarrow> bool" where
  "scan_cinv n c \<equiv> tree_cur.composed_inv n (scan_inner c)"

abbreviation scan_crows :: "scan_cursor \<Rightarrow> row list" where
  "scan_crows c \<equiv> tree_cur.composed_rows (scan_inner c)"

abbreviation scan_ccols :: "nat \<Rightarrow> scan_cursor \<Rightarrow> nat set" where
  "scan_ccols n c \<equiv> tree_cur.composed_cols n (scan_inner c)"

lemma lt_scan_delivers:
  assumes inv: "tree_inv R t" and p: "projection_ok (lt_schema t) projection" and rng: "range_ok rng"
  shows "\<exists>c t' res. lt_scan rng projection order f t = (Inr c, t') \<and> tree_inv R t' \<and> caches_of_tables t t' \<and>
    delivers scan_cinv scan_crows scan_ccols (schema_size (lt_schema t)) projection c res \<and>
    scan_spec rng f (tree_rows R t) res \<and> (order = KeyAscending \<longrightarrow> sorted (rkeys res))"
proof -
  let ?s = "lt_schema t" and ?ml = "lt_memory t" and ?n = "schema_size (lt_schema t)"
  let ?pm = "projection_mask ?s projection" and ?cols = "insert KEY_COLUMN_INDEX (set projection)"
  have wf: "schema_wf ?s" and ml: "ml_inv ?s ?ml" using inv by (simp_all add: tree_inv_def tree_ok_def)
  have mt: "memtable_inv ?s (ml_active ?ml)" and fz: "\<forall>imm \<in> set (ml_immutables ?ml). frozen_ok ?s imm"
    using ml by (simp_all add: ml_inv_def)
  have n: "0 < ?n" using schema_wf_size [OF wf] .
  have cols: "?cols \<subseteq> {..<?n}" using p n by (auto simp: projection_ok_def KEY_COLUMN_INDEX_def)
  define act where "act = filter (\<lambda>e. contains rng (fst e)) (ml_active ?ml)"
  define used where "used = filter (\<lambda>r. r \<noteq> []) (map (in_rng rng) (ml_immutables ?ml))"
  have a: "active_range rng (ml_active ?ml) = Inr act" unfolding act_def by (rule active_range_ok [OF mt rng])
  have i: "rmap (imm_range rng) (ml_immutables ?ml) = Inr (map (in_rng rng) (ml_immutables ?ml))"
    using fz imm_range_ok [OF _ rng] by (intro rmap_pure) blast
  let ?infos = "overlapping_tables rng (lt_registry t)"
  have "length (lt_registry t) < 2 ^ 32" using inv by (simp add: tree_inv_def tables_rep_def levels_ok_def)
  then have infos: "?infos = filter (overlaps rng) (tree_tables t)"
    by (simp only: overlapping_tables_filter tree_tables_def)
  then have sub: "set ?infos \<subseteq> set (tree_tables t)" by auto
  obtain cs t' rss where o: "open_table_cursors rng projection f ?infos t = (Inr cs, t')" "tree_inv R t'" "caches_of_tables t t'"
      "list_all2 (\<lambda>info rs. query_result rng f (R info) rs) ?infos rss"
      "list_all2 (sst_holds (project_row ?pm) ?cols) cs (filter (\<lambda>rs. rs \<noteq> []) rss)"
    using open_table_cursors_ok [OF inv sub p] by blast
  define pieces where "pieces = (if act \<noteq> [] then [map snd act] else []) @ used @ filter (\<lambda>rs. rs \<noteq> []) rss"
  let ?cursors = "(if act \<noteq> [] then [ActiveCur act] else []) @ map ImmCur used @ map SstCur cs"
  have actrows: "map snd act = in_rng rng (map snd (ml_active ?ml))"
    using mt by (auto simp: act_def in_rng_def filter_map o_def memtable_inv_def rkey_def intro!: arg_cong [of _ _ "map snd"] filter_cong)
  have width: "keyed r \<and> length r = ?n" if "valid_row ?s r" for r using valid_row_keyed [OF wf that] .
  have actk: "\<forall>(k, r) \<in> set act. keyed r \<and> length r = ?n \<and> rkey r = k"
    using mt width by (auto simp: act_def memtable_inv_def rkey_def)
  have usedk: "\<forall>u \<in> set used. u \<noteq> [] \<and> sorted (rkeys u) \<and> (\<forall>r \<in> set u. keyed r \<and> length r = ?n)"
    using fz width by (auto simp: used_def frozen_ok_def intro: in_rng_sorted) (auto simp: in_rng_def)
  have rssk: "sorted (rkeys rs) \<and> (\<forall>r \<in> set rs. keyed r \<and> length r = ?n)" if rs: "rs \<in> set rss" for rs
    using list_all2_mem [OF o(4) rs] sub query_rows_ok [OF inv] by blast
  have "list_all2 (tc_holds ?n (project_row ?pm) ?cols) ?cursors pieces"
    unfolding pieces_def
  proof (intro list_all2_appendI)
    show "list_all2 (tc_holds ?n (project_row ?pm) ?cols) (if act \<noteq> [] then [ActiveCur act] else []) (if act \<noteq> [] then [map snd act] else [])"
      using actk cols by (fastforce simp: tc_holds_def width_inv_def)
    show "list_all2 (tc_holds ?n (project_row ?pm) ?cols) (map ImmCur used) used"
      using usedk cols by (auto simp: list_all2_map1 tc_holds_def width_inv_def intro!: list.rel_refl_strong)
    have "tc_holds ?n (project_row ?pm) ?cols (SstCur c) rs"
      if "rs \<noteq> []" "rs \<in> set rss" "sst_holds (project_row ?pm) ?cols c rs" for c rs
      using that(1,3) rssk [OF that(2)] keyed_project_row by (fastforce simp: tc_holds_def sst_holds_def)
    then show "list_all2 (tc_holds ?n (project_row ?pm) ?cols) (map SstCur cs) (filter (\<lambda>rs. rs \<noteq> []) rss)"
      using o(5) by (auto simp: list_all2_map1 elim!: list.rel_mono_strong)
  qed
  from compose_holds [OF this, of order] obtain c where c:
    "compose_cursors tree_cursor_ops (map Some ?cursors) order = Inr c" "tree_cur.composed_inv ?n c"
    "?cols \<subseteq> tree_cur.composed_cols ?n c" "\<forall>r \<in> set (tree_cur.composed_rows c). keyed r \<and> length r = ?n"
    "map (project_row ?pm) (tree_cur.composed_rows c) =
      map (project_row ?pm) (case order of Unordered \<Rightarrow> concat pieces | KeyAscending \<Rightarrow> kmerge pieces)" by blast
  define res where "res = (case order of Unordered \<Rightarrow> concat pieces | KeyAscending \<Rightarrow> kmerge pieces)"
  have resm: "mset res = mset (concat pieces)" by (simp add: res_def mset_kmerge split: scan_order.split)
  have "scan_spec rng f (concat (ml_tables ?ml)) (in_rng rng (concat (ml_tables ?ml)))" by (rule scan_spec_range)
  then have "scan_spec rng f (tree_rows R t) (in_rng rng (concat (ml_tables ?ml)) @ concat rss)"
    using scan_spec_tables [OF inv] o(4) unfolding tree_rows_def infos by (intro scan_spec_append)
  moreover have "mset (concat pieces) = mset (in_rng rng (concat (ml_tables ?ml)) @ concat rss)"
  proof -
    have "concat (if act \<noteq> [] then [map snd act] else []) = map snd act" by simp
    moreover have "concat used = in_rng rng (concat (ml_immutables ?ml))"
      unfolding used_def concat_filter_nonempty in_rng_concat ..
    ultimately show ?thesis
      unfolding pieces_def concat_append concat_filter_nonempty actrows ml_tables_def by simp
  qed
  ultimately have "scan_spec rng f (tree_rows R t) res" using scan_spec_mset resm by metis
  moreover have "sorted (rkeys res)" if "order = KeyAscending"
  proof -
    have "sorted_wrt (<) (rkeys (map snd (ml_active ?ml)))"
      unfolding memtable_inv_rkeys [OF mt] using mt by (simp add: memtable_inv_def)
    then have "sorted (rkeys (map snd act))" unfolding actrows by (rule in_rng_sorted)
    then have "\<forall>p \<in> set pieces. sorted (rkeys p)" using usedk rssk by (auto simp: pieces_def)
    then show ?thesis using that sorted_kmerge by (simp add: res_def)
  qed
  moreover have "map (row_cells projection) (tree_cur.composed_rows c) = map (row_cells projection) res"
  proof -
    have pk: "\<forall>r \<in> set res. keyed r \<and> length r = ?n"
      using resm actk usedk rssk unfolding set_mset_mset [symmetric] by (auto simp: pieces_def)
    have view: "map (row_cells projection) rs = map (row_cells projection) (map (project_row ?pm) rs)"
      if "\<forall>r \<in> set rs. keyed r \<and> length r = ?n" for rs
      using that projection_row_cells [OF _ _ p] by simp
    show ?thesis using view [OF c(4)] view [OF pk] c(5) unfolding res_def by metis
  qed
  moreover have "\<exists>sc. lt_scan rng projection order f t = (Inr sc, t') \<and> scan_inner sc = c"
    using lt_scan_cursors [OF a i o(1), of order] c(1) unfolding used_def [symmetric] by auto
  then obtain sc where sc: "lt_scan rng projection order f t = (Inr sc, t')" "scan_inner sc = c" by blast
  have "delivers scan_cinv scan_crows scan_ccols ?n projection sc res"
    using c(2,3) sc(2) calculation(3) by (simp add: delivers_def)
  with calculation show ?thesis using sc o(2,3) by blast
qed

definition scan_tree ::
    "key_range \<Rightarrow> nat list \<Rightarrow> scan_order \<Rightarrow> skip_filter \<Rightarrow> lsm_tree \<Rightarrow> (key \<times> nullable_value list) list res option \<times> lsm_tree" where
  "scan_tree rng projection order f t =
     (case lt_scan rng projection order f t of
        (Inl e, t') \<Rightarrow> (Some (Inl e), t')
      | (Inr c, t') \<Rightarrow> (cursor_cells scan_cursor_ops projection c, t'))"

lemma lt_scan_ok:
  assumes inv: "tree_inv R t" and p: "projection_ok (lt_schema t) projection" and rng: "range_ok rng"
  shows "\<exists>t' res. scan_tree rng projection order f t = (Some (Inr (map (row_cells projection) res)), t') \<and>
    tree_inv R t' \<and> caches_of_tables t t' \<and> scan_spec rng f (tree_rows R t) res \<and>
    (order = KeyAscending \<longrightarrow> sorted (rkeys res))"
proof -
  obtain c t' res where c: "lt_scan rng projection order f t = (Inr c, t')" "tree_inv R t'" "caches_of_tables t t'"
      "delivers scan_cinv scan_crows scan_ccols (schema_size (lt_schema t)) projection c res"
      "scan_spec rng f (tree_rows R t) res" "order = KeyAscending \<longrightarrow> sorted (rkeys res)"
    using lt_scan_delivers [OF assms, of order f] by blast
  have "cursor_cells scan_cursor_ops projection c = Some (Inr (map (row_cells projection) (scan_crows c)))"
    using c(4) scan_cur.cells_read [of "schema_size (lt_schema t)" c projection] by (auto simp: delivers_def)
  then show ?thesis using c by (intro exI [of _ t'] exI [of _ res]) (simp add: scan_tree_def delivers_def)
qed

end
