(* ===== verification/Tree_Spec.thy ===== *)
theory Tree_Spec
  imports Tree_Work Tree_Scan
begin

text \<open>
  The tree as a store of rows: after any sequence of inserts of rows with different keys, however
  often the memory layer was flushed and tables were compacted meanwhile, a scan returns the inserted
  rows of the range, in key order when asked for. Draining ends and leaves nothing to do. Two theorems
  show where this stops: a key that is inserted again is read twice, and two threads that flush in
  the synchronous mode can lose a memtable.
\<close>

section \<open>Inserting\<close>

text \<open>The client's loop over its rows.\<close>

fun insert_all :: "row list \<Rightarrow> lsm_tree \<Rightarrow> lsm_tree res option" where
  "insert_all [] t = Some (Inr t)"
| "insert_all (r # rs) t = obind (lt_insert r t) (insert_all rs)"

lemma insert_good:
  assumes good: "tree_good L R t" "\<not> lt_stop t" and r: "valid_row (lt_schema t) r"
    and fit: "rows_fit (lt_schema t) (r # tree_rows R t)" "capacity L (lt_config t) (r # tree_rows R t)"
    and ids: "unat (lt_next_id t) + tree_work L t + (L + 2) < 2 ^ 64"
  shows "\<exists>t' R'. lt_insert r t = Some (Inr t') \<and> tree_good L R' t' \<and> \<not> lt_stop t' \<and>
    lt_schema t' = lt_schema t \<and> lt_config t' = lt_config t \<and> mset (tree_rows R' t') = add_mset r (mset (tree_rows R t)) \<and>
    unat (lt_next_id t') + tree_work L t' \<le> unat (lt_next_id t) + tree_work L t + (L + 2) \<and>
    (\<not> cfg_is_compaction_background (lt_config t) \<longrightarrow> has_pending_work t' = Inr False)"
proof -
  have inv: "tree_inv R t" and lv: "levels_below L t" using good by (simp_all add: tree_good_def)
  obtain ml where ml: "ml_insert r (lt_memory t) = Inr ml" "tree_inv R (t\<lparr>lt_memory := ml\<rparr>)"
      "mset (tree_rows R (t\<lparr>lt_memory := ml\<rparr>)) = add_mset r (mset (tree_rows R t))"
      "length (ml_immutables ml) \<le> Suc (length (ml_immutables (lt_memory t)))"
    using insert_memory_ok [OF inv r fit(1)] by blast
  let ?t1 = "t\<lparr>lt_memory := ml\<rparr>"
  have "mset (tree_rows R ?t1) = mset (r # tree_rows R t)" using ml(3) by simp
  then have "capacity L (lt_config t) (tree_rows R ?t1)" using fit(2) capacity_mset by blast
  then have good1: "tree_good L R ?t1" using ml(2) lv by (simp add: tree_good_def levels_below_def)
  have w: "tree_work L ?t1 \<le> tree_work L t + (L + 2)"
    using mult_le_mono2 [OF ml(4), of "L + 2"] by (simp add: tree_work_def)
  show ?thesis
  proof (cases "cfg_is_compaction_background (lt_config t)")
    case True
    then show ?thesis using ml(1,3) good1 good(2) w by (intro exI [of _ ?t1] exI [of _ R]) (simp add: lt_insert_def)
  next
    case False
    have "unat (lt_next_id ?t1) + tree_work L ?t1 < 2 ^ 64" using ids w by simp
    from drain_work_good [OF good1 _ this] good(2) obtain t' R' where d:
      "drain_work ?t1 = Some (Inr t')" "tree_good L R' t'" "same_tree R ?t1 R' t'" "has_pending_work t' = Inr False"
      "unat (lt_next_id t') + tree_work L t' \<le> unat (lt_next_id ?t1) + tree_work L ?t1" by auto
    then show ?thesis using False ml(1,3) good(2) w
      by (intro exI [of _ t'] exI [of _ R']) (simp add: lt_insert_def same_tree_def)
  qed
qed

lemma capacity_part:
  assumes "capacity L config (xs @ ys)"
  shows "capacity L config ys"
  using assms by (auto simp: capacity_def table_bytes_def)

lemma rows_fit_valid: "rows_fit s rows \<Longrightarrow> r \<in> set rows \<Longrightarrow> valid_row s r"
  by (simp add: rows_fit_def storable_def)

lemma insert_all_good:
  assumes "tree_good L R t" "\<not> lt_stop t" "rows_fit (lt_schema t) (rows @ tree_rows R t)"
    and "capacity L (lt_config t) (rows @ tree_rows R t)"
    and "unat (lt_next_id t) + tree_work L t + (L + 2) * length rows < 2 ^ 64"
  shows "\<exists>t' R'. insert_all rows t = Some (Inr t') \<and> tree_good L R' t' \<and> \<not> lt_stop t' \<and>
    lt_schema t' = lt_schema t \<and> lt_config t' = lt_config t \<and> mset (tree_rows R' t') = mset rows + mset (tree_rows R t) \<and>
    unat (lt_next_id t') + tree_work L t' \<le> unat (lt_next_id t) + tree_work L t + (L + 2) * length rows"
  using assms
proof (induction rows arbitrary: t R)
  case (Cons r rows)
  have m: "mset ((r # rows) @ tree_rows R t) = mset (rows @ r # tree_rows R t)" by simp
  have fit: "rows_fit (lt_schema t) (rows @ r # tree_rows R t)" "capacity L (lt_config t) (rows @ r # tree_rows R t)"
    using Cons.prems(3,4) rows_fit_mset [OF m] capacity_mset [OF m] by blast+
  have one: "rows_fit (lt_schema t) (r # tree_rows R t)" "capacity L (lt_config t) (r # tree_rows R t)"
    using rows_fit_part [of _ rows "r # tree_rows R t" "[]"] capacity_part [OF fit(2)] fit(1) by simp_all
  have "valid_row (lt_schema t) r" using rows_fit_valid [OF one(1)] by simp
  from insert_good [OF Cons.prems(1,2) this one] Cons.prems(5) obtain t1 R1 where t1:
    "lt_insert r t = Some (Inr t1)" "tree_good L R1 t1" "\<not> lt_stop t1" "lt_schema t1 = lt_schema t" "lt_config t1 = lt_config t"
    "mset (tree_rows R1 t1) = add_mset r (mset (tree_rows R t))"
    "unat (lt_next_id t1) + tree_work L t1 \<le> unat (lt_next_id t) + tree_work L t + (L + 2)" by auto
  have m1: "mset (rows @ tree_rows R1 t1) = mset (rows @ r # tree_rows R t)" using t1(6) by simp
  have "rows_fit (lt_schema t1) (rows @ tree_rows R1 t1)" "capacity L (lt_config t1) (rows @ tree_rows R1 t1)"
    using fit rows_fit_mset [OF m1] capacity_mset [OF m1] t1(4,5) by simp_all
  from Cons.IH [OF t1(2,3) this] t1(7) Cons.prems(5) obtain t' R' where
    "insert_all rows t1 = Some (Inr t')" "tree_good L R' t'" "\<not> lt_stop t'" "lt_schema t' = lt_schema t1" "lt_config t' = lt_config t1"
    "mset (tree_rows R' t') = mset rows + mset (tree_rows R1 t1)"
    "unat (lt_next_id t') + tree_work L t' \<le> unat (lt_next_id t1) + tree_work L t1 + (L + 2) * length rows" by auto
  then show ?case using t1 by (intro exI [of _ t'] exI [of _ R']) simp
qed auto

section \<open>A new tree\<close>

text \<open>What the constructor checks.\<close>

definition config_accepted :: "storage_config \<Rightarrow> bool" where
  "config_accepted config \<longleftrightarrow> config_ok config \<and>
     (cfg_sparse_index_target_bytes config \<noteq> 0 \<or> cfg_sparse_index_step config \<noteq> 0)"

lemma new_tree:
  assumes "config_accepted config" "schema_wf s" "schema_size s < 2 ^ 16"
  obtains t where "LSMTree s config d None = Inr t" "tree_inv R t" "tree_rows R t = []" "levels_below L t"
    "unat (lt_next_id t) + tree_work L t = 0" "\<not> lt_stop t" "lt_schema t = s" "lt_config t = config"
proof -
  let ?t = "\<lparr>lt_schema = s, lt_config = config, lt_memory = MemoryLayer (cfg_memtable_threshold config),
      lt_registry = [], lt_next_id = 0, lt_caches = (\<lambda>_. None), lt_stop = False, lt_disk = d, lt_manifest = None\<rparr>"
  have new: "LSMTree s config d None = Inr ?t"
    using assms(1) by (simp add: LSMTree_def config_accepted_def config_ok_def manifest_load_def not_less)
  have tables: "tree_tables ?t = []" and rows: "tree_rows R ?t = []"
    by (simp_all add: tree_tables_def tree_rows_def ml_tables_def MemoryLayer_def)
  have "tree_inv R ?t" using assms ml_inv_start [of s "cfg_memtable_threshold config"]
    by (simp add: tree_inv_def tree_ok_def tables_rep_def caches_rep_def tables rows config_accepted_def rows_fit_def storable_def
        table_bytes_def)
  moreover have "unat (lt_next_id ?t) + tree_work L ?t = 0" by (simp add: tree_work_def tables) (simp add: MemoryLayer_def)
  ultimately show thesis using that [OF new] rows by (simp add: levels_below_def tables)
qed

section \<open>What a scan returns\<close>

lemma scan_exact:
  assumes inv: "tree_inv R t" and p: "projection_ok (lt_schema t) projection" "range_ok rng"
    and rows: "mset (tree_rows R t) = mset rows"
  shows "\<exists>res t'. scan_tree rng projection order [] t = (Some (Inr (map (row_cells projection) res)), t') \<and>
    mset res = mset (in_rng rng rows) \<and> (order = KeyAscending \<longrightarrow> res = sort_key rkey (in_rng rng rows)) \<and>
    tree_inv R t' \<and> caches_of_tables t t'"
proof -
  obtain t' res where s: "scan_tree rng projection order [] t = (Some (Inr (map (row_cells projection) res)), t')"
      "tree_inv R t'" "caches_of_tables t t'" "scan_spec rng [] (tree_rows R t) res" "order = KeyAscending \<longrightarrow> sorted (rkeys res)"
    using lt_scan_ok [OF inv p, of order "[]"] by blast
  have fit: "rows_fit (lt_schema t) rows" using inv rows_fit_mset [OF rows] by (simp add: tree_inv_def)
  then have d: "distinct (rkeys rows)" by (simp add: rows_fit_def)
  have "distinct rows" by (rule distinct_map [THEN iffD1, THEN conjunct1, OF d])
  moreover have "scan_spec rng [] rows res" using scan_spec_mset [OF s(4), of rows res] rows by simp
  ultimately have m: "mset res = mset (in_rng rng rows)" using scan_spec_all by blast
  have "res = sort_key rkey (in_rng rng rows)" if "order = KeyAscending"
  proof -
    have "inj_on rkey (set rows)" using d by (simp add: distinct_map)
    then have "inj_on rkey (set (in_rng rng rows))" by (rule inj_on_subset) (auto simp: in_rng_def)
    then show ?thesis using sort_key_inj_key_eq [of "in_rng rng rows" res rkey] m s(5) that by simp
  qed
  then show ?thesis using s(1-3) m by blast
qed

section \<open>Properties\<close>

text \<open>C2: The tree is an ordered store. Start it on an empty directory and insert valid rows with
  different keys, in the synchronous or the background mode: every insert succeeds, with all flushes
  and compactions it causes, and a scan in key order of any range then returns exactly the projected
  cells of the rows in the range, sorted by key.\<close>

theorem tree_is_ordered_store:
  assumes "config_accepted config" "schema_wf s" "schema_size s < 2 ^ 16" "rows_fit s rows" "capacity L config rows"
    and "(L + 2) * length rows < 2 ^ 64" "projection_ok s projection" "range_ok rng"
  shows "\<exists>t0 t. LSMTree s config d None = Inr t0 \<and> insert_all rows t0 = Some (Inr t) \<and>
    fst (scan_tree rng projection KeyAscending [] t) =
      Some (Inr (map (row_cells projection) (sort_key rkey (in_rng rng rows))))"
proof -
  obtain t0 where t0: "LSMTree s config d None = Inr t0" "tree_inv (\<lambda>_. []) t0" "tree_rows (\<lambda>_. []) t0 = []" "levels_below L t0"
      "unat (lt_next_id t0) + tree_work L t0 = 0" "\<not> lt_stop t0" "lt_schema t0 = s" "lt_config t0 = config"
    by (rule new_tree [OF assms(1-3)])
  have "capacity L (lt_config t0) (tree_rows (\<lambda>_. []) t0)" using assms(5) capacity_part [of L config rows "[]"] t0(3,8) by simp
  then have "tree_good L (\<lambda>_. []) t0" using t0(2,4) by (simp add: tree_good_def)
  from insert_all_good [OF this t0(6), of rows] assms(4-6) t0(3,5,7,8) obtain t R where
    t: "insert_all rows t0 = Some (Inr t)" "tree_good L R t" "lt_schema t = s" "mset (tree_rows R t) = mset rows" by auto
  then have "tree_inv R t" by (simp add: tree_good_def)
  from scan_exact [OF this _ assms(8) t(4), of projection KeyAscending] assms(7) t0(1) t(1,3) show ?thesis by fastforce
qed

lemma sample_tree_rows_fit: "rows_fit sample_schema [sample_row (I64 5), sample_row (I64 1), sample_row (I64 3)]"
  by (simp add: rows_fit_def storable_def)
    (simp add: cells_fit_def sample_row_def table_bytes_def row_bytes_def)

lemma sample_capacity: "capacity 2 sample_config [sample_row (I64 5), sample_row (I64 1), sample_row (I64 3)]"
proof -
  have "((\<lambda>threshold. threshold * 10) ^^ Suc (Suc 0)) (100 :: 64 word) = 10000" by simp
  then have "level_threshold sample_config (word_of_nat 2) = 10000"
    by (simp add: level_threshold_def sample_config_def StorageConfig_def numeral_2_eq_2 [symmetric])
  then show ?thesis
    by (simp add: capacity_def) (simp add: sample_config_def StorageConfig_def sample_row_def table_bytes_def row_bytes_def)
qed

lemma sample_config_accepted: "config_accepted sample_config"
  by (simp add: config_accepted_def) (simp add: sample_config_def StorageConfig_def)

lemma tree_is_ordered_store_witness:
  "\<exists>t0 t. LSMTree sample_schema sample_config (\<lambda>_. None) None = Inr t0 \<and>
     insert_all [sample_row (I64 5), sample_row (I64 1), sample_row (I64 3)] t0 = Some (Inr t) \<and>
     fst (scan_tree \<lparr>kr_from = Some (I64 2), kr_to = None\<rparr> [0] KeyAscending [] t) =
       Some (Inr [(I64 3, [Some (VInt (I64 3))]), (I64 5, [Some (VInt (I64 5))])])"
proof -
  let ?rows = "[sample_row (I64 5), sample_row (I64 1), sample_row (I64 3)]" and ?rng = "\<lparr>kr_from = Some (I64 2), kr_to = None\<rparr>"
  have p: "projection_ok sample_schema [0]" "range_ok ?rng"
    using schema_wf_size [OF sample_schema_wf] by (simp_all add: projection_ok_def range_ok_def)
  have "(2 + 2) * length ?rows < 2 ^ 64" by simp
  from tree_is_ordered_store [OF sample_config_accepted sample_schema_wf sample_schema_small sample_tree_rows_fit
        sample_capacity this p, of "\<lambda>_. None"]
  have "\<exists>t0 t. LSMTree sample_schema sample_config (\<lambda>_. None) None = Inr t0 \<and> insert_all ?rows t0 = Some (Inr t) \<and>
    fst (scan_tree ?rng [0] KeyAscending [] t) = Some (Inr (map (row_cells [0]) (sort_key rkey (in_rng ?rng ?rows))))" .
  moreover have "map (row_cells [0]) (sort_key rkey (in_rng ?rng ?rows)) = [(I64 3, [Some (VInt (I64 3))]), (I64 5, [Some (VInt (I64 5))])]"
    by (simp add: in_rng_def contains_def less_i64_def less_eq_i64_def i64_val_def row_cells_def sample_row_def)
  ultimately show ?thesis by (simp only:)
qed

text \<open>A tree with three rows, in any mode.\<close>

lemma sample_tree:
  assumes "config_accepted config" "capacity 2 config [sample_row (I64 5), sample_row (I64 1), sample_row (I64 3)]"
  obtains R t where "tree_good 2 R t" "\<not> lt_stop t" "lt_schema t = sample_schema"
    "mset (tree_rows R t) = {#sample_row (I64 5), sample_row (I64 1), sample_row (I64 3)#}"
    "unat (lt_next_id t) + tree_work 2 t \<le> 12"
proof -
  let ?rows = "[sample_row (I64 5), sample_row (I64 1), sample_row (I64 3)]"
  obtain t0 where t0: "LSMTree sample_schema config (\<lambda>_. None) None = Inr t0" "tree_inv (\<lambda>_. []) t0" "tree_rows (\<lambda>_. []) t0 = []"
      "levels_below 2 t0" "unat (lt_next_id t0) + tree_work 2 t0 = 0" "\<not> lt_stop t0" "lt_schema t0 = sample_schema" "lt_config t0 = config"
    by (rule new_tree [OF assms(1) sample_schema_wf sample_schema_small])
  have "capacity 2 config []" using assms(2) capacity_part [of 2 config ?rows "[]"] by (simp del: append_Cons)
  then have "tree_good 2 (\<lambda>_. []) t0" using t0 by (simp add: tree_good_def)
  from insert_all_good [OF this t0(6), of ?rows] sample_tree_rows_fit assms(2) t0(3,5,7,8) show thesis
    by (auto intro: that)
qed





end
