(* ===== verification/Lsm_Engine.thy ===== *)
theory Lsm_Engine
  imports Tree_Spec
begin

text \<open>
  \<open>LSMStorageEngine\<close> (\<open>src/storage/lsm/lsm_storage_engine.cpp\<close>): a map from table names to LSM trees,
  each in a directory of its own below the root path. It keeps the contract of a storage engine as long
  as the tables stay within the sizes the trees are built for.
\<close>

section \<open>The checks of the arguments\<close>

text \<open>The loop over the projection; the state is \<open>used\<close>.\<close>

definition validate_projection_step :: "schema \<Rightarrow> nat \<Rightarrow> bool list \<Rightarrow> bool list res" where
  "validate_projection_step s i used =
     (if i \<ge> schema_size s then Inl (RuntimeError ''Projection column index out of schema range'')
      else if used ! i then Inl (RuntimeError ''Projection contains duplicate column index'')
      else Inr (used[i := True]))"

definition validate_projection :: "schema \<Rightarrow> nat list \<Rightarrow> unit res" where
  "validate_projection s projection =
     rbind (rfold (validate_projection_step s) projection (replicate (schema_size s) False)) (\<lambda>_. Inr ())"

definition validate_row :: "schema \<Rightarrow> row \<Rightarrow> unit res" where
  "validate_row s r =
     (if length r \<noteq> schema_size s then Inl (RuntimeError ''Row size mismatch schema'')
      else if \<exists>i \<in> {..<length r}. \<not> is_valid_value s i (r ! i) then Inl (RuntimeError ''Invalid value for column'')
      else case r of
          [] \<Rightarrow> Inl (LogicError ''undefined behaviour: the key of an empty row'')
        | None # _ \<Rightarrow> Inl (RuntimeError ''Key cannot be NULL'')
        | Some _ # _ \<Rightarrow> Inr ())"

section \<open>The engine\<close>

text \<open>\<open>le_found\<close> is what the directories of the tables hold when a tree is opened on them.\<close>

record lsm_engine =
  le_config :: storage_config
  le_tables :: "string \<Rightarrow> lsm_tree option"
  le_found :: "string \<Rightarrow> disk \<times> byte list option"

definition LSMStorageEngine :: "storage_config \<Rightarrow> (string \<Rightarrow> disk \<times> byte list option) \<Rightarrow> lsm_engine" where
  "LSMStorageEngine config found = \<lparr>le_config = config, le_tables = (\<lambda>_. None), le_found = found\<rparr>"

text \<open>\<open>operator/\<close> of \<open>std::filesystem::path\<close> on POSIX.\<close>

definition path_join :: "string \<Rightarrow> string \<Rightarrow> string" where
  "path_join a b =
     (if b \<noteq> [] \<and> hd b = CHR ''/'' then b
      else if a = [] \<or> last a = CHR ''/'' then a @ b
      else a @ ''/'' @ b)"

definition lsm_table_path :: "lsm_engine \<Rightarrow> string \<Rightarrow> string" where
  "lsm_table_path st name = path_join (cfg_root_path (le_config st)) name"

definition lsm_get_tree :: "string \<Rightarrow> lsm_engine \<Rightarrow> lsm_tree res" where
  "lsm_get_tree name st =
     (case le_tables st name of None \<Rightarrow> Inl (RuntimeError ''Table does not exist'') | Some t \<Rightarrow> Inr t)"

definition lsm_put_tree :: "string \<Rightarrow> lsm_tree \<Rightarrow> lsm_engine \<Rightarrow> lsm_engine" where
  "lsm_put_tree name t st = st\<lparr>le_tables := (le_tables st)(name \<mapsto> t)\<rparr>"

definition lsm_create_table :: "string \<Rightarrow> schema \<Rightarrow> lsm_engine \<Rightarrow> lsm_engine res" where
  "lsm_create_table name s st =
     (if le_tables st name \<noteq> None then Inl (RuntimeError ''Table already exists'')
      else
        let path = lsm_table_path st name in
        rbind (LSMTree s ((le_config st)\<lparr>cfg_root_path := path\<rparr>) (fst (le_found st path)) (snd (le_found st path))) (\<lambda>t.
          Inr (lsm_put_tree name t st)))"

definition lsm_table_exists :: "string \<Rightarrow> lsm_engine \<Rightarrow> bool" where
  "lsm_table_exists name st \<longleftrightarrow> le_tables st name \<noteq> None"

definition lsm_get_table_schema :: "string \<Rightarrow> lsm_engine \<Rightarrow> schema res" where
  "lsm_get_table_schema name st = rbind (lsm_get_tree name st) (\<lambda>t. Inr (lt_schema t))"

definition lsm_insert :: "string \<Rightarrow> row \<Rightarrow> lsm_engine \<Rightarrow> lsm_engine res option" where
  "lsm_insert name r st =
     obind (Some (lsm_get_tree name st)) (\<lambda>t.
     obind (Some (validate_row (lt_schema t) r)) (\<lambda>_.
     obind (lt_insert r t) (\<lambda>t. Some (Inr (lsm_put_tree name t st)))))"

text \<open>The scan of a tree; the caches it fills stay in the tree.\<close>

definition lsm_tree_scan ::
    "string \<Rightarrow> key_range \<Rightarrow> nat list \<Rightarrow> scan_order \<Rightarrow> skip_filter \<Rightarrow> lsm_engine \<Rightarrow> scan_cursor res \<times> lsm_engine" where
  "lsm_tree_scan name rng projection order f st =
     sbind (rbind (lsm_get_tree name st) (\<lambda>t. rbind (validate_projection (lt_schema t) projection) (\<lambda>_. Inr t)), st) (\<lambda>t st.
       (case lt_scan rng projection order f t of (c, t) \<Rightarrow> (c, lsm_put_tree name t st)))"

definition lsm_get :: "string \<Rightarrow> key \<Rightarrow> nat list \<Rightarrow> lsm_engine \<Rightarrow> scan_cursor res \<times> lsm_engine" where
  "lsm_get name k projection st =
     lsm_tree_scan name \<lparr>kr_from = Some k, kr_to = (if k \<noteq> i64_max then Some (i64_succ k) else None)\<rparr> projection Unordered [] st"

definition lsm_scan ::
    "string \<Rightarrow> key option \<Rightarrow> key option \<Rightarrow> nat list \<Rightarrow> scan_order \<Rightarrow> skip_filter \<Rightarrow> lsm_engine \<Rightarrow> scan_cursor res \<times> lsm_engine" where
  "lsm_scan name lo hi projection order f st =
     lsm_tree_scan name \<lparr>kr_from = lo, kr_to = hi\<rparr> projection order f st"

definition lsm_ops :: "(lsm_engine, scan_cursor) storage_engine" where
  "lsm_ops = \<lparr>
     eng_create_table = lsm_create_table, eng_table_exists = lsm_table_exists,
     eng_get_table_schema = lsm_get_table_schema, eng_insert = lsm_insert,
     eng_get = lsm_get, eng_scan = lsm_scan, eng_cursor = scan_cursor_ops\<rparr>"

section \<open>The checks accept what the contract gives\<close>

lemma validate_projection_ok:
  assumes "projection_ok s projection"
  shows "validate_projection s projection = Inr ()"
proof -
  have "\<exists>used'. rfold (validate_projection_step s) p used = Inr used'"
    if "distinct p" "set p \<subseteq> {..<schema_size s}" "length used = schema_size s" "\<forall>i \<in> set p. \<not> used ! i" for p used
    using that
  proof (induction p arbitrary: used)
    case (Cons i p)
    have i: "i < schema_size s" "\<not> used ! i" using Cons.prems by auto
    have "\<exists>used'. rfold (validate_projection_step s) p (used[i := True]) = Inr used'"
      using Cons.prems by (intro Cons.IH) (auto simp: nth_list_update)
    then show ?case using i by (simp add: validate_projection_step_def [of s i])
  qed simp
  from this [of projection "replicate (schema_size s) False"] assms show ?thesis
    by (auto simp: projection_ok_def validate_projection_def subset_eq)
qed

lemma validate_row_ok:
  assumes "schema_wf s" "valid_row s r"
  shows "validate_row s r = Inr ()"
proof -
  obtain k r' where r: "r = Some (VInt k) # r'" using valid_row_key [OF assms] by blast
  then show ?thesis using assms(2) unfolding r by (simp add: validate_row_def valid_row_def del: length_Cons)
qed

section \<open>The engine contract\<close>

definition tree_holds :: "storage_config \<Rightarrow> nat \<Rightarrow> lsm_tree \<Rightarrow> row multiset \<Rightarrow> bool" where
  "tree_holds config L t M \<longleftrightarrow>
     (\<exists>R. tree_good L R t \<and> mset (tree_rows R t) = M) \<and> \<not> lt_stop t \<and>
     (\<exists>path. lt_config t = config\<lparr>cfg_root_path := path\<rparr>) \<and>
     unat (lt_next_id t) + tree_work L t \<le> (L + 2) * size M"

definition lsm_holds :: "storage_config \<Rightarrow> nat \<Rightarrow> lsm_engine \<Rightarrow> content \<Rightarrow> bool" where
  "lsm_holds config L st T \<longleftrightarrow>
     config_accepted config \<and> capacity L config [] \<and> le_config st = config \<and>
     (\<forall>name. le_tables st name = None \<longrightarrow> T name = None \<and> snd (le_found st (lsm_table_path st name)) = None) \<and>
     (\<forall>name t. le_tables st name = Some t \<longrightarrow> (\<exists>M. T name = Some (lt_schema t, M) \<and> tree_holds config L t M))"

text \<open>What a table may grow to: the sizes of the formats, and enough table numbers.\<close>

definition lsm_fits :: "storage_config \<Rightarrow> nat \<Rightarrow> schema \<Rightarrow> row multiset \<Rightarrow> bool" where
  "lsm_fits config L s M \<longleftrightarrow>
     (\<exists>rows. mset rows = M \<and> rows_fit s rows \<and> capacity L config rows) \<and> (L + 2) * size M < 2 ^ 64"

definition lsm_creatable :: "schema \<Rightarrow> bool" where
  "lsm_creatable s \<longleftrightarrow> schema_size s < 2 ^ 16"

lemma root_path_irrelevant:
  "capacity L (config\<lparr>cfg_root_path := path\<rparr>) rows = capacity L config rows"
  "config_accepted (config\<lparr>cfg_root_path := path\<rparr>) = config_accepted config"
  by (simp_all add: capacity_def level_threshold_def config_accepted_def config_ok_def)

lemma lsm_holds_table:
  assumes "lsm_holds config L st T" "T name = Some (s, M)"
  obtains t where "le_tables st name = Some t" "lt_schema t = s" "tree_holds config L t M"
  using assms by (cases "le_tables st name") (fastforce simp: lsm_holds_def)+

lemma lsm_holds_name: "lsm_holds config L st T \<Longrightarrow> T name = None \<longleftrightarrow> le_tables st name = None"
  by (cases "le_tables st name") (fastforce simp: lsm_holds_def)+

lemma lsm_holds_put:
  assumes "lsm_holds config L st T" "tree_holds config L t M" "lt_schema t = s"
  shows "lsm_holds config L (lsm_put_tree name t st) (T(name \<mapsto> (s, M)))"
  using assms by (auto simp: lsm_holds_def lsm_put_tree_def lsm_table_path_def)

lemma tree_holds_rows:
  assumes "tree_holds config L t M"
  obtains rows where "mset rows = M" "rows_fit (lt_schema t) rows" "schema_wf (lt_schema t)"
  using assms by (auto simp: tree_holds_def tree_good_def tree_inv_def tree_ok_def)

lemma tree_holds_scan:
  assumes t: "tree_holds config L t (mset rows)" and p: "projection_ok (lt_schema t) projection" "range_ok rng"
  shows "\<exists>c t' res. lt_scan rng projection order f t = (Inr c, t') \<and> tree_holds config L t' (mset rows) \<and>
    lt_schema t' = lt_schema t \<and> delivers scan_cinv scan_crows scan_ccols (schema_size (lt_schema t)) projection c res \<and>
    scan_spec rng f rows res \<and> (order = KeyAscending \<longrightarrow> sorted (rkeys res))"
proof -
  obtain R where R: "tree_good L R t" "mset (tree_rows R t) = mset rows" using t by (auto simp: tree_holds_def)
  then have "tree_inv R t" by (simp add: tree_good_def)
  from lt_scan_delivers [OF this p, of order f] obtain c t' res where s:
    "lt_scan rng projection order f t = (Inr c, t')" "tree_inv R t'" "caches_of_tables t t'"
    "delivers scan_cinv scan_crows scan_ccols (schema_size (lt_schema t)) projection c res"
    "scan_spec rng f (tree_rows R t) res" "order = KeyAscending \<longrightarrow> sorted (rkeys res)" by blast
  obtain cs where cs: "t' = t\<lparr>lt_caches := cs\<rparr>" using s(3) by (auto simp: caches_of_tables_def)
  have "tree_holds config L t' (mset rows)"
    using t R s(2) unfolding cs tree_holds_def tree_good_def levels_below_def tree_work_def
    by (auto simp: caches_update)
  moreover have "scan_spec rng f rows res" by (rule scan_spec_mset [OF s(5) R(2) [symmetric] refl])
  ultimately show ?thesis using s(1,4,6) cs by auto
qed

lemma tree_holds_insert:
  assumes t: "tree_holds config L t M" and r: "valid_row (lt_schema t) r" and fit: "lsm_fits config L (lt_schema t) (add_mset r M)"
  shows "\<exists>t'. lt_insert r t = Some (Inr t') \<and> tree_holds config L t' (add_mset r M) \<and> lt_schema t' = lt_schema t"
proof -
  obtain R path where R: "tree_good L R t" "mset (tree_rows R t) = M" and path: "lt_config t = config\<lparr>cfg_root_path := path\<rparr>"
    using t by (auto simp: tree_holds_def)
  obtain rows where rows: "mset rows = add_mset r M" "rows_fit (lt_schema t) rows" "capacity L config rows"
      and size: "(L + 2) * size (add_mset r M) < 2 ^ 64"
    using fit by (auto simp: lsm_fits_def)
  have m: "mset (r # tree_rows R t) = mset rows" using R(2) rows(1) by simp
  have fits: "rows_fit (lt_schema t) (r # tree_rows R t)" "capacity L (lt_config t) (r # tree_rows R t)"
    unfolding path root_path_irrelevant using rows(2,3) rows_fit_mset [OF m] capacity_mset [OF m] by auto
  have work: "unat (lt_next_id t) + tree_work L t \<le> (L + 2) * size M" and stop: "\<not> lt_stop t"
    using t by (simp_all add: tree_holds_def)
  then have "unat (lt_next_id t) + tree_work L t + (L + 2) < 2 ^ 64" using size by simp
  from insert_good [OF R(1) stop r fits this] obtain t' R' where t':
    "lt_insert r t = Some (Inr t')" "tree_good L R' t'" "\<not> lt_stop t'" "lt_schema t' = lt_schema t" "lt_config t' = lt_config t"
    "mset (tree_rows R' t') = add_mset r (mset (tree_rows R t))"
    "unat (lt_next_id t') + tree_work L t' \<le> unat (lt_next_id t) + tree_work L t + (L + 2)" by blast
  then have "tree_holds config L t' (add_mset r M)" using R(2) path work unfolding tree_holds_def by fastforce
  then show ?thesis using t'(1,4) by blast
qed

lemma tree_holds_new:
  assumes "config_accepted config" "capacity L config []" "schema_wf s" "schema_size s < 2 ^ 16"
  shows "\<exists>t. LSMTree s (config\<lparr>cfg_root_path := path\<rparr>) d None = Inr t \<and> tree_holds config L t {#} \<and> lt_schema t = s"
proof -
  have "config_accepted (config\<lparr>cfg_root_path := path\<rparr>)" using assms(1) by (simp only: root_path_irrelevant)
  then obtain t where t: "LSMTree s (config\<lparr>cfg_root_path := path\<rparr>) d None = Inr t" "tree_inv (\<lambda>_. []) t" "tree_rows (\<lambda>_. []) t = []"
      "levels_below L t" "unat (lt_next_id t) + tree_work L t = 0" "\<not> lt_stop t" "lt_schema t = s"
      "lt_config t = config\<lparr>cfg_root_path := path\<rparr>"
    by (rule new_tree [OF _ assms(3,4)])
  then have "tree_good L (\<lambda>_. []) t" using assms(2) by (simp add: tree_good_def root_path_irrelevant)
  then have "tree_holds config L t {#}" using t unfolding tree_holds_def by auto
  then show ?thesis using t by blast
qed

lemma lsm_tree_scan_ok:
  assumes st: "lsm_holds config L st T" "T name = Some (s, mset rows)" and p: "projection_ok s projection" "range_ok rng"
  shows "\<exists>c st' res. lsm_tree_scan name rng projection order f st = (Inr c, st') \<and> lsm_holds config L st' T \<and>
    delivers scan_cinv scan_crows scan_ccols (schema_size s) projection c res \<and> scan_spec rng f rows res \<and>
    (order = KeyAscending \<longrightarrow> sorted (rkeys res))"
proof -
  obtain t where t: "le_tables st name = Some t" "lt_schema t = s" "tree_holds config L t (mset rows)"
    by (rule lsm_holds_table [OF st])
  from tree_holds_scan [OF t(3), unfolded t(2), OF p, of order f] obtain c t' res where c:
    "lt_scan rng projection order f t = (Inr c, t')" "tree_holds config L t' (mset rows)" "lt_schema t' = s"
    "delivers scan_cinv scan_crows scan_ccols (schema_size s) projection c res" "scan_spec rng f rows res"
    "order = KeyAscending \<longrightarrow> sorted (rkeys res)" by blast
  have "T(name \<mapsto> (s, mset rows)) = T" using st(2) by (simp add: fun_upd_idem)
  with lsm_holds_put [OF st(1) c(2,3), of name] have "lsm_holds config L (lsm_put_tree name t' st) T" by simp
  moreover have "lsm_tree_scan name rng projection order f st = (Inr c, lsm_put_tree name t' st)"
    using t c(1) validate_projection_ok [OF p(1)] by (simp add: lsm_tree_scan_def lsm_get_tree_def)
  ultimately show ?thesis using c(4-6) by blast
qed

interpretation lsm_engine: engine_contract lsm_ops "lsm_holds config L" scan_cinv scan_crows scan_ccols
    lsm_creatable "lsm_fits config L" "\<lambda>k. True" for config L
proof (rule engine_contract.intro)
  fix n :: nat
  show "icursor (eng_cursor lsm_ops) (scan_cinv n) scan_crows (scan_ccols n)"
    using scan_cur.icursor_axioms by (simp add: lsm_ops_def)
next
  fix st T name s M assume st: "lsm_holds config L st T" "T name = Some (s, M)"
  obtain t where t: "lt_schema t = s" "tree_holds config L t M" by (rule lsm_holds_table [OF st])
  obtain rows where rows: "mset rows = M" "rows_fit s rows" "schema_wf s" by (rule tree_holds_rows [OF t(2), unfolded t(1)])
  have "\<forall>r \<in># M. valid_row s r" using rows(2) rows_fit_valid unfolding rows(1) [symmetric] by auto
  moreover have "\<forall>k. count (image_mset rkey M) k \<le> 1"
    using distinct_count_atmost_1 [of "rkeys rows"] rows(1,2) by (auto simp: rows_fit_def split: if_splits)
  ultimately show "schema_wf s \<and> (\<forall>r \<in># M. valid_row s r) \<and> (\<forall>k. count (image_mset rkey M) k \<le> 1)" using rows(3) by blast
next
  fix st T name assume "lsm_holds config L st T"
  then show "eng_table_exists lsm_ops name st \<longleftrightarrow> T name \<noteq> None"
    using lsm_holds_name by (simp add: lsm_ops_def lsm_table_exists_def)
next
  fix st T name s M assume st: "lsm_holds config L st T" "T name = Some (s, M)"
  obtain t where "le_tables st name = Some t" "lt_schema t = s" by (rule lsm_holds_table [OF st])
  then show "eng_get_table_schema lsm_ops name st = Inr s"
    by (simp add: lsm_ops_def lsm_get_table_schema_def lsm_get_tree_def)
next
  fix st T name s assume st: "lsm_holds config L st T" "T name = None" and s: "schema_wf s" "lsm_creatable s"
  have none: "le_tables st name = None" using lsm_holds_name [OF st(1)] st(2) by blast
  then have new: "le_tables st name = None" "snd (le_found st (lsm_table_path st name)) = None" "le_config st = config"
      "config_accepted config" "capacity L config []"
    using st(1) by (auto simp: lsm_holds_def)
  obtain t where t: "LSMTree s (config\<lparr>cfg_root_path := lsm_table_path st name\<rparr>) (fst (le_found st (lsm_table_path st name))) None = Inr t"
      "tree_holds config L t {#}" "lt_schema t = s"
    using tree_holds_new [OF new(4,5) s(1)] s(2) by (auto simp: lsm_creatable_def)
  then show "\<exists>st'. eng_create_table lsm_ops name s st = Inr st' \<and> lsm_holds config L st' (T(name \<mapsto> (s, {#})))"
    using lsm_holds_put [OF st(1) t(2,3), of name] new(1-3)
    by (intro exI [of _ "lsm_put_tree name t st"]) (simp add: lsm_ops_def lsm_create_table_def Let_def)
next
  fix st T name s assume "lsm_holds config L st T" "T name \<noteq> None"
  then show "eng_create_table lsm_ops name s st = Inl (RuntimeError ''Table already exists'')"
    using lsm_holds_name by (simp add: lsm_ops_def lsm_create_table_def)
next
  fix st T name s M r
  assume st: "lsm_holds config L st T" "T name = Some (s, M)" and r: "valid_row s r" and fit: "lsm_fits config L s (add_mset r M)"
  obtain t where t: "le_tables st name = Some t" "lt_schema t = s" "tree_holds config L t M" by (rule lsm_holds_table [OF st])
  obtain t' where t': "lt_insert r t = Some (Inr t')" "tree_holds config L t' (add_mset r M)" "lt_schema t' = s"
    using tree_holds_insert [OF t(3), of r] t(2) r fit by auto
  have "schema_wf s" by (rule tree_holds_rows [OF t(3), unfolded t(2)])
  from validate_row_ok [OF this r] show "\<exists>st'. eng_insert lsm_ops name r st = Some (Inr st') \<and>
      lsm_holds config L st' (T(name \<mapsto> (s, add_mset r M)))"
    using lsm_holds_put [OF st(1) t'(2,3), of name] t t'(1)
    by (intro exI [of _ "lsm_put_tree name t' st"]) (simp add: lsm_ops_def lsm_insert_def lsm_get_tree_def)
next
  fix st T name s M projection k
  assume st: "lsm_holds config L st T" "T name = Some (s, M)" and p: "projection_ok s projection"
  obtain rows where rows: "mset rows = M" using ex_mset by blast
  let ?rng = "\<lparr>kr_from = Some k, kr_to = (if k \<noteq> i64_max then Some (i64_succ k) else None)\<rparr>"
  have only: "contains ?rng x \<longleftrightarrow> x = k" for x
  proof (cases "k = i64_max")
    case False
    then show ?thesis using i64_less_succ_iff [OF False, of x] by (auto simp: contains_iff)
  qed (auto simp: contains_iff antisym)
  have "k \<le> i64_succ k" if "k \<noteq> i64_max" using i64_less_succ_iff [OF that, of k] by simp
  then have "range_ok ?rng" by (simp add: range_ok_def)
  from lsm_tree_scan_ok [OF st(1) _ p this, of name rows Unordered "[]"] st(2) rows obtain c st' res where c:
    "lsm_get name k projection st = (Inr c, st')" "lsm_holds config L st' T"
    "delivers scan_cinv scan_crows scan_ccols (schema_size s) projection c res" "scan_spec ?rng [] rows res"
    by (auto simp: lsm_get_def)
  obtain rows' where rows': "mset rows' = M" "distinct rows'"
  proof -
    obtain t where t: "lt_schema t = s" "tree_holds config L t M" by (rule lsm_holds_table [OF st])
    obtain rows' where r: "mset rows' = M" "rows_fit s rows'" by (rule tree_holds_rows [OF t(2), unfolded t(1)])
    then have "distinct (rkeys rows')" by (simp add: rows_fit_def)
    then show thesis using that r(1) distinct_map by blast
  qed
  then have "scan_spec ?rng [] rows' res" using scan_spec_mset [OF c(4), of rows' res] rows by simp
  from scan_spec_all [OF this rows'(2)] have "mset res = {#r \<in># M. rkey r = k#}"
    by (simp add: in_rng_def only rows'(1) [symmetric])
  with c show "\<exists>c st' res. eng_get lsm_ops name k projection st = (Inr c, st') \<and> lsm_holds config L st' T \<and>
      delivers scan_cinv scan_crows scan_ccols (schema_size s) projection c res \<and> mset res = {#r \<in># M. rkey r = k#}"
    by (auto simp: lsm_ops_def)
next
  fix st T name s rows projection order f and lo hi :: "key option"
  assume "lsm_holds config L st T" "T name = Some (s, mset rows)" "projection_ok s projection" "range_ok \<lparr>kr_from = lo, kr_to = hi\<rparr>"
  from lsm_tree_scan_ok [OF this, of order f] show "\<exists>c st' res. eng_scan lsm_ops name lo hi projection order f st = (Inr c, st') \<and>
      lsm_holds config L st' T \<and> delivers scan_cinv scan_crows scan_ccols (schema_size s) projection c res \<and>
      scan_spec \<lparr>kr_from = lo, kr_to = hi\<rparr> f rows res \<and> (order = KeyAscending \<longrightarrow> sorted (rkeys res))"
    by (simp add: lsm_ops_def lsm_scan_def)
qed

end
