(* ===== verification/Query_Scan.thy ===== *)
theory Query_Scan
  imports Executor Pushdown Mock_Engine Lsm_Engine
begin

text \<open>
  How a query meets its engine: a loop over a cursor of an engine is a loop over the rows the cursor
  delivers, evaluated as rows. That the executor asks the engine for all of these rows is shown in
  \<open>Pushdown\<close>.
\<close>

section \<open>Loops over a cursor are loops over rows\<close>

context icursor
begin

lemma loop_until_rows:
  assumes "inv c" and body: "\<And>c r rs s. inv c \<Longrightarrow> rows c = r # rs \<Longrightarrow> cols c = C \<Longrightarrow> body c s = f r s"
    and "cols c = C"
  shows "cursor_loop_until ops body c s = Some (rfold_until f (rows c) s)"
  using assms(1,3)
proof (induction "rows c" arbitrary: c s)
  case Nil
  then show ?case using valid_iff [of c] by (subst cursor_loop_until.simps) simp
next
  case (Cons r rs)
  obtain c' where c': "cur_next ops c = Inr c'" "inv c'" "rows c' = rs" "cols c' = cols c"
    using next_tl [OF Cons.prems(1)] Cons.hyps(2) by metis
  have v: "cur_valid ops c" using valid_iff [OF Cons.prems(1)] Cons.hyps(2) by (metis list.distinct(1))
  have b: "body c s = f r s" using body [OF Cons.prems(1)] Cons.hyps(2) Cons.prems(2) by metis
  show ?case
  proof (cases "f r s")
    case (Inl e)
    then show ?thesis using v b Cons.hyps(2) by (subst cursor_loop_until.simps) (simp flip: Cons.hyps(2))
  next
    case (Inr p)
    obtain s' stop where p: "p = (s', stop)" by (cases p)
    have "cursor_loop_until ops body c' s' = Some (rfold_until f (rows c') s')"
      using Cons.hyps(1) [of c' s'] c' Cons.prems(2) by simp
    then show ?thesis using v b Inr c' p by (subst cursor_loop_until.simps) (simp flip: Cons.hyps(2))
  qed
qed

end

text \<open>A step that reads its row through the columns in \<open>cols\<close> only.\<close>

definition reads_only :: "nat list \<Rightarrow> ((nat \<Rightarrow> nullable_value res) \<Rightarrow> 's \<Rightarrow> 't) \<Rightarrow> bool" where
  "reads_only projection step \<longleftrightarrow>
     (\<forall>rd rd' s. (\<forall>i \<in> set projection. rd i = rd' i) \<longrightarrow> step rd s = step rd' s)"

lemma rfold_same_view:
  assumes "map g xs = map g ys" "\<And>x y s. g x = g y \<Longrightarrow> f x s = f y s"
  shows "rfold f xs s = rfold f ys s"
proof -
  have "list_all2 (\<lambda>x y. g x = g y) xs ys" using assms(1) by (simp add: list_all2_conv_all_nth list_eq_iff_nth_eq)
  from this assms(2) show ?thesis
  proof (induction arbitrary: s rule: list_all2_induct)
    case (Cons x xs y ys)
    have "f x s = f y s" using Cons.hyps(1) Cons.prems by blast
    moreover have "rfold f xs = rfold f ys" using Cons.IH Cons.prems by blast
    ultimately show ?case by simp
  qed simp
qed

lemma rfold_until_same_view:
  assumes "map g xs = map g ys" "\<And>x y s. g x = g y \<Longrightarrow> f x s = f y s"
  shows "rfold_until f xs s = rfold_until f ys s"
proof -
  have "list_all2 (\<lambda>x y. g x = g y) xs ys" using assms(1) by (simp add: list_all2_conv_all_nth list_eq_iff_nth_eq)
  from this assms(2) show ?thesis
  proof (induction arbitrary: s rule: list_all2_induct)
    case (Cons x xs y ys)
    have "f x s = f y s" using Cons.hyps(1) Cons.prems by blast
    moreover have "rfold_until f xs = rfold_until f ys" using Cons.IH Cons.prems by blast
    ultimately show ?case by (simp cong: if_cong)
  qed simp
qed

lemma row_view: "row_cells projection r = row_cells projection r' \<Longrightarrow> i \<in> set projection \<Longrightarrow> row_value r i = row_value r' i"
  by (simp add: row_cells_def row_value_def)

text \<open>The key a query looks up, when it does.\<close>

definition looks_up :: "bound_select_statement \<Rightarrow> key \<Rightarrow> bool" where
  "looks_up stmt k \<longleftrightarrow>
     (case key_conjuncts (bs_schema stmt) (where_conjuncts stmt) no_bounds of
        Inl e \<Rightarrow> False
      | Inr kb \<Rightarrow> access_path_of kb = PointLookup k)"

sublocale engine_contract < cur: icursor "eng_cursor eng" "cinv n" crows "ccols n" for n
  by (rule cursors)

context engine_contract
begin

lemma loop_over_rows:
  assumes c: "delivers cinv crows ccols n projection c res" and step: "reads_only projection step"
  shows "cursor_loop (eng_cursor eng) (\<lambda>c. step (cur_value (eng_cursor eng) c)) c s = Some (rfold (\<lambda>r. step (row_value r)) res s)"
proof -
  have inv: "cinv n c" "set projection \<subseteq> ccols n c" and view: "map (row_cells projection) (crows c) = map (row_cells projection) res"
    using c by (simp_all add: delivers_def)
  have "cursor_loop (eng_cursor eng) (\<lambda>c. step (cur_value (eng_cursor eng) c)) c s = Some (rfold (\<lambda>r. step (row_value r)) (crows c) s)"
  proof (rule cur.loop_rows [OF inv(1), where C = "ccols n c" and R = UNIV])
    fix x r rs s assume x: "cinv n x" "crows x = r # rs" "ccols n x = ccols n c"
    have "cur_value (eng_cursor eng) x i = row_value r i" if "i \<in> set projection" for i
      using cur.value_hd [OF x(1,2)] x(3) inv(2) that by (auto simp: row_value_def)
    then show "step (cur_value (eng_cursor eng) x) s = step (row_value r) s" using step unfolding reads_only_def by blast
  qed simp_all
  also have "rfold (\<lambda>r. step (row_value r)) (crows c) s = rfold (\<lambda>r. step (row_value r)) res s"
    by (rule rfold_same_view [OF view]) (use step row_view in \<open>unfold reads_only_def, blast\<close>)
  finally show ?thesis .
qed

lemma loop_until_over_rows:
  assumes c: "delivers cinv crows ccols n projection c res" and step: "reads_only projection step"
  shows "cursor_loop_until (eng_cursor eng) (\<lambda>c. step (cur_value (eng_cursor eng) c)) c s =
    Some (rfold_until (\<lambda>r. step (row_value r)) res s)"
proof -
  have inv: "cinv n c" "set projection \<subseteq> ccols n c" and view: "map (row_cells projection) (crows c) = map (row_cells projection) res"
    using c by (simp_all add: delivers_def)
  have "cursor_loop_until (eng_cursor eng) (\<lambda>c. step (cur_value (eng_cursor eng) c)) c s =
      Some (rfold_until (\<lambda>r. step (row_value r)) (crows c) s)"
  proof (rule cur.loop_until_rows [OF inv(1), where C = "ccols n c"])
    fix x r rs s assume x: "cinv n x" "crows x = r # rs" "ccols n x = ccols n c"
    have "cur_value (eng_cursor eng) x i = row_value r i" if "i \<in> set projection" for i
      using cur.value_hd [OF x(1,2)] x(3) inv(2) that by (auto simp: row_value_def)
    then show "step (cur_value (eng_cursor eng) x) s = step (row_value r) s" using step unfolding reads_only_def by blast
  qed simp_all
  also have "rfold_until (\<lambda>r. step (row_value r)) (crows c) s = rfold_until (\<lambda>r. step (row_value r)) res s"
    by (rule rfold_until_same_view [OF view]) (use step row_view in \<open>unfold reads_only_def, blast\<close>)
  finally show ?thesis .
qed

lemma build_cursor_ok:
  assumes st: "holds st T" "T (bs_table_name stmt) = Some (bs_schema stmt, mset rows)" and ok: "statement_ok stmt"
    and p: "projection_ok (bs_schema stmt) projection" and nan: "\<forall>r \<in> set rows. row_nan_free r" and look: "\<And>k. looks_up stmt k \<Longrightarrow> lookup_ok k"
  shows "\<exists>oc st' res. build_cursor_for_select eng stmt projection asc st = (Inr oc, st') \<and> holds st' T \<and>
    mset (filter (row_selected stmt) res) = mset (filter (row_selected stmt) rows) \<and> set res \<subseteq> set rows \<and>
    (asc \<longrightarrow> sorted (rkeys res)) \<and>
    (case oc of None \<Rightarrow> res = [] | Some c \<Rightarrow> delivers cinv crows ccols (schema_size (bs_schema stmt)) projection c res)"
proof -
  let ?s = "bs_schema stmt" and ?sel = "row_selected stmt"
  have wf: "schema_wf ?s" and valid: "\<forall>r \<in> set rows. valid_row ?s r"
    using stored [OF st] by auto
  obtain kb where kb: "key_conjuncts ?s (where_conjuncts stmt) no_bounds = Inr kb"
      "\<And>r. valid_row ?s r \<Longrightarrow> ?sel r \<Longrightarrow> key_allowed kb (rkey r)"
    by (rule selected_path [OF wf ok]) blast
  have path: "case access_path_of kb of EmptyResult \<Rightarrow> False | PointLookup p \<Rightarrow> rkey r = p
      | RangeScan lo hi \<Rightarrow> contains \<lparr>kr_from = lo, kr_to = hi\<rparr> (rkey r)" if "r \<in> set rows" "?sel r" for r
    using access_path_allows [OF kb(2)] valid that by blast
  show ?thesis
  proof (cases "access_path_of kb")
    case EmptyResult
    then have "filter ?sel rows = []" using path by (auto simp: filter_empty_conv)
    then show ?thesis using kb(1) EmptyResult st(1) by (auto simp: build_cursor_for_select_def)
  next
    case (PointLookup k)
    have "looks_up stmt k" using kb(1) PointLookup by (simp add: looks_up_def)
    from get_row [OF st p look [OF this]] obtain c st' res where c: "eng_get eng (bs_table_name stmt) k projection st = (Inr c, st')"
        "holds st' T" "delivers cinv crows ccols (schema_size ?s) projection c res" "mset res = {#r \<in># mset rows. rkey r = k#}"
      by blast
    have sel: "{#r \<in># mset rows. rkey r = k \<and> ?sel r#} = {#r \<in># mset rows. ?sel r#}"
      by (intro filter_mset_cong refl) (use path PointLookup in auto)
    have "mset (filter ?sel res) = {#r \<in># {#r \<in># mset rows. rkey r = k#}. ?sel r#}" unfolding c(4) [symmetric] by simp
    also have "\<dots> = mset (filter ?sel rows)" using sel by (simp add: filter_filter_mset conj_commute)
    finally have "mset (filter ?sel res) = mset (filter ?sel rows)" .
    moreover have res: "set res = {r \<in> set rows. rkey r = k}" using arg_cong [OF c(4), of set_mset] by simp
    moreover have "replicate (length (rkeys res)) k = rkeys res" by (rule replicate_length_same) (simp add: res)
    then have "sorted (rkeys res)" by (metis sorted_replicate)
    ultimately show ?thesis using kb(1) PointLookup c(1-3) by (auto simp: build_cursor_for_select_def)
  next
    case (RangeScan lo hi)
    let ?rng = "\<lparr>kr_from = lo, kr_to = hi\<rparr>" and ?f = "build_data_skipping_filter stmt"
    from scan_rows [OF st p access_path_range [OF RangeScan], of "if asc then KeyAscending else Unordered" ?f]
    obtain c st' res where c: "eng_scan eng (bs_table_name stmt) lo hi projection (if asc then KeyAscending else Unordered) ?f st = (Inr c, st')"
        "holds st' T" "delivers cinv crows ccols (schema_size ?s) projection c res" "scan_spec ?rng ?f rows res"
        "(if asc then KeyAscending else Unordered) = KeyAscending \<longrightarrow> sorted (rkeys res)" by blast
    have sub: "mset res \<subseteq># mset (in_rng ?rng rows)" and all: "\<forall>r \<in> set (in_rng ?rng rows). row_wanted ?f r \<longrightarrow> r \<in> set res"
      using c(4) by (simp_all add: scan_spec_def)
    have "mset (in_rng ?rng rows) \<subseteq># mset rows" by (simp add: in_rng_def)
    then have sub2: "mset res \<subseteq># mset rows" using sub by (rule subset_mset.order_trans [rotated])
    have one: "count (mset rows) r \<le> 1" for r
    proof -
      have "image_mset rkey (replicate_mset (count (mset rows) r) r) \<subseteq># image_mset rkey (mset rows)"
        by (intro image_mset_subseteq_mono) (simp flip: count_le_replicate_mset_subset_eq)
      then have "count (mset rows) r \<le> count (image_mset rkey (mset rows)) (rkey r)"
        by (simp flip: count_le_replicate_mset_subset_eq)
      then show ?thesis using stored [OF st] by (meson order_trans)
    qed
    have "mset (filter ?sel res) = mset (filter ?sel rows)"
    proof (rule multiset_eqI)
      fix r
      have "r \<in> set res" if "r \<in> set rows" "?sel r"
        using all path [OF that] selected_wanted [OF ok that(2)] valid nan that(1) RangeScan by (auto simp: in_rng_def)
      then have "?sel r \<Longrightarrow> count (mset rows) r \<le> count (mset res) r"
        using one [of r] by (metis count_greater_eq_one_iff le_trans not_in_iff set_mset_mset zero_le)
      moreover have "count (mset res) r \<le> count (mset rows) r" using sub2 by (rule mset_subset_eq_count)
      ultimately show "count (mset (filter ?sel res)) r = count (mset (filter ?sel rows)) r" by auto
    qed
    moreover have "set res \<subseteq> set rows" using set_mset_mono [OF sub2] by simp
    ultimately show ?thesis using kb(1) RangeScan c by (auto simp: build_cursor_for_select_def)
  qed
qed

end

end
