(* ===== verification/Query_Order.thy ===== *)
theory Query_Order
  imports Executor Pushdown
begin

text \<open>
  The orders of the executor: on values of one type without NaN, \<open>CompareNullableResultValues\<close> is a
  total preorder with NULL last, so the comparison of the sort keys meets what \<open>std::sort\<close> asks for, and
  \<open>GroupKeyLess\<close> what \<open>std::map\<close> asks for. With a NaN neither holds.
\<close>

section \<open>Values of one type\<close>

fun nan_free_value :: "nullable_result \<Rightarrow> bool" where
  "nan_free_value (Some (R_Double d)) \<longleftrightarrow> \<not> d64_isnan d"
| "nan_free_value _ \<longleftrightarrow> True"

definition sortable :: "expression_type \<Rightarrow> nullable_result \<Rightarrow> bool" where
  "sortable ty v \<longleftrightarrow> has_result_type v ty \<and> nan_free_value v"

text \<open>
  The order of the values of a type: integers and doubles by the number they stand for, strings by their
  bytes, false before true, and NULL after every value.
\<close>

fun value_cmp :: "nullable_result \<Rightarrow> nullable_result \<Rightarrow> int" where
  "value_cmp None None = 0"
| "value_cmp None (Some _) = 1"
| "value_cmp (Some _) None = -1"
| "value_cmp (Some (R_Int a)) (Some (R_Int b)) = sgn (i64_val a - i64_val b)"
| "value_cmp (Some (R_Double a)) (Some (R_Double b)) = sgn (d64_ord a - d64_ord b)"
| "value_cmp (Some (R_String a)) (Some (R_String b)) = (if a < b then -1 else if b < a then 1 else 0)"
| "value_cmp (Some (R_Bool a)) (Some (R_Bool b)) = of_bool a - of_bool b"
| "value_cmp (Some _) (Some _) = 0"

lemma sortable_cases:
  assumes "sortable ty v"
  obtains (Null) "v = None" | (Int) n where "v = Some (R_Int n)" "ty = E_Int64"
    | (Double) d where "v = Some (R_Double d)" "ty = E_Double" "\<not> d64_isnan d"
    | (String) s where "v = Some (R_String s)" "ty = E_String" | (Bool) b where "v = Some (R_Bool b)" "ty = E_Boolean"
  using assms unfolding sortable_def by (cases v; cases "the v") auto

lemma value_cmp_Inr:
  assumes "sortable ty x" "sortable ty y"
  shows "compare_nullable_result_values x y = Inr (value_cmp x y)"
  using assms(1)
proof (cases rule: sortable_cases)
  case Null
  then show ?thesis by (cases y) simp_all
qed (use assms(2) in \<open>cases rule: sortable_cases; auto simp: compare_by_def less_i64_def d64_lt_def\<close>)+

lemma value_cmp_swap: "value_cmp y x = - value_cmp x y"
  by (cases "(x, y)" rule: value_cmp.cases) (auto simp: sgn_if)

lemma value_cmp_trans:
  assumes "sortable ty x" "sortable ty y" "sortable ty z" "value_cmp x y \<le> 0" "value_cmp y z \<le> 0"
  shows "value_cmp x z \<le> 0"
  using assms(1)
proof (cases rule: sortable_cases)
  case Null
  then have "y = None" using assms(4) by (cases y) simp_all
  then show ?thesis using assms(5) Null by simp
qed (use assms(2-5) in \<open>auto elim!: sortable_cases simp: sgn_if split: if_splits\<close>)+

section \<open>Lists of sort keys\<close>

fun keys_cmp :: "order_direction list \<Rightarrow> nullable_result list \<Rightarrow> nullable_result list \<Rightarrow> int" where
  "keys_cmp (d # ds) (x # xs) (y # ys) =
     (let c = value_cmp x y in if c = 0 then keys_cmp ds xs ys else case d of Asc \<Rightarrow> c | Desc \<Rightarrow> - c)"
| "keys_cmp _ _ _ = 0"

lemma sort_keys_less_cmp:
  assumes "list_all2 sortable tys xs" "list_all2 sortable tys ys"
  shows "sort_keys_less ds xs ys = Inr (keys_cmp ds xs ys < 0)"
  using assms
proof (induction ds xs ys arbitrary: tys rule: keys_cmp.induct)
  case (1 d ds x xs y ys)
  then obtain ty tys' where t: "sortable ty x" "sortable ty y" "list_all2 sortable tys' xs" "list_all2 sortable tys' ys"
    by (auto simp: list_all2_Cons2)
  show ?case using "1.IH" [OF refl _ t(3,4)] value_cmp_Inr [OF t(1,2)] by (cases d) (auto simp: Let_def)
qed auto

lemma keys_cmp_swap: "keys_cmp ds ys xs = - keys_cmp ds xs ys"
proof (induction ds xs ys rule: keys_cmp.induct)
  case (1 d ds x xs y ys)
  then show ?case using value_cmp_swap [of y x] by (cases d) (auto simp: Let_def)
qed auto

lemma keys_cmp_self: "keys_cmp ds xs xs = 0"
  using keys_cmp_swap [of ds xs xs] by linarith

lemma keys_cmp_trans:
  assumes "list_all2 sortable tys xs" "list_all2 sortable tys ys" "list_all2 sortable tys zs"
    and "keys_cmp ds xs ys \<le> 0" "keys_cmp ds ys zs \<le> 0"
  shows "keys_cmp ds xs zs \<le> 0"
  using assms
proof (induction tys arbitrary: xs ys zs ds)
  case (Cons ty tys)
  obtain x xs' y ys' z zs' where l: "xs = x # xs'" "ys = y # ys'" "zs = z # zs'" "sortable ty x" "sortable ty y" "sortable ty z"
      "list_all2 sortable tys xs'" "list_all2 sortable tys ys'" "list_all2 sortable tys zs'"
    using Cons.prems(1-3) by (auto simp: list_all2_Cons1)
  show ?case
  proof (cases ds)
    case Nil
    then show ?thesis by simp
  next
    case ds: (Cons d ds')
    let ?xy = "value_cmp x y" and ?yz = "value_cmp y z" and ?xz = "value_cmp x z"
    have swap: "value_cmp y x = - ?xy" "value_cmp z y = - ?yz" "value_cmp z x = - ?xz" by (rule value_cmp_swap)+
    note t = value_cmp_trans [where ty = ty]
    have up: "?xz \<le> 0" "?xz = 0 \<Longrightarrow> ?xy = 0 \<and> ?yz = 0" if "?xy \<le> 0" "?yz \<le> 0"
      using t [of x y z] t [of z x y] t [of y z x] l(4-6) that swap by auto
    have down: "0 \<le> ?xz" "?xz = 0 \<Longrightarrow> ?xy = 0 \<and> ?yz = 0" if "0 \<le> ?xy" "0 \<le> ?yz"
      using t [of z y x] t [of x z y] t [of y x z] l(4-6) that swap by auto
    show ?thesis
    proof (cases "?xy = 0 \<and> ?yz = 0")
      case True
      then have "?xz = 0" using up(1) down(1) by simp
      then show ?thesis using Cons.IH [OF l(7-9), of ds'] Cons.prems(4,5) True by (simp add: l(1-3) ds)
    next
      case False
      show ?thesis
      proof (cases d)
        case Asc
        then have "?xy \<le> 0" "?yz \<le> 0" using Cons.prems(4,5) by (auto simp: l(1-3) ds Let_def split: if_splits)
        then have "?xz < 0" using up False by fastforce
        then show ?thesis using Asc by (simp add: l(1-3) ds)
      next
        case Desc
        then have "0 \<le> ?xy" "0 \<le> ?yz" using Cons.prems(4,5) by (auto simp: l(1-3) ds Let_def split: if_splits)
        then have "0 < ?xz" using down False by fastforce
        then show ?thesis using Desc by (simp add: l(1-3) ds)
      qed
    qed
  qed
qed simp

section \<open>\<open>std::sort\<close>\<close>

text \<open>What the C++ standard asks of the comparison: a strict weak ordering of the elements.\<close>

definition strict_weak_order_on :: "'a set \<Rightarrow> ('a \<Rightarrow> 'a \<Rightarrow> bool) \<Rightarrow> bool" where
  "strict_weak_order_on A lt \<longleftrightarrow>
     (\<forall>x \<in> A. \<not> lt x x) \<and>
     (\<forall>x \<in> A. \<forall>y \<in> A. \<forall>z \<in> A. lt x y \<longrightarrow> lt y z \<longrightarrow> lt x z) \<and>
     (\<forall>x \<in> A. \<forall>y \<in> A. \<forall>z \<in> A. \<not> lt x y \<and> \<not> lt y x \<longrightarrow> \<not> lt y z \<and> \<not> lt z y \<longrightarrow> \<not> lt x z \<and> \<not> lt z x)"

text \<open>What the standard then promises: a permutation without an element after a greater one.\<close>

definition std_sort_ok :: "sorter \<Rightarrow> bool" where
  "std_sort_ok sorter \<longleftrightarrow>
     (\<forall>less_res lt xs. (\<forall>x \<in> set xs. \<forall>y \<in> set xs. less_res x y = Inr (lt x y)) \<longrightarrow> strict_weak_order_on (set xs) lt \<longrightarrow>
        (\<exists>ys. sorter less_res xs = Inr ys \<and> mset ys = mset xs \<and> sorted_wrt (\<lambda>x y. \<not> lt y x) ys))"

lemma std_sort_okE:
  assumes "std_sort_ok sorter" "\<And>x y. x \<in> set xs \<Longrightarrow> y \<in> set xs \<Longrightarrow> less_res x y = Inr (lt x y)"
    and "strict_weak_order_on (set xs) lt"
  obtains ys where "sorter less_res xs = Inr ys" "mset ys = mset xs" "sorted_wrt (\<lambda>x y. \<not> lt y x) ys"
  using assms(1) [unfolded std_sort_ok_def, rule_format, of xs less_res lt] assms(2,3) that by blast

text \<open>A preorder given by a comparison is a strict weak ordering.\<close>

lemma cmp_strict_weak_order:
  fixes cmp :: "'a \<Rightarrow> 'a \<Rightarrow> int"
  assumes swap: "\<And>x y. cmp y x = - cmp x y"
    and trans: "\<And>x y z. x \<in> A \<Longrightarrow> y \<in> A \<Longrightarrow> z \<in> A \<Longrightarrow> cmp x y \<le> 0 \<Longrightarrow> cmp y z \<le> 0 \<Longrightarrow> cmp x z \<le> 0"
  shows "strict_weak_order_on A (\<lambda>x y. cmp x y < 0)"
  unfolding strict_weak_order_on_def
proof (intro conjI ballI impI)
  fix x assume "x \<in> A"
  show "\<not> cmp x x < 0" using swap [of x x] by simp
next
  fix x y z assume m: "x \<in> A" "y \<in> A" "z \<in> A"
  note t = trans [OF m(1) m(2) m(3)] trans [OF m(3) m(1) m(2)] trans [OF m(3) m(2) m(1)]
  show "cmp x z < 0" if "cmp x y < 0" "cmp y z < 0" using t(1,2) that swap [of x z] swap [of y z] by fastforce
  show "\<not> cmp x z < 0" if "\<not> cmp x y < 0 \<and> \<not> cmp y x < 0" "\<not> cmp y z < 0 \<and> \<not> cmp z y < 0"
    using t(3) that swap [of x y] swap [of y z] swap [of x z] by fastforce
  show "\<not> cmp z x < 0" if "\<not> cmp x y < 0 \<and> \<not> cmp y x < 0" "\<not> cmp y z < 0 \<and> \<not> cmp z y < 0"
    using t(1) that swap [of x y] swap [of y z] swap [of x z] by fastforce
qed

lemma keys_strict_weak:
  assumes "\<forall>x \<in> A. list_all2 sortable tys x"
  shows "strict_weak_order_on A (\<lambda>x y. keys_cmp ds x y < 0)"
proof (rule cmp_strict_weak_order)
  fix x y z assume "x \<in> A" "y \<in> A" "z \<in> A" "keys_cmp ds x y \<le> 0" "keys_cmp ds y z \<le> 0"
  then show "keys_cmp ds x z \<le> 0" using keys_cmp_trans [of tys x y z ds] assms by simp
qed (rule keys_cmp_swap)

text \<open>An instance: insertion behind the elements that are not greater.\<close>

fun insert_sorted :: "('a \<Rightarrow> 'a \<Rightarrow> bool res) \<Rightarrow> 'a \<Rightarrow> 'a list \<Rightarrow> 'a list res" where
  "insert_sorted less_res x [] = Inr [x]"
| "insert_sorted less_res x (y # ys) =
     rbind (less_res x y) (\<lambda>b. if b then Inr (x # y # ys) else rbind (insert_sorted less_res x ys) (\<lambda>zs. Inr (y # zs)))"

fun insertion_sorter :: "('a \<Rightarrow> 'a \<Rightarrow> bool res) \<Rightarrow> 'a list \<Rightarrow> 'a list res" where
  "insertion_sorter less_res [] = Inr []"
| "insertion_sorter less_res (x # xs) = rbind (insertion_sorter less_res xs) (insert_sorted less_res x)"

lemma insert_sorted_ok:
  assumes "\<forall>a \<in> A. \<forall>b \<in> A. less_res a b = Inr (lt a b)" "strict_weak_order_on A lt" "x \<in> A" "set ys \<subseteq> A"
    and "sorted_wrt (\<lambda>x y. \<not> lt y x) ys"
  shows "\<exists>zs. insert_sorted less_res x ys = Inr zs \<and> mset zs = add_mset x (mset ys) \<and> sorted_wrt (\<lambda>x y. \<not> lt y x) zs"
  using assms(4,5)
proof (induction ys)
  case (Cons y ys)
  have le: "less_res x y = Inr (lt x y)" using assms(1,3) Cons.prems(1) by simp
  show ?case
  proof (cases "lt x y")
    case True
    have "\<not> lt z x" if z: "z \<in> set (y # ys)" for z
    proof
      assume zx: "lt z x"
      have A: "z \<in> A" "y \<in> A" using z Cons.prems(1) by auto
      then have "lt z y" using True zx assms(2,3) unfolding strict_weak_order_on_def by blast
      moreover have "z = y \<or> \<not> lt z y" using z Cons.prems(2) by auto
      ultimately show False using A assms(2) unfolding strict_weak_order_on_def by blast
    qed
    then show ?thesis using le True Cons.prems(2) by simp
  next
    case False
    obtain zs where zs: "insert_sorted less_res x ys = Inr zs" "mset zs = add_mset x (mset ys)" "sorted_wrt (\<lambda>x y. \<not> lt y x) zs"
      using Cons by auto
    have "set zs = insert x (set ys)" using arg_cong [OF zs(2), of set_mset] by simp
    then show ?thesis using le False zs Cons.prems(2) by simp
  qed
qed simp

lemma insertion_sorter_ok: "std_sort_ok insertion_sorter"
proof -
  have "\<exists>ys. insertion_sorter less_res xs = Inr ys \<and> mset ys = mset xs \<and> sorted_wrt (\<lambda>x y. \<not> lt y x) ys"
    if "\<forall>x \<in> A. \<forall>y \<in> A. less_res x y = Inr (lt x y)" "strict_weak_order_on A lt" "set xs \<subseteq> A" for less_res lt A and xs :: "sort_row list"
    using that(3)
  proof (induction xs)
    case (Cons x xs)
    then obtain ys where ys: "insertion_sorter less_res xs = Inr ys" "mset ys = mset xs" "sorted_wrt (\<lambda>x y. \<not> lt y x) ys" by auto
    have "set ys \<subseteq> A" using ys(2) Cons.prems mset_eq_setD by fastforce
    then show ?case using insert_sorted_ok [OF that(1,2) _ _ ys(3), of x] ys(1,2) Cons.prems by auto
  qed simp
  then show ?thesis unfolding std_sort_ok_def by blast
qed

end
