(* ===== verification/Query_Answer.thy ===== *)
theory Query_Answer
  imports Query_Scan Query_Order
begin

text \<open>
  What a query without aggregates answers, over any engine that keeps its contract: the rows of the table
  that satisfy WHERE, evaluated one by one, in the order ORDER BY asks for and cut by LIMIT.
\<close>

section \<open>Evaluation in the rows of a table\<close>

definition value_in :: "row \<Rightarrow> bound_expression \<Rightarrow> nullable_result" where
  "value_in r e = (case evaluate_expression (row_value r) e of Inr v \<Rightarrow> v | Inl _ \<Rightarrow> None)"

definition answer_row :: "bound_select_statement \<Rightarrow> row \<Rightarrow> result_row" where
  "answer_row stmt r = map (\<lambda>item. value_in r (item_expression item)) (bs_select_items stmt)"

definition order_keys :: "bound_select_statement \<Rightarrow> row \<Rightarrow> nullable_result list" where
  "order_keys stmt r = map (\<lambda>item. value_in r (bo_expression item)) (bs_order_by_items stmt)"

definition order_directions :: "bound_select_statement \<Rightarrow> order_direction list" where
  "order_directions stmt = map bo_direction (bs_order_by_items stmt)"

lemma rmap_cong: "(\<And>x. x \<in> set xs \<Longrightarrow> f x = g x) \<Longrightarrow> rmap f xs = rmap g xs"
  by (induction xs) auto

text \<open>A statement and a row of its table.\<close>

definition fits_query :: "bound_select_statement \<Rightarrow> row \<Rightarrow> bool" where
  "fits_query stmt r \<longleftrightarrow> valid_row (bs_schema stmt) r \<and> row_nan_free r"

lemma value_in_ok:
  assumes "statement_ok stmt" "fits_query stmt r" "e \<in> set (statement_expressions stmt)"
  shows "evaluate_expression (row_value r) e = Inr (value_in r e)" "has_result_type (value_in r e) (be_type e)"
proof -
  have "expression_ok (bs_schema stmt) e" "operands_ok e" using assms(1,3) by (auto simp: statement_ok_def)
  then obtain v where "evaluate_expression (row_value r) e = Inr v" "has_result_type v (be_type e)"
    using evaluate_typed [of "bs_schema stmt" r e] assms(2) unfolding fits_query_def by blast
  then show "evaluate_expression (row_value r) e = Inr (value_in r e)" "has_result_type (value_in r e) (be_type e)"
    by (simp_all add: value_in_def)
qed

lemma value_in_nan_free:
  assumes ok: "statement_ok stmt" and r: "fits_query stmt r" and e: "e \<in> set (statement_expressions stmt)"
  shows "nan_free_value (value_in r e)"
proof (cases e)
  case (BoundLiteralExpression v ty)
  have "nan_free_expression e" using ok e by (simp add: statement_ok_def)
  then show ?thesis using BoundLiteralExpression by (cases v; cases "the v") (auto simp: value_in_def)
next
  case (BoundColumnExpression i ty)
  have "i < length r" using ok e r BoundColumnExpression by (auto simp: statement_ok_def fits_query_def valid_row_def)
  then have "r ! i \<in> set r" by simp
  then have "r ! i \<noteq> Some (VDouble d) \<or> \<not> d64_isnan d" for d using r by (metis fits_query_def row_nan_free_def)
  then show ?thesis using BoundColumnExpression by (cases "r ! i"; cases "the (r ! i)") (auto simp: value_in_def row_value_def)
next
  case (BoundUnaryExpression op a)
  then have "has_result_type (value_in r e) E_Boolean" using value_in_ok(2) [OF ok r e] by simp
  then show ?thesis by (cases "value_in r e"; cases "the (value_in r e)") auto
next
  case (BoundBinaryExpression op a b)
  then have "has_result_type (value_in r e) E_Boolean" using value_in_ok(2) [OF ok r e] by simp
  then show ?thesis by (cases "value_in r e"; cases "the (value_in r e)") auto
next
  case (BoundIsNullExpression a n)
  then have "has_result_type (value_in r e) E_Boolean" using value_in_ok(2) [OF ok r e] by simp
  then show ?thesis by (cases "value_in r e"; cases "the (value_in r e)") auto
qed

lemma value_in_sortable:
  "statement_ok stmt \<Longrightarrow> fits_query stmt r \<Longrightarrow> e \<in> set (statement_expressions stmt) \<Longrightarrow> sortable (be_type e) (value_in r e)"
  using value_in_ok(2) value_in_nan_free by (simp add: sortable_def)

text \<open>The expressions of the clauses.\<close>

lemma clause_expressions:
  "item \<in> set (bs_select_items stmt) \<Longrightarrow> item_expression item \<in> set (statement_expressions stmt)"
  "bs_where_expression stmt = Some e \<Longrightarrow> e \<in> set (statement_expressions stmt)"
  "g \<in> set (bs_group_by_items stmt) \<Longrightarrow> g \<in> set (statement_expressions stmt)"
  "ob \<in> set (bs_order_by_items stmt) \<Longrightarrow> bo_expression ob \<in> set (statement_expressions stmt)"
  by (auto simp: statement_expressions_def)

lemma where_holds_row:
  assumes "statement_ok stmt" "fits_query stmt r"
  shows "where_holds stmt (row_value r) = Inr (row_selected stmt r)"
proof (cases "bs_where_expression stmt")
  case (Some e)
  note e = where_expression_ok [OF assms(1) Some]
  obtain b where b: "evaluate_predicate (row_value r) e = Inr b"
    using evaluate_predicate_typed [OF _ e(1,2,4)] assms(2) by (auto simp: fits_query_def)
  then show ?thesis using evaluate_predicate_true [of r e] Some by (cases b) (simp_all add: where_holds_def row_selected_def)
qed (simp add: where_holds_def row_selected_def)

text \<open>Readers that agree on the projection evaluate alike.\<close>

lemma agree_evaluate:
  assumes ok: "statement_ok stmt" and e: "e \<in> set (statement_expressions stmt)"
    and rd: "\<forall>i \<in> set (collect_required_projection stmt). rd i = rd' i"
  shows "evaluate_expression rd e = evaluate_expression rd' e"
  using rd e required_projection(2) [OF ok] by (intro evaluate_cong) blast

lemma agree_where:
  assumes "statement_ok stmt" "\<forall>i \<in> set (collect_required_projection stmt). rd i = rd' i"
  shows "where_holds stmt rd = where_holds stmt rd'"
  using agree_evaluate [OF assms(1) clause_expressions(2) assms(2)]
  by (cases "bs_where_expression stmt") (simp_all add: where_holds_def evaluate_predicate_def)

section \<open>Plain queries\<close>

definition in_order :: "bound_select_statement \<Rightarrow> row \<Rightarrow> row \<Rightarrow> bool" where
  "in_order stmt r q \<longleftrightarrow> keys_cmp (order_directions stmt) (order_keys stmt r) (order_keys stmt q) \<le> 0"

text \<open>The rows LIMIT asks for: the first ones, as many as it says.\<close>

definition limited :: "nat option \<Rightarrow> 'a list \<Rightarrow> 'a list" where
  "limited limit xs = (case limit of None \<Rightarrow> xs | Some n \<Rightarrow> take n xs)"

lemma limited_Nil [simp]: "limited limit [] = []"
  by (simp add: limited_def split: option.split)

lemma apply_limit_limited: "apply_limit limit xs = limited limit xs"
  by (simp add: apply_limit_def limited_def split: option.split)

text \<open>
  The rows the code leaves. Without ORDER BY, or in the order of the key, LIMIT stops the loop, after the row
  that reaches it: a limit of zero leaves one row there, and only there do the two differ.
\<close>

definition limit_stops_loop :: "bound_select_statement \<Rightarrow> bool" where
  "limit_stops_loop stmt \<longleftrightarrow> bs_order_by_items stmt = [] \<or> is_required_key_asc stmt"

definition loop_limited :: "bound_select_statement \<Rightarrow> 'a list \<Rightarrow> 'a list" where
  "loop_limited stmt xs =
     (case bs_limit stmt of None \<Rightarrow> xs | Some n \<Rightarrow> take (if limit_stops_loop stmt then max 1 n else n) xs)"

lemma limit_zero_keeps_row:
  assumes "bs_limit stmt = Some 0" "limit_stops_loop stmt"
  shows "loop_limited stmt (x # xs) = [x]" "limited (bs_limit stmt) (x # xs) = []"
  using assms by (simp_all add: loop_limited_def limited_def)

definition limit_ok :: "bound_select_statement \<Rightarrow> bool" where
  "limit_ok stmt \<longleftrightarrow> bs_limit stmt \<noteq> Some 0 \<or> bs_order_by_items stmt \<noteq> [] \<and> \<not> is_required_key_asc stmt"

lemma loop_limited_ok: "limit_ok stmt \<Longrightarrow> loop_limited stmt xs = limited (bs_limit stmt) xs"
  by (auto simp: limit_ok_def limit_stops_loop_def loop_limited_def limited_def max_def split: option.split)

definition plain :: "bound_select_statement \<Rightarrow> bool" where
  "plain stmt \<longleftrightarrow> \<not> has_aggregates stmt \<and> bs_group_by_items stmt = []"

lemma plain_items:
  assumes "plain stmt" "item \<in> set (bs_select_items stmt)"
  obtains e where "item = BoundSelectItemExpression e"
  using assms by (cases item) (auto simp: plain_def has_aggregates_def list_ex_iff is_aggregate_item_def)

lemma plain_items_row:
  assumes ok: "statement_ok stmt" "plain stmt" "fits_query stmt r"
  shows "rmap (plain_item (row_value r)) (bs_select_items stmt) = Inr (answer_row stmt r)"
  unfolding answer_row_def
proof (rule rmap_pure)
  fix item assume item: "item \<in> set (bs_select_items stmt)"
  obtain e where "item = BoundSelectItemExpression e" by (rule plain_items [OF ok(2) item])
  then show "plain_item (row_value r) item = Inr (value_in r (item_expression item))"
    using value_in_ok(1) [OF ok(1,3) clause_expressions(1) [OF item]] by simp
qed

lemma order_keys_row:
  assumes "statement_ok stmt" "fits_query stmt r"
  shows "rmap (\<lambda>item. evaluate_expression (row_value r) (bo_expression item)) (bs_order_by_items stmt) = Inr (order_keys stmt r)"
  unfolding order_keys_def by (rule rmap_pure) (use value_in_ok(1) [OF assms clause_expressions(4)] in blast)

lemma plain_step_row:
  assumes "statement_ok stmt" "plain stmt" "fits_query stmt r"
  shows "plain_step stmt asc early (row_value r) acc =
    (if \<not> row_selected stmt r then Inr (acc, False)
     else if bs_order_by_items stmt = [] \<or> asc then
       Inr ((fst acc @ [answer_row stmt r], snd acc),
            early \<and> (case bs_limit stmt of None \<Rightarrow> False | Some n \<Rightarrow> Suc (length (fst acc)) \<ge> n))
     else Inr ((fst acc, snd acc @ [(order_keys stmt r, answer_row stmt r)]), False))"
  using where_holds_row [OF assms(1,3)] plain_items_row [OF assms] order_keys_row [OF assms(1,3)]
  by (simp add: plain_step_def Let_def split: option.split)

lemma plain_step_reads:
  assumes ok: "statement_ok stmt"
  shows "reads_only (collect_required_projection stmt) (plain_step stmt asc early)"
  unfolding reads_only_def
proof (intro allI impI)
  fix rd rd' acc assume rd: "\<forall>i \<in> set (collect_required_projection stmt). rd i = (rd' i :: nullable_value res)"
  have "plain_item rd item = plain_item rd' item" if "item \<in> set (bs_select_items stmt)" for item
    using agree_evaluate [OF ok clause_expressions(1) [OF that] rd] by (cases item) simp_all
  then have i: "rmap (plain_item rd) (bs_select_items stmt) = rmap (plain_item rd') (bs_select_items stmt)" by (rule rmap_cong)
  have o: "rmap (\<lambda>item. evaluate_expression rd (bo_expression item)) (bs_order_by_items stmt) =
      rmap (\<lambda>item. evaluate_expression rd' (bo_expression item)) (bs_order_by_items stmt)"
    by (rule rmap_cong) (rule agree_evaluate [OF ok clause_expressions(4) rd])
  show "plain_step stmt asc early rd acc = plain_step stmt asc early rd' acc"
    unfolding plain_step_def agree_where [OF ok rd] i o ..
qed

text \<open>The loop, in its two modes.\<close>

lemma plain_loop_direct:
  assumes ok: "statement_ok stmt" "plain stmt" and rows: "\<forall>r \<in> set rs. fits_query stmt r" and mode: "bs_order_by_items stmt = [] \<or> asc"
    and early: "early \<longleftrightarrow> asc \<or> bs_limit stmt \<noteq> None"
  shows "rfold_until (\<lambda>r. plain_step stmt asc early (row_value r)) rs (xs, ys) =
    Inr (xs @ (case bs_limit stmt of None \<Rightarrow> id | Some n \<Rightarrow> take (max 1 (n - length xs)))
           (map (answer_row stmt) (filter (row_selected stmt) rs)), ys)"
  using rows
proof (induction rs arbitrary: xs)
  case Nil
  then show ?case by (simp split: option.split)
next
  case (Cons r rs)
  have step: "plain_step stmt asc early (row_value r) (xs, ys) =
    (if \<not> row_selected stmt r then Inr ((xs, ys), False)
     else Inr ((xs @ [answer_row stmt r], ys), (case bs_limit stmt of None \<Rightarrow> False | Some n \<Rightarrow> Suc (length xs) \<ge> n)))"
    using plain_step_row [OF ok, of r asc early "(xs, ys)"] Cons.prems mode early by (simp split: option.split)
  show ?case
  proof (cases "bs_limit stmt")
    case None
    then show ?thesis using step Cons by simp
  next
    case (Some n)
    show ?thesis
    proof (cases "Suc (length xs) \<ge> n")
      case True
      then have "max 1 (n - length xs) = 1" by simp
      then show ?thesis using step Cons Some True by simp
    next
      case False
      then have "max 1 (n - length xs) = Suc (max 1 (n - Suc (length xs)))" by simp
      then show ?thesis using step Cons Some False by simp
    qed
  qed
qed

lemma plain_loop_sorted:
  assumes ok: "statement_ok stmt" "plain stmt" and rows: "\<forall>r \<in> set rs. fits_query stmt r" and mode: "bs_order_by_items stmt \<noteq> []" "\<not> asc"
  shows "rfold_until (\<lambda>r. plain_step stmt asc early (row_value r)) rs (xs, ys) =
    Inr (xs, ys @ map (\<lambda>r. (order_keys stmt r, answer_row stmt r)) (filter (row_selected stmt) rs))"
  using rows
proof (induction rs arbitrary: ys)
  case (Cons r rs)
  then show ?case using plain_step_row [OF ok, of r asc early "(xs, ys)"] mode by simp
qed simp

definition order_types :: "bound_select_statement \<Rightarrow> expression_type list" where
  "order_types stmt = map (\<lambda>item. be_type (bo_expression item)) (bs_order_by_items stmt)"

lemma order_keys_sortable:
  assumes "statement_ok stmt" "fits_query stmt r"
  shows "list_all2 sortable (order_types stmt) (order_keys stmt r)"
  unfolding order_types_def order_keys_def list_all2_map1 list_all2_map2
  using value_in_sortable [OF assms clause_expressions(4)] by (intro list.rel_refl_strong) auto

lemma in_order_cmp: "in_order stmt r q \<longleftrightarrow> \<not> keys_cmp (order_directions stmt) (order_keys stmt q) (order_keys stmt r) < 0"
  using keys_cmp_swap [of "order_directions stmt" "order_keys stmt q" "order_keys stmt r"] by (auto simp: in_order_def)

text \<open>Keys in ascending order put the rows in the order of a first ORDER BY item that is the key.\<close>

lemma key_asc_in_order:
  assumes ok: "statement_ok stmt" "is_required_key_asc stmt" and wf: "schema_wf (bs_schema stmt)"
    and r: "fits_query stmt r" "fits_query stmt q" "rkey r < rkey q"
  shows "in_order stmt r q" "\<not> in_order stmt q r"
proof -
  obtain item items ty where items: "bs_order_by_items stmt = item # items" "bo_direction item = Asc"
      "bo_expression item = BoundColumnExpression 0 ty"
    using ok(2) by (auto simp: is_required_key_asc_def KEY_COLUMN_INDEX_def split: list.splits if_splits bound_expression.splits)
  have key: "value_in x (bo_expression item) = Some (R_Int (rkey x))" if "fits_query stmt x" for x
  proof -
    have "valid_row (bs_schema stmt) x" using that by (simp add: fits_query_def)
    then obtain k x' where "x = Some (VInt k) # x'" using valid_row_key [OF wf] by blast
    then show ?thesis by (simp add: items(3) value_in_def row_value_def)
  qed
  have "i64_val (rkey r) < i64_val (rkey q)" using r(3) by (simp add: less_i64_def)
  then show "in_order stmt r q" "\<not> in_order stmt q r" using key [OF r(1)] key [OF r(2)]
    by (simp_all add: in_order_def order_directions_def order_keys_def items(1,2))
qed

text \<open>Sorting the rows of the loop by their keys.\<close>

lemma mset_map_preimage:
  assumes "mset ys = mset (map g xs)"
  obtains zs where "mset zs = mset xs" "ys = map g zs"
proof -
  have "\<exists>zs. mset zs = M \<and> ys = map g zs" if "mset ys = image_mset g M" for M
    using that
  proof (induction ys arbitrary: M)
    case (Cons y ys)
    then have "add_mset y (mset ys) = image_mset g M" by simp
    then obtain x N where x: "M = add_mset x N" "g x = y" "mset ys = image_mset g N"
      by (metis msed_map_invR)
    from Cons.IH [OF x(3)] obtain zs where "mset zs = N" "ys = map g zs" by blast
    then show ?case using x(1,2) by (intro exI [of _ "x # zs"]) simp
  qed simp
  from this [of "mset xs"] assms show thesis using that by auto
qed

lemma sorter_orders:
  assumes ok: "statement_ok stmt" "std_sort_ok sorter" and rows: "\<forall>x \<in> set xs. fits_query stmt (p x)"
  obtains order where "sorter (sort_row_less stmt) (map (\<lambda>x. (order_keys stmt (p x), h x)) xs) = Inr (map (\<lambda>x. (order_keys stmt (p x), h x)) order)"
    "mset order = mset xs" "sorted_wrt (\<lambda>x y. in_order stmt (p x) (p y)) order"
proof -
  let ?g = "\<lambda>x. (order_keys stmt (p x), h x)" and ?cmp = "\<lambda>x y. keys_cmp (order_directions stmt) (fst x) (fst y)"
  have keys: "list_all2 sortable (order_types stmt) (fst x)" if "x \<in> set (map ?g xs)" for x
    using that rows order_keys_sortable [OF ok(1)] by auto
  have less: "sort_row_less stmt x y = Inr (?cmp x y < 0)" if "x \<in> set (map ?g xs)" "y \<in> set (map ?g xs)" for x y
    unfolding sort_row_less_def order_directions_def [symmetric] by (rule sort_keys_less_cmp [OF keys [OF that(1)] keys [OF that(2)]])
  have swo: "strict_weak_order_on (set (map ?g xs)) (\<lambda>x y. ?cmp x y < 0)"
    by (rule cmp_strict_weak_order) (rule keys_cmp_swap, rule keys_cmp_trans [OF keys keys keys])
  obtain ys where ys: "sorter (sort_row_less stmt) (map ?g xs) = Inr ys" "mset ys = mset (map ?g xs)"
      "sorted_wrt (\<lambda>x y. \<not> ?cmp y x < 0) ys"
    by (rule std_sort_okE [where lt = "\<lambda>x y. ?cmp x y < 0", OF ok(2) less swo])
  obtain order where order: "mset order = mset xs" "ys = map ?g order" by (rule mset_map_preimage [OF ys(2)])
  have fits: "fits_query stmt (p x)" if "x \<in> set order" for x using that rows mset_eq_setD [OF order(1)] by simp
  have "sorted_wrt (\<lambda>x y. \<not> ?cmp (?g y) (?g x) < 0) order" using ys(3) by (simp add: order(2) sorted_wrt_map)
  then have "sorted_wrt (\<lambda>x y. in_order stmt (p x) (p y)) order"
    by (rule sorted_wrt_mono_rel [rotated]) (simp add: in_order_cmp)
  then show thesis using ys(1) order that by blast
qed

text \<open>The names of the columns.\<close>

lemma column_names_ok:
  assumes ok: "statement_ok stmt"
  shows "\<exists>names. build_select_column_names stmt = Inr names"
  unfolding build_select_column_names_def
proof (rule rmap_ok)
  fix entry assume e: "entry \<in> set (zip [0..<length (bs_select_items stmt)] (bs_select_items stmt))"
  obtain i item where entry: "entry = (i, item)" by (cases entry)
  then have "item \<in> set (bs_select_items stmt)" using e by (auto dest: set_zip_rightD)
  then have ok': "expression_ok (bs_schema stmt) (item_expression item)"
    using ok clause_expressions(1) by (auto simp: statement_ok_def)
  have col: "\<exists>c. get_column (bs_schema stmt) j = Inr c" if "j < schema_size (bs_schema stmt)" for j
    using that by (simp add: get_column_def schema_size_def)
  show "\<exists>name. select_item_name (bs_schema stmt) entry = Inr name"
    using ok' col unfolding entry by (cases item) (auto simp: rbind_eq_Inr split: bound_expression.split)
qed

text \<open>The answer of a plain query to the rows of its table.\<close>

definition plain_answer :: "bound_select_statement \<Rightarrow> row list \<Rightarrow> result_row list \<Rightarrow> bool" where
  "plain_answer stmt rows answer \<longleftrightarrow>
     (\<exists>order. mset order = mset (filter (row_selected stmt) rows) \<and> sorted_wrt (in_order stmt) order \<and>
        answer = limited (bs_limit stmt) (map (answer_row stmt) order))"

text \<open>What the loop answers, for every limit.\<close>

definition loop_answer :: "bound_select_statement \<Rightarrow> row list \<Rightarrow> result_row list \<Rightarrow> bool" where
  "loop_answer stmt rows answer \<longleftrightarrow>
     (\<exists>order. mset order = mset (filter (row_selected stmt) rows) \<and> sorted_wrt (in_order stmt) order \<and>
        answer = loop_limited stmt (map (answer_row stmt) order))"

lemma loop_answer_plain: "limit_ok stmt \<Longrightarrow> loop_answer stmt rows answer \<longleftrightarrow> plain_answer stmt rows answer"
  by (simp add: loop_answer_def plain_answer_def loop_limited_ok)

context engine_contract
begin

text \<open>The table of a query.\<close>

definition answers :: "'e \<Rightarrow> content \<Rightarrow> bound_select_statement \<Rightarrow> row list \<Rightarrow> bool" where
  "answers st T stmt rows \<longleftrightarrow>
     holds st T \<and> T (bs_table_name stmt) = Some (bs_schema stmt, mset rows) \<and> statement_ok stmt \<and>
     (\<forall>r \<in> set rows. row_nan_free r) \<and> (\<forall>k. looks_up stmt k \<longrightarrow> lookup_ok k)"

lemma answers_rows:
  assumes "answers st T stmt rows"
  shows "schema_wf (bs_schema stmt)" "\<forall>r \<in> set rows. fits_query stmt r" "distinct (rkeys rows)" "statement_ok stmt" "holds st T"
proof -
  have h: "holds st T" "T (bs_table_name stmt) = Some (bs_schema stmt, mset rows)" using assms by (simp_all add: answers_def)
  have one: "count (mset (rkeys rows)) k \<le> 1" for k using stored [OF h] by simp
  show "distinct (rkeys rows)"
    unfolding distinct_count_atmost_1
  proof
    fix k
    show "count (mset (rkeys rows)) k = (if k \<in> set (rkeys rows) then 1 else 0)"
    proof (cases "k \<in> set (rkeys rows)")
      case True
      then have "0 < count (mset (rkeys rows)) k" by (metis count_greater_zero_iff set_mset_mset)
      then have "count (mset (rkeys rows)) k = 1" using one [of k] by linarith
      then show ?thesis using True by (simp only: if_True)
    next
      case False
      then have "count (mset (rkeys rows)) k = 0" by (metis not_in_iff set_mset_mset)
      then show ?thesis using False by (simp only: if_False)
    qed
  qed
  show "schema_wf (bs_schema stmt)" "\<forall>r \<in> set rows. fits_query stmt r" "statement_ok stmt" "holds st T"
    using stored [OF h] assms by (auto simp: answers_def fits_query_def)
qed

lemma open_query:
  assumes a: "answers st T stmt rows"
  obtains oc st' res where "build_cursor_for_select eng stmt (collect_required_projection stmt) asc st = (Inr oc, st')" "holds st' T"
    "mset (filter (row_selected stmt) res) = mset (filter (row_selected stmt) rows)" "\<forall>r \<in> set res. fits_query stmt r"
    "asc \<Longrightarrow> sorted_wrt (\<lambda>r q. rkey r < rkey q) (filter (row_selected stmt) res)"
    "case oc of None \<Rightarrow> res = []
     | Some c \<Rightarrow> delivers cinv crows ccols (schema_size (bs_schema stmt)) (collect_required_projection stmt) c res"
proof -
  note f = answers_rows [OF a]
  have h: "holds st T" "T (bs_table_name stmt) = Some (bs_schema stmt, mset rows)" "\<forall>r \<in> set rows. row_nan_free r"
      "\<And>k. looks_up stmt k \<Longrightarrow> lookup_ok k" using a by (simp_all add: answers_def)
  from build_cursor_ok [OF h(1,2) f(4) required_projection(1) [OF f(4)] h(3,4), of asc] obtain oc st' res where b:
    "build_cursor_for_select eng stmt (collect_required_projection stmt) asc st = (Inr oc, st')" "holds st' T"
    "mset (filter (row_selected stmt) res) = mset (filter (row_selected stmt) rows)" "set res \<subseteq> set rows"
    "asc \<longrightarrow> sorted (rkeys res)" "case oc of None \<Rightarrow> res = []
     | Some c \<Rightarrow> delivers cinv crows ccols (schema_size (bs_schema stmt)) (collect_required_projection stmt) c res" by blast
  have "sorted_wrt (\<lambda>r q. rkey r < rkey q) (filter (row_selected stmt) res)" if asc
  proof -
    let ?sel = "filter (row_selected stmt) res"
    have "mset (rkeys ?sel) = mset (rkeys (filter (row_selected stmt) rows))" using b(3) by (simp only: mset_map)
    moreover have "distinct (rkeys (filter (row_selected stmt) rows))" by (rule distinct_map_filter [OF f(3)])
    ultimately have "distinct (rkeys ?sel)" using mset_eq_imp_distinct_iff by blast
    moreover have "sorted (rkeys ?sel)" using b(5) that by (simp add: sorted_filter)
    ultimately have "sorted_wrt (<) (rkeys ?sel)" by (simp add: strict_sorted_iff)
    then show ?thesis by (simp add: sorted_wrt_map)
  qed
  then show thesis using that [OF b(1-3)] b(4,6) f(2) by blast
qed

lemma plain_select_loop:
  assumes a: "answers st T stmt rows" and p: "plain stmt" and sorter: "std_sort_ok sorter"
  shows "\<exists>names answer st'. build_select_column_names stmt = Inr names \<and>
    execute_select eng sorter stmt st = (Some (Inr \<lparr>sr_column_names = names, sr_rows = answer\<rparr>), st') \<and>
    holds st' T \<and> loop_answer stmt rows answer"
proof -
  let ?asc = "is_required_key_asc stmt" and ?p = "collect_required_projection stmt" and ?sel = "filter (row_selected stmt)"
  let ?early = "if ?asc then ?asc else can_apply_early_limit stmt"
  note f = answers_rows [OF a]
  obtain names where names: "build_select_column_names stmt = Inr names" using column_names_ok [OF f(4)] by blast
  obtain oc st' res where c: "build_cursor_for_select eng stmt ?p ?asc st = (Inr oc, st')" "holds st' T"
      "mset (?sel res) = mset (?sel rows)" "\<forall>r \<in> set res. fits_query stmt r"
      "?asc \<Longrightarrow> sorted_wrt (\<lambda>r q. rkey r < rkey q) (?sel res)"
      "case oc of None \<Rightarrow> res = [] | Some c \<Rightarrow> delivers cinv crows ccols (schema_size (bs_schema stmt)) ?p c res"
    by (rule open_query [OF a, where asc = ?asc]) blast
  have no_early: "can_apply_early_limit stmt \<longleftrightarrow> bs_limit stmt \<noteq> None \<and> bs_order_by_items stmt = []"
    using p by (auto simp: can_apply_early_limit_def plain_def)
  have asc: "?asc \<Longrightarrow> bs_order_by_items stmt \<noteq> []" by (auto simp: is_required_key_asc_def)
  have run: "execute_select eng sorter stmt st = (Some (Inr \<lparr>sr_column_names = names, sr_rows = answer\<rparr>), st')"
    if "rbind (rfold_until (\<lambda>r. plain_step stmt ?asc ?early (row_value r)) res ([], [])) (plain_finish sorter stmt ?asc ?early) = Inr answer"
      and "oc = None \<Longrightarrow> answer = []" for answer
  proof -
    have "execute_select eng sorter stmt st =
        execute_plain_select eng sorter stmt names ?p (can_apply_early_limit stmt) st"
      using p names by (simp add: execute_select_def plain_def Let_def)
    then show ?thesis
      using c(1,6) that loop_until_over_rows [OF _ plain_step_reads [OF f(4), of ?asc ?early]]
      by (cases oc) (auto simp: execute_plain_select_def Let_def rbind_eq_Inr obind_def)
  qed
  note order_rows = mset_eq_setD [OF c(3)]
  have sel: "\<forall>r \<in> set (?sel res). fits_query stmt r" using c(4) by simp
  show ?thesis
  proof (cases "limit_stops_loop stmt")
    case True
    then have mode: "bs_order_by_items stmt = [] \<or> ?asc" by (simp add: limit_stops_loop_def)
    have early: "?early \<longleftrightarrow> ?asc \<or> bs_limit stmt \<noteq> None" using asc no_early mode by auto
    have loop: "rfold_until (\<lambda>r. plain_step stmt ?asc ?early (row_value r)) res ([], []) =
        Inr (loop_limited stmt (map (answer_row stmt) (?sel res)), [])"
      using plain_loop_direct [OF f(4) p c(4) mode early, of "[]" "[]"] True by (simp add: loop_limited_def split: option.splits)
    have finish: "plain_finish sorter stmt ?asc ?early (xs, []) = Inr xs" for xs
      using mode early by (auto simp: plain_finish_def apply_limit_def)
    have "sorted_wrt (in_order stmt) (?sel res)"
    proof (cases ?asc)
      case asc: True
      show ?thesis
        using key_asc_in_order(1) [OF f(4) asc f(1)] sel by (intro sorted_wrt_mono_rel [OF _ c(5) [OF asc]]) blast
    next
      case False
      then have "order_directions stmt = []" using mode by (simp add: order_directions_def)
      then show ?thesis by (simp add: in_order_def sorted_wrt_iff_nth_less)
    qed
    then have "loop_answer stmt rows (loop_limited stmt (map (answer_row stmt) (?sel res)))"
      using c(3) unfolding loop_answer_def by blast
    moreover have "oc = None \<Longrightarrow> loop_limited stmt (map (answer_row stmt) (?sel res)) = []"
      using c(6) by (simp add: loop_limited_def split: option.split)
    ultimately show ?thesis using names run loop finish c(2) by (metis rbind_Inr)
  next
    case False
    then have mode: "bs_order_by_items stmt \<noteq> []" "\<not> ?asc" by (simp_all add: limit_stops_loop_def)
    then have early: "\<not> ?early" using no_early by simp
    have loop: "rfold_until (\<lambda>r. plain_step stmt ?asc ?early (row_value r)) res ([], []) =
        Inr ([], map (\<lambda>r. (order_keys stmt r, answer_row stmt r)) (?sel res))"
      using plain_loop_sorted [OF f(4) p c(4) mode, of ?early "[]" "[]"] by simp
    obtain order where order: "sorter (sort_row_less stmt) (map (\<lambda>r. (order_keys stmt r, answer_row stmt r)) (?sel res)) =
          Inr (map (\<lambda>r. (order_keys stmt r, answer_row stmt r)) order)"
        "mset order = mset (?sel res)" "sorted_wrt (in_order stmt) order"
      by (rule sorter_orders [where p = "\<lambda>r. r", OF f(4) sorter sel])
    have limit: "apply_limit (bs_limit stmt) xs = loop_limited stmt xs" for xs :: "result_row list"
      using False by (simp add: apply_limit_def loop_limited_def split: option.split)
    have finish: "plain_finish sorter stmt ?asc ?early ([], map (\<lambda>r. (order_keys stmt r, answer_row stmt r)) (?sel res)) =
        Inr (loop_limited stmt (map (answer_row stmt) order))"
      using mode early order(1) limit by (simp add: plain_finish_def o_def)
    have "loop_answer stmt rows (loop_limited stmt (map (answer_row stmt) order))"
      using c(3) order(2,3) unfolding loop_answer_def by metis
    moreover have "oc = None \<Longrightarrow> loop_limited stmt (map (answer_row stmt) order) = []"
      using c(6) order(2) by (simp add: loop_limited_def split: option.split)
    ultimately show ?thesis using names run loop finish c(2) by (metis rbind_Inr)
  qed
qed

lemma plain_select:
  assumes "answers st T stmt rows" "plain stmt" "limit_ok stmt" "std_sort_ok sorter"
  shows "\<exists>names answer st'. build_select_column_names stmt = Inr names \<and>
    execute_select eng sorter stmt st = (Some (Inr \<lparr>sr_column_names = names, sr_rows = answer\<rparr>), st') \<and>
    holds st' T \<and> plain_answer stmt rows answer"
  using plain_select_loop [OF assms(1,2,4)] loop_answer_plain [OF assms(3)] by simp

end

end
