(* ===== verification/Aggregate_Spec.thy ===== *)
theory Aggregate_Spec
  imports Aggregates
begin

text \<open>
  What the aggregates compute: NULL values do not count; over integers COUNT, SUM, MIN and MAX are those
  of the values that are there, whatever their order; over doubles SUM and AVG add in the order of the
  rows, and MIN and MAX are the first of the least and of the greatest values, as long as no value is NaN or
  the infinity that lies beyond the limit the code starts from.
\<close>

section \<open>Values that are not NULL\<close>

definition present :: "'a option list \<Rightarrow> 'a list" where
  "present vs = map the (filter (\<lambda>v. v \<noteq> None) vs)"

lemma present_simps [simp]:
  "present [] = []" "present (None # vs) = present vs" "present (Some x # vs) = x # present vs"
  "present (vs @ ws) = present vs @ present ws" "set (present vs) = {x. Some x \<in> set vs}"
  by (auto simp: present_def image_iff) force

lemma rfold_present:
  "rfold (\<lambda>v. update_global_aggregate_state v kind ty) vs st =
   rfold (\<lambda>x. update_global_aggregate_state (Some x) kind ty) (present vs) st"
proof (induction vs arbitrary: st)
  case (Cons v vs)
  then show ?case
    by (cases v) (auto simp: update_global_aggregate_state_def [of None] intro!: rbind_cong)
qed simp

lemma aggregate_present:
  "aggregate kind ty vs =
     rbind (rfold (\<lambda>x. update_global_aggregate_state (Some x) kind ty) (present vs) GlobalAggregateState) (finalize_aggregate_state kind ty)"
  by (simp add: aggregate_def rfold_present)

lemma present_map: "present (map (map_option f) vs) = map f (present vs)"
  by (induction vs) (auto split: option.split simp: present_def)

lemma rfold_map: "rfold f (map g xs) s = rfold (\<lambda>x. f (g x)) xs s"
  by (induction xs arbitrary: s) (auto intro!: rbind_cong)

text \<open>The count.\<close>

lemma count_step:
  assumes "ag_count st = i64_of (int n)" "n + 1 < 2 ^ 63"
  shows "i64_add (ag_count st) (i64_of 1) = Inr (i64_of (int (Suc n)))"
proof -
  have "i64_val (i64_of (int n)) = int n" "i64_val (i64_of 1) = 1"
    using assms(2) by (simp_all add: i64_val_of)
  then show ?thesis using assms i64_add_ok [of "i64_of (int n)" "i64_of 1"] by (simp add: add.commute)
qed

lemma i64_of_count:
  assumes "n < 2 ^ 63"
  shows "i64_of (int n) = i64_of 0 \<longleftrightarrow> n = 0"
proof -
  have "int n < 2 ^ 63" using assms by simp
  then have "i64_val (i64_of (int n)) = int n" "i64_val (i64_of 0) = 0" by (simp_all add: i64_val_of)
  then show ?thesis by (metis of_nat_0 of_nat_eq_0_iff)
qed

section \<open>Integers\<close>

definition int_sum_fits :: "i64 list \<Rightarrow> bool" where
  "int_sum_fits ns \<longleftrightarrow> (\<Sum>n\<leftarrow>ns. \<bar>i64_val n\<bar>) < 2 ^ 63"

definition int_aggregate :: "aggregate_kind \<Rightarrow> i64 list \<Rightarrow> nullable_result" where
  "int_aggregate kind ns =
     (case kind of
        Agg_Count \<Rightarrow> Some (R_Int (i64_of (int (length ns))))
      | Agg_Sum \<Rightarrow> if ns = [] then None else Some (R_Int (i64_of (\<Sum>n\<leftarrow>ns. i64_val n)))
      | Agg_Min \<Rightarrow> if ns = [] then None else Some (R_Int (Min (set ns)))
      | Agg_Max \<Rightarrow> if ns = [] then None else Some (R_Int (Max (set ns)))
      | Agg_Avg \<Rightarrow>
          if ns = [] then None
          else Some (R_Double (d64_div (foldl (\<lambda>s n. d64_add s (d64_of_i64 n)) d64_zero ns) (d64_of_i64 (i64_of (int (length ns)))))))"

definition int_state :: "aggregate_kind \<Rightarrow> i64 list \<Rightarrow> aggregate_state" where
  "int_state kind ns =
     (let st = GlobalAggregateState\<lparr>ag_count := i64_of (int (length ns))\<rparr> in
      case kind of
        Agg_Count \<Rightarrow> st
      | Agg_Sum \<Rightarrow> st\<lparr>ag_int_sum := i64_of (\<Sum>n\<leftarrow>ns. i64_val n)\<rparr>
      | Agg_Min \<Rightarrow> st\<lparr>ag_int_min := fold min ns i64_max\<rparr>
      | Agg_Max \<Rightarrow> st\<lparr>ag_int_max := fold max ns i64_min\<rparr>
      | Agg_Avg \<Rightarrow> st\<lparr>ag_double_sum := foldl (\<lambda>s n. d64_add s (d64_of_i64 n)) d64_zero ns\<rparr>)"

lemma sum_abs_le: "\<bar>\<Sum>n\<leftarrow>ns. i64_val n\<bar> \<le> (\<Sum>n\<leftarrow>ns. \<bar>i64_val n\<bar>)"
  by (induction ns) auto

lemma int_sum_fits_bounds:
  assumes "int_sum_fits ns"
  shows "- (2 ^ 63) \<le> (\<Sum>n\<leftarrow>ns. i64_val n)" "(\<Sum>n\<leftarrow>ns. i64_val n) < 2 ^ 63"
  using assms sum_abs_le [of ns] by (auto simp: int_sum_fits_def)

lemma int_states:
  assumes "get_aggregate_result_type kind E_Int64 = Inr ty" "length ns < 2 ^ 63" "kind = Agg_Sum \<Longrightarrow> int_sum_fits ns"
  shows "rfold (\<lambda>n. update_global_aggregate_state (Some (R_Int n)) kind ty) ns GlobalAggregateState = Inr (int_state kind ns)"
  using assms(2,3)
proof (induction ns rule: rev_induct)
  case Nil
  show ?case by (cases kind) (simp_all add: int_state_def GlobalAggregateState_def)
next
  case (snoc n ns)
  have fits: "int_sum_fits ns" if "kind = Agg_Sum"
    using snoc.prems(2) [OF that] by (auto simp: int_sum_fits_def intro: le_less_trans [rotated])
  have IH: "rfold (\<lambda>n. update_global_aggregate_state (Some (R_Int n)) kind ty) ns GlobalAggregateState = Inr (int_state kind ns)"
    using snoc.IH fits snoc.prems(1) by simp
  have "ag_count (int_state kind ns) = i64_of (int (length ns))" by (cases kind) (simp_all add: int_state_def)
  from count_step [OF this] snoc.prems(1)
  have count: "i64_add (ag_count (int_state kind ns)) (i64_of 1) = Inr (i64_of (int (Suc (length ns))))" by simp
  have "update_global_aggregate_state (Some (R_Int n)) kind ty (int_state kind ns) = Inr (int_state kind (ns @ [n]))"
  proof (cases kind)
    case Agg_Sum
    let ?s = "\<Sum>n\<leftarrow>ns. i64_val n"
    have s: "i64_val (i64_of ?s) = ?s"
      using int_sum_fits_bounds [OF fits [OF Agg_Sum]] by (rule i64_val_of)
    have "- (2 ^ 63) \<le> ?s + i64_val n" "?s + i64_val n < 2 ^ 63"
      using int_sum_fits_bounds [OF snoc.prems(2) [OF Agg_Sum]] by simp_all
    then have "i64_add (i64_of ?s) n = Inr (i64_of (?s + i64_val n))" using i64_add_ok [of "i64_of ?s" n] s by simp
    then show ?thesis using count Agg_Sum assms(1)
      by (simp add: update_global_aggregate_state_def update_sum_def int_state_def is_numeric_expression_type_def)
  next
    case Agg_Min
    then show ?thesis using count assms(1)
      by (auto simp: update_global_aggregate_state_def update_min_def int_state_def is_numeric_expression_type_def min_def Let_def)
  next
    case Agg_Max
    then show ?thesis using count assms(1)
      by (auto simp: update_global_aggregate_state_def update_max_def int_state_def is_numeric_expression_type_def max_def Let_def)
  qed (use count assms(1) in \<open>simp_all add: update_global_aggregate_state_def update_avg_def int_state_def is_numeric_expression_type_def\<close>)
  then show ?case by (simp add: rfold_snoc IH)
qed

lemma fold_min_max:
  assumes "ns \<noteq> []"
  shows "fold min ns i64_max = Min (set ns)" "fold max ns i64_min = Max (set ns)"
proof -
  have "fold min ns i64_max = Min (insert i64_max (set ns))" using Min.set_eq_fold [of i64_max ns] by simp
  then show "fold min ns i64_max = Min (set ns)" using assms by simp
  have "fold max ns i64_min = Max (insert i64_min (set ns))" using Max.set_eq_fold [of i64_min ns] by simp
  then show "fold max ns i64_min = Max (set ns)" using assms by simp
qed

lemma int_aggregates:
  assumes "get_aggregate_result_type kind E_Int64 = Inr ty" "length ns < 2 ^ 63" "kind = Agg_Sum \<Longrightarrow> int_sum_fits ns"
    and "present vs = map R_Int ns"
  shows "aggregate kind ty vs = Inr (int_aggregate kind ns)"
proof -
  have "rfold (\<lambda>x. update_global_aggregate_state (Some x) kind ty) (present vs) GlobalAggregateState = Inr (int_state kind ns)"
    using int_states [OF assms(1-3)] by (simp add: assms(4) rfold_map)
  then show ?thesis using assms(1) i64_of_count [OF assms(2)] fold_min_max [of ns]
    by (cases kind; cases "ns = []")
      (auto simp: aggregate_present finalize_aggregate_state_def int_state_def int_aggregate_def is_numeric_expression_type_def)
qed

text \<open>The order of the rows does not matter, but for the rounding of AVG.\<close>

lemma int_aggregate_mset:
  assumes "mset ns = mset ms" "kind \<noteq> Agg_Avg"
  shows "int_aggregate kind ns = int_aggregate kind ms"
proof -
  have "set ns = set ms" "length ns = length ms" "ns = [] \<longleftrightarrow> ms = []" using assms(1) by (metis mset_eq_setD mset_eq_length mset_zero_iff)+
  moreover have "(\<Sum>n\<leftarrow>ns. i64_val n) = (\<Sum>n\<leftarrow>ms. i64_val n)" using assms(1) by (metis mset_map sum_mset_sum_list)
  ultimately show ?thesis using assms(2) by (cases kind) (simp_all add: int_aggregate_def)
qed

section \<open>Doubles\<close>

subsection \<open>The limits MIN and MAX start from\<close>

lemma limits_ord:
  "\<not> d64_isnan d64_largest" "\<not> d64_isnan d64_lowest"
  "d64_ord d64_largest = 0x7FEFFFFFFFFFFFFF" "d64_ord d64_lowest = - 0x7FEFFFFFFFFFFFFF"
  by (simp_all add: d64_isnan_def d64_largest_def d64_lowest_def d64_mag_def d64_ord_def d64_neg_def)

text \<open>Sign and magnitude are the whole of a double.\<close>

lemma d64_eqI:
  assumes "d64_mag d = d64_mag e" "d64_neg d = d64_neg e"
  shows "d = e"
proof -
  have mask: "0x7FFFFFFFFFFFFFFF = (mask 63 :: 64 word)" by (simp add: mask_eq_exp_minus_1)
  have m: "d64_bits d AND mask 63 = d64_bits e AND mask 63"
    using assms(1) unfolding d64_mag_def mask by (rule unsigned_word_eqI)
  have "d64_bits d = d64_bits e"
  proof (rule bit_word_eqI)
    fix n assume n: "n < LENGTH(64)"
    show "bit (d64_bits d) n \<longleftrightarrow> bit (d64_bits e) n"
    proof (cases "n < 63")
      case True
      then show ?thesis using arg_cong [OF m, of "\<lambda>w. bit w n"] by (simp add: bit_simps)
    next
      case False
      then have "n = 63" using n by simp
      then show ?thesis using assms(2) by (simp add: d64_neg_def)
    qed
  qed
  then show ?thesis by (simp add: double.expand)
qed

lemma d64_ord_eqI:
  assumes "d64_ord d = d64_ord e" "d64_ord e \<noteq> 0"
  shows "d = e"
  using assms by (intro d64_eqI) (auto simp: d64_ord_def split: if_splits)

lemma d64_ord_limit:
  "d64_ord d = d64_ord d64_largest \<Longrightarrow> d = d64_largest" "d64_ord d = d64_ord d64_lowest \<Longrightarrow> d = d64_lowest"
  by (erule d64_ord_eqI; simp add: limits_ord)+

definition double_state :: "aggregate_kind \<Rightarrow> double list \<Rightarrow> aggregate_state" where
  "double_state kind ds =
     (let st = GlobalAggregateState\<lparr>ag_count := i64_of (int (length ds))\<rparr> in
      case kind of
        Agg_Count \<Rightarrow> st
      | Agg_Min \<Rightarrow> st\<lparr>ag_double_min := foldl (\<lambda>m d. if d64_lt d m then d else m) d64_largest ds\<rparr>
      | Agg_Max \<Rightarrow> st\<lparr>ag_double_max := foldl (\<lambda>m d. if d64_lt m d then d else m) d64_lowest ds\<rparr>
      | _ \<Rightarrow> st\<lparr>ag_double_sum := foldl d64_add d64_zero ds\<rparr>)"

definition double_aggregate :: "aggregate_kind \<Rightarrow> double list \<Rightarrow> nullable_result" where
  "double_aggregate kind ds =
     (case kind of
        Agg_Count \<Rightarrow> Some (R_Int (i64_of (int (length ds))))
      | Agg_Sum \<Rightarrow> if ds = [] then None else Some (R_Double (foldl d64_add d64_zero ds))
      | Agg_Avg \<Rightarrow>
          if ds = [] then None
          else Some (R_Double (d64_div (foldl d64_add d64_zero ds) (d64_of_i64 (i64_of (int (length ds))))))
      | Agg_Min \<Rightarrow> if ds = [] then None else Some (R_Double (arg_min_list d64_ord ds))
      | Agg_Max \<Rightarrow> if ds = [] then None else Some (R_Double (arg_min_list (\<lambda>d. - d64_ord d) ds)))"

text \<open>
  The folds of the code start from the largest and the lowest finite double. Where no value lies beyond
  that limit the start does not matter: what is left is the first value that no other is below (above).
\<close>

definition within_limit :: "aggregate_kind \<Rightarrow> double list \<Rightarrow> bool" where
  "within_limit kind ds \<longleftrightarrow>
     (kind = Agg_Min \<longrightarrow> (\<forall>d \<in> set ds. d64_le d d64_largest)) \<and>
     (kind = Agg_Max \<longrightarrow> (\<forall>d \<in> set ds. d64_le d64_lowest d))"

lemma foldl_arg_min:
  fixes f :: "'a \<Rightarrow> int"
  shows "foldl (\<lambda>m d. if f d < f m then d else m) m ds = arg_min_list f (m # ds)"
proof (induction ds arbitrary: m rule: rev_induct)
  case (snoc d ds)
  have app: "arg_min_list f (m # ds @ [d]) =
      (if f d < f (arg_min_list f (m # ds)) then d else arg_min_list f (m # ds))" for m
  proof (induction ds arbitrary: m)
    case (Cons y ds)
    then show ?case by (simp add: Let_def)
  qed (simp add: Let_def)
  show ?case by (simp add: snoc.IH app)
qed simp

lemma foldl_from_limit:
  fixes f :: "'a \<Rightarrow> int"
  assumes "ds \<noteq> []" "\<forall>d \<in> set ds. f d \<le> f m" "\<And>d. f d = f m \<Longrightarrow> d = m"
  shows "foldl (\<lambda>m d. if f d < f m then d else m) m ds = arg_min_list f ds"
proof -
  obtain d ds' where ds: "ds = d # ds'" using assms(1) by (cases ds) auto
  have d: "(if f d < f m then d else m) = d" using bspec [OF assms(2), of d] assms(3) [of d] by (auto simp: ds order_le_less)
  have "foldl (\<lambda>m d. if f d < f m then d else m) m ds = foldl (\<lambda>m d. if f d < f m then d else m) d ds'"
    unfolding ds foldl_Cons d ..
  then show ?thesis by (simp only: ds foldl_arg_min)
qed

lemma foldl_cong_set:
  "\<lbrakk>\<And>m d. \<lbrakk>P m; d \<in> set ds\<rbrakk> \<Longrightarrow> g m d = h m d \<and> P (h m d); P m\<rbrakk> \<Longrightarrow> foldl g m ds = foldl h m ds"
  by (induction ds arbitrary: m) auto

lemma extreme_folds:
  assumes "ds \<noteq> []" "within_limit kind ds"
  shows "kind = Agg_Min \<Longrightarrow> foldl (\<lambda>m d. if d64_lt d m then d else m) d64_largest ds = arg_min_list d64_ord ds"
    and "kind = Agg_Max \<Longrightarrow> foldl (\<lambda>m d. if d64_lt m d then d else m) d64_lowest ds = arg_min_list (\<lambda>d. - d64_ord d) ds"
proof -
  assume "kind = Agg_Min"
  then have ds: "\<forall>d \<in> set ds. \<not> d64_isnan d \<and> d64_ord d \<le> d64_ord d64_largest" using assms(2) by (auto simp: within_limit_def d64_le_def)
  have "foldl (\<lambda>m d. if d64_lt d m then d else m) d64_largest ds = foldl (\<lambda>m d. if d64_ord d < d64_ord m then d else m) d64_largest ds"
    by (rule foldl_cong_set [where P = "\<lambda>m. \<not> d64_isnan m"]) (use ds limits_ord in \<open>auto simp: d64_lt_def\<close>)
  then show "foldl (\<lambda>m d. if d64_lt d m then d else m) d64_largest ds = arg_min_list d64_ord ds"
    using foldl_from_limit [where ds = ds and f = d64_ord and m = d64_largest] assms(1) ds d64_ord_limit(1) by simp
next
  assume "kind = Agg_Max"
  then have ds: "\<forall>d \<in> set ds. \<not> d64_isnan d \<and> d64_ord d64_lowest \<le> d64_ord d" using assms(2) by (auto simp: within_limit_def d64_le_def)
  have "foldl (\<lambda>m d. if d64_lt m d then d else m) d64_lowest ds = foldl (\<lambda>m d. if - d64_ord d < - d64_ord m then d else m) d64_lowest ds"
    by (rule foldl_cong_set [where P = "\<lambda>m. \<not> d64_isnan m"]) (use ds limits_ord in \<open>auto simp: d64_lt_def\<close>)
  then show "foldl (\<lambda>m d. if d64_lt m d then d else m) d64_lowest ds = arg_min_list (\<lambda>d. - d64_ord d) ds"
    using foldl_from_limit [where ds = ds and f = "\<lambda>d. - d64_ord d" and m = d64_lowest] assms(1) ds d64_ord_limit(2) by simp
qed

lemma double_states:
  assumes "get_aggregate_result_type kind E_Double = Inr ty" "length ds < 2 ^ 63"
  shows "rfold (\<lambda>d. update_global_aggregate_state (Some (R_Double d)) kind ty) ds GlobalAggregateState = Inr (double_state kind ds)"
  using assms(2)
proof (induction ds rule: rev_induct)
  case Nil
  show ?case by (cases kind) (simp_all add: double_state_def GlobalAggregateState_def)
next
  case (snoc d ds)
  have IH: "rfold (\<lambda>d. update_global_aggregate_state (Some (R_Double d)) kind ty) ds GlobalAggregateState = Inr (double_state kind ds)"
    using snoc by simp
  have "ag_count (double_state kind ds) = i64_of (int (length ds))" by (cases kind) (simp_all add: double_state_def)
  from count_step [OF this] snoc.prems
  have count: "i64_add (ag_count (double_state kind ds)) (i64_of 1) = Inr (i64_of (int (Suc (length ds))))" by simp
  have "update_global_aggregate_state (Some (R_Double d)) kind ty (double_state kind ds) = Inr (double_state kind (ds @ [d]))"
    using count assms(1)
    by (cases kind) (simp_all add: update_global_aggregate_state_def update_avg_def update_sum_def update_min_def update_max_def
      double_state_def is_numeric_expression_type_def)
  then show ?case by (simp add: rfold_snoc IH)
qed

lemma double_aggregates:
  assumes "get_aggregate_result_type kind E_Double = Inr ty" "length ds < 2 ^ 63" "present vs = map R_Double ds"
    and "within_limit kind ds"
  shows "aggregate kind ty vs = Inr (double_aggregate kind ds)"
proof -
  have "rfold (\<lambda>x. update_global_aggregate_state (Some x) kind ty) (present vs) GlobalAggregateState = Inr (double_state kind ds)"
    using double_states [OF assms(1,2)] by (simp add: assms(3) rfold_map)
  then show ?thesis using assms(1) i64_of_count [OF assms(2)] extreme_folds [OF _ assms(4)]
    by (cases kind; cases "ds = []")
      (auto simp: aggregate_present finalize_aggregate_state_def double_state_def double_aggregate_def is_numeric_expression_type_def)
qed

text \<open>MIN and MAX of doubles: a value of the column that no other is below or above.\<close>

lemma arg_min_list_least:
  fixes f :: "'a \<Rightarrow> int"
  assumes "ds \<noteq> []"
  shows "arg_min_list f ds \<in> set ds" "d \<in> set ds \<Longrightarrow> f (arg_min_list f ds) \<le> f d"
  using assms by (auto simp: arg_min_list_in f_arg_min_list_f)

lemma double_extremes:
  assumes "ds \<noteq> []"
  shows "\<exists>m \<in> set ds. double_aggregate Agg_Min ds = Some (R_Double m) \<and> (\<forall>d \<in> set ds. \<not> d64_lt d m)"
    and "\<exists>m \<in> set ds. double_aggregate Agg_Max ds = Some (R_Double m) \<and> (\<forall>d \<in> set ds. \<not> d64_lt m d)"
  using assms arg_min_list_least [OF assms, where f = d64_ord] arg_min_list_least [OF assms, where f = "\<lambda>d. - d64_ord d"]
  by (fastforce simp: double_aggregate_def d64_lt_def)+

text \<open>COUNT takes values of every type.\<close>

lemma count_aggregate:
  assumes "length (present vs) < 2 ^ 63"
  shows "aggregate Agg_Count E_Int64 vs = Inr (Some (R_Int (i64_of (int (length (present vs))))))"
proof -
  have "rfold (\<lambda>x. update_global_aggregate_state (Some x) Agg_Count E_Int64) xs GlobalAggregateState =
      Inr (GlobalAggregateState\<lparr>ag_count := i64_of (int (length xs))\<rparr>)" if "length xs < 2 ^ 63" for xs
    using that
  proof (induction xs rule: rev_induct)
    case Nil
    show ?case by (simp add: GlobalAggregateState_def)
  next
    case (snoc x xs)
    then show ?case using count_step [of "GlobalAggregateState\<lparr>ag_count := i64_of (int (length xs))\<rparr>" "length xs"]
      by (simp add: rfold_snoc update_global_aggregate_state_def)
  qed
  then show ?thesis using assms by (simp add: aggregate_present finalize_aggregate_state_def)
qed

section \<open>Values of one type\<close>

definition ints_of :: "nullable_result list \<Rightarrow> i64 list" where
  "ints_of vs = concat (map (\<lambda>v. case v of Some (R_Int n) \<Rightarrow> [n] | _ \<Rightarrow> []) vs)"

definition doubles_of :: "nullable_result list \<Rightarrow> double list" where
  "doubles_of vs = concat (map (\<lambda>v. case v of Some (R_Double d) \<Rightarrow> [d] | _ \<Rightarrow> []) vs)"

lemma present_typed:
  "\<forall>v \<in> set vs. has_result_type v E_Int64 \<Longrightarrow> present vs = map R_Int (ints_of vs)"
  "\<forall>v \<in> set vs. has_result_type v E_Double \<Longrightarrow> present vs = map R_Double (doubles_of vs)"
proof -
  have split: "v = None \<or> (\<exists>n. v = Some (R_Int n))" if "has_result_type v E_Int64" for v
    using that by (cases v; cases "the v") auto
  have split': "v = None \<or> (\<exists>n. v = Some (R_Double n))" if "has_result_type v E_Double" for v
    using that by (cases v; cases "the v") auto
  show "\<forall>v \<in> set vs. has_result_type v E_Int64 \<Longrightarrow> present vs = map R_Int (ints_of vs)"
    by (induction vs) (auto simp: ints_of_def dest!: split)
  show "\<forall>v \<in> set vs. has_result_type v E_Double \<Longrightarrow> present vs = map R_Double (doubles_of vs)"
    by (induction vs) (auto simp: doubles_of_def dest!: split')
qed

lemma length_present: "length (present vs) \<le> length vs"
  by (simp add: present_def)

text \<open>
  No sum of integers overflows, whatever the order; no value of MIN over doubles is NaN or \<open>+inf\<close> and none
  of MAX is NaN or \<open>-inf\<close>.
\<close>

definition values_fit :: "aggregate_kind \<Rightarrow> expression_type \<Rightarrow> nullable_result list \<Rightarrow> bool" where
  "values_fit kind ty vs \<longleftrightarrow> length vs < 2 ^ 63 \<and> (kind = Agg_Sum \<and> ty = E_Int64 \<longrightarrow> int_sum_fits (ints_of vs)) \<and>
     (ty = E_Double \<longrightarrow> within_limit kind (doubles_of vs))"

text \<open>What an aggregate of the bound type gives.\<close>

definition typed_aggregate :: "aggregate_kind \<Rightarrow> expression_type \<Rightarrow> nullable_result list \<Rightarrow> nullable_result" where
  "typed_aggregate kind ty vs =
     (if kind = Agg_Count then Some (R_Int (i64_of (int (length (present vs)))))
      else if ty = E_Int64 then int_aggregate kind (ints_of vs)
      else double_aggregate kind (doubles_of vs))"

lemma aggregate_typed:
  assumes "\<forall>v \<in> set vs. has_result_type v ty" "get_aggregate_result_type kind ty = Inr result_type" "values_fit kind ty vs"
  shows "aggregate kind result_type vs = Inr (typed_aggregate kind ty vs)"
proof (cases "kind = Agg_Count")
  case True
  then show ?thesis using count_aggregate [of vs] assms(2,3) length_present [of vs]
    by (simp add: typed_aggregate_def values_fit_def)
next
  case False
  then have "ty = E_Int64 \<or> ty = E_Double"
    using assms(2) by (cases kind) (auto simp: is_numeric_expression_type_def split: if_splits)
  then show ?thesis
  proof
    assume ty: "ty = E_Int64"
    have p: "present vs = map R_Int (ints_of vs)" using present_typed(1) assms(1) ty by blast
    then have "length (ints_of vs) < 2 ^ 63" using length_present [of vs] assms(3) by (simp add: values_fit_def)
    then show ?thesis using int_aggregates [of kind result_type "ints_of vs" vs] assms(2,3) p ty False
      by (simp add: typed_aggregate_def values_fit_def)
  next
    assume ty: "ty = E_Double"
    have p: "present vs = map R_Double (doubles_of vs)" using present_typed(2) assms(1) ty by blast
    then have "length (doubles_of vs) < 2 ^ 63" using length_present [of vs] assms(3) by (simp add: values_fit_def)
    then show ?thesis using double_aggregates [of kind result_type "doubles_of vs" vs] assms(2,3) p ty False
      by (simp add: typed_aggregate_def values_fit_def)
  qed
qed

lemma mset_present: "mset (present vs) = image_mset the {#v \<in># mset vs. v \<noteq> None#}"
  by (simp add: present_def mset_filter)

lemma mset_ints_of: "mset vs = mset ws \<Longrightarrow> mset (ints_of vs) = mset (ints_of ws)"
  by (simp add: ints_of_def mset_concat sum_mset_sum_list [symmetric] image_mset.compositionality)

text \<open>Over integers, and for COUNT over anything, the order of the rows does not matter, AVG apart.\<close>

lemma typed_aggregate_mset:
  assumes "mset vs = mset ws" "kind = Agg_Count \<or> ty = E_Int64 \<and> kind \<noteq> Agg_Avg"
  shows "typed_aggregate kind ty vs = typed_aggregate kind ty ws"
proof -
  have "length (present vs) = length (present ws)" using mset_present assms(1) by (metis size_mset)
  then show ?thesis using assms(2) int_aggregate_mset [OF mset_ints_of [OF assms(1)]] by (auto simp: typed_aggregate_def)
qed

lemma values_fit_sub:
  assumes "mset vs \<subseteq># mset ws" "values_fit kind ty ws"
  shows "values_fit kind ty vs"
proof -
  have len: "length vs \<le> length ws" using size_mset_mono [OF assms(1)] by simp
  have sum: "(\<Sum>n\<leftarrow>ints_of xs. \<bar>i64_val n\<bar>) = (\<Sum>v\<in>#mset xs. case v of Some (R_Int n) \<Rightarrow> \<bar>i64_val n\<bar> | _ \<Rightarrow> 0)" for xs
    by (induction xs) (auto simp: ints_of_def split: option.split result_value.split)
  obtain M where M: "mset ws = mset vs + M" using assms(1) by (metis mset_subset_eq_exists_conv)
  have "0 \<le> (\<Sum>v\<in>#M. case v of Some (R_Int n) \<Rightarrow> \<bar>i64_val n\<bar> | _ \<Rightarrow> 0)"
    by (induction M) (auto split: option.split result_value.split)
  then have "(\<Sum>n\<leftarrow>ints_of vs. \<bar>i64_val n\<bar>) \<le> (\<Sum>n\<leftarrow>ints_of ws. \<bar>i64_val n\<bar>)"
    unfolding sum M by simp
  moreover have "set (doubles_of vs) \<subseteq> set (doubles_of ws)"
    using assms(1) set_mset_mono [of "mset vs" "mset ws"] by (auto simp: doubles_of_def)
  ultimately show ?thesis using assms(2) len by (auto simp: values_fit_def int_sum_fits_def within_limit_def)
qed

end
