(* ===== verification/Query_Aggregate.thy ===== *)
theory Query_Aggregate
  imports Query_Answer Aggregate_Spec
begin

text \<open>
  What queries with aggregates and GROUP BY answer, over any engine that keeps its contract: the rows
  that satisfy WHERE, as one group or split into groups of equal keys, and a row of values for each group.
\<close>

section \<open>Groups of rows\<close>

text \<open>The value of an item in a group: of its first row, or the aggregate over all of its rows.\<close>

fun group_value :: "row list \<Rightarrow> bound_select_item \<Rightarrow> nullable_result" where
  "group_value g (BoundSelectItemExpression e) = value_in (hd g) e"
| "group_value g (BoundSelectAggregateExpression kind e ty) = typed_aggregate kind (be_type e) (map (\<lambda>r. value_in r e) g)"

text \<open>
  Result types as the binder gives them, no sum of integers that can overflow, no \<open>+inf\<close> for MIN and no \<open>-inf\<close> for MAX.
\<close>

fun item_fits :: "row list \<Rightarrow> bound_select_item \<Rightarrow> bool" where
  "item_fits rows (BoundSelectItemExpression e) \<longleftrightarrow> True"
| "item_fits rows (BoundSelectAggregateExpression kind e ty) \<longleftrightarrow>
     get_aggregate_result_type kind (be_type e) = Inr ty \<and> values_fit kind (be_type e) (map (\<lambda>r. value_in r e) rows)"

definition totals_fit :: "bound_select_statement \<Rightarrow> row list \<Rightarrow> bool" where
  "totals_fit stmt rows \<longleftrightarrow> (\<forall>item \<in> set (bs_select_items stmt). item_fits (filter (row_selected stmt) rows) item)"

lemma item_fits_sub:
  assumes "mset g \<subseteq># mset rows" "item_fits rows item"
  shows "item_fits g item"
proof (cases item)
  case (BoundSelectAggregateExpression kind e ty)
  have "mset (map (\<lambda>r. value_in r e) g) \<subseteq># mset (map (\<lambda>r. value_in r e) rows)"
    using image_mset_subseteq_mono [OF assms(1)] by simp
  from values_fit_sub [OF this] show ?thesis using assms(2) BoundSelectAggregateExpression by simp
qed simp

lemma item_aggregate:
  assumes ok: "statement_ok stmt" and item: "BoundSelectAggregateExpression kind e ty \<in> set (bs_select_items stmt)"
    and g: "\<forall>r \<in> set g. fits_query stmt r" and fits: "item_fits g (BoundSelectAggregateExpression kind e ty)"
  shows "aggregate kind ty (map (\<lambda>r. value_in r e) g) = Inr (group_value g (BoundSelectAggregateExpression kind e ty))"
proof -
  have e: "e \<in> set (statement_expressions stmt)" using clause_expressions(1) [OF item] by simp
  show ?thesis
    using aggregate_typed [where vs = "map (\<lambda>r. value_in r e) g" and ty = "be_type e"] value_in_ok(2) [OF ok _ e] g fits by auto
qed

section \<open>Columns of running states\<close>

text \<open>A loop over rows that updates a list of states is a list of loops.\<close>

lemma rfold_columns:
  assumes "rmap (\<lambda>(a, s). rfold (f a) xs s) (zip as ss) = Inr ts" "length ss = length as"
  shows "rfold (\<lambda>x ss. rmap (\<lambda>(a, s). f a x s) (zip as ss)) xs ss = Inr ts"
  using assms
proof (induction xs arbitrary: ss)
  case Nil
  then have "rmap (\<lambda>(a, s). Inr s) (zip as ss) = Inr ts" by simp
  moreover have "rmap (\<lambda>(a, s). Inr s) (zip as ss) = Inr (map snd (zip as ss))" by (rule rmap_pure) auto
  ultimately show ?case using Nil.prems(2) by simp
next
  case (Cons x xs)
  have "\<exists>ss'. rmap (\<lambda>(a, s). f a x s) (zip as ss) = Inr ss' \<and> rmap (\<lambda>(a, s). rfold (f a) xs s) (zip as ss') = Inr ts \<and> length ss' = length as"
    using Cons.prems(2,1)
  proof (induction ss as arbitrary: ts rule: list_induct2)
    case (Cons s ss a as)
    then obtain s' t ts' where s: "f a x s = Inr s'" "rfold (f a) xs s' = Inr t" "ts = t # ts'"
        "rmap (\<lambda>(a, s). rfold (f a) (x # xs) s) (zip as ss) = Inr ts'"
      by (auto simp: rbind_eq_Inr)
    from Cons.IH [OF s(4)] obtain ss' where "rmap (\<lambda>(a, s). f a x s) (zip as ss) = Inr ss'"
        "rmap (\<lambda>(a, s). rfold (f a) xs s) (zip as ss') = Inr ts'" "length ss' = length as" by blast
    then show ?case using s by (intro exI [of _ "s' # ss'"]) simp
  qed simp
  then show ?case using Cons.IH by auto
qed

lemma rfold_filter:
  assumes "\<And>x s. x \<in> set xs \<Longrightarrow> f x s = (if p x then g x s else Inr s)"
  shows "rfold f xs s = rfold g (filter p xs) s"
  using assms by (induction xs arbitrary: s) (auto intro!: rbind_cong)

lemma rfold_cong_set: "(\<And>x s. x \<in> set xs \<Longrightarrow> f x s = g x s) \<Longrightarrow> rfold f xs s = rfold g xs s"
  by (induction xs arbitrary: s) (auto intro!: rbind_cong)

section \<open>Aggregates over all rows\<close>

definition global :: "bound_select_statement \<Rightarrow> bool" where
  "global stmt \<longleftrightarrow> bs_select_items stmt \<noteq> [] \<and> list_all is_aggregate_item (bs_select_items stmt) \<and> bs_group_by_items stmt = []"

fun aggregate_parts :: "bound_select_item \<Rightarrow> aggregate_kind \<times> bound_expression \<times> expression_type" where
  "aggregate_parts (BoundSelectAggregateExpression kind e ty) = (kind, e, ty)"
| "aggregate_parts (BoundSelectItemExpression e) = (Agg_Count, e, E_Int64)"

lemma global_items:
  assumes "global stmt"
  shows "rmap global_item (bs_select_items stmt) = Inr (map aggregate_parts (bs_select_items stmt))"
    and "has_aggregates stmt" "bs_group_by_items stmt = []"
proof -
  show "rmap global_item (bs_select_items stmt) = Inr (map aggregate_parts (bs_select_items stmt))"
  proof (rule rmap_pure)
    fix item assume "item \<in> set (bs_select_items stmt)"
    then have "is_aggregate_item item" using assms by (auto simp: global_def list_all_iff)
    then show "global_item item = Inr (aggregate_parts item)" by (cases item) (simp_all add: is_aggregate_item_def)
  qed
  show "has_aggregates stmt" "bs_group_by_items stmt = []"
    using assms by (cases "bs_select_items stmt"; auto simp: global_def has_aggregates_def)+
qed

lemma global_step_reads:
  assumes ok: "statement_ok stmt"
  shows "reads_only (collect_required_projection stmt) (global_step stmt (map aggregate_parts (bs_select_items stmt)))"
  unfolding reads_only_def
proof (intro allI impI)
  fix rd rd' states assume rd: "\<forall>i \<in> set (collect_required_projection stmt). rd i = (rd' i :: nullable_value res)"
  have "update_aggregate rd entry = update_aggregate rd' entry"
    if "entry \<in> set (zip (map aggregate_parts (bs_select_items stmt)) states)" for entry
  proof -
    obtain parts ag where entry: "entry = (parts, ag)" by (cases entry)
    then have "parts \<in> set (map aggregate_parts (bs_select_items stmt))" using that by (auto dest: set_zip_leftD)
    then obtain item where "parts = aggregate_parts item" and item: "item \<in> set (bs_select_items stmt)" by auto
    then show ?thesis
      using agree_evaluate [OF ok clause_expressions(1) [OF item] rd] entry by (cases item) (simp_all add: update_aggregate_def)
  qed
  then have "rmap (update_aggregate rd) (zip (map aggregate_parts (bs_select_items stmt)) states) =
      rmap (update_aggregate rd') (zip (map aggregate_parts (bs_select_items stmt)) states)"
    by (rule rmap_cong)
  then show "global_step stmt (map aggregate_parts (bs_select_items stmt)) rd states =
      global_step stmt (map aggregate_parts (bs_select_items stmt)) rd' states"
    unfolding global_step_def agree_where [OF ok rd] by (simp cong: if_cong)
qed

text \<open>The state an aggregate reaches over a group of rows, and what it comes to.\<close>

lemma group_state_reached:
  assumes ok: "statement_ok stmt" and item: "item \<in> set (bs_select_items stmt)" "item = BoundSelectAggregateExpression kind e ty"
    and g: "\<forall>r \<in> set g. fits_query stmt r" and fits: "item_fits g item"
  obtains ag where "rfold (\<lambda>r ag. update_aggregate (row_value r) ((kind, e, ty), ag)) g GlobalAggregateState = Inr ag"
    "finalize_aggregate_state kind ty ag = Inr (group_value g item)"
proof -
  have e: "e \<in> set (statement_expressions stmt)" using clause_expressions(1) [OF item(1)] item(2) by simp
  have "rfold (\<lambda>r ag. update_aggregate (row_value r) ((kind, e, ty), ag)) g GlobalAggregateState =
      rfold (\<lambda>r. update_global_aggregate_state (value_in r e) kind ty) g GlobalAggregateState"
    by (rule rfold_cong_set) (use value_in_ok(1) [OF ok _ e] g in \<open>simp add: update_aggregate_def\<close>)
  moreover have "aggregate kind ty (map (\<lambda>r. value_in r e) g) = Inr (group_value g item)"
    using item_aggregate [OF ok _ g] item fits by simp
  ultimately show thesis using that by (auto simp: aggregate_def rfold_map rbind_eq_Inr)
qed

lemma update_aggregate_split: "update_aggregate rd = (\<lambda>(parts, ag). update_aggregate rd (parts, ag))"
  by (rule ext) (simp split: prod.split)

lemma global_loop:
  assumes ok: "statement_ok stmt" "global stmt" and rows: "\<forall>r \<in> set res. fits_query stmt r"
    and fits: "\<forall>item \<in> set (bs_select_items stmt). item_fits (filter (row_selected stmt) res) item"
  obtains ags where
    "rfold (\<lambda>r. global_step stmt (map aggregate_parts (bs_select_items stmt)) (row_value r)) res
       (map (\<lambda>_. GlobalAggregateState) (map aggregate_parts (bs_select_items stmt))) = Inr ags"
    "rmap finalize_entry (zip (map aggregate_parts (bs_select_items stmt)) ags) =
       Inr (map (group_value (filter (row_selected stmt) res)) (bs_select_items stmt))"
proof -
  let ?g = "filter (row_selected stmt) res" and ?items = "bs_select_items stmt"
  let ?f = "\<lambda>parts r ag. update_aggregate (row_value r) (parts, ag)"
  have g: "\<forall>r \<in> set ?g. fits_query stmt r" using rows by simp
  have "\<exists>ag. rfold (?f (aggregate_parts item)) ?g GlobalAggregateState = Inr ag \<and>
      finalize_entry (aggregate_parts item, ag) = Inr (group_value ?g item)" if item: "item \<in> set ?items" for item
  proof -
    have "is_aggregate_item item" using ok(2) item by (auto simp: global_def list_all_iff)
    then obtain kind e ty where i: "item = BoundSelectAggregateExpression kind e ty" by (cases item) (simp_all add: is_aggregate_item_def)
    obtain ag where "rfold (?f (kind, e, ty)) ?g GlobalAggregateState = Inr ag" "finalize_aggregate_state kind ty ag = Inr (group_value ?g item)"
      by (rule group_state_reached [OF ok(1) item i g]) (use fits item in blast)
    then show ?thesis using i by (simp add: finalize_entry_def)
  qed
  then obtain ag where ag: "\<And>item. item \<in> set ?items \<Longrightarrow> rfold (?f (aggregate_parts item)) ?g GlobalAggregateState = Inr (ag item)"
      "\<And>item. item \<in> set ?items \<Longrightarrow> finalize_entry (aggregate_parts item, ag item) = Inr (group_value ?g item)"
    by metis
  let ?ps = "map aggregate_parts ?items" and ?init = "map (\<lambda>_. GlobalAggregateState) (map aggregate_parts ?items)"
  have "rmap (\<lambda>(parts, s). rfold (?f parts) ?g s) (zip ?ps ?init) = Inr (map ag ?items)"
  proof -
    have "zip ?ps ?init = map (\<lambda>item. (aggregate_parts item, GlobalAggregateState)) ?items"
      by (simp add: zip_map_map zip_same_conv_map)
    then show ?thesis using ag(1) by (simp add: rmap_Inr_iff list_all2_map1 list_all2_map2 list.rel_refl_strong)
  qed
  from rfold_columns [OF this] have "rfold (\<lambda>r ss. rmap (\<lambda>(parts, s). ?f parts r s) (zip ?ps ss)) ?g ?init = Inr (map ag ?items)" by simp
  moreover have "rfold (\<lambda>r. global_step stmt ?ps (row_value r)) res ?init =
      rfold (\<lambda>r ss. rmap (\<lambda>(parts, s). ?f parts r s) (zip ?ps ss)) ?g ?init"
    by (rule rfold_filter) (use where_holds_row [OF ok(1)] rows in \<open>simp add: global_step_def flip: update_aggregate_split\<close>)
  moreover have "rmap finalize_entry (zip ?ps (map ag ?items)) = Inr (map (group_value ?g) ?items)"
    using ag(2) by (simp add: zip_map_map zip_same_conv_map rmap_Inr_iff list_all2_map1 list_all2_map2 list.rel_refl_strong)
  ultimately show thesis using that by simp
qed

section \<open>Groups\<close>

definition group_keys :: "bound_select_statement \<Rightarrow> row \<Rightarrow> nullable_result list" where
  "group_keys stmt r = map (value_in r) (bs_group_by_items stmt)"

definition group_cmp :: "bound_select_statement \<Rightarrow> row \<Rightarrow> row \<Rightarrow> int" where
  "group_cmp stmt r q = keys_cmp (replicate (length (bs_group_by_items stmt)) Asc) (group_keys stmt r) (group_keys stmt q)"

abbreviation same_group :: "bound_select_statement \<Rightarrow> row \<Rightarrow> row \<Rightarrow> bool" where
  "same_group stmt r q \<equiv> group_cmp stmt r q = 0"

lemma group_key_less_cmp:
  assumes "list_all2 sortable tys xs" "list_all2 sortable tys ys"
  shows "group_key_less xs ys = Inr (keys_cmp (replicate (length tys) Asc) xs ys < 0)"
  using assms
proof (induction tys arbitrary: xs ys)
  case (Cons ty tys)
  then obtain x xs' y ys' where l: "xs = x # xs'" "ys = y # ys'" "sortable ty x" "sortable ty y"
      "list_all2 sortable tys xs'" "list_all2 sortable tys ys'"
    by (auto simp: list_all2_Cons1)
  show ?case using Cons.IH [OF l(5,6)] value_cmp_Inr [OF l(3,4)] by (simp add: l(1,2) Let_def)
qed simp

lemma group_keys_sortable:
  assumes "statement_ok stmt" "fits_query stmt r"
  shows "list_all2 sortable (map be_type (bs_group_by_items stmt)) (group_keys stmt r)"
  unfolding group_keys_def list_all2_map1 list_all2_map2
  using value_in_sortable [OF assms clause_expressions(3)] by (intro list.rel_refl_strong) auto

lemma group_less:
  assumes "statement_ok stmt" "fits_query stmt r" "fits_query stmt q"
  shows "group_key_less (group_keys stmt r) (group_keys stmt q) = Inr (group_cmp stmt r q < 0)"
  using group_key_less_cmp [OF group_keys_sortable [OF assms(1,2)] group_keys_sortable [OF assms(1,3)]] by (simp add: group_cmp_def)

lemma group_cmp_swap: "group_cmp stmt q r = - group_cmp stmt r q"
  unfolding group_cmp_def by (rule keys_cmp_swap)

lemma group_cmp_trans:
  assumes "statement_ok stmt" "fits_query stmt r" "fits_query stmt q" "fits_query stmt p"
    and "group_cmp stmt r q \<le> 0" "group_cmp stmt q p \<le> 0"
  shows "group_cmp stmt r p \<le> 0"
  using keys_cmp_trans [OF group_keys_sortable [OF assms(1,2)] group_keys_sortable [OF assms(1,3)] group_keys_sortable [OF assms(1,4)]] assms(5,6)
  by (simp add: group_cmp_def)

text \<open>The groups as lists of their rows, in ascending order of their keys.\<close>

fun add_to_group :: "bound_select_statement \<Rightarrow> row \<Rightarrow> row list list \<Rightarrow> row list list" where
  "add_to_group stmt r [] = [[r]]"
| "add_to_group stmt r (g # gs) =
     (if group_cmp stmt (hd g) r < 0 then g # add_to_group stmt r gs
      else if group_cmp stmt r (hd g) < 0 then [r] # g # gs
      else (g @ [r]) # gs)"

definition groups_ok :: "bound_select_statement \<Rightarrow> row list list \<Rightarrow> bool" where
  "groups_ok stmt gs \<longleftrightarrow>
     (\<forall>g \<in> set gs. g \<noteq> [] \<and> (\<forall>r \<in> set g. fits_query stmt r \<and> same_group stmt (hd g) r)) \<and>
     sorted_wrt (\<lambda>g h. group_cmp stmt (hd g) (hd h) < 0) gs"

lemma mset_add_to_group: "mset (concat (add_to_group stmt r gs)) = add_mset r (mset (concat gs))"
  by (induction gs) auto

lemma add_to_group_hd: "h \<in> set (add_to_group stmt r gs) \<Longrightarrow> (\<forall>g \<in> set gs. g \<noteq> []) \<Longrightarrow> hd h = r \<or> (\<exists>g \<in> set gs. hd h = hd g)"
  by (induction gs) (auto split: if_splits)

lemma add_to_group_ok:
  assumes ok: "statement_ok stmt" and r: "fits_query stmt r" and gs: "groups_ok stmt gs"
  shows "groups_ok stmt (add_to_group stmt r gs)"
  using gs
proof (induction gs)
  case Nil
  show ?case using r group_cmp_swap [of stmt r r] by (simp add: groups_ok_def)
next
  case (Cons g gs)
  have g: "g \<noteq> []" "\<forall>q \<in> set g. fits_query stmt q \<and> same_group stmt (hd g) q" "groups_ok stmt gs"
      "\<forall>h \<in> set gs. group_cmp stmt (hd g) (hd h) < 0" "\<forall>h \<in> set gs. h \<noteq> [] \<and> fits_query stmt (hd h)"
    using Cons.prems by (auto simp: groups_ok_def)
  have hd: "fits_query stmt (hd g)" using g(1,2) by simp
  note tr = group_cmp_trans [OF ok]
  consider (later) "group_cmp stmt (hd g) r < 0" | (before) "group_cmp stmt r (hd g) < 0" | (same) "same_group stmt (hd g) r"
    using group_cmp_swap [of stmt r "hd g"] by linarith
  then show ?case
  proof cases
    case later
    have "group_cmp stmt (hd g) (hd h) < 0" if "h \<in> set (add_to_group stmt r gs)" for h
      using add_to_group_hd [OF that] g(4,5) later by auto
    then show ?thesis using Cons.IH [OF g(3)] g(1,2) later by (auto simp: groups_ok_def)
  next
    case before
    have "group_cmp stmt r (hd h) < 0" if "h \<in> set gs" for h
      using tr [OF r hd, of "hd h"] tr [of "hd h" r "hd g"] group_cmp_swap [of stmt r "hd h"] group_cmp_swap [of stmt "hd g" "hd h"]
        before g(4,5) that r hd by fastforce
    then show ?thesis using before Cons.prems r group_cmp_swap [of stmt r r] group_cmp_swap [of stmt r "hd g"] by (auto simp: groups_ok_def)
  next
    case same
    then show ?thesis using Cons.prems g(1) r group_cmp_swap [of stmt r "hd g"] by (auto simp: groups_ok_def)
  qed
qed

text \<open>The state the program keeps for a group.\<close>

definition item_state :: "bound_select_item \<Rightarrow> row list \<Rightarrow> aggregate_state" where
  "item_state item g =
     (case rfold (\<lambda>r ag. update_group_item (row_value r) (item, ag)) g GlobalAggregateState of
        Inr ag \<Rightarrow> ag | Inl e \<Rightarrow> GlobalAggregateState)"

definition group_of :: "bound_select_statement \<Rightarrow> row list \<Rightarrow> row \<Rightarrow> group_state" where
  "group_of stmt g r =
     \<lparr>gs_select_expression_values =
        map (\<lambda>item. case item of BoundSelectItemExpression e \<Rightarrow> value_in r e | _ \<Rightarrow> None) (bs_select_items stmt),
      gs_order_by_values = order_keys stmt r,
      gs_aggregate_states = map (\<lambda>item. item_state item g) (bs_select_items stmt)\<rparr>"

definition groups_of :: "bound_select_statement \<Rightarrow> row list list \<Rightarrow> groups" where
  "groups_of stmt gs = map (\<lambda>g. (group_keys stmt (hd g), group_of stmt g (hd g))) gs"

lemma item_state_reached:
  assumes ok: "statement_ok stmt" and item: "item \<in> set (bs_select_items stmt)"
    and g: "\<forall>r \<in> set g. fits_query stmt r" and fits: "item_fits g item"
  shows "rfold (\<lambda>r ag. update_group_item (row_value r) (item, ag)) g GlobalAggregateState = Inr (item_state item g)"
    and "group_cell (item, case item of BoundSelectItemExpression e \<Rightarrow> value_in (hd g) e | _ \<Rightarrow> None, item_state item g) = Inr (group_value g item)"
proof -
  have "\<exists>ag. rfold (\<lambda>r ag. update_group_item (row_value r) (item, ag)) g GlobalAggregateState = Inr ag \<and>
      group_cell (item, case item of BoundSelectItemExpression e \<Rightarrow> value_in (hd g) e | _ \<Rightarrow> None, ag) = Inr (group_value g item)"
  proof (cases item)
    case (BoundSelectItemExpression e)
    have "rfold (\<lambda>r ag. Inr ag) g s = Inr s" for s :: aggregate_state by (induction g) simp_all
    then show ?thesis using BoundSelectItemExpression by simp
  next
    case (BoundSelectAggregateExpression kind e ty)
    obtain ag where "rfold (\<lambda>r ag. update_aggregate (row_value r) ((kind, e, ty), ag)) g GlobalAggregateState = Inr ag"
        "finalize_aggregate_state kind ty ag = Inr (group_value g item)"
      by (rule group_state_reached [OF ok item BoundSelectAggregateExpression g fits])
    then show ?thesis using BoundSelectAggregateExpression by simp
  qed
  then show "rfold (\<lambda>r ag. update_group_item (row_value r) (item, ag)) g GlobalAggregateState = Inr (item_state item g)"
    and "group_cell (item, case item of BoundSelectItemExpression e \<Rightarrow> value_in (hd g) e | _ \<Rightarrow> None, item_state item g) = Inr (group_value g item)"
    by (auto simp: item_state_def)
qed

lemma item_state_snoc:
  assumes "statement_ok stmt" "item \<in> set (bs_select_items stmt)" "\<forall>q \<in> set (g @ [r]). fits_query stmt q" "item_fits (g @ [r]) item"
  shows "update_group_item (row_value r) (item, item_state item g) = Inr (item_state item (g @ [r]))"
proof -
  have "item_fits g item" by (rule item_fits_sub [OF _ assms(4)]) simp
  then show ?thesis
    using item_state_reached(1) [OF assms] item_state_reached(1) [OF assms(1,2), of g] assms(3) by (simp add: rfold_snoc)
qed

text \<open>One row joins a group, or opens one.\<close>

lemma group_joins:
  assumes ok: "statement_ok stmt" and fits: "\<forall>q \<in> set (g @ [r]). fits_query stmt q" "\<forall>item \<in> set (bs_select_items stmt). item_fits (g @ [r]) item"
  shows "update_group stmt (row_value r) (Some (group_of stmt g q)) = Inr (group_of stmt (g @ [r]) q)"
    and "g = [] \<Longrightarrow> update_group stmt (row_value r) None = Inr (group_of stmt [r] r)"
proof -
  have upd: "rmap (update_group_item (row_value r)) (zip (bs_select_items stmt) (map (\<lambda>item. item_state item g) (bs_select_items stmt))) =
      Inr (map (\<lambda>item. item_state item (g @ [r])) (bs_select_items stmt))"
    unfolding zip_map2 zip_same_conv_map
    using item_state_snoc [OF ok _ fits(1)] fits(2) by (simp add: rmap_Inr_iff list_all2_map1 list_all2_map2 list.rel_refl_strong)
  then show "update_group stmt (row_value r) (Some (group_of stmt g q)) = Inr (group_of stmt (g @ [r]) q)"
    by (simp add: update_group_def group_of_def)
  assume g: "g = []"
  have r: "fits_query stmt r" using fits(1) by simp
  have vals: "rmap (group_item_value (row_value r)) (bs_select_items stmt) =
      Inr (map (\<lambda>item. case item of BoundSelectItemExpression e \<Rightarrow> value_in r e | _ \<Rightarrow> None) (bs_select_items stmt))"
  proof (rule rmap_pure)
    fix item assume item: "item \<in> set (bs_select_items stmt)"
    show "group_item_value (row_value r) item = Inr (case item of BoundSelectItemExpression e \<Rightarrow> value_in r e | _ \<Rightarrow> None)"
      using value_in_ok(1) [OF ok r clause_expressions(1) [OF item]] by (cases item) simp_all
  qed
  have "item_state item [] = GlobalAggregateState" for item by (simp add: item_state_def)
  then have "replicate (length (bs_select_items stmt)) GlobalAggregateState = map (\<lambda>item. item_state item g) (bs_select_items stmt)"
    by (simp add: g map_replicate_const)
  then have "new_group stmt (row_value r) = Inr (group_of stmt g r)"
    using vals order_keys_row [OF ok r] by (simp add: new_group_def group_of_def)
  then show "update_group stmt (row_value r) None = Inr (group_of stmt [r] r)"
    using upd by (simp add: update_group_def group_of_def g)
qed

lemma group_apply_adds:
  assumes ok: "statement_ok stmt" and gs: "groups_ok stmt gs" and r: "fits_query stmt r"
    and fits: "\<forall>g \<in> insert [] (set gs). \<forall>item \<in> set (bs_select_items stmt). item_fits (g @ [r]) item"
  shows "group_apply (group_keys stmt r) (update_group stmt (row_value r)) (groups_of stmt gs) = Inr (groups_of stmt (add_to_group stmt r gs))"
  using gs fits
proof (induction gs)
  case Nil
  then show ?case using group_joins(2) [OF ok, of "[]" r] r by (simp add: groups_of_def)
next
  case (Cons g gs)
  have g: "g \<noteq> []" "\<forall>q \<in> set (g @ [r]). fits_query stmt q" "fits_query stmt (hd g)" "groups_ok stmt gs"
    using Cons.prems r by (auto simp: groups_ok_def)
  have IH: "group_apply (group_keys stmt r) (update_group stmt (row_value r)) (groups_of stmt gs) = Inr (groups_of stmt (add_to_group stmt r gs))"
    using Cons.IH [OF g(4)] Cons.prems(2) by simp
  have new: "update_group stmt (row_value r) None = Inr (group_of stmt [r] r)"
    using group_joins(2) [OF ok, of "[]" r] r Cons.prems(2) by simp
  have old: "update_group stmt (row_value r) (Some (group_of stmt g (hd g))) = Inr (group_of stmt (g @ [r]) (hd g))"
    using group_joins(1) [OF ok g(2)] Cons.prems(2) by simp
  show ?case
    using IH new old group_less [OF ok g(3) r] group_less [OF ok r g(3)] g(1) by (simp add: groups_of_def)
qed

text \<open>The loop.\<close>

definition grouping :: "bound_select_statement \<Rightarrow> row list \<Rightarrow> row list list" where
  "grouping stmt rows = fold (add_to_group stmt) rows []"

lemma grouping_ok:
  assumes "statement_ok stmt" "\<forall>r \<in> set rows. fits_query stmt r"
  shows "groups_ok stmt (grouping stmt rows)" "mset (concat (grouping stmt rows)) = mset rows"
  using assms(2)
proof (induction rows rule: rev_induct)
  case Nil
  { case 1 show ?case by (simp add: grouping_def groups_ok_def) }
  { case 2 show ?case by (simp add: grouping_def) }
next
  case (snoc r rows)
  { case 1 then show ?case using add_to_group_ok [OF assms(1)] snoc(1) by (simp add: grouping_def) }
  { case 2 then show ?case using mset_add_to_group snoc(2) by (simp add: grouping_def) }
qed

lemma mset_concat_member: "g \<in> set gs \<Longrightarrow> mset g \<subseteq># mset (concat gs)"
  by (induction gs) (auto intro: subset_mset.add_increasing subset_mset.add_increasing2)

lemma group_rows_loop:
  assumes ok: "statement_ok stmt" and rows: "\<forall>r \<in> set rows. fits_query stmt r" and fits: "\<forall>item \<in> set (bs_select_items stmt). item_fits rows item"
  shows "rfold (\<lambda>r gs. rbind (rmap (evaluate_expression (row_value r)) (bs_group_by_items stmt)) (\<lambda>k. group_apply k (update_group stmt (row_value r)) gs))
    rows [] = Inr (groups_of stmt (grouping stmt rows))"
  using rows fits
proof (induction rows rule: rev_induct)
  case Nil
  show ?case by (simp add: grouping_def groups_of_def)
next
  case (snoc r rows)
  have r: "fits_query stmt r" "\<forall>r \<in> set rows. fits_query stmt r" using snoc.prems by auto
  note g = grouping_ok [OF ok r(2)]
  have sub: "\<forall>item \<in> set (bs_select_items stmt). item_fits xs item" if "mset xs \<subseteq># mset (rows @ [r])" for xs
    using item_fits_sub [OF that] snoc.prems(2) by blast
  have keys: "rmap (evaluate_expression (row_value r)) (bs_group_by_items stmt) = Inr (group_keys stmt r)"
    unfolding group_keys_def by (rule rmap_pure) (rule value_in_ok(1) [OF ok r(1) clause_expressions(3)])
  have "mset (g @ [r]) \<subseteq># mset (rows @ [r])" if "g \<in> insert [] (set (grouping stmt rows))" for g
    using that mset_concat_member [of g "grouping stmt rows"] g(2) by auto
  then have "group_apply (group_keys stmt r) (update_group stmt (row_value r)) (groups_of stmt (grouping stmt rows)) =
      Inr (groups_of stmt (add_to_group stmt r (grouping stmt rows)))"
    by (intro group_apply_adds [OF ok g(1) r(1)] ballI) (use sub in blast)
  moreover have "mset rows \<subseteq># mset (rows @ [r])" by simp
  ultimately show ?case using snoc.IH [OF r(2) sub] keys by (simp add: rfold_snoc grouping_def)
qed

text \<open>The answer: a row for each group, in the order of ORDER BY, or of the group keys without it.\<close>

definition group_order :: "bound_select_statement \<Rightarrow> row list \<Rightarrow> row list \<Rightarrow> bool" where
  "group_order stmt g h =
     (if bs_order_by_items stmt = [] then group_cmp stmt (hd g) (hd h) < 0 else in_order stmt (hd g) (hd h))"

definition grouped_answer :: "bound_select_statement \<Rightarrow> row list \<Rightarrow> result_row list \<Rightarrow> bool" where
  "grouped_answer stmt rows answer \<longleftrightarrow>
     (\<exists>gs. mset (concat gs) = mset (filter (row_selected stmt) rows) \<and>
        (\<forall>g \<in> set gs. g \<noteq> [] \<and> (\<forall>r \<in> set g. same_group stmt (hd g) r)) \<and>
        distinct gs \<and> (\<forall>g \<in> set gs. \<forall>h \<in> set gs. same_group stmt (hd g) (hd h) \<longrightarrow> g = h) \<and>
        sorted_wrt (group_order stmt) gs \<and>
        answer = limited (bs_limit stmt) (map (\<lambda>g. map (group_value g) (bs_select_items stmt)) gs))"

lemma groups_ok_distinct:
  assumes "groups_ok stmt gs"
  shows "distinct gs \<and> (\<forall>g \<in> set gs. \<forall>h \<in> set gs. same_group stmt (hd g) (hd h) \<longrightarrow> g = h)"
proof -
  have "sorted_wrt (\<lambda>g h. group_cmp stmt (hd g) (hd h) < 0) gs" using assms by (simp add: groups_ok_def)
  then show ?thesis
  proof (induction gs)
    case (Cons g gs)
    have "\<not> same_group stmt (hd g) (hd h)" "\<not> same_group stmt (hd h) (hd g)" "h \<noteq> g" if "h \<in> set gs" for h
      using Cons.prems that group_cmp_swap [of stmt "hd g" "hd h"] by auto
    then show ?case using Cons by auto
  qed simp
qed

lemma zip3_map: "zip xs (zip (map f xs) (map g xs)) = map (\<lambda>x. (x, f x, g x)) xs"
  by (induction xs) simp_all

lemma group_row_value:
  assumes ok: "statement_ok stmt" and g: "\<forall>r \<in> set g. fits_query stmt r" and fits: "\<forall>item \<in> set (bs_select_items stmt). item_fits g item"
  shows "group_row stmt (group_of stmt g (hd g)) = Inr (map (group_value g) (bs_select_items stmt))"
  unfolding group_row_def group_of_def group_state.simps zip3_map
  using item_state_reached(2) [OF ok _ g] fits
  by (simp add: rmap_Inr_iff list_all2_map1 list_all2_map2 list.rel_refl_strong)

lemma mset_concat_eq: "mset gs = mset hs \<Longrightarrow> mset (concat gs) = mset (concat hs)"
  by (simp add: mset_concat sum_mset_sum_list [symmetric])

lemma group_finish_answer:
  assumes ok: "statement_ok stmt" "std_sort_ok sorter" and rows: "\<forall>r \<in> set sel. fits_query stmt r"
    and fits: "\<forall>item \<in> set (bs_select_items stmt). item_fits sel item" and sel: "mset sel = mset (filter (row_selected stmt) rows)"
  obtains answer where "group_finish sorter stmt names (groups_of stmt (grouping stmt sel)) = Inr \<lparr>sr_column_names = names, sr_rows = answer\<rparr>"
    "grouped_answer stmt rows answer"
proof -
  let ?gs = "grouping stmt sel" and ?row = "\<lambda>g. map (group_value g) (bs_select_items stmt)"
  let ?entry = "\<lambda>g. (order_keys stmt (hd g), ?row g)"
  note g = grouping_ok [OF ok(1) rows]
  have member: "g \<noteq> []" "\<forall>r \<in> set g. fits_query stmt r \<and> same_group stmt (hd g) r" "\<forall>item \<in> set (bs_select_items stmt). item_fits g item"
    if "g \<in> set ?gs" for g
    using that g(1) item_fits_sub [of g sel] mset_concat_member [OF that] fits g(2) by (auto simp: groups_ok_def)
  have entries: "rmap (\<lambda>(k, gs). rbind (group_row stmt gs) (\<lambda>row. Inr (gs_order_by_values gs, row))) (groups_of stmt ?gs) = Inr (map ?entry ?gs)"
  proof -
    have "group_row stmt (group_of stmt g (hd g)) = Inr (?row g)" if "g \<in> set ?gs" for g
      using group_row_value [OF ok(1)] member [OF that] by blast
    then show ?thesis
      unfolding groups_of_def by (simp add: rmap_Inr_iff list_all2_map1 list_all2_map2 list.rel_refl_strong group_of_def)
  qed
  obtain order where order: "(if bs_order_by_items stmt = [] then Inr (map ?entry ?gs) else sorter (sort_row_less stmt) (map ?entry ?gs)) =
        Inr (map ?entry order)" "mset order = mset ?gs" "sorted_wrt (group_order stmt) order"
  proof (cases "bs_order_by_items stmt = []")
    case True
    have "sorted_wrt (\<lambda>g h. group_cmp stmt (hd g) (hd h) < 0) ?gs" using g(1) by (simp add: groups_ok_def)
    then have "sorted_wrt (group_order stmt) ?gs" by (rule sorted_wrt_mono_rel [rotated]) (simp add: group_order_def True)
    then show thesis using True that [of ?gs] by simp
  next
    case False
    have "\<forall>g \<in> set ?gs. fits_query stmt (hd g)" using member by simp
    from sorter_orders [where p = hd and h = ?row, OF ok this] obtain order where
      "sorter (sort_row_less stmt) (map ?entry ?gs) = Inr (map ?entry order)" "mset order = mset ?gs"
      "sorted_wrt (\<lambda>g h. in_order stmt (hd g) (hd h)) order" by blast
    moreover from this(3) have "sorted_wrt (group_order stmt) order"
      by (rule sorted_wrt_mono_rel [rotated]) (simp add: group_order_def False)
    ultimately show thesis using False that [of order] by simp
  qed
  have "group_finish sorter stmt names (groups_of stmt ?gs) =
      Inr \<lparr>sr_column_names = names, sr_rows = limited (bs_limit stmt) (map ?row order)\<rparr>"
    using entries order(1) by (simp add: group_finish_def o_def apply_limit_limited)
  moreover have "grouped_answer stmt rows (limited (bs_limit stmt) (map ?row order))"
  proof -
    have set: "set order = set ?gs" by (rule mset_eq_setD [OF order(2)])
    have "mset (concat order) = mset (filter (row_selected stmt) rows)" using mset_concat_eq [OF order(2)] g(2) sel by simp
    moreover have "distinct order" using groups_ok_distinct [OF g(1)] order(2) mset_eq_imp_distinct_iff by blast
    ultimately show ?thesis unfolding grouped_answer_def
      using set member groups_ok_distinct [OF g(1)] order(3) by (intro exI [of _ order]) auto
  qed
  ultimately show thesis by (rule that)
qed

lemma group_step_reads:
  assumes ok: "statement_ok stmt"
  shows "reads_only (collect_required_projection stmt) (group_step stmt)"
  unfolding reads_only_def
proof (intro allI impI)
  fix rd rd' groups assume rd: "\<forall>i \<in> set (collect_required_projection stmt). rd i = (rd' i :: nullable_value res)"
  note ev = agree_evaluate [OF ok _ rd]
  have keys: "rmap (evaluate_expression rd) (bs_group_by_items stmt) = rmap (evaluate_expression rd') (bs_group_by_items stmt)"
    by (rule rmap_cong) (rule ev [OF clause_expressions(3)])
  have order: "rmap (\<lambda>item. evaluate_expression rd (bo_expression item)) (bs_order_by_items stmt) =
      rmap (\<lambda>item. evaluate_expression rd' (bo_expression item)) (bs_order_by_items stmt)"
    by (rule rmap_cong) (rule ev [OF clause_expressions(4)])
  have vals: "rmap (group_item_value rd) (bs_select_items stmt) = rmap (group_item_value rd') (bs_select_items stmt)"
  proof (rule rmap_cong)
    fix item assume "item \<in> set (bs_select_items stmt)"
    from ev [OF clause_expressions(1) [OF this]] show "group_item_value rd item = group_item_value rd' item" by (cases item) simp_all
  qed
  have new: "new_group stmt rd = new_group stmt rd'" by (simp add: new_group_def vals order)
  have "update_group_item rd entry = update_group_item rd' entry" if "entry \<in> set (zip (bs_select_items stmt) ags)" for entry ags
  proof -
    obtain item ag where entry: "entry = (item, ag)" by (cases entry)
    then have "item \<in> set (bs_select_items stmt)" using that by (auto dest: set_zip_leftD)
    from ev [OF clause_expressions(1) [OF this]] show ?thesis unfolding entry by (cases item) (simp_all add: update_aggregate_def)
  qed
  then have "rmap (update_group_item rd) (zip (bs_select_items stmt) ags) = rmap (update_group_item rd') (zip (bs_select_items stmt) ags)" for ags
    by (rule rmap_cong)
  then have "update_group stmt rd = update_group stmt rd'" unfolding update_group_def new by (intro ext) simp
  then show "group_step stmt rd groups = group_step stmt rd' groups"
    unfolding group_step_def agree_where [OF ok rd] keys by (simp cong: if_cong)
qed

context engine_contract
begin

lemma global_select:
  assumes a: "answers st T stmt rows" and g: "global stmt" and fits: "totals_fit stmt rows"
  shows "\<exists>names order st'. build_select_column_names stmt = Inr names \<and> mset order = mset (filter (row_selected stmt) rows) \<and>
    execute_select eng sorter stmt st = (Some (Inr \<lparr>sr_column_names = names,
      sr_rows = limited (bs_limit stmt) [map (group_value order) (bs_select_items stmt)]\<rparr>), st') \<and>
    holds st' T"
proof -
  let ?p = "collect_required_projection stmt" and ?sel = "filter (row_selected stmt)" and ?ps = "map aggregate_parts (bs_select_items stmt)"
  note f = answers_rows [OF a] and i = global_items [OF g]
  obtain names where names: "build_select_column_names stmt = Inr names" using column_names_ok [OF f(4)] by blast
  obtain oc st' res where c: "build_cursor_for_select eng stmt ?p False st = (Inr oc, st')" "holds st' T"
      "mset (?sel res) = mset (?sel rows)" "\<forall>r \<in> set res. fits_query stmt r"
      "case oc of None \<Rightarrow> res = [] | Some c \<Rightarrow> delivers cinv crows ccols (schema_size (bs_schema stmt)) ?p c res"
    by (rule open_query [OF a, where asc = False]) blast
  have "\<forall>item \<in> set (bs_select_items stmt). item_fits (?sel res) item"
    using fits item_fits_sub [of "?sel res" "?sel rows"] c(3) by (simp add: totals_fit_def)
  from global_loop [OF f(4) g c(4) this] obtain ags where
    ags: "rfold (\<lambda>r. global_step stmt ?ps (row_value r)) res (map (\<lambda>_. GlobalAggregateState) ?ps) = Inr ags"
      "rmap finalize_entry (zip ?ps ags) = Inr (map (group_value (?sel res)) (bs_select_items stmt))" by blast
  have loop: "cursor_loop (eng_cursor eng) (\<lambda>c. global_step stmt ?ps (cur_value (eng_cursor eng) c)) x (map (\<lambda>_. GlobalAggregateState) ?ps) = Some (Inr ags)"
    if "oc = Some x" for x
    using loop_over_rows [OF _ global_step_reads [OF f(4)]] c(5) that ags(1) by simp
  have fin: "global_finish stmt names ?ps ags = Inr \<lparr>sr_column_names = names,
      sr_rows = limited (bs_limit stmt) [map (group_value (?sel res)) (bs_select_items stmt)]\<rparr>"
    using ags(2) by (auto simp: global_finish_def limited_def take_Cons' split: option.split)
  have "execute_select eng sorter stmt st = (Some (Inr \<lparr>sr_column_names = names,
      sr_rows = limited (bs_limit stmt) [map (group_value (?sel res)) (bs_select_items stmt)]\<rparr>), st')"
  proof (cases oc)
    case None
    then have "ags = map (\<lambda>_. GlobalAggregateState) ?ps" using ags(1) c(5) by simp
    then show ?thesis using None names i c(1) fin by (simp add: execute_select_def execute_global_aggregate_select_def Let_def)
  next
    case (Some x)
    then show ?thesis using names i c(1) fin loop [OF Some]
      by (simp add: execute_select_def execute_global_aggregate_select_def Let_def)
  qed
  then show ?thesis using names c(2,3) by blast
qed

lemma grouped_select:
  assumes a: "answers st T stmt rows" and g: "bs_group_by_items stmt \<noteq> []" and fits: "totals_fit stmt rows" and sorter: "std_sort_ok sorter"
  shows "\<exists>names answer st'. build_select_column_names stmt = Inr names \<and>
    execute_select eng sorter stmt st = (Some (Inr \<lparr>sr_column_names = names, sr_rows = answer\<rparr>), st') \<and>
    holds st' T \<and> grouped_answer stmt rows answer"
proof -
  let ?p = "collect_required_projection stmt" and ?sel = "filter (row_selected stmt)"
  note f = answers_rows [OF a]
  obtain names where names: "build_select_column_names stmt = Inr names" using column_names_ok [OF f(4)] by blast
  obtain oc st' res where c: "build_cursor_for_select eng stmt ?p False st = (Inr oc, st')" "holds st' T"
      "mset (?sel res) = mset (?sel rows)" "\<forall>r \<in> set res. fits_query stmt r"
      "case oc of None \<Rightarrow> res = [] | Some c \<Rightarrow> delivers cinv crows ccols (schema_size (bs_schema stmt)) ?p c res"
    by (rule open_query [OF a, where asc = False]) blast
  have fits': "\<forall>item \<in> set (bs_select_items stmt). item_fits (?sel res) item"
    using fits item_fits_sub [of "?sel res" "?sel rows"] c(3) by (simp add: totals_fit_def)
  have sel: "\<forall>r \<in> set (?sel res). fits_query stmt r" using c(4) by simp
  have "rfold (\<lambda>r. group_step stmt (row_value r)) res [] =
      rfold (\<lambda>r gs. rbind (rmap (evaluate_expression (row_value r)) (bs_group_by_items stmt)) (\<lambda>k. group_apply k (update_group stmt (row_value r)) gs)) (?sel res) []"
    by (rule rfold_filter) (use where_holds_row [OF f(4)] c(4) in \<open>simp add: group_step_def\<close>)
  also have "\<dots> = Inr (groups_of stmt (grouping stmt (?sel res)))" by (rule group_rows_loop [OF f(4) sel fits'])
  finally have loop: "rfold (\<lambda>r. group_step stmt (row_value r)) res [] = Inr (groups_of stmt (grouping stmt (?sel res)))" .
  have run: "cursor_loop (eng_cursor eng) (\<lambda>c. group_step stmt (cur_value (eng_cursor eng) c)) x [] = Some (Inr (groups_of stmt (grouping stmt (?sel res))))"
    if "oc = Some x" for x
    using loop_over_rows [OF _ group_step_reads [OF f(4)]] c(5) that loop by simp
  obtain answer where fin: "group_finish sorter stmt names (groups_of stmt (grouping stmt (?sel res))) = Inr \<lparr>sr_column_names = names, sr_rows = answer\<rparr>"
      "grouped_answer stmt rows answer"
    by (rule group_finish_answer [OF f(4) sorter sel fits' c(3)])
  have "execute_select eng sorter stmt st = (Some (Inr \<lparr>sr_column_names = names, sr_rows = answer\<rparr>), st')"
  proof (cases oc)
    case None
    then have "groups_of stmt (grouping stmt (?sel res)) = []" using loop c(5) by simp
    then show ?thesis using None names g c(1) fin(1) by (simp add: execute_select_def execute_grouped_aggregate_select_def Let_def)
  next
    case (Some x)
    then show ?thesis using names g c(1) fin(1) run [OF Some]
      by (simp add: execute_select_def execute_grouped_aggregate_select_def Let_def)
  qed
  then show ?thesis using names c(2) fin(2) by blast
qed

end

end
