(* ===== verification/Binder_Spec.thy ===== *)
theory Binder_Spec
  imports Query_Aggregate
begin

text \<open>
  What the binder accepts: INSERT statements whose columns exist, differ and fit, turned into the row with
  NULL in the columns that are not named; and SELECT statements whose columns exist, whose WHERE is
  Boolean, whose aggregates have numeric arguments and whose items agree with GROUP BY.
\<close>

section \<open>Expressions\<close>

lemma bind_expression_ok:
  assumes wf: "schema_wf s"
  shows "bind_expression s e = Inr b \<Longrightarrow> expression_ok s b"
proof (induction e arbitrary: b)
  case (ColumnExpression name)
  then obtain i c where i: "get_column_index s name = Some i" "get_column s i = Inr c" "b = BoundColumnExpression i (col_type c)"
    by (auto simp: rbind_eq_Inr split: option.splits)
  then have "i < schema_size s" using get_column_index_iff [OF wf] by blast
  then show ?case using i by (simp add: get_column_def schema_size_def)
qed (auto simp: rbind_eq_Inr)

section \<open>INSERT\<close>

text \<open>The row that an INSERT statement names.\<close>

definition literal_value :: "expression \<Rightarrow> nullable_value" where
  "literal_value e = (case convert_literal_expression e of Inr v \<Rightarrow> v | Inl _ \<Rightarrow> None)"

definition is_literal :: "expression \<Rightarrow> bool" where
  "is_literal e \<longleftrightarrow> (case convert_literal_expression e of Inr v \<Rightarrow> True | Inl _ \<Rightarrow> False)"

definition named_row :: "schema \<Rightarrow> string list \<Rightarrow> expression list \<Rightarrow> row" where
  "named_row s names values =
     map (\<lambda>c. case map_of (zip names values) (col_name c) of None \<Rightarrow> None | Some e \<Rightarrow> literal_value e) (columns s)"

lemma assign_columns:
  assumes wf: "schema_wf s"
  shows "length rv = schema_size s \<Longrightarrow> length asg = schema_size s \<Longrightarrow>
    rfold (assign_column s) es (rv, asg) = Inr acc \<longleftrightarrow>
    distinct (map fst es) \<and>
    (\<forall>(name, e) \<in> set es. is_literal e \<and> (\<exists>i. get_column_index s name = Some i \<and> \<not> asg ! i)) \<and>
    acc = (map (\<lambda>i. case map_of es (col_name (columns s ! i)) of None \<Rightarrow> rv ! i | Some e \<Rightarrow> literal_value e) [0..<schema_size s],
           map (\<lambda>i. asg ! i \<or> map_of es (col_name (columns s ! i)) \<noteq> None) [0..<schema_size s])"
proof (induction es arbitrary: rv asg)
  case Nil
  have "rv = map (\<lambda>i. rv ! i) [0..<schema_size s]" "asg = map (\<lambda>i. asg ! i) [0..<schema_size s]"
    using Nil by (metis map_nth)+
  then show ?case by auto
next
  case (Cons entry es)
  obtain name e where entry: "entry = (name, e)" by (cases entry)
  show ?case
  proof (cases "get_column_index s name")
    case None
    then show ?thesis by (simp add: entry assign_column_def)
  next
    case (Some i)
    note idx = get_column_index_iff [OF wf]
    have i: "i < schema_size s" "col_name (columns s ! i) = name" using Some idx by auto
    show ?thesis
    proof (cases "is_literal e \<and> \<not> asg ! i")
      case False
      then show ?thesis using Some
        by (auto simp: entry assign_column_def is_literal_def rbind_eq_Inr split: sum.splits)
    next
      case True
      then obtain v where v: "convert_literal_expression e = Inr v" "literal_value e = v"
        by (auto simp: is_literal_def literal_value_def split: sum.splits)
      have step: "assign_column s entry (rv, asg) = Inr (rv[i := v], asg[i := True])"
        using Some True v by (simp add: entry assign_column_def)
      have other: "j = i \<longleftrightarrow> name' = name" if "get_column_index s name' = Some j" for j name'
        using that Some idx by (metis option.inject)
      have at: "j = i \<longleftrightarrow> col_name (columns s ! j) = name" if "j < schema_size s" for j
        using other [of "col_name (columns s ! j)" j] idx that by auto
      have cond: "(\<forall>(name', e') \<in> set es. is_literal e' \<and> (\<exists>j. get_column_index s name' = Some j \<and> \<not> asg[i := True] ! j)) \<longleftrightarrow>
          (\<forall>(name', e') \<in> set es. is_literal e' \<and> (\<exists>j. get_column_index s name' = Some j \<and> \<not> asg ! j)) \<and> name \<notin> fst ` set es"
        (is "?l \<longleftrightarrow> ?r \<and> ?n")
      proof -
        have "(\<exists>j. get_column_index s name' = Some j \<and> \<not> asg[i := True] ! j) \<longleftrightarrow>
            (\<exists>j. get_column_index s name' = Some j \<and> \<not> asg ! j) \<and> name' \<noteq> name" for name'
        proof (cases "get_column_index s name'")
          case (Some j)
          then show ?thesis using other [OF Some] i(1) Cons.prems(2) by (auto simp: nth_list_update)
        qed simp
        then show ?thesis by (auto simp: image_iff split: prod.splits)
      qed
      have rows: "map (\<lambda>j. case map_of es (col_name (columns s ! j)) of None \<Rightarrow> rv[i := v] ! j | Some e \<Rightarrow> literal_value e) [0..<schema_size s] =
          map (\<lambda>j. case map_of (entry # es) (col_name (columns s ! j)) of None \<Rightarrow> rv ! j | Some e \<Rightarrow> literal_value e) [0..<schema_size s]"
        "map (\<lambda>j. asg[i := True] ! j \<or> map_of es (col_name (columns s ! j)) \<noteq> None) [0..<schema_size s] =
          map (\<lambda>j. asg ! j \<or> map_of (entry # es) (col_name (columns s ! j)) \<noteq> None) [0..<schema_size s]"
        if "name \<notin> fst ` set es"
      proof -
        have none: "map_of es name = None" using that by (simp add: map_of_eq_None_iff)
        have cell: "(case map_of es (col_name (columns s ! j)) of None \<Rightarrow> rv[i := v] ! j | Some e \<Rightarrow> literal_value e) =
              (case map_of (entry # es) (col_name (columns s ! j)) of None \<Rightarrow> rv ! j | Some e \<Rightarrow> literal_value e) \<and>
            (asg[i := True] ! j \<or> map_of es (col_name (columns s ! j)) \<noteq> None \<longleftrightarrow>
              asg ! j \<or> map_of (entry # es) (col_name (columns s ! j)) \<noteq> None)" if j: "j < schema_size s" for j
        proof (cases "j = i")
          case True
          then show ?thesis using none i v(2) Cons.prems by (simp add: entry)
        next
          case False
          then have "col_name (columns s ! j) \<noteq> name" using at [OF j] by simp
          then show ?thesis using False by (simp add: entry split: option.split)
        qed
        then show "map (\<lambda>j. case map_of es (col_name (columns s ! j)) of None \<Rightarrow> rv[i := v] ! j | Some e \<Rightarrow> literal_value e) [0..<schema_size s] =
            map (\<lambda>j. case map_of (entry # es) (col_name (columns s ! j)) of None \<Rightarrow> rv ! j | Some e \<Rightarrow> literal_value e) [0..<schema_size s]"
          and "map (\<lambda>j. asg[i := True] ! j \<or> map_of es (col_name (columns s ! j)) \<noteq> None) [0..<schema_size s] =
            map (\<lambda>j. asg ! j \<or> map_of (entry # es) (col_name (columns s ! j)) \<noteq> None) [0..<schema_size s]"
          using cell by (auto intro!: map_cong)
      qed
      have "rfold (assign_column s) (entry # es) (rv, asg) = Inr acc \<longleftrightarrow>
          rfold (assign_column s) es (rv[i := v], asg[i := True]) = Inr acc" by (simp add: step)
      also have "\<dots> \<longleftrightarrow> distinct (map fst (entry # es)) \<and>
          (\<forall>(name', e') \<in> set es. is_literal e' \<and> (\<exists>j. get_column_index s name' = Some j \<and> \<not> asg ! j)) \<and>
          acc = (map (\<lambda>j. case map_of (entry # es) (col_name (columns s ! j)) of None \<Rightarrow> rv ! j | Some e \<Rightarrow> literal_value e) [0..<schema_size s],
                 map (\<lambda>j. asg ! j \<or> map_of (entry # es) (col_name (columns s ! j)) \<noteq> None) [0..<schema_size s])"
        unfolding Cons.IH [of "rv[i := v]" "asg[i := True]", simplified length_list_update, OF Cons.prems] cond
        using rows by (auto simp: entry)
      finally show ?thesis using Some True by (simp add: entry)
    qed
  qed
qed

lemma check_values:
  assumes "length r = schema_size s"
  shows "(\<exists>us. rmap (check_value s r) [0..<schema_size s] = Inr us) \<longleftrightarrow> valid_row s r"
proof -
  have "check_value s r i = Inr () \<longleftrightarrow> is_valid_value s i (r ! i)" if "i < schema_size s" for i
    using that by (auto simp: check_value_def rbind_eq_Inr)
  moreover have "(\<exists>us. rmap f xs = Inr us) \<longleftrightarrow> (\<forall>x \<in> set xs. f x = Inr ())" for f :: "nat \<Rightarrow> unit res" and xs
    by (induction xs) (auto simp: rbind_eq_Inr)
  ultimately show ?thesis using assms by (auto simp: valid_row_def)
qed

lemma bind_insert_iff:
  assumes "get_schema eng st table_name = Inr s" "schema_wf s"
  shows "bind_insert eng st table_name names values = Inr b \<longleftrightarrow>
    length names = length values \<and> distinct names \<and> set names \<subseteq> col_name ` set (columns s) \<and> list_all is_literal values \<and>
    valid_row s (named_row s names values) \<and>
    b = \<lparr>bi_table_name = table_name, bi_schema = s, bi_row_values = named_row s names values\<rparr>"
proof (cases "length names = length values")
  case False
  then show ?thesis using assms(1) by (simp add: bind_insert_def)
next
  case True
  let ?es = "zip names values" and ?n = "schema_size s"
  note idx = get_column_index_iff [OF assms(2)]
  have row: "map (\<lambda>i. case map_of ?es (col_name (columns s ! i)) of None \<Rightarrow> replicate ?n None ! i | Some e \<Rightarrow> literal_value e) [0..<?n] =
      named_row s names values"
    unfolding named_row_def by (rule nth_equalityI) (auto simp: schema_size_def split: option.split)
  have exists: "(\<exists>i. get_column_index s name = Some i \<and> \<not> replicate ?n False ! i) \<longleftrightarrow> name \<in> col_name ` set (columns s)" for name

  proof -
    have "(\<exists>i. get_column_index s name = Some i \<and> \<not> replicate ?n False ! i) \<longleftrightarrow> (\<exists>i < length (columns s). col_name (columns s ! i) = name)"
      by (auto simp: idx schema_size_def)
    also have "\<dots> \<longleftrightarrow> name \<in> col_name ` set (columns s)" by (metis (no_types, lifting) image_iff in_set_conv_nth)
    finally show ?thesis .
  qed
  have cond: "(\<forall>(name, e) \<in> set ?es. is_literal e \<and> (\<exists>i. get_column_index s name = Some i \<and> \<not> replicate ?n False ! i)) \<longleftrightarrow>
      set names \<subseteq> col_name ` set (columns s) \<and> list_all is_literal values"
    unfolding exists using True
    by (auto simp: list_all_iff dest: in_set_zipE) (metis (mono_tags, lifting) in_set_impl_in_set_zip1 in_set_impl_in_set_zip2 case_prodD)+
  have fold: "rfold (assign_column s) ?es (replicate ?n None, replicate ?n False) = Inr acc \<longleftrightarrow>
      distinct names \<and> (set names \<subseteq> col_name ` set (columns s) \<and> list_all is_literal values) \<and>
      acc = (named_row s names values, map (\<lambda>i. replicate ?n False ! i \<or> map_of ?es (col_name (columns s ! i)) \<noteq> None) [0..<?n])" for acc
    using assign_columns [OF assms(2), of "replicate ?n None" "replicate ?n False" ?es acc] unfolding cond row map_fst_zip [OF True] by simp
  have valid: "(\<exists>us. rmap (check_value s (named_row s names values)) [0..<?n] = Inr us) \<longleftrightarrow> valid_row s (named_row s names values)"
    by (rule check_values) (simp add: named_row_def schema_size_def)
  show ?thesis
    using assms(1) True valid by (auto simp: bind_insert_def rbind_eq_Inr fold split: prod.splits)
qed

text \<open>C21: An INSERT statement is accepted exactly when it names existing, different columns, gives each a literal, and
  the row it stands for, with NULL in the other columns, fits the types and NOT NULL constraints of the schema; that row
  is what is inserted.\<close>

theorem insert_binding_exact:
  assumes "get_schema eng st table_name = Inr s" "schema_wf s"
  shows "bind_insert eng st table_name names values = Inr b \<longleftrightarrow>
    length names = length values \<and> distinct names \<and> set names \<subseteq> col_name ` set (columns s) \<and> list_all is_literal values \<and>
    valid_row s (named_row s names values) \<and>
    b = \<lparr>bi_table_name = table_name, bi_schema = s, bi_row_values = named_row s names values\<rparr>"
  by (rule bind_insert_iff [OF assms])

text \<open>A table of the mock engine, to bind against.\<close>

definition sample_tables :: mock_tables where
  "sample_tables = [''t'' \<mapsto> \<lparr>mt_schema = sample_schema, mt_data = []\<rparr>]"

lemma sample_get_schema: "get_schema MockStorageEngine sample_tables ''t'' = Inr sample_schema"
  by (simp add: get_schema_def MockStorageEngine_def mock_table_exists_def mock_get_table_schema_def mock_get_table_def sample_tables_def)

lemma insert_binding_exact_witness:
  "bind_insert MockStorageEngine sample_tables ''t'' [''name'', ''id''] [StringLiteral ''x'', IntLiteral (I64 1)] =
     Inr \<lparr>bi_table_name = ''t'', bi_schema = sample_schema, bi_row_values = [Some (VInt (I64 1)), None, Some (VString ''x'')]\<rparr>"
proof -
  let ?names = "[''name'', ''id'']" and ?literals = "[StringLiteral ''x'', IntLiteral (I64 1)]"
  have row: "named_row sample_schema ?names ?literals = [Some (VInt (I64 1)), None, Some (VString ''x'')]"
    by (simp add: named_row_def sample_columns sample_defs_def column_of_def literal_value_def)
  have "valid_row sample_schema [Some (VInt (I64 1)), None, Some (VString ''x'')]"
    by (auto simp: valid_row_def is_valid_value_def sample_columns sample_defs_def column_of_def less_Suc_eq)
  moreover have "set ?names \<subseteq> col_name ` set (columns sample_schema)" by (simp add: sample_columns sample_defs_def column_of_def)
  moreover have "list_all is_literal ?literals" by (simp add: is_literal_def)
  ultimately show ?thesis
    using insert_binding_exact [OF sample_get_schema sample_schema_wf, of ?names ?literals] by (simp add: row)
qed

section \<open>SELECT\<close>

fun item_typed :: "bound_select_item \<Rightarrow> bool" where
  "item_typed (BoundSelectItemExpression e) \<longleftrightarrow> True"
| "item_typed (BoundSelectAggregateExpression kind e ty) \<longleftrightarrow> get_aggregate_result_type kind (be_type e) = Inr ty"

text \<open>One of the three forms of a query, with items that agree with it.\<close>

fun grouped_item :: "bound_select_statement \<Rightarrow> bound_select_item \<Rightarrow> bool" where
  "grouped_item stmt (BoundSelectItemExpression e) \<longleftrightarrow> list_ex (are_equivalent_expressions e) (bs_group_by_items stmt)"
| "grouped_item stmt (BoundSelectAggregateExpression kind e ty) \<longleftrightarrow> True"

definition query_form :: "bound_select_statement \<Rightarrow> bool" where
  "query_form stmt \<longleftrightarrow>
     plain stmt \<or> global stmt \<or> bs_group_by_items stmt \<noteq> [] \<and> list_all (grouped_item stmt) (bs_select_items stmt)"

lemma bind_select_item_ok:
  assumes wf: "schema_wf s" and b: "bind_select_item s item = Inr items" "x \<in> set items"
  shows "expression_ok s (item_expression x) \<and> item_typed x"
proof (cases item)
  case SelectItemStar
  let ?f = "\<lambda>i. rbind (get_column s i) (\<lambda>column. Inr (BoundSelectItemExpression (BoundColumnExpression i (col_type column))))"
  have "rmap ?f [0..<schema_size s] = Inr items" using b(1) SelectItemStar by simp
  moreover have "rmap ?f [0..<schema_size s] =
      Inr (map (\<lambda>i. BoundSelectItemExpression (BoundColumnExpression i (col_type (columns s ! i)))) [0..<schema_size s])"
    by (rule rmap_pure) (simp add: get_column_def schema_size_def)
  ultimately show ?thesis using b(2) by (auto simp: schema_size_def)
next
  case (SelectItemExpression e)
  then show ?thesis using b bind_expression_ok [OF wf] by (auto simp: rbind_eq_Inr)
next
  case (SelectAggregateExpression kind e)
  then show ?thesis using b bind_expression_ok [OF wf] by (auto simp: rbind_eq_Inr)
qed

lemma list_all2_set2: "list_all2 P xs ys \<Longrightarrow> y \<in> set ys \<Longrightarrow> \<exists>x \<in> set xs. P x y"
  by (induction xs ys rule: list_all2_induct) auto

lemma validated_form:
  assumes "validate_grouped_select stmt = Inr u"
  shows "query_form stmt"
proof -
  have "(\<exists>us. rmap (check_group_item stmt) items = Inr us) \<Longrightarrow> list_all (grouped_item stmt) items" for items
  proof (induction items)
    case (Cons item items)
    then show ?case by (cases item) (auto simp: rbind_eq_Inr check_group_item_def split: if_splits)
  qed simp
  then show ?thesis
    using assms by (auto simp: validate_grouped_select_def query_form_def plain_def global_def has_aggregates_def rbind_eq_Inr split: if_splits)
qed

lemma bind_select_typed:
  assumes "get_schema eng st (se_table_name q) = Inr s" "schema_wf s" "bind_select eng st q = Inr stmt"
  shows "bs_table_name stmt = se_table_name q \<and> bs_schema stmt = s \<and> bs_limit stmt = se_limit q \<and>
    list_all (expression_ok s) (statement_expressions stmt) \<and>
    (case bs_where_expression stmt of None \<Rightarrow> True | Some e \<Rightarrow> be_type e = E_Boolean) \<and>
    list_all item_typed (bs_select_items stmt) \<and> query_form stmt"
proof -
  obtain items cond groups orders where b: "rmap (bind_select_item s) (se_select_items q) = Inr items"
      "bind_where s (se_where_expression q) = Inr cond" "rmap (bind_expression s) (se_group_by_items q) = Inr groups"
      "rmap (bind_order_by_item s) (se_order_by_items q) = Inr orders"
      "stmt = \<lparr>bs_table_name = se_table_name q, bs_schema = s, bs_select_items = concat items, bs_where_expression = cond,
         bs_group_by_items = groups, bs_order_by_items = orders, bs_limit = se_limit q\<rparr>"
      "validate_where stmt = Inr ()" "validate_grouped_select stmt = Inr ()"
    using assms(1,3) by (auto simp: bind_select_def rbind_eq_Inr Let_def)
  have item: "expression_ok s (item_expression x) \<and> item_typed x" if mem: "x \<in> set (concat items)" for x
  proof -
    obtain xs where "xs \<in> set items" "x \<in> set xs" using mem by auto
    then show ?thesis using list_all2_set2 [OF b(1) [unfolded rmap_Inr_iff]] bind_select_item_ok [OF assms(2)] by blast
  qed
  have cond: "expression_ok s e" if "cond = Some e" for e
    using that b(2) bind_expression_ok [OF assms(2)] by (auto simp: bind_where_def rbind_eq_Inr split: option.splits)
  have group: "expression_ok s e" if "e \<in> set groups" for e
    using list_all2_set2 [OF b(3) [unfolded rmap_Inr_iff] that] bind_expression_ok [OF assms(2)] by blast
  have order: "expression_ok s (bo_expression x)" if "x \<in> set orders" for x
    using list_all2_set2 [OF b(4) [unfolded rmap_Inr_iff] that] bind_expression_ok [OF assms(2)]
    by (auto simp: bind_order_by_item_def rbind_eq_Inr)
  have "list_all (expression_ok s) (statement_expressions stmt)"
    using item cond group order by (auto simp: b(5) statement_expressions_def list_all_iff split: option.splits)
  moreover have "case bs_where_expression stmt of None \<Rightarrow> True | Some e \<Rightarrow> be_type e = E_Boolean"
    using b(6) by (auto simp: validate_where_def split: option.splits if_splits)
  moreover have "list_all item_typed (bs_select_items stmt)" using item by (simp add: b(5) list_all_iff)
  ultimately show ?thesis using validated_form [OF b(7)] by (simp add: b(5))
qed

text \<open>C20: A bound query is well formed: every column it reads is a column of its table's schema with its type and every
  literal has the type of its value, WHERE is Boolean, every aggregate has the result type of its argument, and it is a plain
  query, one of aggregates only, or a grouped one whose plain items are GROUP BY expressions. The types of the operands of
  operators are checked neither by the binder nor here.\<close>

theorem select_binding_typed:
  assumes "get_schema eng st (se_table_name q) = Inr s" "schema_wf s" "bind_select eng st q = Inr stmt"
  shows "bs_table_name stmt = se_table_name q \<and> bs_schema stmt = s \<and> bs_limit stmt = se_limit q \<and>
    list_all (expression_ok s) (statement_expressions stmt) \<and>
    (case bs_where_expression stmt of None \<Rightarrow> True | Some e \<Rightarrow> be_type e = E_Boolean) \<and>
    list_all item_typed (bs_select_items stmt) \<and> query_form stmt"
  by (rule bind_select_typed [OF assms])

text \<open>\<open>SELECT name, COUNT(id) FROM t WHERE id > 0 GROUP BY name LIMIT 3\<close>.\<close>

definition sample_query :: select_statement where
  "sample_query = \<lparr>se_table_name = ''t'',
     se_select_items = [SelectItemExpression (ColumnExpression ''name''), SelectAggregateExpression Agg_Count (ColumnExpression ''id'')],
     se_where_expression = Some (BinaryExpression Op_Greater (ColumnExpression ''id'') (IntLiteral (I64 0))),
     se_group_by_items = [ColumnExpression ''name''], se_order_by_items = [], se_limit = Some 3\<rparr>"

definition sample_bound :: bound_select_statement where
  "sample_bound = \<lparr>bs_table_name = ''t'', bs_schema = sample_schema,
     bs_select_items = [BoundSelectItemExpression (BoundColumnExpression 2 STRING), BoundSelectAggregateExpression Agg_Count (BoundColumnExpression 0 INT64) E_Int64],
     bs_where_expression = Some (BoundBinaryExpression Op_Greater (BoundColumnExpression 0 INT64) (BoundLiteralExpression (Some (VInt (I64 0))) E_Int64)),
     bs_group_by_items = [BoundColumnExpression 2 STRING], bs_order_by_items = [], bs_limit = Some 3\<rparr>"

lemma sample_column_index: "get_column_index sample_schema ''name'' = Some 2" "get_column_index sample_schema ''id'' = Some 0"
  unfolding get_column_index_iff [OF sample_schema_wf] by (simp_all add: sample_columns sample_defs_def column_of_def)

lemma sample_query_binds: "bind_select MockStorageEngine sample_tables sample_query = Inr sample_bound"
proof -
  have col: "get_column sample_schema 2 = Inr (columns sample_schema ! 2)" "get_column sample_schema 0 = Inr (columns sample_schema ! 0)"
    by (simp_all add: get_column_def sample_columns sample_defs_def)
  have ty: "col_type (columns sample_schema ! 2) = STRING" "col_type (columns sample_schema ! 0) = INT64"
    by (simp_all add: sample_columns sample_defs_def column_of_def)
  show ?thesis
    by (simp add: bind_select_def sample_query_def sample_get_schema sample_column_index col ty bind_where_def Let_def
        validate_where_def validate_grouped_select_def has_aggregates_def is_aggregate_item_def check_group_item_def sample_bound_def)
qed

lemma select_binding_typed_witness:
  "list_all (expression_ok sample_schema) (statement_expressions sample_bound) \<and> query_form sample_bound"
  using select_binding_typed [of MockStorageEngine sample_tables sample_query sample_schema sample_bound]
    sample_get_schema sample_query_binds by (simp add: sample_query_def)

end
