(* ===== verification/Query_Spec.thy ===== *)
theory Query_Spec
  imports Query_Aggregate Binder_Spec
begin

text \<open>
  The query processor on its two engines: tables that are created and filled by statements, and the
  answers of the queries that follow. The theorems rest on the lemmas of the engine contract, through its
  interpretations on the LSM engine and on the mock engine.
\<close>

section \<open>Samples\<close>

text \<open>
  Three queries over rows with the keys 5, 1 and 3: \<open>sample_bound\<close>; \<open>SELECT name FROM t WHERE id > 0 ORDER BY id LIMIT 2\<close>;
  and \<open>SELECT SUM(id) FROM t\<close>.
\<close>

definition query_rows :: "row list" where
  "query_rows = [sample_row (I64 5), sample_row (I64 1), sample_row (I64 3)]"

definition sample_plain :: bound_select_statement where
  "sample_plain = sample_bound\<lparr>bs_select_items := [BoundSelectItemExpression (BoundColumnExpression 2 STRING)], bs_group_by_items := [],
     bs_order_by_items := [\<lparr>bo_expression = BoundColumnExpression 0 INT64, bo_direction = Asc\<rparr>], bs_limit := Some 2\<rparr>"

definition sample_global :: bound_select_statement where
  "sample_global = \<lparr>bs_table_name = ''t'', bs_schema = sample_schema,
     bs_select_items = [BoundSelectAggregateExpression Agg_Sum (BoundColumnExpression 0 INT64) E_Int64],
     bs_where_expression = None, bs_group_by_items = [], bs_order_by_items = [], bs_limit = None\<rparr>"

lemma sample_types [simp]:
  "col_type (columns sample_schema ! 0) = INT64" "col_type (columns sample_schema ! 2) = STRING"
  by (simp_all add: sample_columns sample_defs_def column_of_def)

lemma sample_bound_ok: "statement_ok sample_bound"
  by (simp add: statement_ok_def statement_expressions_def sample_bound_def where_conjuncts_def key_literal_ok_def comparable_def)

lemma sample_plain_ok: "statement_ok sample_plain" "plain sample_plain" "is_required_key_asc sample_plain" "\<not> looks_up sample_plain i64_max"
  by (simp_all add: statement_ok_def statement_expressions_def sample_bound_def sample_plain_def where_conjuncts_def key_literal_ok_def
      comparable_def plain_def has_aggregates_def is_aggregate_item_def is_required_key_asc_def KEY_COLUMN_INDEX_def looks_up_def
      key_conjunct_def get_column_def sample_columns sample_defs_def column_of_def access_path_of_def no_bounds_def raise_from_def Let_def get_int_def i64_max_def i64_succ_def)

lemma sample_limit_ok: "limit_ok sample_plain" "limit_ok sample_bound"
  by (simp_all add: limit_ok_def sample_plain_def sample_bound_def)

lemma sample_global_ok: "statement_ok sample_global" "global sample_global"
  by (simp_all add: statement_ok_def statement_expressions_def sample_global_def where_conjuncts_def global_def is_aggregate_item_def)

lemma query_rows_valid:
  "valid_row sample_schema (sample_row k)" "row_nan_free (sample_row k)" "\<forall>r \<in> set query_rows. row_nan_free r"
  by (auto simp: valid_row_def is_valid_value_def sample_row_def query_rows_def row_nan_free_def sample_columns sample_defs_def column_of_def less_Suc_eq
      d64_isnan_def d64_mag_def)

section \<open>Evaluation, pushdown and order\<close>

text \<open>C22: An expression whose columns and literals are those of the schema and whose operands fit their operators evaluates in
  every valid row, without an exception, to NULL or to a value of its bound type.\<close>

theorem typed_evaluation:
  assumes "valid_row s r" "expression_ok s e" "operands_ok e"
  shows "\<exists>v. evaluate_expression (row_value r) e = Inr v \<and> has_result_type v (be_type e)"
  by (rule evaluate_typed [OF assms])

lemma typed_evaluation_witness:
  "\<exists>v. evaluate_expression (row_value [Some (VInt (I64 1)), None, None])
      (BoundBinaryExpression Op_Less (BoundColumnExpression 0 INT64) (BoundColumnExpression 1 DOUBLE)) = Inr v \<and>
    has_result_type v E_Boolean"
proof -
  let ?e = "BoundBinaryExpression Op_Less (BoundColumnExpression 0 INT64) (BoundColumnExpression 1 DOUBLE)"
  have "valid_row sample_schema [Some (VInt (I64 1)), None, None]"
    by (auto simp: valid_row_def is_valid_value_def sample_columns sample_defs_def column_of_def less_Suc_eq)
  moreover have "expression_ok sample_schema ?e" by (simp add: sample_columns sample_defs_def column_of_def)
  moreover have "operands_ok ?e" by (simp add: comparable_def is_numeric_expression_type_def)
  ultimately show ?thesis using typed_evaluation [of sample_schema _ ?e] by simp
qed

text \<open>C19: What the executor derives from WHERE loses no answer: in a statement whose operands fit their operators, whose key
  comparisons use integer literals and whose literals are not NaN (statement_ok), for a valid row without NaN that satisfies WHERE,
  the key bounds do not give the empty result, the key that is looked up is the key of the row or the range that is scanned holds
  it, and the data skipping filter accepts the row.\<close>

theorem pushdown_keeps_rows:
  assumes "schema_wf (bs_schema stmt)" "statement_ok stmt" "valid_row (bs_schema stmt) r" "row_nan_free r" "row_selected stmt r"
  shows "\<exists>kb. key_conjuncts (bs_schema stmt) (where_conjuncts stmt) no_bounds = Inr kb \<and>
    (case access_path_of kb of
       EmptyResult \<Rightarrow> False
     | PointLookup k \<Rightarrow> rkey r = k
     | RangeScan lo hi \<Rightarrow> contains \<lparr>kr_from = lo, kr_to = hi\<rparr> (rkey r)) \<and>
    row_wanted (build_data_skipping_filter stmt) r"
proof -
  obtain kb where kb: "key_conjuncts (bs_schema stmt) (where_conjuncts stmt) no_bounds = Inr kb"
      "\<And>r. valid_row (bs_schema stmt) r \<Longrightarrow> row_selected stmt r \<Longrightarrow> key_allowed kb (rkey r)"
    by (rule selected_path [OF assms(1,2)]) blast
  then show ?thesis using access_path_allows [OF kb(2) [OF assms(3,5)]] selected_wanted [OF assms(2,5,3,4)] by blast
qed

lemma pushdown_keeps_rows_witness:
  "\<exists>kb. key_conjuncts sample_schema (where_conjuncts sample_plain) no_bounds = Inr kb \<and>
     access_path_of kb = RangeScan (Some (I64 1)) None \<and> row_wanted (build_data_skipping_filter sample_plain) (sample_row (I64 5))"
proof -
  have s: "bs_schema sample_plain = sample_schema" by (simp add: sample_plain_def sample_bound_def)
  have "row_selected sample_plain (sample_row (I64 5))"
    by (simp add: row_selected_def sample_plain_def sample_bound_def row_value_def sample_row_def apply_binary_def compare_by_def
        less_i64_def i64_val_def)
  from pushdown_keeps_rows [OF _ sample_plain_ok(1) _ query_rows_valid(2) this] query_rows_valid(1)
  have "row_wanted (build_data_skipping_filter sample_plain) (sample_row (I64 5))" by (auto simp: s)
  moreover have "key_conjuncts sample_schema (where_conjuncts sample_plain) no_bounds =
      Inr \<lparr>kb_point = None, kb_from = Some (I64 1), kb_to = None, kb_range = True, kb_empty = False\<rparr>"
    by (simp add: sample_plain_def sample_bound_def where_conjuncts_def key_conjunct_def get_column_def sample_columns sample_defs_def
        column_of_def no_bounds_def raise_from_def Let_def get_int_def i64_max_def i64_succ_def)
  ultimately show ?thesis by (simp add: access_path_of_def)
qed

text \<open>C23: The comparisons the executor sorts and groups by meet what std::sort and std::map ask for: on the keys of
  rows without NaN neither throws, and both are strict weak orderings.\<close>

theorem query_orders_strict_weak:
  assumes "statement_ok stmt" "\<forall>r \<in> set rows. valid_row (bs_schema stmt) r \<and> row_nan_free r"
  shows "\<exists>sort_less group_less.
    (\<forall>r \<in> set rows. \<forall>q \<in> set rows.
       sort_row_less stmt (order_keys stmt r, x) (order_keys stmt q, y) = Inr (sort_less (order_keys stmt r) (order_keys stmt q)) \<and>
       group_key_less (group_keys stmt r) (group_keys stmt q) = Inr (group_less (group_keys stmt r) (group_keys stmt q))) \<and>
    strict_weak_order_on (order_keys stmt ` set rows) sort_less \<and> strict_weak_order_on (group_keys stmt ` set rows) group_less"
proof -
  let ?sort = "\<lambda>x y. keys_cmp (order_directions stmt) x y < 0"
    and ?group = "\<lambda>x y. keys_cmp (replicate (length (bs_group_by_items stmt)) Asc) x y < 0"
  have fits: "fits_query stmt r" if "r \<in> set rows" for r using assms(2) that by (simp add: fits_query_def)
  have less: "sort_row_less stmt (order_keys stmt r, x) (order_keys stmt q, y) = Inr (?sort (order_keys stmt r) (order_keys stmt q))"
      "group_key_less (group_keys stmt r) (group_keys stmt q) = Inr (?group (group_keys stmt r) (group_keys stmt q))"
    if "r \<in> set rows" "q \<in> set rows" for r q
    using sort_keys_less_cmp [OF order_keys_sortable [OF assms(1) fits [OF that(1)]] order_keys_sortable [OF assms(1) fits [OF that(2)]]]
      group_less [OF assms(1) fits [OF that(1)] fits [OF that(2)]]
    by (simp_all add: sort_row_less_def order_directions_def group_cmp_def)
  have sort: "strict_weak_order_on (order_keys stmt ` set rows) ?sort"
    by (rule keys_strict_weak) (use order_keys_sortable [OF assms(1) fits] in blast)
  have group: "strict_weak_order_on (group_keys stmt ` set rows) ?group"
    by (rule keys_strict_weak) (use group_keys_sortable [OF assms(1) fits] in blast)
  show ?thesis by (rule exI [of _ ?sort], rule exI [of _ ?group]) (intro conjI ballI less sort group; assumption)
qed

lemma query_orders_strict_weak_witness:
  "\<exists>sort_less group_less. strict_weak_order_on (order_keys sample_bound ` set [sample_row (I64 5), sample_row (I64 1)]) sort_less \<and>
     strict_weak_order_on (group_keys sample_bound ` set [sample_row (I64 5), sample_row (I64 1)]) group_less"
proof -
  have "\<forall>r \<in> set [sample_row (I64 5), sample_row (I64 1)]. valid_row (bs_schema sample_bound) r \<and> row_nan_free r"
    using query_rows_valid(1,2) by (simp add: sample_bound_def)
  from query_orders_strict_weak [OF sample_bound_ok this] show ?thesis by blast
qed

text \<open>With a NaN the comparison of a double column is not a strict weak ordering: 1 and NaN are equivalent, NaN and 2 are,
  1 and 2 are not.\<close>

lemma nan_breaks_sort:
  "\<not> strict_weak_order_on {[Some (R_Double (d64_of_i64 (I64 1)))], [Some (R_Double d64_nan)], [Some (R_Double (d64_of_i64 (I64 2)))]}
     (\<lambda>x y. sort_keys_less [Asc] x y = Inr True)"
proof
  let ?lt = "\<lambda>x y. sort_keys_less [Asc] x y = Inr True"
  let ?a = "[Some (R_Double (d64_of_i64 (I64 1)))]" and ?n = "[Some (R_Double d64_nan)]" and ?b = "[Some (R_Double (d64_of_i64 (I64 2)))]"
  have nan: "d64_isnan d64_nan" by (simp add: d64_isnan_def d64_mag_def d64_nan_def)
  have "d64_lt (d64_of_i64 (I64 1)) (d64_of_i64 (I64 2))" by code_simp
  then have "?lt ?a ?b" by (simp add: compare_by_def)
  moreover have "\<not> ?lt ?a ?n" "\<not> ?lt ?n ?a" "\<not> ?lt ?n ?b" "\<not> ?lt ?b ?n" using nan by (simp_all add: compare_by_def)
  moreover assume "strict_weak_order_on {?a, ?n, ?b} ?lt"
  ultimately show False unfolding strict_weak_order_on_def by blast
qed

section \<open>Scripts\<close>

text \<open>The client's loop over its statements.\<close>

fun run_statements ::
    "('e, 'c) storage_engine \<Rightarrow> sorter \<Rightarrow> bound_statement list \<Rightarrow> 'e \<Rightarrow> execution_result list res option \<times> 'e" where
  "run_statements eng sorter [] st = (Some (Inr []), st)"
| "run_statements eng sorter (x # xs) st =
     (case execute eng sorter x st of
        (r, st') \<Rightarrow>
          (case r of
             None \<Rightarrow> (None, st')
           | Some (Inl e) \<Rightarrow> (Some (Inl e), st')
           | Some (Inr v) \<Rightarrow>
               (case run_statements eng sorter xs st' of
                  (rs, st'') \<Rightarrow> (map_option (map_sum id (Cons v)) rs, st''))))"

definition fill_table :: "string \<Rightarrow> schema \<Rightarrow> row list \<Rightarrow> bound_statement list" where
  "fill_table name s rows =
     BoundCreateTableStatement name s #
     map (\<lambda>r. BoundInsertStatement \<lparr>bi_table_name = name, bi_schema = s, bi_row_values = r\<rparr>) rows"

definition filled :: "row list \<Rightarrow> execution_result list" where
  "filled rows = CreateTableResult # replicate (length rows) (InsertResult 1)"

lemma run_statements_append:
  assumes "run_statements eng sorter xs st = (Some (Inr rs), st')"
  shows "run_statements eng sorter (xs @ ys) st =
    (case run_statements eng sorter ys st' of (r, st'') \<Rightarrow> (map_option (map_sum id ((@) rs)) r, st''))"
  using assms
proof (induction xs arbitrary: st rs)
  case Nil
  then show ?case by (cases "run_statements eng sorter ys st'") (auto simp: option.map_ident_strong sum.map_ident_strong id_def)
next
  case (Cons x xs)
  obtain r st1 where e: "execute eng sorter x st = (r, st1)" by (cases "execute eng sorter x st")
  obtain v where v: "r = Some (Inr v)" using Cons.prems e by (cases r; cases "the r") auto
  obtain r2 where r2: "run_statements eng sorter xs st1 = (Some (Inr r2), st')" "rs = v # r2"
    using Cons.prems e v by (cases "run_statements eng sorter xs st1"; cases "fst (run_statements eng sorter xs st1)";
      cases "the (fst (run_statements eng sorter xs st1))") auto
  show ?case using Cons.IH [OF r2(1)] e v r2(2)
    by (cases "run_statements eng sorter ys st'") (simp add: option.map_comp sum.map_comp o_def id_def)
qed

context engine_contract
begin

lemma execute_insert:
  assumes "holds st T" "T name = Some (s, M)" "valid_row s r" "rkey r \<notin># image_mset rkey M" "fits s (add_mset r M)"
  shows "\<exists>st'. execute eng sorter (BoundInsertStatement \<lparr>bi_table_name = name, bi_schema = s, bi_row_values = r\<rparr>) st =
    (Some (Inr (InsertResult 1)), st') \<and> holds st' (T(name \<mapsto> (s, add_mset r M)))"
  using insert_new [OF assms] by (auto simp: execute_def)

lemma execute_inserts:
  assumes "holds st T" "T name = Some (s, M)" "\<forall>r \<in> set rows. valid_row s r" "distinct (rkeys rows)"
    and "\<forall>r \<in> set rows. rkey r \<notin># image_mset rkey M" "\<forall>n. fits s (mset (take n rows) + M)"
  shows "\<exists>st'. run_statements eng sorter (map (\<lambda>r. BoundInsertStatement \<lparr>bi_table_name = name, bi_schema = s, bi_row_values = r\<rparr>) rows) st =
    (Some (Inr (replicate (length rows) (InsertResult 1))), st') \<and> holds st' (T(name \<mapsto> (s, mset rows + M)))"
  using assms
proof (induction rows arbitrary: st T M)
  case Nil
  then show ?case by (simp add: fun_upd_idem)
next
  case (Cons r rows)
  have fit: "fits s (add_mset r M)" "\<forall>n. fits s (mset (take n rows) + add_mset r M)"
    using spec [OF Cons.prems(6), of 1] Cons.prems(6) by (simp, metis add_mset_add_single mset.simps(2) take_Suc_Cons union_mset_add_mset_left union_mset_add_mset_right)
  have new: "valid_row s r" "rkey r \<notin># image_mset rkey M" using Cons.prems(3,5) by simp_all
  obtain st1 where e: "execute eng sorter (BoundInsertStatement \<lparr>bi_table_name = name, bi_schema = s, bi_row_values = r\<rparr>) st = (Some (Inr (InsertResult 1)), st1)"
      "holds st1 (T(name \<mapsto> (s, add_mset r M)))"
    using execute_insert [OF Cons.prems(1,2) new fit(1)] by blast
  have rest: "(T(name \<mapsto> (s, add_mset r M))) name = Some (s, add_mset r M)" "\<forall>r \<in> set rows. valid_row s r" "distinct (rkeys rows)"
      "\<forall>q \<in> set rows. rkey q \<notin># image_mset rkey (add_mset r M)"
    using Cons.prems(3-5) by (auto simp: image_iff)
  from Cons.IH [OF e(2) rest fit(2), unfolded fun_upd_upd] obtain st' where st':
    "run_statements eng sorter (map (\<lambda>r. BoundInsertStatement \<lparr>bi_table_name = name, bi_schema = s, bi_row_values = r\<rparr>) rows) st1 =
      (Some (Inr (replicate (length rows) (InsertResult 1))), st')" "holds st' (T(name \<mapsto> (s, mset rows + add_mset r M)))" by blast
  have "run_statements eng sorter (map (\<lambda>r. BoundInsertStatement \<lparr>bi_table_name = name, bi_schema = s, bi_row_values = r\<rparr>) (r # rows)) st =
      (Some (Inr (replicate (length (r # rows)) (InsertResult 1))), st')" using e(1) st'(1) by simp
  moreover have "mset (r # rows) + M = mset rows + add_mset r M" by simp
  ultimately show ?case using st'(2) by metis
qed

lemma execute_fill:
  assumes "holds st T" "T name = None" "schema_wf s" "creatable s" "\<forall>r \<in> set rows. valid_row s r" "distinct (rkeys rows)"
    and "\<forall>n. fits s (mset (take n rows))"
  shows "\<exists>st'. run_statements eng sorter (fill_table name s rows) st = (Some (Inr (filled rows)), st') \<and>
    holds st' (T(name \<mapsto> (s, mset rows)))"
proof -
  obtain st1 where c: "eng_create_table eng name s st = Inr st1" "holds st1 (T(name \<mapsto> (s, {#})))"
    using create_new [OF assms(1-4)] by blast
  have "(T(name \<mapsto> (s, {#}))) name = Some (s, {#})" "\<forall>r \<in> set rows. rkey r \<notin># image_mset rkey {#}"
      "\<forall>n. fits s (mset (take n rows) + {#})" using assms(7) by simp_all
  from execute_inserts [OF c(2) this(1) assms(5,6) this(2,3), of sorter, unfolded fun_upd_upd add_0_right] obtain st' where
    "run_statements eng sorter (map (\<lambda>r. BoundInsertStatement \<lparr>bi_table_name = name, bi_schema = s, bi_row_values = r\<rparr>) rows) st1 =
      (Some (Inr (replicate (length rows) (InsertResult 1))), st')" "holds st' (T(name \<mapsto> (s, mset rows)))" by blast
  then show ?thesis using c(1) by (simp add: fill_table_def filled_def execute_def)
qed

text \<open>A query after the table was filled.\<close>

lemma fill_and_select:
  assumes "holds st T" "T (bs_table_name stmt) = None" "schema_wf (bs_schema stmt)" "creatable (bs_schema stmt)"
    and "\<forall>r \<in> set rows. valid_row (bs_schema stmt) r" "distinct (rkeys rows)"
    and "\<forall>n. fits (bs_schema stmt) (mset (take n rows))"
    and "statement_ok stmt" "\<forall>r \<in> set rows. row_nan_free r" "\<And>k. looks_up stmt k \<Longrightarrow> lookup_ok k"
    and select: "\<And>st T. answers st T stmt rows \<Longrightarrow>
      \<exists>res st'. execute_select eng sorter stmt st = (Some (Inr res), st') \<and> P res"
  shows "\<exists>res st'. run_statements eng sorter (fill_table (bs_table_name stmt) (bs_schema stmt) rows @ [BoundSelectStatement stmt]) st =
    (Some (Inr (filled rows @ [SelectResult res])), st') \<and> P res"
proof -
  obtain st1 where f: "run_statements eng sorter (fill_table (bs_table_name stmt) (bs_schema stmt) rows) st = (Some (Inr (filled rows)), st1)"
      "holds st1 (T(bs_table_name stmt \<mapsto> (bs_schema stmt, mset rows)))"
    using execute_fill [OF assms(1-7), of sorter] by blast
  have "answers st1 (T(bs_table_name stmt \<mapsto> (bs_schema stmt, mset rows))) stmt rows"
    using f(2) assms(8-10) by (simp add: answers_def)
  from select [OF this] obtain res st' where "execute_select eng sorter stmt st1 = (Some (Inr res), st')" "P res" by blast
  then show ?thesis by (simp add: run_statements_append [OF f(1)] execute_def)
qed

end

section \<open>The LSM engine\<close>

text \<open>A configuration and the rows of one table that it can hold.\<close>

definition lsm_table_fits :: "storage_config \<Rightarrow> nat \<Rightarrow> schema \<Rightarrow> row list \<Rightarrow> bool" where
  "lsm_table_fits config L s rows \<longleftrightarrow>
     config_accepted config \<and> schema_wf s \<and> schema_size s < 2 ^ 16 \<and> rows_fit s rows \<and> capacity L config rows \<and>
     (L + 2) * length rows < 2 ^ 64"

lemma lsm_fits_take:
  assumes "lsm_table_fits config L s rows"
  shows "lsm_fits config L s (mset (take n rows))"
proof -
  have sub: "mset (take n rows) \<subseteq># mset rows" by (metis append_take_drop_id mset_append mset_subset_eq_add_left)
  have "mset rows = mset (drop n rows @ take n rows)" by (metis append_take_drop_id mset_append union_commute)
  then have "capacity L config (take n rows)" using assms capacity_mset capacity_part unfolding lsm_table_fits_def by metis
  moreover have "(L + 2) * length (take n rows) \<le> (L + 2) * length rows" by (rule mult_le_mono2) simp
  then have "(L + 2) * size (mset (take n rows)) < 2 ^ 64" using assms unfolding lsm_table_fits_def size_mset by linarith
  ultimately show ?thesis using assms rows_fit_sub [OF _ sub] unfolding lsm_table_fits_def lsm_fits_def by blast
qed

lemma lsm_start:
  assumes "lsm_table_fits config L s rows" "\<forall>path. snd (found path) = None"
  shows "lsm_holds config L (LSMStorageEngine config found) Map.empty"
  using assms capacity_part [of L config rows "[]"] by (simp add: lsm_holds_def LSMStorageEngine_def lsm_table_fits_def)

lemma lsm_query:
  assumes fits: "lsm_table_fits config L (bs_schema stmt) rows" "\<forall>path. snd (found path) = None"
    and ok: "statement_ok stmt" "\<forall>r \<in> set rows. row_nan_free r"
    and select: "\<forall>st T. lsm_engine.answers config L st T stmt rows \<longrightarrow>
      (\<exists>res st'. execute_select lsm_ops sorter stmt st = (Some (Inr res), st') \<and> P res)"
  shows "\<exists>res st. run_statements lsm_ops sorter (fill_table (bs_table_name stmt) (bs_schema stmt) rows @ [BoundSelectStatement stmt])
      (LSMStorageEngine config found) = (Some (Inr (filled rows @ [SelectResult res])), st) \<and> P res"
proof (rule lsm_engine.fill_and_select [OF lsm_start [OF fits] _ _ _ _ _ _ ok _ select [rule_format]])
  show "schema_wf (bs_schema stmt)" "lsm_creatable (bs_schema stmt)" "distinct (rkeys rows)"
    "\<forall>r \<in> set rows. valid_row (bs_schema stmt) r"
    using fits(1) by (simp_all add: lsm_table_fits_def lsm_creatable_def rows_fit_def storable_def)
  show "\<forall>n. lsm_fits config L (bs_schema stmt) (mset (take n rows))" using lsm_fits_take [OF fits(1)] by simp
qed simp_all

lemma sample_table_fits: "lsm_table_fits sample_config 2 sample_schema query_rows"
  using sample_tree_rows_fit sample_capacity
  by (simp add: lsm_table_fits_def query_rows_def sample_config_accepted)

text \<open>The statements of the samples: the table is created, its rows are inserted, the query follows.\<close>

abbreviation sample_script :: "bound_select_statement \<Rightarrow> bound_statement list" where
  "sample_script stmt \<equiv> fill_table ''t'' sample_schema query_rows @ [BoundSelectStatement stmt]"

abbreviation sample_engine :: lsm_engine where
  "sample_engine \<equiv> LSMStorageEngine sample_config (\<lambda>_. (\<lambda>_. None, None))"

lemma sample_tables_of [simp]:
  "bs_schema sample_plain = sample_schema" "bs_table_name sample_plain = ''t''"
  "bs_schema sample_bound = sample_schema" "bs_table_name sample_bound = ''t''"
  "bs_schema sample_global = sample_schema" "bs_table_name sample_global = ''t''"
  by (simp_all add: sample_plain_def sample_bound_def sample_global_def)

lemma sample_clauses [simp]:
  "bs_limit sample_global = None" "bs_group_by_items sample_bound = [BoundColumnExpression 2 STRING]"
  by (simp_all add: sample_global_def sample_bound_def)

lemma sample_selected:
  assumes "r \<in> set query_rows"
  shows "row_selected sample_plain r" "row_selected sample_bound r" "row_selected sample_global r"
  using assms
  by (auto simp: query_rows_def row_selected_def sample_plain_def sample_bound_def sample_global_def row_value_def sample_row_def
      apply_binary_def compare_by_def less_i64_def i64_val_def)

lemma sample_filter [simp]:
  "filter (row_selected sample_plain) query_rows = query_rows" "filter (row_selected sample_bound) query_rows = query_rows"
  "filter (row_selected sample_global) query_rows = query_rows"
  using sample_selected by (simp_all add: filter_id_conv)

lemma sample_values:
  assumes "r \<in> set query_rows"
  shows "value_in r (BoundColumnExpression 2 STRING) = Some (R_String ''ab'')"
    "value_in r (BoundColumnExpression 0 INT64) = Some (R_Int (rkey r))"
  using assms by (auto simp: query_rows_def value_in_def row_value_def sample_row_def rkey_def)

lemma sample_totals: "totals_fit sample_bound query_rows" "totals_fit sample_global query_rows"
  unfolding totals_fit_def sample_filter
  by (simp_all add: sample_bound_def sample_global_def values_fit_def within_limit_def int_sum_fits_def ints_of_def query_rows_def value_in_def
      row_value_def sample_row_def i64_val_def is_numeric_expression_type_def)

text \<open>C3: On a new LSM engine, CREATE TABLE and INSERT of rows that its configuration can hold, with pairwise different keys and
  without NaN, succeed, however often the tree flushes and compacts, and a SELECT without aggregates or GROUP BY then answers with
  exactly the rows that satisfy WHERE, its items evaluated in each, in an order ORDER BY allows and cut to the first LIMIT rows. The
  operands fit their operators, key comparisons use integer literals and no literal is NaN (statement_ok), the sort meets the
  contract of std::sort, and LIMIT 0 is excluded where the loop applies it (limit_ok), since the code leaves one row there.\<close>

theorem lsm_plain_query:
  assumes "lsm_table_fits config L (bs_schema stmt) rows" "\<forall>path. snd (found path) = None"
    and "statement_ok stmt" "\<forall>r \<in> set rows. row_nan_free r" "plain stmt" "limit_ok stmt" "std_sort_ok sorter"
  shows "\<exists>names answer st. build_select_column_names stmt = Inr names \<and>
    run_statements lsm_ops sorter (fill_table (bs_table_name stmt) (bs_schema stmt) rows @ [BoundSelectStatement stmt])
      (LSMStorageEngine config found) =
      (Some (Inr (filled rows @ [SelectResult \<lparr>sr_column_names = names, sr_rows = answer\<rparr>])), st) \<and>
    plain_answer stmt rows answer"
proof -
  have "\<forall>st T. lsm_engine.answers config L st T stmt rows \<longrightarrow> (\<exists>res st'. execute_select lsm_ops sorter stmt st = (Some (Inr res), st') \<and>
      (\<exists>names answer. build_select_column_names stmt = Inr names \<and> res = \<lparr>sr_column_names = names, sr_rows = answer\<rparr> \<and> plain_answer stmt rows answer))"
    using lsm_engine.plain_select [OF _ assms(5-7)] by blast
  from lsm_query [OF assms(1-4) this] show ?thesis by blast
qed

lemma lsm_plain_query_witness:
  "\<exists>names st. run_statements lsm_ops insertion_sorter (sample_script sample_plain) sample_engine =
     (Some (Inr (filled query_rows @ [SelectResult \<lparr>sr_column_names = names,
        sr_rows = [[Some (R_String ''ab'')], [Some (R_String ''ab'')]]\<rparr>])), st)"
proof -
  have "answer = [[Some (R_String ''ab'')], [Some (R_String ''ab'')]]" if a: "plain_answer sample_plain query_rows answer" for answer
  proof -
    obtain order where o: "mset order = mset query_rows" "answer = limited (bs_limit sample_plain) (map (answer_row sample_plain) order)"
      using a unfolding plain_answer_def sample_filter by blast
    have "set order = set query_rows" by (rule mset_eq_setD [OF o(1)])
    then have "map (answer_row sample_plain) order = map (\<lambda>_. [Some (R_String ''ab'')]) order"
      by (intro map_cong refl) (simp add: answer_row_def sample_plain_def sample_values)
    also have "\<dots> = replicate 3 [Some (R_String ''ab'')]"
      using mset_eq_length [OF o(1)] by (simp add: map_replicate_const query_rows_def numeral_3_eq_3)
    finally show ?thesis by (simp add: o(2) limited_def sample_plain_def sample_bound_def numeral_3_eq_3)
  qed
  moreover obtain names answer st where "plain_answer sample_plain query_rows answer"
      "run_statements lsm_ops insertion_sorter (sample_script sample_plain) sample_engine =
        (Some (Inr (filled query_rows @ [SelectResult \<lparr>sr_column_names = names, sr_rows = answer\<rparr>])), st)"
    using lsm_plain_query [of sample_config 2 sample_plain query_rows "\<lambda>_. (\<lambda>_. None, None)" insertion_sorter,
        unfolded sample_tables_of, OF sample_table_fits _ sample_plain_ok(1) query_rows_valid(3) sample_plain_ok(2) sample_limit_ok(1) insertion_sorter_ok]
    by auto
  ultimately show ?thesis by blast
qed

text \<open>C5: On a new LSM engine filled with rows that it can hold, with pairwise different keys and without NaN, a SELECT of
  aggregates only, whose operands fit their operators and whose literals are not NaN (statement_ok), answers with one row: each
  aggregate over its argument in the rows that satisfy WHERE, in some order of them, NULL values left out; with LIMIT 0 there is no
  row. The absolute values of an integer SUM add up to less than 2^63, no double under MIN is +inf and none under MAX -inf
  (totals_fit); integer results are then the exact ones, double MIN and MAX the first least and greatest value, double SUM and AVG
  the sum in that order with rounding.\<close>

theorem lsm_global_query:
  assumes "lsm_table_fits config L (bs_schema stmt) rows" "\<forall>path. snd (found path) = None"
    and "statement_ok stmt" "\<forall>r \<in> set rows. row_nan_free r" "global stmt" "totals_fit stmt rows"
  shows "\<exists>names order st. build_select_column_names stmt = Inr names \<and> mset order = mset (filter (row_selected stmt) rows) \<and>
    run_statements lsm_ops sorter (fill_table (bs_table_name stmt) (bs_schema stmt) rows @ [BoundSelectStatement stmt])
      (LSMStorageEngine config found) =
      (Some (Inr (filled rows @ [SelectResult \<lparr>sr_column_names = names,
         sr_rows = limited (bs_limit stmt) [map (group_value order) (bs_select_items stmt)]\<rparr>])), st)"
proof -
  have "\<forall>st T. lsm_engine.answers config L st T stmt rows \<longrightarrow> (\<exists>res st'. execute_select lsm_ops sorter stmt st = (Some (Inr res), st') \<and>
      (\<exists>names order. build_select_column_names stmt = Inr names \<and> mset order = mset (filter (row_selected stmt) rows) \<and>
         res = \<lparr>sr_column_names = names, sr_rows = limited (bs_limit stmt) [map (group_value order) (bs_select_items stmt)]\<rparr>))"
    using lsm_engine.global_select [OF _ assms(5,6)] by blast
  from lsm_query [OF assms(1-4) this] show ?thesis by blast
qed

lemma lsm_global_query_witness:
  "\<exists>names st. run_statements lsm_ops insertion_sorter (sample_script sample_global) sample_engine =
     (Some (Inr (filled query_rows @ [SelectResult \<lparr>sr_column_names = names, sr_rows = [[Some (R_Int (I64 9))]]\<rparr>])), st)"
proof -
  have "map (group_value order) (bs_select_items sample_global) = [Some (R_Int (I64 9))]" if o: "mset order = mset query_rows" for order
  proof -
    have vs: "map (\<lambda>r. value_in r (BoundColumnExpression 0 INT64)) order = map (\<lambda>r. Some (R_Int (rkey r))) order"
      by (intro map_cong refl sample_values(2)) (use mset_eq_setD [OF o] in simp)
    have ints: "ints_of (map (\<lambda>r. Some (R_Int (rkey r))) rs) = map rkey rs" for rs by (induction rs) (simp_all add: ints_of_def)
    have "(\<Sum>n\<leftarrow>map rkey order. i64_val n) = sum_mset (image_mset (\<lambda>r. i64_val (rkey r)) (mset order))"
      by (simp add: sum_mset_sum_list [symmetric] o_def)
    also have "\<dots> = 9" unfolding o by (simp add: query_rows_def sample_row_def rkey_def i64_val_def)
    finally have "(\<Sum>n\<leftarrow>map rkey order. i64_val n) = 9" .
    moreover have "order \<noteq> []" using o by (auto simp: query_rows_def)
    ultimately show ?thesis
      by (simp add: sample_global_def vs typed_aggregate_def ints int_aggregate_def i64_of_def)
  qed
  then show ?thesis
    using lsm_global_query [of sample_config 2 sample_global query_rows "\<lambda>_. (\<lambda>_. None, None)" insertion_sorter]
      sample_table_fits sample_global_ok query_rows_valid(3) sample_totals(2) by (auto simp: limited_def)
qed

lemma sample_grouped_answer:
  assumes a: "grouped_answer sample_bound query_rows answer"
  shows "answer = [[Some (R_String ''ab''), Some (R_Int (I64 3))]]"
proof -
  obtain gs where gs: "mset (concat gs) = mset query_rows" "\<forall>g \<in> set gs. g \<noteq> []" "distinct gs"
      "\<forall>g \<in> set gs. \<forall>h \<in> set gs. same_group sample_bound (hd g) (hd h) \<longrightarrow> g = h"
      "answer = limited (bs_limit sample_bound) (map (\<lambda>g. map (group_value g) (bs_select_items sample_bound)) gs)"
    using a unfolding grouped_answer_def sample_filter by blast
  have rows: "r \<in> set query_rows" if "g \<in> set gs" "r \<in> set g" for g r
    using mset_eq_setD [OF gs(1)] that by auto
  have "group_keys sample_bound (hd g) = [Some (R_String ''ab'')]" if "g \<in> set gs" for g
    using rows [OF that] gs(2) that sample_values(1) by (simp add: group_keys_def)
  then have "same_group sample_bound (hd g) (hd h)" if "g \<in> set gs" "h \<in> set gs" for g h
    using that by (simp add: group_cmp_def keys_cmp_self)
  then have one: "\<forall>g \<in> set gs. \<forall>h \<in> set gs. g = h" using gs(4) by blast
  have "gs \<noteq> []" using gs(1) by (auto simp: query_rows_def)
  then obtain g hs where g: "gs = g # hs" by (cases gs) auto
  have "g = h" if "h \<in> set hs" for h by (rule bspec [OF bspec [OF one]]) (use that g in simp_all)
  moreover have "g \<notin> set hs" using gs(3) g by simp
  ultimately have "hs = []" by (metis ex_in_conv set_empty)
  then have m: "mset g = mset query_rows" using gs(1) g by simp
  have "map (\<lambda>r. value_in r (BoundColumnExpression 0 INT64)) g = map (\<lambda>r. Some (R_Int (rkey r))) g"
    by (intro map_cong refl sample_values(2)) (use mset_eq_setD [OF m] in simp)
  moreover have "length g = 3" using mset_eq_length [OF m] by (simp add: query_rows_def)
  moreover have "hd g \<in> set query_rows" using rows [of g "hd g"] gs(2) g by simp
  ultimately show ?thesis
    by (simp add: gs(5) g \<open>hs = []\<close> sample_bound_def limited_def typed_aggregate_def sample_values present_def o_def i64_of_def)
qed

text \<open>C4: On a new LSM engine filled with rows that it can hold, with pairwise different keys and without NaN, a SELECT with
  GROUP BY, whose operands fit their operators and whose literals are not NaN (statement_ok), answers with one row for each group:
  the rows that satisfy WHERE are split into groups of equal keys, no two groups have equal keys, aggregates range over the rows of
  their group in some order, and the groups come in an order ORDER BY allows, or in ascending order of their keys without it, cut
  to the first LIMIT groups. Sums of integers cannot overflow, no double under MIN is +inf and none under MAX -inf (totals_fit),
  and the sort meets the contract of std::sort.\<close>

theorem lsm_grouped_query:
  assumes "lsm_table_fits config L (bs_schema stmt) rows" "\<forall>path. snd (found path) = None"
    and "statement_ok stmt" "\<forall>r \<in> set rows. row_nan_free r" "bs_group_by_items stmt \<noteq> []" "totals_fit stmt rows" "std_sort_ok sorter"
  shows "\<exists>names answer st. build_select_column_names stmt = Inr names \<and>
    run_statements lsm_ops sorter (fill_table (bs_table_name stmt) (bs_schema stmt) rows @ [BoundSelectStatement stmt])
      (LSMStorageEngine config found) =
      (Some (Inr (filled rows @ [SelectResult \<lparr>sr_column_names = names, sr_rows = answer\<rparr>])), st) \<and>
    grouped_answer stmt rows answer"
proof -
  have "\<forall>st T. lsm_engine.answers config L st T stmt rows \<longrightarrow> (\<exists>res st'. execute_select lsm_ops sorter stmt st = (Some (Inr res), st') \<and>
      (\<exists>names answer. build_select_column_names stmt = Inr names \<and> res = \<lparr>sr_column_names = names, sr_rows = answer\<rparr> \<and> grouped_answer stmt rows answer))"
    using lsm_engine.grouped_select [OF _ assms(5-7)] by blast
  from lsm_query [OF assms(1-4) this] show ?thesis by blast
qed

lemma lsm_grouped_query_witness:
  "\<exists>names st. run_statements lsm_ops insertion_sorter (sample_script sample_bound) sample_engine =
     (Some (Inr (filled query_rows @ [SelectResult \<lparr>sr_column_names = names,
        sr_rows = [[Some (R_String ''ab''), Some (R_Int (I64 3))]]\<rparr>])), st)"
proof -
  obtain names answer st where "grouped_answer sample_bound query_rows answer"
      "run_statements lsm_ops insertion_sorter (sample_script sample_bound) sample_engine =
        (Some (Inr (filled query_rows @ [SelectResult \<lparr>sr_column_names = names, sr_rows = answer\<rparr>])), st)"
    using lsm_grouped_query [of sample_config 2 sample_bound query_rows "\<lambda>_. (\<lambda>_. None, None)" insertion_sorter,
        unfolded sample_tables_of, OF sample_table_fits _ sample_bound_ok query_rows_valid(3) _ sample_totals(1) insertion_sorter_ok]
    by auto
  then show ?thesis using sample_grouped_answer by blast
qed

section \<open>Two engines, one answer\<close>

lemma mock_start: "mock_holds Map.empty Map.empty"
  by (simp add: mock_holds_def mock_content_def fun_eq_iff)

lemma mock_query:
  assumes "schema_wf (bs_schema stmt)" "\<forall>r \<in> set rows. valid_row (bs_schema stmt) r" "distinct (rkeys rows)"
    and ok: "statement_ok stmt" "\<forall>r \<in> set rows. row_nan_free r" "\<not> looks_up stmt i64_max"
    and select: "\<forall>st T. mock_engine.answers st T stmt rows \<longrightarrow>
      (\<exists>res st'. execute_select MockStorageEngine sorter stmt st = (Some (Inr res), st') \<and> P res)"
  shows "\<exists>res st. run_statements MockStorageEngine sorter (fill_table (bs_table_name stmt) (bs_schema stmt) rows @ [BoundSelectStatement stmt])
      Map.empty = (Some (Inr (filled rows @ [SelectResult res])), st) \<and> P res"
  by (rule mock_engine.fill_and_select [OF mock_start _ assms(1) _ assms(2,3) _ ok(1,2) _ select [rule_format]]) (use ok(3) in auto)

text \<open>An answer in the order of the key is the only one.\<close>

lemma key_order_sorted:
  assumes ok: "statement_ok stmt" "is_required_key_asc stmt" and wf: "schema_wf (bs_schema stmt)"
    and rows: "\<forall>r \<in> set order. fits_query stmt r" "sorted_wrt (in_order stmt) order"
  shows "sorted (rkeys order)"
  unfolding sorted_map
  using key_asc_in_order(2) [OF ok wf] rows(1) by (intro sorted_wrt_mono_rel [OF _ rows(2)]) (meson not_le)

lemma loop_answer_unique:
  assumes ok: "statement_ok stmt" "is_required_key_asc stmt" and wf: "schema_wf (bs_schema stmt)"
    and rows: "\<forall>r \<in> set rows. fits_query stmt r" "distinct (rkeys rows)"
    and a: "loop_answer stmt rows a" "loop_answer stmt rows b"
  shows "a = b"
proof -
  let ?sel = "filter (row_selected stmt) rows"
  have inj: "inj_on rkey (set ?sel)" using rows(2) by (auto simp: distinct_map intro: inj_on_subset)
  have "xs = sort_key rkey ?sel" if xs: "mset xs = mset ?sel" "sorted_wrt (in_order stmt) xs" for xs
  proof -
    have "set xs = set ?sel" using mset_eq_setD [OF xs(1)] .
    then have "sorted (rkeys xs)" using key_order_sorted [OF ok wf _ xs(2)] rows(1) by simp
    moreover have "mset (rkeys ?sel) = mset (rkeys xs)" using xs(1) by (simp only: mset_map)
    ultimately have "sort (rkeys ?sel) = rkeys xs" by (metis properties_for_sort)
    moreover have "sort (rkeys ?sel) = map rkey (sort_key rkey ?sel)" by (rule properties_for_sort) simp_all
    ultimately have "map rkey xs = map rkey (sort_key rkey ?sel)" by simp
    moreover have "inj_on rkey (set xs \<union> set (sort_key rkey ?sel))" using inj \<open>set xs = set ?sel\<close> by simp
    ultimately show ?thesis by (simp add: inj_on_map_eq_map)
  qed
  then show ?thesis using a unfolding loop_answer_def by metis
qed

text \<open>C15: The LSM engine and the in-memory engine of the tests answer alike: a CREATE TABLE, INSERTs of rows that the LSM
  configuration can hold, with pairwise different keys and without NaN, and a plain SELECT in the ascending order of the key, whose
  operands fit their operators and whose literals are not NaN (statement_ok), give the same results on both, unless the SELECT looks
  up the largest INT64 key, where the in-memory engine overflows. The sort meets the contract of std::sort.\<close>

theorem engines_agree:
  assumes "lsm_table_fits config L (bs_schema stmt) rows" "\<forall>path. snd (found path) = None"
    and "statement_ok stmt" "\<forall>r \<in> set rows. row_nan_free r" "plain stmt" "is_required_key_asc stmt" "\<not> looks_up stmt i64_max"
    and "std_sort_ok sorter"
  shows "\<exists>results. fst (run_statements lsm_ops sorter (fill_table (bs_table_name stmt) (bs_schema stmt) rows @ [BoundSelectStatement stmt])
      (LSMStorageEngine config found)) = Some (Inr results) \<and>
    fst (run_statements MockStorageEngine sorter (fill_table (bs_table_name stmt) (bs_schema stmt) rows @ [BoundSelectStatement stmt])
      Map.empty) = Some (Inr results)"
proof -
  have wf: "schema_wf (bs_schema stmt)" "\<forall>r \<in> set rows. valid_row (bs_schema stmt) r" "distinct (rkeys rows)"
    using assms(1) by (simp_all add: lsm_table_fits_def rows_fit_def storable_def)
  have "\<forall>st T. lsm_engine.answers config L st T stmt rows \<longrightarrow> (\<exists>res st'. execute_select lsm_ops sorter stmt st = (Some (Inr res), st') \<and>
      (\<exists>names answer. build_select_column_names stmt = Inr names \<and> res = \<lparr>sr_column_names = names, sr_rows = answer\<rparr> \<and> loop_answer stmt rows answer))"
    using lsm_engine.plain_select_loop [OF _ assms(5,8)] by blast
  from lsm_query [OF assms(1-4) this] obtain names a st where lsm:
    "build_select_column_names stmt = Inr names" "loop_answer stmt rows a"
    "run_statements lsm_ops sorter (fill_table (bs_table_name stmt) (bs_schema stmt) rows @ [BoundSelectStatement stmt])
      (LSMStorageEngine config found) = (Some (Inr (filled rows @ [SelectResult \<lparr>sr_column_names = names, sr_rows = a\<rparr>])), st)" by blast
  have "\<forall>st T. mock_engine.answers st T stmt rows \<longrightarrow> (\<exists>res st'. execute_select MockStorageEngine sorter stmt st = (Some (Inr res), st') \<and>
      (\<exists>names answer. build_select_column_names stmt = Inr names \<and> res = \<lparr>sr_column_names = names, sr_rows = answer\<rparr> \<and> loop_answer stmt rows answer))"
    using mock_engine.plain_select_loop [OF _ assms(5,8)] by blast
  from mock_query [OF wf assms(3,4,7) this] obtain b st' where mock:
    "loop_answer stmt rows b"
    "run_statements MockStorageEngine sorter (fill_table (bs_table_name stmt) (bs_schema stmt) rows @ [BoundSelectStatement stmt])
      Map.empty = (Some (Inr (filled rows @ [SelectResult \<lparr>sr_column_names = names, sr_rows = b\<rparr>])), st')" using lsm(1) by auto
  have "\<forall>r \<in> set rows. fits_query stmt r" using wf(2) assms(4) by (simp add: fits_query_def)
  then have "a = b" by (rule loop_answer_unique [OF assms(3,6) wf(1) _ wf(3) lsm(2) mock(1)])
  then show ?thesis using lsm(3) mock(2) by simp
qed

lemma engines_agree_witness:
  "\<exists>results. fst (run_statements lsm_ops insertion_sorter (sample_script sample_plain) sample_engine) = Some (Inr results) \<and>
     fst (run_statements MockStorageEngine insertion_sorter (sample_script sample_plain) Map.empty) = Some (Inr results)"
  using engines_agree [of sample_config 2 sample_plain query_rows "\<lambda>_. (\<lambda>_. None, None)" insertion_sorter]
    sample_table_fits sample_plain_ok query_rows_valid(3) insertion_sorter_ok by simp

end
