(* ===== verification/Sql_Text.thy ===== *)
theory Sql_Text
  imports Parser
begin

text \<open>
  Statements as SQL text, and the round trip through lexer and parser. \<open>statement_tokens\<close> gives
  the tokens of a statement in the grammar of \<open>docs/query_language.md\<close>, with parentheses around
  every compound operand; a double is its exact decimal expansion. The theorem says that the
  text of a statement is parsed to this statement.

  A parser \<open>sees\<close> a list of tokens when its look-ahead is the first of them and advancing
  brings the others; \<open>yields\<close> says that a method returns a result with all fuel that is large
  enough. Each method has a lemma that it turns the tokens of a construct into this construct.
\<close>

section \<open>The tokens of a statement\<close>

type_synonym tok = "token_type \<times> string"

fun comparison_token_of :: "binary_operation \<Rightarrow> tok" where
  "comparison_token_of Op_Equal = (T_Equal, ''='')"
| "comparison_token_of Op_NotEqual = (T_NotEqual, ''!='')"
| "comparison_token_of Op_Less = (T_Less, ''<'')"
| "comparison_token_of Op_LessEqual = (T_LessEqual, ''<='')"
| "comparison_token_of Op_Greater = (T_Greater, ''>'')"
| "comparison_token_of Op_GreaterEqual = (T_GreaterEqual, ''>='')"
| "comparison_token_of Op_And = (T_And, ''AND'')"
| "comparison_token_of Op_Or = (T_Or, ''OR'')"

fun is_atomic :: "expression \<Rightarrow> bool" where
  "is_atomic (UnaryExpression op e) = False"
| "is_atomic (BinaryExpression op l r) = False"
| "is_atomic (IsNullExpression e n) = False"
| "is_atomic e = True"

definition paren :: "expression \<Rightarrow> tok list \<Rightarrow> tok list" where
  "paren e ts = (if is_atomic e then ts else (T_LParen, ''('') # ts @ [(T_RParen, '')'')])"

fun print_expression :: "expression \<Rightarrow> tok list" where
  "print_expression NullLiteral = [(T_Null, ''NULL'')]"
| "print_expression (IntLiteral v) = [(T_IntLiteral, show_int (i64_val v))]"
| "print_expression (DoubleLiteral d) = [(T_DoubleLiteral, show_double d)]"
| "print_expression (StringLiteral s) = [(T_StringLiteral, s)]"
| "print_expression (ColumnExpression c) = [(keyword_type c, c)]"
| "print_expression (UnaryExpression op e) = (T_Not, ''NOT'') # paren e (print_expression e)"
| "print_expression (BinaryExpression op l r) =
     paren l (print_expression l) @ comparison_token_of op # paren r (print_expression r)"
| "print_expression (IsNullExpression e is_not) =
     paren e (print_expression e) @ (T_Is, ''IS'') # (if is_not then [(T_Not, ''NOT'')] else []) @ [(T_Null, ''NULL'')]"

definition table_name_ok :: "string \<Rightarrow> bool" where
  "table_name_ok c \<longleftrightarrow> word_text c \<and> keyword_type c = T_Identifier"

definition column_name_ok :: "string \<Rightarrow> bool" where
  "column_name_ok c \<longleftrightarrow> word_text c \<and> keyword_type c \<in> {T_Identifier, T_Key}"

fun expression_ok :: "expression \<Rightarrow> bool" where
  "expression_ok (DoubleLiteral d) = d64_finite d"
| "expression_ok (ColumnExpression c) = column_name_ok c"
| "expression_ok (UnaryExpression op e) = expression_ok e"
| "expression_ok (BinaryExpression op l r) = (expression_ok l \<and> expression_ok r)"
| "expression_ok (IsNullExpression e n) = expression_ok e"
| "expression_ok e = True"

section \<open>What a parser sees\<close>

fun sees :: "parser \<Rightarrow> tok list \<Rightarrow> bool" where
  "sees p [] = True"
| "sees p (t # ts) =
     (token_key (ps_current p) = t \<and> (ts \<noteq> [] \<longrightarrow> (case ps_advance p of Inl e \<Rightarrow> False | Inr p1 \<Rightarrow> sees p1 ts)))"

lemma sees_type: "sees p (t # ts) \<Longrightarrow> tk_type (ps_current p) = fst t" "sees p (t # ts) \<Longrightarrow> tk_text (ps_current p) = snd t"
  by (cases t; simp add: token_key_def)+

lemma sees_expected: "sees p (t # ts) \<Longrightarrow> is_expected_token ty p \<longleftrightarrow> fst t = ty"
  using sees_type(1) [of p t ts] by (simp add: is_expected_token_def)

lemma sees_advance:
  assumes "sees p (t # ts)" "ts \<noteq> []"
  obtains p1 where "ps_advance p = Inr p1" "sees p1 ts"
  using assms by (auto split: sum.splits)

lemma sees_expect:
  assumes "sees p (t # ts)" "ts \<noteq> []" "fst t = ty"
  obtains p1 where "expect ty msg p = Inr p1" "sees p1 ts"
  using assms sees_advance [OF assms(1,2)] sees_expected [OF assms(1)] by (metis expect_def)

declare sees.simps(2) [simp del]

definition yields :: "(nat \<Rightarrow> 'a res option) \<Rightarrow> 'a \<Rightarrow> bool" where
  "yields P r \<longleftrightarrow> (\<exists>n. \<forall>f \<ge> n. P f = Some (Inr r))"

lemma yields_const: "m = Inr r \<Longrightarrow> yields (\<lambda>f. Some m) r"
  by (simp add: yields_def)

lemma yields_obind:
  assumes "yields P r" "yields (\<lambda>f. Q f r) r'"
  shows "yields (\<lambda>f. obind (P f) (Q f)) r'"
proof -
  obtain n m where "\<forall>f \<ge> n. P f = Some (Inr r)" "\<forall>f \<ge> m. Q f r = Some (Inr r')"
    using assms by (auto simp: yields_def)
  then show ?thesis unfolding yields_def by (intro exI [of _ "max n m"]) simp
qed

lemma yields_Suc:
  assumes "yields Q r" "\<And>f. P (Suc f) = Q f"
  shows "yields P r"
proof -
  obtain n where n: "\<forall>f \<ge> n. Q f = Some (Inr r)" using assms(1) by (auto simp: yields_def)
  have "P f = Some (Inr r)" if "Suc n \<le> f" for f using that n assms(2) by (cases f) auto
  then show ?thesis by (auto simp: yields_def)
qed

section \<open>Expressions\<close>

text \<open>The tokens that would continue an expression.\<close>

definition predicate_continues :: "tok \<Rightarrow> bool" where
  "predicate_continues t \<longleftrightarrow>
     fst t \<in> {T_Is, T_Equal, T_NotEqual, T_Less, T_LessEqual, T_Greater, T_GreaterEqual}"

definition expression_ends :: "tok \<Rightarrow> bool" where
  "expression_ends t \<longleftrightarrow> \<not> predicate_continues t \<and> fst t \<noteq> T_And \<and> fst t \<noteq> T_Or"

abbreviation predicate_rest :: "nat \<Rightarrow> expression \<Rightarrow> parser \<Rightarrow> (expression \<times> parser) res option" where
  "predicate_rest f left p1 \<equiv>
     (if is_expected_token T_Is p1 then Some (parse_is_null left p1)
      else case comparison_operation p1 of
          None \<Rightarrow> Some (Inr (left, p1))
        | Some operation \<Rightarrow>
            obind (Some (ps_advance p1)) (\<lambda>p2. obind (parse_atomic_expression f p2) (\<lambda>(right, p3).
              Some (Inr (BinaryExpression operation left right, p3)))))"

lemma expression_ends_predicate: "expression_ends t \<Longrightarrow> \<not> predicate_continues t"
  by (simp add: expression_ends_def)

lemma predicate_step:
  assumes "yields (\<lambda>f. parse_atomic_expression f p) (l, p1)" "yields (\<lambda>f. predicate_rest f l p1) r"
  shows "yields (\<lambda>f. parse_predicate_expression f p) r"
  by (rule yields_Suc [OF yields_obind [OF assms(1), of "\<lambda>f (left, p1). predicate_rest f left p1"]])
    (simp_all only: prod.case assms(2) parse_predicate_expression.simps)

lemma predicate_atom:
  assumes "yields (\<lambda>f. parse_atomic_expression f p) (e, p1)" "sees p1 (t # ts)" "\<not> predicate_continues t"
  shows "yields (\<lambda>f. parse_predicate_expression f p) (e, p1)"
proof (rule predicate_step [OF assms(1)])
  have "\<not> is_expected_token T_Is p1" "comparison_operation p1 = None"
    using assms(3) by (auto simp: sees_expected [OF assms(2)] comparison_operation_def predicate_continues_def)
  then show "yields (\<lambda>f. predicate_rest f e p1) (e, p1)" by (simp add: yields_const)
qed

lemma not_predicate:
  assumes "yields (\<lambda>f. parse_predicate_expression f p) r" "\<not> is_expected_token T_Not p"
  shows "yields (\<lambda>f. parse_not_expression f p) r"
  by (rule yields_Suc [OF assms(1)]) (simp add: assms(2))

lemma and_not:
  assumes "yields (\<lambda>f. parse_not_expression f p) (e, p1)" "yields (\<lambda>f. and_loop f e p1) r"
  shows "yields (\<lambda>f. parse_and_expression f p) r"
  by (rule yields_Suc [OF yields_obind [OF assms(1), of "\<lambda>f (left, p1). and_loop f left p1"]]) (simp_all add: assms(2))

lemma or_and:
  assumes "yields (\<lambda>f. parse_and_expression f p) (e, p1)" "yields (\<lambda>f. or_loop f e p1) r"
  shows "yields (\<lambda>f. parse_or_expression f p) r"
  by (rule yields_Suc [OF yields_obind [OF assms(1), of "\<lambda>f (left, p1). or_loop f left p1"]]) (simp_all add: assms(2))

lemma loop_ends:
  assumes "sees p (t # ts)"
  shows "fst t \<noteq> T_And \<Longrightarrow> yields (\<lambda>f. and_loop f e p) (e, p)" "fst t \<noteq> T_Or \<Longrightarrow> yields (\<lambda>f. or_loop f e p) (e, p)"
  by (rule yields_Suc [OF yields_const [OF refl]]; simp add: sees_expected [OF assms])+

definition reads_atom :: "expression \<Rightarrow> bool" where
  "reads_atom e \<longleftrightarrow> (\<forall>p ts. ts \<noteq> [] \<longrightarrow> sees p (paren e (print_expression e) @ ts) \<longrightarrow>
     (\<exists>p1. yields (\<lambda>f. parse_atomic_expression f p) (e, p1) \<and> sees p1 ts))"

definition reads_or :: "expression \<Rightarrow> bool" where
  "reads_or e \<longleftrightarrow> (\<forall>p t ts. expression_ends t \<longrightarrow> sees p (print_expression e @ t # ts) \<longrightarrow>
     (\<exists>p1. yields (\<lambda>f. parse_or_expression f p) (e, p1) \<and> sees p1 (t # ts)))"

lemma reads_atomD:
  assumes "reads_atom e" "sees p (paren e (print_expression e) @ ts)" "ts \<noteq> []"
  obtains p1 where "yields (\<lambda>f. parse_atomic_expression f p) (e, p1)" "sees p1 ts"
  using assms by (auto simp: reads_atom_def)

lemma reads_orD:
  assumes "reads_or e" "sees p (print_expression e @ t # ts)" "expression_ends t"
  obtains p1 where "yields (\<lambda>f. parse_or_expression f p) (e, p1)" "sees p1 (t # ts)"
  using assms unfolding reads_or_def by blast

lemma atomic_literal:
  assumes "parse_literal_expression p = Inr r" "\<not> is_expected_token T_LParen p" "\<not> is_column_name_token p"
  shows "yields (\<lambda>f. parse_atomic_expression f p) r"
proof -
  have "is_expected_token T_StringLiteral p \<or> is_expected_token T_IntLiteral p \<or>
      is_expected_token T_DoubleLiteral p \<or> is_expected_token T_Null p"
    using assms(1) by (auto simp: parse_literal_expression_def parse_error_def split: if_splits)
  with assms show ?thesis by (intro yields_Suc [OF yields_const [OF assms(1)]]) simp
qed

lemma reads_literal:
  assumes "sees p (print_expression e @ ts)" "ts \<noteq> []" "expression_ok e"
    and "e = NullLiteral \<or> (\<exists>v. e = IntLiteral v) \<or> (\<exists>d. e = DoubleLiteral d) \<or> (\<exists>s. e = StringLiteral s)"
  obtains p1 where "parse_literal_expression p = Inr (e, p1)" "sees p1 ts"
    "\<not> is_expected_token T_LParen p" "\<not> is_column_name_token p"
proof -
  obtain t where t: "print_expression e = [t]" using assms(4) by auto
  then have s: "sees p (t # ts)" using assms(1) by simp
  obtain p1 where p1: "ps_advance p = Inr p1" "sees p1 ts" using sees_advance [OF s assms(2)] .
  show ?thesis
    using that [of p1] p1 assms(3,4) t stod_show_double(1)
    by (auto simp: parse_literal_expression_def sees_expected [OF s] sees_type(2) [OF s] stoll_show_int
        is_column_name_token_def sees_type(1) [OF s])
qed

lemma reads_atom_atomic:
  assumes "is_atomic e" "expression_ok e"
  shows "reads_atom e"
  unfolding reads_atom_def
proof (intro allI impI)
  fix p ts assume ts: "ts \<noteq> []" and "sees p (paren e (print_expression e) @ ts)"
  then have s: "sees p (print_expression e @ ts)" using assms(1) by (simp add: paren_def)
  show "\<exists>p1. yields (\<lambda>f. parse_atomic_expression f p) (e, p1) \<and> sees p1 ts"
  proof (cases "\<exists>c. e = ColumnExpression c")
    case True
    then obtain c where c: "e = ColumnExpression c" by auto
    then have s1: "sees p ((keyword_type c, c) # ts)" using s by simp
    obtain p1 where p1: "ps_advance p = Inr p1" "sees p1 ts" using sees_advance [OF s1 ts] .
    have "is_column_name_token p" "\<not> is_expected_token T_LParen p"
      using assms(2) c sees_type(1) [OF s1] by (auto simp: is_column_name_token_def column_name_ok_def is_expected_token_def)
    then have "yields (\<lambda>f. parse_atomic_expression f p) (e, p1)"
      using c p1 sees_type(2) [OF s1] by (intro yields_Suc [OF yields_const]) simp_all
    then show ?thesis using p1(2) by auto
  next
    case False
    with assms(1) have "e = NullLiteral \<or> (\<exists>v. e = IntLiteral v) \<or> (\<exists>d. e = DoubleLiteral d) \<or> (\<exists>s. e = StringLiteral s)"
      by (cases e) auto
    from reads_literal [OF s ts assms(2) this] show ?thesis by (metis atomic_literal)
  qed
qed

lemma reads_atom_paren:
  assumes "\<not> is_atomic e" "reads_or e"
  shows "reads_atom e"
  unfolding reads_atom_def
proof (intro allI impI)
  fix p ts assume ts: "ts \<noteq> []" and "sees p (paren e (print_expression e) @ ts)"
  then have s: "sees p ((T_LParen, ''('') # print_expression e @ (T_RParen, '')'') # ts)" using assms(1) by (simp add: paren_def)
  obtain p1 where p1: "ps_advance p = Inr p1" "sees p1 (print_expression e @ (T_RParen, '')'') # ts)"
    using sees_advance [OF s] by auto
  obtain p2 where p2: "yields (\<lambda>f. parse_or_expression f p1) (e, p2)" "sees p2 ((T_RParen, '')'') # ts)"
    using reads_orD [OF assms(2) p1(2)] by (auto simp: expression_ends_def predicate_continues_def)
  obtain p3 where p3: "expect T_RParen ''Expected ')' after expression'' p2 = Inr p3" "sees p3 ts"
    using sees_expect [OF p2(2) ts] by auto
  have "yields (\<lambda>f. parse_atomic_expression f p) (e, p3)"
    by (rule yields_Suc [OF yields_obind [OF p2(1), of "\<lambda>f (e, p2).
          obind (Some (expect T_RParen ''Expected ')' after expression'' p2)) (\<lambda>p3. Some (Inr (e, p3)))"]])
      (simp_all add: sees_expected [OF s] p1(1) p3(1) yields_const)
  then show "\<exists>p1. yields (\<lambda>f. parse_atomic_expression f p) (e, p1) \<and> sees p1 ts" using p3(2) by auto
qed

lemma paren_starts:
  assumes "expression_ok e"
  obtains t ts where "paren e (print_expression e) = t # ts" "fst t \<noteq> T_Not"
  using assms that by (cases e) (auto simp: paren_def column_name_ok_def)

text \<open>An operand is read by \<open>ParseNotExpression\<close> and \<open>ParseAndExpression\<close> as an atom.\<close>

lemma reads_operand:
  assumes "reads_atom e" "expression_ok e" "sees p (paren e (print_expression e) @ t # ts)" "\<not> predicate_continues t"
  obtains p1 where "yields (\<lambda>f. parse_not_expression f p) (e, p1)" "sees p1 (t # ts)"
proof -
  obtain p1 where p1: "yields (\<lambda>f. parse_atomic_expression f p) (e, p1)" "sees p1 (t # ts)"
    using reads_atomD [OF assms(1,3)] by auto
  obtain u us where "paren e (print_expression e) = u # us" "fst u \<noteq> T_Not" using paren_starts [OF assms(2)] .
  then have "\<not> is_expected_token T_Not p" using assms(3) sees_expected [of p u "us @ t # ts"] by simp
  then show ?thesis using that p1 not_predicate [OF predicate_atom [OF p1 assms(4)]] by blast
qed

lemma or_of_not:
  assumes "yields (\<lambda>f. parse_not_expression f p) (e, p1)" "sees p1 (t # ts)" "expression_ends t"
  shows "yields (\<lambda>f. parse_or_expression f p) (e, p1)"
proof -
  have "fst t \<noteq> T_And" "fst t \<noteq> T_Or" using assms(3) by (simp_all add: expression_ends_def)
  from or_and [OF and_not [OF assms(1) loop_ends(1)] loop_ends(2)] assms(2) this show ?thesis by blast
qed

lemma reads_or_atomic:
  assumes "is_atomic e" "reads_atom e" "expression_ok e"
  shows "reads_or e"
  unfolding reads_or_def
proof (intro allI impI)
  fix p t ts assume t: "expression_ends t" and "sees p (print_expression e @ t # ts)"
  then have "sees p (paren e (print_expression e) @ t # ts)" using assms(1) by (simp add: paren_def)
  then obtain p1 where "yields (\<lambda>f. parse_not_expression f p) (e, p1)" "sees p1 (t # ts)"
    using reads_operand [OF assms(2,3) _ expression_ends_predicate [OF t]] by blast
  with t show "\<exists>p1. yields (\<lambda>f. parse_or_expression f p) (e, p1) \<and> sees p1 (t # ts)" by (blast intro: or_of_not)
qed

lemma reads_or_not:
  assumes "reads_atom e" "expression_ok e"
  shows "reads_or (UnaryExpression Op_Not e)"
  unfolding reads_or_def
proof (intro allI impI)
  fix p t ts assume t: "expression_ends t" and "sees p (print_expression (UnaryExpression Op_Not e) @ t # ts)"
  then have s: "sees p ((T_Not, ''NOT'') # paren e (print_expression e) @ t # ts)" by simp
  obtain p1 where p1: "ps_advance p = Inr p1" "sees p1 (paren e (print_expression e) @ t # ts)"
    using sees_advance [OF s] by auto
  obtain p2 where p2: "yields (\<lambda>f. parse_not_expression f p1) (e, p2)" "sees p2 (t # ts)"
    using reads_operand [OF assms p1(2) expression_ends_predicate [OF t]] .
  have "yields (\<lambda>f. parse_not_expression f p) (UnaryExpression Op_Not e, p2)"
    by (rule yields_Suc [OF yields_obind [OF p2(1), of "\<lambda>f (e, p2). Some (Inr (UnaryExpression Op_Not e, p2))"]])
      (simp_all add: sees_expected [OF s] p1(1) yields_const)
  with t p2(2) show "\<exists>p1. yields (\<lambda>f. parse_or_expression f p) (UnaryExpression Op_Not e, p1) \<and> sees p1 (t # ts)"
    by (blast intro: or_of_not)
qed

lemma reads_or_predicate:
  assumes "yields (\<lambda>f. parse_predicate_expression f p) (e, p1)" "sees p1 (t # ts)" "expression_ends t"
    and "sees p (paren l (print_expression l) @ us)" "expression_ok l"
  shows "\<exists>p1. yields (\<lambda>f. parse_or_expression f p) (e, p1) \<and> sees p1 (t # ts)"
proof -
  obtain u vs where "paren l (print_expression l) = u # vs" "fst u \<noteq> T_Not" using paren_starts [OF assms(5)] .
  then have "\<not> is_expected_token T_Not p" using assms(4) sees_expected [of p u "vs @ us"] by simp
  from or_of_not [OF not_predicate [OF assms(1) this] assms(2,3)] assms(2) show ?thesis by blast
qed

lemma reads_or_is_null:
  assumes "reads_atom e" "expression_ok e"
  shows "reads_or (IsNullExpression e n)"
  unfolding reads_or_def
proof (intro allI impI)
  fix p t ts
  let ?rest = "(if n then [(T_Not, ''NOT'')] else []) @ (T_Null, ''NULL'') # t # ts"
  assume t: "expression_ends t" and "sees p (print_expression (IsNullExpression e n) @ t # ts)"
  then have s: "sees p (paren e (print_expression e) @ (T_Is, ''IS'') # ?rest)" by simp
  obtain p1 where p1: "yields (\<lambda>f. parse_atomic_expression f p) (e, p1)" "sees p1 ((T_Is, ''IS'') # ?rest)"
    using reads_atomD [OF assms(1) s] by auto
  obtain p2 where p2: "ps_advance p1 = Inr p2" "sees p2 ?rest"
    using sees_advance [OF p1(2)] by auto
  obtain p3 where p3: "(if is_expected_token T_Not p2 then rbind (ps_advance p2) (\<lambda>p2. Inr (True, p2)) else Inr (False, p2)) = Inr (n, p3)"
      "sees p3 ((T_Null, ''NULL'') # t # ts)"
  proof (cases n)
    case True
    then have s2: "sees p2 ((T_Not, ''NOT'') # (T_Null, ''NULL'') # t # ts)" using p2(2) by simp
    obtain p3 where "ps_advance p2 = Inr p3" "sees p3 ((T_Null, ''NULL'') # t # ts)" using sees_advance [OF s2] by blast
    then show ?thesis using that [of p3] True by (simp add: sees_expected [OF s2])
  next
    case False
    then have s2: "sees p2 ((T_Null, ''NULL'') # t # ts)" using p2(2) by simp
    show ?thesis using that [of p2] s2 False by (simp add: sees_expected [OF s2])
  qed
  obtain p4 where p4: "expect T_Null ''Expected NULL after IS or IS NOT'' p3 = Inr p4" "sees p4 (t # ts)"
    using sees_expect [OF p3(2)] by auto
  have "parse_is_null e p1 = Inr (IsNullExpression e n, p4)" by (simp add: parse_is_null_def p2(1) p3(1) p4(1))
  then have "yields (\<lambda>f. parse_predicate_expression f p) (IsNullExpression e n, p4)"
    by (intro predicate_step [OF p1(1)]) (simp add: yields_const sees_expected [OF p1(2)])
  from reads_or_predicate [OF this p4(2) t s assms(2)]
  show "\<exists>p1. yields (\<lambda>f. parse_or_expression f p) (IsNullExpression e n, p1) \<and> sees p1 (t # ts)" .
qed

lemma reads_or_comparison:
  assumes l: "reads_atom l" "expression_ok l" and r: "reads_atom r" "expression_ok r" and op: "op \<noteq> Op_And" "op \<noteq> Op_Or"
  shows "reads_or (BinaryExpression op l r)"
  unfolding reads_or_def
proof (intro allI impI)
  fix p t ts assume t: "expression_ends t" and "sees p (print_expression (BinaryExpression op l r) @ t # ts)"
  then have s: "sees p (paren l (print_expression l) @ comparison_token_of op # paren r (print_expression r) @ t # ts)" by simp
  obtain p1 where p1: "yields (\<lambda>f. parse_atomic_expression f p) (l, p1)"
      "sees p1 (comparison_token_of op # paren r (print_expression r) @ t # ts)"
    using reads_atomD [OF l(1) s] by blast
  obtain p2 where p2: "ps_advance p1 = Inr p2" "sees p2 (paren r (print_expression r) @ t # ts)"
    using sees_advance [OF p1(2)] by blast
  obtain p3 where p3: "yields (\<lambda>f. parse_atomic_expression f p2) (r, p3)" "sees p3 (t # ts)"
    using reads_atomD [OF r(1) p2(2)] by blast
  have c: "\<not> is_expected_token T_Is p1" "comparison_operation p1 = Some op"
    unfolding comparison_operation_def sees_expected [OF p1(2)] using op by (cases op; simp)+
  have "yields (\<lambda>f. parse_predicate_expression f p) (BinaryExpression op l r, p3)"
    by (rule predicate_step [OF p1(1)])
      (use yields_obind [OF p3(1), of "\<lambda>f (right, p3). Some (Inr (BinaryExpression op l right, p3))"] in
        \<open>simp add: c p2(1) yields_const\<close>)
  from reads_or_predicate [OF this p3(2) t s l(2)]
  show "\<exists>p1. yields (\<lambda>f. parse_or_expression f p) (BinaryExpression op l r, p1) \<and> sees p1 (t # ts)" .
qed

text \<open>One round of the loops of \<open>ParseAndExpression\<close> and \<open>ParseOrExpression\<close>.\<close>

lemma and_round:
  assumes "sees p ((T_And, str) # ts)" "ps_advance p = Inr p1" "yields (\<lambda>f. parse_not_expression f p1) (r, p2)"
    and "yields (\<lambda>f. and_loop f (BinaryExpression Op_And l r) p2) x"
  shows "yields (\<lambda>f. and_loop f l p) x"
  by (rule yields_Suc [OF yields_obind [OF assms(3), of "\<lambda>f (right, p2). and_loop f (BinaryExpression Op_And l right) p2"]])
    (simp_all add: assms(2,4) sees_expected [OF assms(1)])

lemma or_round:
  assumes "sees p ((T_Or, str) # ts)" "ps_advance p = Inr p1" "yields (\<lambda>f. parse_and_expression f p1) (r, p2)"
    and "yields (\<lambda>f. or_loop f (BinaryExpression Op_Or l r) p2) x"
  shows "yields (\<lambda>f. or_loop f l p) x"
  by (rule yields_Suc [OF yields_obind [OF assms(3), of "\<lambda>f (right, p2). or_loop f (BinaryExpression Op_Or l right) p2"]])
    (simp_all add: assms(2,4) sees_expected [OF assms(1)])

lemma reads_or_connective:
  assumes l: "reads_atom l" "expression_ok l" and r: "reads_atom r" "expression_ok r" and op: "op = Op_And \<or> op = Op_Or"
  shows "reads_or (BinaryExpression op l r)"
  unfolding reads_or_def
proof (intro allI impI)
  fix p t ts assume t: "expression_ends t" and "sees p (print_expression (BinaryExpression op l r) @ t # ts)"
  then have s: "sees p (paren l (print_expression l) @ comparison_token_of op # paren r (print_expression r) @ t # ts)" by simp
  have c: "\<not> predicate_continues (comparison_token_of op)" using op by (auto simp: predicate_continues_def)
  obtain p1 where p1: "yields (\<lambda>f. parse_not_expression f p) (l, p1)"
      "sees p1 (comparison_token_of op # paren r (print_expression r) @ t # ts)"
    using reads_operand [OF l s c] .
  obtain p2 where p2: "ps_advance p1 = Inr p2" "sees p2 (paren r (print_expression r) @ t # ts)"
    using sees_advance [OF p1(2)] by blast
  obtain p3 where p3: "yields (\<lambda>f. parse_not_expression f p2) (r, p3)" "sees p3 (t # ts)"
    using reads_operand [OF r p2(2) expression_ends_predicate [OF t]] .
  have e: "fst t \<noteq> T_And" "fst t \<noteq> T_Or" using t by (simp_all add: expression_ends_def)
  have "yields (\<lambda>f. parse_or_expression f p) (BinaryExpression op l r, p3)"
  proof (cases "op = Op_And")
    case True
    then have s1: "sees p1 ((T_And, ''AND'') # paren r (print_expression r) @ t # ts)" using p1(2) by simp
    show ?thesis
      unfolding True
      by (rule or_and [OF and_not [OF p1(1) and_round [OF s1 p2(1) p3(1) loop_ends(1) [OF p3(2) e(1)]]] loop_ends(2) [OF p3(2) e(2)]])
  next
    case False
    then have o: "op = Op_Or" using op by simp
    then have s1: "sees p1 ((T_Or, ''OR'') # paren r (print_expression r) @ t # ts)" using p1(2) by simp
    have a: "yields (\<lambda>f. and_loop f l p1) (l, p1)" by (rule loop_ends(1) [OF s1]) simp
    show ?thesis
      unfolding o
      by (rule or_and [OF and_not [OF p1(1) a] or_round [OF s1 p2(1) and_not [OF p3(1) loop_ends(1) [OF p3(2) e(1)]]
          loop_ends(2) [OF p3(2) e(2)]]])
  qed
  with p3(2) show "\<exists>p1. yields (\<lambda>f. parse_or_expression f p) (BinaryExpression op l r, p1) \<and> sees p1 (t # ts)" by blast
qed

lemma reads_expression: "expression_ok e \<Longrightarrow> reads_atom e \<and> reads_or e"
proof (induction e)
  case (UnaryExpression op e)
  then have "reads_or (UnaryExpression op e)" by (cases op) (simp add: reads_or_not)
  then show ?case by (simp add: reads_atom_paren)
next
  case (BinaryExpression op l r)
  then have "reads_or (BinaryExpression op l r)"
    by (cases "op = Op_And \<or> op = Op_Or") (auto intro: reads_or_comparison reads_or_connective)
  then show ?case by (simp add: reads_atom_paren)
next
  case (IsNullExpression e n)
  then have "reads_or (IsNullExpression e n)" by (simp add: reads_or_is_null)
  then show ?case by (simp add: reads_atom_paren)
qed (simp_all add: reads_atom_atomic reads_or_atomic)

section \<open>Lists\<close>

definition comma :: tok where
  "comma = (T_Comma, '','')"

fun print_list :: "('a \<Rightarrow> tok list) \<Rightarrow> 'a list \<Rightarrow> tok list" where
  "print_list pr [] = []"
| "print_list pr (x # xs) = pr x @ concat (map (\<lambda>y. comma # pr y) xs)"

text \<open>A method that reads one item, when the token after it is one of \<open>E\<close>.\<close>

definition reads_item ::
    "(nat \<Rightarrow> parser \<Rightarrow> ('a \<times> parser) res option) \<Rightarrow> ('a \<Rightarrow> tok list) \<Rightarrow> (tok \<Rightarrow> bool) \<Rightarrow> 'a \<Rightarrow> bool" where
  "reads_item item pr E x \<longleftrightarrow> (\<forall>p t ts. E t \<longrightarrow> sees p (pr x @ t # ts) \<longrightarrow>
     (\<exists>p1. yields (\<lambda>f. item f p) (x, p1) \<and> sees p1 (t # ts)))"

lemma comma_loop_reads:
  assumes "\<forall>x \<in> set xs. reads_item item pr E x" "E comma" "E t" "fst t \<noteq> T_Comma"
    and "sees p (concat (map (\<lambda>y. comma # pr y) xs) @ t # ts)"
  shows "\<exists>p1 n. (\<forall>f \<ge> n. \<forall>g \<ge> n. comma_loop g (item f) acc p = Some (Inr (acc @ xs, p1))) \<and> sees p1 (t # ts)"
  using assms(1,5)
proof (induction xs arbitrary: acc p)
  case Nil
  then have s: "sees p (t # ts)" by simp
  have "comma_loop g (item f) acc p = Some (Inr (acc @ [], p))" if "1 \<le> g" for f g
    using that assms(4) by (cases g) (simp_all add: sees_expected [OF s])
  then show ?case using s by (intro exI [of _ p] exI [of _ 1]) simp
next
  case (Cons x xs)
  obtain u us where u: "concat (map (\<lambda>y. comma # pr y) xs) @ t # ts = u # us" "E u"
    using assms(2,3) by (cases xs) auto
  have s: "sees p (comma # pr x @ u # us)" using Cons.prems(2) u(1) by simp
  obtain p1 where p1: "ps_advance p = Inr p1" "sees p1 (pr x @ u # us)" using sees_advance [OF s] by blast
  obtain p2 where p2: "yields (\<lambda>f. item f p1) (x, p2)" "sees p2 (u # us)"
    using Cons.prems(1) p1(2) u(2) unfolding reads_item_def by (metis list.set_intros(1))
  then obtain m where m: "\<And>f. m \<le> f \<Longrightarrow> item f p1 = Some (Inr (x, p2))" by (auto simp: yields_def)
  have "sees p2 (concat (map (\<lambda>y. comma # pr y) xs) @ t # ts)" using p2(2) u(1) by simp
  then obtain p3 n where n: "\<forall>f \<ge> n. \<forall>g \<ge> n. comma_loop g (item f) (acc @ [x]) p2 = Some (Inr ((acc @ [x]) @ xs, p3))"
      "sees p3 (t # ts)"
    using Cons.IH [of p2 "acc @ [x]"] Cons.prems(1) by auto
  have "comma_loop g (item f) acc p = Some (Inr (acc @ x # xs, p3))" if fg: "max m (Suc n) \<le> f" "max m (Suc n) \<le> g" for f g
  proof -
    obtain h where h: "g = Suc h" using fg(2) by (cases g) auto
    show ?thesis using fg n(1) [rule_format, of f h] m [of f] p1(1) unfolding h by (simp add: sees_expected [OF s] comma_def)
  qed
  then show ?case using n(2) by (intro exI [of _ p3] exI [of _ "max m (Suc n)"]) blast
qed

lemma comma_list_reads:
  assumes "xs \<noteq> []" "\<forall>x \<in> set xs. reads_item item pr E x" "E comma" "E t" "fst t \<noteq> T_Comma"
    and "sees p (print_list pr xs @ t # ts)"
  obtains p1 where "yields (\<lambda>f. comma_list f (item f) p) (xs, p1)" "sees p1 (t # ts)"
proof -
  obtain x ys where xs: "xs = x # ys" using assms(1) by (cases xs) auto
  obtain u us where u: "concat (map (\<lambda>y. comma # pr y) ys) @ t # ts = u # us" "E u"
    using assms(3,4) by (cases ys) auto
  have "sees p (pr x @ u # us)" using assms(6) u(1) xs by simp
  then obtain p1 where p1: "yields (\<lambda>f. item f p) (x, p1)" "sees p1 (u # us)"
    using assms(2) u(2) unfolding reads_item_def xs by (metis list.set_intros(1))
  then have "sees p1 (concat (map (\<lambda>y. comma # pr y) ys) @ t # ts)" using u(1) by simp
  then obtain p2 n where p2: "\<forall>f \<ge> n. \<forall>g \<ge> n. comma_loop g (item f) [x] p1 = Some (Inr ([x] @ ys, p2))" "sees p2 (t # ts)"
    using comma_loop_reads [of ys item pr E t p1 ts "[x]"] assms xs by auto
  then have "yields (\<lambda>f. comma_loop f (item f) [x] p1) (xs, p2)" unfolding yields_def xs by (intro exI [of _ n]) simp
  then have "yields (\<lambda>f. comma_list f (item f) p) (xs, p2)"
    unfolding comma_list_def by (intro yields_obind [OF p1(1), of "\<lambda>f (x, p1). comma_loop f (item f) [x] p1"]) simp
  with p2(2) show ?thesis using that by blast
qed

section \<open>Statements\<close>

fun data_type_token :: "data_type \<Rightarrow> tok" where
  "data_type_token D_String = (T_StringType, ''STRING'')"
| "data_type_token D_Int64 = (T_Int64Type, ''INT64'')"
| "data_type_token D_Double = (T_DoubleType, ''DOUBLE'')"

fun aggregate_token :: "aggregate_kind \<Rightarrow> tok" where
  "aggregate_token Agg_Count = (T_Count, ''COUNT'')"
| "aggregate_token Agg_Sum = (T_Sum, ''SUM'')"
| "aggregate_token Agg_Avg = (T_Avg, ''AVG'')"
| "aggregate_token Agg_Min = (T_Min, ''MIN'')"
| "aggregate_token Agg_Max = (T_Max, ''MAX'')"

definition print_name :: "string \<Rightarrow> tok list" where
  "print_name c = [(keyword_type c, c)]"

definition print_column :: "column_definition \<Rightarrow> tok list" where
  "print_column c =
     (keyword_type (cd_name c), cd_name c) # data_type_token (cd_type c) #
     (if cd_is_key c then [(T_Key, ''KEY'')]
      else if cd_nullable c then [(T_Null, ''NULL'')]
      else [(T_Not, ''NOT''), (T_Null, ''NULL'')])"

fun print_select_item :: "select_item \<Rightarrow> tok list" where
  "print_select_item SelectItemStar = [(T_Star, ''*'')]"
| "print_select_item (SelectItemExpression e) = print_expression e"
| "print_select_item (SelectAggregateExpression kind e) =
     aggregate_token kind # (T_LParen, ''('') # print_expression e @ [(T_RParen, '')'')]"

definition print_order_item :: "order_by_item \<Rightarrow> tok list" where
  "print_order_item item = print_expression (ob_expression item) @
     [case ob_direction item of Asc \<Rightarrow> (T_Asc, ''ASC'') | Desc \<Rightarrow> (T_Desc, ''DESC'')]"

definition print_where :: "expression option \<Rightarrow> tok list" where
  "print_where w = (case w of None \<Rightarrow> [] | Some e \<Rightarrow> (T_Where, ''WHERE'') # print_expression e)"

definition print_group_by :: "expression list \<Rightarrow> tok list" where
  "print_group_by es = (if es = [] then [] else (T_Group, ''GROUP'') # (T_By, ''BY'') # print_list print_expression es)"

definition print_order_by :: "order_by_item list \<Rightarrow> tok list" where
  "print_order_by es = (if es = [] then [] else (T_Order, ''ORDER'') # (T_By, ''BY'') # print_list print_order_item es)"

definition print_limit :: "nat option \<Rightarrow> tok list" where
  "print_limit l = (case l of None \<Rightarrow> [] | Some n \<Rightarrow> [(T_Limit, ''LIMIT''), (T_IntLiteral, dec_digits n)])"

definition semicolon :: tok where
  "semicolon = (T_Semicolon, '';'')"

fun statement_tokens :: "statement \<Rightarrow> tok list" where
  "statement_tokens (CreateTableStatement name cs) =
     [(T_Create, ''CREATE''), (T_Table, ''TABLE''), (keyword_type name, name), (T_LParen, ''('')] @
     print_list print_column cs @ [(T_RParen, '')''), semicolon]"
| "statement_tokens (InsertStatement name cs vs) =
     [(T_Insert, ''INSERT''), (T_Into, ''INTO''), (keyword_type name, name), (T_LParen, ''('')] @
     print_list print_name cs @ [(T_RParen, '')''), (T_Values, ''VALUES''), (T_LParen, ''('')] @
     print_list print_expression vs @ [(T_RParen, '')''), semicolon]"
| "statement_tokens (SelectStatement se) =
     (T_Select, ''SELECT'') # print_list print_select_item (se_select_items se) @
     (T_From, ''FROM'') # (keyword_type (se_table_name se), se_table_name se) #
     print_where (se_where_expression se) @ print_group_by (se_group_by_items se) @
     print_order_by (se_order_by_items se) @ print_limit (se_limit se) @ [semicolon]"

definition is_literal :: "expression \<Rightarrow> bool" where
  "is_literal e \<longleftrightarrow> (case e of NullLiteral \<Rightarrow> True | IntLiteral v \<Rightarrow> True | DoubleLiteral d \<Rightarrow> True | StringLiteral s \<Rightarrow> True | _ \<Rightarrow> False)"

fun select_item_ok :: "select_item \<Rightarrow> bool" where
  "select_item_ok SelectItemStar = True"
| "select_item_ok (SelectItemExpression e) = expression_ok e"
| "select_item_ok (SelectAggregateExpression kind e) = expression_ok e"

text \<open>The statements the grammar can write: names that are no keywords, finite doubles, no empty lists.\<close>

fun statement_ok :: "statement \<Rightarrow> bool" where
  "statement_ok (CreateTableStatement name cs) \<longleftrightarrow>
     table_name_ok name \<and> cs \<noteq> [] \<and> list_all (\<lambda>c. column_name_ok (cd_name c) \<and> \<not> (cd_is_key c \<and> cd_nullable c)) cs"
| "statement_ok (InsertStatement name cs vs) \<longleftrightarrow>
     table_name_ok name \<and> cs \<noteq> [] \<and> list_all column_name_ok cs \<and>
     vs \<noteq> [] \<and> list_all (\<lambda>v. is_literal v \<and> expression_ok v) vs"
| "statement_ok (SelectStatement se) \<longleftrightarrow>
     table_name_ok (se_table_name se) \<and> se_select_items se \<noteq> [] \<and> list_all select_item_ok (se_select_items se) \<and>
     (case se_where_expression se of None \<Rightarrow> True | Some e \<Rightarrow> expression_ok e) \<and>
     list_all expression_ok (se_group_by_items se) \<and>
     list_all (\<lambda>item. expression_ok (ob_expression item)) (se_order_by_items se) \<and>
     (case se_limit se of None \<Rightarrow> True | Some n \<Rightarrow> n < 2 ^ 64)"

definition statement_text :: "statement \<Rightarrow> string" where
  "statement_text st = spell (statement_tokens st)"

lemma reads_item_expression: "expression_ok e \<Longrightarrow> reads_item parse_or_expression print_expression expression_ends e"
  using reads_expression [of e] by (auto simp: reads_item_def reads_or_def)

lemma expression_ends_simps [simp]:
  "expression_ends comma" "expression_ends semicolon" "expression_ends (T_RParen, s)" "expression_ends (T_From, s)"
  "expression_ends (T_Group, s)" "expression_ends (T_Order, s)" "expression_ends (T_Limit, s)"
  "expression_ends (T_Asc, s)" "expression_ends (T_Desc, s)"
  by (simp_all add: expression_ends_def predicate_continues_def comma_def semicolon_def)

lemma sees_advance_eq:
  assumes "sees p (t # ts)" "ts \<noteq> []"
  shows "\<exists>p1. ps_advance p = Inr p1 \<and> sees p1 ts"
  using sees_advance [OF assms] by blast

lemma expression_starts:
  assumes "expression_ok e"
  obtains t ts where "print_expression e = t # ts"
    "fst t \<in> {T_Null, T_IntLiteral, T_DoubleLiteral, T_StringLiteral, T_Identifier, T_Key, T_Not, T_LParen}"
proof -
  have a: "\<exists>t ts. paren x (print_expression x) = t # ts \<and>
      fst t \<in> {T_Null, T_IntLiteral, T_DoubleLiteral, T_StringLiteral, T_Identifier, T_Key, T_LParen}"
    if "expression_ok x" for x
    using that by (cases x) (auto simp: paren_def column_name_ok_def)
  show ?thesis
  proof (cases e)
    case (BinaryExpression op l r)
    then obtain t ts where "paren l (print_expression l) = t # ts"
        "fst t \<in> {T_Null, T_IntLiteral, T_DoubleLiteral, T_StringLiteral, T_Identifier, T_Key, T_LParen}"
      using a [of l] assms by auto
    then show ?thesis using that [of t] BinaryExpression by auto
  next
    case (IsNullExpression x n)
    then obtain t ts where "paren x (print_expression x) = t # ts"
        "fst t \<in> {T_Null, T_IntLiteral, T_DoubleLiteral, T_StringLiteral, T_Identifier, T_Key, T_LParen}"
      using a [of x] assms by auto
    then show ?thesis using that [of t] IsNullExpression by auto
  qed (use that assms in \<open>auto simp: column_name_ok_def\<close>)
qed

lemma reads_item_select:
  assumes "select_item_ok x"
  shows "reads_item parse_select_item print_select_item expression_ends x"
  unfolding reads_item_def
proof (intro allI impI)
  fix p t ts assume t: "expression_ends t" and s: "sees p (print_select_item x @ t # ts)"
  show "\<exists>p1. yields (\<lambda>f. parse_select_item f p) (x, p1) \<and> sees p1 (t # ts)"
  proof (cases x)
    case SelectItemStar
    then have s1: "sees p ((T_Star, ''*'') # t # ts)" using s by simp
    obtain p1 where p1: "ps_advance p = Inr p1" "sees p1 (t # ts)" using sees_advance [OF s1] by blast
    then show ?thesis
      using SelectItemStar by (intro exI [of _ p1]) (simp add: parse_select_item_def sees_expected [OF s1] yields_const)
  next
    case (SelectItemExpression e)
    obtain u us where u: "print_expression e = u # us"
        "fst u \<in> {T_Null, T_IntLiteral, T_DoubleLiteral, T_StringLiteral, T_Identifier, T_Key, T_Not, T_LParen}"
      using expression_starts [of e] assms SelectItemExpression by auto
    have s1: "sees p (u # us @ t # ts)" using s SelectItemExpression u(1) by simp
    have n: "\<not> is_expected_token T_Star p" "aggregate_of_token p = None"
      using u(2) by (auto simp: aggregate_of_token_def sees_expected [OF s1])
    obtain p1 where p1: "yields (\<lambda>f. parse_or_expression f p) (e, p1)" "sees p1 (t # ts)"
      using reads_item_expression [of e] assms SelectItemExpression t s unfolding reads_item_def
      by (metis print_select_item.simps(2) select_item_ok.simps(2))
    have "yields (\<lambda>f. obind (parse_or_expression f p) (\<lambda>(e, p1). Some (Inr (SelectItemExpression e, p1)))) (x, p1)"
      by (rule yields_obind [OF p1(1)]) (simp add: yields_const SelectItemExpression)
    then show ?thesis using p1(2) n by (intro exI [of _ p1]) (simp add: parse_select_item_def)
  next
    case (SelectAggregateExpression kind e)
    have s1: "sees p (aggregate_token kind # (T_LParen, ''('') # print_expression e @ (T_RParen, '')'') # t # ts)"
      using s SelectAggregateExpression by simp
    have n: "\<not> is_expected_token T_Star p" "aggregate_of_token p = Some kind"
      unfolding aggregate_of_token_def sees_expected [OF s1] by (cases kind; simp)+
    obtain p1 where p1: "ps_advance p = Inr p1" "sees p1 ((T_LParen, ''('') # print_expression e @ (T_RParen, '')'') # t # ts)"
      using sees_advance [OF s1] by blast
    obtain p2 where p2: "expect T_LParen ''Expected '(' after aggregate function'' p1 = Inr p2"
        "sees p2 (print_expression e @ (T_RParen, '')'') # t # ts)"
      using sees_expect [OF p1(2)] by auto
    obtain p3 where p3: "yields (\<lambda>f. parse_or_expression f p2) (e, p3)" "sees p3 ((T_RParen, '')'') # t # ts)"
      using reads_orD [OF _ p2(2)] reads_expression [of e] assms SelectAggregateExpression by auto
    obtain p4 where p4: "expect T_RParen ''Expected ')' after aggregate argument'' p3 = Inr p4" "sees p4 (t # ts)"
      using sees_expect [OF p3(2)] by auto
    have "yields (\<lambda>f. obind (parse_or_expression f p2) (\<lambda>(e, p3).
        obind (Some (expect T_RParen ''Expected ')' after aggregate argument'' p3)) (\<lambda>p4.
          Some (Inr (SelectAggregateExpression kind e, p4))))) (x, p4)"
      by (rule yields_obind [OF p3(1)]) (simp add: yields_const p4(1) SelectAggregateExpression)
    then show ?thesis using p4(2) n p1(1) p2(1) by (intro exI [of _ p4]) (simp add: parse_select_item_def)
  qed
qed

lemma reads_item_order:
  assumes "expression_ok (ob_expression x)"
  shows "reads_item parse_order_by_item print_order_item E x"
  unfolding reads_item_def
proof (intro allI impI)
  fix p t ts
  let ?d = "case ob_direction x of Asc \<Rightarrow> (T_Asc, ''ASC'') | Desc \<Rightarrow> (T_Desc, ''DESC'')"
  assume "sees p (print_order_item x @ t # ts)"
  then have s: "sees p (print_expression (ob_expression x) @ ?d # t # ts)" by (simp add: print_order_item_def)
  have "expression_ends ?d" by (cases "ob_direction x") simp_all
  then obtain p1 where p1: "yields (\<lambda>f. parse_or_expression f p) (ob_expression x, p1)" "sees p1 (?d # t # ts)"
    using reads_orD [OF _ s] reads_expression [OF assms] by blast
  obtain p2 where p2: "ps_advance p1 = Inr p2" "sees p2 (t # ts)" using sees_advance [OF p1(2)] by blast
  have x: "x = \<lparr>ob_expression = ob_expression x, ob_direction = ob_direction x\<rparr>" by simp
  have "yields (\<lambda>f. parse_order_by_item f p) (x, p2)"
    unfolding parse_order_by_item_def
    by (rule yields_obind [OF p1(1)], subst x, cases "ob_direction x")
      (simp_all add: yields_const sees_expected [OF p1(2)] p2(1))
  with p2(2) show "\<exists>p1. yields (\<lambda>f. parse_order_by_item f p) (x, p1) \<and> sees p1 (t # ts)" by blast
qed

lemma reads_column_name:
  assumes "sees p (print_name c @ ts)" "ts \<noteq> []" "column_name_ok c"
  obtains p1 where "parse_column_name msg p = Inr (c, p1)" "sees p1 ts"
proof -
  have s: "sees p ((keyword_type c, c) # ts)" using assms(1) by (simp add: print_name_def)
  have "is_column_name_token p"
    using sees_type(1) [OF s] assms(3) by (auto simp: is_column_name_token_def column_name_ok_def)
  then show ?thesis
    using that sees_advance_eq [OF s assms(2)] sees_type(2) [OF s] by (auto simp: parse_column_name_def)
qed

lemma reads_table_name:
  assumes "sees p ((keyword_type c, c) # ts)" "ts \<noteq> []" "table_name_ok c"
  obtains p1 where "parse_table_name msg p = Inr (c, p1)" "sees p1 ts"
proof -
  have "is_expected_token T_Identifier p"
    using sees_expected [OF assms(1)] assms(3) by (auto simp: table_name_ok_def)
  then show ?thesis
    using that sees_advance_eq [OF assms(1,2)] sees_type(2) [OF assms(1)] by (auto simp: parse_table_name_def)
qed

lemma reads_column_type:
  assumes "sees p (data_type_token ty # ts)" "ts \<noteq> []"
  obtains p1 where "parse_column_type p = Inr (ty, p1)" "sees p1 ts"
  using that sees_advance_eq [OF assms]
  by (cases ty) (auto simp: parse_column_type_def sees_expected [OF assms(1)])

lemma reads_column:
  assumes "sees p (print_column c @ ts)" "ts \<noteq> []" "column_name_ok (cd_name c)" "\<not> (cd_is_key c \<and> cd_nullable c)"
  obtains p1 where "parse_column_definition p = Inr (c, p1)" "sees p1 ts"
proof -
  let ?m = "if cd_is_key c then [(T_Key, ''KEY'')] else if cd_nullable c then [(T_Null, ''NULL'')]
      else [(T_Not, ''NOT''), (T_Null, ''NULL'')]"
  have s: "sees p (print_name (cd_name c) @ data_type_token (cd_type c) # ?m @ ts)"
    using assms(1) by (simp add: print_column_def print_name_def)
  obtain p1 where p1: "parse_column_name ''Expected column name'' p = Inr (cd_name c, p1)" "sees p1 (data_type_token (cd_type c) # ?m @ ts)"
    using reads_column_name [OF s _ assms(3)] by blast
  obtain p2 where p2: "parse_column_type p1 = Inr (cd_type c, p2)" "sees p2 (?m @ ts)"
    using reads_column_type [OF p1(2)] assms(2) by blast
  have c: "c = \<lparr>cd_name = cd_name c, cd_type = cd_type c, cd_nullable = cd_nullable c, cd_is_key = cd_is_key c\<rparr>" by simp
  consider (key) "cd_is_key c" "\<not> cd_nullable c" | (null) "\<not> cd_is_key c" "cd_nullable c" | (neither) "\<not> cd_is_key c" "\<not> cd_nullable c"
    using assms(4) by blast
  then show ?thesis
  proof cases
    case key
    then have s2: "sees p2 ((T_Key, ''KEY'') # ts)" using p2(2) by simp
    show ?thesis
      using that sees_advance_eq [OF s2 assms(2)] key
      by (subst (asm) c) (auto simp: parse_column_definition_def p1(1) p2(1) Let_def sees_expected [OF s2])
  next
    case null
    then have s2: "sees p2 ((T_Null, ''NULL'') # ts)" using p2(2) by simp
    show ?thesis
      using that sees_advance_eq [OF s2 assms(2)] null
      by (subst (asm) c) (auto simp: parse_column_definition_def p1(1) p2(1) Let_def sees_expected [OF s2])
  next
    case neither
    then have s2: "sees p2 ((T_Not, ''NOT'') # (T_Null, ''NULL'') # ts)" using p2(2) by simp
    obtain p3 where p3: "ps_advance p2 = Inr p3" "sees p3 ((T_Null, ''NULL'') # ts)" using sees_advance [OF s2] by blast
    obtain p4 where p4: "expect T_Null ''Expected NULL after NOT'' p3 = Inr p4" "sees p4 ts"
      using sees_expect [OF p3(2) assms(2)] by auto
    show ?thesis
      using that [of p4] neither p4
      by (subst (asm) c) (auto simp: parse_column_definition_def p1(1) p2(1) p3(1) Let_def sees_expected [OF s2])
  qed
qed

section \<open>More fuel, same result\<close>

definition refines :: "'a option \<Rightarrow> 'a option \<Rightarrow> bool" where
  "refines a b \<longleftrightarrow> a = None \<or> a = b"

lemma refines_refl [simp]: "refines a a" "refines None a"
  by (simp_all add: refines_def)

lemma refines_obind: "refines a b \<Longrightarrow> (\<And>x. refines (g x) (h x)) \<Longrightarrow> refines (obind a g) (obind b h)"
  unfolding refines_def by (cases "a = None") (auto simp: obind_def split: sum.splits option.splits)

lemma refines_trans: "refines a b \<Longrightarrow> refines b c \<Longrightarrow> refines a c"
  by (auto simp: refines_def)

lemmas expression_simps =
  parse_or_expression.simps or_loop.simps parse_and_expression.simps and_loop.simps
  parse_not_expression.simps parse_predicate_expression.simps parse_atomic_expression.simps

lemma expression_refines:
  "(\<forall>p. refines (parse_or_expression f p) (parse_or_expression (Suc f) p)) \<and>
   (\<forall>e p. refines (or_loop f e p) (or_loop (Suc f) e p)) \<and>
   (\<forall>p. refines (parse_and_expression f p) (parse_and_expression (Suc f) p)) \<and>
   (\<forall>e p. refines (and_loop f e p) (and_loop (Suc f) e p)) \<and>
   (\<forall>p. refines (parse_not_expression f p) (parse_not_expression (Suc f) p)) \<and>
   (\<forall>p. refines (parse_predicate_expression f p) (parse_predicate_expression (Suc f) p)) \<and>
   (\<forall>p. refines (parse_atomic_expression f p) (parse_atomic_expression (Suc f) p))"
proof (induction f)
  case 0
  show ?case by simp
next
  case (Suc f)
  then have IH: "refines (parse_or_expression f p) (parse_or_expression (Suc f) p)"
    "refines (or_loop f e p) (or_loop (Suc f) e p)"
    "refines (parse_and_expression f p) (parse_and_expression (Suc f) p)"
    "refines (and_loop f e p) (and_loop (Suc f) e p)"
    "refines (parse_not_expression f p) (parse_not_expression (Suc f) p)"
    "refines (parse_predicate_expression f p) (parse_predicate_expression (Suc f) p)"
    "refines (parse_atomic_expression f p) (parse_atomic_expression (Suc f) p)" for e p by blast+
  show ?case
    apply (intro conjI allI)
    subgoal for p by (subst (1 2) parse_or_expression.simps) (auto simp del: expression_simps intro!: refines_obind IH split: prod.split)
    subgoal for e p by (subst (1 2) or_loop.simps) (auto simp del: expression_simps intro!: refines_obind IH split: prod.split)
    subgoal for p by (subst (1 2) parse_and_expression.simps) (auto simp del: expression_simps intro!: refines_obind IH split: prod.split)
    subgoal for e p by (subst (1 2) and_loop.simps) (auto simp del: expression_simps intro!: refines_obind IH split: prod.split)
    subgoal for p by (subst (1 2) parse_not_expression.simps) (auto simp del: expression_simps intro!: refines_obind IH split: prod.split)
    subgoal for p by (subst (1 2) parse_predicate_expression.simps) (auto simp del: expression_simps intro!: refines_obind IH split: prod.split option.split)
    subgoal for p by (subst (1 2) parse_atomic_expression.simps) (auto simp del: expression_simps intro!: refines_obind IH split: prod.split)
    done
qed

lemma refines_upto:
  assumes "\<And>f. refines (P f) (P (Suc f))" "f \<le> g"
  shows "refines (P f) (P g)"
  using assms(2) by (induction rule: dec_induct) (auto intro: refines_trans assms(1))

lemma or_refines: "f \<le> g \<Longrightarrow> refines (parse_or_expression f p) (parse_or_expression g p)"
  by (rule refines_upto) (use expression_refines in blast)

lemma comma_loop_refines:
  assumes "\<And>q. refines (item q) (item' q)"
  shows "f \<le> g \<Longrightarrow> refines (comma_loop f item acc p) (comma_loop g item' acc p)"
proof (induction f arbitrary: g acc p)
  case (Suc f)
  then obtain h where "g = Suc h" "f \<le> h" by (cases g) auto
  then show ?case by (auto intro!: refines_obind assms Suc.IH split: prod.split)
qed simp

lemma comma_list_refines:
  assumes "\<And>q. refines (item q) (item' q)" "f \<le> g"
  shows "refines (comma_list f item p) (comma_list g item' p)"
  unfolding comma_list_def by (auto intro!: refines_obind assms comma_loop_refines split: prod.split)

lemma select_item_refines: "f \<le> g \<Longrightarrow> refines (parse_select_item f p) (parse_select_item g p)"
  unfolding parse_select_item_def by (auto intro!: refines_obind or_refines split: prod.split option.split)

lemma order_item_refines: "f \<le> g \<Longrightarrow> refines (parse_order_by_item f p) (parse_order_by_item g p)"
  unfolding parse_order_by_item_def by (auto intro!: refines_obind or_refines split: prod.split)

lemma clause_refines:
  assumes "f \<le> g"
  shows "refines (parse_where f p) (parse_where g p)" "refines (parse_group_by f p) (parse_group_by g p)"
    "refines (parse_order_by f p) (parse_order_by g p)"
  unfolding parse_where_def parse_group_by_def parse_order_by_def
  using assms
  by (auto intro!: refines_obind or_refines comma_list_refines order_item_refines split: prod.split)

lemma statement_refines:
  assumes "f \<le> g"
  shows "refines (parse_statement f p) (parse_statement g p)"
proof -
  have "refines (parse_create_table_statement f p) (parse_create_table_statement g p)"
    unfolding parse_create_table_statement_def
    by (auto intro!: refines_obind comma_list_refines assms split: prod.split)
  moreover have "refines (parse_insert_statement f p) (parse_insert_statement g p)"
    unfolding parse_insert_statement_def
    by (auto intro!: refines_obind comma_list_refines comma_loop_refines assms split: prod.split)
  moreover have "refines (parse_select_statement f p) (parse_select_statement g p)"
    unfolding parse_select_statement_def
    by (auto intro!: refines_obind comma_list_refines select_item_refines clause_refines assms split: prod.split)
  ultimately show ?thesis by (simp add: parse_statement_def)
qed

section \<open>Reading statements\<close>

definition yields_some :: "(nat \<Rightarrow> ('a \<times> parser) res option) \<Rightarrow> 'a \<Rightarrow> bool" where
  "yields_some P x \<longleftrightarrow> (\<exists>p. yields P (x, p))"

lemma step_expect:
  assumes "sees p (t # ts)" "ts \<noteq> []" "fst t = ty" "\<And>p1. sees p1 ts \<Longrightarrow> yields_some (\<lambda>f. G f p1) x"
  shows "yields_some (\<lambda>f. obind (Some (expect ty msg p)) (G f)) x"
proof -
  obtain p1 where "expect ty msg p = Inr p1" "sees p1 ts" using sees_expect [OF assms(1-3)] by blast
  with assms(4) show ?thesis by simp
qed

lemma step_const:
  assumes "m = Inr y" "yields_some (\<lambda>f. G f y) x"
  shows "yields_some (\<lambda>f. obind (Some m) (G f)) x"
  using assms by simp

lemma step_yields:
  assumes "yields P y" "yields_some (\<lambda>f. G f y) x"
  shows "yields_some (\<lambda>f. obind (P f) (G f)) x"
proof -
  obtain p where "yields (\<lambda>f. G f y) (x, p)" using assms(2) by (auto simp: yields_some_def)
  from yields_obind [where Q = G, OF assms(1) this] show ?thesis by (auto simp: yields_some_def)
qed

lemma step_end: "yields_some (\<lambda>f. Some (Inr (x, p))) x"
  by (auto simp: yields_some_def intro!: yields_const)

definition end_token :: tok where
  "end_token = (T_EndOfFile, [])"

lemma reads_create:
  assumes "statement_ok (CreateTableStatement name cs)" "sees p (statement_tokens (CreateTableStatement name cs) @ [end_token])"
  shows "yields_some (\<lambda>f. parse_create_table_statement f p) (CreateTableStatement name cs)"
proof -
  have item: "\<forall>c \<in> set cs. reads_item (\<lambda>f q. Some (parse_column_definition q)) print_column (\<lambda>_. True) c"
    using assms(1) by (auto simp: reads_item_def list_all_iff intro!: yields_const elim!: reads_column)
  have s: "sees p ((T_Create, ''CREATE'') # (T_Table, ''TABLE'') # (keyword_type name, name) # (T_LParen, ''('') #
      print_list print_column cs @ (T_RParen, '')'') # semicolon # [end_token])"
    using assms(2) by simp
  show ?thesis
    unfolding parse_create_table_statement_def
  proof (rule step_expect [OF s], simp, simp, rule step_expect, assumption, simp, simp)
    fix p2 assume s2: "sees p2 ((keyword_type name, name) # (T_LParen, ''('') #
      print_list print_column cs @ (T_RParen, '')'') # semicolon # [end_token])"
    obtain p3 where p3: "parse_table_name ''Expected table name'' p2 = Inr (name, p3)" "sees p3 ((T_LParen, ''('') #
      print_list print_column cs @ (T_RParen, '')'') # semicolon # [end_token])"
      using reads_table_name [OF s2] assms(1) by auto
    show "yields_some (\<lambda>f. obind (Some (parse_table_name ''Expected table name'' p2)) (\<lambda>(name, p3).
     obind (Some (expect T_LParen ''Expected '(' after table name'' p3)) (\<lambda>p4.
     obind (comma_list f (\<lambda>q. Some (parse_column_definition q)) p4) (\<lambda>(columns, p5).
     obind (Some (expect T_RParen ''Expected ')' after column definitions'' p5)) (\<lambda>p6.
     obind (Some (expect T_Semicolon ''Expected ';' after CREATE TABLE statement'' p6)) (\<lambda>p7.
       Some (Inr (CreateTableStatement name columns, p7)))))))) (CreateTableStatement name cs)"
    proof (rule step_const [OF p3(1)], unfold prod.case, rule step_expect [OF p3(2)], simp, simp)
      fix p4 assume s4: "sees p4 (print_list print_column cs @ (T_RParen, '')'') # semicolon # [end_token])"
      obtain p5 where p5: "yields (\<lambda>f. comma_list f (\<lambda>q. Some (parse_column_definition q)) p4) (cs, p5)"
          "sees p5 ((T_RParen, '')'') # semicolon # [end_token])"
        using comma_list_reads [OF _ item _ _ _ s4] assms(1) by auto
      show "yields_some (\<lambda>f. obind (comma_list f (\<lambda>q. Some (parse_column_definition q)) p4) (\<lambda>(columns, p5).
     obind (Some (expect T_RParen ''Expected ')' after column definitions'' p5)) (\<lambda>p6.
     obind (Some (expect T_Semicolon ''Expected ';' after CREATE TABLE statement'' p6)) (\<lambda>p7.
       Some (Inr (CreateTableStatement name columns, p7)))))) (CreateTableStatement name cs)"
        by (rule step_yields [OF p5(1)], unfold prod.case, rule step_expect [OF p5(2)], simp, simp,
            rule step_expect, assumption, simp, simp add: semicolon_def, rule step_end)
    qed
  qed
qed

lemma reads_values:
  assumes "list_all (\<lambda>v. is_literal v \<and> expression_ok v) vs"
  shows "\<forall>v \<in> set vs. reads_item (\<lambda>f q. Some (parse_literal_expression q)) print_expression (\<lambda>_. True) v"
proof
  fix v assume "v \<in> set vs"
  then have v: "is_literal v" "expression_ok v" using assms by (simp_all add: list_all_iff)
  then have "expression_ok v" "v = NullLiteral \<or> (\<exists>n. v = IntLiteral n) \<or> (\<exists>d. v = DoubleLiteral d) \<or> (\<exists>s. v = StringLiteral s)"
    by (cases v; simp add: is_literal_def)+
  then show "reads_item (\<lambda>f q. Some (parse_literal_expression q)) print_expression (\<lambda>_. True) v"
    unfolding reads_item_def by (blast elim: reads_literal intro: yields_const)
qed

lemma reads_insert:
  assumes ok: "statement_ok (InsertStatement name cs vs)" and see: "sees p (statement_tokens (InsertStatement name cs vs) @ [end_token])"
  shows "yields_some (\<lambda>f. parse_insert_statement f p) (InsertStatement name cs vs)"
proof -
  obtain d ds where cs: "cs = d # ds" using ok by (cases cs) auto
  let ?msg = "''Expected column name after '' @ [quote, CHR '','', quote]"
  have item: "\<forall>c \<in> set ds. reads_item (\<lambda>f q. Some (parse_column_name ?msg q)) print_name (\<lambda>_. True) c"
    using ok cs by (auto simp: reads_item_def list_all_iff intro!: yields_const elim!: reads_column_name)
  let ?vals = "print_list print_expression vs @ (T_RParen, '')'') # semicolon # [end_token]"
  let ?cols = "concat (map (\<lambda>y. comma # print_name y) ds) @ (T_RParen, '')'') # (T_Values, ''VALUES'') # (T_LParen, ''('') # ?vals"
  have s: "sees p ((T_Insert, ''INSERT'') # (T_Into, ''INTO'') # (keyword_type name, name) # (T_LParen, ''('') #
      print_name d @ ?cols)"
    using see by (simp add: cs)
  let ?fin = "\<lambda>name f columns p6. obind (Some (expect T_RParen ''Expected ')' after column list'' p6)) (\<lambda>p7.
     obind (Some (expect T_Values ''Expected VALUES after column list'' p7)) (\<lambda>p8.
     obind (Some (expect T_LParen ''Expected '(' before values list'' p8)) (\<lambda>p9.
     obind (comma_list f (\<lambda>q. Some (parse_literal_expression q)) p9) (\<lambda>(values, p10).
     obind (Some (expect T_RParen ''Expected ')' after values list'' p10)) (\<lambda>p11.
     obind (Some (expect T_Semicolon ''Expected ';' after INSERT statement'' p11)) (\<lambda>p12.
       Some (Inr (InsertStatement name columns values, p12))))))))"
  have last: "yields_some (\<lambda>f. ?fin name f columns p6) (InsertStatement name columns vs)"
    if s6: "sees p6 ((T_RParen, '')'') # (T_Values, ''VALUES'') # (T_LParen, ''('') # ?vals)" for columns p6
  proof (rule step_expect [OF s6], simp, simp, rule step_expect, assumption, simp, simp, rule step_expect, assumption, simp, simp)
    fix p9 assume s9: "sees p9 ?vals"
    have "vs \<noteq> []" "list_all (\<lambda>v. is_literal v \<and> expression_ok v) vs" using ok by auto
    then obtain p10 where p10: "yields (\<lambda>f. comma_list f (\<lambda>q. Some (parse_literal_expression q)) p9) (vs, p10)"
        "sees p10 ((T_RParen, '')'') # semicolon # [end_token])"
      using comma_list_reads [OF _ reads_values _ _ _ s9] by auto
    show "yields_some (\<lambda>f. obind (comma_list f (\<lambda>q. Some (parse_literal_expression q)) p9) (\<lambda>(values, p10).
     obind (Some (expect T_RParen ''Expected ')' after values list'' p10)) (\<lambda>p11.
     obind (Some (expect T_Semicolon ''Expected ';' after INSERT statement'' p11)) (\<lambda>p12.
       Some (Inr (InsertStatement name columns values, p12)))))) (InsertStatement name columns vs)"
      by (rule step_yields [OF p10(1)], unfold prod.case, rule step_expect [OF p10(2)], simp, simp,
          rule step_expect, assumption, simp, simp add: semicolon_def, rule step_end)
  qed
  let ?rest = "\<lambda>f name p3. obind (Some (expect T_LParen ''Expected '(' before column list'' p3)) (\<lambda>p4.
     obind (Some (parse_column_name ''Expected column name'' p4)) (\<lambda>(c, p5).
     obind (comma_loop f (\<lambda>q. Some (parse_column_name ?msg q)) [c] p5) (\<lambda>(columns, p6). ?fin name f columns p6)))"
  have rest: "yields_some (\<lambda>f. ?rest f name p3) (InsertStatement name cs vs)"
    if s3: "sees p3 ((T_LParen, ''('') # print_name d @ ?cols)" for p3
  proof (rule step_expect [OF s3], simp add: print_name_def, simp)
    fix p4 assume s4: "sees p4 (print_name d @ ?cols)"
    obtain p5 where p5: "parse_column_name ''Expected column name'' p4 = Inr (d, p5)" "sees p5 ?cols"
      using reads_column_name [OF s4] ok cs by auto
    obtain p6 where p6: "yields (\<lambda>f. comma_loop f (\<lambda>q. Some (parse_column_name ?msg q)) [d] p5) (cs, p6)"
        "sees p6 ((T_RParen, '')'') # (T_Values, ''VALUES'') # (T_LParen, ''('') # ?vals)"
      using comma_loop_reads [OF item _ _ _ p5(2), of "[d]"] cs by (auto simp: yields_def)
    show "yields_some (\<lambda>f. obind (Some (parse_column_name ''Expected column name'' p4)) (\<lambda>(c, p5).
     obind (comma_loop f (\<lambda>q. Some (parse_column_name ?msg q)) [c] p5) (\<lambda>(columns, p6). ?fin name f columns p6)))
      (InsertStatement name cs vs)"
      by (rule step_const [OF p5(1)], unfold prod.case, rule step_yields [OF p6(1)], unfold prod.case, rule last [OF p6(2)])
  qed
  show ?thesis
    unfolding parse_insert_statement_def
  proof (rule step_expect [OF s], simp, simp, rule step_expect, assumption, simp, simp)
    fix p2 assume s2: "sees p2 ((keyword_type name, name) # (T_LParen, ''('') # print_name d @ ?cols)"
    obtain p3 where p3: "parse_table_name ''Expected table name after INTO'' p2 = Inr (name, p3)"
        "sees p3 ((T_LParen, ''('') # print_name d @ ?cols)"
      using reads_table_name [OF s2] ok by auto
    show "yields_some (\<lambda>f. obind (Some (parse_table_name ''Expected table name after INTO'' p2)) (\<lambda>(name, p3). ?rest f name p3))
      (InsertStatement name cs vs)"
      by (rule step_const [OF p3(1)], unfold prod.case, rule rest [OF p3(2)])
  qed
qed

text \<open>The optional clauses of a SELECT, in their order; each method leaves the clauses after its own.\<close>

definition clause_tokens :: "token_type list" where
  "clause_tokens = [T_Where, T_Group, T_Order, T_Limit, T_Semicolon]"

definition starts_clause :: "nat \<Rightarrow> tok list \<Rightarrow> bool" where
  "starts_clause k ts \<longleftrightarrow> (\<exists>u us. ts = u # us \<and> fst u \<in> set (drop k clause_tokens))"

lemma starts_clause_head:
  assumes "starts_clause k ts"
  obtains u us where "ts = u # us" "expression_ends u" "fst u \<noteq> T_Comma" "fst u \<in> set (drop k clause_tokens)"
  using assms set_drop_subset [of k clause_tokens]
  by (auto simp: starts_clause_def clause_tokens_def expression_ends_def predicate_continues_def)

lemma starts_clauses:
  "starts_clause 4 (semicolon # ts)"
  "starts_clause 4 ts \<Longrightarrow> starts_clause 3 (print_limit l @ ts)"
  "starts_clause 3 ts \<Longrightarrow> starts_clause 2 (print_order_by os @ ts)"
  "starts_clause 2 ts \<Longrightarrow> starts_clause 1 (print_group_by gs @ ts)"
  by (auto simp: starts_clause_def clause_tokens_def semicolon_def print_limit_def print_order_by_def
      print_group_by_def split: option.splits)

lemma reads_where:
  assumes "sees p (print_where w @ ts)" "starts_clause 1 ts" "case w of None \<Rightarrow> True | Some e \<Rightarrow> expression_ok e"
  obtains p1 where "yields (\<lambda>f. parse_where f p) (w, p1)" "sees p1 ts"
proof -
  obtain u us where u: "ts = u # us" "expression_ends u" "fst u \<in> set (drop 1 clause_tokens)"
    using starts_clause_head [OF assms(2)] by blast
  show ?thesis
  proof (cases w)
    case None
    then have s: "sees p (u # us)" using assms(1) u(1) by (simp add: print_where_def)
    have "\<not> is_expected_token T_Where p" using u(3) by (auto simp: sees_expected [OF s] clause_tokens_def)
    then have "yields (\<lambda>f. parse_where f p) (w, p)" by (simp add: parse_where_def None yields_const)
    then show ?thesis using that s u(1) by blast
  next
    case (Some e)
    then have s: "sees p ((T_Where, ''WHERE'') # print_expression e @ u # us)" using assms(1) u(1) by (simp add: print_where_def)
    obtain p1 where p1: "ps_advance p = Inr p1" "sees p1 (print_expression e @ u # us)" using sees_advance [OF s] by blast
    have "reads_or e" using reads_expression [of e] Some assms(3) by simp
    then obtain p2 where p2: "yields (\<lambda>f. parse_or_expression f p1) (e, p2)" "sees p2 (u # us)"
      using reads_orD [OF _ p1(2) u(2)] by blast
    have "yields (\<lambda>f. parse_where f p) (w, p2)"
      unfolding parse_where_def using yields_obind [OF p2(1), of "\<lambda>f (e, p2). Some (Inr (Some e, p2))"]
      by (simp add: Some sees_expected [OF s] p1(1) yields_const)
    then show ?thesis using that p2(2) u(1) by blast
  qed
qed

lemma reads_group_by:
  assumes "sees p (print_group_by es @ ts)" "starts_clause 2 ts" "list_all expression_ok es"
  obtains p1 where "yields (\<lambda>f. parse_group_by f p) (es, p1)" "sees p1 ts"
proof -
  obtain u us where u: "ts = u # us" "expression_ends u" "fst u \<noteq> T_Comma" "fst u \<in> set (drop 2 clause_tokens)"
    using starts_clause_head [OF assms(2)] by blast
  show ?thesis
  proof (cases "es = []")
    case True
    then have s: "sees p (u # us)" using assms(1) u(1) by (simp add: print_group_by_def)
    have "\<not> is_expected_token T_Group p" using u(4) by (auto simp: sees_expected [OF s] clause_tokens_def)
    then have "yields (\<lambda>f. parse_group_by f p) (es, p)" by (simp add: parse_group_by_def True yields_const)
    then show ?thesis using that s u(1) by blast
  next
    case False
    then have s: "sees p ((T_Group, ''GROUP'') # (T_By, ''BY'') # print_list print_expression es @ u # us)"
      using assms(1) u(1) by (simp add: print_group_by_def)
    obtain p1 where p1: "ps_advance p = Inr p1" "sees p1 ((T_By, ''BY'') # print_list print_expression es @ u # us)"
      using sees_advance [OF s] by blast
    obtain p2 where p2: "expect T_By ''Expected BY after GROUP'' p1 = Inr p2" "sees p2 (print_list print_expression es @ u # us)"
      using sees_expect [OF p1(2)] by auto
    have i: "\<forall>e \<in> set es. reads_item parse_or_expression print_expression expression_ends e"
      using assms(3) by (auto simp: list_all_iff intro: reads_item_expression)
    obtain p3 where p3: "yields (\<lambda>f. comma_list f (parse_or_expression f) p2) (es, p3)" "sees p3 (u # us)"
      using comma_list_reads [OF False i _ u(2,3) p2(2)] by auto
    have "yields (\<lambda>f. parse_group_by f p) (es, p3)"
      unfolding parse_group_by_def using p3(1) by (simp add: sees_expected [OF s] p1(1) p2(1))
    then show ?thesis using that p3(2) u(1) by blast
  qed
qed

lemma reads_order_by:
  assumes "sees p (print_order_by es @ ts)" "starts_clause 3 ts" "list_all (\<lambda>item. expression_ok (ob_expression item)) es"
  obtains p1 where "yields (\<lambda>f. parse_order_by f p) (es, p1)" "sees p1 ts"
proof -
  obtain u us where u: "ts = u # us" "fst u \<noteq> T_Comma" "fst u \<in> set (drop 3 clause_tokens)"
    using starts_clause_head [OF assms(2)] by blast
  show ?thesis
  proof (cases "es = []")
    case True
    then have s: "sees p (u # us)" using assms(1) u(1) by (simp add: print_order_by_def)
    have "\<not> is_expected_token T_Order p" using u(3) by (auto simp: sees_expected [OF s] clause_tokens_def)
    then have "yields (\<lambda>f. parse_order_by f p) (es, p)" by (simp add: parse_order_by_def True yields_const)
    then show ?thesis using that s u(1) by blast
  next
    case False
    then have s: "sees p ((T_Order, ''ORDER'') # (T_By, ''BY'') # print_list print_order_item es @ u # us)"
      using assms(1) u(1) by (simp add: print_order_by_def)
    obtain p1 where p1: "ps_advance p = Inr p1" "sees p1 ((T_By, ''BY'') # print_list print_order_item es @ u # us)"
      using sees_advance [OF s] by blast
    obtain p2 where p2: "expect T_By ''Expected BY after ORDER'' p1 = Inr p2" "sees p2 (print_list print_order_item es @ u # us)"
      using sees_expect [OF p1(2)] by auto
    have i: "\<forall>e \<in> set es. reads_item parse_order_by_item print_order_item (\<lambda>_. True) e"
      using assms(3) by (auto simp: list_all_iff intro: reads_item_order)
    obtain p3 where p3: "yields (\<lambda>f. comma_list f (parse_order_by_item f) p2) (es, p3)" "sees p3 (u # us)"
      using comma_list_reads [OF False i _ _ u(2) p2(2)] by auto
    have "yields (\<lambda>f. parse_order_by f p) (es, p3)"
      unfolding parse_order_by_def using p3(1) by (simp add: sees_expected [OF s] p1(1) p2(1))
    then show ?thesis using that p3(2) u(1) by blast
  qed
qed

lemma reads_limit:
  assumes "sees p (print_limit l @ ts)" "starts_clause 4 ts" "case l of None \<Rightarrow> True | Some n \<Rightarrow> n < 2 ^ 64"
  obtains p1 where "parse_limit p = Inr (l, p1)" "sees p1 ts"
proof (cases l)
  case None
  obtain u us where u: "ts = u # us" "fst u \<in> set (drop 4 clause_tokens)"
    using starts_clause_head [OF assms(2)] by blast
  then have s: "sees p (u # us)" using assms(1) None by (simp add: print_limit_def)
  have "\<not> is_expected_token T_Limit p" using u(2) by (auto simp: sees_expected [OF s] clause_tokens_def)
  then show ?thesis using that [of p] s u(1) by (simp add: parse_limit_def None)
next
  case (Some n)
  then have s: "sees p ((T_Limit, ''LIMIT'') # (T_IntLiteral, dec_digits n) # ts)" using assms(1) by (simp add: print_limit_def)
  obtain p1 where p1: "ps_advance p = Inr p1" "sees p1 ((T_IntLiteral, dec_digits n) # ts)" using sees_advance [OF s] by blast
  have "ts \<noteq> []" using assms(2) by (auto simp: starts_clause_def)
  then obtain p2 where p2: "ps_advance p1 = Inr p2" "sees p2 ts" using sees_advance [OF p1(2)] by blast
  have "stoull (dec_digits n) = Inr n" using assms(3) Some by (simp add: stoull_dec_digits)
  then show ?thesis
    using that [of p2] p2
    by (simp add: parse_limit_def Some sees_expected [OF s] p1(1) sees_expected [OF p1(2)] sees_type(2) [OF p1(2)])
qed

lemma reads_select:
  assumes ok: "statement_ok (SelectStatement se)" and see: "sees p (statement_tokens (SelectStatement se) @ [end_token])"
  shows "yields_some (\<lambda>f. parse_select_statement f p) (SelectStatement se)"
proof -
  let ?l4 = "semicolon # [end_token]"
  let ?l3 = "print_limit (se_limit se) @ ?l4"
  let ?l2 = "print_order_by (se_order_by_items se) @ ?l3"
  let ?l1 = "print_group_by (se_group_by_items se) @ ?l2"
  let ?l0 = "print_where (se_where_expression se) @ ?l1"
  let ?from = "(T_From, ''FROM'') # (keyword_type (se_table_name se), se_table_name se) # ?l0"
  have st: "starts_clause 4 ?l4" by (rule starts_clauses)
  then have st3: "starts_clause 3 ?l3" by (rule starts_clauses)
  then have st2: "starts_clause 2 ?l2" by (rule starts_clauses)
  then have st1: "starts_clause 1 ?l1" by (rule starts_clauses)
  have s: "sees p ((T_Select, ''SELECT'') # print_list print_select_item (se_select_items se) @ ?from)"
    using see by simp
  obtain p1 where p1: "expect T_Select ''Expected SELECT'' p = Inr p1" "sees p1 (print_list print_select_item (se_select_items se) @ ?from)"
    using sees_expect [OF s] by auto
  have i: "\<forall>x \<in> set (se_select_items se). reads_item parse_select_item print_select_item expression_ends x"
    using ok by (auto simp: list_all_iff intro: reads_item_select)
  have "se_select_items se \<noteq> []" using ok by simp
  then obtain p2 where p2: "yields (\<lambda>f. comma_list f (parse_select_item f) p1) (se_select_items se, p2)" "sees p2 ?from"
    using comma_list_reads [OF _ i _ _ _ p1(2)] by auto
  obtain p3 where p3: "expect T_From ''Expected FROM after SELECT items'' p2 = Inr p3"
      "sees p3 ((keyword_type (se_table_name se), se_table_name se) # ?l0)"
    using sees_expect [OF p2(2)] by auto
  obtain p4 where p4: "parse_table_name ''Expected table name after FROM'' p3 = Inr (se_table_name se, p4)" "sees p4 ?l0"
    using reads_table_name [OF p3(2)] ok by auto
  obtain p5 where p5: "yields (\<lambda>f. parse_where f p4) (se_where_expression se, p5)" "sees p5 ?l1"
    using reads_where [OF p4(2) st1] ok by auto
  obtain p6 where p6: "yields (\<lambda>f. parse_group_by f p5) (se_group_by_items se, p6)" "sees p6 ?l2"
    using reads_group_by [OF p5(2) st2] ok by auto
  obtain p7 where p7: "yields (\<lambda>f. parse_order_by f p6) (se_order_by_items se, p7)" "sees p7 ?l3"
    using reads_order_by [OF p6(2) st3] ok by auto
  obtain p8 where p8: "parse_limit p7 = Inr (se_limit se, p8)" "sees p8 ?l4"
    using reads_limit [OF p7(2) st] ok by auto
  have se: "se = \<lparr>se_table_name = se_table_name se, se_select_items = se_select_items se,
      se_where_expression = se_where_expression se, se_group_by_items = se_group_by_items se,
      se_order_by_items = se_order_by_items se, se_limit = se_limit se\<rparr>" by simp
  show ?thesis
    unfolding parse_select_statement_def
    by (rule step_const [OF p1(1)], rule step_yields [OF p2(1)], unfold prod.case,
        rule step_const [OF p3(1)], rule step_const [OF p4(1)], unfold prod.case,
        rule step_yields [OF p5(1)], unfold prod.case, rule step_yields [OF p6(1)], unfold prod.case,
        rule step_yields [OF p7(1)], unfold prod.case, rule step_const [OF p8(1)], unfold prod.case,
        rule step_expect [OF p8(2)], simp, simp add: semicolon_def, subst (2) se, rule step_end)
qed

lemma reads_statement:
  assumes "statement_ok st" "sees p (statement_tokens st @ [end_token])"
  shows "yields_some (\<lambda>f. parse_statement f p) st"
proof -
  obtain t ts where ts: "statement_tokens st @ [end_token] = t # ts"
      "fst t = (case st of CreateTableStatement _ _ \<Rightarrow> T_Create | InsertStatement _ _ _ \<Rightarrow> T_Insert | SelectStatement _ \<Rightarrow> T_Select)"
    by (cases st) auto
  then have s: "sees p (t # ts)" using assms(2) by simp
  show ?thesis
    using assms ts(2) reads_create reads_insert reads_select
    by (cases st) (auto simp: parse_statement_def sees_expected [OF s])
qed

text \<open>A fresh parser sees the tokens of the text.\<close>

lemma sees_spell:
  "drop n s = ws @ spell ts \<Longrightarrow> list_all is_space ws \<Longrightarrow> n \<le> length s \<Longrightarrow> list_all token_ok ts \<Longrightarrow> ps_lexer p = lexer_at s n \<Longrightarrow>
     \<exists>p1. ps_advance p = Inr p1 \<and> sees p1 (ts @ [end_token])"
proof (induction ts arbitrary: n ws p)
  case Nil
  then show ?case
    using next_token_spell_end [of n s ws] by (simp add: ps_advance_def spell_def end_token_def sees.simps(2))
next
  case (Cons t ts)
  have t: "token_ok t" using Cons.prems(4) by simp
  obtain tok m where tok: "next_token (lexer_at s n) = Inr (tok, lexer_at s m)" "token_key tok = t" "drop m s = '' '' @ spell ts"
    using next_token_spell [OF Cons.prems(1,2) t] .
  have "m \<le> length s" using drop_not_Nil [of m s "CHR '' ''" "spell ts"] tok(3) by simp
  then have "\<exists>p2. ps_advance \<lparr>ps_lexer = lexer_at s m, ps_current = tok\<rparr> = Inr p2 \<and> sees p2 (ts @ [end_token])"
    using Cons.IH [OF tok(3)] Cons.prems(4) by simp
  then show ?case using tok Cons.prems(5) by (auto simp: ps_advance_def sees.simps(2))
qed

lemma fixed_tokens_ok:
  "list_all token_ok
    [(T_Null, ''NULL''), (T_Not, ''NOT''), (T_And, ''AND''), (T_Or, ''OR''), (T_Is, ''IS''), (T_LParen, ''(''), (T_RParen, '')''),
     (T_Equal, ''=''), (T_NotEqual, ''!=''), (T_Less, ''<''), (T_LessEqual, ''<=''), (T_Greater, ''>''), (T_GreaterEqual, ''>=''),
     (T_Comma, '',''), (T_Semicolon, '';''), (T_Star, ''*''), (T_Create, ''CREATE''), (T_Table, ''TABLE''), (T_Insert, ''INSERT''),
     (T_Into, ''INTO''), (T_Values, ''VALUES''), (T_Select, ''SELECT''), (T_From, ''FROM''), (T_Where, ''WHERE''),
     (T_Group, ''GROUP''), (T_Order, ''ORDER''), (T_By, ''BY''), (T_Limit, ''LIMIT''), (T_Key, ''KEY''),
     (T_Asc, ''ASC''), (T_Desc, ''DESC''), (T_StringType, ''STRING''), (T_Int64Type, ''INT64''), (T_DoubleType, ''DOUBLE''),
     (T_Count, ''COUNT''), (T_Sum, ''SUM''), (T_Avg, ''AVG''), (T_Min, ''MIN''), (T_Max, ''MAX'')]"
  by code_simp

lemmas fixed_tokens [simp] = fixed_tokens_ok [unfolded list.pred_inject]

lemma literal_tokens_ok [simp]:
  "token_ok (T_StringLiteral, t)" "token_ok (T_IntLiteral, t) \<longleftrightarrow> int_text t" "token_ok (T_DoubleLiteral, t) \<longleftrightarrow> double_text t"
  by (simp_all add: token_ok_def)

lemma name_tokens_ok [simp]:
  "column_name_ok c \<Longrightarrow> token_ok (keyword_type c, c)" "table_name_ok c \<Longrightarrow> token_ok (keyword_type c, c)"
  by (auto simp: column_name_ok_def table_name_ok_def token_ok_def symbol_table_def)

lemma int_texts [simp]: "int_text (show_int v)" "int_text (dec_digits n)"
  by (simp_all add: int_text_def show_int_def)

lemma comparison_token_ok [simp]: "token_ok (comparison_token_of op)"
  by (cases op) simp_all

lemma expression_tokens_ok: "expression_ok e \<Longrightarrow> list_all token_ok (print_expression e)"
  by (induction e) (auto simp: paren_def stod_show_double)

lemma print_list_ok: "(\<And>x. x \<in> set xs \<Longrightarrow> list_all token_ok (pr x)) \<Longrightarrow> list_all token_ok (print_list pr xs)"
  by (cases xs) (auto simp: list_all_iff comma_def fixed_tokens [unfolded list_all_iff])

lemma data_type_token_ok [simp]: "token_ok (data_type_token ty)" "token_ok (aggregate_token kind)"
  by (cases ty; simp) (cases kind; simp)

lemma select_item_tokens_ok: "select_item_ok x \<Longrightarrow> list_all token_ok (print_select_item x)"
  by (cases x) (auto simp: expression_tokens_ok)

lemma order_item_tokens_ok: "expression_ok (ob_expression x) \<Longrightarrow> list_all token_ok (print_order_item x)"
  by (auto simp: print_order_item_def expression_tokens_ok split: order_direction.split)

lemma column_tokens_ok: "column_name_ok (cd_name c) \<Longrightarrow> list_all token_ok (print_column c)"
  by (simp add: print_column_def)

lemma statement_tokens_ok: "statement_ok st \<Longrightarrow> list_all token_ok (statement_tokens st)"
proof (cases st)
  case (CreateTableStatement name cs)
  assume "statement_ok st"
  with CreateTableStatement have "list_all token_ok (print_list print_column cs)"
    by (intro print_list_ok column_tokens_ok) (auto simp: list_all_iff)
  with CreateTableStatement \<open>statement_ok st\<close> show ?thesis by (simp add: semicolon_def)
next
  case (InsertStatement name cs vs)
  assume "statement_ok st"
  with InsertStatement have "list_all token_ok (print_list print_name cs)" "list_all token_ok (print_list print_expression vs)"
    by (intro print_list_ok; simp add: list_all_iff [of _ cs] list_all_iff [of _ vs] print_name_def expression_tokens_ok)+
  with InsertStatement \<open>statement_ok st\<close> show ?thesis by (simp add: semicolon_def)
next
  case (SelectStatement se)
  assume ok: "statement_ok st"
  have "list_all token_ok (print_list print_select_item (se_select_items se))"
    using ok SelectStatement by (intro print_list_ok select_item_tokens_ok) (auto simp: list_all_iff)
  moreover have "list_all token_ok (print_where (se_where_expression se))"
    using ok SelectStatement by (cases "se_where_expression se") (auto simp: print_where_def expression_tokens_ok)
  moreover have "list_all token_ok (print_list print_expression (se_group_by_items se))"
      "list_all token_ok (print_list print_order_item (se_order_by_items se))"
    using ok SelectStatement
    by (intro print_list_ok; simp add: list_all_iff [of _ "se_group_by_items se"] list_all_iff [of _ "se_order_by_items se"]
        expression_tokens_ok order_item_tokens_ok)+
  moreover have "list_all token_ok (print_limit (se_limit se))" by (simp add: print_limit_def split: option.split)
  ultimately show ?thesis using ok SelectStatement by (simp add: semicolon_def print_group_by_def print_order_by_def)
qed

lemma parse_statement_text:
  assumes "statement_ok st"
  shows "parse_sql (statement_text st) = Some (Inr st)"
proof -
  let ?s = "statement_text st"
  let ?p0 = "\<lparr>ps_lexer = lexer_at ?s 0,
    ps_current = make_token T_Invalid \<lparr>sp_pos = 0, sp_line = 1, sp_position_in_line = 1\<rparr> []\<rparr>"
  have "\<exists>p. ps_advance ?p0 = Inr p \<and> sees p (statement_tokens st @ [end_token])"
    by (rule sees_spell [of 0 ?s "[]"]) (simp_all add: statement_text_def statement_tokens_ok assms)
  then obtain p where p: "Parser (Lexer ?s) = Inr p" "sees p (statement_tokens st @ [end_token])"
    by (auto simp: Parser_def Lexer_at)
  obtain p1 n where n: "\<forall>f \<ge> n. parse_statement f p = Some (Inr (st, p1))"
    using reads_statement [OF assms p(2)] by (auto simp: yields_some_def yields_def)
  obtain m where m: "parse_statement (parser_fuel ?s) p = Some m"
    using Parser_ok [OF p(1)] statement_fuel [of ?s p "parser_fuel ?s"] by (auto simp: below_def parser_fuel_def)
  have "refines (parse_statement (parser_fuel ?s) p) (parse_statement (max n (parser_fuel ?s)) p)"
    by (rule statement_refines) simp
  then have "parse_statement (parser_fuel ?s) p = Some (Inr (st, p1))"
    using n [rule_format, of "max n (parser_fuel ?s)"] m by (simp add: refines_def)
  then show ?thesis by (simp add: parse_sql_def p(1))
qed

text \<open>C24: SQL text and syntax trees round trip: the text of a statement, with its names, string
  literals with doubled quotes, integers, exact decimal expansions of its finite doubles, and
  parentheses around compound operands, is parsed by lexer and parser to exactly this statement.\<close>

theorem statement_text_parses:
  assumes "statement_ok st"
  shows "parse_sql (statement_text st) = Some (Inr st)"
  by (rule parse_statement_text [OF assms])

definition sample_select :: statement where
  "sample_select = SelectStatement
     \<lparr>se_table_name = ''users'',
      se_select_items = [SelectItemExpression (ColumnExpression ''city''), SelectAggregateExpression Agg_Avg (ColumnExpression ''age'')],
      se_where_expression = Some (BinaryExpression Op_And
        (BinaryExpression Op_GreaterEqual (ColumnExpression ''key'') (IntLiteral (I64 (- 5))))
        (UnaryExpression Op_Not (IsNullExpression (ColumnExpression ''city'') False))),
      se_group_by_items = [ColumnExpression ''city''],
      se_order_by_items = [\<lparr>ob_expression = ColumnExpression ''city'', ob_direction = Desc\<rparr>],
      se_limit = Some 10\<rparr>"

lemma sample_select_ok: "statement_ok sample_select"
  by code_simp

lemma statement_text_parses_witness: "parse_sql (statement_text sample_select) = Some (Inr sample_select)"
  by (rule statement_text_parses [OF sample_select_ok])

end
