(* ===== verification/Sql_Script.thy ===== *)
theory Sql_Script
  imports Query_Spec Sql_Text
begin

text \<open>
  The whole path of a statement, from its text through lexer, parser, binder and executor to the engine
  and back to its result.
\<close>

section \<open>Running SQL text\<close>

definition run_sql :: "('e, 'c) storage_engine \<Rightarrow> sorter \<Rightarrow> string \<Rightarrow> 'e \<Rightarrow> execution_result res option \<times> 'e" where
  "run_sql eng sorter sql st =
     (case parse_sql sql of
        None \<Rightarrow> (None, st)
      | Some (Inl e) \<Rightarrow> (Some (Inl e), st)
      | Some (Inr statement) \<Rightarrow>
          (case Binder.bind eng st statement of
             Inl e \<Rightarrow> (Some (Inl e), st)
           | Inr bound \<Rightarrow> execute eng sorter bound st))"

text \<open>A script stops at the first exception.\<close>

fun run_script ::
    "('e, 'c) storage_engine \<Rightarrow> sorter \<Rightarrow> string list \<Rightarrow> 'e \<Rightarrow> execution_result list res option \<times> 'e" where
  "run_script eng sorter [] st = (Some (Inr []), st)"
| "run_script eng sorter (sql # sqls) st =
     (case run_sql eng sorter sql st of
        (r, st') \<Rightarrow>
          (case r of
             None \<Rightarrow> (None, st')
           | Some (Inl e) \<Rightarrow> (Some (Inl e), st')
           | Some (Inr v) \<Rightarrow>
               (case run_script eng sorter sqls st' of
                  (rs, st'') \<Rightarrow> (map_option (map_sum id (Cons v)) rs, st''))))"

lemma run_sql_bound:
  assumes "Sql_Text.statement_ok q" "Binder.bind eng st q = Inr b"
  shows "run_sql eng sorter (statement_text q) st = execute eng sorter b st"
  using parse_statement_text [OF assms(1)] assms(2) by (simp add: run_sql_def)

lemma run_script_step:
  assumes "Sql_Text.statement_ok q" "Binder.bind eng st q = Inr b" "execute eng sorter b st = (Some (Inr v), st')"
    and "run_script eng sorter sqls st' = (Some (Inr rs), st'')"
  shows "run_script eng sorter (statement_text q # sqls) st = (Some (Inr (v # rs)), st'')"
  using run_sql_bound [OF assms(1,2)] assms(3,4) by simp

section \<open>What the binder makes of a script\<close>

text \<open>The binder asks its engine only for the schema of the table.\<close>

definition bind_query :: "schema \<Rightarrow> select_statement \<Rightarrow> bound_select_statement res" where
  "bind_query s q = bind_select MockStorageEngine [se_table_name q \<mapsto> \<lparr>mt_schema = s, mt_data = []\<rparr>] q"

lemma bind_query:
  assumes "get_schema eng st (se_table_name q) = Inr s"
  shows "bind_select eng st q = bind_query s q"
proof -
  have "get_schema MockStorageEngine [se_table_name q \<mapsto> \<lparr>mt_schema = s, mt_data = []\<rparr>] (se_table_name q) = Inr s"
    by (simp add: get_schema_def MockStorageEngine_def mock_table_exists_def mock_get_table_schema_def mock_get_table_def)
  then show ?thesis using assms by (simp add: bind_query_def bind_select_def)
qed

text \<open>The names and literals of an INSERT statement fit the schema.\<close>

definition insert_fits :: "schema \<Rightarrow> string list \<times> expression list \<Rightarrow> bool" where
  "insert_fits s x \<longleftrightarrow>
     (case x of (names, vs) \<Rightarrow>
        length names = length vs \<and> distinct names \<and> set names \<subseteq> col_name ` set (columns s))"

definition insert_row :: "schema \<Rightarrow> string list \<times> expression list \<Rightarrow> row" where
  "insert_row s x = named_row s (fst x) (snd x)"

lemma text_literal: "Sql_Text.is_literal v \<Longrightarrow> Binder_Spec.is_literal v"
  by (cases v) (simp_all add: Binder_Spec.is_literal_def Sql_Text.is_literal_def)

lemma bind_insert_text:
  assumes "get_schema eng st name = Inr s" "schema_wf s" "insert_fits s (names, vs)" "Sql_Text.statement_ok (InsertStatement name names vs)"
    and "valid_row s (insert_row s (names, vs))"
  shows "Binder.bind eng st (InsertStatement name names vs) =
    Inr (BoundInsertStatement \<lparr>bi_table_name = name, bi_schema = s, bi_row_values = insert_row s (names, vs)\<rparr>)"
proof -
  have "list_all Binder_Spec.is_literal vs" using assms(4) text_literal by (auto simp: list_all_iff)
  then have "bind_insert eng st name names vs = Inr \<lparr>bi_table_name = name, bi_schema = s, bi_row_values = insert_row s (names, vs)\<rparr>"
    using assms(3,5) by (simp add: bind_insert_iff [OF assms(1,2)] insert_fits_def insert_row_def)
  then show ?thesis by (simp add: Binder.bind_def)
qed

text \<open>A table, its rows and a query as statements.\<close>

definition script :: "string \<Rightarrow> column_definition list \<Rightarrow> (string list \<times> expression list) list \<Rightarrow> select_statement \<Rightarrow> statement list" where
  "script name cs inserts q =
     CreateTableStatement name cs # map (\<lambda>(names, vs). InsertStatement name names vs) inserts @ [SelectStatement q]"

text \<open>The answer of a query of any form.\<close>

definition query_answer :: "bound_select_statement \<Rightarrow> row list \<Rightarrow> result_row list \<Rightarrow> bool" where
  "query_answer stmt rows answer \<longleftrightarrow>
     (if bs_group_by_items stmt \<noteq> [] then grouped_answer stmt rows answer
      else if has_aggregates stmt then
        (\<exists>order. mset order = mset (filter (row_selected stmt) rows) \<and>
           answer = limited (bs_limit stmt) [map (group_value order) (bs_select_items stmt)])
      else plain_answer stmt rows answer)"

context engine_contract
begin

lemma holds_get_schema: "holds st T \<Longrightarrow> T name = Some (s, M) \<Longrightarrow> get_schema eng st name = Inr s"
  using exists_iff schema_of by (simp add: get_schema_def)

lemma select_answer:
  assumes a: "answers st T stmt rows" and form: "query_form stmt" and fits: "totals_fit stmt rows" and limit: "plain stmt \<Longrightarrow> limit_ok stmt"
    and sorter: "std_sort_ok sorter"
  shows "\<exists>names answer st'. build_select_column_names stmt = Inr names \<and>
    execute_select eng sorter stmt st = (Some (Inr \<lparr>sr_column_names = names, sr_rows = answer\<rparr>), st') \<and>
    holds st' T \<and> query_answer stmt rows answer"
proof -
  consider "plain stmt" | "global stmt" | "bs_group_by_items stmt \<noteq> []" using form by (auto simp: query_form_def)
  then show ?thesis
  proof cases
    case 1
    then show ?thesis using plain_select [OF a 1 limit [OF 1] sorter] by (simp add: query_answer_def plain_def)
  next
    case 2
    then have "has_aggregates stmt" "bs_group_by_items stmt = []"
      by (cases "bs_select_items stmt"; simp add: global_def has_aggregates_def)+
    then show ?thesis using global_select [OF a 2 fits, of sorter] unfolding query_answer_def by auto
  next
    case 3
    then show ?thesis using grouped_select [OF a 3 fits sorter] by (simp add: query_answer_def)
  qed
qed

lemma script_inserts:
  assumes "holds st T" "T name = Some (s, M)" "schema_wf s"
    and "\<forall>x \<in> set inserts. insert_fits s x \<and> Sql_Text.statement_ok (InsertStatement name (fst x) (snd x)) \<and> valid_row s (insert_row s x)"
    and "distinct (map (\<lambda>x. rkey (insert_row s x)) inserts)" "\<forall>x \<in> set inserts. rkey (insert_row s x) \<notin># image_mset rkey M"
    and "\<forall>n. fits s (mset (map (insert_row s) (take n inserts)) + M)"
    and rest: "\<And>st. holds st (T(name \<mapsto> (s, mset (map (insert_row s) inserts) + M))) \<Longrightarrow> \<exists>res st'. run_script eng sorter sqls st = (Some (Inr res), st') \<and> P res"
  shows "\<exists>res st'. run_script eng sorter (map (\<lambda>x. statement_text (InsertStatement name (fst x) (snd x))) inserts @ sqls) st =
    (Some (Inr (replicate (length inserts) (InsertResult 1) @ res)), st') \<and> P res"
  using assms
proof (induction inserts arbitrary: st T M)
  case Nil
  from Nil.prems(8) [of st] Nil.prems(1,2) show ?case by (simp add: fun_upd_idem)
next
  case (Cons x xs)
  let ?r = "insert_row s x"
  let ?b = "BoundInsertStatement \<lparr>bi_table_name = name, bi_schema = s, bi_row_values = ?r\<rparr>"
  have x: "insert_fits s (fst x, snd x)" "Sql_Text.statement_ok (InsertStatement name (fst x) (snd x))" "valid_row s (insert_row s (fst x, snd x))"
    using Cons.prems(4) by auto
  have bound: "Binder.bind eng st (InsertStatement name (fst x) (snd x)) = Inr ?b"
    using bind_insert_text [OF holds_get_schema [OF Cons.prems(1,2)] Cons.prems(3) x] by simp
  have fit: "fits s (add_mset ?r M)" "\<forall>n. fits s (mset (map (insert_row s) (take n xs)) + add_mset ?r M)"
  proof -
    show "fits s (add_mset ?r M)" using spec [OF Cons.prems(7), of 1] by simp
    show "\<forall>n. fits s (mset (map (insert_row s) (take n xs)) + add_mset ?r M)"
      using spec [OF Cons.prems(7), of "Suc _"] by simp
  qed
  have new: "valid_row s ?r" "rkey ?r \<notin># image_mset rkey M" using Cons.prems(4,6) by simp_all
  obtain st1 where e: "execute eng sorter ?b st = (Some (Inr (InsertResult 1)), st1)" "holds st1 (T(name \<mapsto> (s, add_mset ?r M)))"
    using execute_insert [OF Cons.prems(1,2) new fit(1)] by blast
  have later: "(T(name \<mapsto> (s, add_mset ?r M))) name = Some (s, add_mset ?r M)"
      "\<forall>x \<in> set xs. insert_fits s x \<and> Sql_Text.statement_ok (InsertStatement name (fst x) (snd x)) \<and> valid_row s (insert_row s x)"
      "distinct (map (\<lambda>x. rkey (insert_row s x)) xs)"
      "\<forall>q \<in> set xs. rkey (insert_row s q) \<notin># image_mset rkey (add_mset ?r M)"
    using Cons.prems(4-6) by (auto simp: image_iff)
  have "mset (map (insert_row s) xs) + add_mset ?r M = mset (map (insert_row s) (x # xs)) + M" by simp
  then have go: "\<And>st. holds st ((T(name \<mapsto> (s, add_mset ?r M)))(name \<mapsto> (s, mset (map (insert_row s) xs) + add_mset ?r M))) \<Longrightarrow>
      \<exists>res st'. run_script eng sorter sqls st = (Some (Inr res), st') \<and> P res"
    using Cons.prems(8) unfolding fun_upd_upd by metis
  from Cons.IH [OF e(2) later(1) Cons.prems(3) later(2-4) fit(2) go] obtain res st' where
    r: "run_script eng sorter (map (\<lambda>x. statement_text (InsertStatement name (fst x) (snd x))) xs @ sqls) st1 =
      (Some (Inr (replicate (length xs) (InsertResult 1) @ res)), st')" "P res" by blast
  from run_script_step [OF x(2) bound e(1) r(1)] r(2) show ?case by auto
qed

lemma script_answer:
  assumes st: "holds st T" "T name = None" and s: "rbind (rfold add_definition cs SchemaBuilder) build = Inr s" "schema_wf s" "creatable s"
    and texts: "list_all Sql_Text.statement_ok (script name cs inserts q)" "list_all (insert_fits s) inserts"
    and rows: "rows = map (insert_row s) inserts" "\<forall>r \<in> set rows. valid_row s r" "distinct (rkeys rows)" "\<forall>n. fits s (mset (take n rows))"
    and q: "se_table_name q = name" "bind_query s q = Inr stmt"
    and ok: "Pushdown.statement_ok stmt" "\<forall>r \<in> set rows. row_nan_free r" "\<And>k. looks_up stmt k \<Longrightarrow> lookup_ok k"
      "totals_fit stmt rows" "plain stmt \<longrightarrow> limit_ok stmt" "std_sort_ok sorter"
  shows "\<exists>names answer st'. build_select_column_names stmt = Inr names \<and>
    run_script eng sorter (map statement_text (script name cs inserts q)) st =
      (Some (Inr (filled rows @ [SelectResult \<lparr>sr_column_names = names, sr_rows = answer\<rparr>])), st') \<and>
    query_answer stmt rows answer"
proof -
  let ?texts = "map (\<lambda>x. statement_text (InsertStatement name (fst x) (snd x))) inserts @ [statement_text (SelectStatement q)]"
  let ?P = "\<lambda>res. \<exists>names answer. build_select_column_names stmt = Inr names \<and>
    res = [SelectResult \<lparr>sr_column_names = names, sr_rows = answer\<rparr>] \<and> query_answer stmt rows answer"
  have create: "Sql_Text.statement_ok (CreateTableStatement name cs)" and query: "Sql_Text.statement_ok (SelectStatement q)"
    using texts(1) by (simp_all add: script_def)
  have ins: "\<forall>x \<in> set inserts. insert_fits s x \<and> Sql_Text.statement_ok (InsertStatement name (fst x) (snd x)) \<and> valid_row s (insert_row s x)"
    using texts rows(1,2) by (fastforce simp: script_def list_all_iff)
  have bound: "Binder.bind eng st (CreateTableStatement name cs) = Inr (BoundCreateTableStatement name s)"
    using s(1) by (simp add: Binder.bind_def bind_create_table_def)
  obtain st1 where c: "eng_create_table eng name s st = Inr st1" "holds st1 (T(name \<mapsto> (s, {#})))"
    using create_new [OF st s(2,3)] by blast
  have e: "execute eng sorter (BoundCreateTableStatement name s) st = (Some (Inr CreateTableResult), st1)"
    using c(1) by (simp add: execute_def)
  have select: "\<exists>res st'. run_script eng sorter [statement_text (SelectStatement q)] st = (Some (Inr res), st') \<and> ?P res"
    if held: "holds st (T(name \<mapsto> (s, mset (map (insert_row s) inserts) + {#})))" for st
  proof -
    let ?T = "T(name \<mapsto> (s, mset rows))"
    have h: "holds st ?T" "?T name = Some (s, mset rows)" using held by (simp_all add: rows(1))
    note g = holds_get_schema [OF h]
    have b: "bind_select eng st q = Inr stmt" using bind_query [of eng st q s] g q by simp
    from bind_select_typed [OF _ s(2) b, unfolded q(1), OF g]
    have t: "bs_table_name stmt = name" "bs_schema stmt = s" "query_form stmt" by simp_all
    have "answers st ?T stmt rows" using h ok(1-3) by (simp add: answers_def t)
    from select_answer [OF this t(3) ok(4) mp [OF ok(5)] ok(6)] obtain names answer st' where
      a: "build_select_column_names stmt = Inr names" "query_answer stmt rows answer"
        "execute_select eng sorter stmt st = (Some (Inr \<lparr>sr_column_names = names, sr_rows = answer\<rparr>), st')" by blast
    have "Binder.bind eng st (SelectStatement q) = Inr (BoundSelectStatement stmt)" using b by (simp add: Binder.bind_def)
    from run_sql_bound [OF query this, of sorter] a(3)
    have "run_script eng sorter [statement_text (SelectStatement q)] st =
        (Some (Inr [SelectResult \<lparr>sr_column_names = names, sr_rows = answer\<rparr>]), st')"
      by (simp add: execute_def)
    then show ?thesis using a(1,2) by blast
  qed
  have fit: "\<forall>n. fits s (mset (map (insert_row s) (take n inserts)) + {#})" using rows(4) by (simp add: rows(1) take_map)
  have keys: "distinct (map (\<lambda>x. rkey (insert_row s x)) inserts)" using rows(3) by (simp add: rows(1) o_def)
  have "\<exists>res st'. run_script eng sorter ?texts st1 = (Some (Inr (replicate (length inserts) (InsertResult 1) @ res)), st') \<and> ?P res"
    by (rule script_inserts [OF c(2) _ s(2) ins keys _ fit]) (use select in \<open>simp_all\<close>)
  then obtain names answer st' where a: "build_select_column_names stmt = Inr names" "query_answer stmt rows answer"
      "run_script eng sorter ?texts st1 = (Some (Inr (replicate (length inserts) (InsertResult 1) @
        [SelectResult \<lparr>sr_column_names = names, sr_rows = answer\<rparr>])), st')" by blast
  have "map statement_text (script name cs inserts q) = statement_text (CreateTableStatement name cs) # ?texts"
    by (simp add: script_def case_prod_beta)
  moreover have "filled rows = CreateTableResult # replicate (length inserts) (InsertResult 1)" by (simp add: filled_def rows(1))
  ultimately show ?thesis using run_script_step [OF create bound e a(3)] a(1,2) by (intro exI [of _ names] exI [of _ answer] exI [of _ st']) simp
qed

end

section \<open>SQL text on the LSM engine\<close>

text \<open>C1: From text to answer: on a new LSM engine, the SQL text of a CREATE TABLE, of INSERT statements whose rows fit the
  table and the sizes of the configuration, have pairwise different keys and no NaN, and of a SELECT that the binder accepts runs
  through lexer, parser, binder, executor and LSM engine without an exception, and the SELECT gives the rows that satisfy WHERE, the
  groups or the totals, as its form asks. Conditions on the SELECT: its operands fit their operators, key comparisons use integer
  literals and no literal is NaN (statement_ok); sums of integers cannot overflow, no double under MIN is +inf and none under MAX
  -inf (totals_fit); a query without aggregates has LIMIT 0 only where rows are sorted after the loop (limit_ok). The sort meets the
  contract of std::sort.\<close>

theorem sql_script_answers:
  assumes "rbind (rfold add_definition cs SchemaBuilder) build = Inr s"
    and "list_all Sql_Text.statement_ok (script name cs inserts q)" "list_all (insert_fits s) inserts"
    and "rows = map (insert_row s) inserts" "lsm_table_fits config L s rows" "\<forall>path. snd (found path) = None"
    and "se_table_name q = name" "bind_query s q = Inr stmt"
    and "Pushdown.statement_ok stmt" "\<forall>r \<in> set rows. row_nan_free r" "totals_fit stmt rows"
    and "plain stmt \<longrightarrow> limit_ok stmt" "std_sort_ok sorter"
  shows "\<exists>names answer st. build_select_column_names stmt = Inr names \<and>
    run_script lsm_ops sorter (map statement_text (script name cs inserts q)) (LSMStorageEngine config found) =
      (Some (Inr (filled rows @ [SelectResult \<lparr>sr_column_names = names, sr_rows = answer\<rparr>])), st) \<and>
    query_answer stmt rows answer"
proof (rule lsm_engine.script_answer [OF lsm_start [OF assms(5,6)] _ assms(1) _ _ assms(2,3,4) _ _ _ assms(7-10) _ assms(11-13)])
  show "schema_wf s" "lsm_creatable s" "distinct (rkeys rows)" "\<forall>r \<in> set rows. valid_row s r"
    using assms(5) by (simp_all add: lsm_table_fits_def lsm_creatable_def rows_fit_def storable_def)
  show "\<forall>n. lsm_fits config L s (mset (take n rows))" using lsm_fits_take [OF assms(5)] by simp
qed simp_all

text \<open>\<open>SELECT name, COUNT(id) FROM t WHERE id > 0 GROUP BY name LIMIT 3\<close> over three rows, the second of which is
  inserted with its columns in another order.\<close>

definition sample_create :: "column_definition list" where
  "sample_create =
     [\<lparr>cd_name = ''id'', cd_type = D_Int64, cd_nullable = False, cd_is_key = True\<rparr>,
      \<lparr>cd_name = ''price'', cd_type = D_Double, cd_nullable = True, cd_is_key = False\<rparr>,
      \<lparr>cd_name = ''name'', cd_type = D_String, cd_nullable = True, cd_is_key = False\<rparr>]"

definition sample_inserts :: "(string list \<times> expression list) list" where
  "sample_inserts =
     [([''id'', ''price'', ''name''], [IntLiteral (I64 5), DoubleLiteral (D64 0x3FF0000000000000), StringLiteral ''ab'']),
      ([''name'', ''id'', ''price''], [StringLiteral ''ab'', IntLiteral (I64 1), DoubleLiteral (D64 0x3FF0000000000000)]),
      ([''id'', ''price'', ''name''], [IntLiteral (I64 3), DoubleLiteral (D64 0x3FF0000000000000), StringLiteral ''ab''])]"

lemma sample_script_ok: "list_all Sql_Text.statement_ok (script ''t'' sample_create sample_inserts sample_query)"
  by code_simp

lemma rfold_definitions:
  "rfold add_definition cs b =
     rfold (\<lambda>(n, t, k, nu) b. add_column b n t k nu)
       (map (\<lambda>c. (cd_name c, parser_data_type_to_storage_value_type (cd_type c), cd_is_key c, cd_nullable c)) cs) b"
  (is "_ = rfold ?add (?defs cs) b")
proof (induction cs arbitrary: b)
  case (Cons c cs)
  have "rfold add_definition cs = rfold ?add (?defs cs)" by (rule ext) (rule Cons.IH)
  then show ?case by (simp add: add_definition_def [of c])
qed simp

lemma sample_create_builds: "rbind (rfold add_definition sample_create SchemaBuilder) build = Inr sample_schema"
  unfolding rfold_definitions
  using build_sample by (simp add: sample_create_def sample_defs_def build_schema_def del: rfold.simps)

lemma sample_inserts_rows: "map (insert_row sample_schema) sample_inserts = query_rows" "list_all (insert_fits sample_schema) sample_inserts"
  by (simp_all add: sample_inserts_def insert_row_def named_row_def insert_fits_def literal_value_def sample_columns sample_defs_def
      column_of_def query_rows_def sample_row_def)

lemma sample_bind_query: "bind_query sample_schema sample_query = Inr sample_bound"
  using bind_query [of MockStorageEngine sample_tables sample_query sample_schema] sample_get_schema sample_query_binds
  by (simp add: sample_query_def)

lemma sql_script_answers_witness:
  "\<exists>names st. run_script lsm_ops insertion_sorter (map statement_text (script ''t'' sample_create sample_inserts sample_query)) sample_engine =
     (Some (Inr (filled query_rows @ [SelectResult \<lparr>sr_column_names = names,
        sr_rows = [[Some (R_String ''ab''), Some (R_Int (I64 3))]]\<rparr>])), st)"
proof -
  have name: "se_table_name sample_query = ''t''" by (simp add: sample_query_def)
  obtain names answer st where a: "query_answer sample_bound query_rows answer"
      "run_script lsm_ops insertion_sorter (map statement_text (script ''t'' sample_create sample_inserts sample_query)) sample_engine =
        (Some (Inr (filled query_rows @ [SelectResult \<lparr>sr_column_names = names, sr_rows = answer\<rparr>])), st)"
    using sql_script_answers [OF sample_create_builds sample_script_ok sample_inserts_rows(2) sample_inserts_rows(1) [symmetric]
        sample_table_fits _ name sample_bind_query sample_bound_ok query_rows_valid(3) sample_totals(1) _ insertion_sorter_ok,
        of "\<lambda>_. (\<lambda>_. None, None)"] sample_limit_ok(2) by auto
  have "grouped_answer sample_bound query_rows answer" using a(1) by (simp add: query_answer_def)
  then show ?thesis using a(2) sample_grouped_answer by blast
qed

end
