(* ===== verification/Tree_Worker.thy ===== *)
theory Tree_Worker
  imports Tree_Spec
begin

text \<open>
  The background mode of \<open>LSMTree\<close>: the worker thread (\<open>compaction_worker_loop\<close>), the clients that
  insert and scan while it writes, the caller of \<open>wait_for_compaction\<close>, and the stop request of the
  destructor, interleaved at the points where the mutex is free. One worker step runs from taking the
  mutex to giving it up, or one write of a table without it. The timed wait of the worker may end at
  any moment, so the worker may always take a step; the caller of \<open>wait_for_compaction\<close> sleeps until the
  worker notifies it.
\<close>

section \<open>The system\<close>

text \<open>Where the worker is while it does not hold the mutex.\<close>

datatype worker_phase =
    Sleeping
  | Flushing imm_memtable "64 word"
  | FlushWritten sst_info
  | Compacting "sst_info list" compaction_task "64 word"
  | CompactWritten "sst_info list" sst_info
  | WorkerDone

datatype waiter = NotWaiting | Blocked | Notified | Returned

record tree_system =
  sy_tree :: lsm_tree
  sy_phase :: worker_phase
  sy_busy :: bool
  sy_waiter :: waiter

definition background_system :: "lsm_tree \<Rightarrow> tree_system" where
  "background_system t = \<lparr>sy_tree = t, sy_phase = Sleeping, sy_busy = False, sy_waiter = NotWaiting\<rparr>"

text \<open>\<open>drain_work_locked\<close> from the head of its loop to the next \<open>lock.unlock()\<close>, or to its end.\<close>

lemma dropped_empty_shorter:
  "flush_begin t = (DroppedEmpty, t') \<Longrightarrow> length (ml_immutables (lt_memory t')) < length (ml_immutables (lt_memory t))"
  by (auto simp: flush_begin_def front_immutable_def pop_front_immutable_def split: if_splits option.splits)

function drain_locked :: "lsm_tree \<Rightarrow> (worker_phase \<times> lsm_tree) res" where
  "drain_locked t =
     (if lt_stop t then Inr (Sleeping, t)
      else rbind (has_pending_work t) (\<lambda>pending.
        if \<not> pending then Inr (Sleeping, t)
        else case flush_begin t of
            (DroppedEmpty, t') \<Rightarrow> drain_locked t'
          | (FlushJob imm sst_id, t') \<Rightarrow> Inr (Flushing imm sst_id, t')
          | (NothingToFlush, t') \<Rightarrow>
              rbind (compact_begin t') (\<lambda>(job, t'').
                case job of
                  NothingToCompact \<Rightarrow> Inr (Sleeping, t'')
                | CompactJob candidates task new_id \<Rightarrow> Inr (Compacting candidates task new_id, t''))))"
  by pat_completeness auto
termination
  by (relation "measure (\<lambda>t. length (ml_immutables (lt_memory t)))") (auto dest: dropped_empty_shorter [OF sym])

declare drain_locked.simps [simp del]

text \<open>The end of the loop body of the worker, and what is left when \<open>drain_work_locked\<close> gave up the mutex.\<close>

definition notify_idle :: "waiter \<Rightarrow> waiter" where
  "notify_idle w = (if w = Blocked then Notified else w)"

definition settle :: "tree_system \<Rightarrow> worker_phase \<times> lsm_tree \<Rightarrow> tree_system res" where
  "settle sys p =
     (case p of (phase, t) \<Rightarrow>
        if phase = Sleeping then
          rbind (has_pending_work t) (\<lambda>pending.
            Inr (sys\<lparr>sy_tree := t, sy_phase := Sleeping, sy_busy := False,
                     sy_waiter := (if pending then sy_waiter sys else notify_idle (sy_waiter sys))\<rparr>))
        else Inr (sys\<lparr>sy_tree := t, sy_phase := phase, sy_busy := True\<rparr>))"

definition worker_step :: "tree_system \<Rightarrow> tree_system res option" where
  "worker_step sys =
     (let t = sy_tree sys in
      case sy_phase sys of
        Sleeping \<Rightarrow>
          if lt_stop t then Some (Inr (sys\<lparr>sy_phase := WorkerDone, sy_waiter := notify_idle (sy_waiter sys)\<rparr>))
          else Some (rbind (drain_locked t) (settle sys))
      | Flushing imm sst_id \<Rightarrow>
          Some (rbind (flush_write imm sst_id t) (\<lambda>(info, t). Inr (sys\<lparr>sy_tree := t, sy_phase := FlushWritten info\<rparr>)))
      | FlushWritten info \<Rightarrow> Some (rbind (flush_end info t) (\<lambda>t. rbind (drain_locked t) (settle sys)))
      | Compacting candidates task new_id \<Rightarrow>
          obind (compact_write candidates task new_id t) (\<lambda>(info, t).
            Some (Inr (sys\<lparr>sy_tree := t, sy_phase := CompactWritten candidates info\<rparr>)))
      | CompactWritten candidates info \<Rightarrow>
          Some (rbind (compact_end candidates info t) (\<lambda>t. rbind (drain_locked t) (settle sys)))
      | WorkerDone \<Rightarrow> Some (Inr sys))"

text \<open>The predicate of \<open>idle_cv_\<close>.\<close>

definition idle_predicate :: "tree_system \<Rightarrow> bool res" where
  "idle_predicate sys =
     (if lt_stop (sy_tree sys) then Inr True
      else if sy_busy sys then Inr False
      else rbind (has_pending_work (sy_tree sys)) (\<lambda>pending. Inr (\<not> pending)))"

definition wait_idle :: "tree_system \<Rightarrow> tree_system res" where
  "wait_idle sys = rbind (idle_predicate sys) (\<lambda>b. Inr (sys\<lparr>sy_waiter := (if b then Returned else Blocked)\<rparr>))"

section \<open>Actions of the threads\<close>

datatype action =
    WorkerStep
  | Insert row
  | OpenScan key_range "nat list" scan_order skip_filter
  | WaitForCompaction
  | WaiterWakes
  | RequestStop

definition request_stop :: "tree_system \<Rightarrow> tree_system" where
  "request_stop sys = sys\<lparr>sy_tree := (sy_tree sys)\<lparr>lt_stop := True\<rparr>\<rparr>"

text \<open>
  \<open>OpenScan\<close> is the part of \<open>Scan\<close> under the mutex: it opens the cursor. What the client reads from the cursor
  afterwards does not change the tree and is not an action.
\<close>

definition act :: "action \<Rightarrow> tree_system \<Rightarrow> tree_system res option" where
  "act a sys =
     (case a of
        WorkerStep \<Rightarrow> worker_step sys
      | Insert r \<Rightarrow> obind (lt_insert r (sy_tree sys)) (\<lambda>t. Some (Inr (sys\<lparr>sy_tree := t\<rparr>)))
      | OpenScan rng projection order f \<Rightarrow>
          (case lt_scan rng projection order f (sy_tree sys) of
             (Inl e, t) \<Rightarrow> Some (Inl e)
           | (Inr c, t) \<Rightarrow> Some (Inr (sys\<lparr>sy_tree := t\<rparr>)))
      | WaitForCompaction \<Rightarrow> Some (if sy_waiter sys = NotWaiting \<or> sy_waiter sys = Returned then wait_idle sys else Inr sys)
      | WaiterWakes \<Rightarrow> Some (if sy_waiter sys = Notified then wait_idle sys else Inr sys)
      | RequestStop \<Rightarrow> Some (Inr (request_stop sys)))"

fun run_actions :: "action list \<Rightarrow> tree_system \<Rightarrow> tree_system res option" where
  "run_actions [] sys = Some (Inr sys)"
| "run_actions (a # as) sys = obind (act a sys) (run_actions as)"

definition inserted :: "action list \<Rightarrow> row list" where
  "inserted as = concat (map (\<lambda>a. case a of Insert r \<Rightarrow> [r] | _ \<Rightarrow> []) as)"

section \<open>The invariant\<close>

fun phase_ok :: "nat \<Rightarrow> (sst_info \<Rightarrow> row list) \<Rightarrow> lsm_tree \<Rightarrow> worker_phase \<Rightarrow> bool" where
  "phase_ok L R t Sleeping \<longleftrightarrow> True"
| "phase_ok L R t WorkerDone \<longleftrightarrow> True"
| "phase_ok L R t (Flushing imm i) \<longleftrightarrow>
     reserved t i \<and> imm \<noteq> [] \<and> (\<exists>imms. ml_immutables (lt_memory t) = imm # imms)"
| "phase_ok L R t (FlushWritten info) \<longleftrightarrow>
     reserved t (in_id info) \<and> in_path info = tree_sst_path t (in_id info) \<and> in_level info = 0 \<and>
     (\<exists>imm imms. ml_immutables (lt_memory t) = imm # imms \<and> on_disk (lt_schema t) (lt_disk t) info imm)"
| "phase_ok L R t (Compacting cs task i) \<longleftrightarrow>
     reserved t i \<and> cs \<noteq> [] \<and> set cs \<subseteq> set (tree_tables t) \<and> distinct (map in_id cs) \<and>
     (\<exists>l < L. task = level_task (lt_config t) l \<and> (\<forall>info \<in> set cs. unat (in_level info) = l))"
| "phase_ok L R t (CompactWritten cs info) \<longleftrightarrow>
     reserved t (in_id info) \<and> in_path info = tree_sst_path t (in_id info) \<and> cs \<noteq> [] \<and>
     set cs \<subseteq> set (tree_tables t) \<and> distinct (map in_id cs) \<and>
     (\<exists>l < L. (\<forall>info \<in> set cs. unat (in_level info) = l) \<and> unat (in_level info) = Suc l) \<and> in_level info \<noteq> -1 \<and>
     on_disk (lt_schema t) (lt_disk t) info (kmerge (map R cs))"

definition in_flight :: "worker_phase \<Rightarrow> bool" where
  "in_flight phase \<longleftrightarrow> phase \<noteq> Sleeping \<and> phase \<noteq> WorkerDone"

definition system_ok :: "nat \<Rightarrow> row multiset \<Rightarrow> tree_system \<Rightarrow> bool" where
  "system_ok L M sys \<longleftrightarrow>
     (\<exists>R. tree_good L R (sy_tree sys) \<and> mset (tree_rows R (sy_tree sys)) = M \<and> phase_ok L R (sy_tree sys) (sy_phase sys)) \<and>
     cfg_is_compaction_background (lt_config (sy_tree sys)) \<and>
     (sy_busy sys \<longleftrightarrow> in_flight (sy_phase sys)) \<and>
     unat (lt_next_id (sy_tree sys)) + tree_work L (sy_tree sys) \<le> (L + 2) * size M + (if in_flight (sy_phase sys) then 1 else 0) \<and>
     (L + 2) * size M < 2 ^ 64"

lemma take_number_good:
  assumes good: "tree_good L R t" and nx: "lt_next_id t \<noteq> -1"
  shows "tree_good L R (t\<lparr>lt_next_id := lt_next_id t + 1\<rparr>)" "tree_work L (t\<lparr>lt_next_id := lt_next_id t + 1\<rparr>) = tree_work L t"
    "unat (lt_next_id (t\<lparr>lt_next_id := lt_next_id t + 1\<rparr>)) = Suc (unat (lt_next_id t))"
proof -
  have inv: "tree_inv R t" using good by (simp add: tree_good_def)
  note n = take_number [OF inv nx]
  show "tree_good L R (t\<lparr>lt_next_id := lt_next_id t + 1\<rparr>)"
    using good n by (simp add: tree_good_def levels_below_def)
  show "tree_work L (t\<lparr>lt_next_id := lt_next_id t + 1\<rparr>) = tree_work L t" by (simp add: tree_work_def n(4))
  show "unat (lt_next_id (t\<lparr>lt_next_id := lt_next_id t + 1\<rparr>)) = Suc (unat (lt_next_id t))" using unat_next [OF nx] by simp
qed

lemma pending_work:
  assumes "tree_good L R t" "has_pending_work t = Inr True"
  shows "0 < tree_work L t"
proof (cases "ml_immutables (lt_memory t) = []")
  case False
  then show ?thesis by (simp add: tree_work_def)
next
  case True
  have inv: "tree_inv R t" using assms(1) by (simp add: tree_good_def)
  obtain task where "pick (lt_config t) (lt_registry t) = Inr (Some task)"
    using pending_iff [OF inv] tree_pick [OF inv] assms(2) True by auto
  then obtain l cs where cs: "l < L" "cs \<noteq> []" "set cs \<subseteq> set (tree_tables t)" "\<forall>info \<in> set cs. unat (in_level info) = l"
    using compact_begin_ok [OF assms(1)] by blast
  then obtain c where c: "c \<in> set (tree_tables t)" "unat (in_level c) = l" by (cases cs) auto
  have "L + 1 - unat (in_level c) \<le> (\<Sum>info\<in>#mset (tree_tables t). L + 1 - unat (in_level info))"
    using c(1) by (intro sum_mset_member) simp
  moreover have "0 < L + 1 - unat (in_level c)" using c(2) cs(1) by simp
  ultimately have "0 < (\<Sum>info\<in>#mset (tree_tables t). L + 1 - unat (in_level info))" by linarith
  then show ?thesis unfolding tree_work_def by (rule trans_less_add2)
qed

section \<open>The worker\<close>

definition drained_ok :: "nat \<Rightarrow> nat \<Rightarrow> (sst_info \<Rightarrow> row list) \<Rightarrow> lsm_tree \<Rightarrow> worker_phase \<Rightarrow> lsm_tree \<Rightarrow> bool" where
  "drained_ok L B R t phase t' \<longleftrightarrow>
     tree_good L R t' \<and> mset (tree_rows R t') = mset (tree_rows R t) \<and> phase_ok L R t' phase \<and> phase \<noteq> WorkerDone \<and>
     (phase = Sleeping \<longrightarrow> lt_stop t' \<or> has_pending_work t' = Inr False) \<and>
     (\<forall>info. phase \<noteq> FlushWritten info) \<and> (\<forall>cs info. phase \<noteq> CompactWritten cs info) \<and>
     lt_schema t' = lt_schema t \<and> lt_config t' = lt_config t \<and> lt_stop t' = lt_stop t \<and>
     tree_work L t' \<le> tree_work L t \<and>
     unat (lt_next_id t') + tree_work L t' \<le> B + (if in_flight phase then 1 else 0)"

lemma drain_locked_ok:
  assumes "tree_good L R t" "unat (lt_next_id t) + tree_work L t \<le> B" "B < 2 ^ 64"
  shows "\<exists>phase t'. drain_locked t = Inr (phase, t') \<and> drained_ok L B R t phase t'"
  using assms
proof (induction t rule: drain_locked.induct)
  case (1 t)
  have inv: "tree_inv R t" using "1.prems"(1) by (simp add: tree_good_def)
  obtain pending where p: "has_pending_work t = Inr pending"
      "pending \<longleftrightarrow> ml_immutables (lt_memory t) \<noteq> [] \<or> pick (lt_config t) (lt_registry t) \<noteq> Inr None"
    using pending_iff [OF inv] by blast
  show ?case
  proof (cases "lt_stop t \<or> \<not> pending")
    case True
    then have "drain_locked t = Inr (Sleeping, t)" using p(1) by (subst drain_locked.simps) auto
    then show ?thesis using True p(1) "1.prems"(1,2) by (auto simp: drained_ok_def in_flight_def)
  next
    case False
    then have go: "\<not> lt_stop t" "has_pending_work t = Inr True" using p(1) by auto
    have nx: "lt_next_id t \<noteq> -1"
      using pending_work [OF "1.prems"(1) go(2)] "1.prems"(2,3) by (auto simp: unat_word_max)
    let ?t1 = "t\<lparr>lt_next_id := lt_next_id t + 1\<rparr>"
    note n = take_number_good [OF "1.prems"(1) nx] and n' = take_number [OF inv nx]
    show ?thesis
    proof (cases "ml_immutables (lt_memory t)")
      case Nil
      then have begin_flush: "flush_begin t = (NothingToFlush, t)" by (simp add: flush_begin_def front_immutable_def)
      obtain task where pick: "pick (lt_config t) (lt_registry t) = Inr (Some task)"
        using p False Nil tree_pick [OF inv] by auto
      obtain l cs where cs: "l < L" "task = level_task (lt_config t) l" "cs \<noteq> []" "set cs \<subseteq> set (tree_tables t)"
          "distinct (map in_id cs)" "\<forall>info \<in> set cs. unat (in_level info) = l"
          "compact_begin t = Inr (CompactJob cs task (lt_next_id t), ?t1)"
        using compact_begin_ok [OF "1.prems"(1) pick] by blast
      have "drain_locked t = Inr (Compacting cs task (lt_next_id t), ?t1)"
        using go begin_flush cs(7) by (subst drain_locked.simps) simp
      then show ?thesis using n n' cs "1.prems"(2) by (auto simp: drained_ok_def in_flight_def)
    next
      case (Cons imm imms)
      show ?thesis
      proof (cases "imm = []")
        case True
        then obtain t2 where t2: "flush_begin t = (DroppedEmpty, t2)"
          using Cons by (simp add: flush_begin_def front_immutable_def)
        have imms: "ml_immutables (lt_memory t) = [] # imms" using Cons True by simp
        obtain t' where "flush_one t = Inr (True, t')" "tree_good L R t'" "same_tree R t R t'" "step_down L t t'"
          using drop_empty_ok [OF "1.prems"(1) imms] by blast
        moreover have "flush_one t = Inr (True, t2)" using t2 by (simp add: flush_one_def)
        ultimately have d: "tree_good L R t2" "same_tree R t R t2" "step_down L t t2" by auto
        have "unat (lt_next_id t2) + tree_work L t2 \<le> B" using d(3) "1.prems"(2) by (simp add: step_down_def)
        from "1.IH" [OF go(1) go(2) _ t2 [symmetric] refl d(1) this "1.prems"(3)]
        obtain phase t' where r: "drain_locked t2 = Inr (phase, t')" "drained_ok L B R t2 phase t'" by auto
        have "drain_locked t = drain_locked t2" using go t2 by (subst drain_locked.simps) simp
        then show ?thesis using r d(2,3) by (auto simp: drained_ok_def same_tree_def step_down_def)
      next
        case False
        then have "flush_begin t = (FlushJob imm (lt_next_id t), ?t1)"
          using Cons by (simp add: flush_begin_def front_immutable_def)
        then have "drain_locked t = Inr (Flushing imm (lt_next_id t), ?t1)" using go by (subst drain_locked.simps) simp
        then show ?thesis using n n' Cons False "1.prems"(2) by (auto simp: drained_ok_def in_flight_def)
      qed
    qed
  qed
qed

text \<open>A worker at rest, and the measure of what it has to do until then.\<close>

definition rested :: "tree_system \<Rightarrow> bool" where
  "rested sys \<longleftrightarrow> sy_phase sys = Sleeping \<and> has_pending_work (sy_tree sys) = Inr False"

fun phase_rank :: "worker_phase \<Rightarrow> nat" where
  "phase_rank Sleeping = 3"
| "phase_rank (Flushing imm i) = 2"
| "phase_rank (Compacting cs task i) = 2"
| "phase_rank (FlushWritten info) = 1"
| "phase_rank (CompactWritten cs info) = 1"
| "phase_rank WorkerDone = 0"

definition worker_measure :: "nat \<Rightarrow> tree_system \<Rightarrow> nat" where
  "worker_measure L sys = 3 * tree_work L (sy_tree sys) + phase_rank (sy_phase sys)"

text \<open>What a worker step changes.\<close>

definition worker_effect :: "nat \<Rightarrow> tree_system \<Rightarrow> tree_system \<Rightarrow> bool" where
  "worker_effect L sys sys' \<longleftrightarrow>
     lt_stop (sy_tree sys') = lt_stop (sy_tree sys) \<and> lt_schema (sy_tree sys') = lt_schema (sy_tree sys) \<and>
     lt_config (sy_tree sys') = lt_config (sy_tree sys) \<and>
     (\<not> lt_stop (sy_tree sys) \<longrightarrow> sy_phase sys' \<noteq> WorkerDone \<and>
        (rested sys' \<and> sy_waiter sys' = notify_idle (sy_waiter sys) \<or>
         worker_measure L sys' < worker_measure L sys \<and> sy_waiter sys' = sy_waiter sys))"

lemma settle_ok:
  assumes d: "drained_ok L ((L + 2) * size M) R t phase t'" and rows: "mset (tree_rows R t) = M" "(L + 2) * size M < 2 ^ 64"
    and bg: "cfg_is_compaction_background (lt_config t)"
  shows "\<exists>sys'. settle sys (phase, t') = Inr sys' \<and> system_ok L M sys' \<and> sy_tree sys' = t' \<and> sy_phase sys' = phase \<and>
    (phase = Sleeping \<longrightarrow> lt_stop t' \<or> rested sys' \<and> sy_waiter sys' = notify_idle (sy_waiter sys)) \<and>
    (phase \<noteq> Sleeping \<longrightarrow> sy_waiter sys' = sy_waiter sys)"
proof (cases "phase = Sleeping")
  case True
  have good: "tree_good L R t'" using d by (simp add: drained_ok_def)
  then obtain pending where p: "has_pending_work t' = Inr pending" using pending_iff [of R t'] by (auto simp: tree_good_def)
  let ?sys = "sys\<lparr>sy_tree := t', sy_phase := Sleeping, sy_busy := False,
      sy_waiter := (if pending then sy_waiter sys else notify_idle (sy_waiter sys))\<rparr>"
  have "settle sys (phase, t') = Inr ?sys" using p True by (simp add: settle_def)
  moreover have "system_ok L M ?sys"
    using d rows bg True unfolding system_ok_def drained_ok_def in_flight_def by auto
  ultimately show ?thesis using True p d by (intro exI [of _ ?sys]) (auto simp: rested_def drained_ok_def)
next
  case False
  let ?sys = "sys\<lparr>sy_tree := t', sy_phase := phase, sy_busy := True\<rparr>"
  have "settle sys (phase, t') = Inr ?sys" using False by (simp add: settle_def)
  moreover have "system_ok L M ?sys"
    using d rows bg False unfolding system_ok_def drained_ok_def in_flight_def by auto
  ultimately show ?thesis using False by (intro exI [of _ ?sys]) auto
qed

text \<open>After taking the mutex: drain, and settle.\<close>

lemma drain_settle_ok:
  assumes good: "tree_good L R t" and rows: "mset (tree_rows R t) = M" "(L + 2) * size M < 2 ^ 64"
    and bg: "cfg_is_compaction_background (lt_config t)" and ids: "unat (lt_next_id t) + tree_work L t \<le> (L + 2) * size M"
    and work: "3 * tree_work L t + 2 < worker_measure L sys"
    and same: "lt_stop t = lt_stop (sy_tree sys)" "lt_schema t = lt_schema (sy_tree sys)" "lt_config t = lt_config (sy_tree sys)"
  shows "\<exists>sys'. rbind (drain_locked t) (settle sys) = Inr sys' \<and> system_ok L M sys' \<and> worker_effect L sys sys'"
proof -
  obtain phase t' where d: "drain_locked t = Inr (phase, t')" "drained_ok L ((L + 2) * size M) R t phase t'"
    using drain_locked_ok [OF good ids rows(2)] by blast
  obtain sys' where s: "settle sys (phase, t') = Inr sys'" "system_ok L M sys'" "sy_tree sys' = t'" "sy_phase sys' = phase"
      "phase = Sleeping \<longrightarrow> lt_stop t' \<or> rested sys' \<and> sy_waiter sys' = notify_idle (sy_waiter sys)"
      "phase \<noteq> Sleeping \<longrightarrow> sy_waiter sys' = sy_waiter sys"
    using settle_ok [OF d(2) rows bg, of sys] by blast
  have t': "lt_schema t' = lt_schema t" "lt_config t' = lt_config t" "lt_stop t' = lt_stop t" "tree_work L t' \<le> tree_work L t"
      "phase = Sleeping \<or> phase_rank phase \<le> 2" "phase \<noteq> WorkerDone"
    using d(2) by (cases phase; simp add: drained_ok_def)+
  have "worker_effect L sys sys'"
  proof (cases "phase = Sleeping")
    case True
    then show ?thesis using s t' same by (auto simp: worker_effect_def)
  next
    case False
    then have "worker_measure L sys' < worker_measure L sys" using s(3,4) t'(4,5) work by (simp add: worker_measure_def)
    then show ?thesis using s False t' same by (auto simp: worker_effect_def)
  qed
  then show ?thesis using d(1) s(1,2) by auto
qed

text \<open>A table written to a reserved directory changes nothing else.\<close>

lemma written_good:
  assumes "tree_good L R t" "tree_inv R (t\<lparr>lt_disk := d\<rparr>)"
  shows "tree_good L R (t\<lparr>lt_disk := d\<rparr>)" "tree_work L (t\<lparr>lt_disk := d\<rparr>) = tree_work L t"
    "tree_rows R (t\<lparr>lt_disk := d\<rparr>) = tree_rows R t" "tree_tables (t\<lparr>lt_disk := d\<rparr>) = tree_tables t"
  using assms by (simp_all add: tree_good_def levels_below_def tree_work_def tree_rows_def tree_tables_def)

lemma flushing_step_ok:
  assumes ok: "system_ok L M sys" and ph: "sy_phase sys = Flushing imm i"
  shows "\<exists>sys'. worker_step sys = Some (Inr sys') \<and> system_ok L M sys' \<and> worker_effect L sys sys'"
proof -
  let ?t = "sy_tree sys"
  obtain R where R: "tree_good L R ?t" "mset (tree_rows R ?t) = M" "phase_ok L R ?t (Flushing imm i)"
    using ok ph by (auto simp: system_ok_def)
  then obtain imms where imm: "ml_immutables (lt_memory ?t) = imm # imms" "imm \<noteq> []" "reserved ?t i" by auto
  have inv: "tree_inv R ?t" using R(1) by (simp add: tree_good_def)
  have mem: "imm \<in> set (ml_immutables (lt_memory ?t))" using imm(1) by simp
  from flush_write_ok [OF inv imm(3) mem imm(2)] obtain info fs where w:
    "flush_write imm i ?t = Inr (info, ?t\<lparr>lt_disk := (lt_disk ?t)(tree_sst_path ?t i \<mapsto> fs)\<rparr>)"
    "tree_inv R (?t\<lparr>lt_disk := (lt_disk ?t)(tree_sst_path ?t i \<mapsto> fs)\<rparr>)"
    "reserved (?t\<lparr>lt_disk := (lt_disk ?t)(tree_sst_path ?t i \<mapsto> fs)\<rparr>) i"
    "in_id info = i" "in_path info = tree_sst_path ?t i" "in_level info = 0"
    "on_disk (lt_schema ?t) (lt_disk (?t\<lparr>lt_disk := (lt_disk ?t)(tree_sst_path ?t i \<mapsto> fs)\<rparr>)) info imm"
    by (auto simp: Let_def)
  note g = written_good [OF R(1) w(2)]
  let ?t2 = "?t\<lparr>lt_disk := (lt_disk ?t)(tree_sst_path ?t i \<mapsto> fs)\<rparr>"
  let ?sys = "sys\<lparr>sy_tree := ?t2, sy_phase := FlushWritten info\<rparr>"
  have "phase_ok L R ?t2 (FlushWritten info)" using w(3-7) imm(1) by (simp add: tree_sst_path_def)
  then have "system_ok L M ?sys"
    using ok ph g R(2) unfolding system_ok_def in_flight_def by (auto simp del: phase_ok.simps)
  moreover have "worker_step sys = Some (Inr ?sys)" using ph w(1) by (simp add: worker_step_def Let_def)
  moreover have "worker_effect L sys ?sys" using g(2) ph by (simp add: worker_effect_def worker_measure_def)
  ultimately show ?thesis by blast
qed

lemma flush_written_step_ok:
  assumes ok: "system_ok L M sys" and ph: "sy_phase sys = FlushWritten info"
  shows "\<exists>sys'. worker_step sys = Some (Inr sys') \<and> system_ok L M sys' \<and> worker_effect L sys sys'"
proof -
  let ?t = "sy_tree sys"
  obtain R where R: "tree_good L R ?t" "mset (tree_rows R ?t) = M" "phase_ok L R ?t (FlushWritten info)"
    using ok ph by (auto simp: system_ok_def)
  then obtain imm imms where imm: "ml_immutables (lt_memory ?t) = imm # imms" "reserved ?t (in_id info)"
      "in_path info = tree_sst_path ?t (in_id info)" "in_level info = 0" "on_disk (lt_schema ?t) (lt_disk ?t) info imm" by auto
  have inv: "tree_inv R ?t" "levels_below L ?t" "capacity L (lt_config ?t) (tree_rows R ?t)" using R(1) by (simp_all add: tree_good_def)
  let ?R = "R(info := imm)"
  from flush_end_ok [OF inv(1) imm] obtain t' where e:
    "flush_end info ?t = Inr t'" "tree_inv ?R t'" "mset (tree_rows ?R t') = mset (tree_rows R ?t)"
    "mset (tree_tables t') = add_mset info (mset (tree_tables ?t))" "lt_memory t' = (lt_memory ?t)\<lparr>ml_immutables := imms\<rparr>"
    "lt_config t' = lt_config ?t" "lt_next_id t' = lt_next_id ?t" "lt_schema t' = lt_schema ?t" "lt_stop t' = lt_stop ?t"
    by blast
  have good: "tree_good L ?R t'"
    using e(2,6) inv(2,3) capacity_mset [OF e(3)] imm(4) by (simp add: tree_good_def levels_below_def set_add_mset [OF e(4)])
  have work: "tree_work L t' < tree_work L ?t"
    using imm(1,4) work_tables [OF e(4), of "\<lambda>info. L + 1 - unat (in_level info)"] by (simp add: tree_work_def e(5))
  have rows: "mset (tree_rows ?R t') = M" "(L + 2) * size M < 2 ^ 64" using e(3) R(2) ok by (simp_all add: system_ok_def)
  have bg: "cfg_is_compaction_background (lt_config t')" using ok e(6) by (simp add: system_ok_def)
  have ids: "unat (lt_next_id t') + tree_work L t' \<le> (L + 2) * size M"
    using ok work e(7) ph by (simp add: system_ok_def in_flight_def)
  have "3 * tree_work L t' + 2 < worker_measure L sys" using work ph by (simp add: worker_measure_def)
  from drain_settle_ok [OF good rows bg ids this e(9,8,6)] show ?thesis using ph e(1) by (auto simp: worker_step_def Let_def)
qed

lemma compacting_step_ok:
  assumes ok: "system_ok L M sys" and ph: "sy_phase sys = Compacting cs task i"
  shows "\<exists>sys'. worker_step sys = Some (Inr sys') \<and> system_ok L M sys' \<and> worker_effect L sys sys'"
proof -
  let ?t = "sy_tree sys"
  obtain R where R: "tree_good L R ?t" "mset (tree_rows R ?t) = M" "phase_ok L R ?t (Compacting cs task i)"
    using ok ph by (auto simp: system_ok_def)
  then obtain l where c: "reserved ?t i" "cs \<noteq> []" "set cs \<subseteq> set (tree_tables ?t)" "distinct (map in_id cs)"
      "l < L" "task = level_task (lt_config ?t) l" "\<forall>info \<in> set cs. unat (in_level info) = l" by auto
  have inv: "tree_inv R ?t" "capacity L (lt_config ?t) (tree_rows R ?t)" using R(1) by (simp_all add: tree_good_def)
  note task = level_task_ok [OF c(5) inv(2)]
  have lay: "task_output_layout task \<in> {ROW, COLUMN}" using task(3) c(6) by simp
  from compact_write_ok [OF inv(1) c(1,3,4,2) lay] obtain info fs where w:
    "compact_write cs task i ?t = Some (Inr (info, ?t\<lparr>lt_disk := (lt_disk ?t)(tree_sst_path ?t i \<mapsto> fs)\<rparr>))"
    "tree_inv R (?t\<lparr>lt_disk := (lt_disk ?t)(tree_sst_path ?t i \<mapsto> fs)\<rparr>)"
    "reserved (?t\<lparr>lt_disk := (lt_disk ?t)(tree_sst_path ?t i \<mapsto> fs)\<rparr>) i"
    "in_id info = i" "in_path info = tree_sst_path ?t i" "in_level info = task_dst_level task"
    "on_disk (lt_schema ?t) (lt_disk (?t\<lparr>lt_disk := (lt_disk ?t)(tree_sst_path ?t i \<mapsto> fs)\<rparr>)) info (kmerge (map R cs))"
    by (auto simp: Let_def)
  note g = written_good [OF R(1) w(2)]
  let ?t2 = "?t\<lparr>lt_disk := (lt_disk ?t)(tree_sst_path ?t i \<mapsto> fs)\<rparr>"
  let ?sys = "sys\<lparr>sy_tree := ?t2, sy_phase := CompactWritten cs info\<rparr>"
  have "unat (in_level info) = Suc l" "in_level info \<noteq> -1" using task(1,2) c(6) w(6) by simp_all
  moreover have "tree_sst_path ?t2 i = tree_sst_path ?t i" by (simp add: tree_sst_path_def)
  ultimately have "phase_ok L R ?t2 (CompactWritten cs info)" using w(3-5,7) c g(4) by auto
  then have "system_ok L M ?sys"
    using ok ph g R(2) unfolding system_ok_def in_flight_def by (auto simp del: phase_ok.simps)
  moreover have "worker_step sys = Some (Inr ?sys)" using ph w(1) by (simp add: worker_step_def Let_def)
  moreover have "worker_effect L sys ?sys" using g(2) ph by (simp add: worker_effect_def worker_measure_def)
  ultimately show ?thesis by blast
qed

lemma compact_written_step_ok:
  assumes ok: "system_ok L M sys" and ph: "sy_phase sys = CompactWritten cs info"
  shows "\<exists>sys'. worker_step sys = Some (Inr sys') \<and> system_ok L M sys' \<and> worker_effect L sys sys'"
proof -
  let ?t = "sy_tree sys"
  obtain R where R: "tree_good L R ?t" "mset (tree_rows R ?t) = M" "phase_ok L R ?t (CompactWritten cs info)"
    using ok ph by (auto simp: system_ok_def)
  then obtain l where c: "reserved ?t (in_id info)" "in_path info = tree_sst_path ?t (in_id info)" "cs \<noteq> []"
      "set cs \<subseteq> set (tree_tables ?t)" "distinct (map in_id cs)"
      "l < L" "\<forall>info \<in> set cs. unat (in_level info) = l" "unat (in_level info) = Suc l" "in_level info \<noteq> -1"
      "on_disk (lt_schema ?t) (lt_disk ?t) info (kmerge (map R cs))" by auto
  have inv: "tree_inv R ?t" "levels_below L ?t" "capacity L (lt_config ?t) (tree_rows R ?t)" using R(1) by (simp_all add: tree_good_def)
  let ?R = "R(info := kmerge (map R cs))"
  from compact_end_ok [OF inv(1) c(1,4,5,2,9,10) mset_kmerge] obtain t' where e:
    "compact_end cs info ?t = Inr t'" "tree_inv ?R t'" "mset (tree_rows ?R t') = mset (tree_rows R ?t)"
    "mset (tree_tables t') = add_mset info (mset (other_tables cs (tree_tables ?t)))" "lt_memory t' = lt_memory ?t"
    "lt_config t' = lt_config ?t" "lt_next_id t' = lt_next_id ?t" "lt_schema t' = lt_schema ?t" "lt_stop t' = lt_stop ?t"
    by blast
  have good: "tree_good L ?R t'"
    using e(2,6) inv(2,3) capacity_mset [OF e(3)] c(6,8) by (auto simp: tree_good_def levels_below_def set_add_mset [OF e(4)])
  have d: "distinct (map in_id (tree_tables ?t))" using inv(1) by (simp add: tree_inv_def tables_rep_def)
  have work: "tree_work L t' < tree_work L ?t"
    using work_drop [OF c(4) d c(5,3,7,6,8) e(4)] by (simp add: tree_work_def e(5))
  have rows: "mset (tree_rows ?R t') = M" "(L + 2) * size M < 2 ^ 64" using e(3) R(2) ok by (simp_all add: system_ok_def)
  have bg: "cfg_is_compaction_background (lt_config t')" using ok e(6) by (simp add: system_ok_def)
  have ids: "unat (lt_next_id t') + tree_work L t' \<le> (L + 2) * size M"
    using ok work e(7) ph by (simp add: system_ok_def in_flight_def)
  have "3 * tree_work L t' + 2 < worker_measure L sys" using work ph by (simp add: worker_measure_def)
  from drain_settle_ok [OF good rows bg ids this e(9,8,6)] show ?thesis using ph e(1) by (auto simp: worker_step_def Let_def)
qed

lemma worker_step_ok:
  assumes ok: "system_ok L M sys"
  shows "\<exists>sys'. worker_step sys = Some (Inr sys') \<and> system_ok L M sys' \<and> (sy_phase sys \<noteq> WorkerDone \<longrightarrow> worker_effect L sys sys')"
proof (cases "sy_phase sys")
  case Sleeping
  show ?thesis
  proof (cases "lt_stop (sy_tree sys)")
    case True
    let ?sys = "sys\<lparr>sy_phase := WorkerDone, sy_waiter := notify_idle (sy_waiter sys)\<rparr>"
    have "system_ok L M ?sys" using ok Sleeping by (auto simp: system_ok_def in_flight_def)
    moreover have "worker_step sys = Some (Inr ?sys)" using Sleeping True by (simp add: worker_step_def)
    ultimately show ?thesis using True by (simp add: worker_effect_def)
  next
    case False
    obtain R where R: "tree_good L R (sy_tree sys)" "mset (tree_rows R (sy_tree sys)) = M" using ok by (auto simp: system_ok_def)
    have "3 * tree_work L (sy_tree sys) + 2 < worker_measure L sys" using Sleeping by (simp add: worker_measure_def)
    from drain_settle_ok [OF R _ _ _ this refl refl refl] ok Sleeping False show ?thesis
      by (auto simp: system_ok_def in_flight_def worker_step_def Let_def)
  qed
next
  case WorkerDone
  then show ?thesis using ok by (auto simp: worker_step_def)
qed (use flushing_step_ok [OF ok] flush_written_step_ok [OF ok] compacting_step_ok [OF ok] compact_written_step_ok [OF ok] in blast)+

section \<open>The clients\<close>

lemma ml_insert_appends:
  assumes "ml_insert r ml = Inr ml'"
  obtains xs where "ml_immutables ml' = ml_immutables ml @ xs"
  using assms by (auto simp: ml_insert_def rbind_eq_Inr active_to_immutable_def to_sorted_immutable_def Let_def split: if_splits)

lemma phase_ok_memory:
  assumes "phase_ok L R t phase" "ml_immutables ml = ml_immutables (lt_memory t) @ xs"
  shows "phase_ok L R (t\<lparr>lt_memory := ml\<rparr>) phase"
  using assms by (cases phase) auto

lemma phase_ok_caches:
  assumes "phase_ok L R t phase" "caches_of_tables t t'"
  shows "phase_ok L R t' phase"
proof -
  obtain cs where cs: "t' = t\<lparr>lt_caches := cs\<rparr>" "\<forall>i. i \<notin> in_id ` set (tree_tables t) \<longrightarrow> cs i = lt_caches t i"
    using assms(2) by (auto simp: caches_of_tables_def)
  have "reserved t i \<Longrightarrow> reserved t' i" for i using cs(2) by (simp add: cs(1) reserved_def caches_update)
  then show ?thesis using assms(1) by (cases phase) (auto simp: cs(1) caches_update tree_sst_path_def)
qed

lemma insert_action_ok:
  assumes ok: "system_ok L M sys" and m: "mset rows = add_mset r M"
    and fit: "rows_fit (lt_schema (sy_tree sys)) rows" "capacity L (lt_config (sy_tree sys)) rows" "(L + 2) * length rows < 2 ^ 64"
  shows "\<exists>sys'. act (Insert r) sys = Some (Inr sys') \<and> system_ok L (add_mset r M) sys' \<and>
    lt_schema (sy_tree sys') = lt_schema (sy_tree sys) \<and> lt_config (sy_tree sys') = lt_config (sy_tree sys) \<and>
    lt_stop (sy_tree sys') = lt_stop (sy_tree sys)"
proof -
  let ?t = "sy_tree sys"
  obtain R where R: "tree_good L R ?t" "mset (tree_rows R ?t) = M" "phase_ok L R ?t (sy_phase sys)" using ok by (auto simp: system_ok_def)
  have inv: "tree_inv R ?t" "levels_below L ?t" using R(1) by (simp_all add: tree_good_def)
  have eq: "mset rows = mset (r # tree_rows R ?t)" using m R(2) by simp
  have fits: "rows_fit (lt_schema ?t) (r # tree_rows R ?t)" "capacity L (lt_config ?t) (r # tree_rows R ?t)"
    using fit(1,2) rows_fit_mset [OF eq] capacity_mset [OF eq] by blast+
  have "valid_row (lt_schema ?t) r" using rows_fit_valid [OF fits(1)] by simp
  from insert_memory_ok [OF inv(1) this fits(1)] obtain ml where ml: "ml_insert r (lt_memory ?t) = Inr ml"
      "tree_inv R (?t\<lparr>lt_memory := ml\<rparr>)" "mset (tree_rows R (?t\<lparr>lt_memory := ml\<rparr>)) = add_mset r (mset (tree_rows R ?t))"
      "length (ml_immutables ml) \<le> Suc (length (ml_immutables (lt_memory ?t)))" by blast
  let ?t' = "?t\<lparr>lt_memory := ml\<rparr>"
  obtain xs where xs: "ml_immutables ml = ml_immutables (lt_memory ?t) @ xs" by (rule ml_insert_appends [OF ml(1)])
  have "mset (tree_rows R ?t') = mset (r # tree_rows R ?t)" using ml(3) by simp
  then have good: "tree_good L R ?t'" using ml(2) inv(2) fits(2) capacity_mset by (fastforce simp: tree_good_def levels_below_def)
  have work: "tree_work L ?t' \<le> tree_work L ?t + (L + 2)" using mult_le_mono2 [OF ml(4), of "L + 2"] by (simp add: tree_work_def)
  have size: "length rows = Suc (size M)" using arg_cong [OF m, of size] by simp
  have "system_ok L (add_mset r M) (sys\<lparr>sy_tree := ?t'\<rparr>)"
    unfolding system_ok_def
  proof (intro conjI exI)
    show "tree_good L R (sy_tree (sys\<lparr>sy_tree := ?t'\<rparr>))" using good by simp
    show "mset (tree_rows R (sy_tree (sys\<lparr>sy_tree := ?t'\<rparr>))) = add_mset r M" using ml(3) R(2) by simp
    show "phase_ok L R (sy_tree (sys\<lparr>sy_tree := ?t'\<rparr>)) (sy_phase (sys\<lparr>sy_tree := ?t'\<rparr>))" using phase_ok_memory [OF R(3) xs] by simp
    show "(L + 2) * size (add_mset r M) < 2 ^ 64" using fit(3) size by simp
  qed (use ok work in \<open>auto simp: system_ok_def\<close>)
  moreover have "act (Insert r) sys = Some (Inr (sys\<lparr>sy_tree := ?t'\<rparr>))"
    using ml(1) ok by (simp add: act_def lt_insert_def system_ok_def)
  ultimately show ?thesis by simp
qed

lemma scan_action_ok:
  assumes ok: "system_ok L M sys" and p: "projection_ok (lt_schema (sy_tree sys)) projection" "range_ok rng"
  shows "\<exists>sys'. act (OpenScan rng projection order f) sys = Some (Inr sys') \<and> system_ok L M sys' \<and>
    lt_schema (sy_tree sys') = lt_schema (sy_tree sys) \<and> lt_config (sy_tree sys') = lt_config (sy_tree sys) \<and>
    lt_stop (sy_tree sys') = lt_stop (sy_tree sys) \<and> sy_phase sys' = sy_phase sys \<and> sy_waiter sys' = sy_waiter sys \<and>
    worker_measure L sys' = worker_measure L sys \<and> has_pending_work (sy_tree sys') = has_pending_work (sy_tree sys)"
proof -
  let ?t = "sy_tree sys"
  obtain R where R: "tree_good L R ?t" "mset (tree_rows R ?t) = M" "phase_ok L R ?t (sy_phase sys)" using ok by (auto simp: system_ok_def)
  have inv: "tree_inv R ?t" using R(1) by (simp add: tree_good_def)
  obtain c t' where s: "lt_scan rng projection order f ?t = (Inr c, t')" "tree_inv R t'" "caches_of_tables ?t t'"
    using lt_scan_delivers [OF inv p, of order f] by blast
  obtain cs where cs: "t' = ?t\<lparr>lt_caches := cs\<rparr>" using s(3) by (auto simp: caches_of_tables_def)
  have same: "tree_good L R t'" "tree_rows R t' = tree_rows R ?t" "tree_work L t' = tree_work L ?t"
      "has_pending_work t' = has_pending_work ?t"
    using R(1) s(2) unfolding cs tree_good_def levels_below_def tree_work_def has_pending_work_def by (simp_all add: caches_update)
  have "system_ok L M (sys\<lparr>sy_tree := t'\<rparr>)"
    using ok same R(2) phase_ok_caches [OF R(3) s(3)] unfolding system_ok_def by (auto simp: cs)
  then show ?thesis using s(1) same by (auto simp: act_def worker_measure_def cs)
qed

lemma idle_predicate_ok:
  assumes "system_ok L M sys"
  obtains b where "idle_predicate sys = Inr b" "rested sys \<Longrightarrow> b" "b \<Longrightarrow> lt_stop (sy_tree sys) \<or> has_pending_work (sy_tree sys) = Inr False"
proof -
  obtain R where "tree_inv R (sy_tree sys)" using assms by (auto simp: system_ok_def tree_good_def)
  then obtain p where p: "has_pending_work (sy_tree sys) = Inr p" using pending_iff by blast
  have rest: "rested sys \<Longrightarrow> \<not> sy_busy sys \<and> \<not> p" using assms p by (simp add: rested_def system_ok_def in_flight_def)
  have "idle_predicate sys = Inr (lt_stop (sy_tree sys) \<or> \<not> sy_busy sys \<and> \<not> p)" using p by (simp add: idle_predicate_def)
  then show thesis using p rest by (intro that [of "lt_stop (sy_tree sys) \<or> \<not> sy_busy sys \<and> \<not> p"]) auto
qed

lemma waiter_update: "system_ok L M (sys\<lparr>sy_waiter := w\<rparr>) \<longleftrightarrow> system_ok L M sys"
  by (simp add: system_ok_def)

lemma stop_update:
  assumes "system_ok L M sys"
  shows "system_ok L M (sys\<lparr>sy_tree := (sy_tree sys)\<lparr>lt_stop := True\<rparr>\<rparr>)"
proof -
  let ?t = "(sy_tree sys)\<lparr>lt_stop := True\<rparr>"
  have u: "tree_tables ?t = tree_tables (sy_tree sys)" "tree_rows R ?t = tree_rows R (sy_tree sys)" "tree_work L ?t = tree_work L (sy_tree sys)"
      "tree_good L R ?t = tree_good L R (sy_tree sys)" "tree_sst_path ?t = tree_sst_path (sy_tree sys)"
      "reserved ?t = reserved (sy_tree sys)" for R
    unfolding tree_good_def tree_inv_def tables_rep_def caches_rep_def tree_ok_def levels_below_def tree_work_def tree_rows_def
      tree_tables_def tree_sst_path_def reserved_def by (simp_all add: fun_eq_iff)
  have "phase_ok L R ?t phase = phase_ok L R (sy_tree sys) phase" for R phase by (cases phase) (simp_all add: u)
  then show ?thesis using assms by (simp add: system_ok_def u)
qed

fun scan_fits :: "schema \<Rightarrow> action \<Rightarrow> bool" where
  "scan_fits s (OpenScan rng projection order f) \<longleftrightarrow> projection_ok s projection \<and> range_ok rng"
| "scan_fits s _ \<longleftrightarrow> True"

lemma act_ok:
  assumes ok: "system_ok L M sys" and scan: "scan_fits (lt_schema (sy_tree sys)) a"
    and fit: "mset rows = M + mset (inserted [a])" "rows_fit (lt_schema (sy_tree sys)) rows" "capacity L (lt_config (sy_tree sys)) rows"
      "(L + 2) * length rows < 2 ^ 64"
  shows "\<exists>sys'. act a sys = Some (Inr sys') \<and> system_ok L (mset rows) sys' \<and>
    lt_schema (sy_tree sys') = lt_schema (sy_tree sys) \<and> lt_config (sy_tree sys') = lt_config (sy_tree sys) \<and>
    (a \<noteq> RequestStop \<longrightarrow> lt_stop (sy_tree sys') = lt_stop (sy_tree sys))"
proof (cases a)
  case WorkerStep
  have "mset rows = M" using fit(1) WorkerStep by (simp add: inserted_def)
  moreover obtain sys' where "worker_step sys = Some (Inr sys')" "system_ok L M sys'" "sy_phase sys \<noteq> WorkerDone \<longrightarrow> worker_effect L sys sys'"
    using worker_step_ok [OF ok] by blast
  moreover have "sy_phase sys = WorkerDone \<Longrightarrow> worker_step sys = Some (Inr sys)" by (simp add: worker_step_def)
  ultimately show ?thesis using WorkerStep by (cases "sy_phase sys = WorkerDone") (auto simp: act_def worker_effect_def)
next
  case (Insert r)
  then have m: "mset rows = add_mset r M" using fit(1) by (simp add: inserted_def)
  show ?thesis using insert_action_ok [OF ok m fit(2-4)] Insert m by auto
next
  case (OpenScan rng projection order f)
  then have "mset rows = M" using fit(1) by (simp add: inserted_def)
  then show ?thesis using scan_action_ok [OF ok, of projection rng order f] scan OpenScan by auto
next
  case RequestStop
  have "mset rows = M" using fit(1) RequestStop by (simp add: inserted_def)
  then show ?thesis using stop_update [OF ok] RequestStop by (simp add: act_def request_stop_def)
next
  case WaitForCompaction
  have "mset rows = M" using fit(1) WaitForCompaction by (simp add: inserted_def)
  moreover obtain b where "idle_predicate sys = Inr b" by (rule idle_predicate_ok [OF ok])
  ultimately show ?thesis using WaitForCompaction ok by (auto simp: act_def wait_idle_def waiter_update)
next
  case WaiterWakes
  have "mset rows = M" using fit(1) WaiterWakes by (simp add: inserted_def)
  moreover obtain b where "idle_predicate sys = Inr b" by (rule idle_predicate_ok [OF ok])
  ultimately show ?thesis using WaiterWakes ok by (auto simp: act_def wait_idle_def waiter_update)
qed

lemma actions_ok:
  assumes "system_ok L M sys" "\<forall>a \<in> set as. scan_fits (lt_schema (sy_tree sys)) a"
    and "mset rows = M + mset (inserted as)" "rows_fit (lt_schema (sy_tree sys)) rows" "capacity L (lt_config (sy_tree sys)) rows"
      "(L + 2) * length rows < 2 ^ 64"
  shows "\<exists>sys'. run_actions as sys = Some (Inr sys') \<and> system_ok L (mset rows) sys' \<and>
    lt_schema (sy_tree sys') = lt_schema (sy_tree sys) \<and> lt_config (sy_tree sys') = lt_config (sy_tree sys) \<and>
    (RequestStop \<notin> set as \<longrightarrow> lt_stop (sy_tree sys') = lt_stop (sy_tree sys))"
  using assms
proof (induction as arbitrary: sys M)
  case Nil
  then show ?case by (simp add: inserted_def)
next
  case (Cons a as)
  have ins: "inserted (a # as) = inserted [a] @ inserted as" by (simp add: inserted_def)
  obtain M' where "M' = M + mset (inserted [a])" by blast
  obtain rows' where rows': "mset rows' = M + mset (inserted [a])" using ex_mset by blast
  have sub: "mset rows' \<subseteq># mset rows" using Cons.prems(3) rows' by (simp add: ins)
  have len: "length rows' \<le> length rows" using size_mset_mono [OF sub] by simp
  obtain zs where "mset rows = mset (zs @ rows')"
    using Cons.prems(3) rows' ex_mset [of "mset (inserted as)"] by (auto simp: ins ac_simps)
  then have "capacity L (lt_config (sy_tree sys)) rows'" using Cons.prems(5) capacity_mset capacity_part by metis
  moreover have "(L + 2) * length rows' < 2 ^ 64" using Cons.prems(6) mult_le_mono2 [OF len, of "L + 2"] by linarith
  moreover have "scan_fits (lt_schema (sy_tree sys)) a" using Cons.prems(2) by simp
  ultimately obtain sys1 where s1: "act a sys = Some (Inr sys1)" "system_ok L (mset rows') sys1"
      "lt_schema (sy_tree sys1) = lt_schema (sy_tree sys)" "lt_config (sy_tree sys1) = lt_config (sy_tree sys)"
      "a \<noteq> RequestStop \<longrightarrow> lt_stop (sy_tree sys1) = lt_stop (sy_tree sys)"
    using act_ok [OF Cons.prems(1) _ rows' rows_fit_sub [OF Cons.prems(4) sub]] by blast
  have "mset rows = mset rows' + mset (inserted as)" using Cons.prems(3) rows' by (simp add: ins)
  from Cons.IH [OF s1(2) _ this] Cons.prems(2,4-6) s1(3,4) obtain sys' where
    "run_actions as sys1 = Some (Inr sys')" "system_ok L (mset rows) sys'" "lt_schema (sy_tree sys') = lt_schema (sy_tree sys1)"
    "lt_config (sy_tree sys') = lt_config (sy_tree sys1)" "RequestStop \<notin> set as \<longrightarrow> lt_stop (sy_tree sys') = lt_stop (sy_tree sys1)" by auto
  then show ?case using s1 by auto
qed

section \<open>Waiting for the worker\<close>

text \<open>Actions of a time without inserts and before the stop request.\<close>

fun quiet :: "action \<Rightarrow> bool" where
  "quiet (Insert r) \<longleftrightarrow> False"
| "quiet RequestStop \<longleftrightarrow> False"
| "quiet _ \<longleftrightarrow> True"

definition notified_at_rest :: "tree_system \<Rightarrow> bool" where
  "notified_at_rest sys \<longleftrightarrow> rested sys \<and> sy_waiter sys = Notified"

text \<open>A resting worker stays at rest.\<close>

lemma rested_worker_step:
  assumes "rested sys" "\<not> lt_stop (sy_tree sys)"
  shows "\<exists>sys'. worker_step sys = Some (Inr sys') \<and> rested sys' \<and> sy_waiter sys' = notify_idle (sy_waiter sys)"
proof -
  have "drain_locked (sy_tree sys) = Inr (Sleeping, sy_tree sys)"
    using assms by (subst drain_locked.simps) (simp add: rested_def)
  then show ?thesis using assms by (simp add: worker_step_def settle_def rested_def)
qed

text \<open>What a blocked caller sees: the notification, or progress of the worker.\<close>

lemma quiet_blocked:
  assumes ok: "system_ok L M sys" and a: "act a sys = Some (Inr sys')" "quiet a" "scan_fits (lt_schema (sy_tree sys)) a"
    and st: "\<not> lt_stop (sy_tree sys)" "sy_phase sys \<noteq> WorkerDone" "sy_waiter sys = Blocked"
  shows "sy_phase sys' \<noteq> WorkerDone \<and>
    (notified_at_rest sys' \<or>
     sy_waiter sys' = Blocked \<and> worker_measure L sys' + (if a = WorkerStep then 1 else 0) \<le> worker_measure L sys)"
proof (cases a)
  case WorkerStep
  then have w: "worker_step sys = Some (Inr sys')" using a(1) by (simp add: act_def)
  then have eff: "worker_effect L sys sys'" using worker_step_ok [OF ok] st(2) by auto
  then show ?thesis using WorkerStep st by (auto simp: worker_effect_def notified_at_rest_def notify_idle_def)
next
  case (OpenScan rng projection order f)
  then show ?thesis using scan_action_ok [OF ok, of projection rng order f] a(1,3) st by auto
next
  case WaitForCompaction
  then show ?thesis using a(1) st by (simp add: act_def)
next
  case WaiterWakes
  then show ?thesis using a(1) st by (simp add: act_def)
qed (use a(2) in simp_all)

lemma quiet_notified:
  assumes ok: "system_ok L M sys" and a: "act a sys = Some (Inr sys')" "quiet a" "scan_fits (lt_schema (sy_tree sys)) a"
    and st: "\<not> lt_stop (sy_tree sys)" "notified_at_rest sys"
  shows "if a = WaiterWakes then sy_waiter sys' = Returned \<and> has_pending_work (sy_tree sys') = Inr False else notified_at_rest sys'"
proof (cases a)
  case WorkerStep
  have "rested sys" using st(2) by (simp add: notified_at_rest_def)
  from rested_worker_step [OF this st(1)] show ?thesis
    using a(1) WorkerStep st(2) by (auto simp: act_def notified_at_rest_def notify_idle_def)
next
  case (OpenScan rng projection order f)
  then show ?thesis using scan_action_ok [OF ok, of projection rng order f] a(1,3) st
    by (auto simp: notified_at_rest_def rested_def)
next
  case WaitForCompaction
  then show ?thesis using a(1) st by (simp add: act_def notified_at_rest_def)
next
  case WaiterWakes
  have r: "rested sys" using st(2) by (simp add: notified_at_rest_def)
  obtain b where "idle_predicate sys = Inr b" "b" using idle_predicate_ok [OF ok] r by metis
  then show ?thesis using a(1) r st(2) WaiterWakes by (auto simp: act_def notified_at_rest_def wait_idle_def rested_def)
qed (use a(2) in simp_all)

text \<open>Schedules in which the worker and the waiter get their turns.\<close>

definition fair_run :: "nat \<Rightarrow> row multiset \<Rightarrow> (nat \<Rightarrow> action) \<Rightarrow> (nat \<Rightarrow> tree_system) \<Rightarrow> bool" where
  "fair_run L M sched S \<longleftrightarrow>
     (\<forall>i. system_ok L M (S i) \<and> \<not> lt_stop (sy_tree (S i)) \<and> act (sched i) (S i) = Some (Inr (S (Suc i))) \<and>
        quiet (sched i) \<and> scan_fits (lt_schema (sy_tree (S i))) (sched i) \<and>
        (\<exists>j \<ge> i. sched j = WorkerStep) \<and> (\<exists>j \<ge> i. sched j = WaiterWakes))"

lemma fair_runD:
  assumes "fair_run L M sched S"
  shows "system_ok L M (S i)" "\<not> lt_stop (sy_tree (S i))" "act (sched i) (S i) = Some (Inr (S (Suc i)))" "quiet (sched i)"
    "scan_fits (lt_schema (sy_tree (S i))) (sched i)" "\<exists>j \<ge> i. sched j = WorkerStep" "\<exists>j \<ge> i. sched j = WaiterWakes"
  using assms by (auto simp: fair_run_def)

lemma notified_returns:
  assumes run: "fair_run L M sched S" and start: "notified_at_rest (S i)"
  shows "\<exists>j > i. sy_waiter (S j) = Returned \<and> has_pending_work (sy_tree (S j)) = Inr False"
proof -
  note f = fair_runD [OF run]
  define j where "j = (LEAST j. i \<le> j \<and> sched j = WaiterWakes)"
  have j: "i \<le> j" "sched j = WaiterWakes" using LeastI_ex [of "\<lambda>j. i \<le> j \<and> sched j = WaiterWakes"] f(7) by (auto simp: j_def)
  have before: "sched n \<noteq> WaiterWakes" if "i \<le> n" "n < j" for n
    using not_less_Least [of n "\<lambda>j. i \<le> j \<and> sched j = WaiterWakes"] that by (auto simp: j_def)
  have "notified_at_rest (S n)" if "i \<le> n" "n \<le> j" for n
    using that
  proof (induction n rule: dec_induct)
    case (step n)
    then have "notified_at_rest (S n)" "sched n \<noteq> WaiterWakes" using before by simp_all
    then show ?case using quiet_notified [OF f(1,3,4,5,2)] by simp
  qed (use start in simp)
  then have "notified_at_rest (S j)" using j(1) by simp
  from quiet_notified [OF f(1,3,4,5,2) this] j show ?thesis by (intro exI [of _ "Suc j"]) simp
qed

lemma blocked_notified:
  assumes run: "fair_run L M sched S" and start: "sy_waiter (S i) = Blocked" "sy_phase (S i) \<noteq> WorkerDone"
  shows "\<exists>j > i. notified_at_rest (S j)"
  using start
proof (induction "worker_measure L (S i)" arbitrary: i rule: less_induct)
  case less
  note f = fair_runD [OF run]
  obtain j where j: "i \<le> j" "sched j = WorkerStep" using f(6) by blast
  show ?case
  proof (rule ccontr)
    assume none: "\<not> (\<exists>j > i. notified_at_rest (S j))"
    have next_state: "sy_waiter (S (Suc n)) = Blocked \<and> sy_phase (S (Suc n)) \<noteq> WorkerDone \<and>
        worker_measure L (S (Suc n)) + (if sched n = WorkerStep then 1 else 0) \<le> worker_measure L (S n)"
      if "i \<le> n" "sy_waiter (S n) = Blocked" "sy_phase (S n) \<noteq> WorkerDone" for n
      using quiet_blocked [OF f(1,3,4,5,2) that(3,2)] none that(1) by auto
    have "sy_waiter (S n) = Blocked \<and> sy_phase (S n) \<noteq> WorkerDone \<and> worker_measure L (S n) \<le> worker_measure L (S i)" if "i \<le> n" for n
      using that
    proof (induction n rule: dec_induct)
      case (step n)
      then show ?case using next_state [of n] by auto
    qed (use less.prems in simp)
    from this [OF j(1)] next_state [OF j(1)] j(2)
    have "sy_waiter (S (Suc j)) = Blocked" "sy_phase (S (Suc j)) \<noteq> WorkerDone" "worker_measure L (S (Suc j)) < worker_measure L (S i)" by auto
    from less.hyps [OF this(3,1,2)] none j(1) show False by (meson Suc_lessD le_less_trans less_trans)
  qed
qed

lemma waiter_returns:
  assumes run: "fair_run L M sched S" and start: "sy_waiter (S i) = Blocked" "sy_phase (S i) \<noteq> WorkerDone"
  shows "\<exists>j > i. sy_waiter (S j) = Returned \<and> has_pending_work (sy_tree (S j)) = Inr False"
  using blocked_notified [OF assms] notified_returns [OF run] by (meson less_trans)

text \<open>Before the call.\<close>

lemma act_before_call:
  assumes ok: "system_ok L M sys" and a: "act a sys = Some (Inr sys')" "a \<noteq> WaitForCompaction"
    and st: "\<not> lt_stop (sy_tree sys)" "sy_phase sys \<noteq> WorkerDone" "sy_waiter sys = NotWaiting"
  shows "sy_phase sys' \<noteq> WorkerDone" "sy_waiter sys' = NotWaiting"
proof -
  have "sy_phase sys' \<noteq> WorkerDone \<and> sy_waiter sys' = NotWaiting"
  proof (cases a)
    case WorkerStep
    then have "worker_effect L sys sys'" using worker_step_ok [OF ok] a(1) st(2) by (auto simp: act_def)
    then show ?thesis using st by (auto simp: worker_effect_def notify_idle_def)
  qed (use a st in \<open>auto simp: act_def request_stop_def obind_eq_Some split: prod.splits sum.splits\<close>)
  then show "sy_phase sys' \<noteq> WorkerDone" "sy_waiter sys' = NotWaiting" by simp_all
qed

lemma run_actions_append: "run_actions (as @ bs) sys = obind (run_actions as sys) (run_actions bs)"
proof (induction as arbitrary: sys)
  case (Cons a as)
  then show ?case by (cases "act a sys"; cases "the (act a sys)") auto
qed simp

lemma wait_idle_call:
  assumes ok: "system_ok L M sys" and a: "act WaitForCompaction sys = Some (Inr sys')" and st: "sy_waiter sys = NotWaiting" "\<not> lt_stop (sy_tree sys)"
  shows "sy_phase sys' = sy_phase sys" "sy_waiter sys' = Blocked \<or> sy_waiter sys' = Returned \<and> has_pending_work (sy_tree sys') = Inr False"
proof -
  obtain b where b: "idle_predicate sys = Inr b" "b \<Longrightarrow> has_pending_work (sy_tree sys) = Inr False"
    using idle_predicate_ok [OF ok] st(2) by metis
  have "sys' = sys\<lparr>sy_waiter := (if b then Returned else Blocked)\<rparr>" using a st(1) b(1) by (simp add: act_def wait_idle_def)
  then show "sy_phase sys' = sy_phase sys" "sy_waiter sys' = Blocked \<or> sy_waiter sys' = Returned \<and> has_pending_work (sy_tree sys') = Inr False"
    using b(2) by auto
qed

section \<open>Two threads in the synchronous mode\<close>

text \<open>Without a worker every inserting thread drains. While one thread writes a memtable without the mutex, another
  takes the same memtable, and each of them drops the front of the queue when it is done: the memtable behind it is lost.\<close>

lemma flush_end_pops:
  assumes "flush_end info t = Inr t'"
  shows "ml_immutables (lt_memory t') = tl (ml_immutables (lt_memory t))"
  using assms by (auto simp: flush_end_def rbind_eq_Inr save_manifest_def pop_front_immutable_def)

lemma flushes_of_two_threads:
  assumes "ml_immutables (lt_memory t) = imm # imm' # imms" "imm \<noteq> []"
  shows "\<exists>t1 t2. flush_begin t = (FlushJob imm (lt_next_id t), t1) \<and> flush_begin t1 = (FlushJob imm (lt_next_id t + 1), t2) \<and>
    lt_memory t2 = lt_memory t \<and>
    (\<forall>t2' info t3 info' t4. lt_memory t2' = lt_memory t2 \<longrightarrow> flush_end info t2' = Inr t3 \<longrightarrow> flush_end info' t3 = Inr t4 \<longrightarrow>
       ml_immutables (lt_memory t4) = imms)"
  using assms by (auto simp: flush_begin_def front_immutable_def dest!: flush_end_pops)

section \<open>From a new tree\<close>

lemma new_system:
  assumes "LSMTree s config d None = Inr t" "config_accepted config" "cfg_is_compaction_background config"
    and "schema_wf s" "schema_size s < 2 ^ 16" "capacity L config []"
  shows "system_ok L {#} (background_system t)" "lt_schema t = s" "lt_config t = config" "\<not> lt_stop t"
proof -
  obtain t' where t': "LSMTree s config d None = Inr t'" "tree_inv (\<lambda>_. []) t'" "tree_rows (\<lambda>_. []) t' = []" "levels_below L t'"
      "unat (lt_next_id t') + tree_work L t' = 0" "\<not> lt_stop t'" "lt_schema t' = s" "lt_config t' = config"
    by (rule new_tree [OF assms(2,4,5)])
  have t: "t' = t" using t'(1) assms(1) by simp
  have "tree_good L (\<lambda>_. []) t" using t' assms(6) by (simp add: t tree_good_def)
  moreover have "phase_ok L R t Sleeping" for R by simp
  ultimately show "system_ok L {#} (background_system t)"
    unfolding system_ok_def background_system_def using t'(3,5,8) assms(3) by (auto simp: t in_flight_def intro!: exI [of _ "\<lambda>_. []"])
  show "lt_schema t = s" "lt_config t = config" "\<not> lt_stop t" using t' by (simp_all add: t)
qed

text \<open>What a schedule may insert in all.\<close>

definition inserts_fit :: "nat \<Rightarrow> storage_config \<Rightarrow> schema \<Rightarrow> action list \<Rightarrow> bool" where
  "inserts_fit L config s as \<longleftrightarrow>
     rows_fit s (inserted as) \<and> capacity L config (inserted as) \<and> (L + 2) * length (inserted as) < 2 ^ 64 \<and> list_all (scan_fits s) as"

lemma new_system_actions:
  assumes new: "LSMTree s config d None = Inr t" "config_accepted config" "cfg_is_compaction_background config"
      "schema_wf s" "schema_size s < 2 ^ 16"
    and fit: "inserts_fit L config s as"
  shows "\<exists>sys. run_actions as (background_system t) = Some (Inr sys) \<and> system_ok L (mset (inserted as)) sys \<and>
    lt_schema (sy_tree sys) = s \<and> (RequestStop \<notin> set as \<longrightarrow> \<not> lt_stop (sy_tree sys))"
proof -
  have "capacity L config []" using fit capacity_part [of L config "inserted as" "[]"] by (simp add: inserts_fit_def)
  note n = new_system [OF new this]
  have "sy_tree (background_system t) = t" by (simp add: background_system_def)
  with actions_ok [OF n(1), of as "inserted as"] n(2-4) fit show ?thesis by (auto simp: inserts_fit_def list_all_iff)
qed

lemma before_call:
  assumes new: "LSMTree s config d None = Inr t" "config_accepted config" "cfg_is_compaction_background config"
      "schema_wf s" "schema_size s < 2 ^ 16"
    and "\<And>n. n \<le> length as \<Longrightarrow> inserts_fit L config s (take n as)" "WaitForCompaction \<notin> set as" "RequestStop \<notin> set as"
    and "run_actions as (background_system t) = Some (Inr sys)"
  shows "sy_phase sys \<noteq> WorkerDone \<and> sy_waiter sys = NotWaiting"
  using assms(6-)
proof (induction as arbitrary: sys rule: rev_induct)
  case Nil
  then show ?case by (auto simp: background_system_def)
next
  case (snoc a as)
  have "inserts_fit L config s as" using snoc.prems(1) [of "length as"] by simp
  from new_system_actions [OF new this] obtain sys1 where s1: "run_actions as (background_system t) = Some (Inr sys1)"
      "system_ok L (mset (inserted as)) sys1" "\<not> lt_stop (sy_tree sys1)"
    using snoc.prems(3) by auto
  have "inserts_fit L config s (take n as)" if "n \<le> length as" for n using snoc.prems(1) [of n] that by simp
  from snoc.IH [OF this _ _ s1(1)] snoc.prems(2,3) have "sy_phase sys1 \<noteq> WorkerDone" "sy_waiter sys1 = NotWaiting" by auto
  moreover have "act a sys1 = Some (Inr sys)" using snoc.prems(4) s1(1) by (simp add: run_actions_append obind_eq_Some)
  ultimately show ?case using act_before_call [OF s1(2)] s1(3) snoc.prems(2) by auto
qed

lemma inserts_fit_prefix:
  assumes "inserts_fit L config s (as @ bs)"
  shows "inserts_fit L config s as"
proof -
  have ins: "inserted (as @ bs) = inserted as @ inserted bs" by (simp add: inserted_def)
  have "mset (inserted as) \<subseteq># mset (inserted (as @ bs))" by (simp add: ins)
  then have "rows_fit s (inserted as)" using assms rows_fit_sub unfolding inserts_fit_def by blast
  moreover have "mset (inserted (as @ bs)) = mset (inserted bs @ inserted as)" by (simp add: ins)
  then have "capacity L config (inserted as)" using assms capacity_mset capacity_part unfolding inserts_fit_def by metis
  moreover have "(L + 2) * length (inserted as) \<le> (L + 2) * length (inserted (as @ bs))" by (rule mult_le_mono2) (simp add: ins)
  then have "(L + 2) * length (inserted as) < 2 ^ 64" using assms by (simp add: inserts_fit_def)
  ultimately show ?thesis using assms by (simp add: inserts_fit_def)
qed

lemma inserted_quiet: "\<forall>a \<in> set as. quiet a \<Longrightarrow> inserted as = []"
proof -
  have "(case a of Insert r \<Rightarrow> [r] | _ \<Rightarrow> []) = []" if "quiet a" for a using that by (cases a) auto
  then show "\<forall>a \<in> set as. quiet a \<Longrightarrow> inserted as = []" by (induction as) (auto simp: inserted_def)
qed

text \<open>C7: While clients insert rows with pairwise different keys that the configuration can hold and open scans, the
  background worker flushes and compacts, a caller waits for it and the stop request may come, in any order, no thread meets an
  exception, and after any such sequence (so at every point of a longer one) a scan of a range that is opened and read to its end
  before the next action returns exactly the rows inserted so far that lie in it, in key order. A cursor that is read on while rows
  are inserted is outside this statement: opening it is one of the interleaved actions, reading it later is not.\<close>

theorem background_tree_keeps_rows:
  assumes "LSMTree s config d None = Inr t" "config_accepted config" "cfg_is_compaction_background config"
    and "schema_wf s" "schema_size s < 2 ^ 16" "inserts_fit L config s as" "projection_ok s projection" "range_ok rng"
  shows "\<exists>sys t'. run_actions as (background_system t) = Some (Inr sys) \<and>
    scan_tree rng projection KeyAscending [] (sy_tree sys) =
      (Some (Inr (map (row_cells projection) (sort_key rkey (in_rng rng (inserted as))))), t')"
proof -
  obtain sys where sys: "run_actions as (background_system t) = Some (Inr sys)" "system_ok L (mset (inserted as)) sys" "lt_schema (sy_tree sys) = s"
    using new_system_actions [OF assms(1-6)] by blast
  then obtain R where R: "tree_inv R (sy_tree sys)" "mset (tree_rows R (sy_tree sys)) = mset (inserted as)"
    by (auto simp: system_ok_def tree_good_def)
  from scan_exact [OF R(1) _ assms(8) R(2), of projection KeyAscending] sys(1,3) assms(7) show ?thesis by auto
qed

lemma schedule_run:
  assumes "LSMTree s config d None = Inr t" "config_accepted config" "cfg_is_compaction_background config"
    and "schema_wf s" "schema_size s < 2 ^ 16" "inserts_fit L config s (map sched [0..<k])"
    and "\<forall>i. scan_fits s (sched i)" "\<forall>i. sched i \<noteq> RequestStop" "\<forall>i \<ge> k. quiet (sched i)"
    and "sched k = WaitForCompaction" "\<forall>i < k. sched i \<noteq> WaitForCompaction"
    and "\<forall>i. \<exists>j \<ge> i. sched j = WorkerStep" "\<forall>i. \<exists>j \<ge> i. sched j = WaiterWakes"
  obtains S where "\<forall>n. run_actions (map sched [0..<k + n]) (background_system t) = Some (Inr (S n))"
    "fair_run L (mset (inserted (map sched [0..<k]))) (\<lambda>i. sched (k + i)) S" "sy_phase (S 0) \<noteq> WorkerDone" "sy_waiter (S 0) = NotWaiting"
proof -
  note new = assms(1-5)
  let ?as = "\<lambda>n. map sched [0..<n]" and ?M = "mset (inserted (map sched [0..<k]))"
  have split: "?as (k + n) = ?as k @ map sched [k..<k + n]" for n 
    unfolding upt_add_eq_append [OF le0] by simp
  have "inserted (map sched [k..<k + n]) = []" for n using assms(9) by (intro inserted_quiet) simp
  then have ins: "inserted (?as (k + n)) = inserted (?as k)" for n unfolding split by (simp add: inserted_def)
  have fit: "inserts_fit L config s (?as (k + n))" for n
    using assms(6,7) unfolding inserts_fit_def ins by (simp add: list_all_iff)
  have "\<exists>sys. run_actions (?as (k + n)) (background_system t) = Some (Inr sys) \<and> system_ok L ?M sys \<and>
      lt_schema (sy_tree sys) = s \<and> \<not> lt_stop (sy_tree sys)" for n
  proof -
    have "RequestStop \<notin> set (?as (k + n))" using assms(8) by (auto dest: sym)
    then show ?thesis using new_system_actions [OF new fit, of n] unfolding ins by blast
  qed
  then obtain S where S: "\<And>n. run_actions (?as (k + n)) (background_system t) = Some (Inr (S n))" "\<And>n. system_ok L ?M (S n)"
      "\<And>n. lt_schema (sy_tree (S n)) = s" "\<And>n. \<not> lt_stop (sy_tree (S n))" by metis
  have step: "act (sched (k + n)) (S n) = Some (Inr (S (Suc n)))" for n
  proof -
    have "?as (k + Suc n) = ?as (k + n) @ [sched (k + n)]" by simp
    from S(1) [of "Suc n", unfolded this run_actions_append S(1) obind_simps] show ?thesis by (simp add: obind_eq_Some)
  qed
  have turn: "\<exists>j \<ge> i. sched (k + j) = a" if "\<forall>i. \<exists>j \<ge> i. sched j = a" for i a
  proof -
    from spec [OF that, of "k + i"] obtain j where "k + i \<le> j" "sched j = a" by blast
    then show ?thesis by (intro exI [of _ "j - k"]) simp
  qed
  have fair: "fair_run L ?M (\<lambda>i. sched (k + i)) S"
    unfolding fair_run_def using S step assms(7,9) turn [OF assms(12)] turn [OF assms(13)] by simp
  have prefix: "inserts_fit L config s (take n (?as k))" for n
    using inserts_fit_prefix [of L config s "take n (?as k)" "drop n (?as k)"] assms(6) by simp
  have "run_actions (?as k) (background_system t) = Some (Inr (S 0))" using S(1) [of 0] by simp
  moreover have "WaitForCompaction \<notin> set (?as k)" "RequestStop \<notin> set (?as k)" 
    using assms(8,11) by (simp_all add: image_iff eq_commute [of _ "sched _"])
  ultimately have first: "sy_phase (S 0) \<noteq> WorkerDone" "sy_waiter (S 0) = NotWaiting"
    using before_call [OF new prefix] by blast+
  show thesis by (rule that [OF _ fair first]) (simp add: S(1))
qed

text \<open>C6: A call of wait_for_compaction returns: in every schedule without a stop request, with one call, before which
  rows with pairwise different keys that the configuration can hold were inserted and after which none is, and in which both the
  worker and the waiting caller keep getting their turns, the caller is notified, and when it returns no flush or compaction is
  pending.\<close>

theorem wait_for_compaction_returns:
  assumes "LSMTree s config d None = Inr t" "config_accepted config" "cfg_is_compaction_background config"
    and "schema_wf s" "schema_size s < 2 ^ 16" "inserts_fit L config s (map sched [0..<k])"
    and "\<forall>i. scan_fits s (sched i)" "\<forall>i. sched i \<noteq> RequestStop" "\<forall>i \<ge> k. quiet (sched i)"
    and "sched k = WaitForCompaction" "\<forall>i < k. sched i \<noteq> WaitForCompaction"
    and "\<forall>i. \<exists>j \<ge> i. sched j = WorkerStep" "\<forall>i. \<exists>j \<ge> i. sched j = WaiterWakes"
  shows "\<exists>j > k. \<exists>sys. run_actions (map sched [0..<j]) (background_system t) = Some (Inr sys) \<and>
    sy_waiter sys = Returned \<and> has_pending_work (sy_tree sys) = Inr False"
proof -
  obtain S where run: "\<forall>n. run_actions (map sched [0..<k + n]) (background_system t) = Some (Inr (S n))"
      and fair: "fair_run L (mset (inserted (map sched [0..<k]))) (\<lambda>i. sched (k + i)) S"
      and first: "sy_phase (S 0) \<noteq> WorkerDone" "sy_waiter (S 0) = NotWaiting"
    by (rule schedule_run [OF assms]) blast
  have "act WaitForCompaction (S 0) = Some (Inr (S 1))" using fair_runD(3) [OF fair, of 0] assms(10) by simp
  note call = wait_idle_call [OF fair_runD(1) [OF fair] this first(2) fair_runD(2) [OF fair]]
  have "\<exists>j > 0. sy_waiter (S j) = Returned \<and> has_pending_work (sy_tree (S j)) = Inr False"
  proof (cases "sy_waiter (S 1) = Blocked")
    case True
    obtain j where "1 < j" "sy_waiter (S j) = Returned" "has_pending_work (sy_tree (S j)) = Inr False"
      using waiter_returns [OF fair True] call(1) first(1) by auto
    then show ?thesis by (intro exI [of _ j]) simp
  next
    case False
    then show ?thesis using call(2) by (intro exI [of _ 1]) simp
  qed
  then obtain j where "j > 0" "sy_waiter (S j) = Returned" "has_pending_work (sy_tree (S j)) = Inr False" by blast
  then show ?thesis using spec [OF run, of j] by (intro exI [of _ "k + j"]) auto
qed

text \<open>A schedule of three inserts and a call.\<close>

definition background_config :: storage_config where
  "background_config = sample_config\<lparr>cfg_is_compaction_background := True\<rparr>"

lemma background_config_ok:
  "config_accepted background_config" "cfg_is_compaction_background background_config"
  "capacity L background_config rows = capacity L sample_config rows"
  using sample_config_accepted
  by (simp_all add: background_config_def config_accepted_def config_ok_def capacity_def level_threshold_def)

lemma background_tree:
  obtains t where "LSMTree sample_schema background_config (\<lambda>_. None) None = Inr t"
  by (rule new_tree [OF background_config_ok(1) sample_schema_wf sample_schema_small]) blast

lemma sample_inserts_fit:
  assumes "inserted as = [sample_row (I64 5), sample_row (I64 1), sample_row (I64 3)]" "list_all (scan_fits sample_schema) as"
  shows "inserts_fit 2 background_config sample_schema as"
  using assms sample_tree_rows_fit sample_capacity by (simp add: inserts_fit_def background_config_ok)

lemma background_tree_keeps_rows_witness:
  "\<exists>t sys t'. LSMTree sample_schema background_config (\<lambda>_. None) None = Inr t \<and>
     run_actions [Insert (sample_row (I64 5)), Insert (sample_row (I64 1)), WorkerStep, Insert (sample_row (I64 3)), RequestStop, WorkerStep]
       (background_system t) = Some (Inr sys) \<and>
     scan_tree \<lparr>kr_from = Some (I64 2), kr_to = None\<rparr> [0] KeyAscending [] (sy_tree sys) =
       (Some (Inr [(I64 3, [Some (VInt (I64 3))]), (I64 5, [Some (VInt (I64 5))])]), t')"
proof -
  let ?rng = "\<lparr>kr_from = Some (I64 2), kr_to = None\<rparr>"
  let ?as = "[Insert (sample_row (I64 5)), Insert (sample_row (I64 1)), WorkerStep, Insert (sample_row (I64 3)), RequestStop, WorkerStep]"
  have ins: "inserted ?as = [sample_row (I64 5), sample_row (I64 1), sample_row (I64 3)]" by (simp add: inserted_def)
  have fit: "inserts_fit 2 background_config sample_schema ?as" by (rule sample_inserts_fit) (simp_all add: inserted_def)
  have p: "projection_ok sample_schema [0]" "range_ok ?rng"
    using schema_wf_size [OF sample_schema_wf] by (simp_all add: projection_ok_def range_ok_def)
  obtain t where t: "LSMTree sample_schema background_config (\<lambda>_. None) None = Inr t" by (rule background_tree)
  from background_tree_keeps_rows [OF t background_config_ok(1,2) sample_schema_wf sample_schema_small fit p] obtain sys t' where
    "run_actions ?as (background_system t) = Some (Inr sys)"
    "scan_tree ?rng [0] KeyAscending [] (sy_tree sys) = (Some (Inr (map (row_cells [0]) (sort_key rkey (in_rng ?rng (inserted ?as))))), t')"
    by blast
  moreover have "map (row_cells [0]) (sort_key rkey (in_rng ?rng (inserted ?as))) = [(I64 3, [Some (VInt (I64 3))]), (I64 5, [Some (VInt (I64 5))])]"
    unfolding ins by (simp add: in_rng_def contains_def less_i64_def less_eq_i64_def i64_val_def row_cells_def sample_row_def)
  ultimately show ?thesis using t by metis
qed

definition sample_schedule :: "nat \<Rightarrow> action" where
  "sample_schedule i =
     (if i = 0 then Insert (sample_row (I64 5)) else if i = 1 then Insert (sample_row (I64 1)) else if i = 2 then Insert (sample_row (I64 3))
      else if i = 3 then WaitForCompaction else if even i then WorkerStep else WaiterWakes)"

lemma wait_for_compaction_returns_witness:
  "\<exists>t j sys. LSMTree sample_schema background_config (\<lambda>_. None) None = Inr t \<and> j > 3 \<and>
     run_actions (map sample_schedule [0..<j]) (background_system t) = Some (Inr sys) \<and>
     sy_waiter sys = Returned \<and> has_pending_work (sy_tree sys) = Inr False"
proof -
  obtain t where t: "LSMTree sample_schema background_config (\<lambda>_. None) None = Inr t" by (rule background_tree)
  have "inserted (map sample_schedule [0..<3]) = [sample_row (I64 5), sample_row (I64 1), sample_row (I64 3)]"
    by (simp add: inserted_def sample_schedule_def upt_rec)
  moreover have "list_all (scan_fits sample_schema) (map sample_schedule [0..<3])" by (simp add: sample_schedule_def upt_rec)
  ultimately have fit: "inserts_fit 2 background_config sample_schema (map sample_schedule [0..<3])" by (rule sample_inserts_fit)
  have sched: "\<forall>i. scan_fits sample_schema (sample_schedule i)" "\<forall>i. sample_schedule i \<noteq> RequestStop"
      "\<forall>i \<ge> 3. quiet (sample_schedule i)" "sample_schedule 3 = WaitForCompaction" "\<forall>i < 3. sample_schedule i \<noteq> WaitForCompaction"
    by (auto simp: sample_schedule_def)
  have "\<exists>j \<ge> i. sample_schedule j = WorkerStep" for i by (rule exI [of _ "2 * i + 4"]) (simp add: sample_schedule_def)
  moreover have "\<exists>j \<ge> i. sample_schedule j = WaiterWakes" for i by (rule exI [of _ "2 * i + 5"]) (simp add: sample_schedule_def)
  ultimately show ?thesis
    using wait_for_compaction_returns [OF t background_config_ok(1,2) sample_schema_wf sample_schema_small fit sched] t by blast
qed

end
