(* ===== verification/Engine_Wait.thy ===== *)
theory Engine_Wait
  imports Lsm_Engine Tree_Worker
begin

text \<open>
  \<open>wait_for_compaction\<close> of a tree and of the LSM engine. In the background mode the caller and the worker
  take turns while the engine is otherwise idle; in the synchronous mode the caller drains itself.
\<close>

partial_function (option) await :: "tree_system \<Rightarrow> tree_system res option" where
  [code]: "await sys =
     (if sy_waiter sys = Returned then Some (Inr sys)
      else obind (worker_step sys) (\<lambda>sys. obind (act WaiterWakes sys) await))"

definition lt_wait_for_compaction :: "lsm_tree \<Rightarrow> lsm_tree res option" where
  "lt_wait_for_compaction t =
     (if \<not> cfg_is_compaction_background (lt_config t) then drain_work t
      else obind (act WaitForCompaction (background_system t)) (\<lambda>sys. obind (await sys) (\<lambda>sys. Some (Inr (sy_tree sys)))))"

definition lsm_wait_for_compaction :: "string \<Rightarrow> lsm_engine \<Rightarrow> lsm_engine res option" where
  "lsm_wait_for_compaction name st =
     obind (Some (lsm_get_tree name st)) (\<lambda>t. obind (lt_wait_for_compaction t) (\<lambda>t. Some (Inr (lsm_put_tree name t st))))"

lemma returned_await: "sy_waiter sys = Returned \<Longrightarrow> await sys = Some (Inr sys)"
  by (subst await.simps) simp

lemma blocked_await:
  assumes "system_ok L M sys" "\<not> lt_stop (sy_tree sys)" "sy_phase sys \<noteq> WorkerDone" "sy_waiter sys = Blocked"
  shows "\<exists>sys'. await sys = Some (Inr sys') \<and> system_ok L M sys' \<and> rested sys' \<and> \<not> lt_stop (sy_tree sys') \<and>
    lt_schema (sy_tree sys') = lt_schema (sy_tree sys) \<and> lt_config (sy_tree sys') = lt_config (sy_tree sys)"
  using assms
proof (induction "worker_measure L sys" arbitrary: sys rule: less_induct)
  case less
  obtain s1 where s1: "worker_step sys = Some (Inr s1)" "system_ok L M s1" "worker_effect L sys s1"
    using worker_step_ok [OF less.prems(1)] less.prems(3) by blast
  have step: "await sys = obind (act WaiterWakes s1) await"
    using s1(1) less.prems(4) by (subst await.simps) simp
  have same: "\<not> lt_stop (sy_tree s1)" "lt_schema (sy_tree s1) = lt_schema (sy_tree sys)"
      "lt_config (sy_tree s1) = lt_config (sy_tree sys)" "sy_phase s1 \<noteq> WorkerDone"
    using s1(3) less.prems(2) by (simp_all add: worker_effect_def)
  consider "rested s1" "sy_waiter s1 = Notified" | "worker_measure L s1 < worker_measure L sys" "sy_waiter s1 = Blocked"
    using s1(3) less.prems(2,4) by (auto simp: worker_effect_def notify_idle_def)
  then show ?case
  proof cases
    case 1
    obtain b where "idle_predicate s1 = Inr b" "b" using idle_predicate_ok [OF s1(2)] 1(1) by metis
    then have "act WaiterWakes s1 = Some (Inr (s1\<lparr>sy_waiter := Returned\<rparr>))"
      using 1(2) by (simp add: act_def wait_idle_def)
    then have "await sys = Some (Inr (s1\<lparr>sy_waiter := Returned\<rparr>))" using step by (simp add: returned_await)
    then show ?thesis using 1(1) s1(2) same by (simp add: waiter_update rested_def)
  next
    case 2
    have "act WaiterWakes s1 = Some (Inr s1)" using 2(2) by (simp add: act_def)
    then have "await sys = await s1" using step by simp
    then show ?thesis using less.hyps [OF 2(1) s1(2) same(1,4) 2(2)] same by simp
  qed
qed

lemma tree_waits:
  assumes t: "tree_holds config L t M" and fit: "(L + 2) * size M < 2 ^ 64"
  shows "\<exists>t'. lt_wait_for_compaction t = Some (Inr t') \<and> tree_holds config L t' M \<and> lt_schema t' = lt_schema t \<and>
    has_pending_work t' = Inr False"
proof -
  obtain R path where R: "tree_good L R t" "mset (tree_rows R t) = M" and path: "lt_config t = config\<lparr>cfg_root_path := path\<rparr>"
    using t by (auto simp: tree_holds_def)
  have work: "unat (lt_next_id t) + tree_work L t \<le> (L + 2) * size M" and stop: "\<not> lt_stop t"
    using t by (simp_all add: tree_holds_def)
  show ?thesis
  proof (cases "cfg_is_compaction_background (lt_config t)")
    case False
    have "unat (lt_next_id t) + tree_work L t < 2 ^ 64" using work fit by linarith
    from drain_work_good [OF R(1) stop this] obtain t' R' where t':
      "drain_work t = Some (Inr t')" "tree_good L R' t'" "same_tree R t R' t'" "has_pending_work t' = Inr False"
      "unat (lt_next_id t') + tree_work L t' \<le> unat (lt_next_id t) + tree_work L t" by blast
    have "tree_holds config L t' M"
      using t'(2,3,5) R(2) path work stop unfolding tree_holds_def same_tree_def by fastforce
    then show ?thesis using t'(1,3,4) False by (simp add: lt_wait_for_compaction_def same_tree_def)
  next
    case True
    let ?s = "background_system t"
    have ok: "system_ok L M ?s"
      using R work fit True by (auto simp: system_ok_def background_system_def in_flight_def intro!: exI [of _ R])
    have s: "sy_tree ?s = t" "sy_phase ?s = Sleeping" "sy_waiter ?s = NotWaiting" "\<not> sy_busy ?s" by (simp_all add: background_system_def)
    obtain p where p: "has_pending_work t = Inr p" using pending_iff R(1) by (auto simp: tree_good_def)
    define s0 where "s0 = ?s\<lparr>sy_waiter := (if p then Blocked else Returned)\<rparr>"
    have call: "act WaitForCompaction ?s = Some (Inr s0)"
      using p stop by (simp add: act_def wait_idle_def idle_predicate_def s s0_def)
    have ok0: "system_ok L M s0" "sy_tree s0 = t" "sy_phase s0 = Sleeping" using ok by (simp_all add: s0_def waiter_update s)
    have "\<exists>s1. await s0 = Some (Inr s1) \<and> system_ok L M s1 \<and> rested s1 \<and> \<not> lt_stop (sy_tree s1) \<and>
      lt_schema (sy_tree s1) = lt_schema t \<and> lt_config (sy_tree s1) = lt_config t"
    proof (cases p)
      case True
      then show ?thesis using blocked_await [OF ok0(1)] ok0(2,3) stop by (simp add: s0_def)
    next
      case False
      then show ?thesis using ok0 p stop by (simp add: returned_await rested_def s0_def)
    qed
    then obtain s1 where s1: "await s0 = Some (Inr s1)" "system_ok L M s1" "rested s1" "\<not> lt_stop (sy_tree s1)"
      "lt_schema (sy_tree s1) = lt_schema t" "lt_config (sy_tree s1) = lt_config t" by blast
    have "tree_holds config L (sy_tree s1) M"
      using s1(2-4,6) path by (auto simp: system_ok_def tree_holds_def rested_def in_flight_def)
    then show ?thesis using True call s1 by (simp add: lt_wait_for_compaction_def rested_def)
  qed
qed

text \<open>The engine: every table keeps its rows, and the one that was waited for has nothing left to do.\<close>

lemma engine_waits:
  assumes "lsm_holds config L st T" "T name = Some (s, M)" "(L + 2) * size M < 2 ^ 64"
  shows "\<exists>st' t. lsm_wait_for_compaction name st = Some (Inr st') \<and> lsm_holds config L st' T \<and>
    le_tables st' name = Some t \<and> has_pending_work t = Inr False"
proof -
  obtain t where t: "le_tables st name = Some t" "lt_schema t = s" "tree_holds config L t M"
    by (rule lsm_holds_table [OF assms(1,2)])
  obtain t' where t': "lt_wait_for_compaction t = Some (Inr t')" "tree_holds config L t' M" "lt_schema t' = lt_schema t"
      "has_pending_work t' = Inr False"
    using tree_waits [OF t(3) assms(3)] by blast
  have "lsm_holds config L (lsm_put_tree name t' st) (T(name \<mapsto> (s, M)))"
    by (rule lsm_holds_put [OF assms(1) t'(2)]) (simp add: t' t)
  then have "lsm_holds config L (lsm_put_tree name t' st) T" using assms(2) by (simp add: fun_upd_idem)
  moreover have "lsm_wait_for_compaction name st = Some (Inr (lsm_put_tree name t' st))"
    using t(1) t'(1) by (simp add: lsm_wait_for_compaction_def lsm_get_tree_def)
  ultimately show ?thesis using t'(4) by (auto simp: lsm_put_tree_def)
qed

lemma unknown_table_wait:
  "le_tables st name = None \<Longrightarrow> lsm_wait_for_compaction name st = Some (Inl (RuntimeError ''Table does not exist''))"
  by (simp add: lsm_wait_for_compaction_def lsm_get_tree_def)

end
