(* ===== verification/Spec2Isabelle.thy ===== *)
theory Spec2Isabelle
  imports Sql_Script Engine_Wait
begin

text \<open>
  A verification library for \<open>htap-storage-lsm-tree\<close>, an embedded table store with an LSM tree of
  row and column SSTables and a SQL front end (C++). The theories follow the code bottom up; the files
  they model are given under \<open>src/\<close>.

  \<^bold>\<open>The program.\<close> A table has a \<open>Schema\<close> whose first column is an INT64 key. Rows are inserted into
  a memtable, frozen, and flushed into level 0 of the LSM tree as row SSTables; compaction merges
  SSTables into deeper levels, from some level on in column layout. Flushing and compaction are done by
  the inserting thread or by a background worker. An SSTable is a directory of five files: data blocks,
  block metadata, a sparse index, general information, and block statistics of the numeric columns. A
  scan opens one cursor per memtable and SSTable; the cursor factory uses the sparse index, the key bounds
  of the blocks and the statistics to discard blocks, and the cursors are chained or merged by key. Blocks
  and metadata pages are kept in LRU caches with a byte budget. Above the storage engine, a statement is
  read by the lexer and the parser, bound to the schema of its table by the binder, and run by the
  executor, which turns WHERE into key bounds and a data skipping filter, reads a cursor of the engine,
  and evaluates, groups, aggregates, sorts and cuts. A second engine, in memory, serves the tests.

  \<^bold>\<open>Storage.\<close>
    \<^item> \<open>Prelude\<close>, \<open>Double\<close>: errors as values, loops that may throw, \<open>int64_t\<close>, bytes, IEEE doubles by
      their 64 bits (comparisons, minimum, conversion from integers).
    \<^item> \<open>Types\<close>: values, rows, \<open>Schema\<close>, \<open>SchemaBuilder\<close>, key ranges. \<open>Codec\<close>: \<open>BinaryWriter\<close> and the
      value encodings with their readers.
    \<^item> \<open>Stats\<close>: block statistics and the data skipping filter. \<open>Pruning\<close>: a discarded block holds no
      row the filter accepts.
    \<^item> \<open>Row_Block\<close>, \<open>Col_Block\<close>: the block builders and decoders. \<open>Sparse_Index\<close>: the choice of the
      index step and the selection of blocks.
    \<^item> \<open>Sst_Reader\<close>, \<open>Sst_Stats\<close>: \<open>SSTableReader\<close>. \<open>Row_Table\<close>, \<open>Col_Table\<close>: the SSTable builders.
    \<^item> \<open>Cursor\<close>, \<open>Cursor_Laws\<close>: the cursor contract as the locale \<open>icursor\<close>, and the memtable, chain,
      merge and composed cursors as its models. \<open>Row_Cursor\<close>, \<open>Col_Cursor\<close>: the SSTable cursors.
    \<^item> \<open>Block_Cache\<close>, \<open>Meta_Cache\<close>: the two caches. \<open>Sst_Cursor\<close>: the cursor factory. \<open>Table_Size\<close>: how
      large the files get. \<open>Sst_Scan\<close>: writing a table and scanning it.
    \<^item> \<open>Mem_Layer\<close>: memtables. \<open>Registry\<close>, \<open>Manifest\<close>: the tables of each level and their file.
      \<open>Stored_Table\<close>: what it means that a table is stored. \<open>Compaction\<close>: the policy and the job.
    \<^item> \<open>Lsm_Tree\<close>: the state and the operations of \<open>lsmtree/lsmtree.cpp\<close>; flush and compaction are three
      definitions each, cut where the mutex is released. \<open>Tree_Inv\<close>: the invariant, kept by every piece
      of an operation. \<open>Tree_Work\<close>: whole steps and draining. \<open>Tree_Scan\<close>: scans. \<open>Tree_Spec\<close>: the tree as
      an ordered store. \<open>Tree_Worker\<close>: the background worker, the clients, the caller of
      \<open>wait_for_compaction\<close> and the stop request as threads that take turns.

  \<^bold>\<open>Queries.\<close>
    \<^item> \<open>Text_Num\<close>: numbers and their texts. \<open>Lexer\<close>, \<open>Parser\<close>: \<open>parser/lexer.cpp\<close>, \<open>parser/parser.cpp\<close>.
      \<open>Sql_Text\<close>: statements as SQL text and the round trip.
    \<^item> \<open>Engine\<close>: \<open>IStorageEngine\<close> as a record of operations and its contract as the locale
      \<open>engine_contract\<close>. \<open>Lsm_Engine\<close>, \<open>Mock_Engine\<close>: the two engines and the interpretations of the
      contract on them. \<open>Engine_Wait\<close>: \<open>wait_for_compaction\<close> of a tree and of the engine.
    \<^item> \<open>Binder\<close>: \<open>executor/binder.cpp\<close>. \<open>Binder_Spec\<close>: what it accepts.
    \<^item> \<open>Result_Values\<close>, \<open>Float_Arith\<close>, \<open>Aggregates\<close>, \<open>Select_Plan\<close>, \<open>Executor\<close>: \<open>executor/executor.cpp\<close>, from
      values, arithmetic and aggregate states to the decisions taken before a query reads a row, and the
      three forms of SELECT.
    \<^item> \<open>Pushdown\<close>: the key bounds and the filter lose no row. \<open>Query_Scan\<close>: a loop over a cursor as a loop
      over rows. \<open>Query_Order\<close>: the orders of ORDER BY and GROUP BY. \<open>Aggregate_Spec\<close>: the values of the
      aggregates. \<open>Query_Answer\<close>, \<open>Query_Aggregate\<close>: the answers over any engine that keeps its contract.
      \<open>Query_Spec\<close>: the same from CREATE TABLE and INSERT on, on each engine. \<open>Sql_Script\<close>: the whole path,
      from SQL text to the result.

  \<^bold>\<open>Conventions.\<close> A C++ object is a record and an operation returns the new record; an operation
  that may throw returns \<open>Inl\<close> of the exception. Vectors and strings are lists, \<open>size_t\<close> counters of
  in-memory containers are \<open>nat\<close>, fields of 32 and 64 bits are words, \<open>int64_t\<close> and \<open>double\<close> values are
  their 64 bits. Undefined behaviour that the code does not exclude (signed overflow, reading past the end
  of a vector) is an error of its own. A file is the list of its bytes. Error messages are the code's
  without the path it appends. A loop that the code does not bound is a partial function whose \<open>None\<close>
  stands for not returning.

  \<^bold>\<open>What the lemmas show.\<close>
    \<^item> Formats: round trips of blocks, metadata, statistics, manifest and SQL text; decoding a truncated
      block is an error.
    \<^item> Builders and readers: building valid sorted rows cannot fail, and a scan of the written table
      returns exactly the rows of its range in either layout; block selection is complete, data skipping
      sound, and the caches transparent.
    \<^item> Tree: the invariant ties every table of the registry to its files and its rows, and every piece of
      an operation keeps it; draining ends with nothing pending; a scan returns exactly what was inserted,
      also in every interleaving with the background worker; \<open>wait_for_compaction\<close> returns when the
      worker and the caller get their turns and nobody inserts.
    \<^item> Front end: lexer and parser end on every input with a statement, a \<open>ParseError\<close> at a position of
      the input or the exception of a number that is out of range; the binder accepts an INSERT exactly
      when it fits the schema, and what it binds is well typed; well-typed expressions evaluate without
      exception.
    \<^item> Queries: each form of SELECT answers as its abstract description says (\<open>plain_answer\<close>,
      \<open>group_value\<close>, \<open>grouped_answer\<close>), which speaks of the rows of the table and not of cursors, blocks or
      plans: the order of values (\<open>value_cmp\<close>), LIMIT (\<open>limited\<close>) and the aggregates (\<open>typed_aggregate\<close>) are
      defined apart from the code's comparisons, loops and folds. A script given as text gets these answers;
      the two engines give the same answer.

  \<^bold>\<open>Bounds.\<close> Row counts of a table stay below \<open>2 ^ 32 - 7\<close>, strings below \<open>2 ^ 32\<close> bytes and files
  below \<open>2 ^ 63\<close> bytes, because the code stores counts in 32 and offsets in 64 bits; \<open>Table_Size\<close>
  derives the last bound from the bytes of the rows. The theorems on trees take a level \<open>L\<close> whose
  threshold the rows do not reach (\<open>capacity\<close>), so that no table is pushed below it, and
  \<open>(L + 2) * rows < 2 ^ 64\<close>, so that the table numbers do not wrap. Sums over INT64 columns are asked to
  stay below \<open>2 ^ 63\<close> in absolute value, and a MIN over doubles is asked to meet no \<open>+inf\<close>, a MAX no \<open>-inf\<close>,
  because the code starts its folds from the finite limits (\<open>totals_fit\<close>). The mutually recursive methods of the parser
  take fuel, \<open>6 * n + 12\<close> for a text of \<open>n\<close> characters, which is proved to last. 

  \<^bold>\<open>Conditions of the theorems.\<close> Tables are filled with rows of pairwise different keys: an overwritten
  key is delivered once for each layer that holds it. Rows and literals of queries hold no NaN, since NaN
  compares equal to every number; scans only need that the filter compares none. Operands fit their
  operators and the key is compared with integer literals (\<open>statement_ok\<close> of \<open>Pushdown\<close>): the binder
  accepts more, which then throws. A query without aggregates has no LIMIT 0 where the loop applies LIMIT
  (\<open>limit_ok\<close>): the code leaves one row there (\<open>limit_zero_keeps_row\<close>). The in-memory engine is not asked
  for the largest key, where it overflows. The recorded findings say what the code does in these cases.

  \<^bold>\<open>Parameters.\<close> \<open>std::sort\<close> is an argument of the executor; the theorems assume that it returns a
  sorted permutation when it is given a strict weak ordering that does not throw (\<open>std_sort_ok\<close>), which
  the insertion sort of \<open>Query_Order\<close> meets.

  \<^bold>\<open>Not modelled.\<close> The logger (output only); \<open>sst_footer.hpp\<close>, a structure nothing uses; failures of the
  operating system (files that cannot be opened, full disks); the clock of the worker's timed wait, which
  may end at any moment here, and spurious wake-ups of the waiting caller; several threads that insert
  into a tree without a worker, apart from the lemma \<open>flushes_of_two_threads\<close>; the reading of one cursor
  while other threads go on; two table names that denote one directory; the payload of a NaN.
\<close>

end
